(* ===== verification/Prelude.thy ===== *)
theory Prelude imports Complex_Main begin

text \<open>
  What the component theories share: results of code that may throw, strict replay folds
  and the contracts on them, and list lemmas for \<open>indexOf\<close>, \<open>splice\<close> and
  insertion-ordered maps.
\<close>

section \<open>Results\<close>

text \<open>
  A function of the source that may throw returns \<open>'x + 'a\<close>: \<open>Inl\<close> the thrown
  error, \<open>Inr\<close> the value.
\<close>

definition rbind :: "'x + 'a \<Rightarrow> ('a \<Rightarrow> 'x + 'b) \<Rightarrow> 'x + 'b" where
  "rbind r k = (case r of Inl x \<Rightarrow> Inl x | Inr a \<Rightarrow> k a)"

definition guard :: "bool \<Rightarrow> 'x \<Rightarrow> 'x + unit" where
  "guard b x = (if b then Inr () else Inl x)"

definition is_ok :: "'x + 'a \<Rightarrow> bool" where
  "is_ok r = (case r of Inl _ \<Rightarrow> False | Inr _ \<Rightarrow> True)"

named_theorems result_simps

lemma rbind_Inl [simp]: "rbind (Inl x) k = Inl x"
  and rbind_Inr [simp]: "rbind (Inr a) k = k a"
  by (simp_all add: rbind_def)

lemma rbind_Inr_right [simp]: "rbind r Inr = r"
  by (cases r) simp_all

lemma rbind_eq_Inr [result_simps]: "rbind r k = Inr b \<longleftrightarrow> (\<exists>a. r = Inr a \<and> k a = Inr b)"
  by (cases r) auto

lemma rbind_eq_Inl [result_simps]:
  "rbind r k = Inl x \<longleftrightarrow> r = Inl x \<or> (\<exists>a. r = Inr a \<and> k a = Inl x)"
  by (cases r) auto

lemma guard_eq_Inr [result_simps]: "guard b x = Inr u \<longleftrightarrow> b"
  by (simp add: guard_def)

lemma guard_eq_Inl [result_simps]: "guard b x = Inl y \<longleftrightarrow> \<not> b \<and> y = x"
  by (auto simp: guard_def)

lemma guard_True [simp]: "guard True x = Inr ()"
  and guard_False [simp]: "guard False x = Inl x"
  by (simp_all add: guard_def)

lemma is_ok_simps [simp]: "is_ok (Inr a) = True" "is_ok (Inl x) = False"
  by (simp_all add: is_ok_def)

lemma is_ok_iff: "is_ok r \<longleftrightarrow> (\<exists>a. r = Inr a)"
  by (cases r) auto

section \<open>Strict replay folds\<close>

text \<open>
  Many components rebuild their state by folding the session log and stop at the first
  event that violates their contract.
\<close>

fun run_steps :: "('s \<Rightarrow> 'e \<Rightarrow> 'x + 's) \<Rightarrow> 's \<Rightarrow> 'e list \<Rightarrow> 'x + 's" where
  "run_steps step s [] = Inr s"
| "run_steps step s (e # es) = rbind (step s e) (\<lambda>s'. run_steps step s' es)"

lemma run_steps_append:
  "run_steps step s (xs @ ys) = rbind (run_steps step s xs) (\<lambda>s'. run_steps step s' ys)"
  by (induction xs arbitrary: s) (auto simp: rbind_def split: sum.splits)

lemma run_steps_snoc:
  "run_steps step s (xs @ [e]) = rbind (run_steps step s xs) (\<lambda>s'. step s' e)"
  by (simp add: run_steps_append rbind_def split: sum.splits)

text \<open>
  The contract of such a fold: an invariant every accepted step keeps. The clients get
  that every accepted log keeps it, and that every prefix of an accepted log is accepted.
\<close>

locale fold_invariant =
  fixes step :: "'s \<Rightarrow> 'e \<Rightarrow> 'x + 's"
    and inv :: "'s \<Rightarrow> bool"
  assumes step_inv: "inv s \<Longrightarrow> step s e = Inr s' \<Longrightarrow> inv s'"
begin

lemma run_inv: "inv s \<Longrightarrow> run_steps step s es = Inr s' \<Longrightarrow> inv s'"
  by (induction es arbitrary: s) (auto simp: result_simps dest: step_inv)

lemma run_prefix:
  "inv s \<Longrightarrow> run_steps step s (xs @ ys) = Inr s' \<Longrightarrow>
   \<exists>t. run_steps step s xs = Inr t \<and> inv t \<and> run_steps step t ys = Inr s'"
  by (auto simp: run_steps_append result_simps intro: run_inv)

end

text \<open>
  The same with an invariant that also speaks about the events folded so far.
\<close>

locale fold_history =
  fixes step :: "'s \<Rightarrow> 'e \<Rightarrow> 'x + 's"
    and hinv :: "'e list \<Rightarrow> 's \<Rightarrow> bool"
  assumes step_hinv: "hinv pre s \<Longrightarrow> step s e = Inr s' \<Longrightarrow> hinv (pre @ [e]) s'"
begin

lemma run_hinv: "hinv pre s \<Longrightarrow> run_steps step s es = Inr s' \<Longrightarrow> hinv (pre @ es) s'"
proof (induction es arbitrary: pre s)
  case (Cons e es)
  then obtain t where "step s e = Inr t" "run_steps step t es = Inr s'"
    by (auto simp: result_simps)
  with Cons.prems(1) Cons.IH [of "pre @ [e]" t] step_hinv show ?case by auto
qed simp

end

sublocale fold_invariant \<subseteq> history: fold_history step "\<lambda>_. inv"
  by unfold_locales (rule step_inv)

text \<open>
  The contract of an incrementally maintained view of an append-only log: folding the
  unseen suffix onto the cached value is folding the whole log.
\<close>

locale log_view =
  fixes view :: "'e list \<Rightarrow> 'v \<Rightarrow> 'v"
  assumes view_append: "view (xs @ ys) v = view ys (view xs v)"
    and view_Nil: "view [] v = v"
begin

lemma view_resume:
  assumes "c = view (take n xs) v" and "n \<le> length xs"
  shows "view (drop n xs) c = view xs v"
  using assms view_append [of "take n xs" "drop n xs" v] by simp

lemma view_extend:
  assumes "c = view (take n xs) v" and "n \<le> length xs"
  shows "c = view (take n (xs @ ys)) v"
  using assms by simp

end

section \<open>Lists as JavaScript arrays\<close>

text \<open>\<open>Array.prototype.indexOf\<close>, with \<open>None\<close> for \<open>-1\<close>.\<close>

fun index_of :: "'a \<Rightarrow> 'a list \<Rightarrow> nat option" where
  "index_of x [] = None"
| "index_of x (y # ys) = (if y = x then Some 0 else map_option Suc (index_of x ys))"

text \<open>\<open>Array.prototype.splice\<close> at normalised coordinates.\<close>

definition splice :: "nat \<Rightarrow> nat \<Rightarrow> 'a list \<Rightarrow> 'a list \<Rightarrow> 'a list" where
  "splice start removed ins xs = take start xs @ ins @ drop (start + removed) xs"

definition slice :: "nat \<Rightarrow> nat \<Rightarrow> 'a list \<Rightarrow> 'a list" where
  "slice i j xs = take (j - i) (drop i xs)"

lemma index_of_None: "index_of x xs = None \<longleftrightarrow> x \<notin> set xs"
  by (induction xs) auto

lemma index_of_SomeD: "index_of x xs = Some i \<Longrightarrow> i < length xs \<and> xs ! i = x"
  by (induction xs arbitrary: i) (auto split: if_splits)

lemma index_of_nth_distinct: "distinct xs \<Longrightarrow> i < length xs \<Longrightarrow> index_of (xs ! i) xs = Some i"
proof (induction xs arbitrary: i)
  case (Cons y ys)
  then show ?case by (cases i) auto
qed simp

lemma length_splice:
  "start + removed \<le> length xs \<Longrightarrow>
   length (splice start removed ins xs) = length xs - removed + length ins"
  by (simp add: splice_def)

lemma splice_parts:
  assumes "i \<le> j" and "j < length xs"
  shows "xs = take i xs @ slice i (Suc j) xs @ drop (Suc j) xs"
proof -
  have "slice i (Suc j) xs @ drop (Suc j) xs = drop i xs"
    using assms append_take_drop_id [of "Suc j - i" "drop i xs"] by (simp add: slice_def)
  then show ?thesis by simp
qed

lemma set_slice_subset: "set (slice i j xs) \<subseteq> set xs"
  unfolding slice_def by (meson in_set_dropD in_set_takeD subsetI)

lemma slice_nonempty: "i \<le> j \<Longrightarrow> j < length xs \<Longrightarrow> slice i (Suc j) xs \<noteq> []"
  by (simp add: slice_def)

lemma set_splice:
  "set (splice start removed ins xs) =
   set (take start xs) \<union> set ins \<union> set (drop (start + removed) xs)"
  by (auto simp: splice_def)

lemma distinct_splice:
  assumes "distinct xs" and "distinct ins" and "set ins \<inter> set xs = {}"
  shows "distinct (splice start removed ins xs)"
proof -
  have sub: "set (take start xs) \<subseteq> set xs" "set (drop (start + removed) xs) \<subseteq> set xs"
    by (auto dest: in_set_takeD in_set_dropD)
  have "set (take start xs) \<inter> set (drop (start + removed) xs) = {}"
    using assms(1) set_take_disj_set_drop_if_distinct [of xs start "start + removed"] by simp
  with assms sub show ?thesis
    by (auto simp: splice_def)
qed

lemma map_filter_snoc [simp]:
  "List.map_filter f (xs @ [x]) = List.map_filter f xs @ (case f x of Some y \<Rightarrow> [y] | None \<Rightarrow> [])"
  by (simp add: List.map_filter_def split: option.splits)

section \<open>Insertion-ordered maps\<close>

text \<open>
  A JavaScript \<open>Map\<close> iterates in insertion order: an association list whose update
  keeps the position of a key it already holds.
\<close>

fun map_set :: "'k \<Rightarrow> 'v \<Rightarrow> ('k \<times> 'v) list \<Rightarrow> ('k \<times> 'v) list" where
  "map_set k v [] = [(k, v)]"
| "map_set k v ((k', v') # m) = (if k' = k then (k, v) # m else (k', v') # map_set k v m)"

definition map_delete :: "'k \<Rightarrow> ('k \<times> 'v) list \<Rightarrow> ('k \<times> 'v) list" where
  "map_delete k m = filter (\<lambda>p. fst p \<noteq> k) m"

abbreviation map_keys :: "('k \<times> 'v) list \<Rightarrow> 'k list" where
  "map_keys m \<equiv> map fst m"

abbreviation map_values :: "('k \<times> 'v) list \<Rightarrow> 'v list" where
  "map_values m \<equiv> map snd m"

lemma map_of_map_set [simp]: "map_of (map_set k v m) = (map_of m)(k \<mapsto> v)"
  by (induction k v m rule: map_set.induct) (auto simp: fun_eq_iff)

lemma map_of_map_delete [simp]: "map_of (map_delete k m) = (map_of m)(k := None)"
  by (induction m) (auto simp: map_delete_def fun_eq_iff)

lemma set_keys_map_set [simp]: "set (map_keys (map_set k v m)) = insert k (set (map_keys m))"
  by (induction k v m rule: map_set.induct) auto

lemma distinct_map_set [simp]: "distinct (map_keys m) \<Longrightarrow> distinct (map_keys (map_set k v m))"
proof (induction k v m rule: map_set.induct)
  case (2 k v k' v' m)
  then show ?case using set_keys_map_set [of k v m] by auto
qed simp

lemma distinct_map_delete [simp]: "distinct (map_keys m) \<Longrightarrow> distinct (map_keys (map_delete k m))"
  by (simp add: map_delete_def distinct_map_filter)

lemma map_keys_map_set:
  "map_keys (map_set k v m) = (if k \<in> set (map_keys m) then map_keys m else map_keys m @ [k])"
  by (induction k v m rule: map_set.induct) auto

lemma set_map_delete: "p \<in> set (map_delete k m) \<longleftrightarrow> p \<in> set m \<and> fst p \<noteq> k"
  by (auto simp: map_delete_def)

lemma set_map_set: "p \<in> set (map_set k v m) \<Longrightarrow> p = (k, v) \<or> p \<in> set m"
  by (induction k v m rule: map_set.induct) (auto split: if_splits)

lemma map_set_fresh: "k \<notin> set (map_keys m) \<Longrightarrow> map_set k v m = m @ [(k, v)]"
  by (induction k v m rule: map_set.induct) auto

lemma map_of_None_keys: "map_of m k = None \<longleftrightarrow> k \<notin> set (map_keys m)"
  by (simp add: map_of_eq_None_iff)

section \<open>Integer division\<close>

lemma div_bounds: "0 < k \<Longrightarrow> k * (x div k) \<le> x \<and> x < k * (x div k) + (k :: int)"
  using mult_div_mod_eq [of k x] pos_mod_sign [of k x] pos_mod_bound [of k x] by linarith

section \<open>Decimal rendering\<close>

text \<open>A natural number interpolated into a template string.\<close>

fun show_nat :: "nat \<Rightarrow> string" where
  "show_nat n = (if n < 10 then [char_of (48 + n)] else show_nat (n div 10) @ [char_of (48 + n mod 10)])"

declare show_nat.simps [simp del]

lemma digit_inj: "m < 10 \<Longrightarrow> n < 10 \<Longrightarrow> char_of (48 + m :: nat) = (char_of (48 + n) :: char) \<Longrightarrow> m = n"
  by (auto dest!: arg_cong [of _ _ "of_char :: char \<Rightarrow> nat"])

lemma show_nat_nonempty: "show_nat n \<noteq> []"
  by (subst show_nat.simps) simp

lemma show_nat_inj: "show_nat m = show_nat n \<Longrightarrow> m = n"
proof (induction m arbitrary: n rule: show_nat.induct)
  case (1 m)
  show ?case
  proof (cases "m < 10 \<or> n < 10")
    case True
    then show ?thesis
      using "1.prems" show_nat_nonempty [of "m div 10"] show_nat_nonempty [of "n div 10"]
      by (subst (asm) (1 2) show_nat.simps) (auto split: if_splits dest: digit_inj)
  next
    case False
    then have "show_nat (m div 10) = show_nat (n div 10)"
      and "char_of (48 + m mod 10) = (char_of (48 + n mod 10) :: char)"
      using "1.prems" by (subst (asm) (1 2) show_nat.simps; simp)+
    then have "m div 10 = n div 10" and "m mod 10 = n mod 10"
      using "1.IH" False by (auto dest: digit_inj)
    then show ?thesis by (metis div_mult_mod_eq)
  qed
qed


section \<open>Strings\<close>

text \<open>\<open>String.prototype.trim\<close> on the characters of the model.\<close>

definition white_space :: "char \<Rightarrow> bool" where
  "white_space c \<longleftrightarrow> of_char c \<in> {9, 10, 11, 12, 13, 32, 160 :: nat}"

definition blank :: "string \<Rightarrow> bool" where
  "blank s \<longleftrightarrow> list_all white_space s"

definition trim :: "string \<Rightarrow> string" where
  "trim s = rev (dropWhile white_space (rev (dropWhile white_space s)))"

text \<open>A trimmed string is empty or starts and ends with a character that is no white space.\<close>

lemma dropWhile_hd: "dropWhile P xs = xs \<longleftrightarrow> xs = [] \<or> \<not> P (hd xs)"
  by (cases xs) (simp_all, metis impossible_Cons length_dropWhile_le)

lemma trim_fixed: "trim s = s \<longleftrightarrow> s = [] \<or> (\<not> white_space (hd s) \<and> \<not> white_space (last s))"
proof
  assume t: "trim s = s"
  have "length (trim s) \<le> length (dropWhile white_space s)"
    by (simp add: trim_def) (metis length_dropWhile_le length_rev)
  then have "dropWhile white_space s = s"
    using t length_dropWhile_le [of white_space s]
    by (metis dropWhile_eq_drop drop_all le_antisym length_drop diff_diff_cancel diff_is_0_eq drop0 nat_le_linear)
  moreover from this t have "dropWhile white_space (rev s) = rev s"
    by (metis rev_rev_ident trim_def)
  ultimately show "s = [] \<or> (\<not> white_space (hd s) \<and> \<not> white_space (last s))"
    by (auto simp: dropWhile_hd hd_rev)
next
  assume "s = [] \<or> (\<not> white_space (hd s) \<and> \<not> white_space (last s))"
  then have "dropWhile white_space s = s" and "dropWhile white_space (rev s) = rev s"
    by (auto simp: dropWhile_hd hd_rev)
  then show "trim s = s" by (simp add: trim_def)
qed

lemma trim_idem: "trim (trim s) = trim s"
proof (cases "trim s = []")
  case True
  have "trim [] = []" by (simp add: trim_def)
  with True show ?thesis by simp
next
  case False
  let ?d = "dropWhile white_space s" let ?e = "dropWhile white_space (rev ?d)"
  have e: "?e \<noteq> []" using False by (simp add: trim_def)
  then have "?d \<noteq> []" by (metis dropWhile.simps(1) rev.simps(1))
  have last: "last (trim s) = hd ?e" using e by (simp add: trim_def last_rev)
  have "last ?e = last (rev ?d)"
    using e by (metis dropWhile_append3 last_appendR takeWhile_dropWhile_id)
  then have "hd (trim s) = hd ?d" using e \<open>?d \<noteq> []\<close> by (simp add: trim_def hd_rev last_rev)
  then show ?thesis
    unfolding trim_fixed using last e \<open>?d \<noteq> []\<close> hd_dropWhile [of white_space] by metis
qed

end
