(* ===== verification/Json.thy ===== *)
theory Json imports Prelude "HOL-Library.Log_Nat" begin

text \<open>
  The lossless JSON values the session log stores (\<open>JsonValue\<close> in
  packages/core/session/src/json.ts), the safe integers of JavaScript, and the rounding of
  integer arithmetic on doubles. Numbers are rationals: every finite double is one. Objects
  keep their keys in insertion order.
\<close>

section \<open>Values\<close>

datatype json =
    JNull
  | JBool bool
  | JNum rat
  | JStr string
  | JArr "json list"
  | JObj "(string \<times> json) list"

text \<open>Property reads of a value typed \<open>unknown\<close>: \<open>None\<close> is \<open>undefined\<close>.\<close>

fun get_prop :: "string \<Rightarrow> json \<Rightarrow> json option" where
  "get_prop k (JObj kvs) = map_of kvs k"
| "get_prop k _ = None"

fun is_record :: "json \<Rightarrow> bool" where
  "is_record (JObj _) = True"
| "is_record _ = False"

fun has_own :: "json \<Rightarrow> string \<Rightarrow> bool" where
  "has_own (JObj kvs) k = (k \<in> set (map fst kvs))"
| "has_own _ _ = False"

fun object_keys :: "json \<Rightarrow> string list" where
  "object_keys (JObj kvs) = map fst kvs"
| "object_keys _ = []"

definition has_exact_keys :: "json \<Rightarrow> string list \<Rightarrow> bool" where
  "has_exact_keys v ks = (length (object_keys v) = length ks \<and> list_all (has_own v) ks)"

fun is_string :: "json option \<Rightarrow> bool" where
  "is_string (Some (JStr _)) = True"
| "is_string _ = False"

fun is_number :: "json option \<Rightarrow> bool" where
  "is_number (Some (JNum _)) = True"
| "is_number _ = False"

text \<open>An object of the language has each key once.\<close>

fun wf_json :: "json \<Rightarrow> bool" where
  "wf_json (JArr xs) = list_all wf_json xs"
| "wf_json (JObj kvs) = (distinct (map fst kvs) \<and> list_all (\<lambda>p. wf_json (snd p)) kvs)"
| "wf_json _ = True"

lemma has_own_iff: "has_own v k \<longleftrightarrow> get_prop k v \<noteq> None"
  by (cases v) (auto simp: map_of_eq_None_iff)

lemma get_prop_wf: "wf_json v \<Longrightarrow> get_prop k v = Some w \<Longrightarrow> wf_json w"
  by (cases v) (auto simp: list_all_iff dest: map_of_SomeD)

lemma distinct_object_keys: "wf_json v \<Longrightarrow> distinct (object_keys v)"
  by (cases v) auto

lemma set_object_keys: "set (object_keys v) = {k. has_own v k}"
  by (cases v) auto

lemma has_exact_keys_iff:
  assumes "wf_json v" and "distinct ks"
  shows "has_exact_keys v ks \<longleftrightarrow> set (object_keys v) = set ks \<and> (is_record v \<or> ks = [])"
proof -
  have d: "distinct (object_keys v)" using assms(1) by (rule distinct_object_keys)
  have "has_exact_keys v ks \<longleftrightarrow>
      card (set (object_keys v)) = card (set ks) \<and> set ks \<subseteq> set (object_keys v)"
    using distinct_card [OF d] distinct_card [OF assms(2)]
    by (auto simp: has_exact_keys_def list_all_iff subset_iff) (auto simp: set_object_keys)
  also have "\<dots> \<longleftrightarrow> set (object_keys v) = set ks"
    by (metis card_subset_eq List.finite_set order_refl)
  also have "\<dots> \<longleftrightarrow> set (object_keys v) = set ks \<and> (is_record v \<or> ks = [])"
    by (cases v) auto
  finally show ?thesis .
qed

section \<open>Structural equality\<close>

text \<open>
  \<open>isDeepEqualJson\<close> of packages/core/session/src/surface.ts: key order does not matter.
\<close>

function (sequential) isDeepEqualJson :: "json \<Rightarrow> json \<Rightarrow> bool" where
  "isDeepEqualJson (JArr xs) (JArr ys) =
     (length xs = length ys \<and> list_all (\<lambda>(x, y). isDeepEqualJson x y) (zip xs ys))"
| "isDeepEqualJson (JObj a) (JObj b) =
     (length a = length b
      \<and> list_all (\<lambda>(k, v). case map_of b k of None \<Rightarrow> False | Some w \<Rightarrow> isDeepEqualJson v w) a)"
| "isDeepEqualJson a b = (a = b)"
  by pat_completeness auto
termination
proof (relation "measure (\<lambda>(a, b). size a)", goal_cases)
  case (2 xs ys z x y)
  then have "x \<in> set xs" by (auto dest: set_zip_leftD)
  then show ?case by (auto simp: less_Suc_eq_le intro: size_list_estimation')
next
  case (3 a b z k v w)
  then have "(k, v) \<in> set a" by simp
  then have "size v \<le> size_list (size_prod (\<lambda>_. 0) size) a"
    by (rule size_list_estimation') simp
  then show ?case by (simp add: less_Suc_eq_le)
qed simp

lemma deep_equal_refl: "wf_json a \<Longrightarrow> isDeepEqualJson a a"
proof (induction a)
  case (JArr xs)
  then show ?case by (simp add: list_all_iff zip_same_conv_map)
next
  case (JObj kvs)
  have "map_of kvs k = Some v \<and> isDeepEqualJson v v" if kv: "(k, v) \<in> set kvs" for k v
  proof
    show "map_of kvs k = Some v"
      using JObj.prems kv by (simp add: map_of_is_SomeI)
    have "wf_json v" using JObj.prems kv by (auto simp: list_all_iff)
    then show "isDeepEqualJson v v"
      using JObj.IH [of "(k, v)" v] kv by simp
  qed
  then show ?case by (auto simp: list_all_iff)
qed simp_all

lemma deep_equal_objI:
  assumes "length a = length b"
    and "\<And>k v. (k, v) \<in> set a \<Longrightarrow> \<exists>w. map_of b k = Some w \<and> isDeepEqualJson v w"
  shows "isDeepEqualJson (JObj a) (JObj b)"
  using assms by (fastforce simp: list_all_iff)

section \<open>Safe integers and integer arithmetic on doubles\<close>

definition max_safe :: int where
  "max_safe = 9007199254740991"

definition safe_int :: "int \<Rightarrow> bool" where
  "safe_int n \<longleftrightarrow> \<bar>n\<bar> \<le> max_safe"

text \<open>\<open>Number.isSafeInteger\<close> on a value typed \<open>unknown\<close>.\<close>

definition is_safe_integer :: "rat \<Rightarrow> bool" where
  "is_safe_integer r \<longleftrightarrow> r = of_int \<lfloor>r\<rfloor> \<and> safe_int \<lfloor>r\<rfloor>"

fun isSafeInteger :: "json option \<Rightarrow> bool" where
  "isSafeInteger (Some (JNum r)) = is_safe_integer r"
| "isSafeInteger _ = False"

fun int_of :: "json option \<Rightarrow> int" where
  "int_of (Some (JNum r)) = \<lfloor>r\<rfloor>"
| "int_of _ = 0"

definition JInt :: "int \<Rightarrow> json" where
  "JInt n = JNum (of_int n)"

text \<open>
  The result of adding or subtracting two integers in double precision: the exact value
  rounded to 53 significant bits, ties to even. (Exponent overflow needs operands far above
  the safe integers and is outside this definition.)
\<close>

definition round_half_even :: "nat \<Rightarrow> nat \<Rightarrow> nat" where
  "round_half_even n u =
     (let q = n div u; r = n mod u
      in if 2 * r < u \<or> (2 * r = u \<and> even q) then q else Suc q)"

definition fl :: "int \<Rightarrow> int" where
  "fl x =
     (let n = nat \<bar>x\<bar>; u = 2 ^ (floorlog 2 n - 53)
      in sgn x * int (round_half_even n u * u))"

lemma fl_exact:
  assumes "\<bar>x\<bar> < 2 ^ 53"
  shows "fl x = x"
proof -
  have "floorlog 2 (nat \<bar>x\<bar>) \<le> 53"
    using assms by (simp add: floorlog_le_iff)
  then show ?thesis
    by (simp add: fl_def Let_def round_half_even_def) (metis abs_mult_sgn mult.commute)
qed

lemma fl_large_power:
  assumes "53 \<le> k" and "2 ^ k \<le> \<bar>x\<bar>"
  shows "2 ^ k \<le> \<bar>fl x\<bar>"
proof -
  define n where "n = nat \<bar>x\<bar>"
  define b where "b = floorlog 2 n"
  define u where "u = (2::nat) ^ (b - 53)"
  have "int (2 ^ k) \<le> int n" using assms(2) by (simp add: n_def)
  then have n: "2 ^ k \<le> n" by (simp only: of_nat_le_iff)
  then have "n \<noteq> 0" by (metis not_less_eq_eq power_eq_0_iff le_zero_eq zero_neq_numeral)
  have b: "k < b" using n floorlog_leD [of 2 n k] by (auto simp: b_def not_le [symmetric])
  have "2 ^ (b - 1) \<le> n"
    using \<open>n \<noteq> 0\<close> floorlog_bounds [of n 2] by (simp add: b_def)
  moreover have pow: "(2::nat) ^ (b - 1) = 2 ^ 52 * u"
    using b assms(1) by (simp only: u_def power_add [symmetric]) (rule arg_cong [of _ _ "(^) 2"], simp)
  ultimately have "2 ^ 52 * u \<le> n" by simp
  then have "2 ^ 52 \<le> n div u"
    by (simp add: u_def less_eq_div_iff_mult_less_eq)
  then have q: "2 ^ 52 \<le> round_half_even n u"
    by (auto simp: round_half_even_def Let_def)
  have "2 ^ k \<le> (2::nat) ^ (b - 1)" using b by (intro power_increasing) simp_all
  also have "\<dots> \<le> round_half_even n u * u"
    unfolding pow using q by (rule mult_le_mono1)
  finally have k: "int (2 ^ k) \<le> int (round_half_even n u * u)"
    by (simp only: of_nat_le_iff)
  have "x \<noteq> 0" using \<open>n \<noteq> 0\<close> by (auto simp: n_def)
  then have "\<bar>fl x\<bar> = int (round_half_even n u * u)"
    by (simp add: fl_def Let_def n_def b_def u_def abs_mult)
  with k show ?thesis by simp
qed

lemma fl_large: "2 ^ 53 \<le> \<bar>x\<bar> \<Longrightarrow> 2 ^ 53 \<le> \<bar>fl x\<bar>"
  using fl_large_power [of 53 x] by simp

lemma fl_nonneg: "0 \<le> x \<Longrightarrow> 0 \<le> fl x"
  by (cases "x = 0") (simp_all add: fl_def Let_def sgn_if)

lemma safe_fl_iff: "safe_int (fl x) \<longleftrightarrow> safe_int x"
  using fl_exact [of x] fl_large [of x]
  by (cases "\<bar>x\<bar> < 2 ^ 53") (auto simp: safe_int_def max_safe_def)

lemma safe_fl_eq: "safe_int x \<Longrightarrow> fl x = x"
  by (rule fl_exact) (simp add: safe_int_def max_safe_def)

lemma floorlog_between:
  "2 ^ (w - 1) \<le> x \<Longrightarrow> x < 2 ^ w \<Longrightarrow> floorlog 2 x = w"
  using floorlog_geI [of 2 w x] floorlog_leI [of x 2 w] by simp

lemma fl_two53: "fl (2 ^ 53) = 2 ^ 53"
proof -
  have "floorlog 2 9007199254740992 = 54" by (rule floorlog_between) simp_all
  then show ?thesis by (simp add: fl_def Let_def round_half_even_def)
qed

text \<open>The first integer that doubles miss rounds down to the power of two below it.\<close>

lemma fl_two53_succ: "fl (2 ^ 53 + 1) = 2 ^ 53"
proof -
  have "floorlog 2 9007199254740993 = 54" by (rule floorlog_between) simp_all
  then show ?thesis by (simp add: fl_def Let_def round_half_even_def)
qed

lemma fl_above_two53:
  assumes "2 ^ 53 + 2 \<le> x"
  shows "2 ^ 53 + 2 \<le> fl x"
proof (cases "2 ^ 54 \<le> x")
  case True
  then have "2 ^ 54 \<le> \<bar>fl x\<bar>" using fl_large_power [of 54 x] by simp
  moreover have "0 \<le> fl x" using assms by (intro fl_nonneg) simp
  ultimately show ?thesis by simp
next
  case False
  define n where "n = nat x"
  have x: "x = int n" using assms by (simp add: n_def)
  have n: "9007199254740994 \<le> n" "n < 18014398509481984" using assms False by (simp_all add: n_def nat_less_iff)
  have "floorlog 2 n = 54" using n by (intro floorlog_between) simp_all
  then have fl: "fl x = int (round_half_even n 2 * 2)"
    using n by (simp add: fl_def Let_def x)
  have "4503599627370497 \<le> n div 2" using n by simp
  then have "4503599627370497 \<le> round_half_even n 2"
    by (simp add: round_half_even_def Let_def)
  then show ?thesis by (simp add: fl)
qed

lemma is_safe_integer_of_int [simp]: "is_safe_integer (of_int n) = safe_int n"
  by (simp add: is_safe_integer_def)

lemma isSafeInteger_JInt [simp]: "isSafeInteger (Some (JInt n)) = safe_int n"
  and int_of_JInt [simp]: "int_of (Some (JInt n)) = n"
  by (simp_all add: JInt_def)

lemma isSafeIntegerE:
  assumes "isSafeInteger v"
  obtains n where "v = Some (JInt n)" and "safe_int n" and "int_of v = n"
proof (cases v rule: isSafeInteger.cases)
  case (1 r)
  with assms have "r = of_int \<lfloor>r\<rfloor>" "safe_int \<lfloor>r\<rfloor>" by (auto simp: is_safe_integer_def)
  with 1 show ?thesis by (intro that [of "\<lfloor>r\<rfloor>"]) (auto simp: JInt_def)
qed (use assms in auto)

end
