(* ===== verification/SessionTypes.thy ===== *)
theory SessionTypes imports Json begin

text \<open>
  The data of the session log: messages and content blocks (packages/llm/llm/src), the event
  vocabulary and the event envelope (packages/core/session/src/types.ts). The event map of
  the source is merge-extensible: \<open>'p\<close> is the payload type of the events other packages
  add to it. The envelope fields the source reads as \<open>unknown\<close> (\<open>surfaceOp\<close>,
  \<open>sourceEventSeqs\<close>) stay raw JSON.
\<close>

section \<open>Messages\<close>

datatype content_block =
    TextBlock string
  | ReasoningBlock string
  | ImageBlock json
  | ToolCallBlock (tc_id: string) (tc_name: string) (tc_arguments: string)
  | ToolResultBlock string "content_block list" "bool option"
  | PluginBlock string json

datatype message_source =
    UserSource
  | PluginSource string json
  | ModelSource string string "json option"
  | ToolSource string
  | OtherSource string json

datatype role = RoleSystem | RoleUser | RoleAssistant

record message =
  msg_id :: string
  msg_role :: role
  msg_content :: "content_block list"
  msg_source :: message_source

fun tool_call_id :: "content_block \<Rightarrow> string option" where
  "tool_call_id (ToolCallBlock i _ _) = Some i"
| "tool_call_id _ = None"

fun source_call_id :: "message_source \<Rightarrow> string option" where
  "source_call_id (ToolSource c) = Some c"
| "source_call_id _ = None"

section \<open>Request state\<close>

record llm_call_config =
  cfg_provider :: string
  cfg_model :: string
  cfg_reasoningEffort :: "string option"
  cfg_temperature :: "rat option"
  cfg_maxTokens :: "rat option"
  cfg_stop :: "string list option"

record adapter_defaults =
  ad_reasoningEffort :: bool
  ad_maxTokens :: bool

record tool_schema =
  ts_name :: string
  ts_description :: string
  ts_parameters :: json

record epoch_header =
  eh_config :: llm_call_config
  eh_adapterDefaults :: "adapter_defaults option"
  eh_system :: "string option"
  eh_tools :: "tool_schema list option"

datatype header_reason = HeaderInitial | HeaderResume | HeaderChange

record request_context =
  rc_provider :: string
  rc_model :: string
  rc_contextWindow :: "rat option"

section \<open>Events\<close>

datatype turn_end_reason =
    Completed
  | Aborted json
  | Blocked
  | Failed json
  | MaxTokens
  | Interrupted

record tool_result =
  tr_turn :: int
  tr_step :: int
  tr_message :: message
  tr_error :: "(string \<times> string) option"
  tr_meta :: "json option"

datatype 'p event_data =
    TurnStart int
  | TurnEnd int turn_end_reason
  | StepStart int int
  | StepEnd int int
  | UserMessage message
  | AssistantChunk int int json
  | AssistantMessage int int message "json option" bool
  | ToolCall int int string string string
  | ToolResult tool_result
  | TodoWrite json
  | RequestHeader epoch_header header_reason
  | RequestContext request_context
  | EndSeed
  | Plugin 'p

record 'p event =
  ev_data :: "'p event_data"
  ev_seq :: nat
  ev_time :: int
  ev_ignorable :: bool
  ev_surfaceOp :: "json option"
  ev_sources :: "json option"

text \<open>The three message-producing event types.\<close>

fun isSurfaceEligibleType :: "'p event_data \<Rightarrow> bool" where
  "isSurfaceEligibleType (UserMessage _) = True"
| "isSurfaceEligibleType (AssistantMessage _ _ _ _ _) = True"
| "isSurfaceEligibleType (ToolResult _) = True"
| "isSurfaceEligibleType _ = False"

fun is_tool_result :: "'p event_data \<Rightarrow> bool" where
  "is_tool_result (ToolResult _) = True"
| "is_tool_result _ = False"

fun is_assistant_message :: "'p event_data \<Rightarrow> bool" where
  "is_assistant_message (AssistantMessage _ _ _ _ _) = True"
| "is_assistant_message _ = False"

text \<open>\<open>deriveEventMessage\<close>: the per-event projection into model history.\<close>

fun deriveEventMessage :: "'p event \<Rightarrow> message option" where
  "deriveEventMessage e =
     (case ev_data e of
        UserMessage m \<Rightarrow> Some m
      | AssistantMessage _ _ m _ _ \<Rightarrow> if msg_content m = [] then None else Some m
      | ToolResult r \<Rightarrow> Some (tr_message r)
      | _ \<Rightarrow> None)"

lemma derive_only_surface:
  "deriveEventMessage e = Some m \<Longrightarrow> isSurfaceEligibleType (ev_data e)"
  by (cases "ev_data e") auto

end
