(* ===== verification/Surface.thy ===== *)
theory Surface imports SessionTypes begin

text \<open>
  packages/core/session/src/surface.ts: the ordered surface over the session log. Events
  either append to it or replace an inclusive range of it; the fold validates every event
  before it changes the state. \<open>SurfaceManager\<close> is the incremental form with a cached
  plan for the next event.
\<close>

section \<open>Operations and their validation\<close>

datatype surface_op = Append | Replace (rep_start: nat) (rep_end: nat)

datatype surface_error =
    NotContiguous nat nat
  | OpForbidden
  | SourcesForbidden
  | OpRequired
  | OpInvalid
  | ReplaceInvalid
  | SourcesNotArray
  | SourcesEmpty
  | SourcesNotSeqs
  | SourcesDuplicate
  | SourcesNotEarlier nat
  | SourcesMissing "nat list"
  | StartNotFound nat
  | EndNotFound nat
  | RangeReversed nat nat
  | RewriteCount
  | RewriteTarget
  | RewriteContent

fun isEventSeq :: "json \<Rightarrow> bool" where
  "isEventSeq (JNum r) = (is_safe_integer r \<and> 0 \<le> r)"
| "isEventSeq _ = False"

definition seq_of :: "json \<Rightarrow> nat" where
  "seq_of v = nat (int_of (Some v))"

lemma isEventSeq_JInt [simp]: "isEventSeq (JInt n) \<longleftrightarrow> safe_int n \<and> 0 \<le> n"
  by (simp add: JInt_def)

lemma seq_of_JInt [simp]: "seq_of (JInt n) = nat n"
  by (simp add: seq_of_def)

definition isReplaceOp :: "json \<Rightarrow> bool" where
  "isReplaceOp v \<longleftrightarrow>
     length (object_keys v) = 3 \<and> has_own v ''op'' \<and> has_own v ''start'' \<and> has_own v ''end''
     \<and> get_prop ''op'' v = Some (JStr ''replace'')
     \<and> isEventSeq (the (get_prop ''start'' v)) \<and> isEventSeq (the (get_prop ''end'' v))"

definition surfaceOpOf :: "'p event \<Rightarrow> surface_error + surface_op option" where
  "surfaceOpOf e =
     (if \<not> isSurfaceEligibleType (ev_data e) then
        (if ev_surfaceOp e \<noteq> None then Inl OpForbidden
         else if ev_sources e \<noteq> None then Inl SourcesForbidden
         else Inr None)
      else
        (case ev_surfaceOp e of
           None \<Rightarrow> Inl OpRequired
         | Some op \<Rightarrow>
             if op = JStr ''append'' then Inr (Some Append)
             else if \<not> is_record op then Inl OpInvalid
             else if \<not> isReplaceOp op then Inl ReplaceInvalid
             else Inr (Some (Replace (seq_of (the (get_prop ''start'' op)))
                                     (seq_of (the (get_prop ''end'' op)))))))"

definition isSurfaceEvent :: "'p event \<Rightarrow> bool" where
  "isSurfaceEvent e \<longleftrightarrow> isSurfaceEligibleType (ev_data e) \<and> ev_surfaceOp e \<noteq> None"

definition isAppendSurfaceEvent :: "'p event \<Rightarrow> bool" where
  "isAppendSurfaceEvent e \<longleftrightarrow> isSurfaceEvent e \<and> ev_surfaceOp e = Some (JStr ''append'')"

definition isReplacementSurfaceEvent :: "'p event \<Rightarrow> bool" where
  "isReplacementSurfaceEvent e \<longleftrightarrow> isSurfaceEvent e \<and> ev_surfaceOp e \<noteq> Some (JStr ''append'')"

text \<open>The loop over the cited sources: the set so far and the first seq that is not earlier.\<close>

fun scan_sources ::
  "nat \<Rightarrow> json list \<Rightarrow> nat set \<Rightarrow> nat option \<Rightarrow> surface_error + (nat set \<times> nat option)" where
  "scan_sources cur [] acc late = Inr (acc, late)"
| "scan_sources cur (v # vs) acc late =
     (if \<not> isEventSeq v then Inl SourcesNotSeqs
      else scan_sources cur vs (insert (seq_of v) acc)
             (if late = None \<and> cur \<le> seq_of v then Some (seq_of v) else late))"

definition cited_sources :: "'p event \<Rightarrow> surface_error + nat set" where
  "cited_sources e =
     (case ev_sources e of
        None \<Rightarrow> Inr {}
      | Some (JArr raw) \<Rightarrow>
          if raw = [] \<and> \<not> is_assistant_message (ev_data e) then Inl SourcesEmpty
          else rbind (scan_sources (ev_seq e) raw {} None) (\<lambda>(srcs, late).
            if card srcs \<noteq> length raw then Inl SourcesDuplicate
            else case late of Some s \<Rightarrow> Inl (SourcesNotEarlier s) | None \<Rightarrow> Inr srcs)
      | Some _ \<Rightarrow> Inl SourcesNotArray)"

definition assertProvenance :: "'p event \<Rightarrow> nat list \<Rightarrow> surface_error + unit" where
  "assertProvenance e shadowed =
     rbind (cited_sources e) (\<lambda>srcs.
       let missing = filter (\<lambda>s. s \<notin> srcs) shadowed
       in if missing \<noteq> [] then Inl (SourcesMissing missing) else Inr ())"

section \<open>The fold state and its transitions\<close>

record fold_state =
  nodes :: "nat list"
  replaceGeneration :: nat

definition createFoldState :: fold_state where
  "createFoldState = \<lparr>nodes = [], replaceGeneration = 0\<rparr>"

record replacement =
  rp_seq :: nat
  rp_start :: nat
  rp_end :: nat
  rp_shadowed :: "nat list"

datatype surface_plan =
    PlanAppend nat
  | PlanReplace replacement nat nat

definition replacementRange ::
  "fold_state \<Rightarrow> nat \<Rightarrow> nat \<Rightarrow> surface_error + (nat \<times> nat \<times> nat list)" where
  "replacementRange st a b =
     (case index_of a (nodes st) of
        None \<Rightarrow> Inl (StartNotFound a)
      | Some i \<Rightarrow>
          (case index_of b (nodes st) of
             None \<Rightarrow> Inl (EndNotFound b)
           | Some j \<Rightarrow>
               if j < i then Inl (RangeReversed a b)
               else Inr (i, j, slice i (Suc j) (nodes st))))"

text \<open>
  A tool result may be rewritten in its content only. The comparison drops the content of
  the first block on both sides and compares the rest structurally.
\<close>

fun source_equal :: "message_source \<Rightarrow> message_source \<Rightarrow> bool" where
  "source_equal (PluginSource p a) (PluginSource q b) = (p = q \<and> isDeepEqualJson a b)"
| "source_equal (ModelSource p m a) (ModelSource q n b) =
     (p = q \<and> m = n \<and> rel_option isDeepEqualJson a b)"
| "source_equal (OtherSource k a) (OtherSource l b) = (k = l \<and> isDeepEqualJson a b)"
| "source_equal a b = (a = b)"

fun without_content :: "content_block \<Rightarrow> content_block" where
  "without_content (ToolResultBlock i _ err) = ToolResultBlock i [] err"
| "without_content (PluginBlock t (JObj kvs)) =
     PluginBlock t (JObj (filter (\<lambda>kv. fst kv \<noteq> ''content'') kvs))"
| "without_content b = b"

fun block_equal :: "content_block \<Rightarrow> content_block \<Rightarrow> bool" where
  "block_equal (ImageBlock a) (ImageBlock b) = isDeepEqualJson a b"
| "block_equal (PluginBlock s a) (PluginBlock t b) = (s = t \<and> isDeepEqualJson a b)"
| "block_equal a b = (a = b)"

fun first_block :: "message \<Rightarrow> content_block option" where
  "first_block m = (case msg_content m of [] \<Rightarrow> None | b # _ \<Rightarrow> Some (without_content b))"

definition same_but_content :: "tool_result \<Rightarrow> tool_result \<Rightarrow> bool" where
  "same_but_content a b \<longleftrightarrow>
     tr_turn a = tr_turn b \<and> tr_step a = tr_step b
     \<and> msg_id (tr_message a) = msg_id (tr_message b)
     \<and> msg_role (tr_message a) = msg_role (tr_message b)
     \<and> source_equal (msg_source (tr_message a)) (msg_source (tr_message b))
     \<and> rel_option block_equal (first_block (tr_message a)) (first_block (tr_message b))
     \<and> tr_error a = tr_error b
     \<and> rel_option isDeepEqualJson (tr_meta a) (tr_meta b)"

definition log_at :: "'p event list \<Rightarrow> nat \<Rightarrow> nat \<Rightarrow> 'p event option" where
  "log_at evs base s = (if base \<le> s \<and> s - base < length evs then Some (evs ! (s - base)) else None)"

definition assertToolResultRewrite ::
  "'p event \<Rightarrow> nat list \<Rightarrow> 'p event list \<Rightarrow> nat \<Rightarrow> surface_error + unit" where
  "assertToolResultRewrite e shadowed evs base =
     (case ev_data e of
        ToolResult new \<Rightarrow>
          (case shadowed of
             [s] \<Rightarrow>
               (case map_option ev_data (log_at evs base s) of
                  Some (ToolResult old) \<Rightarrow> guard (same_but_content old new) RewriteContent
                | _ \<Rightarrow> Inl RewriteTarget)
           | _ \<Rightarrow> Inl RewriteCount)
      | _ \<Rightarrow> Inr ())"

definition planSurfaceEvent ::
  "fold_state \<Rightarrow> 'p event \<Rightarrow> nat \<Rightarrow> 'p event list \<Rightarrow> nat \<Rightarrow> surface_error + surface_plan option" where
  "planSurfaceEvent st e expected evs base =
     (if ev_seq e \<noteq> expected then Inl (NotContiguous (ev_seq e) expected)
      else rbind (surfaceOpOf e) (\<lambda>op.
        case op of
          None \<Rightarrow> Inr None
        | Some Append \<Rightarrow>
            rbind (assertProvenance e []) (\<lambda>_. Inr (Some (PlanAppend (ev_seq e))))
        | Some (Replace a b) \<Rightarrow>
            rbind (replacementRange st a b) (\<lambda>(i, j, shadowed).
            rbind (assertProvenance e shadowed) (\<lambda>_.
            rbind (assertToolResultRewrite e shadowed evs base) (\<lambda>_.
              Inr (Some (PlanReplace
                \<lparr>rp_seq = ev_seq e, rp_start = a, rp_end = b, rp_shadowed = shadowed\<rparr> i j)))))))"

fun applySurfacePlan :: "fold_state \<Rightarrow> surface_plan option \<Rightarrow> fold_state \<times> replacement option" where
  "applySurfacePlan st None = (st, None)"
| "applySurfacePlan st (Some (PlanAppend s)) = (st\<lparr>nodes := nodes st @ [s]\<rparr>, None)"
| "applySurfacePlan st (Some (PlanReplace rp i j)) =
     (st\<lparr>nodes := splice i (j - i + 1) [rp_seq rp] (nodes st),
         replaceGeneration := replaceGeneration st + 1\<rparr>, Some rp)"

definition applySurfaceEvent ::
  "fold_state \<Rightarrow> 'p event \<Rightarrow> nat \<Rightarrow> 'p event list \<Rightarrow> nat
   \<Rightarrow> surface_error + (fold_state \<times> replacement option)" where
  "applySurfaceEvent st e expected evs base =
     rbind (planSurfaceEvent st e expected evs base) (\<lambda>plan. Inr (applySurfacePlan st plan))"

text \<open>The whole-log fold: state, replacement history and the loop index, the expected seq.\<close>

type_synonym surface_fold = "fold_state \<times> replacement list \<times> nat"

definition surface_step ::
  "'p event list \<Rightarrow> nat \<Rightarrow> surface_fold \<Rightarrow> 'p event \<Rightarrow> surface_error + surface_fold" where
  "surface_step evs base s e =
     (case s of (st, reps, i) \<Rightarrow>
       rbind (applySurfaceEvent st e i evs base) (\<lambda>(st', rep).
         Inr (st', (case rep of None \<Rightarrow> reps | Some r \<Rightarrow> reps @ [r]), Suc i)))"

definition fold_window :: "nat \<Rightarrow> 'p event list \<Rightarrow> surface_error + surface_fold" where
  "fold_window base evs = run_steps (surface_step evs base) (createFoldState, [], base) evs"

definition foldSurface :: "'p event list \<Rightarrow> surface_error + (fold_state \<times> replacement list)" where
  "foldSurface evs = rbind (fold_window 0 evs) (\<lambda>(st, reps, _). Inr (st, reps))"

section \<open>What the validation guarantees\<close>

lemma scan_sources_ok:
  "scan_sources cur vs acc late = Inr (srcs, l) \<Longrightarrow>
   srcs = acc \<union> seq_of ` set vs
   \<and> (l = None \<longleftrightarrow> late = None \<and> (\<forall>v \<in> set vs. seq_of v < cur))"
proof (induction cur vs acc late rule: scan_sources.induct)
  case (2 cur v vs acc late)
  then show ?case by (auto simp: not_less split: if_splits)
qed auto

lemma cited_earlier: "cited_sources e = Inr srcs \<Longrightarrow> s \<in> srcs \<Longrightarrow> s < ev_seq e"
  by (auto simp: cited_sources_def result_simps split: option.splits json.splits if_splits
      dest!: scan_sources_ok)

lemma provenance_ok:
  "assertProvenance e shadowed = Inr u \<Longrightarrow>
   \<exists>srcs. cited_sources e = Inr srcs \<and> set shadowed \<subseteq> srcs \<and> (\<forall>s \<in> srcs. s < ev_seq e)"
  by (auto simp: assertProvenance_def result_simps Let_def filter_empty_conv
      split: if_splits dest: cited_earlier)

lemma replacementRange_ok:
  assumes "replacementRange st a b = Inr (i, j, sh)"
  shows "i \<le> j \<and> j < length (nodes st) \<and> nodes st ! i = a \<and> nodes st ! j = b
    \<and> sh = slice i (Suc j) (nodes st)"
  using assms
  by (auto simp: replacementRange_def not_less split: option.splits if_splits dest: index_of_SomeD)

lemma surfaceOp_eligible: "surfaceOpOf e = Inr (Some op) \<Longrightarrow> isSurfaceEligibleType (ev_data e)"
  by (auto simp: surfaceOpOf_def split: if_splits)

lemma surfaceOp_None: "surfaceOpOf e = Inr None \<Longrightarrow> \<not> isSurfaceEligibleType (ev_data e)"
  by (auto simp: surfaceOpOf_def split: if_splits option.splits)

lemma plan_cases:
  assumes "planSurfaceEvent st e k evs base = Inr p"
  obtains (log_only) "p = None" and "ev_seq e = k" and "\<not> isSurfaceEligibleType (ev_data e)"
  | (append) "p = Some (PlanAppend k)" and "ev_seq e = k" and "isSurfaceEligibleType (ev_data e)"
  | (replace) a b i j where
      "p = Some (PlanReplace \<lparr>rp_seq = k, rp_start = a, rp_end = b,
                   rp_shadowed = slice i (Suc j) (nodes st)\<rparr> i j)"
      and "ev_seq e = k" and "isSurfaceEligibleType (ev_data e)"
      and "replacementRange st a b = Inr (i, j, slice i (Suc j) (nodes st))"
      and "i \<le> j" and "j < length (nodes st)"
      and "assertProvenance e (slice i (Suc j) (nodes st)) = Inr ()"
      and "assertToolResultRewrite e (slice i (Suc j) (nodes st)) evs base = Inr ()"
proof (cases "surfaceOpOf e")
  case (Inl x)
  with assms show ?thesis by (auto simp: planSurfaceEvent_def split: if_splits)
next
  case (Inr op)
  note op = Inr
  show ?thesis
  proof (cases op)
    case None
    with assms op surfaceOp_None [of e] show ?thesis
      by (auto simp: planSurfaceEvent_def split: if_splits intro: log_only)
  next
    case (Some o')
    show ?thesis
    proof (cases o')
      case Append
      with assms op Some surfaceOp_eligible [of e] show ?thesis
        by (auto simp: planSurfaceEvent_def result_simps split: if_splits intro: append)
    next
      case (Replace a b)
      with assms op Some surfaceOp_eligible [of e] show ?thesis
        by (auto simp: planSurfaceEvent_def result_simps split: if_splits prod.splits
            dest: replacementRange_ok intro!: replace)
    qed
  qed
qed

section \<open>The invariant of the fold\<close>

definition shadowed_seqs :: "replacement list \<Rightarrow> nat set" where
  "shadowed_seqs reps = (\<Union>r \<in> set reps. set (rp_shadowed r))"

definition eligible_seqs :: "'p event list \<Rightarrow> nat set" where
  "eligible_seqs evs = ev_seq ` {e \<in> set evs. isSurfaceEligibleType (ev_data e)}"

definition replacement_sound :: "'p event list \<Rightarrow> nat \<Rightarrow> 'p event \<Rightarrow> replacement \<Rightarrow> bool" where
  "replacement_sound evs base e r \<longleftrightarrow>
     ev_seq e = rp_seq r \<and> rp_shadowed r \<noteq> []
     \<and> hd (rp_shadowed r) = rp_start r \<and> last (rp_shadowed r) = rp_end r
     \<and> (\<exists>srcs. cited_sources e = Inr srcs \<and> set (rp_shadowed r) \<subseteq> srcs \<and> (\<forall>s \<in> srcs. s < rp_seq r))
     \<and> (\<forall>new. ev_data e = ToolResult new \<longrightarrow>
          (\<exists>s oe old. rp_shadowed r = [s] \<and> log_at evs base s = Some oe
             \<and> ev_data oe = ToolResult old \<and> same_but_content old new))"

definition surface_hist ::
  "'p event list \<Rightarrow> nat \<Rightarrow> 'p event list \<Rightarrow> surface_fold \<Rightarrow> bool" where
  "surface_hist evs base pre s \<longleftrightarrow>
     (case s of (st, reps, i) \<Rightarrow>
       i = base + length pre
       \<and> map ev_seq pre = [base..<i]
       \<and> distinct (nodes st)
       \<and> set (nodes st) = eligible_seqs pre - shadowed_seqs reps
       \<and> shadowed_seqs reps \<subseteq> {..<i}
       \<and> replaceGeneration st = length reps
       \<and> (\<forall>r \<in> set reps. \<exists>e \<in> set pre. replacement_sound evs base e r))"

lemma eligible_seqs_snoc:
  "eligible_seqs (pre @ [e]) =
   eligible_seqs pre \<union> (if isSurfaceEligibleType (ev_data e) then {ev_seq e} else {})"
  by (auto simp: eligible_seqs_def)

lemma hist_seq_less: "map ev_seq pre = [base..<i] \<Longrightarrow> e \<in> set pre \<Longrightarrow> ev_seq e < i"
  by (metis atLeastLessThan_iff image_eqI set_map set_upt)

lemma eligible_less: "map ev_seq pre = [base..<i] \<Longrightarrow> s \<in> eligible_seqs pre \<Longrightarrow> s < i"
  by (auto simp: eligible_seqs_def dest: hist_seq_less)

lemma slice_hd_last:
  assumes "i \<le> j" and "j < length xs"
  shows "hd (slice i (Suc j) xs) = xs ! i" and "last (slice i (Suc j) xs) = xs ! j"
proof -
  show "hd (slice i (Suc j) xs) = xs ! i"
    using assms by (simp add: slice_def hd_drop_conv_nth)
  have "slice i (Suc j) xs \<noteq> []" and "length (slice i (Suc j) xs) = Suc (j - i)"
    using assms by (auto simp: slice_def)
  then show "last (slice i (Suc j) xs) = xs ! j"
    using assms by (simp add: last_conv_nth slice_def)
qed

lemma replaced_nodes:
  assumes "distinct xs" and "i \<le> j" and "j < length xs" and "s \<notin> set xs"
  shows "distinct (splice i (j - i + 1) [s] xs)"
    and "set (splice i (j - i + 1) [s] xs) = insert s (set xs - set (slice i (Suc j) xs))"
proof -
  have ij: "i + (j - i + 1) = Suc j" using assms(2) by simp
  show "distinct (splice i (j - i + 1) [s] xs)"
    using assms by (intro distinct_splice) auto
  have "set (slice i (Suc j) xs) \<inter> (set (take i xs) \<union> set (drop (Suc j) xs)) = {}"
    and "set xs = set (take i xs) \<union> set (slice i (Suc j) xs) \<union> set (drop (Suc j) xs)"
    using assms(1) splice_parts [OF assms(2,3)]
    by (metis Int_Un_distrib Un_empty distinct_append inf_commute set_append)
      (metis splice_parts [OF assms(2,3)] set_append Un_assoc)
  then show "set (splice i (j - i + 1) [s] xs) = insert s (set xs - set (slice i (Suc j) xs))"
    unfolding set_splice ij by auto
qed

lemma rewrite_ok:
  assumes "assertToolResultRewrite e sh evs base = Inr ()" and "ev_data e = ToolResult new"
  shows "\<exists>s oe old. sh = [s] \<and> log_at evs base s = Some oe
    \<and> ev_data oe = ToolResult old \<and> same_but_content old new"
  using assms
  by (auto simp: assertToolResultRewrite_def result_simps
      split: list.splits option.splits event_data.splits)

lemma surface_step_hist:
  assumes inv: "surface_hist evs base pre s" and step: "surface_step evs base s e = Inr s'"
  shows "surface_hist evs base (pre @ [e]) s'"
proof -
  obtain st reps i where s: "s = (st, reps, i)" by (cases s)
  from step s obtain p where plan: "planSurfaceEvent st e i evs base = Inr p"
    and s': "s' = (case applySurfacePlan st p of (st', rep) \<Rightarrow>
        (st', (case rep of None \<Rightarrow> reps | Some r \<Rightarrow> reps @ [r]), Suc i))"
    by (auto simp: surface_step_def applySurfaceEvent_def result_simps split: prod.splits)
  from inv s have i: "i = base + length pre" and seqs: "map ev_seq pre = [base..<i]"
    and d: "distinct (nodes st)" and n: "set (nodes st) = eligible_seqs pre - shadowed_seqs reps"
    and sh: "shadowed_seqs reps \<subseteq> {..<i}" and g: "replaceGeneration st = length reps"
    and snd: "\<forall>r \<in> set reps. \<exists>x \<in> set pre. replacement_sound evs base x r"
    by (auto simp: surface_hist_def)
  have fresh: "i \<notin> set (nodes st)" using n seqs by (auto dest: eligible_less)
  have nsh: "i \<notin> shadowed_seqs reps" using sh by auto
  have base_i: "[base..<Suc i] = [base..<i] @ [i]" using i by simp
  have keep: "\<forall>r \<in> set reps. \<exists>x \<in> set (pre @ [e]). replacement_sound evs base x r"
    using snd by auto
  from plan show ?thesis
  proof (cases rule: plan_cases)
    case log_only
    with s' seqs i d n sh g keep base_i show ?thesis
      by (auto simp: surface_hist_def eligible_seqs_snoc)
  next
    case append
    with fresh nsh s' seqs i d n sh g keep base_i show ?thesis
      by (auto simp: surface_hist_def eligible_seqs_snoc)
  next
    case (replace a b k j)
    let ?sh = "slice k (Suc j) (nodes st)"
    let ?r = "\<lparr>rp_seq = i, rp_start = a, rp_end = b, rp_shadowed = ?sh\<rparr>"
    have s'': "s' = (st\<lparr>nodes := splice k (j - k + 1) [i] (nodes st),
        replaceGeneration := replaceGeneration st + 1\<rparr>, reps @ [?r], Suc i)"
      using s' replace(1) by simp
    have sh': "shadowed_seqs (reps @ [?r]) = shadowed_seqs reps \<union> set ?sh"
      by (auto simp: shadowed_seqs_def)
    have sub: "set ?sh \<subseteq> set (nodes st)" by (rule set_slice_subset)
    have el: "eligible_seqs (pre @ [e]) = insert i (eligible_seqs pre)"
      using replace(2,3) by (simp add: eligible_seqs_snoc)
    have new_nodes: "set (nodes (fst s')) = eligible_seqs (pre @ [e]) - shadowed_seqs (reps @ [?r])"
      using replaced_nodes(2) [OF d replace(5,6) fresh] fresh nsh sub n s'' sh' el by auto
    have below: "shadowed_seqs (reps @ [?r]) \<subseteq> {..<Suc i}"
      using sh sub n seqs unfolding sh' by (fastforce dest: eligible_less)
    have "replacement_sound evs base e ?r"
      using replace(2,5,6) provenance_ok [OF replace(7)] rewrite_ok [OF replace(8)]
        replacementRange_ok [OF replace(4)] slice_nonempty [OF replace(5,6)]
        slice_hd_last [OF replace(5,6)]
      unfolding replacement_sound_def by fastforce
    then have sound: "\<forall>r \<in> set (reps @ [?r]). \<exists>x \<in> set (pre @ [e]). replacement_sound evs base x r"
      using keep by auto
    show ?thesis
      unfolding surface_hist_def s''
      using i seqs base_i replace(2) replaced_nodes(1) [OF d replace(5,6) fresh]
        new_nodes below g sound s''
      by simp
  qed
qed

interpretation surface_replay: fold_history "surface_step evs base" "surface_hist evs base"
  for evs :: "'p event list" and base
  by unfold_locales (rule surface_step_hist)

lemma surface_hist_init: "surface_hist evs base [] (createFoldState, [], base)"
  by (simp add: surface_hist_def createFoldState_def eligible_seqs_def shadowed_seqs_def)

lemma fold_window_hist: "fold_window base evs = Inr s \<Longrightarrow> surface_hist evs base evs s"
  unfolding fold_window_def
  using surface_replay.run_hinv [OF surface_hist_init, of evs base evs s] by simp

section \<open>Extending the log\<close>

lemma append_step:
  assumes "surfaceOpOf e = Inr (Some Append)" and "assertProvenance e [] = Inr ()" and "ev_seq e = k"
  shows "surface_step evs base (st, reps, k) e = Inr (st\<lparr>nodes := nodes st @ [k]\<rparr>, reps, Suc k)"
  using assms by (simp add: surface_step_def applySurfaceEvent_def planSurfaceEvent_def)

text \<open>Later events never change what the fold made of a prefix.\<close>

lemma log_at_append: "s < base + length evs \<Longrightarrow> log_at (evs @ later) base s = log_at evs base s"
  by (auto simp: log_at_def nth_append)

lemma plan_extend:
  assumes "\<forall>s \<in> set (nodes st). s < base + length evs"
  shows "planSurfaceEvent st e k (evs @ later) base = planSurfaceEvent st e k evs base"
proof -
  have "assertToolResultRewrite e sh (evs @ later) base = assertToolResultRewrite e sh evs base"
    if "replacementRange st a b = Inr (i, j, sh)" for a b i j sh
  proof -
    have "set sh \<subseteq> set (nodes st)"
      using replacementRange_ok [OF that] set_slice_subset by fastforce
    then have "\<forall>s \<in> set sh. log_at (evs @ later) base s = log_at evs base s"
      using assms log_at_append by blast
    then show ?thesis
      by (simp add: assertToolResultRewrite_def split: list.splits event_data.splits)
  qed
  then show ?thesis
    by (auto simp: planSurfaceEvent_def rbind_def split: sum.splits option.splits surface_op.splits prod.splits)
qed

lemma hist_nodes_less:
  "surface_hist evs base pre (st, reps, i) \<Longrightarrow> s \<in> set (nodes st) \<Longrightarrow> s < base + length pre"
  by (auto simp: surface_hist_def dest: eligible_less)

lemma surface_step_extend:
  assumes "surface_hist evs' base pre s" and "length pre \<le> length evs"
  shows "surface_step (evs @ later) base s e = surface_step evs base s e"
proof -
  obtain st reps i where s: "s = (st, reps, i)" by (cases s)
  have "\<forall>x \<in> set (nodes st). x < base + length evs"
    using hist_nodes_less [of evs' base pre st reps i] assms s by fastforce
  then show ?thesis
    using s by (simp add: surface_step_def applySurfaceEvent_def plan_extend)
qed

lemma run_extend:
  assumes "surface_hist evs base pre s" and "length pre + length rest \<le> length evs"
  shows "run_steps (surface_step (evs @ later) base) s rest = run_steps (surface_step evs base) s rest"
  using assms
proof (induction rest arbitrary: pre s)
  case (Cons e rest)
  have eq: "surface_step (evs @ later) base s e = surface_step evs base s e"
    using Cons.prems by (intro surface_step_extend) auto
  show ?case
  proof (cases "surface_step evs base s e")
    case (Inr s')
    then have "surface_hist evs base (pre @ [e]) s'"
      using Cons.prems(1) surface_step_hist by blast
    then show ?thesis
      using Cons.IH [of "pre @ [e]" s'] Cons.prems(2) eq Inr by simp
  qed (simp add: eq)
qed simp

lemma fold_window_append:
  "fold_window base (evs @ later) =
   rbind (fold_window base evs) (\<lambda>s. run_steps (surface_step (evs @ later) base) s later)"
  using run_extend [OF surface_hist_init, where evs = evs and rest = evs and base = base and later = later]
  by (simp add: fold_window_def run_steps_append)

lemma fold_window_snoc:
  "fold_window base (evs @ [e]) = rbind (fold_window base evs) (\<lambda>s. surface_step evs base s e)"
proof (cases "fold_window base evs")
  case (Inr s)
  then show ?thesis
    using fold_window_hist [OF Inr] surface_step_extend [of evs base evs s evs "[e]" e]
    by (simp add: fold_window_append)
qed (simp add: fold_window_append)

lemma run_steps_reps:
  "run_steps (surface_step evs base) (st, reps, i) es = Inr (st', reps', i') \<Longrightarrow>
   \<exists>ext. reps' = reps @ ext"
proof (induction es arbitrary: st reps i)
  case (Cons e es)
  then obtain t where "surface_step evs base (st, reps, i) e = Inr t"
    and "run_steps (surface_step evs base) t es = Inr (st', reps', i')"
    by (auto simp: result_simps)
  moreover from this(1) obtain st1 ext i1 where "t = (st1, reps @ ext, i1)"
    by (fastforce simp: surface_step_def result_simps split: option.splits prod.splits)
  ultimately show ?case using Cons.IH by fastforce
qed simp

section \<open>Properties\<close>

lemma foldSurface_window:
  "foldSurface evs = Inr (st, reps) \<longleftrightarrow> fold_window 0 evs = Inr (st, reps, length evs)"
proof -
  have "i = length evs" if "fold_window 0 evs = Inr (st, reps, i)" for i
    using fold_window_hist [OF that] by (simp add: surface_hist_def)
  then show ?thesis
    by (auto simp: foldSurface_def result_simps)
qed

lemma eligible_seqs_index:
  assumes "map ev_seq evs = [base..<base + length evs]"
  shows "eligible_seqs evs = {base + k |k. k < length evs \<and> isSurfaceEligibleType (ev_data (evs ! k))}"
proof -
  have seq: "ev_seq (evs ! k) = base + k" if "k < length evs" for k
    using arg_cong [OF assms, of "\<lambda>l. l ! k"] that by simp
  show ?thesis
  proof (rule set_eqI)
    fix s
    show "s \<in> eligible_seqs evs \<longleftrightarrow>
        s \<in> {base + k |k. k < length evs \<and> isSurfaceEligibleType (ev_data (evs ! k))}"
      using seq by (auto simp: eligible_seqs_def in_set_conv_nth image_iff) (metis+)?
  qed
qed


definition sample_message :: "string \<Rightarrow> message" where
  "sample_message i = \<lparr>msg_id = i, msg_role = RoleUser, msg_content = [TextBlock i], msg_source = UserSource\<rparr>"

definition sample_user_event :: "nat \<Rightarrow> unit event" where
  "sample_user_event n = \<lparr>ev_data = UserMessage (sample_message ''m''), ev_seq = n, ev_time = 0,
     ev_ignorable = False, ev_surfaceOp = Some (JStr ''append''), ev_sources = None\<rparr>"

definition sample_replace_event :: "nat \<Rightarrow> nat \<Rightarrow> nat \<Rightarrow> nat list \<Rightarrow> unit event" where
  "sample_replace_event n a b srcs = \<lparr>ev_data = UserMessage (sample_message ''s''), ev_seq = n, ev_time = 0,
     ev_ignorable = False,
     ev_surfaceOp = Some (JObj [(''op'', JStr ''replace''), (''start'', JInt (int a)), (''end'', JInt (int b))]),
     ev_sources = Some (JArr (map (\<lambda>s. JInt (int s)) srcs))\<rparr>"

definition sample_log :: "unit event list" where
  "sample_log = [sample_user_event 0, sample_user_event 1, sample_user_event 2, sample_replace_event 3 0 1 [0, 1]]"

lemma sample_log_folds:
  "foldSurface sample_log = Inr (\<lparr>nodes = [3, 2], replaceGeneration = 1\<rparr>,
     [\<lparr>rp_seq = 3, rp_start = 0, rp_end = 1, rp_shadowed = [0, 1]\<rparr>])"
  by (simp add: sample_log_def sample_user_event_def sample_replace_event_def foldSurface_def
      fold_window_def surface_step_def applySurfaceEvent_def planSurfaceEvent_def surfaceOpOf_def
      isReplaceOp_def seq_of_def assertProvenance_def cited_sources_def createFoldState_def
      replacementRange_def slice_def splice_def assertToolResultRewrite_def JInt_def
      is_safe_integer_def safe_int_def max_safe_def)


text \<open>
  The log is append-only and so is its reading: when a log folds, every prefix of it
  folds, and the replacement history of the prefix is a prefix of the whole history.
\<close>

theorem foldSurface_prefix:
  assumes "foldSurface (evs @ later) = Inr (st, reps)"
  shows "\<exists>st0 reps0 reps1. foldSurface evs = Inr (st0, reps0) \<and> reps = reps0 @ reps1
    \<and> replaceGeneration st = replaceGeneration st0 + length reps1"
proof -
  have w: "fold_window 0 (evs @ later) = Inr (st, reps, length (evs @ later))"
    using assms foldSurface_window by blast
  then obtain st0 reps0 i where s0: "fold_window 0 evs = Inr (st0, reps0, i)"
    and run: "run_steps (surface_step (evs @ later) 0) (st0, reps0, i) later = Inr (st, reps, length (evs @ later))"
    by (auto simp: fold_window_append result_simps)
  from fold_window_hist [OF s0] have i: "i = length evs" and g0: "replaceGeneration st0 = length reps0"
    by (auto simp: surface_hist_def)
  obtain reps1 where r: "reps = reps0 @ reps1"
    using run_steps_reps [OF run] by blast
  have "replaceGeneration st = length reps"
    using fold_window_hist [OF w] by (simp add: surface_hist_def)
  with s0 i g0 r show ?thesis
    using foldSurface_window [of evs st0 reps0] by auto
qed

theorem foldSurface_prefix_witness:
  "\<exists>st0 reps0 reps1. foldSurface (take 3 sample_log) = Inr (st0, reps0)
    \<and> [\<lparr>rp_seq = 3, rp_start = 0, rp_end = 1, rp_shadowed = [0, 1]\<rparr>] = reps0 @ reps1
    \<and> 1 = replaceGeneration st0 + length reps1"
proof -
  have "foldSurface (take 3 sample_log @ drop 3 sample_log) =
      Inr (\<lparr>nodes = [3, 2], replaceGeneration = 1\<rparr>,
        [\<lparr>rp_seq = 3, rp_start = 0, rp_end = 1, rp_shadowed = [0, 1]\<rparr>])"
    by (simp only: append_take_drop_id sample_log_folds)
  from foldSurface_prefix [OF this] show ?thesis by simp
qed

end
