(* ===== verification/SurfaceManager.thy ===== *)
theory SurfaceManager imports Surface begin

text \<open>
  \<open>SurfaceManager\<close> of packages/core/session/src/surface.ts: the incremental surface of a
  growing log. It folds the unseen suffix of the log on access and keeps the plan of the
  candidate it validated last, which the fold reuses when that very event has entered the
  log. \<open>same\<close> is object identity (\<open>===\<close>) of frozen events; the log array is the
  session's and is passed to every operation. An operation returns the manager it leaves
  behind, also when it throws.
\<close>

record 'p surface_manager =
  mg_state :: fold_state
  mg_next :: nat
  mg_pending :: "('p event \<times> nat \<times> surface_plan option) option"

text \<open>\<open>mg_next\<close> is \<open>_lastProcessedSeq + 1\<close>.\<close>

definition newManager :: "nat \<Rightarrow> 'p surface_manager" where
  "newManager base = \<lparr>mg_state = createFoldState, mg_next = base, mg_pending = None\<rparr>"

definition processOne ::
  "('p event \<Rightarrow> 'p event \<Rightarrow> bool) \<Rightarrow> nat \<Rightarrow> 'p event list \<Rightarrow> 'p surface_manager \<Rightarrow> 'p event
   \<Rightarrow> surface_error + 'p surface_manager" where
  "processOne same base evs m e =
     (let seq = mg_next m;
          next = (case mg_pending m of
             Some (pe, es, plan) \<Rightarrow>
               if same pe e \<and> es = seq then Inr (fst (applySurfacePlan (mg_state m) plan))
               else map_sum id fst (applySurfaceEvent (mg_state m) e seq evs base)
           | None \<Rightarrow> map_sum id fst (applySurfaceEvent (mg_state m) e seq evs base))
      in rbind next (\<lambda>st.
           Inr (m\<lparr>mg_state := st, mg_next := Suc seq,
                  mg_pending := (case mg_pending m of
                     Some (pe, es, plan) \<Rightarrow> if es \<le> seq then None else mg_pending m
                   | None \<Rightarrow> None)\<rparr>)))"

fun processLoop ::
  "('p event \<Rightarrow> 'p event \<Rightarrow> bool) \<Rightarrow> nat \<Rightarrow> 'p event list \<Rightarrow> 'p surface_manager \<Rightarrow> 'p event list
   \<Rightarrow> 'p surface_manager \<times> (surface_error + unit)" where
  "processLoop same base evs m [] = (m, Inr ())"
| "processLoop same base evs m (e # es) =
     (case processOne same base evs m e of
        Inl x \<Rightarrow> (m, Inl x)
      | Inr m' \<Rightarrow> processLoop same base evs m' es)"

definition processDelta ::
  "('p event \<Rightarrow> 'p event \<Rightarrow> bool) \<Rightarrow> nat \<Rightarrow> 'p event list \<Rightarrow> 'p surface_manager
   \<Rightarrow> 'p surface_manager \<times> (surface_error + unit)" where
  "processDelta same base evs m = processLoop same base evs m (drop (mg_next m - base) evs)"

definition validateNext ::
  "('p event \<Rightarrow> 'p event \<Rightarrow> bool) \<Rightarrow> nat \<Rightarrow> 'p event list \<Rightarrow> 'p surface_manager \<Rightarrow> 'p event
   \<Rightarrow> 'p surface_manager \<times> (surface_error + unit)" where
  "validateNext same base evs m e =
     (case processDelta same base evs m of
        (m', Inl x) \<Rightarrow> (m', Inl x)
      | (m', Inr _) \<Rightarrow>
          let expected = base + length evs
          in case planSurfaceEvent (mg_state m') e expected evs base of
               Inl x \<Rightarrow> (m', Inl x)
             | Inr plan \<Rightarrow> (m'\<lparr>mg_pending := Some (e, expected, plan)\<rparr>, Inr ()))"

text \<open>The getters \<open>nodes\<close> and \<open>replaceGeneration\<close>.\<close>

definition readSurface ::
  "('p event \<Rightarrow> 'p event \<Rightarrow> bool) \<Rightarrow> nat \<Rightarrow> 'p event list \<Rightarrow> 'p surface_manager
   \<Rightarrow> 'p surface_manager \<times> (surface_error + fold_state)" where
  "readSurface same base evs m =
     (case processDelta same base evs m of
        (m', Inl x) \<Rightarrow> (m', Inl x)
      | (m', Inr _) \<Rightarrow> (m', Inr (mg_state m')))"

text \<open>
  The managers a session can reach: any candidate may be validated, any event, validated or
  not, may enter the log, and the surface may be read at any time.
\<close>

inductive manager_reach ::
  "('p event \<Rightarrow> 'p event \<Rightarrow> bool) \<Rightarrow> nat \<Rightarrow> 'p event list \<Rightarrow> 'p surface_manager \<Rightarrow> bool"
  for same base where
  mr_new: "manager_reach same base evs (newManager base)"
| mr_validate: "manager_reach same base evs m \<Longrightarrow>
    manager_reach same base evs (fst (validateNext same base evs m e))"
| mr_push: "manager_reach same base evs m \<Longrightarrow> manager_reach same base (evs @ [e]) m"
| mr_read: "manager_reach same base evs m \<Longrightarrow>
    manager_reach same base evs (fst (readSurface same base evs m))"

section \<open>The invariant\<close>

text \<open>
  The state is the fold of the processed prefix; a pending plan belongs to the first
  unprocessed position and is the plan of its event in that state.
\<close>

definition manager_inv :: "nat \<Rightarrow> 'p event list \<Rightarrow> 'p surface_manager \<Rightarrow> bool" where
  "manager_inv base evs m \<longleftrightarrow>
     (\<exists>k reps. k \<le> length evs \<and> mg_next m = base + k
       \<and> fold_window base (take k evs) = Inr (mg_state m, reps, base + k))
     \<and> (\<forall>pe es plan. mg_pending m = Some (pe, es, plan) \<longrightarrow>
          es = mg_next m \<and> planSurfaceEvent (mg_state m) pe es evs base = Inr plan)"

lemma window_take:
  assumes "k \<le> length evs" and "fold_window base (take k evs) = Inr (st, reps, base + k)"
  shows "fold_window base evs =
    run_steps (surface_step evs base) (st, reps, base + k) (drop k evs)"
  using fold_window_append [of base "take k evs" "drop k evs"] assms by simp

lemma window_nodes_less:
  assumes "k \<le> length evs" and "fold_window base (take k evs) = Inr (st, reps, i)"
    and "s \<in> set (nodes st)"
  shows "s < base + length evs"
  using hist_nodes_less [OF fold_window_hist [OF assms(2)] assms(3)] assms(1) by simp

lemma manager_push:
  assumes "manager_inv base evs m"
  shows "manager_inv base (evs @ [e]) m"
proof -
  from assms obtain k reps where k: "k \<le> length evs" "mg_next m = base + k"
    "fold_window base (take k evs) = Inr (mg_state m, reps, base + k)"
    by (auto simp: manager_inv_def)
  have "planSurfaceEvent (mg_state m) pe es (evs @ [e]) base = planSurfaceEvent (mg_state m) pe es evs base"
    for pe es
    using plan_extend window_nodes_less [OF k(1,3)] by blast
  then show ?thesis
    using assms k unfolding manager_inv_def by (auto intro!: exI [of _ k])
qed

text \<open>One iteration of the loop is one step of the whole-log fold, cached plan or not.\<close>

lemma processOne_step:
  assumes "\<forall>a b. same a b \<longrightarrow> a = b"
    and "\<And>pe es plan. mg_pending m = Some (pe, es, plan) \<Longrightarrow>
      es = mg_next m \<and> planSurfaceEvent (mg_state m) pe es evs base = Inr plan"
  shows "processOne same base evs m e =
    (case surface_step evs base (mg_state m, reps, mg_next m) e of
       Inl x \<Rightarrow> Inl x
     | Inr (st, reps', i) \<Rightarrow> Inr \<lparr>mg_state = st, mg_next = i, mg_pending = None\<rparr>)"
proof (cases "mg_pending m")
  case None
  then show ?thesis
    by (cases m) (auto simp: processOne_def surface_step_def rbind_def split: sum.splits prod.splits)
next
  case (Some pnd)
  obtain pe es plan where p: "mg_pending m = Some (pe, es, plan)" using Some by (cases pnd) auto
  from assms(2) [OF p] have es: "es = mg_next m"
    and plan: "planSurfaceEvent (mg_state m) pe (mg_next m) evs base = Inr plan" by auto
  show ?thesis
  proof (cases "same pe e")
    case True
    then have "pe = e" using assms(1) by blast
    with p es plan True show ?thesis
      by (cases m) (auto simp: processOne_def surface_step_def applySurfaceEvent_def split: prod.splits)
  next
    case False
    with p es show ?thesis
      by (cases m) (auto simp: processOne_def surface_step_def rbind_def split: sum.splits prod.splits)
  qed
qed

lemma processLoop_run:
  assumes "\<forall>a b. same a b \<longrightarrow> a = b"
    and "\<And>pe es plan. mg_pending m = Some (pe, es, plan) \<Longrightarrow>
      es = mg_next m \<and> planSurfaceEvent (mg_state m) pe es evs base = Inr plan"
  shows "snd (processLoop same base evs m es) =
      map_sum id (\<lambda>_. ()) (run_steps (surface_step evs base) (mg_state m, reps, mg_next m) es)
    \<and> (\<forall>st reps' i. run_steps (surface_step evs base) (mg_state m, reps, mg_next m) es = Inr (st, reps', i)
         \<longrightarrow> mg_state (fst (processLoop same base evs m es)) = st
           \<and> mg_next (fst (processLoop same base evs m es)) = i)"
  using assms(2)
proof (induction es arbitrary: m reps)
  case (Cons e es)
  show ?case
  proof (cases "surface_step evs base (mg_state m, reps, mg_next m) e")
    case (Inl x)
    then show ?thesis
      using processOne_step [OF assms(1) Cons.prems, where e = e and reps = reps] by simp
  next
    case (Inr t)
    obtain st reps' i where t: "t = (st, reps', i)" by (cases t)
    let ?m = "\<lparr>mg_state = st, mg_next = i, mg_pending = None\<rparr> :: 'a surface_manager"
    have "processOne same base evs m e = Inr ?m"
      using processOne_step [OF assms(1) Cons.prems, where reps = reps] Inr t by simp
    then show ?thesis
      using Cons.IH [of ?m reps'] Inr t by simp
  qed
qed simp

lemma processLoop_inv:
  assumes "\<forall>a b. same a b \<longrightarrow> a = b"
    and "manager_inv base evs m" and "es = drop (mg_next m - base) evs"
  shows "manager_inv base evs (fst (processLoop same base evs m es))"
  using assms(2,3)
proof (induction es arbitrary: m)
  case (Cons e es)
  from Cons.prems(1) obtain k reps where k: "k \<le> length evs" "mg_next m = base + k"
    "fold_window base (take k evs) = Inr (mg_state m, reps, base + k)"
    by (auto simp: manager_inv_def)
  from Cons.prems(2) k have drop: "drop k evs = e # es" by simp
  then have less: "k < length evs" by (metis drop_eq_Nil list.distinct(1) not_le)
  then have e: "e = evs ! k" using drop by (metis Cons_nth_drop_Suc list.sel(1))
  have take: "take (Suc k) evs = take k evs @ [e]" using less e by (simp add: take_Suc_conv_app_nth)
  have pend: "\<And>pe es plan. mg_pending m = Some (pe, es, plan) \<Longrightarrow>
      es = mg_next m \<and> planSurfaceEvent (mg_state m) pe es evs base = Inr plan"
    using Cons.prems(1) by (auto simp: manager_inv_def)
  have hist: "surface_hist (take k evs) base (take k evs) (mg_state m, reps, base + k)"
    using fold_window_hist [OF k(3)] .
  have same_step: "surface_step evs base (mg_state m, reps, base + k) e =
      surface_step (take k evs) base (mg_state m, reps, base + k) e"
    using surface_step_extend [OF hist, of "take k evs" "drop k evs" e] by simp
  note one = processOne_step [OF assms(1) pend, where reps = reps, unfolded k(2)]
  show ?case
  proof (cases "surface_step evs base (mg_state m, reps, base + k) e")
    case (Inl x)
    then show ?thesis using one Cons.prems(1) by simp
  next
    case (Inr t)
    obtain st reps' i where t: "t = (st, reps', i)" by (cases t)
    let ?m = "\<lparr>mg_state = st, mg_next = i, mg_pending = None\<rparr> :: 'a surface_manager"
    have w: "fold_window base (take (Suc k) evs) = Inr (st, reps', i)"
      using Inr t k(3) same_step by (simp add: take fold_window_snoc)
    then have "i = base + Suc k"
      using fold_window_hist [OF w] less by (simp add: surface_hist_def)
    with w less have "manager_inv base evs ?m"
      by (auto simp: manager_inv_def intro!: exI [of _ "Suc k"])
    moreover have "es = drop (mg_next ?m - base) evs"
      using drop \<open>i = base + Suc k\<close> by (metis Cons_nth_drop_Suc add_diff_cancel_left' less list.sel(3) surface_manager.select_convs(2))
    ultimately show ?thesis
      using Cons.IH [of ?m] one Inr t by simp
  qed
qed simp

lemma processDelta_fold:
  assumes "\<forall>a b. same a b \<longrightarrow> a = b" and "manager_inv base evs m"
  shows "snd (processDelta same base evs m) = map_sum id (\<lambda>_. ()) (fold_window base evs)"
    and "fold_window base evs = Inr (st, reps', i) \<Longrightarrow>
      mg_state (fst (processDelta same base evs m)) = st \<and> mg_next (fst (processDelta same base evs m)) = i"
    and "manager_inv base evs (fst (processDelta same base evs m))"
proof -
  from assms(2) obtain k reps where k: "k \<le> length evs" "mg_next m = base + k"
    "fold_window base (take k evs) = Inr (mg_state m, reps, base + k)"
    by (auto simp: manager_inv_def)
  have pend: "\<And>pe es plan. mg_pending m = Some (pe, es, plan) \<Longrightarrow>
      es = mg_next m \<and> planSurfaceEvent (mg_state m) pe es evs base = Inr plan"
    using assms(2) by (auto simp: manager_inv_def)
  note run = processLoop_run [OF assms(1) pend, where reps = reps and es = "drop k evs"]
  have fold: "fold_window base evs =
      run_steps (surface_step evs base) (mg_state m, reps, mg_next m) (drop k evs)"
    using window_take [OF k(1,3)] k(2) by simp
  show "snd (processDelta same base evs m) = map_sum id (\<lambda>_. ()) (fold_window base evs)"
    using run fold k(2) by (simp add: processDelta_def)
  show "mg_state (fst (processDelta same base evs m)) = st \<and> mg_next (fst (processDelta same base evs m)) = i"
    if "fold_window base evs = Inr (st, reps', i)"
  proof -
    have "run_steps (surface_step evs base) (mg_state m, reps, mg_next m) (drop k evs) = Inr (st, reps', i)"
      using that fold by simp
    with run k(2) show ?thesis by (simp add: processDelta_def)
  qed
  show "manager_inv base evs (fst (processDelta same base evs m))"
    unfolding processDelta_def by (rule processLoop_inv [OF assms(1,2)]) simp_all
qed

lemma readSurface_fold:
  assumes "\<forall>a b. same a b \<longrightarrow> a = b" and "manager_inv base evs m"
  shows "snd (readSurface same base evs m) = map_sum id fst (fold_window base evs)"
proof (cases "fold_window base evs")
  case (Inl x)
  then show ?thesis
    using processDelta_fold(1) [OF assms]
    by (auto simp: readSurface_def split: prod.splits sum.splits)
next
  case (Inr s)
  obtain st reps i where "s = (st, reps, i)" by (cases s)
  with Inr show ?thesis
    using processDelta_fold(1) [OF assms] processDelta_fold(2) [OF assms, of st reps i]
    by (auto simp: readSurface_def split: prod.splits sum.splits)
qed

lemma fold_window_index: "fold_window base evs = Inr (st, reps, i) \<Longrightarrow> i = base + length evs"
  using fold_window_hist [of base evs "(st, reps, i)"] by (simp add: surface_hist_def)

lemma validateNext_fold:
  assumes "\<forall>a b. same a b \<longrightarrow> a = b" and "manager_inv base evs m"
  shows "snd (validateNext same base evs m e) = map_sum id (\<lambda>_. ()) (fold_window base (evs @ [e]))"
    and "manager_inv base evs (fst (validateNext same base evs m e))"
proof -
  note d = processDelta_fold [OF assms]
  obtain m' r where m': "processDelta same base evs m = (m', r)" by (cases "processDelta same base evs m")
  show "snd (validateNext same base evs m e) = map_sum id (\<lambda>_. ()) (fold_window base (evs @ [e]))"
  proof (cases "fold_window base evs")
    case (Inr s)
    obtain st reps i where s: "s = (st, reps, i)" by (cases s)
    with Inr d(1) d(2) [of st reps i] m' fold_window_index [of base evs st reps i]
    show ?thesis
      by (simp add: validateNext_def fold_window_snoc surface_step_def applySurfaceEvent_def Let_def
          split: sum.splits prod.splits)
  qed (use d(1) m' in \<open>auto simp: validateNext_def fold_window_snoc\<close>)
  show "manager_inv base evs (fst (validateNext same base evs m e))"
  proof (cases r)
    case (Inr u)
    then obtain st reps i where fw: "fold_window base evs = Inr (st, reps, i)"
      using d(1) m' by (cases "fold_window base evs") auto
    with Inr d(2) [OF fw] d(3) m' fold_window_index [OF fw] show ?thesis
      by (auto simp: validateNext_def manager_inv_def Let_def split: sum.splits)
  qed (use d(3) m' in \<open>simp add: validateNext_def\<close>)
qed

lemma reach_inv:
  assumes "\<forall>a b. same a b \<longrightarrow> a = b" and "manager_reach same base evs m"
  shows "manager_inv base evs m"
  using assms(2)
proof induction
  case (mr_new evs)
  then show ?case
    by (auto simp: manager_inv_def newManager_def fold_window_def intro!: exI [of _ 0])
next
  case (mr_validate evs m e)
  then show ?case using validateNext_fold(2) [OF assms(1)] by blast
next
  case (mr_push evs m e)
  show ?case by (rule manager_push) (rule mr_push.IH)
next
  case (mr_read evs m)
  then show ?case
    using processDelta_fold(3) [OF assms(1), of base evs m]
    by (auto simp: readSurface_def split: prod.splits sum.splits)
qed

section \<open>Properties\<close>

text \<open>
  C10. The incremental surface is the fold of the whole log: however validations, appends and
  reads were interleaved, a read returns what replaying the entire log returns (or throws the
  error the replay stops at), and \<open>validateNext\<close> accepts a candidate exactly when the
  replay accepts the log with the candidate at its end.
\<close>

theorem manager_refines_fold:
  assumes "\<forall>a b. same a b \<longrightarrow> a = b" and "manager_reach same base evs m"
  shows "snd (readSurface same base evs m) = map_sum id fst (fold_window base evs)
    \<and> snd (validateNext same base evs m e) = map_sum id (\<lambda>_. ()) (fold_window base (evs @ [e]))"
  using readSurface_fold [OF assms(1)] validateNext_fold(1) [OF assms(1)] reach_inv [OF assms]
  by blast

theorem manager_refines_fold_witness:
  "snd (readSurface (=) 0 (take 3 sample_log)
      (fst (validateNext (=) 0 (take 3 sample_log) (newManager 0) (sample_user_event 7)))) =
    map_sum id fst (fold_window 0 (take 3 sample_log))"
proof -
  let ?m = "fst (validateNext (=) 0 (take 3 sample_log) (newManager 0) (sample_user_event 7))"
  have "manager_reach (=) 0 (take 3 sample_log) ?m"
    by (intro mr_validate mr_new)
  from conjunct1 [OF manager_refines_fold [OF _ this]] show ?thesis by blast
qed

end
