(* ===== verification/RequestHeaders.thy ===== *)
theory RequestHeaders imports SessionTypes begin

text \<open>
  packages/core/session/src/request-header.ts and the configuration equality of
  packages/llm/llm/src/call-config.ts: the canonical form of a request header, the equality
  the loop uses to avoid logging unchanged headers, and the fold of the header events.
\<close>

fun callConfigEquals :: "llm_call_config \<Rightarrow> llm_call_config \<Rightarrow> bool" where
  "callConfigEquals a b =
     (if cfg_provider a \<noteq> cfg_provider b \<or> cfg_model a \<noteq> cfg_model b
         \<or> cfg_reasoningEffort a \<noteq> cfg_reasoningEffort b
         \<or> cfg_temperature a \<noteq> cfg_temperature b
         \<or> cfg_maxTokens a \<noteq> cfg_maxTokens b then False
      else (case (cfg_stop a, cfg_stop b) of
              (Some xs, Some ys) \<Rightarrow> length xs = length ys \<and> list_all2 (=) xs ys
            | (x, y) \<Rightarrow> x = None \<and> y = None))"

definition adapter_flag :: "(adapter_defaults \<Rightarrow> bool) \<Rightarrow> epoch_header \<Rightarrow> bool" where
  "adapter_flag f h = (case eh_adapterDefaults h of None \<Rightarrow> False | Some d \<Rightarrow> f d)"

definition canonicalHeader :: "epoch_header \<Rightarrow> epoch_header" where
  "canonicalHeader h =
     \<lparr>eh_config = eh_config h,
      eh_adapterDefaults =
        (if adapter_flag ad_reasoningEffort h \<or> adapter_flag ad_maxTokens h
         then eh_adapterDefaults h else None),
      eh_system = (case eh_system h of Some s \<Rightarrow> if 0 < length s then Some s else None | None \<Rightarrow> None),
      eh_tools = (case eh_tools h of Some ts \<Rightarrow> if 0 < length ts then Some ts else None | None \<Rightarrow> None)\<rparr>"

text \<open>
  \<open>JSON.stringify\<close> of two schemas assembled through the same path: the values of the model
  keep the order of object keys, so the texts agree exactly when the values do.
\<close>

definition sameSchema :: "tool_schema \<Rightarrow> tool_schema \<Rightarrow> bool" where
  "sameSchema a b \<longleftrightarrow> a = b"

fun headerEquals :: "epoch_header \<Rightarrow> epoch_header \<Rightarrow> bool" where
  "headerEquals a b =
     (if \<not> callConfigEquals (eh_config a) (eh_config b)
         \<or> adapter_flag ad_reasoningEffort a \<noteq> adapter_flag ad_reasoningEffort b
         \<or> adapter_flag ad_maxTokens a \<noteq> adapter_flag ad_maxTokens b
         \<or> eh_system a \<noteq> eh_system b then False
      else (let at' = (case eh_tools a of Some t \<Rightarrow> t | None \<Rightarrow> []);
                bt = (case eh_tools b of Some t \<Rightarrow> t | None \<Rightarrow> [])
            in length at' = length bt \<and> list_all2 sameSchema at' bt))"

fun foldRequestHeader :: "'p event list \<Rightarrow> epoch_header option \<Rightarrow> epoch_header option" where
  "foldRequestHeader [] from' = from'"
| "foldRequestHeader (e # es) from' =
     foldRequestHeader es (case ev_data e of
        RequestHeader h _ \<Rightarrow> Some (canonicalHeader h)
      | _ \<Rightarrow> from')"

lemma foldRequestHeader_append:
  "foldRequestHeader (xs @ ys) h = foldRequestHeader ys (foldRequestHeader xs h)"
  by (induction xs arbitrary: h) auto

interpretation header_view: log_view foldRequestHeader
  by unfold_locales (simp_all add: foldRequestHeader_append)

lemma callConfigEquals_iff: "callConfigEquals a b \<longleftrightarrow> a = b"
  by (cases a; cases b) (auto simp: list.rel_eq split: option.splits)

lemma sameSchema_eq: "sameSchema = (=)"
  by (simp add: fun_eq_iff sameSchema_def)

lemma headerEquals_refl: "headerEquals h h"
  by (simp del: callConfigEquals.simps add: callConfigEquals_iff Let_def sameSchema_eq list.rel_eq)

lemma adapter_flag_canonical: "adapter_flag f (canonicalHeader h) \<longleftrightarrow>
   adapter_flag f h \<and> (adapter_flag ad_reasoningEffort h \<or> adapter_flag ad_maxTokens h)"
  by (auto simp: adapter_flag_def canonicalHeader_def)

lemma canonical_config [simp]: "eh_config (canonicalHeader h) = eh_config h"
  by (simp add: canonicalHeader_def)

lemma canonicalHeader_idem: "canonicalHeader (canonicalHeader h) = canonicalHeader h"
  by (auto simp: canonicalHeader_def adapter_flag_def split: option.splits)

lemma canonical_defaults_eq:
  assumes "adapter_flag ad_reasoningEffort (canonicalHeader a) = adapter_flag ad_reasoningEffort (canonicalHeader b)"
    and "adapter_flag ad_maxTokens (canonicalHeader a) = adapter_flag ad_maxTokens (canonicalHeader b)"
  shows "eh_adapterDefaults (canonicalHeader a) = eh_adapterDefaults (canonicalHeader b)"
  using assms
  by (auto simp: canonicalHeader_def adapter_flag_def split: option.splits if_splits)

lemma canonical_tools_eq:
  assumes "(case eh_tools (canonicalHeader a) of Some t \<Rightarrow> t | None \<Rightarrow> []) =
      (case eh_tools (canonicalHeader b) of Some t \<Rightarrow> t | None \<Rightarrow> [])"
  shows "eh_tools (canonicalHeader a) = eh_tools (canonicalHeader b)"
  using assms by (auto simp: canonicalHeader_def split: option.splits if_splits)

section \<open>Properties\<close>

text \<open>
  On canonical headers the loop's equality is equality: an unlogged header is the logged
  one, and a logged one differs; canonicalising twice changes nothing.
\<close>

theorem headerEquals_canonical:
  "(headerEquals (canonicalHeader a) (canonicalHeader b) \<longleftrightarrow> canonicalHeader a = canonicalHeader b)
   \<and> canonicalHeader (canonicalHeader a) = canonicalHeader a"
proof -
  have "canonicalHeader a = canonicalHeader b" if "headerEquals (canonicalHeader a) (canonicalHeader b)"
  proof (rule epoch_header.equality)
    from that show "eh_config (canonicalHeader a) = eh_config (canonicalHeader b)"
      by (auto simp del: callConfigEquals.simps simp: callConfigEquals_iff split: if_splits)
    from that show "eh_adapterDefaults (canonicalHeader a) = eh_adapterDefaults (canonicalHeader b)"
      by (intro canonical_defaults_eq) (auto split: if_splits)
    from that show "eh_system (canonicalHeader a) = eh_system (canonicalHeader b)"
      by (auto split: if_splits)
    from that show "eh_tools (canonicalHeader a) = eh_tools (canonicalHeader b)"
      by (intro canonical_tools_eq) (auto simp: Let_def sameSchema_eq list.rel_eq split: if_splits)
  qed simp
  then show ?thesis
    using canonicalHeader_idem headerEquals_refl [of "canonicalHeader b"] by metis
qed

text \<open>
  Folding a log resumes from any prefix, and the header in force is the canonical form
  of the last logged one.
\<close>

theorem foldRequestHeader_last:
  "foldRequestHeader evs from' =
     (case filter (\<lambda>e. case ev_data e of RequestHeader _ _ \<Rightarrow> True | _ \<Rightarrow> False) (rev evs) of
        [] \<Rightarrow> from'
      | e # _ \<Rightarrow> (case ev_data e of RequestHeader h _ \<Rightarrow> Some (canonicalHeader h) | _ \<Rightarrow> None))
   \<and> foldRequestHeader (evs @ later) from' = foldRequestHeader later (foldRequestHeader evs from')"
proof -
  have "foldRequestHeader evs from' =
     (case filter (\<lambda>e. case ev_data e of RequestHeader _ _ \<Rightarrow> True | _ \<Rightarrow> False) (rev evs) of
        [] \<Rightarrow> from'
      | e # _ \<Rightarrow> (case ev_data e of RequestHeader h _ \<Rightarrow> Some (canonicalHeader h) | _ \<Rightarrow> None))"
  proof (induction evs rule: rev_induct)
    case (snoc e evs)
    then show ?case
      by (cases "ev_data e") (simp_all add: foldRequestHeader_append)
  qed simp
  then show ?thesis by (simp add: header_view.view_append)
qed

end
