(* ===== verification/SessionTrace.thy ===== *)
theory SessionTrace imports SessionTypes begin

text \<open>
  packages/core/session/src/invariant.ts: the relational invariant of the session log. Every
  event is validated against a trace of the open turn, the open step and the calls without a
  result; validation is pure and its transition is applied when the event commits.
\<close>

record session_trace =
  st_lastSeq :: int
  st_openTurn :: "int option"
  st_openStep :: "int option"
  st_nextTurn :: int
  st_nextStep :: int
  st_pending :: "string set"

datatype pending_change = NoChange | AddCall string | DeleteCall "string option" | ClearCalls

record trace_transition =
  tn_lastSeq :: int
  tn_openTurn :: "int option"
  tn_openStep :: "int option"
  tn_nextTurn :: int
  tn_nextStep :: int
  tn_pending :: pending_change

datatype trace_failure =
    SeqNotIncreasing nat int
  | TurnStillOpen int int
  | TurnUnexpected int int
  | TurnEndMismatch int "int option"
  | StepStillOpen int
  | StepOutsideTurn int "int option"
  | StepUnexpected int int
  | NotOpenStep int int
  | RewriteOutsideTurn
  | ResultWithoutCall "string option"
  | OutsideTurn

definition TOOL_NOT_STARTED :: string where
  "TOOL_NOT_STARTED = ''TOOL_NOT_STARTED''"

definition TOOL_OUTCOME_UNKNOWN :: string where
  "TOOL_OUTCOME_UNKNOWN = ''TOOL_OUTCOME_UNKNOWN''"

definition requireOpenStep :: "session_trace \<Rightarrow> int \<Rightarrow> int \<Rightarrow> trace_failure + unit" where
  "requireOpenStep tr turn step =
     guard (st_openTurn tr = Some turn \<and> st_openStep tr = Some step) (NotOpenStep turn step)"

fun is_error_block :: "content_block \<Rightarrow> bool" where
  "is_error_block (ToolResultBlock _ _ (Some b)) = b"
| "is_error_block _ = False"

definition synthetic_not_started :: "tool_result \<Rightarrow> bool" where
  "synthetic_not_started r \<longleftrightarrow>
     (case msg_content (tr_message r) of b # _ \<Rightarrow> is_error_block b | [] \<Rightarrow> False)
     \<and> map_option snd (tr_error r) = Some TOOL_NOT_STARTED"

definition has_pending :: "session_trace \<Rightarrow> string option \<Rightarrow> bool" where
  "has_pending tr c = (case c of Some i \<Rightarrow> i \<in> st_pending tr | None \<Rightarrow> False)"

definition same_scalars :: "session_trace \<Rightarrow> int \<Rightarrow> trace_transition" where
  "same_scalars tr seq =
     \<lparr>tn_lastSeq = seq, tn_openTurn = st_openTurn tr, tn_openStep = st_openStep tr,
      tn_nextTurn = st_nextTurn tr, tn_nextStep = st_nextStep tr, tn_pending = NoChange\<rparr>"

definition validateEvent :: "session_trace \<Rightarrow> 'p event \<Rightarrow> trace_failure + trace_transition" where
  "validateEvent tr e =
     rbind (guard (\<not> int (ev_seq e) \<le> st_lastSeq tr) (SeqNotIncreasing (ev_seq e) (st_lastSeq tr))) (\<lambda>_.
     let same = same_scalars tr (int (ev_seq e)) in
     case ev_data e of
       TurnStart turn \<Rightarrow>
         (case st_openTurn tr of
            Some t \<Rightarrow> Inl (TurnStillOpen turn t)
          | None \<Rightarrow>
              if turn \<noteq> st_nextTurn tr then Inl (TurnUnexpected (st_nextTurn tr) turn)
              else Inr (same\<lparr>tn_openTurn := Some turn, tn_nextStep := 1\<rparr>))
     | TurnEnd turn _ \<Rightarrow>
         (if st_openTurn tr \<noteq> Some turn then Inl (TurnEndMismatch turn (st_openTurn tr))
          else (case st_openStep tr of
              Some s \<Rightarrow> Inl (StepStillOpen s)
            | None \<Rightarrow> Inr (same\<lparr>tn_openTurn := None, tn_nextTurn := st_nextTurn tr + 1\<rparr>)))
     | StepStart turn step \<Rightarrow>
         (if st_openTurn tr \<noteq> Some turn then Inl (StepOutsideTurn turn (st_openTurn tr))
          else (case st_openStep tr of
              Some s \<Rightarrow> Inl (StepStillOpen s)
            | None \<Rightarrow>
                if step \<noteq> st_nextStep tr then Inl (StepUnexpected (st_nextStep tr) step)
                else Inr (same\<lparr>tn_openStep := Some step\<rparr>)))
     | StepEnd turn step \<Rightarrow>
         rbind (requireOpenStep tr turn step) (\<lambda>_.
           Inr (same\<lparr>tn_pending := ClearCalls, tn_openStep := None, tn_nextStep := st_nextStep tr + 1\<rparr>))
     | AssistantChunk turn step _ \<Rightarrow> rbind (requireOpenStep tr turn step) (\<lambda>_. Inr same)
     | AssistantMessage turn step _ _ _ \<Rightarrow> rbind (requireOpenStep tr turn step) (\<lambda>_. Inr same)
     | ToolCall turn step callId _ _ \<Rightarrow>
         rbind (requireOpenStep tr turn step) (\<lambda>_. Inr (same\<lparr>tn_pending := AddCall callId\<rparr>))
     | ToolResult r \<Rightarrow>
         (if ev_surfaceOp e \<noteq> Some (JStr ''append'') then
            (if st_openTurn tr = None then Inl RewriteOutsideTurn else Inr same)
          else rbind (requireOpenStep tr (tr_turn r) (tr_step r)) (\<lambda>_.
            let callId = source_call_id (msg_source (tr_message r)) in
            if \<not> has_pending tr callId \<and> \<not> synthetic_not_started r then Inl (ResultWithoutCall callId)
            else Inr (same\<lparr>tn_pending := DeleteCall callId\<rparr>)))
     | TodoWrite _ \<Rightarrow> (if st_openTurn tr = None then Inl OutsideTurn else Inr same)
     | RequestHeader _ _ \<Rightarrow> (if st_openTurn tr = None then Inl OutsideTurn else Inr same)
     | RequestContext _ \<Rightarrow> (if st_openTurn tr = None then Inl OutsideTurn else Inr same)
     | UserMessage _ \<Rightarrow> Inr same
     | EndSeed \<Rightarrow> Inr same
     | Plugin _ \<Rightarrow> Inr same)"

definition applyTransition :: "session_trace \<Rightarrow> trace_transition \<Rightarrow> session_trace" where
  "applyTransition tr t =
     \<lparr>st_lastSeq = tn_lastSeq t, st_openTurn = tn_openTurn t, st_openStep = tn_openStep t,
      st_nextTurn = tn_nextTurn t, st_nextStep = tn_nextStep t,
      st_pending = (case tn_pending t of
          NoChange \<Rightarrow> st_pending tr
        | AddCall c \<Rightarrow> insert c (st_pending tr)
        | DeleteCall (Some c) \<Rightarrow> st_pending tr - {c}
        | DeleteCall None \<Rightarrow> st_pending tr
        | ClearCalls \<Rightarrow> {})\<rparr>"

definition freshTrace :: session_trace where
  "freshTrace = \<lparr>st_lastSeq = -1, st_openTurn = None, st_openStep = None, st_nextTurn = 1,
     st_nextStep = 1, st_pending = {}\<rparr>"

definition trace_step :: "session_trace \<Rightarrow> 'p event \<Rightarrow> trace_failure + session_trace" where
  "trace_step tr e = rbind (validateEvent tr e) (\<lambda>t. Inr (applyTransition tr t))"

definition seedSession :: "'p event list \<Rightarrow> trace_failure + session_trace" where
  "seedSession evs = run_steps trace_step freshTrace evs"

section \<open>Steps, kind by kind\<close>

lemmas trace_step_defs =
  trace_step_def validateEvent_def applyTransition_def same_scalars_def requireOpenStep_def

text \<open>The shape of the trace: brackets nest and calls are pending only inside a step.\<close>

definition trace_wf :: "session_trace \<Rightarrow> bool" where
  "trace_wf tr \<longleftrightarrow>
     (\<forall>t. st_openTurn tr = Some t \<longrightarrow> t = st_nextTurn tr)
     \<and> (\<forall>s. st_openStep tr = Some s \<longrightarrow> s = st_nextStep tr \<and> st_openTurn tr \<noteq> None)
     \<and> (st_openStep tr = None \<longrightarrow> st_pending tr = {})
     \<and> 1 \<le> st_nextTurn tr \<and> 1 \<le> st_nextStep tr"

lemma trace_step_wf:
  assumes "trace_wf tr" and "trace_step tr e = Inr tr'"
  shows "trace_wf tr'"
  using assms
  by (cases "ev_data e")
    (auto simp: trace_step_defs trace_wf_def result_simps Let_def split: option.splits if_splits)

interpretation trace_replay: fold_invariant trace_step trace_wf
  by unfold_locales (rule trace_step_wf)

lemma freshTrace_wf: "trace_wf freshTrace"
  by (simp add: trace_wf_def freshTrace_def)

lemma seedSession_wf: "seedSession evs = Inr tr \<Longrightarrow> trace_wf tr"
  unfolding seedSession_def by (rule trace_replay.run_inv [OF freshTrace_wf])

lemma seedSession_snoc: "seedSession (evs @ [e]) = rbind (seedSession evs) (\<lambda>tr. trace_step tr e)"
  by (simp add: seedSession_def run_steps_snoc)

lemma seedSession_append:
  "seedSession (evs @ later) = rbind (seedSession evs) (\<lambda>tr. run_steps trace_step tr later)"
  by (simp add: seedSession_def run_steps_append)

lemma trace_step_lastSeq: "trace_step tr e = Inr tr' \<Longrightarrow> st_lastSeq tr < int (ev_seq e) \<and> st_lastSeq tr' = int (ev_seq e)"
  by (cases "ev_data e"; auto simp: trace_step_defs result_simps Let_def split: option.splits if_splits)

lemma seedSession_lastSeq:
  "seedSession evs = Inr tr \<Longrightarrow> st_lastSeq tr = (if evs = [] then -1 else int (ev_seq (last evs)))"
proof (cases evs rule: rev_cases)
  case (snoc es e)
  assume "seedSession evs = Inr tr"
  then obtain t where "trace_step t e = Inr tr" using snoc by (auto simp: seedSession_snoc result_simps)
  from trace_step_lastSeq [OF this] snoc show ?thesis by simp
qed (auto simp: seedSession_def freshTrace_def)

section \<open>What an accepted log contains\<close>

fun turn_started :: "'p event \<Rightarrow> int option" where
  "turn_started e = (case ev_data e of TurnStart t \<Rightarrow> Some t | _ \<Rightarrow> None)"

fun turn_ended :: "'p event \<Rightarrow> int option" where
  "turn_ended e = (case ev_data e of TurnEnd t _ \<Rightarrow> Some t | _ \<Rightarrow> None)"

definition calls_at :: "'p event list \<Rightarrow> int \<Rightarrow> int \<Rightarrow> string set" where
  "calls_at evs t s = {c. \<exists>e \<in> set evs. \<exists>n a. ev_data e = ToolCall t s c n a}"

definition answered :: "'p event list \<Rightarrow> 'p event \<Rightarrow> bool" where
  "answered pre e \<longleftrightarrow>
     (\<forall>r. ev_data e = ToolResult r \<longrightarrow> ev_surfaceOp e = Some (JStr ''append'') \<longrightarrow>
        synthetic_not_started r \<or>
        (\<exists>c. source_call_id (msg_source (tr_message r)) = Some c \<and> c \<in> calls_at pre (tr_turn r) (tr_step r)))"

definition trace_hist :: "'p event list \<Rightarrow> session_trace \<Rightarrow> bool" where
  "trace_hist pre tr \<longleftrightarrow> trace_wf tr
     \<and> List.map_filter turn_ended pre = [1..st_nextTurn tr - 1]
     \<and> List.map_filter turn_started pre =
         [1..st_nextTurn tr - 1] @ (case st_openTurn tr of Some t \<Rightarrow> [t] | None \<Rightarrow> [])
     \<and> (\<forall>t s. st_openTurn tr = Some t \<longrightarrow> st_openStep tr = Some s \<longrightarrow> st_pending tr \<subseteq> calls_at pre t s)
     \<and> (\<forall>i < length pre. answered (take i pre) (pre ! i))
     \<and> sorted_wrt (<) (map ev_seq pre) \<and> (\<forall>e \<in> set pre. int (ev_seq e) \<le> st_lastSeq tr)"

lemma calls_at_snoc: "calls_at pre t s \<subseteq> calls_at (pre @ [e]) t s"
  by (auto simp: calls_at_def)

lemma calls_at_new: "ev_data e = ToolCall t s c n a \<Longrightarrow> c \<in> calls_at (pre @ [e]) t s"
  by (auto simp: calls_at_def)

lemma upto_snoc: "1 \<le> n \<Longrightarrow> [1..n - 1] @ [n] = [1..n :: int]"
  by (metis upto_rec2 )

lemma trace_step_hist:
  assumes h: "trace_hist pre tr" and step: "trace_step tr e = Inr tr'"
  shows "trace_hist (pre @ [e]) tr'"
proof -
  from h have wf: "trace_wf tr"
    and ended: "List.map_filter turn_ended pre = [1..st_nextTurn tr - 1]"
    and started: "List.map_filter turn_started pre =
         [1..st_nextTurn tr - 1] @ (case st_openTurn tr of Some t \<Rightarrow> [t] | None \<Rightarrow> [])"
    and pend: "\<And>t s. st_openTurn tr = Some t \<Longrightarrow> st_openStep tr = Some s \<Longrightarrow> st_pending tr \<subseteq> calls_at pre t s"
    and ans: "\<forall>i < length pre. answered (take i pre) (pre ! i)"
    and seqs: "sorted_wrt (<) (map ev_seq pre)" "\<forall>e \<in> set pre. int (ev_seq e) \<le> st_lastSeq tr"
    by (auto simp: trace_hist_def)
  have wf': "trace_wf tr'" by (rule trace_step_wf [OF wf step])
  have last: "st_lastSeq tr < int (ev_seq e)" "st_lastSeq tr' = int (ev_seq e)"
    using trace_step_lastSeq [OF step] by auto
  have "answered pre e"
    using step
    by (auto simp: answered_def trace_step_defs result_simps has_pending_def Let_def
        split: option.splits if_splits dest: subsetD [OF pend])
  with ans have ans': "\<forall>i < length (pre @ [e]). answered (take i (pre @ [e])) ((pre @ [e]) ! i)"
    by (auto simp: nth_append less_Suc_eq)
  have seqs': "sorted_wrt (<) (map ev_seq (pre @ [e]))" "\<forall>x \<in> set (pre @ [e]). int (ev_seq x) \<le> st_lastSeq tr'"
    using seqs last by (fastforce simp: sorted_wrt_append)+
  have pend': "st_pending tr' \<subseteq> calls_at (pre @ [e]) t s"
    if o: "st_openTurn tr' = Some t" "st_openStep tr' = Some s" for t s
  proof (cases "\<exists>t s. ev_data e = StepStart t s")
    case True
    then show ?thesis
      using step wf by (auto simp: trace_step_defs trace_wf_def result_simps Let_def split: option.splits if_splits)
  next
    case False
    then have same: "st_openTurn tr = Some t" "st_openStep tr = Some s"
      using step o wf
      by (cases "ev_data e";
          auto simp: trace_step_defs trace_wf_def result_simps Let_def split: option.splits if_splits)+
    have sub: "st_pending tr' \<subseteq> st_pending tr \<union> {c. \<exists>n a. ev_data e = ToolCall t s c n a}"
      using step same
      by (cases "ev_data e")
        (auto simp: trace_step_defs result_simps Let_def split: option.splits if_splits)
    then show ?thesis
      using pend [OF same] calls_at_snoc [of pre t s e] calls_at_new [of e t s _ _ _ pre] by blast
  qed
  have turns: "List.map_filter turn_ended (pre @ [e]) = [1..st_nextTurn tr' - 1]
    \<and> List.map_filter turn_started (pre @ [e]) =
         [1..st_nextTurn tr' - 1] @ (case st_openTurn tr' of Some t \<Rightarrow> [t] | None \<Rightarrow> [])"
    using step ended started wf upto_snoc [of "st_nextTurn tr"]
    by (cases "ev_data e")
      (auto simp: trace_step_defs trace_wf_def result_simps Let_def split: option.splits if_splits)
  show ?thesis
    using wf' turns pend' ans' seqs' by (simp add: trace_hist_def)
qed

interpretation trace_log: fold_history trace_step trace_hist
  by unfold_locales (rule trace_step_hist)

lemma seedSession_hist: "seedSession evs = Inr tr \<Longrightarrow> trace_hist evs tr"
  using trace_log.run_hinv [of "[]" freshTrace evs tr]
  by (simp add: seedSession_def trace_hist_def freshTrace_def trace_wf_def List.map_filter_def)

definition plain_event :: "nat \<Rightarrow> 'p event_data \<Rightarrow> 'p event" where
  "plain_event n d = \<lparr>ev_data = d, ev_seq = n, ev_time = 0, ev_ignorable = False,
     ev_surfaceOp = (if isSurfaceEligibleType d then Some (JStr ''append'') else None), ev_sources = None\<rparr>"

definition sample_result :: "string \<Rightarrow> tool_result" where
  "sample_result c = \<lparr>tr_turn = 1, tr_step = 1,
     tr_message = \<lparr>msg_id = ''r'', msg_role = RoleUser, msg_content = [ToolResultBlock c [] (Some False)],
                   msg_source = ToolSource c\<rparr>, tr_error = None, tr_meta = None\<rparr>"

definition sample_turn :: "unit event list" where
  "sample_turn = [plain_event 0 (TurnStart 1), plain_event 1 (StepStart 1 1),
     plain_event 2 (ToolCall 1 1 ''c'' ''ls'' ''''), plain_event 3 (ToolResult (sample_result ''c''))]"

lemma sample_turn_accepted:
  "seedSession sample_turn = Inr \<lparr>st_lastSeq = 3, st_openTurn = Some 1, st_openStep = Some 1,
     st_nextTurn = 1, st_nextStep = 1, st_pending = {}\<rparr>"
  by (simp add: seedSession_def sample_turn_def sample_result_def plain_event_def freshTrace_def
      trace_step_defs has_pending_def Let_def)

section \<open>Properties\<close>

text \<open>
  In a log the invariant accepts, turns are numbered 1, 2, 3, ... and properly
  bracketed: every turn that ended had started, in order, and at most one, the last started,
  is open.
\<close>

theorem accepted_turns:
  assumes "seedSession evs = Inr tr"
  shows "List.map_filter turn_ended evs = [1..st_nextTurn tr - 1]
    \<and> List.map_filter turn_started evs =
        (case st_openTurn tr of None \<Rightarrow> [1..st_nextTurn tr - 1] | Some t \<Rightarrow> [1..t])
    \<and> (case st_openTurn tr of None \<Rightarrow> st_openStep tr = None | Some t \<Rightarrow> t = st_nextTurn tr)"
proof -
  from seedSession_hist [OF assms] have h: "trace_wf tr"
    "List.map_filter turn_ended evs = [1..st_nextTurn tr - 1]"
    "List.map_filter turn_started evs =
         [1..st_nextTurn tr - 1] @ (case st_openTurn tr of Some t \<Rightarrow> [t] | None \<Rightarrow> [])"
    by (simp_all add: trace_hist_def)
  then show ?thesis
    using upto_snoc [of "st_nextTurn tr"]
    by (cases "st_openTurn tr"; cases "st_openStep tr") (auto simp: trace_wf_def)
qed

theorem accepted_turns_witness:
  "seedSession sample_turn = Inr \<lparr>st_lastSeq = 3, st_openTurn = Some 1, st_openStep = Some 1,
     st_nextTurn = 1, st_nextStep = 1, st_pending = {}\<rparr>
   \<and> List.map_filter turn_started sample_turn = [1..1]"
  using sample_turn_accepted accepted_turns [OF sample_turn_accepted] by simp

text \<open>
  In a log the invariant accepts, every tool result that was appended (not a rewrite)
  answers a tool call recorded earlier in the same turn and step, or is the synthetic result
  of a call that never started; sequence numbers strictly increase.
\<close>

theorem accepted_results_answer_calls:
  assumes "seedSession evs = Inr tr" and "i < length evs"
    and "ev_data (evs ! i) = ToolResult r" and "ev_surfaceOp (evs ! i) = Some (JStr ''append'')"
    and "\<not> synthetic_not_started r"
  shows "\<exists>j < i. \<exists>c n a. ev_data (evs ! j) = ToolCall (tr_turn r) (tr_step r) c n a
    \<and> source_call_id (msg_source (tr_message r)) = Some c \<and> ev_seq (evs ! j) < ev_seq (evs ! i)"
proof -
  have h: "trace_hist evs tr" by (rule seedSession_hist [OF assms(1)])
  then have "answered (take i evs) (evs ! i)" using assms(2) by (simp add: trace_hist_def)
  with assms(3-5) obtain c e n a where c: "source_call_id (msg_source (tr_message r)) = Some c"
    and e: "e \<in> set (take i evs)" "ev_data e = ToolCall (tr_turn r) (tr_step r) c n a"
    by (auto simp: answered_def calls_at_def)
  from e(1) assms(2) obtain j where j: "j < i" "e = evs ! j"
    by (auto simp: in_set_conv_nth)
  have "sorted_wrt (<) (map ev_seq evs)" using h by (simp add: trace_hist_def)
  then have "ev_seq (evs ! j) < ev_seq (evs ! i)"
    using j(1) assms(2) by (simp add: sorted_wrt_iff_nth_less)
  with c e(2) j show ?thesis by blast
qed

theorem accepted_results_answer_calls_witness:
  "\<exists>j < 3. \<exists>c n a. ev_data (sample_turn ! j) = ToolCall 1 1 c n a
    \<and> source_call_id (msg_source (tr_message (sample_result ''c''))) = Some c
    \<and> ev_seq (sample_turn ! j) < ev_seq (sample_turn ! 3)"
  using accepted_results_answer_calls [OF sample_turn_accepted, of 3 "sample_result ''c''"]
  by (simp add: sample_turn_def plain_event_def sample_result_def synthetic_not_started_def)

end
