(* ===== verification/SessionLog.thy ===== *)
theory SessionLog imports SurfaceManager RequestHeaders SessionTrace begin

text \<open>
  The class \<open>Session\<close> of packages/core/session/src/index.ts: the append-only log, its
  construction from a seed, the append path, and the caches of the request header, the request
  context and the derived message history. \<open>same\<close> is object identity of events. The store
  attachment reaches an append as two inputs: whether another append of the same entry is being
  published, and whether the dispatch of the candidate to the listeners succeeded (a listener
  may veto). Freezing and snapshotting of JSON values have no counterpart: the model's values
  are immutable.
\<close>

record 'p session =
  ss_log :: "'p event list"
  ss_mgr :: "'p surface_manager"
  ss_firstLive :: nat
  ss_headerFold :: "epoch_header option"
  ss_headerSeq :: nat
  ss_contextFold :: "request_context option"
  ss_contextSeq :: nat
  ss_derived :: "message list"
  ss_derivedNodes :: nat
  ss_derivedGen :: nat

datatype session_error =
    SeedMalformed nat
  | SeedNotContiguous nat nat
  | SeedInvalid nat surface_error
  | AppendReentered
  | AppendInvalid surface_error
  | AppendVetoed
  | SurfaceBroken surface_error

definition emptySession :: "'p session" where
  "emptySession =
     \<lparr>ss_log = [], ss_mgr = newManager 0, ss_firstLive = 0, ss_headerFold = None, ss_headerSeq = 0,
      ss_contextFold = None, ss_contextSeq = 0, ss_derived = [], ss_derivedNodes = 0, ss_derivedGen = 0\<rparr>"

text \<open>
  What the constructor asks of a seed event before it replays it: safe numbers in the envelope, a
  routed request header whose defaults refer to values it has, and a message of the role, source
  and content its type calls for. Unknown envelope keys, the removed \<open>request/header-delta\<close> events and
  the removed header reason \<open>fallback\<close> are no values of the model's types.
\<close>

definition hasProviderModel :: "string \<Rightarrow> string \<Rightarrow> bool" where
  "hasProviderModel p m \<longleftrightarrow> length p > 0 \<and> length m > 0"

definition assertAdapterDefaults :: "adapter_defaults option \<Rightarrow> llm_call_config \<Rightarrow> bool" where
  "assertAdapterDefaults d c \<longleftrightarrow>
     (case d of
        None \<Rightarrow> True
      | Some m \<Rightarrow> \<not> (ad_reasoningEffort m \<and> cfg_reasoningEffort c = None)
          \<and> \<not> (ad_maxTokens m \<and> cfg_maxTokens c = None))"

definition identified :: "role \<Rightarrow> message \<Rightarrow> bool" where
  "identified expected m \<longleftrightarrow>
     msg_id m \<noteq> [] \<and> msg_role m = expected
     \<and> (case msg_source m of OtherSource kind _ \<Rightarrow> kind \<noteq> [] | _ \<Rightarrow> True)"

definition assertMessageEventShape :: "'p event_data \<Rightarrow> bool" where
  "assertMessageEventShape d \<longleftrightarrow>
     (case d of
        UserMessage m \<Rightarrow> identified RoleUser m
      | AssistantMessage _ _ m _ _ \<Rightarrow> identified RoleAssistant m
          \<and> (case msg_source m of ModelSource p name _ \<Rightarrow> hasProviderModel p name | _ \<Rightarrow> False)
      | ToolResult r \<Rightarrow> identified RoleUser (tr_message r)
          \<and> (case msg_source (tr_message r) of
               ToolSource c \<Rightarrow> c \<noteq> []
                 \<and> (case msg_content (tr_message r) of [ToolResultBlock c' _ _] \<Rightarrow> c' = c | _ \<Rightarrow> False)
             | _ \<Rightarrow> False)
      | _ \<Rightarrow> True)"

definition assertCurrentLlmShape :: "'p event_data \<Rightarrow> bool" where
  "assertCurrentLlmShape d \<longleftrightarrow>
     (case d of
        RequestHeader h _ \<Rightarrow>
          (let c = eh_config h
           in hasProviderModel (cfg_provider c) (cfg_model c) \<and> cfg_reasoningEffort c \<noteq> Some []
              \<and> assertAdapterDefaults (eh_adapterDefaults h) c)
      | _ \<Rightarrow> assertMessageEventShape d)"

definition assertSessionEventEnvelope :: "'p event \<Rightarrow> bool" where
  "assertSessionEventEnvelope e \<longleftrightarrow>
     safe_int (int (ev_seq e)) \<and> safe_int (ev_time e) \<and> assertCurrentLlmShape (ev_data e)"

fun seed_loop ::
  "('p event \<Rightarrow> 'p event \<Rightarrow> bool) \<Rightarrow> 'p session \<Rightarrow> 'p event list \<Rightarrow> session_error + 'p session" where
  "seed_loop same s [] = Inr s"
| "seed_loop same s (e # es) =
     (if \<not> assertSessionEventEnvelope e then Inl (SeedMalformed (length (ss_log s)))
      else if ev_seq e \<noteq> length (ss_log s) then Inl (SeedNotContiguous (ev_seq e) (length (ss_log s)))
      else (case validateNext same 0 (ss_log s) (ss_mgr s) e of
          (m, Inl x) \<Rightarrow> Inl (SeedInvalid (length (ss_log s)) x)
        | (m, Inr _) \<Rightarrow> seed_loop same (s\<lparr>ss_mgr := m, ss_log := ss_log s @ [e]\<rparr>) es))"

record 'p append_input =
  ai_data :: "'p event_data"
  ai_surfaceOp :: "json option"
  ai_sources :: "json option"
  ai_ignorable :: bool
  ai_time :: int

definition candidate :: "'p session \<Rightarrow> 'p append_input \<Rightarrow> 'p event" where
  "candidate s i = \<lparr>ev_data = ai_data i, ev_seq = length (ss_log s), ev_time = ai_time i,
     ev_ignorable = ai_ignorable i, ev_surfaceOp = ai_surfaceOp i, ev_sources = ai_sources i\<rparr>"

definition append_event ::
  "('p event \<Rightarrow> 'p event \<Rightarrow> bool) \<Rightarrow> bool \<Rightarrow> bool \<Rightarrow> 'p session \<Rightarrow> 'p append_input
   \<Rightarrow> 'p session \<times> (session_error + 'p event)" where
  "append_event same appending dispatched s i =
     (if appending then (s, Inl AppendReentered)
      else
        let e = candidate s i
        in case validateNext same 0 (ss_log s) (ss_mgr s) e of
             (m, Inl x) \<Rightarrow> (s\<lparr>ss_mgr := m\<rparr>, Inl (AppendInvalid x))
           | (m, Inr _) \<Rightarrow>
               if \<not> dispatched then (s\<lparr>ss_mgr := m\<rparr>, Inl AppendVetoed)
               else (s\<lparr>ss_mgr := m, ss_log := ss_log s @ [e]\<rparr>, Inr e))"

fun is_end_seed :: "'p event_data \<Rightarrow> bool" where
  "is_end_seed EndSeed = True"
| "is_end_seed _ = False"

definition end_seed_input :: "int \<Rightarrow> 'p append_input" where
  "end_seed_input time = \<lparr>ai_data = EndSeed, ai_surfaceOp = None, ai_sources = None,
     ai_ignorable = False, ai_time = time\<rparr>"

text \<open>The constructor: the marker is appended before the store attaches.\<close>

definition newSession ::
  "('p event \<Rightarrow> 'p event \<Rightarrow> bool) \<Rightarrow> int \<Rightarrow> 'p event list option \<Rightarrow> session_error + 'p session" where
  "newSession same now seed =
     rbind (case seed of None \<Rightarrow> Inr emptySession | Some evs \<Rightarrow> seed_loop same emptySession evs) (\<lambda>s.
       let s' = s\<lparr>ss_firstLive := length (ss_log s)\<rparr>
       in if seed \<noteq> None \<and> (ss_log s' = [] \<or> \<not> is_end_seed (ev_data (last (ss_log s')))) then
            (case append_event same False True s' (end_seed_input now) of
               (s'', Inl x) \<Rightarrow> Inl x
             | (s'', Inr _) \<Rightarrow> Inr s'')
          else Inr s')"

section \<open>The caches\<close>

definition requestHeader :: "'p session \<Rightarrow> 'p session \<times> epoch_header option" where
  "requestHeader s =
     (let s' = (if ss_headerSeq s < length (ss_log s) then
          s\<lparr>ss_headerFold := foldRequestHeader (drop (ss_headerSeq s) (ss_log s)) (ss_headerFold s),
            ss_headerSeq := length (ss_log s)\<rparr> else s)
      in (s', ss_headerFold s'))"

fun foldRequestContext :: "'p event list \<Rightarrow> request_context option \<Rightarrow> request_context option" where
  "foldRequestContext [] c = c"
| "foldRequestContext (e # es) c =
     foldRequestContext es (case ev_data e of RequestContext r \<Rightarrow> Some r | _ \<Rightarrow> c)"

definition requestContext :: "'p session \<Rightarrow> 'p session \<times> request_context option" where
  "requestContext s =
     (let s' = (if ss_contextSeq s < length (ss_log s) then
          s\<lparr>ss_contextFold := foldRequestContext (drop (ss_contextSeq s) (ss_log s)) (ss_contextFold s),
            ss_contextSeq := length (ss_log s)\<rparr> else s)
      in (s', ss_contextFold s'))"

fun project :: "'p event list \<Rightarrow> nat list \<Rightarrow> message list" where
  "project evs [] = []"
| "project evs (n # ns) =
     (case deriveEventMessage (evs ! n) of Some m \<Rightarrow> m # project evs ns | None \<Rightarrow> project evs ns)"

definition deriveMessages ::
  "('p event \<Rightarrow> 'p event \<Rightarrow> bool) \<Rightarrow> 'p session \<Rightarrow> 'p session \<times> (session_error + message list)" where
  "deriveMessages same s =
     (case readSurface same 0 (ss_log s) (ss_mgr s) of
        (m, Inl x) \<Rightarrow> (s\<lparr>ss_mgr := m\<rparr>, Inl (SurfaceBroken x))
      | (m, Inr st) \<Rightarrow>
          (case readSurface same 0 (ss_log s) m of
             (m', Inl x) \<Rightarrow> (s\<lparr>ss_mgr := m'\<rparr>, Inl (SurfaceBroken x))
           | (m', Inr st') \<Rightarrow>
               let s0 = s\<lparr>ss_mgr := m'\<rparr>;
                   s1 = (if replaceGeneration st' \<noteq> ss_derivedGen s0 then
                       s0\<lparr>ss_derived := [], ss_derivedNodes := 0, ss_derivedGen := replaceGeneration st'\<rparr>
                     else s0);
                   s2 = s1\<lparr>ss_derived := ss_derived s1 @ project (ss_log s1) (drop (ss_derivedNodes s1) (nodes st)),
                           ss_derivedNodes := length (nodes st)\<rparr>
               in (s2, Inr (ss_derived s2))))"

text \<open>The states a session passes through.\<close>

inductive session_reach :: "('p event \<Rightarrow> 'p event \<Rightarrow> bool) \<Rightarrow> 'p session \<Rightarrow> bool" for same where
  sr_new: "newSession same now seed = Inr s \<Longrightarrow> session_reach same s"
| sr_append: "session_reach same s \<Longrightarrow> session_reach same (fst (append_event same a d s i))"
| sr_header: "session_reach same s \<Longrightarrow> session_reach same (fst (requestHeader s))"
| sr_context: "session_reach same s \<Longrightarrow> session_reach same (fst (requestContext s))"
| sr_derive: "session_reach same s \<Longrightarrow> session_reach same (fst (deriveMessages same s))"
| sr_nodes: "session_reach same s \<Longrightarrow>
    session_reach same (s\<lparr>ss_mgr := fst (readSurface same 0 (ss_log s) (ss_mgr s))\<rparr>)"

section \<open>The invariant of a session\<close>

lemma foldRequestContext_append:
  "foldRequestContext (xs @ ys) c = foldRequestContext ys (foldRequestContext xs c)"
  by (induction xs arbitrary: c) auto

interpretation context_view: log_view foldRequestContext
  by unfold_locales (simp_all add: foldRequestContext_append)

lemma project_append: "project evs (xs @ ys) = project evs xs @ project evs ys"
  by (induction xs) (auto split: option.splits)

lemma project_extend: "\<forall>n \<in> set ns. n < length evs \<Longrightarrow> project (evs @ later) ns = project evs ns"
  by (induction ns) (auto simp: nth_append split: option.splits)

text \<open>Between two equal generations the surface only grew at its end.\<close>

lemma plan_applied_nodes:
  "fst (applySurfacePlan st p) = st' \<Longrightarrow>
   replaceGeneration st \<le> replaceGeneration st'
   \<and> (replaceGeneration st = replaceGeneration st' \<longrightarrow> (\<exists>ext. nodes st' = nodes st @ ext))"
  by (cases "(st, p)" rule: applySurfacePlan.cases) auto

lemma run_nodes_prefix:
  "run_steps (surface_step evs base) (st, reps, i) es = Inr (st', reps', i') \<Longrightarrow>
   replaceGeneration st \<le> replaceGeneration st'
   \<and> (replaceGeneration st = replaceGeneration st' \<longrightarrow> (\<exists>ext. nodes st' = nodes st @ ext))"
proof (induction es arbitrary: st reps i)
  case (Cons e es)
  then obtain t where step: "surface_step evs base (st, reps, i) e = Inr t"
    and run: "run_steps (surface_step evs base) t es = Inr (st', reps', i')"
    by (auto simp: result_simps)
  obtain st1 r1 i1 where t: "t = (st1, r1, i1)" by (cases t)
  obtain p where "fst (applySurfacePlan st p) = st1"
    using step t by (auto simp: surface_step_def applySurfaceEvent_def result_simps split: prod.splits)
      (metis fst_conv)
  from plan_applied_nodes [OF this] Cons.IH [OF run [unfolded t]] show ?case by fastforce
qed simp

definition derived_inv :: "'p session \<Rightarrow> bool" where
  "derived_inv s \<longleftrightarrow>
     (\<exists>k st reps. k \<le> length (ss_log s) \<and> fold_window 0 (take k (ss_log s)) = Inr (st, reps, k)
        \<and> ss_derivedGen s = replaceGeneration st \<and> ss_derivedNodes s = length (nodes st)
        \<and> ss_derived s = project (ss_log s) (nodes st))"

definition session_inv :: "'p session \<Rightarrow> bool" where
  "session_inv s \<longleftrightarrow>
     (\<exists>st reps. fold_window 0 (ss_log s) = Inr (st, reps, length (ss_log s)))
     \<and> manager_inv 0 (ss_log s) (ss_mgr s)
     \<and> ss_headerSeq s \<le> length (ss_log s)
     \<and> ss_headerFold s = foldRequestHeader (take (ss_headerSeq s) (ss_log s)) None
     \<and> ss_contextSeq s \<le> length (ss_log s)
     \<and> ss_contextFold s = foldRequestContext (take (ss_contextSeq s) (ss_log s)) None
     \<and> derived_inv s"

lemma derived_extend:
  assumes "derived_inv s"
  shows "derived_inv (s\<lparr>ss_mgr := m, ss_log := ss_log s @ [e]\<rparr>)"
proof -
  from assms obtain k st reps where k: "k \<le> length (ss_log s)"
    "fold_window 0 (take k (ss_log s)) = Inr (st, reps, k)" "ss_derivedGen s = replaceGeneration st"
    "ss_derivedNodes s = length (nodes st)" "ss_derived s = project (ss_log s) (nodes st)"
    by (auto simp: derived_inv_def)
  have "\<forall>n \<in> set (nodes st). n < length (ss_log s)"
    using window_nodes_less [OF k(1,2)] by auto
  with k show ?thesis
    unfolding derived_inv_def by (intro exI [of _ k] exI [of _ st] exI [of _ reps]) (simp add: project_extend)
qed

lemma inv_push:
  assumes "session_inv s" and "fold_window 0 (ss_log s @ [e]) = Inr w" and "manager_inv 0 (ss_log s) m"
  shows "session_inv (s\<lparr>ss_mgr := m, ss_log := ss_log s @ [e]\<rparr>)"
proof -
  obtain st reps i where w: "fold_window 0 (ss_log s @ [e]) = Inr (st, reps, i)"
    using assms(2) by (cases w) auto
  then have "i = length (ss_log s @ [e])" using fold_window_index by fastforce
  then show ?thesis
    using assms(1) w manager_push [OF assms(3)] derived_extend [where s = s and m = m and e = e]
    by (auto simp: session_inv_def)
qed

lemma inv_mgr: "session_inv s \<Longrightarrow> manager_inv 0 (ss_log s) m \<Longrightarrow> session_inv (s\<lparr>ss_mgr := m\<rparr>)"
  by (simp add: session_inv_def derived_inv_def)

lemma emptySession_inv: "session_inv emptySession"
proof -
  have "manager_inv 0 [] (newManager 0)"
    by (auto simp: manager_inv_def newManager_def fold_window_def)
  then show ?thesis
    by (auto simp: session_inv_def derived_inv_def emptySession_def fold_window_def createFoldState_def)
qed

lemma seed_loop_ok:
  assumes "\<forall>a b. same a b \<longrightarrow> a = b"
  shows "session_inv s \<Longrightarrow> seed_loop same s es = Inr s' \<Longrightarrow>
    session_inv s' \<and> ss_log s' = ss_log s @ es \<and> ss_firstLive s' = ss_firstLive s"
proof (induction es arbitrary: s)
  case (Cons e es)
  from Cons.prems(2) obtain m u where v: "validateNext same 0 (ss_log s) (ss_mgr s) e = (m, Inr u)"
    and seq: "ev_seq e = length (ss_log s)"
    and rest: "seed_loop same (s\<lparr>ss_mgr := m, ss_log := ss_log s @ [e]\<rparr>) es = Inr s'"
    by (auto split: if_splits prod.splits sum.splits)
  have mi: "manager_inv 0 (ss_log s) (ss_mgr s)" using Cons.prems(1) by (simp add: session_inv_def)
  obtain w where "fold_window 0 (ss_log s @ [e]) = Inr w"
    using validateNext_fold(1) [OF assms mi, of e] v by (cases "fold_window 0 (ss_log s @ [e])") auto
  moreover have "manager_inv 0 (ss_log s) m"
    using validateNext_fold(2) [OF assms mi, of e] v by simp
  ultimately have "session_inv (s\<lparr>ss_mgr := m, ss_log := ss_log s @ [e]\<rparr>)"
    using inv_push Cons.prems(1) by blast
  from Cons.IH [OF this rest] show ?case by simp
qed simp

lemma append_event_inv:
  assumes "\<forall>a b. same a b \<longrightarrow> a = b" and "session_inv s"
  shows "session_inv (fst (append_event same a d s i))"
    and "snd (append_event same a d s i) =
      (if a then Inl AppendReentered
       else case fold_window 0 (ss_log s @ [candidate s i]) of
              Inl x \<Rightarrow> Inl (AppendInvalid x)
            | Inr _ \<Rightarrow> if d then Inr (candidate s i) else Inl AppendVetoed)"
    and "ss_log (fst (append_event same a d s i)) =
      ss_log s @ (case snd (append_event same a d s i) of Inr e \<Rightarrow> [e] | Inl _ \<Rightarrow> [])"
proof -
  let ?e = "candidate s i"
  have mi: "manager_inv 0 (ss_log s) (ss_mgr s)" using assms(2) by (simp add: session_inv_def)
  obtain m r where v: "validateNext same 0 (ss_log s) (ss_mgr s) ?e = (m, r)"
    by (cases "validateNext same 0 (ss_log s) (ss_mgr s) ?e")
  have r: "r = map_sum id (\<lambda>_. ()) (fold_window 0 (ss_log s @ [?e]))"
    using validateNext_fold(1) [OF assms(1) mi, of ?e] v by simp
  have m: "manager_inv 0 (ss_log s) m"
    using validateNext_fold(2) [OF assms(1) mi, of ?e] v by simp
  show "session_inv (fst (append_event same a d s i))"
  proof (cases "fold_window 0 (ss_log s @ [?e])")
    case (Inl x)
    then show ?thesis using assms(2) v r m inv_mgr [of s m] by (simp add: append_event_def Let_def)
  next
    case (Inr w)
    then show ?thesis
      using assms(2) v r m inv_mgr [of s m] inv_push [OF assms(2) Inr m]
      by (simp add: append_event_def Let_def)
  qed
  show "snd (append_event same a d s i) =
      (if a then Inl AppendReentered
       else case fold_window 0 (ss_log s @ [?e]) of
              Inl x \<Rightarrow> Inl (AppendInvalid x)
            | Inr _ \<Rightarrow> if d then Inr ?e else Inl AppendVetoed)"
    using v r by (simp add: append_event_def Let_def split: sum.splits)
  show "ss_log (fst (append_event same a d s i)) =
      ss_log s @ (case snd (append_event same a d s i) of Inr e \<Rightarrow> [e] | Inl _ \<Rightarrow> [])"
    using v by (simp add: append_event_def Let_def split: sum.splits)
qed

lemma readSurface_inv:
  assumes "\<forall>a b. same a b \<longrightarrow> a = b" and "manager_inv base evs m"
  shows "manager_inv base evs (fst (readSurface same base evs m))"
  using processDelta_fold(3) [OF assms] by (auto simp: readSurface_def split: prod.splits sum.splits)

lemma newSession_inv:
  assumes "\<forall>a b. same a b \<longrightarrow> a = b" and "newSession same now seed = Inr s"
  shows "session_inv s"
    and "ss_firstLive s = (case seed of None \<Rightarrow> 0 | Some evs \<Rightarrow> length evs)"
    and "\<exists>marker. ss_log s = (case seed of None \<Rightarrow> [] | Some evs \<Rightarrow> evs) @ marker
      \<and> (seed = None \<longrightarrow> marker = []) \<and> (marker \<noteq> [] \<longrightarrow> map ev_data marker = [EndSeed])
      \<and> (seed \<noteq> None \<longrightarrow> is_end_seed (ev_data (last (ss_log s))))"
proof -
  let ?evs = "case seed of None \<Rightarrow> [] | Some evs \<Rightarrow> evs"
  from assms(2) obtain s0 where s0: "(case seed of None \<Rightarrow> Inr emptySession | Some evs \<Rightarrow> seed_loop same emptySession evs) = Inr s0"
    unfolding newSession_def rbind_eq_Inr by blast
  have inv0: "session_inv s0" and log0: "ss_log s0 = ?evs"
    using s0 emptySession_inv seed_loop_ok [OF assms(1) emptySession_inv]
    by (auto simp: emptySession_def split: option.splits)
  let ?s1 = "s0\<lparr>ss_firstLive := length (ss_log s0)\<rparr>"
  have inv1: "session_inv ?s1" using inv0 by (simp add: session_inv_def derived_inv_def)
  have first: "ss_firstLive ?s1 = (case seed of None \<Rightarrow> 0 | Some evs \<Rightarrow> length evs)"
    using log0 by (simp split: option.splits)
  note app = append_event_inv [OF assms(1) inv1, of False True "end_seed_input now"]
  let ?mark = "seed \<noteq> None \<and> (ss_log ?s1 = [] \<or> \<not> is_end_seed (ev_data (last (ss_log ?s1))))"
  have split: "(if ?mark then (case append_event same False True ?s1 (end_seed_input now) of
        (s'', Inl x) \<Rightarrow> Inl x | (s'', Inr _) \<Rightarrow> Inr s'') else Inr ?s1) = Inr s"
    using assms(2) by (simp only: newSession_def s0 rbind_Inr Let_def)
  have "session_inv s \<and> ss_firstLive s = ss_firstLive ?s1
    \<and> (\<exists>marker. ss_log s = ?evs @ marker \<and> (seed = None \<longrightarrow> marker = [])
      \<and> (marker \<noteq> [] \<longrightarrow> map ev_data marker = [EndSeed])
      \<and> (seed \<noteq> None \<longrightarrow> is_end_seed (ev_data (last (ss_log s)))))"
  proof (cases ?mark)
    case False
    then have "s = ?s1" using split unfolding if_not_P [OF False] by simp
    with False inv1 log0 show ?thesis by (auto intro!: exI [of _ "[]"])
  next
    case True
    obtain s'' r where a: "append_event same False True ?s1 (end_seed_input now) = (s'', r)"
      by (cases "append_event same False True ?s1 (end_seed_input now)")
    with split True obtain e where r: "r = Inr e" "s'' = s" by (cases r) auto
    have e: "e = candidate ?s1 (end_seed_input now)"
      using app(2) a r by (simp split: sum.splits)
    have "ss_log s = ?evs @ [e]" using app(3) a r log0 by simp
    moreover have "ss_firstLive s = ss_firstLive ?s1"
      using a r by (auto simp: append_event_def Let_def split: prod.splits sum.splits if_splits)
    moreover have "session_inv s" using app(1) a r by simp
    moreover have "ev_data e = EndSeed" by (simp add: e candidate_def end_seed_input_def)
    ultimately show ?thesis using True by (intro conjI exI [of _ "[e]"]) simp_all
  qed
  then show "session_inv s" and "ss_firstLive s = (case seed of None \<Rightarrow> 0 | Some evs \<Rightarrow> length evs)"
    and "\<exists>marker. ss_log s = ?evs @ marker \<and> (seed = None \<longrightarrow> marker = [])
      \<and> (marker \<noteq> [] \<longrightarrow> map ev_data marker = [EndSeed])
      \<and> (seed \<noteq> None \<longrightarrow> is_end_seed (ev_data (last (ss_log s))))"
    using first by auto
qed

lemma requestHeader_inv:
  assumes "session_inv s"
  shows "session_inv (fst (requestHeader s))"
    and "snd (requestHeader s) = foldRequestHeader (ss_log s) None"
    and "ss_log (fst (requestHeader s)) = ss_log s"
proof -
  have r: "foldRequestHeader (drop (ss_headerSeq s) (ss_log s)) (ss_headerFold s) = foldRequestHeader (ss_log s) None"
    using assms unfolding session_inv_def by (intro header_view.view_resume) auto
  show "session_inv (fst (requestHeader s))" and "ss_log (fst (requestHeader s)) = ss_log s"
    using assms r by (auto simp: requestHeader_def session_inv_def derived_inv_def Let_def)
  show "snd (requestHeader s) = foldRequestHeader (ss_log s) None"
    using assms r by (auto simp: requestHeader_def session_inv_def Let_def)
qed

lemma requestContext_inv:
  assumes "session_inv s"
  shows "session_inv (fst (requestContext s))"
    and "snd (requestContext s) = foldRequestContext (ss_log s) None"
    and "ss_log (fst (requestContext s)) = ss_log s"
proof -
  have r: "foldRequestContext (drop (ss_contextSeq s) (ss_log s)) (ss_contextFold s) = foldRequestContext (ss_log s) None"
    using assms unfolding session_inv_def by (intro context_view.view_resume) auto
  show "session_inv (fst (requestContext s))" and "ss_log (fst (requestContext s)) = ss_log s"
    using assms r by (auto simp: requestContext_def session_inv_def derived_inv_def Let_def)
  show "snd (requestContext s) = foldRequestContext (ss_log s) None"
    using assms r by (auto simp: requestContext_def session_inv_def Let_def)
qed

lemma deriveMessages_inv:
  assumes same: "\<forall>a b. same a b \<longrightarrow> a = b" and inv: "session_inv s"
    and fold: "fold_window 0 (ss_log s) = Inr (st, reps, length (ss_log s))"
  shows "session_inv (fst (deriveMessages same s))"
    and "snd (deriveMessages same s) = Inr (project (ss_log s) (nodes st))"
    and "ss_log (fst (deriveMessages same s)) = ss_log s"
proof -
  let ?log = "ss_log s"
  have mi: "manager_inv 0 ?log (ss_mgr s)" using inv by (simp add: session_inv_def)
  obtain m where r: "readSurface same 0 ?log (ss_mgr s) = (m, Inr st)"
    using readSurface_fold [OF same mi] fold by (cases "readSurface same 0 ?log (ss_mgr s)") simp
  have m: "manager_inv 0 ?log m" using readSurface_inv [OF same mi] r by simp
  obtain m' where r': "readSurface same 0 ?log m = (m', Inr st)"
    using readSurface_fold [OF same m] fold by (cases "readSurface same 0 ?log m") simp
  have m': "manager_inv 0 ?log m'" using readSurface_inv [OF same m] r' by simp
  from inv obtain k st0 reps0 where k: "k \<le> length ?log" "fold_window 0 (take k ?log) = Inr (st0, reps0, k)"
    "ss_derivedGen s = replaceGeneration st0" "ss_derivedNodes s = length (nodes st0)"
    "ss_derived s = project ?log (nodes st0)"
    by (auto simp: session_inv_def derived_inv_def)
  have ext: "\<exists>ext. nodes st = nodes st0 @ ext" if "replaceGeneration st = replaceGeneration st0"
  proof -
    have "run_steps (surface_step ?log 0) (st0, reps0, k) (drop k ?log) = Inr (st, reps, length ?log)"
      using window_take [of k ?log 0 st0 reps0] k(1,2) fold by simp
    from run_nodes_prefix [OF this] that show ?thesis by simp
  qed
  define s2 where "s2 = fst (deriveMessages same s)"
  have d: "deriveMessages same s = (s2, Inr (ss_derived s2))"
    and s2: "ss_derived s2 = project ?log (nodes st)" "ss_derivedNodes s2 = length (nodes st)"
      "ss_derivedGen s2 = replaceGeneration st" "ss_log s2 = ?log" "ss_mgr s2 = m'"
      "ss_headerSeq s2 = ss_headerSeq s" "ss_headerFold s2 = ss_headerFold s"
      "ss_contextSeq s2 = ss_contextSeq s" "ss_contextFold s2 = ss_contextFold s"
  proof -
    show "deriveMessages same s = (s2, Inr (ss_derived s2))"
      unfolding s2_def by (simp add: deriveMessages_def r r' Let_def)
    show "ss_derived s2 = project ?log (nodes st)"
    proof (cases "replaceGeneration st = ss_derivedGen s")
      case True
      then obtain e where "nodes st = nodes st0 @ e" using ext k(3) by auto
      with True k show ?thesis
        unfolding s2_def by (simp add: deriveMessages_def r r' Let_def project_append)
    next
      case False
      then show ?thesis unfolding s2_def by (simp add: deriveMessages_def r r' Let_def)
    qed
  qed (unfold s2_def, simp_all add: deriveMessages_def r r' Let_def)
  have "derived_inv s2"
    unfolding derived_inv_def using s2 fold
    by (intro exI [of _ "length ?log"] exI [of _ st] exI [of _ reps]) simp
  then show "session_inv (fst (deriveMessages same s))"
    using inv s2 m' d by (auto simp: session_inv_def)
  show "snd (deriveMessages same s) = Inr (project ?log (nodes st))" using d s2(1) by simp
  show "ss_log (fst (deriveMessages same s)) = ?log" using d s2(4) by simp
qed

lemma session_reach_inv:
  assumes same: "\<forall>a b. same a b \<longrightarrow> a = b" and "session_reach same s"
  shows "session_inv s"
  using assms(2)
proof induction
  case (sr_derive s)
  then obtain st reps where "fold_window 0 (ss_log s) = Inr (st, reps, length (ss_log s))"
    by (auto simp: session_inv_def)
  then show ?case using deriveMessages_inv(1) [OF same sr_derive.IH] by blast
next
  case (sr_nodes s)
  then show ?case using readSurface_inv [OF same] inv_mgr by (simp add: session_inv_def derived_inv_def)
qed (use newSession_inv(1) [OF same] append_event_inv(1) [OF same] requestHeader_inv(1) requestContext_inv(1) in blast)+

section \<open>Properties\<close>

text \<open>
  C7. Every reachable session is a valid log with exact caches: replaying its log succeeds,
  its events are numbered by their position, and the header, the context and the message
  history it serves are those of the whole log, however reads and appends were interleaved
  and whatever was rejected or vetoed in between.
\<close>

theorem session_caches_exact:
  assumes "\<forall>a b. same a b \<longrightarrow> a = b" and "session_reach same s"
  shows "\<exists>st reps. foldSurface (ss_log s) = Inr (st, reps)
    \<and> map ev_seq (ss_log s) = [0..<length (ss_log s)]
    \<and> snd (deriveMessages same s) = Inr (project (ss_log s) (nodes st))
    \<and> snd (requestHeader s) = foldRequestHeader (ss_log s) None
    \<and> snd (requestContext s) = foldRequestContext (ss_log s) None"
proof -
  have inv: "session_inv s" by (rule session_reach_inv [OF assms])
  then obtain st reps where f: "fold_window 0 (ss_log s) = Inr (st, reps, length (ss_log s))"
    by (auto simp: session_inv_def)
  then have "map ev_seq (ss_log s) = [0..<length (ss_log s)]"
    using fold_window_hist [OF f] by (simp add: surface_hist_def)
  then show ?thesis
    using f foldSurface_window deriveMessages_inv(2) [OF assms(1) inv f] requestHeader_inv(2) [OF inv]
      requestContext_inv(2) [OF inv] by blast
qed

definition sample_session :: "unit session" where
  "sample_session = fst (append_event (=) False True emptySession
     \<lparr>ai_data = TurnStart 1, ai_surfaceOp = None, ai_sources = None, ai_ignorable = False, ai_time = 5\<rparr>)"

lemma sample_session_reach: "session_reach (=) sample_session"
proof -
  have "newSession (=) 0 None = Inr (emptySession :: unit session)"
    by (simp add: newSession_def emptySession_def Let_def)
  then show ?thesis unfolding sample_session_def by (intro sr_append sr_new)
qed

theorem session_caches_exact_witness:
  "\<exists>st reps. foldSurface (ss_log sample_session) = Inr (st, reps)
    \<and> map ev_seq (ss_log sample_session) = [0..<length (ss_log sample_session)]"
  using session_caches_exact [OF _ sample_session_reach] by blast

text \<open>
  An append is atomic: it commits exactly one event, numbered by the log length, when no
  append is being published, the surface accepts it and no listener vetoes; otherwise it
  throws the matching error and the log is unchanged.
\<close>

theorem append_atomic:
  assumes "\<forall>a b. same a b \<longrightarrow> a = b" and "session_reach same s"
  shows "ss_log (fst (append_event same a d s i)) =
      ss_log s @ (case snd (append_event same a d s i) of Inr e \<Rightarrow> [e] | Inl _ \<Rightarrow> [])
    \<and> snd (append_event same a d s i) =
      (if a then Inl AppendReentered
       else case foldSurface (ss_log s @ [candidate s i]) of
              Inl x \<Rightarrow> Inl (AppendInvalid x)
            | Inr _ \<Rightarrow> if d then Inr (candidate s i) else Inl AppendVetoed)"
  using append_event_inv(2,3) [OF assms(1) session_reach_inv [OF assms], of a d i]
  by (auto simp: foldSurface_def split: sum.splits prod.splits)

theorem append_atomic_witness:
  "ss_log (fst (append_event (=) True True sample_session (end_seed_input 3))) = ss_log sample_session"
  using append_atomic [OF _ sample_session_reach, of True True "end_seed_input 3"] by simp

text \<open>
  Construction keeps the seed: a constructed session's log is its seed, plus the
  end-of-seed marker unless the seed already ends in one; \<open>firstLiveSeq\<close> is the length of
  the seed. Reopening a log that ends in the marker does not grow it.
\<close>

theorem newSession_log:
  assumes "\<forall>a b. same a b \<longrightarrow> a = b" and "newSession same now (Some evs) = Inr s"
  shows "ss_firstLive s = length evs
    \<and> (\<exists>marker. ss_log s = evs @ marker \<and> map ev_data marker \<in> {[], [EndSeed]})
    \<and> is_end_seed (ev_data (last (ss_log s)))"
  using newSession_inv(2,3) [OF assms] by fastforce

theorem newSession_log_witness:
  "\<exists>s. newSession (=) 7 (Some [plain_event 0 (TurnStart 1) :: unit event]) = Inr s
    \<and> ss_firstLive s = length [plain_event 0 (TurnStart 1) :: unit event]"
proof -
  have "is_ok (newSession (=) 7 (Some [plain_event 0 (TurnStart 1) :: unit event]))" by code_simp
  then obtain s where "newSession (=) 7 (Some [plain_event 0 (TurnStart 1) :: unit event]) = Inr s"
    by (auto simp: is_ok_iff)
  with newSession_log [OF _ this] show ?thesis by blast
qed

end
