(* ===== verification/Repair.thy ===== *)
theory Repair imports SessionTrace Surface begin

text \<open>
  packages/core/session/src/repair.ts: the synthetic events that close an interrupted turn
  when a durable log is loaded after a crash. The theorems relate it to the trace invariant
  and to the surface: the repaired log is accepted by both and has nothing left open.
\<close>

record repair_state =
  rs_turn :: "int option"
  rs_step :: "int option"
  rs_pending :: "(string \<times> int \<times> nat option) list"

definition repair_start :: repair_state where
  "repair_start = \<lparr>rs_turn = None, rs_step = None, rs_pending = []\<rparr>"

fun register_calls ::
  "int \<Rightarrow> content_block list \<Rightarrow> (string \<times> int \<times> nat option) list \<Rightarrow> (string \<times> int \<times> nat option) list" where
  "register_calls step [] m = m"
| "register_calls step (b # bs) m =
     register_calls step bs (case tool_call_id b of Some i \<Rightarrow> map_set i (step, None) m | None \<Rightarrow> m)"

definition repair_scan :: "repair_state \<Rightarrow> 'p event \<Rightarrow> repair_state" where
  "repair_scan rs e =
     (case ev_data e of
        TurnStart turn \<Rightarrow> \<lparr>rs_turn = Some turn, rs_step = None, rs_pending = []\<rparr>
      | TurnEnd _ _ \<Rightarrow> \<lparr>rs_turn = None, rs_step = None, rs_pending = []\<rparr>
      | StepStart _ step \<Rightarrow> rs\<lparr>rs_step := Some step\<rparr>
      | StepEnd _ _ \<Rightarrow> rs\<lparr>rs_pending := [], rs_step := None\<rparr>
      | AssistantMessage _ step m _ _ \<Rightarrow>
          rs\<lparr>rs_pending := register_calls step (msg_content m) (rs_pending rs)\<rparr>
      | ToolCall _ _ callId _ _ \<Rightarrow>
          (case map_of (rs_pending rs) callId of
             Some (step, _) \<Rightarrow> rs\<lparr>rs_pending := map_set callId (step, Some (ev_seq e)) (rs_pending rs)\<rparr>
           | None \<Rightarrow> rs)
      | ToolResult r \<Rightarrow>
          (case source_call_id (msg_source (tr_message r)) of
             Some c \<Rightarrow> rs\<lparr>rs_pending := map_delete c (rs_pending rs)\<rparr>
           | None \<Rightarrow> rs)
      | _ \<Rightarrow> rs)"

definition text_unknown :: string where
  "text_unknown = ''The tool call was interrupted after it was recorded, but no result was durably recorded. Its outcome is unknown. Decide whether to retry from the tool semantics: retry only if the operation is read-only or idempotent; if it may have side effects, first verify external state or ask the user. Do not retry blindly.''"

definition text_not_started :: string where
  "text_not_started = ''The tool call was interrupted before the Harness recorded it as started. Retry it if it is still needed.''"

definition synthetic_data :: "int \<Rightarrow> int \<Rightarrow> string \<Rightarrow> nat option \<Rightarrow> nat \<Rightarrow> tool_result" where
  "synthetic_data turn step callId callSeq seq =
     \<lparr>tr_turn = turn, tr_step = step,
      tr_message =
        \<lparr>msg_id = ''interrupted-tool-result-'' @ callId @ ''-'' @ show_nat seq, msg_role = RoleUser,
         msg_content = [ToolResultBlock callId
            [TextBlock (if callSeq \<noteq> None then text_unknown else text_not_started)] (Some True)],
         msg_source = ToolSource callId\<rparr>,
      tr_error = Some (if callSeq \<noteq> None then (''ToolOutcomeUnknownError'', TOOL_OUTCOME_UNKNOWN)
                       else (''ToolNotStartedError'', TOOL_NOT_STARTED)),
      tr_meta = None\<rparr>"

definition synthetic_result :: "int \<Rightarrow> int \<Rightarrow> string \<Rightarrow> nat option \<Rightarrow> nat \<Rightarrow> int \<Rightarrow> 'p event" where
  "synthetic_result turn step callId callSeq seq time =
     \<lparr>ev_data = ToolResult (synthetic_data turn step callId callSeq seq), ev_seq = seq, ev_time = time,
      ev_ignorable = False, ev_surfaceOp = Some (JStr ''append''),
      ev_sources = map_option (\<lambda>s. JArr [JInt (int s)]) callSeq\<rparr>"

definition log_event :: "'p event_data \<Rightarrow> nat \<Rightarrow> int \<Rightarrow> 'p event" where
  "log_event d seq time = \<lparr>ev_data = d, ev_seq = seq, ev_time = time, ev_ignorable = False,
     ev_surfaceOp = None, ev_sources = None\<rparr>"

fun close_calls :: "int \<Rightarrow> int \<Rightarrow> nat \<Rightarrow> (string \<times> int \<times> nat option) list \<Rightarrow> 'p event list" where
  "close_calls turn time seq [] = []"
| "close_calls turn time seq ((callId, step, callSeq) # pend) =
     synthetic_result turn step callId callSeq seq time # close_calls turn time (Suc seq) pend"

definition closing_events :: "repair_state \<Rightarrow> nat \<Rightarrow> int \<Rightarrow> 'p event list" where
  "closing_events rs seq time =
     (case rs_turn rs of
        None \<Rightarrow> []
      | Some turn \<Rightarrow>
          (let calls = close_calls turn time seq (rs_pending rs);
               seq' = seq + length (rs_pending rs)
           in case rs_step rs of
                None \<Rightarrow> calls @ [log_event (TurnEnd turn Interrupted) seq' time]
              | Some step \<Rightarrow> calls @ [log_event (StepEnd turn step) seq' time,
                                     log_event (TurnEnd turn Interrupted) (Suc seq') time]))"

definition interruptedTurnClosers :: "'p event list \<Rightarrow> 'p event list" where
  "interruptedTurnClosers evs =
     (let rs = foldl repair_scan repair_start evs
      in if evs = [] then [] else closing_events rs (Suc (ev_seq (last evs))) (ev_time (last evs)))"

section \<open>The scan follows the trace\<close>

definition scan_agrees :: "'p event list \<Rightarrow> session_trace \<Rightarrow> repair_state \<Rightarrow> bool" where
  "scan_agrees pre tr rs \<longleftrightarrow>
     rs_turn rs = st_openTurn tr \<and> rs_step rs = st_openStep tr
     \<and> distinct (map_keys (rs_pending rs))
     \<and> (\<forall>c step callSeq. map_of (rs_pending rs) c = Some (step, callSeq) \<longrightarrow>
          st_openStep tr = Some step
          \<and> (\<forall>q. callSeq = Some q \<longrightarrow> c \<in> st_pending tr \<and> q \<in> ev_seq ` set pre))"

lemma register_calls_keys: "distinct (map_keys m) \<Longrightarrow> distinct (map_keys (register_calls step bs m))"
  by (induction step bs m rule: register_calls.induct) (auto split: option.splits)

lemma register_calls_set:
  "(c, v) \<in> set (register_calls step bs m) \<Longrightarrow> v = (step, None) \<or> (c, v) \<in> set m"
  by (induction step bs m rule: register_calls.induct) (auto split: option.splits dest: set_map_set)

lemma scan_step:
  assumes sim: "scan_agrees pre tr rs" and wf: "trace_wf tr" and step: "trace_step tr e = Inr tr'"
  shows "scan_agrees (pre @ [e]) tr' (repair_scan rs e)"
proof -
  have none: "rs_pending rs = []" if "st_openStep tr = None"
  proof (rule ccontr)
    assume "rs_pending rs \<noteq> []"
    then obtain p rest where "rs_pending rs = p # rest" by (cases "rs_pending rs") auto
    then obtain c v where "map_of (rs_pending rs) c = Some v" by (cases p) fastforce
    with sim that show False by (cases v) (auto simp: scan_agrees_def)
  qed
  show ?thesis
  proof (cases "ev_data e")
    case (AssistantMessage turn s m u i)
    then show ?thesis
      using sim step
      by (auto simp: scan_agrees_def repair_scan_def trace_step_defs result_simps register_calls_keys
          dest!: register_calls_set)
  next
    case (StepStart turn s)
    then have "rs_pending rs = []"
      using step by (intro none) (simp add: trace_step_defs result_simps split: option.splits if_splits)
    with StepStart sim step show ?thesis
      by (auto simp: scan_agrees_def repair_scan_def trace_step_defs result_simps split: option.splits if_splits)
  next
    case (ToolCall turn s c n a)
    then show ?thesis
      using sim step
      by (auto simp: scan_agrees_def repair_scan_def trace_step_defs result_simps
          split: option.splits if_splits dest!: set_map_set) metis
  next
    case (ToolResult r)
    then show ?thesis
      using sim step
      by (auto simp: scan_agrees_def repair_scan_def trace_step_defs result_simps Let_def set_map_delete
          split: option.splits if_splits)
  qed (use sim wf step in \<open>auto simp: scan_agrees_def repair_scan_def trace_step_defs trace_wf_def result_simps
      split: option.splits if_splits\<close>)
qed

lemma scan_run:
  "seedSession evs = Inr tr \<Longrightarrow> scan_agrees evs tr (foldl repair_scan repair_start evs)"
proof (induction evs arbitrary: tr rule: rev_induct)
  case Nil
  then show ?case
    by (auto simp: seedSession_def scan_agrees_def freshTrace_def repair_start_def)
next
  case (snoc e evs)
  then obtain t where t: "seedSession evs = Inr t" "trace_step t e = Inr tr"
    by (auto simp: seedSession_snoc result_simps)
  from scan_step [OF snoc.IH [OF t(1)] seedSession_wf [OF t(1)] t(2)] show ?case by simp
qed

section \<open>The calls a crash left without a result\<close>

text \<open>
  Read off the log: an assistant message asked for the call, and since then neither a result of it
  was logged nor its step or turn ended.
\<close>

fun requested_calls :: "'p event_data \<Rightarrow> string list" where
  "requested_calls (AssistantMessage _ _ m _ _) = List.map_filter tool_call_id (msg_content m)"
| "requested_calls _ = []"

fun ends_calls :: "'p event_data \<Rightarrow> bool" where
  "ends_calls (TurnStart _) = True"
| "ends_calls (TurnEnd _ _) = True"
| "ends_calls (StepEnd _ _) = True"
| "ends_calls _ = False"

fun result_call :: "'p event_data \<Rightarrow> string option" where
  "result_call (ToolResult r) = source_call_id (msg_source (tr_message r))"
| "result_call _ = None"

definition unanswered :: "'p event list \<Rightarrow> string \<Rightarrow> bool" where
  "unanswered evs c \<longleftrightarrow>
     (\<exists>i < length evs. c \<in> set (requested_calls (ev_data (evs ! i)))
        \<and> (\<forall>j < length evs. i < j \<longrightarrow> \<not> ends_calls (ev_data (evs ! j)) \<and> result_call (ev_data (evs ! j)) \<noteq> Some c))"

lemma last_hit:
  "(\<exists>i < Suc n. A i \<and> (\<forall>j < Suc n. i < j \<longrightarrow> B j)) \<longleftrightarrow>
     A n \<or> (\<exists>i < n. A i \<and> (\<forall>j < n. i < j \<longrightarrow> B j)) \<and> B n"
  by (auto simp: less_Suc_eq)

lemma unanswered_Nil [simp]: "\<not> unanswered [] c"
  by (simp add: unanswered_def)

lemma unanswered_snoc:
  "unanswered (evs @ [e]) c \<longleftrightarrow> c \<in> set (requested_calls (ev_data e))
     \<or> unanswered evs c \<and> \<not> ends_calls (ev_data e) \<and> result_call (ev_data e) \<noteq> Some c"
proof -
  let ?A = "\<lambda>es i. c \<in> set (requested_calls (ev_data (es ! i)))"
  let ?B = "\<lambda>es j. \<not> ends_calls (ev_data (es ! j)) \<and> result_call (ev_data (es ! j)) \<noteq> Some c"
  have old: "?A (evs @ [e]) i = ?A evs i" "?B (evs @ [e]) i = ?B evs i" if "i < length evs" for i
    using that by (simp_all add: nth_append)
  have "unanswered (evs @ [e]) c \<longleftrightarrow> ?A (evs @ [e]) (length evs)
      \<or> (\<exists>i < length evs. ?A (evs @ [e]) i \<and> (\<forall>j < length evs. i < j \<longrightarrow> ?B (evs @ [e]) j)) \<and> ?B (evs @ [e]) (length evs)"
    unfolding unanswered_def length_append_singleton by (rule last_hit)
  also have "\<dots> \<longleftrightarrow> ?A (evs @ [e]) (length evs) \<or> unanswered evs c \<and> ?B (evs @ [e]) (length evs)"
    unfolding unanswered_def using old by (metis (no_types, lifting))
  finally show ?thesis by simp
qed

lemma register_calls_key_set:
  "set (map_keys (register_calls step bs m)) = set (map_keys m) \<union> set (List.map_filter tool_call_id bs)"
  by (induction step bs m rule: register_calls.induct) (auto simp: map_filter_simps simp del: set_map split: option.splits)

lemma keys_delete: "set (map_keys (map_delete c m)) = set (map_keys m) - {c}"
  by (auto simp: map_delete_def)

lemma keys_known: "map_of m c = Some v \<Longrightarrow> insert c (set (map_keys m)) = set (map_keys m)"
  using map_of_None_keys [of m c] by auto

lemma scan_keys:
  "set (map_keys (rs_pending (repair_scan rs e))) =
     set (requested_calls (ev_data e)) \<union> {c \<in> set (map_keys (rs_pending rs)).
       \<not> ends_calls (ev_data e) \<and> result_call (ev_data e) \<noteq> Some c}"
proof (cases "ev_data e")
  case (ToolCall t s c n a)
  then show ?thesis
    by (cases "map_of (rs_pending rs) c") (auto simp: repair_scan_def keys_known simp del: set_map split: prod.split)
next
  case (AssistantMessage t s m u i)
  then show ?thesis by (auto simp: repair_scan_def register_calls_key_set simp del: set_map)
next
  case (ToolResult r)
  then show ?thesis by (auto simp: repair_scan_def keys_delete simp del: set_map split: option.split)
qed (auto simp: repair_scan_def simp del: set_map)

lemma pending_unanswered:
  "set (map_keys (rs_pending (foldl repair_scan repair_start evs))) = {c. unanswered evs c}"
proof (induction evs rule: rev_induct)
  case (snoc e evs)
  then show ?case unfolding foldl_append foldl.simps scan_keys unanswered_snoc by auto
qed (simp add: repair_start_def)

section \<open>The closers are accepted\<close>

lemma close_calls_length: "length (close_calls turn time seq pend) = length pend"
  by (induction turn time seq pend rule: close_calls.induct) simp_all

lemma close_calls_trace:
  assumes "st_openTurn tr = Some turn" and "distinct (map_keys pend)" and "st_lastSeq tr < int seq"
    and "\<forall>(c, s, cs) \<in> set pend. st_openStep tr = Some s \<and> (cs \<noteq> None \<longrightarrow> c \<in> st_pending tr)"
  shows "\<exists>tr'. run_steps trace_step tr (close_calls turn time seq pend :: 'p event list) = Inr tr'
    \<and> st_openTurn tr' = st_openTurn tr \<and> st_openStep tr' = st_openStep tr
    \<and> st_lastSeq tr' < int (seq + length pend)"
  using assms
proof (induction turn time seq pend arbitrary: tr rule: close_calls.induct)
  case (2 turn time seq c s cs pend)
  let ?e = "synthetic_result turn s c cs seq time :: 'p event"
  let ?tr = "tr\<lparr>st_lastSeq := int seq, st_pending := st_pending tr - {c}\<rparr>"
  have "trace_step tr ?e = Inr ?tr"
    using "2.prems"
    by (cases tr) (auto simp: synthetic_result_def synthetic_data_def trace_step_defs has_pending_def
        synthetic_not_started_def Let_def split: option.splits)
  moreover have "\<exists>tr'. run_steps trace_step ?tr (close_calls turn time (Suc seq) pend :: 'p event list) = Inr tr'
      \<and> st_openTurn tr' = st_openTurn ?tr \<and> st_openStep tr' = st_openStep ?tr
      \<and> st_lastSeq tr' < int (Suc seq + length pend)"
  proof (rule "2.IH")
    show "\<forall>(c', s', cs') \<in> set pend. st_openStep ?tr = Some s' \<and> (cs' \<noteq> None \<longrightarrow> c' \<in> st_pending ?tr)"
      using "2.prems"(2,4) by (auto simp: image_iff)
  qed (use "2.prems" in simp_all)
  ultimately show ?case by simp
qed simp

lemma closers_trace:
  assumes "scan_agrees evs tr rs" and "trace_wf tr" and "st_lastSeq tr < int seq"
  shows "\<exists>tr'. run_steps trace_step tr (closing_events rs seq time :: 'p event list) = Inr tr'
    \<and> st_openTurn tr' = None \<and> st_openStep tr' = None"
proof (cases "rs_turn rs")
  case None
  then show ?thesis using assms by (auto simp: closing_events_def scan_agrees_def trace_wf_def)
next
  case (Some turn)
  have turn: "st_openTurn tr = Some turn" using assms(1) Some by (simp add: scan_agrees_def)
  have "\<forall>(c, s, cs) \<in> set (rs_pending rs). st_openStep tr = Some s \<and> (cs \<noteq> None \<longrightarrow> c \<in> st_pending tr)"
    using assms(1) by (fastforce simp: scan_agrees_def)
  from close_calls_trace [OF turn _ assms(3) this, where 'p = 'p and time = time] assms(1)
  obtain t where t: "run_steps trace_step tr (close_calls turn time seq (rs_pending rs) :: 'p event list) = Inr t"
    "st_openTurn t = Some turn" "st_openStep t = st_openStep tr"
    "st_lastSeq t < int (seq + length (rs_pending rs))"
    using turn by (auto simp: scan_agrees_def)
  show ?thesis
    using Some t assms(1)
    by (auto simp: closing_events_def run_steps_append log_event_def trace_step_defs scan_agrees_def Let_def
        split: option.splits)
qed

lemma close_calls_surface:
  assumes "fold_window 0 pre = Inr (st, reps, seq)"
    and "\<forall>(c, s, cs) \<in> set pend. \<forall>q. cs = Some q \<longrightarrow> q < seq \<and> safe_int (int q)"
  shows "fold_window 0 (pre @ close_calls turn time seq pend :: 'p event list) =
    Inr (st\<lparr>nodes := nodes st @ [seq..<seq + length pend]\<rparr>, reps, seq + length pend)"
  using assms
proof (induction turn time seq pend arbitrary: pre st rule: close_calls.induct)
  case (2 turn time seq c s cs pend)
  let ?e = "synthetic_result turn s c cs seq time"
  have op: "surfaceOpOf ?e = Inr (Some Append)"
    by (simp add: surfaceOpOf_def synthetic_result_def)
  have "assertProvenance ?e [] = Inr ()"
    using "2.prems"(2)
    by (auto simp: assertProvenance_def cited_sources_def synthetic_result_def
        split: option.splits)
  from append_step [OF op this, of seq pre 0 st reps]
  have "surface_step pre 0 (st, reps, seq) ?e = Inr (st\<lparr>nodes := nodes st @ [seq]\<rparr>, reps, Suc seq)"
    by (simp add: synthetic_result_def)
  then have "fold_window 0 (pre @ [?e]) = Inr (st\<lparr>nodes := nodes st @ [seq]\<rparr>, reps, Suc seq)"
    using "2.prems"(1) by (simp add: fold_window_snoc)
  moreover have "\<forall>(c, s, cs) \<in> set pend. \<forall>q. cs = Some q \<longrightarrow> q < Suc seq \<and> safe_int (int q)"
    using "2.prems"(2) by fastforce
  ultimately have "fold_window 0 ((pre @ [?e]) @ close_calls turn time (Suc seq) pend) =
      Inr (st\<lparr>nodes := (nodes st @ [seq]) @ [Suc seq..<Suc seq + length pend]\<rparr>, reps, Suc seq + length pend)"
    using "2.IH" [of "pre @ [?e]"] by simp
  moreover have "[seq] @ [Suc seq..<Suc seq + length pend] = [seq..<seq + length ((c, s, cs) # pend)]"
    by (simp add: upt_conv_Cons del: upt_Suc)
  ultimately show ?case by simp
qed simp

lemma log_event_surface:
  assumes "fold_window 0 pre = Inr (st, reps, seq)" and "\<not> isSurfaceEligibleType d"
  shows "fold_window 0 (pre @ [log_event d seq time]) = Inr (st, reps, Suc seq)"
  using assms
  by (simp add: fold_window_snoc surface_step_def applySurfaceEvent_def planSurfaceEvent_def
      surfaceOpOf_def log_event_def)

lemma closing_events_surface:
  assumes "fold_window 0 evs = Inr (st, reps, seq)"
    and "\<forall>(c, s, cs) \<in> set (rs_pending rs). \<forall>q. cs = Some q \<longrightarrow> q < seq \<and> safe_int (int q)"
  shows "\<exists>i. fold_window 0 (evs @ closing_events rs seq time) =
    Inr (st\<lparr>nodes := nodes st @ (if rs_turn rs = None then [] else [seq..<seq + length (rs_pending rs)])\<rparr>, reps, i)"
proof (cases "rs_turn rs")
  case None
  then show ?thesis using assms(1) by (auto simp: closing_events_def)
next
  case (Some turn)
  let ?calls = "close_calls turn time seq (rs_pending rs)"
  note calls = close_calls_surface [OF assms, of turn time]
  show ?thesis
  proof (cases "rs_step rs")
    case None
    then show ?thesis
      using Some log_event_surface [OF calls, of "TurnEnd turn Interrupted" time]
      by (auto simp: closing_events_def Let_def)
  next
    case (Some step)
    from log_event_surface [OF calls, of "StepEnd turn step" time]
    have "fold_window 0 ((evs @ ?calls) @ [log_event (StepEnd turn step) (seq + length (rs_pending rs)) time]) =
        Inr (st\<lparr>nodes := nodes st @ [seq..<seq + length (rs_pending rs)]\<rparr>, reps, Suc (seq + length (rs_pending rs)))"
      by simp
    from log_event_surface [OF this, of "TurnEnd turn Interrupted" time] Some \<open>rs_turn rs = Some turn\<close>
    show ?thesis by (auto simp: closing_events_def Let_def)
  qed
qed

lemma closing_rescan:
  "rs_turn (foldl repair_scan rs (closing_events rs' seq time)) =
     (if rs_turn rs' = None then rs_turn rs else None)"
  by (auto simp: closing_events_def Let_def repair_scan_def log_event_def split: option.splits)

lemma repair_traces:
  assumes "seedSession evs = Inr tr"
  shows "(\<exists>tr'. seedSession (evs @ interruptedTurnClosers evs) = Inr tr'
      \<and> st_openTurn tr' = None \<and> st_openStep tr' = None)
    \<and> interruptedTurnClosers (evs @ interruptedTurnClosers evs) = []"
proof (cases "evs = []")
  case True
  then show ?thesis by (simp add: interruptedTurnClosers_def seedSession_def freshTrace_def)
next
  case False
  let ?rs = "foldl repair_scan repair_start evs"
  have closers: "interruptedTurnClosers evs =
      closing_events ?rs (Suc (ev_seq (last evs))) (ev_time (last evs))"
    using False by (simp add: interruptedTurnClosers_def)
  have "st_lastSeq tr = int (ev_seq (last evs))"
    using seedSession_lastSeq [OF assms] False by simp
  then obtain tr' where "run_steps trace_step tr (interruptedTurnClosers evs) = Inr tr'"
    "st_openTurn tr' = None" "st_openStep tr' = None"
    using closers_trace [OF scan_run [OF assms] seedSession_wf [OF assms], of "Suc (ev_seq (last evs))"
        "ev_time (last evs)"] closers by auto
  moreover have "rs_turn (foldl repair_scan repair_start (evs @ interruptedTurnClosers evs)) = None"
    by (simp add: closers closing_rescan)
  ultimately show ?thesis
    using assms False by (simp add: seedSession_append interruptedTurnClosers_def closing_events_def Let_def)
qed

section \<open>Properties\<close>

text \<open>
  C5. Repair closes what a crash left open: the invariant accepts the repaired log and
  afterwards no turn and no step is open; repairing a repaired log adds nothing.
\<close>

theorem repair_closes:
  assumes "seedSession evs = Inr tr"
  shows "(\<exists>tr'. seedSession (evs @ interruptedTurnClosers evs) = Inr tr'
      \<and> st_openTurn tr' = None \<and> st_openStep tr' = None)
    \<and> interruptedTurnClosers (evs @ interruptedTurnClosers evs) = []"
  by (rule repair_traces [OF assms])

theorem repair_closes_witness:
  "\<exists>tr'. seedSession (sample_turn @ interruptedTurnClosers sample_turn) = Inr tr'
    \<and> st_openTurn tr' = None \<and> st_openStep tr' = None"
  using repair_closes [OF sample_turn_accepted] by blast

text \<open>The synthetic results among the closers, and the calls they answer.\<close>

abbreviation closing_results :: "'p event list \<Rightarrow> 'p event list" where
  "closing_results evs \<equiv> filter (\<lambda>e. is_tool_result (ev_data e)) (interruptedTurnClosers evs)"

lemma close_calls_results:
  "filter (\<lambda>e. is_tool_result (ev_data e)) (close_calls turn time seq pend) = close_calls turn time seq pend"
  "map ev_seq (close_calls turn time seq pend) = [seq..<seq + length pend]"
  "map (\<lambda>e. result_call (ev_data e)) (close_calls turn time seq pend) = map Some (map_keys pend)"
  "\<forall>e \<in> set (close_calls turn time seq pend). \<exists>r. ev_data e = ToolResult r \<and> tr_error r \<noteq> None"
  by (induction turn time seq pend rule: close_calls.induct)
    (auto simp: synthetic_result_def synthetic_data_def upt_conv_Cons simp del: upt_Suc)

lemma closing_events_results:
  "filter (\<lambda>e. is_tool_result (ev_data e)) (closing_events rs seq time) =
     (case rs_turn rs of None \<Rightarrow> [] | Some turn \<Rightarrow> close_calls turn time seq (rs_pending rs))"
  by (auto simp: closing_events_def close_calls_results log_event_def Let_def split: option.splits)

lemma pending_in_turn:
  assumes "seedSession evs = Inr tr" and "rs_turn (foldl repair_scan repair_start evs) = None"
  shows "rs_pending (foldl repair_scan repair_start evs) = []"
proof (rule ccontr)
  let ?rs = "foldl repair_scan repair_start evs"
  assume "rs_pending ?rs \<noteq> []"
  then obtain p rest where "rs_pending ?rs = p # rest" by (cases "rs_pending ?rs") auto
  then obtain c v where "map_of (rs_pending ?rs) c = Some v" by (cases p) fastforce
  with scan_run [OF assms(1)] have "st_openStep tr \<noteq> None" by (cases v) (auto simp: scan_agrees_def)
  with seedSession_wf [OF assms(1)] scan_run [OF assms(1)] assms(2) show False
    by (auto simp: trace_wf_def scan_agrees_def)
qed

lemma closing_results_calls:
  assumes "seedSession evs = Inr tr"
  shows "distinct (map (\<lambda>e. result_call (ev_data e)) (closing_results evs))
    \<and> set (map (\<lambda>e. result_call (ev_data e)) (closing_results evs)) = Some ` {c. unanswered evs c}
    \<and> (\<forall>e \<in> set (closing_results evs). \<exists>r. ev_data e = ToolResult r \<and> tr_error r \<noteq> None)"
proof (cases "evs = []")
  case False
  let ?rs = "foldl repair_scan repair_start evs"
  have d: "distinct (map_keys (rs_pending ?rs))" using scan_run [OF assms] by (simp add: scan_agrees_def)
  have res: "closing_results evs = (case rs_turn ?rs of None \<Rightarrow> []
      | Some turn \<Rightarrow> close_calls turn (ev_time (last evs)) (Suc (ev_seq (last evs))) (rs_pending ?rs))"
    using False by (simp add: interruptedTurnClosers_def closing_events_results)
  show ?thesis
  proof (cases "rs_turn ?rs")
    case None
    with pending_in_turn [OF assms] pending_unanswered [of evs] res show ?thesis by auto
  next
    case (Some turn)
    then show ?thesis
      using res d pending_unanswered [of evs]
        close_calls_results(4) [of turn "ev_time (last evs)" "Suc (ev_seq (last evs))" "rs_pending ?rs"]
      by (simp add: close_calls_results(3) distinct_map del: map_map)
  qed
qed (auto simp: interruptedTurnClosers_def)

lemma repair_folds:
  assumes "seedSession evs = Inr tr" and "foldSurface evs = Inr (st, reps)" and "int (length evs) \<le> max_safe"
  shows "foldSurface (evs @ interruptedTurnClosers evs) =
    Inr (st\<lparr>nodes := nodes st @ map ev_seq (closing_results evs)\<rparr>, reps)"
proof (cases "evs = []")
  case True
  then show ?thesis using assms(2) by (auto simp: interruptedTurnClosers_def)
next
  case False
  let ?rs = "foldl repair_scan repair_start evs"
  have w: "fold_window 0 evs = Inr (st, reps, length evs)" using assms(2) foldSurface_window by blast
  then have seqs: "map ev_seq evs = [0..<length evs]"
    using fold_window_hist [OF w] by (simp add: surface_hist_def)
  then have last: "Suc (ev_seq (last evs)) = length evs"
    using False last_map [of evs ev_seq] by (cases evs rule: rev_cases) auto
  have sound: "q < length evs" if "(c, s, Some q) \<in> set (rs_pending ?rs)" for c s q
  proof -
    have "q \<in> ev_seq ` set evs"
      using scan_run [OF assms(1)] that by (fastforce simp: scan_agrees_def)
    then show ?thesis using seqs by (metis atLeastLessThan_iff set_map set_upt)
  qed
  have "\<forall>(c, s, cs) \<in> set (rs_pending ?rs). \<forall>q. cs = Some q \<longrightarrow> q < length evs \<and> safe_int (int q)"
    using sound assms(3) by (fastforce simp: safe_int_def)
  from closing_events_surface [OF w this, of "ev_time (last evs)"] obtain i where
    "fold_window 0 (evs @ interruptedTurnClosers evs) = Inr (st\<lparr>nodes := nodes st @
        (if rs_turn ?rs = None then [] else [length evs..<length evs + length (rs_pending ?rs)])\<rparr>, reps, i)"
    using False last by (auto simp: interruptedTurnClosers_def)
  moreover have "map ev_seq (closing_results evs) =
      (if rs_turn ?rs = None then [] else [length evs..<length evs + length (rs_pending ?rs)])"
    using False by (auto simp: interruptedTurnClosers_def closing_events_results close_calls_results(2) last)
  ultimately show ?thesis by (simp add: foldSurface_def)
qed


definition interrupted_turn :: "unit event list" where
  "interrupted_turn = [plain_event 0 (TurnStart 1), plain_event 1 (StepStart 1 1),
     (plain_event 2 (AssistantMessage 1 1
        \<lparr>msg_id = ''m'', msg_role = RoleAssistant, msg_content = [ToolCallBlock ''c'' ''ls'' ''{}''],
         msg_source = ModelSource ''p'' ''m'' None\<rparr> None False))\<lparr>ev_surfaceOp := Some (JStr ''append'')\<rparr>]"


end
