(* ===== verification/SessionRecovery.thy ===== *)
theory SessionRecovery imports SessionLog Repair begin

text \<open>
  Sessions with the invariant companion installed, and recovery after a crash. The companion
  (packages/core/session/src/invariant.ts) seeds a trace when a session is created, validates
  every candidate while it is dispatched, before it commits, and applies the staged
  transition when it is published. A crash leaves a prefix of the log; loading repairs it and
  constructs a session from it.
\<close>

record 'p guarded =
  gd_session :: "'p session"
  gd_trace :: session_trace

definition guarded_new ::
  "('p event \<Rightarrow> 'p event \<Rightarrow> bool) \<Rightarrow> int \<Rightarrow> 'p event list option \<Rightarrow> 'p guarded option" where
  "guarded_new same now seed =
     (case newSession same now seed of
        Inl _ \<Rightarrow> None
      | Inr s \<Rightarrow> (case seedSession (ss_log s) of
            Inl _ \<Rightarrow> None
          | Inr tr \<Rightarrow> Some \<lparr>gd_session = s, gd_trace = tr\<rparr>))"

definition guarded_append ::
  "('p event \<Rightarrow> 'p event \<Rightarrow> bool) \<Rightarrow> bool \<Rightarrow> bool \<Rightarrow> 'p guarded \<Rightarrow> 'p append_input
   \<Rightarrow> 'p guarded \<times> (session_error + 'p event)" where
  "guarded_append same appending others_agree g i =
     (let staged = validateEvent (gd_trace g) (candidate (gd_session g) i);
          (s, r) = append_event same appending (is_ok staged \<and> others_agree) (gd_session g) i
      in (\<lparr>gd_session = s,
           gd_trace = (case (r, staged) of
              (Inr _, Inr t) \<Rightarrow> applyTransition (gd_trace g) t
            | _ \<Rightarrow> gd_trace g)\<rparr>, r))"

inductive guarded_reach :: "('p event \<Rightarrow> 'p event \<Rightarrow> bool) \<Rightarrow> 'p guarded \<Rightarrow> bool" for same where
  gr_new: "guarded_new same now seed = Some g \<Longrightarrow> guarded_reach same g"
| gr_append: "guarded_reach same g \<Longrightarrow> guarded_reach same (fst (guarded_append same a d g i))"

lemma guarded_inv:
  assumes same: "\<forall>a b. same a b \<longrightarrow> a = b" and "guarded_reach same g"
  shows "session_reach same (gd_session g) \<and> seedSession (ss_log (gd_session g)) = Inr (gd_trace g)"
  using assms(2)
proof induction
  case (gr_new now seed g)
  then show ?case
    by (auto simp: guarded_new_def split: sum.splits intro: sr_new)
next
  case (gr_append g a d i)
  let ?s = "gd_session g" and ?tr = "gd_trace g"
  let ?staged = "validateEvent ?tr (candidate ?s i)"
  obtain s r where app: "append_event same a (is_ok ?staged \<and> d) ?s i = (s, r)"
    by (cases "append_event same a (is_ok ?staged \<and> d) ?s i")
  have reach: "session_reach same s"
    using sr_append [of same ?s a "is_ok ?staged \<and> d" i] gr_append.IH app by simp
  have inv: "session_inv ?s" using session_reach_inv [OF same] gr_append.IH by blast
  note ev = append_event_inv(2,3) [OF same inv, of a "is_ok ?staged \<and> d" i]
  show ?case
  proof (cases r)
    case (Inl x)
    then show ?thesis
      using gr_append.IH reach app ev(2) by (simp add: guarded_append_def)
  next
    case (Inr e)
    with ev(1) app have e: "e = candidate ?s i" "is_ok ?staged"
      by (auto split: if_splits sum.splits)
    then obtain t where t: "?staged = Inr t" by (auto simp: is_ok_iff)
    have "ss_log s = ss_log ?s @ [e]" using ev(2) app Inr by simp
    moreover have "trace_step ?tr e = Inr (applyTransition ?tr t)"
      using t e(1) by (simp add: trace_step_def)
    ultimately show ?thesis
      using gr_append.IH reach app Inr t by (simp add: guarded_append_def seedSession_snoc)
  qed
qed

section \<open>Constructing a session from a stored log\<close>

lemma seed_loop_complete:
  assumes same: "\<forall>a b. same a b \<longrightarrow> a = b"
  shows "session_inv s \<Longrightarrow> fold_window 0 (ss_log s @ es) = Inr w \<Longrightarrow>
    \<forall>e \<in> set es. assertSessionEventEnvelope e \<Longrightarrow> is_ok (seed_loop same s es)"
proof (induction es arbitrary: s)
  case (Cons e es)
  have mi: "manager_inv 0 (ss_log s) (ss_mgr s)" using Cons.prems(1) by (simp add: session_inv_def)
  have "fold_window 0 ((ss_log s @ [e]) @ es) = Inr w" using Cons.prems(2) by simp
  then obtain w1 where w1: "fold_window 0 (ss_log s @ [e]) = Inr w1"
    unfolding fold_window_append [of 0 "ss_log s @ [e]" es] rbind_eq_Inr by blast
  have "map ev_seq (ss_log s @ [e]) = [0..<length (ss_log s @ [e])]"
    using fold_window_hist [OF w1] by (cases w1) (auto simp: surface_hist_def)
  then have seq: "ev_seq e = length (ss_log s)" by simp
  obtain m r where v: "validateNext same 0 (ss_log s) (ss_mgr s) e = (m, r)"
    by (cases "validateNext same 0 (ss_log s) (ss_mgr s) e")
  have "r = Inr ()" "manager_inv 0 (ss_log s) m"
    using validateNext_fold [OF same mi, of e] v w1 by auto
  moreover have "is_ok (seed_loop same (s\<lparr>ss_mgr := m, ss_log := ss_log s @ [e]\<rparr>) es)"
    using Cons.IH [OF inv_push [OF Cons.prems(1) w1 calculation(2)]] Cons.prems(2,3) by simp
  ultimately show ?case using seq v Cons.prems(3) by simp
qed simp

lemma newSession_complete:
  assumes same: "\<forall>a b. same a b \<longrightarrow> a = b" and "foldSurface evs = Inr w"
    and "\<forall>e \<in> set evs. assertSessionEventEnvelope e"
  shows "\<exists>s. newSession same now (Some evs) = Inr s"
proof -
  obtain st reps where fw: "fold_window 0 evs = Inr (st, reps, length evs)"
    using assms(2) foldSurface_window by (cases w) blast
  have "is_ok (seed_loop same emptySession evs)"
    using seed_loop_complete [OF same emptySession_inv] fw assms(3) by (simp add: emptySession_def)
  then obtain s0 where s0: "seed_loop same emptySession evs = Inr s0" by (auto simp: is_ok_iff)
  then have inv0: "session_inv s0" and log0: "ss_log s0 = evs"
    using seed_loop_ok [OF same emptySession_inv] by (auto simp: emptySession_def)
  let ?s1 = "s0\<lparr>ss_firstLive := length (ss_log s0)\<rparr>"
  have inv1: "session_inv ?s1" using inv0 by (simp add: session_inv_def derived_inv_def)
  have "fold_window 0 (evs @ [candidate ?s1 (end_seed_input now)]) = Inr (st, reps, Suc (length evs))"
    using fw log0 by (simp add: fold_window_snoc surface_step_def applySurfaceEvent_def
        planSurfaceEvent_def surfaceOpOf_def candidate_def end_seed_input_def)
  then have "\<exists>e. snd (append_event same False True ?s1 (end_seed_input now)) = Inr e"
    using append_event_inv(2) [OF same inv1, of False True "end_seed_input now"] log0 by simp
  then show ?thesis
    by (auto simp: newSession_def s0 Let_def split: prod.splits)
qed

section \<open>Properties\<close>

text \<open>
  With the companion installed the log of a session always satisfies the invariant, and
  the committed trace is the trace of the log, whatever other listeners vetoed.
\<close>

theorem guarded_log_accepted:
  assumes "\<forall>a b. same a b \<longrightarrow> a = b" and "guarded_reach same g"
  shows "seedSession (ss_log (gd_session g)) = Inr (gd_trace g)
    \<and> (\<exists>w. foldSurface (ss_log (gd_session g)) = Inr w)"
  using guarded_inv [OF assms] session_reach_inv [OF assms(1)] unfolding session_inv_def
  by (metis foldSurface_window)

definition sample_guarded :: "unit guarded" where
  "sample_guarded = fst (guarded_append (=) False True
     \<lparr>gd_session = emptySession, gd_trace = freshTrace\<rparr>
     \<lparr>ai_data = TurnStart 1, ai_surfaceOp = None, ai_sources = None, ai_ignorable = False, ai_time = 5\<rparr>)"

lemma sample_guarded_reach: "guarded_reach (=) sample_guarded"
proof -
  have "guarded_new (=) 0 None = Some \<lparr>gd_session = emptySession :: unit session, gd_trace = freshTrace\<rparr>"
    by (simp add: guarded_new_def newSession_def emptySession_def seedSession_def Let_def)
  then show ?thesis unfolding sample_guarded_def by (intro gr_append gr_new)
qed

theorem guarded_log_accepted_witness:
  "seedSession (ss_log (gd_session sample_guarded)) = Inr (gd_trace sample_guarded)"
  using guarded_log_accepted [OF _ sample_guarded_reach] by blast

text \<open>The seed marker a new session may append keeps an accepted log closed.\<close>

lemma marker_closed:
  assumes inv: "session_inv s" and tr: "seedSession rep = Inr tr" "st_openTurn tr = None" "st_openStep tr = None"
    and m: "ss_log s = rep @ marker" and single: "marker \<noteq> [] \<Longrightarrow> map ev_data marker = [EndSeed]"
  shows "\<exists>tr'. seedSession (ss_log s) = Inr tr' \<and> st_openTurn tr' = None \<and> st_openStep tr' = None"
proof (cases "marker = []")
  case True
  then show ?thesis using tr m by auto
next
  case False
  then obtain e where e: "marker = [e]" "ev_data e = EndSeed" using single by auto
  obtain st' reps' where "fold_window 0 (ss_log s) = Inr (st', reps', length (ss_log s))"
    using inv by (auto simp: session_inv_def)
  then have "map ev_seq (ss_log s) = [0..<length (ss_log s)]"
    using fold_window_hist by (fastforce simp: surface_hist_def)
  then have seqs: "map ev_seq (rep @ [e]) = [0..<Suc (length rep)]" using m e(1) by simp
  have "map ev_seq rep = [0..<length rep]" and seq_e: "ev_seq e = length rep" using seqs by simp_all
  then have "rep \<noteq> [] \<Longrightarrow> ev_seq (last rep) < length rep"
    by (metis atLeastLessThan_iff image_eqI last_in_set set_map set_upt)
  then have "st_lastSeq tr < int (ev_seq e)"
    unfolding seedSession_lastSeq [OF tr(1)] seq_e by (cases "rep = []") auto
  with tr e have "\<exists>tr'. seedSession (rep @ [e]) = Inr tr' \<and> st_openTurn tr' = None \<and> st_openStep tr' = None"
    unfolding seedSession_snoc by (simp add: trace_step_defs)
  then show ?thesis using m e(1) by simp
qed

text \<open>The closers are events a seed may hold.\<close>

lemma calls_shape:
  "\<forall>c \<in> set (map_keys pend). c \<noteq> [] \<Longrightarrow> e \<in> set (close_calls turn time seq pend) \<Longrightarrow>
   ev_time e = time \<and> assertCurrentLlmShape (ev_data e)"
  by (induction turn time seq pend rule: close_calls.induct)
    (auto simp: synthetic_result_def synthetic_data_def assertCurrentLlmShape_def assertMessageEventShape_def identified_def)

lemma boundary_shape [simp]:
  "assertCurrentLlmShape (StepEnd t n)" "assertCurrentLlmShape (TurnEnd t r)"
  by (simp_all add: assertCurrentLlmShape_def assertMessageEventShape_def)

lemma closing_shape:
  assumes "\<forall>c \<in> set (map_keys (rs_pending rs)). c \<noteq> []" and "e \<in> set (closing_events rs seq time)"
  shows "ev_time e = time \<and> assertCurrentLlmShape (ev_data e)"
proof -
  obtain turn where "rs_turn rs = Some turn" using assms(2) by (cases "rs_turn rs") (auto simp: closing_events_def)
  with assms(2) consider (call) "e \<in> set (close_calls turn time seq (rs_pending rs))"
    | (step) m n where "e = log_event (StepEnd turn m) n time"
    | (turn) n where "e = log_event (TurnEnd turn Interrupted) n time"
    by (cases "rs_step rs") (auto simp: closing_events_def Let_def)
  then show ?thesis
  proof cases
    case call
    then show ?thesis by (rule calls_shape [OF assms(1)])
  qed (simp_all add: log_event_def)
qed

lemma closers_envelope:
  assumes "\<forall>e \<in> set stored. assertSessionEventEnvelope e" and "\<forall>e \<in> set stored. [] \<notin> set (requested_calls (ev_data e))"
    and "map ev_seq (stored @ interruptedTurnClosers stored) = [0..<length (stored @ interruptedTurnClosers stored)]"
    and "int (length (stored @ interruptedTurnClosers stored)) \<le> max_safe"
  shows "\<forall>e \<in> set (stored @ interruptedTurnClosers stored). assertSessionEventEnvelope e"
proof
  fix e assume e: "e \<in> set (stored @ interruptedTurnClosers stored)"
  show "assertSessionEventEnvelope e"
  proof (cases "e \<in> set stored")
    case False
    then have e': "e \<in> set (interruptedTurnClosers stored)" and ne: "stored \<noteq> []"
      using e by (auto simp: interruptedTurnClosers_def)
    have "\<forall>c \<in> set (map_keys (rs_pending (foldl repair_scan repair_start stored))). c \<noteq> []"
    proof
      fix c assume "c \<in> set (map_keys (rs_pending (foldl repair_scan repair_start stored)))"
      then have "unanswered stored c" unfolding pending_unanswered by simp
      then obtain i where "i < length stored" "c \<in> set (requested_calls (ev_data (stored ! i)))"
        unfolding unanswered_def by blast
      with assms(2) nth_mem [of i stored] show "c \<noteq> []" by auto
    qed
    from closing_shape [OF this] e' ne have "ev_time e = ev_time (last stored)" "assertCurrentLlmShape (ev_data e)"
      by (auto simp: interruptedTurnClosers_def)
    moreover have "safe_int (ev_time (last stored))"
      using assms(1) ne by (simp add: assertSessionEventEnvelope_def)
    moreover have "ev_seq e \<in> set [0..<length (stored @ interruptedTurnClosers stored)]"
      using e unfolding assms(3) [symmetric] by auto
    then have "safe_int (int (ev_seq e))" using assms(4) by (simp add: safe_int_def)
    ultimately show ?thesis by (simp add: assertSessionEventEnvelope_def)
  qed (use assms(1) in simp)
qed

text \<open>
  C9. Crash recovery: whatever prefix of the log of a guarded session reached storage, appending the
  closers gives a log from which a session is constructed, with the stored prefix kept, every
  event of it accepted by the invariant and no turn or step left open. Unlike an append, the
  constructor inspects the shape of each event: the stored events are taken to have it, and the
  tool calls in them to be named; the closers then have it too.
\<close>

theorem crash_recovery:
  assumes "\<forall>a b. same a b \<longrightarrow> a = b" and "guarded_reach same g"
    and "stored = take k (ss_log (gd_session g))"
    and "\<forall>e \<in> set stored. assertSessionEventEnvelope e"
    and "\<forall>e \<in> set stored. [] \<notin> set (requested_calls (ev_data e))"
    and "int (length (stored @ interruptedTurnClosers stored)) \<le> max_safe"
  shows "\<exists>s tr. newSession same now (Some (stored @ interruptedTurnClosers stored)) = Inr s
    \<and> take (length stored) (ss_log s) = stored
    \<and> seedSession (ss_log s) = Inr tr \<and> st_openTurn tr = None \<and> st_openStep tr = None"
proof -
  let ?log = "ss_log (gd_session g)"
  let ?rep = "stored @ interruptedTurnClosers stored"
  from guarded_inv [OF assms(1,2)] have trace: "seedSession ?log = Inr (gd_trace g)"
    and "session_inv (gd_session g)"
    using session_reach_inv [OF assms(1)] by blast+
  then obtain w where w: "fold_window 0 (stored @ drop k ?log) = Inr w"
    unfolding session_inv_def assms(3) append_take_drop_id by blast
  then obtain st reps i where w0: "fold_window 0 stored = Inr (st, reps, i)"
    unfolding fold_window_append rbind_eq_Inr by auto
  then have surf: "foldSurface stored = Inr (st, reps)"
    using foldSurface_window fold_window_index [OF w0] by auto
  have "seedSession (stored @ drop k ?log) = Inr (gd_trace g)"
    using trace unfolding assms(3) append_take_drop_id .
  then obtain tr0 where tr0: "seedSession stored = Inr tr0"
    unfolding seedSession_append rbind_eq_Inr by blast
  have len: "int (length stored) \<le> max_safe" using assms(6) by simp
  obtain x where fold: "foldSurface ?rep = Inr x" using repair_folds [OF tr0 surf len] by blast
  then obtain st' reps' where "fold_window 0 ?rep = Inr (st', reps', length ?rep)"
    using foldSurface_window by (cases x) blast
  from fold_window_hist [OF this] have "map ev_seq ?rep = [0..<length ?rep]" by (simp add: surface_hist_def)
  from newSession_complete [OF assms(1) fold closers_envelope [OF assms(4,5) this assms(6)]]
  obtain s where s: "newSession same now (Some ?rep) = Inr s" by blast
  obtain tr where tr: "seedSession ?rep = Inr tr" "st_openTurn tr = None" "st_openStep tr = None"
    using repair_traces [OF tr0] by blast
  obtain marker where m: "ss_log s = ?rep @ marker" "marker \<noteq> [] \<Longrightarrow> map ev_data marker = [EndSeed]"
    using newSession_inv(3) [OF assms(1) s] by auto
  then have "\<exists>tr'. seedSession (ss_log s) = Inr tr' \<and> st_openTurn tr' = None \<and> st_openStep tr' = None"
    using marker_closed [OF _ tr] m newSession_inv(1) [OF assms(1) s] by metis
  then show ?thesis using s m(1) by auto
qed

theorem crash_recovery_witness:
  "\<exists>s tr. newSession (=) 9 (Some (take 1 (ss_log (gd_session sample_guarded))
      @ interruptedTurnClosers (take 1 (ss_log (gd_session sample_guarded))))) = Inr s
    \<and> seedSession (ss_log s) = Inr tr \<and> st_openTurn tr = None"
proof -
  let ?stored = "take 1 (ss_log (gd_session sample_guarded))"
  have "list_all assertSessionEventEnvelope ?stored"
    and "list_all (\<lambda>e. [] \<notin> set (requested_calls (ev_data e))) ?stored"
    and "int (length (?stored @ interruptedTurnClosers ?stored)) \<le> max_safe"
    by code_simp+
  then show ?thesis
    using crash_recovery [OF _ sample_guarded_reach refl, of 1 9] by (simp add: list_all_iff) blast
qed

text \<open>
  The shape has to be asked for: an append takes a tool call without a name, and the session that
  holds it cannot be constructed again from its own log and the closers.
\<close>

definition unnamed_call :: "unit append_input list" where
  "unnamed_call = map (\<lambda>d. \<lparr>ai_data = d, ai_surfaceOp = (if isSurfaceEligibleType d then Some (JStr ''append'') else None),
       ai_sources = None, ai_ignorable = False, ai_time = 5\<rparr>)
     [TurnStart 1, StepStart 1 1, AssistantMessage 1 1 \<lparr>msg_id = ''m'', msg_role = RoleAssistant,
        msg_content = [ToolCallBlock [] ''ls'' ''{}''], msg_source = ModelSource ''p'' ''m'' None\<rparr> None False]"

theorem unnamed_call_unrecoverable:
  "\<exists>g :: unit guarded. guarded_reach (=) g \<and> list_all assertSessionEventEnvelope (ss_log (gd_session g))
    \<and> newSession (=) 9 (Some (ss_log (gd_session g) @ interruptedTurnClosers (ss_log (gd_session g)))) = Inl (SeedMalformed 3)"
proof -
  let ?step = "\<lambda>g i. fst (guarded_append (=) False True g i)"
  let ?g = "foldl ?step \<lparr>gd_session = emptySession :: unit session, gd_trace = freshTrace\<rparr> unnamed_call"
  have "guarded_new (=) 0 None = Some \<lparr>gd_session = emptySession :: unit session, gd_trace = freshTrace\<rparr>"
    by (simp add: guarded_new_def newSession_def emptySession_def seedSession_def Let_def)
  then have start: "guarded_reach (=) \<lparr>gd_session = emptySession :: unit session, gd_trace = freshTrace\<rparr>" by (rule gr_new)
  have "guarded_reach (=) g \<Longrightarrow> guarded_reach (=) (foldl ?step g is)" for g :: "unit guarded" and "is"
    by (induction "is" arbitrary: g) (auto intro: gr_append)
  from this [OF start] have "guarded_reach (=) ?g" .
  moreover have "list_all assertSessionEventEnvelope (ss_log (gd_session ?g))"
    and "(case newSession (=) 9 (Some (ss_log (gd_session ?g) @ interruptedTurnClosers (ss_log (gd_session ?g)))) of
      Inl x \<Rightarrow> x = SeedMalformed 3 | Inr _ \<Rightarrow> False)"
    by code_simp+
  ultimately show ?thesis by (intro exI [of _ ?g] conjI) (assumption, assumption, auto split: sum.splits)
qed

end
