(* ===== verification/SessionStore.thy ===== *)
theory SessionStore imports SessionRecovery begin

text \<open>
  \<open>SessionStore\<close> of packages/core/session/src/index.ts: minting of ids, preparation of a
  session, its entry, announcement, publication of appends, detachment and forking. Listeners
  are arbitrary code that may call back into the store, so announcing and appending are
  two steps each, a begin and an end, with any operations in between. Sessions and entries are
  objects with an identity: their index in the heap of the model. \<open>store_out\<close> is the order
  in which the lifecycle events are emitted.
\<close>

record 'p session_obj =
  so_id :: string
  so_session :: "'p session"

record session_entry =
  en_id :: string
  en_session :: nat
  en_announced :: bool
  en_announcing :: bool
  en_appending :: bool
  en_detachRequested :: bool
  en_entered :: bool

datatype lifecycle = Created nat | Disposed nat

record 'p store =
  store_objs :: "'p session_obj list"
  store_entries :: "session_entry list"
  store_map :: "(string \<times> nat) list"
  store_attach :: "(nat \<times> nat) list"
  store_counter :: nat
  store_out :: "lifecycle list"

datatype store_error =
    AlreadyExists string
  | AlreadyAttached string
  | NotLive nat
  | AlreadyAnnounced nat
  | ConstructFailed session_error
  | AppendFailed session_error

definition emptyStore :: "'p store" where
  "emptyStore = \<lparr>store_objs = [], store_entries = [], store_map = [], store_attach = [],
     store_counter = 0, store_out = []\<rparr>"

section \<open>Preparation\<close>

definition mint_id :: "nat \<Rightarrow> string" where
  "mint_id n = ''session-'' @ show_nat n"

lemma mint_id_inj: "mint_id m = mint_id n \<longleftrightarrow> m = n"
  by (auto simp: mint_id_def dest: show_nat_inj)

text \<open>The loop \<open>do id = session-<++counter> while (store.has(id))\<close>: the counter it ends with.\<close>

function mint :: "string list \<Rightarrow> nat \<Rightarrow> nat" where
  "mint taken c = (if mint_id (Suc c) \<in> set taken then mint taken (Suc c) else Suc c)"
  by pat_completeness auto
termination
proof (relation "measure (\<lambda>(taken, c). card {m. c < m \<and> mint_id m \<in> set taken})", goal_cases)
  case (2 taken c)
  have "finite (mint_id -` set taken)"
    by (intro finite_vimageI) (auto simp: inj_def mint_id_inj)
  then have "finite {m. c < m \<and> mint_id m \<in> set taken}"
    by (rule rev_finite_subset) auto
  moreover have "{m. Suc c < m \<and> mint_id m \<in> set taken} \<subset> {m. c < m \<and> mint_id m \<in> set taken}"
    using 2 by (auto simp: psubset_eq dest: Suc_lessD)
  ultimately show ?case by (simp add: psubset_card_mono)
qed simp

declare mint.simps [simp del]

definition prepare ::
  "('p event \<Rightarrow> 'p event \<Rightarrow> bool) \<Rightarrow> int \<Rightarrow> 'p store \<Rightarrow> string option \<Rightarrow> 'p event list option
   \<Rightarrow> 'p store \<times> (store_error + nat)" where
  "prepare same now st given seed =
     (let counter = (case given of None \<Rightarrow> mint (map_keys (store_map st)) (store_counter st)
                       | Some _ \<Rightarrow> store_counter st);
          sid = (case given of None \<Rightarrow> mint_id counter | Some i \<Rightarrow> i);
          st' = st\<lparr>store_counter := counter\<rparr>
      in if sid \<in> set (map_keys (store_map st)) then (st', Inl (AlreadyExists sid))
         else (case newSession same now seed of
             Inl x \<Rightarrow> (st', Inl (ConstructFailed x))
           | Inr s \<Rightarrow>
               (st'\<lparr>store_objs := store_objs st' @ [\<lparr>so_id = sid, so_session = s\<rparr>]\<rparr>,
                Inr (length (store_objs st')))))"

section \<open>Lifecycle\<close>

definition enter :: "'p store \<Rightarrow> nat \<Rightarrow> store_error + ('p store \<times> nat)" where
  "enter st ref =
     (let sid = so_id (store_objs st ! ref); e = length (store_entries st)
      in if sid \<in> set (map_keys (store_map st)) then Inl (AlreadyExists sid)
         else if ref \<in> set (map_keys (store_attach st)) then Inl (AlreadyAttached sid)
         else Inr (st\<lparr>store_entries := store_entries st @
                  [\<lparr>en_id = sid, en_session = ref, en_announced = False, en_announcing = False,
                    en_appending = False, en_detachRequested = False, en_entered = True\<rparr>],
                store_map := map_set sid e (store_map st),
                store_attach := map_set ref e (store_attach st)\<rparr>, e))"

definition upd :: "nat \<Rightarrow> (session_entry \<Rightarrow> session_entry) \<Rightarrow> 'p store \<Rightarrow> 'p store" where
  "upd e f st = st\<lparr>store_entries := (store_entries st)[e := f (store_entries st ! e)]\<rparr>"

definition detachEntered :: "'p store \<Rightarrow> nat \<Rightarrow> 'p store" where
  "detachEntered st e =
     (let st1 = upd e (\<lambda>en. en\<lparr>en_detachRequested := False\<rparr>) st;
          en = store_entries st1 ! e
      in if map_of (store_map st1) (en_id en) \<noteq> Some e then st1
         else st1\<lparr>store_map := map_delete (en_id en) (store_map st1),
                  store_attach := map_delete (en_session en) (store_attach st1),
                  store_out := store_out st1 @ (if en_announced en then [Disposed e] else [])\<rparr>)"

text \<open>The disposer that \<open>enter\<close> returns.\<close>

definition detach :: "'p store \<Rightarrow> nat \<Rightarrow> 'p store" where
  "detach st e =
     (if \<not> en_entered (store_entries st ! e) then st
      else
        let st1 = upd e (\<lambda>en. en\<lparr>en_entered := False\<rparr>) st; en = store_entries st1 ! e
        in if en_announcing en \<or> en_appending en
           then upd e (\<lambda>en. en\<lparr>en_detachRequested := True\<rparr>) st1
           else detachEntered st1 e)"

definition liveEntryFor :: "'p store \<Rightarrow> nat \<Rightarrow> store_error + nat" where
  "liveEntryFor st ref =
     (case map_of (store_attach st) ref of
        None \<Rightarrow> Inl (NotLive ref)
      | Some e \<Rightarrow>
          if map_of (store_map st) (en_id (store_entries st ! e)) \<noteq> Some e then Inl (NotLive ref)
          else Inr e)"

definition announce_begin :: "'p store \<Rightarrow> nat \<Rightarrow> store_error + ('p store \<times> nat)" where
  "announce_begin st ref =
     rbind (liveEntryFor st ref) (\<lambda>e.
       let en = store_entries st ! e
       in if en_announced en \<or> en_announcing en then Inl (AlreadyAnnounced e)
          else Inr ((upd e (\<lambda>en. en\<lparr>en_announced := True, en_announcing := True\<rparr>) st)
                    \<lparr>store_out := store_out st @ [Created e]\<rparr>, e))"

definition announce_end :: "'p store \<Rightarrow> nat \<Rightarrow> 'p store" where
  "announce_end st e =
     (let st1 = upd e (\<lambda>en. en\<lparr>en_announcing := False\<rparr>) st; en = store_entries st1 ! e
      in if en_detachRequested en \<and> \<not> en_appending en then detachEntered st1 e else st1)"

text \<open>
  An append runs the acceptance of the session log and, when the session is attached, marks
  the entry until publication (or the veto) has unwound.
\<close>

definition append_begin ::
  "('p event \<Rightarrow> 'p event \<Rightarrow> bool) \<Rightarrow> bool \<Rightarrow> 'p store \<Rightarrow> nat \<Rightarrow> 'p append_input
   \<Rightarrow> 'p store \<times> (session_error + 'p event)" where
  "append_begin same dispatched st ref i =
     (let obj = store_objs st ! ref; entry = map_of (store_attach st) ref;
          appending = (case entry of Some e \<Rightarrow> en_appending (store_entries st ! e) | None \<Rightarrow> False);
          (s, r) = append_event same appending (dispatched \<or> entry = None) (so_session obj) i;
          st1 = st\<lparr>store_objs := (store_objs st)[ref := obj\<lparr>so_session := s\<rparr>]\<rparr>
      in (case (entry, r) of
            (Some e, Inr _) \<Rightarrow> upd e (\<lambda>en. en\<lparr>en_appending := True\<rparr>) st1
          | (Some e, Inl AppendVetoed) \<Rightarrow> upd e (\<lambda>en. en\<lparr>en_appending := True\<rparr>) st1
          | _ \<Rightarrow> st1, r))"

definition append_end :: "'p store \<Rightarrow> nat \<Rightarrow> 'p store" where
  "append_end st e =
     (let st1 = upd e (\<lambda>en. en\<lparr>en_appending := False\<rparr>) st; en = store_entries st1 ! e
      in if en_detachRequested en \<and> \<not> en_announcing en then detachEntered st1 e else st1)"

definition get_session :: "'p store \<Rightarrow> string \<Rightarrow> nat option" where
  "get_session st sid = map_option (\<lambda>e. en_session (store_entries st ! e)) (map_of (store_map st) sid)"

definition list_sessions :: "'p store \<Rightarrow> nat list" where
  "list_sessions st = map (\<lambda>e. en_session (store_entries st ! e)) (map_values (store_map st))"

text \<open>Everything callers and reentrant listeners can do to the store.\<close>

inductive store_reach :: "('p event \<Rightarrow> 'p event \<Rightarrow> bool) \<Rightarrow> 'p store \<Rightarrow> bool" for same where
  st_init: "store_reach same emptyStore"
| st_prepare: "store_reach same st \<Longrightarrow> store_reach same (fst (prepare same now st given seed))"
| st_enter: "store_reach same st \<Longrightarrow> ref < length (store_objs st) \<Longrightarrow> enter st ref = Inr (st', e) \<Longrightarrow>
    store_reach same st'"
| st_detach: "store_reach same st \<Longrightarrow> e < length (store_entries st) \<Longrightarrow> store_reach same (detach st e)"
| st_announce: "store_reach same st \<Longrightarrow> announce_begin st ref = Inr (st', e) \<Longrightarrow> store_reach same st'"
| st_announced: "store_reach same st \<Longrightarrow> e < length (store_entries st) \<Longrightarrow>
    en_announcing (store_entries st ! e) \<Longrightarrow> store_reach same (announce_end st e)"
| st_append: "store_reach same st \<Longrightarrow> ref < length (store_objs st) \<Longrightarrow>
    store_reach same (fst (append_begin same d st ref i))"
| st_appended: "store_reach same st \<Longrightarrow> e < length (store_entries st) \<Longrightarrow>
    en_appending (store_entries st ! e) \<Longrightarrow> store_reach same (append_end st e)"

section \<open>The invariant of the store\<close>

definition live :: "'p store \<Rightarrow> nat \<Rightarrow> bool" where
  "live st e \<longleftrightarrow> map_of (store_map st) (en_id (store_entries st ! e)) = Some e"

definition map_ok :: "'p store \<Rightarrow> bool" where
  "map_ok st \<longleftrightarrow> distinct (map_keys (store_map st))
     \<and> (\<forall>sid e. map_of (store_map st) sid = Some e \<longrightarrow>
          e < length (store_entries st) \<and> en_id (store_entries st ! e) = sid)
     \<and> (\<forall>ref e. map_of (store_attach st) ref = Some e \<longleftrightarrow>
          e < length (store_entries st) \<and> live st e \<and> en_session (store_entries st ! e) = ref)"

definition entry_ok :: "session_entry \<Rightarrow> bool \<Rightarrow> bool \<Rightarrow> bool \<Rightarrow> bool" where
  "entry_ok en alive cre dis \<longleftrightarrow>
     (en_announcing en \<or> en_appending en \<longrightarrow> alive)
     \<and> (en_detachRequested en \<longrightarrow> en_announcing en \<or> en_appending en)
     \<and> (en_entered en \<longrightarrow> alive \<and> \<not> en_detachRequested en)
     \<and> (\<not> en_entered en \<longrightarrow> \<not> alive \<or> en_detachRequested en)
     \<and> (en_announcing en \<longrightarrow> en_announced en)
     \<and> (cre \<longleftrightarrow> en_announced en)
     \<and> (dis \<longleftrightarrow> en_announced en \<and> \<not> alive)"

fun entry_of :: "lifecycle \<Rightarrow> nat" where
  "entry_of (Created e) = e"
| "entry_of (Disposed e) = e"

definition out_ok :: "'p store \<Rightarrow> bool" where
  "out_ok st \<longleftrightarrow> distinct (store_out st)
     \<and> (\<forall>x \<in> set (store_out st). entry_of x < length (store_entries st))
     \<and> (\<forall>xs e ys. store_out st = xs @ Disposed e # ys \<longrightarrow> Created e \<in> set xs)"

definition entries_ok :: "'p store \<Rightarrow> nat set \<Rightarrow> bool" where
  "entries_ok st except \<longleftrightarrow>
     (\<forall>e < length (store_entries st). e \<notin> except \<longrightarrow>
        entry_ok (store_entries st ! e) (live st e)
          (Created e \<in> set (store_out st)) (Disposed e \<in> set (store_out st)))"

definition store_inv :: "'p store \<Rightarrow> bool" where
  "store_inv st \<longleftrightarrow> map_ok st \<and> out_ok st \<and> entries_ok st {}"

lemma upd_simps [simp]:
  "store_entries (upd e f st) = (store_entries st)[e := f (store_entries st ! e)]"
  "store_map (upd e f st) = store_map st" "store_attach (upd e f st) = store_attach st"
  "store_out (upd e f st) = store_out st" "store_objs (upd e f st) = store_objs st"
  "store_counter (upd e f st) = store_counter st"
  by (simp_all add: upd_def)

lemma nth_upd_id:
  assumes "\<And>en. en_id (f en) = en_id en"
  shows "en_id ((store_entries st)[e := f (store_entries st ! e)] ! x) = en_id (store_entries st ! x)"
proof (cases "e < length (store_entries st) \<and> x = e")
  case True
  then show ?thesis using assms by simp
next
  case False
  then show ?thesis by (cases "x = e") (simp_all add: list_update_beyond)
qed

lemma nth_upd_session:
  assumes "\<And>en. en_session (f en) = en_session en"
  shows "en_session ((store_entries st)[e := f (store_entries st ! e)] ! x) = en_session (store_entries st ! x)"
proof (cases "e < length (store_entries st) \<and> x = e")
  case True
  then show ?thesis using assms by simp
next
  case False
  then show ?thesis by (cases "x = e") (simp_all add: list_update_beyond)
qed

lemma live_upd:
  assumes "\<And>en. en_id (f en) = en_id en"
  shows "live (upd e f st) x = live st x"
  by (simp add: live_def nth_upd_id [of f, OF assms])

lemma map_ok_upd:
  assumes "\<And>en. en_id (f en) = en_id en" and "\<And>en. en_session (f en) = en_session en"
  shows "map_ok (upd e f st) = map_ok st"
  unfolding map_ok_def by (simp add: live_upd [of f, OF assms(1)] nth_upd_id [of f, OF assms(1)] nth_upd_session [of f, OF assms(2)])

lemma out_ok_upd [simp]: "out_ok (upd e f st) = out_ok st"
  by (simp add: out_ok_def)

lemma entries_ok_upd:
  assumes "\<And>en. en_id (f en) = en_id en" and "entries_ok st {e}"
  shows "entries_ok (upd e f st) {e}"
  using assms(2) by (auto simp: entries_ok_def live_upd [of f, OF assms(1)] nth_list_update)

lemma entries_ok_close:
  assumes "entries_ok st {e}"
    and "e < length (store_entries st) \<Longrightarrow>
      entry_ok (store_entries st ! e) (live st e) (Created e \<in> set (store_out st)) (Disposed e \<in> set (store_out st))"
  shows "entries_ok st {}"
  using assms by (auto simp: entries_ok_def)

lemma entries_ok_except: "entries_ok st {} \<Longrightarrow> entries_ok st {e}"
  by (simp add: entries_ok_def)

lemma out_ok_snoc:
  assumes "out_ok st" and "x \<notin> set (store_out st)" and "entry_of x < length (store_entries st)"
    and "\<And>e. x = Disposed e \<Longrightarrow> Created e \<in> set (store_out st)"
  shows "out_ok (st\<lparr>store_out := store_out st @ [x]\<rparr>)"
proof -
  have "Created e \<in> set xs" if "store_out st @ [x] = xs @ Disposed e # ys" for xs e ys
  proof (cases ys rule: rev_cases)
    case Nil
    then show ?thesis using that assms(4) by simp
  next
    case (snoc zs y)
    then have "store_out st = xs @ Disposed e # zs" using that by simp
    then show ?thesis using assms(1) by (simp add: out_ok_def)
  qed
  with assms show ?thesis by (auto simp: out_ok_def)
qed

text \<open>Removing a live entry whose brackets are closed.\<close>

lemma detachEntered_inv:
  assumes maps: "map_ok st" and out: "out_ok st" and others: "entries_ok st {e}"
    and e: "e < length (store_entries st)" and alive: "live st e"
    and en: "\<not> en_entered (store_entries st ! e)" "\<not> en_announcing (store_entries st ! e)"
      "\<not> en_appending (store_entries st ! e)"
    and cre: "Created e \<in> set (store_out st) \<longleftrightarrow> en_announced (store_entries st ! e)"
    and dis: "Disposed e \<notin> set (store_out st)"
  shows "store_inv (detachEntered st e)"
proof -
  let ?en = "store_entries st ! e"
  let ?st1 = "upd e (\<lambda>en. en\<lparr>en_detachRequested := False\<rparr>) st"
  let ?out = "store_out st @ (if en_announced ?en then [Disposed e] else [])"
  let ?st2 = "?st1\<lparr>store_map := map_delete (en_id ?en) (store_map st),
      store_attach := map_delete (en_session ?en) (store_attach st), store_out := ?out\<rparr>"
  have st2: "detachEntered st e = ?st2"
    using alive e by (simp add: detachEntered_def live_def Let_def)
  have ids: "en_id (store_entries ?st1 ! x) = en_id (store_entries st ! x)"
    "en_session (store_entries ?st1 ! x) = en_session (store_entries st ! x)" for x
    using e by (simp_all add: nth_list_update)
  have live2: "live ?st2 x \<longleftrightarrow> live st x \<and> x \<noteq> e" for x
    using alive ids(1) by (auto simp: live_def)
  have "map_ok ?st2"
  proof -
    have "map_of (store_attach ?st2) ref = Some x \<longleftrightarrow>
        x < length (store_entries ?st2) \<and> live ?st2 x \<and> en_session (store_entries ?st2 ! x) = ref" for ref x
      unfolding live2 using maps alive e ids(2) by (auto simp: map_ok_def) (metis option.inject)
    moreover have "x < length (store_entries ?st2) \<and> en_id (store_entries ?st2 ! x) = sid"
      if "map_of (store_map ?st2) sid = Some x" for sid x
      using that maps ids(1) by (auto simp: map_ok_def split: if_splits)
    ultimately show ?thesis
      using maps by (simp add: map_ok_def)
  qed
  moreover have "out_ok ?st2"
  proof (cases "en_announced ?en")
    case True
    then have "out_ok (st\<lparr>store_out := store_out st @ [Disposed e]\<rparr>)"
      using out dis e cre by (intro out_ok_snoc) auto
    with True show ?thesis by (simp add: out_ok_def)
  next
    case False
    with out show ?thesis by (simp add: out_ok_def)
  qed
  moreover have "entries_ok ?st2 {}"
  proof (rule entries_ok_close [of _ e])
    show "entries_ok ?st2 {e}"
      using others unfolding entries_ok_def live2 by (auto simp: nth_list_update)
    show "entry_ok (store_entries ?st2 ! e) (live ?st2 e) (Created e \<in> set (store_out ?st2)) (Disposed e \<in> set (store_out ?st2))"
      unfolding live2 using e en cre dis by (auto simp: entry_ok_def)
  qed
  ultimately show ?thesis by (simp add: st2 store_inv_def)
qed

section \<open>Every operation keeps the invariant\<close>

lemma invD:
  assumes "store_inv st"
  shows "map_ok st" and "out_ok st" and "entries_ok st {}"
    and "e < length (store_entries st) \<Longrightarrow>
      entry_ok (store_entries st ! e) (live st e) (Created e \<in> set (store_out st)) (Disposed e \<in> set (store_out st))"
  using assms by (auto simp: store_inv_def entries_ok_def)

text \<open>Changing the flags of one entry, none of them identity.\<close>

lemma upd_inv:
  assumes "store_inv st" and "e < length (store_entries st)"
    and "\<And>en. en_id (f en) = en_id en" and "\<And>en. en_session (f en) = en_session en"
    and "entry_ok (f (store_entries st ! e)) (live st e) (Created e \<in> set (store_out st)) (Disposed e \<in> set (store_out st))"
  shows "store_inv (upd e f st)"
  unfolding store_inv_def
proof (intro conjI)
  show "map_ok (upd e f st)" and "out_ok (upd e f st)"
    using invD(1,2) [OF assms(1)] by (simp_all add: map_ok_upd [of f, OF assms(3,4)])
  show "entries_ok (upd e f st) {}"
  proof (rule entries_ok_close)
    show "entries_ok (upd e f st) {e}"
      by (rule entries_ok_upd [OF assms(3) entries_ok_except [OF invD(3) [OF assms(1)]]])
  qed (use assms(2,5) in \<open>simp add: live_upd [of f, OF assms(3)]\<close>)
qed

text \<open>Closing a bracket or calling the disposer: flags first, then the removal if it is due.\<close>

lemma upd_detach_inv:
  assumes inv: "store_inv st" and e: "e < length (store_entries st)" and alive: "live st e"
    and f: "\<And>en. en_id (f en) = en_id en" "\<And>en. en_session (f en) = en_session en"
      "\<And>en. en_announced (f en) = en_announced en"
    and en: "\<not> en_entered (f (store_entries st ! e))" "\<not> en_announcing (f (store_entries st ! e))"
      "\<not> en_appending (f (store_entries st ! e))"
  shows "store_inv (detachEntered (upd e f st) e)"
proof (rule detachEntered_inv)
  note ok = invD(4) [OF inv e]
  show "map_ok (upd e f st)" and "out_ok (upd e f st)"
    using invD(1,2) [OF inv] by (simp_all add: map_ok_upd [of f, OF f(1,2)])
  show "entries_ok (upd e f st) {e}"
    by (rule entries_ok_upd [OF f(1) entries_ok_except [OF invD(3) [OF inv]]])
  show "live (upd e f st) e" using alive by (simp add: live_upd [of f, OF f(1)])
  show "Created e \<in> set (store_out (upd e f st)) \<longleftrightarrow> en_announced (store_entries (upd e f st) ! e)"
    using ok e f(3) by (simp add: entry_ok_def)
  show "Disposed e \<notin> set (store_out (upd e f st))"
    using ok alive by (simp add: entry_ok_def)
qed (use e en in simp_all)

lemma detach_inv:
  assumes "store_inv st" and "e < length (store_entries st)"
  shows "store_inv (detach st e)"
proof (cases "en_entered (store_entries st ! e)")
  case False
  then show ?thesis using assms(1) by (simp add: detach_def)
next
  case True
  note ok = invD(4) [OF assms]
  then have alive: "live st e" using True by (simp add: entry_ok_def)
  let ?off = "\<lambda>en :: session_entry. en\<lparr>en_entered := False\<rparr>"
  show ?thesis
  proof (cases "en_announcing (store_entries st ! e) \<or> en_appending (store_entries st ! e)")
    case busy: True
    let ?f = "\<lambda>en :: session_entry. en\<lparr>en_entered := False, en_detachRequested := True\<rparr>"
    have "detach st e = upd e ?f st"
      using True busy assms(2) by (auto simp: detach_def upd_def Let_def)
    moreover have "store_inv (upd e ?f st)"
      by (rule upd_inv [OF assms]) (use ok busy alive in \<open>auto simp: entry_ok_def\<close>)
    ultimately show ?thesis by simp
  next
    case idle: False
    have "detach st e = detachEntered (upd e ?off st) e"
      using True idle assms(2) by (simp add: detach_def Let_def)
    moreover have "store_inv (detachEntered (upd e ?off st) e)"
      by (rule upd_detach_inv [OF assms alive]) (use idle in simp_all)
    ultimately show ?thesis by simp
  qed
qed

lemma announce_end_inv:
  assumes "store_inv st" and "e < length (store_entries st)" and "en_announcing (store_entries st ! e)"
  shows "store_inv (announce_end st e)"
proof -
  note ok = invD(4) [OF assms(1,2)]
  have alive: "live st e" using ok assms(3) by (simp add: entry_ok_def)
  let ?f = "\<lambda>en :: session_entry. en\<lparr>en_announcing := False\<rparr>"
  show ?thesis
  proof (cases "en_detachRequested (store_entries st ! e) \<and> \<not> en_appending (store_entries st ! e)")
    case True
    have "store_inv (detachEntered (upd e ?f st) e)"
      by (rule upd_detach_inv [OF assms(1,2) alive]) (use True ok in \<open>auto simp: entry_ok_def\<close>)
    then show ?thesis using True assms(2) by (simp add: announce_end_def Let_def)
  next
    case False
    have "store_inv (upd e ?f st)"
      by (rule upd_inv [OF assms(1,2)]) (use ok alive False in \<open>auto simp: entry_ok_def\<close>)
    then show ?thesis using False assms(2) by (auto simp: announce_end_def Let_def)
  qed
qed

lemma append_end_inv:
  assumes "store_inv st" and "e < length (store_entries st)" and "en_appending (store_entries st ! e)"
  shows "store_inv (append_end st e)"
proof -
  note ok = invD(4) [OF assms(1,2)]
  have alive: "live st e" using ok assms(3) by (simp add: entry_ok_def)
  let ?f = "\<lambda>en :: session_entry. en\<lparr>en_appending := False\<rparr>"
  show ?thesis
  proof (cases "en_detachRequested (store_entries st ! e) \<and> \<not> en_announcing (store_entries st ! e)")
    case True
    have "store_inv (detachEntered (upd e ?f st) e)"
      by (rule upd_detach_inv [OF assms(1,2) alive]) (use True ok in \<open>auto simp: entry_ok_def\<close>)
    then show ?thesis using True assms(2) by (simp add: append_end_def Let_def)
  next
    case False
    have "store_inv (upd e ?f st)"
      by (rule upd_inv [OF assms(1,2)]) (use ok alive False in \<open>auto simp: entry_ok_def\<close>)
    then show ?thesis using False assms(2) by (auto simp: append_end_def Let_def)
  qed
qed

lemma liveEntryFor_ok:
  assumes "store_inv st" and "liveEntryFor st ref = Inr e"
  shows "e < length (store_entries st)" and "live st e" and "en_session (store_entries st ! e) = ref"
  using assms invD(1) [OF assms(1)]
  by (auto simp: liveEntryFor_def map_ok_def split: option.splits if_splits)

lemma announce_begin_inv:
  assumes inv: "store_inv st" and beg: "announce_begin st ref = Inr (st', e)"
  shows "store_inv st'"
proof -
  let ?f = "\<lambda>en :: session_entry. en\<lparr>en_announced := True, en_announcing := True\<rparr>"
  from beg have live: "liveEntryFor st ref = Inr e"
    and no: "\<not> en_announced (store_entries st ! e)"
    and st': "st' = (upd e ?f st)\<lparr>store_out := store_out st @ [Created e]\<rparr>"
    by (auto simp: announce_begin_def result_simps Let_def split: if_splits)
  note e = liveEntryFor_ok(1,2) [OF inv live]
  note ok = invD(4) [OF inv e(1)]
  have lv: "live st' x = live st x" for x
    using live_upd [of ?f e st x] by (simp add: st' live_def)
  have "out_ok (st\<lparr>store_out := store_out st @ [Created e]\<rparr>)"
    using invD(2) [OF inv] e ok no by (intro out_ok_snoc) (auto simp: entry_ok_def)
  then have "out_ok st'" by (simp add: out_ok_def st')
  moreover have "map_ok st'"
    using invD(1) [OF inv] map_ok_upd [of ?f e st] by (simp add: map_ok_def lv [unfolded st'] live_upd st')
  moreover have "entries_ok st' {}"
    unfolding entries_ok_def lv
    using invD(3) [OF inv] e(1,2) ok no
    by (auto simp: st' entries_ok_def nth_list_update entry_ok_def)
  ultimately show ?thesis by (simp add: store_inv_def)
qed

lemma enter_inv:
  assumes inv: "store_inv st" and ent: "enter st ref = Inr (st', e)"
  shows "store_inv st'"
proof -
  let ?sid = "so_id (store_objs st ! ref)"
  let ?en = "\<lparr>en_id = ?sid, en_session = ref, en_announced = False, en_announcing = False,
    en_appending = False, en_detachRequested = False, en_entered = True\<rparr>"
  from ent have e: "e = length (store_entries st)" and fresh: "?sid \<notin> set (map_keys (store_map st))"
    and free: "ref \<notin> set (map_keys (store_attach st))"
    and st': "st' = st\<lparr>store_entries := store_entries st @ [?en], store_map := map_set ?sid e (store_map st),
      store_attach := map_set ref e (store_attach st)\<rparr>"
    by (auto simp: enter_def Let_def split: if_splits)
  have none: "map_of (store_map st) ?sid = None" "map_of (store_attach st) ref = None"
    using fresh free by (simp_all add: map_of_None_keys)
  note maps = invD(1) [OF inv] and out = invD(2) [OF inv] and ents = invD(3) [OF inv]
  have lv: "live st' x \<longleftrightarrow> live st x" if "x < length (store_entries st)" for x
    using that none(1) by (auto simp: live_def st' nth_append e)
  have lve: "live st' e" by (simp add: live_def st' e)
  have "map_of (store_attach st') r = Some x \<longleftrightarrow>
      x < length (store_entries st') \<and> live st' x \<and> en_session (store_entries st' ! x) = r" for r x
  proof (cases "x = e")
    case True
    have "map_of (store_attach st) r \<noteq> Some e"
      using maps by (auto simp: map_ok_def e)
    then show ?thesis using True lve by (auto simp: st' e)
  next
    case False
    then have "map_of (store_attach st') r = Some x \<longleftrightarrow> map_of (store_attach st) r = Some x"
      using none(2) by (auto simp: st')
    also have "\<dots> \<longleftrightarrow> x < length (store_entries st) \<and> live st x \<and> en_session (store_entries st ! x) = r"
      using maps unfolding map_ok_def by blast
    also have "\<dots> \<longleftrightarrow> x < length (store_entries st') \<and> live st' x \<and> en_session (store_entries st' ! x) = r"
      using False lv by (auto simp: st' e nth_append)
    finally show ?thesis .
  qed
  moreover have "x < length (store_entries st') \<and> en_id (store_entries st' ! x) = sid"
    if "map_of (store_map st') sid = Some x" for sid x
    using that maps by (auto simp: st' e nth_append map_ok_def split: if_splits)
  moreover have "distinct (map_keys (store_map st'))"
    using maps by (simp add: st' map_ok_def)
  ultimately have "map_ok st'" by (simp add: map_ok_def)
  moreover have "out_ok st'"
    using out by (auto simp: out_ok_def st' less_SucI)
  moreover have "entries_ok st' {}"
  proof (rule entries_ok_close [of _ e])
    show "entries_ok st' {e}"
      using ents lv by (auto simp: entries_ok_def st' e nth_append)
    have "Created e \<notin> set (store_out st)" "Disposed e \<notin> set (store_out st)"
      using out by (force simp: out_ok_def e)+
    then show "entry_ok (store_entries st' ! e) (live st' e) (Created e \<in> set (store_out st')) (Disposed e \<in> set (store_out st'))"
      using lve by (simp add: st' e entry_ok_def)
  qed
  ultimately show ?thesis by (simp add: store_inv_def)
qed

lemma inv_objs [simp]: "store_inv (st\<lparr>store_objs := x\<rparr>) = store_inv st"
  and inv_counter [simp]: "store_inv (st\<lparr>store_counter := n\<rparr>) = store_inv st"
  by (simp_all add: store_inv_def map_ok_def out_ok_def entries_ok_def live_def)

lemma prepare_inv: "store_inv st \<Longrightarrow> store_inv (fst (prepare same now st given seed))"
  by (simp add: prepare_def Let_def split: sum.splits)

lemma append_begin_inv:
  assumes inv: "store_inv st"
  shows "store_inv (fst (append_begin same d st ref i))"
proof -
  obtain s r where app: "append_event same (case map_of (store_attach st) ref of Some e \<Rightarrow> en_appending (store_entries st ! e) | None \<Rightarrow> False)
      (d \<or> map_of (store_attach st) ref = None) (so_session (store_objs st ! ref)) i = (s, r)"
    by fastforce
  let ?st1 = "st\<lparr>store_objs := (store_objs st)[ref := (store_objs st ! ref)\<lparr>so_session := s\<rparr>]\<rparr>"
  have "store_inv (upd e (\<lambda>en. en\<lparr>en_appending := True\<rparr>) ?st1)" if "map_of (store_attach st) ref = Some e" for e
  proof (rule upd_inv)
    have e: "e < length (store_entries st)" "live st e"
      using that invD(1) [OF inv] by (auto simp: map_ok_def)
    then show "e < length (store_entries ?st1)" by simp
    show "entry_ok ((store_entries ?st1 ! e)\<lparr>en_appending := True\<rparr>) (live ?st1 e)
        (Created e \<in> set (store_out ?st1)) (Disposed e \<in> set (store_out ?st1))"
      using invD(4) [OF inv e(1)] e(2) by (auto simp: entry_ok_def live_def)
  qed (use inv in simp_all)
  moreover have "store_inv ?st1" using inv by simp
  ultimately show ?thesis
    using app by (simp add: append_begin_def Let_def split: option.splits sum.splits session_error.splits)
qed

lemma store_reach_inv: "store_reach same st \<Longrightarrow> store_inv st"
proof (induction rule: store_reach.induct)
  case st_init
  show ?case
    by (simp add: store_inv_def map_ok_def out_ok_def entries_ok_def live_def emptyStore_def)
qed (auto intro: prepare_inv enter_inv detach_inv announce_begin_inv announce_end_inv append_begin_inv append_end_inv)

text \<open>The sessions in the heap are reachable sessions.\<close>

definition heap_ok :: "('p event \<Rightarrow> 'p event \<Rightarrow> bool) \<Rightarrow> 'p store \<Rightarrow> bool" where
  "heap_ok same st \<longleftrightarrow> (\<forall>obj \<in> set (store_objs st). session_reach same (so_session obj))"

lemma detachEntered_objs [simp]: "store_objs (detachEntered st e) = store_objs st"
  by (simp add: detachEntered_def Let_def)

lemma heap_prepare: "heap_ok same st \<Longrightarrow> heap_ok same (fst (prepare same now st given seed))"
  by (auto simp: prepare_def heap_ok_def Let_def split: sum.splits intro: sr_new)

lemma heap_append:
  assumes "heap_ok same st" and "ref < length (store_objs st)"
  shows "heap_ok same (fst (append_begin same d st ref i))"
proof -
  let ?a = "case map_of (store_attach st) ref of Some e \<Rightarrow> en_appending (store_entries st ! e) | None \<Rightarrow> False"
  let ?d = "d \<or> map_of (store_attach st) ref = None"
  let ?s = "so_session (store_objs st ! ref)"
  obtain s r where app: "append_event same ?a ?d ?s i = (s, r)" by fastforce
  have "session_reach same ?s" using assms by (simp add: heap_ok_def)
  then have s: "session_reach same s" using sr_append [of same ?s ?a ?d i] app by simp
  have "store_objs (fst (append_begin same d st ref i)) =
      (store_objs st)[ref := (store_objs st ! ref)\<lparr>so_session := s\<rparr>]"
    using app by (simp add: append_begin_def Let_def split: option.splits sum.splits session_error.splits)
  then show ?thesis
    using assms(1) s by (auto simp: heap_ok_def dest!: set_update_subset_insert [THEN subsetD])
qed

lemma store_reach_heap: "store_reach same st \<Longrightarrow> heap_ok same st"
proof (induction rule: store_reach.induct)
  case (st_append st ref d i)
  then show ?case using heap_append by blast
next
  case (st_prepare st now given seed)
  then show ?case using heap_prepare by blast
qed (auto simp: heap_ok_def emptyStore_def enter_def detach_def announce_begin_def announce_end_def append_end_def
    result_simps Let_def split: if_splits)

section \<open>Forking\<close>

datatype fork_error = ForkNotFound | ForkNotLive | ForkExists | InvalidBoundary | OpenTurn int

fun turn_boundary :: "'p event \<Rightarrow> bool" where
  "turn_boundary e = (case ev_data e of TurnStart _ \<Rightarrow> True | TurnEnd _ _ \<Rightarrow> True | _ \<Rightarrow> False)"

definition last_boundary :: "'p event list \<Rightarrow> 'p event option" where
  "last_boundary evs = (case filter turn_boundary (rev evs) of [] \<Rightarrow> None | e # _ \<Rightarrow> Some e)"

definition forkSeed :: "'p event list \<Rightarrow> rat option \<Rightarrow> fork_error + 'p event list" where
  "forkSeed evs requested =
     (case (case requested of
              Some b \<Rightarrow> Some b
            | None \<Rightarrow> if evs = [] then None else Some (of_nat (ev_seq (last evs)))) of
        None \<Rightarrow> Inr []
      | Some b \<Rightarrow>
          if \<not> is_safe_integer b \<or> b < 0 then Inl InvalidBoundary
          else
            let n = nat \<lfloor>b\<rfloor>
            in if length evs \<le> n then Inl InvalidBoundary
               else if ev_seq (evs ! n) \<noteq> n then Inl InvalidBoundary
               else (case last_boundary (take (n + 1) evs) of
                   Some e \<Rightarrow> (case ev_data e of TurnStart t \<Rightarrow> Inl (OpenTurn t) | _ \<Rightarrow> Inr (take (n + 1) evs))
                 | None \<Rightarrow> Inr (take (n + 1) evs)))"

datatype fork_source = SourceId string | SourceRef nat

definition resolveForkSource :: "'p store \<Rightarrow> fork_source \<Rightarrow> fork_error + nat" where
  "resolveForkSource st src =
     (case src of
        SourceId sid \<Rightarrow> (case get_session st sid of None \<Rightarrow> Inl ForkNotFound | Some ref \<Rightarrow> Inr ref)
      | SourceRef ref \<Rightarrow>
          (case get_session st (so_id (store_objs st ! ref)) of
             None \<Rightarrow> Inl ForkNotFound
           | Some live_ref \<Rightarrow> if live_ref \<noteq> ref then Inl ForkNotLive else Inr ref))"

definition fork_prepare ::
  "('p event \<Rightarrow> 'p event \<Rightarrow> bool) \<Rightarrow> int \<Rightarrow> 'p store \<Rightarrow> fork_source \<Rightarrow> rat option \<Rightarrow> string option
   \<Rightarrow> fork_error + ('p store \<times> (store_error + nat))" where
  "fork_prepare same now st src boundary child =
     rbind (guard (\<not> (case child of Some c \<Rightarrow> get_session st c \<noteq> None | None \<Rightarrow> False)) ForkExists) (\<lambda>_.
     rbind (resolveForkSource st src) (\<lambda>ref.
     rbind (forkSeed (ss_log (so_session (store_objs st ! ref))) boundary) (\<lambda>seed.
       Inr (prepare same now st child (Some seed)))))"

lemma last_boundary_snoc:
  "last_boundary (evs @ [e]) = (if turn_boundary e then Some e else last_boundary evs)"
  by (simp add: last_boundary_def)

lemma open_turn_boundary:
  "seedSession evs = Inr tr \<Longrightarrow>
   st_openTurn tr = (case last_boundary evs of
     Some e \<Rightarrow> (case ev_data e of TurnStart t \<Rightarrow> Some t | _ \<Rightarrow> None) | None \<Rightarrow> None)"
proof (induction evs arbitrary: tr rule: rev_induct)
  case Nil
  then show ?case by (auto simp: seedSession_def freshTrace_def last_boundary_def)
next
  case (snoc e evs)
  then obtain t where t: "seedSession evs = Inr t" "trace_step t e = Inr tr"
    by (auto simp: seedSession_snoc result_simps)
  from snoc.IH [OF t(1)] t(2) show ?case
    by (cases "ev_data e")
      (auto simp: last_boundary_snoc trace_step_defs result_simps Let_def split: option.splits if_splits)
qed

lemma last_boundary_Nil: "last_boundary [] = None"
  by (simp add: last_boundary_def)

lemma not_open_turn:
  "(case d of TurnStart t \<Rightarrow> Inl (OpenTurn t) | _ \<Rightarrow> Inr s) = Inr s' \<longleftrightarrow> s' = s \<and> \<not> (\<exists>t. d = TurnStart t)"
  by (cases d) auto

lemma forkSeed_prefix:
  "forkSeed evs b = Inr seed \<Longrightarrow>
   (\<exists>n. seed = take n evs) \<and>
   (case last_boundary seed of Some e \<Rightarrow> \<not> (\<exists>t. ev_data e = TurnStart t) | None \<Rightarrow> True)"
  by (auto simp: forkSeed_def last_boundary_Nil not_open_turn Let_def split: option.splits if_splits intro: exI [of _ 0])

section \<open>Properties\<close>

text \<open>
  C17. The lifecycle of every entry is well bracketed, whatever reentrant listeners do: its
  creation and its disposal are each emitted at most once, disposal only after creation, and
  exactly when an announced entry has left the store; an entry is never removed while it is
  being announced or while an append of it is being published; and a requested detach is
  never lost.
\<close>

theorem store_lifecycle:
  assumes "store_reach same st"
  shows "distinct (store_out st)
    \<and> (\<forall>xs e ys. store_out st = xs @ Disposed e # ys \<longrightarrow> Created e \<in> set xs)
    \<and> (\<forall>e < length (store_entries st). let en = store_entries st ! e in
        (Created e \<in> set (store_out st) \<longleftrightarrow> en_announced en)
        \<and> (Disposed e \<in> set (store_out st) \<longleftrightarrow> en_announced en \<and> \<not> live st e)
        \<and> (en_announcing en \<or> en_appending en \<longrightarrow> live st e)
        \<and> (\<not> en_entered en \<and> \<not> en_announcing en \<and> \<not> en_appending en \<longrightarrow> \<not> live st e))"
  using invD [OF store_reach_inv [OF assms]] by (auto simp: out_ok_def entry_ok_def Let_def)

definition sample_store :: "unit store" where
  "sample_store = fst (prepare (=) 0 emptyStore None None)"

lemma sample_store_reach: "store_reach (=) sample_store"
  unfolding sample_store_def by (intro st_prepare st_init)

definition sample_entered :: "unit store" where
  "sample_entered = (case enter sample_store 0 of Inr (st, _) \<Rightarrow> st | Inl _ \<Rightarrow> sample_store)"

lemma sample_store_eq:
  "sample_store = \<lparr>store_objs = [\<lparr>so_id = mint_id 1, so_session = emptySession\<rparr>], store_entries = [],
     store_map = [], store_attach = [], store_counter = 1, store_out = []\<rparr>"
  by (simp add: sample_store_def prepare_def emptyStore_def mint.simps newSession_def emptySession_def Let_def)

lemma sample_enter:
  "enter sample_store 0 = Inr (\<lparr>store_objs = [\<lparr>so_id = mint_id 1, so_session = emptySession\<rparr>],
     store_entries = [\<lparr>en_id = mint_id 1, en_session = 0, en_announced = False, en_announcing = False,
        en_appending = False, en_detachRequested = False, en_entered = True\<rparr>],
     store_map = [(mint_id 1, 0)], store_attach = [(0, 0)], store_counter = 1, store_out = []\<rparr>, 0)"
  by (simp add: enter_def sample_store_eq Let_def)

lemmas sample_entered_eq = sample_entered_def [unfolded sample_enter, simplified sum.case prod.case]

lemma sample_entered_reach: "store_reach (=) sample_entered"
  using st_enter [OF sample_store_reach _ sample_enter]
  by (simp add: sample_entered_eq sample_store_eq)

theorem store_lifecycle_witness:
  "length (store_entries (detach sample_entered 0)) = 1 \<and> \<not> live (detach sample_entered 0) 0
   \<and> store_out (detach sample_entered 0) = []"
proof -
  have one: "length (store_entries sample_entered) = 1"
    by (simp add: sample_entered_eq)
  have d: "store_reach (=) (detach sample_entered 0)"
    using sample_entered_reach one by (intro st_detach) simp_all
  have e: "length (store_entries (detach sample_entered 0)) = 1"
    "\<not> en_entered (store_entries (detach sample_entered 0) ! 0)"
    "\<not> en_announcing (store_entries (detach sample_entered 0) ! 0)"
    "\<not> en_appending (store_entries (detach sample_entered 0) ! 0)"
    "store_out (detach sample_entered 0) = []"
    by (simp_all add: sample_entered_eq detach_def detachEntered_def upd_def Let_def)
  then show ?thesis
    using store_lifecycle [OF d] by (simp add: Let_def)
qed

text \<open>
  Store look-ups are exact: the store maps an id to a session iff an entered entry of
  that id is live, one entry per id and per session, and every session in it is a reachable
  session with exact caches.
\<close>

theorem store_lookup:
  assumes "store_reach same st" and "get_session st sid = Some ref"
  shows "\<exists>e < length (store_entries st). live st e \<and> en_id (store_entries st ! e) = sid
    \<and> en_session (store_entries st ! e) = ref \<and> liveEntryFor st ref = Inr e
    \<and> ref \<in> set (list_sessions st) \<and> heap_ok same st"
proof -
  note maps = invD(1) [OF store_reach_inv [OF assms(1)]]
  from assms(2) obtain e where e: "map_of (store_map st) sid = Some e" "en_session (store_entries st ! e) = ref"
    by (auto simp: get_session_def)
  then have l: "e < length (store_entries st)" "en_id (store_entries st ! e) = sid"
    using maps by (auto simp: map_ok_def)
  then have "live st e" using e by (simp add: live_def)
  moreover have "map_of (store_attach st) ref = Some e"
    using maps l(1) e(2) calculation by (simp add: map_ok_def)
  moreover have "ref \<in> set (list_sessions st)"
    using map_of_SomeD [OF e(1)] e(2) by (force simp: list_sessions_def)
  ultimately show ?thesis
    using l e store_reach_heap [OF assms(1)] by (auto simp: liveEntryFor_def)
qed

theorem store_lookup_witness:
  "\<exists>e < length (store_entries sample_entered). live sample_entered e
    \<and> en_session (store_entries sample_entered ! e) = 0"
proof -
  have "get_session sample_entered (mint_id 1) = Some 0"
    by (simp add: sample_entered_eq get_session_def)
  from store_lookup [OF sample_entered_reach this] show ?thesis by blast
qed

text \<open>
  Minting terminates with a fresh id: preparing without an id never fails on a taken id,
  and the counter moves strictly forward.
\<close>

theorem prepare_mints_fresh:
  "mint_id (mint taken c) \<notin> set taken \<and> c < mint taken c
   \<and> (\<forall>m. c < m \<and> m < mint taken c \<longrightarrow> mint_id m \<in> set taken)"
proof (induction taken c rule: mint.induct)
  case (1 taken c)
  show ?case
  proof (cases "mint_id (Suc c) \<in> set taken")
    case True
    then have eq: "mint taken c = mint taken (Suc c)" by (subst mint.simps) simp
    from 1 [OF True] True show ?thesis
      unfolding eq by (metis Suc_lessD Suc_lessI)
  next
    case False
    then have "mint taken c = Suc c" by (subst mint.simps) simp
    then show ?thesis using False by auto
  qed
qed

theorem prepare_mints_fresh_witness:
  "mint_id (mint [mint_id 1, mint_id 2] 0) \<notin> set [mint_id 1, mint_id 2]"
  using prepare_mints_fresh [of "[mint_id 1, mint_id 2]" 0] by blast

text \<open>
  A fork takes a closed prefix: on a log the invariant accepts, a successful fork seed
  is a prefix of the source that the invariant accepts with no turn and no step open.
\<close>

theorem fork_closed_prefix:
  assumes "seedSession evs = Inr tr" and "forkSeed evs boundary = Inr seed"
  shows "(\<exists>n. seed = take n evs)
    \<and> (\<exists>tr'. seedSession seed = Inr tr' \<and> st_openTurn tr' = None \<and> st_openStep tr' = None)"
proof -
  obtain n where n: "seed = take n evs"
    and b: "case last_boundary seed of Some e \<Rightarrow> \<not> (\<exists>t. ev_data e = TurnStart t) | None \<Rightarrow> True"
    using forkSeed_prefix [OF assms(2)] by blast
  have "seedSession (seed @ drop n evs) = Inr tr" using assms(1) n by simp
  then obtain tr' where tr': "seedSession seed = Inr tr'"
    unfolding seedSession_append rbind_eq_Inr by blast
  then have "st_openTurn tr' = None"
    using open_turn_boundary [OF tr'] b by (auto split: option.splits event_data.splits)
  moreover from this have "st_openStep tr' = None"
    using seedSession_wf [OF tr'] by (auto simp: trace_wf_def)
  ultimately show ?thesis using n tr' by blast
qed

definition closed_turn :: "unit event list" where
  "closed_turn = [plain_event 0 (TurnStart 1), plain_event 1 (TurnEnd 1 Completed), plain_event 2 (TurnStart 2)]"

theorem fork_closed_prefix_witness:
  "\<exists>tr'. seedSession (take 2 closed_turn) = Inr tr' \<and> st_openTurn tr' = None"
proof -
  have "seedSession closed_turn = Inr \<lparr>st_lastSeq = 2, st_openTurn = Some 2, st_openStep = None,
      st_nextTurn = 2, st_nextStep = 1, st_pending = {}\<rparr>"
    by (simp add: seedSession_def closed_turn_def plain_event_def freshTrace_def trace_step_defs Let_def)
  moreover have "forkSeed closed_turn (Some 1) = Inr (take 2 closed_turn)"
    using is_safe_integer_of_int [of 1]
    by (simp add: forkSeed_def closed_turn_def plain_event_def last_boundary_def safe_int_def max_safe_def
        numeral_2_eq_2 Let_def)
  ultimately show ?thesis using fork_closed_prefix by blast
qed

end
