(* ===== verification/ChunkRows.thy ===== *)
theory ChunkRows imports Json begin

text \<open>
  packages/core/session/src/chunk-rows.ts: the storage encoding that packs a run of
  consecutive delta chunks into one row, and its decoder. Both work on parsed JSON lines, so
  the model does too. Arithmetic on sequence numbers and times is the arithmetic of doubles
  (\<open>fl\<close>).
\<close>

section \<open>The encoder\<close>

datatype delta_kind = TextDelta | ReasoningDelta | ToolCallDelta

definition MIN_RUN :: nat where
  "MIN_RUN = 3"

fun isRecord :: "json option \<Rightarrow> bool" where
  "isRecord (Some (JObj _)) = True"
| "isRecord (Some (JArr _)) = True"
| "isRecord _ = False"

definition prop_of :: "string \<Rightarrow> json option \<Rightarrow> json option" where
  "prop_of k v = Option.bind v (get_prop k)"

definition exact :: "json option \<Rightarrow> string list \<Rightarrow> bool" where
  "exact v ks = (case v of Some x \<Rightarrow> has_exact_keys x ks | None \<Rightarrow> False)"

definition owns :: "json option \<Rightarrow> string \<Rightarrow> bool" where
  "owns v k = (case v of Some x \<Rightarrow> has_own x k | None \<Rightarrow> False)"

definition chunk_of :: "json \<Rightarrow> json option" where
  "chunk_of e = prop_of ''chunk'' (get_prop ''data'' e)"

definition classify :: "json \<Rightarrow> delta_kind option" where
  "classify e =
     (let seq = get_prop ''seq'' e; time = get_prop ''time'' e;
          data = get_prop ''data'' e; chunk = chunk_of e
      in if get_prop ''type'' e \<noteq> Some (JStr ''assistant/chunk'') then None
         else if \<not> has_exact_keys e [''type'', ''seq'', ''time'', ''data''] then None
         else if \<not> isSafeInteger seq \<or> int_of seq < 0 \<or> \<not> isSafeInteger time then None
         else if \<not> isRecord data \<or> \<not> exact data [''turn'', ''step'', ''chunk''] then None
         else if \<not> is_number (prop_of ''turn'' data) \<or> \<not> is_number (prop_of ''step'' data) then None
         else if \<not> isRecord chunk \<or> \<not> is_number (prop_of ''index'' chunk) then None
         else if prop_of ''type'' chunk = Some (JStr ''text-delta'')
                 \<or> prop_of ''type'' chunk = Some (JStr ''reasoning-delta'') then
           (if exact chunk [''type'', ''index'', ''text''] \<and> is_string (prop_of ''text'' chunk)
            then Some (if prop_of ''type'' chunk = Some (JStr ''text-delta'') then TextDelta
                       else ReasoningDelta)
            else None)
         else if prop_of ''type'' chunk = Some (JStr ''tool-call-delta'') then
           (if (exact chunk [''type'', ''index'', ''id'', ''argumentsDelta'']
                \<or> exact chunk [''type'', ''index'', ''id'', ''name'', ''argumentsDelta'']
                  \<and> is_string (prop_of ''name'' chunk))
               \<and> is_string (prop_of ''id'' chunk) \<and> is_string (prop_of ''argumentsDelta'' chunk)
            then Some ToolCallDelta else None)
         else None)"

definition continues :: "json \<Rightarrow> json \<Rightarrow> delta_kind \<Rightarrow> bool" where
  "continues prev next kind =
     (let pd = get_prop ''data'' prev; nd = get_prop ''data'' next;
          a = chunk_of prev; b = chunk_of next
      in if int_of (get_prop ''seq'' next) \<noteq> fl (int_of (get_prop ''seq'' prev) + 1) then False
         else if \<not> safe_int (fl (int_of (get_prop ''time'' next) - int_of (get_prop ''time'' prev))) then False
         else if prop_of ''turn'' nd \<noteq> prop_of ''turn'' pd \<or> prop_of ''step'' nd \<noteq> prop_of ''step'' pd then False
         else if prop_of ''index'' b \<noteq> prop_of ''index'' a then False
         else if kind \<noteq> ToolCallDelta then True
         else prop_of ''id'' a = prop_of ''id'' b
              \<and> owns a ''name'' = owns b ''name'' \<and> prop_of ''name'' a = prop_of ''name'' b)"

definition row_tag :: "delta_kind \<Rightarrow> string" where
  "row_tag k = (case k of TextDelta \<Rightarrow> ''text-chunks'' | ReasoningDelta \<Rightarrow> ''reasoning-chunks''
     | ToolCallDelta \<Rightarrow> ''tool-call-chunks'')"

definition gaps :: "json list \<Rightarrow> int list" where
  "gaps run = map (\<lambda>i. fl (int_of (get_prop ''time'' (run ! Suc i)) - int_of (get_prop ''time'' (run ! i))))
     [0..<length run - 1]"

definition buildRow :: "delta_kind \<Rightarrow> json list \<Rightarrow> json" where
  "buildRow kind run =
     (let first = run ! 0; fd = get_prop ''data'' first; fc = chunk_of first;
          base = [(''turn'', the (prop_of ''turn'' fd)), (''step'', the (prop_of ''step'' fd)),
                  (''index'', the (prop_of ''index'' fc)), (''dt'', JArr (map JInt (gaps run)))];
          data = (if kind = ToolCallDelta then
              base @ [(''id'', the (prop_of ''id'' fc))]
              @ (if owns fc ''name'' then [(''name'', the (prop_of ''name'' fc))] else [])
              @ [(''args'', JArr (map (\<lambda>e. the (prop_of ''argumentsDelta'' (chunk_of e))) run))]
            else base @ [(''texts'', JArr (map (\<lambda>e. the (prop_of ''text'' (chunk_of e))) run))])
      in JObj [(''type'', JStr (row_tag kind)), (''seq0'', the (get_prop ''seq'' first)),
               (''time0'', the (get_prop ''time'' first)), (''data'', JObj data)])"

text \<open>The packing loop: records written, kind and members of the open run.\<close>

type_synonym pack_state = "json list \<times> delta_kind option \<times> json list"

fun flush :: "pack_state \<Rightarrow> pack_state" where
  "flush (out, kind, run) =
     (out @ (case kind of
        Some k \<Rightarrow> if MIN_RUN \<le> length run then [buildRow k run] else run
      | None \<Rightarrow> run), None, [])"

fun pack_event :: "pack_state \<Rightarrow> json \<Rightarrow> pack_state" where
  "pack_event (out, kind, run) e =
     (case classify e of
        None \<Rightarrow> (let (out', k', r') = flush (out, kind, run) in (out' @ [e], k', r'))
      | Some k \<Rightarrow>
          if Some k = kind \<and> run \<noteq> [] \<and> continues (last run) e k then (out, kind, run @ [e])
          else (let (out', _, _) = flush (out, kind, run) in (out', Some k, [e])))"

definition packChunkRuns :: "json list \<Rightarrow> json list" where
  "packChunkRuns evs = fst (flush (foldl pack_event ([], None, []) evs))"

section \<open>The decoder\<close>

datatype row_error =
    RowEnvelope | RowSeq0 | RowTime0 | RowDataObject | RowDataKeys | RowIdStrings
  | RowNumbers | RowPayload | RowDt | RowDtLength | RowSeqRange | RowTimeRange

definition validateRunData :: "json \<Rightarrow> string \<Rightarrow> row_error + json list" where
  "validateRunData data payloadKey =
     rbind (guard (is_number (get_prop ''turn'' data) \<and> is_number (get_prop ''step'' data)
                   \<and> is_number (get_prop ''index'' data)) RowNumbers) (\<lambda>_.
     case get_prop payloadKey data of
       Some (JArr payload) \<Rightarrow>
         if payload = [] \<or> list_ex (\<lambda>p. \<not> is_string (Some p)) payload then Inl RowPayload
         else (case get_prop ''dt'' data of
             Some (JArr dt) \<Rightarrow>
               if list_ex (\<lambda>g. \<not> isSafeInteger (Some g)) dt then Inl RowDt
               else if length dt \<noteq> length payload - 1 then Inl RowDtLength
               else Inr payload
           | _ \<Rightarrow> Inl RowDt)
     | _ \<Rightarrow> Inl RowPayload)"

fun times_safe :: "int \<Rightarrow> json list \<Rightarrow> bool" where
  "times_safe time [] = True"
| "times_safe time (g # gs) =
     (safe_int (fl (time + int_of (Some g))) \<and> times_safe (fl (time + int_of (Some g))) gs)"

fun arr_of :: "json option \<Rightarrow> json list" where
  "arr_of (Some (JArr xs)) = xs"
| "arr_of _ = []"

definition validateRow :: "json \<Rightarrow> delta_kind \<Rightarrow> row_error + json list" where
  "validateRow value kind =
     rbind (guard (has_exact_keys value [''type'', ''seq0'', ''time0'', ''data'']) RowEnvelope) (\<lambda>_.
     rbind (guard (isSafeInteger (get_prop ''seq0'' value) \<and> 0 \<le> int_of (get_prop ''seq0'' value)) RowSeq0) (\<lambda>_.
     rbind (guard (isSafeInteger (get_prop ''time0'' value)) RowTime0) (\<lambda>_.
     rbind (guard (isRecord (get_prop ''data'' value)) RowDataObject) (\<lambda>_.
     let data = the (get_prop ''data'' value);
         withName = has_exact_keys data [''turn'', ''step'', ''index'', ''id'', ''name'', ''dt'', ''args'']
     in rbind
       (if kind = ToolCallDelta then
          rbind (guard (withName \<or> has_exact_keys data [''turn'', ''step'', ''index'', ''id'', ''dt'', ''args'']) RowDataKeys) (\<lambda>_.
          rbind (guard (is_string (get_prop ''id'' data) \<and> (withName \<longrightarrow> is_string (get_prop ''name'' data))) RowIdStrings) (\<lambda>_.
          validateRunData data ''args''))
        else
          rbind (guard (has_exact_keys data [''turn'', ''step'', ''index'', ''dt'', ''texts'']) RowDataKeys) (\<lambda>_.
          validateRunData data ''texts'')) (\<lambda>payload.
     rbind (guard (safe_int (fl (fl (int_of (get_prop ''seq0'' value) + int (length payload)) - 1))) RowSeqRange) (\<lambda>_.
     rbind (guard (times_safe (int_of (get_prop ''time0'' value)) (arr_of (get_prop ''dt'' data))) RowTimeRange) (\<lambda>_.
     Inr payload)))))))"

definition member_event :: "json \<Rightarrow> delta_kind \<Rightarrow> nat \<Rightarrow> int \<Rightarrow> json \<Rightarrow> json" where
  "member_event row kind k time payload =
     (let data = the (get_prop ''data'' row);
          index = the (get_prop ''index'' data);
          chunk = (case kind of
             TextDelta \<Rightarrow> [(''type'', JStr ''text-delta''), (''index'', index), (''text'', payload)]
           | ReasoningDelta \<Rightarrow> [(''type'', JStr ''reasoning-delta''), (''index'', index), (''text'', payload)]
           | ToolCallDelta \<Rightarrow>
               [(''type'', JStr ''tool-call-delta''), (''index'', index), (''id'', the (get_prop ''id'' data))]
               @ (if has_own data ''name'' then [(''name'', the (get_prop ''name'' data))] else [])
               @ [(''argumentsDelta'', payload)])
      in JObj [(''type'', JStr ''assistant/chunk''),
               (''seq'', JInt (fl (int_of (get_prop ''seq0'' row) + int k))),
               (''time'', JInt time),
               (''data'', JObj [(''turn'', the (get_prop ''turn'' data)),
                                (''step'', the (get_prop ''step'' data)), (''chunk'', JObj chunk)])])"

fun expand_members :: "json \<Rightarrow> delta_kind \<Rightarrow> nat \<Rightarrow> int \<Rightarrow> json list \<Rightarrow> json list" where
  "expand_members row kind k time [] = []"
| "expand_members row kind k time (m # ms) =
     (let dt = arr_of (prop_of ''dt'' (get_prop ''data'' row));
          time' = (if 0 < k then fl (time + int_of (Some (dt ! (k - 1)))) else time)
      in member_event row kind k time' m # expand_members row kind (Suc k) time' ms)"

definition expandRow :: "json \<Rightarrow> delta_kind \<Rightarrow> json list" where
  "expandRow row kind =
     expand_members row kind 0 (int_of (get_prop ''time0'' row))
       (arr_of (prop_of (if kind = ToolCallDelta then ''args'' else ''texts'') (get_prop ''data'' row)))"

definition row_kind :: "json \<Rightarrow> delta_kind option" where
  "row_kind value =
     (if get_prop ''type'' value = Some (JStr ''text-chunks'') then Some TextDelta
      else if get_prop ''type'' value = Some (JStr ''reasoning-chunks'') then Some ReasoningDelta
      else if get_prop ''type'' value = Some (JStr ''tool-call-chunks'') then Some ToolCallDelta
      else None)"

definition decodeStorageRecord :: "json \<Rightarrow> row_error + json list" where
  "decodeStorageRecord value =
     (if \<not> isRecord (Some value) then Inr [value]
      else (case row_kind value of
              None \<Rightarrow> Inr [value]
            | Some kind \<Rightarrow> rbind (validateRow value kind) (\<lambda>_. Inr (expandRow value kind))))"

text \<open>A stored log: one record per line, decoded in order.\<close>

fun decode_lines :: "json list \<Rightarrow> row_error + json list" where
  "decode_lines [] = Inr []"
| "decode_lines (r # rs) =
     rbind (decodeStorageRecord r) (\<lambda>es. rbind (decode_lines rs) (\<lambda>rest. Inr (es @ rest)))"


section \<open>Whitelisted events\<close>

text \<open>
  What \<open>classify\<close> establishes of an event: the fields of a delta chunk, and that the event
  holds nothing else.
\<close>

definition payload_key :: "delta_kind \<Rightarrow> string" where
  "payload_key k = (if k = ToolCallDelta then ''argumentsDelta'' else ''text'')"

definition chunk_obj :: "delta_kind \<Rightarrow> json \<Rightarrow> json option \<times> json option \<Rightarrow> json \<Rightarrow> (string \<times> json) list" where
  "chunk_obj k idx call p =
     (case k of
        TextDelta \<Rightarrow> [(''type'', JStr ''text-delta''), (''index'', idx), (''text'', p)]
      | ReasoningDelta \<Rightarrow> [(''type'', JStr ''reasoning-delta''), (''index'', idx), (''text'', p)]
      | ToolCallDelta \<Rightarrow>
          [(''type'', JStr ''tool-call-delta''), (''index'', idx), (''id'', the (fst call))]
          @ (case snd call of Some n \<Rightarrow> [(''name'', n)] | None \<Rightarrow> [])
          @ [(''argumentsDelta'', p)])"

definition delta_obj ::
  "delta_kind \<Rightarrow> json \<Rightarrow> json \<Rightarrow> json \<Rightarrow> json option \<times> json option \<Rightarrow> int \<Rightarrow> int \<Rightarrow> json \<Rightarrow> json" where
  "delta_obj k turn step idx call s t p =
     JObj [(''type'', JStr ''assistant/chunk''), (''seq'', JInt s), (''time'', JInt t),
           (''data'', JObj [(''turn'', turn), (''step'', step), (''chunk'', JObj (chunk_obj k idx call p))])]"

definition call_of :: "delta_kind \<Rightarrow> json \<Rightarrow> json option \<times> json option" where
  "call_of k e = (if k = ToolCallDelta then (prop_of ''id'' (chunk_of e), prop_of ''name'' (chunk_of e))
     else (None, None))"

record delta_view =
  dv_turn :: json
  dv_step :: json
  dv_index :: json
  dv_call :: "json option \<times> json option"
  dv_seq :: int
  dv_time :: int
  dv_payload :: json

definition delta_ok :: "delta_kind \<Rightarrow> json \<Rightarrow> delta_view \<Rightarrow> bool" where
  "delta_ok k e v \<longleftrightarrow>
     get_prop ''seq'' e = Some (JInt (dv_seq v)) \<and> safe_int (dv_seq v) \<and> 0 \<le> dv_seq v
     \<and> get_prop ''time'' e = Some (JInt (dv_time v)) \<and> safe_int (dv_time v)
     \<and> prop_of ''turn'' (get_prop ''data'' e) = Some (dv_turn v) \<and> is_number (Some (dv_turn v))
     \<and> prop_of ''step'' (get_prop ''data'' e) = Some (dv_step v) \<and> is_number (Some (dv_step v))
     \<and> prop_of ''index'' (chunk_of e) = Some (dv_index v) \<and> is_number (Some (dv_index v))
     \<and> prop_of (payload_key k) (chunk_of e) = Some (dv_payload v) \<and> is_string (Some (dv_payload v))
     \<and> call_of k e = dv_call v
     \<and> (k = ToolCallDelta \<longrightarrow> is_string (fst (dv_call v))
          \<and> (snd (dv_call v) \<noteq> None \<longrightarrow> is_string (snd (dv_call v)))
          \<and> (owns (chunk_of e) ''name'' \<longleftrightarrow> snd (dv_call v) \<noteq> None))
     \<and> isDeepEqualJson e
         (delta_obj k (dv_turn v) (dv_step v) (dv_index v) (dv_call v) (dv_seq v) (dv_time v) (dv_payload v))"

lemma deep_equal_exact:
  assumes "wf_json v" and "has_exact_keys v ks" and "map fst b = ks" and "distinct ks" and "ks \<noteq> []"
    and "list_all (\<lambda>(k, w). \<exists>u. get_prop k v = Some u \<and> isDeepEqualJson u w) b"
  shows "isDeepEqualJson v (JObj b)"
proof -
  from assms(1,2,4,5) have keys: "set (object_keys v) = set ks" and rec: "is_record v"
    using has_exact_keys_iff by auto
  then obtain a where v: "v = JObj a" by (cases v) auto
  show ?thesis
    unfolding v
  proof (rule deep_equal_objI)
    show "length a = length b"
      using assms(2,3) v by (auto simp: has_exact_keys_def)
    fix k u
    assume ku: "(k, u) \<in> set a"
    then have "k \<in> set ks" using keys v by force
    then obtain w where kw: "(k, w) \<in> set b" using assms(3) by fastforce
    have "map_of a k = Some u" using assms(1) v ku by simp
    moreover have "map_of b k = Some w" using kw assms(3,4) by simp
    ultimately show "\<exists>w. map_of b k = Some w \<and> isDeepEqualJson u w"
      using assms(6) kw v by (fastforce simp: list_all_iff)
  qed
qed

lemma is_stringE:
  assumes "is_string v"
  obtains s where "v = Some (JStr s)"
  using assms by (cases v rule: is_string.cases) auto

lemma is_numberE:
  assumes "is_number v"
  obtains r where "v = Some (JNum r)"
  using assms by (cases v rule: is_number.cases) auto

lemma prop_of_Some [simp]: "prop_of k (Some v) = get_prop k v"
  by (simp add: prop_of_def)

lemma exact_Some [simp]: "exact (Some v) ks = has_exact_keys v ks"
  by (simp add: exact_def)

lemma prop_of_SomeE:
  assumes "prop_of k v = Some w"
  obtains u where "v = Some u" and "get_prop k u = Some w"
  using assms by (auto simp: prop_of_def bind_eq_Some_conv)

lemma deep_JStr [simp]: "isDeepEqualJson (JStr a) b = (JStr a = b)"
  and deep_JNum [simp]: "isDeepEqualJson (JNum r) b = (JNum r = b)"
  by (cases b; simp)+

lemma deep_JInt [simp]: "isDeepEqualJson (JInt n) b = (JInt n = b)"
  by (simp add: JInt_def)

text \<open>The chunk of a whitelisted event, by kind.\<close>

definition chunk_ok :: "delta_kind \<Rightarrow> json \<Rightarrow> bool" where
  "chunk_ok k c \<longleftrightarrow> is_number (get_prop ''index'' c) \<and>
     (case k of
        TextDelta \<Rightarrow> get_prop ''type'' c = Some (JStr ''text-delta'')
          \<and> has_exact_keys c [''type'', ''index'', ''text''] \<and> is_string (get_prop ''text'' c)
      | ReasoningDelta \<Rightarrow> get_prop ''type'' c = Some (JStr ''reasoning-delta'')
          \<and> has_exact_keys c [''type'', ''index'', ''text''] \<and> is_string (get_prop ''text'' c)
      | ToolCallDelta \<Rightarrow> get_prop ''type'' c = Some (JStr ''tool-call-delta'')
          \<and> (has_exact_keys c [''type'', ''index'', ''id'', ''argumentsDelta'']
             \<or> has_exact_keys c [''type'', ''index'', ''id'', ''name'', ''argumentsDelta'']
               \<and> is_string (get_prop ''name'' c))
          \<and> is_string (get_prop ''id'' c) \<and> is_string (get_prop ''argumentsDelta'' c))"

lemma classifyD:
  assumes "classify e = Some k"
  obtains data c where "get_prop ''type'' e = Some (JStr ''assistant/chunk'')"
    and "has_exact_keys e [''type'', ''seq'', ''time'', ''data'']"
    and "isSafeInteger (get_prop ''seq'' e)" and "0 \<le> int_of (get_prop ''seq'' e)"
    and "isSafeInteger (get_prop ''time'' e)"
    and "get_prop ''data'' e = Some data" and "has_exact_keys data [''turn'', ''step'', ''chunk'']"
    and "is_number (get_prop ''turn'' data)" and "is_number (get_prop ''step'' data)"
    and "get_prop ''chunk'' data = Some c" and "chunk_of e = Some c" and "chunk_ok k c"
proof -
  from assms obtain data where d: "get_prop ''data'' e = Some data"
    by (cases "get_prop ''data'' e") (simp_all add: classify_def Let_def split: if_splits)
  from assms d obtain c where c: "get_prop ''chunk'' data = Some c"
    by (cases "get_prop ''chunk'' data") (simp_all add: classify_def Let_def chunk_of_def split: if_splits)
  then have co: "chunk_of e = Some c" using d by (simp add: chunk_of_def)
  have "chunk_ok k c"
    using assms d c co by (auto simp: classify_def Let_def chunk_ok_def split: if_splits)
  with assms d c co show ?thesis
    by (intro that) (simp_all add: classify_def Let_def split: if_splits)
qed

lemma chunk_ok_values:
  assumes "chunk_ok k c"
  obtains i p where "get_prop ''index'' c = Some (JNum i)" and "get_prop (payload_key k) c = Some (JStr p)"
proof -
  have "is_number (get_prop ''index'' c)" and "is_string (get_prop (payload_key k) c)"
    using assms by (cases k; simp add: chunk_ok_def payload_key_def)+
  then show ?thesis using that by (metis is_numberE is_stringE)
qed

lemma chunk_ok_name:
  assumes "wf_json c" and "chunk_ok ToolCallDelta c"
  shows "has_exact_keys c
      (case get_prop ''name'' c of None \<Rightarrow> [''type'', ''index'', ''id'', ''argumentsDelta'']
       | Some n \<Rightarrow> [''type'', ''index'', ''id'', ''name'', ''argumentsDelta''])"
    and "get_prop ''name'' c \<noteq> None \<Longrightarrow> is_string (get_prop ''name'' c)"
proof -
  let ?four = "[''type'', ''index'', ''id'', ''argumentsDelta'']"
  have no: "get_prop ''name'' c = None" if "has_exact_keys c ?four"
  proof -
    have "set (object_keys c) = set ?four"
      using has_exact_keys_iff [OF assms(1), of ?four] that by simp
    moreover have "''name'' \<notin> set ?four" by simp
    ultimately have "\<not> has_own c ''name''" by (metis mem_Collect_eq set_object_keys)
    then show ?thesis by (metis has_own_iff)
  qed
  show "has_exact_keys c
      (case get_prop ''name'' c of None \<Rightarrow> ?four
       | Some n \<Rightarrow> [''type'', ''index'', ''id'', ''name'', ''argumentsDelta''])"
    using assms(2) no by (cases "get_prop ''name'' c") (auto simp: chunk_ok_def)
  show "get_prop ''name'' c \<noteq> None \<Longrightarrow> is_string (get_prop ''name'' c)"
    using assms(2) no by (auto simp: chunk_ok_def)
qed

lemma chunk_deep_equal:
  assumes "wf_json c" and "chunk_ok k c" and "get_prop ''index'' c = Some (JNum i)"
    and "get_prop (payload_key k) c = Some (JStr p)"
    and "k = ToolCallDelta \<Longrightarrow> call = (get_prop ''id'' c, get_prop ''name'' c)"
  shows "isDeepEqualJson c (JObj (chunk_obj k (JNum i) call (JStr p)))"
proof (cases k)
  case TextDelta
  then have "get_prop ''type'' c = Some (JStr ''text-delta'')" "get_prop ''text'' c = Some (JStr p)"
    "has_exact_keys c [''type'', ''index'', ''text'']"
    using assms by (simp_all add: chunk_ok_def payload_key_def)
  with TextDelta assms(1,3) show ?thesis
    by (intro deep_equal_exact [where ks = "[''type'', ''index'', ''text'']"]) (simp_all add: chunk_obj_def)
next
  case ReasoningDelta
  then have "get_prop ''type'' c = Some (JStr ''reasoning-delta'')" "get_prop ''text'' c = Some (JStr p)"
    "has_exact_keys c [''type'', ''index'', ''text'']"
    using assms by (simp_all add: chunk_ok_def payload_key_def)
  with ReasoningDelta assms(1,3) show ?thesis
    by (intro deep_equal_exact [where ks = "[''type'', ''index'', ''text'']"]) (simp_all add: chunk_obj_def)
next
  case ToolCallDelta
  then have "is_string (get_prop ''id'' c)" using assms(2) by (simp add: chunk_ok_def)
  then obtain id' where id': "get_prop ''id'' c = Some (JStr id')" by (rule is_stringE)
  have f: "get_prop ''type'' c = Some (JStr ''tool-call-delta'')"
    "get_prop ''argumentsDelta'' c = Some (JStr p)"
    using assms(2,4) ToolCallDelta by (simp_all add: chunk_ok_def payload_key_def)
  note keys = chunk_ok_name [OF assms(1) assms(2) [unfolded ToolCallDelta]]
  show ?thesis
  proof (cases "get_prop ''name'' c")
    case None
    with keys(1) f id' assms(1,3,5) ToolCallDelta show ?thesis
      by (intro deep_equal_exact [where ks = "[''type'', ''index'', ''id'', ''argumentsDelta'']"])
        (simp_all add: chunk_obj_def)
  next
    case (Some n)
    then have "is_string (get_prop ''name'' c)" using keys(2) by simp
    then obtain n' where n': "get_prop ''name'' c = Some (JStr n')" by (rule is_stringE)
    with keys(1) f id' assms(1,3,5) ToolCallDelta show ?thesis
      by (intro deep_equal_exact [where ks = "[''type'', ''index'', ''id'', ''name'', ''argumentsDelta'']"])
        (simp_all add: chunk_obj_def)
  qed
qed

lemma classify_delta:
  assumes "wf_json e" and "classify e = Some k"
  shows "\<exists>v. delta_ok k e v"
proof -
  from classifyD [OF assms(2)] obtain data c where f:
    "get_prop ''type'' e = Some (JStr ''assistant/chunk'')"
    "has_exact_keys e [''type'', ''seq'', ''time'', ''data'']"
    "isSafeInteger (get_prop ''seq'' e)" "0 \<le> int_of (get_prop ''seq'' e)"
    "isSafeInteger (get_prop ''time'' e)"
    "get_prop ''data'' e = Some data" "has_exact_keys data [''turn'', ''step'', ''chunk'']"
    "is_number (get_prop ''turn'' data)" "is_number (get_prop ''step'' data)"
    "get_prop ''chunk'' data = Some c" "chunk_of e = Some c" "chunk_ok k c" .
  have wf: "wf_json data" "wf_json c"
    using assms(1) f(6,10) get_prop_wf by blast+
  obtain s where s: "get_prop ''seq'' e = Some (JInt s)" "safe_int s" "0 \<le> s"
    using f(3,4) by (metis int_of_JInt isSafeIntegerE)
  obtain t where t: "get_prop ''time'' e = Some (JInt t)" "safe_int t"
    using f(5) by (metis isSafeIntegerE)
  obtain turn step where n: "get_prop ''turn'' data = Some (JNum turn)" "get_prop ''step'' data = Some (JNum step)"
    using f(8,9) by (metis is_numberE)
  obtain idx p where p: "get_prop ''index'' c = Some (JNum idx)" "get_prop (payload_key k) c = Some (JStr p)"
    using chunk_ok_values [OF f(12)] .
  let ?call = "call_of k e"
  have c: "isDeepEqualJson c (JObj (chunk_obj k (JNum idx) ?call (JStr p)))"
    using chunk_deep_equal [OF wf(2) f(12) p, of ?call] f(11) by (simp add: call_of_def)
  have d: "isDeepEqualJson data (JObj [(''turn'', JNum turn), (''step'', JNum step),
      (''chunk'', JObj (chunk_obj k (JNum idx) ?call (JStr p)))])"
    using wf(1) f(7,10) n c by (intro deep_equal_exact [where ks = "[''turn'', ''step'', ''chunk'']"]) simp_all
  have "isDeepEqualJson e (delta_obj k (JNum turn) (JNum step) (JNum idx) ?call s t (JStr p))"
    unfolding delta_obj_def
    using assms(1) f(1,2,6) s t d
    by (intro deep_equal_exact [where ks = "[''type'', ''seq'', ''time'', ''data'']"]) simp_all
  moreover have "is_string (fst ?call) \<and> (snd ?call \<noteq> None \<longrightarrow> is_string (snd ?call))
      \<and> (owns (chunk_of e) ''name'' \<longleftrightarrow> snd ?call \<noteq> None)" if "k = ToolCallDelta"
    using that f(11,12) chunk_ok_name(2) [OF wf(2)]
    by (simp add: call_of_def owns_def has_own_iff chunk_ok_def)
  ultimately show ?thesis
    using s t n p f(6,11)
    by (intro exI [of _ "\<lparr>dv_turn = JNum turn, dv_step = JNum step, dv_index = JNum idx,
      dv_call = ?call, dv_seq = s, dv_time = t, dv_payload = JStr p\<rparr>"]) (simp add: delta_ok_def)
qed

section \<open>Runs\<close>

definition same_block :: "delta_view \<Rightarrow> delta_view \<Rightarrow> bool" where
  "same_block v w \<longleftrightarrow> dv_turn v = dv_turn w \<and> dv_step v = dv_step w \<and> dv_index v = dv_index w
     \<and> dv_call v = dv_call w"

definition run_views :: "delta_kind \<Rightarrow> json list \<Rightarrow> delta_view list \<Rightarrow> bool" where
  "run_views k run vs \<longleftrightarrow> vs \<noteq> [] \<and> list_all2 (delta_ok k) run vs
     \<and> (\<forall>i < length vs. same_block (vs ! i) (vs ! 0) \<and> dv_seq (vs ! i) = dv_seq (vs ! 0) + int i)
     \<and> (\<forall>i. Suc i < length vs \<longrightarrow> safe_int (dv_time (vs ! Suc i) - dv_time (vs ! i)))"

lemma continues_delta:
  assumes "delta_ok k a v" and "delta_ok k b w" and "continues a b k"
  shows "same_block w v \<and> dv_seq w = dv_seq v + 1 \<and> safe_int (dv_time w - dv_time v)"
proof -
  from assms(3) have c: "int_of (get_prop ''seq'' b) = fl (int_of (get_prop ''seq'' a) + 1)"
    "safe_int (fl (int_of (get_prop ''time'' b) - int_of (get_prop ''time'' a)))"
    "prop_of ''turn'' (get_prop ''data'' b) = prop_of ''turn'' (get_prop ''data'' a)"
    "prop_of ''step'' (get_prop ''data'' b) = prop_of ''step'' (get_prop ''data'' a)"
    "prop_of ''index'' (chunk_of b) = prop_of ''index'' (chunk_of a)"
    "k = ToolCallDelta \<Longrightarrow> prop_of ''id'' (chunk_of a) = prop_of ''id'' (chunk_of b)"
    "k = ToolCallDelta \<Longrightarrow> prop_of ''name'' (chunk_of a) = prop_of ''name'' (chunk_of b)"
    by (simp_all add: continues_def Let_def split: if_splits)
  have "call_of k a = call_of k b" using c(6,7) by (simp add: call_of_def)
  moreover have "fl (dv_seq v + 1) = dv_seq v + 1"
  proof -
    have "fl (dv_seq v + 1) = dv_seq w" using c(1) assms(1,2) by (simp add: delta_ok_def)
    then have "safe_int (fl (dv_seq v + 1))" using assms(2) by (simp add: delta_ok_def)
    then show ?thesis by (simp add: safe_fl_iff safe_fl_eq)
  qed
  moreover have "safe_int (dv_time w - dv_time v)"
    using c(2) assms(1,2) by (simp add: delta_ok_def safe_fl_iff)
  ultimately show ?thesis
    using assms(1,2) c by (simp add: delta_ok_def same_block_def)
qed

lemma run_views_single: "delta_ok k e v \<Longrightarrow> run_views k [e] [v]"
  by (simp add: run_views_def same_block_def)

lemma run_views_length: "run_views k run vs \<Longrightarrow> length run = length vs"
  unfolding run_views_def by (elim conjE) (rule list_all2_lengthD)

lemma run_views_nth:
  assumes "run_views k run vs" and "i < length vs"
  shows "delta_ok k (run ! i) (vs ! i)" and "same_block (vs ! i) (vs ! 0)"
    and "dv_seq (vs ! i) = dv_seq (vs ! 0) + int i" and "length run = length vs"
proof -
  show "delta_ok k (run ! i) (vs ! i)"
    using assms run_views_length [OF assms(1)] unfolding run_views_def
    by (metis list_all2_nthD2)
  show "same_block (vs ! i) (vs ! 0)" and "dv_seq (vs ! i) = dv_seq (vs ! 0) + int i"
    using assms unfolding run_views_def by blast+
  show "length run = length vs" using assms(1) by (rule run_views_length)
qed

lemma run_views_snoc:
  assumes "run_views k run vs" and "delta_ok k e w" and "continues (last run) e k"
  shows "run_views k (run @ [e]) (vs @ [w])"
proof -
  from assms(1) have ne: "vs \<noteq> []" "run \<noteq> []" and all: "list_all2 (delta_ok k) run vs"
    by (auto simp: run_views_def)
  then have len: "length run = length vs" by (simp add: list_all2_lengthD)
  have lst: "last run = run ! (length vs - 1)" "last vs = vs ! (length vs - 1)"
    using ne len by (simp_all add: last_conv_nth)
  have "delta_ok k (last run) (last vs)"
    using all ne len lst by (simp add: list_all2_conv_all_nth)
  from continues_delta [OF this assms(2,3)]
  have c: "same_block w (last vs)" "dv_seq w = dv_seq (last vs) + 1" "safe_int (dv_time w - dv_time (last vs))"
    by auto
  have pos: "length vs - 1 < length vs" using ne by simp
  have l: "same_block (last vs) (vs ! 0)" "dv_seq (last vs) = dv_seq (vs ! 0) + int (length vs - 1)"
    unfolding lst(2) using run_views_nth(2,3) [OF assms(1) pos] by simp_all
  have "same_block w (vs ! 0)" using c(1) l(1) by (simp add: same_block_def)
  moreover have "dv_seq w = dv_seq (vs ! 0) + int (length vs)"
    using c(2) l(2) pos by simp
  moreover have "safe_int (dv_time ((vs @ [w]) ! Suc i) - dv_time ((vs @ [w]) ! i))"
    if "Suc i < length (vs @ [w])" for i
  proof (cases "Suc i < length vs")
    case True
    moreover have "safe_int (dv_time (vs ! Suc i) - dv_time (vs ! i))"
      using assms(1) True unfolding run_views_def by blast
    ultimately show ?thesis by (simp add: nth_append)
  next
    case False
    then have "i = length vs - 1" using that by simp
    with False that c(3) lst(2) show ?thesis by (simp add: nth_append)
  qed
  moreover have "list_all2 (delta_ok k) (run @ [e]) (vs @ [w])"
    using all assms(2) by (simp add: list_all2_appendI)
  moreover have "same_block ((vs @ [w]) ! i) ((vs @ [w]) ! 0)
      \<and> dv_seq ((vs @ [w]) ! i) = dv_seq ((vs @ [w]) ! 0) + int i" if "i < length (vs @ [w])" for i
  proof (cases "i < length vs")
    case True
    with run_views_nth(2,3) [OF assms(1) True] ne(1) show ?thesis by (simp add: nth_append)
  next
    case False
    then have "i = length vs" using that by simp
    then show ?thesis
      using \<open>same_block w (vs ! 0)\<close> \<open>dv_seq w = dv_seq (vs ! 0) + int (length vs)\<close> ne(1)
      by (simp add: nth_append)
  qed
  ultimately show ?thesis
    unfolding run_views_def by (meson append_is_Nil_conv not_Cons_self2)
qed

definition time_gaps :: "delta_view list \<Rightarrow> int list" where
  "time_gaps vs = map (\<lambda>i. dv_time (vs ! Suc i) - dv_time (vs ! i)) [0..<length vs - 1]"

lemma gaps_views:
  assumes "run_views k run vs"
  shows "gaps run = time_gaps vs"
proof -
  note len = run_views_length [OF assms]
  have "fl (int_of (get_prop ''time'' (run ! Suc i)) - int_of (get_prop ''time'' (run ! i))) =
      dv_time (vs ! Suc i) - dv_time (vs ! i)" if "i < length vs - 1" for i
  proof -
    have i: "Suc i < length vs" "i < length vs" using that by simp_all
    have "safe_int (dv_time (vs ! Suc i) - dv_time (vs ! i))"
      using assms i by (simp add: run_views_def)
    then show ?thesis
      using run_views_nth(1) [OF assms i(1)] run_views_nth(1) [OF assms i(2)]
      by (simp add: delta_ok_def safe_fl_eq)
  qed
  with len show ?thesis by (auto simp: gaps_def time_gaps_def)
qed

text \<open>The row of a run, field by field.\<close>

definition row_data :: "delta_kind \<Rightarrow> delta_view \<Rightarrow> int list \<Rightarrow> json list \<Rightarrow> (string \<times> json) list" where
  "row_data k v gs ps =
     [(''turn'', dv_turn v), (''step'', dv_step v), (''index'', dv_index v), (''dt'', JArr (map JInt gs))]
     @ (if k = ToolCallDelta then
          [(''id'', the (fst (dv_call v)))]
          @ (case snd (dv_call v) of Some n \<Rightarrow> [(''name'', n)] | None \<Rightarrow> [])
          @ [(''args'', JArr ps)]
        else [(''texts'', JArr ps)])"

definition row_obj :: "delta_kind \<Rightarrow> delta_view \<Rightarrow> int list \<Rightarrow> json list \<Rightarrow> json" where
  "row_obj k v gs ps =
     JObj [(''type'', JStr (row_tag k)), (''seq0'', JInt (dv_seq v)), (''time0'', JInt (dv_time v)),
           (''data'', JObj (row_data k v gs ps))]"

lemma buildRow_views:
  assumes "run_views k run vs"
  shows "buildRow k run = row_obj k (vs ! 0) (time_gaps vs) (map dv_payload vs)"
proof -
  have ne: "0 < length vs" using assms by (simp add: run_views_def)
  note len = run_views_nth(4) [OF assms ne]
  have pay: "map (\<lambda>e. the (prop_of (payload_key k) (chunk_of e))) run = map dv_payload vs"
    using run_views_nth(1) [OF assms] len by (intro nth_equalityI) (simp_all add: delta_ok_def)
  have d: "delta_ok k (run ! 0) (vs ! 0)" using run_views_nth(1) [OF assms ne] .
  show ?thesis
  proof (cases "k = ToolCallDelta")
    case True
    with d have "call_of k (run ! 0) = dv_call (vs ! 0)"
      "owns (chunk_of (run ! 0)) ''name'' \<longleftrightarrow> snd (dv_call (vs ! 0)) \<noteq> None"
      by (simp_all add: delta_ok_def)
    with True d pay gaps_views [OF assms] show ?thesis
      by (cases "dv_call (vs ! 0)") (auto simp: buildRow_def row_obj_def row_data_def Let_def delta_ok_def call_of_def payload_key_def)
  next
    case False
    with d pay gaps_views [OF assms] show ?thesis
      by (simp add: buildRow_def row_obj_def row_data_def Let_def delta_ok_def payload_key_def)
  qed
qed

section \<open>Decoding a packed run\<close>

lemma length_time_gaps: "length (time_gaps vs) = length vs - 1"
  by (simp add: time_gaps_def)

lemma drop_time_gaps:
  assumes "Suc j < length vs"
  shows "drop j (time_gaps vs) = (dv_time (vs ! Suc j) - dv_time (vs ! j)) # drop (Suc j) (time_gaps vs)"
proof -
  have "j < length (time_gaps vs)" using assms by (simp add: time_gaps_def)
  then have "drop j (time_gaps vs) = time_gaps vs ! j # drop (Suc j) (time_gaps vs)"
    by (simp add: Cons_nth_drop_Suc)
  then show ?thesis using assms by (simp add: time_gaps_def)
qed

lemma times_safe_views:
  assumes "run_views k run vs" and "j < length vs"
  shows "times_safe (dv_time (vs ! j)) (map JInt (drop j (time_gaps vs)))"
  using assms(2)
proof (induction "length vs - Suc j" arbitrary: j)
  case 0
  then have "drop j (time_gaps vs) = []" by (simp add: time_gaps_def)
  then show ?case by simp
next
  case (Suc m)
  then have j: "Suc j < length vs" by simp
  have "safe_int (dv_time (vs ! Suc j))"
    using run_views_nth(1) [OF assms(1) j] by (simp add: delta_ok_def)
  then show ?case
    using Suc.hyps(1) [of "Suc j"] Suc.hyps(2) j by (simp add: drop_time_gaps safe_fl_eq)
qed

lemma member_event_row:
  assumes "safe_int (dv_seq v + int i)"
  shows "member_event (row_obj k v gs ps) k i t p =
    delta_obj k (dv_turn v) (dv_step v) (dv_index v) (dv_call v) (dv_seq v + int i) t p"
proof (cases "snd (dv_call v)")
  case None
  with assms show ?thesis
    by (cases k) (simp_all add: member_event_def row_obj_def row_data_def delta_obj_def chunk_obj_def
        Let_def safe_fl_eq)
next
  case (Some n)
  with assms show ?thesis
    by (cases k) (simp_all add: member_event_def row_obj_def row_data_def delta_obj_def chunk_obj_def
        Let_def safe_fl_eq)
qed

lemma row_obj_dt: "arr_of (prop_of ''dt'' (get_prop ''data'' (row_obj k v gs ps))) = map JInt gs"
  by (simp add: row_obj_def row_data_def)

lemma expand_views:
  assumes "run_views k run vs" and "0 < j" and "j \<le> length vs"
    and "row = row_obj k (vs ! 0) (time_gaps vs) ps"
  shows "expand_members row k j (dv_time (vs ! (j - 1))) (drop j (map dv_payload vs)) =
    map (\<lambda>i. member_event row k i (dv_time (vs ! i)) (dv_payload (vs ! i))) [j..<length vs]"
  using assms(2,3)
proof (induction "length vs - j" arbitrary: j)
  case (Suc m)
  then have j: "j < length vs" by simp
  have gap: "time_gaps vs ! (j - Suc 0) = dv_time (vs ! j) - dv_time (vs ! (j - Suc 0))"
    using Suc.prems j by (simp add: time_gaps_def)
  have "safe_int (dv_time (vs ! j))"
    using run_views_nth(1) [OF assms(1) j] by (simp add: delta_ok_def)
  moreover have "arr_of (prop_of ''dt'' (get_prop ''data'' row)) ! (j - 1) = JInt (time_gaps vs ! (j - 1))"
    using Suc.prems j by (simp add: assms(4) row_obj_dt length_time_gaps)
  moreover have "drop j (map dv_payload vs) = dv_payload (vs ! j) # drop (Suc j) (map dv_payload vs)"
    using j by (simp add: Cons_nth_drop_Suc [symmetric] drop_map)
  moreover have "[j..<length vs] = j # [Suc j..<length vs]" using j by (simp add: upt_conv_Cons)
  ultimately show ?case
    using Suc.hyps(1) [of "Suc j"] Suc.hyps(2) Suc.prems j
    by (simp add: gap safe_fl_eq Let_def)
qed simp

lemma expandRow_views:
  assumes "run_views k run vs"
  shows "expandRow (row_obj k (vs ! 0) (time_gaps vs) (map dv_payload vs)) k =
    map (\<lambda>i. delta_obj k (dv_turn (vs ! i)) (dv_step (vs ! i)) (dv_index (vs ! i)) (dv_call (vs ! i))
      (dv_seq (vs ! i)) (dv_time (vs ! i)) (dv_payload (vs ! i))) [0..<length vs]"
proof -
  let ?row = "row_obj k (vs ! 0) (time_gaps vs) (map dv_payload vs)"
  have ne: "0 < length vs" using assms by (simp add: run_views_def)
  then have vs: "map dv_payload vs = dv_payload (vs ! 0) # drop 1 (map dv_payload vs)"
    by (cases vs) simp_all
  have upt: "[0..<length vs] = 0 # [1..<length vs]" using ne by (simp add: upt_conv_Cons)
  have mem: "member_event ?row k i (dv_time (vs ! i)) (dv_payload (vs ! i)) =
      delta_obj k (dv_turn (vs ! i)) (dv_step (vs ! i)) (dv_index (vs ! i)) (dv_call (vs ! i))
        (dv_seq (vs ! i)) (dv_time (vs ! i)) (dv_payload (vs ! i))" if "i < length vs" for i
  proof -
    have sq: "dv_seq (vs ! i) = dv_seq (vs ! 0) + int i"
      using run_views_nth(3) [OF assms that] .
    have "safe_int (dv_seq (vs ! 0) + int i)"
      using run_views_nth(1) [OF assms that] unfolding sq [symmetric] by (simp add: delta_ok_def)
    then show ?thesis
      using run_views_nth(2) [OF assms that] unfolding sq
      by (simp add: member_event_row same_block_def)
  qed
  have args: "arr_of (prop_of (if k = ToolCallDelta then ''args'' else ''texts'') (get_prop ''data'' ?row)) =
      map dv_payload vs"
    by (cases "snd (dv_call (vs ! 0))") (simp_all add: row_obj_def row_data_def)
  have t0: "int_of (get_prop ''time0'' ?row) = dv_time (vs ! 0)" by (simp add: row_obj_def)
  have "expandRow ?row k = expand_members ?row k 0 (dv_time (vs ! 0)) (map dv_payload vs)"
    by (simp only: expandRow_def args t0)
  also have "\<dots> = member_event ?row k 0 (dv_time (vs ! 0)) (dv_payload (vs ! 0))
      # expand_members ?row k 1 (dv_time (vs ! 0)) (drop 1 (map dv_payload vs))"
    by (subst vs) (simp add: Let_def)
  also have "expand_members ?row k 1 (dv_time (vs ! 0)) (drop 1 (map dv_payload vs)) =
      map (\<lambda>i. member_event ?row k i (dv_time (vs ! i)) (dv_payload (vs ! i))) [1..<length vs]"
    using expand_views [OF assms, of 1] ne by simp
  finally show ?thesis
    using mem ne by (simp add: upt)
qed

lemma valid_payload: "run_views k run vs \<Longrightarrow> p \<in> set (map dv_payload vs) \<Longrightarrow> is_string (Some p)"
  using run_views_nth(1) by (fastforce simp: delta_ok_def in_set_conv_nth)

lemma validate_data:
  assumes "run_views k run vs" and "d = JObj (row_data k (vs ! 0) (time_gaps vs) (map dv_payload vs))"
  shows "validateRunData d (if k = ToolCallDelta then ''args'' else ''texts'') = Inr (map dv_payload vs)"
proof -
  have ne: "0 < length vs" using assms(1) by (simp add: run_views_def)
  have str: "\<not> list_ex (\<lambda>p. \<not> is_string (Some p)) (map dv_payload vs)"
    using valid_payload [OF assms(1)] by (auto simp: list_ex_iff)
  have "safe_int g" if "g \<in> set (time_gaps vs)" for g
    using that assms(1) unfolding run_views_def time_gaps_def by auto
  then have gap: "\<not> list_ex (\<lambda>g. \<not> isSafeInteger (Some g)) (map JInt (time_gaps vs))"
    by (auto simp: list_ex_iff)
  have len: "length (map JInt (time_gaps vs)) = length (map dv_payload vs) - 1"
    by (simp add: length_time_gaps)
  have d: "get_prop ''turn'' d = Some (dv_turn (vs ! 0))" "get_prop ''step'' d = Some (dv_step (vs ! 0))"
    "get_prop ''index'' d = Some (dv_index (vs ! 0))" "get_prop ''dt'' d = Some (JArr (map JInt (time_gaps vs)))"
    "get_prop (if k = ToolCallDelta then ''args'' else ''texts'') d = Some (JArr (map dv_payload vs))"
    by (cases "snd (dv_call (vs ! 0))"; simp add: assms(2) row_data_def)+
  have n: "is_number (Some (dv_turn (vs ! 0)))" "is_number (Some (dv_step (vs ! 0)))"
    "is_number (Some (dv_index (vs ! 0)))"
    using run_views_nth(1) [OF assms(1) ne] by (simp_all add: delta_ok_def)
  have "map dv_payload vs \<noteq> []" using ne by simp
  then show ?thesis
    unfolding validateRunData_def d using n str gap len by simp
qed

lemma seqs_stay_safe:
  assumes "run_views k run vs"
  shows "safe_int (fl (fl (dv_seq (vs ! 0) + int (length vs)) - 1))"
proof -
  let ?n = "length vs"
  have ne: "0 < ?n" using assms by (simp add: run_views_def)
  have pos: "0 \<le> dv_seq (vs ! 0)" using run_views_nth(1) [OF assms ne] by (simp add: delta_ok_def)
  have "dv_seq (vs ! (?n - 1)) = dv_seq (vs ! 0) + int ?n - 1"
    using run_views_nth(3) [OF assms, of "?n - 1"] ne by simp
  moreover have "safe_int (dv_seq (vs ! (?n - 1)))"
    using run_views_nth(1) [OF assms, of "?n - 1"] ne by (simp add: delta_ok_def)
  ultimately have s: "safe_int (dv_seq (vs ! 0) + int ?n - 1)" by simp
  have "fl (dv_seq (vs ! 0) + int ?n) = dv_seq (vs ! 0) + int ?n"
  proof (cases "safe_int (dv_seq (vs ! 0) + int ?n)")
    case False
    then have "dv_seq (vs ! 0) + int ?n = 2 ^ 53"
      using s pos by (simp add: safe_int_def max_safe_def)
    then show ?thesis using fl_two53 by simp
  qed (rule safe_fl_eq)
  then show ?thesis using s by (simp add: safe_fl_eq)
qed

lemma validate_row:
  assumes "run_views k run vs"
  shows "validateRow (row_obj k (vs ! 0) (time_gaps vs) (map dv_payload vs)) k = Inr (map dv_payload vs)"
proof -
  let ?row = "row_obj k (vs ! 0) (time_gaps vs) (map dv_payload vs)"
  let ?d = "JObj (row_data k (vs ! 0) (time_gaps vs) (map dv_payload vs))"
  have ne: "0 < length vs" using assms by (simp add: run_views_def)
  have ok: "delta_ok k (run ! 0) (vs ! 0)" by (rule run_views_nth(1) [OF assms ne])
  then have safe: "safe_int (dv_seq (vs ! 0))" "0 \<le> dv_seq (vs ! 0)" "safe_int (dv_time (vs ! 0))"
    by (simp_all add: delta_ok_def)
  have row: "get_prop ''seq0'' ?row = Some (JInt (dv_seq (vs ! 0)))"
    "get_prop ''time0'' ?row = Some (JInt (dv_time (vs ! 0)))" "get_prop ''data'' ?row = Some ?d"
    "has_exact_keys ?row [''type'', ''seq0'', ''time0'', ''data'']"
    by (simp_all add: row_obj_def has_exact_keys_def)
  have dt: "arr_of (get_prop ''dt'' ?d) = map JInt (time_gaps vs)"
    by (simp add: row_data_def)
  have times: "times_safe (dv_time (vs ! 0)) (map JInt (time_gaps vs))"
    using times_safe_views [OF assms ne] by simp
  note data = validate_data [OF assms refl]
  note range = seqs_stay_safe [OF assms]
  show ?thesis
  proof (cases "k = ToolCallDelta")
    case False
    then have "has_exact_keys ?d [''turn'', ''step'', ''index'', ''dt'', ''texts'']"
      by (simp add: row_data_def has_exact_keys_def)
    with False safe row data dt times range show ?thesis
      by (simp add: validateRow_def Let_def)
  next
    case True
    have idn: "is_string (fst (dv_call (vs ! 0)))"
      "snd (dv_call (vs ! 0)) \<noteq> None \<Longrightarrow> is_string (snd (dv_call (vs ! 0)))"
      using ok True by (simp_all add: delta_ok_def)
    have "is_string (get_prop ''id'' ?d)"
      using True idn(1) by (auto simp: row_data_def elim!: is_stringE)
    moreover have "has_exact_keys ?d [''turn'', ''step'', ''index'', ''id'', ''name'', ''dt'', ''args'']
          \<and> is_string (get_prop ''name'' ?d)
        \<or> \<not> has_exact_keys ?d [''turn'', ''step'', ''index'', ''id'', ''name'', ''dt'', ''args'']
          \<and> has_exact_keys ?d [''turn'', ''step'', ''index'', ''id'', ''dt'', ''args'']"
      using True idn(2) by (cases "snd (dv_call (vs ! 0))") (simp_all add: row_data_def has_exact_keys_def)
    ultimately show ?thesis
      using True safe row data dt times range by (elim disjE conjE) (simp_all add: validateRow_def Let_def)
  qed
qed

lemma decode_buildRow:
  assumes "run_views k run vs"
  shows "\<exists>es. decodeStorageRecord (buildRow k run) = Inr es \<and> list_all2 isDeepEqualJson run es"
proof -
  let ?row = "row_obj k (vs ! 0) (time_gaps vs) (map dv_payload vs)"
  have "row_kind ?row = Some k"
    by (cases k) (simp_all add: row_kind_def row_obj_def row_tag_def)
  moreover have "isRecord (Some ?row)" by (simp add: row_obj_def)
  ultimately have "decodeStorageRecord (buildRow k run) = Inr (expandRow ?row k)"
    by (simp add: buildRow_views [OF assms] decodeStorageRecord_def validate_row [OF assms])
  moreover have "list_all2 isDeepEqualJson run (expandRow ?row k)"
    using run_views_nth(1) [OF assms] run_views_length [OF assms]
    by (auto simp: expandRow_views [OF assms] list_all2_conv_all_nth delta_ok_def)
  ultimately show ?thesis by blast
qed

section \<open>The packing loop\<close>

definition storable :: "json \<Rightarrow> bool" where
  "storable e \<longleftrightarrow> wf_json e \<and> row_kind e = None"

lemma decode_verbatim: "row_kind e = None \<Longrightarrow> decodeStorageRecord e = Inr [e]"
  by (simp add: decodeStorageRecord_def)

lemma decode_lines_append:
  "decode_lines (xs @ ys) = rbind (decode_lines xs) (\<lambda>a. rbind (decode_lines ys) (\<lambda>b. Inr (a @ b)))"
  by (induction xs) (auto simp: rbind_def split: sum.splits)

lemma decode_lines_verbatim: "\<forall>e \<in> set es. row_kind e = None \<Longrightarrow> decode_lines es = Inr es"
  by (induction es) (simp_all add: decode_verbatim)

lemma deep_equal_list_refl: "\<forall>e \<in> set es. wf_json e \<Longrightarrow> list_all2 isDeepEqualJson es es"
  by (induction es) (simp_all add: deep_equal_refl)

text \<open>
  The records written decode to the events before the open run, and the open run is uniform.
\<close>

definition pack_inv :: "json list \<Rightarrow> pack_state \<Rightarrow> bool" where
  "pack_inv pre s \<longleftrightarrow>
     (case s of (out, kind, run) \<Rightarrow>
       (\<exists>earlier es. pre = earlier @ run \<and> decode_lines out = Inr es \<and> list_all2 isDeepEqualJson earlier es)
       \<and> (case kind of None \<Rightarrow> run = [] | Some k \<Rightarrow> \<exists>vs. run_views k run vs))"

lemma pack_flush:
  assumes "pack_inv pre s" and "\<forall>e \<in> set pre. storable e"
  shows "\<exists>out es. flush s = (out, None, []) \<and> decode_lines out = Inr es \<and> list_all2 isDeepEqualJson pre es"
proof -
  obtain out kind run where s: "s = (out, kind, run)" by (cases s)
  from assms(1) s obtain earlier es where e: "pre = earlier @ run" "decode_lines out = Inr es"
    "list_all2 isDeepEqualJson earlier es" by (auto simp: pack_inv_def)
  have "\<exists>rs rest. flush s = (out @ rs, None, []) \<and> decode_lines rs = Inr rest \<and> list_all2 isDeepEqualJson run rest"
  proof (cases "\<exists>k. kind = Some k \<and> MIN_RUN \<le> length run")
    case True
    then obtain k where k: "kind = Some k" "MIN_RUN \<le> length run" by blast
    then obtain vs where "run_views k run vs" using assms(1) s by (auto simp: pack_inv_def)
    from decode_buildRow [OF this] obtain rest where
      "decodeStorageRecord (buildRow k run) = Inr rest" "list_all2 isDeepEqualJson run rest" by blast
    with k s show ?thesis by (intro exI [of _ "[buildRow k run]"] exI [of _ rest]) simp
  next
    case False
    have "\<forall>e \<in> set run. wf_json e \<and> row_kind e = None"
      using assms(2) e(1) by (auto simp: storable_def)
    with False s show ?thesis
      by (intro exI [of _ run]) (auto simp: decode_lines_verbatim deep_equal_list_refl split: option.splits)
  qed
  then show ?thesis using e by (auto simp: decode_lines_append list_all2_appendI)
qed

lemma pack_event_inv:
  assumes inv: "pack_inv pre s" and pre: "\<forall>e \<in> set pre. storable e" and e: "storable e"
  shows "pack_inv (pre @ [e]) (pack_event s e)"
proof -
  obtain out kind run where s: "s = (out, kind, run)" by (cases s)
  from pack_flush [OF inv pre] obtain out' es where f: "flush (out, kind, run) = (out', None, [])"
    "decode_lines out' = Inr es" "list_all2 isDeepEqualJson pre es" using s by auto
  show ?thesis
  proof (cases "classify e")
    case None
    have "decode_lines [e] = Inr [e]" "list_all2 isDeepEqualJson [e] [e]"
      using e by (simp_all add: storable_def decode_verbatim deep_equal_refl)
    with None s f show ?thesis
      by (auto simp: pack_inv_def decode_lines_append list_all2_appendI simp del: flush.simps)
  next
    case (Some k)
    obtain v where v: "delta_ok k e v" using classify_delta Some e by (auto simp: storable_def)
    show ?thesis
    proof (cases "Some k = kind \<and> run \<noteq> [] \<and> continues (last run) e k")
      case True
      then obtain vs where "run_views k run vs" using inv s by (auto simp: pack_inv_def)
      then have "run_views k (run @ [e]) (vs @ [v])" using run_views_snoc v True by blast
      then show ?thesis
        using True Some inv s by (auto simp: pack_inv_def split: option.splits)
    next
      case False
      then have "pack_event s e = (out', Some k, [e])"
        using Some s f(1) by (simp del: flush.simps add: Let_def)
      then show ?thesis
        using f run_views_single [OF v] by (auto simp: pack_inv_def)
    qed
  qed
qed

lemma pack_inv_foldl:
  "\<forall>e \<in> set evs. storable e \<Longrightarrow> pack_inv evs (foldl pack_event ([], None, []) evs)"
proof (induction evs rule: rev_induct)
  case (snoc e evs)
  then show ?case using pack_event_inv by simp
qed (simp add: pack_inv_def)

section \<open>What the decoder accepts\<close>

lemma expand_length: "length (expand_members row k j t ms) = length ms"
  by (induction row k j t ms rule: expand_members.induct) (simp_all add: Let_def)

lemma expand_seq:
  "i < length ms \<Longrightarrow> get_prop ''seq'' (expand_members row k j t ms ! i) =
     Some (JInt (fl (int_of (get_prop ''seq0'' row) + int (j + i))))"
proof (induction row k j t ms arbitrary: i rule: expand_members.induct)
  case (2 row k j t m ms)
  then show ?case by (cases i) (simp_all add: Let_def member_event_def)
qed simp

lemma expand_times:
  assumes "dt = arr_of (prop_of ''dt'' (get_prop ''data'' row))"
  shows "0 < j \<Longrightarrow> safe_int t \<Longrightarrow> times_safe t (drop (j - 1) dt) \<Longrightarrow> length dt = j - 1 + length ms \<Longrightarrow>
    e \<in> set (expand_members row k j t ms) \<Longrightarrow> isSafeInteger (get_prop ''time'' e)"
proof (induction ms arbitrary: j t)
  case (Cons m ms)
  have d: "drop (j - 1) dt = dt ! (j - 1) # drop j dt"
    using Cons.prems(1,4) Cons_nth_drop_Suc [of "j - 1" dt] by simp
  let ?t = "fl (t + int_of (Some (dt ! (j - 1))))"
  have t: "safe_int ?t" "times_safe ?t (drop j dt)" using Cons.prems(3) unfolding d by simp_all
  have "e = member_event row k j ?t m \<or> e \<in> set (expand_members row k (Suc j) ?t ms)"
    using Cons.prems(1,5) assms by (simp add: Let_def)
  then show ?case
  proof
    assume "e \<in> set (expand_members row k (Suc j) ?t ms)"
    then show ?thesis
      using Cons.IH [of "Suc j" ?t] t Cons.prems(1,4) by simp
  qed (use t in \<open>simp add: member_event_def Let_def\<close>)
qed simp

lemma validateRunData_ok:
  "validateRunData d key = Inr ms \<Longrightarrow>
   get_prop key d = Some (JArr ms) \<and> ms \<noteq> [] \<and> length (arr_of (get_prop ''dt'' d)) = length ms - 1"
  by (auto simp: validateRunData_def result_simps split: option.splits json.splits if_splits)

lemma validateRow_ok:
  assumes "validateRow row k = Inr ms"
  obtains d where "get_prop ''data'' row = Some d"
    and "get_prop (if k = ToolCallDelta then ''args'' else ''texts'') d = Some (JArr ms)"
    and "ms \<noteq> []" and "length (arr_of (get_prop ''dt'' d)) = length ms - 1"
    and "isSafeInteger (get_prop ''seq0'' row)" and "0 \<le> int_of (get_prop ''seq0'' row)"
    and "isSafeInteger (get_prop ''time0'' row)"
    and "times_safe (int_of (get_prop ''time0'' row)) (arr_of (get_prop ''dt'' d))"
    and "safe_int (fl (fl (int_of (get_prop ''seq0'' row) + int (length ms)) - 1))"
proof -
  from assms obtain d where d: "get_prop ''data'' row = Some d"
    by (cases "get_prop ''data'' row") (auto simp: validateRow_def result_simps)
  have data: "validateRunData d (if k = ToolCallDelta then ''args'' else ''texts'') = Inr ms"
    using assms d by (auto simp: validateRow_def result_simps Let_def split: if_splits)
  show ?thesis
    using assms d validateRunData_ok [OF data]
    by (intro that) (auto simp: validateRow_def result_simps Let_def split: if_splits)
qed

lemma seq_bound:
  assumes "0 \<le> s" and "safe_int s" and "0 < n" and "safe_int (fl (fl (s + int n) - 1))"
  shows "s + int n - 1 \<le> 2 ^ 53"
proof (rule ccontr)
  assume "\<not> ?thesis"
  then have "2 ^ 53 + 2 \<le> s + int n" by simp
  then have "2 ^ 53 + 2 \<le> fl (s + int n)" by (rule fl_above_two53)
  then have big: "2 ^ 53 \<le> \<bar>fl (s + int n) - 1\<bar>" by simp
  from fl_large [OF big] assms(4) show False by (simp add: safe_int_def max_safe_def)
qed

lemma fl_upto_two53: "0 \<le> x \<Longrightarrow> x \<le> 2 ^ 53 \<Longrightarrow> fl x = x"
  using fl_exact [of x] fl_two53 by (cases "x = 2 ^ 53") auto

lemma expandRow_sound:
  assumes "validateRow row k = Inr ms"
  shows "length (expandRow row k) = length ms \<and> ms \<noteq> []"
    and "i < length ms \<Longrightarrow> get_prop ''seq'' (expandRow row k ! i) =
      Some (JInt (int_of (get_prop ''seq0'' row) + int i))
      \<and> int_of (get_prop ''seq0'' row) + int i \<le> 2 ^ 53"
    and "e \<in> set (expandRow row k) \<Longrightarrow> isSafeInteger (get_prop ''time'' e)"
proof -
  from validateRow_ok [OF assms] obtain d where d: "get_prop ''data'' row = Some d"
    "get_prop (if k = ToolCallDelta then ''args'' else ''texts'') d = Some (JArr ms)"
    "ms \<noteq> []" "length (arr_of (get_prop ''dt'' d)) = length ms - 1"
    "isSafeInteger (get_prop ''seq0'' row)" "0 \<le> int_of (get_prop ''seq0'' row)"
    "isSafeInteger (get_prop ''time0'' row)"
    "times_safe (int_of (get_prop ''time0'' row)) (arr_of (get_prop ''dt'' d))"
    "safe_int (fl (fl (int_of (get_prop ''seq0'' row) + int (length ms)) - 1))" .
  let ?s = "int_of (get_prop ''seq0'' row)" and ?t = "int_of (get_prop ''time0'' row)"
  have ex: "expandRow row k = expand_members row k 0 ?t ms"
    using d(1,2) by (simp add: expandRow_def)
  show "length (expandRow row k) = length ms \<and> ms \<noteq> []"
    using d(3) by (simp add: ex expand_length)
  have safe: "safe_int ?s" "safe_int ?t"
    using d(5,7) by (metis isSafeIntegerE)+
  have bound: "?s + int (length ms) - 1 \<le> 2 ^ 53"
    by (rule seq_bound [OF d(6) safe(1) _ d(9)]) (use d(3) in simp)
  show "get_prop ''seq'' (expandRow row k ! i) = Some (JInt (?s + int i)) \<and> ?s + int i \<le> 2 ^ 53"
    if "i < length ms"
  proof -
    have "?s + int i \<le> 2 ^ 53" using bound that by linarith
    moreover have "fl (?s + int i) = ?s + int i" using calculation d(6) by (intro fl_upto_two53) simp_all
    ultimately show ?thesis using that by (simp add: ex expand_seq)
  qed
  show "isSafeInteger (get_prop ''time'' e)" if "e \<in> set (expandRow row k)"
  proof -
    obtain m ms' where ms: "ms = m # ms'" using d(3) by (cases ms) auto
    have "e = member_event row k 0 ?t m \<or> e \<in> set (expand_members row k 1 ?t ms')"
      using that by (simp add: ex ms Let_def)
    then show ?thesis
    proof
      assume "e \<in> set (expand_members row k 1 ?t ms')"
      then show ?thesis
        using expand_times [of "arr_of (get_prop ''dt'' d)" row 1 ?t ms' e k] d(1,4,8) safe(2) ms by simp
    qed (use safe in \<open>simp add: member_event_def Let_def\<close>)
  qed
qed

section \<open>Properties\<close>

text \<open>
  C6. Packing loses nothing: decoding the packed lines of any batch of events gives back the
  events, in order, each structurally equal to the original (key order apart), whatever the
  mixture of runs, gaps in the clock and unknown fields. The events are well-formed JSON that
  does not itself carry one of the three row tags.
\<close>

theorem chunk_rows_roundtrip:
  assumes "\<forall>e \<in> set evs. storable e"
  shows "\<exists>es. decode_lines (packChunkRuns evs) = Inr es \<and> list_all2 isDeepEqualJson evs es"
proof -
  obtain out es where "flush (foldl pack_event ([], None, []) evs) = (out, None, [])"
    "decode_lines out = Inr es" "list_all2 isDeepEqualJson evs es"
    using pack_flush [OF pack_inv_foldl [OF assms] assms] by blast
  then show ?thesis by (simp add: packChunkRuns_def)
qed

definition sample_chunk :: "int \<Rightarrow> int \<Rightarrow> string \<Rightarrow> json" where
  "sample_chunk s t text = delta_obj TextDelta (JNum 1) (JNum 1) (JNum 0) (None, None) s t (JStr text)"

lemma sample_chunk_storable: "storable (sample_chunk s t text)"
  by (simp add: storable_def sample_chunk_def delta_obj_def chunk_obj_def row_kind_def JInt_def)

theorem chunk_rows_roundtrip_witness:
  "\<exists>es. decode_lines (packChunkRuns [sample_chunk 4 10 ''a'', sample_chunk 5 9 ''b'', sample_chunk 6 12 ''c''])
      = Inr es
    \<and> list_all2 isDeepEqualJson [sample_chunk 4 10 ''a'', sample_chunk 5 9 ''b'', sample_chunk 6 12 ''c''] es"
  by (rule chunk_rows_roundtrip) (simp add: sample_chunk_storable)

text \<open>
  A run really packs: three consecutive deltas of one block become a single row, also
  when the clock stepped backwards between them.
\<close>

theorem chunk_run_packs:
  "packChunkRuns [sample_chunk 4 10 ''a'', sample_chunk 5 9 ''b'', sample_chunk 6 12 ''c''] =
   [JObj [(''type'', JStr ''text-chunks''), (''seq0'', JInt 4), (''time0'', JInt 10),
     (''data'', JObj [(''turn'', JNum 1), (''step'', JNum 1), (''index'', JNum 0),
        (''dt'', JArr [JInt (-1), JInt 3]), (''texts'', JArr [JStr ''a'', JStr ''b'', JStr ''c''])])]]"
proof -
  have safe: "fl 5 = 5" "fl 6 = 6" "fl (-1) = -1" "fl 3 = 3"
    by (rule fl_exact; simp)+
  have c: "classify (sample_chunk s t x) = Some TextDelta" if "safe_int s" "0 \<le> s" "safe_int t" for s t x
    using that by (simp add: classify_def sample_chunk_def delta_obj_def chunk_obj_def chunk_of_def
        has_exact_keys_def Let_def)
  have n: "continues (sample_chunk s t x) (sample_chunk s' t' y) TextDelta"
    if "s' = fl (s + 1)" "safe_int (fl (t' - t))" for s t x s' t' y
    using that by (simp add: continues_def sample_chunk_def delta_obj_def chunk_obj_def chunk_of_def Let_def)
  have s: "safe_int 4" "safe_int 5" "safe_int 6" "safe_int 9" "safe_int 10" "safe_int 12"
    "safe_int (-1)" "safe_int 3"
    by (simp_all add: safe_int_def max_safe_def)
  have pack: "foldl pack_event ([], None, [])
      [sample_chunk 4 10 ''a'', sample_chunk 5 9 ''b'', sample_chunk 6 12 ''c''] =
      ([], Some TextDelta, [sample_chunk 4 10 ''a'', sample_chunk 5 9 ''b'', sample_chunk 6 12 ''c''])"
    using s by (simp add: c n safe)
  show ?thesis
    unfolding packChunkRuns_def pack
    by (simp add: MIN_RUN_def buildRow_def Let_def sample_chunk_def delta_obj_def chunk_obj_def
        chunk_of_def row_tag_def gaps_def safe)
qed

definition overflowing_row :: json where
  "overflowing_row = JObj [(''type'', JStr ''text-chunks''), (''seq0'', JInt max_safe), (''time0'', JInt 0),
     (''data'', JObj [(''turn'', JNum 1), (''step'', JNum 1), (''index'', JNum 0),
        (''dt'', JArr [JInt 0]), (''texts'', JArr [JStr ''a'', JStr ''b''])])]"

lemma overflowing_row_decodes:
  "\<exists>es. decodeStorageRecord overflowing_row = Inr es
    \<and> get_prop ''seq'' (last es) = Some (JInt (2 ^ 53))"
proof -
  have "fl 9007199254740993 = 9007199254740992" using fl_two53_succ by simp
  moreover have "fl 9007199254740992 = 9007199254740992" using fl_two53 by simp
  moreover have "fl 9007199254740991 = 9007199254740991" "fl 0 = 0"
    by (rule fl_exact; simp)+
  ultimately show ?thesis
    by (simp add: overflowing_row_def decodeStorageRecord_def row_kind_def validateRow_def validateRunData_def
        expandRow_def member_event_def has_exact_keys_def Let_def safe_int_def max_safe_def)
qed

text \<open>
  What the decoder accepts: a row-tagged line either throws or expands to a non-empty
  run with consecutive sequence numbers from \<open>seq0\<close>, none above \<open>2 ^ 53\<close>, and safe times.
\<close>

theorem decode_row_sound:
  assumes "row_kind row = Some k" and "decodeStorageRecord row = Inr es"
  shows "es \<noteq> []
    \<and> (\<forall>i < length es. get_prop ''seq'' (es ! i) = Some (JInt (int_of (get_prop ''seq0'' row) + int i))
        \<and> int_of (get_prop ''seq0'' row) + int i \<le> 2 ^ 53 \<and> isSafeInteger (get_prop ''time'' (es ! i)))"
proof -
  have "isRecord (Some row)"
    using assms(1) by (cases row) (simp_all add: row_kind_def)
  with assms obtain ms where v: "validateRow row k = Inr ms" and es: "es = expandRow row k"
    by (auto simp: decodeStorageRecord_def result_simps)
  show ?thesis
    using expandRow_sound [OF v] unfolding es by (metis list.size(3) length_0_conv nth_mem)
qed

theorem decode_row_sound_witness:
  "\<exists>es. decodeStorageRecord overflowing_row = Inr es \<and> es \<noteq> []
    \<and> isSafeInteger (get_prop ''time'' (es ! 0))"
proof -
  obtain es where es: "decodeStorageRecord overflowing_row = Inr es"
    using overflowing_row_decodes by blast
  have "row_kind overflowing_row = Some TextDelta"
    by (simp add: row_kind_def overflowing_row_def)
  from decode_row_sound [OF this es] es show ?thesis by auto
qed

text \<open>
  C40. The decoder's bound on member sequence numbers is off by one: \<open>seq0 + length - 1\<close> is
  summed from the left in doubles, and the first sum can round down. A row whose last member
  has the unsafe sequence number \<open>2 ^ 53\<close> is accepted, against the stated bound.
\<close>

theorem row_seq_bound_off_by_one:
  "\<exists>es. decodeStorageRecord overflowing_row = Inr es
    \<and> get_prop ''seq'' (last es) = Some (JInt (2 ^ 53)) \<and> \<not> isSafeInteger (get_prop ''seq'' (last es))"
proof -
  have "\<not> isSafeInteger (Some (JInt (2 ^ 53)))"
    by (simp add: safe_int_def max_safe_def)
  then show ?thesis using overflowing_row_decodes by metis
qed

end
