(* ===== verification/BlockAssembler.thy ===== *)
theory BlockAssembler imports SessionTypes begin

text \<open>
  packages/llm/llm/src/assembler.ts: the incremental assembly of content blocks from a chunk
  stream, and the message constructors of packages/llm/llm/src/message.ts it ends in. The
  identity a new message receives is the parameter \<open>uuid\<close>.
\<close>

section \<open>Chunks and state\<close>

datatype finish_reason =
    FinStop
  | FinToolCalls
  | FinMaxTokens
  | FinAborted json
  | FinError json
  | FinPlugin string json

record replay_envelope =
  re_response :: json
  re_blocks :: "json list option"

datatype stream_chunk =
    ChBlockStart nat string
  | ChTextDelta nat string
  | ChReasoningDelta nat string
  | ChToolCallDelta nat string "string option" string
  | ChBlockEnd nat content_block
  | ChUsage json
  | ChFinish finish_reason "replay_envelope option"

record partial_block =
  pb_type :: string
  pb_text :: string
  pb_callId :: "string option"
  pb_callName :: "string option"
  pb_callArguments :: string
  pb_block :: "content_block option"

record assembler =
  as_partials :: "(nat \<times> partial_block) list"
  as_order :: "nat list"
  as_usage :: "json option"
  as_finish :: "finish_reason option"
  as_replay :: "replay_envelope option"

fun block_type :: "content_block \<Rightarrow> string" where
  "block_type (TextBlock _) = ''text''"
| "block_type (ReasoningBlock _) = ''reasoning''"
| "block_type (ImageBlock _) = ''image''"
| "block_type (ToolCallBlock _ _ _) = ''tool-call''"
| "block_type (ToolResultBlock _ _ _) = ''tool-result''"
| "block_type (PluginBlock t _) = t"

definition newAssembler :: assembler where
  "newAssembler = \<lparr>as_partials = [], as_order = [], as_usage = None, as_finish = None, as_replay = None\<rparr>"

definition new_partial :: "string \<Rightarrow> partial_block" where
  "new_partial t = \<lparr>pb_type = t, pb_text = [], pb_callId = None, pb_callName = None,
     pb_callArguments = [], pb_block = None\<rparr>"

definition ensure :: "assembler \<Rightarrow> nat \<Rightarrow> string \<Rightarrow> assembler" where
  "ensure a i t =
     (case map_of (as_partials a) i of
        Some _ \<Rightarrow> a
      | None \<Rightarrow> a\<lparr>as_partials := map_set i (new_partial t) (as_partials a), as_order := as_order a @ [i]\<rparr>)"

text \<open>\<open>ensure\<close> followed by an update of a partial that no \<open>block-end\<close> closed.\<close>

definition update_open :: "assembler \<Rightarrow> nat \<Rightarrow> string \<Rightarrow> (partial_block \<Rightarrow> partial_block) \<Rightarrow> assembler" where
  "update_open a i t f =
     (let a' = ensure a i t
      in case map_of (as_partials a') i of
           Some p \<Rightarrow> if pb_block p \<noteq> None then a' else a'\<lparr>as_partials := map_set i (f p) (as_partials a')\<rparr>
         | None \<Rightarrow> a')"

fun push :: "assembler \<Rightarrow> stream_chunk \<Rightarrow> assembler" where
  "push a (ChBlockStart i t) = ensure a i t"
| "push a (ChTextDelta i s) = update_open a i ''text'' (\<lambda>p. p\<lparr>pb_text := pb_text p @ s\<rparr>)"
| "push a (ChReasoningDelta i s) = update_open a i ''reasoning'' (\<lambda>p. p\<lparr>pb_text := pb_text p @ s\<rparr>)"
| "push a (ChToolCallDelta i c n s) = update_open a i ''tool-call'' (\<lambda>p.
     p\<lparr>pb_callId := Some c,
       pb_callName := (case n of Some (ch # cs) \<Rightarrow> Some (ch # cs) | _ \<Rightarrow> pb_callName p),
       pb_callArguments := pb_callArguments p @ s\<rparr>)"
| "push a (ChBlockEnd i b) = update_open a i (block_type b) (\<lambda>p. p\<lparr>pb_block := Some b\<rparr>)"
| "push a (ChUsage u) = a\<lparr>as_usage := Some u\<rparr>"
| "push a (ChFinish r e) = a\<lparr>as_finish := Some r, as_replay := e\<rparr>"

section \<open>Assembly\<close>

datatype assembly_error = IncompleteBlock string | NoPartial nat

definition assemble :: "partial_block \<Rightarrow> nat \<Rightarrow> assembly_error + content_block" where
  "assemble p i =
     (case pb_block p of
        Some b \<Rightarrow> Inr b
      | None \<Rightarrow>
          if pb_type p = ''text'' then Inr (TextBlock (pb_text p))
          else if pb_type p = ''reasoning'' then Inr (ReasoningBlock (pb_text p))
          else if pb_type p = ''tool-call'' then
            Inr (ToolCallBlock (case pb_callId p of Some c \<Rightarrow> c | None \<Rightarrow> ''call-'' @ show_nat i)
                   (case pb_callName p of Some n \<Rightarrow> n | None \<Rightarrow> []) (pb_callArguments p))
          else Inl (IncompleteBlock (pb_type p)))"

definition mustGet :: "assembler \<Rightarrow> nat \<Rightarrow> assembly_error + partial_block" where
  "mustGet a i = (case map_of (as_partials a) i of Some p \<Rightarrow> Inr p | None \<Rightarrow> Inl (NoPartial i))"

definition finish :: "assembler \<Rightarrow> finish_reason" where
  "finish a = (case as_finish a of Some r \<Rightarrow> r | None \<Rightarrow> FinStop)"

fun map_result :: "('a \<Rightarrow> 'x + 'b) \<Rightarrow> 'a list \<Rightarrow> 'x + 'b list" where
  "map_result f [] = Inr []"
| "map_result f (x # xs) = rbind (f x) (\<lambda>y. rbind (map_result f xs) (\<lambda>ys. Inr (y # ys)))"

fun filter_mask :: "bool list \<Rightarrow> 'a list \<Rightarrow> 'a list" where
  "filter_mask (b # bs) (x # xs) = (if b then x # filter_mask bs xs else filter_mask bs xs)"
| "filter_mask _ _ = []"

definition assembled :: "assembler \<Rightarrow> assembly_error + (content_block list \<times> replay_envelope option)" where
  "assembled a =
     rbind (map_result (\<lambda>i. rbind (mustGet a i) (\<lambda>p. assemble p i)) (as_order a)) (\<lambda>all.
       let kept = (if finish a = FinMaxTokens then Some (map (\<lambda>b. block_type b \<noteq> ''tool-call'') all) else None);
           blocks = (case kept of None \<Rightarrow> all | Some k \<Rightarrow> filter_mask k all)
       in Inr (blocks,
            case as_replay a of
              None \<Rightarrow> None
            | Some env \<Rightarrow>
                (case re_blocks env of
                   None \<Rightarrow> Some env
                 | Some rb \<Rightarrow>
                     if length rb \<noteq> length all then None
                     else (case kept of
                         None \<Rightarrow> Some env
                       | Some k \<Rightarrow>
                           if length blocks = length all then Some env
                           else Some \<lparr>re_response = re_response env, re_blocks = Some (filter_mask k rb)\<rparr>))))"

definition blocks :: "assembler \<Rightarrow> assembly_error + content_block list" where
  "blocks a = rbind (assembled a) (\<lambda>(bs, _). Inr bs)"

definition replayState :: "assembler \<Rightarrow> assembly_error + replay_envelope option" where
  "replayState a = rbind (assembled a) (\<lambda>(_, r). Inr r)"

fun visible_text :: "content_block \<Rightarrow> bool" where
  "visible_text (TextBlock s) = (\<not> blank s)"
| "visible_text (ReasoningBlock s) = (\<not> blank s)"
| "visible_text _ = False"

definition interrupted_block :: "assembler \<Rightarrow> nat \<Rightarrow> assembly_error + content_block option" where
  "interrupted_block a i =
     rbind (mustGet a i) (\<lambda>p.
       let t = (case pb_block p of Some b \<Rightarrow> block_type b | None \<Rightarrow> pb_type p)
       in if t \<noteq> ''text'' \<and> t \<noteq> ''reasoning'' then Inr None
          else rbind (assemble p i) (\<lambda>b. Inr (Some b)))"

definition interruptedBlocks :: "assembler \<Rightarrow> assembly_error + content_block list" where
  "interruptedBlocks a =
     rbind (map_result (interrupted_block a) (as_order a)) (\<lambda>bs.
       Inr (filter visible_text (List.map_filter id bs)))"

definition createMessage :: "string \<Rightarrow> role \<Rightarrow> content_block list \<Rightarrow> message_source \<Rightarrow> message" where
  "createMessage uuid r content source =
     \<lparr>msg_id = uuid, msg_role = r, msg_content = content, msg_source = source\<rparr>"

definition createUserMessage :: "string \<Rightarrow> content_block list \<Rightarrow> message_source \<Rightarrow> message" where
  "createUserMessage uuid content source = createMessage uuid RoleUser content source"

definition createAssistantMessage ::
  "string \<Rightarrow> content_block list \<Rightarrow> string \<Rightarrow> string \<Rightarrow> json option \<Rightarrow> message" where
  "createAssistantMessage uuid content provider model replay =
     createMessage uuid RoleAssistant content (ModelSource provider model replay)"

definition createToolResultMessage :: "string \<Rightarrow> string \<Rightarrow> content_block list \<Rightarrow> bool \<Rightarrow> message" where
  "createToolResultMessage uuid callId content isError =
     createUserMessage uuid [ToolResultBlock callId content (Some isError)] (ToolSource callId)"

fun isTokenDelta :: "stream_chunk \<Rightarrow> bool" where
  "isTokenDelta (ChTextDelta _ s) = (s \<noteq> [])"
| "isTokenDelta (ChReasoningDelta _ s) = (s \<noteq> [])"
| "isTokenDelta (ChToolCallDelta _ _ n s) = (s \<noteq> [] \<or> n \<noteq> None)"
| "isTokenDelta _ = False"

definition assembledMessage :: "string \<Rightarrow> assembler \<Rightarrow> message_source \<Rightarrow> assembly_error + message" where
  "assembledMessage uuid a source =
     rbind (blocks a) (\<lambda>bs. Inr (createMessage uuid RoleAssistant bs source))"

section \<open>Interleaving\<close>

text \<open>
  The reference: the block index of a chunk, and the state of one block as a fold over the
  chunks of its own index only.
\<close>

fun chunk_index :: "stream_chunk \<Rightarrow> nat option" where
  "chunk_index (ChBlockStart i _) = Some i"
| "chunk_index (ChTextDelta i _) = Some i"
| "chunk_index (ChReasoningDelta i _) = Some i"
| "chunk_index (ChToolCallDelta i _ _ _) = Some i"
| "chunk_index (ChBlockEnd i _) = Some i"
| "chunk_index _ = None"

fun chunk_type :: "stream_chunk \<Rightarrow> string" where
  "chunk_type (ChBlockStart _ t) = t"
| "chunk_type (ChTextDelta _ _) = ''text''"
| "chunk_type (ChReasoningDelta _ _) = ''reasoning''"
| "chunk_type (ChToolCallDelta _ _ _ _) = ''tool-call''"
| "chunk_type (ChBlockEnd _ b) = block_type b"
| "chunk_type _ = []"

fun chunk_effect :: "stream_chunk \<Rightarrow> partial_block \<Rightarrow> partial_block" where
  "chunk_effect (ChTextDelta _ s) p = p\<lparr>pb_text := pb_text p @ s\<rparr>"
| "chunk_effect (ChReasoningDelta _ s) p = p\<lparr>pb_text := pb_text p @ s\<rparr>"
| "chunk_effect (ChToolCallDelta _ c n s) p =
     p\<lparr>pb_callId := Some c,
       pb_callName := (case n of Some (ch # cs) \<Rightarrow> Some (ch # cs) | _ \<Rightarrow> pb_callName p),
       pb_callArguments := pb_callArguments p @ s\<rparr>"
| "chunk_effect (ChBlockEnd _ b) p = p\<lparr>pb_block := Some b\<rparr>"
| "chunk_effect _ p = p"

definition block_step :: "partial_block option \<Rightarrow> stream_chunk \<Rightarrow> partial_block option" where
  "block_step o' c =
     (let p = (case o' of Some q \<Rightarrow> q | None \<Rightarrow> new_partial (chunk_type c))
      in Some (if pb_block p \<noteq> None then p else chunk_effect c p))"

definition block_state :: "nat \<Rightarrow> stream_chunk list \<Rightarrow> partial_block option" where
  "block_state i cs = foldl block_step None (filter (\<lambda>c. chunk_index c = Some i) cs)"

fun first_seen :: "stream_chunk list \<Rightarrow> nat list \<Rightarrow> nat list" where
  "first_seen [] acc = acc"
| "first_seen (c # cs) acc =
     first_seen cs (case chunk_index c of Some i \<Rightarrow> if i \<in> set acc then acc else acc @ [i] | None \<Rightarrow> acc)"

definition assembler_ok :: "assembler \<Rightarrow> bool" where
  "assembler_ok a \<longleftrightarrow> as_order a = map_keys (as_partials a) \<and> distinct (as_order a)"

lemma ensure_ok: "assembler_ok a \<Longrightarrow> assembler_ok (ensure a i t)"
  by (auto simp: assembler_ok_def ensure_def map_set_fresh map_of_eq_None_iff split: option.splits)

lemma map_keys_update: "map_of m k = Some v \<Longrightarrow> map_keys (map_set k w m) = map_keys m"
  by (metis map_keys_map_set map_of_None_keys option.distinct(1))

lemma update_open_ok: "assembler_ok a \<Longrightarrow> assembler_ok (update_open a i t f)"
  using ensure_ok [of a i t]
  by (auto simp: update_open_def assembler_ok_def Let_def map_keys_update split: option.splits)

lemma map_set_same: "map_of m k = Some v \<Longrightarrow> map_set k v m = m"
  by (induction k v m rule: map_set.induct) (auto split: if_splits)

lemma push_update:
  "chunk_index c = Some i \<Longrightarrow> push a c = update_open a i (chunk_type c) (chunk_effect c)"
  by (cases c) (auto simp: update_open_def Let_def map_set_same split: option.splits)

lemma push_other:
  "chunk_index c = None \<Longrightarrow> as_partials (push a c) = as_partials a \<and> as_order (push a c) = as_order a"
  by (cases c) simp_all

lemma push_ok: "assembler_ok a \<Longrightarrow> assembler_ok (push a c)"
  by (cases "chunk_index c") (simp_all add: push_update update_open_ok, auto simp: assembler_ok_def push_other)

lemma update_open_partial:
  "map_of (as_partials (update_open a i t f)) j =
     (if j = i then
        (let p = (case map_of (as_partials a) i of Some q \<Rightarrow> q | None \<Rightarrow> new_partial t)
         in Some (if pb_block p \<noteq> None then p else f p))
      else map_of (as_partials a) j)"
  by (cases "map_of (as_partials a) i") (simp_all add: update_open_def ensure_def Let_def)

lemma update_open_order:
  assumes "assembler_ok a"
  shows "as_order (update_open a i t f) =
    (if i \<in> set (as_order a) then as_order a else as_order a @ [i])"
proof (cases "map_of (as_partials a) i")
  case None
  then have "i \<notin> set (as_order a)" using assms by (simp add: assembler_ok_def map_of_None_keys)
  with None show ?thesis by (simp add: update_open_def ensure_def Let_def)
next
  case (Some p)
  then have "i \<in> set (as_order a)"
    using assms by (metis assembler_ok_def map_of_None_keys option.distinct(1))
  with Some show ?thesis by (simp add: update_open_def ensure_def Let_def)
qed

lemma push_partial:
  "map_of (as_partials (push a c)) i =
     (if chunk_index c = Some i then block_step (map_of (as_partials a) i) c else map_of (as_partials a) i)"
  by (cases "chunk_index c") (simp_all add: push_other push_update update_open_partial block_step_def)

lemma push_order:
  assumes "assembler_ok a"
  shows "as_order (push a c) =
    (case chunk_index c of Some i \<Rightarrow> if i \<in> set (as_order a) then as_order a else as_order a @ [i]
      | None \<Rightarrow> as_order a)"
  using assms by (cases "chunk_index c") (simp_all add: push_other push_update update_open_order)

lemma run_partials:
  "map_of (as_partials (foldl push a cs)) i =
   foldl block_step (map_of (as_partials a) i) (filter (\<lambda>c. chunk_index c = Some i) cs)"
  by (induction cs arbitrary: a) (simp_all add: push_partial)

lemma run_order:
  "assembler_ok a \<Longrightarrow> as_order (foldl push a cs) = first_seen cs (as_order a)"
proof (induction cs arbitrary: a)
  case (Cons c cs)
  have "as_order (foldl push (push a c) cs) = first_seen cs (as_order (push a c))"
    by (rule Cons.IH [OF push_ok [OF Cons.prems]])
  then show ?case by (simp add: push_order [OF Cons.prems] split: option.splits)
qed simp

lemma run_ok: "assembler_ok a \<Longrightarrow> assembler_ok (foldl push a cs)"
  by (induction cs arbitrary: a) (simp_all add: push_ok)

lemma newAssembler_ok: "assembler_ok newAssembler"
  by (simp add: assembler_ok_def newAssembler_def)

section \<open>Masks and results\<close>

lemma map_result_ok: "map_result f xs = Inr ys \<longleftrightarrow> list_all2 (\<lambda>x y. f x = Inr y) xs ys"
  by (induction xs arbitrary: ys) (auto simp: result_simps list_all2_Cons1)

lemma map_result_total: "(\<And>x. x \<in> set xs \<Longrightarrow> is_ok (f x)) \<Longrightarrow> is_ok (map_result f xs)"
  by (induction xs) (fastforce simp: is_ok_iff)+

lemma filter_mask_filter: "filter_mask (map P xs) xs = filter P xs"
  by (induction xs) simp_all

lemma filter_mask_zip_map:
  "length xs = length ys \<Longrightarrow>
   zip (filter_mask (map P xs) xs) (filter_mask (map P xs) ys) = filter (\<lambda>p. P (fst p)) (zip xs ys)"
  by (induction xs ys rule: list_induct2) simp_all

lemma filter_mask_length: "length xs = length ys \<Longrightarrow>
   length (filter_mask (map P xs) ys) = length (filter P xs)"
  by (induction xs ys rule: list_induct2) simp_all

lemma filter_full: "length (filter P xs) = length xs \<Longrightarrow> filter P xs = xs"
  by (metis filter_id_conv length_filter_less less_irrefl)

lemma mustGet_known: "assembler_ok a \<Longrightarrow> i \<in> set (as_order a) \<Longrightarrow> \<exists>p. mustGet a i = Inr p"
  by (cases "map_of (as_partials a) i") (simp_all add: assembler_ok_def mustGet_def map_of_None_keys)

lemma newAssembler_fields [simp]: "as_order newAssembler = []" "as_partials newAssembler = []"
  by (simp_all add: newAssembler_def)

lemma assembled_mask:
  assumes "map_result (\<lambda>i. rbind (mustGet a i) (\<lambda>p. assemble p i)) (as_order a) = Inr all"
  shows "\<exists>r. assembled a = Inr (filter (\<lambda>b. finish a = FinMaxTokens \<longrightarrow> block_type b \<noteq> ''tool-call'') all, r)
    \<and> (\<forall>env0 rb env. as_replay a = Some env0 \<longrightarrow> re_blocks env0 = Some rb \<longrightarrow> r = Some env \<longrightarrow>
        length rb = length all \<and> re_response env = re_response env0
        \<and> (\<exists>rb'. re_blocks env = Some rb' \<and>
            zip (filter (\<lambda>b. finish a = FinMaxTokens \<longrightarrow> block_type b \<noteq> ''tool-call'') all) rb' =
            filter (\<lambda>p. finish a = FinMaxTokens \<longrightarrow> block_type (fst p) \<noteq> ''tool-call'') (zip all rb)
            \<and> length rb' = length (filter (\<lambda>b. finish a = FinMaxTokens \<longrightarrow> block_type b \<noteq> ''tool-call'') all)))"
proof (cases "finish a = FinMaxTokens")
  case False
  then show ?thesis
    using assms by (auto simp: assembled_def Let_def split: option.splits if_splits)
next
  case True
  let ?P = "\<lambda>b. block_type b \<noteq> ''tool-call''"
  have len: "length (filter_mask (map ?P all) rb) = length (filter ?P all)" if "length rb = length all"
    for rb :: "json list"
    using arg_cong [OF filter_mask_zip_map [of all rb ?P], of length] that filter_mask_length [of all rb ?P]
    by (simp add: filter_mask_filter)
  have zip: "zip (filter ?P all) (filter_mask (map ?P all) rb) = filter (\<lambda>p. ?P (fst p)) (zip all rb)"
    if "length rb = length all" for rb :: "json list"
    using filter_mask_zip_map [of all rb ?P] that by (simp add: filter_mask_filter)
  have full: "filter (\<lambda>p. ?P (fst p)) (zip all rb) = zip all rb \<and> filter ?P all = all"
    if "length (filter ?P all) = length all" for rb :: "json list"
  proof -
    have "filter ?P all = all" by (rule filter_full [OF that])
    then have "\<forall>b \<in> set all. ?P b" by (simp add: filter_id_conv)
    then have "\<forall>p \<in> set (zip all rb). ?P (fst p)" by (auto dest: set_zip_leftD)
    then show ?thesis using \<open>filter ?P all = all\<close> by (simp add: filter_id_conv)
  qed
  show ?thesis
    using assms True len zip full
    by (auto simp: assembled_def Let_def filter_mask_filter split: option.splits if_splits)
qed

section \<open>Properties\<close>

text \<open>
  C34. Interleaving does not matter: after any chunk stream the blocks are ordered by first
  appearance, each once, and the state of a block is the fold of the chunks of its own index
  alone.
\<close>

theorem assembly_interleaves:
  "as_order (foldl push newAssembler cs) = first_seen cs []
   \<and> distinct (as_order (foldl push newAssembler cs))
   \<and> map_of (as_partials (foldl push newAssembler cs)) i = block_state i cs"
proof -
  have "assembler_ok (foldl push newAssembler cs)" by (rule run_ok [OF newAssembler_ok])
  then show ?thesis
    by (metis run_order [OF newAssembler_ok] newAssembler_fields run_partials block_state_def
        assembler_ok_def map_of.simps(1))
qed

text \<open>
  Emitted blocks and replay entries stay aligned: truncation by the token ceiling drops
  exactly the tool calls, and the replay entries that are kept are those of the kept blocks,
  position by position; an envelope whose entries do not match the emitted blocks is
  discarded.
\<close>

theorem replay_aligned:
  assumes "as_replay a = Some env0" and "re_blocks env0 = Some rb"
    and "blocks a = Inr bs" and "replayState a = Inr (Some env)"
  shows "\<exists>all rb'. length rb = length all \<and> re_blocks env = Some rb' \<and> length rb' = length bs
    \<and> bs = filter (\<lambda>b. finish a = FinMaxTokens \<longrightarrow> block_type b \<noteq> ''tool-call'') all
    \<and> zip bs rb' = filter (\<lambda>p. finish a = FinMaxTokens \<longrightarrow> block_type (fst p) \<noteq> ''tool-call'') (zip all rb)"
proof -
  from assms(3) obtain r where r: "assembled a = Inr (bs, r)"
    by (auto simp: blocks_def result_simps)
  then have "r = Some env" using assms(4) by (simp add: replayState_def)
  from r obtain all where all: "map_result (\<lambda>i. rbind (mustGet a i) (\<lambda>p. assemble p i)) (as_order a) = Inr all"
    by (auto simp: assembled_def result_simps)
  from assembled_mask [OF all] r \<open>r = Some env\<close> assms(1,2) show ?thesis by fastforce
qed

definition sample_stream :: "stream_chunk list" where
  "sample_stream =
     [ChTextDelta 0 ''hi'', ChToolCallDelta 1 ''c'' (Some ''ls'') ''{'', ChTextDelta 0 ''!'',
      ChFinish FinMaxTokens (Some \<lparr>re_response = JNull, re_blocks = Some [JBool True, JBool False]\<rparr>)]"

lemma sample_stream_blocks:
  "blocks (foldl push newAssembler sample_stream) = Inr [TextBlock ''hi!'']"
  "replayState (foldl push newAssembler sample_stream) =
     Inr (Some \<lparr>re_response = JNull, re_blocks = Some [JBool True]\<rparr>)"
  "as_replay (foldl push newAssembler sample_stream) =
     Some \<lparr>re_response = JNull, re_blocks = Some [JBool True, JBool False]\<rparr>"
  by (simp_all add: sample_stream_def newAssembler_def update_open_def ensure_def new_partial_def blocks_def
      replayState_def assembled_def mustGet_def assemble_def finish_def Let_def)

theorem replay_aligned_witness:
  "\<exists>all rb'. length [JBool True, JBool False] = length all
    \<and> re_blocks \<lparr>re_response = JNull, re_blocks = Some [JBool True]\<rparr> = Some rb'
    \<and> length rb' = length [TextBlock ''hi!'']
    \<and> [TextBlock ''hi!''] = filter (\<lambda>b. finish (foldl push newAssembler sample_stream) = FinMaxTokens
          \<longrightarrow> block_type b \<noteq> ''tool-call'') all"
proof -
  have "re_blocks \<lparr>re_response = JNull, re_blocks = Some [JBool True, JBool False]\<rparr> =
      Some [JBool True, JBool False]" by simp
  from replay_aligned [OF sample_stream_blocks(3) this sample_stream_blocks(1,2)] show ?thesis
    by (elim exE conjE) (intro exI conjI; assumption)
qed

text \<open>
  C38. An interrupted stream always finalises: for every chunk stream the interrupted prefix
  assembles without error, to visible text and reasoning blocks only; and once a block is
  closed, later chunks of its index change nothing.
\<close>

theorem interrupted_total:
  "(\<exists>bs. interruptedBlocks (foldl push newAssembler cs) = Inr bs \<and> list_all visible_text bs)
   \<and> (\<forall>a c i p. chunk_index c = Some i \<and> map_of (as_partials a) i = Some p \<and> pb_block p \<noteq> None
        \<longrightarrow> push a c = a)"
proof
  let ?a = "foldl push newAssembler cs"
  have ok: "assembler_ok ?a" by (rule run_ok [OF newAssembler_ok])
  have "is_ok (interrupted_block ?a i)" if i: "i \<in> set (as_order ?a)" for i
  proof -
    obtain p where "mustGet ?a i = Inr p" using mustGet_known [OF ok i] by blast
    then show ?thesis
      by (auto simp: interrupted_block_def assemble_def Let_def split: option.splits)
  qed
  then have "is_ok (map_result (interrupted_block ?a) (as_order ?a))" by (rule map_result_total)
  then show "\<exists>bs. interruptedBlocks ?a = Inr bs \<and> list_all visible_text bs"
    by (auto simp: is_ok_iff interruptedBlocks_def list_all_iff)
  show "\<forall>a c i p. chunk_index c = Some i \<and> map_of (as_partials a) i = Some p \<and> pb_block p \<noteq> None
        \<longrightarrow> push a c = a"
    by (auto simp: push_update update_open_def ensure_def)
qed

theorem interrupted_total_witness:
  "\<exists>bs. interruptedBlocks (foldl push newAssembler sample_stream) = Inr bs \<and> list_all visible_text bs"
  using interrupted_total [of sample_stream] by blast

end
