(* ===== verification/Doubles.thy ===== *)
theory Doubles imports Prelude "HOL-Library.Log_Nat" begin

text \<open>
  JavaScript numbers as they come from configuration (\<open>NaN\<close> and the infinities included),
  and the rounding of a finite result to a double: 53 significant bits, ties to even, with the
  subnormal spacing of 2^-1074. Results of magnitude 2^1024 and above overflow in the language
  and are outside \<open>rd\<close>; the sources that use it clamp to bounds far below.
\<close>

section \<open>Numbers\<close>

datatype num_value = Fin rat | PosInf | NegInf | NotANumber

fun finite_number :: "num_value \<Rightarrow> bool" where
  "finite_number (Fin _) = True"
| "finite_number _ = False"

fun num_rat :: "num_value \<Rightarrow> rat" where
  "num_rat (Fin r) = r"
| "num_rat _ = 0"

lemma finite_number_iff: "finite_number v \<longleftrightarrow> (\<exists>r. v = Fin r)"
  by (cases v) simp_all

section \<open>Rounding to double precision\<close>

text \<open>The exponent \<open>e\<close> with \<open>2^e \<le> x < 2^(e+1)\<close>, for positive \<open>x\<close>.\<close>

definition binade :: "rat \<Rightarrow> int" where
  "binade x =
     (let (p, q) = quotient_of x;
          k = int (floorlog 2 (nat p)) - int (floorlog 2 (nat q))
      in if 2 powi k \<le> x then k else k - 1)"

definition round_even :: "rat \<Rightarrow> int" where
  "round_even r =
     (let n = \<lfloor>r\<rfloor>; f = r - of_int n
      in if f < 1 / 2 \<or> (f = 1 / 2 \<and> even n) then n else n + 1)"

definition ulp :: "rat \<Rightarrow> rat" where
  "ulp x = 2 powi (max (binade x - 52) (- 1074))"

definition rd :: "rat \<Rightarrow> rat" where
  "rd x = (if x = 0 then 0 else sgn x * of_int (round_even (\<bar>x\<bar> / ulp \<bar>x\<bar>)) * ulp \<bar>x\<bar>)"

lemma round_even_bounds: "\<lfloor>r\<rfloor> \<le> round_even r \<and> round_even r \<le> \<lfloor>r\<rfloor> + 1"
  by (simp add: round_even_def Let_def)

lemma round_even_of_int [simp]: "round_even (of_int n) = n"
  by (simp add: round_even_def Let_def)

lemma round_even_mono:
  assumes "r \<le> s"
  shows "round_even r \<le> round_even s"
proof (cases "\<lfloor>r\<rfloor> = \<lfloor>s\<rfloor>")
  case True
  then show ?thesis using assms by (auto simp: round_even_def Let_def)
next
  case False
  then have "\<lfloor>r\<rfloor> + 1 \<le> \<lfloor>s\<rfloor>" using floor_mono [OF assms] by simp
  then show ?thesis using round_even_bounds [of r] round_even_bounds [of s] by linarith
qed

lemma powi_mono: "i \<le> j \<Longrightarrow> (2::rat) powi i \<le> 2 powi j"
  by (simp add: power_int_increasing)

lemma powi_less_cancel: "(2::rat) powi i < 2 powi j \<Longrightarrow> i < j"
  using powi_mono [of j i] by (meson leD le_less_linear)

lemma binade_bounds:
  assumes "0 < x"
  shows "2 powi (binade x) \<le> x \<and> x < 2 powi (binade x + 1)"
proof -
  obtain p q where pq: "quotient_of x = (p, q)" by (cases "quotient_of x")
  then have q: "0 < q" and x: "x = of_int p / of_int q"
    by (auto simp: quotient_of_denom_pos intro: quotient_of_div)
  then have p: "0 < p" using assms by (simp add: zero_less_divide_iff)
  define a where "a = floorlog 2 (nat p)"
  define b where "b = floorlog 2 (nat q)"
  have pa: "2 ^ (a - 1) \<le> nat p" "nat p < 2 ^ a" "0 < a"
    using p floorlog_bounds [of "nat p" 2] by (auto simp: a_def floorlog_def)
  have qb: "2 ^ (b - 1) \<le> nat q" "nat q < 2 ^ b" "0 < b"
    using q floorlog_bounds [of "nat q" 2] by (auto simp: b_def floorlog_def)
  have rat_le: "(2::rat) ^ n \<le> of_int z" if "2 ^ n \<le> nat z" for n z
  proof -
    from that have "int (2 ^ n) \<le> z" by (cases "0 \<le> z") (simp_all add: le_nat_iff)
    then have "(of_int (int (2 ^ n)) :: rat) \<le> of_int z" by (simp only: of_int_le_iff)
    then show ?thesis by simp
  qed
  have rat_less: "of_int z < (2::rat) ^ n" if "nat z < 2 ^ n" for n z
  proof -
    from that have "z < int (2 ^ n)" by linarith
    then have "of_int z < (of_int (int (2 ^ n)) :: rat)" by (simp only: of_int_less_iff)
    then show ?thesis by simp
  qed
  have powi: "(2::rat) powi (int m - int n) = 2 ^ m / 2 ^ n" for m n
    by (simp add: power_int_diff power_int_of_nat)
  have upper: "x < 2 powi (int a - int b + 1)"
  proof -
    have "of_int p / of_int q < (2::rat) ^ a / 2 ^ (b - 1)"
      using rat_less [OF pa(2)] rat_le [OF qb(1)] p q by (intro frac_less) simp_all
    also have "\<dots> = 2 powi (int a - int (b - 1))" by (simp only: powi)
    finally show ?thesis using qb(3) x by (simp add: of_nat_diff algebra_simps)
  qed
  have lower: "2 powi (int a - int b - 1) \<le> x"
  proof -
    have "(2::rat) ^ (a - 1) / 2 ^ b \<le> of_int p / of_int q"
      using rat_le [OF pa(1)] rat_less [OF qb(2)] p q by (intro frac_le) simp_all
    then show ?thesis using pa(3) x by (simp only: powi [symmetric]) (simp add: of_nat_diff algebra_simps)
  qed
  show ?thesis
    using upper lower by (simp add: binade_def pq a_def [symmetric] b_def [symmetric] Let_def not_le)
qed

lemma binade_mono:
  assumes "0 < x" and "x \<le> y"
  shows "binade x \<le> binade y"
proof -
  have "2 powi (binade x) < (2::rat) powi (binade y + 1)"
    using binade_bounds [of x] binade_bounds [of y] assms by linarith
  then show ?thesis using powi_less_cancel by fastforce
qed

lemma ulp_pos: "0 < ulp x"
  by (simp add: ulp_def)

lemma rd_zero [simp]: "rd 0 = 0"
  by (simp add: rd_def)

lemma rd_pos: "0 < x \<Longrightarrow> rd x = of_int (round_even (x / ulp x)) * ulp x"
  by (simp add: rd_def)

lemma rd_nonneg: "0 \<le> x \<Longrightarrow> 0 \<le> rd x"
proof (cases "x = 0")
  case False
  assume "0 \<le> x"
  with False have "0 < x" by simp
  then have "0 \<le> x / ulp x" using ulp_pos [of x] by simp
  then have "0 \<le> round_even (x / ulp x)"
    using round_even_bounds [of "x / ulp x"] by (meson order_trans zero_le_floor)
  then show ?thesis using \<open>0 < x\<close> ulp_pos [of x] by (simp add: rd_pos)
qed simp

lemma rd_mono_pos:
  assumes x: "0 < x" and le: "x \<le> y"
  shows "rd x \<le> rd y"
proof (cases "ulp x = ulp y")
  case True
  have "round_even (x / ulp y) \<le> round_even (y / ulp y)"
    using le ulp_pos [of y] by (intro round_even_mono divide_right_mono) simp_all
  then show ?thesis using x le True ulp_pos [of y] by (simp add: rd_pos)
next
  case False
  define ex where "ex = max (binade x - 52) (- 1074)"
  define ey where "ey = max (binade y - 52) (- 1074)"
  have b: "binade x \<le> binade y" by (rule binade_mono [OF x le])
  have ne: "ex \<noteq> ey" using False by (auto simp: ulp_def ex_def ey_def)
  then have ey: "ey = binade y - 52" and bx: "binade x + 1 \<le> binade y" and ex: "ex \<le> binade y"
    using b by (auto simp: ex_def ey_def max_def split: if_splits)
  let ?P = "(2::rat) powi (binade y)"
  have split: "?P = of_int (2 ^ n) * 2 powi e" if "binade y = e + int n" for n e
    using that by (simp add: power_int_add power_int_of_nat)
  have "x < ?P"
    using binade_bounds [OF x] powi_mono [OF bx] by linarith
  obtain n where n: "binade y = ex + int n" using ex by (metis zle_iff_zadd)
  have "x / ulp x \<le> of_int (2 ^ n)"
    using \<open>x < ?P\<close> split [OF n] ulp_pos [of x] by (simp add: ulp_def ex_def [symmetric] pos_divide_le_eq)
  from round_even_mono [OF this] have "rd x \<le> ?P"
    using ulp_pos [of x] x split [OF n]
    by (simp add: rd_pos ulp_def ex_def [symmetric] del: of_int_power)
  moreover have n52: "binade y = ey + int 52" using ey by simp
  have "of_int (4503599627370496) \<le> y / ulp y"
    using binade_bounds [of y] x le split [OF n52] ulp_pos [of y]
    by (simp add: ulp_def ey_def [symmetric] pos_le_divide_eq)
  from round_even_mono [OF this, unfolded round_even_of_int] have "?P \<le> rd y"
    using ulp_pos [of y] x le split [OF n52]
    by (simp add: rd_pos ulp_def ey_def [symmetric] del: of_int_power)
  ultimately show ?thesis by linarith
qed

text \<open>Rounding keeps the order of non-negative results.\<close>

lemma rd_mono: "0 \<le> x \<Longrightarrow> x \<le> y \<Longrightarrow> rd x \<le> rd y"
  using rd_mono_pos [of x y] rd_nonneg [of y] by (cases "x = 0") simp_all

text \<open>Integers below 2^53 are exact, a result is off by at most half a unit in the last place, and the
  floor of a quotient of such integers is their integer quotient.\<close>

lemma rd_integer:
  assumes "0 < n" and "n < 2 ^ 53"
  shows "rd (of_int n) = of_int n"
proof -
  let ?b = "binade (of_int n)"
  have b: "2 powi ?b \<le> (of_int n :: rat)" "(of_int n :: rat) < 2 powi (?b + 1)"
    using binade_bounds [of "of_int n"] assms(1) by simp_all
  have "(of_int n :: rat) < of_int (2 ^ 53)" using assms(2) by (simp only: of_int_less_iff)
  then have "(2 :: rat) powi ?b < 2 powi 53" using b(1) by simp
  then have top: "?b < 53" by (rule powi_less_cancel)
  have "(1 :: rat) \<le> of_int n" using assms(1) by simp
  then have "(2 :: rat) powi 0 < 2 powi (?b + 1)" using b(2) by simp
  then have low: "0 \<le> ?b" using powi_less_cancel [of 0 "?b + 1"] by simp
  have u: "ulp (of_int n) = 2 powi (?b - 52)" using low by (simp add: ulp_def max_def)
  have "(of_int n :: rat) / 2 powi (?b - 52) = of_int (n * 2 ^ nat (52 - ?b))"
    using top by (simp add: power_int_diff field_simps power_int_def)
  then have "rd (of_int n) = of_int n / 2 powi (?b - 52) * 2 powi (?b - 52)"
    using assms(1) u by (simp add: rd_def del: of_int_mult)
  then show ?thesis by simp
qed

lemma rd_error:
  assumes "2 powi (- 1000) \<le> x"
  shows "rd x \<le> x * (1 + 2 powi (- 53))"
proof -
  have x: "0 < x" using assms by (rule less_le_trans [rotated]) simp
  have "2 powi (- 1000) < (2 :: rat) powi (binade x + 1)" using assms binade_bounds [OF x] by linarith
  then have b: "binade x - 52 \<ge> - 1074" using powi_less_cancel by fastforce
  have u: "ulp x = 2 powi binade x * 2 powi (- 52)"
    unfolding ulp_def max_absorb1 [OF b] using power_int_add [of "2 :: rat" "binade x" "- 52"] by simp
  have e: "of_int (round_even r) \<le> r + 1 / 2" for r
    by (simp add: round_even_def Let_def) linarith
  have "rd x \<le> (x / ulp x + 1 / 2) * ulp x"
    unfolding rd_pos [OF x] using e [of "x / ulp x"] ulp_pos [of x] by (intro mult_right_mono) simp_all
  also have "\<dots> = x + ulp x / 2" using ulp_pos [of x] by (simp add: field_simps)
  also have "ulp x / 2 \<le> x * 2 powi (- 53)"
    using binade_bounds [OF x] unfolding u by (simp add: power_int_minus field_simps)
  finally show ?thesis by (simp add: algebra_simps)
qed

lemma rd_quotient:
  assumes "0 \<le> a" "a < 2 ^ 53" "0 < b" "b < 2 ^ 54"
  shows "\<lfloor>rd (of_int a / of_int b)\<rfloor> = a div b"
proof (cases "a = 0")
  case False
  define x where "x = (of_int a / of_int b :: rat)"
  define n where "n = a div b"
  have "0 \<le> n" unfolding n_def using assms(1,3) by (simp add: pos_imp_zdiv_nonneg_iff)
  moreover have "b * n \<le> a" "a < b * n + b" unfolding n_def using div_bounds [OF assms(3), of a] by simp_all
  moreover have "1 * n \<le> b * n" by (rule mult_right_mono) (use assms(3) \<open>0 \<le> n\<close> in simp_all)
  ultimately have ab: "b * n \<le> a" "a < b * n + b" "0 \<le> n" "n \<le> a" by simp_all
  have "of_int (b * n) \<le> (of_int a :: rat)" and "of_int (a + 1) \<le> (of_int (b * (n + 1)) :: rat)"
    using ab by (simp_all only: of_int_le_iff) (simp add: algebra_simps)
  moreover have "x * (1 + 1 / of_int a) = of_int (a + 1) / of_int b"
    using assms(3) False by (simp add: x_def field_simps)
  ultimately have lo: "of_int n \<le> x" and hi: "x * (1 + 1 / of_int a) \<le> of_int (n + 1)"
    using assms(3) by (simp_all add: x_def pos_le_divide_eq pos_divide_le_eq mult.commute)
  have "of_int n \<le> rd x"
  proof (cases "n = 0")
    case True
    then show ?thesis using rd_nonneg [of x] assms by (simp add: x_def)
  next
    case False
    then show ?thesis using rd_mono [OF _ lo] rd_integer [of n] ab assms by simp
  qed
  moreover have "rd x < of_int (n + 1)"
  proof -
    have "(1 :: rat) \<le> of_int a" using assms False by simp
    have "(of_int b :: rat) < of_int (2 ^ 54)" using assms(4) by (simp only: of_int_less_iff)
    then have "1 / 2 ^ 54 \<le> x"
      using assms \<open>1 \<le> of_int a\<close> unfolding x_def by (intro frac_le) simp_all
    moreover have "(2 :: rat) powi (- 1000) \<le> 1 / 2 ^ 54"
      using powi_mono [of "- 1000" "- 54"] by (simp add: power_int_minus field_simps)
    ultimately have "rd x \<le> x * (1 + 2 powi (- 53))" using rd_error by (meson order_trans)
    moreover have "(2 :: rat) powi (- 53) < 1 / of_int a"
    proof -
      have "(of_int a :: rat) < of_int (2 ^ 53)" using assms(2) by (simp only: of_int_less_iff)
      then show ?thesis using \<open>1 \<le> of_int a\<close> by (simp add: power_int_minus field_simps)
    qed
    moreover have "0 < x" using assms False by (simp add: x_def)
    ultimately show ?thesis
      using mult_strict_left_mono [of "1 + 2 powi (- 53)" "1 + 1 / of_int a" x] hi by linarith
  qed
  ultimately show ?thesis unfolding x_def [symmetric] n_def [symmetric] by (simp add: floor_unique)
qed simp

end
