(* ===== verification/RetryPolicy.thy ===== *)
theory RetryPolicy imports Json Doubles "HOL-Library.List_Lexorder" "HOL-Library.Char_ord" begin

text \<open>
  packages/llm/llm/src/retry-policy.ts (resolution of a provider's retry configuration) and
  packages/llm/llm-retry/src/index.ts (the recovery of a failed model request). Each scheduled
  retry is an event of the session log, written before its wait; its number comes from the last
  such event of the same chain. The random sample, the fresh identity and what the awaited
  downstream recovery and the abort signals do are arguments. Retry numbers are natural
  numbers: the log that carries one event per retry has safe sequence numbers.
\<close>

section \<open>Configuration\<close>

record backoff_config =
  bc_keys :: "string list"
  bc_initialDelayMs :: "num_value option"
  bc_maxDelayMs :: "num_value option"
  bc_jitterRatio :: "num_value option"

datatype retry_config =
    NormalConfig (rc_keys: "string list") "num_value option" "string list option" "backoff_config option"
  | AlwaysConfig (rc_keys: "string list") "backoff_config option"
  | UnknownMode string

record resolved_backoff =
  rb_initialDelayMs :: rat
  rb_maxDelayMs :: rat
  rb_jitterRatio :: rat

datatype resolved_policy =
    NormalPolicy (rp_maxRetries: nat) (rp_retryableCodes: "string list") (rp_backoff: resolved_backoff)
  | AlwaysPolicy (rp_backoff: resolved_backoff)

datatype retry_config_error =
    UnknownKey string string
  | BadInitialDelay string
  | BadMaxDelay string
  | InitialAboveMax string
  | BadJitter string
  | BadMaxRetries string
  | EmptyCodes string
  | EmptyCode string
  | DuplicateCodes string
  | BadMode string

definition MAX_TIMER_DELAY_MS :: rat where
  "MAX_TIMER_DELAY_MS = 2147483647"

definition DEFAULT_RETRYABLE_CODES :: "string list" where
  "DEFAULT_RETRYABLE_CODES = [''EMPTY_RESPONSE'', ''RATE_LIMIT'', ''SERVER'', ''TIMEOUT'', ''TRANSPORT'']"

definition POLICY_KEYS :: "string list" where
  "POLICY_KEYS = [''mode'', ''maxRetries'', ''retryableCodes'', ''backoff'']"

definition BACKOFF_KEYS :: "string list" where
  "BACKOFF_KEYS = [''initialDelayMs'', ''maxDelayMs'', ''jitterRatio'']"

fun validateKeys :: "string list \<Rightarrow> string list \<Rightarrow> string \<Rightarrow> retry_config_error + unit" where
  "validateKeys [] allowed path = Inr ()"
| "validateKeys (k # ks) allowed path =
     (if k \<in> set allowed then validateKeys ks allowed path else Inl (UnknownKey path k))"

definition delay_ok :: "num_value \<Rightarrow> bool" where
  "delay_ok v \<longleftrightarrow> finite_number v \<and> 0 < num_rat v \<and> num_rat v \<le> MAX_TIMER_DELAY_MS"

definition or_default :: "num_value option \<Rightarrow> rat \<Rightarrow> num_value" where
  "or_default v d = (case v of Some n \<Rightarrow> n | None \<Rightarrow> Fin d)"

definition resolveBackoff :: "backoff_config option \<Rightarrow> string \<Rightarrow> retry_config_error + resolved_backoff" where
  "resolveBackoff config path =
     rbind (case config of None \<Rightarrow> Inr () | Some c \<Rightarrow> validateKeys (bc_keys c) BACKOFF_KEYS path) (\<lambda>_.
       let initial = or_default (Option.bind config bc_initialDelayMs) 500;
           maxDelay = or_default (Option.bind config bc_maxDelayMs) 10000;
           jitter = or_default (Option.bind config bc_jitterRatio) (rd (1 / 10))
       in rbind (guard (delay_ok initial) (BadInitialDelay path)) (\<lambda>_.
          rbind (guard (delay_ok maxDelay) (BadMaxDelay path)) (\<lambda>_.
          rbind (guard (num_rat initial \<le> num_rat maxDelay) (InitialAboveMax path)) (\<lambda>_.
          rbind (guard (finite_number jitter \<and> 0 \<le> num_rat jitter \<and> num_rat jitter \<le> 1) (BadJitter path)) (\<lambda>_.
            Inr \<lparr>rb_initialDelayMs = num_rat initial, rb_maxDelayMs = num_rat maxDelay,
                 rb_jitterRatio = num_rat jitter\<rparr>)))))"

definition resolveRetryPolicy :: "retry_config option \<Rightarrow> string \<Rightarrow> retry_config_error + resolved_policy" where
  "resolveRetryPolicy config path =
     (case config of
        None \<Rightarrow> rbind (resolveBackoff None (path @ ''.backoff'')) (\<lambda>b. Inr (NormalPolicy 5 DEFAULT_RETRYABLE_CODES b))
      | Some (NormalConfig ks mr cs bo) \<Rightarrow>
          rbind (validateKeys ks POLICY_KEYS path) (\<lambda>_.
            let maxRetries = or_default mr 5;
                codes = (case cs of Some c \<Rightarrow> c | None \<Rightarrow> DEFAULT_RETRYABLE_CODES)
            in rbind (guard (finite_number maxRetries \<and> is_safe_integer (num_rat maxRetries)
                        \<and> 0 \<le> num_rat maxRetries) (BadMaxRetries path)) (\<lambda>_.
               rbind (guard (codes \<noteq> []) (EmptyCodes path)) (\<lambda>_.
               rbind (guard (\<not> list_ex (\<lambda>c. c = []) codes) (EmptyCode path)) (\<lambda>_.
               rbind (guard (card (set codes) = length codes) (DuplicateCodes path)) (\<lambda>_.
               rbind (resolveBackoff bo (path @ ''.backoff'')) (\<lambda>b.
                 Inr (NormalPolicy (nat \<lfloor>num_rat maxRetries\<rfloor>) codes b)))))))
      | Some (AlwaysConfig ks bo) \<Rightarrow>
          rbind (validateKeys ks POLICY_KEYS path) (\<lambda>_.
          rbind (resolveBackoff bo (path @ ''.backoff'')) (\<lambda>b. Inr (AlwaysPolicy b)))
      | Some (UnknownMode _) \<Rightarrow> Inl (BadMode path))"

section \<open>Delays and chains\<close>

text \<open>\<open>2 ** 1024\<close> is infinite, so that the delay is the maximum there.\<close>

definition localDelay :: "resolved_backoff \<Rightarrow> nat \<Rightarrow> rat \<Rightarrow> rat" where
  "localDelay c retry sample =
     (let exponent = min (retry - 1) 1024;
          exponential = (if exponent = 1024 then rb_maxDelayMs c
            else min (rd (rb_initialDelayMs c * 2 ^ exponent)) (rb_maxDelayMs c));
          jitter = rd (rd (1 - rb_jitterRatio c) + rd (rd (2 * rb_jitterRatio c) * sample))
      in min (rd (exponential * jitter)) (rb_maxDelayMs c))"

text \<open>The key is the array whose \<open>JSON.stringify\<close> the source takes.\<close>

fun retryPolicyKey :: "resolved_policy \<Rightarrow> json" where
  "retryPolicyKey (AlwaysPolicy b) =
     JArr [JStr ''always'', JNum (rb_initialDelayMs b), JNum (rb_maxDelayMs b), JNum (rb_jitterRatio b)]"
| "retryPolicyKey (NormalPolicy n codes b) =
     JArr [JStr ''normal'', JNum (of_nat n), JArr (map JStr (sort codes)),
           JNum (rb_initialDelayMs b), JNum (rb_maxDelayMs b), JNum (rb_jitterRatio b)]"

record llm_failure =
  lf_message :: string
  lf_code :: string
  lf_providerRetryAfterMs :: "num_value option"

record retry_event =
  re_retryId :: string
  re_turn :: int
  re_step :: int
  re_provider :: string
  re_policyKey :: json
  re_retry :: nat
  re_maxRetries :: "nat option"
  re_delayMs :: rat
  re_failure :: llm_failure

datatype retry_log_event =
    LogRetry retry_event
  | LogRetryStarted string int int nat
  | LogOther

section \<open>Recovery\<close>

datatype downstream = DownDecision bool | DownError

record retry_request =
  rq_turn :: int
  rq_step :: int
  rq_provider :: string
  rq_failure :: llm_failure
  rq_policy :: "resolved_policy option"

text \<open>
  What the environment does: the plugin was disposed before the call; a signal had aborted
  when it entered (\<open>always\<close> mode) or when the retry is planned; the outcome of the awaited
  downstream recovery, \<open>DownDecision True\<close> a retry; the random sample; the fresh identity.
\<close>

record retry_env =
  en_disposed :: bool
  en_abortedEntry :: bool
  en_abortedNow :: bool
  en_downstream :: downstream
  en_random :: rat
  en_uuid :: string

datatype recovery =
    DelegateNext
  | NoDecision
  | DownstreamRetry
  | Backoff retry_event

fun same_chain :: "retry_request \<Rightarrow> json \<Rightarrow> retry_log_event \<Rightarrow> bool" where
  "same_chain rq key (LogRetry e) \<longleftrightarrow>
     re_turn e = rq_turn rq \<and> re_step e = rq_step rq \<and> re_provider e = rq_provider rq \<and> re_policyKey e = key"
| "same_chain rq key _ = False"

definition priorPolicyRetry :: "retry_log_event list \<Rightarrow> retry_request \<Rightarrow> json \<Rightarrow> retry_event option" where
  "priorPolicyRetry events rq key =
     (case find (same_chain rq key) (rev events) of Some (LogRetry e) \<Rightarrow> Some e | _ \<Rightarrow> None)"

fun policy_max :: "resolved_policy \<Rightarrow> nat option" where
  "policy_max (NormalPolicy n _ _) = Some n"
| "policy_max (AlwaysPolicy _) = None"

definition retry_delay :: "resolved_policy \<Rightarrow> llm_failure \<Rightarrow> nat \<Rightarrow> rat \<Rightarrow> rat option" where
  "retry_delay policy failure retry sample =
     (case lf_providerRetryAfterMs failure of
        Some v \<Rightarrow>
          if finite_number v \<and> 0 < num_rat v then
            (if rb_maxDelayMs (rp_backoff policy) < num_rat v then
               (if policy_max policy \<noteq> None then None else Some (localDelay (rp_backoff policy) retry sample))
             else Some (num_rat v))
          else Some (localDelay (rp_backoff policy) retry sample)
      | None \<Rightarrow> Some (localDelay (rp_backoff policy) retry sample))"

definition retryData :: "retry_request \<Rightarrow> resolved_policy \<Rightarrow> nat \<Rightarrow> string \<Rightarrow> rat \<Rightarrow> retry_event" where
  "retryData rq policy retry retryId delayMs =
     \<lparr>re_retryId = retryId, re_turn = rq_turn rq, re_step = rq_step rq, re_provider = rq_provider rq,
      re_policyKey = retryPolicyKey policy, re_retry = retry, re_maxRetries = policy_max policy,
      re_delayMs = delayMs, re_failure = rq_failure rq\<rparr>"

definition plan_retry :: "retry_log_event list \<Rightarrow> retry_request \<Rightarrow> retry_env \<Rightarrow> resolved_policy \<Rightarrow> recovery" where
  "plan_retry events rq env policy =
     (let prior = priorPolicyRetry events rq (retryPolicyKey policy);
          previousRetry = (case prior of Some e \<Rightarrow> re_retry e | None \<Rightarrow> 0);
          retry = previousRetry + 1;
          retryId = (case prior of Some e \<Rightarrow> re_retryId e | None \<Rightarrow> en_uuid env)
      in if (case policy_max policy of Some n \<Rightarrow> n \<le> previousRetry | None \<Rightarrow> False) then DelegateNext
         else (case retry_delay policy (rq_failure rq) retry (en_random env) of
                 None \<Rightarrow> DelegateNext
               | Some delayMs \<Rightarrow>
                   if en_abortedNow env then NoDecision
                   else Backoff (retryData rq policy retry retryId delayMs)))"

definition recover :: "retry_log_event list \<Rightarrow> retry_request \<Rightarrow> retry_env \<Rightarrow> recovery" where
  "recover events rq env =
     (case rq_policy rq of
        None \<Rightarrow> DelegateNext
      | Some (AlwaysPolicy b) \<Rightarrow>
          if en_abortedEntry env \<or> en_abortedNow env then NoDecision
          else if en_downstream env = DownDecision True then DownstreamRetry
          else plan_retry events rq env (AlwaysPolicy b)
      | Some (NormalPolicy n codes b) \<Rightarrow>
          if lf_code (rq_failure rq) \<notin> set codes then DelegateNext
          else plan_retry events rq env (NormalPolicy n codes b))"

definition request_error :: "retry_log_event list \<Rightarrow> retry_request \<Rightarrow> retry_env \<Rightarrow> recovery" where
  "request_error events rq env = (if en_disposed env then NoDecision else recover events rq env)"

definition startedData :: "retry_event \<Rightarrow> retry_log_event" where
  "startedData e = LogRetryStarted (re_retryId e) (re_turn e) (re_step e) (re_retry e)"

text \<open>
  The executor over a session log: other code appends, a recovery schedules a retry and waits,
  a wait ends by elapsing or by an abort.
\<close>

record retry_state =
  rs_log :: "retry_log_event list"
  rs_waiting :: "retry_event list"

inductive retry_step :: "retry_state \<Rightarrow> retry_state \<Rightarrow> bool" where
  other_append: "retry_step s (s\<lparr>rs_log := rs_log s @ [LogOther]\<rparr>)"
| schedule: "request_error (rs_log s) rq env = Backoff e \<Longrightarrow>
    retry_step s (s\<lparr>rs_log := rs_log s @ [LogRetry e], rs_waiting := rs_waiting s @ [e]\<rparr>)"
| elapsed: "e \<in> set (rs_waiting s) \<Longrightarrow>
    retry_step s (s\<lparr>rs_log := rs_log s @ [startedData e], rs_waiting := remove1 e (rs_waiting s)\<rparr>)"
| aborted: "e \<in> set (rs_waiting s) \<Longrightarrow>
    retry_step s (s\<lparr>rs_waiting := remove1 e (rs_waiting s)\<rparr>)"

inductive_cases retry_stepE: "retry_step s s'"

definition retry_initial :: retry_state where
  "retry_initial = \<lparr>rs_log = [], rs_waiting = []\<rparr>"


section \<open>Resolution and delays\<close>

definition backoff_valid :: "resolved_backoff \<Rightarrow> bool" where
  "backoff_valid b \<longleftrightarrow> 0 < rb_initialDelayMs b \<and> rb_initialDelayMs b \<le> rb_maxDelayMs b
     \<and> rb_maxDelayMs b \<le> MAX_TIMER_DELAY_MS \<and> 0 \<le> rb_jitterRatio b \<and> rb_jitterRatio b \<le> 1"

fun policy_valid :: "resolved_policy \<Rightarrow> bool" where
  "policy_valid (NormalPolicy n codes b) \<longleftrightarrow>
     int n \<le> max_safe \<and> codes \<noteq> [] \<and> [] \<notin> set codes \<and> distinct codes \<and> backoff_valid b"
| "policy_valid (AlwaysPolicy b) \<longleftrightarrow> backoff_valid b"

lemma resolveBackoff_valid: "resolveBackoff c path = Inr b \<Longrightarrow> backoff_valid b"
  by (auto simp: resolveBackoff_def result_simps Let_def delay_ok_def backoff_valid_def)

lemma safe_nat: "is_safe_integer r \<Longrightarrow> 0 \<le> r \<Longrightarrow> int (nat \<lfloor>r\<rfloor>) \<le> max_safe"
  by (simp add: is_safe_integer_def safe_int_def)

lemma normal_valid:
  "is_safe_integer r \<Longrightarrow> 0 \<le> r \<Longrightarrow> cs \<noteq> [] \<Longrightarrow> \<not> list_ex (\<lambda>c. c = []) cs \<Longrightarrow>
   card (set cs) = length cs \<Longrightarrow> backoff_valid b \<Longrightarrow> policy_valid (NormalPolicy (nat \<lfloor>r\<rfloor>) cs b)"
  unfolding policy_valid.simps using safe_nat [of r]
  by (auto simp: list_ex_iff card_distinct simp del: int_nat_eq)

lemma default_valid: "backoff_valid b \<Longrightarrow> policy_valid (NormalPolicy 5 DEFAULT_RETRYABLE_CODES b)"
  by (simp add: DEFAULT_RETRYABLE_CODES_def max_safe_def)

lemma resolve_valid: "resolveRetryPolicy config path = Inr p \<Longrightarrow> policy_valid p"
  by (auto simp del: policy_valid.simps(1) simp: resolveRetryPolicy_def result_simps Let_def
      intro!: normal_valid default_valid
      dest!: resolveBackoff_valid split: option.splits retry_config.splits)

lemma jitter_nonneg:
  "backoff_valid b \<Longrightarrow> 0 \<le> u \<Longrightarrow>
   0 \<le> rd (rd (1 - rb_jitterRatio b) + rd (rd (2 * rb_jitterRatio b) * u))"
  by (intro rd_nonneg add_nonneg_nonneg mult_nonneg_nonneg) (auto simp: backoff_valid_def)

lemma localDelay_bounds:
  assumes "backoff_valid b" and "0 \<le> u"
  shows "0 \<le> localDelay b n u \<and> localDelay b n u \<le> rb_maxDelayMs b"
proof -
  have max: "0 \<le> rb_maxDelayMs b" and i: "0 \<le> rb_initialDelayMs b * 2 ^ k" for k
    using assms by (auto simp: backoff_valid_def)
  have "0 \<le> rd (rd (1 - rb_jitterRatio b) + rd (rd (2 * rb_jitterRatio b) * u))"
    by (rule jitter_nonneg [OF assms])
  moreover have "0 \<le> (if k = 1024 then rb_maxDelayMs b
      else min (rd (rb_initialDelayMs b * 2 ^ k)) (rb_maxDelayMs b))" for k :: nat
    using max i rd_nonneg by simp
  ultimately show ?thesis
    using max by (simp add: localDelay_def Let_def rd_nonneg del: of_nat_min)
qed

lemma localDelay_mono:
  assumes v: "backoff_valid b" and u: "0 \<le> u" and le: "n \<le> m"
  shows "localDelay b n u \<le> localDelay b m u"
proof -
  let ?x = "\<lambda>k. if k = 1024 then rb_maxDelayMs b
    else min (rd (rb_initialDelayMs b * 2 ^ k)) (rb_maxDelayMs b)"
  let ?k = "\<lambda>n. min (n - 1) (1024 :: nat)"
  let ?j = "rd (rd (1 - rb_jitterRatio b) + rd (rd (2 * rb_jitterRatio b) * u))"
  have pos: "0 < rb_initialDelayMs b" "0 \<le> rb_maxDelayMs b" using v by (auto simp: backoff_valid_def)
  have j: "0 \<le> ?j" by (rule jitter_nonneg [OF v u])
  have mono: "?x k \<le> ?x l" if kl: "k \<le> l" "l \<le> 1024" for k l
  proof -
    have "rd (rb_initialDelayMs b * 2 ^ k) \<le> rd (rb_initialDelayMs b * 2 ^ l)"
      using pos kl(1) by (intro rd_mono mult_left_mono power_increasing) simp_all
    then show ?thesis using kl by (auto simp: min_le_iff_disj)
  qed
  have x: "?x (?k n) \<le> ?x (?k m)" by (rule mono) (use le in simp_all)
  have "0 \<le> ?x (?k n)" using pos rd_nonneg by simp
  then have "rd (?x (?k n) * ?j) \<le> rd (?x (?k m) * ?j)"
    using x j by (intro rd_mono mult_nonneg_nonneg mult_right_mono)
  then show ?thesis unfolding localDelay_def Let_def by (intro min.mono order_refl)
qed

lemma retry_delay_bounds:
  assumes "backoff_valid (rp_backoff p)" and "0 \<le> u" and "retry_delay p f n u = Some d"
  shows "0 \<le> d \<and> d \<le> rb_maxDelayMs (rp_backoff p)"
  using assms localDelay_bounds [OF assms(1,2), of n]
  by (auto simp: retry_delay_def not_less split: option.splits if_splits)

section \<open>Policy keys\<close>

lemma map_JStr_inj: "map JStr xs = map JStr ys \<longleftrightarrow> xs = ys"
  by (rule inj_map_eq_map) (simp add: inj_def)

lemma sort_eq_iff_set:
  fixes xs :: "'a :: linorder list"
  assumes "distinct xs" and "distinct ys"
  shows "sort xs = sort ys \<longleftrightarrow> set xs = set ys"
  using assms by (metis set_sort sorted_list_of_set_sort_remdups distinct_remdups_id)

text \<open>Two policies share a key exactly when they differ in the order of their codes only.\<close>

fun same_policy :: "resolved_policy \<Rightarrow> resolved_policy \<Rightarrow> bool" where
  "same_policy (NormalPolicy n cs b) (NormalPolicy m ds c) \<longleftrightarrow> n = m \<and> set cs = set ds \<and> b = c"
| "same_policy (AlwaysPolicy b) (AlwaysPolicy c) \<longleftrightarrow> b = c"
| "same_policy _ _ \<longleftrightarrow> False"

lemma backoff_eq:
  "b = c \<longleftrightarrow> rb_initialDelayMs b = rb_initialDelayMs c \<and> rb_maxDelayMs b = rb_maxDelayMs c
     \<and> rb_jitterRatio b = rb_jitterRatio c" for b c :: resolved_backoff
  by (cases b; cases c) simp

lemma policyKey_iff:
  assumes "policy_valid p" and "policy_valid q"
  shows "retryPolicyKey p = retryPolicyKey q \<longleftrightarrow> same_policy p q"
  using assms by (cases p; cases q) (simp_all add: map_JStr_inj sort_eq_iff_set backoff_eq conj_ac)

lemma policyKey_max: "retryPolicyKey p = retryPolicyKey q \<Longrightarrow> policy_max p = policy_max q"
  by (cases p; cases q) auto

section \<open>Chains\<close>

definition chain :: "retry_request \<Rightarrow> json \<Rightarrow> retry_log_event list \<Rightarrow> retry_event list" where
  "chain rq key events = List.map_filter (\<lambda>x. case x of LogRetry e \<Rightarrow> Some e | _ \<Rightarrow> None) (filter (same_chain rq key) events)"

lemma chain_Nil [simp]: "chain rq key [] = []"
  by (simp add: chain_def map_filter_simps)

lemma chain_append: "chain rq key (xs @ ys) = chain rq key xs @ chain rq key ys"
  by (simp add: chain_def List.map_filter_def)

lemma chain_snoc:
  "chain rq key (events @ [x]) = chain rq key events @
     (case x of LogRetry e \<Rightarrow> if same_chain rq key x then [e] else [] | _ \<Rightarrow> [])"
  by (cases x) (simp_all add: chain_append, simp_all add: chain_def map_filter_simps)

lemma prior_last:
  "priorPolicyRetry events rq key = (if chain rq key events = [] then None else Some (last (chain rq key events)))"
proof (induction events rule: rev_induct)
  case Nil
  then show ?case by (simp add: priorPolicyRetry_def)
next
  case (snoc x events)
  then show ?case
    by (cases x) (auto simp: priorPolicyRetry_def chain_snoc)
qed

text \<open>
  A chain of the log: its retries are numbered from 1 without a gap, share one identity, and
  respect the bound they record.
\<close>

definition chain_ok :: "retry_event list \<Rightarrow> bool" where
  "chain_ok es \<longleftrightarrow> map re_retry es = [1 ..< Suc (length es)]
     \<and> (\<forall>e \<in> set es. \<forall>e' \<in> set es. re_retryId e = re_retryId e')
     \<and> (\<forall>e \<in> set es. \<exists>p. re_policyKey e = retryPolicyKey p \<and> re_maxRetries e = policy_max p
          \<and> (\<forall>n. policy_max p = Some n \<longrightarrow> re_retry e \<le> n))"

lemma Backoff_recover:
  assumes "request_error events rq env = Backoff e"
  shows "\<exists>p. rq_policy rq = Some p \<and> plan_retry events rq env p = Backoff e"
  using assms by (auto simp: request_error_def recover_def split: if_splits option.splits resolved_policy.splits)

lemma plan_Backoff:
  assumes "plan_retry events rq env p = Backoff e"
  shows "\<exists>prev. same_chain rq (retryPolicyKey p) (LogRetry e) \<and> re_retry e = Suc prev
    \<and> re_policyKey e = retryPolicyKey p \<and> re_maxRetries e = policy_max p
    \<and> retry_delay p (rq_failure rq) (Suc prev) (en_random env) = Some (re_delayMs e)
    \<and> prev = (case priorPolicyRetry events rq (retryPolicyKey p) of Some q \<Rightarrow> re_retry q | None \<Rightarrow> 0)
    \<and> (\<forall>q. priorPolicyRetry events rq (retryPolicyKey p) = Some q \<longrightarrow> re_retryId e = re_retryId q)
    \<and> (\<forall>n. policy_max p = Some n \<longrightarrow> prev < n)"
  using assms
  by (auto simp: plan_retry_def Let_def retryData_def split: if_splits option.splits)


lemma chain_same:
  assumes "same_chain rq key (LogRetry e)" and "same_chain rq' key' (LogRetry e)"
  shows "chain rq key events = chain rq' key' events"
proof -
  have "same_chain rq key x = same_chain rq' key' x" for x using assms by (cases x) auto
  then show ?thesis unfolding chain_def by presburger
qed

lemma chain_ok_last: "chain_ok es \<Longrightarrow> es \<noteq> [] \<Longrightarrow> re_retry (last es) = length es"
  by (metis chain_ok_def last_map last_upt length_0_conv length_greater_0_conv Suc_leI diff_Suc_1
      less_Suc_eq_le One_nat_def upt_Suc_append last_snoc)

lemma chain_ok_snoc:
  assumes "chain_ok es" and "re_retry e = Suc (length es)"
    and "\<And>e'. e' \<in> set es \<Longrightarrow> re_retryId e' = re_retryId e"
    and "re_policyKey e = retryPolicyKey p" and "re_maxRetries e = policy_max p"
    and "\<And>n. policy_max p = Some n \<Longrightarrow> re_retry e \<le> n"
  shows "chain_ok (es @ [e])"
  using assms by (simp add: chain_ok_def ball_Un) (metis Suc_le_eq)

fun is_started :: "retry_log_event \<Rightarrow> bool" where
  "is_started (LogRetryStarted _ _ _ _) = True"
| "is_started _ = False"

text \<open>A started transition follows the scheduled retry it completes.\<close>

definition started_ok :: "retry_log_event list \<Rightarrow> bool" where
  "started_ok events \<longleftrightarrow> (\<forall>pre x post. events = pre @ x # post \<longrightarrow> is_started x \<longrightarrow>
     (\<exists>e. LogRetry e \<in> set pre \<and> startedData e = x))"

lemma started_ok_snoc:
  assumes "started_ok events" and "is_started x \<Longrightarrow> \<exists>e. LogRetry e \<in> set events \<and> startedData e = x"
  shows "started_ok (events @ [x])"
  unfolding started_ok_def
proof (intro allI impI)
  fix pre y post
  assume eq: "events @ [x] = pre @ y # post" and y: "is_started y"
  show "\<exists>e. LogRetry e \<in> set pre \<and> startedData e = y"
  proof (cases post rule: rev_cases)
    case Nil
    then show ?thesis using eq y assms(2) by simp
  next
    case (snoc post' z)
    then have "events = pre @ y # post'" using eq by simp
    then show ?thesis using assms(1) y unfolding started_ok_def by blast
  qed
qed

definition retry_inv :: "retry_state \<Rightarrow> bool" where
  "retry_inv s \<longleftrightarrow> (\<forall>rq key. chain_ok (chain rq key (rs_log s)))
     \<and> (\<forall>e \<in> set (rs_waiting s). LogRetry e \<in> set (rs_log s))
     \<and> started_ok (rs_log s)"

lemma schedule_chain:
  assumes b: "request_error events rq env = Backoff e" and ok: "\<And>rq key. chain_ok (chain rq key events)"
  shows "chain_ok (chain rq' key' (events @ [LogRetry e]))"
proof (cases "same_chain rq' key' (LogRetry e)")
  case True
  from Backoff_recover [OF b] obtain p where p: "plan_retry events rq env p = Backoff e" by blast
  from plan_Backoff [OF this] obtain prev where
    same: "same_chain rq (retryPolicyKey p) (LogRetry e)"
    and f: "re_retry e = Suc prev" "re_policyKey e = retryPolicyKey p" "re_maxRetries e = policy_max p"
    and prev: "prev = (case priorPolicyRetry events rq (retryPolicyKey p) of Some q \<Rightarrow> re_retry q | None \<Rightarrow> 0)"
    and id: "\<forall>q. priorPolicyRetry events rq (retryPolicyKey p) = Some q \<longrightarrow> re_retryId e = re_retryId q"
    and max: "\<forall>n. policy_max p = Some n \<longrightarrow> prev < n" by (elim exE conjE)
  have c: "chain rq' key' events = chain rq (retryPolicyKey p) events" (is "_ = ?c")
    using chain_same [OF True same] .
  have okc: "chain_ok ?c" by (rule ok)
  have prior: "prev = length ?c \<and> (\<forall>e' \<in> set ?c. re_retryId e' = re_retryId e)"
  proof (cases "?c = []")
    case True
    then show ?thesis using prev by (simp add: prior_last)
  next
    case False
    then have p: "priorPolicyRetry events rq (retryPolicyKey p) = Some (last ?c)" by (simp add: prior_last)
    have "prev = length ?c" using prev p chain_ok_last [OF okc False] by simp
    moreover have "re_retryId e' = re_retryId e" if "e' \<in> set ?c" for e'
      using id p okc last_in_set [OF False] that unfolding chain_ok_def by metis
    ultimately show ?thesis by blast
  qed
  have "chain_ok (?c @ [e])"
  proof (rule chain_ok_snoc)
    show "re_retry e = Suc (length ?c)" using f(1) prior by simp
    show "re_retry e \<le> n" if n: "policy_max p = Some n" for n using f(1) max n by simp
  qed (use okc f prior in auto)
  then show ?thesis using True c by (simp add: chain_snoc del: same_chain.simps)
qed (simp add: chain_snoc ok del: same_chain.simps)

lemma in_set_remove1D: "x \<in> set (remove1 y xs) \<Longrightarrow> x \<in> set xs"
  using notin_set_remove1 by metis

lemma retry_inv_append:
  assumes inv: "retry_inv s" and log: "rs_log s' = rs_log s @ [x]"
    and "set (rs_waiting s') \<subseteq> set (rs_waiting s) \<union> {e. x = LogRetry e}"
    and "\<And>rq key. chain_ok (chain rq key (rs_log s @ [x]))"
    and "is_started x \<Longrightarrow> \<exists>e. LogRetry e \<in> set (rs_log s) \<and> startedData e = x"
  shows "retry_inv s'"
  using assms started_ok_snoc [of "rs_log s" x] by (auto simp: retry_inv_def)

lemma retry_step_inv:
  assumes "retry_step s s'" and inv: "retry_inv s"
  shows "retry_inv s'"
  using assms(1)
proof cases
  case other_append
  show ?thesis by (rule retry_inv_append [OF inv, of _ LogOther]) (use inv other_append in \<open>auto simp: retry_inv_def chain_snoc\<close>)
next
  case (schedule rq env e)
  have ok: "chain_ok (chain rq key (rs_log s))" for rq key using inv by (simp add: retry_inv_def)
  show ?thesis
    by (rule retry_inv_append [OF inv, of _ "LogRetry e"]) (use schedule schedule_chain [OF schedule(2) ok] in auto)
next
  case (elapsed e)
  have "LogRetry e \<in> set (rs_log s)" using inv elapsed by (auto simp: retry_inv_def)
  then show ?thesis
    by (intro retry_inv_append [OF inv, of _ "startedData e"])
      (use inv elapsed in \<open>auto simp: retry_inv_def chain_snoc startedData_def dest: in_set_remove1D\<close>)
next
  case (aborted e)
  then show ?thesis using inv by (auto simp: retry_inv_def dest: in_set_remove1D)
qed

lemma retry_reachable_inv: "retry_step\<^sup>*\<^sup>* retry_initial s \<Longrightarrow> retry_inv s"
proof (induction rule: rtranclp_induct)
  case base
  then show ?case by (simp add: retry_inv_def retry_initial_def chain_ok_def started_ok_def)
next
  case (step s t)
  then show ?case using retry_step_inv by blast
qed


section \<open>Properties\<close>

lemma chain_member: "e \<in> set (chain rq key events) \<Longrightarrow> LogRetry e \<in> set events \<and> same_chain rq key (LogRetry e)"
  by (auto simp: chain_def List.map_filter_def split: retry_log_event.splits)

lemma chain_bounded:
  assumes ok: "chain_ok (chain rq (retryPolicyKey p) events)" and max: "policy_max p = Some n"
  shows "length (chain rq (retryPolicyKey p) events) \<le> n"
proof (cases "chain rq (retryPolicyKey p) events = []")
  case False
  let ?e = "last (chain rq (retryPolicyKey p) events)"
  have in_chain: "?e \<in> set (chain rq (retryPolicyKey p) events)" using False by (rule last_in_set)
  then have "re_policyKey ?e = retryPolicyKey p" using chain_member [OF in_chain] by simp
  moreover obtain q where "re_policyKey ?e = retryPolicyKey q"
    and "\<forall>n. policy_max q = Some n \<longrightarrow> re_retry ?e \<le> n"
    using ok in_chain unfolding chain_ok_def by blast
  ultimately have "re_retry ?e \<le> n" using max policyKey_max by metis
  then show ?thesis using chain_ok_last [OF ok False] by simp
qed simp

text \<open>
  C31. Retries are bounded and numbered: in every reachable session log the retries of a chain
  (one turn, step, provider and policy) are numbered 1, 2, 3, ... without gap or repetition,
  share one identity, and are at most the policy's maximum.
\<close>

theorem retry_chains:
  assumes "retry_step\<^sup>*\<^sup>* retry_initial s"
  shows "map re_retry (chain rq (retryPolicyKey p) (rs_log s)) =
      [1 ..< Suc (length (chain rq (retryPolicyKey p) (rs_log s)))]
    \<and> (\<forall>e \<in> set (chain rq (retryPolicyKey p) (rs_log s)).
        \<forall>e' \<in> set (chain rq (retryPolicyKey p) (rs_log s)). re_retryId e = re_retryId e')
    \<and> (\<forall>n. policy_max p = Some n \<longrightarrow> length (chain rq (retryPolicyKey p) (rs_log s)) \<le> n)"
proof -
  have ok: "chain_ok (chain rq (retryPolicyKey p) (rs_log s))"
    using retry_reachable_inv [OF assms] by (simp add: retry_inv_def)
  then show ?thesis using chain_bounded [OF ok] unfolding chain_ok_def by blast
qed

definition sample_policy :: resolved_policy where
  "sample_policy = NormalPolicy 2 [''SERVER''] \<lparr>rb_initialDelayMs = 500, rb_maxDelayMs = 10000, rb_jitterRatio = 0\<rparr>"

definition sample_request :: retry_request where
  "sample_request = \<lparr>rq_turn = 1, rq_step = 1, rq_provider = ''p'',
     rq_failure = \<lparr>lf_message = [], lf_code = ''SERVER'', lf_providerRetryAfterMs = Some (Fin 100)\<rparr>,
     rq_policy = Some sample_policy\<rparr>"

definition sample_env :: retry_env where
  "sample_env = \<lparr>en_disposed = False, en_abortedEntry = False, en_abortedNow = False,
     en_downstream = DownError, en_random = 0, en_uuid = ''u''\<rparr>"

definition sample_retry :: "nat \<Rightarrow> retry_event" where
  "sample_retry n = retryData sample_request sample_policy n ''u'' 100"

definition sample_state :: retry_state where
  "sample_state = \<lparr>rs_log = [LogRetry (sample_retry 1), startedData (sample_retry 1), LogRetry (sample_retry 2)],
     rs_waiting = [sample_retry 2]\<rparr>"

lemmas sample_retry_defs = sample_policy_def sample_request_def sample_env_def sample_retry_def
  retryData_def request_error_def recover_def plan_retry_def priorPolicyRetry_def retry_delay_def
  startedData_def Let_def

lemma sample_backoff:
  "request_error [] sample_request sample_env = Backoff (sample_retry 1)"
  "request_error [LogRetry (sample_retry 1), startedData (sample_retry 1)] sample_request sample_env =
     Backoff (sample_retry 2)"
  by (simp_all add: sample_retry_defs)

lemma sample_state_reachable: "retry_step\<^sup>*\<^sup>* retry_initial sample_state"
proof -
  let ?s1 = "\<lparr>rs_log = [LogRetry (sample_retry 1)], rs_waiting = [sample_retry 1]\<rparr>"
  let ?s2 = "\<lparr>rs_log = [LogRetry (sample_retry 1), startedData (sample_retry 1)], rs_waiting = []\<rparr>"
  have "retry_step retry_initial ?s1"
    using schedule [of retry_initial sample_request sample_env "sample_retry 1"] sample_backoff(1)
    by (simp add: retry_initial_def)
  moreover have "retry_step ?s1 ?s2" using elapsed [of "sample_retry 1" ?s1] by simp
  moreover have "retry_step ?s2 sample_state"
    using schedule [of ?s2 sample_request sample_env "sample_retry 2"] sample_backoff(2)
    by (simp add: sample_state_def)
  ultimately show ?thesis by (meson converse_rtranclp_into_rtranclp rtranclp.rtrancl_refl)
qed

theorem retry_chains_witness:
  "length (chain sample_request (retryPolicyKey sample_policy) (rs_log sample_state)) \<le> 2"
  using retry_chains [OF sample_state_reachable, of sample_request sample_policy]
  by (simp add: sample_policy_def)

text \<open>
  A resumed request attempt was scheduled before: each started transition of a reachable
  log is preceded by the retry event of the same chain identity, turn, step and number, and
  every pending wait has its retry event in the log.
\<close>

theorem retry_durable_before_wait:
  assumes "retry_step\<^sup>*\<^sup>* retry_initial s"
  shows "(\<forall>pre x post. rs_log s = pre @ x # post \<and> is_started x \<longrightarrow>
      (\<exists>e. LogRetry e \<in> set pre \<and> startedData e = x))
    \<and> (\<forall>e \<in> set (rs_waiting s). LogRetry e \<in> set (rs_log s))"
  using retry_reachable_inv [OF assms] by (auto simp: retry_inv_def started_ok_def)

theorem retry_durable_before_wait_witness:
  "LogRetry (sample_retry 2) \<in> set (rs_log sample_state)"
  using retry_durable_before_wait [OF sample_state_reachable] by (simp add: sample_state_def)

text \<open>
  Delays stay within the resolved policy: for an accepted configuration the local delay is
  between 0 and the policy's maximum, itself at most the timer limit, never decreases with the
  retry number for one random sample, and so does every scheduled delay, a provider's
  request included.
\<close>

theorem retry_delays_bounded:
  assumes "resolveRetryPolicy config path = Inr p" and "0 \<le> u"
  shows "0 \<le> localDelay (rp_backoff p) n u
    \<and> localDelay (rp_backoff p) n u \<le> rb_maxDelayMs (rp_backoff p)
    \<and> rb_maxDelayMs (rp_backoff p) \<le> MAX_TIMER_DELAY_MS
    \<and> (n \<le> m \<longrightarrow> localDelay (rp_backoff p) n u \<le> localDelay (rp_backoff p) m u)
    \<and> (\<forall>events rq env e. rq_policy rq = Some p \<and> en_random env = u
        \<and> request_error events rq env = Backoff e \<longrightarrow>
        0 \<le> re_delayMs e \<and> re_delayMs e \<le> rb_maxDelayMs (rp_backoff p))"
proof -
  have v: "backoff_valid (rp_backoff p)" using resolve_valid [OF assms(1)] by (cases p) simp_all
  have sched: "0 \<le> re_delayMs e \<and> re_delayMs e \<le> rb_maxDelayMs (rp_backoff p)"
    if rq: "rq_policy rq = Some p" and en: "en_random env = u" and b: "request_error events rq env = Backoff e"
    for events rq env e
  proof -
    have "plan_retry events rq env p = Backoff e" using Backoff_recover [OF b] rq by simp
    from plan_Backoff [OF this] show ?thesis using retry_delay_bounds [OF v assms(2)] en by blast
  qed
  have "rb_maxDelayMs (rp_backoff p) \<le> MAX_TIMER_DELAY_MS" using v by (simp add: backoff_valid_def)
  then show ?thesis
    using sched localDelay_bounds [OF v assms(2)] localDelay_mono [OF v assms(2)] by blast
qed

definition sample_config :: retry_config where
  "sample_config = AlwaysConfig [''mode'', ''backoff'']
     (Some \<lparr>bc_keys = [''initialDelayMs'', ''jitterRatio''], bc_initialDelayMs = Some (Fin 250),
       bc_maxDelayMs = None, bc_jitterRatio = Some (Fin (1 / 2))\<rparr>)"

lemma sample_config_resolved:
  "resolveRetryPolicy (Some sample_config) ''llm'' =
     Inr (AlwaysPolicy \<lparr>rb_initialDelayMs = 250, rb_maxDelayMs = 10000, rb_jitterRatio = 1 / 2\<rparr>)"
  by (simp add: resolveRetryPolicy_def sample_config_def resolveBackoff_def POLICY_KEYS_def BACKOFF_KEYS_def
      or_default_def delay_ok_def MAX_TIMER_DELAY_MS_def)

theorem retry_delays_bounded_witness:
  "localDelay \<lparr>rb_initialDelayMs = 250, rb_maxDelayMs = 10000, rb_jitterRatio = 1 / 2\<rparr> 3 (1 / 2) \<le> 10000"
  using retry_delays_bounded [OF sample_config_resolved, of "1 / 2" 3 4] by simp

text \<open>
  The key of a chain identifies the policy: two resolved policies have the same key exactly
  when they have the same mode, bounds, delays and jitter and the same set of retryable codes.
\<close>

theorem retryPolicyKey_exact:
  assumes "resolveRetryPolicy c path = Inr p" and "resolveRetryPolicy d path' = Inr q"
  shows "retryPolicyKey p = retryPolicyKey q \<longleftrightarrow> same_policy p q"
  by (rule policyKey_iff [OF resolve_valid [OF assms(1)] resolve_valid [OF assms(2)]])

theorem retryPolicyKey_exact_witness:
  "same_policy
     (AlwaysPolicy \<lparr>rb_initialDelayMs = 250, rb_maxDelayMs = 10000, rb_jitterRatio = 1 / 2\<rparr>)
     (AlwaysPolicy \<lparr>rb_initialDelayMs = 250, rb_maxDelayMs = 10000, rb_jitterRatio = 1 / 2\<rparr>)"
  using retryPolicyKey_exact [OF sample_config_resolved sample_config_resolved] by blast

end
