(* ===== verification/Goal.thy ===== *)
theory Goal imports SessionTypes "HOL-Library.List_Lexorder" "HOL-Library.Char_ord" begin

text \<open>
  The goal domain of packages/goal/goal/src: the vocabulary of types.ts and domain.ts, the
  strict decoder and replay fold of fold.ts. A goal change is the payload of a session event of
  type \<open>goal/change\<close>: \<open>Plugin (''goal/change'', data)\<close> here; the source of a message that starts
  a goal round is \<open>OtherSource ''goal'' data\<close>.
\<close>

section \<open>Vocabulary\<close>

datatype goal_phase = PhActive | PhPaused | PhBlocked | PhComplete

record goal_ref =
  gr_id :: string
  gr_revision :: int

record block_reason =
  br_code :: string
  br_message :: string

record goal_snapshot =
  gs_id :: string
  gs_revision :: int
  gs_objective :: string
  gs_phase :: goal_phase
  gs_blockedReason :: "block_reason option"
  gs_maxGoalRounds :: int

datatype goal_operation = OpCreate | OpEdit | OpPause | OpResume | OpComplete | OpBlock

datatype goal_change =
    SnapshotChange goal_operation goal_snapshot int int int
  | ClearChange goal_ref int

type_synonym goal_event = "(string \<times> json) event"

text \<open>The thrown errors, one constructor for each check; the argument names the field.\<close>

datatype goal_error =
    NotInteger string
  | BadKeys string
  | BadReasonCode
  | BadReasonMessage
  | BadRecord
  | BadId string
  | BadObjective
  | BadPhase
  | BadVersion
  | BadOperation
  | BadTimestamps
  | BadSource
  | ChangedDefinition goal_operation
  | NotNextRevision
  | MissingUpdatedAt
  | ChangedCounters goal_operation
  | ChangedPhase
  | InvalidTransition goal_operation
  | NoCurrentGoal
  | EarlyClear
  | BadCreate
  | BadKind
  | NotNextRound

section \<open>Decoding\<close>

fun phase_name :: "goal_phase \<Rightarrow> string" where
  "phase_name PhActive = ''active''"
| "phase_name PhPaused = ''paused''"
| "phase_name PhBlocked = ''blocked''"
| "phase_name PhComplete = ''complete''"

definition parse_phase :: "string \<Rightarrow> goal_phase option" where
  "parse_phase s = map_of [(''active'', PhActive), (''paused'', PhPaused), (''blocked'', PhBlocked),
     (''complete'', PhComplete)] s"

fun operation_name :: "goal_operation \<Rightarrow> string" where
  "operation_name OpCreate = ''create''"
| "operation_name OpEdit = ''edit''"
| "operation_name OpPause = ''pause''"
| "operation_name OpResume = ''resume''"
| "operation_name OpComplete = ''complete''"
| "operation_name OpBlock = ''block''"

definition parse_operation :: "string \<Rightarrow> goal_operation option" where
  "parse_operation s = map_of [(''create'', OpCreate), (''edit'', OpEdit), (''pause'', OpPause),
     (''resume'', OpResume), (''complete'', OpComplete), (''block'', OpBlock)] s"

text \<open>\<open>Object.keys(value).sort().join(',')\<close>.\<close>

fun join_comma :: "string list \<Rightarrow> string" where
  "join_comma [] = []"
| "join_comma [s] = s"
| "join_comma (s # t # ss) = s @ CHR '','' # join_comma (t # ss)"

definition sorted_keys :: "json \<Rightarrow> string" where
  "sorted_keys v = join_comma (sort (object_keys v))"

definition str_of :: "json option \<Rightarrow> string" where
  "str_of v = (case v of Some (JStr s) \<Rightarrow> s | _ \<Rightarrow> [])"

definition positiveInteger :: "json option \<Rightarrow> string \<Rightarrow> goal_error + int" where
  "positiveInteger v field =
     (if isSafeInteger v \<and> 1 \<le> int_of v then Inr (int_of v) else Inl (NotInteger field))"

definition nonNegativeInteger :: "json option \<Rightarrow> string \<Rightarrow> goal_error + int" where
  "nonNegativeInteger v field =
     (if isSafeInteger v \<and> 0 \<le> int_of v then Inr (int_of v) else Inl (NotInteger field))"

text \<open>\<open>/^[a-z][a-z0-9]*(?:-[a-z0-9]+)*$/\<close>.\<close>

definition lower_letter :: "char \<Rightarrow> bool" where
  "lower_letter c \<longleftrightarrow> 97 \<le> (of_char c :: nat) \<and> (of_char c :: nat) \<le> 122"

definition lower_alnum :: "char \<Rightarrow> bool" where
  "lower_alnum c \<longleftrightarrow> lower_letter c \<or> (48 \<le> (of_char c :: nat) \<and> (of_char c :: nat) \<le> 57)"

fun kebab_rest :: "bool \<Rightarrow> string \<Rightarrow> bool" where
  "kebab_rest fresh [] = (\<not> fresh)"
| "kebab_rest fresh (c # cs) =
     (if lower_alnum c then kebab_rest False cs else c = CHR ''-'' \<and> \<not> fresh \<and> kebab_rest True cs)"

fun kebab_case :: "string \<Rightarrow> bool" where
  "kebab_case [] = False"
| "kebab_case (c # cs) = (lower_letter c \<and> kebab_rest False cs)"

definition decodeBlockReason :: "json option \<Rightarrow> goal_error + block_reason" where
  "decodeBlockReason v =
     (case v of
        Some (JObj kvs) \<Rightarrow>
          rbind (guard (sorted_keys (JObj kvs) = ''code,message'') (BadKeys ''blockedReason'')) (\<lambda>_.
          rbind (guard (is_string (map_of kvs ''code'') \<and> kebab_case (str_of (map_of kvs ''code''))) BadReasonCode) (\<lambda>_.
          rbind (guard (is_string (map_of kvs ''message'') \<and> trim (str_of (map_of kvs ''message'')) \<noteq> []
              \<and> trim (str_of (map_of kvs ''message'')) = str_of (map_of kvs ''message'')) BadReasonMessage) (\<lambda>_.
            Inr \<lparr>br_code = str_of (map_of kvs ''code''), br_message = str_of (map_of kvs ''message'')\<rparr>)))
      | _ \<Rightarrow> Inl (BadKeys ''blockedReason''))"

definition snapshot_keys :: "goal_phase \<Rightarrow> string" where
  "snapshot_keys p = (if p = PhBlocked then ''blockedReason,id,maxGoalRounds,objective,phase,revision''
     else ''id,maxGoalRounds,objective,phase,revision'')"

definition decodeSnapshot :: "json option \<Rightarrow> goal_error + goal_snapshot" where
  "decodeSnapshot v =
     (case v of
        Some (JObj kvs) \<Rightarrow>
          rbind (guard (str_of (map_of kvs ''id'') \<noteq> []) (BadId ''goal.id'')) (\<lambda>_.
          rbind (guard (trim (str_of (map_of kvs ''objective'')) \<noteq> []
              \<and> trim (str_of (map_of kvs ''objective'')) = str_of (map_of kvs ''objective'')) BadObjective) (\<lambda>_.
            case parse_phase (str_of (map_of kvs ''phase'')) of
              None \<Rightarrow> Inl BadPhase
            | Some p \<Rightarrow>
                rbind (guard (sorted_keys (JObj kvs) = snapshot_keys p) (BadKeys ''goal'')) (\<lambda>_.
                rbind (positiveInteger (map_of kvs ''revision'') ''goal.revision'') (\<lambda>revision.
                rbind (positiveInteger (map_of kvs ''maxGoalRounds'') ''goal.maxGoalRounds'') (\<lambda>maxRounds.
                rbind (if p = PhBlocked then rbind (decodeBlockReason (map_of kvs ''blockedReason'')) (\<lambda>r. Inr (Some r))
                       else Inr None) (\<lambda>reason.
                  Inr \<lparr>gs_id = str_of (map_of kvs ''id''), gs_revision = revision,
                       gs_objective = str_of (map_of kvs ''objective''), gs_phase = p,
                       gs_blockedReason = reason, gs_maxGoalRounds = maxRounds\<rparr>))))))
      | _ \<Rightarrow> Inl BadRecord)"

definition decodeRef :: "json option \<Rightarrow> goal_error + goal_ref" where
  "decodeRef v =
     (case v of
        Some (JObj kvs) \<Rightarrow>
          rbind (guard (sorted_keys (JObj kvs) = ''id,revision'') (BadKeys ''cleared'')) (\<lambda>_.
          rbind (guard (str_of (map_of kvs ''id'') \<noteq> []) (BadId ''cleared.id'')) (\<lambda>_.
          rbind (positiveInteger (map_of kvs ''revision'') ''cleared.revision'') (\<lambda>revision.
            Inr \<lparr>gr_id = str_of (map_of kvs ''id''), gr_revision = revision\<rparr>)))
      | _ \<Rightarrow> Inl (BadKeys ''cleared''))"

text \<open>\<open>None\<close> is the \<open>undefined\<close> of a value that is no goal change.\<close>

definition decodeGoalChange :: "json \<Rightarrow> goal_error + goal_change option" where
  "decodeGoalChange v =
     (if \<not> is_record v \<or> get_prop ''kind'' v \<noteq> Some (JStr ''goal/change'') then Inr None
      else rbind (guard (get_prop ''version'' v = Some (JInt 1)) BadVersion) (\<lambda>_.
        if get_prop ''operation'' v = Some (JStr ''clear'') then
          rbind (guard (sorted_keys v = ''cleared,clearedAt,kind,operation,version'') (BadKeys ''clear'')) (\<lambda>_.
          rbind (decodeRef (get_prop ''cleared'' v)) (\<lambda>ref.
          rbind (nonNegativeInteger (get_prop ''clearedAt'' v) ''clearedAt'') (\<lambda>clearedAt.
            Inr (Some (ClearChange ref clearedAt)))))
        else (case (if is_string (get_prop ''operation'' v) then parse_operation (str_of (get_prop ''operation'' v)) else None) of
            None \<Rightarrow> Inl BadOperation
          | Some operation \<Rightarrow>
              rbind (guard (sorted_keys v = ''createdAt,goal,kind,operation,roundsStarted,updatedAt,version'') (BadKeys ''snapshot'')) (\<lambda>_.
              rbind (nonNegativeInteger (get_prop ''createdAt'' v) ''createdAt'') (\<lambda>createdAt.
              rbind (nonNegativeInteger (get_prop ''updatedAt'' v) ''updatedAt'') (\<lambda>updatedAt.
              rbind (guard (createdAt \<le> updatedAt) BadTimestamps) (\<lambda>_.
              rbind (decodeSnapshot (get_prop ''goal'' v)) (\<lambda>goal.
              rbind (nonNegativeInteger (get_prop ''roundsStarted'' v) ''roundsStarted'') (\<lambda>rounds.
                Inr (Some (SnapshotChange operation goal rounds createdAt updatedAt)))))))))))"

section \<open>The fold\<close>

record goal_state =
  go_goal :: "goal_snapshot option"
  go_roundsStarted :: int
  go_createdAt :: "int option"
  go_updatedAt :: "int option"
  go_lastRef :: "goal_ref option"
  go_seen :: "string set"

definition emptyGoalFoldState :: goal_state where
  "emptyGoalFoldState = \<lparr>go_goal = None, go_roundsStarted = 0, go_createdAt = None,
     go_updatedAt = None, go_lastRef = None, go_seen = {}\<rparr>"

definition goalSource :: "message_source \<Rightarrow> goal_error + (string \<times> int \<times> int) option" where
  "goalSource s =
     (case s of
        OtherSource k d \<Rightarrow>
          if k \<noteq> ''goal'' then Inr None
          else rbind (guard (str_of (get_prop ''goalId'' d) \<noteq> []
              \<and> isSafeInteger (get_prop ''revision'' d) \<and> 1 \<le> int_of (get_prop ''revision'' d)
              \<and> isSafeInteger (get_prop ''round'' d) \<and> 1 \<le> int_of (get_prop ''round'' d)) BadSource) (\<lambda>_.
            Inr (Some (str_of (get_prop ''goalId'' d), int_of (get_prop ''revision'' d), int_of (get_prop ''round'' d))))
      | _ \<Rightarrow> Inr None)"

definition requireSameDefinition ::
  "goal_snapshot \<Rightarrow> goal_snapshot \<Rightarrow> goal_operation \<Rightarrow> goal_error + unit" where
  "requireSameDefinition cur nxt operation =
     guard (gs_objective nxt = gs_objective cur \<and> gs_maxGoalRounds nxt = gs_maxGoalRounds cur)
       (ChangedDefinition operation)"

definition requireNextRevision :: "goal_snapshot \<Rightarrow> string \<Rightarrow> int \<Rightarrow> goal_error + unit" where
  "requireNextRevision cur i revision =
     guard (i = gs_id cur \<and> revision = gs_revision cur + 1) NotNextRevision"

definition validateSnapshotTransition ::
  "goal_state \<Rightarrow> goal_operation \<Rightarrow> goal_snapshot \<Rightarrow> int \<Rightarrow> int \<Rightarrow> int \<Rightarrow> goal_snapshot \<Rightarrow> goal_error + unit" where
  "validateSnapshotTransition st operation nxt rounds createdAt updatedAt cur =
     rbind (requireNextRevision cur (gs_id nxt) (gs_revision nxt)) (\<lambda>_.
       case go_updatedAt st of
         None \<Rightarrow> Inl MissingUpdatedAt
       | Some previous \<Rightarrow>
           rbind (guard (go_createdAt st = Some createdAt \<and> previous \<le> updatedAt
               \<and> rounds = go_roundsStarted st) (ChangedCounters operation)) (\<lambda>_.
             case operation of
               OpEdit \<Rightarrow> guard (gs_phase nxt = gs_phase cur \<and> gs_blockedReason nxt = gs_blockedReason cur) ChangedPhase
             | OpPause \<Rightarrow> rbind (requireSameDefinition cur nxt operation) (\<lambda>_.
                 guard (gs_phase cur = PhActive \<and> gs_phase nxt = PhPaused) (InvalidTransition operation))
             | OpResume \<Rightarrow> rbind (requireSameDefinition cur nxt operation) (\<lambda>_.
                 guard (gs_phase cur \<in> {PhActive, PhPaused, PhBlocked} \<and> gs_phase nxt = PhActive
                   \<and> go_roundsStarted st < gs_maxGoalRounds nxt) (InvalidTransition operation))
             | OpComplete \<Rightarrow> rbind (requireSameDefinition cur nxt operation) (\<lambda>_.
                 guard (gs_phase cur \<noteq> PhComplete \<and> gs_phase nxt = PhComplete) (InvalidTransition operation))
             | OpBlock \<Rightarrow> rbind (requireSameDefinition cur nxt operation) (\<lambda>_.
                 guard (gs_phase cur = PhActive \<and> gs_phase nxt = PhBlocked) (InvalidTransition operation))
             | OpCreate \<Rightarrow> Inl (InvalidTransition operation)))"

fun goalChangeRef :: "goal_change \<Rightarrow> goal_ref" where
  "goalChangeRef (ClearChange ref _) = ref"
| "goalChangeRef (SnapshotChange _ g _ _ _) = \<lparr>gr_id = gs_id g, gr_revision = gs_revision g\<rparr>"

definition install :: "goal_state \<Rightarrow> goal_snapshot \<Rightarrow> int \<Rightarrow> int \<Rightarrow> int \<Rightarrow> goal_state" where
  "install st g rounds createdAt updatedAt =
     st\<lparr>go_goal := Some g, go_roundsStarted := rounds, go_createdAt := Some createdAt,
        go_updatedAt := Some updatedAt, go_lastRef := Some \<lparr>gr_id = gs_id g, gr_revision = gs_revision g\<rparr>\<rparr>"

fun applyGoalChange :: "goal_state \<Rightarrow> goal_change \<Rightarrow> goal_error + goal_state" where
  "applyGoalChange st (ClearChange ref clearedAt) =
     (case go_goal st of
        None \<Rightarrow> Inl NoCurrentGoal
      | Some cur \<Rightarrow>
          rbind (requireNextRevision cur (gr_id ref) (gr_revision ref)) (\<lambda>_.
            case go_updatedAt st of
              None \<Rightarrow> Inl MissingUpdatedAt
            | Some previous \<Rightarrow>
                rbind (guard (previous \<le> clearedAt) EarlyClear) (\<lambda>_.
                  Inr (st\<lparr>go_goal := None, go_roundsStarted := 0, go_createdAt := None,
                          go_updatedAt := None, go_lastRef := Some ref\<rparr>))))"
| "applyGoalChange st (SnapshotChange operation g rounds createdAt updatedAt) =
     (if operation = OpCreate then
        rbind (guard (gs_revision g = 1 \<and> gs_phase g = PhActive \<and> rounds = 0
            \<and> (case go_goal st of None \<Rightarrow> True | Some cur \<Rightarrow> gs_phase cur = PhComplete)
            \<and> gs_id g \<notin> go_seen st) BadCreate) (\<lambda>_.
          Inr (install (st\<lparr>go_seen := insert (gs_id g) (go_seen st)\<rparr>) g rounds createdAt updatedAt))
      else (case go_goal st of
          None \<Rightarrow> Inl NoCurrentGoal
        | Some cur \<Rightarrow>
            rbind (validateSnapshotTransition st operation g rounds createdAt updatedAt cur) (\<lambda>_.
              Inr (install st g rounds createdAt updatedAt))))"

definition applyGoalEvent :: "goal_state \<Rightarrow> goal_event \<Rightarrow> goal_error + goal_state" where
  "applyGoalEvent st e =
     (case ev_data e of
        Plugin (t, d) \<Rightarrow>
          if t = ''goal/change'' then
            rbind (decodeGoalChange d) (\<lambda>c. case c of None \<Rightarrow> Inl BadKind | Some ch \<Rightarrow> applyGoalChange st ch)
          else Inr st
      | UserMessage m \<Rightarrow>
          rbind (goalSource (msg_source m)) (\<lambda>s.
            case s of
              None \<Rightarrow> Inr st
            | Some (goalId, revision, n) \<Rightarrow>
                (case go_goal st of
                   None \<Rightarrow> Inl NotNextRound
                 | Some cur \<Rightarrow>
                     if gs_phase cur \<noteq> PhActive \<or> goalId \<noteq> gs_id cur \<or> revision \<noteq> gs_revision cur
                        \<or> n \<noteq> go_roundsStarted st + 1 \<or> gs_maxGoalRounds cur < n then Inl NotNextRound
                     else Inr (st\<lparr>go_roundsStarted := n\<rparr>)))
      | _ \<Rightarrow> Inr st)"

definition foldGoal :: "goal_event list \<Rightarrow> goal_error + goal_state" where
  "foldGoal events = run_steps applyGoalEvent emptyGoalFoldState events"


section \<open>Encoding\<close>

text \<open>The object literals the service builds; they are what the log stores.\<close>

fun encodeReason :: "block_reason \<Rightarrow> json" where
  "encodeReason r = JObj [(''code'', JStr (br_code r)), (''message'', JStr (br_message r))]"

definition encodeSnapshot :: "goal_snapshot \<Rightarrow> json" where
  "encodeSnapshot g = JObj ([(''id'', JStr (gs_id g)), (''revision'', JInt (gs_revision g)),
     (''objective'', JStr (gs_objective g)), (''phase'', JStr (phase_name (gs_phase g))),
     (''maxGoalRounds'', JInt (gs_maxGoalRounds g))]
     @ (case gs_blockedReason g of None \<Rightarrow> [] | Some r \<Rightarrow> [(''blockedReason'', encodeReason r)]))"

fun encodeGoalChange :: "goal_change \<Rightarrow> json" where
  "encodeGoalChange (SnapshotChange operation g rounds createdAt updatedAt) =
     JObj [(''kind'', JStr ''goal/change''), (''version'', JInt 1),
       (''operation'', JStr (operation_name operation)), (''goal'', encodeSnapshot g),
       (''roundsStarted'', JInt rounds), (''createdAt'', JInt createdAt), (''updatedAt'', JInt updatedAt)]"
| "encodeGoalChange (ClearChange ref clearedAt) =
     JObj [(''kind'', JStr ''goal/change''), (''version'', JInt 1), (''operation'', JStr ''clear''),
       (''cleared'', JObj [(''id'', JStr (gr_id ref)), (''revision'', JInt (gr_revision ref))]),
       (''clearedAt'', JInt clearedAt)]"

section \<open>Well-formed values\<close>

definition normalized :: "string \<Rightarrow> bool" where
  "normalized s \<longleftrightarrow> s \<noteq> [] \<and> trim s = s"

definition positive :: "int \<Rightarrow> bool" where
  "positive n \<longleftrightarrow> 1 \<le> n \<and> safe_int n"

definition natural :: "int \<Rightarrow> bool" where
  "natural n \<longleftrightarrow> 0 \<le> n \<and> safe_int n"

definition reason_ok :: "block_reason \<Rightarrow> bool" where
  "reason_ok r \<longleftrightarrow> kebab_case (br_code r) \<and> normalized (br_message r)"

definition snapshot_ok :: "goal_snapshot \<Rightarrow> bool" where
  "snapshot_ok g \<longleftrightarrow> gs_id g \<noteq> [] \<and> positive (gs_revision g) \<and> normalized (gs_objective g)
     \<and> positive (gs_maxGoalRounds g)
     \<and> (case gs_blockedReason g of None \<Rightarrow> gs_phase g \<noteq> PhBlocked
         | Some r \<Rightarrow> gs_phase g = PhBlocked \<and> reason_ok r)"

fun change_ok :: "goal_change \<Rightarrow> bool" where
  "change_ok (SnapshotChange _ g rounds createdAt updatedAt) \<longleftrightarrow>
     snapshot_ok g \<and> natural rounds \<and> natural createdAt \<and> natural updatedAt \<and> createdAt \<le> updatedAt"
| "change_ok (ClearChange ref clearedAt) \<longleftrightarrow>
     gr_id ref \<noteq> [] \<and> positive (gr_revision ref) \<and> natural clearedAt"

lemma positiveInteger_Inr: "positiveInteger v f = Inr n \<Longrightarrow> positive n"
  by (auto simp: positiveInteger_def positive_def split: if_splits elim: isSafeIntegerE)

lemma nonNegativeInteger_Inr: "nonNegativeInteger v f = Inr n \<Longrightarrow> natural n"
  by (auto simp: nonNegativeInteger_def natural_def split: if_splits elim: isSafeIntegerE)

lemma positiveInteger_JInt: "positive n \<Longrightarrow> positiveInteger (Some (JInt n)) f = Inr n"
  by (simp add: positiveInteger_def positive_def)

lemma nonNegativeInteger_JInt: "natural n \<Longrightarrow> nonNegativeInteger (Some (JInt n)) f = Inr n"
  by (simp add: nonNegativeInteger_def natural_def)

lemma parse_phase_name [simp]: "parse_phase (phase_name p) = Some p"
  by (cases p) (simp_all add: parse_phase_def)

lemma parse_operation_name [simp]: "parse_operation (operation_name op) = Some op"
  by (cases op) (simp_all add: parse_operation_def)

lemma operation_name_not_clear [simp]: "operation_name op \<noteq> ''clear''"
  by (cases op) simp_all

lemma str_of_JStr [simp]: "str_of (Some (JStr s)) = s"
  by (simp add: str_of_def)

lemma decodeBlockReason_ok: "decodeBlockReason v = Inr r \<Longrightarrow> reason_ok r"
  by (auto simp: decodeBlockReason_def reason_ok_def normalized_def result_simps
      split: option.splits json.splits)

lemma decodeSnapshot_ok:
  assumes "decodeSnapshot v = Inr g"
  shows "snapshot_ok g"
proof -
  from assms obtain kvs p where v: "v = Some (JObj kvs)"
    and p: "parse_phase (str_of (map_of kvs ''phase'')) = Some p"
    by (auto simp: decodeSnapshot_def result_simps split: option.splits json.splits)
  show ?thesis
    using assms v p
    by (auto simp: decodeSnapshot_def snapshot_ok_def normalized_def result_simps
        dest: positiveInteger_Inr decodeBlockReason_ok split: if_splits)
qed

lemma decodeRef_ok: "decodeRef v = Inr r \<Longrightarrow> gr_id r \<noteq> [] \<and> positive (gr_revision r)"
  by (auto simp: decodeRef_def result_simps dest: positiveInteger_Inr split: option.splits json.splits)

lemma decode_ok:
  assumes "decodeGoalChange v = Inr (Some c)"
  shows "change_ok c"
proof (cases "get_prop ''operation'' v = Some (JStr ''clear'')")
  case True
  then show ?thesis using assms
    by (auto simp: decodeGoalChange_def result_simps dest: decodeRef_ok nonNegativeInteger_Inr split: if_splits)
next
  case False
  then show ?thesis using assms
    by (auto simp: decodeGoalChange_def result_simps dest: decodeSnapshot_ok nonNegativeInteger_Inr
        split: if_splits option.splits)
qed

section \<open>Round trips\<close>

lemma decode_encode_reason:
  "reason_ok r \<Longrightarrow> decodeBlockReason (Some (encodeReason r)) = Inr r"
  by (simp add: decodeBlockReason_def sorted_keys_def reason_ok_def normalized_def)

lemma sorted_snapshot_keys:
  "sorted_keys (encodeSnapshot g) =
     (if gs_blockedReason g = None then ''id,maxGoalRounds,objective,phase,revision''
      else ''blockedReason,id,maxGoalRounds,objective,phase,revision'')"
  by (cases "gs_blockedReason g") (simp_all add: sorted_keys_def encodeSnapshot_def)


lemma decode_encode_snapshot:
  assumes "snapshot_ok g"
  shows "decodeSnapshot (Some (encodeSnapshot g)) = Inr g"
proof (cases "gs_blockedReason g")
  case None
  then show ?thesis
    using assms sorted_snapshot_keys [of g]
    by (simp add: decodeSnapshot_def encodeSnapshot_def snapshot_ok_def normalized_def snapshot_keys_def
        positiveInteger_JInt)
next
  case (Some r)
  then show ?thesis
    using assms sorted_snapshot_keys [of g]
    by (simp add: decodeSnapshot_def encodeSnapshot_def snapshot_ok_def normalized_def snapshot_keys_def
        positiveInteger_JInt decode_encode_reason parse_phase_name [of PhBlocked, unfolded phase_name.simps]
        del: encodeReason.simps)
qed

lemma decode_encode_ref:
  "gr_id r \<noteq> [] \<Longrightarrow> positive (gr_revision r) \<Longrightarrow>
   decodeRef (Some (JObj [(''id'', JStr (gr_id r)), (''revision'', JInt (gr_revision r))])) = Inr r"
  by (simp add: decodeRef_def sorted_keys_def positiveInteger_JInt)

lemma sorted_change_keys:
  "sorted_keys (encodeGoalChange (SnapshotChange op g n c u)) =
     ''createdAt,goal,kind,operation,roundsStarted,updatedAt,version''"
  "sorted_keys (encodeGoalChange (ClearChange r c)) = ''cleared,clearedAt,kind,operation,version''"
  by (simp_all add: sorted_keys_def)

lemma decode_encode:
  assumes "change_ok c"
  shows "decodeGoalChange (encodeGoalChange c) = Inr (Some c)"
proof (cases c)
  case (SnapshotChange op g n ca u)
  then show ?thesis
    using assms sorted_change_keys(1) [of op g n ca u]
    by (simp add: decodeGoalChange_def nonNegativeInteger_JInt decode_encode_snapshot)
next
  case (ClearChange r t)
  then show ?thesis
    using assms sorted_change_keys(2) [of r t]
    by (simp add: decodeGoalChange_def nonNegativeInteger_JInt decode_encode_ref)
qed

section \<open>Invariants of the fold\<close>

definition goal_inv :: "goal_state \<Rightarrow> bool" where
  "goal_inv st \<longleftrightarrow> 0 \<le> go_roundsStarted st \<and>
     (case go_goal st of
        None \<Rightarrow> go_roundsStarted st = 0 \<and> go_createdAt st = None \<and> go_updatedAt st = None
      | Some g \<Rightarrow> snapshot_ok g \<and> gs_id g \<in> go_seen st
          \<and> go_lastRef st = Some \<lparr>gr_id = gs_id g, gr_revision = gs_revision g\<rparr>
          \<and> (\<exists>c u. go_createdAt st = Some c \<and> go_updatedAt st = Some u \<and> natural c \<and> natural u \<and> c \<le> u))"

lemma empty_goal_inv: "goal_inv emptyGoalFoldState"
  by (simp add: goal_inv_def emptyGoalFoldState_def)

lemma goal_inv_current:
  assumes "goal_inv st" and "go_goal st = Some g"
  obtains c u where "snapshot_ok g" and "gs_id g \<in> go_seen st" and "go_createdAt st = Some c"
    and "go_updatedAt st = Some u" and "natural c" and "natural u" and "c \<le> u"
  using assms by (auto simp: goal_inv_def)

lemma install_inv:
  "snapshot_ok g \<Longrightarrow> 0 \<le> n \<Longrightarrow> natural c \<Longrightarrow> natural u \<Longrightarrow> c \<le> u \<Longrightarrow> gs_id g \<in> go_seen st \<Longrightarrow>
   goal_inv (install st g n c u)"
  by (simp add: goal_inv_def install_def)

lemma transition_fields:
  assumes "validateSnapshotTransition st op g n c u cur = Inr ()"
  shows "gs_id g = gs_id cur \<and> gs_revision g = gs_revision cur + 1 \<and> n = go_roundsStarted st
    \<and> go_createdAt st = Some c \<and> (\<exists>p. go_updatedAt st = Some p \<and> p \<le> u) \<and> op \<noteq> OpCreate"
  using assms by (auto simp: validateSnapshotTransition_def requireNextRevision_def result_simps split: option.splits)

lemma applyGoalChange_inv:
  assumes "goal_inv st" and "change_ok ch" and "applyGoalChange st ch = Inr st'"
  shows "goal_inv st'"
proof (cases ch)
  case (ClearChange ref t)
  then show ?thesis using assms by (auto simp: result_simps goal_inv_def split: option.splits)
next
  case (SnapshotChange op g n c u)
  show ?thesis
  proof (cases "op = OpCreate")
    case True
    then show ?thesis using assms SnapshotChange
      by (auto simp: result_simps natural_def intro!: install_inv)
  next
    case False
    with assms SnapshotChange obtain cur where cur: "go_goal st = Some cur"
      and v: "validateSnapshotTransition st op g n c u cur = Inr ()" and st': "st' = install st g n c u"
      by (auto simp: result_simps split: option.splits)
    obtain c0 u0 where "gs_id cur \<in> go_seen st" by (rule goal_inv_current [OF assms(1) cur])
    then have "gs_id g \<in> go_seen st" using transition_fields [OF v] by simp
    moreover have "0 \<le> n" using transition_fields [OF v] assms(1) by (simp add: goal_inv_def)
    ultimately show ?thesis
      using assms(2) SnapshotChange unfolding st' by (intro install_inv) simp_all
  qed
qed

lemma applyGoalEvent_inv:
  assumes "goal_inv st" and "applyGoalEvent st e = Inr st'"
  shows "goal_inv st'"
proof (cases "\<exists>t d. ev_data e = Plugin (t, d)")
  case True
  then show ?thesis
    using assms applyGoalChange_inv [OF assms(1) decode_ok]
    by (auto simp: applyGoalEvent_def result_simps split: if_splits option.splits)
next
  case False
  then show ?thesis
    using assms
    by (auto simp: applyGoalEvent_def result_simps goal_inv_def split: event_data.splits if_splits option.splits)
qed

interpretation goal_fold: fold_invariant applyGoalEvent goal_inv
  by unfold_locales (rule applyGoalEvent_inv)


section \<open>The history of the current goal\<close>

definition event_change :: "goal_event \<Rightarrow> goal_change option" where
  "event_change e = (case ev_data e of
       Plugin (t, d) \<Rightarrow> if t = ''goal/change'' then
           (case decodeGoalChange d of Inr c \<Rightarrow> c | Inl _ \<Rightarrow> None) else None
     | _ \<Rightarrow> None)"

definition event_round :: "goal_event \<Rightarrow> (string \<times> int \<times> int) option" where
  "event_round e = (case ev_data e of
       UserMessage m \<Rightarrow> (case goalSource (msg_source m) of Inr r \<Rightarrow> r | Inl _ \<Rightarrow> None)
     | _ \<Rightarrow> None)"

fun created_id :: "goal_change \<Rightarrow> string option" where
  "created_id (SnapshotChange op g _ _ _) = (if op = OpCreate then Some (gs_id g) else None)"
| "created_id (ClearChange _ _) = None"

fun is_clear :: "goal_change \<Rightarrow> bool" where
  "is_clear (ClearChange _ _) = True"
| "is_clear _ = False"

text \<open>
  The identities created so far; and, since the last create or clear, the admitted rounds and
  the revisions.
\<close>

definition created_ids :: "goal_event list \<Rightarrow> string list" where
  "created_ids es = List.map_filter (\<lambda>e. Option.bind (event_change e) created_id) es"

definition span_step :: "goal_event list \<Rightarrow> goal_event \<Rightarrow> goal_event list" where
  "span_step acc e = (case event_change e of
       Some c \<Rightarrow> if created_id c \<noteq> None then [e] else if is_clear c then [] else acc @ [e]
     | None \<Rightarrow> acc @ [e])"

definition goal_span :: "goal_event list \<Rightarrow> goal_event list" where
  "goal_span es = foldl span_step [] es"

definition span_rounds :: "goal_event list \<Rightarrow> (string \<times> int) list" where
  "span_rounds es = List.map_filter (\<lambda>e. map_option (\<lambda>(i, r, n). (i, n)) (event_round e)) es"

definition span_revisions :: "goal_event list \<Rightarrow> goal_ref list" where
  "span_revisions es = List.map_filter (\<lambda>e. map_option goalChangeRef (event_change e)) es"

lemmas span_simps = created_ids_def span_rounds_def span_revisions_def map_filter_snoc map_filter_simps

lemma goal_span_snoc: "goal_span (es @ [e]) = span_step (goal_span es) e"
  by (simp add: goal_span_def)

definition goal_history :: "goal_event list \<Rightarrow> goal_state \<Rightarrow> bool" where
  "goal_history es st \<longleftrightarrow> goal_inv st \<and> distinct (created_ids es) \<and> set (created_ids es) = go_seen st
     \<and> (case go_goal st of
          None \<Rightarrow> span_rounds (goal_span es) = []
        | Some g \<Rightarrow>
            span_rounds (goal_span es) = map (\<lambda>k. (gs_id g, int k)) [1 ..< Suc (nat (go_roundsStarted st))]
            \<and> span_revisions (goal_span es) =
                map (\<lambda>k. \<lparr>gr_id = gs_id g, gr_revision = int k\<rparr>) [1 ..< Suc (nat (gs_revision g))])"

text \<open>What one accepted event does, by what it carries.\<close>

lemma event_cases:
  assumes "applyGoalEvent st e = Inr st'"
  obtains (change) c where "event_change e = Some c" "event_round e = None" "change_ok c"
      "applyGoalChange st c = Inr st'"
    | (round) i r n g where "event_change e = None" "event_round e = Some (i, r, n)" "go_goal st = Some g"
      "gs_phase g = PhActive" "i = gs_id g" "r = gs_revision g" "n = go_roundsStarted st + 1"
      "n \<le> gs_maxGoalRounds g" "st' = st\<lparr>go_roundsStarted := n\<rparr>"
    | (other) "event_change e = None" "event_round e = None" "st' = st"
proof (cases "ev_data e")
  case (Plugin td)
  obtain t d where td: "td = (t, d)" by (cases td)
  show ?thesis
  proof (cases "t = ''goal/change''")
    case True
    with assms Plugin td obtain c where c: "decodeGoalChange d = Inr (Some c)" "applyGoalChange st c = Inr st'"
      by (auto simp: applyGoalEvent_def result_simps split: option.splits)
    show ?thesis
      by (rule change [of c]) (use c True Plugin td decode_ok in \<open>auto simp: event_change_def event_round_def\<close>)
  next
    case False
    then show ?thesis
      by (intro other) (use assms Plugin td in \<open>auto simp: applyGoalEvent_def event_change_def event_round_def\<close>)
  qed
next
  case (UserMessage m)
  with assms obtain s where s: "goalSource (msg_source m) = Inr s"
    by (auto simp: applyGoalEvent_def result_simps)
  show ?thesis
  proof (cases s)
    case None
    then show ?thesis
      by (intro other) (use assms s UserMessage in \<open>auto simp: applyGoalEvent_def event_change_def event_round_def\<close>)
  next
    case (Some irn)
    obtain i r n where irn: "irn = (i, r, n)" by (cases irn)
    with assms s Some UserMessage obtain g where g: "go_goal st = Some g"
      by (auto simp: applyGoalEvent_def split: option.splits)
    show ?thesis
      by (rule round [of i r n g])
        (use assms s Some UserMessage irn g in \<open>auto simp: applyGoalEvent_def event_change_def event_round_def split: if_splits\<close>)
  qed
qed (use assms other in \<open>auto simp: applyGoalEvent_def event_change_def event_round_def\<close>)

lemma natural_step: "0 \<le> n \<Longrightarrow> [1 ..< Suc (nat (n + 1))] = [1 ..< Suc (nat n)] @ [Suc (nat n)]"
  by (simp add: nat_add_distrib)


lemma history_round:
  assumes h: "goal_history es st" and c: "event_change e = None" and r: "event_round e = Some (gs_id g, rv, n)"
    and g: "go_goal st = Some g" and n: "n = go_roundsStarted st + 1"
  shows "goal_history (es @ [e]) (st\<lparr>go_roundsStarted := n\<rparr>)"
proof -
  have nn: "0 \<le> go_roundsStarted st" using h by (simp add: goal_history_def goal_inv_def)
  have "goal_inv (st\<lparr>go_roundsStarted := n\<rparr>)" using h g n by (auto simp: goal_history_def goal_inv_def)
  then show ?thesis
    using h g n nn r c natural_step [OF nn]
    by (simp add: goal_history_def goal_span_snoc span_step_def span_simps)
qed

lemma history_other:
  assumes "goal_history es st" and "event_change e = None" and "event_round e = None"
  shows "goal_history (es @ [e]) st"
  using assms by (simp add: goal_history_def goal_span_snoc span_step_def span_simps split: option.splits)

lemma history_create:
  assumes h: "goal_history es st" and e: "event_change e = Some (SnapshotChange OpCreate g n c u)"
    and r: "event_round e = None" and fresh: "gs_id g \<notin> go_seen st" and one: "gs_revision g = 1" and n: "n = 0"
    and inv: "goal_inv (install (st\<lparr>go_seen := insert (gs_id g) (go_seen st)\<rparr>) g n c u)"
  shows "goal_history (es @ [e]) (install (st\<lparr>go_seen := insert (gs_id g) (go_seen st)\<rparr>) g n c u)"
  using h e r fresh one n inv
  by (simp add: goal_history_def goal_span_snoc span_step_def span_simps install_def)

lemma history_update:
  assumes h: "goal_history es st" and e: "event_change e = Some (SnapshotChange op g n c u)"
    and r: "event_round e = None" and op: "op \<noteq> OpCreate" and cur: "go_goal st = Some cur"
    and next': "gs_id g = gs_id cur" "gs_revision g = gs_revision cur + 1" "n = go_roundsStarted st"
    and inv: "goal_inv (install st g n c u)"
  shows "goal_history (es @ [e]) (install st g n c u)"
proof -
  have "0 \<le> gs_revision cur" using h cur by (simp add: goal_history_def goal_inv_def snapshot_ok_def positive_def)
  from natural_step [OF this] show ?thesis
    using h e r op cur next' inv \<open>0 \<le> gs_revision cur\<close>
    by (simp add: goal_history_def goal_span_snoc span_step_def span_simps install_def)
qed

lemma history_clear:
  assumes h: "goal_history es st" and e: "event_change e = Some (ClearChange ref t)"
    and r: "event_round e = None" and a: "applyGoalChange st (ClearChange ref t) = Inr st'"
    and inv: "goal_inv st'"
  shows "goal_history (es @ [e]) st'"
proof -
  from a have "go_goal st' = None" "go_seen st' = go_seen st"
    by (auto simp: result_simps split: option.splits)
  then show ?thesis
    using h e r inv by (simp add: goal_history_def goal_span_snoc span_step_def span_simps)
qed

lemma applyGoalEvent_history:
  assumes h: "goal_history es st" and a: "applyGoalEvent st e = Inr st'"
  shows "goal_history (es @ [e]) st'"
proof -
  have inv: "goal_inv st" using h by (simp add: goal_history_def)
  have inv': "goal_inv st'" by (rule applyGoalEvent_inv [OF inv a])
  show ?thesis
  proof (cases rule: event_cases [OF a])
    case (1 ch)
    show ?thesis
    proof (cases ch)
      case (ClearChange ref t)
      with 1(1,4) show ?thesis by (intro history_clear [OF h _ 1(2) _ inv', of ref t]) simp_all
    next
      case (SnapshotChange op g n c u)
      show ?thesis
      proof (cases "op = OpCreate")
        case True
        with 1(4) SnapshotChange have "gs_id g \<notin> go_seen st" "gs_revision g = 1" "n = 0"
          and st': "st' = install (st\<lparr>go_seen := insert (gs_id g) (go_seen st)\<rparr>) g n c u"
          by (auto simp: result_simps)
        then show ?thesis
          using history_create [OF h _ 1(2), of g n c u] 1(1) SnapshotChange True inv' by simp
      next
        case False
        with 1(4) SnapshotChange obtain cur where cur: "go_goal st = Some cur"
          and v: "validateSnapshotTransition st op g n c u cur = Inr ()" and st': "st' = install st g n c u"
          by (auto simp: result_simps split: option.splits)
        then show ?thesis
          using history_update [OF h _ 1(2) False cur, of g n c u] 1(1) SnapshotChange inv'
            transition_fields [OF v] by simp
      qed
    qed
  next
    case (2 i r n g)
    then show ?thesis using history_round [OF h 2(1), of g r n] by simp
  next
    case 3
    then show ?thesis using history_other [OF h] by simp
  qed
qed

interpretation goal_log: fold_history applyGoalEvent goal_history
  by unfold_locales (rule applyGoalEvent_history)

lemma goal_history_empty: "goal_history [] emptyGoalFoldState"
  by (simp add: goal_history_def empty_goal_inv, simp add: emptyGoalFoldState_def goal_span_def span_simps)

lemma foldGoal_history: "foldGoal es = Inr st \<Longrightarrow> goal_history es st"
  using goal_log.run_hinv [OF goal_history_empty, of es st] by (simp add: foldGoal_def)

section \<open>Properties\<close>

text \<open>
  The strict decoder inverts the encoding: every well-formed change decodes from the object
  the service writes to itself, and whatever the decoder accepts is well formed (positive safe
  revisions and budgets, normalised objective, a blocked reason exactly in the blocked phase).
\<close>

theorem goal_change_roundtrip:
  "(change_ok c \<longrightarrow> decodeGoalChange (encodeGoalChange c) = Inr (Some c))
   \<and> (decodeGoalChange v = Inr (Some c) \<longrightarrow> change_ok c)"
  using decode_encode decode_ok by blast

definition sample_goal :: "int \<Rightarrow> goal_phase \<Rightarrow> goal_snapshot" where
  "sample_goal r p = \<lparr>gs_id = ''goal-1'', gs_revision = r, gs_objective = ''ship it'', gs_phase = p,
     gs_blockedReason = (if p = PhBlocked then Some \<lparr>br_code = ''no-key'', br_message = ''missing''\<rparr> else None),
     gs_maxGoalRounds = 3\<rparr>"

lemma sample_change_ok: "change_ok (SnapshotChange OpBlock (sample_goal 2 PhBlocked) 1 10 20)"
  by (simp add: sample_goal_def snapshot_ok_def reason_ok_def positive_def natural_def normalized_def
      trim_def white_space_def safe_int_def max_safe_def lower_letter_def lower_alnum_def)

theorem goal_change_roundtrip_witness:
  "decodeGoalChange (encodeGoalChange (SnapshotChange OpBlock (sample_goal 2 PhBlocked) 1 10 20)) =
     Inr (Some (SnapshotChange OpBlock (sample_goal 2 PhBlocked) 1 10 20))"
  using goal_change_roundtrip sample_change_ok by blast

text \<open>
  C37. The history of an accepted log: no goal identity is created twice; the rounds admitted
  for the current goal are 1, 2, ... up to the counter, all of its identity; its revisions are
  1, 2, ... up to the current one.
\<close>

theorem goal_log_history:
  assumes "foldGoal es = Inr st"
  shows "distinct (created_ids es)
    \<and> (\<forall>g. go_goal st = Some g \<longrightarrow>
        span_rounds (goal_span es) = map (\<lambda>k. (gs_id g, int k)) [1 ..< Suc (nat (go_roundsStarted st))]
        \<and> span_revisions (goal_span es) =
            map (\<lambda>k. \<lparr>gr_id = gs_id g, gr_revision = int k\<rparr>) [1 ..< Suc (nat (gs_revision g))])
    \<and> (go_goal st = None \<longrightarrow> go_roundsStarted st = 0 \<and> span_rounds (goal_span es) = [])"
  using foldGoal_history [OF assms] by (auto simp: goal_history_def goal_inv_def split: option.splits)

definition change_event :: "goal_change \<Rightarrow> goal_event" where
  "change_event c = \<lparr>ev_data = Plugin (''goal/change'', encodeGoalChange c), ev_seq = 0, ev_time = 0,
     ev_ignorable = False, ev_surfaceOp = None, ev_sources = None\<rparr>"

definition round_event :: "string \<Rightarrow> int \<Rightarrow> int \<Rightarrow> goal_event" where
  "round_event i r n = \<lparr>ev_data = UserMessage \<lparr>msg_id = ''m'', msg_role = RoleUser, msg_content = [],
       msg_source = OtherSource ''goal'' (JObj [(''goalId'', JStr i), (''revision'', JInt r), (''round'', JInt n)])\<rparr>,
     ev_seq = 0, ev_time = 0, ev_ignorable = False, ev_surfaceOp = None, ev_sources = None\<rparr>"

lemma applyGoalEvent_change:
  "change_ok c \<Longrightarrow> applyGoalEvent st (change_event c) = applyGoalChange st c"
  by (simp add: applyGoalEvent_def change_event_def decode_encode)

definition sample_goal_log :: "goal_event list" where
  "sample_goal_log = [change_event (SnapshotChange OpCreate (sample_goal 1 PhActive) 0 10 10),
     round_event ''goal-1'' 1 1,
     change_event (SnapshotChange OpComplete (sample_goal 2 PhComplete) 1 10 20)]"

lemma sample_goal_changes:
  "change_ok (SnapshotChange OpCreate (sample_goal 1 PhActive) 0 10 10)"
  "change_ok (SnapshotChange OpComplete (sample_goal 2 PhComplete) 1 10 20)"
  by (simp_all add: sample_goal_def snapshot_ok_def positive_def natural_def normalized_def
      trim_def white_space_def safe_int_def max_safe_def)

lemma sample_goal_round:
  "applyGoalEvent st (round_event ''goal-1'' 1 1) =
     (case go_goal st of None \<Rightarrow> Inl NotNextRound
      | Some cur \<Rightarrow> if gs_phase cur \<noteq> PhActive \<or> ''goal-1'' \<noteq> gs_id cur \<or> 1 \<noteq> gs_revision cur
          \<or> 1 \<noteq> go_roundsStarted st + 1 \<or> gs_maxGoalRounds cur < 1 then Inl NotNextRound
        else Inr (st\<lparr>go_roundsStarted := 1\<rparr>))"
  by (simp add: applyGoalEvent_def round_event_def goalSource_def safe_int_def max_safe_def)

lemma sample_goal_folded:
  "\<exists>st. foldGoal sample_goal_log = Inr st \<and> go_goal st = Some (sample_goal 2 PhComplete) \<and> go_roundsStarted st = 1"
  by (simp add: foldGoal_def sample_goal_log_def applyGoalEvent_change [OF sample_goal_changes(1)]
      applyGoalEvent_change [OF sample_goal_changes(2)] sample_goal_round
      del: applyGoalChange.simps)
    (simp add: emptyGoalFoldState_def install_def validateSnapshotTransition_def requireNextRevision_def
      requireSameDefinition_def sample_goal_def)

theorem goal_log_history_witness:
  "span_revisions (goal_span sample_goal_log) =
     [\<lparr>gr_id = ''goal-1'', gr_revision = 1\<rparr>, \<lparr>gr_id = ''goal-1'', gr_revision = 2\<rparr>]"
proof -
  obtain st where st: "foldGoal sample_goal_log = Inr st" "go_goal st = Some (sample_goal 2 PhComplete)"
    using sample_goal_folded by blast
  from goal_log_history [OF st(1)] st(2) show ?thesis by (simp add: sample_goal_def numeral_2_eq_2)
qed


text \<open>The phases an operation may connect.\<close>

fun phase_step :: "goal_operation \<Rightarrow> goal_phase \<Rightarrow> goal_phase \<Rightarrow> bool" where
  "phase_step OpEdit p q \<longleftrightarrow> q = p"
| "phase_step OpPause p q \<longleftrightarrow> p = PhActive \<and> q = PhPaused"
| "phase_step OpResume p q \<longleftrightarrow> p \<noteq> PhComplete \<and> q = PhActive"
| "phase_step OpComplete p q \<longleftrightarrow> p \<noteq> PhComplete \<and> q = PhComplete"
| "phase_step OpBlock p q \<longleftrightarrow> p = PhActive \<and> q = PhBlocked"
| "phase_step OpCreate p q \<longleftrightarrow> False"

lemma transition_phase:
  assumes "validateSnapshotTransition st op g n c u cur = Inr ()"
  shows "phase_step op (gs_phase cur) (gs_phase g)
    \<and> (op \<noteq> OpEdit \<longrightarrow> gs_objective g = gs_objective cur \<and> gs_maxGoalRounds g = gs_maxGoalRounds cur)
    \<and> (op = OpResume \<longrightarrow> n < gs_maxGoalRounds g)"
  using assms
  by (cases op) (auto simp: validateSnapshotTransition_def requireSameDefinition_def result_simps split: option.splits)

lemma accepted_event:
  assumes "foldGoal (pre @ e # post) = Inr st"
  obtains s s' where "foldGoal pre = Inr s" and "goal_inv s" and "applyGoalEvent s e = Inr s'"
  using goal_fold.run_prefix [OF empty_goal_inv, of pre "e # post" st] assms
  by (auto simp: foldGoal_def result_simps)

text \<open>
  An accepted log admits only what the goal allows: a round belongs to the active goal at
  its exact revision, is the next number and within the budget; a change advances the current
  goal by one revision along the phase diagram, and only an edit changes the objective or
  budget; a completed goal is never resumed.
\<close>

theorem goal_admission:
  assumes "foldGoal (pre @ e # post) = Inr st"
  shows "\<exists>s. foldGoal pre = Inr s
    \<and> (\<forall>i r n. event_round e = Some (i, r, n) \<longrightarrow>
        (\<exists>g. go_goal s = Some g \<and> gs_phase g = PhActive \<and> i = gs_id g \<and> r = gs_revision g
          \<and> n = go_roundsStarted s + 1 \<and> n \<le> gs_maxGoalRounds g))
    \<and> (\<forall>op g n c u. event_change e = Some (SnapshotChange op g n c u) \<and> op \<noteq> OpCreate \<longrightarrow>
        (\<exists>cur. go_goal s = Some cur \<and> gs_id g = gs_id cur \<and> gs_revision g = gs_revision cur + 1
          \<and> phase_step op (gs_phase cur) (gs_phase g)
          \<and> (op \<noteq> OpEdit \<longrightarrow> gs_objective g = gs_objective cur \<and> gs_maxGoalRounds g = gs_maxGoalRounds cur)))"
proof -
  obtain s s' where s: "foldGoal pre = Inr s" and a: "applyGoalEvent s e = Inr s'"
    by (rule accepted_event [OF assms])
  show ?thesis
  proof (intro exI [of _ s] conjI allI impI s, goal_cases)
    case (1 i r n)
    then show ?case by (cases rule: event_cases [OF a]) auto
  next
    case (2 op g n c u)
    then have "applyGoalChange s (SnapshotChange op g n c u) = Inr s'"
      by (cases rule: event_cases [OF a]) auto
    with 2 obtain cur where cur: "go_goal s = Some cur"
      and v: "validateSnapshotTransition s op g n c u cur = Inr ()"
      by (auto simp: result_simps split: option.splits)
    then show ?case using transition_fields [OF v] transition_phase [OF v] by blast
  qed
qed

theorem goal_admission_witness:
  "\<exists>s g. foldGoal [change_event (SnapshotChange OpCreate (sample_goal 1 PhActive) 0 10 10)] = Inr s
     \<and> go_goal s = Some g \<and> gs_phase g = PhActive \<and> 1 \<le> gs_maxGoalRounds g"
proof -
  let ?pre = "[change_event (SnapshotChange OpCreate (sample_goal 1 PhActive) 0 10 10)]"
  obtain st where "foldGoal sample_goal_log = Inr st" using sample_goal_folded by blast
  then have "foldGoal (?pre @ round_event ''goal-1'' 1 1 #
      [change_event (SnapshotChange OpComplete (sample_goal 2 PhComplete) 1 10 20)]) = Inr st"
    by (simp add: sample_goal_log_def)
  moreover have "event_round (round_event ''goal-1'' 1 1) = Some (''goal-1'', 1, 1)"
    by (simp add: event_round_def round_event_def goalSource_def safe_int_def max_safe_def)
  ultimately show ?thesis using goal_admission by blast
qed

end
