(* ===== verification/GoalService.thy ===== *)
theory GoalService imports Goal Doubles begin

text \<open>
  packages/goal/goal/src/index.ts: the goal service of one session. Its cache follows the log
  through the strict fold of Goal and holds the process-local activation; each mutation checks
  the caller's reference, builds the next change and commits it to the log. The wall clock, the
  fresh identity, the liveness of the agent and the session's refusal of the append are arguments.
  Listeners that run while the
  event is appended are taken not to call the service again.
\<close>

section \<open>State\<close>

text \<open>\<open>gc_armed\<close> is the activation; \<open>gc_observed\<close> counts the log events folded into the state.\<close>

record goal_cache =
  gc_state :: goal_state
  gc_armed :: bool
  gc_observed :: nat

record goal_world =
  gw_log :: "goal_event list"
  gw_cache :: "goal_cache option"

record goal_view =
  gv_goal :: goal_snapshot
  gv_roundsStarted :: int
  gv_createdAt :: int
  gv_updatedAt :: int
  gv_armed :: bool

datatype goal_code =
    AgentNotLive
  | GoalNotFound
  | GoalAlreadyExists
  | StaleRevision
  | InvalidObjective
  | InvalidMaxRounds
  | InvalidBlockReason
  | InvalidEdit
  | TransitionRejected
  | ReplayFailed goal_error
  | AppendRefused
  | CacheLacksTime

type_synonym 'a goal_result = "goal_world \<times> (goal_code + 'a)"

section \<open>Request validation\<close>

definition resolveMaxGoalRounds :: "num_value \<Rightarrow> goal_code + int" where
  "resolveMaxGoalRounds v =
     (if finite_number v \<and> is_safe_integer (num_rat v) \<and> 1 \<le> num_rat v then Inr \<lfloor>num_rat v\<rfloor>
      else Inl InvalidMaxRounds)"

definition resolveObjective :: "string \<Rightarrow> goal_code + string" where
  "resolveObjective s = (if trim s = [] then Inl InvalidObjective else Inr (trim s))"

definition resolveBlockReason :: "json \<Rightarrow> goal_code + block_reason" where
  "resolveBlockReason v =
     (if is_string (get_prop ''code'' v) \<and> kebab_case (str_of (get_prop ''code'' v))
         \<and> is_string (get_prop ''message'' v) \<and> trim (str_of (get_prop ''message'' v)) \<noteq> []
      then Inr \<lparr>br_code = str_of (get_prop ''code'' v), br_message = trim (str_of (get_prop ''message'' v))\<rparr>
      else Inl InvalidBlockReason)"

definition resolveCreateGoal :: "string \<Rightarrow> num_value option \<Rightarrow> int \<Rightarrow> goal_code + (string \<times> int)" where
  "resolveCreateGoal objective maxRounds dflt =
     rbind (resolveObjective objective) (\<lambda>ob.
     rbind (resolveMaxGoalRounds (case maxRounds of Some v \<Rightarrow> v | None \<Rightarrow> Fin (of_int dflt))) (\<lambda>m.
       Inr (ob, m)))"

section \<open>Following the log\<close>

definition is_goal_change :: "goal_event \<Rightarrow> bool" where
  "is_goal_change e = (case ev_data e of Plugin (t, _) \<Rightarrow> t = ''goal/change'' | _ \<Rightarrow> False)"

text \<open>The loop of \<open>sync\<close>; an event the fold rejects leaves the cache at the event before it.\<close>

fun sync_events :: "(nat \<times> bool) option \<Rightarrow> goal_event list \<Rightarrow> goal_cache \<Rightarrow> goal_cache \<times> goal_error option" where
  "sync_events pending [] c = (c, None)"
| "sync_events pending (e # es) c =
     (case applyGoalEvent (gc_state c) e of
        Inl x \<Rightarrow> (c, Some x)
      | Inr st \<Rightarrow>
          sync_events pending es
            (c\<lparr>gc_state := st,
               gc_armed := (if is_goal_change e then
                   (case pending of Some (s, a) \<Rightarrow> s = ev_seq e \<and> a | None \<Rightarrow> False) else gc_armed c),
               gc_observed := Suc (gc_observed c)\<rparr>))"

definition sync :: "(nat \<times> bool) option \<Rightarrow> goal_event list \<Rightarrow> goal_cache \<Rightarrow> goal_cache \<times> goal_error option" where
  "sync pending events c = sync_events pending (drop (gc_observed c) events) c"

text \<open>\<open>cache\<close>: the first use folds the whole log, disarmed.\<close>

definition cache :: "goal_world \<Rightarrow> goal_error + goal_cache" where
  "cache w = (case gw_cache w of
       Some c \<Rightarrow> Inr c
     | None \<Rightarrow> rbind (foldGoal (gw_log w)) (\<lambda>st.
         Inr \<lparr>gc_state = st, gc_armed = False, gc_observed = length (gw_log w)\<rparr>))"

definition prepareMutation :: "bool \<Rightarrow> goal_world \<Rightarrow> goal_cache goal_result" where
  "prepareMutation live w =
     (if \<not> live then (w, Inl AgentNotLive)
      else (case cache w of
          Inl x \<Rightarrow> (w, Inl (ReplayFailed x))
        | Inr c0 \<Rightarrow>
            (case sync None (gw_log w) c0 of
               (c, None) \<Rightarrow> (w\<lparr>gw_cache := Some c\<rparr>, Inr c)
             | (c, Some x) \<Rightarrow> (w\<lparr>gw_cache := Some c\<rparr>, Inl (ReplayFailed x)))))"

definition goalView :: "goal_cache \<Rightarrow> goal_code + goal_view option" where
  "goalView c = (case go_goal (gc_state c) of
       None \<Rightarrow> Inr None
     | Some g \<Rightarrow> (case (go_createdAt (gc_state c), go_updatedAt (gc_state c)) of
           (Some ca, Some u) \<Rightarrow> Inr (Some \<lparr>gv_goal = g, gv_roundsStarted = go_roundsStarted (gc_state c),
             gv_createdAt = ca, gv_updatedAt = u, gv_armed = gc_armed c\<rparr>)
         | _ \<Rightarrow> Inl CacheLacksTime))"

section \<open>Committing\<close>

definition committed_event :: "nat \<Rightarrow> int \<Rightarrow> goal_change \<Rightarrow> goal_event" where
  "committed_event seq now ch = \<lparr>ev_data = Plugin (''goal/change'', encodeGoalChange ch), ev_seq = seq,
     ev_time = now, ev_ignorable = False, ev_surfaceOp = None, ev_sources = None\<rparr>"

text \<open>
  \<open>refused\<close>: the session refuses the append, because a listener vetoes the event or another append is
  being published. The error passes through to the caller; the cache is left as it was synchronised.
\<close>

definition commit :: "int \<Rightarrow> goal_cache \<Rightarrow> goal_change \<Rightarrow> bool \<Rightarrow> bool \<Rightarrow> goal_world \<Rightarrow> goal_view option goal_result" where
  "commit now c ch armed refused w =
     (if refused then (w, Inl AppendRefused) else
      let seq = length (gw_log w);
          events = gw_log w @ [committed_event seq now ch]
      in case sync (Some (seq, armed)) events c of
           (c', Some x) \<Rightarrow> (\<lparr>gw_log = events, gw_cache = Some c'\<rparr>, Inl (ReplayFailed x))
         | (c', None) \<Rightarrow> (\<lparr>gw_log = events, gw_cache = Some c'\<rparr>, goalView c'))"

definition expectCurrent :: "goal_cache \<Rightarrow> goal_ref \<Rightarrow> goal_code + goal_snapshot" where
  "expectCurrent c ref = (case go_goal (gc_state c) of
       None \<Rightarrow> Inl GoalNotFound
     | Some g \<Rightarrow> if gr_id ref \<noteq> gs_id g \<or> gr_revision ref \<noteq> gs_revision g then Inl StaleRevision else Inr g)"

definition nextMutationTime :: "int \<Rightarrow> goal_cache \<Rightarrow> goal_code + int" where
  "nextMutationTime now c = (case go_updatedAt (gc_state c) of
       None \<Rightarrow> Inl CacheLacksTime | Some u \<Rightarrow> Inr (max now u))"

text \<open>The change \<open>commitCurrent\<close> builds, which keeps the counters and the creation time.\<close>

definition commitCurrent :: "int \<Rightarrow> goal_cache \<Rightarrow> goal_operation \<Rightarrow> goal_snapshot \<Rightarrow> goal_code + goal_change" where
  "commitCurrent now c operation g = (case go_createdAt (gc_state c) of
       None \<Rightarrow> Inl CacheLacksTime
     | Some createdAt \<Rightarrow> rbind (nextMutationTime now c) (\<lambda>u.
         Inr (SnapshotChange operation g (go_roundsStarted (gc_state c)) createdAt u)))"

definition withPhase :: "goal_snapshot \<Rightarrow> goal_phase \<Rightarrow> goal_snapshot" where
  "withPhase g p = \<lparr>gs_id = gs_id g, gs_revision = gs_revision g + 1, gs_objective = gs_objective g,
     gs_phase = p, gs_blockedReason = None, gs_maxGoalRounds = gs_maxGoalRounds g\<rparr>"

section \<open>Operations\<close>

datatype goal_request =
    ReqGet
  | ReqDisarm
  | ReqCreate string "num_value option" string
  | ReqEdit goal_ref "string option" "num_value option"
  | ReqPause goal_ref
  | ReqResume goal_ref
  | ReqComplete goal_ref
  | ReqBlock goal_ref json
  | ReqClear goal_ref

text \<open>\<open>transition\<close>: a phase change from one of the allowed phases.\<close>

definition transition :: "int \<Rightarrow> goal_cache \<Rightarrow> goal_ref \<Rightarrow> goal_operation \<Rightarrow> goal_phase list \<Rightarrow> goal_phase
    \<Rightarrow> goal_code + goal_change" where
  "transition now c ref operation allowed p =
     rbind (expectCurrent c ref) (\<lambda>g.
     rbind (guard (gs_phase g \<in> set allowed) TransitionRejected) (\<lambda>_.
       commitCurrent now c operation (withPhase g p)))"

text \<open>The change and the activation each mutation proposes; the argument \<open>dflt\<close> is the default budget.\<close>

fun propose :: "int \<Rightarrow> int \<Rightarrow> goal_cache \<Rightarrow> goal_request \<Rightarrow> goal_code + (goal_change \<times> bool)" where
  "propose dflt now c (ReqCreate objective maxRounds uuid) =
     rbind (resolveCreateGoal objective maxRounds dflt) (\<lambda>(ob, m).
     rbind (guard (case go_goal (gc_state c) of None \<Rightarrow> True | Some g \<Rightarrow> gs_phase g = PhComplete) GoalAlreadyExists) (\<lambda>_.
       Inr (SnapshotChange OpCreate \<lparr>gs_id = ''goal-'' @ uuid, gs_revision = 1, gs_objective = ob,
              gs_phase = PhActive, gs_blockedReason = None, gs_maxGoalRounds = m\<rparr> 0 now now, True)))"
| "propose dflt now c (ReqEdit ref objective maxRounds) =
     rbind (expectCurrent c ref) (\<lambda>g.
     rbind (guard (objective \<noteq> None \<or> maxRounds \<noteq> None) InvalidEdit) (\<lambda>_.
     rbind (case objective of None \<Rightarrow> Inr (gs_objective g) | Some s \<Rightarrow> resolveObjective s) (\<lambda>ob.
     rbind (case maxRounds of None \<Rightarrow> Inr (gs_maxGoalRounds g) | Some v \<Rightarrow> resolveMaxGoalRounds v) (\<lambda>m.
     rbind (commitCurrent now c OpEdit
         (g\<lparr>gs_revision := gs_revision g + 1, gs_objective := ob, gs_maxGoalRounds := m\<rparr>)) (\<lambda>ch.
       Inr (ch, gc_armed c))))))"
| "propose dflt now c (ReqPause ref) =
     rbind (transition now c ref OpPause [PhActive] PhPaused) (\<lambda>ch. Inr (ch, False))"
| "propose dflt now c (ReqResume ref) =
     rbind (expectCurrent c ref) (\<lambda>g.
     rbind (guard (gs_phase g \<in> {PhActive, PhPaused, PhBlocked}) TransitionRejected) (\<lambda>_.
     rbind (guard (\<not> (gs_phase g = PhActive \<and> gc_armed c)) TransitionRejected) (\<lambda>_.
     rbind (guard (go_roundsStarted (gc_state c) < gs_maxGoalRounds g) TransitionRejected) (\<lambda>_.
     rbind (commitCurrent now c OpResume (withPhase g PhActive)) (\<lambda>ch. Inr (ch, True))))))"
| "propose dflt now c (ReqComplete ref) =
     rbind (transition now c ref OpComplete [PhActive, PhPaused, PhBlocked] PhComplete) (\<lambda>ch. Inr (ch, False))"
| "propose dflt now c (ReqBlock ref reason) =
     rbind (expectCurrent c ref) (\<lambda>g.
     rbind (guard (gs_phase g = PhActive) TransitionRejected) (\<lambda>_.
     rbind (resolveBlockReason reason) (\<lambda>r.
     rbind (commitCurrent now c OpBlock ((withPhase g PhBlocked)\<lparr>gs_blockedReason := Some r\<rparr>)) (\<lambda>ch.
       Inr (ch, False)))))"
| "propose dflt now c (ReqClear ref) =
     rbind (expectCurrent c ref) (\<lambda>g.
     rbind (nextMutationTime now c) (\<lambda>u.
       Inr (ClearChange \<lparr>gr_id = gs_id g, gr_revision = gs_revision g + 1\<rparr> u, False)))"
| "propose dflt now c ReqGet = Inl InvalidEdit"
| "propose dflt now c ReqDisarm = Inl InvalidEdit"

text \<open>
  One call of the service. \<open>create\<close> validates its request before it looks at the session; every
  other mutation synchronises first. The result of \<open>clear\<close> is the absent view.
\<close>

definition perform :: "bool \<Rightarrow> int \<Rightarrow> int \<Rightarrow> bool \<Rightarrow> goal_request \<Rightarrow> goal_world \<Rightarrow> goal_view option goal_result" where
  "perform live dflt now refused req w =
     (case (case req of ReqCreate ob m _ \<Rightarrow> rbind (resolveCreateGoal ob m dflt) (\<lambda>_. Inr ()) | _ \<Rightarrow> Inr ()) of
        Inl x \<Rightarrow> (w, Inl x)
      | Inr _ \<Rightarrow>
          (case prepareMutation live w of
             (w', Inl x) \<Rightarrow> (w', Inl x)
           | (w', Inr c) \<Rightarrow>
               (case req of
                  ReqGet \<Rightarrow> (w', goalView c)
                | ReqDisarm \<Rightarrow>
                    (let c' = c\<lparr>gc_armed := False\<rparr> in (w'\<lparr>gw_cache := Some c'\<rparr>, goalView c'))
                | _ \<Rightarrow>
                    (case propose dflt now c req of
                       Inl x \<Rightarrow> (w', Inl x)
                     | Inr (ch, armed) \<Rightarrow> commit now c ch armed refused w'))))"

definition session_start :: "goal_world \<Rightarrow> goal_error + goal_world" where
  "session_start w = rbind (cache w) (\<lambda>c. Inr (w\<lparr>gw_cache := Some (c\<lparr>gc_armed := False\<rparr>)\<rparr>))"


text \<open>
  The projection unit: the last well-formed change wins; everything else, a malformed change
  included, leaves the projection alone.
\<close>

record goal_projection =
  gp_goal :: goal_snapshot
  gp_roundsStarted :: int
  gp_createdAt :: int
  gp_updatedAt :: int

definition applyGoalProjection :: "goal_projection option \<Rightarrow> goal_event \<Rightarrow> goal_projection option" where
  "applyGoalProjection st e =
     (case ev_data e of
        Plugin (t, d) \<Rightarrow>
          if t \<noteq> ''goal/change'' then st
          else (case decodeGoalChange d of
              Inl _ \<Rightarrow> st
            | Inr None \<Rightarrow> st
            | Inr (Some (ClearChange _ _)) \<Rightarrow> None
            | Inr (Some (SnapshotChange _ g n c u)) \<Rightarrow>
                Some \<lparr>gp_goal = g, gp_roundsStarted = n, gp_createdAt = c, gp_updatedAt = u\<rparr>)
      | _ \<Rightarrow> st)"

section \<open>Synchronisation\<close>

definition armed_ok :: "goal_cache \<Rightarrow> bool" where
  "armed_ok c \<longleftrightarrow> (gc_armed c \<longrightarrow> (\<exists>g. go_goal (gc_state c) = Some g \<and> gs_phase g = PhActive))"

text \<open>A cache that has seen the whole log.\<close>

definition current_cache :: "goal_event list \<Rightarrow> goal_cache \<Rightarrow> bool" where
  "current_cache events c \<longleftrightarrow> foldGoal events = Inr (gc_state c) \<and> gc_observed c = length events \<and> armed_ok c"

definition cache_ok :: "goal_event list \<Rightarrow> goal_cache \<Rightarrow> bool" where
  "cache_ok events c \<longleftrightarrow> gc_observed c \<le> length events \<and> current_cache (take (gc_observed c) events) c"

definition world_ok :: "goal_world \<Rightarrow> bool" where
  "world_ok w \<longleftrightarrow> is_ok (foldGoal (gw_log w)) \<and> (\<forall>c. gw_cache w = Some c \<longrightarrow> cache_ok (gw_log w) c)"

lemma keeps_goal:
  assumes "applyGoalEvent st e = Inr st'" and "\<not> is_goal_change e"
  shows "go_goal st' = go_goal st"
proof (cases rule: event_cases [OF assms(1)])
  case (1 c)
  then have "is_goal_change e" by (auto simp: event_change_def is_goal_change_def split: event_data.splits if_splits)
  with assms(2) show ?thesis by simp
qed simp_all

lemma sync_events_ok:
  "run_steps applyGoalEvent (gc_state c) es = Inr st \<Longrightarrow> armed_ok c \<Longrightarrow>
   \<exists>c'. sync_events None es c = (c', None) \<and> gc_state c' = st
     \<and> gc_observed c' = gc_observed c + length es \<and> armed_ok c'"
proof (induction es arbitrary: c)
  case (Cons e es)
  then obtain s where s: "applyGoalEvent (gc_state c) e = Inr s" "run_steps applyGoalEvent s es = Inr st"
    by (auto simp: result_simps)
  let ?c = "c\<lparr>gc_state := s, gc_armed := (if is_goal_change e then False else gc_armed c),
    gc_observed := Suc (gc_observed c)\<rparr>"
  have "armed_ok ?c" using Cons.prems(2) keeps_goal [OF s(1)] by (auto simp: armed_ok_def)
  with Cons.IH [of ?c] s show ?case by (cases "is_goal_change e") simp_all
qed simp

lemma cache_spec:
  assumes "world_ok w"
  shows "\<exists>c. cache w = Inr c \<and> cache_ok (gw_log w) c"
  using assms
  by (cases "gw_cache w")
    (auto simp: cache_def world_ok_def is_ok_iff cache_ok_def current_cache_def armed_ok_def)

lemma sync_spec:
  assumes ok: "cache_ok events c" and acc: "foldGoal events = Inr st"
  shows "\<exists>c'. sync None events c = (c', None) \<and> current_cache events c'"
proof -
  let ?n = "gc_observed c"
  have c: "foldGoal (take ?n events) = Inr (gc_state c)" "armed_ok c" "?n \<le> length events"
    using ok by (auto simp: cache_ok_def current_cache_def)
  have "foldGoal (take ?n events @ drop ?n events) = Inr st" using acc by simp
  then have "run_steps applyGoalEvent (gc_state c) (drop ?n events) = Inr st"
    using c(1) unfolding foldGoal_def run_steps_append by simp
  from sync_events_ok [OF this c(2)] show ?thesis
    using acc c(3) by (auto simp: sync_def current_cache_def)
qed

lemma prepareMutation_spec:
  assumes "world_ok w"
  shows "\<exists>c. prepareMutation True w = (w\<lparr>gw_cache := Some c\<rparr>, Inr c) \<and> current_cache (gw_log w) c"
proof -
  obtain c st where "cache w = Inr c" "cache_ok (gw_log w) c" "foldGoal (gw_log w) = Inr st"
    using cache_spec [OF assms] assms by (auto simp: world_ok_def is_ok_iff)
  with sync_spec [of "gw_log w" c st] show ?thesis by (auto simp: prepareMutation_def)
qed

lemma current_cache_ok: "current_cache events c \<Longrightarrow> cache_ok events c"
  by (simp add: cache_ok_def current_cache_def)

lemma world_ok_cached: "current_cache (gw_log w) c \<Longrightarrow> world_ok (w\<lparr>gw_cache := Some c\<rparr>)"
  using current_cache_ok by (auto simp: world_ok_def current_cache_def)

lemma current_inv: "current_cache events c \<Longrightarrow> goal_inv (gc_state c)"
  using goal_fold.run_inv [OF empty_goal_inv] by (auto simp: current_cache_def foldGoal_def)

lemma goalView_ok: "goal_inv (gc_state c) \<Longrightarrow> \<exists>v. goalView c = Inr v"
  by (auto simp: goalView_def goal_inv_def split: option.splits)

lemma commit_spec:
  assumes c: "current_cache (gw_log w) c" and ok: "change_ok ch"
    and a: "applyGoalChange (gc_state c) ch = Inr st'"
    and armed: "armed \<longrightarrow> (\<exists>g. go_goal st' = Some g \<and> gs_phase g = PhActive)"
  shows "\<exists>c' v. commit now c ch armed False w =
      (\<lparr>gw_log = gw_log w @ [committed_event (length (gw_log w)) now ch], gw_cache = Some c'\<rparr>, Inr v)
    \<and> goalView c' = Inr v \<and> gc_state c' = st' \<and> current_cache (gw_log w @ [committed_event (length (gw_log w)) now ch]) c'"
proof -
  let ?e = "committed_event (length (gw_log w)) now ch"
  have e: "applyGoalEvent st ?e = applyGoalChange st ch" for st
    by (simp add: applyGoalEvent_def committed_event_def decode_encode [OF ok])
  have ge: "is_goal_change ?e" by (simp add: is_goal_change_def committed_event_def)
  have obs: "gc_observed c = length (gw_log w)" and f: "foldGoal (gw_log w) = Inr (gc_state c)"
    using c by (simp_all add: current_cache_def)
  let ?c = "c\<lparr>gc_state := st', gc_armed := armed, gc_observed := Suc (length (gw_log w))\<rparr>"
  have s: "sync (Some (length (gw_log w), armed)) (gw_log w @ [?e]) c = (?c, None)"
    using obs a ge by (simp add: sync_def e) (simp add: committed_event_def)
  have cur: "current_cache (gw_log w @ [?e]) ?c"
    using f a e armed by (simp add: current_cache_def foldGoal_def run_steps_snoc armed_ok_def)
  obtain v where "goalView ?c = Inr v" using goalView_ok [OF current_inv [OF cur]] by blast
  then show ?thesis using s cur by (auto simp: commit_def Let_def)
qed


section \<open>Proposals are accepted\<close>

lemma resolveMaxGoalRounds_ok: "resolveMaxGoalRounds v = Inr m \<Longrightarrow> positive m"
  by (auto simp: resolveMaxGoalRounds_def positive_def is_safe_integer_def le_floor_iff split: if_splits)

lemma resolveObjective_ok: "resolveObjective s = Inr t \<Longrightarrow> normalized t"
  by (auto simp: resolveObjective_def normalized_def trim_idem split: if_splits)

lemma resolveBlockReason_ok: "resolveBlockReason v = Inr r \<Longrightarrow> reason_ok r"
  by (auto simp: resolveBlockReason_def reason_ok_def normalized_def trim_idem split: if_splits)

lemma natural_max: "natural a \<Longrightarrow> natural b \<Longrightarrow> natural (max a b)"
  by (simp add: max_def)

text \<open>What a synchronised cache with a current goal provides to every mutation of that goal.\<close>

lemma current_fields:
  assumes "goal_inv (gc_state c)" and "expectCurrent c ref = Inr g" and "natural now"
  obtains ca u where "go_goal (gc_state c) = Some g" and "snapshot_ok g"
    and "go_createdAt (gc_state c) = Some ca" and "go_updatedAt (gc_state c) = Some u"
    and "natural ca" and "ca \<le> max now u" and "natural (max now u)"
    and "nextMutationTime now c = Inr (max now u)"
    and "\<And>op h. commitCurrent now c op h =
      Inr (SnapshotChange op h (go_roundsStarted (gc_state c)) ca (max now u))"
proof -
  have g: "go_goal (gc_state c) = Some g" using assms(2)
    by (auto simp: expectCurrent_def split: option.splits if_splits)
  obtain ca u where f: "snapshot_ok g" "go_createdAt (gc_state c) = Some ca" "go_updatedAt (gc_state c) = Some u"
    "natural ca" "natural u" "ca \<le> u"
    by (rule goal_inv_current [OF assms(1) g])
  show ?thesis
  proof (rule that [OF g f(1-4)])
    show "natural (max now u)" by (rule natural_max [OF assms(3) f(5)])
  qed (use f in \<open>simp_all add: nextMutationTime_def commitCurrent_def\<close>)
qed

text \<open>A next revision of the current goal, built by a mutation, is accepted.\<close>

lemma update_accepted:
  assumes g: "go_goal (gc_state c) = Some g" and t: "go_createdAt (gc_state c) = Some ca"
      "go_updatedAt (gc_state c) = Some u" and n: "natural ca" "ca \<le> max now u" "natural (max now u)"
    and r: "natural (go_roundsStarted (gc_state c))"
    and h: "snapshot_ok h" "gs_id h = gs_id g" "gs_revision h = gs_revision g + 1"
    and op: "op \<noteq> OpCreate" "phase_step op (gs_phase g) (gs_phase h)"
      "op \<noteq> OpEdit \<Longrightarrow> gs_objective h = gs_objective g \<and> gs_maxGoalRounds h = gs_maxGoalRounds g"
      "op = OpEdit \<Longrightarrow> gs_blockedReason h = gs_blockedReason g"
      "op = OpResume \<Longrightarrow> go_roundsStarted (gc_state c) < gs_maxGoalRounds g"
  shows "change_ok (SnapshotChange op h (go_roundsStarted (gc_state c)) ca (max now u))
    \<and> applyGoalChange (gc_state c) (SnapshotChange op h (go_roundsStarted (gc_state c)) ca (max now u)) =
        Inr (install (gc_state c) h (go_roundsStarted (gc_state c)) ca (max now u))"
proof -
  have "validateSnapshotTransition (gc_state c) op h (go_roundsStarted (gc_state c)) ca (max now u) g = Inr ()"
    using t h op by (cases op; cases "gs_phase g")
      (simp_all add: validateSnapshotTransition_def requireNextRevision_def requireSameDefinition_def)
  then show ?thesis using g n r h(1) op(1) by simp
qed

lemma withPhase_ok:
  assumes "snapshot_ok g" and "gs_revision g < max_safe" and "p \<noteq> PhBlocked"
  shows "snapshot_ok (withPhase g p)"
  using assms by (auto simp: snapshot_ok_def withPhase_def positive_def safe_int_def)

lemma withPhase_fields [simp]:
  "gs_id (withPhase g p) = gs_id g" "gs_revision (withPhase g p) = gs_revision g + 1"
  "gs_objective (withPhase g p) = gs_objective g" "gs_phase (withPhase g p) = p"
  "gs_maxGoalRounds (withPhase g p) = gs_maxGoalRounds g" "gs_blockedReason (withPhase g p) = None"
  by (simp_all add: withPhase_def)

definition accepted :: "goal_cache \<Rightarrow> goal_change \<Rightarrow> bool \<Rightarrow> bool" where
  "accepted c ch armed \<longleftrightarrow> change_ok ch \<and> (\<exists>st'. applyGoalChange (gc_state c) ch = Inr st'
     \<and> (armed \<longrightarrow> (\<exists>g. go_goal st' = Some g \<and> gs_phase g = PhActive)))"

text \<open>The conditions under which the numbers stay safe and the identity is fresh.\<close>

fun request_fresh :: "goal_state \<Rightarrow> goal_request \<Rightarrow> bool" where
  "request_fresh st (ReqCreate _ _ uuid) \<longleftrightarrow> ''goal-'' @ uuid \<notin> go_seen st"
| "request_fresh st _ \<longleftrightarrow> True"

definition numbers_safe :: "goal_state \<Rightarrow> bool" where
  "numbers_safe st \<longleftrightarrow> safe_int (go_roundsStarted st)
     \<and> (\<forall>g. go_goal st = Some g \<longrightarrow> gs_revision g < max_safe)"

lemma rounds_natural: "goal_inv st \<Longrightarrow> numbers_safe st \<Longrightarrow> natural (go_roundsStarted st)"
  by (simp add: natural_def goal_inv_def numbers_safe_def)

lemma small_numbers: "positive 1" "natural 0"
  by (simp_all add: positive_def natural_def safe_int_def max_safe_def)

lemma next_positive: "positive n \<Longrightarrow> n < max_safe \<Longrightarrow> positive (n + 1)"
  by (simp add: positive_def safe_int_def)

lemma expectCurrent_goal: "expectCurrent c ref = Inr g \<Longrightarrow> go_goal (gc_state c) = Some g"
  by (auto simp: expectCurrent_def split: option.splits if_splits)

text \<open>Every mutation that keeps the current goal ends here.\<close>

lemma current_update:
  assumes inv: "goal_inv (gc_state c)" and now: "natural now" and safe: "numbers_safe (gc_state c)"
    and g: "expectCurrent c ref = Inr g" and ch: "commitCurrent now c op h = Inr ch"
    and h: "snapshot_ok h" "gs_id h = gs_id g" "gs_revision h = gs_revision g + 1"
    and op: "op \<noteq> OpCreate" "phase_step op (gs_phase g) (gs_phase h)"
      "op \<noteq> OpEdit \<Longrightarrow> gs_objective h = gs_objective g \<and> gs_maxGoalRounds h = gs_maxGoalRounds g"
      "op = OpEdit \<Longrightarrow> gs_blockedReason h = gs_blockedReason g"
      "op = OpResume \<Longrightarrow> go_roundsStarted (gc_state c) < gs_maxGoalRounds g"
    and armed: "a \<Longrightarrow> gs_phase h = PhActive"
  shows "accepted c ch a"
  using inv g now
proof (rule current_fields)
  fix ca u
  assume f: "go_goal (gc_state c) = Some g" "go_createdAt (gc_state c) = Some ca"
    "go_updatedAt (gc_state c) = Some u" "natural ca" "ca \<le> max now u" "natural (max now u)"
    and c: "\<And>op h. commitCurrent now c op h =
      Inr (SnapshotChange op h (go_roundsStarted (gc_state c)) ca (max now u))"
  have "ch = SnapshotChange op h (go_roundsStarted (gc_state c)) ca (max now u)" using ch c by simp
  then show ?thesis
    using update_accepted [OF f rounds_natural [OF inv safe] h op] armed
    by (auto simp: accepted_def install_def simp del: change_ok.simps applyGoalChange.simps)
qed

text \<open>What holds when a mutation builds its change.\<close>

definition ready :: "int \<Rightarrow> int \<Rightarrow> goal_cache \<Rightarrow> bool" where
  "ready dflt now c \<longleftrightarrow> goal_inv (gc_state c) \<and> armed_ok c \<and> natural now \<and> positive dflt
     \<and> numbers_safe (gc_state c)"

lemma readyD:
  assumes "ready dflt now c"
  shows "goal_inv (gc_state c)" and "armed_ok c" and "natural now" and "numbers_safe (gc_state c)"
  using assms by (simp_all add: ready_def)

lemma revision_room:
  "ready dflt now c \<Longrightarrow> expectCurrent c ref = Inr g \<Longrightarrow> snapshot_ok g \<and> gs_revision g < max_safe"
  using expectCurrent_goal [of c ref g] by (auto simp: ready_def goal_inv_def numbers_safe_def)

lemma transition_accepted:
  assumes rdy: "ready dflt now c" and t: "transition now c ref op allowed p = Inr ch"
    and op: "op \<noteq> OpCreate" "op \<noteq> OpEdit" "op \<noteq> OpResume" "p \<noteq> PhBlocked"
      "\<And>q. q \<in> set allowed \<Longrightarrow> phase_step op q p"
  shows "accepted c ch False"
proof -
  obtain g where g: "expectCurrent c ref = Inr g" "gs_phase g \<in> set allowed"
    and ch: "commitCurrent now c op (withPhase g p) = Inr ch"
    using t by (auto simp: transition_def result_simps)
  show ?thesis
    by (rule current_update [OF readyD(1,3,4) [OF rdy] g(1) ch])
      (use revision_room [OF rdy g(1)] op g(2) in \<open>auto intro: withPhase_ok\<close>)
qed

lemma create_accepted:
  assumes rdy: "ready dflt now c" and "propose dflt now c (ReqCreate ob m uuid) = Inr (ch, a)" and "''goal-'' @ uuid \<notin> go_seen (gc_state c)"
  shows "accepted c ch a"
proof -
  obtain t n where tn: "resolveCreateGoal ob m dflt = Inr (t, n)"
    and ch: "ch = SnapshotChange OpCreate \<lparr>gs_id = ''goal-'' @ uuid, gs_revision = 1, gs_objective = t,
      gs_phase = PhActive, gs_blockedReason = None, gs_maxGoalRounds = n\<rparr> 0 now now"
    and cur: "case go_goal (gc_state c) of None \<Rightarrow> True | Some g \<Rightarrow> gs_phase g = PhComplete"
    using assms(2) by (auto simp: result_simps)
  have "normalized t" "positive n"
    using tn by (auto simp: resolveCreateGoal_def result_simps intro: resolveObjective_ok resolveMaxGoalRounds_ok)
  then show ?thesis
    using assms(3) cur readyD(3) [OF rdy] by (simp add: ch accepted_def snapshot_ok_def install_def small_numbers)
qed

lemma edit_accepted:
  assumes rdy: "ready dflt now c" and "propose dflt now c (ReqEdit ref objective maxRounds) = Inr (ch, a)"
  shows "accepted c ch a"
proof -
  obtain g ob m where g: "expectCurrent c ref = Inr g" and a: "a = gc_armed c"
    and ob: "(case objective of None \<Rightarrow> Inr (gs_objective g) | Some s \<Rightarrow> resolveObjective s) = Inr ob"
    and m: "(case maxRounds of None \<Rightarrow> Inr (gs_maxGoalRounds g) | Some v \<Rightarrow> resolveMaxGoalRounds v) = Inr m"
    and ch: "commitCurrent now c OpEdit
      (g\<lparr>gs_revision := gs_revision g + 1, gs_objective := ob, gs_maxGoalRounds := m\<rparr>) = Inr ch"
    using assms by (auto simp: result_simps)
  have room: "snapshot_ok g" "gs_revision g < max_safe" using revision_room [OF rdy g] by simp_all
  then have "normalized ob" "positive m"
    using ob m by (auto simp: snapshot_ok_def split: option.splits
        intro: resolveObjective_ok resolveMaxGoalRounds_ok)
  then have "snapshot_ok (g\<lparr>gs_revision := gs_revision g + 1, gs_objective := ob, gs_maxGoalRounds := m\<rparr>)"
    using room by (simp add: snapshot_ok_def next_positive split: option.splits)
  then show ?thesis
    by (rule current_update [OF readyD(1,3,4) [OF rdy] g ch])
      (use readyD(2) [OF rdy] a expectCurrent_goal [OF g] in \<open>auto simp: armed_ok_def\<close>)
qed

lemma resume_accepted:
  assumes rdy: "ready dflt now c" and "propose dflt now c (ReqResume ref) = Inr (ch, a)"
  shows "accepted c ch a"
proof -
  obtain g where g: "expectCurrent c ref = Inr g" "gs_phase g \<noteq> PhComplete"
    and b: "go_roundsStarted (gc_state c) < gs_maxGoalRounds g"
    and ch: "commitCurrent now c OpResume (withPhase g PhActive) = Inr ch"
    using assms by (auto simp: result_simps)
  show ?thesis
    by (rule current_update [OF readyD(1,3,4) [OF rdy] g(1) ch])
      (use revision_room [OF rdy g(1)] g(2) b in \<open>auto intro: withPhase_ok\<close>)
qed

lemma block_accepted:
  assumes rdy: "ready dflt now c" and "propose dflt now c (ReqBlock ref reason) = Inr (ch, a)"
  shows "accepted c ch a"
proof -
  obtain g r where g: "expectCurrent c ref = Inr g" "gs_phase g = PhActive" and a: "\<not> a"
    and r: "resolveBlockReason reason = Inr r"
    and ch: "commitCurrent now c OpBlock ((withPhase g PhBlocked)\<lparr>gs_blockedReason := Some r\<rparr>) = Inr ch"
    using assms by (auto simp: result_simps)
  have "snapshot_ok ((withPhase g PhBlocked)\<lparr>gs_blockedReason := Some r\<rparr>)"
    using revision_room [OF rdy g(1)] resolveBlockReason_ok [OF r] by (simp add: snapshot_ok_def next_positive)
  then show ?thesis
    by (rule current_update [OF readyD(1,3,4) [OF rdy] g(1) ch]) (use g(2) a in auto)
qed

lemma clear_accepted:
  assumes rdy: "ready dflt now c" and "propose dflt now c (ReqClear ref) = Inr (ch, a)"
  shows "accepted c ch a"
proof -
  obtain g u where g: "expectCurrent c ref = Inr g" and a: "\<not> a" and n: "nextMutationTime now c = Inr u"
    and ch: "ch = ClearChange \<lparr>gr_id = gs_id g, gr_revision = gs_revision g + 1\<rparr> u"
    using assms by (auto simp: result_simps)
  obtain v where v: "go_updatedAt (gc_state c) = Some v" "natural v"
    by (rule goal_inv_current [OF readyD(1) [OF rdy] expectCurrent_goal [OF g]])
  then have "u = max now v" using n by (simp add: nextMutationTime_def)
  then show ?thesis
    using revision_room [OF rdy g] expectCurrent_goal [OF g] a v natural_max [OF readyD(3) [OF rdy] v(2)]
    by (simp add: ch accepted_def requireNextRevision_def snapshot_ok_def next_positive)
qed

lemma propose_accepted:
  assumes rdy: "ready dflt now c" and fresh: "request_fresh (gc_state c) req" and p: "propose dflt now c req = Inr (ch, a)"
  shows "accepted c ch a"
proof (cases req)
  case (ReqCreate ob m uuid)
  then show ?thesis using create_accepted [OF rdy] p fresh by simp
next
  case (ReqPause ref)
  with p have t: "transition now c ref OpPause [PhActive] PhPaused = Inr ch" and "\<not> a"
    by (auto simp: result_simps)
  with transition_accepted [OF rdy t] show ?thesis by auto
next
  case (ReqComplete ref)
  with p have t: "transition now c ref OpComplete [PhActive, PhPaused, PhBlocked] PhComplete = Inr ch" and "\<not> a"
    by (auto simp: result_simps)
  with transition_accepted [OF rdy t] show ?thesis by auto
qed (use p edit_accepted [OF rdy] resume_accepted [OF rdy] block_accepted [OF rdy] clear_accepted [OF rdy] in simp_all)


section \<open>One call\<close>

fun is_mutation :: "goal_request \<Rightarrow> bool" where
  "is_mutation ReqGet = False"
| "is_mutation ReqDisarm = False"
| "is_mutation _ = True"

lemma perform_mutation:
  assumes "is_mutation req"
  shows "perform live dflt now refused req w =
     (case (case req of ReqCreate ob m _ \<Rightarrow> rbind (resolveCreateGoal ob m dflt) (\<lambda>_. Inr ()) | _ \<Rightarrow> Inr ()) of
        Inl x \<Rightarrow> (w, Inl x)
      | Inr _ \<Rightarrow>
          (case prepareMutation live w of
             (w', Inl x) \<Rightarrow> (w', Inl x)
           | (w', Inr c) \<Rightarrow>
               (case propose dflt now c req of
                  Inl x \<Rightarrow> (w', Inl x)
                | Inr (ch, armed) \<Rightarrow> commit now c ch armed refused w')))"
  using assms by (cases req) (auto simp: perform_def split: sum.splits prod.splits)

text \<open>The codes a caller can see; a refused append passes on the session's
  error, and the other two mean that a log was rejected by its own fold.\<close>

fun caller_code :: "goal_code \<Rightarrow> bool" where
  "caller_code (ReplayFailed _) = False"
| "caller_code AppendRefused = False"
| "caller_code CacheLacksTime = False"
| "caller_code _ = True"

lemma expectCurrent_code: "expectCurrent c ref = Inl x \<Longrightarrow> caller_code x"
  by (auto simp: expectCurrent_def split: option.splits if_splits)

lemma resolve_codes:
  "resolveObjective s = Inl x \<Longrightarrow> caller_code x" "resolveMaxGoalRounds v = Inl x \<Longrightarrow> caller_code x"
  "resolveBlockReason r = Inl x \<Longrightarrow> caller_code x"
  by (auto simp: resolveObjective_def resolveMaxGoalRounds_def resolveBlockReason_def split: if_splits)

lemma resolveCreateGoal_code: "resolveCreateGoal ob m dflt = Inl x \<Longrightarrow> caller_code x"
  by (auto simp: resolveCreateGoal_def result_simps dest: resolve_codes)

lemma current_total:
  assumes "goal_inv (gc_state c)" and "expectCurrent c ref = Inr g"
  shows "nextMutationTime now c \<noteq> Inl x" and "commitCurrent now c op h \<noteq> Inl x"
proof -
  obtain ca u where "go_createdAt (gc_state c) = Some ca" "go_updatedAt (gc_state c) = Some u"
    by (rule goal_inv_current [OF assms(1) expectCurrent_goal [OF assms(2)]])
  then show "nextMutationTime now c \<noteq> Inl x" and "commitCurrent now c op h \<noteq> Inl x"
    by (simp_all add: nextMutationTime_def commitCurrent_def)
qed

lemma propose_code:
  assumes inv: "goal_inv (gc_state c)" and p: "propose dflt now c req = Inl x" and mut: "is_mutation req"
  shows "caller_code x"
proof -
  note total = current_total [OF inv]
  note codes = expectCurrent_code resolve_codes resolveCreateGoal_code
  show ?thesis
    using p mut
    by (cases req) (auto simp: transition_def result_simps total dest: codes split: option.splits)
qed

text \<open>The hypotheses on a call: a sane clock and default, safe numbers, a fresh identity.\<close>

definition call_ok :: "int \<Rightarrow> int \<Rightarrow> goal_request \<Rightarrow> goal_world \<Rightarrow> bool" where
  "call_ok dflt now req w \<longleftrightarrow> natural now \<and> positive dflt
     \<and> (case foldGoal (gw_log w) of Inr st \<Rightarrow> numbers_safe st \<and> request_fresh st req | Inl _ \<Rightarrow> False)"

lemma mutation_outcome:
  assumes w: "world_ok w" and ok: "call_ok dflt now req w" and mut: "is_mutation req"
    and p: "perform live dflt now refused req w = (w', r)"
  shows "(\<exists>x. r = Inl x \<and> caller_code x \<and> gw_log w' = gw_log w \<and> world_ok w')
    \<or> (\<exists>c ch a. refused \<and> current_cache (gw_log w) c \<and> propose dflt now c req = Inr (ch, a)
        \<and> r = Inl AppendRefused \<and> w' = w\<lparr>gw_cache := Some c\<rparr> \<and> world_ok w')
    \<or> (\<exists>c ch a c' v. \<not> refused \<and> current_cache (gw_log w) c \<and> propose dflt now c req = Inr (ch, a) \<and> change_ok ch \<and> r = Inr v
        \<and> goalView c' = Inr v
        \<and> gw_log w' = gw_log w @ [committed_event (length (gw_log w)) now ch]
        \<and> gw_cache w' = Some c' \<and> current_cache (gw_log w') c' \<and> applyGoalChange (gc_state c) ch = Inr (gc_state c'))"
proof (cases "case req of ReqCreate ob m _ \<Rightarrow> rbind (resolveCreateGoal ob m dflt) (\<lambda>_. Inr ()) | _ \<Rightarrow> Inr ()")
  case (Inl x)
  then have "caller_code x" by (auto simp: result_simps dest: resolveCreateGoal_code split: goal_request.splits)
  moreover have "r = Inl x" "w' = w" using p Inl by (simp_all add: perform_mutation [OF mut])
  ultimately show ?thesis using w by simp
next
  case (Inr u)
  obtain c where pm: "prepareMutation True w = (w\<lparr>gw_cache := Some c\<rparr>, Inr c)" and c: "current_cache (gw_log w) c"
    using prepareMutation_spec [OF w] by blast
  have rdy: "ready dflt now c" and fresh: "request_fresh (gc_state c) req"
    using ok c current_inv [OF c] by (auto simp: call_ok_def ready_def current_cache_def)
  show ?thesis
  proof (cases live)
    case False
    then have "prepareMutation live w = (w, Inl AgentNotLive)" by (simp add: prepareMutation_def)
    moreover have "r = Inl AgentNotLive" "w' = w" using calculation p Inr by (simp_all add: perform_mutation [OF mut])
    ultimately show ?thesis using w by simp
  next
    case True
    show ?thesis
    proof (cases "propose dflt now c req")
      case (Inl x)
      then show ?thesis
        using p Inr pm True propose_code [OF readyD(1) [OF rdy] Inl mut] world_ok_cached [OF c]
        by (auto simp: perform_mutation [OF mut])
    next
      case (Inr pr)
      obtain ch a where pr: "pr = (ch, a)" by (cases pr)
      from propose_accepted [OF rdy fresh Inr [unfolded pr]] obtain st'
        where acc: "change_ok ch" "applyGoalChange (gc_state c) ch = Inr st'"
          "a \<longrightarrow> (\<exists>g. go_goal st' = Some g \<and> gs_phase g = PhActive)"
        by (auto simp: accepted_def)
      have "current_cache (gw_log (w\<lparr>gw_cache := Some c\<rparr>)) c" using c by simp
      note committed = commit_spec [OF this acc(1,2,3), of now]
      show ?thesis
      proof (cases refused)
        case refuse: True
        then have "r = Inl AppendRefused" "w' = w\<lparr>gw_cache := Some c\<rparr>"
          using p \<open>_ = Inr u\<close> pm True Inr pr by (simp_all add: perform_mutation [OF mut] commit_def)
        moreover have "world_ok w'" using calculation(2) world_ok_cached [OF c] w by simp
        ultimately show ?thesis using refuse c Inr pr by blast
      next
        case False
        then show ?thesis
          using committed p \<open>_ = Inr u\<close> pm True Inr pr c acc(1,2) by (auto simp: perform_mutation [OF mut])
      qed
    qed
  qed
qed


lemma perform_ok:
  assumes w: "world_ok w" and ok: "call_ok dflt now req w"
  shows "world_ok (fst (perform live dflt now refused req w))"
proof (cases "is_mutation req")
  case True
  from mutation_outcome [OF w ok True, of live refused "fst (perform live dflt now refused req w)" "snd (perform live dflt now refused req w)"]
  show ?thesis
    by (auto simp: world_ok_def is_ok_iff current_cache_def cache_ok_def)
next
  case False
  then have req: "req = ReqGet \<or> req = ReqDisarm" by (cases req) auto
  obtain c where pm: "prepareMutation True w = (w\<lparr>gw_cache := Some c\<rparr>, Inr c)" and c: "current_cache (gw_log w) c"
    using prepareMutation_spec [OF w] by blast
  have "current_cache (gw_log w) (c\<lparr>gc_armed := False\<rparr>)" using c by (simp add: current_cache_def armed_ok_def)
  then show ?thesis
    using req pm w world_ok_cached [OF c] world_ok_cached [of w "c\<lparr>gc_armed := False\<rparr>"]
    by (cases live) (auto simp: perform_def prepareMutation_def Let_def)
qed

text \<open>
  The world around the service: calls, session starts, and events other code appends, as long
  as the log stays one the strict fold accepts.
\<close>

inductive goal_step :: "int \<Rightarrow> goal_world \<Rightarrow> goal_world \<Rightarrow> bool" for dflt where
  call: "call_ok dflt now req w \<Longrightarrow> goal_step dflt w (fst (perform live dflt now refused req w))"
| start: "session_start w = Inr w' \<Longrightarrow> goal_step dflt w w'"
| external: "is_ok (foldGoal (gw_log w @ [e])) \<Longrightarrow> goal_step dflt w (w\<lparr>gw_log := gw_log w @ [e]\<rparr>)"

lemma cache_ok_append: "cache_ok events c \<Longrightarrow> cache_ok (events @ es) c"
  by (auto simp: cache_ok_def current_cache_def)

lemma goal_step_ok:
  assumes "goal_step dflt w w'" and "world_ok w"
  shows "world_ok w'"
  using assms(1)
proof cases
  case (call now req live)
  then show ?thesis using perform_ok [OF assms(2)] by simp
next
  case start
  obtain c where c: "cache w = Inr c" "cache_ok (gw_log w) c" using cache_spec [OF assms(2)] by blast
  then have "cache_ok (gw_log w) (c\<lparr>gc_armed := False\<rparr>)"
    by (simp add: cache_ok_def current_cache_def armed_ok_def)
  then show ?thesis using start c assms(2) by (auto simp: session_start_def world_ok_def)
next
  case (external e)
  then show ?thesis using assms(2) cache_ok_append by (auto simp: world_ok_def)
qed

lemma goal_steps_ok: "(goal_step dflt)\<^sup>*\<^sup>* w w' \<Longrightarrow> world_ok w \<Longrightarrow> world_ok w'"
  by (induction rule: rtranclp_induct) (auto intro: goal_step_ok)

section \<open>Properties\<close>

text \<open>
  C26. The service writes only what the strict replay accepts: from a consistent world every mutation
  either fails with a code for the caller and leaves the log unchanged; or builds a change from a
  cache that agrees with the log and, if the session refuses the append, passes its error on with
  the log unchanged and the cache in step with it; or else appends exactly the event of that change
  and returns the view of a cache that equals the fold of the new log.
\<close>

theorem goal_service_refines_fold:
  assumes "world_ok w" and "call_ok dflt now req w" and "is_mutation req"
    and "perform live dflt now refused req w = (w', r)"
  shows "(\<exists>x. r = Inl x \<and> caller_code x \<and> gw_log w' = gw_log w)
    \<or> (\<exists>c0 ch a. foldGoal (gw_log w) = Inr (gc_state c0) \<and> gc_observed c0 = length (gw_log w)
        \<and> propose dflt now c0 req = Inr (ch, a)
        \<and> (if refused then r = Inl AppendRefused \<and> w' = w\<lparr>gw_cache := Some c0\<rparr>
           else \<exists>c v. gw_log w' = gw_log w @ [committed_event (length (gw_log w)) now ch]
             \<and> gw_cache w' = Some c \<and> foldGoal (gw_log w') = Inr (gc_state c) \<and> gc_observed c = length (gw_log w')
             \<and> goalView c = Inr v \<and> r = Inr v))"
  using mutation_outcome [OF assms] by (fastforce simp: current_cache_def)

definition empty_world :: goal_world where
  "empty_world = \<lparr>gw_log = [], gw_cache = None\<rparr>"

definition sample_create :: goal_request where
  "sample_create = ReqCreate ''ship it'' None ''1''"

lemma empty_world_ok: "world_ok empty_world"
  by (simp add: world_ok_def empty_world_def foldGoal_def)

lemma sample_call_ok: "call_ok 256 10 sample_create empty_world"
  by (simp add: call_ok_def empty_world_def foldGoal_def emptyGoalFoldState_def numbers_safe_def
      sample_create_def natural_def positive_def safe_int_def max_safe_def)

theorem goal_service_refines_fold_witness:
  "(\<exists>x. snd (perform True 256 10 False sample_create empty_world) = Inl x \<and> caller_code x)
   \<or> (\<exists>ch. gw_log (fst (perform True 256 10 False sample_create empty_world)) = [committed_event 0 10 ch])"
  using goal_service_refines_fold [OF empty_world_ok sample_call_ok, of True False
      "fst (perform True 256 10 False sample_create empty_world)" "snd (perform True 256 10 False sample_create empty_world)"]
  by (auto simp: sample_create_def empty_world_def)

fun request_ref :: "goal_request \<Rightarrow> goal_ref option" where
  "request_ref (ReqEdit ref _ _) = Some ref"
| "request_ref (ReqPause ref) = Some ref"
| "request_ref (ReqResume ref) = Some ref"
| "request_ref (ReqComplete ref) = Some ref"
| "request_ref (ReqBlock ref _) = Some ref"
| "request_ref (ReqClear ref) = Some ref"
| "request_ref _ = None"

lemma request_ref_mutation: "request_ref req = Some ref \<Longrightarrow> is_mutation req"
  by (cases req) simp_all

lemma propose_ref:
  "propose dflt now c req = Inr (ch, a) \<Longrightarrow> request_ref req = Some ref \<Longrightarrow> \<exists>g. expectCurrent c ref = Inr g"
  by (cases req) (auto simp: transition_def result_simps)

lemma propose_stale:
  "expectCurrent c ref = Inl x \<Longrightarrow> request_ref req = Some ref \<Longrightarrow> propose dflt now c req = Inl x"
  by (cases req) (auto simp: transition_def)

lemma clear_removes: "applyGoalChange st (ClearChange r t) = Inr st' \<Longrightarrow> go_goal st' = None"
  by (auto simp: result_simps split: option.splits)

lemma applied_ref:
  assumes "propose dflt now c req = Inr (ch, a)" and "request_ref req = Some ref"
    and "applyGoalChange (gc_state c) ch = Inr (gc_state c')"
  shows "expectCurrent c' ref \<in> {Inl StaleRevision, Inl GoalNotFound}"
proof -
  obtain g where g: "expectCurrent c ref = Inr g" using propose_ref [OF assms(1,2)] by blast
  then have ref: "gr_id ref = gs_id g" "gr_revision ref = gs_revision g" "go_goal (gc_state c) = Some g"
    by (auto simp: expectCurrent_def split: option.splits if_splits)
  show ?thesis
  proof (cases ch)
    case (ClearChange r t)
    then have "go_goal (gc_state c') = None" using assms(3) clear_removes by blast
    then show ?thesis by (simp add: expectCurrent_def)
  next
    case (SnapshotChange op h n ca u)
    have "op \<noteq> OpCreate" using assms(1,2) SnapshotChange
      by (cases req) (auto simp: transition_def commitCurrent_def result_simps split: option.splits)
    with assms(3) SnapshotChange ref(3) have v: "validateSnapshotTransition (gc_state c) op h n ca u g = Inr ()"
      and st: "gc_state c' = install (gc_state c) h n ca u"
      by (auto simp: result_simps)
    then show ?thesis using transition_fields [OF v] ref by (simp add: expectCurrent_def install_def)
  qed
qed


text \<open>
  Compare and set: after a mutation that named the current revision has succeeded, every
  later mutation that names the same revision is rejected as stale (or finds no goal, after a
  clear) and appends nothing.
\<close>

theorem goal_compare_and_set:
  assumes w: "world_ok w" and ok: "call_ok dflt now req w" and ref: "request_ref req = Some ref"
    and p: "perform live dflt now refused req w = (w', Inr v)"
    and again: "request_ref req' = Some ref"
  shows "snd (perform True dflt now' refused' req' w') \<in> {Inl StaleRevision, Inl GoalNotFound}
    \<and> gw_log (fst (perform True dflt now' refused' req' w')) = gw_log w'"
proof -
  have mut: "is_mutation req" "is_mutation req'" using ref again request_ref_mutation by blast+
  from mutation_outcome [OF w ok mut(1) p] obtain c ch a c' where
    pr: "propose dflt now c req = Inr (ch, a)" and ap: "applyGoalChange (gc_state c) ch = Inr (gc_state c')"
    and cur: "gw_cache w' = Some c'" "current_cache (gw_log w') c'" by auto
  have w': "world_ok w'" using perform_ok [OF w ok, of live refused] p by simp
  obtain c2 where pm: "prepareMutation True w' = (w'\<lparr>gw_cache := Some c2\<rparr>, Inr c2)" and c2: "current_cache (gw_log w') c2"
    using prepareMutation_spec [OF w'] by blast
  have "gc_state c2 = gc_state c'" using cur c2 by (simp add: current_cache_def)
  then have "expectCurrent c2 ref \<in> {Inl StaleRevision, Inl GoalNotFound}"
    using applied_ref [OF pr ref ap] by (simp add: expectCurrent_def)
  then obtain x where x: "expectCurrent c2 ref = Inl x" "x \<in> {StaleRevision, GoalNotFound}" by auto
  have "(case req' of ReqCreate ob m _ \<Rightarrow> rbind (resolveCreateGoal ob m dflt) (\<lambda>_. Inr ()) | _ \<Rightarrow> Inr ()) =
      (Inr () :: goal_code + unit)"
    using again by (cases req') simp_all
  then show ?thesis
    using pm propose_stale [OF x(1) again] x(2) by (auto simp: perform_mutation [OF mut(2)])
qed

lemma commit_log: "gw_log (fst (commit now c ch a False w)) = gw_log w @ [committed_event (length (gw_log w)) now ch]"
  by (simp add: commit_def Let_def split: prod.splits option.splits)

lemma mutation_succeeds:
  assumes w: "world_ok w" and ok: "call_ok dflt now req w" and ref: "request_ref req = Some ref"
    and pr: "\<And>c. current_cache (gw_log w) c \<Longrightarrow> \<exists>p. propose dflt now c req = Inr p"
  shows "\<exists>w' v. perform True dflt now False req w = (w', Inr v)"
proof -
  have mut: "is_mutation req" by (rule request_ref_mutation [OF ref])
  obtain c where pm: "prepareMutation True w = (w\<lparr>gw_cache := Some c\<rparr>, Inr c)" and c: "current_cache (gw_log w) c"
    using prepareMutation_spec [OF w] by blast
  obtain ch a where p: "propose dflt now c req = Inr (ch, a)" using pr [OF c] by (metis surj_pair)
  have "(case req of ReqCreate ob m _ \<Rightarrow> rbind (resolveCreateGoal ob m dflt) (\<lambda>_. Inr ()) | _ \<Rightarrow> Inr ()) =
      (Inr () :: goal_code + unit)"
    using ref by (cases req) simp_all
  then have c: "perform True dflt now False req w = commit now c ch a False (w\<lparr>gw_cache := Some c\<rparr>)"
    using pm p by (simp add: perform_mutation [OF mut])
  obtain w' r where wr: "perform True dflt now False req w = (w', r)" by (cases "perform True dflt now False req w")
  have "gw_log w' \<noteq> gw_log w" using commit_log [of now c ch a "w\<lparr>gw_cache := Some c\<rparr>"] c wr
    by (metis fst_conv goal_world.select_convs(1) goal_world.surjective goal_world.update_convs(2)
        not_Cons_self2 self_append_conv)
  with mutation_outcome [OF w ok mut wr] wr show ?thesis by auto
qed

text \<open>A concrete world: a goal created at time 10 and paused at time 20.\<close>

definition sample_world :: goal_world where
  "sample_world = \<lparr>gw_log = [change_event (SnapshotChange OpCreate (sample_goal 1 PhActive) 0 10 10)], gw_cache = None\<rparr>"

lemma sample_world_folded:
  "foldGoal (gw_log sample_world) =
     Inr (install (emptyGoalFoldState\<lparr>go_seen := {''goal-1''}\<rparr>) (sample_goal 1 PhActive) 0 10 10)"
  by (simp add: sample_world_def foldGoal_def applyGoalEvent_change [OF sample_goal_changes(1)])
    (simp add: sample_goal_def emptyGoalFoldState_def)

lemma sample_world_ok: "world_ok sample_world"
  unfolding world_ok_def sample_world_folded by (simp add: sample_world_def)

definition sample_ref :: goal_ref where
  "sample_ref = \<lparr>gr_id = ''goal-1'', gr_revision = 1\<rparr>"

lemma sample_pause_ok: "call_ok 256 20 (ReqPause sample_ref) sample_world"
  unfolding call_ok_def sample_world_folded
  by (simp add: numbers_safe_def install_def natural_def positive_def safe_int_def max_safe_def sample_goal_def)

lemma sample_pause: "\<exists>w' v. perform True 256 20 False (ReqPause sample_ref) sample_world = (w', Inr v)"
proof (rule mutation_succeeds [OF sample_world_ok sample_pause_ok])
  fix c
  assume "current_cache (gw_log sample_world) c"
  then have "gc_state c = install (emptyGoalFoldState\<lparr>go_seen := {''goal-1''}\<rparr>) (sample_goal 1 PhActive) 0 10 10"
    using sample_world_folded by (simp add: current_cache_def)
  then have "propose 256 20 c (ReqPause sample_ref) =
      Inr (SnapshotChange OpPause (withPhase (sample_goal 1 PhActive) PhPaused) 0 10 20, False)"
    by (simp add: transition_def expectCurrent_def install_def sample_goal_def sample_ref_def
        commitCurrent_def nextMutationTime_def)
  then show "\<exists>p. propose 256 20 c (ReqPause sample_ref) = Inr p" by blast
qed simp

theorem goal_compare_and_set_witness:
  "\<exists>w' v. perform True 256 20 False (ReqPause sample_ref) sample_world = (w', Inr v)
     \<and> snd (perform True 256 30 False (ReqResume sample_ref) w') \<in> {Inl StaleRevision, Inl GoalNotFound}"
proof -
  obtain w' v where p: "perform True 256 20 False (ReqPause sample_ref) sample_world = (w', Inr v)"
    using sample_pause by blast
  from goal_compare_and_set [OF sample_world_ok sample_pause_ok _ p, of sample_ref "ReqResume sample_ref" 30 False] p
  show ?thesis by simp
qed

text \<open>
  Continuation authority follows the goal: whatever calls, session starts and foreign
  events happen, a cache that is armed holds an active goal; after a session start it is
  disarmed.
\<close>

theorem goal_armed_active:
  assumes "(goal_step dflt)\<^sup>*\<^sup>* w0 w" and "world_ok w0" and "gw_cache w = Some c" and "gc_armed c"
  shows "\<exists>st g. foldGoal (take (gc_observed c) (gw_log w)) = Inr st \<and> go_goal st = Some g \<and> gs_phase g = PhActive"
  using goal_steps_ok [OF assms(1,2)] assms(3,4)
  by (auto simp: world_ok_def cache_ok_def current_cache_def armed_ok_def)


definition armed_world :: goal_world where
  "armed_world = sample_world\<lparr>gw_cache := Some
     \<lparr>gc_state = install (emptyGoalFoldState\<lparr>go_seen := {''goal-1''}\<rparr>) (sample_goal 1 PhActive) 0 10 10,
      gc_armed = True, gc_observed = 1\<rparr>\<rparr>"

lemma armed_world_ok: "world_ok armed_world"
  using sample_world_folded
  by (simp add: world_ok_def armed_world_def cache_ok_def current_cache_def armed_ok_def)
    (simp add: sample_world_def install_def sample_goal_def)

theorem goal_armed_active_witness:
  "\<exists>st g. foldGoal (gw_log sample_world) = Inr st \<and> go_goal st = Some g \<and> gs_phase g = PhActive"
  using goal_armed_active [OF rtranclp.rtrancl_refl armed_world_ok]
  by (simp add: armed_world_def sample_world_def)


section \<open>The projection\<close>

lemma projection_step:
  "applyGoalProjection st e =
     (case event_change e of
        None \<Rightarrow> st
      | Some (ClearChange _ _) \<Rightarrow> None
      | Some (SnapshotChange _ g n c u) \<Rightarrow>
          Some \<lparr>gp_goal = g, gp_roundsStarted = n, gp_createdAt = c, gp_updatedAt = u\<rparr>)"
  by (auto simp: applyGoalProjection_def event_change_def split: event_data.splits sum.splits option.splits goal_change.splits)

definition projects :: "goal_state \<Rightarrow> goal_projection option \<Rightarrow> bool" where
  "projects st p \<longleftrightarrow>
     (case p of
        None \<Rightarrow> go_goal st = None
      | Some q \<Rightarrow> go_goal st = Some (gp_goal q) \<and> go_createdAt st = Some (gp_createdAt q)
          \<and> go_updatedAt st = Some (gp_updatedAt q) \<and> gp_roundsStarted q \<le> go_roundsStarted st)"

lemma snapshot_installs:
  assumes "applyGoalChange st (SnapshotChange op g n c u) = Inr st'"
  shows "go_goal st' = Some g" "go_roundsStarted st' = n" "go_createdAt st' = Some c" "go_updatedAt st' = Some u"
  using assms by (auto simp: result_simps install_def split: if_splits option.splits)

lemma projects_step:
  assumes "projects st p" and a: "applyGoalEvent st e = Inr st'"
  shows "projects st' (applyGoalProjection p e)"
proof (cases rule: event_cases [OF a])
  case (1 ch)
  show ?thesis
  proof (cases ch)
    case (ClearChange r t)
    with 1 clear_removes [of st r t st'] show ?thesis by (simp add: projection_step projects_def)
  next
    case (SnapshotChange op g n c u)
    with 1 snapshot_installs [of st op g n c u st'] show ?thesis by (simp add: projection_step projects_def)
  qed
next
  case (2 i r n g)
  then show ?thesis using assms(1) by (auto simp: projection_step projects_def split: option.splits)
next
  case 3
  then show ?thesis using assms(1) by (simp add: projection_step)
qed

lemma projects_fold:
  "run_steps applyGoalEvent st es = Inr st' \<Longrightarrow> projects st p \<Longrightarrow> projects st' (foldl applyGoalProjection p es)"
  by (induction es arbitrary: st p) (auto simp: result_simps dest: projects_step)

text \<open>
  The lenient projection agrees with the strict fold: on every accepted log it shows the
  same goal with the same creation and update times, nothing exactly when there is no goal, and
  a round counter that may lag but never runs ahead.
\<close>

theorem goal_projection_agrees:
  assumes "foldGoal es = Inr st"
  shows "case foldl applyGoalProjection None es of
      None \<Rightarrow> go_goal st = None
    | Some q \<Rightarrow> go_goal st = Some (gp_goal q) \<and> go_createdAt st = Some (gp_createdAt q)
        \<and> go_updatedAt st = Some (gp_updatedAt q) \<and> gp_roundsStarted q \<le> go_roundsStarted st"
  using projects_fold [OF assms [unfolded foldGoal_def], of None]
  by (simp add: projects_def emptyGoalFoldState_def)

theorem goal_projection_agrees_witness:
  "\<exists>q. foldl applyGoalProjection None sample_goal_log = Some q \<and> gp_goal q = sample_goal 2 PhComplete"
proof -
  obtain st where st: "foldGoal sample_goal_log = Inr st" "go_goal st = Some (sample_goal 2 PhComplete)"
    using sample_goal_folded by blast
  from goal_projection_agrees [OF st(1)] st(2) show ?thesis
    by (cases "foldl applyGoalProjection None sample_goal_log") simp_all
qed

end
