(* ===== verification/Inbox.thy ===== *)
theory Inbox imports SessionTypes Doubles "HOL-Library.Multiset" begin

text \<open>
  packages/core/agent/src/inbox.ts: the two pending-message lists of an agent, each mutation a
  durable splice event written before the live lists change, and the replay of those events;
  and packages/core/agent/src/consumed-work.ts: the account a log gives of the work it took.
  A splice is the payload \<open>Plugin (Some splice)\<close> of a session event, every other plugin event
  \<open>Plugin None\<close>. The session rejects an append that reenters another, so a mutation is one step.
\<close>

section \<open>Splices\<close>

datatype inbox_target = NextTurn | NextStep

record inbox_splice =
  sp_target :: inbox_target
  sp_start :: rat
  sp_removedCount :: "rat option"
  sp_inserted :: "message list"
  sp_canceled :: bool

type_synonym inbox_event = "inbox_splice option event"

record inbox =
  ib_nextTurn :: "message list"
  ib_nextStep :: "message list"

datatype inbox_error = InvalidSplice | AlreadyPending string | InvalidPersisted nat

fun pending :: "inbox_target \<Rightarrow> inbox \<Rightarrow> message list" where
  "pending NextTurn s = ib_nextTurn s"
| "pending NextStep s = ib_nextStep s"

fun set_pending :: "inbox_target \<Rightarrow> message list \<Rightarrow> inbox \<Rightarrow> inbox" where
  "set_pending NextTurn ms s = s\<lparr>ib_nextTurn := ms\<rparr>"
| "set_pending NextStep ms s = s\<lparr>ib_nextStep := ms\<rparr>"

definition removed_count :: "inbox_splice \<Rightarrow> rat" where
  "removed_count sp = (case sp_removedCount sp of Some n \<Rightarrow> n | None \<Rightarrow> 0)"

text \<open>The first identity that occurs twice.\<close>

fun first_duplicate :: "string list \<Rightarrow> string list \<Rightarrow> string option" where
  "first_duplicate seen [] = None"
| "first_duplicate seen (i # is) = (if i \<in> set seen then Some i else first_duplicate (i # seen) is)"

definition candidate_lists :: "inbox_splice \<Rightarrow> inbox \<Rightarrow> message list" where
  "candidate_lists sp s =
     (let candidate = splice (nat \<lfloor>sp_start sp\<rfloor>) (nat \<lfloor>removed_count sp\<rfloor>) (sp_inserted sp) (pending (sp_target sp) s)
      in if sp_target sp = NextTurn then candidate @ ib_nextStep s else ib_nextTurn s @ candidate)"

definition validate :: "inbox \<Rightarrow> inbox_splice \<Rightarrow> inbox_error + unit" where
  "validate s sp =
     rbind (guard (is_safe_integer (sp_start sp) \<and> 0 \<le> sp_start sp
         \<and> sp_start sp \<le> of_nat (length (pending (sp_target sp) s))
         \<and> is_safe_integer (removed_count sp) \<and> 0 \<le> removed_count sp
         \<and> sp_start sp + removed_count sp \<le> of_nat (length (pending (sp_target sp) s))) InvalidSplice) (\<lambda>_.
       case first_duplicate [] (map msg_id (candidate_lists sp s)) of
         Some i \<Rightarrow> Inl (AlreadyPending i)
       | None \<Rightarrow> Inr ())"

definition apply_splice :: "inbox \<Rightarrow> inbox_splice \<Rightarrow> inbox" where
  "apply_splice s sp =
     set_pending (sp_target sp)
       (splice (nat \<lfloor>sp_start sp\<rfloor>) (nat \<lfloor>removed_count sp\<rfloor>) (sp_inserted sp) (pending (sp_target sp) s)) s"

section \<open>Replay\<close>

definition replay_step :: "inbox \<Rightarrow> inbox_event \<Rightarrow> inbox_error + inbox" where
  "replay_step s e =
     (case ev_data e of
        Plugin (Some sp) \<Rightarrow>
          (case validate s sp of Inl _ \<Rightarrow> Inl (InvalidPersisted (ev_seq e)) | Inr _ \<Rightarrow> Inr (apply_splice s sp))
      | _ \<Rightarrow> Inr s)"

definition empty_inbox :: inbox where
  "empty_inbox = \<lparr>ib_nextTurn = [], ib_nextStep = []\<rparr>"

definition replay_inbox :: "nat \<Rightarrow> inbox_event list \<Rightarrow> inbox_error + inbox" where
  "replay_inbox seedLength events = run_steps replay_step empty_inbox (drop seedLength events)"

section \<open>Mutation\<close>

datatype inbox_note = NInserted message | NDiscarded message | NClaimed message int

record inbox_world =
  iw_log :: "inbox_event list"
  iw_seed :: nat
  iw_state :: inbox
  iw_notes :: "inbox_note list"

definition truncated :: "rat \<Rightarrow> int" where
  "truncated r = (if 0 \<le> r then \<lfloor>r\<rfloor> else \<lceil>r\<rceil>)"

definition resolve_start :: "nat \<Rightarrow> num_value \<Rightarrow> nat" where
  "resolve_start len v =
     (case v of
        Fin r \<Rightarrow> (let i = truncated r in if i < 0 then nat (max (int len + i) 0) else min (nat i) len)
      | PosInf \<Rightarrow> len
      | NegInf \<Rightarrow> 0
      | NotANumber \<Rightarrow> 0)"

definition resolve_count :: "nat \<Rightarrow> num_value \<Rightarrow> nat" where
  "resolve_count room v =
     (case v of
        Fin r \<Rightarrow> min (nat (truncated r)) room
      | PosInf \<Rightarrow> room
      | NegInf \<Rightarrow> 0
      | NotANumber \<Rightarrow> 0)"

definition spliced_event :: "nat \<Rightarrow> int \<Rightarrow> inbox_splice \<Rightarrow> inbox_event" where
  "spliced_event seq now sp = \<lparr>ev_data = Plugin (Some sp), ev_seq = seq, ev_time = now,
     ev_ignorable = False, ev_surfaceOp = None, ev_sources = None\<rparr>"

definition normalized_splice :: "inbox_target \<Rightarrow> nat \<Rightarrow> nat \<Rightarrow> message list \<Rightarrow> bool \<Rightarrow> inbox_splice" where
  "normalized_splice t start k ins discard =
     \<lparr>sp_target = t, sp_start = of_nat start,
      sp_removedCount = (if k = 0 then None else Some (of_nat k)),
      sp_inserted = ins, sp_canceled = (discard \<and> 0 < k)\<rparr>"

definition mutate :: "int \<Rightarrow> inbox_target \<Rightarrow> num_value \<Rightarrow> num_value \<Rightarrow> message list \<Rightarrow> bool \<Rightarrow> inbox_world
    \<Rightarrow> inbox_error + (inbox_world \<times> message list)" where
  "mutate now t start deleteCount ins discard w =
     (let box = pending t (iw_state w);
          actualStart = resolve_start (length box) start;
          actualCount = resolve_count (length box - actualStart) deleteCount;
          sp = normalized_splice t actualStart actualCount ins discard
      in if actualCount = 0 \<and> ins = [] then Inr (w, [])
         else rbind (validate (iw_state w) sp) (\<lambda>_.
           let removed = take actualCount (drop actualStart box)
           in Inr (w\<lparr>iw_log := iw_log w @ [spliced_event (length (iw_log w)) now sp],
                     iw_state := apply_splice (iw_state w) sp,
                     iw_notes := iw_notes w @ (if discard then map NDiscarded removed else []) @ map NInserted ins\<rparr>,
                   removed)))"

section \<open>Operations\<close>

definition inbox_splice_op :: "int \<Rightarrow> inbox_target \<Rightarrow> num_value \<Rightarrow> num_value \<Rightarrow> message list \<Rightarrow> inbox_world
    \<Rightarrow> inbox_error + (inbox_world \<times> message list)" where
  "inbox_splice_op now t start deleteCount ins w = mutate now t start deleteCount ins True w"

definition inbox_append :: "int \<Rightarrow> inbox_target \<Rightarrow> message \<Rightarrow> inbox_world \<Rightarrow> inbox_error + inbox_world" where
  "inbox_append now t m w =
     rbind (inbox_splice_op now t (Fin (of_nat (length (pending t (iw_state w))))) (Fin 0) [m] w) (\<lambda>(w', _). Inr w')"

definition inbox_prepend :: "int \<Rightarrow> inbox_target \<Rightarrow> message \<Rightarrow> inbox_world \<Rightarrow> inbox_error + inbox_world" where
  "inbox_prepend now t m w = rbind (inbox_splice_op now t (Fin 0) (Fin 0) [m] w) (\<lambda>(w', _). Inr w')"

definition locate :: "string \<Rightarrow> inbox \<Rightarrow> (inbox_target \<times> nat) option" where
  "locate i s =
     (case index_of i (map msg_id (ib_nextTurn s)) of
        Some k \<Rightarrow> Some (NextTurn, k)
      | None \<Rightarrow> map_option (Pair NextStep) (index_of i (map msg_id (ib_nextStep s))))"

definition inbox_replace :: "int \<Rightarrow> string \<Rightarrow> message list \<Rightarrow> inbox_world \<Rightarrow> inbox_error + (inbox_world \<times> bool)" where
  "inbox_replace now i ms w =
     (case locate i (iw_state w) of
        None \<Rightarrow> Inr (w, False)
      | Some (t, k) \<Rightarrow>
          rbind (inbox_splice_op now t (Fin (of_nat k)) (Fin 1) ms w) (\<lambda>(w', _). Inr (w', True)))"

definition replace_message :: "int \<Rightarrow> string \<Rightarrow> message \<Rightarrow> inbox_world \<Rightarrow> inbox_error + (inbox_world \<times> bool)" where
  "replace_message now i m w = inbox_replace now i [m] w"

definition remove_message :: "int \<Rightarrow> string \<Rightarrow> inbox_world \<Rightarrow> inbox_error + (inbox_world \<times> bool)" where
  "remove_message now i w = inbox_replace now i [] w"

definition inbox_clear :: "int \<Rightarrow> inbox_world \<Rightarrow> inbox_error + inbox_world" where
  "inbox_clear now w =
     rbind (inbox_splice_op now NextStep (Fin 0) (Fin (of_nat (length (ib_nextStep (iw_state w))))) [] w) (\<lambda>(w1, _).
     rbind (inbox_splice_op now NextTurn (Fin 0) (Fin (of_nat (length (ib_nextTurn (iw_state w1))))) [] w1) (\<lambda>(w2, _).
       Inr w2))"

definition claim :: "int \<Rightarrow> inbox_target \<Rightarrow> int \<Rightarrow> inbox_world \<Rightarrow> inbox_error + (inbox_world \<times> message list)" where
  "claim now t turn w =
     rbind (mutate now NextStep (Fin 0) (Fin (of_nat (length (ib_nextStep (iw_state w))))) [] False w) (\<lambda>(w1, steps).
     rbind (if t = NextTurn then mutate now NextTurn (Fin 0) (Fin 1) [] False w1 else Inr (w1, [])) (\<lambda>(w2, turns).
       Inr (w2\<lparr>iw_notes := iw_notes w2 @ map (\<lambda>m. NClaimed m turn) (steps @ turns)\<rparr>, steps @ turns)))"

definition hasPending :: "inbox \<Rightarrow> bool" where
  "hasPending s \<longleftrightarrow> ib_nextTurn s \<noteq> [] \<or> ib_nextStep s \<noteq> []"

section \<open>Consumed work\<close>

fun accountsForClaim :: "turn_end_reason \<Rightarrow> bool" where
  "accountsForClaim Completed = False"
| "accountsForClaim _ = True"

record work_state =
  ws_stepped :: "int set"
  ws_claimed :: "int set"
  ws_open :: "int option"
  ws_end :: "inbox_event option"
  ws_dropped :: bool

definition work_step :: "work_state \<Rightarrow> inbox_event \<Rightarrow> work_state" where
  "work_step s e =
     (case ev_data e of
        TurnStart t \<Rightarrow> s\<lparr>ws_open := Some t\<rparr>
      | StepStart t _ \<Rightarrow> s\<lparr>ws_stepped := insert t (ws_stepped s)\<rparr>
      | Plugin (Some sp) \<Rightarrow>
          (if sp_removedCount sp = None then s
           else if sp_canceled sp then s\<lparr>ws_dropped := ws_dropped s \<or> sp_inserted sp = []\<rparr>
           else (case ws_open s of None \<Rightarrow> s | Some t \<Rightarrow> s\<lparr>ws_claimed := insert t (ws_claimed s)\<rparr>))
      | TurnEnd t r \<Rightarrow>
          (let s0 = s\<lparr>ws_open := None\<rparr>
           in if t \<in> ws_stepped s then
                s0\<lparr>ws_stepped := ws_stepped s - {t}, ws_end := Some e, ws_dropped := False\<rparr>
              else if t \<in> ws_claimed s then
                (let s1 = s0\<lparr>ws_claimed := ws_claimed s - {t}\<rparr>
                 in if accountsForClaim r then s1\<lparr>ws_end := Some e, ws_dropped := False\<rparr> else s1)
              else s0)
      | _ \<Rightarrow> s)"

definition foldConsumedWork :: "inbox_event list \<Rightarrow> inbox_event option \<times> bool" where
  "foldConsumedWork events =
     (let s = foldl work_step \<lparr>ws_stepped = {}, ws_claimed = {}, ws_open = None, ws_end = None, ws_dropped = False\<rparr> events
      in (ws_end s, ws_dropped s))"


section \<open>Distinct identities\<close>

definition all_pending :: "inbox \<Rightarrow> message list" where
  "all_pending s = ib_nextTurn s @ ib_nextStep s"

definition inbox_ok :: "inbox \<Rightarrow> bool" where
  "inbox_ok s \<longleftrightarrow> distinct (map msg_id (all_pending s))"

lemma first_duplicate_None: "first_duplicate seen is = None \<longleftrightarrow> distinct is \<and> set is \<inter> set seen = {}"
  by (induction seen "is" rule: first_duplicate.induct) auto

lemma pending_set [simp]: "pending t (set_pending t' ms s) = (if t = t' then ms else pending t s)"
  by (cases t; cases t') simp_all

lemma candidate_all: "all_pending (apply_splice s sp) = candidate_lists sp s"
  by (cases "sp_target sp") (simp_all add: all_pending_def apply_splice_def candidate_lists_def Let_def)

lemma validate_ok: "validate s sp = Inr () \<Longrightarrow> inbox_ok (apply_splice s sp)"
  by (auto simp: validate_def result_simps inbox_ok_def candidate_all first_duplicate_None split: option.splits)

lemma replay_step_ok: "inbox_ok s \<Longrightarrow> replay_step s e = Inr s' \<Longrightarrow> inbox_ok s'"
  by (auto simp: replay_step_def validate_ok split: event_data.splits option.splits sum.splits)

interpretation inbox_fold: fold_invariant replay_step inbox_ok
  by unfold_locales (rule replay_step_ok)

lemma empty_inbox_ok: "inbox_ok empty_inbox"
  by (simp add: inbox_ok_def all_pending_def empty_inbox_def)

section \<open>Mutations follow the replay\<close>

text \<open>The world is consistent: the live lists are the replay of the log.\<close>

definition inbox_synced :: "inbox_world \<Rightarrow> bool" where
  "inbox_synced w \<longleftrightarrow> replay_inbox (iw_seed w) (iw_log w) = Inr (iw_state w) \<and> iw_seed w \<le> length (iw_log w)"

lemma synced_ok: "inbox_synced w \<Longrightarrow> inbox_ok (iw_state w)"
  using inbox_fold.run_inv [OF empty_inbox_ok] by (auto simp: inbox_synced_def replay_inbox_def)

lemma resolve_start_le: "resolve_start len v \<le> len"
  by (auto simp: resolve_start_def Let_def split: num_value.splits)

lemma resolve_count_le: "resolve_count room v \<le> room"
  by (auto simp: resolve_count_def split: num_value.splits)

lemma splice_removed: "mset xs + mset ins = mset (splice i k ins xs) + mset (take k (drop i xs))"
proof -
  have "xs = take i xs @ take k (drop i xs) @ drop (i + k) xs"
    by (metis append_take_drop_id add.commute drop_drop)
  then have "mset xs = mset (take i xs) + mset (take k (drop i xs)) + mset (drop (i + k) xs)"
    by (metis mset_append union_assoc)
  then show ?thesis by (simp add: splice_def)
qed

lemma set_pending_mset:
  "mset (all_pending (set_pending t ms s)) + mset (pending t s) = mset (all_pending s) + mset ms"
  by (cases t) (simp_all add: all_pending_def)

lemma replay_snoc:
  "inbox_synced w \<Longrightarrow> replay_step (iw_state w) e = Inr s \<Longrightarrow>
   replay_inbox (iw_seed w) (iw_log w @ [e]) = Inr s"
  by (simp add: inbox_synced_def replay_inbox_def run_steps_snoc)

text \<open>The bookkeeping of messages: what came in is what is pending, claimed or discarded.\<close>

definition inserted_of :: "inbox_note list \<Rightarrow> message multiset" where
  "inserted_of notes = mset (List.map_filter (\<lambda>n. case n of NInserted m \<Rightarrow> Some m | _ \<Rightarrow> None) notes)"

definition claimed_of :: "inbox_note list \<Rightarrow> message multiset" where
  "claimed_of notes = mset (List.map_filter (\<lambda>n. case n of NClaimed m _ \<Rightarrow> Some m | _ \<Rightarrow> None) notes)"

definition discarded_of :: "inbox_note list \<Rightarrow> message multiset" where
  "discarded_of notes = mset (List.map_filter (\<lambda>n. case n of NDiscarded m \<Rightarrow> Some m | _ \<Rightarrow> None) notes)"

lemma map_filter_append: "List.map_filter f (xs @ ys) = List.map_filter f xs @ List.map_filter f ys"
  by (simp add: List.map_filter_def)

lemma map_filter_map: "List.map_filter f (map g xs) = List.map_filter (f \<circ> g) xs"
  by (simp add: List.map_filter_def filter_map comp_def)

lemma map_filter_trivial: "List.map_filter (\<lambda>x. Some x) xs = xs" "List.map_filter (\<lambda>x. None) xs = []"
  by (simp_all add: List.map_filter_def)

lemmas note_simps = inserted_of_def claimed_of_def discarded_of_def map_filter_append map_filter_map comp_def
  map_filter_trivial

text \<open>\<open>held\<close> is everything that came in and was not yet settled by a notification.\<close>

definition balanced :: "message multiset \<Rightarrow> message multiset \<Rightarrow> inbox_world \<Rightarrow> bool" where
  "balanced start held w \<longleftrightarrow>
     start + inserted_of (iw_notes w) =
       mset (all_pending (iw_state w)) + claimed_of (iw_notes w) + discarded_of (iw_notes w) + held"

lemma apply_normalized:
  "apply_splice s (normalized_splice t i k ins d) = set_pending t (splice i k ins (pending t s)) s"
  by (simp add: apply_splice_def normalized_splice_def removed_count_def)

lemma mutate_result:
  assumes "mutate now t start n ins discard w = Inr (w', removed)"
  obtains (nothing) "w' = w" "removed = []"
    | (spliced) i k where "validate (iw_state w) (normalized_splice t i k ins discard) = Inr ()"
      "removed = take k (drop i (pending t (iw_state w)))"
      "iw_log w' = iw_log w @ [spliced_event (length (iw_log w)) now (normalized_splice t i k ins discard)]"
      "iw_state w' = set_pending t (splice i k ins (pending t (iw_state w))) (iw_state w)"
      "iw_notes w' = iw_notes w @ (if discard then map NDiscarded removed else []) @ map NInserted ins"
      "iw_seed w' = iw_seed w"
proof -
  let ?box = "pending t (iw_state w)"
  let ?i = "resolve_start (length ?box) start"
  let ?k = "resolve_count (length ?box - ?i) n"
  show ?thesis
  proof (cases "?k = 0 \<and> ins = []")
    case True
    then have "w' = w" "removed = []" using assms by (simp_all add: mutate_def Let_def)
    then show ?thesis by (rule nothing)
  next
    case False
    then have "validate (iw_state w) (normalized_splice t ?i ?k ins discard) = Inr ()"
      and "removed = take ?k (drop ?i ?box)"
      and "w' = w\<lparr>iw_log := iw_log w @ [spliced_event (length (iw_log w)) now (normalized_splice t ?i ?k ins discard)],
        iw_state := apply_splice (iw_state w) (normalized_splice t ?i ?k ins discard),
        iw_notes := iw_notes w @ (if discard then map NDiscarded removed else []) @ map NInserted ins\<rparr>"
      using assms unfolding mutate_def Let_def if_not_P [OF False] by (auto simp: result_simps)
    then show ?thesis by (intro spliced [of ?i ?k]) (simp_all add: apply_normalized)
  qed
qed

lemma mutate_synced:
  assumes w: "inbox_synced w" and m: "mutate now t start n ins discard w = Inr (w', removed)"
  shows "inbox_synced w' \<and> iw_seed w' = iw_seed w"
proof (cases rule: mutate_result [OF m])
  case (2 i k)
  then have "replay_step (iw_state w) (spliced_event (length (iw_log w)) now (normalized_splice t i k ins discard))
      = Inr (iw_state w')"
    by (simp add: replay_step_def spliced_event_def apply_normalized)
  from replay_snoc [OF w this] show ?thesis
    using w 2 by (simp add: inbox_synced_def)
qed (use w in simp)

lemma mset_exchange:
  fixes A A' B C I R :: "'a multiset"
  assumes "A' + B = A + C" and "B + I = C + R"
  shows "A' + R = A + I"
proof (rule multiset_eqI)
  fix x
  show "count (A' + R) x = count (A + I) x"
    using arg_cong [OF assms(1), of "\<lambda>M. count M x"] arg_cong [OF assms(2), of "\<lambda>M. count M x"] by simp
qed

lemma mutate_balanced:
  assumes b: "balanced st held w" and m: "mutate now t start n ins discard w = Inr (w', removed)"
  shows "balanced st (if discard then held else held + mset removed) w'"
proof (cases rule: mutate_result [OF m])
  case 1
  then show ?thesis using b by simp
next
  case (2 i k)
  let ?box = "pending t (iw_state w)"
  have "mset (all_pending (iw_state w')) + mset ?box = mset (all_pending (iw_state w)) + mset (splice i k ins ?box)"
    unfolding 2(4) by (rule set_pending_mset)
  from mset_exchange [OF this splice_removed [of ?box ins i k]]
  have "mset (all_pending (iw_state w')) + mset removed = mset (all_pending (iw_state w)) + mset ins"
    unfolding 2(2) .
  note eq = this b [unfolded balanced_def]
  show ?thesis
    unfolding balanced_def
  proof (rule multiset_eqI)
    fix x
    show "count (st + inserted_of (iw_notes w')) x = count (mset (all_pending (iw_state w')) + claimed_of (iw_notes w')
        + discarded_of (iw_notes w') + (if discard then held else held + mset removed)) x"
      using eq [THEN arg_cong, of "\<lambda>M. count M x"] 2(5)
      by (cases discard) (simp_all add: note_simps)
  qed
qed


section \<open>Reachable inboxes\<close>

fun is_spliced :: "inbox_splice option event_data \<Rightarrow> bool" where
  "is_spliced (Plugin (Some _)) = True"
| "is_spliced _ = False"

text \<open>
  An inbox opened on a log with the pending messages \<open>p0\<close>, then its operations interleaved
  with the events other code appends.
\<close>

inductive inbox_reach :: "message multiset \<Rightarrow> inbox_world \<Rightarrow> bool" where
  opened: "replay_inbox n events = Inr s \<Longrightarrow> n \<le> length events \<Longrightarrow>
    inbox_reach (mset (all_pending s)) \<lparr>iw_log = events, iw_seed = n, iw_state = s, iw_notes = []\<rparr>"
| other_event: "inbox_reach p0 w \<Longrightarrow> \<not> is_spliced (ev_data e) \<Longrightarrow> inbox_reach p0 (w\<lparr>iw_log := iw_log w @ [e]\<rparr>)"
| spliced: "inbox_reach p0 w \<Longrightarrow> inbox_splice_op now t st n ins w = Inr (w', removed) \<Longrightarrow> inbox_reach p0 w'"
| appended: "inbox_reach p0 w \<Longrightarrow> inbox_append now t m w = Inr w' \<Longrightarrow> inbox_reach p0 w'"
| prepended: "inbox_reach p0 w \<Longrightarrow> inbox_prepend now t m w = Inr w' \<Longrightarrow> inbox_reach p0 w'"
| replaced: "inbox_reach p0 w \<Longrightarrow> replace_message now i m w = Inr (w', found) \<Longrightarrow> inbox_reach p0 w'"
| removed: "inbox_reach p0 w \<Longrightarrow> remove_message now i w = Inr (w', found) \<Longrightarrow> inbox_reach p0 w'"
| cleared: "inbox_reach p0 w \<Longrightarrow> inbox_clear now w = Inr w' \<Longrightarrow> inbox_reach p0 w'"
| claimed: "inbox_reach p0 w \<Longrightarrow> claim now t turn w = Inr (w', batch) \<Longrightarrow> inbox_reach p0 w'"

definition inbox_inv :: "message multiset \<Rightarrow> inbox_world \<Rightarrow> bool" where
  "inbox_inv p0 w \<longleftrightarrow> inbox_synced w \<and> balanced p0 {#} w"

lemma splice_op_inv:
  "inbox_inv p0 w \<Longrightarrow> inbox_splice_op now t st n ins w = Inr (w', removed) \<Longrightarrow> inbox_inv p0 w'"
  unfolding inbox_splice_op_def inbox_inv_def using mutate_synced mutate_balanced [of p0 "{#}" w now t st n ins True w' removed]
  by auto

lemma mutate_takes:
  "balanced st held w \<Longrightarrow> mutate now t start n ins False w = Inr (w', removed) \<Longrightarrow>
   balanced st (held + mset removed) w'"
  using mutate_balanced [of st held w now t start n ins False w' removed] by simp

lemma inbox_replace_inv:
  "inbox_inv p0 w \<Longrightarrow> inbox_replace now i ms w = Inr (w', found) \<Longrightarrow> inbox_inv p0 w'"
  by (auto simp: inbox_replace_def result_simps intro: splice_op_inv split: option.splits)

lemma claim_inv:
  assumes inv: "inbox_inv p0 w" and c: "claim now t turn w = Inr (w', batch)"
  shows "inbox_inv p0 w'"
proof -
  obtain w1 ss where m1: "mutate now NextStep (Fin 0) (Fin (of_nat (length (ib_nextStep (iw_state w))))) [] False w = Inr (w1, ss)"
    using c by (auto simp: claim_def result_simps)
  then obtain w2 ts where m2: "(if t = NextTurn then mutate now NextTurn (Fin 0) (Fin 1) [] False w1 else Inr (w1, [])) = Inr (w2, ts)"
    and w': "w' = w2\<lparr>iw_notes := iw_notes w2 @ map (\<lambda>m. NClaimed m turn) (ss @ ts)\<rparr>"
    using c by (auto simp: claim_def result_simps)
  have s1: "inbox_synced w1" "balanced p0 (mset ss) w1"
    using inv mutate_synced [OF _ m1] mutate_takes [OF _ m1, of p0 "{#}"] by (simp_all add: inbox_inv_def)
  have s2: "inbox_synced w2 \<and> balanced p0 (mset ss + mset ts) w2"
    using s1 m2 by (cases "t = NextTurn") (auto dest: mutate_synced mutate_takes)
  then show ?thesis
    by (simp add: w' inbox_inv_def inbox_synced_def balanced_def note_simps ac_simps)
qed

lemma inbox_reach_inv: "inbox_reach p0 w \<Longrightarrow> inbox_inv p0 w"
proof (induction rule: inbox_reach.induct)
  case (opened n events s)
  then show ?case by (simp add: inbox_inv_def inbox_synced_def balanced_def note_simps map_filter_simps)
next
  case (other_event p0 w e)
  have "replay_step (iw_state w) e = Inr (iw_state w)"
    using other_event.hyps(2) by (cases "ev_data e" rule: is_spliced.cases) (auto simp: replay_step_def)
  then show ?case using other_event.IH replay_snoc [of w e]
    by (simp add: inbox_inv_def inbox_synced_def balanced_def)
next
  case (appended p0 w now t m w')
  then show ?case by (auto simp: inbox_append_def result_simps intro: splice_op_inv)
next
  case (prepended p0 w now t m w')
  then show ?case by (auto simp: inbox_prepend_def result_simps intro: splice_op_inv)
next
  case (cleared p0 w now w')
  then obtain w1 r1 r2 where
    "inbox_splice_op now NextStep (Fin 0) (Fin (of_nat (length (ib_nextStep (iw_state w))))) [] w = Inr (w1, r1)"
    and "inbox_splice_op now NextTurn (Fin 0) (Fin (of_nat (length (ib_nextTurn (iw_state w1))))) [] w1 = Inr (w', r2)"
    by (auto simp: inbox_clear_def result_simps)
  then show ?case using cleared.IH splice_op_inv by metis
next
  case (spliced p0 w now t st n ins w' removed)
  then show ?case using splice_op_inv by blast
next
  case (replaced p0 w now i m w' found)
  then show ?case unfolding replace_message_def using inbox_replace_inv by blast
next
  case (removed p0 w now i w' found)
  then show ?case unfolding remove_message_def using inbox_replace_inv by blast
next
  case (claimed p0 w now t turn w' batch)
  then show ?case using claim_inv by blast
qed

section \<open>Claims\<close>

lemma set_pending_same: "set_pending t (pending t s) s = s"
  by (cases t) simp_all

lemma delete_front_ok:
  "inbox_ok s \<Longrightarrow> inbox_ok (set_pending t (drop k (pending t s)) s)"
  by (cases t) (auto simp: inbox_ok_def all_pending_def drop_map [symmetric] distinct_drop
      dest!: in_set_dropD intro: rev_image_eqI)

lemma delete_front_valid:
  assumes "inbox_ok s" and "k \<le> length (pending t s)" and "int k \<le> max_safe"
  shows "validate s (normalized_splice t 0 k [] d) = Inr ()"
proof -
  let ?sp = "normalized_splice t 0 k [] d"
  have "inbox_ok (apply_splice s ?sp)"
    using delete_front_ok [OF assms(1), of t k] by (simp add: apply_normalized splice_def)
  then have "first_duplicate [] (map msg_id (candidate_lists ?sp s)) = None"
    by (simp add: first_duplicate_None inbox_ok_def candidate_all)
  moreover have "is_safe_integer (removed_count ?sp)" "0 \<le> removed_count ?sp" "removed_count ?sp = of_nat k"
    "sp_start ?sp = 0" "sp_target ?sp = t" "is_safe_integer 0"
    using assms(3) by (auto simp: normalized_splice_def removed_count_def is_safe_integer_def safe_int_def max_safe_def)
  ultimately show ?thesis using assms(2) by (simp add: validate_def)
qed

lemma mutate_front:
  assumes ok: "inbox_ok (iw_state w)" and safe: "int k \<le> max_safe"
  shows "\<exists>w'. mutate now t (Fin 0) (Fin (of_nat k)) [] d w = Inr (w', take k (pending t (iw_state w)))
    \<and> iw_state w' = set_pending t (drop k (pending t (iw_state w))) (iw_state w)"
proof -
  let ?box = "pending t (iw_state w)"
  let ?k = "min k (length ?box)"
  have r: "resolve_start (length ?box) (Fin 0) = 0" "resolve_count (length ?box) (Fin (of_nat k)) = ?k"
    by (simp_all add: resolve_start_def resolve_count_def truncated_def)
  have td: "take ?k ?box = take k ?box" "drop ?k ?box = drop k ?box" by (simp_all add: min_def)
  show ?thesis
  proof (cases "?k = 0")
    case True
    then have "take k ?box = []" "drop k ?box = ?box" by (auto simp: min_def split: if_splits)
    then show ?thesis using True by (simp add: mutate_def r set_pending_same)
  next
    case False
    have "validate (iw_state w) (normalized_splice t 0 ?k [] d) = Inr ()"
      using ok safe by (intro delete_front_valid) auto
    then show ?thesis
      using False td by (simp add: mutate_def r Let_def apply_normalized splice_def)
  qed
qed

section \<open>The account of consumed work\<close>

definition is_claim :: "inbox_event \<Rightarrow> bool" where
  "is_claim e \<longleftrightarrow> (\<exists>sp. ev_data e = Plugin (Some sp) \<and> sp_removedCount sp \<noteq> None \<and> \<not> sp_canceled sp)"

definition is_drop :: "inbox_event \<Rightarrow> bool" where
  "is_drop e \<longleftrightarrow> (\<exists>sp. ev_data e = Plugin (Some sp) \<and> sp_removedCount sp \<noteq> None \<and> sp_canceled sp \<and> sp_inserted sp = [])"

fun open_step :: "int option \<Rightarrow> inbox_event \<Rightarrow> int option" where
  "open_step o' e = (case ev_data e of TurnStart t \<Rightarrow> Some t | TurnEnd _ _ \<Rightarrow> None | _ \<Rightarrow> o')"

definition open_turn :: "inbox_event list \<Rightarrow> int option" where
  "open_turn es = foldl open_step None es"

text \<open>The turn took input: a claim happened while it was open.\<close>

definition took_input :: "inbox_event list \<Rightarrow> int \<Rightarrow> bool" where
  "took_input es t \<longleftrightarrow> (\<exists>k < length es. is_claim (es ! k) \<and> open_turn (take k es) = Some t)"

definition entered_step :: "inbox_event list \<Rightarrow> int \<Rightarrow> bool" where
  "entered_step es t \<longleftrightarrow> (\<exists>e \<in> set es. \<exists>s. ev_data e = StepStart t s)"

definition accounts_at :: "inbox_event list \<Rightarrow> nat \<Rightarrow> bool" where
  "accounts_at es k \<longleftrightarrow> (\<exists>t r. ev_data (es ! k) = TurnEnd t r
     \<and> (entered_step (take k es) t \<or> (took_input (take k es) t \<and> accountsForClaim r)))"

definition ended :: "inbox_event list \<Rightarrow> int list" where
  "ended es = List.map_filter (\<lambda>e. case ev_data e of TurnEnd t _ \<Rightarrow> Some t | _ \<Rightarrow> None) es"

definition work_run :: "inbox_event list \<Rightarrow> work_state" where
  "work_run es = foldl work_step \<lparr>ws_stepped = {}, ws_claimed = {}, ws_open = None, ws_end = None, ws_dropped = False\<rparr> es"

lemma work_run_snoc: "work_run (es @ [e]) = work_step (work_run es) e"
  by (simp add: work_run_def)

lemma open_turn_snoc: "open_turn (es @ [e]) = open_step (open_turn es) e"
  by (simp add: open_turn_def)

lemma took_input_snoc: "took_input (es @ [e]) t \<longleftrightarrow> took_input es t \<or> (is_claim e \<and> open_turn es = Some t)"
  by (simp add: took_input_def Ex_less_Suc nth_append disj_commute cong: conj_cong)

lemma entered_step_snoc: "entered_step (es @ [e]) t \<longleftrightarrow> entered_step es t \<or> (\<exists>s. ev_data e = StepStart t s)"
  by (auto simp: entered_step_def)

lemma ended_snoc:
  "ended (es @ [e]) = ended es @ (case ev_data e of TurnEnd t _ \<Rightarrow> [t] | _ \<Rightarrow> [])"
  by (cases "ev_data e") (simp_all add: ended_def)

lemma work_step_open: "ws_open (work_step s e) = open_step (ws_open s) e"
  by (cases "ev_data e") (simp_all add: work_step_def Let_def split: option.split)

lemma work_open: "ws_open (work_run es) = open_turn es"
  by (induction es rule: rev_induct) (simp_all add: work_run_snoc open_turn_snoc work_step_open,
      simp add: work_run_def open_turn_def)

lemma is_claim_simps:
  "is_claim e \<longleftrightarrow> (case ev_data e of Plugin (Some sp) \<Rightarrow> sp_removedCount sp \<noteq> None \<and> \<not> sp_canceled sp | _ \<Rightarrow> False)"
  by (auto simp: is_claim_def split: event_data.splits option.splits)

lemma work_step_sets:
  assumes "\<And>r. ev_data e \<noteq> TurnEnd t r"
  shows "t \<in> ws_stepped (work_step s e) \<longleftrightarrow> t \<in> ws_stepped s \<or> (\<exists>n. ev_data e = StepStart t n)"
    and "t \<in> ws_claimed (work_step s e) \<longleftrightarrow> t \<in> ws_claimed s \<or> (is_claim e \<and> ws_open s = Some t)"
  using assms by (cases "ev_data e"; auto simp: work_step_def is_claim_simps Let_def split: option.splits)+

lemma work_sets:
  "t \<notin> set (ended es) \<Longrightarrow>
   (t \<in> ws_stepped (work_run es) \<longleftrightarrow> entered_step es t) \<and> (t \<in> ws_claimed (work_run es) \<longleftrightarrow> took_input es t)"
proof (induction es rule: rev_induct)
  case (snoc e es)
  then have "t \<notin> set (ended es)" and "\<And>r. ev_data e \<noteq> TurnEnd t r"
    by (auto simp: ended_snoc)
  with snoc.IH work_step_sets [of e t "work_run es"] show ?case
    by (auto simp: work_run_snoc took_input_snoc entered_step_snoc work_open)
qed (simp add: work_run_def entered_step_def took_input_def)

definition accounting :: "inbox_event list \<Rightarrow> nat list" where
  "accounting es = filter (accounts_at es) [0 ..< length es]"

lemma accounting_snoc:
  "accounting (es @ [e]) = accounting es @ (if accounts_at (es @ [e]) (length es) then [length es] else [])"
proof -
  have "accounts_at (es @ [e]) k = accounts_at es k" if "k < length es" for k
    using that by (simp add: accounts_at_def nth_append)
  then have "filter (accounts_at (es @ [e])) [0 ..< length es] = accounting es"
    unfolding accounting_def by (intro filter_cong) simp_all
  then show ?thesis by (simp add: accounting_def)
qed


text \<open>A drop at or after position \<open>k\<close>.\<close>

definition dropped_after :: "inbox_event list \<Rightarrow> nat \<Rightarrow> bool" where
  "dropped_after es k \<longleftrightarrow> (\<exists>j < length es. k \<le> j \<and> is_drop (es ! j))"

lemma dropped_after_snoc:
  "k \<le> length es \<Longrightarrow> dropped_after (es @ [e]) k \<longleftrightarrow> dropped_after es k \<or> is_drop e"
  by (simp add: dropped_after_def Ex_less_Suc nth_append disj_commute cong: conj_cong)

definition since_accounting :: "inbox_event list \<Rightarrow> nat" where
  "since_accounting es = (if accounting es = [] then 0 else Suc (last (accounting es)))"

lemma since_le: "since_accounting es \<le> length es"
proof (cases "accounting es = []")
  case False
  then have "last (accounting es) \<in> set (accounting es)" by (rule last_in_set)
  then show ?thesis by (simp add: since_accounting_def accounting_def)
qed (simp add: since_accounting_def)

lemma work_step_end:
  "(ws_end (work_step s e), ws_dropped (work_step s e)) =
     (case ev_data e of
        TurnEnd t r \<Rightarrow> if t \<in> ws_stepped s \<or> (t \<in> ws_claimed s \<and> accountsForClaim r) then (Some e, False)
          else (ws_end s, ws_dropped s)
      | _ \<Rightarrow> (ws_end s, ws_dropped s \<or> is_drop e))"
  by (cases "ev_data e") (auto simp: work_step_def Let_def is_drop_def split: option.split)

lemma not_drop_end: "ev_data e = TurnEnd t r \<Longrightarrow> \<not> is_drop e"
  by (simp add: is_drop_def)

lemma work_run_spec:
  "distinct (ended es) \<Longrightarrow>
   ws_end (work_run es) = (if accounting es = [] then None else Some (es ! last (accounting es)))
   \<and> ws_dropped (work_run es) = dropped_after es (since_accounting es)"
proof (induction es rule: rev_induct)
  case Nil
  show ?case by (simp add: work_run_def accounting_def dropped_after_def)
next
  case (snoc e es)
  have IH: "ws_end (work_run es) = (if accounting es = [] then None else Some (es ! last (accounting es)))"
    "ws_dropped (work_run es) = dropped_after es (since_accounting es)"
    using snoc by (auto simp: ended_snoc)
  have in_range: "accounting es \<noteq> [] \<Longrightarrow> last (accounting es) < length es"
    using last_in_set [of "accounting es"] by (simp add: accounting_def)
  note step = work_step_end [of "work_run es" e, folded work_run_snoc]
  show ?case
  proof (cases "accounts_at (es @ [e]) (length es)")
    case True
    then obtain t r where e: "ev_data e = TurnEnd t r"
      "entered_step es t \<or> (took_input es t \<and> accountsForClaim r)"
      by (auto simp: accounts_at_def)
    moreover have "t \<notin> set (ended es)" using snoc.prems e(1) by (auto simp: ended_snoc)
    ultimately have "ws_end (work_run (es @ [e])) = Some e" "\<not> ws_dropped (work_run (es @ [e]))"
      using step work_sets [of t es] by (auto split: if_splits)
    then show ?thesis
      using True by (simp add: accounting_snoc since_accounting_def dropped_after_def)
  next
    case False
    have acc: "accounting (es @ [e]) = accounting es" using False by (simp add: accounting_snoc)
    have "ws_end (work_run (es @ [e])) = ws_end (work_run es)
      \<and> ws_dropped (work_run (es @ [e])) = (ws_dropped (work_run es) \<or> is_drop e)"
    proof (cases "\<exists>t r. ev_data e = TurnEnd t r")
      case True
      then obtain t r where e: "ev_data e = TurnEnd t r" by blast
      have "t \<notin> set (ended es)" using snoc.prems e by (auto simp: ended_snoc)
      then show ?thesis
        using step work_sets [of t es] False e not_drop_end [OF e] by (auto simp: accounts_at_def)
    next
      case False
      then show ?thesis using step by (cases "ev_data e") auto
    qed
    then show ?thesis
      using IH acc since_le [of es] in_range
      by (auto simp: since_accounting_def dropped_after_snoc nth_append)
  qed
qed

section \<open>Properties\<close>

text \<open>
  C30. The durable log is the inbox: whatever operations and foreign events happen, replaying
  the splices of the log gives exactly the live lists, and no identity is pending twice.
\<close>

theorem inbox_replays:
  assumes "inbox_reach p0 w"
  shows "replay_inbox (iw_seed w) (iw_log w) = Inr (iw_state w)
    \<and> distinct (map msg_id (ib_nextTurn (iw_state w) @ ib_nextStep (iw_state w)))"
  using inbox_reach_inv [OF assms] synced_ok [of w]
  by (simp add: inbox_inv_def inbox_synced_def inbox_ok_def all_pending_def)

text \<open>
  No message is lost or duplicated: the messages pending at the start and those inserted
  since are, as a multiset, those still pending, claimed by a turn, or discarded.
\<close>

theorem inbox_conserves:
  assumes "inbox_reach p0 w"
  shows "p0 + inserted_of (iw_notes w) =
    mset (ib_nextTurn (iw_state w) @ ib_nextStep (iw_state w)) + claimed_of (iw_notes w) + discarded_of (iw_notes w)"
  using inbox_reach_inv [OF assms] by (simp add: inbox_inv_def balanced_def all_pending_def)

definition sample_message :: "string \<Rightarrow> message" where
  "sample_message i = \<lparr>msg_id = i, msg_role = RoleUser, msg_content = [TextBlock ''go''], msg_source = UserSource\<rparr>"

definition opened_world :: inbox_world where
  "opened_world = \<lparr>iw_log = [], iw_seed = 0, iw_state = empty_inbox, iw_notes = []\<rparr>"

definition sample_inbox :: inbox_world where
  "sample_inbox = opened_world\<lparr>
     iw_log := [spliced_event 0 5 (normalized_splice NextTurn 0 0 [sample_message ''a''] True)],
     iw_state := \<lparr>ib_nextTurn = [sample_message ''a''], ib_nextStep = []\<rparr>,
     iw_notes := [NInserted (sample_message ''a'')]\<rparr>"

lemma sample_inbox_reach: "inbox_reach {#} sample_inbox"
proof -
  have "inbox_reach {#} opened_world"
    using opened [of 0 "[]" empty_inbox]
    by (simp add: replay_inbox_def opened_world_def all_pending_def empty_inbox_def)
  moreover have "inbox_append 5 NextTurn (sample_message ''a'') opened_world = Inr sample_inbox"
    by (simp add: inbox_append_def inbox_splice_op_def mutate_def Let_def opened_world_def empty_inbox_def
        sample_inbox_def resolve_start_def resolve_count_def truncated_def validate_def normalized_splice_def
        removed_count_def candidate_lists_def splice_def apply_splice_def sample_message_def is_safe_integer_def
        safe_int_def max_safe_def)
  ultimately show ?thesis by (rule appended)
qed

theorem inbox_replays_witness: "replay_inbox 0 (iw_log sample_inbox) = Inr (iw_state sample_inbox)"
  using inbox_replays [OF sample_inbox_reach] by (simp add: sample_inbox_def opened_world_def)

theorem inbox_conserves_witness: "inserted_of (iw_notes sample_inbox) = {#sample_message ''a''#}"
  using inbox_conserves [OF sample_inbox_reach]
  by (simp add: sample_inbox_def claimed_of_def discarded_of_def map_filter_simps)


text \<open>
  A claim takes exactly the batch of its boundary and cannot fail: all next-step input in
  order, then one queued turn when the boundary starts a turn; the rest stays pending.
\<close>

theorem claim_takes_batch:
  assumes "inbox_reach p0 w" and "int (length (ib_nextStep (iw_state w))) \<le> max_safe"
  shows "\<exists>w'. claim now t turn w =
      Inr (w', ib_nextStep (iw_state w) @ (if t = NextTurn then take 1 (ib_nextTurn (iw_state w)) else []))
    \<and> ib_nextStep (iw_state w') = []
    \<and> ib_nextTurn (iw_state w') = (if t = NextTurn then drop 1 (ib_nextTurn (iw_state w)) else ib_nextTurn (iw_state w))"
proof -
  have ok: "inbox_ok (iw_state w)"
    using inbox_reach_inv [OF assms(1)] synced_ok by (simp add: inbox_inv_def)
  obtain w1 where m1: "mutate now NextStep (Fin 0) (Fin (of_nat (length (ib_nextStep (iw_state w))))) [] False w =
      Inr (w1, ib_nextStep (iw_state w))" and s1: "iw_state w1 = set_pending NextStep [] (iw_state w)"
    using mutate_front [OF ok assms(2), of now NextStep False] by auto
  have "inbox_ok (iw_state w1)" using delete_front_ok [OF ok, of NextStep "length (ib_nextStep (iw_state w))"] s1 by simp
  then obtain w2 where "mutate now NextTurn (Fin 0) (Fin (of_nat 1)) [] False w1 = Inr (w2, take 1 (ib_nextTurn (iw_state w1)))"
    and "iw_state w2 = set_pending NextTurn (drop 1 (ib_nextTurn (iw_state w1))) (iw_state w1)"
    using mutate_front [of w1 1 now NextTurn False] by (auto simp: max_safe_def)
  then show ?thesis using m1 s1 by (cases t) (simp_all add: claim_def)
qed

theorem claim_takes_batch_witness:
  "\<exists>w'. claim 6 NextTurn 1 sample_inbox = Inr (w', [sample_message ''a'']) \<and> ib_nextTurn (iw_state w') = []"
  using claim_takes_batch [OF sample_inbox_reach, of 6 NextTurn 1]
  by (auto simp: sample_inbox_def opened_world_def max_safe_def)

text \<open>
  The account of consumed work, for a log that ends each turn at most once: the recorded
  ending is that of the last turn that entered a step, or that took input and ended other than
  completed; and work counts as dropped exactly when input was cancelled, with no replacement,
  after that ending.
\<close>

theorem consumed_work_account:
  assumes "distinct (ended es)"
  shows "fst (foldConsumedWork es) = (if accounting es = [] then None else Some (es ! last (accounting es)))
    \<and> snd (foldConsumedWork es) = dropped_after es (since_accounting es)"
  using work_run_spec [OF assms] by (simp add: foldConsumedWork_def work_run_def Let_def)

theorem consumed_work_account_witness:
  "fst (foldConsumedWork (iw_log sample_inbox)) = None"
  using consumed_work_account [of "iw_log sample_inbox"]
  by (simp add: sample_inbox_def opened_world_def ended_def spliced_event_def accounting_def accounts_at_def map_filter_simps)

end
