(* ===== verification/TaskGraph.thy ===== *)
theory TaskGraph imports Prelude begin

text \<open>
  The shared task graph of an agent team (packages/experimental/agent-team/src): the durable
  task snapshot of types.ts and the validator of task-graph.ts, which every task event passes
  before it enters the replay state. A \<open>Map\<close> is an insertion-ordered association list; the
  two sets of the depth-first search are sets.
\<close>

section \<open>Tasks\<close>

datatype task_status = TPending | TInProgress | TCompleted | TDeleted

record team_task =
  tk_id :: string
  tk_revision :: int
  tk_subject :: string
  tk_description :: string
  tk_status :: task_status
  tk_ownerId :: "string option"
  tk_blockedBy :: "string list"
  tk_writeScopes :: "string list"

type_synonym task_map = "(string \<times> team_task) list"

text \<open>
  The errors the validator throws, with the violation each carries. \<open>OutOfFuel\<close> is not one of
  them: it marks the end of the recursion budget, and no call of the validator ends with it.
\<close>

datatype graph_violation = VMissing | VDuplicate | VCycle

datatype graph_error =
    SelfBlock string
  | RepeatedBlocker string string
  | MissingBlocker string string
  | CycleThrough string
  | OutOfFuel

fun violation :: "graph_error \<Rightarrow> graph_violation" where
  "violation (RepeatedBlocker _ _) = VDuplicate"
| "violation (MissingBlocker _ _) = VMissing"
| "violation _ = VCycle"

section \<open>The validator\<close>

fun check_blockers :: "task_map \<Rightarrow> string \<Rightarrow> string set \<Rightarrow> string list \<Rightarrow> graph_error + unit" where
  "check_blockers tasks i seen [] = Inr ()"
| "check_blockers tasks i seen (b # bs) =
     (if b = i then Inl (SelfBlock i)
      else if b \<in> seen then Inl (RepeatedBlocker i b)
      else case map_of tasks b of
          None \<Rightarrow> Inl (MissingBlocker i b)
        | Some blocker \<Rightarrow>
            if tk_status blocker = TDeleted then Inl (MissingBlocker i b)
            else check_blockers tasks i (insert b seen) bs)"

fun check_tasks :: "task_map \<Rightarrow> team_task list \<Rightarrow> graph_error + unit" where
  "check_tasks tasks [] = Inr ()"
| "check_tasks tasks (t # ts) =
     (if tk_status t = TDeleted then check_tasks tasks ts
      else rbind (check_blockers tasks (tk_id t) {} (tk_blockedBy t)) (\<lambda>_. check_tasks tasks ts))"

record marks =
  visiting :: "string set"
  visited :: "string set"

definition live_blockers :: "task_map \<Rightarrow> string \<Rightarrow> string list option" where
  "live_blockers tasks i =
     (case map_of tasks i of
        None \<Rightarrow> None
      | Some t \<Rightarrow> if tk_status t = TDeleted then None else Some (tk_blockedBy t))"

primrec visit :: "nat \<Rightarrow> task_map \<Rightarrow> string \<Rightarrow> marks \<Rightarrow> graph_error + marks" where
  "visit 0 tasks i m = Inl OutOfFuel"
| "visit (Suc n) tasks i m =
     (if i \<in> visiting m then Inl (CycleThrough i)
      else if i \<in> visited m then Inr m
      else case live_blockers tasks i of
          None \<Rightarrow> Inr m
        | Some blockers \<Rightarrow>
            rbind (run_steps (\<lambda>m b. visit n tasks b m) (m\<lparr>visiting := insert i (visiting m)\<rparr>) blockers)
              (\<lambda>m'. Inr \<lparr>visiting = visiting m' - {i}, visited = insert i (visited m')\<rparr>))"

text \<open>The recursion budget is one more than the number of tasks.\<close>

definition visit_all :: "task_map \<Rightarrow> graph_error + marks" where
  "visit_all tasks =
     run_steps (\<lambda>m t. visit (Suc (length tasks)) tasks (tk_id t) m) \<lparr>visiting = {}, visited = {}\<rparr>
       (map_values tasks)"

definition assertTaskGraphCandidate :: "task_map \<Rightarrow> team_task \<Rightarrow> graph_error + unit" where
  "assertTaskGraphCandidate current candidate =
     (let tasks = map_set (tk_id candidate) candidate current
      in rbind (check_tasks tasks (map_values tasks)) (\<lambda>_. rbind (visit_all tasks) (\<lambda>_. Inr ())))"

section \<open>What the validator should accept\<close>

text \<open>The dependency relation between tasks that are not deleted, and the graphs it may form.\<close>

definition blocked_by :: "task_map \<Rightarrow> (string \<times> string) set" where
  "blocked_by tasks = {(i, b). \<exists>bs. live_blockers tasks i = Some bs \<and> b \<in> set bs}"

definition live :: "task_map \<Rightarrow> string set" where
  "live tasks = {i. live_blockers tasks i \<noteq> None}"

definition graph_ok :: "task_map \<Rightarrow> bool" where
  "graph_ok tasks \<longleftrightarrow>
     (\<forall>i bs. live_blockers tasks i = Some bs \<longrightarrow> distinct bs \<and> set bs \<subseteq> live tasks)
     \<and> acyclic (blocked_by tasks)"

text \<open>Each task of the map stands under its own identity.\<close>

definition keyed :: "task_map \<Rightarrow> bool" where
  "keyed tasks \<longleftrightarrow> distinct (map_keys tasks) \<and> (\<forall>(k, t) \<in> set tasks. tk_id t = k)"

lemma keyed_Nil [simp]: "keyed []"
  by (simp add: keyed_def)

lemma keyed_map_set [simp]: "keyed tasks \<Longrightarrow> keyed (map_set (tk_id t) t tasks)"
  by (auto simp: keyed_def dest!: set_map_set)

lemma keyed_lookup: "keyed tasks \<Longrightarrow> t \<in> set (map_values tasks) \<longleftrightarrow> map_of tasks (tk_id t) = Some t"
  by (force simp: keyed_def dest: map_of_SomeD)

lemma keyed_id: "keyed tasks \<Longrightarrow> map_of tasks i = Some t \<Longrightarrow> tk_id t = i"
  by (auto simp: keyed_def dest: map_of_SomeD)

lemma live_blockers_eq:
  "live_blockers tasks i = Some bs \<longleftrightarrow>
     (\<exists>t. map_of tasks i = Some t \<and> tk_status t \<noteq> TDeleted \<and> tk_blockedBy t = bs)"
  by (auto simp: live_blockers_def split: option.splits if_splits)

lemma live_iff: "i \<in> live tasks \<longleftrightarrow> (\<exists>t. map_of tasks i = Some t \<and> tk_status t \<noteq> TDeleted)"
  by (auto simp: live_def live_blockers_def split: option.splits if_splits)

lemma live_keys: "live tasks \<subseteq> set (map_keys tasks)"
  by (force simp: live_iff dest!: map_of_SomeD)

lemma finite_live [simp]: "finite (live tasks)"
  using live_keys by (rule finite_subset) simp

lemma card_live: "card (live tasks) \<le> length tasks"
proof -
  have "card (live tasks) \<le> card (set (map_keys tasks))" by (intro card_mono live_keys) simp_all
  also have "\<dots> \<le> length tasks" using card_length [of "map_keys tasks"] by simp
  finally show ?thesis .
qed

section \<open>The first pass\<close>

lemma check_blockers_ok:
  "check_blockers tasks i seen bs = Inr u \<longleftrightarrow>
     i \<notin> set bs \<and> distinct bs \<and> set bs \<inter> seen = {} \<and> set bs \<subseteq> live tasks"
  by (induction tasks i seen bs rule: check_blockers.induct)
    (auto simp: live_iff split: option.splits)

lemma check_tasks_ok:
  "check_tasks tasks ts = Inr u \<longleftrightarrow>
     (\<forall>t \<in> set ts. tk_status t \<noteq> TDeleted \<longrightarrow>
        tk_id t \<notin> set (tk_blockedBy t) \<and> distinct (tk_blockedBy t) \<and> set (tk_blockedBy t) \<subseteq> live tasks)"
  by (induction tasks ts rule: check_tasks.induct) (auto simp: result_simps check_blockers_ok)

lemma check_blockers_error:
  assumes "check_blockers tasks i seen bs = Inl e"
  shows "(e = SelfBlock i \<and> i \<in> set bs)
    \<or> (\<exists>b. e = RepeatedBlocker i b \<and> b \<in> set bs \<and> (b \<in> seen \<or> \<not> distinct bs))
    \<or> (\<exists>b. e = MissingBlocker i b \<and> b \<in> set bs \<and> b \<notin> live tasks)"
  using assms
  by (induction tasks i seen bs rule: check_blockers.induct)
    (auto simp: live_iff split: option.splits if_splits)

lemma check_tasks_error:
  assumes "check_tasks tasks ts = Inl e"
  shows "\<exists>t \<in> set ts. tk_status t \<noteq> TDeleted
    \<and> check_blockers tasks (tk_id t) {} (tk_blockedBy t) = Inl e"
  using assms by (induction tasks ts rule: check_tasks.induct) (auto simp: result_simps split: if_splits)

section \<open>The depth-first search\<close>

text \<open>
  What holds of the marks between two calls: the visited tasks are live, closed under blockers
  and on no cycle, and no visited task is on the path.
\<close>

definition marks_ok :: "task_map \<Rightarrow> marks \<Rightarrow> bool" where
  "marks_ok tasks m \<longleftrightarrow> visited m \<subseteq> live tasks \<and> visited m \<inter> visiting m = {}
     \<and> (\<forall>v \<in> visited m. \<forall>w. (v, w) \<in> blocked_by tasks \<longrightarrow> w \<in> visited m \<or> w \<notin> live tasks)
     \<and> (\<forall>v \<in> visited m. (v, v) \<notin> (blocked_by tasks)\<^sup>+)"

definition marks_step :: "task_map \<Rightarrow> marks \<Rightarrow> string list \<Rightarrow> marks \<Rightarrow> bool" where
  "marks_step tasks m is m' \<longleftrightarrow> marks_ok tasks m' \<and> visiting m' = visiting m
     \<and> visited m \<subseteq> visited m' \<and> (\<forall>i \<in> set is. i \<in> visited m' \<or> i \<notin> live tasks)"

lemma blocked_by_live: "(v, w) \<in> blocked_by tasks \<Longrightarrow> v \<in> live tasks"
  by (auto simp: blocked_by_def live_def)

lemma trancl_live: "(v, w) \<in> (blocked_by tasks)\<^sup>+ \<Longrightarrow> v \<in> live tasks"
  by (erule converse_tranclE) (auto dest: blocked_by_live)

lemma visited_closed:
  assumes "(v, w) \<in> (blocked_by tasks)\<^sup>*" and "marks_ok tasks m" and "v \<in> visited m" and "w \<in> live tasks"
  shows "w \<in> visited m"
  using assms(1,4)
proof (induction rule: rtrancl_induct)
  case (step y z)
  then have "y \<in> live tasks" by (auto dest: blocked_by_live)
  with step have "y \<in> visited m" by simp
  with step assms(2) show ?case by (auto simp: marks_ok_def)
qed (use assms in simp)

lemma run_marks:
  assumes step: "\<And>m m' b. marks_ok tasks m \<Longrightarrow> f m b = Inr m' \<Longrightarrow> marks_step tasks m [g b] m'"
    and ok: "marks_ok tasks m" and run: "run_steps f m bs = Inr m'"
  shows "marks_step tasks m (map g bs) m'"
  using ok run
proof (induction bs arbitrary: m)
  case Nil
  then show ?case by (simp add: marks_step_def)
next
  case (Cons b bs)
  then obtain t where t: "f m b = Inr t" "run_steps f t bs = Inr m'" by (auto simp: result_simps)
  have 1: "marks_step tasks m [g b] t" using step Cons.prems(1) t(1) by blast
  then have "marks_step tasks t (map g bs) m'" using Cons.IH t(2) by (auto simp: marks_step_def)
  with 1 show ?case by (auto simp: marks_step_def)
qed

lemma finish_visit:
  assumes ok: "marks_ok tasks m" and fresh: "i \<notin> visiting m" "i \<notin> visited m"
    and bs: "live_blockers tasks i = Some bs"
    and st: "marks_step tasks (m\<lparr>visiting := insert i (visiting m)\<rparr>) bs m1"
  shows "marks_step tasks m [i] \<lparr>visiting = visiting m1 - {i}, visited = insert i (visited m1)\<rparr>"
proof -
  have m1: "marks_ok tasks m1" "visiting m1 = insert i (visiting m)" "visited m \<subseteq> visited m1"
      "\<forall>b \<in> set bs. b \<in> visited m1 \<or> b \<notin> live tasks"
    using st by (simp_all add: marks_step_def)
  have i: "i \<in> live tasks" using bs by (simp add: live_def)
  have new: "i \<notin> visited m1" using m1(1,2) by (auto simp: marks_ok_def)
  have "(i, i) \<notin> (blocked_by tasks)\<^sup>+"
  proof
    assume "(i, i) \<in> (blocked_by tasks)\<^sup>+"
    then obtain w where w: "(i, w) \<in> blocked_by tasks" "(w, i) \<in> (blocked_by tasks)\<^sup>*"
      by (meson converse_tranclE r_into_rtrancl rtrancl.rtrancl_refl trancl_into_rtrancl)
    have "w \<in> live tasks"
      using w i by (metis converse_rtranclE blocked_by_live)
    with w(1) bs m1(4) have "w \<in> visited m1" by (auto simp: blocked_by_def)
    from visited_closed [OF w(2) m1(1) this i] new show False by simp
  qed
  with m1 i new fresh bs show ?thesis
    by (auto simp: marks_step_def marks_ok_def blocked_by_def)
qed

lemma visit_ok:
  "marks_ok tasks m \<Longrightarrow> visit n tasks i m = Inr m' \<Longrightarrow> marks_step tasks m [i] m'"
proof (induction n arbitrary: i m m')
  case (Suc n)
  note ok = Suc.prems(1) and run = Suc.prems(2)
  have go: "marks_step tasks m [i] m'"
    if new: "i \<notin> visiting m" "i \<notin> visited m" and bs: "live_blockers tasks i = Some bs" for bs
  proof -
    let ?m = "m\<lparr>visiting := insert i (visiting m)\<rparr>"
    obtain m1 where m1: "run_steps (\<lambda>m b. visit n tasks b m) ?m bs = Inr m1"
        "m' = \<lparr>visiting = visiting m1 - {i}, visited = insert i (visited m1)\<rparr>"
      using run new bs by (auto simp: result_simps)
    have "marks_ok tasks ?m" using ok new(2) by (auto simp: marks_ok_def)
    then have "marks_step tasks ?m (map (\<lambda>b. b) bs) m1"
      using m1(1) Suc.IH by (intro run_marks [where f = "\<lambda>m b. visit n tasks b m"])
    then show ?thesis using finish_visit [OF ok new bs] m1(2) by simp
  qed
  have "i \<notin> visiting m" using run by auto
  moreover have "m' = m" if "i \<in> visited m \<or> i \<notin> live tasks"
    using run that calculation by (auto simp: live_def split: if_splits)
  ultimately show ?case using go ok
    by (cases "i \<in> visited m \<or> i \<notin> live tasks") (auto simp: marks_step_def live_def)
qed simp

lemma run_steps_error:
  assumes "run_steps f s es = Inl x" and "P s"
    and "\<And>s e s'. P s \<Longrightarrow> e \<in> set es \<Longrightarrow> f s e = Inr s' \<Longrightarrow> P s'"
  shows "\<exists>s e. P s \<and> e \<in> set es \<and> f s e = Inl x"
  using assms
proof (induction es arbitrary: s)
  case (Cons e es)
  show ?case
  proof (cases "f s e")
    case (Inl y)
    with Cons.prems show ?thesis by auto
  next
    case (Inr t)
    with Cons.prems have "P t" "run_steps f t es = Inl x" by auto
    with Cons.IH Cons.prems(3) show ?thesis by (metis list.set_intros(2))
  qed
qed simp

text \<open>On its way to a task the search reports a cycle only when there is one.\<close>

definition on_path :: "task_map \<Rightarrow> string set \<Rightarrow> marks \<Rightarrow> bool" where
  "on_path tasks path m \<longleftrightarrow> marks_ok tasks m \<and> visiting m = path"

lemma on_path_visit: "on_path tasks path m \<Longrightarrow> visit n tasks i m = Inr m' \<Longrightarrow> on_path tasks path m'"
  using visit_ok [of tasks m n i m'] by (simp add: on_path_def marks_step_def)

lemma visit_error:
  assumes "on_path tasks path m" and "visit (Suc n) tasks i m = Inl e"
  shows "(e = CycleThrough i \<and> i \<in> path)
    \<or> (i \<notin> path \<and> i \<in> live tasks
        \<and> (\<exists>m' b. on_path tasks (insert i path) m' \<and> (i, b) \<in> blocked_by tasks \<and> visit n tasks b m' = Inl e))"
proof (cases "i \<in> path")
  case True
  with assms show ?thesis by (auto simp: on_path_def)
next
  case False
  with assms obtain bs where i: "i \<notin> visited m" and bs: "live_blockers tasks i = Some bs"
    by (auto simp: on_path_def split: if_splits option.splits)
  let ?m = "m\<lparr>visiting := insert i (visiting m)\<rparr>"
  have "run_steps (\<lambda>m b. visit n tasks b m) ?m bs = Inl e"
    using assms False i bs by (auto simp: result_simps on_path_def)
  moreover have "on_path tasks (insert i path) ?m"
    using assms(1) i by (auto simp: marks_ok_def on_path_def)
  ultimately have "\<exists>m' b. on_path tasks (insert i path) m' \<and> b \<in> set bs \<and> visit n tasks b m' = Inl e"
    by (rule run_steps_error) (rule on_path_visit)
  with False bs show ?thesis by (auto simp: live_def blocked_by_def)
qed

lemma visit_cycle:
  assumes "on_path tasks path m" and "\<forall>v \<in> path. (v, i) \<in> (blocked_by tasks)\<^sup>+"
    and "visit n tasks i m = Inl e"
  shows "e = OutOfFuel \<or> (\<exists>x. e = CycleThrough x \<and> (x, x) \<in> (blocked_by tasks)\<^sup>+)"
  using assms
proof (induction n arbitrary: i m path)
  case (Suc n)
  from visit_error [OF Suc.prems(1,3)] show ?case
  proof (elim disjE conjE exE)
    assume "e = CycleThrough i" "i \<in> path"
    with Suc.prems(2) show ?thesis by blast
  next
    fix m' b
    assume "on_path tasks (insert i path) m'" "(i, b) \<in> blocked_by tasks" "visit n tasks b m' = Inl e"
    moreover from this(2) Suc.prems(2) have "\<forall>v \<in> insert i path. (v, b) \<in> (blocked_by tasks)\<^sup>+"
      by (auto intro: trancl_into_trancl)
    ultimately show ?thesis using Suc.IH by blast
  qed
qed simp

text \<open>The budget is enough: the path grows inside the finite set of live tasks.\<close>

lemma visit_fuel:
  assumes "on_path tasks path m" and "path \<subseteq> live tasks" and "card (live tasks - path) < n"
  shows "visit n tasks i m \<noteq> Inl OutOfFuel"
  using assms
proof (induction n arbitrary: i m path)
  case (Suc n)
  show ?case
  proof
    assume "visit (Suc n) tasks i m = Inl OutOfFuel"
    from visit_error [OF Suc.prems(1) this] obtain m' b where
      i: "i \<notin> path" "i \<in> live tasks" and b: "on_path tasks (insert i path) m'" "visit n tasks b m' = Inl OutOfFuel"
      by auto
    have "card (live tasks - insert i path) < card (live tasks - path)"
      using i by (intro psubset_card_mono) auto
    with Suc.prems have "card (live tasks - insert i path) < n" by simp
    with Suc.IH [OF b(1)] Suc.prems(2) i b(2) show False by auto
  qed
qed simp

section \<open>The whole validator\<close>

lemma empty_path: "on_path tasks {} \<lparr>visiting = {}, visited = {}\<rparr>"
  by (simp add: on_path_def marks_ok_def)

lemma visit_all_error:
  assumes "visit_all tasks = Inl e"
  shows "\<exists>x. e = CycleThrough x \<and> (x, x) \<in> (blocked_by tasks)\<^sup>+"
proof -
  have "\<exists>m t. on_path tasks {} m \<and> t \<in> set (map_values tasks)
      \<and> visit (Suc (length tasks)) tasks (tk_id t) m = Inl e"
    using assms [unfolded visit_all_def] empty_path by (rule run_steps_error) (rule on_path_visit)
  then obtain m t where m: "on_path tasks {} m" and "t \<in> set (map_values tasks)"
      and e: "visit (Suc (length tasks)) tasks (tk_id t) m = Inl e" by blast
  have "e \<noteq> OutOfFuel"
    using visit_fuel [OF m, of "Suc (length tasks)"] e card_live [of tasks] by auto
  with visit_cycle [OF m _ e] show ?thesis by simp
qed

lemma visit_all_ok:
  assumes "keyed tasks" and "visit_all tasks = Inr m"
  shows "acyclic (blocked_by tasks)"
proof -
  have "marks_step tasks \<lparr>visiting = {}, visited = {}\<rparr> (map tk_id (map_values tasks)) m"
  proof (rule run_marks)
    show "marks_ok tasks \<lparr>visiting = {}, visited = {}\<rparr>" using empty_path by (simp add: on_path_def)
    show "run_steps (\<lambda>m t. visit (Suc (length tasks)) tasks (tk_id t) m) \<lparr>visiting = {}, visited = {}\<rparr>
        (map_values tasks) = Inr m"
      using assms(2) by (simp only: visit_all_def)
  qed (rule visit_ok)
  then have m: "marks_ok tasks m" and all: "\<forall>t \<in> set (map_values tasks). tk_id t \<in> visited m \<or> tk_id t \<notin> live tasks"
    by (auto simp: marks_step_def)
  have "i \<in> visited m" if i: "i \<in> live tasks" for i
  proof -
    from i obtain t where "map_of tasks i = Some t" by (auto simp: live_iff)
    with keyed_id [OF assms(1)] keyed_lookup [OF assms(1), of t] all i show ?thesis by auto
  qed
  then show ?thesis
    using m trancl_live [of _ _ tasks] unfolding acyclic_def marks_ok_def by blast
qed

lemma self_cycle: "live_blockers tasks i = Some bs \<Longrightarrow> i \<in> set bs \<Longrightarrow> (i, i) \<in> (blocked_by tasks)\<^sup>+"
  by (auto simp: blocked_by_def)

lemma check_tasks_graph:
  assumes "keyed tasks"
  shows "is_ok (check_tasks tasks (map_values tasks)) \<longleftrightarrow>
    (\<forall>i bs. live_blockers tasks i = Some bs \<longrightarrow> i \<notin> set bs \<and> distinct bs \<and> set bs \<subseteq> live tasks)"
  unfolding is_ok_iff check_tasks_ok live_blockers_eq
  using keyed_lookup [OF assms] keyed_id [OF assms] by blast

text \<open>
  C28. The validator accepts a candidate exactly when, with the candidate in place, every live
  task names each blocker once, every blocker is a live task, and no task waits for itself
  through any chain of blockers.
\<close>

theorem graph_accepted_iff:
  assumes "keyed current"
  shows "assertTaskGraphCandidate current candidate = Inr ()
    \<longleftrightarrow> graph_ok (map_set (tk_id candidate) candidate current)"
proof -
  let ?tasks = "map_set (tk_id candidate) candidate current"
  have k: "keyed ?tasks" using assms by simp
  have "assertTaskGraphCandidate current candidate = Inr () \<longleftrightarrow>
      is_ok (check_tasks ?tasks (map_values ?tasks)) \<and> (\<exists>m. visit_all ?tasks = Inr m)"
    by (auto simp: assertTaskGraphCandidate_def Let_def result_simps is_ok_iff)
  also have "(\<exists>m. visit_all ?tasks = Inr m) \<longleftrightarrow> acyclic (blocked_by ?tasks)"
    using visit_all_ok [OF k] visit_all_error [of ?tasks]
    by (cases "visit_all ?tasks") (auto simp: acyclic_def)
  also have "is_ok (check_tasks ?tasks (map_values ?tasks)) \<and> acyclic (blocked_by ?tasks) \<longleftrightarrow> graph_ok ?tasks"
    unfolding check_tasks_graph [OF k] graph_ok_def
    using self_cycle [where tasks = ?tasks] unfolding acyclic_def by meson
  finally show ?thesis .
qed

text \<open>
  A rejection names a real defect: a missing blocker is no live task, a repeated one is
  named twice, and a cycle is one of the dependency relation. The search never runs out of its
  recursion budget.
\<close>

theorem graph_error_sound:
  assumes "keyed current" and "assertTaskGraphCandidate current candidate = Inl e"
  shows "case e of
      SelfBlock i \<Rightarrow> (i, i) \<in> blocked_by (map_set (tk_id candidate) candidate current)
    | RepeatedBlocker i b \<Rightarrow>
        \<exists>bs. live_blockers (map_set (tk_id candidate) candidate current) i = Some bs \<and> b \<in> set bs \<and> \<not> distinct bs
    | MissingBlocker i b \<Rightarrow> (i, b) \<in> blocked_by (map_set (tk_id candidate) candidate current)
        \<and> b \<notin> live (map_set (tk_id candidate) candidate current)
    | CycleThrough i \<Rightarrow> (i, i) \<in> (blocked_by (map_set (tk_id candidate) candidate current))\<^sup>+
    | OutOfFuel \<Rightarrow> False"
proof -
  define tasks where "tasks = map_set (tk_id candidate) candidate current"
  have k: "keyed tasks" using assms(1) by (simp add: tasks_def)
  have "check_tasks tasks (map_values tasks) = Inl e \<or> visit_all tasks = Inl e"
    using assms(2) by (auto simp: assertTaskGraphCandidate_def Let_def result_simps tasks_def [symmetric])
  then show ?thesis
    unfolding tasks_def [symmetric]
  proof
    assume "visit_all tasks = Inl e"
    from visit_all_error [OF this] show "case e of
      SelfBlock i \<Rightarrow> (i, i) \<in> blocked_by tasks
    | RepeatedBlocker i b \<Rightarrow> \<exists>bs. live_blockers tasks i = Some bs \<and> b \<in> set bs \<and> \<not> distinct bs
    | MissingBlocker i b \<Rightarrow> (i, b) \<in> blocked_by tasks \<and> b \<notin> live tasks
    | CycleThrough i \<Rightarrow> (i, i) \<in> (blocked_by tasks)\<^sup>+
    | OutOfFuel \<Rightarrow> False" by auto
  next
    assume "check_tasks tasks (map_values tasks) = Inl e"
    then obtain t where "t \<in> set (map_values tasks)" "tk_status t \<noteq> TDeleted"
        and e: "check_blockers tasks (tk_id t) {} (tk_blockedBy t) = Inl e"
      using check_tasks_error by blast
    then have "live_blockers tasks (tk_id t) = Some (tk_blockedBy t)"
      using keyed_lookup [OF k, of t] by (simp add: live_blockers_def)
    with check_blockers_error [OF e] show "case e of
      SelfBlock i \<Rightarrow> (i, i) \<in> blocked_by tasks
    | RepeatedBlocker i b \<Rightarrow> \<exists>bs. live_blockers tasks i = Some bs \<and> b \<in> set bs \<and> \<not> distinct bs
    | MissingBlocker i b \<Rightarrow> (i, b) \<in> blocked_by tasks \<and> b \<notin> live tasks
    | CycleThrough i \<Rightarrow> (i, i) \<in> (blocked_by tasks)\<^sup>+
    | OutOfFuel \<Rightarrow> False" by (auto simp: blocked_by_def)
  qed
qed

text \<open>Two tasks, and candidates that chain them and that close a cycle.\<close>

definition plain_task :: "string \<Rightarrow> string list \<Rightarrow> team_task" where
  "plain_task i blockers = \<lparr>tk_id = i, tk_revision = 1, tk_subject = [], tk_description = [],
     tk_status = TPending, tk_ownerId = None, tk_blockedBy = blockers, tk_writeScopes = []\<rparr>"

definition sample_graph :: task_map where
  "sample_graph = [(''a'', plain_task ''a'' []), (''b'', plain_task ''b'' [''a''])]"

lemma sample_keyed: "keyed sample_graph"
  by (simp add: keyed_def sample_graph_def plain_task_def)

lemma graph_accepted_iff_witness:
  "graph_ok (map_set ''c'' (plain_task ''c'' [''b'', ''a'']) sample_graph)
   \<and> \<not> graph_ok (map_set ''a'' (plain_task ''a'' [''b'']) sample_graph)"
proof -
  have "assertTaskGraphCandidate sample_graph (plain_task ''c'' [''b'', ''a'']) = Inr ()"
    and "assertTaskGraphCandidate sample_graph (plain_task ''a'' [''b'']) \<noteq> Inr ()" by code_simp+
  then show ?thesis
    using graph_accepted_iff [OF sample_keyed, of "plain_task ''c'' [''b'', ''a'']"]
      graph_accepted_iff [OF sample_keyed, of "plain_task ''a'' [''b'']"]
    by (simp add: plain_task_def)
qed

lemma graph_error_sound_witness:
  "(''a'', ''a'') \<in> (blocked_by (map_set ''a'' (plain_task ''a'' [''b'']) sample_graph))\<^sup>+"
proof -
  have "assertTaskGraphCandidate sample_graph (plain_task ''a'' [''b'']) = Inl (CycleThrough ''a'')" by code_simp
  from graph_error_sound [OF sample_keyed this] show ?thesis by (simp add: plain_task_def)
qed

end
