(* ===== verification/TeamFold.thy ===== *)
theory TeamFold imports TaskGraph Goal begin

text \<open>
  The strict replay fold of an agent team (packages/experimental/agent-team/src/fold.ts): the
  durable records of types.ts, the schemas that decode them from the log, and the state the
  four team events build. The events live in the lead's session log, each as
  \<open>Plugin (type, payload)\<close>. A schema of the validation library is a decoder from JSON, \<open>None\<close>
  its failure; a strict object schema refuses keys it does not name. Message content is kept
  as the JSON its schema accepts.
\<close>

section \<open>Durable records\<close>

datatype member_phase = Provisioning | MemberActive | MemberFailed

datatype context_mode = FreshContext | ForkContext

record team_member =
  mb_id :: string
  mb_name :: string
  mb_description :: string
  mb_provider :: string
  mb_context :: context_mode
  mb_phase :: member_phase
  mb_error :: "string option"

datatype delivery_mode = Quiet | Wakeup

record team_message =
  tm_id :: string
  tm_senderId :: string
  tm_senderName :: string
  tm_targetId :: string
  tm_delivery :: delivery_mode
  tm_content :: "json list"

datatype team_change =
    MemberChange team_member
  | TaskChange team_task
  | Queued team_message
  | Delivered string string

type_synonym team_log = "(string \<times> json) event list"

section \<open>Schemas\<close>

definition strict_keys :: "string list \<Rightarrow> json \<Rightarrow> bool" where
  "strict_keys ks v \<longleftrightarrow> is_record v \<and> list_all (\<lambda>k. k \<in> set ks) (object_keys v)"

fun z_string :: "json option \<Rightarrow> string option" where
  "z_string (Some (JStr s)) = Some s"
| "z_string _ = None"

definition z_id :: "json option \<Rightarrow> string option" where
  "z_id v = Option.bind (z_string v) (\<lambda>s. if s = [] then None else Some s)"

definition z_int :: "int \<Rightarrow> json option \<Rightarrow> int option" where
  "z_int least v = (if isSafeInteger v \<and> least \<le> int_of v then Some (int_of v) else None)"

definition z_optional :: "(json option \<Rightarrow> 'a option) \<Rightarrow> json option \<Rightarrow> 'a option option" where
  "z_optional f v = (if v = None then Some None else map_option Some (f v))"

definition z_enum :: "(string \<times> 'a) list \<Rightarrow> json option \<Rightarrow> 'a option" where
  "z_enum values v = Option.bind (z_string v) (map_of values)"

fun z_all :: "('a \<Rightarrow> 'b option) \<Rightarrow> 'a list \<Rightarrow> 'b list option" where
  "z_all f [] = Some []"
| "z_all f (x # xs) = Option.bind (f x) (\<lambda>y. map_option ((#) y) (z_all f xs))"

fun z_array :: "(json option \<Rightarrow> 'a option) \<Rightarrow> json option \<Rightarrow> 'a list option" where
  "z_array f (Some (JArr xs)) = z_all (\<lambda>x. f (Some x)) xs"
| "z_array f _ = None"

text \<open>
  \<open>/^task-(\d+)$/u\<close> and the number of its group. The number is exact: a decimal numeral above
  the safe integers rounds to at least \<open>2 ^ 53\<close>, so the safety test of the schema sees the
  same answer on the exact value.
\<close>

definition digit :: "char \<Rightarrow> bool" where
  "digit c \<longleftrightarrow> 48 \<le> (of_char c :: nat) \<and> (of_char c :: nat) \<le> 57"

definition digits_value :: "string \<Rightarrow> nat" where
  "digits_value s = foldl (\<lambda>n c. 10 * n + (of_char c - 48)) 0 s"

definition numeric_task_id :: "string \<Rightarrow> int option" where
  "numeric_task_id s =
     (if take 5 s = ''task-'' \<and> drop 5 s \<noteq> [] \<and> list_all digit (drop 5 s)
      then Some (int (digits_value (drop 5 s))) else None)"

definition z_task_id :: "json option \<Rightarrow> string option" where
  "z_task_id v = Option.bind (z_id v) (\<lambda>s.
     case numeric_task_id s of None \<Rightarrow> Some s | Some n \<Rightarrow> if safe_int n then Some s else None)"

text \<open>The content block schema: the core variants exactly, other tags with any fields.\<close>

definition core_block_types :: "string list" where
  "core_block_types = [''text'', ''reasoning'', ''image'', ''tool-call'', ''tool-result'']"

definition attachment_ok :: "json \<Rightarrow> bool" where
  "attachment_ok v \<longleftrightarrow>
     strict_keys [''attachmentId'', ''mediaType'', ''bytes'', ''width'', ''height'', ''name''] v
     \<and> z_id (get_prop ''attachmentId'' v) \<noteq> None
     \<and> z_enum [(''image/png'', ()), (''image/jpeg'', ()), (''image/webp'', ()), (''image/gif'', ())]
         (get_prop ''mediaType'' v) \<noteq> None
     \<and> z_int 0 (get_prop ''bytes'' v) \<noteq> None
     \<and> z_int 1 (get_prop ''width'' v) \<noteq> None
     \<and> z_int 1 (get_prop ''height'' v) \<noteq> None
     \<and> z_optional z_string (get_prop ''name'' v) \<noteq> None"

function (sequential) block_ok :: "json \<Rightarrow> bool" where
  "block_ok (JObj kvs) =
     (case z_id (map_of kvs ''type'') of
        None \<Rightarrow> False
      | Some t \<Rightarrow>
          if t = ''text'' \<or> t = ''reasoning'' then
            strict_keys [''type'', ''text''] (JObj kvs) \<and> z_string (map_of kvs ''text'') \<noteq> None
          else if t = ''image'' then
            strict_keys [''type'', ''attachment''] (JObj kvs)
            \<and> (case map_of kvs ''attachment'' of None \<Rightarrow> False | Some a \<Rightarrow> attachment_ok a)
          else if t = ''tool-call'' then
            strict_keys [''type'', ''id'', ''name'', ''arguments''] (JObj kvs)
            \<and> z_id (map_of kvs ''id'') \<noteq> None \<and> z_string (map_of kvs ''name'') \<noteq> None
            \<and> z_string (map_of kvs ''arguments'') \<noteq> None
          else if t = ''tool-result'' then
            strict_keys [''type'', ''toolCallId'', ''content'', ''isError''] (JObj kvs)
            \<and> z_id (map_of kvs ''toolCallId'') \<noteq> None
            \<and> (case map_of kvs ''content'' of Some (JArr bs) \<Rightarrow> list_all block_ok bs | _ \<Rightarrow> False)
            \<and> (case map_of kvs ''isError'' of None \<Rightarrow> True | Some (JBool _) \<Rightarrow> True | _ \<Rightarrow> False)
          else True)"
| "block_ok _ = False"
  by pat_completeness auto
termination
proof (relation "measure size", goal_cases)
  case (2 kvs t v xs b)
  then have kv: "(''content'', JArr xs) \<in> set kvs" and b: "b \<in> set xs" by (auto dest: map_of_SomeD)
  from b have "size b < size (JArr xs)" by (auto simp: less_Suc_eq_le intro: size_list_estimation')
  also have "size (JArr xs) \<le> size_list (size_prod (\<lambda>_. 0) size) kvs"
    using kv by (rule size_list_estimation') simp
  finally show ?case by simp
qed simp

definition z_block :: "json option \<Rightarrow> json option" where
  "z_block v = (case v of Some b \<Rightarrow> if block_ok b then Some b else None | None \<Rightarrow> None)"

section \<open>Decoding the records\<close>

definition phase_values :: "(string \<times> member_phase) list" where
  "phase_values = [(''provisioning'', Provisioning), (''active'', MemberActive), (''failed'', MemberFailed)]"

definition context_values :: "(string \<times> context_mode) list" where
  "context_values = [(''fresh'', FreshContext), (''fork'', ForkContext)]"

definition status_values :: "(string \<times> task_status) list" where
  "status_values = [(''pending'', TPending), (''in_progress'', TInProgress),
     (''completed'', TCompleted), (''deleted'', TDeleted)]"

definition delivery_values :: "(string \<times> delivery_mode) list" where
  "delivery_values = [(''quiet'', Quiet), (''wakeup'', Wakeup)]"

definition decode_member :: "json \<Rightarrow> team_member option" where
  "decode_member v =
     (if \<not> strict_keys [''id'', ''name'', ''description'', ''provider'', ''context'', ''phase'', ''error''] v then None
      else
        Option.bind (z_id (get_prop ''id'' v)) (\<lambda>i.
        Option.bind (z_string (get_prop ''name'' v)) (\<lambda>n.
        Option.bind (z_string (get_prop ''description'' v)) (\<lambda>d.
        Option.bind (z_string (get_prop ''provider'' v)) (\<lambda>p.
        Option.bind (z_enum context_values (get_prop ''context'' v)) (\<lambda>c.
        Option.bind (z_enum phase_values (get_prop ''phase'' v)) (\<lambda>ph.
        Option.bind (z_optional z_string (get_prop ''error'' v)) (\<lambda>e.
          Some \<lparr>mb_id = i, mb_name = n, mb_description = d, mb_provider = p, mb_context = c,
                mb_phase = ph, mb_error = e\<rparr>))))))))"

definition decode_task :: "json \<Rightarrow> team_task option" where
  "decode_task v =
     (if \<not> strict_keys [''id'', ''revision'', ''subject'', ''description'', ''status'', ''ownerId'',
           ''blockedBy'', ''writeScopes''] v then None
      else
        Option.bind (z_task_id (get_prop ''id'' v)) (\<lambda>i.
        Option.bind (z_int 1 (get_prop ''revision'' v)) (\<lambda>r.
        Option.bind (z_string (get_prop ''subject'' v)) (\<lambda>s.
        Option.bind (z_string (get_prop ''description'' v)) (\<lambda>d.
        Option.bind (z_enum status_values (get_prop ''status'' v)) (\<lambda>st.
        Option.bind (z_optional z_id (get_prop ''ownerId'' v)) (\<lambda>ow.
        Option.bind (z_array z_task_id (get_prop ''blockedBy'' v)) (\<lambda>bs.
        Option.bind (z_array z_string (get_prop ''writeScopes'' v)) (\<lambda>ws.
          Some \<lparr>tk_id = i, tk_revision = r, tk_subject = s, tk_description = d, tk_status = st,
                tk_ownerId = ow, tk_blockedBy = bs, tk_writeScopes = ws\<rparr>)))))))))"

definition decode_message :: "json \<Rightarrow> team_message option" where
  "decode_message v =
     (if \<not> strict_keys [''id'', ''senderId'', ''senderName'', ''targetId'', ''delivery'', ''content''] v then None
      else
        Option.bind (z_id (get_prop ''id'' v)) (\<lambda>i.
        Option.bind (z_id (get_prop ''senderId'' v)) (\<lambda>s.
        Option.bind (z_string (get_prop ''senderName'' v)) (\<lambda>n.
        Option.bind (z_id (get_prop ''targetId'' v)) (\<lambda>t.
        Option.bind (z_enum delivery_values (get_prop ''delivery'' v)) (\<lambda>d.
        Option.bind (z_array z_block (get_prop ''content'' v)) (\<lambda>c.
          Some \<lparr>tm_id = i, tm_senderId = s, tm_senderName = n, tm_targetId = t,
                tm_delivery = d, tm_content = c\<rparr>)))))))"

text \<open>\<open>isTeamEvent\<close>, and the schema of each event type; the version is checked to be 1.\<close>

definition is_team_type :: "string \<Rightarrow> bool" where
  "is_team_type t \<longleftrightarrow> t = ''team/member'' \<or> t = ''team/task'' \<or> t = ''team/message/queued''
     \<or> t = ''team/message/delivered''"

definition envelope :: "string list \<Rightarrow> json \<Rightarrow> string option" where
  "envelope ks v =
     (if strict_keys (''version'' # ''teamId'' # ks) v \<and> get_prop ''version'' v = Some (JInt 1)
      then z_id (get_prop ''teamId'' v) else None)"

definition parseCurrentTeamEvent :: "string \<Rightarrow> json \<Rightarrow> (string \<times> team_change) option" where
  "parseCurrentTeamEvent t v =
     (if t = ''team/member'' then
        Option.bind (envelope [''member''] v) (\<lambda>team.
        Option.bind (get_prop ''member'' v) (\<lambda>m.
        Option.bind (decode_member m) (\<lambda>x. Some (team, MemberChange x))))
      else if t = ''team/task'' then
        Option.bind (envelope [''task''] v) (\<lambda>team.
        Option.bind (get_prop ''task'' v) (\<lambda>m.
        Option.bind (decode_task m) (\<lambda>x. Some (team, TaskChange x))))
      else if t = ''team/message/queued'' then
        Option.bind (envelope [''message''] v) (\<lambda>team.
        Option.bind (get_prop ''message'' v) (\<lambda>m.
        Option.bind (decode_message m) (\<lambda>x. Some (team, Queued x))))
      else
        Option.bind (envelope [''messageId'', ''targetId''] v) (\<lambda>team.
        Option.bind (z_id (get_prop ''messageId'' v)) (\<lambda>m.
        Option.bind (z_id (get_prop ''targetId'' v)) (\<lambda>target. Some (team, Delivered m target)))))"

section \<open>The fold\<close>

record team_state =
  ts_id :: string
  ts_members :: "(string \<times> team_member) list"
  ts_names :: "(string \<times> string) list"
  ts_tasks :: task_map
  ts_messages :: "(string \<times> team_message) list"
  ts_delivered :: "string set"
  ts_nextTaskNumber :: int

datatype team_error =
    InvalidPayload string
  | UnsupportedVersion int
  | NameReused string
  | MustBeginProvisioning string
  | IdentityChanged string
  | InvalidPhaseChange string
  | MustBeginAtOne string
  | RevisionGap string
  | TaskGraph graph_error
  | QueuedTwice string
  | DeliveredUnqueued string
  | TargetChanged string
  | DeliveredTwice string

definition emptyTeamFoldState :: "string \<Rightarrow> team_state" where
  "emptyTeamFoldState rootId = \<lparr>ts_id = rootId, ts_members = [], ts_names = [], ts_tasks = [],
     ts_messages = [], ts_delivered = {}, ts_nextTaskNumber = 1\<rparr>"

definition apply_member :: "team_state \<Rightarrow> team_member \<Rightarrow> team_error + team_state" where
  "apply_member st m =
     (if (case map_of (ts_names st) (mb_name m) of None \<Rightarrow> False | Some i \<Rightarrow> i \<noteq> mb_id m)
      then Inl (NameReused (mb_name m))
      else case map_of (ts_members st) (mb_id m) of
          None \<Rightarrow>
            if mb_phase m \<noteq> Provisioning then Inl (MustBeginProvisioning (mb_name m))
            else Inr (st\<lparr>ts_names := map_set (mb_name m) (mb_id m) (ts_names st),
                         ts_members := map_set (mb_id m) m (ts_members st)\<rparr>)
        | Some prior \<Rightarrow>
            if mb_name prior \<noteq> mb_name m \<or> mb_provider prior \<noteq> mb_provider m \<or> mb_context prior \<noteq> mb_context m
            then Inl (IdentityChanged (mb_id m))
            else if mb_phase prior \<noteq> Provisioning \<or> mb_phase m = Provisioning
            then Inl (InvalidPhaseChange (mb_name m))
            else Inr (st\<lparr>ts_members := map_set (mb_id m) m (ts_members st)\<rparr>))"

definition next_number :: "int \<Rightarrow> string \<Rightarrow> int" where
  "next_number n i = (case numeric_task_id i of None \<Rightarrow> n
     | Some k \<Rightarrow> max n (if k = max_safe then k else k + 1))"

definition apply_task :: "team_state \<Rightarrow> team_task \<Rightarrow> team_error + team_state" where
  "apply_task st t =
     rbind (case map_of (ts_tasks st) (tk_id t) of
         None \<Rightarrow> guard (tk_revision t = 1) (MustBeginAtOne (tk_id t))
       | Some prior \<Rightarrow> guard (tk_revision t = tk_revision prior + 1) (RevisionGap (tk_id t))) (\<lambda>_.
     case assertTaskGraphCandidate (ts_tasks st) t of
       Inl e \<Rightarrow> Inl (TaskGraph e)
     | Inr _ \<Rightarrow> Inr (st\<lparr>ts_nextTaskNumber := next_number (ts_nextTaskNumber st) (tk_id t),
                          ts_tasks := map_set (tk_id t) t (ts_tasks st)\<rparr>))"

fun applyTeamChange :: "team_state \<Rightarrow> team_change \<Rightarrow> team_error + team_state" where
  "applyTeamChange st (MemberChange m) = apply_member st m"
| "applyTeamChange st (TaskChange t) = apply_task st t"
| "applyTeamChange st (Queued m) =
     (if map_of (ts_messages st) (tm_id m) \<noteq> None then Inl (QueuedTwice (tm_id m))
      else Inr (st\<lparr>ts_messages := map_set (tm_id m) m (ts_messages st)\<rparr>))"
| "applyTeamChange st (Delivered mid target) =
     (case map_of (ts_messages st) mid of
        None \<Rightarrow> Inl (DeliveredUnqueued mid)
      | Some queued \<Rightarrow>
          if tm_targetId queued \<noteq> target then Inl (TargetChanged mid)
          else if mid \<in> ts_delivered st then Inl (DeliveredTwice mid)
          else Inr (st\<lparr>ts_delivered := insert mid (ts_delivered st)\<rparr>))"

definition applyTeamEvent :: "team_state \<Rightarrow> (string \<times> json) event \<Rightarrow> team_error + team_state" where
  "applyTeamEvent st e =
     (case ev_data e of
        Plugin (t, v) \<Rightarrow>
          if \<not> is_team_type t then Inr st
          else if \<not> is_record v then Inl (InvalidPayload t)
          else (case (z_int 0 (get_prop ''version'' v), z_id (get_prop ''teamId'' v)) of
              (Some version, Some team) \<Rightarrow>
                if version \<noteq> 1 then (if team \<noteq> ts_id st then Inr st else Inl (UnsupportedVersion version))
                else (case parseCurrentTeamEvent t v of
                    None \<Rightarrow> Inl (InvalidPayload t)
                  | Some (team', change) \<Rightarrow> if team' \<noteq> ts_id st then Inr st else applyTeamChange st change)
            | _ \<Rightarrow> Inl (InvalidPayload t))
      | _ \<Rightarrow> Inr st)"

definition foldTeam :: "string \<Rightarrow> team_log \<Rightarrow> team_error + team_state" where
  "foldTeam rootId events = run_steps applyTeamEvent (emptyTeamFoldState rootId) events"

section \<open>Encoding\<close>

text \<open>The object literals the team services append.\<close>

fun value_name :: "(string \<times> 'a) list \<Rightarrow> 'a \<Rightarrow> string" where
  "value_name [] x = []"
| "value_name ((s, y) # vs) x = (if y = x then s else value_name vs x)"

definition optional_field :: "string \<Rightarrow> string option \<Rightarrow> (string \<times> json) list" where
  "optional_field k v = (case v of None \<Rightarrow> [] | Some s \<Rightarrow> [(k, JStr s)])"

definition encode_member :: "team_member \<Rightarrow> json" where
  "encode_member m = JObj ([(''id'', JStr (mb_id m)), (''name'', JStr (mb_name m)),
     (''description'', JStr (mb_description m)), (''provider'', JStr (mb_provider m)),
     (''context'', JStr (value_name context_values (mb_context m))),
     (''phase'', JStr (value_name phase_values (mb_phase m)))] @ optional_field ''error'' (mb_error m))"

definition encode_task :: "team_task \<Rightarrow> json" where
  "encode_task t = JObj ([(''id'', JStr (tk_id t)), (''revision'', JInt (tk_revision t)),
     (''subject'', JStr (tk_subject t)), (''description'', JStr (tk_description t)),
     (''status'', JStr (value_name status_values (tk_status t))),
     (''blockedBy'', JArr (map JStr (tk_blockedBy t))), (''writeScopes'', JArr (map JStr (tk_writeScopes t)))]
     @ optional_field ''ownerId'' (tk_ownerId t))"

definition encode_message :: "team_message \<Rightarrow> json" where
  "encode_message m = JObj [(''id'', JStr (tm_id m)), (''senderId'', JStr (tm_senderId m)),
     (''senderName'', JStr (tm_senderName m)), (''targetId'', JStr (tm_targetId m)),
     (''delivery'', JStr (value_name delivery_values (tm_delivery m))), (''content'', JArr (tm_content m))]"

fun change_type :: "team_change \<Rightarrow> string" where
  "change_type (MemberChange _) = ''team/member''"
| "change_type (TaskChange _) = ''team/task''"
| "change_type (Queued _) = ''team/message/queued''"
| "change_type (Delivered _ _) = ''team/message/delivered''"

fun change_fields :: "team_change \<Rightarrow> (string \<times> json) list" where
  "change_fields (MemberChange m) = [(''member'', encode_member m)]"
| "change_fields (TaskChange t) = [(''task'', encode_task t)]"
| "change_fields (Queued m) = [(''message'', encode_message m)]"
| "change_fields (Delivered mid target) = [(''messageId'', JStr mid), (''targetId'', JStr target)]"

definition encode_change :: "string \<Rightarrow> team_change \<Rightarrow> json" where
  "encode_change team c = JObj ([(''version'', JInt 1), (''teamId'', JStr team)] @ change_fields c)"

section \<open>What the schemas accept\<close>

definition task_id_ok :: "string \<Rightarrow> bool" where
  "task_id_ok s \<longleftrightarrow> s \<noteq> [] \<and> (case numeric_task_id s of None \<Rightarrow> True | Some n \<Rightarrow> safe_int n)"

fun change_valid :: "team_change \<Rightarrow> bool" where
  "change_valid (MemberChange m) = (mb_id m \<noteq> [])"
| "change_valid (TaskChange t) =
     (task_id_ok (tk_id t) \<and> 1 \<le> tk_revision t \<and> tk_revision t \<le> max_safe \<and> tk_ownerId t \<noteq> Some []
      \<and> list_all task_id_ok (tk_blockedBy t))"
| "change_valid (Queued m) =
     (tm_id m \<noteq> [] \<and> tm_senderId m \<noteq> [] \<and> tm_targetId m \<noteq> [] \<and> list_all block_ok (tm_content m))"
| "change_valid (Delivered mid target) = (mid \<noteq> [] \<and> target \<noteq> [])"

named_theorems schema_simps

lemma bind_Some [schema_simps]: "Option.bind x f = Some y \<longleftrightarrow> (\<exists>a. x = Some a \<and> f a = Some y)"
  by (cases x) simp_all

lemma z_string_Some [schema_simps]: "z_string v = Some s \<longleftrightarrow> v = Some (JStr s)"
  by (cases v rule: z_string.cases) simp_all

lemma z_id_Some [schema_simps]: "z_id v = Some s \<longleftrightarrow> v = Some (JStr s) \<and> s \<noteq> []"
  by (auto simp: z_id_def schema_simps)

lemma z_task_id_Some [schema_simps]: "z_task_id v = Some s \<longleftrightarrow> v = Some (JStr s) \<and> task_id_ok s"
  by (auto simp: z_task_id_def task_id_ok_def schema_simps split: option.splits)

lemma z_int_Some [schema_simps]: "z_int l v = Some n \<longleftrightarrow> v = Some (JInt n) \<and> l \<le> n \<and> safe_int n"
proof (cases "isSafeInteger v")
  case True
  then obtain k where "v = Some (JInt k)" "safe_int k" "int_of v = k" by (rule isSafeIntegerE)
  then show ?thesis by (auto simp: z_int_def JInt_def)
next
  case False
  then show ?thesis by (auto simp: z_int_def)
qed

lemma z_enum_Some [schema_simps]: "z_enum vs v = Some x \<longleftrightarrow> (\<exists>s. v = Some (JStr s) \<and> map_of vs s = Some x)"
  by (auto simp: z_enum_def schema_simps)

lemma z_optional_Some [schema_simps]:
  "z_optional f v = Some x \<longleftrightarrow> (v = None \<and> x = None) \<or> (\<exists>y. v \<noteq> None \<and> f v = Some y \<and> x = Some y)"
  by (auto simp: z_optional_def)

lemma z_all_Some: "z_all f xs = Some ys \<longleftrightarrow> map f xs = map Some ys"
  by (induction f xs arbitrary: ys rule: z_all.induct) (auto simp: schema_simps Cons_eq_map_conv)

lemma z_array_Some [schema_simps]:
  "z_array f v = Some ys \<longleftrightarrow> (\<exists>xs. v = Some (JArr xs) \<and> map (\<lambda>x. f (Some x)) xs = map Some ys)"
  by (cases "(f, v)" rule: z_array.cases) (auto simp: z_all_Some)

lemma z_block_Some [schema_simps]: "z_block v = Some b \<longleftrightarrow> v = Some b \<and> block_ok b"
  by (auto simp: z_block_def split: option.splits)

lemma map_JStr [schema_simps]: "map (\<lambda>x. z_task_id (Some x)) xs = map Some ys \<longleftrightarrow> xs = map JStr ys \<and> list_all task_id_ok ys"
proof (induction xs arbitrary: ys)
  case (Cons x xs)
  then show ?case by (cases ys) (auto simp: schema_simps)
qed auto

lemma map_blocks [schema_simps]: "map (\<lambda>x. z_block (Some x)) xs = map Some ys \<longleftrightarrow> xs = ys \<and> list_all block_ok ys"
proof (induction xs arbitrary: ys)
  case (Cons x xs)
  then show ?case by (cases ys) (auto simp: schema_simps)
qed auto

lemma map_strings: "map (\<lambda>x. z_string (Some x)) (map JStr ys) = map Some ys"
  by simp

lemma z_task_id_ok: "z_task_id v = Some s \<Longrightarrow> task_id_ok s"
  and z_id_ok: "z_id v = Some s \<Longrightarrow> s \<noteq> []"
  and z_int_ok: "z_int l v = Some n \<Longrightarrow> l \<le> n \<and> n \<le> max_safe"
  and z_owner_ok: "z_optional z_id v = Some x \<Longrightarrow> x \<noteq> Some []"
  and z_ids_ok: "z_array z_task_id v = Some is \<Longrightarrow> list_all task_id_ok is"
  and z_blocks_ok: "z_array z_block v = Some bs \<Longrightarrow> list_all block_ok bs"
  by (auto simp: schema_simps safe_int_def)

lemmas schema_dests = z_task_id_ok z_id_ok z_int_ok z_owner_ok z_ids_ok z_blocks_ok

lemma decode_task_valid: "decode_task v = Some t \<Longrightarrow> change_valid (TaskChange t)"
  unfolding decode_task_def by (clarsimp simp: bind_Some split: if_splits) (simp add: schema_dests)

lemma decode_message_valid: "decode_message v = Some m \<Longrightarrow> change_valid (Queued m)"
  unfolding decode_message_def by (clarsimp simp: bind_Some split: if_splits) (simp add: schema_dests)

lemma decode_member_valid: "decode_member v = Some m \<Longrightarrow> change_valid (MemberChange m)"
  unfolding decode_member_def by (clarsimp simp: bind_Some split: if_splits) (auto dest: z_id_ok)

lemma parse_valid: "parseCurrentTeamEvent t v = Some (team, c) \<Longrightarrow> change_valid c \<and> team \<noteq> []"
  unfolding parseCurrentTeamEvent_def envelope_def
  by (clarsimp simp: bind_Some simp del: change_valid.simps split: if_splits)
    (auto dest: decode_task_valid decode_message_valid decode_member_valid z_id_ok)

text \<open>Reading back what the services write.\<close>

lemma status_inverse: "map_of status_values (value_name status_values st) = Some st"
  by (cases st) (simp_all add: status_values_def)

lemma phase_inverse: "map_of phase_values (value_name phase_values ph) = Some ph"
  by (cases ph) (simp_all add: phase_values_def)

lemma context_inverse: "map_of context_values (value_name context_values c) = Some c"
  by (cases c) (simp_all add: context_values_def)

lemma delivery_inverse: "map_of delivery_values (value_name delivery_values d) = Some d"
  by (cases d) (simp_all add: delivery_values_def)

lemma z_id_JStr: "s \<noteq> [] \<Longrightarrow> z_id (Some (JStr s)) = Some s"
  and z_task_id_JStr: "task_id_ok s \<Longrightarrow> z_task_id (Some (JStr s)) = Some s"
  and z_int_JInt: "l \<le> n \<Longrightarrow> safe_int n \<Longrightarrow> z_int l (Some (JInt n)) = Some n"
  by (simp_all add: z_id_Some z_task_id_Some z_int_Some)

lemma z_array_ids: "list_all task_id_ok ys \<Longrightarrow> z_array z_task_id (Some (JArr (map JStr ys))) = Some ys"
  and z_array_strings: "z_array z_string (Some (JArr (map JStr zs))) = Some zs"
  and z_array_blocks: "list_all block_ok bs \<Longrightarrow> z_array z_block (Some (JArr bs)) = Some bs"
  unfolding z_array_Some by (auto simp: list_all_iff z_task_id_JStr z_block_def)

lemmas encode_simps = status_inverse phase_inverse context_inverse delivery_inverse z_id_JStr
  z_task_id_JStr z_int_JInt z_array_ids z_array_strings z_array_blocks z_enum_def strict_keys_def z_optional_def

lemma decode_encode_task: "change_valid (TaskChange t) \<Longrightarrow> decode_task (encode_task t) = Some t"
  by (cases "tk_ownerId t")
    (simp_all add: decode_task_def encode_task_def optional_field_def encode_simps safe_int_def del: z_array.simps)

lemma decode_encode_message: "change_valid (Queued m) \<Longrightarrow> decode_message (encode_message m) = Some m"
  by (simp add: decode_message_def encode_message_def encode_simps del: z_array.simps)

lemma decode_encode_member: "change_valid (MemberChange m) \<Longrightarrow> decode_member (encode_member m) = Some m"
  by (cases "mb_error m")
    (simp_all add: decode_member_def encode_member_def optional_field_def encode_simps)

lemma parse_encode:
  assumes "change_valid c" and "team \<noteq> []"
  shows "parseCurrentTeamEvent (change_type c) (encode_change team c) = Some (team, c)"
proof (cases c)
  case (MemberChange m)
  with assms decode_encode_member [of m] show ?thesis
    by (simp add: parseCurrentTeamEvent_def encode_change_def envelope_def strict_keys_def z_id_JStr)
next
  case (TaskChange t)
  with assms decode_encode_task [of t] show ?thesis
    by (simp add: parseCurrentTeamEvent_def encode_change_def envelope_def strict_keys_def z_id_JStr)
next
  case (Queued m)
  with assms decode_encode_message [of m] show ?thesis
    by (simp add: parseCurrentTeamEvent_def encode_change_def envelope_def strict_keys_def z_id_JStr)
next
  case (Delivered mid target)
  with assms show ?thesis
    by (simp add: parseCurrentTeamEvent_def encode_change_def envelope_def strict_keys_def z_id_JStr)
qed

text \<open>
  C39. The schemas produce well-formed changes only, and every well-formed change reads back
  from the payload the services write for it.
\<close>

theorem team_schema_type:
  "((\<exists>v. parseCurrentTeamEvent (change_type c) v = Some (team, c)) \<longleftrightarrow> change_valid c \<and> team \<noteq> [])
   \<and> (parseCurrentTeamEvent (change_type c) (encode_change team c) = Some (team, c) \<longleftrightarrow> change_valid c \<and> team \<noteq> [])"
  using parse_valid parse_encode by blast+

section \<open>What an accepted event does\<close>

text \<open>The team's own change an event carries; records of another root are none.\<close>

definition own_change :: "string \<Rightarrow> (string \<times> json) event \<Rightarrow> team_change option" where
  "own_change rid e =
     (case ev_data e of
        Plugin (t, v) \<Rightarrow>
          if is_team_type t then
            (case parseCurrentTeamEvent t v of
               Some (team, c) \<Rightarrow> if team = rid then Some c else None
             | None \<Rightarrow> None)
          else None
      | _ \<Rightarrow> None)"

definition team_changes :: "string \<Rightarrow> team_log \<Rightarrow> team_change list" where
  "team_changes rid events = List.map_filter (own_change rid) events"

lemma parse_envelope:
  assumes "parseCurrentTeamEvent t v = Some (team, c)"
  shows "get_prop ''version'' v = Some (JInt 1) \<and> z_id (get_prop ''teamId'' v) = Some team \<and> is_record v"
  using assms unfolding parseCurrentTeamEvent_def envelope_def
  by (auto simp: bind_Some strict_keys_def split: if_splits)

lemma accepted_team_event:
  assumes "applyTeamEvent st e = Inr st'"
  shows "case own_change (ts_id st) e of
      None \<Rightarrow> st' = st
    | Some c \<Rightarrow> change_valid c \<and> applyTeamChange st c = Inr st'"
proof (cases "ev_data e")
  case (Plugin p)
  obtain t v where p: "p = (t, v)" by (cases p)
  show ?thesis
  proof (cases "parseCurrentTeamEvent t v")
    case None
    with assms Plugin p show ?thesis
      by (auto simp: applyTeamEvent_def own_change_def split: if_splits option.splits)
  next
    case (Some x)
    obtain team c where x: "x = (team, c)" by (cases x)
    have "z_int 0 (Some (JInt 1)) = Some 1" by (simp add: z_int_JInt safe_int_def max_safe_def)
    with assms Plugin p Some x parse_envelope [of t v team c] parse_valid [of t v team c] show ?thesis
      by (auto simp: applyTeamEvent_def own_change_def split: if_splits)
  qed
qed (use assms in \<open>auto simp: applyTeamEvent_def own_change_def\<close>)

lemma own_event:
  assumes "ev_data e = Plugin (change_type c, encode_change rid c)" and "change_valid c" and "rid \<noteq> []"
  shows "own_change rid e = Some c"
    and "ts_id st = rid \<Longrightarrow> applyTeamEvent st e = applyTeamChange st c"
proof -
  have t: "is_team_type (change_type c)" by (cases c) (simp_all add: is_team_type_def)
  have p: "parseCurrentTeamEvent (change_type c) (encode_change rid c) = Some (rid, c)"
    using assms by (intro parse_encode)
  show "own_change rid e = Some c" using assms(1) t p by (simp add: own_change_def)
  have "z_int 0 (Some (JInt 1)) = Some 1" by (simp add: z_int_JInt safe_int_def max_safe_def)
  then show "applyTeamEvent st e = applyTeamChange st c" if "ts_id st = rid"
    using that assms(1) t p parse_envelope [OF p] by (simp add: applyTeamEvent_def)
qed

lemma change_keeps_id: "applyTeamChange st c = Inr st' \<Longrightarrow> ts_id st' = ts_id st"
  by (cases "(st, c)" rule: applyTeamChange.cases)
    (auto simp: apply_member_def apply_task_def result_simps split: if_splits option.splits sum.splits)

section \<open>The invariant of the replay state\<close>

definition tasks_ok :: "team_state \<Rightarrow> bool" where
  "tasks_ok st \<longleftrightarrow> keyed (ts_tasks st) \<and> graph_ok (ts_tasks st)
     \<and> (\<forall>t \<in> set (map_values (ts_tasks st)). change_valid (TaskChange t))
     \<and> 1 \<le> ts_nextTaskNumber st \<and> ts_nextTaskNumber st \<le> max_safe
     \<and> (\<forall>i \<in> set (map_keys (ts_tasks st)). \<forall>k. numeric_task_id i = Some k \<longrightarrow>
          k < ts_nextTaskNumber st \<or> ts_nextTaskNumber st = max_safe)"

definition members_ok :: "team_state \<Rightarrow> bool" where
  "members_ok st \<longleftrightarrow> distinct (map_keys (ts_members st)) \<and> (\<forall>(i, m) \<in> set (ts_members st). mb_id m = i \<and> i \<noteq> [])
     \<and> (\<forall>n i. map_of (ts_names st) n = Some i \<longleftrightarrow> (\<exists>m. map_of (ts_members st) i = Some m \<and> mb_name m = n))"

definition messages_ok :: "team_state \<Rightarrow> bool" where
  "messages_ok st \<longleftrightarrow> distinct (map_keys (ts_messages st)) \<and> (\<forall>(i, m) \<in> set (ts_messages st). tm_id m = i \<and> i \<noteq> [] \<and> tm_targetId m \<noteq> [])
     \<and> ts_delivered st \<subseteq> set (map_keys (ts_messages st))"

definition team_ok :: "team_state \<Rightarrow> bool" where
  "team_ok st \<longleftrightarrow> tasks_ok st \<and> members_ok st \<and> messages_ok st"

lemma empty_team_ok: "team_ok (emptyTeamFoldState rid)"
  by (simp add: team_ok_def tasks_ok_def members_ok_def messages_ok_def emptyTeamFoldState_def
      graph_ok_def live_blockers_def acyclic_def blocked_by_def max_safe_def)

lemma apply_member_fields:
  assumes "apply_member st m = Inr st'"
  shows "ts_tasks st' = ts_tasks st" and "ts_nextTaskNumber st' = ts_nextTaskNumber st"
    and "ts_messages st' = ts_messages st" and "ts_delivered st' = ts_delivered st"
    and "ts_members st' = map_set (mb_id m) m (ts_members st)" and "ts_id st' = ts_id st"
  using assms by (auto simp: apply_member_def split: if_splits option.splits)

lemma apply_task_fields:
  assumes "apply_task st t = Inr st'"
  shows "ts_members st' = ts_members st" and "ts_names st' = ts_names st"
    and "ts_messages st' = ts_messages st" and "ts_delivered st' = ts_delivered st"
    and "ts_tasks st' = map_set (tk_id t) t (ts_tasks st)" and "ts_id st' = ts_id st"
  using assms by (auto simp: apply_task_def result_simps split: sum.splits)

lemma members_step:
  assumes "members_ok st" and "apply_member st m = Inr st'" and "mb_id m \<noteq> []"
  shows "members_ok st'"
proof (cases "map_of (ts_members st) (mb_id m)")
  case None
  then have n: "map_of (ts_names st) (mb_name m) = None"
    using assms by (auto simp: apply_member_def members_ok_def split: option.splits if_splits)
  with None assms(2) have st': "st' = st\<lparr>ts_names := map_set (mb_name m) (mb_id m) (ts_names st),
      ts_members := map_set (mb_id m) m (ts_members st)\<rparr>"
    by (auto simp: apply_member_def split: if_splits)
  show ?thesis
    using assms(1,3) None n unfolding st' members_ok_def
    by (auto dest!: set_map_set) (metis option.distinct(1))+
next
  case (Some prior)
  then have "mb_name prior = mb_name m" and st': "st' = st\<lparr>ts_members := map_set (mb_id m) m (ts_members st)\<rparr>"
    using assms(2) by (auto simp: apply_member_def split: if_splits)
  with Some assms(1,3) show ?thesis
    unfolding st' members_ok_def by (auto dest!: set_map_set) (metis eq_key_imp_eq_value)
qed

lemma tasks_step:
  assumes "tasks_ok st" and "change_valid (TaskChange t)" and "apply_task st t = Inr st'"
  shows "tasks_ok st'"
proof -
  have graph: "assertTaskGraphCandidate (ts_tasks st) t = Inr ()"
    and st': "st' = st\<lparr>ts_nextTaskNumber := next_number (ts_nextTaskNumber st) (tk_id t),
        ts_tasks := map_set (tk_id t) t (ts_tasks st)\<rparr>"
    using assms(3) by (auto simp: apply_task_def result_simps split: sum.splits)
  have "graph_ok (map_set (tk_id t) t (ts_tasks st))"
    using graph graph_accepted_iff assms(1) by (simp add: tasks_ok_def)
  moreover have "ts_nextTaskNumber st \<le> ts_nextTaskNumber st'" "ts_nextTaskNumber st' \<le> max_safe"
    using assms(1,2) unfolding st'
    by (auto simp: next_number_def tasks_ok_def task_id_ok_def safe_int_def split: option.splits)
  moreover have "k < ts_nextTaskNumber st' \<or> ts_nextTaskNumber st' = max_safe"
    if "numeric_task_id (tk_id t) = Some k" for k
    using that calculation(3) unfolding st' by (auto simp: next_number_def split: if_splits)
  ultimately show ?thesis
    using assms(1,2) unfolding st' tasks_ok_def
    by (auto dest!: set_map_set simp del: change_valid.simps)
qed

lemma team_ok_change:
  assumes "team_ok st" and "change_valid c" and "applyTeamChange st c = Inr st'"
  shows "team_ok st'"
proof (cases c)
  case (MemberChange m)
  with assms have "members_ok st'" and "ts_tasks st' = ts_tasks st \<and> ts_nextTaskNumber st' = ts_nextTaskNumber st
      \<and> ts_messages st' = ts_messages st \<and> ts_delivered st' = ts_delivered st"
    using members_step [of st m st'] apply_member_fields [of st m st'] by (simp_all add: team_ok_def)
  with assms(1) show ?thesis by (simp add: team_ok_def tasks_ok_def messages_ok_def)
next
  case (TaskChange t)
  with assms tasks_step [of st t st'] have "tasks_ok st'" by (simp add: team_ok_def del: change_valid.simps)
  with assms TaskChange show ?thesis
    using apply_task_fields [of st t st'] by (simp add: team_ok_def members_ok_def messages_ok_def)
next
  case (Queued m)
  with assms(3) have "map_of (ts_messages st) (tm_id m) = None"
    and st': "st' = st\<lparr>ts_messages := map_set (tm_id m) m (ts_messages st)\<rparr>"
    by (simp_all split: if_splits)
  then have "messages_ok st \<Longrightarrow> messages_ok st'"
    using map_of_None_keys [of "ts_messages st" "tm_id m"] assms(2) Queued
    unfolding messages_ok_def by (auto simp: map_set_fresh)
  with assms(1) st' show ?thesis by (simp add: team_ok_def tasks_ok_def members_ok_def)
next
  case (Delivered mid target)
  with assms(3) have "map_of (ts_messages st) mid \<noteq> None"
    and st': "st' = st\<lparr>ts_delivered := insert mid (ts_delivered st)\<rparr>"
    by (auto split: if_splits option.splits)
  then have "messages_ok st \<Longrightarrow> messages_ok st'"
    using map_of_None_keys [of "ts_messages st" mid] unfolding messages_ok_def by simp
  with assms(1) st' show ?thesis by (simp add: team_ok_def tasks_ok_def members_ok_def)
qed

lemma team_ok_event: "team_ok st \<Longrightarrow> applyTeamEvent st e = Inr st' \<Longrightarrow> team_ok st'"
  using accepted_team_event [of st e st'] team_ok_change by (auto split: option.splits)

interpretation team: fold_invariant applyTeamEvent team_ok
  by unfold_locales (rule team_ok_event)

lemma fold_team_ok: "foldTeam rid events = Inr st \<Longrightarrow> team_ok st"
  unfolding foldTeam_def using empty_team_ok by (rule team.run_inv)

section \<open>What an accepted log says\<close>

fun task_change :: "string \<Rightarrow> team_change \<Rightarrow> team_task option" where
  "task_change i (TaskChange t) = (if tk_id t = i then Some t else None)"
| "task_change i _ = None"

fun queued_id :: "team_change \<Rightarrow> string option" where
  "queued_id (Queued m) = Some (tm_id m)"
| "queued_id _ = None"

fun delivered_id :: "team_change \<Rightarrow> string option" where
  "delivered_id (Delivered mid _) = Some mid"
| "delivered_id _ = None"

fun member_change :: "string \<Rightarrow> team_change \<Rightarrow> team_member option" where
  "member_change i (MemberChange m) = (if mb_id m = i then Some m else None)"
| "member_change i _ = None"

definition last_option :: "'a list \<Rightarrow> 'a option" where
  "last_option xs = (if xs = [] then None else Some (last xs))"

definition task_history :: "team_change list \<Rightarrow> team_state \<Rightarrow> bool" where
  "task_history cs st \<longleftrightarrow> (\<forall>i. let ts = List.map_filter (task_change i) cs
     in map tk_revision ts = [1..int (length ts)] \<and> map_of (ts_tasks st) i = last_option ts)"

definition member_history :: "team_change list \<Rightarrow> team_state \<Rightarrow> bool" where
  "member_history cs st \<longleftrightarrow> (\<forall>i. let ms = List.map_filter (member_change i) cs
     in (map mb_phase ms = [] \<or> map mb_phase ms = [Provisioning]
         \<or> map mb_phase ms = [Provisioning, MemberActive] \<or> map mb_phase ms = [Provisioning, MemberFailed])
        \<and> map_of (ts_members st) i = last_option ms)"

definition message_history :: "team_change list \<Rightarrow> team_state \<Rightarrow> bool" where
  "message_history cs st \<longleftrightarrow>
     (let qs = List.map_filter queued_id cs; ds = List.map_filter delivered_id cs
      in distinct qs \<and> distinct ds \<and> set ds \<subseteq> set qs
         \<and> map_keys (ts_messages st) = qs \<and> ts_delivered st = set ds)"

definition team_history :: "string \<Rightarrow> team_log \<Rightarrow> team_state \<Rightarrow> bool" where
  "team_history rid events st \<longleftrightarrow> ts_id st = rid \<and> task_history (team_changes rid events) st
     \<and> member_history (team_changes rid events) st \<and> message_history (team_changes rid events) st"

lemma last_option_simps [simp]: "last_option [] = None" "last_option (xs @ [x]) = Some x"
  by (simp_all add: last_option_def)

lemma last_option_eq: "last_option xs = Some y \<longleftrightarrow> (\<exists>ys. xs = ys @ [y])"
  by (cases xs rule: rev_cases) (auto simp: last_option_def)

lemma last_option_None [simp]: "last_option xs = None \<longleftrightarrow> xs = []"
  by (simp add: last_option_def)

lemma empty_history: "team_history rid [] (emptyTeamFoldState rid)"
  by (simp add: team_history_def task_history_def member_history_def message_history_def
      team_changes_def emptyTeamFoldState_def map_filter_simps)

lemma task_history_step:
  assumes "task_history cs st" and "apply_task st t = Inr st'"
  shows "task_history (cs @ [TaskChange t]) st'"
proof -
  have st': "ts_tasks st' = map_set (tk_id t) t (ts_tasks st)"
    and rev: "case map_of (ts_tasks st) (tk_id t) of None \<Rightarrow> tk_revision t = 1
        | Some p \<Rightarrow> tk_revision t = tk_revision p + 1"
    using assms(2) by (auto simp: apply_task_def result_simps split: sum.splits option.splits)
  define ts where "ts = List.map_filter (task_change (tk_id t)) cs"
  have ts: "map tk_revision ts = [1..int (length ts)]" "map_of (ts_tasks st) (tk_id t) = last_option ts"
    using assms(1) by (auto simp: task_history_def Let_def ts_def)
  have "tk_revision t = int (length ts) + 1"
  proof (cases ts rule: rev_cases)
    case Nil
    with rev ts(2) show ?thesis by simp
  next
    case (snoc us p)
    then have "last (map tk_revision ts) = int (length ts)" using ts(1) by (simp add: upto_rec2)
    with snoc rev ts(2) show ?thesis by simp
  qed
  then have "map tk_revision (ts @ [t]) = [1..int (length (ts @ [t]))]"
    using ts(1) upto_rec2 [of 1 "int (length ts) + 1"] by (simp add: add.commute)
  then show ?thesis
    using assms(1) st' by (auto simp: task_history_def Let_def ts_def add.commute)
qed

lemma member_history_step:
  assumes "member_history cs st" and "apply_member st m = Inr st'"
  shows "member_history (cs @ [MemberChange m]) st'"
proof -
  have st': "ts_members st' = map_set (mb_id m) m (ts_members st)"
    and ph: "case map_of (ts_members st) (mb_id m) of None \<Rightarrow> mb_phase m = Provisioning
        | Some p \<Rightarrow> mb_phase p = Provisioning \<and> mb_phase m \<noteq> Provisioning"
    using assms(2) by (auto simp: apply_member_def split: if_splits option.splits)
  define ms where "ms = List.map_filter (member_change (mb_id m)) cs"
  have ms: "map mb_phase ms \<in> {[], [Provisioning], [Provisioning, MemberActive], [Provisioning, MemberFailed]}"
      "map_of (ts_members st) (mb_id m) = last_option ms"
    using assms(1) by (auto simp: member_history_def Let_def ms_def)
  have "map mb_phase (ms @ [m]) \<in> {[Provisioning], [Provisioning, MemberActive], [Provisioning, MemberFailed]}"
  proof (cases ms rule: rev_cases)
    case Nil
    with ph ms(2) show ?thesis by simp
  next
    case (snoc us p)
    then have p: "mb_phase p = Provisioning" "mb_phase m \<noteq> Provisioning" using ph ms(2) by simp_all
    then have "us = []" using ms(1) snoc by (auto simp: append_eq_Cons_conv)
    with snoc p show ?thesis by (cases "mb_phase m") simp_all
  qed
  then show ?thesis
    using assms(1) st' by (auto simp: member_history_def Let_def ms_def)
qed

lemma history_change:
  assumes "team_history rid events st" and "own_change rid e = Some c" and "applyTeamChange st c = Inr st'"
  shows "team_history rid (events @ [e]) st'"
proof -
  define cs where "cs = team_changes rid events"
  have cs: "team_changes rid (events @ [e]) = cs @ [c]"
    using assms(2) by (simp add: team_changes_def cs_def)
  have h: "task_history cs st" "member_history cs st" "message_history cs st" "ts_id st = rid"
    using assms(1) by (simp_all add: team_history_def cs_def)
  have i: "ts_id st' = rid" using change_keeps_id [OF assms(3)] h(4) by simp
  show ?thesis
  proof (cases c)
    case (MemberChange m)
    with h assms(3) member_history_step [of cs st m st'] i show ?thesis
      unfolding team_history_def cs using apply_member_fields [of st m st']
      by (simp add: task_history_def message_history_def Let_def)
  next
    case (TaskChange t)
    with h assms(3) task_history_step [of cs st t st'] i show ?thesis
      unfolding team_history_def cs using apply_task_fields [of st t st']
      by (simp add: member_history_def message_history_def Let_def)
  next
    case (Queued m)
    with h assms(3) i show ?thesis
      unfolding team_history_def cs
      by (auto simp: task_history_def member_history_def message_history_def Let_def map_set_fresh
          map_of_None_keys split: if_splits)
  next
    case (Delivered mid target)
    with h assms(3) i show ?thesis
      unfolding team_history_def cs
      by (auto simp: task_history_def member_history_def message_history_def Let_def
          split: if_splits option.splits dest!: map_of_SomeD) (metis image_eqI fst_conv set_map)
  qed
qed

interpretation team_log: fold_history applyTeamEvent "team_history rid" for rid
proof unfold_locales
  fix pre st e st'
  assume h: "team_history rid pre st" and "applyTeamEvent st e = Inr st'"
  moreover have "ts_id st = rid" using h by (simp add: team_history_def)
  ultimately show "team_history rid (pre @ [e]) st'"
    using accepted_team_event [of st e st'] history_change [OF h]
    by (cases "own_change rid e") (auto simp: team_history_def team_changes_def)
qed

lemma fold_history_of: "foldTeam rid events = Inr st \<Longrightarrow> team_history rid events st"
  using team_log.run_hinv [OF empty_history, of rid events st] by (simp add: foldTeam_def)

text \<open>
  C32. In every log the fold accepts, each task was written with the revisions 1, 2, 3 and so on
  and stands at its last snapshot, each member went from provisioning to at most one terminal
  phase, and each message was queued once, and delivered at most once and only after.
\<close>

theorem team_log_history:
  assumes "foldTeam rid events = Inr st"
  shows "team_history rid events st"
  using assms by (rule fold_history_of)

text \<open>
  The state of every accepted log is well formed: tasks stand under their identities in an
  acyclic graph of live tasks, no name belongs to two members, and every numeric task identity
  is below the next number or the numbers are used up.
\<close>

theorem team_state_invariant:
  assumes "foldTeam rid events = Inr st"
  shows "team_ok st"
  using assms by (rule fold_team_ok)

section \<open>A concrete log\<close>

text \<open>The log the services would write for a list of changes.\<close>

definition encoded_event :: "string \<Rightarrow> team_change \<Rightarrow> (string \<times> json) event" where
  "encoded_event rid c = \<lparr>ev_data = Plugin (change_type c, encode_change rid c), ev_seq = 0, ev_time = 0,
     ev_ignorable = False, ev_surfaceOp = None, ev_sources = None\<rparr>"

lemma run_encoded:
  assumes "list_all change_valid cs" and "rid \<noteq> []" and "ts_id st = rid"
  shows "run_steps applyTeamEvent st (map (encoded_event rid) cs) = run_steps applyTeamChange st cs"
  using assms
proof (induction cs arbitrary: st)
  case (Cons c cs)
  have "applyTeamEvent st (encoded_event rid c) = applyTeamChange st c"
    using Cons.prems by (intro own_event(2)) (simp_all add: encoded_event_def)
  with Cons change_keeps_id show ?case by (cases "applyTeamChange st c") auto
qed simp

definition sample_member :: team_member where
  "sample_member = \<lparr>mb_id = ''s1'', mb_name = ''ada'', mb_description = ''reviews'', mb_provider = ''p'',
     mb_context = FreshContext, mb_phase = Provisioning, mb_error = None\<rparr>"

definition sample_task :: "string \<Rightarrow> int \<Rightarrow> task_status \<Rightarrow> string list \<Rightarrow> team_task" where
  "sample_task i r status blockers = \<lparr>tk_id = i, tk_revision = r, tk_subject = ''s'', tk_description = ''d'',
     tk_status = status, tk_ownerId = None, tk_blockedBy = blockers, tk_writeScopes = []\<rparr>"

definition sample_changes :: "team_change list" where
  "sample_changes = [MemberChange sample_member, MemberChange (sample_member\<lparr>mb_phase := MemberActive\<rparr>),
     TaskChange (sample_task ''task-1'' 1 TPending []), TaskChange (sample_task ''task-2'' 1 TPending [''task-1'']),
     TaskChange (sample_task ''task-1'' 2 TCompleted []),
     Queued \<lparr>tm_id = ''m1'', tm_senderId = ''lead'', tm_senderName = ''lead'', tm_targetId = ''s1'',
       tm_delivery = Quiet, tm_content = []\<rparr>,
     Delivered ''m1'' ''s1'']"

definition sample_team_log :: team_log where
  "sample_team_log = map (encoded_event ''lead'') sample_changes"

lemma sample_folds: "is_ok (foldTeam ''lead'' sample_team_log)"
proof -
  have "list_all change_valid sample_changes" by code_simp
  then have "foldTeam ''lead'' sample_team_log = run_steps applyTeamChange (emptyTeamFoldState ''lead'') sample_changes"
    unfolding foldTeam_def sample_team_log_def by (intro run_encoded) (simp_all add: emptyTeamFoldState_def)
  moreover have "is_ok (run_steps applyTeamChange (emptyTeamFoldState ''lead'') sample_changes)" by code_simp
  ultimately show ?thesis by simp
qed

lemma team_log_history_witness:
  "\<exists>st. foldTeam ''lead'' sample_team_log = Inr st \<and> team_history ''lead'' sample_team_log st"
proof -
  obtain st where st: "foldTeam ''lead'' sample_team_log = Inr st"
    using sample_folds unfolding is_ok_iff by (elim exE)
  then show ?thesis using team_log_history [OF st] by blast
qed

end
