(* ===== verification/TeamBoard.thy ===== *)
theory TeamBoard imports TeamFold "HOL-Library.Sublist" begin

text \<open>
  The services that write a team's log (packages/experimental/agent-team/src): input
  normalisation (validation.ts), the task board (task-board.ts), and the transactions of the
  roster (roster.ts) and of the mailbox (mailbox.ts) over the journal (journal.ts). The journal
  runs one transaction of a lead at a time; each folds the log, checks, and appends at most one
  event before its first wait, so a transaction is one step on the log. Whether the flush after
  the append succeeds, the clock and the random identities are arguments.
\<close>

section \<open>Errors\<close>

datatype team_code =
    InvalidArgument
  | InvalidWriteScope
  | TaskLimit
  | TaskNotFound
  | DependencyCycle
  | StaleTask
  | TaskDeleted
  | Unauthorized
  | AlreadyClaimed
  | TaskBlocked
  | BadTransition
  | LeadRequired
  | MemberNotFound
  | HasDependents
  | InvalidMemberName
  | MemberNameTaken
  | MemberLimit
  | ProvisioningConflict
  | SelfMessage
  | MailboxFull
  | MessageTooLarge
  | ReplayError team_error
  | FlushFailed

section \<open>Input normalisation\<close>

definition requiredText :: "string \<Rightarrow> nat \<Rightarrow> team_code + string" where
  "requiredText value maxLength =
     (let text = trim value
      in if text = [] then Inl InvalidArgument
         else if maxLength < length text then Inl InvalidArgument
         else Inr text)"

text \<open>\<open>split('/')\<close>, and the three replacements of \<open>writeScope\<close>.\<close>

fun split_slash :: "string \<Rightarrow> string list" where
  "split_slash [] = [[]]"
| "split_slash (c # cs) =
     (if c = CHR ''/'' then [] # split_slash cs
      else (case split_slash cs of [] \<Rightarrow> [[c]] | s # ss \<Rightarrow> (c # s) # ss))"

definition slashes :: "string \<Rightarrow> string" where
  "slashes s = map (\<lambda>c. if c = CHR 0x5C then CHR ''/'' else c) s"

definition drop_dot_slash :: "string \<Rightarrow> string" where
  "drop_dot_slash s = (if take 2 s = ''./'' then drop 2 s else s)"

definition drop_end_slashes :: "string \<Rightarrow> string" where
  "drop_end_slashes s = rev (dropWhile (\<lambda>c. c = CHR ''/'') (rev s))"

definition drive_prefix :: "string \<Rightarrow> bool" where
  "drive_prefix s = (case s of
       c # d # _ \<Rightarrow> (lower_letter c \<or> (65 \<le> (of_char c :: nat) \<and> (of_char c :: nat) \<le> 90)) \<and> d = CHR '':''
     | _ \<Rightarrow> False)"

definition writeScope :: "string \<Rightarrow> team_code + string" where
  "writeScope value =
     (let normalized = drop_end_slashes (drop_dot_slash (slashes value));
          segments = split_slash normalized
      in if normalized = [] \<or> take 1 normalized = ''/'' \<or> drive_prefix normalized
            \<or> list_ex (\<lambda>s. s = [] \<or> s = ''.'' \<or> s = ''..'') segments
         then Inl InvalidWriteScope else Inr normalized)"

fun collect :: "('a \<Rightarrow> 'x + 'b) \<Rightarrow> 'a list \<Rightarrow> 'x + 'b list" where
  "collect f [] = Inr []"
| "collect f (x # xs) = rbind (f x) (\<lambda>y. rbind (collect f xs) (\<lambda>ys. Inr (y # ys)))"

text \<open>The values of a \<open>Set\<close> built from a list.\<close>

fun set_values :: "'a list \<Rightarrow> 'a list \<Rightarrow> 'a list" where
  "set_values seen [] = seen"
| "set_values seen (x # xs) = set_values (if x \<in> set seen then seen else seen @ [x]) xs"

definition writeScopes :: "string list \<Rightarrow> team_code + string list" where
  "writeScopes values = rbind (collect writeScope values) (\<lambda>ss. Inr (set_values [] ss))"

section \<open>Requests and views\<close>

record create_request =
  cr_subject :: string
  cr_description :: string
  cr_blockedBy :: "string list option"
  cr_writeScopes :: "string list option"

datatype task_action = Claim | Release | Edit | SetDependencies | Complete | Reopen | Reassign | Delete

record update_request =
  ur_taskId :: string
  ur_expectedRevision :: int
  ur_action :: task_action
  ur_subject :: "string option"
  ur_description :: "string option"
  ur_blockedBy :: "string list option"
  ur_writeScopes :: "string list option"
  ur_owner :: "string option"

record task_view =
  tv_id :: string
  tv_revision :: int
  tv_subject :: string
  tv_description :: string
  tv_status :: task_status
  tv_blockedBy :: "string list"
  tv_writeScopes :: "string list"
  tv_ownerName :: "string option"
  tv_ready :: bool
  tv_warnings :: "string list"

record team_limits =
  tl_maxMembers :: int
  tl_maxTasks :: int
  tl_maxPending :: int
  tl_maxMessageBytes :: int

section \<open>The task board\<close>

definition scopesOverlap :: "string \<Rightarrow> string \<Rightarrow> bool" where
  "scopesOverlap left right \<longleftrightarrow> left = right \<or> prefix (right @ ''/'') left \<or> prefix (left @ ''/'') right"

definition taskReady :: "team_state \<Rightarrow> team_task \<Rightarrow> bool" where
  "taskReady st t = list_all (\<lambda>i. map_option tk_status (map_of (ts_tasks st) i) = Some TCompleted) (tk_blockedBy t)"

definition withoutOwner :: "team_task \<Rightarrow> team_task" where
  "withoutOwner t = t\<lparr>tk_ownerId := None\<rparr>"

definition overlap_warnings :: "team_state \<Rightarrow> team_task \<Rightarrow> string list" where
  "overlap_warnings st t =
     set_values [] (map (\<lambda>other. ''write scopes overlap with '' @ tk_id other)
       (filter (\<lambda>other. tk_id other \<noteq> tk_id t \<and> tk_status other = TInProgress
          \<and> list_ex (\<lambda>l. list_ex (scopesOverlap l) (tk_writeScopes other)) (tk_writeScopes t))
        (map_values (ts_tasks st))))"

definition taskView :: "string \<Rightarrow> team_state \<Rightarrow> team_task \<Rightarrow> task_view" where
  "taskView rid st t = \<lparr>tv_id = tk_id t, tv_revision = tk_revision t, tv_subject = tk_subject t,
     tv_description = tk_description t, tv_status = tk_status t, tv_blockedBy = tk_blockedBy t,
     tv_writeScopes = tk_writeScopes t,
     tv_ownerName = (case tk_ownerId t of None \<Rightarrow> None
       | Some ow \<Rightarrow> if ow = rid then Some ''lead'' else map_option mb_name (map_of (ts_members st) ow)),
     tv_ready = (tk_status t = TPending \<and> taskReady st t),
     tv_warnings = overlap_warnings st t\<rparr>"

fun dependencies_from :: "string list \<Rightarrow> string set \<Rightarrow> team_state \<Rightarrow> string option \<Rightarrow> team_code + string list" where
  "dependencies_from [] seen st self = Inr []"
| "dependencies_from (i # is) seen st self =
     (if Some i = self then Inl DependencyCycle
      else if i \<in> seen then Inl InvalidArgument
      else case map_of (ts_tasks st) i of
          None \<Rightarrow> Inl TaskNotFound
        | Some t \<Rightarrow>
            if tk_status t = TDeleted then Inl TaskNotFound
            else rbind (dependencies_from is (insert i seen) st self) (\<lambda>js. Inr (i # js)))"

definition dependencies :: "string list \<Rightarrow> team_state \<Rightarrow> string option \<Rightarrow> team_code + string list" where
  "dependencies values st self = dependencies_from values {} st self"

fun graph_code :: "graph_violation \<Rightarrow> team_code" where
  "graph_code VMissing = TaskNotFound"
| "graph_code VDuplicate = InvalidArgument"
| "graph_code VCycle = DependencyCycle"

definition assertTaskGraph :: "team_state \<Rightarrow> team_task \<Rightarrow> team_code + unit" where
  "assertTaskGraph st t = (case assertTaskGraphCandidate (ts_tasks st) t of
       Inl e \<Rightarrow> Inl (graph_code (violation e)) | Inr u \<Rightarrow> Inr u)"

definition active_tasks :: "team_state \<Rightarrow> team_task list" where
  "active_tasks st = filter (\<lambda>t. tk_status t \<noteq> TDeleted) (map_values (ts_tasks st))"

definition next_task_id :: "team_state \<Rightarrow> string" where
  "next_task_id st = ''task-'' @ show_nat (nat (ts_nextTaskNumber st))"

definition or_empty :: "'a list option \<Rightarrow> 'a list" where
  "or_empty v = (case v of None \<Rightarrow> [] | Some xs \<Rightarrow> xs)"

text \<open>The task \<open>create\<close> appends.\<close>

definition created_task :: "team_limits \<Rightarrow> team_state \<Rightarrow> create_request \<Rightarrow> team_code + team_task" where
  "created_task limits st req =
     (if tl_maxTasks limits \<le> int (length (active_tasks st)) then Inl TaskLimit
      else if map_of (ts_tasks st) (next_task_id st) \<noteq> None then Inl TaskLimit
      else
        rbind (requiredText (cr_subject req) 200) (\<lambda>subject.
        rbind (requiredText (cr_description req) 16384) (\<lambda>description.
        rbind (dependencies (or_empty (cr_blockedBy req)) st None) (\<lambda>blockers.
        rbind (writeScopes (or_empty (cr_writeScopes req))) (\<lambda>scopes.
          let t = \<lparr>tk_id = next_task_id st, tk_revision = 1, tk_subject = subject,
                tk_description = description, tk_status = TPending, tk_ownerId = None,
                tk_blockedBy = blockers, tk_writeScopes = scopes\<rparr>
          in rbind (assertTaskGraph st t) (\<lambda>_. Inr t))))))"

definition resolveActiveMember :: "string \<Rightarrow> team_state \<Rightarrow> string \<Rightarrow> team_code + string" where
  "resolveActiveMember rid st rawName =
     (if trim rawName = ''lead'' then Inr rid
      else case map_of (ts_names st) (trim rawName) of
          None \<Rightarrow> Inl MemberNotFound
        | Some i \<Rightarrow> (case map_of (ts_members st) i of
              None \<Rightarrow> Inl MemberNotFound
            | Some m \<Rightarrow> if mb_phase m = MemberActive then Inr (mb_id m) else Inl MemberNotFound))"

definition edit_field :: "'a option \<Rightarrow> ('a \<Rightarrow> team_code + 'b) \<Rightarrow> 'b \<Rightarrow> team_code + 'b" where
  "edit_field v f old = (case v of None \<Rightarrow> Inr old | Some x \<Rightarrow> f x)"

text \<open>The action switch of \<open>update\<close>: the next snapshot before its revision is set.\<close>

definition authorizeOwner :: "bool \<Rightarrow> string \<Rightarrow> team_task \<Rightarrow> team_code + unit" where
  "authorizeOwner lead caller cur = guard (lead \<or> tk_ownerId cur = Some caller) Unauthorized"

fun act :: "string \<Rightarrow> bool \<Rightarrow> string \<Rightarrow> team_state \<Rightarrow> team_task \<Rightarrow> update_request \<Rightarrow> task_action \<Rightarrow> team_code + team_task" where
  "act rid lead caller st cur req Claim =
     (if tk_ownerId cur \<noteq> None \<and> tk_ownerId cur \<noteq> Some caller then Inl AlreadyClaimed
      else if tk_status cur \<noteq> TPending \<or> \<not> taskReady st cur then Inl TaskBlocked
      else Inr (cur\<lparr>tk_status := TInProgress, tk_ownerId := Some caller\<rparr>))"
| "act rid lead caller st cur req Release =
     rbind (authorizeOwner lead caller cur) (\<lambda>_.
     rbind (guard (tk_status cur = TInProgress) BadTransition) (\<lambda>_.
       Inr (withoutOwner (cur\<lparr>tk_status := TPending\<rparr>))))"
| "act rid lead caller st cur req Edit =
     rbind (authorizeOwner lead caller cur) (\<lambda>_.
     rbind (guard (ur_subject req \<noteq> None \<or> ur_description req \<noteq> None \<or> ur_writeScopes req \<noteq> None) InvalidArgument) (\<lambda>_.
     rbind (edit_field (ur_subject req) (\<lambda>s. requiredText s 200) (tk_subject cur)) (\<lambda>subject.
     rbind (edit_field (ur_description req) (\<lambda>s. requiredText s 16384) (tk_description cur)) (\<lambda>description.
     rbind (edit_field (ur_writeScopes req) writeScopes (tk_writeScopes cur)) (\<lambda>scopes.
       Inr (cur\<lparr>tk_subject := subject, tk_description := description, tk_writeScopes := scopes\<rparr>))))))"
| "act rid lead caller st cur req SetDependencies =
     rbind (authorizeOwner lead caller cur) (\<lambda>_.
       case ur_blockedBy req of
         None \<Rightarrow> Inl InvalidArgument
       | Some ids \<Rightarrow> rbind (dependencies ids st (Some (tk_id cur))) (\<lambda>bs. Inr (cur\<lparr>tk_blockedBy := bs\<rparr>)))"
| "act rid lead caller st cur req Complete =
     rbind (authorizeOwner lead caller cur) (\<lambda>_.
     rbind (guard (tk_status cur = TInProgress) BadTransition) (\<lambda>_.
       Inr (cur\<lparr>tk_status := TCompleted\<rparr>)))"
| "act rid lead caller st cur req Reopen =
     rbind (authorizeOwner lead caller cur) (\<lambda>_.
     rbind (guard (tk_status cur = TCompleted) BadTransition) (\<lambda>_.
       Inr (withoutOwner (cur\<lparr>tk_status := TPending\<rparr>))))"
| "act rid lead caller st cur req Reassign =
     (if \<not> lead then Inl LeadRequired
      else if tk_status cur \<noteq> TPending \<and> tk_status cur \<noteq> TInProgress then Inl BadTransition
      else case ur_owner req of
          None \<Rightarrow> Inr (withoutOwner (cur\<lparr>tk_status := TPending\<rparr>))
        | Some ow \<Rightarrow>
            if trim ow = [] then Inr (withoutOwner (cur\<lparr>tk_status := TPending\<rparr>))
            else if \<not> taskReady st cur then Inl TaskBlocked
            else rbind (resolveActiveMember rid st ow) (\<lambda>i.
              Inr (cur\<lparr>tk_status := TInProgress, tk_ownerId := Some i\<rparr>)))"
| "act rid lead caller st cur req Delete =
     rbind (authorizeOwner lead caller cur) (\<lambda>_.
     rbind (guard (\<not> list_ex (\<lambda>t. tk_status t \<noteq> TDeleted \<and> tk_id t \<noteq> tk_id cur \<and> tk_id cur \<in> set (tk_blockedBy t))
              (map_values (ts_tasks st))) HasDependents) (\<lambda>_.
       Inr (cur\<lparr>tk_status := TDeleted\<rparr>)))"

definition updated_task ::
  "string \<Rightarrow> bool \<Rightarrow> string \<Rightarrow> team_state \<Rightarrow> update_request \<Rightarrow> team_code + team_task" where
  "updated_task rid lead caller st req =
     (case map_of (ts_tasks st) (ur_taskId req) of
        None \<Rightarrow> Inl TaskNotFound
      | Some cur \<Rightarrow>
          if tk_revision cur \<noteq> ur_expectedRevision req then Inl StaleTask
          else if tk_status cur = TDeleted then Inl TaskDeleted
          else
            rbind (act rid lead caller st cur req (ur_action req)) (\<lambda>nxt.
              let t = nxt\<lparr>tk_revision := tk_revision cur + 1\<rparr>
              in rbind (assertTaskGraph st t) (\<lambda>_. Inr t)))"

section \<open>Members and messages\<close>

text \<open>\<open>/^[a-z0-9]+(?:-[a-z0-9]+)*$/u\<close>, at most 64 characters and not the lead's name.\<close>

definition memberName :: "string \<Rightarrow> team_code + string" where
  "memberName value =
     (if \<not> kebab_rest True value \<or> 64 < length value \<or> value = ''lead'' then Inl InvalidMemberName
      else Inr value)"

definition new_member ::
  "string \<Rightarrow> string \<Rightarrow> string \<Rightarrow> string \<Rightarrow> context_mode \<Rightarrow> team_code + team_member" where
  "new_member childId name description provider mode =
     rbind (memberName name) (\<lambda>n.
     rbind (requiredText description 200) (\<lambda>d.
     rbind (requiredText provider 200) (\<lambda>p.
       Inr \<lparr>mb_id = childId, mb_name = n, mb_description = d, mb_provider = p, mb_context = mode,
            mb_phase = Provisioning, mb_error = None\<rparr>)))"

datatype team_outcome =
    TaskOutcome task_view
  | MemberOutcome member_phase
  | MessageOutcome string
  | NoOutcome

type_synonym decision = "team_code + (team_change option \<times> team_outcome)"

definition provision_decision :: "team_limits \<Rightarrow> team_member \<Rightarrow> team_state \<Rightarrow> decision" where
  "provision_decision limits m st =
     (if map_of (ts_names st) (mb_name m) \<noteq> None then Inl MemberNameTaken
      else if tl_maxMembers limits \<le> int (length (ts_members st)) then Inl MemberLimit
      else Inr (Some (MemberChange m), MemberOutcome Provisioning))"

definition settle_decision :: "team_member \<Rightarrow> team_state \<Rightarrow> decision" where
  "settle_decision terminal st =
     (case map_of (ts_members st) (mb_id terminal) of
        None \<Rightarrow> Inl ProvisioningConflict
      | Some cur \<Rightarrow>
          if mb_phase cur \<noteq> Provisioning then Inr (None, MemberOutcome (mb_phase cur))
          else Inr (Some (MemberChange terminal),
                    MemberOutcome (if mb_phase terminal = MemberActive then MemberActive else MemberFailed)))"

text \<open>The terminal snapshots: \<open>None\<close> settles the member active, \<open>Some failure\<close> failed.\<close>

definition terminal_member :: "team_member \<Rightarrow> string option \<Rightarrow> team_member" where
  "terminal_member m failure = (case failure of
       None \<Rightarrow> m\<lparr>mb_phase := MemberActive\<rparr>
     | Some e \<Rightarrow> m\<lparr>mb_phase := MemberFailed, mb_error := Some e\<rparr>)"

definition reconcile_decision :: "string \<Rightarrow> string option \<Rightarrow> team_state \<Rightarrow> decision" where
  "reconcile_decision i failure st =
     (case map_of (ts_members st) i of
        None \<Rightarrow> Inr (None, NoOutcome)
      | Some cur \<Rightarrow>
          if mb_phase cur \<noteq> Provisioning then Inr (None, NoOutcome)
          else Inr (Some (MemberChange (terminal_member cur failure)), NoOutcome))"

definition deliveryContent :: "team_message \<Rightarrow> json list" where
  "deliveryContent m =
     JObj [(''type'', JStr ''text''),
           (''text'', JStr (''Team message '' @ tm_id m @ '' from '' @ tm_senderName m @ '':''))] # tm_content m"

definition pending_for :: "team_state \<Rightarrow> string \<Rightarrow> team_message list" where
  "pending_for st target =
     filter (\<lambda>m. tm_targetId m = target \<and> tm_id m \<notin> ts_delivered st) (map_values (ts_messages st))"

text \<open>
  The queueing transaction of \<open>send\<close>. \<open>bytes\<close> is the length of the JSON text of a content list
  in UTF-8, and \<open>mid\<close> the random identity.
\<close>

definition send_decision ::
  "team_limits \<Rightarrow> (json list \<Rightarrow> int) \<Rightarrow> string \<Rightarrow> string \<Rightarrow> string \<Rightarrow> string \<Rightarrow> delivery_mode \<Rightarrow> json list \<Rightarrow> string
   \<Rightarrow> team_state \<Rightarrow> decision" where
  "send_decision limits bytes rid caller callerName rawTarget mode content mid st =
     rbind (resolveActiveMember rid st rawTarget) (\<lambda>target.
       if target = caller then Inl SelfMessage
       else if tl_maxPending limits \<le> int (length (pending_for st target)) then Inl MailboxFull
       else
         let m = \<lparr>tm_id = mid, tm_senderId = caller, tm_senderName = callerName, tm_targetId = target,
               tm_delivery = mode, tm_content = content\<rparr>
         in if tl_maxMessageBytes limits < bytes (deliveryContent m) then Inl MessageTooLarge
            else Inr (Some (Queued m), MessageOutcome mid))"

definition markDelivered :: "string \<Rightarrow> string \<Rightarrow> team_state \<Rightarrow> decision" where
  "markDelivered mid target st =
     (if mid \<in> ts_delivered st then Inr (None, NoOutcome)
      else case map_of (ts_messages st) mid of
          None \<Rightarrow> Inr (None, NoOutcome)
        | Some queued \<Rightarrow>
            if tm_targetId queued \<noteq> target then Inr (None, NoOutcome)
            else Inr (Some (Delivered mid target), NoOutcome))"

section \<open>Transactions\<close>

text \<open>
  One transaction of the journal: fold, decide, append and flush. A failed flush is reported,
  but the event stays in the log.
\<close>

definition appendTeam :: "string \<Rightarrow> int \<Rightarrow> team_log \<Rightarrow> team_change \<Rightarrow> team_log" where
  "appendTeam rid now events c =
     events @ [\<lparr>ev_data = Plugin (change_type c, encode_change rid c), ev_seq = length events, ev_time = now,
       ev_ignorable = False, ev_surfaceOp = None, ev_sources = None\<rparr>]"

definition transact ::
  "string \<Rightarrow> int \<Rightarrow> bool \<Rightarrow> team_log \<Rightarrow> (team_state \<Rightarrow> decision) \<Rightarrow> team_log \<times> (team_code + team_outcome)" where
  "transact rid now flushed events decide =
     (case foldTeam rid events of
        Inl e \<Rightarrow> (events, Inl (ReplayError e))
      | Inr st \<Rightarrow>
          (case decide st of
             Inl c \<Rightarrow> (events, Inl c)
           | Inr (None, r) \<Rightarrow> (events, Inr r)
           | Inr (Some c, r) \<Rightarrow>
               (appendTeam rid now events c, if flushed then Inr r else Inl FlushFailed)))"

definition create_decision :: "string \<Rightarrow> team_limits \<Rightarrow> create_request \<Rightarrow> team_state \<Rightarrow> decision" where
  "create_decision rid limits req st =
     rbind (created_task limits st req) (\<lambda>t. Inr (Some (TaskChange t), TaskOutcome (taskView rid st t)))"

definition update_decision :: "string \<Rightarrow> bool \<Rightarrow> string \<Rightarrow> update_request \<Rightarrow> team_state \<Rightarrow> decision" where
  "update_decision rid lead caller req st =
     rbind (updated_task rid lead caller st req) (\<lambda>t. Inr (Some (TaskChange t), TaskOutcome (taskView rid st t)))"

text \<open>Reading: \<open>get\<close> and \<open>list\<close>.\<close>

definition get_task :: "string \<Rightarrow> team_state \<Rightarrow> string \<Rightarrow> team_code + task_view" where
  "get_task rid st i = (case map_of (ts_tasks st) i of
       None \<Rightarrow> Inl TaskNotFound | Some t \<Rightarrow> Inr (taskView rid st t))"

definition list_tasks :: "string \<Rightarrow> team_state \<Rightarrow> task_view list" where
  "list_tasks rid st = map (taskView rid st) (active_tasks st)"

text \<open>
  The world of one team: its lead's log, and the members whose creation is in flight in this
  process. A restart loses those and keeps some prefix of the log.
\<close>

record team_world =
  tw_log :: team_log
  tw_creations :: "team_member list"

datatype team_op =
    CreateTask create_request
  | UpdateTask bool string update_request
  | ProvisionMember team_member
  | SettleMember team_member "string option"
  | ReconcileMember string "string option"
  | SendMessage string string string delivery_mode "json list" string
  | MarkDelivered string string
  | OtherEvent "(string \<times> json) event"
  | Restart nat

fun op_decision ::
  "string \<Rightarrow> team_limits \<Rightarrow> (json list \<Rightarrow> int) \<Rightarrow> team_op \<Rightarrow> team_state \<Rightarrow> decision" where
  "op_decision rid limits bytes (CreateTask req) st = create_decision rid limits req st"
| "op_decision rid limits bytes (UpdateTask lead caller req) st = update_decision rid lead caller req st"
| "op_decision rid limits bytes (ProvisionMember m) st = provision_decision limits m st"
| "op_decision rid limits bytes (SettleMember m failure) st = settle_decision (terminal_member m failure) st"
| "op_decision rid limits bytes (ReconcileMember i failure) st = reconcile_decision i failure st"
| "op_decision rid limits bytes (SendMessage caller callerName target mode content mid) st =
     send_decision limits bytes rid caller callerName target mode content mid st"
| "op_decision rid limits bytes (MarkDelivered mid target) st = markDelivered mid target st"
| "op_decision rid limits bytes _ st = Inr (None, NoOutcome)"

definition creations_after :: "team_op \<Rightarrow> team_code + team_outcome \<Rightarrow> team_member list \<Rightarrow> team_member list" where
  "creations_after op r ms =
     (case op of
        ProvisionMember m \<Rightarrow> if is_ok r then ms @ [m] else ms
      | SettleMember m _ \<Rightarrow> remove1 m ms
      | Restart _ \<Rightarrow> []
      | _ \<Rightarrow> ms)"

definition perform_op ::
  "string \<Rightarrow> team_limits \<Rightarrow> (json list \<Rightarrow> int) \<Rightarrow> int \<Rightarrow> bool \<Rightarrow> team_op \<Rightarrow> team_world
   \<Rightarrow> team_world \<times> (team_code + team_outcome)" where
  "perform_op rid limits bytes now flushed op w =
     (let (events, r) = transact rid now flushed (tw_log w) (op_decision rid limits bytes op);
          events = (case op of OtherEvent e \<Rightarrow> tw_log w @ [e] | Restart n \<Rightarrow> take n (tw_log w) | _ \<Rightarrow> events)
      in (\<lparr>tw_log = events, tw_creations = creations_after op r (tw_creations w)\<rparr>, r))"

text \<open>The checked start of \<open>spawn\<close>: the input is validated before the transaction.\<close>

definition spawn_start ::
  "string \<Rightarrow> team_limits \<Rightarrow> (json list \<Rightarrow> int) \<Rightarrow> int \<Rightarrow> bool \<Rightarrow> string \<Rightarrow> string \<Rightarrow> string \<Rightarrow> string
   \<Rightarrow> context_mode \<Rightarrow> team_world \<Rightarrow> team_world \<times> (team_code + team_outcome)" where
  "spawn_start rid limits bytes now flushed childId name description provider mode w =
     (case new_member childId name description provider mode of
        Inl c \<Rightarrow> (w, Inl c)
      | Inr m \<Rightarrow> perform_op rid limits bytes now flushed (ProvisionMember m) w)"

section \<open>Numeric task identities\<close>

lemma digits_value_snoc: "digits_value (s @ [c]) = 10 * digits_value s + (of_char c - 48)"
  by (simp add: digits_value_def)

lemma show_nat_digits: "list_all digit (show_nat n) \<and> digits_value (show_nat n) = n"
proof (induction n rule: show_nat.induct)
  case (1 n)
  show ?case
  proof (cases "n < 10")
    case True
    then show ?thesis
      by (subst (1 2) show_nat.simps) (simp add: digit_def digits_value_def)
  next
    case False
    with 1 show ?thesis
      by (subst (1 2) show_nat.simps) (simp add: digits_value_snoc, simp add: digit_def)
  qed
qed

lemma numeric_next_id: "0 \<le> ts_nextTaskNumber st \<Longrightarrow> numeric_task_id (next_task_id st) = Some (ts_nextTaskNumber st)"
  using show_nat_digits [of "nat (ts_nextTaskNumber st)"] show_nat_nonempty [of "nat (ts_nextTaskNumber st)"]
  by (simp add: numeric_task_id_def next_task_id_def)

text \<open>
  In a well-formed state the identity \<open>create\<close> picks is new, until the numbers of the safe
  integers are used up.
\<close>

theorem created_id_fresh:
  assumes "team_ok st" and "ts_nextTaskNumber st < max_safe"
  shows "map_of (ts_tasks st) (next_task_id st) = None"
proof -
  have "numeric_task_id (next_task_id st) = Some (ts_nextTaskNumber st)"
    using assms(1) by (intro numeric_next_id) (simp add: team_ok_def tasks_ok_def)
  then show ?thesis
    using assms unfolding map_of_None_keys team_ok_def tasks_ok_def by auto
qed

section \<open>What a decision appends\<close>

lemma known_id_ok: "tasks_ok st \<Longrightarrow> map_of (ts_tasks st) i = Some t \<Longrightarrow> task_id_ok i"
  by (force simp: tasks_ok_def keyed_def dest: map_of_SomeD)

lemma dependencies_ok:
  "dependencies_from is seen st self = Inr bs \<Longrightarrow> tasks_ok st \<Longrightarrow> bs = is \<and> list_all task_id_ok bs"
proof (induction "is" seen st self arbitrary: bs rule: dependencies_from.induct)
  case (2 i "is" seen st self)
  then obtain t js where "map_of (ts_tasks st) i = Some t" "dependencies_from is (insert i seen) st self = Inr js"
      "bs = i # js"
    by (auto simp: result_simps split: if_splits option.splits)
  with 2 known_id_ok show ?case by (auto split: if_splits)
qed simp

lemma assertTaskGraph_ok [result_simps]:
  "assertTaskGraph st t = Inr u \<longleftrightarrow> assertTaskGraphCandidate (ts_tasks st) t = Inr ()"
  by (auto simp: assertTaskGraph_def split: sum.splits)

lemma created_task_eq:
  assumes "created_task limits st req = Inr t"
  shows "tk_id t = next_task_id st" and "tk_revision t = 1" and "tk_status t = TPending"
    and "tk_ownerId t = None" and "map_of (ts_tasks st) (tk_id t) = None"
    and "tasks_ok st \<Longrightarrow> list_all task_id_ok (tk_blockedBy t)"
    and "assertTaskGraphCandidate (ts_tasks st) t = Inr ()"
    and "int (length (active_tasks st)) < tl_maxTasks limits"
  using assms
  by (auto simp: created_task_def dependencies_def result_simps Let_def split: if_splits dest: dependencies_ok)

definition same_identity :: "team_task \<Rightarrow> team_task \<Rightarrow> bool" where
  "same_identity a b \<longleftrightarrow> tk_id a = tk_id b \<and> tk_revision a = tk_revision b"

lemma resolve_nonempty:
  assumes "resolveActiveMember rid st n = Inr i" and "members_ok st" and "rid \<noteq> []"
  shows "i \<noteq> []"
  using assms
  by (fastforce simp: resolveActiveMember_def members_ok_def split: if_splits option.splits dest: map_of_SomeD)

lemma act_keeps_identity:
  "act rid lead caller st cur req a = Inr t \<Longrightarrow> tk_id t = tk_id cur"
  by (cases a) (auto simp: result_simps withoutOwner_def split: if_splits option.splits)

lemma act_valid:
  assumes "act rid lead caller st cur req a = Inr t" and "team_ok st" and "rid \<noteq> []" and "caller \<noteq> []"
    and "change_valid (TaskChange cur)"
  shows "tk_ownerId t \<noteq> Some [] \<and> list_all task_id_ok (tk_blockedBy t)"
  using assms
  by (cases a) (auto simp: result_simps withoutOwner_def dependencies_def team_ok_def split: if_splits option.splits
      dest: dependencies_ok resolve_nonempty)

lemma updated_task_eq:
  assumes "updated_task rid lead caller st req = Inr t"
  shows "\<exists>cur nxt. map_of (ts_tasks st) (ur_taskId req) = Some cur
    \<and> tk_revision cur = ur_expectedRevision req \<and> tk_status cur \<noteq> TDeleted
    \<and> act rid lead caller st cur req (ur_action req) = Inr nxt
    \<and> t = nxt\<lparr>tk_revision := tk_revision cur + 1\<rparr>
    \<and> assertTaskGraphCandidate (ts_tasks st) t = Inr ()"
  using assms
  by (auto simp: updated_task_def result_simps Let_def split: option.splits if_splits)

lemma updated_taskE:
  assumes "updated_task rid lead caller st req = Inr t"
  obtains cur nxt where "map_of (ts_tasks st) (ur_taskId req) = Some cur"
    and "tk_revision cur = ur_expectedRevision req" and "tk_status cur \<noteq> TDeleted"
    and "act rid lead caller st cur req (ur_action req) = Inr nxt"
    and "t = nxt\<lparr>tk_revision := tk_revision cur + 1\<rparr>"
    and "assertTaskGraphCandidate (ts_tasks st) t = Inr ()"
  using updated_task_eq [OF assms] by blast

lemma next_id_ok: "tasks_ok st \<Longrightarrow> task_id_ok (next_task_id st)"
  using numeric_next_id [of st]
  by (auto simp: task_id_ok_def tasks_ok_def safe_int_def) (simp add: next_task_id_def)

lemma created_accepted:
  assumes "created_task limits st req = Inr t" and "team_ok st"
  shows "change_valid (TaskChange t) \<and> is_ok (apply_task st t)"
proof -
  note t = created_task_eq [OF assms(1)]
  have "tasks_ok st" using assms(2) by (simp add: team_ok_def)
  with t next_id_ok show ?thesis
    by (simp add: apply_task_def max_safe_def)
qed

lemma updated_accepted:
  assumes "updated_task rid lead caller st req = Inr t" and "team_ok st" and "rid \<noteq> []" and "caller \<noteq> []"
    and "\<forall>cur \<in> set (map_values (ts_tasks st)). tk_revision cur < max_safe"
  shows "change_valid (TaskChange t) \<and> is_ok (apply_task st t)"
proof -
  from assms(1) obtain cur nxt where cur: "map_of (ts_tasks st) (ur_taskId req) = Some cur"
    and nxt: "act rid lead caller st cur req (ur_action req) = Inr nxt"
    and t: "t = nxt\<lparr>tk_revision := tk_revision cur + 1\<rparr>"
    and g: "assertTaskGraphCandidate (ts_tasks st) t = Inr ()" by (rule updated_taskE)
  have st: "keyed (ts_tasks st)" using assms(2) by (simp add: team_ok_def tasks_ok_def)
  have i: "tk_id nxt = ur_taskId req" "tk_id cur = ur_taskId req"
    using act_keeps_identity [OF nxt] keyed_id [OF st cur] by simp_all
  have m: "cur \<in> set (map_values (ts_tasks st))" using cur i keyed_lookup [OF st, of cur] by simp
  then have v: "change_valid (TaskChange cur)"
    using assms(2) unfolding team_ok_def tasks_ok_def by blast
  have "tk_revision cur < max_safe" using assms(5) m by blast
  with act_valid [OF nxt assms(2,3,4) v] v i t have "change_valid (TaskChange t)" by simp
  moreover have "is_ok (apply_task st t)"
    using g cur i t by (simp add: apply_task_def)
  ultimately show ?thesis by simp
qed

text \<open>What the surroundings give an operation: fresh random identities, real agents, typed content.\<close>

definition fresh_op :: "string \<Rightarrow> team_world \<Rightarrow> team_op \<Rightarrow> bool" where
  "fresh_op rid w op =
     (case op of
        UpdateTask _ caller _ \<Rightarrow> caller \<noteq> []
      | ProvisionMember m \<Rightarrow> mb_id m \<noteq> [] \<and> mb_phase m = Provisioning
          \<and> List.map_filter (member_change (mb_id m)) (team_changes rid (tw_log w)) = []
      | SettleMember m _ \<Rightarrow> m \<in> set (tw_creations w)
      | SendMessage caller _ _ _ content mid \<Rightarrow> caller \<noteq> [] \<and> mid \<noteq> [] \<and> list_all block_ok content
          \<and> mid \<notin> set (List.map_filter queued_id (team_changes rid (tw_log w)))
      | OtherEvent e \<Rightarrow> (case ev_data e of Plugin (t, _) \<Rightarrow> \<not> is_team_type t | _ \<Rightarrow> True)
      | _ \<Rightarrow> True)"

text \<open>An in-flight creation is the provisioning of a member the log knows.\<close>

definition same_member :: "team_member \<Rightarrow> team_member \<Rightarrow> bool" where
  "same_member a b \<longleftrightarrow> mb_id a = mb_id b \<and> mb_name a = mb_name b \<and> mb_provider a = mb_provider b
     \<and> mb_context a = mb_context b"

definition creations_ok :: "team_state \<Rightarrow> team_member list \<Rightarrow> bool" where
  "creations_ok st ms \<longleftrightarrow> (\<forall>m \<in> set ms. mb_id m \<noteq> []
     \<and> (\<exists>cur. map_of (ts_members st) (mb_id m) = Some cur \<and> same_member cur m))"

lemma settled_accepted:
  assumes "map_of (ts_members st) (mb_id m) = Some cur" and "same_member cur m" and "mb_phase cur = Provisioning"
    and "mb_id m \<noteq> []" and "members_ok st"
  shows "change_valid (MemberChange (terminal_member m failure)) \<and> is_ok (apply_member st (terminal_member m failure))"
proof -
  let ?t = "terminal_member m failure"
  have t: "mb_id ?t = mb_id m" "mb_name ?t = mb_name m" "mb_provider ?t = mb_provider m"
      "mb_context ?t = mb_context m" "mb_phase ?t \<noteq> Provisioning"
    by (simp_all add: terminal_member_def split: option.splits)
  have "map_of (ts_names st) (mb_name m) = Some (mb_id m)"
    using assms(1,2,5) by (auto simp: members_ok_def same_member_def)
  with t assms show ?thesis by (simp add: apply_member_def same_member_def)
qed

lemma provision_accepted:
  assumes "provision_decision limits m st = Inr (Some c, r)" and "mb_id m \<noteq> []" and "mb_phase m = Provisioning"
    and "map_of (ts_members st) (mb_id m) = None"
  shows "c = MemberChange m \<and> change_valid c \<and> is_ok (applyTeamChange st c)
    \<and> int (length (ts_members st)) < tl_maxMembers limits"
  using assms by (auto simp: provision_decision_def apply_member_def split: if_splits)

lemma send_accepted:
  assumes "send_decision limits bytes rid caller callerName target mode content mid st = Inr (Some c, r)"
    and "team_ok st" and "rid \<noteq> []" and "caller \<noteq> []" and "mid \<noteq> []" and "list_all block_ok content"
    and "map_of (ts_messages st) mid = None"
  shows "change_valid c \<and> is_ok (applyTeamChange st c)
    \<and> (\<exists>m. c = Queued m \<and> int (length (pending_for st (tm_targetId m))) < tl_maxPending limits)"
  using assms
  by (auto simp: send_decision_def result_simps Let_def team_ok_def split: if_splits dest: resolve_nonempty)

lemma delivered_accepted:
  assumes "markDelivered mid target st = Inr (Some c, r)"
    and "messages_ok st"
  shows "c = Delivered mid target \<and> change_valid c \<and> is_ok (applyTeamChange st c)"
  using assms by (fastforce simp: markDelivered_def messages_ok_def split: if_splits option.splits dest: map_of_SomeD)

text \<open>Every change the service decides on is one the strict fold accepts.\<close>

definition revisions_below :: "team_state \<Rightarrow> bool" where
  "revisions_below st \<longleftrightarrow> (\<forall>t \<in> set (map_values (ts_tasks st)). tk_revision t < max_safe)"

lemma decision_accepted:
  assumes d: "op_decision rid limits bytes op st = Inr (Some c, r)" and ok: "team_ok st" and rid: "rid \<noteq> []"
    and h: "team_history rid (tw_log w) st" and f: "fresh_op rid w op" and cr: "creations_ok st (tw_creations w)"
    and below: "revisions_below st"
  shows "change_valid c \<and> is_ok (applyTeamChange st c)"
proof (cases op)
  case (CreateTask req)
  with d obtain t where "created_task limits st req = Inr t" "c = TaskChange t"
    by (auto simp: create_decision_def result_simps)
  with created_accepted ok show ?thesis by simp
next
  case (UpdateTask lead caller req)
  with d obtain t where "updated_task rid lead caller st req = Inr t" "c = TaskChange t"
    by (auto simp: update_decision_def result_simps)
  moreover have "caller \<noteq> []" using f UpdateTask by (simp add: fresh_op_def)
  ultimately show ?thesis using updated_accepted ok rid below by (simp add: revisions_below_def)
next
  case (ProvisionMember m)
  with f have "mb_id m \<noteq> []" "mb_phase m = Provisioning"
      and none: "List.map_filter (member_change (mb_id m)) (team_changes rid (tw_log w)) = []"
    by (simp_all add: fresh_op_def)
  moreover have "map_of (ts_members st) (mb_id m) = None"
    using h none by (simp add: team_history_def member_history_def Let_def)
  ultimately show ?thesis using d ProvisionMember provision_accepted by auto
next
  case (SettleMember m failure)
  with f cr obtain cur where cur: "map_of (ts_members st) (mb_id m) = Some cur" "same_member cur m" "mb_id m \<noteq> []"
    by (auto simp: fresh_op_def creations_ok_def)
  moreover have t: "mb_id (terminal_member m failure) = mb_id m"
    by (simp add: terminal_member_def split: option.split)
  ultimately have "c = MemberChange (terminal_member m failure)" "mb_phase cur = Provisioning"
    using d SettleMember by (auto simp: settle_decision_def split: if_splits)
  with settled_accepted [of st m cur] cur ok show ?thesis by (simp add: team_ok_def)
next
  case (ReconcileMember i failure)
  with d obtain cur where cur: "map_of (ts_members st) i = Some cur" "mb_phase cur = Provisioning"
      "c = MemberChange (terminal_member cur failure)"
    by (auto simp: reconcile_decision_def split: option.splits if_splits)
  moreover have "mb_id cur = i" "i \<noteq> []"
    using ok cur(1) by (auto simp: team_ok_def members_ok_def dest!: map_of_SomeD)
  ultimately show ?thesis
    using settled_accepted [of st cur cur] ok by (simp add: team_ok_def same_member_def)
next
  case (SendMessage caller callerName target mode content mid)
  with f have "caller \<noteq> []" "mid \<noteq> []" "list_all block_ok content"
      and new: "mid \<notin> set (List.map_filter queued_id (team_changes rid (tw_log w)))"
    by (simp_all add: fresh_op_def)
  moreover have "map_of (ts_messages st) mid = None"
    using h new unfolding map_of_None_keys team_history_def message_history_def Let_def by simp
  ultimately show ?thesis using send_accepted [OF _ ok rid] d SendMessage by auto
next
  case (MarkDelivered mid target)
  with d delivered_accepted ok show ?thesis by (simp add: team_ok_def)
qed (use d in simp_all)

section \<open>Limits\<close>

definition limits_ok :: "team_limits \<Rightarrow> bool" where
  "limits_ok limits \<longleftrightarrow> 1 \<le> tl_maxMembers limits \<and> 1 \<le> tl_maxTasks limits \<and> 1 \<le> tl_maxPending limits
     \<and> 1 \<le> tl_maxMessageBytes limits"

definition within_limits :: "team_limits \<Rightarrow> team_state \<Rightarrow> bool" where
  "within_limits limits st \<longleftrightarrow> int (length (ts_members st)) \<le> tl_maxMembers limits
     \<and> int (length (active_tasks st)) \<le> tl_maxTasks limits
     \<and> (\<forall>target. int (length (pending_for st target)) \<le> tl_maxPending limits)"

lemma length_replace:
  assumes "map_of m k = Some old" and "P old"
  shows "length (filter P (map_values (map_set k v m))) \<le> length (filter P (map_values m))"
  using assms by (induction k v m rule: map_set.induct) (auto split: if_splits)

lemma length_map_set: "length (map_set k v m) = (if map_of m k = None then Suc (length m) else length m)"
  by (induction k v m rule: map_set.induct) auto

lemmas decision_defs = create_decision_def update_decision_def provision_decision_def settle_decision_def
  reconcile_decision_def send_decision_def markDelivered_def Let_def

lemma decided_member:
  assumes "op_decision rid limits bytes op st = Inr (Some (MemberChange m), r)" and "team_ok st"
  shows "int (length (ts_members st)) < tl_maxMembers limits \<or> map_of (ts_members st) (mb_id m) \<noteq> None"
proof (cases op)
  case (ReconcileMember i failure)
  with assms(1) obtain cur where cur: "map_of (ts_members st) i = Some cur" "m = terminal_member cur failure"
    by (auto simp: reconcile_decision_def split: option.splits if_splits)
  then have "mb_id m = mb_id cur" by (simp add: terminal_member_def split: option.split)
  moreover have "mb_id cur = i"
    using assms(2) cur(1) by (auto simp: team_ok_def members_ok_def dest!: map_of_SomeD)
  ultimately show ?thesis using cur by simp
qed (use assms in \<open>auto simp: decision_defs result_simps split: if_splits option.splits\<close>)

lemma decision_within_limits:
  assumes d: "op_decision rid limits bytes op st = Inr (Some c, r)" and ok: "team_ok st" and rid: "rid \<noteq> []"
    and a: "applyTeamChange st c = Inr st'" and within: "within_limits limits st"
    and f: "fresh_op rid w op" and h: "team_history rid (tw_log w) st" and cr: "creations_ok st (tw_creations w)"
  shows "within_limits limits st'"
proof (cases c)
  case (TaskChange t)
  then have st': "st' = st\<lparr>ts_nextTaskNumber := next_number (ts_nextTaskNumber st) (tk_id t),
        ts_tasks := map_set (tk_id t) t (ts_tasks st)\<rparr>"
    using a by (auto simp: apply_task_def result_simps split: sum.splits)
  have "int (length (active_tasks st')) \<le> tl_maxTasks limits"
  proof (cases op)
    case (CreateTask req)
    with d TaskChange have "created_task limits st req = Inr t" by (auto simp: create_decision_def result_simps)
    note t = created_task_eq [OF this]
    have "map_set (tk_id t) t (ts_tasks st) = ts_tasks st @ [(tk_id t, t)]"
      using t(5) by (intro map_set_fresh) (simp add: map_of_None_keys)
    with t(8) st' show ?thesis by (simp add: active_tasks_def)
  next
    case (UpdateTask lead caller req)
    with d TaskChange have "updated_task rid lead caller st req = Inr t"
      by (auto simp: update_decision_def result_simps)
    then obtain cur nxt where "map_of (ts_tasks st) (ur_taskId req) = Some cur" "tk_status cur \<noteq> TDeleted"
        "act rid lead caller st cur req (ur_action req) = Inr nxt" "t = nxt\<lparr>tk_revision := tk_revision cur + 1\<rparr>"
      by (rule updated_taskE)
    moreover have "tk_id cur = ur_taskId req" using keyed_id calculation(1) ok by (auto simp: team_ok_def tasks_ok_def)
    ultimately have "length (active_tasks st') \<le> length (active_tasks st)"
      using act_keeps_identity [of rid lead caller st cur req "ur_action req" nxt]
        length_replace [of "ts_tasks st" "tk_id t" cur "\<lambda>t. tk_status t \<noteq> TDeleted" t] st'
      by (simp add: active_tasks_def)
    with within show ?thesis by (simp add: within_limits_def)
  qed (use d TaskChange in \<open>auto simp: decision_defs result_simps split: if_splits option.splits\<close>)
  with within st' show ?thesis by (simp add: within_limits_def pending_for_def)
next
  case (MemberChange m)
  then have "ts_members st' = map_set (mb_id m) m (ts_members st)"
    and rest: "ts_tasks st' = ts_tasks st" "ts_messages st' = ts_messages st" "ts_delivered st' = ts_delivered st"
    using a by (auto simp: apply_member_def split: if_splits option.splits)
  moreover have "map_of (ts_members st) (mb_id m) = None \<Longrightarrow> int (length (ts_members st)) < tl_maxMembers limits"
    using decided_member [OF d [unfolded MemberChange] ok] by auto
  ultimately show ?thesis
    using within rest by (auto simp: within_limits_def active_tasks_def pending_for_def length_map_set)
next
  case (Queued m)
  then have st': "st' = st\<lparr>ts_messages := ts_messages st @ [(tm_id m, m)]\<rparr>"
    using a by (auto simp: map_set_fresh map_of_None_keys split: if_splits)
  have "int (length (pending_for st (tm_targetId m))) < tl_maxPending limits"
    using d Queued
    by (cases op) (auto simp: decision_defs result_simps split: if_splits option.splits)
  with within st' show ?thesis by (auto simp: within_limits_def active_tasks_def pending_for_def)
next
  case (Delivered mid target)
  then have st': "st' = st\<lparr>ts_delivered := insert mid (ts_delivered st)\<rparr>"
    using a by (auto split: if_splits option.splits)
  have "length (pending_for st' x) \<le> length (pending_for st x)" for x
  proof -
    have "pending_for st' x = filter (\<lambda>m. tm_id m \<noteq> mid) (pending_for st x)"
      unfolding st' pending_for_def by (auto intro: filter_cong)
    then show ?thesis by simp
  qed
  then have "int (length (pending_for st' x)) \<le> tl_maxPending limits" for x
    using within unfolding within_limits_def by (meson of_nat_mono order_trans)
  with within st' show ?thesis by (auto simp: within_limits_def active_tasks_def)
qed

section \<open>Every run of the services\<close>

text \<open>
  The worlds the services reach from a session whose log holds no record of its own team, with
  logs whose length is a safe integer.
\<close>

inductive team_run :: "string \<Rightarrow> team_limits \<Rightarrow> (json list \<Rightarrow> int) \<Rightarrow> team_world \<Rightarrow> bool"
  for rid limits bytes where
  start: "foldTeam rid events = Inr st \<Longrightarrow> team_changes rid events = [] \<Longrightarrow>
    team_run rid limits bytes \<lparr>tw_log = events, tw_creations = []\<rparr>"
| step: "team_run rid limits bytes w \<Longrightarrow> fresh_op rid w op \<Longrightarrow> int (length (tw_log w)) < max_safe \<Longrightarrow>
    team_run rid limits bytes (fst (perform_op rid limits bytes now flushed op w))"

definition log_ok :: "string \<Rightarrow> team_limits \<Rightarrow> team_log \<Rightarrow> bool" where
  "log_ok rid limits events \<longleftrightarrow> (\<forall>n. \<exists>st. foldTeam rid (take n events) = Inr st \<and> within_limits limits st)"

definition run_ok :: "string \<Rightarrow> team_limits \<Rightarrow> team_world \<Rightarrow> bool" where
  "run_ok rid limits w \<longleftrightarrow> log_ok rid limits (tw_log w)
     \<and> (\<forall>st. foldTeam rid (tw_log w) = Inr st \<longrightarrow> creations_ok st (tw_creations w))"

lemma log_okD: "log_ok rid limits events \<Longrightarrow> \<exists>st. foldTeam rid events = Inr st \<and> within_limits limits st"
  unfolding log_ok_def by (metis order_refl take_all)

lemma log_ok_take: "log_ok rid limits events \<Longrightarrow> log_ok rid limits (take n events)"
  by (auto simp: log_ok_def)

lemma log_ok_snoc:
  assumes "log_ok rid limits events" and "foldTeam rid (events @ [e]) = Inr st" and "within_limits limits st"
  shows "log_ok rid limits (events @ [e])"
  unfolding log_ok_def
proof
  fix n
  show "\<exists>st. foldTeam rid (take n (events @ [e])) = Inr st \<and> within_limits limits st"
    using assms by (cases "n \<le> length events") (auto simp: log_ok_def)
qed

lemma length_map_filter_le: "length (List.map_filter f xs) \<le> length xs"
  by (induction xs) (auto simp: map_filter_simps split: option.split)

lemma revisions_below_log:
  assumes "team_history rid events st" and "keyed (ts_tasks st)" and "int (length events) < max_safe"
  shows "revisions_below st"
  unfolding revisions_below_def
proof
  fix t assume "t \<in> set (map_values (ts_tasks st))"
  then have "map_of (ts_tasks st) (tk_id t) = Some t" using keyed_lookup assms(2) by blast
  define ts where "ts = List.map_filter (task_change (tk_id t)) (team_changes rid events)"
  have ts: "map tk_revision ts = [1..int (length ts)]" "last_option ts = Some t"
    using assms(1) \<open>map_of _ _ = _\<close> by (simp_all add: team_history_def task_history_def Let_def ts_def)
  then obtain us where "ts = us @ [t]" by (auto simp: last_option_eq)
  with ts(1) have "tk_revision t \<in> set [1..int (length ts)]" by (metis in_set_conv_decomp list.set_map imageI)
  then have "tk_revision t \<le> int (length ts)" by simp
  moreover have "length ts \<le> length (team_changes rid events)" "length (team_changes rid events) \<le> length events"
    unfolding ts_def team_changes_def by (rule length_map_filter_le)+
  ultimately show "tk_revision t < max_safe" using assms(3) by linarith
qed

lemma fold_snoc: "foldTeam rid (events @ [e]) = rbind (foldTeam rid events) (\<lambda>st. applyTeamEvent st e)"
  by (simp add: foldTeam_def run_steps_snoc)

lemma fold_prefix: "foldTeam rid (xs @ ys) = Inr st \<Longrightarrow> \<exists>s. foldTeam rid xs = Inr s"
  by (auto simp: foldTeam_def run_steps_append result_simps)

lemma team_changes_append: "team_changes rid (xs @ ys) = team_changes rid xs @ team_changes rid ys"
  by (simp add: team_changes_def List.map_filter_def)

lemma fold_id: "foldTeam rid events = Inr st \<Longrightarrow> ts_id st = rid"
  using fold_history_of [of rid events st] by (simp add: team_history_def)

lemma change_keeps_members:
  assumes "applyTeamChange st c = Inr st'" and "map_of (ts_members st) i = Some cur" and "members_ok st"
  shows "\<exists>cur'. map_of (ts_members st') i = Some cur' \<and> same_member cur' cur"
proof (cases c)
  case (MemberChange m)
  then have a: "apply_member st m = Inr st'" using assms(1) by simp
  then have st': "ts_members st' = map_set (mb_id m) m (ts_members st)"
    by (auto simp: apply_member_def split: if_splits option.splits)
  show ?thesis
  proof (cases "i = mb_id m")
    case True
    then have "mb_id cur = mb_id m" using assms(2,3) by (auto simp: members_ok_def dest!: map_of_SomeD)
    with a assms(2) True st' show ?thesis
      by (auto simp: apply_member_def same_member_def split: if_splits)
  qed (use assms st' in \<open>simp add: same_member_def\<close>)
qed (use assms in \<open>auto simp: apply_task_def result_simps same_member_def split: if_splits sum.splits option.splits\<close>)

lemma creations_keep:
  assumes "creations_ok st ms" and "applyTeamChange st c = Inr st'" and "members_ok st"
  shows "creations_ok st' ms"
  using assms change_keeps_members [OF assms(2) _ assms(3)]
  by (fastforce simp: creations_ok_def same_member_def)

lemma other_event_ignored:
  "(case ev_data e of Plugin (t, _) \<Rightarrow> \<not> is_team_type t | _ \<Rightarrow> True) \<Longrightarrow> applyTeamEvent st e = Inr st"
  by (auto simp: applyTeamEvent_def split: event_data.splits prod.splits)

text \<open>The step on the log: unchanged, one accepted change more, an ignored event more, or a prefix.\<close>

lemma perform_log:
  assumes "foldTeam rid (tw_log w) = Inr st" and "\<forall>e. op \<noteq> OtherEvent e" and "\<forall>n. op \<noteq> Restart n"
  shows "tw_log (fst (perform_op rid limits bytes now flushed op w)) =
    (case op_decision rid limits bytes op st of Inr (Some c, r) \<Rightarrow> appendTeam rid now (tw_log w) c | _ \<Rightarrow> tw_log w)"
  using assms
  by (cases op) (auto simp: perform_op_def transact_def Let_def split: prod.splits sum.splits option.splits)

lemma perform_creations:
  "tw_creations (fst (perform_op rid limits bytes now flushed op w)) =
   creations_after op (snd (perform_op rid limits bytes now flushed op w)) (tw_creations w)"
  by (simp add: perform_op_def Let_def split: prod.splits)

lemma append_accepted:
  assumes "foldTeam rid events = Inr st" and "change_valid c" and "applyTeamChange st c = Inr st'" and "rid \<noteq> []"
  shows "foldTeam rid (appendTeam rid now events c) = Inr st'"
  using assms own_event(2) [of _ c rid st] fold_id [OF assms(1)]
  by (simp add: appendTeam_def fold_snoc)

lemma creations_subset: "creations_ok st ms \<Longrightarrow> set ns \<subseteq> set ms \<Longrightarrow> creations_ok st ns"
  by (auto simp: creations_ok_def)

lemma creations_after_subset:
  "(\<forall>m. op = ProvisionMember m \<longrightarrow> \<not> is_ok r) \<Longrightarrow> set (creations_after op r ms) \<subseteq> set ms"
  by (auto simp: creations_after_def split: team_op.splits dest: set_remove1_subset [THEN subsetD])

lemma run_ok_append:
  assumes ok: "run_ok rid limits w" and rid: "rid \<noteq> []" and f: "fresh_op rid w op"
    and len: "int (length (tw_log w)) < max_safe" and st: "foldTeam rid (tw_log w) = Inr st"
    and d: "op_decision rid limits bytes op st = Inr (Some c, r)"
  obtains st' where "foldTeam rid (appendTeam rid now (tw_log w) c) = Inr st'"
    and "log_ok rid limits (appendTeam rid now (tw_log w) c)" and "applyTeamChange st c = Inr st'"
    and "creations_ok st' (tw_creations w)"
proof -
  have team: "team_ok st" and h: "team_history rid (tw_log w) st"
    using st by (rule fold_team_ok, rule fold_history_of)
  then have members: "members_ok st" and keyed: "keyed (ts_tasks st)" by (simp_all add: team_ok_def tasks_ok_def)
  have cr: "creations_ok st (tw_creations w)" using ok st by (simp add: run_ok_def)
  have l: "log_ok rid limits (tw_log w)" using ok by (simp add: run_ok_def)
  have within: "within_limits limits st" using log_okD [OF l] st by simp
  have c: "change_valid c" "is_ok (applyTeamChange st c)"
    using decision_accepted [OF d team rid h f cr] revisions_below_log [OF h keyed len] by simp_all
  then obtain st' where st': "applyTeamChange st c = Inr st'" by (auto simp: is_ok_iff)
  have folded: "foldTeam rid (appendTeam rid now (tw_log w) c) = Inr st'"
    using append_accepted [OF st c(1) st' rid] .
  moreover have "log_ok rid limits (appendTeam rid now (tw_log w) c)"
    using log_ok_snoc [OF l] folded decision_within_limits [OF d team rid st' within f h cr]
    by (simp add: appendTeam_def)
  ultimately show ?thesis using that st' creations_keep [OF cr st' members] by blast
qed

lemma provisioned_member:
  assumes "applyTeamChange st (MemberChange m) = Inr st'"
  shows "map_of (ts_members st') (mb_id m) = Some m"
  using assms by (auto simp: apply_member_def split: if_splits option.splits)

lemma run_ok_step:
  assumes ok: "run_ok rid limits w" and rid: "rid \<noteq> []" and f: "fresh_op rid w op"
    and len: "int (length (tw_log w)) < max_safe"
  shows "run_ok rid limits (fst (perform_op rid limits bytes now flushed op w))"
proof -
  let ?w = "fst (perform_op rid limits bytes now flushed op w)"
  let ?r = "snd (perform_op rid limits bytes now flushed op w)"
  have l: "log_ok rid limits (tw_log w)" using ok by (simp add: run_ok_def)
  then obtain st where st: "foldTeam rid (tw_log w) = Inr st" and within: "within_limits limits st"
    using log_okD by blast
  have cr: "creations_ok st (tw_creations w)" using ok st by (simp add: run_ok_def)
  consider (other) e where "op = OtherEvent e" | (restart) n where "op = Restart n"
    | (call) "\<forall>e. op \<noteq> OtherEvent e" "\<forall>n. op \<noteq> Restart n" by blast
  then show ?thesis
  proof cases
    case other
    then have e: "applyTeamEvent st e = Inr st" using f other_event_ignored by (simp add: fresh_op_def)
    then have folded: "foldTeam rid (tw_log w @ [e]) = Inr st" using st by (simp add: fold_snoc)
    have w: "tw_log ?w = tw_log w @ [e]" "tw_creations ?w = tw_creations w"
      using other by (simp_all add: perform_op_def creations_after_def Let_def split: prod.splits)
    show ?thesis
      unfolding run_ok_def w using log_ok_snoc [OF l folded within] folded cr by simp
  next
    case restart
    then have w: "tw_log ?w = take n (tw_log w)" "tw_creations ?w = []"
      by (simp_all add: perform_op_def creations_after_def Let_def split: prod.splits)
    show ?thesis unfolding run_ok_def w using log_ok_take [OF l] by (simp add: creations_ok_def)
  next
    case call
    note log = perform_log [OF st call, of limits bytes now flushed]
    note made = perform_creations [of rid limits bytes now flushed op w]
    show ?thesis
    proof (cases "\<exists>c r. op_decision rid limits bytes op st = Inr (Some c, r)")
      case True
      then obtain c r where d: "op_decision rid limits bytes op st = Inr (Some c, r)" by blast
      obtain st' where a: "foldTeam rid (appendTeam rid now (tw_log w) c) = Inr st'"
        "log_ok rid limits (appendTeam rid now (tw_log w) c)" "applyTeamChange st c = Inr st'"
        "creations_ok st' (tw_creations w)"
        using run_ok_append [OF ok rid f len st d] by blast
      have "creations_ok st' (creations_after op ?r (tw_creations w))"
      proof (cases "\<exists>m. op = ProvisionMember m \<and> is_ok ?r")
        case True
        then obtain m where m: "op = ProvisionMember m" "is_ok ?r" by blast
        then have "c = MemberChange m" using d by (auto simp: provision_decision_def split: if_splits)
        with a(3) have "map_of (ts_members st') (mb_id m) = Some m" using provisioned_member by simp
        with m f a(4) show ?thesis
          by (auto simp: creations_after_def creations_ok_def fresh_op_def same_member_def)
      next
        case False
        then have "set (creations_after op ?r (tw_creations w)) \<subseteq> set (tw_creations w)"
          by (intro creations_after_subset) auto
        with a(4) creations_subset show ?thesis by blast
      qed
      with a log d made show ?thesis by (simp add: run_ok_def)
    next
      case False
      then have "tw_log ?w = tw_log w"
        using log by (auto split: sum.splits prod.splits option.splits)
      moreover have "set (creations_after op ?r (tw_creations w)) \<subseteq> set (tw_creations w)"
      proof (rule creations_after_subset, intro allI impI)
        fix m assume "op = ProvisionMember m"
        with False st show "\<not> is_ok ?r"
          by (auto simp: perform_op_def transact_def provision_decision_def Let_def split: if_splits)
      qed
      ultimately show ?thesis
        using ok made creations_subset by (auto simp: run_ok_def)
    qed
  qed
qed

lemma no_keys: "(\<forall>i. map_of m i = None) \<longleftrightarrow> m = []"
  by (cases m) auto

lemma team_run_ok:
  assumes "team_run rid limits bytes w" and "limits_ok limits" and "rid \<noteq> []"
  shows "run_ok rid limits w"
  using assms(1)
proof induction
  case (start events st)
  have "\<exists>s. foldTeam rid (take n events) = Inr s \<and> within_limits limits s" for n
  proof -
    obtain s where s: "foldTeam rid (take n events) = Inr s"
      using fold_prefix [of rid "take n events" "drop n events" st] start(1) by auto
    have "team_changes rid (take n events) = []"
      using team_changes_append [of rid "take n events" "drop n events"] start(2) by simp
    with fold_history_of [OF s] have "\<forall>i. map_of (ts_tasks s) i = None" "\<forall>i. map_of (ts_members s) i = None"
        "map_keys (ts_messages s) = []"
      by (simp_all add: team_history_def task_history_def member_history_def message_history_def map_filter_simps)
    then have "ts_tasks s = []" "ts_members s = []" "ts_messages s = []"
      using no_keys by auto
    with s assms(2) show ?thesis
      by (simp add: within_limits_def limits_ok_def active_tasks_def pending_for_def)
  qed
  then show ?case by (simp add: run_ok_def log_ok_def creations_ok_def)
next
  case (step w op now flushed)
  then show ?case using run_ok_step assms(3) by blast
qed

text \<open>
  C18. Whatever calls, foreign events, failed flushes and restarts happen, the strict fold
  accepts the log the services wrote, each prefix of it included, and no prefix has more
  members, live tasks or pending messages of one target than the limits allow.
\<close>

theorem team_log_accepted:
  assumes "team_run rid limits bytes w" and "limits_ok limits" and "rid \<noteq> []"
  shows "\<exists>st. foldTeam rid (take n (tw_log w)) = Inr st \<and> within_limits limits st"
  using team_run_ok [OF assms] by (simp add: run_ok_def log_ok_def)

section \<open>What an update may do\<close>

text \<open>The status changes of each action.\<close>

fun transition_ok :: "task_action \<Rightarrow> task_status \<Rightarrow> task_status \<Rightarrow> bool" where
  "transition_ok Claim a b \<longleftrightarrow> a = TPending \<and> b = TInProgress"
| "transition_ok Release a b \<longleftrightarrow> a = TInProgress \<and> b = TPending"
| "transition_ok Complete a b \<longleftrightarrow> a = TInProgress \<and> b = TCompleted"
| "transition_ok Reopen a b \<longleftrightarrow> a = TCompleted \<and> b = TPending"
| "transition_ok Reassign a b \<longleftrightarrow> (a = TPending \<or> a = TInProgress) \<and> (b = TPending \<or> b = TInProgress)"
| "transition_ok Delete a b \<longleftrightarrow> a \<noteq> TDeleted \<and> b = TDeleted"
| "transition_ok _ a b \<longleftrightarrow> a \<noteq> TDeleted \<and> b = a"

definition may_update :: "bool \<Rightarrow> string \<Rightarrow> team_task \<Rightarrow> task_action \<Rightarrow> bool" where
  "may_update lead caller cur a \<longleftrightarrow> lead \<or> (a \<noteq> Reassign \<and> tk_ownerId cur = Some caller)
     \<or> (a = Claim \<and> tk_ownerId cur = None)"

lemma act_allowed:
  assumes "act rid lead caller st cur req a = Inr nxt" and "tk_status cur \<noteq> TDeleted"
  shows "may_update lead caller cur a \<and> transition_ok a (tk_status cur) (tk_status nxt)
    \<and> (tk_status nxt = TInProgress \<and> tk_status cur \<noteq> TInProgress \<longrightarrow> taskReady st cur \<and> tk_ownerId nxt \<noteq> None)
    \<and> (tk_status nxt = TPending \<and> tk_status cur \<noteq> TPending \<longrightarrow> tk_ownerId nxt = None)"
  using assms
  by (cases a) (auto simp: result_simps authorizeOwner_def may_update_def withoutOwner_def
      split: if_splits option.splits)

text \<open>
  An update commits only against the revision the caller saw, by the lead, the owner or a
  claimant of a free task, along the transitions of its action; a task starts only when all its
  blockers are completed, and then has an owner, and one that goes back to pending has none.
\<close>

theorem update_authorized:
  assumes "updated_task rid lead caller st req = Inr t"
  shows "\<exists>cur. map_of (ts_tasks st) (ur_taskId req) = Some cur \<and> tk_revision cur = ur_expectedRevision req
    \<and> tk_revision t = tk_revision cur + 1 \<and> tk_id t = tk_id cur
    \<and> may_update lead caller cur (ur_action req)
    \<and> transition_ok (ur_action req) (tk_status cur) (tk_status t)
    \<and> (tk_status t = TInProgress \<and> tk_status cur \<noteq> TInProgress \<longrightarrow> taskReady st cur \<and> tk_ownerId t \<noteq> None)
    \<and> (tk_status t = TPending \<and> tk_status cur \<noteq> TPending \<longrightarrow> tk_ownerId t = None)"
proof -
  from assms obtain cur nxt where "map_of (ts_tasks st) (ur_taskId req) = Some cur"
    "tk_revision cur = ur_expectedRevision req" and live: "tk_status cur \<noteq> TDeleted"
    and nxt: "act rid lead caller st cur req (ur_action req) = Inr nxt"
    and "t = nxt\<lparr>tk_revision := tk_revision cur + 1\<rparr>" by (rule updated_taskE)
  with act_allowed [OF nxt live] act_keeps_identity [OF nxt] show ?thesis by simp
qed

section \<open>The view of a committed task\<close>

lemma filter_map_set:
  assumes "\<forall>old. map_of m k = Some old \<longrightarrow> \<not> P old" and "\<not> P v"
  shows "filter P (map_values (map_set k v m)) = filter P (map_values m)"
  using assms by (induction k v m rule: map_set.induct) (auto split: if_splits)

text \<open>
  The view computed from the fold before the append is the view from the fold after it:
  owner name, readiness and overlap warnings do not change when the task is appended.
\<close>

theorem view_after_append:
  assumes "team_ok st" and "apply_task st t = Inr st'"
  shows "taskView rid st' t = taskView rid st t"
proof -
  have st': "st' = st\<lparr>ts_nextTaskNumber := next_number (ts_nextTaskNumber st) (tk_id t),
        ts_tasks := map_set (tk_id t) t (ts_tasks st)\<rparr>"
    and g: "assertTaskGraphCandidate (ts_tasks st) t = Inr ()"
    using assms(2) by (auto simp: apply_task_def result_simps split: sum.splits)
  have k: "keyed (ts_tasks st)" using assms(1) by (simp add: team_ok_def tasks_ok_def)
  have "graph_ok (map_set (tk_id t) t (ts_tasks st))" using g graph_accepted_iff k by simp
  then have self: "tk_id t \<notin> set (tk_blockedBy t)" if "tk_status t \<noteq> TDeleted"
    using that self_cycle [of "map_set (tk_id t) t (ts_tasks st)" "tk_id t" "tk_blockedBy t"]
    by (auto simp: graph_ok_def acyclic_def live_blockers_def)
  have "taskReady st' t = taskReady st t" if "tk_status t = TPending"
    unfolding taskReady_def using self that st' by (intro list.pred_cong) auto
  moreover have "overlap_warnings st' t = overlap_warnings st t"
  proof -
    let ?P = "\<lambda>other. tk_id other \<noteq> tk_id t \<and> tk_status other = TInProgress
          \<and> list_ex (\<lambda>l. list_ex (scopesOverlap l) (tk_writeScopes other)) (tk_writeScopes t)"
    have "filter ?P (map_values (ts_tasks st')) = filter ?P (map_values (ts_tasks st))"
      unfolding st' using keyed_id [OF k] by (simp, intro filter_map_set) auto
    then show ?thesis by (simp only: overlap_warnings_def)
  qed
  moreover have "ts_members st' = ts_members st" using st' by simp
  ultimately show ?thesis unfolding taskView_def by (auto split: option.split)
qed

section \<open>Write scopes\<close>

fun join_slash :: "string list \<Rightarrow> string" where
  "join_slash [] = []"
| "join_slash [s] = s"
| "join_slash (s # t # ss) = s @ CHR ''/'' # join_slash (t # ss)"

lemma split_nonempty [simp]: "split_slash s \<noteq> []"
  by (induction s) (auto split: list.splits)

lemma split_append: "split_slash (s @ CHR ''/'' # t) = split_slash s @ split_slash t"
  by (induction s) (auto split: list.splits)

lemma join_split [simp]: "join_slash (split_slash s) = s"
proof (induction s)
  case (Cons c s)
  obtain x xs where "split_slash s = x # xs" by (cases "split_slash s") auto
  with Cons show ?case by (cases xs) auto
qed simp

lemma split_inject: "split_slash s = split_slash t \<longleftrightarrow> s = t"
  by (metis join_split)

lemma join_append: "xs \<noteq> [] \<Longrightarrow> ys \<noteq> [] \<Longrightarrow> join_slash (xs @ ys) = join_slash xs @ CHR ''/'' # join_slash ys"
proof (induction xs rule: join_slash.induct)
  case (2 s)
  then show ?case by (cases ys) auto
qed auto

lemma below_prefix: "prefix (r @ ''/'') l \<longleftrightarrow> strict_prefix (split_slash r) (split_slash l)"
proof
  assume "prefix (r @ ''/'') l"
  then obtain t where "l = r @ CHR ''/'' # t" by (auto simp: prefix_def)
  then show "strict_prefix (split_slash r) (split_slash l)"
    by (simp add: split_append strict_prefix_def)
next
  assume "strict_prefix (split_slash r) (split_slash l)"
  then obtain ts where ts: "split_slash l = split_slash r @ ts" "ts \<noteq> []"
    by (auto simp: strict_prefix_def prefix_def)
  have "l = join_slash (split_slash r @ ts)" using ts(1) join_split [of l] by simp
  also have "\<dots> = r @ CHR ''/'' # join_slash ts" using ts(2) by (simp add: join_append)
  finally show "prefix (r @ ''/'') l" by (simp add: prefix_def)
qed

text \<open>
  Two write scopes overlap exactly when the path components of one begin with those of
  the other.
\<close>

theorem overlap_iff_prefix:
  "scopesOverlap left right \<longleftrightarrow>
     prefix (split_slash right) (split_slash left) \<or> prefix (split_slash left) (split_slash right)"
  using split_inject [of left right] unfolding scopesOverlap_def below_prefix strict_prefix_def by auto

text \<open>A normalised scope is a relative path without empty, dot or parent components.\<close>

lemma drop_end_fixed: "drop_end_slashes s = s \<longleftrightarrow> s = [] \<or> last s \<noteq> CHR ''/''"
  by (auto simp: drop_end_slashes_def rev_swap dropWhile_hd hd_rev)

lemma drop_end_idem: "drop_end_slashes (drop_end_slashes s) = drop_end_slashes s"
  by (simp add: drop_end_slashes_def dropWhile_hd)

definition normal_scope :: "string \<Rightarrow> string" where
  "normal_scope value = drop_end_slashes (drop_dot_slash (slashes value))"

definition scope_ok :: "string \<Rightarrow> bool" where
  "scope_ok s \<longleftrightarrow> s \<noteq> [] \<and> take 1 s \<noteq> ''/'' \<and> \<not> drive_prefix s
     \<and> list_all (\<lambda>p. p \<noteq> [] \<and> p \<noteq> ''.'' \<and> p \<noteq> ''..'') (split_slash s)"

lemma writeScope_eq:
  "writeScope value = (if scope_ok (normal_scope value) then Inr (normal_scope value) else Inl InvalidWriteScope)"
proof -
  have "\<not> list_ex (\<lambda>s. s = [] \<or> s = ''.'' \<or> s = ''..'') ps \<longleftrightarrow>
      list_all (\<lambda>p. p \<noteq> [] \<and> p \<noteq> ''.'' \<and> p \<noteq> ''..'') ps" for ps
    by (induction ps) simp_all
  note neg = this [symmetric]
  show ?thesis unfolding writeScope_def scope_ok_def normal_scope_def Let_def neg by auto
qed

lemma set_drop_end: "set (drop_end_slashes s) \<subseteq> set s"
  unfolding drop_end_slashes_def by (auto dest: set_dropWhileD)

lemma set_drop_dot: "set (drop_dot_slash s) \<subseteq> set s"
  unfolding drop_dot_slash_def by (simp add: set_drop_subset)

lemma normal_scope_fixed:
  assumes "scope_ok (normal_scope value)"
  shows "normal_scope (normal_scope value) = normal_scope value"
proof -
  let ?t = "normal_scope value"
  have "CHR 0x5C \<notin> set (slashes value)" by (auto simp: slashes_def)
  then have "CHR 0x5C \<notin> set ?t"
    using set_drop_end [of "drop_dot_slash (slashes value)"] set_drop_dot [of "slashes value"]
    unfolding normal_scope_def by blast
  then have 1: "slashes ?t = ?t" unfolding slashes_def by (intro map_idI) auto
  have 2: "drop_dot_slash ?t = ?t"
  proof (rule ccontr)
    assume "drop_dot_slash ?t \<noteq> ?t"
    then have "take 2 ?t = ''./''" by (auto simp: drop_dot_slash_def split: if_splits)
    then have "?t = ''.'' @ CHR ''/'' # drop 2 ?t" by (metis append_take_drop_id append_Cons append_Nil)
    then have "split_slash ?t = split_slash ''.'' @ split_slash (drop 2 ?t)" using split_append by metis
    then have "''.'' \<in> set (split_slash ?t)" by simp
    with assms show False by (auto simp: scope_ok_def list_all_iff)
  qed
  show ?thesis
    unfolding normal_scope_def [of ?t] 1 2 unfolding normal_scope_def by (rule drop_end_idem)
qed

text \<open>
  Normalising a scope again changes nothing, and a normalised scope is a relative path
  whose components are neither empty nor dot nor parent references.
\<close>

theorem writeScope_normal:
  assumes "writeScope value = Inr t"
  shows "writeScope t = Inr t
    \<and> list_all (\<lambda>s. s \<noteq> [] \<and> s \<noteq> ''.'' \<and> s \<noteq> ''..'') (split_slash t)"
proof -
  have t: "scope_ok (normal_scope value)" "t = normal_scope value"
    using assms by (simp_all add: writeScope_eq split: if_splits)
  then have "writeScope t = Inr t" by (simp add: writeScope_eq normal_scope_fixed)
  moreover have "list_all (\<lambda>s. s \<noteq> [] \<and> s \<noteq> ''.'' \<and> s \<noteq> ''..'') (split_slash t)"
    using t unfolding scope_ok_def by blast
  ultimately show ?thesis ..
qed

section \<open>Concrete runs\<close>

definition sample_limits :: team_limits where
  "sample_limits = \<lparr>tl_maxMembers = 8, tl_maxTasks = 256, tl_maxPending = 32, tl_maxMessageBytes = 65536\<rparr>"

definition sample_create :: create_request where
  "sample_create = \<lparr>cr_subject = '' p '', cr_description = ''d'', cr_blockedBy = None,
     cr_writeScopes = Some [''./a'']\<rparr>"

definition sample_start :: team_world where
  "sample_start = \<lparr>tw_log = [], tw_creations = []\<rparr>"

definition sample_created :: team_world where
  "sample_created = fst (perform_op ''lead'' sample_limits (\<lambda>_. 0) 0 True (CreateTask sample_create) sample_start)"

lemma sample_run: "team_run ''lead'' sample_limits (\<lambda>_. 0) sample_created"
  unfolding sample_created_def
proof (rule team_run.step)
  show "team_run ''lead'' sample_limits (\<lambda>_. 0) sample_start"
    unfolding sample_start_def
    by (rule team_run.start [of _ _ "emptyTeamFoldState ''lead''"])
      (simp_all add: foldTeam_def team_changes_def map_filter_simps)
qed (simp_all add: fresh_op_def sample_start_def max_safe_def)

lemma team_log_accepted_witness:
  "length (tw_log sample_created) = 1
   \<and> (\<exists>st. foldTeam ''lead'' (take 1 (tw_log sample_created)) = Inr st \<and> within_limits sample_limits st)"
proof
  show "length (tw_log sample_created) = 1" by code_simp
  show "\<exists>st. foldTeam ''lead'' (take 1 (tw_log sample_created)) = Inr st \<and> within_limits sample_limits st"
    by (rule team_log_accepted [OF sample_run]) (simp_all add: limits_ok_def sample_limits_def)
qed

definition sample_state :: team_state where
  "sample_state = (emptyTeamFoldState ''lead'')\<lparr>ts_tasks := [(''task-1'', sample_task ''task-1'' 3 TPending [])],
     ts_nextTaskNumber := 2\<rparr>"

definition sample_claim :: update_request where
  "sample_claim = \<lparr>ur_taskId = ''task-1'', ur_expectedRevision = 3, ur_action = Claim, ur_subject = None,
     ur_description = None, ur_blockedBy = None, ur_writeScopes = None, ur_owner = None\<rparr>"

lemma update_authorized_witness:
  "\<exists>t cur. updated_task ''lead'' False ''s1'' sample_state sample_claim = Inr t
     \<and> map_of (ts_tasks sample_state) ''task-1'' = Some cur \<and> may_update False ''s1'' cur Claim
     \<and> tk_revision t = 4 \<and> transition_ok Claim (tk_status cur) (tk_status t)"
proof -
  have "is_ok (updated_task ''lead'' False ''s1'' sample_state sample_claim)" by code_simp
  then obtain t where t: "updated_task ''lead'' False ''s1'' sample_state sample_claim = Inr t"
    unfolding is_ok_iff by (elim exE)
  with update_authorized [OF t] show ?thesis by (auto simp: sample_claim_def)
qed

lemma view_after_append_witness:
  "\<exists>st'. apply_task (emptyTeamFoldState ''lead'') (sample_task ''task-1'' 1 TPending []) = Inr st'
     \<and> tv_ready (taskView ''lead'' st' (sample_task ''task-1'' 1 TPending []))"
proof -
  have "is_ok (apply_task (emptyTeamFoldState ''lead'') (sample_task ''task-1'' 1 TPending []))" by code_simp
  then obtain st' where st': "apply_task (emptyTeamFoldState ''lead'') (sample_task ''task-1'' 1 TPending []) = Inr st'"
    unfolding is_ok_iff by (elim exE)
  have "tv_ready (taskView ''lead'' (emptyTeamFoldState ''lead'') (sample_task ''task-1'' 1 TPending []))" by code_simp
  with view_after_append [OF empty_team_ok st'] st' show ?thesis by simp
qed

end
