(* ===== verification/Effects.thy ===== *)
theory Effects imports Prelude begin

text \<open>
  Asynchronous code as state transformers with four outcomes: a value, a thrown error, the
  wait for an answer the environment has not given yet, and the end of a loop's budget. A
  weakest-precondition calculus for them: \<open>wp\<close> of a program is computed by simplification, and
  a loop or a procedure enters a proof through a lemma about its \<open>wp\<close> and monotonicity.
\<close>

section \<open>Programs\<close>

datatype ('x, 'a, 'w) run =
    Done 'a 'w
  | Thrown 'x 'w
  | Waiting 'w
  | NoFuel 'w

type_synonym ('x, 'a, 'w) prog = "'w \<Rightarrow> ('x, 'a, 'w) run"

definition ret :: "'a \<Rightarrow> ('x, 'a, 'w) prog" where
  "ret a w = Done a w"

definition throw :: "'x \<Rightarrow> ('x, 'a, 'w) prog" where
  "throw x w = Thrown x w"

definition out_of_fuel :: "('x, 'a, 'w) prog" where
  "out_of_fuel w = NoFuel w"

definition bnd :: "('x, 'a, 'w) prog \<Rightarrow> ('a \<Rightarrow> ('x, 'b, 'w) prog) \<Rightarrow> ('x, 'b, 'w) prog" where
  "bnd p f w =
     (case p w of Done a w' \<Rightarrow> f a w' | Thrown x w' \<Rightarrow> Thrown x w' | Waiting w' \<Rightarrow> Waiting w' | NoFuel w' \<Rightarrow> NoFuel w')"

definition read_state :: "('w \<Rightarrow> 'a) \<Rightarrow> ('x, 'a, 'w) prog" where
  "read_state f w = Done (f w) w"

definition modify :: "('w \<Rightarrow> 'w) \<Rightarrow> ('x, unit, 'w) prog" where
  "modify f w = Done () (f w)"

text \<open>\<open>try { p } catch (x) { h x }\<close> and \<open>try { p } finally { q }\<close>.\<close>

definition handle :: "('x, 'a, 'w) prog \<Rightarrow> ('x \<Rightarrow> ('x, 'a, 'w) prog) \<Rightarrow> ('x, 'a, 'w) prog" where
  "handle p h w = (case p w of Thrown x w' \<Rightarrow> h x w' | r \<Rightarrow> r)"

definition finally_do :: "('x, 'a, 'w) prog \<Rightarrow> ('x, unit, 'w) prog \<Rightarrow> ('x, 'a, 'w) prog" where
  "finally_do p q w =
     (case p w of
        Done a w' \<Rightarrow> bnd q (\<lambda>_. ret a) w'
      | Thrown x w' \<Rightarrow> bnd q (\<lambda>_. throw x) w'
      | r \<Rightarrow> r)"

fun for_each :: "('b \<Rightarrow> ('x, unit, 'w) prog) \<Rightarrow> 'b list \<Rightarrow> ('x, unit, 'w) prog" where
  "for_each f [] = ret ()"
| "for_each f (b # bs) = bnd (f b) (\<lambda>_. for_each f bs)"

text \<open>
  A loop with its local variables \<open>s\<close>: the body answers the next variables (\<open>Inl\<close>) or leaves the
  loop with a value (\<open>Inr\<close>). Its budget bounds the number of rounds.
\<close>

fun loop_do :: "nat \<Rightarrow> ('s \<Rightarrow> ('x, 's + 'a, 'w) prog) \<Rightarrow> 's \<Rightarrow> ('x, 'a, 'w) prog" where
  "loop_do 0 p s = out_of_fuel"
| "loop_do (Suc n) p s = bnd (p s) (\<lambda>r. case r of Inl s' \<Rightarrow> loop_do n p s' | Inr a \<Rightarrow> ret a)"

section \<open>Weakest preconditions\<close>

definition wp ::
  "('x, 'a, 'w) prog \<Rightarrow> ('a \<Rightarrow> 'w \<Rightarrow> bool) \<Rightarrow> ('x \<Rightarrow> 'w \<Rightarrow> bool) \<Rightarrow> ('w \<Rightarrow> bool) \<Rightarrow> ('w \<Rightarrow> bool) \<Rightarrow> 'w \<Rightarrow> bool" where
  "wp p Q E W F w =
     (case p w of Done a w' \<Rightarrow> Q a w' | Thrown x w' \<Rightarrow> E x w' | Waiting w' \<Rightarrow> W w' | NoFuel w' \<Rightarrow> F w')"

lemma wp_ret [simp]: "wp (ret a) Q E W F = Q a"
  and wp_throw [simp]: "wp (throw x) Q E W F = E x"
  and wp_out_of_fuel [simp]: "wp out_of_fuel Q E W F = F"
  and wp_read [simp]: "wp (read_state f) Q E W F w = Q (f w) w"
  and wp_modify [simp]: "wp (modify g) R E W F w = R () (g w)"
  by (simp_all add: wp_def ret_def throw_def out_of_fuel_def read_state_def modify_def fun_eq_iff)

lemma wp_bnd [simp]: "wp (bnd p f) Q E W F = wp p (\<lambda>a. wp (f a) Q E W F) E W F"
  by (simp add: wp_def bnd_def fun_eq_iff split: run.split)

lemma wp_handle [simp]: "wp (handle p h) Q E W F = wp p Q (\<lambda>x. wp (h x) Q E W F) W F"
  by (simp add: wp_def handle_def fun_eq_iff split: run.split)

lemma wp_finally [simp]:
  "wp (finally_do p q) Q E W F =
     wp p (\<lambda>a. wp q (\<lambda>_. Q a) E W F) (\<lambda>x. wp q (\<lambda>_. E x) E W F) W F"
  by (simp add: wp_def finally_do_def bnd_def ret_def throw_def fun_eq_iff split: run.split)

lemma wp_if [simp]: "wp (if b then p else q) Q E W F w = (if b then wp p Q E W F w else wp q Q E W F w)"
  by simp

text \<open>Postconditions can be weakened.\<close>

lemma wp_mono:
  assumes "wp p Q E W F w"
    and "\<And>a w'. Q a w' \<Longrightarrow> Q' a w'" and "\<And>x w'. E x w' \<Longrightarrow> E' x w'"
    and "\<And>w'. W w' \<Longrightarrow> W' w'" and "\<And>w'. F w' \<Longrightarrow> F' w'"
  shows "wp p Q' E' W' F' w"
  using assms by (auto simp: wp_def split: run.splits)

lemma wp_conj:
  assumes "wp p Q E W F w" and "wp p Q' E' W' F' w"
  shows "wp p (\<lambda>a w. Q a w \<and> Q' a w) (\<lambda>x w. E x w \<and> E' x w) (\<lambda>w. W w \<and> W' w) (\<lambda>w. F w \<and> F' w) w"
  using assms by (auto simp: wp_def split: run.splits)

lemma wp_for_each:
  assumes "\<And>b w. b \<in> set bs \<Longrightarrow> I w \<Longrightarrow> wp (f b) (\<lambda>_. I) E W F w" and "I w"
  shows "wp (for_each f bs) (\<lambda>_. I) E W F w"
  using assms
proof (induction bs arbitrary: w)
  case (Cons b bs)
  have "wp (f b) (\<lambda>_. I) E W F w" using Cons.prems by simp
  then have "wp (f b) (\<lambda>_. wp (for_each f bs) (\<lambda>_. I) E W F) E W F w"
    using Cons by (elim wp_mono) simp_all
  then show ?case by simp
qed simp

text \<open>A loop keeps its invariant, and a measure below the budget bounds its rounds.\<close>

lemma wp_loop:
  assumes "\<And>s w. I s w \<Longrightarrow> wp (p s)
      (\<lambda>r w'. case r of Inl s' \<Rightarrow> I s' w' \<and> (m s' w' :: nat) < m s w | Inr a \<Rightarrow> Q a w') E W F w"
    and "I s w" and "m s w < n"
  shows "wp (loop_do n p s) Q E W F w"
  using assms(2,3)
proof (induction n arbitrary: s w)
  case (Suc n)
  have "wp (p s) (\<lambda>r w'. case r of Inl s' \<Rightarrow> I s' w' \<and> m s' w' < m s w | Inr a \<Rightarrow> Q a w') E W F w"
    using assms(1) Suc.prems(1) .
  then have "wp (p s) (\<lambda>r. wp (case r of Inl s' \<Rightarrow> loop_do n p s' | Inr a \<Rightarrow> ret a) Q E W F) E W F w"
    using Suc.prems(2) by (elim wp_mono) (auto intro: Suc.IH split: sum.splits)
  then show ?case by simp
qed simp

section \<open>Programs that keep a predicate\<close>

text \<open>\<open>I\<close> holds in every outcome when it held before.\<close>

definition keeps :: "('w \<Rightarrow> bool) \<Rightarrow> ('x, 'a, 'w) prog \<Rightarrow> bool" where
  "keeps I p \<longleftrightarrow> (\<forall>w. I w \<longrightarrow> wp p (\<lambda>_. I) (\<lambda>_. I) I I w)"

named_theorems keeps_intros

lemma keepsI: "(\<And>w. I w \<Longrightarrow> wp p (\<lambda>_. I) (\<lambda>_. I) I I w) \<Longrightarrow> keeps I p"
  by (simp add: keeps_def)

lemma keepsD: "keeps I p \<Longrightarrow> I w \<Longrightarrow> wp p (\<lambda>_. I) (\<lambda>_. I) I I w"
  by (simp add: keeps_def)

lemma keeps_ret [keeps_intros]: "keeps I (ret a)"
  and keeps_throw [keeps_intros]: "keeps I (throw x)"
  and keeps_out_of_fuel [keeps_intros]: "keeps I out_of_fuel"
  and keeps_read [keeps_intros]: "keeps I (read_state f)"
  by (simp_all add: keeps_def)

lemma keeps_modify: "(\<And>w. I w \<Longrightarrow> I (f w)) \<Longrightarrow> keeps I (modify f)"
  by (simp add: keeps_def)

lemma keeps_bnd [keeps_intros]: "keeps I p \<Longrightarrow> (\<And>a. keeps I (f a)) \<Longrightarrow> keeps I (bnd p f)"
  unfolding keeps_def by (fastforce elim: wp_mono)

lemma keeps_handle [keeps_intros]: "keeps I p \<Longrightarrow> (\<And>x. keeps I (h x)) \<Longrightarrow> keeps I (handle p h)"
  unfolding keeps_def by (fastforce elim: wp_mono)

lemma keeps_finally [keeps_intros]: "keeps I p \<Longrightarrow> keeps I q \<Longrightarrow> keeps I (finally_do p q)"
  unfolding keeps_def by (fastforce elim: wp_mono)

lemma keeps_if [keeps_intros]: "keeps I p \<Longrightarrow> keeps I q \<Longrightarrow> keeps I (if b then p else q)"
  by simp

lemma keeps_option [keeps_intros]:
  "keeps I p \<Longrightarrow> (\<And>a. keeps I (f a)) \<Longrightarrow> keeps I (case x of None \<Rightarrow> p | Some a \<Rightarrow> f a)"
  by (cases x) simp_all

lemma keeps_sum [keeps_intros]:
  "(\<And>a. keeps I (f a)) \<Longrightarrow> (\<And>b. keeps I (g b)) \<Longrightarrow> keeps I (case x of Inl a \<Rightarrow> f a | Inr b \<Rightarrow> g b)"
  by (cases x) simp_all

lemma keeps_pair [keeps_intros]: "(\<And>a b. keeps I (f a b)) \<Longrightarrow> keeps I (case x of (a, b) \<Rightarrow> f a b)"
  by (cases x) simp

lemma keeps_for_each [keeps_intros]: "(\<And>b. keeps I (f b)) \<Longrightarrow> keeps I (for_each f bs)"
  by (induction bs) (auto intro: keeps_intros)

lemma keeps_loop [keeps_intros]: "(\<And>s. keeps I (p s)) \<Longrightarrow> keeps I (loop_do n p s)"
  by (induction n arbitrary: s) (auto intro!: keeps_intros)

lemma wp_Done: "wp p Q E W F w \<Longrightarrow> p w = Done a w' \<Longrightarrow> Q a w'"
  and wp_Thrown: "wp p Q E W F w \<Longrightarrow> p w = Thrown x w' \<Longrightarrow> E x w'"
  and wp_Waiting: "wp p Q E W F w \<Longrightarrow> p w = Waiting w' \<Longrightarrow> W w'"
  and wp_NoFuel: "wp p Q E W F w \<Longrightarrow> p w = NoFuel w' \<Longrightarrow> F w'"
  by (simp_all add: wp_def)

end
