(* ===== verification/RuntimeContext.thy ===== *)
theory RuntimeContext imports Surface BlockAssembler begin

text \<open>
  packages/core/agent-loop/src/runtime-context.ts: the projection of the dynamic runtime
  context into user messages, which remembers the last snapshot of the log that the surface
  still holds, and the section rendering of packages/core/system-prompt it is fed with. The
  projection is restored from the log when an agent is built and follows every later event.
\<close>

section \<open>Snapshots\<close>

definition CONTEXT_SOURCE :: string where
  "CONTEXT_SOURCE = ''@deepseek-ai/dsh-system-prompt''"

definition CLEARED :: string where
  "CLEARED = ''Current runtime context: none. Earlier runtime-context snapshots no longer apply.''"

fun isOwned_source :: "message_source \<Rightarrow> bool" where
  "isOwned_source (PluginSource p _) = (p = CONTEXT_SOURCE)"
| "isOwned_source _ = False"

definition isOwned :: "message \<Rightarrow> bool" where
  "isOwned m \<longleftrightarrow> isOwned_source (msg_source m)"

fun text_of_blocks :: "content_block list \<Rightarrow> string option" where
  "text_of_blocks [TextBlock t] = Some t"
| "text_of_blocks _ = None"

definition textOf :: "message \<Rightarrow> string option" where
  "textOf m = text_of_blocks (msg_content m)"

text \<open>\<open>undefined\<close>, \<open>null\<close>, and a retained snapshot.\<close>

datatype retained = NeverSeen | NoneRetained | Retained nat "string option"

fun owned_message :: "'p event_data \<Rightarrow> message option" where
  "owned_message (UserMessage m) = (if isOwned m then Some m else None)"
| "owned_message _ = None"

text \<open>The scan of the constructor, from the end of the log.\<close>

fun restore :: "nat list \<Rightarrow> 'p event list \<Rightarrow> retained \<Rightarrow> retained" where
  "restore surface [] r = r"
| "restore surface (e # es) r =
     (case owned_message (ev_data e) of
        None \<Rightarrow> restore surface es r
      | Some m \<Rightarrow>
          if ev_seq e \<in> set surface then Retained (ev_seq e) (textOf m)
          else restore surface es (if r = NeverSeen then NoneRetained else r))"

definition restored :: "fold_state \<Rightarrow> 'p event list \<Rightarrow> retained" where
  "restored st es = restore (nodes st) (List.rev es) NeverSeen"

fun cites :: "json option \<Rightarrow> nat \<Rightarrow> bool" where
  "cites (Some (JArr vs)) s = (JInt (int s) \<in> set vs)"
| "cites _ s = False"

definition follow :: "retained \<Rightarrow> 'p event \<Rightarrow> retained" where
  "follow r e =
     (case owned_message (ev_data e) of
        Some m \<Rightarrow> Retained (ev_seq e) (textOf m)
      | None \<Rightarrow>
          (case r of
             Retained s t \<Rightarrow> if isReplacementSurfaceEvent e \<and> cites (ev_sources e) s then NoneRetained else r
           | _ \<Rightarrow> r))"

section \<open>Rendering and projection\<close>

fun join_lines :: "string list \<Rightarrow> string" where
  "join_lines [] = []"
| "join_lines [t] = t"
| "join_lines (t # ts) = t @ [char_of (10 :: nat), char_of (10 :: nat)] @ join_lines ts"

definition joinContextSections :: "(string \<times> string) list \<Rightarrow> string" where
  "joinContextSections sections =
     (let body = join_lines (map snd sections)
      in if body = [] then []
         else ''Current runtime context. This snapshot supersedes earlier runtime-context snapshots.''
           @ [char_of (10 :: nat), char_of (10 :: nat)] @ body)"

definition section_json :: "string \<times> string \<Rightarrow> json" where
  "section_json s = JObj [(''name'', JStr (fst s)), (''text'', JStr (snd s))]"

definition snapshot_source :: "(string \<times> string) list \<Rightarrow> message_source" where
  "snapshot_source sections =
     PluginSource CONTEXT_SOURCE
       (if sections = [] then JObj []
        else JObj [(''form'', JStr ''snapshot''), (''sections'', JArr (map section_json sections))])"

definition projectContext :: "retained \<Rightarrow> string \<Rightarrow> string \<Rightarrow> (string \<times> string) list \<Rightarrow> message option" where
  "projectContext r uuid current sections =
     (if r = NeverSeen \<and> current = [] then None
      else
        let snapshot = (if current = [] then CLEARED else current)
        in if (case r of Retained _ t \<Rightarrow> t = Some snapshot | _ \<Rightarrow> False) then None
           else Some (createUserMessage uuid [TextBlock snapshot] (snapshot_source sections)))"

section \<open>The retained snapshot is on the surface\<close>

definition retained_ok :: "'p event list \<Rightarrow> fold_state \<Rightarrow> retained \<Rightarrow> bool" where
  "retained_ok es st r \<longleftrightarrow>
     (case r of
        NeverSeen \<Rightarrow> \<forall>e\<in>set es. owned_message (ev_data e) = None
      | NoneRetained \<Rightarrow> \<exists>e\<in>set es. owned_message (ev_data e) \<noteq> None
      | Retained s t \<Rightarrow> s \<in> set (nodes st) \<and> s < length es
          \<and> (\<exists>m. owned_message (ev_data (es ! s)) = Some m \<and> textOf m = t))"

lemma owned_eligible: "owned_message d = Some m \<Longrightarrow> isSurfaceEligibleType d"
  by (cases d) auto

lemma restore_ok:
  assumes "\<forall>e\<in>set later. owned_message (ev_data e) \<noteq> None \<longrightarrow> ev_seq e \<notin> set surface"
    and "r = (if \<forall>e\<in>set later. owned_message (ev_data e) = None then NeverSeen else NoneRetained)"
  shows "case restore surface es r of
      NeverSeen \<Rightarrow> \<forall>e\<in>set es \<union> set later. owned_message (ev_data e) = None
    | NoneRetained \<Rightarrow> \<exists>e\<in>set es \<union> set later. owned_message (ev_data e) \<noteq> None
    | Retained s t \<Rightarrow> \<exists>e\<in>set es. ev_seq e = s \<and> s \<in> set surface \<and> (\<exists>m. owned_message (ev_data e) = Some m \<and> textOf m = t)"
  using assms
proof (induction es arbitrary: r later)
  case Nil
  then show ?case by auto
next
  case (Cons e es)
  show ?case
  proof (cases "owned_message (ev_data e)")
    case None
    have "case restore surface es r of
      NeverSeen \<Rightarrow> \<forall>e\<in>set es \<union> set (e # later). owned_message (ev_data e) = None
    | NoneRetained \<Rightarrow> \<exists>e\<in>set es \<union> set (e # later). owned_message (ev_data e) \<noteq> None
    | Retained s t \<Rightarrow> \<exists>e\<in>set es. ev_seq e = s \<and> s \<in> set surface \<and> (\<exists>m. owned_message (ev_data e) = Some m \<and> textOf m = t)"
      by (rule Cons.IH) (use Cons.prems None in auto)
    then show ?thesis using None by (auto split: retained.splits)
  next
    case (Some m)
    show ?thesis
    proof (cases "ev_seq e \<in> set surface")
      case True
      then show ?thesis using Some by auto
    next
      case False
      let ?r = "if r = NeverSeen then NoneRetained else r"
      have "case restore surface es ?r of
      NeverSeen \<Rightarrow> \<forall>e\<in>set es \<union> set (e # later). owned_message (ev_data e) = None
    | NoneRetained \<Rightarrow> \<exists>e\<in>set es \<union> set (e # later). owned_message (ev_data e) \<noteq> None
    | Retained s t \<Rightarrow> \<exists>e\<in>set es. ev_seq e = s \<and> s \<in> set surface \<and> (\<exists>m. owned_message (ev_data e) = Some m \<and> textOf m = t)"
        by (rule Cons.IH) (use Cons.prems Some False in auto)
      moreover have "?r = NoneRetained" using Cons.prems(2) by auto
      ultimately show ?thesis using Some False by (auto split: retained.splits)
    qed
  qed
qed

lemma restored_ok:
  assumes "foldSurface es = Inr (st, reps)"
  shows "retained_ok es st (restored st es)"
proof -
  have seqs: "map ev_seq es = [0..<length es]"
    using fold_window_hist [of 0 es] assms by (auto simp: foldSurface_def result_simps surface_hist_def)
  have "es ! ev_seq e = e" "ev_seq e < length es" if e: "e \<in> set es" for e
  proof -
    obtain i where i: "i < length es" "e = es ! i" using e by (auto simp: in_set_conv_nth)
    have "ev_seq (es ! i) = map ev_seq es ! i" using i(1) by simp
    also have "\<dots> = i" unfolding seqs using i(1) by simp
    finally show "es ! ev_seq e = e" "ev_seq e < length es" using i by simp_all
  qed
  note at = this
  show ?thesis
    using restore_ok [of "[]" "nodes st" NeverSeen "List.rev es"] at
    by (auto simp: retained_ok_def restored_def split: retained.splits)
qed

lemma cited_in_sources:
  assumes "cited_sources e = Inr srcs" and "s \<in> srcs"
  shows "cites (ev_sources e) s"
proof -
  from assms obtain vs where vs: "ev_sources e = Some (JArr vs)" and scan: "\<exists>l. scan_sources (ev_seq e) vs {} None = Inr (srcs, l)"
    by (auto simp: cited_sources_def result_simps split: option.splits json.splits if_splits prod.splits)
  have "v = JInt (int (seq_of v))" if "scan_sources c vs acc l = Inr r" "v \<in> set vs" for c acc l r v
    using that
  proof (induction c vs acc l rule: scan_sources.induct)
    case (2 cur u us acc late)
    then have "v = JInt (int (seq_of v))" if "isEventSeq v"
      using that by (cases v) (auto simp: is_safe_integer_def seq_of_def JInt_def)
    with 2 show ?case by (auto split: if_splits)
  qed simp
  then show ?thesis
    using scan scan_sources_ok assms(2) vs by fastforce
qed

lemma plan_replace_op:
  "planSurfaceEvent st e k evs base = Inr (Some (PlanReplace rp i j)) \<Longrightarrow> isReplacementSurfaceEvent e"
  by (auto simp: planSurfaceEvent_def result_simps surfaceOpOf_def isReplacementSurfaceEvent_def isSurfaceEvent_def
      split: if_splits option.splits surface_op.splits)

text \<open>One event: what leaves the surface is cited by the event that takes its place.\<close>

lemma nodes_step:
  assumes "surface_hist es 0 es (st, reps, length es)" and "surface_step es 0 (st, reps, length es) e = Inr (st', reps', n)"
  shows "ev_seq e = length es" and "isSurfaceEligibleType (ev_data e) \<longrightarrow> length es \<in> set (nodes st')"
    and "\<forall>s\<in>set (nodes st). s \<in> set (nodes st') \<or> (isReplacementSurfaceEvent e \<and> cites (ev_sources e) s)"
proof -
  from assms(2) obtain p where plan: "planSurfaceEvent st e (length es) es 0 = Inr p"
    and st': "st' = fst (applySurfacePlan st p)"
    by (auto simp: surface_step_def applySurfaceEvent_def result_simps split: prod.splits)
  have d: "distinct (nodes st)" and fresh: "length es \<notin> set (nodes st)"
    using assms(1) hist_nodes_less [OF assms(1)] by (auto simp: surface_hist_def)
  have "ev_seq e = length es \<and> (isSurfaceEligibleType (ev_data e) \<longrightarrow> length es \<in> set (nodes st'))
    \<and> (\<forall>s\<in>set (nodes st). s \<in> set (nodes st') \<or> (isReplacementSurfaceEvent e \<and> cites (ev_sources e) s))"
    using plan
  proof (cases rule: plan_cases)
    case log_only
    then show ?thesis using st' by simp
  next
    case append
    then show ?thesis using st' by simp
  next
    case (replace a b i j)
    have set': "set (nodes st') = insert (length es) (set (nodes st) - set (slice i (Suc j) (nodes st)))"
      using replaced_nodes(2) [OF d replace(5,6) fresh] st' replace(1) by simp
    obtain srcs where "cited_sources e = Inr srcs" "set (slice i (Suc j) (nodes st)) \<subseteq> srcs"
      using provenance_ok [OF replace(7)] by blast
    then have "\<forall>s\<in>set (slice i (Suc j) (nodes st)). cites (ev_sources e) s"
      using cited_in_sources by blast
    moreover have "isReplacementSurfaceEvent e" using plan_replace_op plan replace(1) by blast
    ultimately show ?thesis using set' replace(2) by auto
  qed
  then show "ev_seq e = length es" and "isSurfaceEligibleType (ev_data e) \<longrightarrow> length es \<in> set (nodes st')"
    and "\<forall>s\<in>set (nodes st). s \<in> set (nodes st') \<or> (isReplacementSurfaceEvent e \<and> cites (ev_sources e) s)"
    by simp_all
qed

lemma follow_ok:
  assumes fold: "foldSurface es = Inr (st, reps)" and fold': "foldSurface (es @ [e]) = Inr (st', reps')"
    and r: "retained_ok es st r"
  shows "retained_ok (es @ [e]) st' (follow r e)"
proof -
  have w: "fold_window 0 es = Inr (st, reps, length es)" "fold_window 0 (es @ [e]) = Inr (st', reps', Suc (length es))"
    using fold fold' by (simp_all add: foldSurface_window)
  then have "surface_step es 0 (st, reps, length es) e = Inr (st', reps', Suc (length es))"
    by (simp add: fold_window_snoc)
  note step = nodes_step [OF fold_window_hist [OF w(1)] this]
  show ?thesis
  proof (cases "owned_message (ev_data e)")
    case (Some m)
    then have "length es \<in> set (nodes st')" using step(2) owned_eligible by blast
    then show ?thesis using Some step(1) by (simp add: follow_def retained_ok_def)
  next
    case None
    show ?thesis
    proof (cases r)
      case (Retained s t)
      then have s: "s \<in> set (nodes st)" "s < length es" "\<exists>m. owned_message (ev_data (es ! s)) = Some m \<and> textOf m = t"
        using r by (auto simp: retained_ok_def)
      have "es ! s \<in> set (es @ [e])" using s(2) by simp
      then have "\<exists>x\<in>set (es @ [e]). owned_message (ev_data x) \<noteq> None" using s(3) by (intro bexI) auto
      then show ?thesis using None Retained s step(3) by (auto simp: follow_def retained_ok_def nth_append)
    qed (use r None in \<open>auto simp: follow_def retained_ok_def\<close>)
  qed
qed

text \<open>An agent built on a log and following every later event.\<close>

definition followed :: "fold_state \<Rightarrow> 'p event list \<Rightarrow> 'p event list \<Rightarrow> retained" where
  "followed st es later = foldl follow (restored st es) later"

lemma followed_ok:
  assumes "foldSurface es = Inr (st, reps)" and "foldSurface (es @ later) = Inr (st', reps')"
  shows "retained_ok (es @ later) st' (followed st es later)"
  using assms(2)
proof (induction later arbitrary: st' reps' rule: rev_induct)
  case Nil
  then show ?case using restored_ok [OF assms(1)] assms(1) by (simp add: followed_def)
next
  case (snoc e later)
  have "fold_window 0 ((es @ later) @ [e]) = Inr (st', reps', length (es @ later @ [e]))"
    using snoc.prems by (simp add: foldSurface_window)
  then obtain s1 where "fold_window 0 (es @ later) = Inr s1"
    unfolding fold_window_snoc rbind_eq_Inr by blast
  then obtain st1 reps1 where 1: "foldSurface (es @ later) = Inr (st1, reps1)"
    by (cases s1) (simp add: foldSurface_def)
  have "retained_ok ((es @ later) @ [e]) st' (follow (followed st es later) e)"
    by (rule follow_ok [OF 1 _ snoc.IH [OF 1]]) (use snoc.prems in simp)
  then show ?case by (simp add: followed_def)
qed

text \<open>
  Whatever happened to the log since the agent was built, the projection withholds a
  snapshot only when the surface still holds one with exactly this text, or when there is
  nothing to say and no snapshot ever existed; otherwise it proposes the current snapshot, or
  the cleared marker once nothing is active.
\<close>

theorem context_projection:
  assumes "foldSurface es = Inr (st, reps)" and "foldSurface (es @ later) = Inr (st', reps')"
  shows "case projectContext (followed st es later) uuid current sections of
      None \<Rightarrow> (current = [] \<and> (\<forall>e\<in>set (es @ later). owned_message (ev_data e) = None))
        \<or> (\<exists>s\<in>set (nodes st'). \<exists>m. owned_message (ev_data ((es @ later) ! s)) = Some m
             \<and> textOf m = Some (if current = [] then CLEARED else current))
    | Some m \<Rightarrow> isOwned m \<and> textOf m = Some (if current = [] then CLEARED else current)"
proof (cases "projectContext (followed st es later) uuid current sections")
  case None
  note none = None
  show ?thesis
  proof (cases "followed st es later")
    case (Retained s t)
    then have "t = Some (if current = [] then CLEARED else current)"
      using none by (auto simp: projectContext_def Let_def split: if_splits)
    moreover have "s \<in> set (nodes st')" "\<exists>m. owned_message (ev_data ((es @ later) ! s)) = Some m \<and> textOf m = t"
      using followed_ok [OF assms] Retained by (simp_all add: retained_ok_def)
    ultimately have "\<exists>s\<in>set (nodes st'). \<exists>m. owned_message (ev_data ((es @ later) ! s)) = Some m
        \<and> textOf m = Some (if current = [] then CLEARED else current)" by blast
    then show ?thesis using none by simp
  next
    case NeverSeen
    then have "current = []" using none by (simp add: projectContext_def Let_def split: if_splits)
    then show ?thesis using none followed_ok [OF assms] NeverSeen by (simp add: retained_ok_def)
  next
    case NoneRetained
    then show ?thesis using none by (simp add: projectContext_def Let_def)
  qed
next
  case (Some m)
  then have "m = createUserMessage uuid [TextBlock (if current = [] then CLEARED else current)] (snapshot_source sections)"
    by (auto simp: projectContext_def Let_def split: if_splits)
  then show ?thesis using Some
    by (simp add: createUserMessage_def createMessage_def isOwned_def snapshot_source_def textOf_def)
qed

definition sample_sections :: "(string \<times> string) list" where
  "sample_sections = [(''clock'', ''noon'')]"

definition sample_snapshot :: "unit event" where
  "sample_snapshot =
     \<lparr>ev_data = UserMessage (the (projectContext NeverSeen ''u1'' (joinContextSections sample_sections) sample_sections)),
      ev_seq = 0, ev_time = 0, ev_ignorable = False, ev_surfaceOp = Some (JStr ''append''), ev_sources = None\<rparr>"

theorem context_projection_witness:
  "projectContext (followed createFoldState [] [sample_snapshot]) ''u2'' (joinContextSections sample_sections) sample_sections = None
   \<and> (\<exists>s\<in>{0}. \<exists>m. owned_message (ev_data ([sample_snapshot] ! s)) = Some m
        \<and> textOf m = Some (joinContextSections sample_sections))"
proof -
  let ?e = sample_snapshot
  have none: "projectContext (followed createFoldState [] [?e]) ''u2'' (joinContextSections sample_sections) sample_sections = None"
    by code_simp
  have ne: "joinContextSections sample_sections \<noteq> []" by code_simp
  have "foldSurface ([] :: unit event list) = Inr (createFoldState, [])"
    "foldSurface ([] @ [?e]) = Inr (\<lparr>nodes = [0], replaceGeneration = 0\<rparr>, [])"
    by code_simp+
  from context_projection [OF this, where uuid = "''u2''" and current = "joinContextSections sample_sections"
      and sections = sample_sections] none ne
  show ?thesis by simp
qed

end
