(* ===== verification/LoopWorld.thy ===== *)
theory LoopWorld imports Effects Inbox SessionTrace RuntimeContext begin

text \<open>
  The state of one agent driver (packages/core/agent-loop/src/agent.ts) and what can happen to
  it from outside: the phase, the session log with the agent's inbox, the guarded append, and
  the methods \<open>send\<close>, \<open>cancel\<close> and \<open>wakeDriver\<close> other code calls while the driver waits. The
  environment is a script of ticks, one for every answer the driver waits for: what other code
  did meanwhile, the clock, and the answer. A log event is an \<open>inbox_event\<close>: a splice of the
  inbox, or any other event.
\<close>

section \<open>State\<close>

text \<open>
  \<open>ac_abort\<close> is the reason of the activity's abort signal once it is aborted; \<open>ac_turn\<close> is the
  current turn of a running driver and the last turn of a maintenance task.
\<close>

record activity =
  ac_abort :: "json option"
  ac_turn :: int
  ac_step :: int
  ac_wake :: bool

datatype phase = Idle int | Maintenance activity | Running activity

record tool_outcome =
  to_content :: "content_block list"
  to_isError :: bool
  to_error :: "(string \<times> string) option"
  to_meta :: "json option"
  to_contexts :: "message list"
  to_concludes :: bool

record call_block =
  cb_id :: string
  cb_name :: string
  cb_arguments :: string

datatype loop_error =
    AbortError json
  | AppendRejected trace_failure
  | InboxRejected inbox_error
  | UncommittedCalls
  | MissingRoute
  | LlmError json
  | AssemblyFailed assembly_error
  | ExternalError json

text \<open>\<open>PreparedCall\<close> is the result of the tool runtime's \<open>prepare\<close>.\<close>

datatype prepared_call =
    DispatchCall
  | PostResult tool_outcome
  | FinalResult tool_outcome

datatype step_decision = Reject | Enter "message list"

text \<open>What the route resolution of one request answers.\<close>

record prepared_route =
  pr_config :: llm_call_config
  pr_defaults :: "adapter_defaults option"
  pr_contextWindow :: "rat option"

text \<open>
  A prompt assembly as the driver reads it: the rendered system text and context sections, or
  the error their rendering throws, and the tool schemas.
\<close>

record prompt_assembly =
  pa_system :: "json + string"
  pa_tools :: "tool_schema list"
  pa_sections :: "json + (string \<times> string) list"

datatype reply =
    RMode bool
  | RPrepared prepared_call
  | RResult tool_outcome
  | RRace nat
  | RAllSettled
  | RAssembly prompt_assembly
  | RDecision step_decision
  | RConfig llm_call_config
  | RRoute prepared_route
  | RChunk "stream_chunk option"
  | RRetry bool
  | RNothing
  | RThrow json
  | RThrowLlm json

datatype outside =
    OSend message inbox_target bool
  | OCancel json bool
  | OSplice inbox_target num_value num_value "message list"
  | OAppend "inbox_splice option event_data" "json option" "json option"
  | OSettle nat "json + tool_outcome \<times> bool"

record tick =
  tk_outside :: "outside list"
  tk_now :: int
  tk_reply :: reply

text \<open>The local state of one tool-call group (tool-calls.ts).\<close>

record call_group =
  cg_slots :: "(tool_outcome \<times> bool) option list"
  cg_callSeqs :: "int list"
  cg_nextToStart :: nat
  cg_committed :: nat
  cg_started :: nat
  cg_aborted :: bool
  cg_concluded :: bool
  cg_failure :: "loop_error option"
  cg_inFlight :: "nat list"
  cg_settled :: "nat list"

text \<open>One model request as the stream receives it.\<close>

record llm_request =
  lr_header :: epoch_header
  lr_messages :: "message list"

record loop_world =
  lw_inbox :: inbox_world
  lw_phase :: phase
  lw_headerLogged :: bool
  lw_context :: retained
  lw_now :: int
  lw_fresh :: nat
  lw_group :: call_group
  lw_requests :: "llm_request list"
  lw_script :: "tick list"

type_synonym 'a loop_prog = "(loop_error, 'a, loop_world) prog"

abbreviation log_of :: "loop_world \<Rightarrow> inbox_event list" where
  "log_of w \<equiv> iw_log (lw_inbox w)"

text \<open>A committed event reaches the runtime-context projection, which ignores inbox splices.\<close>

definition commit_event :: "inbox_event \<Rightarrow> loop_world \<Rightarrow> loop_world" where
  "commit_event e w =
     w\<lparr>lw_inbox := (lw_inbox w)\<lparr>iw_log := log_of w @ [e]\<rparr>, lw_context := follow (lw_context w) e\<rparr>"

lemma commit_event_simps [simp]:
  "log_of (commit_event e w) = log_of w @ [e]" "lw_phase (commit_event e w) = lw_phase w"
  "lw_group (commit_event e w) = lw_group w" "lw_script (commit_event e w) = lw_script w"
  "lw_headerLogged (commit_event e w) = lw_headerLogged w" "lw_requests (commit_event e w) = lw_requests w"
  "lw_fresh (commit_event e w) = lw_fresh w" "lw_now (commit_event e w) = lw_now w"
  "iw_state (lw_inbox (commit_event e w)) = iw_state (lw_inbox w)"
  by (simp_all add: commit_event_def)

section \<open>Appending under the trace invariant\<close>

text \<open>The session refuses an event its relational invariant rejects.\<close>

definition new_event ::
  "nat \<Rightarrow> int \<Rightarrow> inbox_splice option event_data \<Rightarrow> json option \<Rightarrow> json option \<Rightarrow> inbox_event" where
  "new_event seq now d op sources = \<lparr>ev_data = d, ev_seq = seq, ev_time = now, ev_ignorable = False,
     ev_surfaceOp = op, ev_sources = sources\<rparr>"

definition append_with ::
  "inbox_splice option event_data \<Rightarrow> json option \<Rightarrow> json option \<Rightarrow> nat loop_prog" where
  "append_with d op sources w =
     (let e = new_event (length (log_of w)) (lw_now w) d op sources
      in case seedSession (log_of w @ [e]) of
           Inl f \<Rightarrow> Thrown (AppendRejected f) w
         | Inr _ \<Rightarrow> Done (length (log_of w)) (commit_event e w))"

abbreviation append :: "inbox_splice option event_data \<Rightarrow> nat loop_prog" where
  "append d \<equiv> append_with d None None"

section \<open>Methods other code calls\<close>

fun phase_activity :: "phase \<Rightarrow> activity option" where
  "phase_activity (Idle _) = None"
| "phase_activity (Maintenance a) = Some a"
| "phase_activity (Running a) = Some a"

fun map_activity :: "(activity \<Rightarrow> activity) \<Rightarrow> phase \<Rightarrow> phase" where
  "map_activity f (Idle n) = Idle n"
| "map_activity f (Maintenance a) = Maintenance (f a)"
| "map_activity f (Running a) = Running (f a)"

fun is_idle :: "phase \<Rightarrow> bool" where
  "is_idle (Idle _) = True"
| "is_idle _ = False"

fun is_maintenance :: "phase \<Rightarrow> bool" where
  "is_maintenance (Maintenance _) = True"
| "is_maintenance _ = False"

definition abort_reason :: "loop_world \<Rightarrow> json option" where
  "abort_reason w = Option.bind (phase_activity (lw_phase w)) ac_abort"

definition disposed_cause :: "json option \<Rightarrow> bool" where
  "disposed_cause r \<longleftrightarrow> Option.bind r (get_prop ''kind'') = Some (JStr ''disposed'')"

definition wakeDriver :: "bool \<Rightarrow> loop_world \<Rightarrow> loop_world" where
  "wakeDriver wakeAfterAbort w =
     (case lw_phase w of
        Idle lastTurn \<Rightarrow>
          w\<lparr>lw_phase := Running \<lparr>ac_abort = None, ac_turn = lastTurn, ac_step = 0, ac_wake = False\<rparr>\<rparr>
      | p \<Rightarrow>
          if \<not> disposed_cause (abort_reason w) \<and> (is_maintenance p \<or> wakeAfterAbort)
          then w\<lparr>lw_phase := map_activity (\<lambda>a. a\<lparr>ac_wake := True\<rparr>) p\<rparr>
          else w)"

definition splice_inbox ::
  "inbox_target \<Rightarrow> num_value \<Rightarrow> num_value \<Rightarrow> message list \<Rightarrow> loop_world \<Rightarrow> inbox_error + loop_world" where
  "splice_inbox t start deleted ms w =
     rbind (inbox_splice_op (lw_now w) t start deleted ms (lw_inbox w)) (\<lambda>(b, _). Inr (w\<lparr>lw_inbox := b\<rparr>))"

definition send :: "message \<Rightarrow> inbox_target \<Rightarrow> bool \<Rightarrow> loop_world \<Rightarrow> inbox_error + loop_world" where
  "send m target wakeup w =
     (let wakingAfterAbort = wakeup \<and> \<not> is_idle (lw_phase w) \<and> abort_reason w \<noteq> None;
          resolved = (if wakingAfterAbort then NextTurn else target)
      in rbind (splice_inbox resolved PosInf (Fin 0) [m] w) (\<lambda>w'.
           Inr (if wakeup then wakeDriver wakingAfterAbort w' else w')))"

definition cancel :: "json \<Rightarrow> bool \<Rightarrow> loop_world \<Rightarrow> inbox_error + loop_world" where
  "cancel cause keepInbox w =
     rbind (if keepInbox then Inr w
            else rbind (inbox_clear (lw_now w) (lw_inbox w)) (\<lambda>b.
              Inr (w\<lparr>lw_inbox := b, lw_phase := map_activity (\<lambda>a. a\<lparr>ac_wake := False\<rparr>) (lw_phase w)\<rparr>))) (\<lambda>w'.
       Inr (w'\<lparr>lw_phase := map_activity
              (\<lambda>a. a\<lparr>ac_abort := (case ac_abort a of None \<Rightarrow> Some cause | r \<Rightarrow> r)\<rparr>) (lw_phase w')\<rparr>))"

text \<open>
  Other code appends messages, to-do lists and its own events, rewrites tool results that are on the
  surface, and removes, replaces and inserts pending messages of the inbox. The turn, step, model and
  request events and the results that answer a call are the driver's. A rejected append and a
  rejected splice throw to that code and change nothing here.
\<close>

fun foreign_data :: "'p event_data \<Rightarrow> bool" where
  "foreign_data (UserMessage _) = True"
| "foreign_data (TodoWrite _) = True"
| "foreign_data EndSeed = True"
| "foreign_data (Plugin _) = True"
| "foreign_data _ = False"

fun rewrites_result :: "'p event_data \<Rightarrow> json option \<Rightarrow> bool" where
  "rewrites_result (ToolResult _) op = (op \<noteq> Some (JStr ''append''))"
| "rewrites_result _ op = False"

definition foreign :: "'p event_data \<Rightarrow> json option \<Rightarrow> bool" where
  "foreign d op \<longleftrightarrow> foreign_data d \<or> rewrites_result d op"

abbreviation foreign_event :: "'p event \<Rightarrow> bool" where
  "foreign_event e \<equiv> foreign (ev_data e) (ev_surfaceOp e)"

fun is_splice_data :: "inbox_splice option event_data \<Rightarrow> bool" where
  "is_splice_data (Plugin (Some _)) = True"
| "is_splice_data _ = False"

text \<open>A settled dispatch fills its slot, or records the first scheduler failure.\<close>

definition settle_call :: "nat \<Rightarrow> json + tool_outcome \<times> bool \<Rightarrow> call_group \<Rightarrow> call_group" where
  "settle_call i r g =
     (if i \<notin> set (cg_inFlight g) \<or> i \<in> set (cg_settled g) then g
      else case r of
          Inr slot \<Rightarrow> g\<lparr>cg_slots := (cg_slots g)[i := Some slot], cg_settled := i # cg_settled g\<rparr>
        | Inl e \<Rightarrow> g\<lparr>cg_failure := (case cg_failure g of None \<Rightarrow> Some (ExternalError e) | f \<Rightarrow> f),
                      cg_settled := i # cg_settled g\<rparr>)"

definition or_same :: "'x + 'a \<Rightarrow> 'a \<Rightarrow> 'a" where
  "or_same r a = (case r of Inl _ \<Rightarrow> a | Inr b \<Rightarrow> b)"

fun happen :: "outside \<Rightarrow> loop_world \<Rightarrow> loop_world" where
  "happen (OSend m t wakeup) w = or_same (send m t wakeup w) w"
| "happen (OCancel cause keepInbox) w = or_same (cancel cause keepInbox w) w"
| "happen (OSplice t start deleted ms) w = or_same (splice_inbox t start deleted ms w) w"
| "happen (OAppend d op sources) w =
     (if foreign d op \<and> \<not> is_splice_data d
      then (case append_with d op sources w of
              Done _ w' \<Rightarrow> if is_ok (foldSurface (log_of w')) then w' else w
            | _ \<Rightarrow> w)
      else w)"
| "happen (OSettle i r) w = w\<lparr>lw_group := settle_call i r (lw_group w)\<rparr>"

section \<open>Waiting for an answer\<close>

definition take_reply :: "(reply \<Rightarrow> 'a option) \<Rightarrow> reply \<Rightarrow> 'a loop_prog" where
  "take_reply f r w =
     (case r of
        RThrow e \<Rightarrow> Thrown (ExternalError e) w
      | RThrowLlm e \<Rightarrow> Thrown (LlmError e) w
      | _ \<Rightarrow> (case f r of Some a \<Rightarrow> Done a w | None \<Rightarrow> Waiting w))"

text \<open>\<open>await\<close>: other code runs before the answer. \<open>ask\<close>: a synchronous call to other code.\<close>

definition await :: "(reply \<Rightarrow> 'a option) \<Rightarrow> 'a loop_prog" where
  "await f w =
     (case lw_script w of
        [] \<Rightarrow> Waiting w
      | t # ts \<Rightarrow> take_reply f (tk_reply t) (fold happen (tk_outside t) (w\<lparr>lw_script := ts, lw_now := tk_now t\<rparr>)))"

definition ask :: "(reply \<Rightarrow> 'a option) \<Rightarrow> 'a loop_prog" where
  "ask f w =
     (case lw_script w of
        [] \<Rightarrow> Waiting w
      | t # ts \<Rightarrow> take_reply f (tk_reply t) (w\<lparr>lw_script := ts, lw_now := tk_now t\<rparr>))"

definition throw_if_aborted :: "unit loop_prog" where
  "throw_if_aborted w = (case abort_reason w of None \<Rightarrow> Done () w | Some cause \<Rightarrow> Thrown (AbortError cause) w)"

definition fresh_uuid :: "(nat \<Rightarrow> string) \<Rightarrow> string loop_prog" where
  "fresh_uuid uuid w = Done (uuid (lw_fresh w)) (w\<lparr>lw_fresh := Suc (lw_fresh w)\<rparr>)"

section \<open>The shape of the log\<close>

text \<open>
  The part of the trace the driver's appends depend on: the open turn and step, the next
  numbers, and the calls without a result. The last sequence number is below the length.
\<close>

definition log_shape ::
  "inbox_event list \<Rightarrow> int option \<Rightarrow> int option \<Rightarrow> int \<Rightarrow> int \<Rightarrow> string set \<Rightarrow> bool" where
  "log_shape es t s nt ns calls \<longleftrightarrow> (\<exists>tr. seedSession es = Inr tr \<and> st_lastSeq tr < int (length es)
     \<and> st_openTurn tr = t \<and> st_openStep tr = s \<and> st_nextTurn tr = nt \<and> st_nextStep tr = ns
     \<and> st_pending tr = calls)"

lemma shape_append:
  assumes "log_shape es t s nt ns calls"
    and "\<And>tr. st_lastSeq tr < int (length es) \<Longrightarrow> st_openTurn tr = t \<Longrightarrow> st_openStep tr = s \<Longrightarrow>
      st_nextTurn tr = nt \<Longrightarrow> st_nextStep tr = ns \<Longrightarrow> st_pending tr = calls \<Longrightarrow>
      \<exists>tr'. trace_step tr (new_event (length es) now d op sources) = Inr tr' \<and> st_openTurn tr' = t'
        \<and> st_openStep tr' = s' \<and> st_nextTurn tr' = nt' \<and> st_nextStep tr' = ns' \<and> st_pending tr' = calls'"
  shows "log_shape (es @ [new_event (length es) now d op sources]) t' s' nt' ns' calls'"
proof -
  from assms(1) obtain tr where tr: "seedSession es = Inr tr" "st_lastSeq tr < int (length es)"
      "st_openTurn tr = t" "st_openStep tr = s" "st_nextTurn tr = nt" "st_nextStep tr = ns" "st_pending tr = calls"
    by (auto simp: log_shape_def)
  then obtain tr' where tr': "trace_step tr (new_event (length es) now d op sources) = Inr tr'" "st_openTurn tr' = t'"
      "st_openStep tr' = s'" "st_nextTurn tr' = nt'" "st_nextStep tr' = ns'" "st_pending tr' = calls'"
    using assms(2) by blast
  moreover have "st_lastSeq tr' = int (length es)"
    using trace_step_lastSeq [OF tr'(1)] by (simp add: new_event_def)
  ultimately show ?thesis
    using tr(1) by (simp add: log_shape_def seedSession_snoc)
qed

lemmas shape_step_defs = trace_step_defs new_event_def has_pending_def

lemma shape_turn_start:
  "log_shape es None None nt ns {} \<Longrightarrow>
   log_shape (es @ [new_event (length es) now (TurnStart nt) op src]) (Some nt) None nt 1 {}"
  by (erule shape_append) (simp add: shape_step_defs)

lemma shape_turn_end:
  "log_shape es (Some t) None t ns {} \<Longrightarrow>
   log_shape (es @ [new_event (length es) now (TurnEnd t r) op src]) None None (t + 1) ns {}"
  by (erule shape_append) (simp add: shape_step_defs)

lemma shape_step_start:
  "log_shape es (Some t) None nt ns {} \<Longrightarrow>
   log_shape (es @ [new_event (length es) now (StepStart t ns) op src]) (Some t) (Some ns) nt ns {}"
  by (erule shape_append) (simp add: shape_step_defs)

lemma shape_step_end:
  "log_shape es (Some t) (Some s) nt ns calls \<Longrightarrow>
   log_shape (es @ [new_event (length es) now (StepEnd t s) op src]) (Some t) None nt (ns + 1) {}"
  by (erule shape_append) (simp add: shape_step_defs)

lemma shape_chunk:
  "log_shape es (Some t) (Some s) nt ns calls \<Longrightarrow>
   log_shape (es @ [new_event (length es) now (AssistantChunk t s c) op src]) (Some t) (Some s) nt ns calls"
  by (erule shape_append) (simp add: shape_step_defs)

lemma shape_message:
  "log_shape es (Some t) (Some s) nt ns calls \<Longrightarrow>
   log_shape (es @ [new_event (length es) now (AssistantMessage t s m u i) op src]) (Some t) (Some s) nt ns calls"
  by (erule shape_append) (simp add: shape_step_defs)

lemma shape_call:
  "log_shape es (Some t) (Some s) nt ns calls \<Longrightarrow>
   log_shape (es @ [new_event (length es) now (ToolCall t s c n a) op src]) (Some t) (Some s) nt ns (insert c calls)"
  by (erule shape_append) (simp add: shape_step_defs)

lemma shape_result:
  "log_shape es (Some t) (Some s) nt ns calls \<Longrightarrow> tr_turn r = t \<Longrightarrow> tr_step r = s \<Longrightarrow>
   source_call_id (msg_source (tr_message r)) = Some c \<Longrightarrow> c \<in> calls \<Longrightarrow>
   log_shape (es @ [new_event (length es) now (ToolResult r) (Some (JStr ''append'')) src]) (Some t) (Some s) nt ns (calls - {c})"
  by (erule shape_append) (simp add: shape_step_defs)

lemma shape_result_accepted:
  assumes "log_shape es (Some t) (Some s) nt ns calls" and "tr_turn r = t" and "tr_step r = s"
    and "source_call_id (msg_source (tr_message r)) = Some c"
    and "seedSession (es @ [new_event (length es) now (ToolResult r) (Some (JStr ''append'')) src]) = Inr tr"
  shows "log_shape (es @ [new_event (length es) now (ToolResult r) (Some (JStr ''append'')) src]) (Some t) (Some s) nt ns (calls - {c})"
proof -
  from assms(1) obtain tr0 where tr0: "seedSession es = Inr tr0" "st_lastSeq tr0 < int (length es)"
      "st_openTurn tr0 = Some t" "st_openStep tr0 = Some s" "st_nextTurn tr0 = nt" "st_nextStep tr0 = ns" "st_pending tr0 = calls"
    by (auto simp: log_shape_def)
  let ?e = "new_event (length es) now (ToolResult r) (Some (JStr ''append'')) src"
  have step: "trace_step tr0 ?e = Inr tr" using assms(5) tr0(1) by (simp add: seedSession_snoc)
  have "st_openTurn tr = Some t" "st_openStep tr = Some s" "st_nextTurn tr = nt" "st_nextStep tr = ns"
    "st_pending tr = calls - {c}"
    using step tr0 assms(2-4) by (auto simp: shape_step_defs result_simps Let_def split: if_splits)
  moreover have "st_lastSeq tr = int (length es)"
    using trace_step_lastSeq [OF step] by (simp add: new_event_def)
  ultimately show ?thesis using assms(5) by (simp add: log_shape_def)
qed

lemma shape_in_turn:
  "log_shape es (Some t) s nt ns calls \<Longrightarrow> (\<exists>h r. d = RequestHeader h r) \<or> (\<exists>c. d = RequestContext c) \<Longrightarrow>
   log_shape (es @ [new_event (length es) now d op src]) (Some t) s nt ns calls"
  by (erule shape_append) (auto simp: shape_step_defs)

lemma shape_neutral:
  "log_shape es t s nt ns calls \<Longrightarrow> (\<exists>m. d = UserMessage m) \<or> d = EndSeed \<or> (\<exists>p. d = Plugin p) \<Longrightarrow>
   log_shape (es @ [new_event (length es) now d op src]) t s nt ns calls"
  by (erule shape_append) (auto simp: shape_step_defs)

lemma shape_todo:
  assumes "log_shape es t s nt ns calls" and "seedSession (es @ [new_event (length es) now (TodoWrite v) op src]) = Inr tr"
  shows "log_shape (es @ [new_event (length es) now (TodoWrite v) op src]) t s nt ns calls"
proof (cases t)
  case (Some turn)
  with assms(1) show ?thesis by (simp only:, elim shape_append) (simp add: shape_step_defs)
next
  case None
  with assms show ?thesis by (auto simp: log_shape_def seedSession_snoc shape_step_defs result_simps)
qed

lemma shape_rewrite:
  assumes "log_shape es t s nt ns calls" and "rewrites_result d op"
    and "seedSession (es @ [new_event (length es) now d op src]) = Inr tr"
  shows "log_shape (es @ [new_event (length es) now d op src]) t s nt ns calls"
proof -
  obtain r where r: "d = ToolResult r" "op \<noteq> Some (JStr ''append'')" using assms(2) by (cases d) auto
  show ?thesis
  proof (cases t)
    case (Some turn)
    with assms(1) r show ?thesis by (simp only:, elim shape_append) (simp add: shape_step_defs)
  next
    case None
    with assms r show ?thesis by (auto simp: log_shape_def seedSession_snoc shape_step_defs result_simps)
  qed
qed

lemma shape_foreign:
  assumes "log_shape es t s nt ns calls" and "foreign d op"
    and "seedSession (es @ [new_event (length es) now d op src]) = Inr tr"
  shows "log_shape (es @ [new_event (length es) now d op src]) t s nt ns calls"
proof (cases "\<exists>v. d = TodoWrite v")
  case True
  with assms shape_todo show ?thesis by blast
next
  case False
  with assms(2) have "(\<exists>m. d = UserMessage m) \<or> d = EndSeed \<or> (\<exists>p. d = Plugin p) \<or> rewrites_result d op"
    by (cases d) (auto simp: foreign_def)
  then show ?thesis
    using shape_neutral [OF assms(1)] shape_rewrite [OF assms(1) _ assms(3)] by blast
qed

text \<open>An append the shape allows never throws.\<close>

lemma wp_append:
  assumes "log_shape (log_of w @ [new_event (length (log_of w)) (lw_now w) d op src]) t s nt ns calls"
    and "Q (length (log_of w)) (commit_event (new_event (length (log_of w)) (lw_now w) d op src) w)"
  shows "wp (append_with d op src) Q E W F w"
  using assms by (auto simp: wp_def append_with_def log_shape_def Let_def)

section \<open>What other code can change\<close>

text \<open>Events that are not the driver's, appended in order and keeping every shape.\<close>

definition grows_foreign :: "inbox_event list \<Rightarrow> inbox_event list \<Rightarrow> bool" where
  "grows_foreign es es' \<longleftrightarrow> (\<exists>fs. es' = es @ fs \<and> list_all foreign_event fs)
     \<and> (\<forall>t s nt ns calls. log_shape es t s nt ns calls \<longrightarrow> log_shape es' t s nt ns calls)"

lemma grows_refl [simp]: "grows_foreign es es"
  by (auto simp: grows_foreign_def intro: exI [of _ "[]"])

lemma grows_trans: "grows_foreign es es' \<Longrightarrow> grows_foreign es' es'' \<Longrightarrow> grows_foreign es es''"
  by (fastforce simp: grows_foreign_def)

lemma spliced_new_event: "spliced_event n now sp = new_event n now (Plugin (Some sp)) None None"
  by (simp add: spliced_event_def new_event_def)

lemma grows_append:
  assumes "foreign d op"
    and "\<And>t s nt ns calls. log_shape es t s nt ns calls \<Longrightarrow>
      log_shape (es @ [new_event (length es) now d op src]) t s nt ns calls"
  shows "grows_foreign es (es @ [new_event (length es) now d op src])"
proof -
  have "foreign_event (new_event (length es) now d op src)" using assms(1) by (simp add: new_event_def)
  then show ?thesis using assms(2) by (auto simp: grows_foreign_def)
qed

lemma grows_splice: "grows_foreign es (es @ [spliced_event (length es) now sp])"
  unfolding spliced_new_event by (rule grows_append) (auto simp: foreign_def intro: shape_neutral)

lemma mutate_grows: "mutate now t st n ms discard b = Inr (b', r) \<Longrightarrow> grows_foreign (iw_log b) (iw_log b')"
  by (auto simp: mutate_def Let_def result_simps grows_splice split: if_splits)

lemma inbox_clear_grows: "inbox_clear now b = Inr b' \<Longrightarrow> grows_foreign (iw_log b) (iw_log b')"
  by (auto simp: inbox_clear_def inbox_splice_op_def result_simps intro: grows_trans dest!: mutate_grows)

lemma claim_grows: "claim now t turn b = Inr (b', ms) \<Longrightarrow> grows_foreign (iw_log b) (iw_log b')"
  by (auto simp: claim_def result_simps intro: grows_trans dest!: mutate_grows split: if_splits)

text \<open>What one outside action leaves of the driver's state.\<close>

definition same_driver :: "loop_world \<Rightarrow> loop_world \<Rightarrow> bool" where
  "same_driver w w' \<longleftrightarrow> grows_foreign (log_of w) (log_of w')
     \<and> (\<forall>a. lw_phase w = Running a \<longrightarrow> (\<exists>a'. lw_phase w' = Running a' \<and> ac_turn a' = ac_turn a
          \<and> ac_step a' = ac_step a \<and> (ac_abort a \<noteq> None \<longrightarrow> ac_abort a' = ac_abort a)))
     \<and> lw_headerLogged w' = lw_headerLogged w \<and> lw_requests w' = lw_requests w
     \<and> lw_fresh w' = lw_fresh w \<and> lw_script w' = lw_script w"

lemma same_driver_refl [simp]: "same_driver w w"
  by (simp add: same_driver_def)

lemma splice_same: "splice_inbox t st n ms w = Inr w' \<Longrightarrow> same_driver w w' \<and> lw_group w' = lw_group w \<and> lw_phase w' = lw_phase w"
  by (auto simp: splice_inbox_def inbox_splice_op_def result_simps same_driver_def dest: mutate_grows)

lemma wake_same: "\<not> is_idle (lw_phase w) \<Longrightarrow> same_driver w (wakeDriver b w)"
  by (cases "lw_phase w") (auto simp: wakeDriver_def same_driver_def)

lemma wake_group [simp]: "lw_group (wakeDriver b w) = lw_group w" "log_of (wakeDriver b w) = log_of w"
  by (auto simp: wakeDriver_def split: phase.splits)

lemma same_driver_trans: "same_driver w w' \<Longrightarrow> same_driver w' w'' \<Longrightarrow> same_driver w w''"
  by (auto simp: same_driver_def intro: grows_trans)

lemma send_same:
  assumes "send m t wakeup w = Inr w'" and "lw_phase w = Running a"
  shows "same_driver w w' \<and> lw_group w' = lw_group w"
proof -
  obtain t' b w1 where w1: "splice_inbox t' PosInf (Fin 0) [m] w = Inr w1"
    and w': "w' = (if wakeup then wakeDriver b w1 else w1)"
    using assms(1) by (auto simp: send_def Let_def result_simps)
  have 1: "same_driver w w1" "lw_group w1 = lw_group w" "lw_phase w1 = Running a"
    using splice_same [OF w1] assms(2) by simp_all
  then have "same_driver w1 (wakeDriver b w1)" by (intro wake_same) simp
  with 1 w' show ?thesis by (auto intro: same_driver_trans)
qed

lemma cancel_same:
  assumes "cancel cause keep w = Inr w'" and "lw_phase w = Running a"
  shows "same_driver w w' \<and> lw_group w' = lw_group w"
  using assms
  by (auto simp: cancel_def result_simps same_driver_def split: if_splits option.splits dest: inbox_clear_grows)

lemma outside_append_same:
  assumes "append_with d op src w = Done n w'" and "foreign d op"
  shows "same_driver w w' \<and> lw_group w' = lw_group w"
proof -
  let ?e = "new_event (length (log_of w)) (lw_now w) d op src"
  from assms(1) obtain tr where tr: "seedSession (log_of w @ [?e]) = Inr tr" and w': "w' = commit_event ?e w"
    by (auto simp: append_with_def Let_def split: sum.splits)
  have "grows_foreign (log_of w) (log_of w @ [?e])"
    using shape_foreign [OF _ assms(2) tr] assms(2) by (intro grows_append)
  then show ?thesis by (simp add: w' same_driver_def)
qed

lemma happen_same:
  assumes "lw_phase w = Running a"
  shows "same_driver w (happen x w)"
    and "lw_group (happen x w) = lw_group w \<or> (\<exists>i r. lw_group (happen x w) = settle_call i r (lw_group w))"
proof -
  have "same_driver w (happen x w) \<and>
    (lw_group (happen x w) = lw_group w \<or> (\<exists>i r. lw_group (happen x w) = settle_call i r (lw_group w)))"
  proof (cases x)
    case (OSend m t b)
    then show ?thesis
      using send_same [OF _ assms] by (cases "send m t b w") (auto simp: or_same_def)
  next
    case (OCancel c k)
    then show ?thesis
      using cancel_same [OF _ assms] by (cases "cancel c k w") (auto simp: or_same_def)
  next
    case (OSplice t st n ms)
    then show ?thesis
      using splice_same [of t st n ms w] by (cases "splice_inbox t st n ms w") (auto simp: or_same_def)
  next
    case (OAppend d op src)
    then show ?thesis
      using outside_append_same [of d op src w] by (auto split: run.split)
  next
    case (OSettle i r)
    then show ?thesis by (auto simp: same_driver_def)
  qed
  then show "same_driver w (happen x w)"
    and "lw_group (happen x w) = lw_group w \<or> (\<exists>i r. lw_group (happen x w) = settle_call i r (lw_group w))"
    by simp_all
qed

section \<open>Waiting keeps what other code keeps\<close>

definition stable :: "(loop_world \<Rightarrow> bool) \<Rightarrow> bool" where
  "stable I \<longleftrightarrow> (\<forall>w x. I w \<longrightarrow> I (happen x w)) \<and> (\<forall>w t ts n. I w \<longrightarrow> lw_script w = t # ts \<longrightarrow> I (w\<lparr>lw_script := ts, lw_now := n\<rparr>))"

lemma stableI:
  assumes "\<And>w x. I w \<Longrightarrow> I (happen x w)" and "\<And>w t ts n. I w \<Longrightarrow> lw_script w = t # ts \<Longrightarrow> I (w\<lparr>lw_script := ts, lw_now := n\<rparr>)"
  shows "stable I"
  using assms by (simp add: stable_def)

lemma stable_conj: "stable I \<Longrightarrow> stable J \<Longrightarrow> stable (\<lambda>w. I w \<and> J w)"
  by (simp add: stable_def)

lemma stable_happen: "stable I \<Longrightarrow> I w \<Longrightarrow> I (happen x w)"
  by (simp add: stable_def)

lemma stable_const: "stable (\<lambda>_. b)"
  by (simp add: stable_def)

lemma stable_fold: "stable I \<Longrightarrow> I w \<Longrightarrow> I (fold happen xs w)"
  by (induction xs arbitrary: w) (simp_all add: stable_def)

lemma splice_script: "splice_inbox t st n ms w = Inr w' \<Longrightarrow> lw_script w' = lw_script w"
  by (auto simp: splice_inbox_def result_simps)

lemma wake_script [simp]: "lw_script (wakeDriver b w) = lw_script w"
  by (auto simp: wakeDriver_def split: phase.splits)

lemma happen_script: "lw_script (happen x w) = lw_script w"
proof (cases x)
  case (OSend m t b)
  then show ?thesis
    by (auto simp: or_same_def send_def Let_def result_simps split: sum.splits dest: splice_script)
next
  case (OCancel c k)
  then show ?thesis by (auto simp: or_same_def cancel_def result_simps split: sum.splits if_splits)
next
  case (OSplice t st n ms)
  then show ?thesis by (auto simp: or_same_def split: sum.splits dest: splice_script)
next
  case (OAppend d op src)
  then show ?thesis by (auto simp: append_with_def Let_def split: run.splits sum.splits if_splits)
qed simp

lemma fold_happen_script: "lw_script (fold happen xs w) = lw_script w"
  by (induction xs arbitrary: w) (simp_all add: happen_script)

text \<open>The errors that come from outside the driver.\<close>

definition outside_error :: "loop_error \<Rightarrow> bool" where
  "outside_error x \<longleftrightarrow> (\<exists>e. x = ExternalError e) \<or> (\<exists>e. x = LlmError e)"

definition script_size :: "loop_world \<Rightarrow> nat" where
  "script_size w = length (lw_script w)"

lemma script_size_update [simp]:
  "script_size (w\<lparr>lw_group := g\<rparr>) = script_size w" "script_size (w\<lparr>lw_phase := p\<rparr>) = script_size w"
  "script_size (w\<lparr>lw_inbox := b\<rparr>) = script_size w" "script_size (w\<lparr>lw_fresh := n\<rparr>) = script_size w"
  "script_size (w\<lparr>lw_requests := qs\<rparr>) = script_size w" "script_size (w\<lparr>lw_headerLogged := h\<rparr>) = script_size w"
  "script_size (commit_event e w) = script_size w"
  by (simp_all add: script_size_def)

lemma wp_take_reply:
  assumes "I w" and "script_size w < n"
  shows "wp (take_reply f r) (\<lambda>a w'. I w' \<and> script_size w' < n) (\<lambda>x w'. I w' \<and> outside_error x \<and> script_size w' < n)
    I (\<lambda>_. False) w"
  using assms by (cases "f r"; cases r; simp add: wp_def take_reply_def outside_error_def)

lemma wp_await:
  assumes "stable I" and "I w"
  shows "wp (await f) (\<lambda>a w'. I w' \<and> script_size w' < script_size w)
    (\<lambda>x w'. I w' \<and> outside_error x \<and> script_size w' < script_size w) I (\<lambda>_. False) w"
proof (cases "lw_script w")
  case Nil
  then show ?thesis using assms(2) by (simp add: wp_def await_def)
next
  case (Cons t ts)
  let ?w = "fold happen (tk_outside t) (w\<lparr>lw_script := ts, lw_now := tk_now t\<rparr>)"
  have "I (w\<lparr>lw_script := ts, lw_now := tk_now t\<rparr>)" using assms Cons by (auto simp: stable_def)
  with assms(1) have "I ?w" by (rule stable_fold)
  moreover have "script_size ?w < script_size w" by (simp add: script_size_def fold_happen_script Cons)
  ultimately have "wp (take_reply f (tk_reply t)) (\<lambda>a w'. I w' \<and> script_size w' < script_size w)
      (\<lambda>x w'. I w' \<and> outside_error x \<and> script_size w' < script_size w) I (\<lambda>_. False) ?w"
    by (rule wp_take_reply)
  then show ?thesis by (simp add: wp_def await_def Cons)
qed

lemma wp_ask:
  assumes "stable I" and "I w"
  shows "wp (ask f) (\<lambda>a w'. I w' \<and> script_size w' < script_size w)
    (\<lambda>x w'. I w' \<and> outside_error x \<and> script_size w' < script_size w) I (\<lambda>_. False) w"
proof (cases "lw_script w")
  case Nil
  then show ?thesis using assms(2) by (simp add: wp_def ask_def)
next
  case (Cons t ts)
  have "wp (take_reply f (tk_reply t)) (\<lambda>a w'. I w' \<and> script_size w' < script_size w)
      (\<lambda>x w'. I w' \<and> outside_error x \<and> script_size w' < script_size w) I (\<lambda>_. False)
      (w\<lparr>lw_script := ts, lw_now := tk_now t\<rparr>)"
    using assms by (intro wp_take_reply) (auto simp: stable_def script_size_def Cons)
  then show ?thesis by (simp add: wp_def ask_def Cons)
qed

lemma keeps_await: "stable I \<Longrightarrow> keeps I (await f)"
  by (rule keepsI, drule (1) wp_await [where f = f], erule wp_mono) simp_all

lemma keeps_ask: "stable I \<Longrightarrow> keeps I (ask f)"
  by (rule keepsI, drule (1) wp_ask [where f = f], erule wp_mono) simp_all

lemma keeps_throw_if_aborted [keeps_intros]: "keeps I throw_if_aborted"
  by (rule keepsI) (simp add: wp_def throw_if_aborted_def split: option.split)

lemma wp_throw_if_aborted:
  assumes "abort_reason w = None \<Longrightarrow> Q () w" and "\<And>cause. abort_reason w = Some cause \<Longrightarrow> E (AbortError cause) w"
  shows "wp throw_if_aborted Q E W F w"
  using assms by (simp add: wp_def throw_if_aborted_def split: option.split)

lemma wp_fresh_uuid [simp]:
  "wp (fresh_uuid uuid) Q E W F w = Q (uuid (lw_fresh w)) (w\<lparr>lw_fresh := Suc (lw_fresh w)\<rparr>)"
  by (simp add: wp_def fresh_uuid_def)

lemma stable_script: "stable (\<lambda>w. script_size w \<le> n)"
  by (rule stableI) (simp_all add: script_size_def happen_script)

text \<open>The driver is at a turn and step, and the log has the matching shape.\<close>

definition running_at :: "int \<Rightarrow> int \<Rightarrow> loop_world \<Rightarrow> bool" where
  "running_at t s w \<longleftrightarrow> (\<exists>a. lw_phase w = Running a \<and> ac_turn a = t \<and> ac_step a = s)"

lemma stable_running: "stable (running_at t s)"
proof (rule stableI)
  fix w x assume "running_at t s w"
  then obtain a where "lw_phase w = Running a" "ac_turn a = t" "ac_step a = s" by (auto simp: running_at_def)
  with happen_same(1) [of w a x] show "running_at t s (happen x w)" by (auto simp: running_at_def same_driver_def)
qed (simp add: running_at_def)

definition shaped :: "int option \<Rightarrow> int option \<Rightarrow> int \<Rightarrow> int \<Rightarrow> string set \<Rightarrow> int \<Rightarrow> int \<Rightarrow> loop_world \<Rightarrow> bool" where
  "shaped ot os nt ns calls t s w \<longleftrightarrow> running_at t s w \<and> log_shape (log_of w) ot os nt ns calls"

lemma stable_shaped: "stable (shaped ot os nt ns calls t s)"
proof (rule stableI)
  fix w x assume w: "shaped ot os nt ns calls t s w"
  then obtain a where "lw_phase w = Running a" by (auto simp: shaped_def running_at_def)
  from happen_same(1) [OF this, of x] w stable_running [of t s] show "shaped ot os nt ns calls t s (happen x w)"
    by (simp add: shaped_def stable_def same_driver_def grows_foreign_def)
qed (simp add: shaped_def running_at_def)

end
