(* ===== verification/ToolCalls.thy ===== *)
theory ToolCalls imports LoopWorld begin

text \<open>
  packages/core/agent-loop/src/tool-calls.ts: one step's tool calls. Exclusive calls form
  barriers, parallel calls run in a bounded rolling pool; starts, results and result contexts
  stay in model order. The tool runtime (packages/core/tools) answers through the script:
  \<open>executionMode\<close> and \<open>finish\<close> are synchronous, \<open>prepare\<close>, \<open>finalize\<close> and the settled
  dispatches are awaited. The locals of a group that the dispatch callbacks share live in
  \<open>lw_group\<close>.
\<close>

section \<open>The scope of one step\<close>

record step_scope =
  sc_uuid :: "nat \<Rightarrow> string"
  sc_max :: nat
  sc_turn :: int
  sc_step :: int

fun tool_call_block :: "content_block \<Rightarrow> call_block option" where
  "tool_call_block (ToolCallBlock i n a) = Some \<lparr>cb_id = i, cb_name = n, cb_arguments = a\<rparr>"
| "tool_call_block _ = None"

fun mode_reply :: "reply \<Rightarrow> bool option" where
  "mode_reply (RMode b) = Some b"
| "mode_reply _ = None"

fun prepared_reply :: "reply \<Rightarrow> prepared_call option" where
  "prepared_reply (RPrepared p) = Some p"
| "prepared_reply _ = None"

fun result_reply :: "reply \<Rightarrow> tool_outcome option" where
  "result_reply (RResult r) = Some r"
| "result_reply _ = None"

fun race_reply :: "reply \<Rightarrow> nat option" where
  "race_reply (RRace i) = Some i"
| "race_reply _ = None"

fun all_settled_reply :: "reply \<Rightarrow> unit option" where
  "all_settled_reply RAllSettled = Some ()"
| "all_settled_reply _ = None"

definition update_group :: "(call_group \<Rightarrow> call_group) \<Rightarrow> unit loop_prog" where
  "update_group f = modify (\<lambda>w. w\<lparr>lw_group := f (lw_group w)\<rparr>)"

definition signal_aborted :: "bool loop_prog" where
  "signal_aborted = read_state (\<lambda>w. abort_reason w \<noteq> None)"

section \<open>Calls and results in the log\<close>

definition appendToolCall :: "step_scope \<Rightarrow> call_block \<Rightarrow> nat loop_prog" where
  "appendToolCall sc c = append (ToolCall (sc_turn sc) (sc_step sc) (cb_id c) (cb_name c) (cb_arguments c))"

definition result_data :: "step_scope \<Rightarrow> string \<Rightarrow> call_block \<Rightarrow> tool_outcome \<Rightarrow> tool_result" where
  "result_data sc uuid c r =
     \<lparr>tr_turn = sc_turn sc, tr_step = sc_step sc,
      tr_message = createToolResultMessage uuid (cb_id c) (to_content r) (to_isError r),
      tr_error = to_error r, tr_meta = to_meta r\<rparr>"

definition appendToolResult :: "step_scope \<Rightarrow> call_block \<Rightarrow> tool_outcome \<Rightarrow> int \<Rightarrow> unit loop_prog" where
  "appendToolResult sc c r callSeq =
     bnd (fresh_uuid (sc_uuid sc)) (\<lambda>uuid.
     bnd (append_with (ToolResult (result_data sc uuid c r)) (Some (JStr ''append'')) (Some (JArr [JInt callSeq]))) (\<lambda>_.
       ret ()))"

definition TOOL_ABORTED_BEFORE_DISPATCH :: string where
  "TOOL_ABORTED_BEFORE_DISPATCH = ''ABORTED_BEFORE_DISPATCH''"

definition skipped_outcome :: tool_outcome where
  "skipped_outcome =
     \<lparr>to_content = [TextBlock ''Error: tool call aborted before dispatch''], to_isError = True,
      to_error = Some (''AbortError'', TOOL_ABORTED_BEFORE_DISPATCH), to_meta = None,
      to_contexts = [], to_concludes = False\<rparr>"

definition appendSkippedToolCall :: "step_scope \<Rightarrow> call_block \<Rightarrow> unit loop_prog" where
  "appendSkippedToolCall sc c =
     bnd (appendToolCall sc c) (\<lambda>callSeq. appendToolResult sc c skipped_outcome (int callSeq))"

text \<open>The context acceptor of the driver: the end of the next-step inbox.\<close>

definition accept_context :: "message \<Rightarrow> unit loop_prog" where
  "accept_context m w =
     (case splice_inbox NextStep (Fin (of_nat (length (ib_nextStep (iw_state (lw_inbox w)))))) (Fin 0) [m] w of
        Inl x \<Rightarrow> Thrown (InboxRejected x) w
      | Inr w' \<Rightarrow> Done () w')"

section \<open>One group\<close>

definition new_group :: "nat \<Rightarrow> bool \<Rightarrow> call_group" where
  "new_group n aborted =
     \<lparr>cg_slots = replicate n None, cg_callSeqs = replicate n (- 1), cg_nextToStart = 0, cg_committed = 0,
      cg_started = 0, cg_aborted = aborted, cg_concluded = False, cg_failure = None, cg_inFlight = [],
      cg_settled = []\<rparr>"

text \<open>The microtask between the end of an async function and its awaiting caller.\<close>

definition pause :: "unit loop_prog" where
  "pause w =
     (case lw_script w of
        [] \<Rightarrow> Waiting w
      | t # ts \<Rightarrow> Done () (fold happen (tk_outside t) (w\<lparr>lw_script := ts, lw_now := tk_now t\<rparr>)))"

definition awaited :: "'a loop_prog \<Rightarrow> 'a loop_prog" where
  "awaited p = finally_do p pause"

definition throwSchedulerFailure :: "unit loop_prog" where
  "throwSchedulerFailure = bnd (read_state (\<lambda>w. cg_failure (lw_group w)))
     (\<lambda>f. case f of None \<Rightarrow> ret () | Some x \<Rightarrow> throw x)"

text \<open>Whether the next result in model order is there, and its commit.\<close>

definition ready_slot :: "nat \<Rightarrow> call_group \<Rightarrow> (tool_outcome \<times> bool) option" where
  "ready_slot n g = (if cg_committed g < n then cg_slots g ! cg_committed g else None)"

definition commit_result :: "step_scope \<Rightarrow> call_block list \<Rightarrow> tool_outcome \<Rightarrow> unit loop_prog" where
  "commit_result sc cs r =
     bnd (read_state lw_group) (\<lambda>g.
     bnd (appendToolResult sc (cs ! cg_committed g) r (cg_callSeqs g ! cg_committed g)) (\<lambda>_.
     bnd (for_each accept_context (to_contexts r)) (\<lambda>_.
       update_group (\<lambda>g. g\<lparr>cg_concluded := cg_concluded g \<or> to_concludes r, cg_committed := Suc (cg_committed g)\<rparr>))))"

definition commit_slot :: "step_scope \<Rightarrow> call_block list \<Rightarrow> tool_outcome \<times> bool \<Rightarrow> unit loop_prog" where
  "commit_slot sc cs slot = bnd (if snd slot then await result_reply else ask result_reply) (commit_result sc cs)"

definition commitReady :: "step_scope \<Rightarrow> call_block list \<Rightarrow> unit loop_prog" where
  "commitReady sc cs =
     loop_do (Suc (length cs)) (\<lambda>_.
       bnd (read_state (\<lambda>w. ready_slot (length cs) (lw_group w))) (\<lambda>slot.
         case slot of
           None \<Rightarrow> ret (Inr ())
         | Some sl \<Rightarrow> bnd (commit_slot sc cs sl) (\<lambda>_. ret (Inl ())))) ()"

fun place_prepared :: "nat \<Rightarrow> prepared_call \<Rightarrow> call_group \<Rightarrow> call_group" where
  "place_prepared i DispatchCall g = g\<lparr>cg_inFlight := cg_inFlight g @ [i]\<rparr>"
| "place_prepared i (PostResult r) g = g\<lparr>cg_slots := (cg_slots g)[i := Some (r, True)]\<rparr>"
| "place_prepared i (FinalResult r) g = g\<lparr>cg_slots := (cg_slots g)[i := Some (r, False)]\<rparr>"

definition startCall :: "step_scope \<Rightarrow> call_block list \<Rightarrow> nat \<Rightarrow> unit loop_prog" where
  "startCall sc cs i =
     bnd (appendToolCall sc (cs ! i)) (\<lambda>seq.
     bnd (update_group (\<lambda>g. g\<lparr>cg_callSeqs := (cg_callSeqs g)[i := int seq], cg_started := Suc (cg_started g)\<rparr>)) (\<lambda>_.
     bnd (await prepared_reply) (\<lambda>p.
     bnd throwSchedulerFailure (\<lambda>_.
       update_group (place_prepared i p)))))"

definition latch_abort :: "unit loop_prog" where
  "latch_abort = bnd signal_aborted (\<lambda>b. if b then update_group (\<lambda>g. g\<lparr>cg_aborted := True\<rparr>) else ret ())"

definition may_start :: "step_scope \<Rightarrow> nat \<Rightarrow> call_group \<Rightarrow> bool" where
  "may_start sc n g \<longleftrightarrow> \<not> cg_aborted g \<and> cg_nextToStart g < n \<and> length (cg_inFlight g) < sc_max sc"

text \<open>Later modes are read again, so a registry change can create a barrier.\<close>

definition barrier_next :: "bool \<Rightarrow> call_group \<Rightarrow> bool loop_prog" where
  "barrier_next parallel g =
     (if 0 < cg_nextToStart g \<and> parallel then bnd (ask mode_reply) (\<lambda>p. ret (\<not> p)) else ret False)"

definition start_next :: "step_scope \<Rightarrow> call_block list \<Rightarrow> unit loop_prog" where
  "start_next sc cs =
     bnd (read_state (\<lambda>w. cg_nextToStart (lw_group w))) (\<lambda>i.
     bnd (awaited (startCall sc cs i)) (\<lambda>_.
     bnd (update_group (\<lambda>g. g\<lparr>cg_nextToStart := Suc (cg_nextToStart g)\<rparr>)) (\<lambda>_.
     bnd throwSchedulerFailure (\<lambda>_.
     bnd (awaited (commitReady sc cs)) (\<lambda>_.
     bnd throwSchedulerFailure (\<lambda>_.
       latch_abort))))))"

definition fillPool :: "step_scope \<Rightarrow> bool \<Rightarrow> call_block list \<Rightarrow> unit loop_prog" where
  "fillPool sc parallel cs =
     loop_do (Suc (length cs)) (\<lambda>_.
       bnd (read_state lw_group) (\<lambda>g.
         if \<not> may_start sc (length cs) g then ret (Inr ())
         else bnd (barrier_next parallel g) (\<lambda>b.
           if b then ret (Inr ()) else bnd (start_next sc cs) (\<lambda>_. ret (Inl ()))))) ()"

text \<open>An answer naming a call that is not settled is no answer: the race goes on.\<close>

definition race_settled :: "nat loop_prog" where
  "race_settled = bnd (await race_reply) (\<lambda>i w.
     if i \<in> set (cg_inFlight (lw_group w)) \<and> i \<in> set (cg_settled (lw_group w)) then Done i w else Waiting w)"

definition all_settled :: "unit loop_prog" where
  "all_settled = bnd (await all_settled_reply) (\<lambda>_ w.
     if set (cg_inFlight (lw_group w)) \<subseteq> set (cg_settled (lw_group w)) then Done () w else Waiting w)"

definition drain_round :: "step_scope \<Rightarrow> bool \<Rightarrow> call_block list \<Rightarrow> unit loop_prog" where
  "drain_round sc parallel cs =
     bnd race_settled (\<lambda>i.
     bnd (update_group (\<lambda>g. g\<lparr>cg_inFlight := remove1 i (cg_inFlight g), cg_settled := remove1 i (cg_settled g)\<rparr>)) (\<lambda>_.
     bnd throwSchedulerFailure (\<lambda>_.
     bnd (awaited (commitReady sc cs)) (\<lambda>_.
     bnd throwSchedulerFailure (\<lambda>_.
     bnd latch_abort (\<lambda>_.
       awaited (fillPool sc parallel cs)))))))"

definition drainPool :: "step_scope \<Rightarrow> bool \<Rightarrow> call_block list \<Rightarrow> unit loop_prog" where
  "drainPool sc parallel cs =
     bnd (read_state script_size) (\<lambda>n. loop_do (Suc n) (\<lambda>_.
       bnd (read_state (\<lambda>w. cg_inFlight (lw_group w))) (\<lambda>live.
         if live = [] then ret (Inr ()) else bnd (drain_round sc parallel cs) (\<lambda>_. ret (Inl ())))) ())"

text \<open>A failure stops new starts and surfaces when every started dispatch has settled.\<close>

definition scheduler_failed :: "loop_error \<Rightarrow> unit loop_prog" where
  "scheduler_failed x =
     bnd (update_group (\<lambda>g. g\<lparr>cg_failure := (case cg_failure g of None \<Rightarrow> Some x | f \<Rightarrow> f)\<rparr>)) (\<lambda>_.
     bnd all_settled (\<lambda>_. throwSchedulerFailure))"

definition run_pool :: "step_scope \<Rightarrow> bool \<Rightarrow> call_block list \<Rightarrow> unit loop_prog" where
  "run_pool sc parallel cs =
     handle (bnd (awaited (fillPool sc parallel cs)) (\<lambda>_. drainPool sc parallel cs)) scheduler_failed"

record group_outcome =
  go_consumed :: nat
  go_aborted :: bool
  go_concluded :: bool

text \<open>Calls an abort left unstarted get an ordered synthetic result.\<close>

definition group_result :: "step_scope \<Rightarrow> call_block list \<Rightarrow> group_outcome loop_prog" where
  "group_result sc cs =
     bnd (read_state lw_group) (\<lambda>g.
       if cg_aborted g then
         bnd (for_each (appendSkippedToolCall sc) (drop (cg_started g) cs)) (\<lambda>_.
           ret \<lparr>go_consumed = length cs, go_aborted = True, go_concluded = cg_concluded g\<rparr>)
       else if cg_committed g \<noteq> cg_started g then throw UncommittedCalls
       else ret \<lparr>go_consumed = cg_started g, go_aborted = False, go_concluded = cg_concluded g\<rparr>)"

definition runGroup :: "step_scope \<Rightarrow> bool \<Rightarrow> call_block list \<Rightarrow> group_outcome loop_prog" where
  "runGroup sc parallel cs =
     bnd signal_aborted (\<lambda>aborted.
     bnd (update_group (\<lambda>_. new_group (length cs) aborted)) (\<lambda>_.
     bnd (run_pool sc parallel cs) (\<lambda>_.
       group_result sc cs)))"

section \<open>All calls of a step\<close>

definition next_group :: "step_scope \<Rightarrow> call_block list \<Rightarrow> bool \<Rightarrow> (call_block list \<times> bool + bool) loop_prog" where
  "next_group sc rest concluded =
     bnd (ask mode_reply) (\<lambda>parallel.
     bnd (awaited (runGroup sc parallel (if parallel then rest else [hd rest]))) (\<lambda>out.
       let rest' = drop (go_consumed out) rest;
           concluded' = (concluded \<or> go_concluded out)
       in if go_aborted out
          then bnd (for_each (appendSkippedToolCall sc) rest') (\<lambda>_. ret (Inr concluded'))
          else ret (Inl (rest', concluded'))))"

definition executeToolCalls :: "step_scope \<Rightarrow> call_block list \<Rightarrow> bool loop_prog" where
  "executeToolCalls sc calls =
     loop_do (Suc (length calls)) (\<lambda>(rest, concluded).
       if rest = [] then ret (Inr concluded) else next_group sc rest concluded) (calls, False)"

section \<open>Calls and results a log records\<close>

fun call_entry :: "inbox_event \<Rightarrow> (int \<times> call_block) option" where
  "call_entry e =
     (case ev_data e of
        ToolCall t s c n a \<Rightarrow> Some (int (ev_seq e), \<lparr>cb_id = c, cb_name = n, cb_arguments = a\<rparr>)
      | _ \<Rightarrow> None)"

text \<open>The results that answer a call are appended; a rewrite takes the place of one.\<close>

fun result_entry :: "inbox_event \<Rightarrow> (string option \<times> json option) option" where
  "result_entry e =
     (case ev_data e of
        ToolResult r \<Rightarrow>
          if ev_surfaceOp e = Some (JStr ''append'') then Some (source_call_id (msg_source (tr_message r)), ev_sources e)
          else None
      | _ \<Rightarrow> None)"

definition calls_of :: "inbox_event list \<Rightarrow> (int \<times> call_block) list" where
  "calls_of es = List.map_filter call_entry es"

definition results_of :: "inbox_event list \<Rightarrow> (string option \<times> json option) list" where
  "results_of es = List.map_filter result_entry es"

text \<open>The result that answers a call names it and cites its event.\<close>

definition cite :: "int \<times> call_block \<Rightarrow> string option \<times> json option" where
  "cite p = (Some (cb_id (snd p)), Some (JArr [JInt (fst p)]))"

text \<open>The events the step adds: calls and results of its own position, and those of other code.\<close>

definition step_event :: "step_scope \<Rightarrow> inbox_event \<Rightarrow> bool" where
  "step_event sc e \<longleftrightarrow>
     (case ev_data e of
        ToolCall t s _ _ _ \<Rightarrow> t = sc_turn sc \<and> s = sc_step sc
      | ToolResult r \<Rightarrow> foreign_event e \<or> tr_turn r = sc_turn sc \<and> tr_step r = sc_step sc
      | _ \<Rightarrow> foreign_event e)"

definition recorded ::
  "step_scope \<Rightarrow> inbox_event list \<Rightarrow> call_block list \<Rightarrow> nat \<Rightarrow> nat \<Rightarrow> int list \<Rightarrow> inbox_event list \<Rightarrow> bool" where
  "recorded sc es0 cs j k qs es \<longleftrightarrow> k \<le> j \<and> j \<le> length cs \<and> length qs = j
     \<and> (\<exists>fs. es = es0 @ fs \<and> list_all (step_event sc) fs \<and> calls_of fs = zip qs (take j cs)
          \<and> results_of fs = map cite (take k (zip qs (take j cs))))"

lemma trace_parts [simp]:
  "calls_of [] = []" "results_of [] = []"
  "calls_of (es @ es') = calls_of es @ calls_of es'"
  "results_of (es @ es') = results_of es @ results_of es'"
  by (simp_all add: calls_of_def results_of_def List.map_filter_def)

lemma foreign_parts:
  "list_all foreign_event fs \<Longrightarrow> calls_of fs = [] \<and> results_of fs = [] \<and> list_all (step_event sc) fs"
proof (induction fs)
  case (Cons e fs)
  then have "foreign_event e" by simp
  then have "call_entry e = None" "result_entry e = None" "step_event sc e"
    by (auto simp: step_event_def foreign_def split: event_data.splits)
  with Cons show ?case by (simp add: calls_of_def results_of_def List.map_filter_def)
qed simp

lemma recorded_start: "recorded sc es cs 0 0 [] es"
  by (auto simp: recorded_def intro: exI [of _ "[]"])

lemma recorded_foreign:
  assumes "recorded sc es0 cs j k qs es" and "grows_foreign es es'"
  shows "recorded sc es0 cs j k qs es'"
proof -
  from assms(2) obtain gs where gs: "es' = es @ gs" "list_all foreign_event gs"
    by (auto simp: grows_foreign_def)
  from foreign_parts [OF gs(2)] have "calls_of gs = []" "results_of gs = []" "list_all (step_event sc) gs"
    by simp_all
  with assms(1) gs(1) show ?thesis unfolding recorded_def by fastforce
qed

lemma recorded_call:
  assumes "recorded sc es0 cs j k qs es" and "j < length cs"
  shows "recorded sc es0 cs (Suc j) k (qs @ [int q])
    (es @ [new_event q now (ToolCall (sc_turn sc) (sc_step sc) (cb_id (cs ! j)) (cb_name (cs ! j)) (cb_arguments (cs ! j))) op src])"
    (is "recorded sc es0 cs (Suc j) k (qs @ [int q]) (es @ [?e])")
proof -
  from assms(1) obtain fs where fs: "es = es0 @ fs" "list_all (step_event sc) fs"
      "calls_of fs = zip qs (take j cs)" "results_of fs = map cite (take k (zip qs (take j cs)))"
    and len: "length qs = j" "k \<le> j"
    by (auto simp: recorded_def)
  have e: "calls_of [?e] = [(int q, cs ! j)]" "results_of [?e] = []" "step_event sc ?e"
    by (simp_all add: calls_of_def results_of_def List.map_filter_def new_event_def step_event_def)
  have z: "zip (qs @ [int q]) (take (Suc j) cs) = zip qs (take j cs) @ [(int q, cs ! j)]"
    using assms(2) len by (simp add: take_Suc_conv_app_nth)
  have "es @ [?e] = es0 @ (fs @ [?e])" "list_all (step_event sc) (fs @ [?e])"
    "calls_of (fs @ [?e]) = zip (qs @ [int q]) (take (Suc j) cs)"
    "results_of (fs @ [?e]) = map cite (take k (zip (qs @ [int q]) (take (Suc j) cs)))"
    unfolding z using fs e len assms(2) by simp_all
  then show ?thesis using assms(2) len unfolding recorded_def by (intro conjI exI [of _ "fs @ [?e]"]) simp_all
qed

lemma recorded_result:
  assumes "recorded sc es0 cs j k qs es" and "k < j"
  shows "recorded sc es0 cs j (Suc k) qs
    (es @ [new_event q now (ToolResult (result_data sc uuid (cs ! k) r)) (Some (JStr ''append'')) (Some (JArr [JInt (qs ! k)]))])"
    (is "recorded sc es0 cs j (Suc k) qs (es @ [?e])")
proof -
  from assms(1) obtain fs where fs: "es = es0 @ fs" "list_all (step_event sc) fs"
      "calls_of fs = zip qs (take j cs)" "results_of fs = map cite (take k (zip qs (take j cs)))"
    and len: "length qs = j" "j \<le> length cs"
    by (auto simp: recorded_def)
  have e: "calls_of [?e] = []" "results_of [?e] = [cite (qs ! k, cs ! k)]" "step_event sc ?e"
    by (simp_all add: calls_of_def results_of_def List.map_filter_def new_event_def step_event_def cite_def
        result_data_def createToolResultMessage_def createUserMessage_def createMessage_def)
  have z: "take (Suc k) (zip qs (take j cs)) = take k (zip qs (take j cs)) @ [(qs ! k, cs ! k)]"
    using assms(2) len by (simp add: take_Suc_conv_app_nth)
  have "es @ [?e] = es0 @ (fs @ [?e])" "list_all (step_event sc) (fs @ [?e])"
    "calls_of (fs @ [?e]) = zip qs (take j cs)"
    "results_of (fs @ [?e]) = map cite (take (Suc k) (zip qs (take j cs)))"
    unfolding z using fs e by simp_all
  then show ?thesis using assms(2) len unfolding recorded_def by (intro conjI exI [of _ "fs @ [?e]"]) simp_all
qed

text \<open>A group that recorded all its calls is followed by the next.\<close>

lemma recorded_trans:
  assumes "recorded sc es0 cs1 (length cs1) (length cs1) qs1 es1" and "recorded sc es1 cs2 j k qs2 es2"
  shows "recorded sc es0 (cs1 @ cs2) (length cs1 + j) (length cs1 + k) (qs1 @ qs2) es2"
proof -
  from assms(1) obtain fs where fs: "es1 = es0 @ fs" "list_all (step_event sc) fs"
      "calls_of fs = zip qs1 cs1" "results_of fs = map cite (zip qs1 cs1)" "length qs1 = length cs1"
    by (auto simp: recorded_def)
  from assms(2) obtain gs where gs: "es2 = es1 @ gs" "list_all (step_event sc) gs"
      "calls_of gs = zip qs2 (take j cs2)" "results_of gs = map cite (take k (zip qs2 (take j cs2)))"
      "length qs2 = j" "k \<le> j" "j \<le> length cs2"
    by (auto simp: recorded_def)
  have "es2 = es0 @ (fs @ gs)" "list_all (step_event sc) (fs @ gs)"
    "calls_of (fs @ gs) = zip (qs1 @ qs2) (take (length cs1 + j) (cs1 @ cs2))"
    "results_of (fs @ gs) = map cite (take (length cs1 + k) (zip (qs1 @ qs2) (take (length cs1 + j) (cs1 @ cs2))))"
    using fs gs by simp_all
  then show ?thesis using fs(5) gs(5-7) unfolding recorded_def by (intro conjI exI [of _ "fs @ gs"]) simp_all
qed


section \<open>The invariant of a group\<close>

text \<open>
  The errors a group can surface: those of other code, an inbox that refuses a context, and a
  result the session refuses, which takes two calls with one identity.
\<close>

definition call_error :: "call_block list \<Rightarrow> loop_error \<Rightarrow> bool" where
  "call_error cs x \<longleftrightarrow> outside_error x \<or> (\<exists>y. x = InboxRejected y)
     \<or> (\<not> distinct (map cb_id cs) \<and> (\<exists>f. x = AppendRejected f))"

definition errors_ok :: "call_block list \<Rightarrow> call_group \<Rightarrow> bool" where
  "errors_ok cs g \<longleftrightarrow> (\<forall>x. cg_failure g = Some x \<longrightarrow> call_error cs x)"

text \<open>
  The first \<open>l\<close> calls are live: without a failure, one that has no result is in flight. A
  group with nothing in flight has no unseen failure when it is \<open>quiet\<close>.
\<close>

definition group_ok :: "nat \<Rightarrow> nat \<Rightarrow> nat \<Rightarrow> call_group \<Rightarrow> bool" where
  "group_ok limit n l g \<longleftrightarrow>
     length (cg_slots g) = n \<and> length (cg_callSeqs g) = n
     \<and> cg_started g \<le> n \<and> l \<le> cg_started g
     \<and> {i. i < n \<and> cg_slots g ! i \<noteq> None} \<subseteq> {..<cg_started g}
     \<and> distinct (cg_inFlight g) \<and> set (cg_inFlight g) \<subseteq> {..<l} \<and> length (cg_inFlight g) \<le> limit
     \<and> distinct (cg_settled g) \<and> set (cg_settled g) \<subseteq> set (cg_inFlight g)
     \<and> (cg_failure g = None \<longrightarrow> {i. i < l \<and> cg_slots g ! i = None} \<subseteq> set (cg_inFlight g) - set (cg_settled g))"

definition quiet :: "call_group \<Rightarrow> bool" where
  "quiet g \<longleftrightarrow> (cg_inFlight g = [] \<longrightarrow> cg_failure g = None)"

definition caught_up :: "call_group \<Rightarrow> bool" where
  "caught_up g \<longleftrightarrow> (cg_inFlight g = [] \<longrightarrow> cg_failure g = None \<and> cg_committed g = cg_nextToStart g)"

lemma settle_frame [simp]:
  "cg_started (settle_call i r g) = cg_started g" "cg_committed (settle_call i r g) = cg_committed g"
  "cg_nextToStart (settle_call i r g) = cg_nextToStart g" "cg_callSeqs (settle_call i r g) = cg_callSeqs g"
  "cg_inFlight (settle_call i r g) = cg_inFlight g" "cg_aborted (settle_call i r g) = cg_aborted g"
  "cg_concluded (settle_call i r g) = cg_concluded g"
  by (auto simp: settle_call_def split: sum.split)

lemma settle_idle: "cg_inFlight g = [] \<Longrightarrow> settle_call i r g = g"
  by (simp add: settle_call_def)

lemma settle_quiet: "quiet g \<Longrightarrow> quiet (settle_call i r g)"
  and settle_caught: "caught_up g \<Longrightarrow> caught_up (settle_call i r g)"
  by (auto simp: quiet_def caught_up_def settle_idle)

lemma settle_slot:
  assumes "k < length (cg_slots g) \<and> cg_slots g ! k \<noteq> None"
  shows "k < length (cg_slots (settle_call i r g)) \<and> cg_slots (settle_call i r g) ! k \<noteq> None"
proof -
  have "(cg_slots g)[i := Some a] ! k \<noteq> None" for a
    using assms by (cases "k = i") auto
  then show ?thesis using assms by (auto simp: settle_call_def split: sum.split)
qed

lemma settle_ok:
  assumes "group_ok limit n l g"
  shows "group_ok limit n l (settle_call i r g)"
proof (cases "i \<notin> set (cg_inFlight g) \<or> i \<in> set (cg_settled g)")
  case True
  then show ?thesis using assms by (simp add: settle_call_def)
next
  case False
  with assms have i: "i < l" "l \<le> n" "i < length (cg_slots g)" by (auto simp: group_ok_def)
  show ?thesis
  proof (cases r)
    case (Inr sl)
    have eq: "settle_call i r g = g\<lparr>cg_slots := (cg_slots g)[i := Some sl], cg_settled := i # cg_settled g\<rparr>"
      using False Inr by (simp add: settle_call_def)
    have "(cg_slots g)[i := Some sl] ! j = (if j = i then Some sl else cg_slots g ! j)" for j
      using i(3) by (simp add: nth_list_update)
    then show ?thesis using False assms i unfolding eq group_ok_def
      by auto
  next
    case (Inl e)
    with False assms i show ?thesis by (simp add: settle_call_def group_ok_def split: option.split)
  qed
qed

lemma new_group_ok: "group_ok limit n 0 (new_group n b)" "caught_up (new_group n b)"
  by (simp_all add: group_ok_def new_group_def caught_up_def)

lemma settle_errors: "errors_ok cs g \<Longrightarrow> errors_ok cs (settle_call i r g)"
  by (auto simp: errors_ok_def settle_call_def call_error_def outside_error_def split: sum.split option.splits)

text \<open>
  The open step with the calls \<open>ids\<close> pending: exactly those when the identities of \<open>cs\<close> are
  distinct, at most those otherwise.
\<close>

definition open_calls :: "step_scope \<Rightarrow> call_block list \<Rightarrow> int \<Rightarrow> int \<Rightarrow> string set \<Rightarrow> loop_world \<Rightarrow> bool" where
  "open_calls sc cs nt ns ids w \<longleftrightarrow>
     (\<exists>pend. shaped (Some (sc_turn sc)) (Some (sc_step sc)) nt ns pend (sc_turn sc) (sc_step sc) w
        \<and> pend \<subseteq> ids \<and> (distinct (map cb_id cs) \<longrightarrow> pend = ids))"

lemma shaped_update [simp]:
  "shaped ot os nt ns ids t s (w\<lparr>lw_group := g\<rparr>) = shaped ot os nt ns ids t s w"
  "shaped ot os nt ns ids t s (w\<lparr>lw_fresh := n\<rparr>) = shaped ot os nt ns ids t s w"
  by (simp_all add: shaped_def running_at_def)

lemma open_calls_update [simp]:
  "open_calls sc cs nt ns ids (w\<lparr>lw_group := g\<rparr>) = open_calls sc cs nt ns ids w"
  "open_calls sc cs nt ns ids (w\<lparr>lw_fresh := n\<rparr>) = open_calls sc cs nt ns ids w"
  by (simp_all add: open_calls_def)

lemma shaped_driver:
  assumes "shaped ot os nt ns ids t s w" and "same_driver w w'"
  shows "shaped ot os nt ns ids t s w'"
proof -
  have "running_at t s w'" using assms by (fastforce simp: shaped_def running_at_def same_driver_def)
  then show ?thesis using assms by (simp add: shaped_def same_driver_def grows_foreign_def)
qed

lemma open_calls_driver: "open_calls sc cs nt ns ids w \<Longrightarrow> same_driver w w' \<Longrightarrow> open_calls sc cs nt ns ids w'"
  by (auto simp: open_calls_def intro: shaped_driver)

lemma open_calls_running: "open_calls sc cs nt ns ids w \<Longrightarrow> running_at (sc_turn sc) (sc_step sc) w"
  by (auto simp: open_calls_def shaped_def)

lemma stable_open_calls: "stable (open_calls sc cs nt ns ids)"
proof -
  have "stable (\<lambda>w. shaped (Some (sc_turn sc)) (Some (sc_step sc)) nt ns pend (sc_turn sc) (sc_step sc) w
      \<and> pend \<subseteq> ids \<and> (distinct (map cb_id cs) \<longrightarrow> pend = ids))" for pend
    by (intro stable_conj stable_shaped stable_const)
  then show ?thesis unfolding open_calls_def [abs_def] stable_def by blast
qed

text \<open>The whole world at \<open>j\<close> started and \<open>k\<close> committed calls, then with the counters of the group.\<close>

definition at_pos :: "step_scope \<Rightarrow> inbox_event list \<Rightarrow> call_block list \<Rightarrow> int \<Rightarrow> int \<Rightarrow> nat \<Rightarrow> nat \<Rightarrow> nat
    \<Rightarrow> loop_world \<Rightarrow> bool" where
  "at_pos sc es0 cs nt ns j k l w \<longleftrightarrow>
     open_calls sc cs nt ns (cb_id ` set (drop k (take j cs))) w
     \<and> recorded sc es0 cs j k (take j (cg_callSeqs (lw_group w))) (log_of w)
     \<and> group_ok (sc_max sc) (length cs) l (lw_group w) \<and> errors_ok cs (lw_group w)"

definition at_group :: "step_scope \<Rightarrow> inbox_event list \<Rightarrow> call_block list \<Rightarrow> int \<Rightarrow> int \<Rightarrow> nat \<Rightarrow> nat \<Rightarrow> nat \<Rightarrow> nat
    \<Rightarrow> loop_world \<Rightarrow> bool" where
  "at_group sc es0 cs nt ns j k m l w \<longleftrightarrow> at_pos sc es0 cs nt ns j k l w
     \<and> cg_started (lw_group w) = j \<and> cg_committed (lw_group w) = k \<and> cg_nextToStart (lw_group w) = m"

definition in_group :: "step_scope \<Rightarrow> inbox_event list \<Rightarrow> call_block list \<Rightarrow> int \<Rightarrow> int \<Rightarrow> loop_world \<Rightarrow> bool" where
  "in_group sc es0 cs nt ns w \<longleftrightarrow> (\<exists>j k l. at_pos sc es0 cs nt ns j k l w)"

lemmas at_group_defs = at_group_def at_pos_def

lemma stable_group_part:
  assumes "\<And>i r g. P g \<Longrightarrow> P (settle_call i r g)"
  shows "stable (\<lambda>w. running_at t s w \<and> P (lw_group w))"
proof (rule stableI)
  fix w x assume w: "running_at t s w \<and> P (lw_group w)"
  then obtain a where "lw_phase w = Running a" by (auto simp: running_at_def)
  from happen_same(2) [OF this, of x] w assms have "P (lw_group (happen x w))" by auto
  with w stable_running [of t s] show "running_at t s (happen x w) \<and> P (lw_group (happen x w))"
    by (simp add: stable_def)
qed (simp add: running_at_def)

text \<open>The driver's own appends leave the position of a group alone.\<close>

lemma at_pos_driver:
  assumes "at_pos sc es0 cs nt ns j k l (w\<lparr>lw_group := g\<rparr>)" and "same_driver w w'" and "group_ok (sc_max sc) (length cs) l g'"
    and "errors_ok cs g'" and "cg_callSeqs g' = cg_callSeqs g"
  shows "at_pos sc es0 cs nt ns j k l (w'\<lparr>lw_group := g'\<rparr>)"
proof -
  have w: "open_calls sc cs nt ns (cb_id ` set (drop k (take j cs))) w"
      "recorded sc es0 cs j k (take j (cg_callSeqs g)) (log_of w)"
    using assms(1) by (simp_all add: at_pos_def)
  have "grows_foreign (log_of w) (log_of w')" using assms(2) by (simp add: same_driver_def)
  with w assms show ?thesis
    by (auto simp: at_pos_def intro: recorded_foreign open_calls_driver)
qed

lemma stable_at_pos: "stable (at_pos sc es0 cs nt ns j k l)"
proof (rule stableI)
  fix w x assume w: "at_pos sc es0 cs nt ns j k l w"
  then obtain a where a: "lw_phase w = Running a" by (auto simp: at_pos_def open_calls_def shaped_def running_at_def)
  have "group_ok (sc_max sc) (length cs) l (lw_group (happen x w)) \<and> errors_ok cs (lw_group (happen x w))
      \<and> cg_callSeqs (lw_group (happen x w)) = cg_callSeqs (lw_group w)"
    using w happen_same(2) [OF a, of x] by (auto simp: at_pos_def settle_ok settle_errors)
  then have "at_pos sc es0 cs nt ns j k l ((happen x w)\<lparr>lw_group := lw_group (happen x w)\<rparr>)"
    using w by (intro at_pos_driver [OF _ happen_same(1) [OF a], where g = "lw_group w"]) simp_all
  then show "at_pos sc es0 cs nt ns j k l (happen x w)" by simp
qed (simp add: at_pos_def open_calls_def shaped_def running_at_def)

lemma stable_at_group: "stable (at_group sc es0 cs nt ns j k m l)"
proof -
  have "stable (\<lambda>w. at_pos sc es0 cs nt ns j k l w \<and> running_at (sc_turn sc) (sc_step sc) w
      \<and> (cg_started (lw_group w) = j \<and> cg_committed (lw_group w) = k \<and> cg_nextToStart (lw_group w) = m))"
    by (intro stable_conj stable_at_pos stable_group_part) simp
  then show ?thesis
    by (rule back_subst [where P = stable]) (auto simp: fun_eq_iff at_group_defs dest: open_calls_running)
qed

lemma stable_in_group: "stable (in_group sc es0 cs nt ns)"
  using stable_at_pos unfolding stable_def in_group_def by blast

lemma at_group_in: "at_group sc es0 cs nt ns j k m l w \<Longrightarrow> in_group sc es0 cs nt ns w"
  by (auto simp: in_group_def at_group_def)

lemma at_group_running: "at_group sc es0 cs nt ns j k m l w \<Longrightarrow> running_at (sc_turn sc) (sc_step sc) w"
  by (auto simp: at_group_defs dest: open_calls_running)

text \<open>A predicate on the group that settling keeps survives a wait together with the invariant.\<close>

lemma stable_at_group_and:
  assumes "\<And>i r g. P g \<Longrightarrow> P (settle_call i r g)"
  shows "stable (\<lambda>w. at_group sc es0 cs nt ns j k m l w \<and> P (lw_group w))"
proof -
  have "stable (\<lambda>w. at_group sc es0 cs nt ns j k m l w \<and> running_at (sc_turn sc) (sc_step sc) w \<and> P (lw_group w))"
    by (intro stable_conj stable_at_group stable_group_part assms)
  then show ?thesis
    by (rule back_subst [where P = stable]) (auto simp: at_group_running)
qed


section \<open>Waits inside a group\<close>

lemma wp_pause:
  assumes "stable I" and "I w"
  shows "wp pause (\<lambda>_ w'. I w' \<and> script_size w' < script_size w) E I F w"
proof (cases "lw_script w")
  case Nil
  then show ?thesis using assms(2) by (simp add: wp_def pause_def)
next
  case (Cons t ts)
  have "I (w\<lparr>lw_script := ts, lw_now := tk_now t\<rparr>)" using assms Cons by (auto simp: stable_def)
  with assms(1) have "I (fold happen (tk_outside t) (w\<lparr>lw_script := ts, lw_now := tk_now t\<rparr>))" by (rule stable_fold)
  then show ?thesis by (simp add: wp_def pause_def Cons script_size_def fold_happen_script)
qed

lemma wp_awaited:
  assumes "wp p Q E W F w" and "\<And>a. stable (Q a)" and "\<And>x. stable (E x)"
    and "\<And>a w'. Q a w' \<Longrightarrow> W w'" and "\<And>x w'. E x w' \<Longrightarrow> W w'"
  shows "wp (awaited p) Q E W F w"
proof -
  have q: "wp pause (\<lambda>_. Q a) E W F w'" if "Q a w'" for a w'
    using wp_pause [OF assms(2) that] by (rule wp_mono) (use assms(4) in auto)
  have e: "wp pause (\<lambda>_. E x) E W F w'" if "E x w'" for x w'
    using wp_pause [OF assms(3) that] by (rule wp_mono) (use assms(5) in auto)
  show ?thesis unfolding awaited_def wp_finally
    using assms(1) by (rule wp_mono) (use q e in auto)
qed

lemma wp_update_group [simp]: "wp (update_group f) Q E W F w = Q () (w\<lparr>lw_group := f (lw_group w)\<rparr>)"
  by (simp add: update_group_def)

lemma wp_signal_aborted [simp]: "wp signal_aborted Q E W F w = Q (abort_reason w \<noteq> None) w"
  by (simp add: signal_aborted_def)

text \<open>The states a group surfaces an error in.\<close>

definition group_failed ::
  "step_scope \<Rightarrow> inbox_event list \<Rightarrow> call_block list \<Rightarrow> int \<Rightarrow> int \<Rightarrow> nat \<Rightarrow> loop_error \<Rightarrow> loop_world \<Rightarrow> bool" where
  "group_failed sc es0 cs nt ns n x w \<longleftrightarrow> in_group sc es0 cs nt ns w \<and> call_error cs x \<and> script_size w \<le> n"

lemma stable_group_failed: "stable (group_failed sc es0 cs nt ns n x)"
  unfolding group_failed_def by (intro stable_conj stable_in_group stable_const stable_script)

lemma group_failed_in: "group_failed sc es0 cs nt ns n x w \<Longrightarrow> in_group sc es0 cs nt ns w"
  by (simp add: group_failed_def)

text \<open>An answer awaited in a group, with a predicate that settling keeps.\<close>

lemma wp_group_await:
  assumes "at_group sc es0 cs nt ns j k m l w" and "P (lw_group w)"
    and "\<And>i r g. P g \<Longrightarrow> P (settle_call i r g)" and "script_size w \<le> n"
  shows "wp (await f) (\<lambda>a w'. at_group sc es0 cs nt ns j k m l w' \<and> P (lw_group w') \<and> script_size w' < n)
    (group_failed sc es0 cs nt ns n) (in_group sc es0 cs nt ns) (\<lambda>_. False) w"
    and "wp (ask f) (\<lambda>a w'. at_group sc es0 cs nt ns j k m l w' \<and> P (lw_group w') \<and> script_size w' < n)
    (group_failed sc es0 cs nt ns n) (in_group sc es0 cs nt ns) (\<lambda>_. False) w"
proof -
  have S: "stable (\<lambda>w. at_group sc es0 cs nt ns j k m l w \<and> P (lw_group w))"
    using assms(3) by (rule stable_at_group_and)
  have I: "at_group sc es0 cs nt ns j k m l w \<and> P (lw_group w)" using assms by simp
  show "wp (await f) (\<lambda>a w'. at_group sc es0 cs nt ns j k m l w' \<and> P (lw_group w') \<and> script_size w' < n)
    (group_failed sc es0 cs nt ns n) (in_group sc es0 cs nt ns) (\<lambda>_. False) w"
    using wp_await [OF S I]
    by (rule wp_mono) (use assms(4) in \<open>auto simp: group_failed_def call_error_def intro: at_group_in\<close>)
  show "wp (ask f) (\<lambda>a w'. at_group sc es0 cs nt ns j k m l w' \<and> P (lw_group w') \<and> script_size w' < n)
    (group_failed sc es0 cs nt ns n) (in_group sc es0 cs nt ns) (\<lambda>_. False) w"
    using wp_ask [OF S I]
    by (rule wp_mono) (use assms(4) in \<open>auto simp: group_failed_def call_error_def intro: at_group_in\<close>)
qed

lemma wp_throw_failure:
  assumes "at_group sc es0 cs nt ns j k m l w" and "cg_failure (lw_group w) = None \<Longrightarrow> Q () w" and "script_size w \<le> n"
  shows "wp throwSchedulerFailure Q (group_failed sc es0 cs nt ns n) W F w"
proof (cases "cg_failure (lw_group w)")
  case (Some x)
  with assms(1,3) have "group_failed sc es0 cs nt ns n x w"
    by (auto simp: group_failed_def at_group_defs errors_ok_def in_group_def)
  with Some show ?thesis by (simp add: throwSchedulerFailure_def)
qed (use assms in \<open>simp add: throwSchedulerFailure_def\<close>)

text \<open>A context joins the next-step inbox as if other code had injected it.\<close>

lemma accept_happen:
  "accept_context m w = Done () w' \<Longrightarrow> w' = happen (OSend m NextStep False) w"
  by (auto simp: accept_context_def send_def Let_def or_same_def splice_inbox_def inbox_splice_op_def mutate_def
      resolve_start_def resolve_count_def truncated_def split: sum.splits)

lemma wp_accept:
  assumes "stable I" and "I w"
  shows "wp (accept_context m) (\<lambda>_ w'. I w' \<and> script_size w' = script_size w)
    (\<lambda>x w'. w' = w \<and> (\<exists>y. x = InboxRejected y)) W F w"
proof (cases "accept_context m w")
  case (Done u w')
  with accept_happen have w': "w' = happen (OSend m NextStep False) w" by simp
  have "I w'" using assms w' unfolding stable_def by blast
  moreover have "script_size w' = script_size w" unfolding w' script_size_def happen_script ..
  ultimately show ?thesis using Done by (simp add: wp_def)
qed (auto simp: wp_def accept_context_def split: sum.splits)


section \<open>Commits, starts and the pool\<close>

text \<open>The pending calls after a start and after a result.\<close>

lemma pending_start:
  "k \<le> j \<Longrightarrow> j < length cs \<Longrightarrow>
   insert (cb_id (cs ! j)) (cb_id ` set (drop k (take j cs))) = cb_id ` set (drop k (take (Suc j) cs))"
  by (simp add: take_Suc_conv_app_nth)

lemma pending_result:
  assumes "distinct (map cb_id cs)" and "k < j" and "j \<le> length cs"
  shows "cb_id ` set (drop k (take j cs)) - {cb_id (cs ! k)} = cb_id ` set (drop (Suc k) (take j cs))"
    and "cb_id (cs ! k) \<in> cb_id ` set (drop k (take j cs))"
proof -
  have d: "drop k (take j cs) = cs ! k # drop (Suc k) (take j cs)"
    using assms by (simp add: Cons_nth_drop_Suc [symmetric])
  have "distinct (map cb_id (drop k (take j cs)))"
    using assms(1) by (simp add: take_map [symmetric] drop_map [symmetric])
  then have "cb_id (cs ! k) \<notin> cb_id ` set (drop (Suc k) (take j cs))" unfolding d by simp
  then show "cb_id ` set (drop k (take j cs)) - {cb_id (cs ! k)} = cb_id ` set (drop (Suc k) (take j cs))"
    and "cb_id (cs ! k) \<in> cb_id ` set (drop k (take j cs))"
    unfolding d by auto
qed

lemma open_calls_start:
  assumes "open_calls sc cs nt ns (cb_id ` set (drop k (take j cs))) w" and "k \<le> j" and "j < length cs"
  obtains pend where "log_shape (log_of w @ [new_event (length (log_of w)) (lw_now w)
        (ToolCall (sc_turn sc) (sc_step sc) (cb_id (cs ! j)) (cb_name (cs ! j)) (cb_arguments (cs ! j))) None None])
        (Some (sc_turn sc)) (Some (sc_step sc)) nt ns pend"
    and "pend \<subseteq> cb_id ` set (drop k (take (Suc j) cs))"
    and "distinct (map cb_id cs) \<longrightarrow> pend = cb_id ` set (drop k (take (Suc j) cs))"
proof -
  from assms(1) obtain pend where pend: "log_shape (log_of w) (Some (sc_turn sc)) (Some (sc_step sc)) nt ns pend"
      "pend \<subseteq> cb_id ` set (drop k (take j cs))" "distinct (map cb_id cs) \<longrightarrow> pend = cb_id ` set (drop k (take j cs))"
    by (auto simp: open_calls_def shaped_def)
  show ?thesis
    by (rule that [OF shape_call [OF pend(1)]])
      (use pend(2,3) pending_start [OF assms(2,3)] in \<open>auto simp del: set_drop_subset\<close>)
qed

lemma wp_start_append:
  assumes "at_group sc es0 cs nt ns j k m l w" and "j < length cs"
  shows "wp (appendToolCall sc (cs ! j))
    (\<lambda>q w'. at_group sc es0 cs nt ns (Suc j) k m l (w'\<lparr>lw_group := (lw_group w')\<lparr>cg_callSeqs := (cg_callSeqs (lw_group w'))[j := int q],
         cg_started := Suc (cg_started (lw_group w'))\<rparr>\<rparr>) \<and> script_size w' = script_size w \<and> lw_group w' = lw_group w) E W F w"
proof -
  let ?d = "ToolCall (sc_turn sc) (sc_step sc) (cb_id (cs ! j)) (cb_name (cs ! j)) (cb_arguments (cs ! j))"
  let ?g = "lw_group w"
  let ?e = "new_event (length (log_of w)) (lw_now w) ?d None None"
  let ?es = "log_of w @ [?e]"
  note w = assms(1) [unfolded at_group_defs]
  have kj: "k \<le> j" using w by (simp add: recorded_def)
  have len: "length (cg_callSeqs ?g) = length cs" using w by (simp add: group_ok_def)
  obtain pend where pend: "log_shape ?es (Some (sc_turn sc)) (Some (sc_step sc)) nt ns pend"
      "pend \<subseteq> cb_id ` set (drop k (take (Suc j) cs))"
      "distinct (map cb_id cs) \<longrightarrow> pend = cb_id ` set (drop k (take (Suc j) cs))"
    using open_calls_start [OF _ kj assms(2)] w by blast
  have "running_at (sc_turn sc) (sc_step sc) (commit_event ?e w)"
    using w open_calls_running by (fastforce simp: running_at_def)
  then have opened: "open_calls sc cs nt ns (cb_id ` set (drop k (take (Suc j) cs))) (commit_event ?e w)"
    using pend unfolding open_calls_def shaped_def commit_event_simps by blast
  have "recorded sc es0 cs (Suc j) k (take j (cg_callSeqs ?g) @ [int (length (log_of w))]) ?es"
    using w assms(2) by (intro recorded_call) simp_all
  moreover have "take (Suc j) ((cg_callSeqs ?g)[j := int q]) = take j (cg_callSeqs ?g) @ [int q]" for q
    using len assms(2) by (simp add: take_Suc_conv_app_nth)
  ultimately have rec: "recorded sc es0 cs (Suc j) k (take (Suc j) ((cg_callSeqs ?g)[j := int (length (log_of w))])) ?es"
    by simp
  have ok: "group_ok (sc_max sc) (length cs) l (?g\<lparr>cg_callSeqs := (cg_callSeqs ?g)[j := q], cg_started := Suc (cg_started ?g)\<rparr>)"
    "errors_ok cs (?g\<lparr>cg_callSeqs := (cg_callSeqs ?g)[j := q], cg_started := Suc (cg_started ?g)\<rparr>)" for q
    using w assms(2) by (auto simp: group_ok_def errors_ok_def)
  show ?thesis unfolding appendToolCall_def
    by (rule wp_append [OF pend(1)]) (use w rec ok opened in \<open>simp add: at_group_defs\<close>)
qed

text \<open>A result joins the log, unless an earlier call of the same identity took it.\<close>

lemma open_calls_result:
  fixes w :: loop_world
  defines "e \<equiv> \<lambda>r uuid sc c src. new_event (length (log_of w)) (lw_now w) (ToolResult (result_data sc uuid c r)) (Some (JStr ''append'')) src"
  assumes "open_calls sc cs nt ns (cb_id ` set (drop k (take j cs))) w" and "k < j" and "j \<le> length cs"
    and "distinct (map cb_id cs) \<or> seedSession (log_of w @ [e r uuid sc (cs ! k) src]) = Inr tr"
  obtains pend where "log_shape (log_of w @ [e r uuid sc (cs ! k) src]) (Some (sc_turn sc)) (Some (sc_step sc)) nt ns pend"
    and "pend \<subseteq> cb_id ` set (drop (Suc k) (take j cs))"
    and "distinct (map cb_id cs) \<longrightarrow> pend = cb_id ` set (drop (Suc k) (take j cs))"
proof -
  let ?id = "cb_id (cs ! k)"
  from assms(2) obtain pend where pend: "log_shape (log_of w) (Some (sc_turn sc)) (Some (sc_step sc)) nt ns pend"
      "pend \<subseteq> cb_id ` set (drop k (take j cs))" "distinct (map cb_id cs) \<longrightarrow> pend = cb_id ` set (drop k (take j cs))"
    by (auto simp: open_calls_def shaped_def)
  have d: "drop k (take j cs) = cs ! k # drop (Suc k) (take j cs)"
    using assms(3,4) by (simp add: Cons_nth_drop_Suc [symmetric])
  have src: "source_call_id (msg_source (tr_message (result_data sc uuid (cs ! k) r))) = Some ?id"
    by (simp add: result_data_def createToolResultMessage_def createUserMessage_def createMessage_def)
  show ?thesis
  proof (cases "?id \<in> pend")
    case True
    have "log_shape (log_of w @ [e r uuid sc (cs ! k) src]) (Some (sc_turn sc)) (Some (sc_step sc)) nt ns (pend - {?id})"
      unfolding e_def by (rule shape_result [OF pend(1) _ _ src True]) (simp_all add: result_data_def)
    then show ?thesis
      using pend(2,3) pending_result(1) [OF _ assms(3,4)] unfolding d by (intro that) auto
  next
    case False
    then have nd: "\<not> distinct (map cb_id cs)" using pend(3) pending_result(2) [OF _ assms(3,4)] by auto
    with assms(5) have "seedSession (log_of w @ [e r uuid sc (cs ! k) src]) = Inr tr" by blast
    then have "log_shape (log_of w @ [e r uuid sc (cs ! k) src]) (Some (sc_turn sc)) (Some (sc_step sc)) nt ns (pend - {?id})"
      unfolding e_def by (intro shape_result_accepted [OF pend(1) _ _ src]) (simp_all add: result_data_def)
    then show ?thesis using nd pend(2) unfolding d by (intro that) auto
  qed
qed

lemma wp_result_append:
  assumes "at_group sc es0 cs nt ns j k m l w" and "k < j" and "script_size w \<le> n"
  shows "wp (appendToolResult sc (cs ! k) r (cg_callSeqs (lw_group w) ! k))
    (\<lambda>_ w'. at_group sc es0 cs nt ns j (Suc k) m l (w'\<lparr>lw_group := (lw_group w')\<lparr>cg_concluded := b, cg_committed := Suc (cg_committed (lw_group w'))\<rparr>\<rparr>)
      \<and> script_size w' = script_size w \<and> lw_group w' = lw_group w) (group_failed sc es0 cs nt ns n) W F w"
proof -
  let ?w = "w\<lparr>lw_fresh := Suc (lw_fresh w)\<rparr>"
  let ?uuid = "sc_uuid sc (lw_fresh w)"
  let ?g = "lw_group w"
  let ?op = "Some (JStr ''append'')" and ?src = "Some (JArr [JInt (cg_callSeqs (lw_group w) ! k)])"
  let ?e = "new_event (length (log_of w)) (lw_now w) (ToolResult (result_data sc ?uuid (cs ! k) r)) ?op ?src"
  let ?Q = "\<lambda>w'. at_group sc es0 cs nt ns j (Suc k) m l (w'\<lparr>lw_group := (lw_group w')\<lparr>cg_concluded := b, cg_committed := Suc (cg_committed (lw_group w'))\<rparr>\<rparr>)
      \<and> script_size w' = script_size w \<and> lw_group w' = lw_group w"
  note w = assms(1) [unfolded at_group_defs]
  have j: "j \<le> length cs" using w by (simp add: recorded_def)
  have opened: "open_calls sc cs nt ns (cb_id ` set (drop k (take j cs))) w" using w by simp
  have fine: "?Q (commit_event ?e ?w) \<and> (\<exists>tr. seedSession (log_of w @ [?e]) = Inr tr)"
    if acc: "distinct (map cb_id cs) \<or> seedSession (log_of w @ [?e]) = Inr tr" for tr
  proof -
    obtain pend where pend: "log_shape (log_of w @ [?e]) (Some (sc_turn sc)) (Some (sc_step sc)) nt ns pend"
        "pend \<subseteq> cb_id ` set (drop (Suc k) (take j cs))"
        "distinct (map cb_id cs) \<longrightarrow> pend = cb_id ` set (drop (Suc k) (take j cs))"
      using open_calls_result [OF opened assms(2) j acc] by blast
    have "running_at (sc_turn sc) (sc_step sc) (commit_event ?e ?w)"
      using open_calls_running [OF opened] by (simp add: running_at_def)
    then have "open_calls sc cs nt ns (cb_id ` set (drop (Suc k) (take j cs))) (commit_event ?e ?w)"
      using pend unfolding open_calls_def shaped_def by (intro exI [of _ pend]) simp
    moreover have "recorded sc es0 cs j (Suc k) (take j (cg_callSeqs ?g))
        (log_of w @ [new_event (length (log_of w)) (lw_now w) (ToolResult (result_data sc ?uuid (cs ! k) r)) ?op
           (Some (JArr [JInt (take j (cg_callSeqs ?g) ! k)]))])"
      using w assms(2) by (intro recorded_result) simp_all
    then have "recorded sc es0 cs j (Suc k) (take j (cg_callSeqs ?g)) (log_of w @ [?e])" using assms(2) by simp
    moreover have "group_ok (sc_max sc) (length cs) l (?g\<lparr>cg_concluded := b, cg_committed := q\<rparr>)"
      "errors_ok cs (?g\<lparr>cg_concluded := b, cg_committed := q\<rparr>)" for q
      using w by (auto simp: group_ok_def errors_ok_def)
    ultimately have "?Q (commit_event ?e ?w)" using w by (simp add: at_group_defs)
    then show ?thesis using pend(1) by (auto simp: log_shape_def)
  qed
  show ?thesis
  proof (cases "seedSession (log_of w @ [?e])")
    case (Inr tr)
    then have "?Q (commit_event ?e ?w)" using fine [of tr] by blast
    then show ?thesis using Inr unfolding appendToolResult_def wp_bnd wp_fresh_uuid
      by (simp add: wp_def append_with_def Let_def)
  next
    case (Inl f)
    have "\<not> distinct (map cb_id cs)" using fine Inl by auto
    then have "group_failed sc es0 cs nt ns n (AppendRejected f) ?w"
      using w assms(3) by (auto simp: group_failed_def in_group_def at_pos_def call_error_def)
    then show ?thesis using Inl unfolding appendToolResult_def wp_bnd wp_fresh_uuid
      by (simp add: wp_def append_with_def Let_def)
  qed
qed

end
