(* ===== verification/ToolGroup.thy ===== *)
theory ToolGroup imports ToolCalls begin

text \<open>
  The correctness of packages/core/agent-loop/src/tool-calls.ts: what a group and a step record
  in the log, in every outcome, and that no budget of the model runs out.
\<close>

section \<open>Commits\<close>

lemma group_ok_counters [simp]:
  "group_ok limit n l (g\<lparr>cg_concluded := b\<rparr>) = group_ok limit n l g"
  "group_ok limit n l (g\<lparr>cg_committed := k\<rparr>) = group_ok limit n l g"
  "group_ok limit n l (g\<lparr>cg_nextToStart := m\<rparr>) = group_ok limit n l g"
  "group_ok limit n l (g\<lparr>cg_aborted := b\<rparr>) = group_ok limit n l g"
  by (simp_all add: group_ok_def)

lemma errors_ok_counters [simp]:
  "errors_ok cs (g\<lparr>cg_concluded := b\<rparr>) = errors_ok cs g" "errors_ok cs (g\<lparr>cg_committed := k\<rparr>) = errors_ok cs g"
  "errors_ok cs (g\<lparr>cg_nextToStart := m\<rparr>) = errors_ok cs g" "errors_ok cs (g\<lparr>cg_aborted := b\<rparr>) = errors_ok cs g"
  "errors_ok cs (g\<lparr>cg_inFlight := is\<rparr>) = errors_ok cs g" "errors_ok cs (g\<lparr>cg_settled := is\<rparr>) = errors_ok cs g"
  by (simp_all add: errors_ok_def)

lemma group_same: "lw_group w = g \<Longrightarrow> w\<lparr>lw_group := g\<rparr> = w"
  by auto

lemma wp_accept_same:
  assumes "running_at t s w"
  shows "wp (accept_context m) (\<lambda>_ w'. same_driver w w' \<and> lw_group w' = lw_group w)
    (\<lambda>x w'. w' = w \<and> (\<exists>y. x = InboxRejected y)) W F w"
proof (cases "accept_context m w")
  case (Done u w')
  then obtain a where "splice_inbox NextStep a (Fin 0) [m] w = Inr w'"
    by (auto simp: accept_context_def split: sum.splits)
  with splice_same Done show ?thesis by (fastforce simp: wp_def)
qed (auto simp: wp_def accept_context_def split: sum.splits)

lemma wp_accept_all:
  assumes "running_at t s w"
  shows "wp (for_each accept_context ms) (\<lambda>_ w'. same_driver w w' \<and> lw_group w' = lw_group w)
    (\<lambda>x w'. same_driver w w' \<and> lw_group w' = lw_group w \<and> (\<exists>y. x = InboxRejected y)) W F w"
proof (rule wp_for_each)
  fix m w' assume w': "same_driver w w' \<and> lw_group w' = lw_group w"
  with assms have "running_at t s w'" by (fastforce simp: running_at_def same_driver_def)
  from wp_accept_same [OF this] show "wp (accept_context m) (\<lambda>_ w'. same_driver w w' \<and> lw_group w' = lw_group w)
    (\<lambda>x w'. same_driver w w' \<and> lw_group w' = lw_group w \<and> (\<exists>y. x = InboxRejected y)) W F w'"
    by (rule wp_mono) (use w' in \<open>auto intro: same_driver_trans\<close>)
qed simp

lemma ready_started:
  "at_group sc es0 cs nt ns j k m l w \<Longrightarrow> ready_slot (length cs) (lw_group w) = Some sl \<Longrightarrow>
   k < j \<and> k < length (cg_slots (lw_group w)) \<and> cg_slots (lw_group w) ! k \<noteq> None"
  by (auto simp: at_group_defs group_ok_def ready_slot_def split: if_splits)

lemma wp_commit_result:
  assumes w: "at_group sc es0 cs nt ns j k m l w" "quiet (lw_group w)" "script_size w \<le> n" and kj: "k < j"
  shows "wp (commit_result sc cs r)
    (\<lambda>_ w'. at_group sc es0 cs nt ns j (Suc k) m l w' \<and> quiet (lw_group w') \<and> script_size w' \<le> n)
    (group_failed sc es0 cs nt ns n) (in_group sc es0 cs nt ns) F w"
    (is "wp _ ?Q ?E ?W F w")
proof -
  let ?up = "\<lambda>g. g\<lparr>cg_concluded := cg_concluded g \<or> to_concludes r, cg_committed := Suc (cg_committed g)\<rparr>"
  let ?g = "lw_group w"
  have k: "cg_committed ?g = k" using w(1) by (simp add: at_group_def)
  have ok: "group_ok (sc_max sc) (length cs) l ?g" "group_ok (sc_max sc) (length cs) l (?up ?g)"
    "errors_ok cs ?g" "errors_ok cs (?up ?g)"
    using w(1) by (simp_all add: at_group_def at_pos_def)
  have acc: "wp (for_each accept_context (to_contexts r)) (\<lambda>_ w3. ?Q () (w3\<lparr>lw_group := ?up (lw_group w3)\<rparr>)) ?E ?W F w2"
    if w2: "at_group sc es0 cs nt ns j (Suc k) m l (w2\<lparr>lw_group := (lw_group w2)\<lparr>cg_concluded := cg_concluded ?g \<or> to_concludes r,
        cg_committed := Suc (cg_committed (lw_group w2))\<rparr>\<rparr>)" "script_size w2 = script_size w"
      "lw_group w2 = ?g" for w2
  proof -
    have pos: "at_pos sc es0 cs nt ns j (Suc k) l (w2\<lparr>lw_group := ?up (lw_group w2)\<rparr>)"
      using w2(1) unfolding at_group_def w2(3) by blast
    have fin: "at_group sc es0 cs nt ns j (Suc k) m l (w3\<lparr>lw_group := ?up (lw_group w3)\<rparr>)
        \<and> in_group sc es0 cs nt ns w3 \<and> script_size w3 \<le> n \<and> quiet (?up (lw_group w3))"
      if w3: "same_driver w2 w3" "lw_group w3 = lw_group w2" for w3
    proof -
      have "at_pos sc es0 cs nt ns j (Suc k) l (w3\<lparr>lw_group := ?up ?g\<rparr>)"
        and 1: "at_pos sc es0 cs nt ns j (Suc k) l (w3\<lparr>lw_group := ?g\<rparr>)"
        using at_pos_driver [OF pos w3(1)] ok w2(3) by simp_all
      moreover have "w3\<lparr>lw_group := ?g\<rparr> = w3" using w3(2) w2(3) by (intro group_same) simp
      with 1 have "in_group sc es0 cs nt ns w3" unfolding in_group_def by auto
      ultimately show ?thesis
        using w2 w3 w k unfolding at_group_def by (simp add: quiet_def same_driver_def script_size_def)
    qed
    have "running_at (sc_turn sc) (sc_step sc) w2" using pos open_calls_running by (fastforce simp: at_pos_def)
    from wp_accept_all [OF this, of "to_contexts r" ?W F] show ?thesis
      by (rule wp_mono) (use fin in \<open>auto simp: group_failed_def call_error_def\<close>)
  qed
  show ?thesis unfolding commit_result_def wp_bnd wp_read k wp_update_group
    by (rule wp_mono [OF wp_result_append [OF w(1) kj w(3), of r "cg_concluded ?g \<or> to_concludes r" ?W F]])
      ((elim conjE, erule (2) acc) | assumption)+
qed

lemma wp_commit_slot:
  assumes "at_group sc es0 cs nt ns j k m l w" and "quiet (lw_group w)"
    and "ready_slot (length cs) (lw_group w) = Some sl" and "script_size w \<le> n"
  shows "wp (commit_slot sc cs sl)
    (\<lambda>_ w'. at_group sc es0 cs nt ns j (Suc k) m l w' \<and> quiet (lw_group w') \<and> script_size w' \<le> n)
    (group_failed sc es0 cs nt ns n) (in_group sc es0 cs nt ns) (\<lambda>_. False) w"
proof -
  note kj = ready_started [OF assms(1,3), THEN conjunct1]
  note await = wp_group_await [OF assms(1,2) settle_quiet assms(4), where f = result_reply]
  show ?thesis unfolding commit_slot_def
    by (cases "snd sl"; simp, (rule wp_mono [OF await(1)] | rule wp_mono [OF await(2)]))
      (auto intro: wp_commit_result [OF _ _ _ kj])
qed

text \<open>After the commits no result at the committed position is waiting.\<close>

lemma caught_up_exit:
  assumes "at_group sc es0 cs nt ns j k j j w" and "quiet (lw_group w)" and "ready_slot (length cs) (lw_group w) = None"
  shows "caught_up (lw_group w)"
proof -
  let ?g = "lw_group w"
  have ok: "group_ok (sc_max sc) (length cs) j ?g" and c: "cg_committed ?g = k" "cg_nextToStart ?g = j" "k \<le> j"
    "j \<le> length cs"
    using assms(1) by (auto simp: at_group_defs recorded_def)
  have "k = j" if "cg_inFlight ?g = []"
  proof (rule ccontr)
    assume "k \<noteq> j"
    then have "k < j" using c by simp
    moreover from this assms(3) c have "cg_slots ?g ! k = None" by (simp add: ready_slot_def split: if_splits)
    moreover have "cg_failure ?g = None" using that assms(2) by (simp add: quiet_def)
    ultimately have "k \<in> set (cg_inFlight ?g)" using ok by (auto simp: group_ok_def)
    with that show False by simp
  qed
  then show ?thesis using assms(2) c by (simp add: caught_up_def quiet_def)
qed

lemma wp_commitReady:
  assumes "at_group sc es0 cs nt ns j k j j w" and "quiet (lw_group w)" and "script_size w \<le> n"
  shows "wp (awaited (commitReady sc cs))
    (\<lambda>_ w'. (\<exists>k. at_group sc es0 cs nt ns j k j j w') \<and> caught_up (lw_group w') \<and> script_size w' \<le> n)
    (group_failed sc es0 cs nt ns n) (in_group sc es0 cs nt ns) (\<lambda>_. False) w"
proof (rule wp_awaited)
  let ?I = "\<lambda>_ :: unit. \<lambda>w'. (\<exists>k. at_group sc es0 cs nt ns j k j j w') \<and> quiet (lw_group w') \<and> script_size w' \<le> n"
  let ?m = "\<lambda>_ :: unit. \<lambda>w'. length cs - cg_committed (lw_group w')"
  show "wp (commitReady sc cs)
    (\<lambda>_ w'. (\<exists>k. at_group sc es0 cs nt ns j k j j w') \<and> caught_up (lw_group w') \<and> script_size w' \<le> n)
    (group_failed sc es0 cs nt ns n) (in_group sc es0 cs nt ns) (\<lambda>_. False) w"
    unfolding commitReady_def
  proof (rule wp_loop [where I = ?I and m = ?m])
    fix w' assume "?I () w'"
    then obtain k where w': "at_group sc es0 cs nt ns j k j j w'" "quiet (lw_group w')" "script_size w' \<le> n" by blast
    let ?slot = "ready_slot (length cs) (lw_group w')"
    show "wp (bnd (read_state (\<lambda>w. ready_slot (length cs) (lw_group w))) (\<lambda>slot.
           case slot of None \<Rightarrow> ret (Inr ()) | Some sl \<Rightarrow> bnd (commit_slot sc cs sl) (\<lambda>_. ret (Inl ()))))
        (\<lambda>r w1. case r of Inl s' \<Rightarrow> ?I s' w1 \<and> ?m s' w1 < ?m () w'
           | Inr a \<Rightarrow> (\<exists>k. at_group sc es0 cs nt ns j k j j w1) \<and> caught_up (lw_group w1) \<and> script_size w1 \<le> n)
        (group_failed sc es0 cs nt ns n) (in_group sc es0 cs nt ns) (\<lambda>_. False) w'"
    proof (cases ?slot)
      case None
      then show ?thesis using w' caught_up_exit [OF w'(1,2)] by auto
    next
      case (Some sl)
      have "k < j" "j \<le> length cs" "cg_committed (lw_group w') = k"
        using ready_started [OF w'(1) Some] w'(1) by (auto simp: at_group_defs recorded_def)
      then show ?thesis using wp_commit_slot [OF w'(1,2) Some w'(3)]
        by (simp add: Some) (erule wp_mono, auto simp: at_group_def)
    qed
  qed (use assms in auto)
  fix x show "stable (group_failed sc es0 cs nt ns n x)" by (rule stable_group_failed)
next
  have "stable (\<lambda>w. at_group sc es0 cs nt ns j k j j w \<and> caught_up (lw_group w))" for k
    by (intro stable_at_group_and settle_caught)
  then have "stable (\<lambda>w. (\<exists>k. at_group sc es0 cs nt ns j k j j w) \<and> caught_up (lw_group w))"
    unfolding stable_def by blast
  from stable_conj [OF this stable_script]
  show "stable (\<lambda>w'. (\<exists>k. at_group sc es0 cs nt ns j k j j w') \<and> caught_up (lw_group w') \<and> script_size w' \<le> n)"
    by simp
qed (auto intro: at_group_in group_failed_in)


section \<open>Starts\<close>

lemma place_frame [simp]:
  "cg_started (place_prepared i p g) = cg_started g" "cg_committed (place_prepared i p g) = cg_committed g"
  "cg_nextToStart (place_prepared i p g) = cg_nextToStart g" "cg_callSeqs (place_prepared i p g) = cg_callSeqs g"
  "cg_failure (place_prepared i p g) = cg_failure g" "cg_aborted (place_prepared i p g) = cg_aborted g"
  by (cases p; simp)+

lemma errors_ok_place [simp]: "errors_ok cs (place_prepared i p g) = errors_ok cs g"
  by (simp add: errors_ok_def)

lemma errors_ok_new [simp]: "errors_ok cs (new_group n b)"
  by (simp add: errors_ok_def new_group_def)

lemma place_ok:
  assumes "group_ok limit n j g" and "cg_started g = Suc j" and "length (cg_inFlight g) < limit"
    and "cg_failure g = None"
  shows "group_ok limit n (Suc j) (place_prepared j p g)"
proof -
  have j: "j < length (cg_slots g)" "j \<notin> set (cg_inFlight g)" "j \<notin> set (cg_settled g)"
    using assms(1,2) by (auto simp: group_ok_def)
  have slots: "(cg_slots g)[j := Some a] ! i = (if i = j then Some a else cg_slots g ! i)" for a i
    using j(1) by (simp add: nth_list_update)
  show ?thesis
  proof (cases p)
    case DispatchCall
    have "{i. i < Suc j \<and> cg_slots g ! i = None} \<subseteq> set (cg_inFlight g @ [j]) - set (cg_settled g)"
    proof
      fix i assume i: "i \<in> {i. i < Suc j \<and> cg_slots g ! i = None}"
      show "i \<in> set (cg_inFlight g @ [j]) - set (cg_settled g)"
        using i assms(1,4) j(3) by (cases "i = j") (auto simp: group_ok_def less_Suc_eq)
    qed
    moreover have "set (cg_inFlight g @ [j]) \<subseteq> {..<Suc j}" using assms(1) by (auto simp: group_ok_def)
    ultimately show ?thesis using DispatchCall assms j by (auto simp: group_ok_def)
  next
    case (PostResult r)
    then show ?thesis using assms j slots by (auto simp: group_ok_def less_Suc_eq)
  next
    case (FinalResult r)
    then show ?thesis using assms j slots by (auto simp: group_ok_def less_Suc_eq)
  qed
qed

lemma wp_startCall:
  assumes "at_group sc es0 cs nt ns j k j j w" and "j < length cs" and "length (cg_inFlight (lw_group w)) < sc_max sc"
    and "script_size w \<le> n"
  shows "wp (awaited (startCall sc cs j))
    (\<lambda>_ w'. at_group sc es0 cs nt ns (Suc j) k j (Suc j) w' \<and> quiet (lw_group w') \<and> script_size w' \<le> n)
    (group_failed sc es0 cs nt ns n) (in_group sc es0 cs nt ns) (\<lambda>_. False) w"
proof (rule wp_awaited)
  let ?E = "group_failed sc es0 cs nt ns n" and ?W = "in_group sc es0 cs nt ns"
  let ?Q = "\<lambda>_ w'. at_group sc es0 cs nt ns (Suc j) k j (Suc j) w' \<and> quiet (lw_group w') \<and> script_size w' \<le> n"
  let ?room = "\<lambda>g. length (cg_inFlight g) < sc_max sc"
  let ?up = "\<lambda>q g. g\<lparr>cg_callSeqs := (cg_callSeqs g)[j := int q], cg_started := Suc (cg_started g)\<rparr>"
  have place: "wp throwSchedulerFailure (\<lambda>_ w2. ?Q () (w2\<lparr>lw_group := place_prepared j p (lw_group w2)\<rparr>)) ?E ?W (\<lambda>_. False) w1"
    if w1: "at_group sc es0 cs nt ns (Suc j) k j j w1" "?room (lw_group w1)" "script_size w1 < n" for p w1
  proof (rule wp_throw_failure [OF w1(1)])
    assume none: "cg_failure (lw_group w1) = None"
    have "group_ok (sc_max sc) (length cs) (Suc j) (place_prepared j p (lw_group w1))"
      using w1 none by (intro place_ok) (auto simp: at_group_defs)
    then show "?Q () (w1\<lparr>lw_group := place_prepared j p (lw_group w1)\<rparr>)"
      using w1 none by (simp add: at_group_defs quiet_def)
  qed (use w1 in simp)
  have wait: "wp (await prepared_reply)
      (\<lambda>p. wp throwSchedulerFailure (\<lambda>_ w2. ?Q () (w2\<lparr>lw_group := place_prepared j p (lw_group w2)\<rparr>)) ?E ?W (\<lambda>_. False)) ?E ?W (\<lambda>_. False) w1"
    if "at_group sc es0 cs nt ns (Suc j) k j j w1" "?room (lw_group w1)" "script_size w1 \<le> n" for w1
    by (rule wp_mono [OF wp_group_await(1) [OF that(1), where P = ?room, OF that(2) _ that(3)]]) (simp, ((elim conjE, erule (2) place) | assumption)+)
  show "wp (startCall sc cs j) ?Q ?E ?W (\<lambda>_. False) w"
    unfolding startCall_def wp_bnd wp_update_group
    by (rule wp_mono [OF wp_start_append [OF assms(1,2), of ?E ?W "\<lambda>_. False"]]) ((elim conjE, rule wait; use assms in simp) | assumption)+
  show "stable (\<lambda>w'. ?Q () w')" for u :: unit
    using stable_conj [OF stable_at_group_and [where P = quiet, OF settle_quiet] stable_script] by (simp add: conj_assoc)
  show "stable (?E x)" for x by (rule stable_group_failed)
qed (auto intro: at_group_in group_failed_in)

text \<open>\<open>pooled\<close>: between two starts, \<open>j\<close> calls started and every ready result committed.\<close>

definition pooled :: "step_scope \<Rightarrow> inbox_event list \<Rightarrow> call_block list \<Rightarrow> int \<Rightarrow> int \<Rightarrow> nat \<Rightarrow> nat \<Rightarrow> loop_world \<Rightarrow> bool" where
  "pooled sc es0 cs nt ns j n w \<longleftrightarrow>
     (\<exists>k. at_group sc es0 cs nt ns j k j j w) \<and> caught_up (lw_group w) \<and> script_size w \<le> n"

lemma stable_pooled: "stable (pooled sc es0 cs nt ns j n)"
proof -
  have "stable (\<lambda>w. at_group sc es0 cs nt ns j k j j w \<and> caught_up (lw_group w))" for k
    by (intro stable_at_group_and settle_caught)
  then have "stable (\<lambda>w. (\<exists>k. at_group sc es0 cs nt ns j k j j w) \<and> caught_up (lw_group w))"
    unfolding stable_def by blast
  from stable_conj [OF this stable_script] show ?thesis by (simp add: pooled_def [abs_def])
qed

lemma pooled_in: "pooled sc es0 cs nt ns j n w \<Longrightarrow> in_group sc es0 cs nt ns w"
  by (auto simp: pooled_def intro: at_group_in)

lemma wp_latch_abort:
  assumes "pooled sc es0 cs nt ns j n w"
  shows "wp latch_abort (\<lambda>_. pooled sc es0 cs nt ns j n) E W F w"
  using assms by (simp add: latch_abort_def pooled_def at_group_defs caught_up_def running_at_def)

text \<open>A settled check and the commits after it.\<close>

lemma wp_check_commit:
  assumes "at_group sc es0 cs nt ns j k j j w" and "script_size w \<le> n"
    and "\<And>w'. pooled sc es0 cs nt ns j n w' \<Longrightarrow> wp rest Q (group_failed sc es0 cs nt ns n) (in_group sc es0 cs nt ns) (\<lambda>_. False) w'"
  shows "wp (bnd throwSchedulerFailure (\<lambda>_. bnd (awaited (commitReady sc cs)) (\<lambda>_. bnd throwSchedulerFailure (\<lambda>_. rest))))
    Q (group_failed sc es0 cs nt ns n) (in_group sc es0 cs nt ns) (\<lambda>_. False) w"
    (is "wp _ Q ?E ?W ?F w")
  unfolding wp_bnd
proof (rule wp_throw_failure [OF assms(1) _ assms(2)])
  assume "cg_failure (lw_group w) = None"
  then have "quiet (lw_group w)" by (simp add: quiet_def)
  from wp_commitReady [OF assms(1) this assms(2)]
  show "wp (awaited (commitReady sc cs)) (\<lambda>_. wp throwSchedulerFailure (\<lambda>_. wp rest Q ?E ?W ?F) ?E ?W ?F) ?E ?W ?F w"
  proof (rule wp_mono)
    fix w' assume w': "(\<exists>k. at_group sc es0 cs nt ns j k j j w') \<and> caught_up (lw_group w') \<and> script_size w' \<le> n"
    then obtain k' where "at_group sc es0 cs nt ns j k' j j w'" by blast
    moreover from w' have "wp rest Q ?E ?W ?F w'" by (intro assms(3)) (simp add: pooled_def)
    ultimately show "wp throwSchedulerFailure (\<lambda>_. wp rest Q ?E ?W ?F) ?E ?W ?F w'"
      using w' by (intro wp_throw_failure) simp_all
  qed simp_all
qed

lemma wp_start_next:
  assumes "pooled sc es0 cs nt ns j n w" and "j < length cs" and "length (cg_inFlight (lw_group w)) < sc_max sc"
  shows "wp (start_next sc cs) (\<lambda>_. pooled sc es0 cs nt ns (Suc j) n)
    (group_failed sc es0 cs nt ns n) (in_group sc es0 cs nt ns) (\<lambda>_. False) w"
    (is "wp _ ?Q ?E ?W ?F w")
proof -
  from assms(1) obtain k where w: "at_group sc es0 cs nt ns j k j j w" "script_size w \<le> n"
    by (auto simp: pooled_def)
  have i: "cg_nextToStart (lw_group w) = j" using w(1) by (simp add: at_group_def)
  let ?rest = "bnd throwSchedulerFailure (\<lambda>_. bnd (awaited (commitReady sc cs)) (\<lambda>_. bnd throwSchedulerFailure (\<lambda>_. latch_abort)))"
  have "wp ?rest ?Q ?E ?W ?F (w1\<lparr>lw_group := (lw_group w1)\<lparr>cg_nextToStart := Suc (cg_nextToStart (lw_group w1))\<rparr>\<rparr>)"
    if "at_group sc es0 cs nt ns (Suc j) k j (Suc j) w1" "script_size w1 \<le> n" for w1
  proof (rule wp_check_commit)
    show "at_group sc es0 cs nt ns (Suc j) k (Suc j) (Suc j)
        (w1\<lparr>lw_group := (lw_group w1)\<lparr>cg_nextToStart := Suc (cg_nextToStart (lw_group w1))\<rparr>\<rparr>)"
      using that(1) by (simp add: at_group_defs)
  qed (use that in \<open>auto intro: wp_latch_abort\<close>)
  then show ?thesis unfolding start_next_def wp_bnd wp_read wp_update_group i
    by (intro wp_mono [OF wp_startCall [OF w(1) assms(2,3) w(2)]]) auto
qed


section \<open>The pool\<close>

lemma wp_barrier:
  assumes "pooled sc es0 cs nt ns j n w"
  shows "wp (barrier_next parallel g)
    (\<lambda>b w'. pooled sc es0 cs nt ns j n w' \<and> lw_group w' = lw_group w \<and> (cg_nextToStart g = 0 \<longrightarrow> \<not> b))
    (group_failed sc es0 cs nt ns n) (in_group sc es0 cs nt ns) F w"
proof -
  have "wp (ask mode_reply) (\<lambda>p w'. pooled sc es0 cs nt ns j n w' \<and> lw_group w' = lw_group w)
      (group_failed sc es0 cs nt ns n) (in_group sc es0 cs nt ns) F w"
  proof (cases "lw_script w")
    case Nil
    then show ?thesis using pooled_in [OF assms] by (simp add: wp_def ask_def)
  next
    case (Cons t ts)
    let ?w = "w\<lparr>lw_script := ts, lw_now := tk_now t\<rparr>"
    have w': "pooled sc es0 cs nt ns j n ?w" using stable_pooled assms Cons unfolding stable_def by blast
    have "wp (take_reply mode_reply (tk_reply t)) (\<lambda>p w'. pooled sc es0 cs nt ns j n w' \<and> lw_group w' = lw_group w)
      (group_failed sc es0 cs nt ns n) (in_group sc es0 cs nt ns) F ?w"
      using w' pooled_in [OF w']
      by (cases "tk_reply t") (simp_all add: wp_def take_reply_def group_failed_def call_error_def outside_error_def pooled_def)
    then show ?thesis by (simp add: wp_def ask_def Cons)
  qed
  then show ?thesis unfolding barrier_next_def wp_if wp_bnd wp_ret using assms
    by (auto elim: wp_mono)
qed

lemma wp_fillPool:
  assumes "pooled sc es0 cs nt ns j n w"
  shows "wp (awaited (fillPool sc parallel cs))
    (\<lambda>_ w'. \<exists>j'\<ge>j. pooled sc es0 cs nt ns j' n w' \<and> (j = 0 \<and> may_start sc (length cs) (lw_group w) \<longrightarrow> 0 < j'))
    (group_failed sc es0 cs nt ns n) (in_group sc es0 cs nt ns) (\<lambda>_. False) w"
    (is "wp _ ?Q ?E ?W ?F w")
proof (rule wp_awaited)
  let ?c = "j = 0 \<and> may_start sc (length cs) (lw_group w)"
  let ?I = "\<lambda>_ :: unit. \<lambda>w'. \<exists>j'\<ge>j. pooled sc es0 cs nt ns j' n w' \<and> (?c \<longrightarrow> 0 < j' \<or> may_start sc (length cs) (lw_group w'))"
  let ?m = "\<lambda>_ :: unit. \<lambda>w'. length cs - cg_nextToStart (lw_group w')"
  show "wp (fillPool sc parallel cs) ?Q ?E ?W ?F w"
    unfolding fillPool_def
  proof (rule wp_loop [where I = ?I and m = ?m])
    fix u w' assume "?I u w'"
    then obtain j' where j': "j \<le> j'" "pooled sc es0 cs nt ns j' n w'"
        "?c \<longrightarrow> 0 < j' \<or> may_start sc (length cs) (lw_group w')" by blast
    have nts: "cg_nextToStart (lw_group w') = j'" using j'(2) by (auto simp: pooled_def at_group_def)
    let ?R = "\<lambda>r w1. case r of Inl s' \<Rightarrow> ?I s' w1 \<and> ?m s' w1 < ?m u w' | Inr a \<Rightarrow> ?Q a w1"
    show "wp (bnd (read_state lw_group) (\<lambda>g. if \<not> may_start sc (length cs) g then ret (Inr ())
         else bnd (barrier_next parallel g) (\<lambda>b. if b then ret (Inr ()) else bnd (start_next sc cs) (\<lambda>_. ret (Inl ())))))
        ?R ?E ?W ?F w'"
    proof (cases "may_start sc (length cs) (lw_group w')")
      case False
      then show ?thesis using j' by auto
    next
      case True
      have start: "wp (start_next sc cs) (\<lambda>_. ?R (Inl ())) ?E ?W ?F w1"
        if "pooled sc es0 cs nt ns j' n w1" "lw_group w1 = lw_group w'" for w1
      proof (rule wp_mono [OF wp_start_next [OF that(1)]])
        fix a w2 assume w2: "pooled sc es0 cs nt ns (Suc j') n w2"
        then have "cg_nextToStart (lw_group w2) = Suc j'" by (auto simp: pooled_def at_group_def)
        moreover have "j' < length cs" using True nts by (simp add: may_start_def)
        ultimately show "?R (Inl ()) w2" using w2 j'(1) nts by (auto intro: exI [of _ "Suc j'"])
      qed (use True nts that(2) in \<open>simp_all add: may_start_def\<close>)
      show ?thesis using True
        by simp (rule wp_mono [OF wp_barrier [OF j'(2)]], use start j' nts in \<open>auto intro: exI [of _ j']\<close>)
    qed
  next
    show "?I () w" using assms by auto
    show "?m () w < Suc (length cs)" by simp
  qed
  have "stable (\<lambda>w'. j \<le> j' \<and> pooled sc es0 cs nt ns j' n w' \<and> (?c \<longrightarrow> 0 < j'))" for j'
    by (intro stable_conj stable_const stable_pooled)
  then show "stable (?Q a)" for a :: unit unfolding stable_def by blast
  show "stable (?E x)" for x by (rule stable_group_failed)
qed (auto intro: pooled_in group_failed_in)


lemma race_ok:
  assumes "group_ok limit n l g" and "i \<in> set (cg_settled g)"
  shows "group_ok limit n l (g\<lparr>cg_inFlight := remove1 i (cg_inFlight g), cg_settled := remove1 i (cg_settled g)\<rparr>)"
proof -
  have d: "distinct (cg_inFlight g)" "distinct (cg_settled g)" using assms(1) by (simp_all add: group_ok_def)
  have "length (remove1 i (cg_inFlight g)) \<le> length (cg_inFlight g)" by (simp add: length_remove1)
  then show ?thesis using assms d by (auto simp: group_ok_def)
qed

lemma wp_race:
  assumes "pooled sc es0 cs nt ns j n w" and "script_size w = s"
  shows "wp race_settled (\<lambda>i w'. pooled sc es0 cs nt ns j n w' \<and> script_size w' < s \<and> i \<in> set (cg_settled (lw_group w')))
    (group_failed sc es0 cs nt ns n) (in_group sc es0 cs nt ns) (\<lambda>_. False) w"
proof -
  have "wp (await race_reply) (\<lambda>a w'. pooled sc es0 cs nt ns j n w' \<and> script_size w' < script_size w)
    (\<lambda>x w'. pooled sc es0 cs nt ns j n w' \<and> outside_error x \<and> script_size w' < script_size w)
    (pooled sc es0 cs nt ns j n) (\<lambda>_. False) w"
    using stable_pooled assms(1) by (rule wp_await)
  then show ?thesis unfolding race_settled_def wp_bnd
    using assms(2) by (elim wp_mono)
      (auto simp: wp_def group_failed_def call_error_def pooled_def intro: at_group_in)
qed

lemma pooled_weaken: "pooled sc es0 cs nt ns j n w \<Longrightarrow> n \<le> n' \<Longrightarrow> pooled sc es0 cs nt ns j n' w"
  and group_failed_weaken: "group_failed sc es0 cs nt ns n x w \<Longrightarrow> n \<le> n' \<Longrightarrow> group_failed sc es0 cs nt ns n' x w"
  by (auto simp: pooled_def group_failed_def)

lemma wp_drain_round:
  assumes "pooled sc es0 cs nt ns j n w"
  shows "wp (drain_round sc parallel cs)
    (\<lambda>_ w'. \<exists>j'\<ge>j. pooled sc es0 cs nt ns j' n w' \<and> script_size w' < script_size w)
    (group_failed sc es0 cs nt ns n) (in_group sc es0 cs nt ns) (\<lambda>_. False) w"
    (is "wp _ ?Q ?E ?W ?F w")
proof -
  let ?s = "script_size w - 1"
  let ?E' = "group_failed sc es0 cs nt ns ?s"
  have s: "?s \<le> n" using assms by (auto simp: pooled_def)
  have fill: "wp (bnd latch_abort (\<lambda>_. awaited (fillPool sc parallel cs)))
      (\<lambda>_ w'. \<exists>j'\<ge>j. pooled sc es0 cs nt ns j' ?s w') ?E' ?W ?F w1"
    if "pooled sc es0 cs nt ns j ?s w1" for w1
    unfolding wp_bnd
    by (rule wp_mono [OF wp_latch_abort [OF that]], rule wp_mono [OF wp_fillPool]) auto
  have commit: "wp (bnd throwSchedulerFailure (\<lambda>_. bnd (awaited (commitReady sc cs)) (\<lambda>_. bnd throwSchedulerFailure (\<lambda>_.
        bnd latch_abort (\<lambda>_. awaited (fillPool sc parallel cs))))))
      (\<lambda>_ w'. \<exists>j'\<ge>j. pooled sc es0 cs nt ns j' ?s w') ?E' ?W ?F
      (w1\<lparr>lw_group := (lw_group w1)\<lparr>cg_inFlight := remove1 i (cg_inFlight (lw_group w1)), cg_settled := remove1 i (cg_settled (lw_group w1))\<rparr>\<rparr>)"
    if w1: "pooled sc es0 cs nt ns j n w1" "script_size w1 < script_size w" "i \<in> set (cg_settled (lw_group w1))" for w1 i
  proof -
    from w1(1) obtain k where "at_group sc es0 cs nt ns j k j j w1" by (auto simp: pooled_def)
    then have "at_group sc es0 cs nt ns j k j j
      (w1\<lparr>lw_group := (lw_group w1)\<lparr>cg_inFlight := remove1 i (cg_inFlight (lw_group w1)), cg_settled := remove1 i (cg_settled (lw_group w1))\<rparr>\<rparr>)"
      using race_ok [OF _ w1(3)] by (simp add: at_group_defs)
    then show ?thesis
      by (rule wp_check_commit) (use w1(2) in simp, erule fill)
  qed
  have "wp (drain_round sc parallel cs) (\<lambda>_ w'. \<exists>j'\<ge>j. pooled sc es0 cs nt ns j' ?s w') ?E ?W ?F w" if "0 < script_size w"
    unfolding drain_round_def
    by (subst wp_bnd, rule wp_mono [OF wp_race [OF assms refl]], elim conjE, subst wp_bnd, subst wp_update_group,
        rule wp_mono [OF commit]) (use s in \<open>auto intro: group_failed_weaken\<close>)
  note run = this
  have "wp (drain_round sc parallel cs) ?Q ?E ?W ?F w" if "0 < script_size w"
    by (rule wp_mono [OF run [OF that]]) (use s that in \<open>fastforce simp: pooled_def\<close>)+
  moreover have "wp (drain_round sc parallel cs) ?Q ?E ?W ?F w" if "script_size w = 0"
    using that pooled_in [OF assms]
    by (simp add: drain_round_def race_settled_def script_size_def wp_def await_def bnd_def)
  ultimately show ?thesis by blast
qed

lemma wp_drainPool:
  assumes "pooled sc es0 cs nt ns j n w"
  shows "wp (drainPool sc parallel cs)
    (\<lambda>_ w'. \<exists>j'\<ge>j. at_group sc es0 cs nt ns j' j' j' j' w' \<and> script_size w' \<le> n)
    (group_failed sc es0 cs nt ns n) (in_group sc es0 cs nt ns) (\<lambda>_. False) w"
    (is "wp _ ?Q ?E ?W ?F w")
  unfolding drainPool_def wp_bnd wp_read
proof (rule wp_loop [where I = "\<lambda>_ w'. \<exists>j'\<ge>j. pooled sc es0 cs nt ns j' n w'" and m = "\<lambda>_. script_size"])
  fix u :: unit and w' assume "\<exists>j'\<ge>j. pooled sc es0 cs nt ns j' n w'"
  then obtain j' where j': "j \<le> j'" "pooled sc es0 cs nt ns j' n w'" by blast
  let ?R = "\<lambda>r w1. case r of Inl s' \<Rightarrow> (\<exists>j'\<ge>j. pooled sc es0 cs nt ns j' n w1) \<and> script_size w1 < script_size w' | Inr a \<Rightarrow> ?Q a w1"
  show "wp (bnd (read_state (\<lambda>w. cg_inFlight (lw_group w))) (\<lambda>live.
        if live = [] then ret (Inr ()) else bnd (drain_round sc parallel cs) (\<lambda>_. ret (Inl ()))))
      ?R ?E ?W ?F w'"
  proof (cases "cg_inFlight (lw_group w') = []")
    case True
    from j'(2) obtain k where "at_group sc es0 cs nt ns j' k j' j' w'" "caught_up (lw_group w')" "script_size w' \<le> n"
      by (auto simp: pooled_def)
    moreover from this True have "k = j'" by (simp add: caught_up_def at_group_def)
    ultimately show ?thesis using True j'(1) by auto
  next
    case False
    then show ?thesis
      by simp (rule wp_mono [OF wp_drain_round [OF j'(2)]], use j'(1) in \<open>auto intro: order_trans\<close>)
  qed
next
  show "\<exists>j'\<ge>j. pooled sc es0 cs nt ns j' n w" using assms by blast
  show "script_size w < Suc (script_size w)" by simp
qed


section \<open>Failures\<close>

lemma stable_in_group_and:
  assumes "\<And>i r g. P g \<Longrightarrow> P (settle_call i r g)"
  shows "stable (\<lambda>w. in_group sc es0 cs nt ns w \<and> P (lw_group w))"
proof -
  have "stable (\<lambda>w. at_pos sc es0 cs nt ns j k l w \<and> running_at (sc_turn sc) (sc_step sc) w \<and> P (lw_group w))" for j k l
    by (intro stable_conj stable_at_pos stable_group_part assms)
  then have "stable (\<lambda>w. \<exists>j k l. at_pos sc es0 cs nt ns j k l w \<and> running_at (sc_turn sc) (sc_step sc) w \<and> P (lw_group w))"
    unfolding stable_def by blast
  then show ?thesis
    by (rule back_subst [where P = stable]) (auto simp: fun_eq_iff in_group_def at_pos_def dest: open_calls_running)
qed

lemma in_group_update:
  assumes "in_group sc es0 cs nt ns w" and "\<And>l. group_ok (sc_max sc) (length cs) l (lw_group w) \<Longrightarrow> group_ok (sc_max sc) (length cs) l (f (lw_group w))"
    and "errors_ok cs (lw_group w) \<Longrightarrow> errors_ok cs (f (lw_group w))"
    and "cg_callSeqs (f (lw_group w)) = cg_callSeqs (lw_group w)"
  shows "in_group sc es0 cs nt ns (w\<lparr>lw_group := f (lw_group w)\<rparr>)"
proof -
  from assms(1) obtain j k l where "at_pos sc es0 cs nt ns j k l w" by (auto simp: in_group_def)
  then have "at_pos sc es0 cs nt ns j k l (w\<lparr>lw_group := f (lw_group w)\<rparr>)"
    using assms(2-4) by (simp add: at_pos_def)
  then show ?thesis by (auto simp: in_group_def)
qed

lemma settle_failure: "cg_failure g \<noteq> None \<Longrightarrow> cg_failure (settle_call i r g) \<noteq> None"
  by (auto simp: settle_call_def split: sum.split option.split)

lemma wp_scheduler_failed:
  assumes "group_failed sc es0 cs nt ns n x w"
  shows "wp (scheduler_failed x) (\<lambda>_ _. False) (group_failed sc es0 cs nt ns n) (in_group sc es0 cs nt ns) (\<lambda>_. False) w"
    (is "wp _ ?Q ?E ?W ?F w")
proof -
  let ?f = "\<lambda>g. g\<lparr>cg_failure := (case cg_failure g of None \<Rightarrow> Some x | f \<Rightarrow> f)\<rparr>"
  let ?w = "w\<lparr>lw_group := ?f (lw_group w)\<rparr>"
  let ?I = "\<lambda>w. in_group sc es0 cs nt ns w \<and> cg_failure (lw_group w) \<noteq> None"
  have "in_group sc es0 cs nt ns ?w"
    by (rule in_group_update) (use assms in \<open>auto simp: group_failed_def group_ok_def errors_ok_def split: option.splits\<close>)
  then have I: "?I ?w" by (auto split: option.split)
  have S: "stable ?I" by (rule stable_in_group_and) (rule settle_failure)
  have throw: "wp throwSchedulerFailure ?Q ?E ?W ?F w'" if "?I w'" "script_size w' \<le> n" for w'
  proof -
    from that(1) obtain y where y: "cg_failure (lw_group w') = Some y" by blast
    with that have "?E y w'" by (auto simp: group_failed_def in_group_def at_pos_def errors_ok_def)
    with y show ?thesis by (simp add: throwSchedulerFailure_def)
  qed
  have "wp all_settled (\<lambda>_ w'. ?I w' \<and> script_size w' \<le> n) ?E ?W ?F ?w"
    unfolding all_settled_def wp_bnd
    by (rule wp_mono [OF wp_await [OF S I]])
      (use assms in \<open>auto simp: wp_def group_failed_def call_error_def\<close>)
  then show ?thesis unfolding scheduler_failed_def wp_bnd wp_update_group
    by (rule wp_mono) (auto intro: throw)
qed

section \<open>One group, all calls\<close>

text \<open>The log between groups: the calls \<open>done\<close> are recorded with their results, none is pending.\<close>

definition calls_done :: "step_scope \<Rightarrow> inbox_event list \<Rightarrow> call_block list \<Rightarrow> int \<Rightarrow> int \<Rightarrow> loop_world \<Rightarrow> bool" where
  "calls_done sc es0 cs nt ns w \<longleftrightarrow>
     (\<exists>qs. recorded sc es0 cs (length cs) (length cs) qs (log_of w))
     \<and> shaped (Some (sc_turn sc)) (Some (sc_step sc)) nt ns {} (sc_turn sc) (sc_step sc) w
     \<and> length (cg_inFlight (lw_group w)) \<le> sc_max sc"

lemma stable_calls_done: "stable (calls_done sc es0 cs nt ns)"
proof (rule stableI)
  fix w x assume w: "calls_done sc es0 cs nt ns w"
  then obtain a where a: "lw_phase w = Running a" by (auto simp: calls_done_def shaped_def running_at_def)
  from happen_same(1) [OF this] have "grows_foreign (log_of w) (log_of (happen x w))" by (simp add: same_driver_def)
  moreover have "cg_inFlight (lw_group (happen x w)) = cg_inFlight (lw_group w)" using happen_same(2) [OF a, of x] by auto
  ultimately show "calls_done sc es0 cs nt ns (happen x w)"
    using w stable_happen [OF stable_shaped] by (auto simp: calls_done_def intro: recorded_foreign)
qed (simp add: calls_done_def shaped_def running_at_def)

lemma recorded_take: "recorded sc es0 cs j k qs es \<Longrightarrow> recorded sc es0 (take j cs) j k qs es"
  by (auto simp: recorded_def)

lemma calls_done_start:
  "shaped (Some (sc_turn sc)) (Some (sc_step sc)) nt ns {} (sc_turn sc) (sc_step sc) w \<Longrightarrow>
   length (cg_inFlight (lw_group w)) \<le> sc_max sc \<Longrightarrow> calls_done sc (log_of w) [] nt ns w"
  using recorded_start [of sc "log_of w" "[]"] by (auto simp: calls_done_def)

text \<open>A skipped call records its call and its result at once.\<close>

lemma wp_skipped:
  assumes "calls_done sc es0 cs nt ns w"
  shows "wp (appendSkippedToolCall sc c) (\<lambda>_ w'. calls_done sc es0 (cs @ [c]) nt ns w' \<and> script_size w' = script_size w
    \<and> lw_group w' = lw_group w) E W F w"
proof -
  let ?t = "Some (sc_turn sc)" and ?s = "Some (sc_step sc)"
  let ?es = "log_of w @ [new_event (length (log_of w)) (lw_now w) (ToolCall (sc_turn sc) (sc_step sc) (cb_id c) (cb_name c) (cb_arguments c)) None None]"
  let ?r = "ToolResult (result_data sc (sc_uuid sc (lw_fresh w)) c skipped_outcome)"
  let ?es' = "?es @ [new_event (length ?es) (lw_now w) ?r (Some (JStr ''append'')) (Some (JArr [JInt (int (length (log_of w)))]))]"
  from assms obtain qs where rec: "recorded sc es0 cs (length cs) (length cs) qs (log_of w)"
    and shape: "log_shape (log_of w) ?t ?s nt ns {}" and room: "length (cg_inFlight (lw_group w)) \<le> sc_max sc" and run: "running_at (sc_turn sc) (sc_step sc) w"
    by (auto simp: calls_done_def shaped_def)
  have len: "length qs = length cs" using rec by (simp add: recorded_def)
  have shape1: "log_shape ?es ?t ?s nt ns {cb_id c}" using shape_call [OF shape] by simp
  have "log_shape ?es' ?t ?s nt ns ({cb_id c} - {cb_id c})"
    using shape1 by (intro shape_result)
      (simp_all add: result_data_def createToolResultMessage_def createUserMessage_def createMessage_def)
  then have shape2: "log_shape ?es' ?t ?s nt ns {}" by simp
  have ext: "recorded sc es0 (cs @ [c]) (length cs) (length cs) qs (log_of w)"
    using rec by (auto simp: recorded_def)
  have "recorded sc es0 (cs @ [c]) (Suc (length cs)) (length cs) (qs @ [int (length (log_of w))]) ?es"
    using recorded_call [OF ext, of "length (log_of w)" "lw_now w" None None] by simp
  from recorded_result [OF this, of "length ?es" "lw_now w" "sc_uuid sc (lw_fresh w)" skipped_outcome]
  have "recorded sc es0 (cs @ [c]) (Suc (length cs)) (Suc (length cs)) (qs @ [int (length (log_of w))]) ?es'"
    using len by (simp add: nth_append)
  then have fin: "calls_done sc es0 (cs @ [c]) nt ns w'"
    if "log_of w' = ?es'" "lw_phase w' = lw_phase w" "lw_group w' = lw_group w" for w'
    using shape2 run room that by (auto simp: calls_done_def shaped_def running_at_def)
  show ?thesis
    unfolding appendSkippedToolCall_def appendToolCall_def appendToolResult_def wp_bnd
    by (rule wp_append [OF shape1], simp, rule wp_append)
      (use shape2 fin in simp_all)
qed

lemma wp_skip_all:
  assumes "calls_done sc es0 cs nt ns w"
  shows "wp (for_each (appendSkippedToolCall sc) ds) (\<lambda>_ w'. calls_done sc es0 (cs @ ds) nt ns w' \<and> script_size w' = script_size w
    \<and> lw_group w' = lw_group w) E W F w"
  using assms
proof (induction ds arbitrary: cs w)
  case (Cons d ds)
  show ?case unfolding for_each.simps wp_bnd
    by (rule wp_mono [OF wp_skipped [OF Cons.prems]], elim conjE, rule wp_mono [OF Cons.IH]) auto
qed simp


text \<open>Any moment of a step's calls: \<open>j\<close> calls started, \<open>k\<close> results recorded, in model order.\<close>

definition step_calls :: "step_scope \<Rightarrow> inbox_event list \<Rightarrow> call_block list \<Rightarrow> int \<Rightarrow> int \<Rightarrow> loop_world \<Rightarrow> bool" where
  "step_calls sc es0 cs nt ns w \<longleftrightarrow>
     (\<exists>j k qs. recorded sc es0 cs j k qs (log_of w) \<and> open_calls sc cs nt ns (cb_id ` set (drop k (take j cs))) w)
     \<and> length (cg_inFlight (lw_group w)) \<le> sc_max sc"

definition step_failed ::
  "step_scope \<Rightarrow> inbox_event list \<Rightarrow> call_block list \<Rightarrow> int \<Rightarrow> int \<Rightarrow> nat \<Rightarrow> loop_error \<Rightarrow> loop_world \<Rightarrow> bool" where
  "step_failed sc es0 cs nt ns n x w \<longleftrightarrow> step_calls sc es0 cs nt ns w \<and> call_error cs x \<and> script_size w \<le> n"

text \<open>Calls recorded before, and a further moment of the calls after them.\<close>

lemma step_calls_trans:
  assumes "recorded sc es0 ds (length ds) (length ds) qs es1" and "step_calls sc es1 cs nt ns w"
  shows "step_calls sc es0 (ds @ cs @ rest) nt ns w"
proof -
  from assms(2) obtain j k qs' where 1: "recorded sc es1 cs j k qs' (log_of w)"
      "open_calls sc cs nt ns (cb_id ` set (drop k (take j cs))) w"
      and 2: "length (cg_inFlight (lw_group w)) \<le> sc_max sc"
    by (auto simp: step_calls_def)
  have "j \<le> length cs" using 1(1) by (simp add: recorded_def)
  then have 3: "take (length ds + j) (ds @ cs @ rest) = ds @ take j cs" by simp
  have "recorded sc es0 (ds @ cs) (length ds + j) (length ds + k) (qs @ qs') (log_of w)"
    using assms(1) 1(1) by (rule recorded_trans)
  then have "recorded sc es0 (ds @ cs @ rest) (length ds + j) (length ds + k) (qs @ qs') (log_of w)"
    using 3 \<open>j \<le> length cs\<close> by (auto simp: recorded_def)
  moreover have "drop (length ds + k) (take (length ds + j) (ds @ cs @ rest)) = drop k (take j cs)"
    unfolding 3 by simp
  moreover have "open_calls sc (ds @ cs @ rest) nt ns (cb_id ` set (drop k (take j cs))) w"
    using 1(2) by (auto simp: open_calls_def)
  ultimately show ?thesis unfolding step_calls_def using 2 by metis
qed

lemma call_error_mono: "call_error cs x \<Longrightarrow> call_error (ds @ cs @ rest) x"
  by (auto simp: call_error_def)

lemma in_group_step: "in_group sc es0 cs nt ns w \<Longrightarrow> step_calls sc es0 cs nt ns w"
  by (auto simp: in_group_def at_pos_def step_calls_def group_ok_def)

lemma calls_done_step:
  assumes "calls_done sc es0 cs nt ns w"
  shows "step_calls sc es0 (cs @ ds) nt ns w"
proof -
  from assms obtain qs where qs: "recorded sc es0 cs (length cs) (length cs) qs (log_of w)" by (auto simp: calls_done_def)
  have "step_calls sc (log_of w) [] nt ns w"
    using assms recorded_start [of sc "log_of w" "[]"] by (auto simp: step_calls_def calls_done_def open_calls_def)
  from step_calls_trans [OF qs this, of ds] show ?thesis by simp
qed

lemma stable_step_calls: "stable (step_calls sc es0 cs nt ns)"
proof (rule stableI)
  fix w x assume w: "step_calls sc es0 cs nt ns w"
  then obtain a where a: "lw_phase w = Running a" by (auto simp: step_calls_def open_calls_def shaped_def running_at_def)
  from happen_same(1) [OF this] have "grows_foreign (log_of w) (log_of (happen x w))" by (simp add: same_driver_def)
  moreover have "cg_inFlight (lw_group (happen x w)) = cg_inFlight (lw_group w)" using happen_same(2) [OF a, of x] by auto
  ultimately show "step_calls sc es0 cs nt ns (happen x w)"
    using w stable_happen [OF stable_open_calls] by (auto simp: step_calls_def) (metis recorded_foreign)
qed (simp add: step_calls_def open_calls_def shaped_def running_at_def)

lemma stable_step_failed: "stable (step_failed sc es0 cs nt ns n x)"
  unfolding step_failed_def by (intro stable_conj stable_step_calls stable_const stable_script)

lemma group_failed_step: "group_failed sc es0 cs nt ns n x w \<Longrightarrow> step_failed sc es0 cs nt ns n x w"
  by (simp add: group_failed_def step_failed_def in_group_step)

lemma wp_run_pool:
  assumes "pooled sc es0 cs nt ns 0 n w"
  shows "wp (run_pool sc parallel cs)
    (\<lambda>_ w'. \<exists>j. at_group sc es0 cs nt ns j j j j w' \<and> script_size w' \<le> n
       \<and> (may_start sc (length cs) (lw_group w) \<longrightarrow> 0 < j))
    (group_failed sc es0 cs nt ns n) (in_group sc es0 cs nt ns) (\<lambda>_. False) w"
    (is "wp _ ?Q ?E ?W ?F w")
proof -
  have drain: "wp (drainPool sc parallel cs) ?Q ?E ?W ?F w'"
    if "pooled sc es0 cs nt ns j n w'" "may_start sc (length cs) (lw_group w) \<longrightarrow> 0 < j" for j w'
    by (rule wp_mono [OF wp_drainPool [OF that(1)]]) (use that(2) in auto)
  have "wp (bnd (awaited (fillPool sc parallel cs)) (\<lambda>_. drainPool sc parallel cs)) ?Q ?E ?W ?F w"
    unfolding wp_bnd by (rule wp_mono [OF wp_fillPool [OF assms]]) (auto intro: drain)
  then show ?thesis unfolding run_pool_def wp_handle
    by (rule wp_mono) (auto intro: wp_mono [OF wp_scheduler_failed])
qed

text \<open>A group entered with an aborted signal starts nothing.\<close>

lemma wp_run_pool_aborted:
  assumes "pooled sc es0 cs nt ns 0 n w" and "cg_inFlight (lw_group w) = []" and "cg_aborted (lw_group w)"
  shows "wp (run_pool sc parallel cs) (\<lambda>_ w'. cg_aborted (lw_group w')) (\<lambda>_ _. False) (in_group sc es0 cs nt ns) (\<lambda>_. False) w"
proof -
  let ?P = "\<lambda>g. cg_inFlight g = [] \<and> cg_aborted g"
  obtain k where k: "at_group sc es0 cs nt ns 0 k 0 0 w" using assms(1) by (auto simp: pooled_def)
  have S: "stable (\<lambda>w. at_group sc es0 cs nt ns 0 k 0 0 w \<and> ?P (lw_group w))"
    by (rule stable_at_group_and) simp
  have "wp (fillPool sc parallel cs) (\<lambda>_ w'. w' = w) E W F w" for E W F
    using assms(3) by (simp add: fillPool_def may_start_def)
  then have "wp (awaited (fillPool sc parallel cs)) (\<lambda>_ w'. at_group sc es0 cs nt ns 0 k 0 0 w' \<and> ?P (lw_group w'))
      (\<lambda>_ _. False) (in_group sc es0 cs nt ns) (\<lambda>_. False) w"
    unfolding awaited_def wp_finally
    by (rule wp_mono) (use k assms in \<open>auto intro!: wp_mono [OF wp_pause [OF S]] intro: at_group_in\<close>)
  then show ?thesis unfolding run_pool_def wp_handle wp_bnd
    by (rule wp_mono) (auto simp: drainPool_def)
qed


text \<open>A group records a non-empty prefix of its calls, all of them when it was aborted.\<close>

definition group_returns :: "step_scope \<Rightarrow> inbox_event list \<Rightarrow> call_block list \<Rightarrow> int \<Rightarrow> int \<Rightarrow> nat
    \<Rightarrow> group_outcome \<Rightarrow> loop_world \<Rightarrow> bool" where
  "group_returns sc es0 cs nt ns n out w \<longleftrightarrow>
     calls_done sc es0 (take (go_consumed out) cs) nt ns w \<and> 0 < go_consumed out \<and> go_consumed out \<le> length cs
     \<and> (go_aborted out \<longrightarrow> go_consumed out = length cs) \<and> script_size w \<le> n"

lemma stable_group_returns: "stable (group_returns sc es0 cs nt ns n out)"
  unfolding group_returns_def by (intro stable_conj stable_calls_done stable_const stable_script)

lemma at_group_done:
  assumes "at_group sc es0 cs nt ns j j m l w"
  shows "calls_done sc es0 (take j cs) nt ns w"
proof -
  have "recorded sc es0 (take j cs) j j (take j (cg_callSeqs (lw_group w))) (log_of w)"
    using assms by (auto simp: at_group_defs intro: recorded_take)
  moreover have "j \<le> length cs" using assms by (auto simp: at_group_defs recorded_def)
  ultimately show ?thesis using assms by (auto simp: at_group_defs calls_done_def group_ok_def open_calls_def)
qed

lemma wp_group_result:
  assumes "at_group sc es0 cs nt ns j j j j w" and "cs \<noteq> []" and "cg_aborted (lw_group w) \<or> 0 < j" and "script_size w \<le> n"
  shows "wp (group_result sc cs) (group_returns sc es0 cs nt ns n) E W F w"
proof (cases "cg_aborted (lw_group w)")
  case True
  have st: "cg_started (lw_group w) = j" using assms(1) by (simp add: at_group_def)
  have "wp (for_each (appendSkippedToolCall sc) (drop j cs))
      (\<lambda>_ w'. calls_done sc es0 (take j cs @ drop j cs) nt ns w' \<and> script_size w' = script_size w \<and> lw_group w' = lw_group w) E W F w"
    by (rule wp_skip_all [OF at_group_done [OF assms(1)]])
  then show ?thesis using True assms(2,4) st
    unfolding group_result_def by simp (erule wp_mono, auto simp: group_returns_def)
next
  case False
  have "cg_started (lw_group w) = j" "cg_committed (lw_group w) = j" "j \<le> length cs"
    using assms(1) by (auto simp: at_group_defs recorded_def)
  then show ?thesis using False assms at_group_done [OF assms(1)] by (simp add: group_returns_def group_result_def)
qed

lemma wp_runGroup:
  assumes "shaped (Some (sc_turn sc)) (Some (sc_step sc)) nt ns {} (sc_turn sc) (sc_step sc) w"
    and "0 < sc_max sc" and "cs \<noteq> []" and "script_size w \<le> n"
  shows "wp (awaited (runGroup sc parallel cs)) (group_returns sc (log_of w) cs nt ns n)
    (step_failed sc (log_of w) cs nt ns n) (step_calls sc (log_of w) cs nt ns) (\<lambda>_. False) w"
    (is "wp _ ?Q ?E ?W ?F w")
proof (rule wp_awaited)
  let ?g = "new_group (length cs) (abort_reason w \<noteq> None)"
  let ?w = "w\<lparr>lw_group := ?g\<rparr>"
  have start: "pooled sc (log_of w) cs nt ns 0 n ?w"
    using assms recorded_start [of sc "log_of w" cs] new_group_ok
    by (auto simp: pooled_def at_group_defs new_group_def open_calls_def errors_ok_def intro!: exI [of _ 0])
  have "wp (run_pool sc parallel cs)
      (\<lambda>_ w'. \<exists>j. at_group sc (log_of w) cs nt ns j j j j w' \<and> script_size w' \<le> n \<and> (cg_aborted (lw_group w') \<or> 0 < j))
      (group_failed sc (log_of w) cs nt ns n) (in_group sc (log_of w) cs nt ns) ?F ?w"
  proof (cases "abort_reason w = None")
    case True
    then have "may_start sc (length cs) (lw_group ?w)" using assms by (simp add: may_start_def new_group_def)
    then show ?thesis by (intro wp_mono [OF wp_run_pool [OF start]]) auto
  next
    case False
    then have "cg_inFlight (lw_group ?w) = []" "cg_aborted (lw_group ?w)" by (simp_all add: new_group_def)
    from wp_conj [OF wp_run_pool [OF start] wp_run_pool_aborted [OF start this]] show ?thesis
      by (rule wp_mono) auto
  qed
  note pool = this
  show "wp (runGroup sc parallel cs) ?Q ?E ?W ?F w"
    unfolding runGroup_def
    by (subst wp_bnd, subst wp_signal_aborted, subst wp_bnd, subst wp_update_group, subst wp_bnd, rule wp_mono [OF pool])
      ((elim exE conjE, rule wp_group_result, assumption, rule assms(3), assumption+) | erule group_failed_step | erule in_group_step | assumption)+
  fix out w' assume "group_returns sc (log_of w) cs nt ns n out w'"
  then have "calls_done sc (log_of w) (take (go_consumed out) cs) nt ns w'" by (simp add: group_returns_def)
  from calls_done_step [OF this, of "drop (go_consumed out) cs"] show "step_calls sc (log_of w) cs nt ns w'" by simp
qed (rule stable_group_returns, rule stable_step_failed, simp add: step_failed_def)

lemma wp_next_group:
  assumes "calls_done sc es0 ds nt ns w" and "0 < sc_max sc" and "rest \<noteq> []"
    and "script_size w \<le> n"
  shows "wp (next_group sc rest concluded)
    (\<lambda>r w'. case r of
       Inl s' \<Rightarrow> (\<exists>ds'. ds @ rest = ds' @ fst s' \<and> calls_done sc es0 ds' nt ns w') \<and> script_size w' \<le> n \<and> length (fst s') < length rest
     | Inr _ \<Rightarrow> calls_done sc es0 (ds @ rest) nt ns w')
    (step_failed sc es0 (ds @ rest) nt ns n) (step_calls sc es0 (ds @ rest) nt ns) (\<lambda>_. False) w"
    (is "wp _ ?Q ?E ?W ?F w")
proof -
  have part: "wp (awaited (runGroup sc parallel cs)) (group_returns sc (log_of w') cs nt ns n) ?E ?W ?F w'
      \<and> (\<forall>out w2. group_returns sc (log_of w') cs nt ns n out w2 \<longrightarrow> calls_done sc es0 (ds @ take (go_consumed out) cs) nt ns w2)"
    if w': "calls_done sc es0 ds nt ns w'" "script_size w' \<le> n" and cs: "rest = cs @ more" "cs \<noteq> []" for parallel cs more w'
  proof -
    obtain qs where qs: "recorded sc es0 ds (length ds) (length ds) qs (log_of w')" using w'(1) by (auto simp: calls_done_def)
    have "shaped (Some (sc_turn sc)) (Some (sc_step sc)) nt ns {} (sc_turn sc) (sc_step sc) w'"
      using w'(1) by (simp add: calls_done_def)
    then have run: "wp (awaited (runGroup sc parallel cs)) (group_returns sc (log_of w') cs nt ns n)
      (step_failed sc (log_of w') cs nt ns n) (step_calls sc (log_of w') cs nt ns) ?F w'"
      using assms(2) cs(2) w'(2) by (intro wp_runGroup)
    have "wp (awaited (runGroup sc parallel cs)) (group_returns sc (log_of w') cs nt ns n) ?E ?W ?F w'"
      by (rule wp_mono [OF run]) (use step_calls_trans [OF qs] call_error_mono cs(1) in \<open>auto simp: step_failed_def\<close>)
    moreover have "calls_done sc es0 (ds @ take (go_consumed out) cs) nt ns w2"
      if out: "group_returns sc (log_of w') cs nt ns n out w2" for out w2
    proof -
      from out obtain qs2 where qs2: "recorded sc (log_of w') (take (go_consumed out) cs) (length (take (go_consumed out) cs))
          (length (take (go_consumed out) cs)) qs2 (log_of w2)"
        by (auto simp: group_returns_def calls_done_def)
      from recorded_trans [OF qs qs2] out show ?thesis
        unfolding calls_done_def group_returns_def by auto
    qed
    ultimately show ?thesis by blast
  qed
  have rest: "wp (let rest' = drop (go_consumed out) rest; concluded' = (concluded \<or> go_concluded out)
       in if go_aborted out then bnd (for_each (appendSkippedToolCall sc) rest') (\<lambda>_. ret (Inr concluded'))
          else ret (Inl (rest', concluded'))) ?Q ?E ?W ?F w2"
    if out: "calls_done sc es0 (ds @ take (go_consumed out) rest) nt ns w2" "0 < go_consumed out" "script_size w2 \<le> n" for out w2
  proof (cases "go_aborted out")
    case True
    from wp_skip_all [OF out(1), of "drop (go_consumed out) rest" ?E ?W ?F] True show ?thesis
      by (simp add: Let_def) (erule wp_mono, auto)
  next
    case False
    have "ds @ rest = (ds @ take (go_consumed out) rest) @ drop (go_consumed out) rest" by simp
    with False out assms(3) show ?thesis
      by (auto simp: Let_def intro: exI [of _ "ds @ take (go_consumed out) rest"])
  qed
  have group: "wp (awaited (runGroup sc parallel (if parallel then rest else [hd rest])))
      (\<lambda>out w2. calls_done sc es0 (ds @ take (go_consumed out) rest) nt ns w2 \<and> 0 < go_consumed out \<and> script_size w2 \<le> n) ?E ?W ?F w'"
    if w': "calls_done sc es0 ds nt ns w'" "script_size w' \<le> n" for parallel w'
  proof -
    let ?cs = "if parallel then rest else [hd rest]" and ?more = "if parallel then [] else tl rest"
    have cs: "rest = ?cs @ ?more" "?cs \<noteq> []" using assms(3) by auto
    have eq: "take c ?cs = take c rest" if "c \<le> length ?cs" for c
      using that by (subst (2) cs(1)) (simp only: take_append, simp)
    note p = part [OF w' cs, of parallel]
    show ?thesis
      by (rule wp_mono [OF conjunct1 [OF p]]) (use conjunct2 [OF p] eq in \<open>auto simp: group_returns_def\<close>)
  qed
  have "wp (ask mode_reply) (\<lambda>p w'. calls_done sc es0 ds nt ns w' \<and> script_size w' \<le> n) ?E ?W ?F w"
    by (rule wp_mono [OF wp_ask [OF stable_calls_done assms(1)]])
      (use assms(4) calls_done_step [of sc es0 ds nt ns _ rest] in \<open>auto simp: step_failed_def call_error_def\<close>)
  then show ?thesis unfolding next_group_def wp_bnd
    by (rule wp_mono) ((elim conjE, rule wp_mono [OF group], assumption+, elim conjE, rule rest, assumption+) | assumption)+
qed

lemma wp_executeToolCalls:
  assumes "shaped (Some (sc_turn sc)) (Some (sc_step sc)) nt ns {} (sc_turn sc) (sc_step sc) w"
    and "0 < sc_max sc" and "length (cg_inFlight (lw_group w)) \<le> sc_max sc"
  shows "wp (executeToolCalls sc calls) (\<lambda>_. calls_done sc (log_of w) calls nt ns)
    (step_failed sc (log_of w) calls nt ns (script_size w)) (step_calls sc (log_of w) calls nt ns) (\<lambda>_. False) w"
    (is "wp _ ?Q ?E ?W ?F w")
  unfolding executeToolCalls_def
proof (rule wp_loop [where m = "\<lambda>s _. length (fst s)"
      and I = "\<lambda>s w'. \<exists>ds. calls = ds @ fst s \<and> calls_done sc (log_of w) ds nt ns w' \<and> script_size w' \<le> script_size w"])
  fix s :: "call_block list \<times> bool" and w'
  obtain rest concluded where s: "s = (rest, concluded)" by (cases s)
  assume "\<exists>ds. calls = ds @ fst s \<and> calls_done sc (log_of w) ds nt ns w' \<and> script_size w' \<le> script_size w"
  then obtain ds where ds: "calls = ds @ rest" "calls_done sc (log_of w) ds nt ns w'" "script_size w' \<le> script_size w"
    using s by auto
  show "wp (case s of (rest, concluded) \<Rightarrow> if rest = [] then ret (Inr concluded) else next_group sc rest concluded)
      (\<lambda>r w1. case r of
          Inl s' \<Rightarrow> (\<exists>ds. calls = ds @ fst s' \<and> calls_done sc (log_of w) ds nt ns w1 \<and> script_size w1 \<le> script_size w)
            \<and> length (fst s') < length (fst s)
        | Inr a \<Rightarrow> ?Q a w1) ?E ?W ?F w'"
  proof (cases "rest = []")
    case True
    then show ?thesis using s ds by simp
  next
    case False
    have "wp (next_group sc rest concluded)
      (\<lambda>r w'. case r of
         Inl s' \<Rightarrow> (\<exists>ds'. ds @ rest = ds' @ fst s' \<and> calls_done sc (log_of w) ds' nt ns w') \<and> script_size w' \<le> script_size w
           \<and> length (fst s') < length rest
       | Inr _ \<Rightarrow> calls_done sc (log_of w) (ds @ rest) nt ns w') ?E ?W ?F w'"
      unfolding ds(1) using ds assms(2) False by (intro wp_next_group) auto
    then show ?thesis unfolding s ds(1) using False
      by simp (erule wp_mono, auto split: sum.splits)
  qed
qed (use assms calls_done_start in auto)


text \<open>
  C11. Inside an open step, the calls of one assistant message end with one \<open>tool/call\<close> and one
  \<open>tool/result\<close> each, both in model order, each result naming its call and citing its event, and
  nothing pending. An error that stops them is one of other code, or two calls share an
  identity; it leaves a prefix of the calls with a shorter prefix of their results. At every wait the same holds and at most
  \<open>maxParallelToolCalls\<close> dispatches are in flight.
\<close>

theorem tool_calls_in_order:
  assumes "log_shape (log_of w) (Some (sc_turn sc)) (Some (sc_step sc)) nt ns {}"
    and "running_at (sc_turn sc) (sc_step sc) w" and "0 < sc_max sc"
    and "cg_inFlight (lw_group w) = []"
  shows "case executeToolCalls sc calls w of
      Done _ w' \<Rightarrow> (\<exists>qs. recorded sc (log_of w) calls (length calls) (length calls) qs (log_of w'))
        \<and> log_shape (log_of w') (Some (sc_turn sc)) (Some (sc_step sc)) nt ns {}
    | Thrown x w' \<Rightarrow> call_error calls x \<and> (\<exists>j k qs. recorded sc (log_of w) calls j k qs (log_of w'))
    | Waiting w' \<Rightarrow> (\<exists>j k qs. recorded sc (log_of w) calls j k qs (log_of w'))
        \<and> length (cg_inFlight (lw_group w')) \<le> sc_max sc
    | NoFuel _ \<Rightarrow> False"
proof -
  have "wp (executeToolCalls sc calls) (\<lambda>_. calls_done sc (log_of w) calls nt ns)
    (step_failed sc (log_of w) calls nt ns (script_size w)) (step_calls sc (log_of w) calls nt ns) (\<lambda>_. False) w"
    using assms by (intro wp_executeToolCalls) (simp_all add: shaped_def)
  then show ?thesis
    by (auto simp: wp_def calls_done_def step_failed_def step_calls_def shaped_def split: run.splits)
qed

definition sample_scope :: step_scope where
  "sample_scope = \<lparr>sc_uuid = (\<lambda>n. ''u'' @ show_nat n), sc_max = 2, sc_turn = 1, sc_step = 1\<rparr>"

definition sample_calls :: "call_block list" where
  "sample_calls = [\<lparr>cb_id = ''a'', cb_name = ''read'', cb_arguments = []\<rparr>, \<lparr>cb_id = ''b'', cb_name = ''grep'', cb_arguments = []\<rparr>]"

definition sample_result :: tool_outcome where
  "sample_result = \<lparr>to_content = [], to_isError = False, to_error = None, to_meta = None, to_contexts = [], to_concludes = False\<rparr>"

definition answer :: "outside list \<Rightarrow> reply \<Rightarrow> tick" where
  "answer xs r = \<lparr>tk_outside = xs, tk_now = 0, tk_reply = r\<rparr>"

text \<open>Both calls are dispatched, the second settles first, and the results are finished in order.\<close>

definition sample_script :: "tick list" where
  "sample_script =
     [answer [] (RMode True), answer [] (RPrepared DispatchCall), answer [] RNothing, answer [] RNothing,
      answer [] (RMode True), answer [] (RPrepared DispatchCall), answer [] RNothing, answer [] RNothing,
      answer [] RNothing,
      answer [OSettle 1 (Inr (sample_result, False))] (RRace 1), answer [] RNothing, answer [] RNothing,
      answer [OSettle 0 (Inr (sample_result, False))] (RRace 0), answer [] (RResult sample_result),
      answer [] (RResult sample_result), answer [] RNothing, answer [] RNothing, answer [] RNothing]"

definition sample_world :: loop_world where
  "sample_world =
     \<lparr>lw_inbox = \<lparr>iw_log = [new_event 0 0 (TurnStart 1) None None, new_event 1 0 (StepStart 1 1) None None],
        iw_seed = 0, iw_state = empty_inbox, iw_notes = []\<rparr>,
      lw_phase = Running \<lparr>ac_abort = None, ac_turn = 1, ac_step = 1, ac_wake = False\<rparr>, lw_headerLogged = False,
      lw_context = NeverSeen,      lw_now = 0, lw_fresh = 0, lw_group = new_group 0 False, lw_requests = [], lw_script = sample_script\<rparr>"

lemmas sample_defs = sample_scope_def sample_calls_def sample_world_def sample_script_def answer_def

lemma sample_shape: "log_shape (log_of sample_world) (Some 1) (Some 1) 1 1 {}"
  by (simp add: log_shape_def sample_world_def seedSession_def shape_step_defs freshTrace_def)

lemma sample_calls_run:
  "case executeToolCalls sample_scope sample_calls sample_world of
     Done b w' \<Rightarrow> \<not> b \<and> results_of (log_of w') = [(Some ''a'', Some (JArr [JNum 2])), (Some ''b'', Some (JArr [JNum 3]))]
   | _ \<Rightarrow> False"
  by code_simp

theorem tool_calls_in_order_witness:
  "case executeToolCalls sample_scope sample_calls sample_world of
     Done _ w' \<Rightarrow> (\<exists>qs. recorded sample_scope (log_of sample_world) sample_calls 2 2 qs (log_of w'))
       \<and> results_of (log_of w') = [(Some ''a'', Some (JArr [JNum 2])), (Some ''b'', Some (JArr [JNum 3]))]
   | _ \<Rightarrow> False"
proof -
  have "cg_inFlight (lw_group sample_world) = []" by (simp add: sample_world_def new_group_def)
  moreover have "running_at 1 1 sample_world" by (simp add: running_at_def sample_world_def)
  moreover have "length sample_calls = 2" by (simp add: sample_calls_def)
  ultimately show ?thesis
    using tool_calls_in_order [of sample_world sample_scope 1 1 sample_calls] sample_shape sample_calls_run
    by (auto simp: sample_scope_def split: run.splits)
qed

end
