(* ===== verification/AgentLoop.thy ===== *)
theory AgentLoop imports ToolGroup SessionLog begin

text \<open>
  packages/core/agent-loop/src/agent.ts: the agent driver. A driver runs turns while the inbox
  holds work; a turn proposes steps from claimed input; a step derives one model request from
  the log, streams the answer into it and runs the tool calls. The services it calls answer
  through the script: prompt assembly, the hooks \<open>agent/pre-step\<close>, \<open>agent/request\<close>,
  \<open>agent/request-error\<close> and \<open>agent/turn-stopping\<close>, the route preparation and the stream. The
  notifications \<open>agent/status\<close> and \<open>agent/error\<close> are not modelled.
\<close>

section \<open>The agent\<close>

record agent_options =
  ao_provider :: "string option"
  ao_model :: "string option"
  ao_maxTokens :: "rat option"

text \<open>\<open>ae_errorText\<close> is \<open>errorChain\<close> of packages/llm/llm/src/error.ts on a thrown value.\<close>

record agent_env =
  ae_uuid :: "nat \<Rightarrow> string"
  ae_maxParallel :: nat
  ae_options :: agent_options
  ae_errorText :: "loop_error \<Rightarrow> string"

fun started_turn :: "'p event_data \<Rightarrow> int option" where
  "started_turn (TurnStart t) = Some t"
| "started_turn _ = None"

definition last_turn :: "'p event list \<Rightarrow> int" where
  "last_turn es = (case List.rev (List.map_filter (\<lambda>e. started_turn (ev_data e)) es) of [] \<Rightarrow> 0 | t # _ \<Rightarrow> t)"

definition surface_of :: "inbox_event list \<Rightarrow> fold_state" where
  "surface_of es = (case foldSurface es of Inr (st, _) \<Rightarrow> st | Inl _ \<Rightarrow> createFoldState)"

definition new_agent :: "inbox_event list \<Rightarrow> nat \<Rightarrow> tick list \<Rightarrow> inbox_error + loop_world" where
  "new_agent es seedLength script =
     rbind (replay_inbox seedLength es) (\<lambda>box.
       Inr \<lparr>lw_inbox = \<lparr>iw_log = es, iw_seed = seedLength, iw_state = box, iw_notes = []\<rparr>,
            lw_phase = Idle (last_turn es), lw_headerLogged = False, lw_context = restored (surface_of es) es,
            lw_now = 0, lw_fresh = 0, lw_group = new_group 0 False, lw_requests = [], lw_script = script\<rparr>)"

datatype agent_status = StatusIdle | StatusRunning

fun status :: "phase \<Rightarrow> agent_status" where
  "status (Running _) = StatusRunning"
| "status _ = StatusIdle"

definition followup :: "message \<Rightarrow> loop_world \<Rightarrow> inbox_error + loop_world" where
  "followup m = send m NextTurn True"

definition steer :: "message \<Rightarrow> loop_world \<Rightarrow> inbox_error + loop_world" where
  "steer m = send m NextStep True"

definition inject :: "message \<Rightarrow> loop_world \<Rightarrow> inbox_error + loop_world" where
  "inject m = send m NextStep False"

section \<open>Shared pieces\<close>

definition update_activity :: "(activity \<Rightarrow> activity) \<Rightarrow> unit loop_prog" where
  "update_activity f = modify (\<lambda>w. w\<lparr>lw_phase := map_activity f (lw_phase w)\<rparr>)"

definition current_step :: "loop_world \<Rightarrow> int" where
  "current_step w = (case phase_activity (lw_phase w) of Some a \<Rightarrow> ac_step a | None \<Rightarrow> 0)"

definition current_turn :: "loop_world \<Rightarrow> int" where
  "current_turn w =
     (case lw_phase w of Idle t \<Rightarrow> t | Maintenance a \<Rightarrow> ac_turn a | Running a \<Rightarrow> ac_turn a)"

definition inbox_of :: "loop_world \<Rightarrow> inbox" where
  "inbox_of w = iw_state (lw_inbox w)"

definition claim_input :: "inbox_target \<Rightarrow> int \<Rightarrow> message list loop_prog" where
  "claim_input target turn w =
     (case claim (lw_now w) target turn (lw_inbox w) of
        Inl x \<Rightarrow> Thrown (InboxRejected x) w
      | Inr (b, ms) \<Rightarrow> Done ms (w\<lparr>lw_inbox := b\<rparr>))"

text \<open>A call that may throw at once; an error caught as a value.\<close>

definition from_result :: "json + 'a \<Rightarrow> 'a loop_prog" where
  "from_result r = (case r of Inl e \<Rightarrow> throw (ExternalError e) | Inr a \<Rightarrow> ret a)"

definition from_assembly :: "assembly_error + 'a \<Rightarrow> 'a loop_prog" where
  "from_assembly r = (case r of Inl e \<Rightarrow> throw (AssemblyFailed e) | Inr a \<Rightarrow> ret a)"

definition attempt :: "'a loop_prog \<Rightarrow> (loop_error + 'a) loop_prog" where
  "attempt p = handle (bnd p (\<lambda>a. ret (Inr a))) (\<lambda>x. ret (Inl x))"

definition append_surface :: "inbox_splice option event_data \<Rightarrow> json option \<Rightarrow> nat loop_prog" where
  "append_surface d sources = append_with d (Some (JStr ''append'')) sources"

section \<open>Proposing a step\<close>

fun assembly_reply :: "reply \<Rightarrow> prompt_assembly option" where
  "assembly_reply (RAssembly a) = Some a"
| "assembly_reply _ = None"

text \<open>Listeners that call through leave the default decision.\<close>

fun decision_reply :: "message list \<Rightarrow> reply \<Rightarrow> step_decision option" where
  "decision_reply ms (RDecision d) = Some d"
| "decision_reply ms RNothing = Some (Enter ms)"
| "decision_reply ms _ = None"

definition preStep :: "agent_env \<Rightarrow> inbox_target \<Rightarrow> int \<Rightarrow> (step_decision \<times> prompt_assembly) loop_prog" where
  "preStep env target turn =
     bnd (claim_input target turn) (\<lambda>claimed.
     bnd (await assembly_reply) (\<lambda>assembly.
     bnd throw_if_aborted (\<lambda>_.
     bnd (from_result (pa_sections assembly)) (\<lambda>sections.
     bnd (fresh_uuid (ae_uuid env)) (\<lambda>uuid.
     bnd (read_state (\<lambda>w. projectContext (lw_context w) uuid (joinContextSections sections) sections)) (\<lambda>context.
     bnd (await (decision_reply (case context of None \<Rightarrow> claimed | Some m \<Rightarrow> claimed @ [m]))) (\<lambda>decision.
     bnd throw_if_aborted (\<lambda>_.
       ret (decision, assembly)))))))))"

section \<open>Building a request\<close>

definition requestProposal :: "epoch_header \<Rightarrow> llm_call_config" where
  "requestProposal h =
     (case eh_adapterDefaults h of
        None \<Rightarrow> eh_config h
      | Some d \<Rightarrow>
          (let c = eh_config h;
               c1 = (if ad_reasoningEffort d then c\<lparr>cfg_reasoningEffort := None\<rparr> else c)
           in if ad_maxTokens d then c1\<lparr>cfg_maxTokens := None\<rparr> else c1))"

definition log_header :: "loop_world \<Rightarrow> epoch_header option" where
  "log_header w = foldRequestHeader (log_of w) None"

definition log_context :: "loop_world \<Rightarrow> request_context option" where
  "log_context w = foldRequestContext (log_of w) None"

definition or_empty :: "string option \<Rightarrow> string" where
  "or_empty s = (case s of Some t \<Rightarrow> t | None \<Rightarrow> [])"

text \<open>The declared route, with an explicit effort restored only for this exact model.\<close>

definition declared_config :: "agent_options \<Rightarrow> epoch_header option \<Rightarrow> llm_call_config" where
  "declared_config opts persisted =
     \<lparr>cfg_provider = or_empty (ao_provider opts), cfg_model = or_empty (ao_model opts),
      cfg_reasoningEffort =
        (case persisted of
           None \<Rightarrow> None
         | Some h \<Rightarrow>
             if cfg_provider (eh_config h) = or_empty (ao_provider opts) \<and> cfg_model (eh_config h) = or_empty (ao_model opts)
                \<and> \<not> adapter_flag ad_reasoningEffort h
             then cfg_reasoningEffort (eh_config h) else None),
      cfg_temperature = None, cfg_maxTokens = ao_maxTokens opts, cfg_stop = None\<rparr>"

definition seed_config :: "agent_env \<Rightarrow> loop_world \<Rightarrow> llm_call_config" where
  "seed_config env w =
     (case (lw_headerLogged w, log_header w) of
        (True, Some h) \<Rightarrow> requestProposal h
      | (_, persisted) \<Rightarrow> declared_config (ae_options env) persisted)"

fun config_reply :: "llm_call_config \<Rightarrow> reply \<Rightarrow> llm_call_config option" where
  "config_reply c (RConfig d) = Some d"
| "config_reply c RNothing = Some c"
| "config_reply c _ = None"

fun route_reply :: "reply \<Rightarrow> prepared_route option" where
  "route_reply (RRoute r) = Some r"
| "route_reply _ = None"

text \<open>A route without an adapter is served by middleware.\<close>

fun no_adapter :: "loop_error \<Rightarrow> bool" where
  "no_adapter (LlmError f) = (get_prop ''code'' f = Some (JStr ''NO_ADAPTER''))"
| "no_adapter _ = False"

definition prepare_route :: "prepared_route option loop_prog" where
  "prepare_route =
     handle (bnd (await route_reply) (\<lambda>r. ret (Some r))) (\<lambda>x. if no_adapter x then ret None else throw x)"

definition request_header :: "llm_call_config \<Rightarrow> prepared_route option \<Rightarrow> string \<Rightarrow> tool_schema list \<Rightarrow> epoch_header" where
  "request_header c route sys tools =
     canonicalHeader
       \<lparr>eh_config = c, eh_adapterDefaults = Option.bind route pr_defaults,
        eh_system = (if sys = [] then None else Some sys), eh_tools = (if tools = [] then None else Some tools)\<rparr>"

definition log_request_header :: "epoch_header \<Rightarrow> unit loop_prog" where
  "log_request_header h =
     bnd (read_state log_header) (\<lambda>baseline.
     bnd (read_state lw_headerLogged) (\<lambda>logged.
       if \<not> logged then
         bnd (append (RequestHeader h (if baseline = None then HeaderInitial else HeaderResume))) (\<lambda>_.
           modify (\<lambda>w. w\<lparr>lw_headerLogged := True\<rparr>))
       else if (case baseline of None \<Rightarrow> True | Some b \<Rightarrow> \<not> headerEquals b h)
         then bnd (append (RequestHeader h HeaderChange)) (\<lambda>_. ret ())
       else ret ()))"

definition log_request_context :: "request_context \<Rightarrow> unit loop_prog" where
  "log_request_context c =
     bnd (read_state log_context) (\<lambda>previous.
       if previous \<noteq> Some c then bnd (append (RequestContext c)) (\<lambda>_. ret ()) else ret ())"

definition buildRequest ::
  "agent_env \<Rightarrow> tool_schema list \<Rightarrow> string \<Rightarrow> message list \<Rightarrow> llm_request loop_prog" where
  "buildRequest env tools sys boundary =
     bnd (read_state (seed_config env)) (\<lambda>seed.
     bnd (await (config_reply seed)) (\<lambda>proposed.
     bnd throw_if_aborted (\<lambda>_.
     bnd (if cfg_provider proposed = [] \<or> cfg_model proposed = [] then throw MissingRoute else ret ()) (\<lambda>_.
     bnd prepare_route (\<lambda>route.
     bnd throw_if_aborted (\<lambda>_.
       let c = (case route of Some r \<Rightarrow> pr_config r | None \<Rightarrow> proposed);
           h = request_header c route sys tools
       in bnd (log_request_header h) (\<lambda>_.
          bnd (log_request_context \<lparr>rc_provider = cfg_provider c, rc_model = cfg_model c,
                 rc_contextWindow = Option.bind route pr_contextWindow\<rparr>) (\<lambda>_.
          bnd throw_if_aborted (\<lambda>_.
            ret \<lparr>lr_header = h, lr_messages = boundary\<rparr>)))))))))"


section \<open>One step\<close>

fun block_json :: "content_block \<Rightarrow> json" where
  "block_json (TextBlock t) = JObj [(''type'', JStr ''text''), (''text'', JStr t)]"
| "block_json (ReasoningBlock t) = JObj [(''type'', JStr ''reasoning''), (''text'', JStr t)]"
| "block_json (ImageBlock v) = v"
| "block_json (ToolCallBlock i n a) =
     JObj [(''type'', JStr ''tool-call''), (''id'', JStr i), (''name'', JStr n), (''arguments'', JStr a)]"
| "block_json (ToolResultBlock c bs e) =
     JObj ([(''type'', JStr ''tool-result''), (''toolCallId'', JStr c), (''content'', JArr (map block_json bs))]
       @ (case e of None \<Rightarrow> [] | Some b \<Rightarrow> [(''isError'', JBool b)]))"
| "block_json (PluginBlock t v) = v"

fun finish_json :: "finish_reason \<Rightarrow> json" where
  "finish_json FinStop = JObj [(''kind'', JStr ''stop'')]"
| "finish_json FinToolCalls = JObj [(''kind'', JStr ''tool-calls'')]"
| "finish_json FinMaxTokens = JObj [(''kind'', JStr ''max-tokens'')]"
| "finish_json (FinAborted f) = JObj [(''kind'', JStr ''aborted''), (''failure'', f)]"
| "finish_json (FinError f) = JObj [(''kind'', JStr ''error''), (''failure'', f)]"
| "finish_json (FinPlugin k v) = v"

definition replay_json :: "replay_envelope \<Rightarrow> json" where
  "replay_json e = JObj ([(''response'', re_response e)]
     @ (case re_blocks e of None \<Rightarrow> [] | Some bs \<Rightarrow> [(''blocks'', JArr bs)]))"

fun chunk_json :: "stream_chunk \<Rightarrow> json" where
  "chunk_json (ChBlockStart i t) =
     JObj [(''type'', JStr ''block-start''), (''index'', JInt (int i)), (''blockType'', JStr t)]"
| "chunk_json (ChTextDelta i t) =
     JObj [(''type'', JStr ''text-delta''), (''index'', JInt (int i)), (''text'', JStr t)]"
| "chunk_json (ChReasoningDelta i t) =
     JObj [(''type'', JStr ''reasoning-delta''), (''index'', JInt (int i)), (''text'', JStr t)]"
| "chunk_json (ChToolCallDelta i c n a) =
     JObj ([(''type'', JStr ''tool-call-delta''), (''index'', JInt (int i)), (''id'', JStr c)]
       @ (case n of None \<Rightarrow> [] | Some m \<Rightarrow> [(''name'', JStr m)]) @ [(''argumentsDelta'', JStr a)])"
| "chunk_json (ChBlockEnd i b) =
     JObj [(''type'', JStr ''block-end''), (''index'', JInt (int i)), (''block'', block_json b)]"
| "chunk_json (ChUsage u) = JObj [(''type'', JStr ''usage''), (''usage'', u)]"
| "chunk_json (ChFinish r e) =
     JObj ([(''type'', JStr ''finish''), (''reason'', finish_json r)]
       @ (case e of None \<Rightarrow> [] | Some env \<Rightarrow> [(''replayState'', replay_json env)]))"

definition derived_messages :: "inbox_event list \<Rightarrow> message list" where
  "derived_messages es = project es (nodes (surface_of es))"

fun chunk_reply :: "reply \<Rightarrow> stream_chunk option option" where
  "chunk_reply (RChunk c) = Some c"
| "chunk_reply _ = None"

fun nothing_reply :: "reply \<Rightarrow> unit option" where
  "nothing_reply RNothing = Some ()"
| "nothing_reply _ = None"

fun retry_reply :: "reply \<Rightarrow> bool option" where
  "retry_reply (RRetry b) = Some b"
| "retry_reply _ = None"

definition seqs_json :: "nat list \<Rightarrow> json" where
  "seqs_json seqs = JArr (map (\<lambda>s. JInt (int s)) seqs)"

text \<open>One chunk: logged, then assembled. The stream ends, or fails with an error.\<close>

definition take_chunk :: "int \<Rightarrow> int \<Rightarrow> assembler \<times> nat list
    \<Rightarrow> (assembler \<times> nat list + assembler \<times> nat list \<times> loop_error option) loop_prog" where
  "take_chunk turn step s =
     (case s of (a, seqs) \<Rightarrow>
       bnd (attempt (bnd (await chunk_reply) (\<lambda>c.
            case c of
              None \<Rightarrow> bnd throw_if_aborted (\<lambda>_. ret None)
            | Some chunk \<Rightarrow>
                bnd throw_if_aborted (\<lambda>_.
                bnd (append (AssistantChunk turn step (chunk_json chunk))) (\<lambda>seq.
                  ret (Some (chunk, seq)))))))
         (\<lambda>r. ret (case r of
             Inl x \<Rightarrow> Inr (a, seqs, Some x)
           | Inr None \<Rightarrow> Inr (a, seqs, None)
           | Inr (Some (chunk, seq)) \<Rightarrow> Inl (push a chunk, seqs @ [seq]))))"

definition consume_stream :: "int \<Rightarrow> int \<Rightarrow> (assembler \<times> nat list \<times> loop_error option) loop_prog" where
  "consume_stream turn step =
     bnd (attempt (bnd (ask nothing_reply) (\<lambda>_. throw_if_aborted))) (\<lambda>r.
       case r of
         Inl x \<Rightarrow> ret (newAssembler, [], Some x)
       | Inr _ \<Rightarrow> bnd (read_state script_size) (\<lambda>n.
           loop_do (Suc n) (take_chunk turn step) (newAssembler, [])))"

definition assistant_message ::
  "agent_env \<Rightarrow> content_block list \<Rightarrow> llm_call_config \<Rightarrow> json option \<Rightarrow> message loop_prog" where
  "assistant_message env content c replay =
     bnd (fresh_uuid (ae_uuid env)) (\<lambda>uuid.
       ret (createAssistantMessage uuid content (cfg_provider c) (cfg_model c) replay))"

text \<open>The visible part of an aborted answer is kept, then the error continues.\<close>

definition interrupted ::
  "agent_env \<Rightarrow> int \<Rightarrow> int \<Rightarrow> llm_call_config \<Rightarrow> assembler \<Rightarrow> nat list \<Rightarrow> loop_error \<Rightarrow> 'a loop_prog" where
  "interrupted env turn step c a seqs x =
     bnd signal_aborted (\<lambda>aborted.
     bnd (if \<not> aborted then ret ()
          else bnd (from_assembly (interruptedBlocks a)) (\<lambda>content.
            if content = [] then ret ()
            else bnd (assistant_message env content c None) (\<lambda>m.
                 bnd (append_surface (AssistantMessage turn step m (as_usage a) True) (Some (seqs_json seqs))) (\<lambda>_.
                   ret ())))) (\<lambda>_.
       throw x))"

definition tool_calls :: "message \<Rightarrow> call_block list" where
  "tool_calls m = List.map_filter tool_call_block (msg_content m)"

definition step_scope_of :: "agent_env \<Rightarrow> int \<Rightarrow> int \<Rightarrow> step_scope" where
  "step_scope_of env turn step =
     \<lparr>sc_uuid = ae_uuid env, sc_max = ae_maxParallel env, sc_turn = turn, sc_step = step\<rparr>"

definition complete_answer ::
  "agent_env \<Rightarrow> int \<Rightarrow> int \<Rightarrow> llm_call_config \<Rightarrow> assembler \<Rightarrow> nat list \<Rightarrow> turn_end_reason option loop_prog" where
  "complete_answer env turn step c a seqs =
     bnd (from_assembly (blocks a)) (\<lambda>content.
     bnd (from_assembly (replayState a)) (\<lambda>replay.
     bnd (assistant_message env content c (map_option replay_json replay)) (\<lambda>m.
     bnd (append_surface (AssistantMessage turn step m (as_usage a) False) (Some (seqs_json seqs))) (\<lambda>_.
       if finish a = FinMaxTokens then ret (Some MaxTokens)
       else if tool_calls m = [] then ret (Some Completed)
       else bnd (awaited (executeToolCalls (step_scope_of env turn step) (tool_calls m))) (\<lambda>concluded.
         ret (if concluded then Some Completed else None))))))"

fun finish_failure :: "finish_reason \<Rightarrow> json option" where
  "finish_failure (FinError f) = Some f"
| "finish_failure (FinAborted f) = Some f"
| "finish_failure _ = None"

text \<open>One model request. A failed one is repeated when a listener owns the recovery.\<close>

definition one_request ::
  "agent_env \<Rightarrow> int \<Rightarrow> int \<Rightarrow> tool_schema list \<Rightarrow> string \<Rightarrow> (unit + turn_end_reason option) loop_prog" where
  "one_request env turn step tools sys =
     bnd (read_state (\<lambda>w. derived_messages (log_of w))) (\<lambda>boundary.
     bnd (awaited (buildRequest env tools sys boundary)) (\<lambda>request.
     bnd (modify (\<lambda>w. w\<lparr>lw_requests := lw_requests w @ [request]\<rparr>)) (\<lambda>_.
     bnd (consume_stream turn step) (\<lambda>(a, seqs, failed).
       let c = eh_config (lr_header request)
       in case failed of
            Some x \<Rightarrow> interrupted env turn step c a seqs x
          | None \<Rightarrow>
              (case finish_failure (finish a) of
                 Some f \<Rightarrow>
                   bnd (await retry_reply) (\<lambda>retry.
                   bnd throw_if_aborted (\<lambda>_.
                     if retry then ret (Inl ()) else throw (LlmError f)))
               | None \<Rightarrow> bnd (complete_answer env turn step c a seqs) (\<lambda>r. ret (Inr r)))))))"

definition agent_step :: "agent_env \<Rightarrow> prompt_assembly \<Rightarrow> turn_end_reason option loop_prog" where
  "agent_step env assembly =
     bnd (read_state current_turn) (\<lambda>turn.
     bnd (read_state current_step) (\<lambda>step.
     bnd throw_if_aborted (\<lambda>_.
     bnd (from_result (pa_system assembly)) (\<lambda>sys.
     bnd (read_state script_size) (\<lambda>n.
       loop_do (Suc n) (\<lambda>_. one_request env turn step (pa_tools assembly) sys) ())))))"

section \<open>One turn\<close>

definition append_input :: "message list \<Rightarrow> unit loop_prog" where
  "append_input ms = for_each (\<lambda>m. bnd (append_surface (UserMessage m) None) (\<lambda>_. ret ())) ms"

text \<open>Once a step hit the output ceiling, later steps do not downgrade the outcome.\<close>

definition sticky :: "turn_end_reason option \<Rightarrow> turn_end_reason option \<Rightarrow> turn_end_reason option" where
  "sticky ends stepEnd = (if ends = None \<or> ends \<noteq> Some MaxTokens then stepEnd else ends)"

definition no_next_step :: "loop_world \<Rightarrow> bool" where
  "no_next_step w \<longleftrightarrow> ib_nextStep (inbox_of w) = []"

text \<open>A committed step, closed on every path.\<close>

definition run_step ::
  "agent_env \<Rightarrow> int \<Rightarrow> int \<Rightarrow> message list \<Rightarrow> prompt_assembly \<Rightarrow> turn_end_reason option loop_prog" where
  "run_step env turn step ms assembly =
     bnd throw_if_aborted (\<lambda>_.
     bnd (append (StepStart turn step)) (\<lambda>_.
     bnd (update_activity (\<lambda>a. a\<lparr>ac_step := step\<rparr>)) (\<lambda>_.
       finally_do
         (bnd (append_input ms) (\<lambda>_. awaited (agent_step env assembly)))
         (bnd (append (StepEnd turn step)) (\<lambda>_. ret ())))))"

text \<open>
  One round of the turn's loop. It leaves with the turn's end and whether \<open>turn\<close> returns
  without looking at the queue.
\<close>

definition turn_round :: "agent_env \<Rightarrow> int \<Rightarrow> turn_end_reason option \<times> inbox_target
    \<Rightarrow> (turn_end_reason option \<times> inbox_target + turn_end_reason \<times> bool) loop_prog" where
  "turn_round env turn s =
     (case s of (ends, target) \<Rightarrow>
       bnd throw_if_aborted (\<lambda>_.
       bnd (read_state (\<lambda>w. current_step w + 1)) (\<lambda>step.
       bnd (awaited (preStep env target turn)) (\<lambda>(decision, assembly).
         case decision of
           Reject \<Rightarrow> ret (Inr (Blocked, True))
         | Enter ms \<Rightarrow>
             if ends \<noteq> None \<and> ms = [] then ret (Inr (the ends, False))
             else if step = 1 \<and> ms = [] then ret (Inr (Completed, True))
             else
               bnd (run_step env turn step ms assembly) (\<lambda>stepEnd.
               bnd throw_if_aborted (\<lambda>_.
               let ends' = sticky ends stepEnd
               in bnd (read_state no_next_step) (\<lambda>quiet.
                  bnd (if ends' \<noteq> None \<and> quiet
                       then bnd (await nothing_reply) (\<lambda>_. throw_if_aborted) else ret ()) (\<lambda>_.
                  bnd (read_state no_next_step) (\<lambda>still.
                    ret (if ends' \<noteq> None \<and> still then Inr (the ends', False) else Inl (ends', NextStep)))))))))))"

definition failure_reason :: "agent_env \<Rightarrow> loop_error \<Rightarrow> loop_world \<Rightarrow> turn_end_reason" where
  "failure_reason env x w =
     (case abort_reason w of
        Some cause \<Rightarrow> Aborted cause
      | None \<Rightarrow>
          Failed (case x of
            LlmError f \<Rightarrow> f
          | _ \<Rightarrow> JObj [(''message'', JStr (ae_errorText env x)), (''code'', JStr ''UNKNOWN'')]))"

definition close_turn :: "int \<Rightarrow> turn_end_reason \<Rightarrow> unit loop_prog" where
  "close_turn turn reason = bnd (append (TurnEnd turn reason)) (\<lambda>_. ret ())"

text \<open>The queue decides whether the driver goes on, with a fresh abort signal.\<close>

definition next_turn :: "bool loop_prog" where
  "next_turn =
     bnd (read_state (\<lambda>w. hasPending (inbox_of w))) (\<lambda>pending.
       if \<not> pending then ret False
       else bnd (update_activity (\<lambda>a. a\<lparr>ac_abort := None, ac_wake := False, ac_step := 0\<rparr>)) (\<lambda>_. ret True))"

definition agent_turn :: "agent_env \<Rightarrow> bool loop_prog" where
  "agent_turn env =
     bnd throw_if_aborted (\<lambda>_.
     bnd (read_state (\<lambda>w. current_turn w + 1)) (\<lambda>turn.
     bnd (append (TurnStart turn)) (\<lambda>_.
     bnd (update_activity (\<lambda>a. a\<lparr>ac_turn := turn\<rparr>)) (\<lambda>_.
     bnd (read_state script_size) (\<lambda>n.
     bnd (handle
            (loop_do (Suc n) (turn_round env turn) (None, NextTurn))
            (\<lambda>x. bnd (read_state (failure_reason env x)) (\<lambda>reason.
                 bnd (close_turn turn reason) (\<lambda>_. throw x)))) (\<lambda>(reason, returned).
     bnd (close_turn turn reason) (\<lambda>_.
       if returned then ret False else next_turn)))))))"

section \<open>The driver\<close>

text \<open>Failures are contained; a latched wake is replayed when the queue still holds work.\<close>

definition converge :: "loop_world \<Rightarrow> loop_world" where
  "converge w =
     (case lw_phase w of
        Running a \<Rightarrow>
          (let w' = w\<lparr>lw_phase := Idle (ac_turn a)\<rparr>
           in if ac_wake a \<and> hasPending (inbox_of w) then wakeDriver False w' else w')
      | _ \<Rightarrow> w)"

definition kick :: "agent_env \<Rightarrow> unit loop_prog" where
  "kick env =
     bnd (handle
            (bnd (read_state script_size) (\<lambda>n.
               loop_do (Suc n) (\<lambda>_. bnd (awaited (agent_turn env)) (\<lambda>more. ret (if more then Inl () else Inr ()))) ()))
            (\<lambda>_. ret ()))
       (\<lambda>_. modify converge)"

text \<open>Every driver in turn, until no wake starts another.\<close>

definition drive :: "agent_env \<Rightarrow> unit loop_prog" where
  "drive env =
     bnd (read_state script_size) (\<lambda>n.
       loop_do (Suc n) (\<lambda>_.
         bnd (read_state (\<lambda>w. is_idle (lw_phase w))) (\<lambda>idle.
           if idle then ret (Inr ()) else bnd (kick env) (\<lambda>_. ret (Inl ())))) ())"

definition end_maintenance :: "loop_world \<Rightarrow> loop_world" where
  "end_maintenance w =
     (case lw_phase w of
        Maintenance a \<Rightarrow>
          (let w' = w\<lparr>lw_phase := Idle (ac_turn a)\<rparr>
           in if ac_wake a \<and> hasPending (inbox_of w) then wakeDriver False w' else w')
      | _ \<Rightarrow> w)"

definition runMaintenance :: "unit loop_prog" where
  "runMaintenance =
     bnd (read_state lw_phase) (\<lambda>p.
       case p of
         Idle t \<Rightarrow>
           bnd (modify (\<lambda>w. w\<lparr>lw_phase := Maintenance \<lparr>ac_abort = None, ac_turn = t, ac_step = 0, ac_wake = False\<rparr>\<rparr>)) (\<lambda>_.
             finally_do (await nothing_reply) (modify end_maintenance))
       | _ \<Rightarrow> throw (ExternalError (JStr ''agent already has active work'')))"

end
