(* ===== verification/LoopKeeps.thy ===== *)
theory LoopKeeps imports AgentLoop begin

text \<open>
  What every program of the loop keeps. The locale \<open>bystander\<close> is the contract of a predicate
  on the driver's world that other code, appends, inbox claims and the driver's own bookkeeping
  leave alone; each program then keeps it in every outcome. Two predicates meet it: the log
  only grows, and every request the model received can be derived from the log.
\<close>

section \<open>Predicates the loop's programs keep\<close>

lemma splice_grows: "splice_inbox t st n ms w = Inr w' \<Longrightarrow>
  \<exists>b. w' = w\<lparr>lw_inbox := b\<rparr> \<and> grows_foreign (log_of w) (iw_log b)"
  by (auto simp: splice_inbox_def inbox_splice_op_def result_simps dest: mutate_grows)

lemma converge_script: "script_size (converge w) = script_size w"
  by (auto simp: converge_def script_size_def Let_def split: phase.split)

lemma keeps_decision [keeps_intros]:
  "keeps I p \<Longrightarrow> (\<And>ms. keeps I (f ms)) \<Longrightarrow> keeps I (case d of Reject \<Rightarrow> p | Enter ms \<Rightarrow> f ms)"
  by (cases d) simp_all

locale bystander =
  fixes I :: "loop_world \<Rightarrow> bool"
  assumes stable: "stable I"
    and commit: "I w \<Longrightarrow> I (commit_event e w)"
    and inbox: "I w \<Longrightarrow> grows_foreign (log_of w) (iw_log b) \<Longrightarrow> I (w\<lparr>lw_inbox := b\<rparr>)"
    and group: "I w \<Longrightarrow> I (w\<lparr>lw_group := g\<rparr>)"
    and phase: "I w \<Longrightarrow> I (w\<lparr>lw_phase := p\<rparr>)"
    and fresh: "I w \<Longrightarrow> I (w\<lparr>lw_fresh := n\<rparr>)"
    and logged: "I w \<Longrightarrow> I (w\<lparr>lw_headerLogged := l\<rparr>)"
begin

lemma keeps_wait [keeps_intros]: "keeps I (await f)" "keeps I (ask f)" "keeps I pause"
proof -
  show "keeps I pause"
    by (rule keepsI, rule wp_mono [OF wp_pause [OF stable]]) auto
qed (rule keeps_await keeps_ask, rule stable)+

lemma keeps_basic [keeps_intros]:
  "keeps I (fresh_uuid u)" "keeps I (update_group h)" "keeps I signal_aborted"
  "keeps I (update_activity a)" "keeps I (from_result r)" "keeps I (from_assembly s)"
  "keeps I (modify (\<lambda>w. w\<lparr>lw_headerLogged := l\<rparr>))"
  by (auto simp: keeps_def update_group_def signal_aborted_def update_activity_def from_result_def from_assembly_def
      group phase fresh logged split: sum.split)

lemma keeps_append [keeps_intros]: "keeps I (append_with d op src)"
  by (rule keepsI) (auto simp: wp_def append_with_def Let_def commit split: sum.split)

lemma keeps_accept [keeps_intros]: "keeps I (accept_context m)"
  by (rule keepsI) (auto simp: wp_def accept_context_def split: sum.split dest!: splice_grows intro: inbox)

lemma keeps_claim [keeps_intros]: "keeps I (claim_input t turn)"
  by (rule keepsI) (auto simp: wp_def claim_input_def split: sum.split dest!: claim_grows intro: inbox)

lemma keeps_awaited [keeps_intros]: "keeps I p \<Longrightarrow> keeps I (awaited p)"
  unfolding awaited_def by (intro keeps_intros)

lemma keeps_settled [keeps_intros]: "keeps I race_settled" "keeps I all_settled"
  unfolding race_settled_def all_settled_def by (intro keeps_bnd keeps_intros; simp add: keeps_def wp_def)+

lemma keeps_group [keeps_intros]:
  "keeps I throwSchedulerFailure" "keeps I latch_abort" "keeps I (appendSkippedToolCall sc c)" "keeps I (commitReady sc cs)"
  unfolding throwSchedulerFailure_def latch_abort_def appendSkippedToolCall_def appendToolCall_def appendToolResult_def
    commitReady_def commit_slot_def commit_result_def
  by (intro keeps_intros)+

lemma keeps_fill [keeps_intros]: "keeps I (fillPool sc parallel cs)"
  unfolding fillPool_def start_next_def startCall_def barrier_next_def appendToolCall_def by (intro keeps_intros)

lemma keeps_tools [keeps_intros]: "keeps I (executeToolCalls sc calls)"
  unfolding executeToolCalls_def next_group_def runGroup_def run_pool_def drainPool_def drain_round_def
    scheduler_failed_def group_result_def Let_def
  by (intro keeps_intros)

lemma keeps_build [keeps_intros]: "keeps I (buildRequest env tools sys boundary)"
  unfolding buildRequest_def prepare_route_def log_request_header_def log_request_context_def Let_def
  by (intro keeps_intros)

lemma keeps_stream [keeps_intros]: "keeps I (consume_stream turn step)"
  unfolding consume_stream_def take_chunk_def attempt_def by (intro keeps_intros)

lemma keeps_complete [keeps_intros]:
  "keeps I (complete_answer env turn step c a seqs)" "keeps I (interrupted env turn step c a seqs x)"
  unfolding interrupted_def complete_answer_def assistant_message_def append_surface_def by (intro keeps_intros)+

lemma keeps_converge [keeps_intros]: "keeps I (modify converge)"
proof (rule keeps_modify)
  fix w assume "I w"
  then show "I (converge w)" by (auto simp: converge_def wakeDriver_def Let_def phase split: phase.splits)
qed

end

text \<open>A predicate one model request keeps as well is kept by the whole driver.\<close>

locale record_keeper = bystander +
  assumes request: "keeps I (one_request env turn step tools sys)"
begin

lemma keeps_step [keeps_intros]: "keeps I (agent_step env assembly)"
  unfolding agent_step_def by (intro keeps_intros request)

lemma keeps_turn [keeps_intros]: "keeps I (agent_turn env)"
  unfolding agent_turn_def turn_round_def preStep_def run_step_def append_input_def append_surface_def close_turn_def
    next_turn_def Let_def
  by (intro keeps_intros)

lemma keeps_drive: "keeps I (drive env)"
  unfolding drive_def kick_def by (intro keeps_intros)

end

section \<open>The log only grows\<close>

text \<open>The log extends \<open>es\<close>, and at most \<open>n\<close> answers are left.\<close>

definition since :: "inbox_event list \<Rightarrow> nat \<Rightarrow> loop_world \<Rightarrow> bool" where
  "since es n w \<longleftrightarrow> (\<exists>fs. log_of w = es @ fs) \<and> script_size w \<le> n"

lemma since_refl: "since (log_of w) (script_size w) w"
  by (simp add: since_def)

lemma send_grows: "send m t b w = Inr w' \<Longrightarrow> grows_foreign (log_of w) (log_of w')"
  by (auto simp: send_def Let_def result_simps split: if_splits dest!: splice_grows)

lemma cancel_grows: "cancel c k w = Inr w' \<Longrightarrow> grows_foreign (log_of w) (log_of w')"
  by (auto simp: cancel_def result_simps split: if_splits dest: inbox_clear_grows)

lemma happen_grows: "\<exists>fs. log_of (happen x w) = log_of w @ fs"
proof (cases x)
  case (OSend m t b)
  then show ?thesis using send_grows [of m t b w] by (cases "send m t b w") (auto simp: or_same_def grows_foreign_def)
next
  case (OCancel c k)
  then show ?thesis using cancel_grows [of c k w] by (cases "cancel c k w") (auto simp: or_same_def grows_foreign_def)
next
  case (OSplice t st n ms)
  then show ?thesis
    using splice_grows [of t st n ms w] by (cases "splice_inbox t st n ms w") (auto simp: or_same_def grows_foreign_def)
next
  case (OAppend d op src)
  then show ?thesis by (auto simp: append_with_def Let_def split: run.splits sum.splits if_splits)
qed simp

lemma stable_since: "stable (since es n)"
proof (rule stableI)
  fix w x assume "since es n w"
  then show "since es n (happen x w)"
    using happen_grows [of x w] by (auto simp: since_def script_size_def happen_script)
qed (auto simp: since_def script_size_def)

interpretation growing: bystander "since es n" for es n
  by unfold_locales (auto simp: stable_since, auto simp: since_def grows_foreign_def script_size_def)

lemma since_request: "keeps (since es n) (one_request env turn step tools sys)"
proof -
  have "keeps (since es n) (modify (\<lambda>w. w\<lparr>lw_requests := lw_requests w @ [r]\<rparr>))" for r
    by (simp add: keeps_def since_def script_size_def)
  then show ?thesis unfolding one_request_def Let_def by (intro keeps_intros)
qed

interpretation grow: record_keeper "since es n" for es n
  by unfold_locales (rule since_request)

section \<open>Requests derive from the log\<close>

text \<open>
  The messages of a request are those the log derives at some point, and its header is the
  one in force at a later point.
\<close>

definition derivable :: "inbox_event list \<Rightarrow> llm_request \<Rightarrow> bool" where
  "derivable es r \<longleftrightarrow> (\<exists>as bs cs. es = as @ bs @ cs \<and> lr_messages r = derived_messages as
     \<and> foldRequestHeader (as @ bs) None = Some (lr_header r))"

definition requests_recorded :: "loop_world \<Rightarrow> bool" where
  "requests_recorded w \<longleftrightarrow> list_all (derivable (log_of w)) (lw_requests w)"

lemma derivable_grows: "derivable es r \<Longrightarrow> derivable (es @ fs) r"
  unfolding derivable_def by fastforce

lemma recorded_grows: "requests_recorded w \<Longrightarrow> lw_requests w' = lw_requests w \<Longrightarrow> log_of w' = log_of w @ fs \<Longrightarrow> requests_recorded w'"
  by (auto simp: requests_recorded_def list_all_iff intro: derivable_grows)

lemma splice_requests: "splice_inbox t st n ms w = Inr w' \<Longrightarrow> lw_requests w' = lw_requests w"
  by (auto simp: splice_inbox_def result_simps)

lemma wake_requests [simp]: "lw_requests (wakeDriver b w) = lw_requests w"
  by (auto simp: wakeDriver_def split: phase.splits)

lemma happen_requests [simp]: "lw_requests (happen x w) = lw_requests w"
proof (cases x)
  case (OSend m t b)
  then show ?thesis
    by (auto simp: or_same_def send_def Let_def result_simps split: sum.splits dest: splice_requests)
next
  case (OCancel c k)
  then show ?thesis by (auto simp: or_same_def cancel_def result_simps split: sum.splits if_splits)
next
  case (OSplice t st n ms)
  then show ?thesis by (auto simp: or_same_def split: sum.splits dest: splice_requests)
next
  case (OAppend d op src)
  then show ?thesis by (auto simp: append_with_def Let_def split: run.splits sum.splits if_splits)
qed simp

interpretation recorded_requests: bystander requests_recorded
proof unfold_locales
  show "stable requests_recorded"
  proof (rule stableI)
    fix w x assume "requests_recorded w"
    then show "requests_recorded (happen x w)"
      using happen_grows [of x w] by (auto intro: recorded_grows)
  qed (simp add: requests_recorded_def)
next
  fix w :: loop_world and b :: inbox_world
  assume "requests_recorded w" "grows_foreign (log_of w) (iw_log b)"
  then show "requests_recorded (w\<lparr>lw_inbox := b\<rparr>)"
    by (auto simp: grows_foreign_def intro: recorded_grows)
qed (auto simp: requests_recorded_def list_all_iff intro: derivable_grows)

text \<open>The header of a built request is in force when it is built.\<close>

lemma folded_canonical: "foldRequestHeader es None = Some h \<Longrightarrow> canonicalHeader h = h"
proof (induction es rule: rev_induct)
  case (snoc e es)
  then show ?case
    by (cases "ev_data e") (auto simp: foldRequestHeader_append canonicalHeader_idem)
qed simp

lemma wp_log_header:
  assumes "canonicalHeader h = h"
  shows "wp (log_request_header h) (\<lambda>_ w'. log_header w' = Some h) (\<lambda>_ _. True) (\<lambda>_. True) (\<lambda>_. True) w"
proof -
  have new: "wp (append (RequestHeader h r)) (\<lambda>_ w'. log_header w' = Some h) (\<lambda>_ _. True) (\<lambda>_. True) (\<lambda>_. True) w" for r
    using assms
    by (simp add: wp_def append_with_def Let_def log_header_def foldRequestHeader_append new_event_def split: sum.split)
  have same: "b = h" if "log_header w = Some b" "headerEquals b h" for b
    using that headerEquals_canonical [of b h] assms folded_canonical [of "log_of w" b]
    unfolding log_header_def by metis
  have upd: "log_header (w\<lparr>lw_headerLogged := l\<rparr>) = log_header w" for w l
    by (simp add: log_header_def)
  show ?thesis
  proof (cases "lw_headerLogged w")
    case False
    let ?p = "bnd (append (RequestHeader h (if log_header w = None then HeaderInitial else HeaderResume)))
      (\<lambda>_. modify (\<lambda>w. w\<lparr>lw_headerLogged := True\<rparr>))"
    have "wp ?p (\<lambda>_ w'. log_header w' = Some h) (\<lambda>_ _. True) (\<lambda>_. True) (\<lambda>_. True) w"
      unfolding wp_bnd by (rule wp_mono [OF new]) (simp_all add: upd)
    moreover have "log_request_header h w = ?p w"
      using False by (simp add: log_request_header_def bnd_def read_state_def)
    ultimately show ?thesis by (simp only: wp_def)
  next
    case logged: True
    show ?thesis
    proof (cases "case log_header w of None \<Rightarrow> True | Some b \<Rightarrow> \<not> headerEquals b h")
      case True
      with logged show ?thesis unfolding log_request_header_def by (simp add: new)
    next
      case False
      then obtain b where b: "log_header w = Some b" "headerEquals b h"
        by (auto simp del: headerEquals.simps split: option.splits)
      then have "b = h" by (rule same)
      with b logged show ?thesis
        unfolding log_request_header_def by (simp del: headerEquals.simps add: headerEquals_refl)
    qed
  qed
qed

lemma keeps_header_abort: "keeps (\<lambda>w. log_header w = Some h) (log_request_context c)"
proof -
  have "keeps (\<lambda>w. log_header w = Some h) (append (RequestContext c))"
    by (rule keepsI) (simp add: wp_def append_with_def Let_def log_header_def foldRequestHeader_append new_event_def split: sum.split)
  then show ?thesis unfolding log_request_context_def by (intro keeps_intros)
qed

lemma wp_any: "(\<And>a. \<And>w. wp (f a) Q (\<lambda>_ _. True) (\<lambda>_. True) (\<lambda>_. True) w) \<Longrightarrow> wp (bnd p f) Q (\<lambda>_ _. True) (\<lambda>_. True) (\<lambda>_. True) w"
  by (simp add: wp_def bnd_def split: run.splits)

lemma wp_buildRequest:
  "wp (buildRequest env tools sys boundary)
     (\<lambda>r w'. log_header w' = Some (lr_header r) \<and> lr_messages r = boundary) (\<lambda>_ _. True) (\<lambda>_. True) (\<lambda>_. True) w"
proof -
  let ?Q = "\<lambda>h w. log_header w = Some h"
  have finish: "wp (bnd (log_request_context c) (\<lambda>_. bnd throw_if_aborted (\<lambda>_. ret \<lparr>lr_header = h, lr_messages = boundary\<rparr>)))
      (\<lambda>r w'. ?Q (lr_header r) w' \<and> lr_messages r = boundary) (\<lambda>_ _. True) (\<lambda>_. True) (\<lambda>_. True) w'" if "?Q h w'" for c h w'
    unfolding wp_bnd
    by (rule wp_mono [OF keepsD [OF keeps_header_abort that]]) (auto intro: wp_throw_if_aborted)
  have canon: "canonicalHeader (request_header c route sys tools) = request_header c route sys tools" for c route
    by (simp add: request_header_def canonicalHeader_idem)
  have logged: "wp (bnd (log_request_header (request_header c route sys tools)) (\<lambda>_.
          bnd (log_request_context d) (\<lambda>_.
          bnd throw_if_aborted (\<lambda>_.
            ret \<lparr>lr_header = request_header c route sys tools, lr_messages = boundary\<rparr>))))
      (\<lambda>r w'. ?Q (lr_header r) w' \<and> lr_messages r = boundary) (\<lambda>_ _. True) (\<lambda>_. True) (\<lambda>_. True) w'" for c d route w'
    unfolding wp_bnd [of "log_request_header _"]
    by (rule wp_mono [OF wp_log_header [OF canon]]; (rule finish, assumption)?) simp_all
  show ?thesis unfolding buildRequest_def Let_def
    by (rule wp_any, rule wp_any, rule wp_any, rule wp_any, rule wp_any, rule wp_any, rule logged)
qed

lemma force_now:
  assumes "log_of w = as @ fs" and "foldRequestHeader (log_of w) None = Some h" and "ms = derived_messages as"
  shows "\<exists>bs cs. log_of w = as @ bs @ cs \<and> foldRequestHeader (as @ bs) None = Some h \<and> ms = derived_messages as"
  using assms by (intro exI [of _ fs] exI [of _ "[]"]) simp

lemma recorded_request: "keeps requests_recorded (one_request env turn step tools sys)"
proof (rule keepsI)
  fix w assume w: "requests_recorded w"
  let ?es = "log_of w"
  let ?T = "\<lambda>_ :: loop_world. True"
  let ?built = "\<lambda>r w'. \<exists>bs cs. log_of w' = ?es @ bs @ cs \<and> foldRequestHeader (?es @ bs) None = Some (lr_header r)
    \<and> lr_messages r = derived_messages ?es"
  let ?keep = "\<lambda>p. wp p (\<lambda>_. requests_recorded) (\<lambda>_. requests_recorded) requests_recorded requests_recorded"
  have since: "\<exists>fs. log_of w' = ?es @ fs" if "since ?es (script_size w) w'" for w'
    using that by (simp add: since_def)
  have built: "wp (awaited (buildRequest env tools sys (derived_messages ?es))) ?built (\<lambda>_. ?T) ?T ?T w"
  proof (rule wp_awaited)
    show "wp (buildRequest env tools sys (derived_messages ?es)) ?built (\<lambda>_. ?T) ?T ?T w"
      using wp_conj [OF wp_buildRequest keepsD [OF growing.keeps_build since_refl]]
    proof (rule wp_mono)
      fix r w'
      assume r: "(log_header w' = Some (lr_header r) \<and> lr_messages r = derived_messages ?es) \<and> since ?es (script_size w) w'"
      then obtain fs where "log_of w' = ?es @ fs" using since by blast
      with r show "?built r w'" by (intro force_now) (simp_all add: log_header_def)
    qed simp_all
    show "stable (?built a)" for a
    proof (rule stableI)
      fix w x assume "?built a w"
      then show "?built a (happen x w)" using happen_grows [of x w] by fastforce
    qed simp
  qed (simp_all add: stable_def)
  have rest: "?keep (bnd (modify (\<lambda>w. w\<lparr>lw_requests := lw_requests w @ [r]\<rparr>)) p) w'"
    if "?built r w'" "requests_recorded w'" "keeps requests_recorded (p ())" for r p w'
  proof -
    from that(1) have "derivable (log_of w') r" unfolding derivable_def by blast
    with that(2) have "requests_recorded (w'\<lparr>lw_requests := lw_requests w' @ [r]\<rparr>)"
      by (simp add: requests_recorded_def)
    with that(3) show ?thesis by (simp add: keeps_def)
  qed
  have step: "?keep (awaited (buildRequest env tools sys (derived_messages ?es))) w"
    by (rule keepsD [where I = requests_recorded]) (intro keeps_intros, rule w)
  show "?keep (one_request env turn step tools sys) w"
    unfolding one_request_def wp_bnd [of "read_state _"] wp_bnd [of "awaited _"] wp_read
    by (rule wp_mono [OF wp_conj [OF built step]]) (elim conjE, rule rest, assumption+, unfold Let_def, intro keeps_intros, simp_all)
qed

interpretation recorded: record_keeper requests_recorded
  by unfold_locales (rule recorded_request)

text \<open>The world a run ends in, or waits in.\<close>

fun run_world :: "('x, 'a, 'w) run \<Rightarrow> 'w" where
  "run_world (Done a w) = w"
| "run_world (Thrown x w) = w"
| "run_world (Waiting w) = w"
| "run_world (NoFuel w) = w"

lemma keeps_run: "keeps I p \<Longrightarrow> I w \<Longrightarrow> I (run_world (p w))"
  by (drule (1) keepsD) (simp add: wp_def split: run.splits)

end
