(* ===== verification/AgentDriver.thy ===== *)
theory AgentDriver imports LoopKeeps begin

text \<open>
  The correctness of the driver of packages/core/agent-loop/src/agent.ts: whatever the services
  answer and whatever other code does while it waits, every turn and step it opens is closed,
  its log stays one the trace invariant accepts, and it comes to rest.
\<close>

section \<open>Triples of the loop programs\<close>

text \<open>
  From \<open>I\<close>, a program ends in \<open>Q\<close> with a value and in \<open>J\<close> with an error, waits in \<open>W\<close> and never
  runs out of budget; when it ends it has taken at least \<open>d\<close> answers of the script.
\<close>

definition triple :: "nat \<Rightarrow> (loop_world \<Rightarrow> bool) \<Rightarrow> (loop_world \<Rightarrow> bool) \<Rightarrow> 'a loop_prog
    \<Rightarrow> ('a \<Rightarrow> loop_world \<Rightarrow> bool) \<Rightarrow> (loop_world \<Rightarrow> bool) \<Rightarrow> bool" where
  "triple d W I p Q J \<longleftrightarrow> (\<forall>w. I w \<longrightarrow>
     wp p (\<lambda>a w'. Q a w' \<and> script_size w' + d \<le> script_size w) (\<lambda>_ w'. J w' \<and> script_size w' + d \<le> script_size w)
       W (\<lambda>_. False) w)"

lemma tripleI:
  assumes "\<And>w. I w \<Longrightarrow> wp p (\<lambda>a w'. Q a w' \<and> script_size w' + d \<le> script_size w)
    (\<lambda>_ w'. J w' \<and> script_size w' + d \<le> script_size w) W (\<lambda>_. False) w"
  shows "triple d W I p Q J"
  using assms by (simp add: triple_def)

lemma triple_use:
  assumes "triple d W I p Q J" and "I w" and "script_size w + e \<le> n"
    and "\<And>a w'. Q a w' \<Longrightarrow> script_size w' + d + e \<le> n \<Longrightarrow> Q' a w'"
    and "\<And>x w'. J w' \<Longrightarrow> script_size w' + d + e \<le> n \<Longrightarrow> E x w'"
    and "\<And>w'. W w' \<Longrightarrow> W' w'"
  shows "wp p Q' E W' F w"
proof -
  have "wp p (\<lambda>a w'. Q a w' \<and> script_size w' + d \<le> script_size w) (\<lambda>_ w'. J w' \<and> script_size w' + d \<le> script_size w)
      W (\<lambda>_. False) w"
    using assms(1,2) by (simp add: triple_def)
  then show ?thesis by (rule wp_mono) (use assms(3-6) in auto)
qed

lemma triple_mono:
  assumes "triple d W I p Q J" and "d' \<le> d"
    and "\<And>w. I' w \<Longrightarrow> I w" and "\<And>a w. Q a w \<Longrightarrow> Q' a w" and "\<And>w. J w \<Longrightarrow> J' w"
  shows "triple d' W I' p Q' J'"
  by (rule tripleI, rule triple_use [OF assms(1), where e = 0]) (use assms(2-5) in auto)

lemmas triple_weaken = triple_mono [OF _ le_refl]

lemma triple_bnd:
  assumes "triple d W I p R J" and "\<And>a. triple 0 W (R a) (f a) Q J"
  shows "triple d W I (bnd p f) Q J"
proof (rule tripleI)
  fix w assume "I w"
  show "wp (bnd p f) (\<lambda>a w'. Q a w' \<and> script_size w' + d \<le> script_size w)
      (\<lambda>_ w'. J w' \<and> script_size w' + d \<le> script_size w) W (\<lambda>_. False) w"
    unfolding wp_bnd
    by (rule triple_use [OF assms(1) \<open>I w\<close>, where e = 0]) (auto intro: triple_use [OF assms(2), where e = d])
qed

lemma triple_ret: "(\<And>w. I w \<Longrightarrow> Q a w) \<Longrightarrow> triple 0 W I (ret a) Q J"
  and triple_throw: "(\<And>w. I w \<Longrightarrow> J w) \<Longrightarrow> triple 0 W I (throw x) Q J"
  and triple_read: "(\<And>w. I w \<Longrightarrow> R (f w) w) \<Longrightarrow> triple 0 W I (read_state f) R J"
  and triple_modify: "(\<And>w. I w \<Longrightarrow> S () (g w) \<and> script_size (g w) \<le> script_size w) \<Longrightarrow> triple 0 W I (modify g) S J"
  by (simp_all add: triple_def)

lemma triple_handle:
  assumes "triple d W I p Q K" and "\<And>x. triple 0 W K (h x) Q J"
  shows "triple d W I (handle p h) Q J"
proof (rule tripleI)
  fix w assume "I w"
  show "wp (handle p h) (\<lambda>a w'. Q a w' \<and> script_size w' + d \<le> script_size w)
      (\<lambda>_ w'. J w' \<and> script_size w' + d \<le> script_size w) W (\<lambda>_. False) w"
    unfolding wp_handle
    by (rule triple_use [OF assms(1) \<open>I w\<close>, where e = 0]) (auto intro: triple_use [OF assms(2), where e = d])
qed

lemma triple_finally:
  assumes "triple d W I p R K" and "\<And>a. triple 0 W (R a) q (\<lambda>_. Q a) J" and "triple 0 W K q (\<lambda>_. J) J"
  shows "triple d W I (finally_do p q) Q J"
proof (rule tripleI)
  fix w assume "I w"
  show "wp (finally_do p q) (\<lambda>a w'. Q a w' \<and> script_size w' + d \<le> script_size w)
      (\<lambda>_ w'. J w' \<and> script_size w' + d \<le> script_size w) W (\<lambda>_. False) w"
    unfolding wp_finally
    by (rule triple_use [OF assms(1) \<open>I w\<close>, where e = 0])
      (auto intro: triple_use [OF assms(2), where e = d] triple_use [OF assms(3), where e = d])
qed

lemma triple_if: "(b \<Longrightarrow> triple d W I p Q J) \<Longrightarrow> (\<not> b \<Longrightarrow> triple d W I q Q J) \<Longrightarrow> triple d W I (if b then p else q) Q J"
  by simp

lemma triple_option:
  "(x = None \<Longrightarrow> triple d W I p Q J) \<Longrightarrow> (\<And>a. x = Some a \<Longrightarrow> triple d W I (f a) Q J) \<Longrightarrow>
   triple d W I (case x of None \<Rightarrow> p | Some a \<Rightarrow> f a) Q J"
  by (cases x) simp_all

lemma triple_sum:
  "(\<And>a. x = Inl a \<Longrightarrow> triple d W I (f a) Q J) \<Longrightarrow> (\<And>b. x = Inr b \<Longrightarrow> triple d W I (g b) Q J) \<Longrightarrow>
   triple d W I (case x of Inl a \<Rightarrow> f a | Inr b \<Rightarrow> g b) Q J"
  by (cases x) simp_all

lemma triple_pair: "(\<And>a b. x = (a, b) \<Longrightarrow> triple d W I (f a b) Q J) \<Longrightarrow> triple d W I (case x of (a, b) \<Rightarrow> f a b) Q J"
  by (cases x) simp

lemma triple_for_each:
  assumes "\<And>b. triple 0 W I (f b) (\<lambda>_. I) J"
  shows "triple 0 W I (for_each f bs) (\<lambda>_. I) J"
  by (induction bs) (auto intro: triple_ret triple_bnd assms)

text \<open>A loop whose rounds each take an answer, with the length of the script as its budget.\<close>

lemma triple_spin:
  assumes "\<And>s w. I s w \<Longrightarrow> wp (p s)
      (\<lambda>r w'. script_size w' + d \<le> script_size w \<and> (case r of Inl s' \<Rightarrow> I s' w' \<and> script_size w' < script_size w | Inr a \<Rightarrow> Q a w'))
      (\<lambda>_ w'. J w' \<and> script_size w' + d \<le> script_size w) W (\<lambda>_. False) w"
  shows "triple d W (\<lambda>w. I s w \<and> script_size w \<le> n) (loop_do (Suc n) p s) Q J"
proof (rule tripleI)
  fix w assume I: "I s w \<and> script_size w \<le> n"
  show "wp (loop_do (Suc n) p s) (\<lambda>a w'. Q a w' \<and> script_size w' + d \<le> script_size w)
      (\<lambda>_ w'. J w' \<and> script_size w' + d \<le> script_size w) W (\<lambda>_. False) w"
  proof (rule wp_loop [where I = "\<lambda>s w'. I s w' \<and> script_size w' \<le> script_size w" and m = "\<lambda>_. script_size"])
    fix s w' assume "I s w' \<and> script_size w' \<le> script_size w"
    then show "wp (p s) (\<lambda>r w1. case r of
          Inl s' \<Rightarrow> (I s' w1 \<and> script_size w1 \<le> script_size w) \<and> script_size w1 < script_size w'
        | Inr a \<Rightarrow> Q a w1 \<and> script_size w1 + d \<le> script_size w)
        (\<lambda>_ w'. J w' \<and> script_size w' + d \<le> script_size w) W (\<lambda>_. False) w'"
      by (elim conjE, intro wp_mono [OF assms [of s w']]) (auto split: sum.splits)
  qed (use I in auto)
qed

lemma triple_budget:
  assumes "\<And>n. triple d W (\<lambda>w. I w \<and> script_size w \<le> n) (f n) Q J"
  shows "triple d W I (bnd (read_state script_size) f) Q J"
proof (rule tripleI)
  fix w assume I: "I w"
  show "wp (bnd (read_state script_size) f) (\<lambda>a w'. Q a w' \<and> script_size w' + d \<le> script_size w)
      (\<lambda>_ w'. J w' \<and> script_size w' + d \<le> script_size w) W (\<lambda>_. False) w"
    unfolding wp_bnd wp_read by (rule triple_use [OF assms [of "script_size w"], where e = 0]) (use I in auto)
qed

lemma triple_round:
  assumes "triple 1 W I p R J" and "\<And>a. triple 0 W (R a) (f a) (\<lambda>r w. case r of Inl s \<Rightarrow> I' s w | Inr a \<Rightarrow> Q a w) J"
    and "I w" and "d \<le> 1"
  shows "wp (bnd p f) (\<lambda>r w'. script_size w' + d \<le> script_size w \<and>
      (case r of Inl s' \<Rightarrow> I' s' w' \<and> script_size w' < script_size w | Inr a \<Rightarrow> Q a w'))
    (\<lambda>_ w'. J w' \<and> script_size w' + d \<le> script_size w) W (\<lambda>_. False) w"
  by (rule triple_use [OF triple_bnd [OF assms(1,2)] assms(3), where e = 0]) (use assms(4) in \<open>auto split: sum.splits\<close>)

lemma triple_await:
  assumes "stable I" and "\<And>w. I w \<Longrightarrow> W w"
  shows "triple 1 W I (await f) (\<lambda>_. I) I" and "triple 1 W I (ask f) (\<lambda>_. I) I"
proof -
  show "triple 1 W I (await f) (\<lambda>_. I) I"
    by (rule tripleI, rule wp_mono [OF wp_await [OF assms(1)]]) (use assms(2) in auto)
  show "triple 1 W I (ask f) (\<lambda>_. I) I"
    by (rule tripleI, rule wp_mono [OF wp_ask [OF assms(1)]]) (use assms(2) in auto)
qed

lemma triple_awaited:
  assumes "triple 0 W I p Q J" and "\<And>a. stable (Q a)" and "stable J"
    and "\<And>a w. Q a w \<Longrightarrow> W w" and "\<And>w. J w \<Longrightarrow> W w"
  shows "triple 1 W I (awaited p) Q J"
proof (rule tripleI)
  fix w assume "I w"
  have pause: "wp pause (\<lambda>_ w1. K w1 \<and> script_size w1 + 1 \<le> script_size w) E W F w'"
    if "stable K" "K w'" "\<And>w. K w \<Longrightarrow> W w" "script_size w' \<le> script_size w" for K w' E F
    using wp_pause [OF that(1,2)] by (rule wp_mono) (use that(3,4) in auto)
  show "wp (awaited p) (\<lambda>a w'. Q a w' \<and> script_size w' + 1 \<le> script_size w)
      (\<lambda>_ w'. J w' \<and> script_size w' + 1 \<le> script_size w) W (\<lambda>_. False) w"
    unfolding awaited_def wp_finally
  proof (rule triple_use [OF assms(1) \<open>I w\<close>, where e = 0])
    fix a w' assume "Q a w'" "script_size w' + 0 + 0 \<le> script_size w"
    then show "wp pause (\<lambda>_ w'. Q a w' \<and> script_size w' + 1 \<le> script_size w)
        (\<lambda>_ w'. J w' \<and> script_size w' + 1 \<le> script_size w) W (\<lambda>_. False) w'"
      using assms(4) by (intro pause [OF assms(2)]) auto
  next
    fix w' assume "J w'" "script_size w' + 0 + 0 \<le> script_size w"
    then show "wp pause (\<lambda>_ w'. J w' \<and> script_size w' + 1 \<le> script_size w)
        (\<lambda>_ w'. J w' \<and> script_size w' + 1 \<le> script_size w) W (\<lambda>_. False) w'"
      using assms(5) by (intro pause [OF assms(3)]) auto
  qed simp_all
qed

lemma triple_throw_if_aborted: "triple 0 W I throw_if_aborted (\<lambda>_. I) I"
  by (rule tripleI, rule wp_throw_if_aborted) auto

lemma triple_from: "triple 0 W I (from_result r) (\<lambda>_. I) I" "triple 0 W I (from_assembly s) (\<lambda>_. I) I"
  by (auto simp: from_result_def from_assembly_def triple_def split: sum.split)

lemma triple_attempt: "triple d W I p Q J \<Longrightarrow> triple d W I (attempt p) (\<lambda>r w. case r of Inl _ \<Rightarrow> J w | Inr a \<Rightarrow> Q a w) K"
  unfolding attempt_def
proof (rule triple_handle [where K = J])
  assume p: "triple d W I p Q J"
  show "triple d W I (bnd p (\<lambda>a. ret (Inr a))) (\<lambda>r w. case r of Inl _ \<Rightarrow> J w | Inr a \<Rightarrow> Q a w) J"
    using p by (rule triple_bnd) (simp add: triple_def)
qed (simp add: triple_def)

lemma triple_fresh:
  "(\<And>w. I w \<Longrightarrow> I (w\<lparr>lw_fresh := Suc (lw_fresh w)\<rparr>)) \<Longrightarrow> triple 0 W I (fresh_uuid f) (\<lambda>_. I) J"
  by (rule tripleI) simp

section \<open>Where the driver is\<close>

text \<open>
  Between turns, between the steps of a turn, at the start of a step, and inside one. \<open>m\<close>
  bounds the dispatches in flight.
\<close>

definition pool_ok :: "nat \<Rightarrow> loop_world \<Rightarrow> bool" where
  "pool_ok m w \<longleftrightarrow> length (cg_inFlight (lw_group w)) \<le> m"

definition between_turns :: "nat \<Rightarrow> int \<Rightarrow> int \<Rightarrow> loop_world \<Rightarrow> bool" where
  "between_turns m t s w \<longleftrightarrow> (\<exists>ns. shaped None None (t + 1) ns {} t s w) \<and> pool_ok m w"

definition in_turn :: "nat \<Rightarrow> int \<Rightarrow> int \<Rightarrow> loop_world \<Rightarrow> bool" where
  "in_turn m t s w \<longleftrightarrow> shaped (Some t) None t (s + 1) {} t s w \<and> pool_ok m w"

definition step_open :: "nat \<Rightarrow> int \<Rightarrow> int \<Rightarrow> loop_world \<Rightarrow> bool" where
  "step_open m t s w \<longleftrightarrow> shaped (Some t) (Some s) t s {} t s w \<and> pool_ok m w"

definition in_step :: "nat \<Rightarrow> int \<Rightarrow> int \<Rightarrow> loop_world \<Rightarrow> bool" where
  "in_step m t s w \<longleftrightarrow> (\<exists>calls. shaped (Some t) (Some s) t s calls t s w) \<and> pool_ok m w"

definition on_duty :: "nat \<Rightarrow> loop_world \<Rightarrow> bool" where
  "on_duty m w \<longleftrightarrow> (\<exists>t s. between_turns m t s w \<or> in_turn m t s w \<or> in_step m t s w)"

definition at_rest :: "nat \<Rightarrow> int \<Rightarrow> loop_world \<Rightarrow> bool" where
  "at_rest m t w \<longleftrightarrow> lw_phase w = Idle t \<and> (\<exists>ns. log_shape (log_of w) None None (t + 1) ns {}) \<and> pool_ok m w"

lemmas place_defs = between_turns_def in_turn_def step_open_def in_step_def

lemma step_open_in: "step_open m t s w \<Longrightarrow> in_step m t s w"
  by (auto simp: place_defs)

lemma duty_intros:
  "between_turns m t s w \<Longrightarrow> on_duty m w" "in_turn m t s w \<Longrightarrow> on_duty m w"
  "in_step m t s w \<Longrightarrow> on_duty m w" "step_open m t s w \<Longrightarrow> on_duty m w"
  unfolding on_duty_def by (blast intro: step_open_in)+

lemma place_running:
  "between_turns m t s w \<Longrightarrow> running_at t s w" "in_turn m t s w \<Longrightarrow> running_at t s w"
  "step_open m t s w \<Longrightarrow> running_at t s w" "in_step m t s w \<Longrightarrow> running_at t s w"
  by (auto simp: place_defs shaped_def)

lemma running_reads: "running_at t s w \<Longrightarrow> current_turn w = t \<and> current_step w = s"
  by (auto simp: running_at_def current_turn_def current_step_def)

lemma stable_ex: "(\<And>x. stable (I x)) \<Longrightarrow> stable (\<lambda>w. \<exists>x. I x w)"
  unfolding stable_def by blast

lemma stable_pool: "stable (\<lambda>w. shaped ot os nt ns calls t s w \<and> pool_ok m w)"
proof -
  have "stable (\<lambda>w. running_at t s w \<and> pool_ok m w)"
    unfolding pool_ok_def by (rule stable_group_part) simp
  from stable_conj [OF stable_shaped this] show ?thesis
    by (rule back_subst [where P = stable]) (auto simp: shaped_def fun_eq_iff)
qed

lemma stable_places:
  "stable (between_turns m t s)" "stable (in_turn m t s)" "stable (step_open m t s)" "stable (in_step m t s)"
proof -
  show "stable (in_turn m t s)" "stable (step_open m t s)"
    unfolding in_turn_def [abs_def] step_open_def [abs_def] by (rule stable_pool)+
  show "stable (between_turns m t s)"
    using stable_ex [OF stable_pool] by (rule back_subst [where P = stable]) (auto simp: fun_eq_iff between_turns_def)
  show "stable (in_step m t s)"
    using stable_ex [OF stable_pool] by (rule back_subst [where P = stable]) (auto simp: fun_eq_iff in_step_def)
qed

lemma shaped_fields [simp]:
  "shaped ot os nt ns ids t s (w\<lparr>lw_requests := qs\<rparr>) = shaped ot os nt ns ids t s w"
  "shaped ot os nt ns ids t s (w\<lparr>lw_headerLogged := b\<rparr>) = shaped ot os nt ns ids t s w"
  by (simp_all add: shaped_def running_at_def)

lemma place_fields [simp]:
  "step_open m t s (w\<lparr>lw_requests := qs\<rparr>) = step_open m t s w"
  "step_open m t s (w\<lparr>lw_headerLogged := b\<rparr>) = step_open m t s w"
  "step_open m t s (w\<lparr>lw_fresh := n\<rparr>) = step_open m t s w"
  "in_turn m t s (w\<lparr>lw_fresh := n\<rparr>) = in_turn m t s w"
  by (simp_all add: place_defs pool_ok_def)

section \<open>Appends of the driver\<close>

lemma triple_append:
  assumes "\<And>w. I w \<Longrightarrow> (\<exists>t s nt ns calls. log_shape (log_of w @ [new_event (length (log_of w)) (lw_now w) d op src]) t s nt ns calls)
      \<and> Q (length (log_of w)) (commit_event (new_event (length (log_of w)) (lw_now w) d op src) w)"
  shows "triple 0 W I (append_with d op src) Q J"
proof (rule tripleI)
  fix w assume I: "I w"
  from assms [OF I] obtain t s nt ns calls
    where "log_shape (log_of w @ [new_event (length (log_of w)) (lw_now w) d op src]) t s nt ns calls" by blast
  then show "wp (append_with d op src) (\<lambda>a w'. Q a w' \<and> script_size w' + 0 \<le> script_size w)
      (\<lambda>_ w'. J w' \<and> script_size w' + 0 \<le> script_size w) W (\<lambda>_. False) w"
    by (rule wp_append) (use assms [OF I] in simp)
qed

lemma shaped_commit:
  assumes "shaped ot os nt ns ids t s w" and "log_shape (log_of w @ [e]) ot' os' nt' ns' ids'"
  shows "shaped ot' os' nt' ns' ids' t s (commit_event e w)"
  using assms by (simp add: shaped_def running_at_def)

lemma pool_commit [simp]: "pool_ok m (commit_event e w) = pool_ok m w"
  by (simp add: pool_ok_def)

text \<open>What the driver appends inside a step before it runs tool calls.\<close>

fun step_data :: "int \<Rightarrow> int \<Rightarrow> inbox_splice option event_data \<Rightarrow> bool" where
  "step_data t s (UserMessage _) = True"
| "step_data t s (RequestHeader _ _) = True"
| "step_data t s (RequestContext _) = True"
| "step_data t s (AssistantChunk t' s' _) = (t' = t \<and> s' = s)"
| "step_data t s (AssistantMessage t' s' _ _ _) = (t' = t \<and> s' = s)"
| "step_data t s _ = False"

lemma shape_step_data:
  assumes "log_shape es (Some t) (Some s) nt ns calls" and "step_data t s d"
  shows "log_shape (es @ [new_event (length es) now d op src]) (Some t) (Some s) nt ns calls"
  using assms shape_neutral [OF assms(1)] shape_in_turn [OF assms(1)] shape_chunk [OF assms(1)] shape_message [OF assms(1)]
  by (cases d) auto

lemma triple_step_append:
  assumes "step_data t s d"
  shows "triple 0 W (step_open m t s) (append_with d op src) (\<lambda>_. step_open m t s) J"
proof (rule triple_append)
  fix w assume w: "step_open m t s w"
  then have "log_shape (log_of w) (Some t) (Some s) t s {}" by (simp add: step_open_def shaped_def)
  from shape_step_data [OF this assms] w
  show "(\<exists>t s nt ns calls. log_shape (log_of w @ [new_event (length (log_of w)) (lw_now w) d op src]) t s nt ns calls)
      \<and> step_open m t s (commit_event (new_event (length (log_of w)) (lw_now w) d op src) w)"
    unfolding step_open_def pool_commit by (blast intro: shaped_commit)
qed

section \<open>One step\<close>

lemma triple_drop: "triple d W I p (\<lambda>_. Q) J \<Longrightarrow> triple d W I (bnd p (\<lambda>_. ret a)) (\<lambda>_. Q) J"
  by (erule triple_bnd) (simp add: triple_def)

text \<open>An awaited answer of a program counts as one step of zero answers where that is enough.\<close>

lemma triple_some: "triple d W I p Q J \<Longrightarrow> triple 0 W I p Q J"
  by (erule triple_mono) auto

lemma step_await:
  "triple 1 (on_duty m) (step_open m t s) (await f) (\<lambda>_. step_open m t s) (step_open m t s)"
  "triple 1 (on_duty m) (step_open m t s) (ask f) (\<lambda>_. step_open m t s) (step_open m t s)"
  by (rule triple_await [OF stable_places(3)], erule duty_intros)+

lemma triple_seq: "triple d W I p (\<lambda>_. I) J \<Longrightarrow> (\<And>a. triple 0 W I (f a) Q J) \<Longrightarrow> triple d W I (bnd p f) Q J"
  by (rule triple_bnd)

lemmas step_triples = triple_read triple_if triple_throw triple_ret triple_drop triple_modify triple_throw_if_aborted
  triple_step_append step_await [THEN triple_some]

lemma triple_log_header: "triple 0 (on_duty m) (step_open m t s) (log_request_header h) (\<lambda>_. step_open m t s) (step_open m t s)"
  unfolding log_request_header_def by (intro triple_seq step_triples) auto

lemma triple_log_context: "triple 0 (on_duty m) (step_open m t s) (log_request_context c) (\<lambda>_. step_open m t s) (step_open m t s)"
  unfolding log_request_context_def by (intro triple_seq step_triples) auto

lemma triple_prepare_route: "triple 0 (on_duty m) (step_open m t s) prepare_route (\<lambda>_. step_open m t s) (step_open m t s)"
  unfolding prepare_route_def by (rule triple_handle [where K = "step_open m t s"]; intro triple_seq step_triples) auto

lemma triple_buildRequest:
  "triple 0 (on_duty m) (step_open m t s) (buildRequest env tools sys boundary) (\<lambda>_. step_open m t s) (step_open m t s)"
  unfolding buildRequest_def Let_def
  by (intro triple_seq step_triples triple_prepare_route triple_log_header triple_log_context) auto

lemma triple_take_chunk:
  assumes "step_open m t s w"
  shows "wp (take_chunk t s st) (\<lambda>r w'. script_size w' + 0 \<le> script_size w \<and>
      (case r of Inl _ \<Rightarrow> step_open m t s w' \<and> script_size w' < script_size w | Inr _ \<Rightarrow> step_open m t s w'))
    (\<lambda>_ w'. step_open m t s w' \<and> script_size w' + 0 \<le> script_size w) (on_duty m) (\<lambda>_. False) w"
proof -
  obtain a seqs where st: "st = (a, seqs)" by (cases st)
  have "triple 1 (on_duty m) (step_open m t s) (bnd (await chunk_reply) (\<lambda>c.
      case c of
        None \<Rightarrow> bnd throw_if_aborted (\<lambda>_. ret None)
      | Some chunk \<Rightarrow>
          bnd throw_if_aborted (\<lambda>_.
          bnd (append (AssistantChunk t s (chunk_json chunk))) (\<lambda>seq.
            ret (Some (chunk, seq)))))) (\<lambda>_. step_open m t s) (step_open m t s)"
    by (rule triple_seq [OF step_await(1)]; intro triple_option triple_seq step_triples) auto
  from triple_attempt [OF this] show ?thesis unfolding take_chunk_def st prod.case
    by (rule triple_round) (use assms in \<open>auto simp: triple_def split: sum.splits option.splits\<close>)
qed

lemma triple_consume:
  "triple 0 (on_duty m) (step_open m t s) (consume_stream t s) (\<lambda>_. step_open m t s) (step_open m t s)"
proof -
  have "triple 0 (on_duty m) (step_open m t s) (bnd (ask nothing_reply) (\<lambda>_. throw_if_aborted))
      (\<lambda>_. step_open m t s) (step_open m t s)"
    by (intro triple_seq step_triples)
  then have "triple 0 (on_duty m) (step_open m t s) (attempt (bnd (ask nothing_reply) (\<lambda>_. throw_if_aborted)))
      (\<lambda>_. step_open m t s) (step_open m t s)"
    by (rule triple_weaken [OF triple_attempt]) (auto split: sum.splits)
  moreover have "triple 0 (on_duty m) (\<lambda>w. step_open m t s w \<and> script_size w \<le> n) (loop_do (Suc n) (take_chunk t s) st)
      (\<lambda>_. step_open m t s) (step_open m t s)" for n st
    by (rule triple_spin) (rule triple_take_chunk)
  ultimately show ?thesis unfolding consume_stream_def
    by (intro triple_seq triple_sum triple_budget triple_ret)
qed

text \<open>Errors may leave a larger set of states.\<close>

lemma triple_seq_to:
  assumes "triple d W I p (\<lambda>_. I) I" and "\<And>w. I w \<Longrightarrow> J w" and "\<And>a. triple 0 W I (f a) Q J"
  shows "triple d W I (bnd p f) Q J"
  by (rule triple_seq [OF triple_weaken [OF assms(1)] assms(3)]) (use assms(2) in auto)

lemma triple_known:
  assumes "\<And>w. I w \<Longrightarrow> f w = v" and "triple d W I (g v) Q J"
  shows "triple d W I (bnd (read_state f) g) Q J"
  using assms by (simp add: triple_def)

lemma triple_signal: "triple 0 W I signal_aborted (\<lambda>_. I) J"
  by (rule tripleI) simp

lemma triple_assistant:
  "triple 0 W (step_open m t s) (assistant_message env content c replay) (\<lambda>_. step_open m t s) J"
  unfolding assistant_message_def by (intro triple_drop triple_fresh triple_seq triple_ret) auto

lemma triple_interrupted:
  "triple 0 W (step_open m t s) (interrupted env t s c a seqs x) Q (step_open m t s)"
  unfolding interrupted_def append_surface_def
  by (intro triple_seq triple_signal triple_if triple_from triple_assistant step_triples) auto

lemma triple_tools:
  assumes "sc_turn sc = t" and "sc_step sc = s" and "sc_max sc = m" and "0 < m"
  shows "triple 0 (on_duty m) (step_open m t s) (executeToolCalls sc calls) (\<lambda>_. in_step m t s) (in_step m t s)"
proof (rule tripleI)
  fix w assume w: "step_open m t s w"
  have done_in: "calls_done sc es0 calls t s w' \<Longrightarrow> in_step m t s w'"
    and step_in: "step_calls sc es0 calls t s w' \<Longrightarrow> in_step m t s w'" for es0 w'
    using assms by (auto simp: calls_done_def step_calls_def in_step_def pool_ok_def open_calls_def)
  have "wp (executeToolCalls sc calls) (\<lambda>_. calls_done sc (log_of w) calls t s)
      (step_failed sc (log_of w) calls t s (script_size w)) (step_calls sc (log_of w) calls t s) (\<lambda>_. False) w"
    using w assms by (intro wp_executeToolCalls) (simp_all add: step_open_def pool_ok_def)
  from wp_conj [OF this keepsD [OF growing.keeps_tools since_refl]]
  show "wp (executeToolCalls sc calls) (\<lambda>_ w'. in_step m t s w' \<and> script_size w' + 0 \<le> script_size w)
      (\<lambda>_ w'. in_step m t s w' \<and> script_size w' + 0 \<le> script_size w) (on_duty m) (\<lambda>_. False) w"
    by (rule wp_mono) (auto simp: since_def step_failed_def intro: duty_intros done_in step_in)
qed

lemma triple_complete:
  assumes "ae_maxParallel env = m" and "0 < m"
  shows "triple 0 (on_duty m) (step_open m t s) (complete_answer env t s c a seqs) (\<lambda>_. in_step m t s) (in_step m t s)"
proof -
  have tools: "triple 0 (on_duty m) (step_open m t s) (awaited (executeToolCalls (step_scope_of env t s) calls))
      (\<lambda>_. in_step m t s) (in_step m t s)" for calls
    using assms by (intro triple_some [OF triple_awaited] triple_tools stable_places duty_intros)
      (auto simp: step_scope_of_def)
  show ?thesis unfolding complete_answer_def append_surface_def
    by (intro triple_seq_to triple_from triple_assistant triple_step_append triple_if triple_ret triple_drop [OF tools]
        triple_bnd [OF tools]) (auto intro: step_open_in)
qed

lemma triple_one_request:
  assumes "ae_maxParallel env = m" and "0 < m" and "step_open m t s w"
  shows "wp (one_request env t s tools sys) (\<lambda>r w'. script_size w' + 0 \<le> script_size w \<and>
      (case r of Inl _ \<Rightarrow> step_open m t s w' \<and> script_size w' < script_size w | Inr _ \<Rightarrow> in_step m t s w'))
    (\<lambda>_ w'. in_step m t s w' \<and> script_size w' + 0 \<le> script_size w) (on_duty m) (\<lambda>_. False) w"
proof -
  let ?R = "\<lambda>r w. case r of Inl _ \<Rightarrow> step_open m t s w | Inr _ \<Rightarrow> in_step m t s w"
  have build: "triple 1 (on_duty m) (step_open m t s) (awaited (buildRequest env tools sys boundary))
      (\<lambda>_. step_open m t s) (step_open m t s)" for boundary
    by (intro triple_awaited triple_buildRequest stable_places duty_intros)
  have retry: "triple 0 (on_duty m) (step_open m t s) (bnd (await retry_reply) (\<lambda>retry.
      bnd throw_if_aborted (\<lambda>_. if retry then ret (Inl ()) else throw (LlmError f)))) ?R (in_step m t s)" for f
    by (intro triple_seq_to triple_if triple_ret triple_throw triple_throw_if_aborted triple_some [OF step_await(1)])
      (auto intro: step_open_in)
  have complete: "triple 0 (on_duty m) (step_open m t s) (bnd (complete_answer env t s c a seqs) (\<lambda>r. ret (Inr r)))
      ?R (in_step m t s)" for c a seqs
    by (rule triple_bnd [OF triple_complete [OF assms(1,2)]]) (simp add: triple_def)
  have stop: "triple 0 (on_duty m) (step_open m t s) (interrupted env t s c a seqs x) ?R (in_step m t s)" for c a seqs x
    by (rule triple_weaken [OF triple_interrupted]) (auto intro: step_open_in)
  have rest: "triple 0 (on_duty m) (step_open m t s)
     (bnd (modify (\<lambda>w. w\<lparr>lw_requests := lw_requests w @ [request]\<rparr>)) (\<lambda>_.
      bnd (consume_stream t s) (\<lambda>(a, seqs, failed).
       let c = eh_config (lr_header request)
       in case failed of
            Some x \<Rightarrow> interrupted env t s c a seqs x
          | None \<Rightarrow>
              (case finish_failure (finish a) of
                 Some f \<Rightarrow>
                   bnd (await retry_reply) (\<lambda>retry.
                   bnd throw_if_aborted (\<lambda>_.
                     if retry then ret (Inl ()) else throw (LlmError f)))
               | None \<Rightarrow> bnd (complete_answer env t s c a seqs) (\<lambda>r. ret (Inr r)))))) ?R (in_step m t s)" for request
    unfolding Let_def
    by (intro triple_seq_to triple_modify triple_consume triple_pair triple_option retry complete stop)
      (auto intro: step_open_in)
  show ?thesis unfolding one_request_def wp_bnd [of "read_state _"] wp_read
  proof (rule triple_round [where R = "\<lambda>_. step_open m t s" and I' = "\<lambda>_. step_open m t s"])
    show "triple 1 (on_duty m) (step_open m t s) (awaited (buildRequest env tools sys boundary))
      (\<lambda>_. step_open m t s) (in_step m t s)" for boundary
      by (rule triple_weaken [OF build]) (auto intro: step_open_in)
  qed (rule rest, rule assms(3), simp)
qed

lemma triple_agent_step:
  assumes "ae_maxParallel env = m" and "0 < m"
  shows "triple 0 (on_duty m) (step_open m t s) (agent_step env assembly) (\<lambda>_. in_step m t s) (in_step m t s)"
proof -
  have loop: "triple 0 (on_duty m) (\<lambda>w. step_open m t s w \<and> script_size w \<le> n)
      (loop_do (Suc n) (\<lambda>_. one_request env t s tools sys) u) (\<lambda>_. in_step m t s) (in_step m t s)" for n tools sys u
    by (rule triple_spin) (rule triple_one_request [OF assms])
  have "triple 0 (on_duty m) (step_open m t s)
     (bnd throw_if_aborted (\<lambda>_.
      bnd (from_result (pa_system assembly)) (\<lambda>sys.
      bnd (read_state script_size) (\<lambda>n.
        loop_do (Suc n) (\<lambda>_. one_request env t s (pa_tools assembly) sys) ())))) (\<lambda>_. in_step m t s) (in_step m t s)"
    by (intro triple_seq_to [OF triple_throw_if_aborted] triple_seq_to [OF triple_from(1)] triple_budget loop)
      (auto intro: step_open_in)
  then show ?thesis unfolding agent_step_def
    by (intro triple_known [where v = t] triple_known [where v = s])
      (auto dest: place_running(3) running_reads)
qed

section \<open>One turn\<close>

abbreviation some_step :: "nat \<Rightarrow> int \<Rightarrow> loop_world \<Rightarrow> bool" where
  "some_step m t w \<equiv> \<exists>s. in_turn m t s w"

abbreviation some_turn :: "nat \<Rightarrow> loop_world \<Rightarrow> bool" where
  "some_turn m w \<equiv> \<exists>t s. between_turns m t s w"

lemma triple_start_step:
  "triple 0 W (in_turn m t (s - 1)) (append (StepStart t s))
    (\<lambda>_ w. shaped (Some t) (Some s) t s {} t (s - 1) w \<and> pool_ok m w) J"
proof (rule triple_append)
  fix w assume w: "in_turn m t (s - 1) w"
  then have "log_shape (log_of w) (Some t) None t s {}" by (simp add: in_turn_def shaped_def)
  from shape_step_start [OF this] w
  show "(\<exists>t' s' nt ns calls. log_shape (log_of w @ [new_event (length (log_of w)) (lw_now w) (StepStart t s) None None]) t' s' nt ns calls)
      \<and> shaped (Some t) (Some s) t s {} t (s - 1) (commit_event (new_event (length (log_of w)) (lw_now w) (StepStart t s) None None) w)
      \<and> pool_ok m (commit_event (new_event (length (log_of w)) (lw_now w) (StepStart t s) None None) w)"
    unfolding in_turn_def pool_commit by (blast intro: shaped_commit)
qed

lemma triple_end_step: "triple 0 W (in_step m t s) (append (StepEnd t s)) (\<lambda>_. in_turn m t s) J"
proof (rule triple_append)
  fix w assume w: "in_step m t s w"
  then obtain calls where sh: "shaped (Some t) (Some s) t s calls t s w" "pool_ok m w" by (auto simp: in_step_def)
  then have "log_shape (log_of w) (Some t) (Some s) t s calls" by (simp add: shaped_def)
  from shape_step_end [OF this] sh
  show "(\<exists>t' s' nt ns calls. log_shape (log_of w @ [new_event (length (log_of w)) (lw_now w) (StepEnd t s) None None]) t' s' nt ns calls)
      \<and> in_turn m t s (commit_event (new_event (length (log_of w)) (lw_now w) (StepEnd t s) None None) w)"
    unfolding in_turn_def pool_commit by (blast intro: shaped_commit)
qed

lemma triple_run_step:
  assumes "ae_maxParallel env = m" and "0 < m"
  shows "triple 0 (on_duty m) (in_turn m t (s - 1)) (run_step env t s ms assembly) (\<lambda>_. some_step m t) (some_step m t)"
proof -
  have step: "triple 0 (on_duty m) (step_open m t s) (awaited (agent_step env assembly)) (\<lambda>_. in_step m t s) (in_step m t s)"
    by (intro triple_some [OF triple_awaited] triple_agent_step assms stable_places duty_intros)
  have inputs: "triple 0 (on_duty m) (step_open m t s) (append_input ms) (\<lambda>_. step_open m t s) (in_step m t s)"
    unfolding append_input_def append_surface_def
    by (intro triple_for_each triple_drop triple_step_append) auto
  have close: "triple 0 (on_duty m) (in_step m t s) (bnd (append (StepEnd t s)) (\<lambda>_. ret ())) (\<lambda>_. some_step m t) (some_step m t)"
    by (rule triple_weaken [OF triple_drop [OF triple_end_step]]) auto
  have body: "triple 0 (on_duty m) (step_open m t s)
      (finally_do (bnd (append_input ms) (\<lambda>_. awaited (agent_step env assembly)))
         (bnd (append (StepEnd t s)) (\<lambda>_. ret ()))) (\<lambda>_. some_step m t) (some_step m t)"
    by (rule triple_finally [OF triple_seq [OF inputs step] close close])
  have enter: "triple 0 (on_duty m) (\<lambda>w. shaped (Some t) (Some s) t s {} t (s - 1) w \<and> pool_ok m w)
      (update_activity (\<lambda>a. a\<lparr>ac_step := s\<rparr>)) (\<lambda>_. step_open m t s) (some_step m t)"
    unfolding update_activity_def
    by (rule triple_modify) (auto simp: step_open_def shaped_def running_at_def pool_ok_def)
  show ?thesis unfolding run_step_def
    by (intro triple_seq_to [OF triple_throw_if_aborted] triple_bnd [OF triple_start_step] triple_bnd [OF enter] body) auto
qed

lemma triple_preStep:
  "triple 0 (on_duty m) (in_turn m t s) (preStep env target turn) (\<lambda>_. in_turn m t s) (in_turn m t s)"
proof -
  have wait: "triple 0 (on_duty m) (in_turn m t s) (await f) (\<lambda>_. in_turn m t s) (in_turn m t s)" for f :: "reply \<Rightarrow> 'b option"
    by (intro triple_some [OF triple_await(1)] stable_places duty_intros)
  have "triple 0 (on_duty m) (in_turn m t s) (claim_input target turn) (\<lambda>_. in_turn m t s) (in_turn m t s)"
  proof (rule tripleI)
    fix w assume w: "in_turn m t s w"
    have "in_turn m t s (w\<lparr>lw_inbox := b\<rparr>)" if "claim (lw_now w) target turn (lw_inbox w) = Inr (b, ms)" for b ms
      using claim_grows [OF that] w
      by (simp add: in_turn_def shaped_def running_at_def pool_ok_def grows_foreign_def)
    then show "wp (claim_input target turn) (\<lambda>_ w'. in_turn m t s w' \<and> script_size w' + 0 \<le> script_size w)
      (\<lambda>_ w'. in_turn m t s w' \<and> script_size w' + 0 \<le> script_size w) (on_duty m) (\<lambda>_. False) w"
      using w by (auto simp: wp_def claim_input_def split: sum.split)
  qed
  then show ?thesis unfolding preStep_def
    by (intro triple_seq triple_ret triple_read triple_from triple_throw_if_aborted triple_fresh wait) auto
qed

lemma triple_turn_round:
  assumes "ae_maxParallel env = m" and "0 < m" and "some_step m t w"
  shows "wp (turn_round env t st) (\<lambda>r w'. script_size w' + 0 \<le> script_size w \<and>
      (case r of Inl _ \<Rightarrow> some_step m t w' \<and> script_size w' < script_size w | Inr _ \<Rightarrow> some_step m t w'))
    (\<lambda>_ w'. some_step m t w' \<and> script_size w' + 0 \<le> script_size w) (on_duty m) (\<lambda>_. False) w"
proof -
  obtain ends target where st: "st = (ends, target)" by (cases st)
  from assms(3) obtain s where s: "in_turn m t s w" by blast
  then have now: "current_step w = s" by (auto dest: place_running running_reads)
  have duty: "some_step m t w \<Longrightarrow> on_duty m w" for w by (auto intro: duty_intros)
  have stopping: "triple 0 (on_duty m) (some_step m t) (await nothing_reply) (\<lambda>_. some_step m t) (some_step m t)"
    by (intro triple_some [OF triple_await(1)] stable_ex stable_places duty)
  have after: "triple 0 (on_duty m) (some_step m t)
     (bnd throw_if_aborted (\<lambda>_.
      let ends' = sticky ends stepEnd
      in bnd (read_state no_next_step) (\<lambda>quiet.
         bnd (if ends' \<noteq> None \<and> quiet then bnd (await nothing_reply) (\<lambda>_. throw_if_aborted) else ret ()) (\<lambda>_.
         bnd (read_state no_next_step) (\<lambda>still.
           ret (if ends' \<noteq> None \<and> still then Inr (the ends', False) else Inl (ends', NextStep))))))
      ) (\<lambda>r. some_step m t) (some_step m t)" for stepEnd
    unfolding Let_def
    by (intro triple_seq [OF triple_throw_if_aborted] triple_seq [OF triple_read] triple_seq [OF triple_if]
        triple_seq [OF stopping] triple_throw_if_aborted triple_ret) auto
  show ?thesis unfolding turn_round_def st prod.case wp_bnd [of throw_if_aborted] wp_bnd [of "read_state _"] wp_read
  proof (rule wp_throw_if_aborted)
    let ?rest = "\<lambda>(decision, assembly). case decision of
           Reject \<Rightarrow> ret (Inr (Blocked, True))
         | Enter ms \<Rightarrow>
             if ends \<noteq> None \<and> ms = [] then ret (Inr (the ends, False))
             else if current_step w + 1 = 1 \<and> ms = [] then ret (Inr (Completed, True))
             else
               bnd (run_step env t (current_step w + 1) ms assembly) (\<lambda>stepEnd.
               bnd throw_if_aborted (\<lambda>_.
               let ends' = sticky ends stepEnd
               in bnd (read_state no_next_step) (\<lambda>quiet.
                  bnd (if ends' \<noteq> None \<and> quiet
                       then bnd (await nothing_reply) (\<lambda>_. throw_if_aborted) else ret ()) (\<lambda>_.
                  bnd (read_state no_next_step) (\<lambda>still.
                    ret (if ends' \<noteq> None \<and> still then Inr (the ends', False) else Inl (ends', NextStep)))))))"
    have run: "triple 0 (on_duty m) (in_turn m t s) (run_step env t (s + 1) ms assembly) (\<lambda>_. some_step m t) (some_step m t)" for ms assembly
      using triple_run_step [OF assms(1,2), of t "s + 1"] by simp
    have "triple 0 (on_duty m) (in_turn m t s) (?rest x)
        (\<lambda>r w. case r of Inl _ \<Rightarrow> some_step m t w | Inr _ \<Rightarrow> some_step m t w) (some_step m t)" for x
    proof -
      obtain d assembly where x: "x = (d, assembly)" by (cases x)
      show ?thesis unfolding now x prod.case
        by (cases d; simp only: step_decision.case;
            intro triple_if triple_bnd [OF run] triple_weaken [OF after] triple_ret)
          (auto split: sum.splits)
    qed
    then show "wp (bnd (awaited (preStep env target t)) ?rest) (\<lambda>r w'. script_size w' + 0 \<le> script_size w \<and>
      (case r of Inl _ \<Rightarrow> some_step m t w' \<and> script_size w' < script_size w | Inr _ \<Rightarrow> some_step m t w'))
      (\<lambda>_ w'. some_step m t w' \<and> script_size w' + 0 \<le> script_size w) (on_duty m) (\<lambda>_. False) w"
    proof (rule triple_round [where R = "\<lambda>_. in_turn m t s" and I = "in_turn m t s", rotated])
      show "triple 1 (on_duty m) (in_turn m t s) (awaited (preStep env target t)) (\<lambda>_. in_turn m t s) (some_step m t)"
        by (rule triple_weaken [OF triple_awaited [OF triple_preStep]])
          (auto intro: stable_places duty_intros)
    qed (use s in simp_all)
  qed (use assms(3) in simp)
qed

lemma triple_close_turn:
  "triple 0 W (some_step m t) (close_turn t r) (\<lambda>_ w. \<exists>s. between_turns m t s w) J"
  unfolding close_turn_def
proof (rule triple_drop, rule triple_append)
  fix w assume "some_step m t w"
  then obtain s where w: "shaped (Some t) None t (s + 1) {} t s w" "pool_ok m w" by (auto simp: in_turn_def)
  then have "log_shape (log_of w) (Some t) None t (s + 1) {}" by (simp add: shaped_def)
  from shape_turn_end [OF this] w
  show "(\<exists>t' s' nt ns calls. log_shape (log_of w @ [new_event (length (log_of w)) (lw_now w) (TurnEnd t r) None None]) t' s' nt ns calls)
      \<and> (\<exists>s. between_turns m t s (commit_event (new_event (length (log_of w)) (lw_now w) (TurnEnd t r) None None) w))"
    unfolding between_turns_def pool_commit by (blast intro: shaped_commit)
qed

lemma triple_start_turn:
  "triple 0 W (between_turns m (t - 1) 0) (append (TurnStart t))
    (\<lambda>_ w. shaped (Some t) None t 1 {} (t - 1) 0 w \<and> pool_ok m w) J"
proof (rule triple_append)
  fix w assume "between_turns m (t - 1) 0 w"
  then obtain ns where w: "shaped None None t ns {} (t - 1) 0 w" "pool_ok m w" by (auto simp: between_turns_def)
  then have "log_shape (log_of w) None None t ns {}" by (simp add: shaped_def)
  from shape_turn_start [OF this] w
  show "(\<exists>t' s' nt ns calls. log_shape (log_of w @ [new_event (length (log_of w)) (lw_now w) (TurnStart t) None None]) t' s' nt ns calls)
      \<and> shaped (Some t) None t 1 {} (t - 1) 0 (commit_event (new_event (length (log_of w)) (lw_now w) (TurnStart t) None None) w)
      \<and> pool_ok m (commit_event (new_event (length (log_of w)) (lw_now w) (TurnStart t) None None) w)"
    unfolding pool_commit by (blast intro: shaped_commit)
qed

abbreviation turn_ready :: "nat \<Rightarrow> loop_world \<Rightarrow> bool" where
  "turn_ready m w \<equiv> \<exists>t. between_turns m t 0 w"

lemma triple_agent_turn:
  assumes "ae_maxParallel env = m" and "0 < m"
  shows "triple 0 (on_duty m) (turn_ready m) (agent_turn env)
    (\<lambda>more w. if more then turn_ready m w else some_turn m w) (some_turn m)"
proof -
  have enter: "triple 0 (on_duty m) (\<lambda>w. shaped (Some t) None t 1 {} (t - 1) 0 w \<and> pool_ok m w)
      (update_activity (\<lambda>a. a\<lparr>ac_turn := t\<rparr>)) (\<lambda>_. some_step m t) (some_turn m)" for t
    unfolding update_activity_def
    by (rule triple_modify) (fastforce simp: in_turn_def shaped_def running_at_def pool_ok_def)
  have loop: "triple 0 (on_duty m) (\<lambda>w. some_step m t w \<and> script_size w \<le> n)
      (loop_do (Suc n) (turn_round env t) (None, NextTurn)) (\<lambda>_. some_step m t) (some_step m t)" for n t
    by (rule triple_spin) (rule triple_turn_round [OF assms])
  have close: "triple 0 (on_duty m) (some_step m t) (close_turn t r) (\<lambda>_. some_turn m) J" for t r J
    by (rule triple_weaken [OF triple_close_turn]) auto
  have body: "triple 0 (on_duty m) (\<lambda>w. some_step m t w \<and> script_size w \<le> n)
      (handle (loop_do (Suc n) (turn_round env t) (None, NextTurn))
            (\<lambda>x. bnd (read_state (failure_reason env x)) (\<lambda>reason.
                 bnd (close_turn t reason) (\<lambda>_. throw x)))) (\<lambda>_. some_step m t) (some_turn m)" for n t
    by (rule triple_handle [OF loop], rule triple_seq [OF triple_read], assumption, rule triple_bnd [OF close])
      (rule triple_throw)
  have nxt: "triple 0 (on_duty m) (some_turn m) next_turn (\<lambda>more w. if more then turn_ready m w else some_turn m w) (some_turn m)"
    unfolding next_turn_def update_activity_def
  proof (rule triple_seq [OF triple_read], assumption, rule triple_if)
    show "triple 0 (on_duty m) (some_turn m)
      (bnd (modify (\<lambda>w. w\<lparr>lw_phase := map_activity (\<lambda>a. a\<lparr>ac_abort := None, ac_wake := False, ac_step := 0\<rparr>) (lw_phase w)\<rparr>))
         (\<lambda>_. ret True)) (\<lambda>more w. if more then turn_ready m w else some_turn m w) (some_turn m)"
      by (rule triple_bnd [where R = "\<lambda>_. turn_ready m"], rule triple_modify)
        (fastforce simp: between_turns_def shaped_def running_at_def pool_ok_def intro: triple_ret)+
  qed (simp add: triple_ret)
  have finish: "triple 0 (on_duty m) (some_step m t) (case x of (reason, returned) \<Rightarrow>
      bnd (close_turn t reason) (\<lambda>_. if returned then ret False else next_turn))
      (\<lambda>more w. if more then turn_ready m w else some_turn m w) (some_turn m)" for x t
    by (rule triple_pair, rule triple_bnd [OF close], rule triple_if, rule triple_ret, simp, rule nxt)
  have "triple 0 (on_duty m) (between_turns m t' 0) (agent_turn env)
    (\<lambda>more w. if more then turn_ready m w else some_turn m w) (some_turn m)" for t'
  proof -
    have "triple 0 (on_duty m) (between_turns m t' 0)
     (bnd (append (TurnStart (t' + 1))) (\<lambda>_.
      bnd (update_activity (\<lambda>a. a\<lparr>ac_turn := t' + 1\<rparr>)) (\<lambda>_.
      bnd (read_state script_size) (\<lambda>n.
      bnd (handle (loop_do (Suc n) (turn_round env (t' + 1)) (None, NextTurn))
            (\<lambda>x. bnd (read_state (failure_reason env x)) (\<lambda>reason.
                 bnd (close_turn (t' + 1) reason) (\<lambda>_. throw x)))) (\<lambda>(reason, returned).
      bnd (close_turn (t' + 1) reason) (\<lambda>_.
       if returned then ret False else next_turn)))))) (\<lambda>more w. if more then turn_ready m w else some_turn m w) (some_turn m)"
      using triple_start_turn [of _ m "t' + 1"]
      by (intro triple_bnd [OF _ triple_bnd [OF enter triple_budget [OF triple_bnd [OF body finish]]]]) simp
    then show ?thesis unfolding agent_turn_def
      by (intro triple_seq_to [OF triple_throw_if_aborted] triple_known [where v = "t' + 1"])
        (auto dest: place_running running_reads)
  qed
  then show ?thesis unfolding triple_def by blast
qed

section \<open>The driver\<close>

lemma between_turns_stable: "stable (some_turn m)" "stable (turn_ready m)"
  by (intro stable_ex stable_places)+

lemma some_turn_duty: "some_turn m w \<Longrightarrow> on_duty m w"
  by (auto intro: duty_intros)

text \<open>The states a driver can leave: at rest, or with a turn to open.\<close>

definition rest_or_ready :: "nat \<Rightarrow> loop_world \<Rightarrow> bool" where
  "rest_or_ready m w \<longleftrightarrow> (\<exists>t. at_rest m t w) \<or> turn_ready m w"

lemma converge_rest:
  assumes "some_turn m w"
  shows "rest_or_ready m (converge w)"
proof -
  from assms obtain t s ns a where w: "lw_phase w = Running a" "ac_turn a = t"
      "log_shape (log_of w) None None (t + 1) ns {}" "pool_ok m w"
    by (auto simp: between_turns_def shaped_def running_at_def)
  let ?w = "w\<lparr>lw_phase := Idle t\<rparr>"
  show ?thesis
  proof (cases "ac_wake a \<and> hasPending (inbox_of ?w)")
    case True
    then have "converge w = wakeDriver False ?w" using w by (simp add: converge_def Let_def inbox_of_def)
    then have "between_turns m t 0 (converge w)"
      using w by (auto simp: between_turns_def shaped_def running_at_def wakeDriver_def pool_ok_def)
    then show ?thesis by (auto simp: rest_or_ready_def)
  next
    case False
    then have "converge w = ?w" using w by (auto simp: converge_def Let_def inbox_of_def)
    then have "at_rest m t (converge w)" using w by (auto simp: at_rest_def pool_ok_def)
    then show ?thesis by (auto simp: rest_or_ready_def)
  qed
qed

lemma triple_kick:
  assumes "ae_maxParallel env = m" and "0 < m"
  shows "triple 1 (on_duty m) (turn_ready m) (kick env) (\<lambda>_. rest_or_ready m) (\<lambda>_. False)"
proof -
  let ?body = "bnd (awaited (agent_turn env)) (\<lambda>more. ret (if more then Inl () else Inr ()))"
  have stable_more: "stable (\<lambda>w. if more then turn_ready m w else some_turn m w)" for more
    using between_turns_stable by (cases more) simp_all
  have turn: "triple 1 (on_duty m) (turn_ready m) (awaited (agent_turn env))
      (\<lambda>more w. if more then turn_ready m w else some_turn m w) (some_turn m)"
    by (rule triple_awaited [OF triple_agent_turn [OF assms] stable_more between_turns_stable(1)])
      (auto intro: some_turn_duty split: if_splits)
  have round: "wp ?body (\<lambda>r w'. script_size w' + 1 \<le> script_size w \<and>
      (case r of Inl _ \<Rightarrow> turn_ready m w' \<and> script_size w' < script_size w | Inr _ \<Rightarrow> some_turn m w'))
      (\<lambda>_ w'. some_turn m w' \<and> script_size w' + 1 \<le> script_size w) (on_duty m) (\<lambda>_. False) w" if "turn_ready m w" for w
    using turn _ that by (rule triple_round) (auto simp: triple_def)
  have loop: "triple 1 (on_duty m) (\<lambda>w. turn_ready m w \<and> script_size w \<le> n) (loop_do (Suc n) (\<lambda>_. ?body) ())
      (\<lambda>_. some_turn m) (some_turn m)" for n
    by (rule triple_spin) (rule round)
  have "triple 1 (on_duty m) (turn_ready m)
      (handle (bnd (read_state script_size) (\<lambda>n. loop_do (Suc n) (\<lambda>_. ?body) ())) (\<lambda>_. ret ())) (\<lambda>_. some_turn m) (\<lambda>_. False)"
    by (rule triple_handle [OF triple_budget [OF loop]], rule triple_ret)
  then show ?thesis unfolding kick_def
    by (rule triple_bnd) (rule triple_modify, simp add: converge_rest converge_script)
qed

lemma triple_drive:
  assumes "ae_maxParallel env = m" and "0 < m"
  shows "triple 0 (on_duty m) (rest_or_ready m) (drive env) (\<lambda>_ w. \<exists>t. at_rest m t w) (\<lambda>_. False)"
proof -
  let ?body = "bnd (read_state (\<lambda>w. is_idle (lw_phase w))) (\<lambda>idle.
           if idle then ret (Inr ()) else bnd (kick env) (\<lambda>_. ret (Inl ())))"
  have each: "wp ?body (\<lambda>r w'. script_size w' + 0 \<le> script_size w \<and>
      (case r of Inl _ \<Rightarrow> rest_or_ready m w' \<and> script_size w' < script_size w | Inr _ \<Rightarrow> \<exists>t. at_rest m t w'))
      (\<lambda>_ w'. False \<and> script_size w' + 0 \<le> script_size w) (on_duty m) (\<lambda>_. False) w" if w: "rest_or_ready m w" for w
  proof (cases "is_idle (lw_phase w)")
    case True
    then have "\<exists>t. at_rest m t w"
      using w by (auto simp: rest_or_ready_def between_turns_def shaped_def running_at_def)
    then show ?thesis using True by simp
  next
    case False
    then have "turn_ready m w" using w by (auto simp: rest_or_ready_def at_rest_def)
    with triple_kick [OF assms] have "wp (bnd (kick env) (\<lambda>_. ret (Inl ()))) (\<lambda>r w'. script_size w' + 0 \<le> script_size w \<and>
      (case r of Inl _ \<Rightarrow> rest_or_ready m w' \<and> script_size w' < script_size w | Inr _ \<Rightarrow> \<exists>t. at_rest m t w'))
      (\<lambda>_ w'. False \<and> script_size w' + 0 \<le> script_size w) (on_duty m) (\<lambda>_. False) w"
      by (intro triple_round [where I' = "\<lambda>_. rest_or_ready m" and I = "turn_ready m"]) (auto intro: triple_ret)
    then show ?thesis using False by simp
  qed
  show ?thesis unfolding drive_def
    by (rule triple_budget, rule triple_spin) (rule each)
qed

section \<open>From the constructor to rest\<close>

lemma started_is_turn_start: "started_turn (ev_data e) = turn_started e"
  by (cases "ev_data e") simp_all

lemma last_turn_started: "last_turn es = (case List.rev (List.map_filter turn_started es) of [] \<Rightarrow> 0 | t # _ \<Rightarrow> t)"
  by (simp only: last_turn_def started_is_turn_start)

lemma trace_turns:
  assumes "seedSession es = Inr tr"
  shows "trace_wf tr" and "List.map_filter turn_ended es = [1..st_nextTurn tr - 1]"
    and "List.map_filter turn_started es = [1..st_nextTurn tr - 1] @ (case st_openTurn tr of Some t \<Rightarrow> [t] | None \<Rightarrow> [])"
  using seedSession_hist [OF assms] by (simp_all add: trace_hist_def)

text \<open>An accepted log without an open turn has the shape a new driver needs.\<close>

lemma closed_log_shape:
  assumes "seedSession es = Inr tr" and "st_openTurn tr = None" and "map ev_seq es = [0..<length es]"
  shows "log_shape es None None (last_turn es + 1) (st_nextStep tr) {}"
proof -
  note wf = trace_turns(1) [OF assms(1)]
  from trace_turns(3) [OF assms(1)] assms(2)
  have started: "List.map_filter turn_started es = [1..st_nextTurn tr - 1]" by simp
  from wf assms(2) have step: "st_openStep tr = None" by (auto simp: trace_wf_def)
  with wf have pend: "st_pending tr = {}" and pos: "1 \<le> st_nextTurn tr" by (simp_all add: trace_wf_def)
  have "last_turn es = st_nextTurn tr - 1"
  proof (cases "st_nextTurn tr = 1")
    case True
    then show ?thesis using started by (simp add: last_turn_started del: turn_started.simps)
  next
    case False
    then have "[1..st_nextTurn tr - 1] = [1..st_nextTurn tr - 2] @ [st_nextTurn tr - 1]"
      using pos upto_snoc [of "st_nextTurn tr - 1"] by (simp add: algebra_simps)
    then show ?thesis using started by (simp add: last_turn_started del: turn_started.simps)
  qed
  moreover have "st_lastSeq tr < int (length es)"
  proof (cases es rule: rev_cases)
    case (snoc as e)
    then have "ev_seq e = length as" using assms(3) by simp
    then show ?thesis using seedSession_lastSeq [OF assms(1)] snoc by simp
  qed (use seedSession_lastSeq [OF assms(1)] in simp)
  ultimately show ?thesis using assms(1,2) step pend by (simp add: log_shape_def)
qed

text \<open>A waking message to a new agent leaves it with a turn to open.\<close>

lemma wake_ready:
  assumes "new_agent es seed script = Inr w0" and "followup m w0 = Inr w"
    and "log_shape es None None (last_turn es + 1) ns {}"
  shows "turn_ready k w \<and> (\<exists>fs. log_of w = es @ fs)"
proof -
  from assms(1) have w0: "log_of w0 = es" "lw_phase w0 = Idle (last_turn es)" "lw_group w0 = new_group 0 False"
    by (auto simp: new_agent_def result_simps)
  from assms(2) w0(2) obtain w1 where w1: "splice_inbox NextTurn PosInf (Fin 0) [m] w0 = Inr w1" "w = wakeDriver False w1"
    by (auto simp: followup_def send_def result_simps)
  from splice_same [OF w1(1)] w0 have s: "grows_foreign es (log_of w1)" "lw_phase w1 = Idle (last_turn es)" "lw_group w1 = new_group 0 False"
    by (simp_all add: same_driver_def)
  from s(1) assms(3) have "log_shape (log_of w1) None None (last_turn es + 1) ns {}" by (simp add: grows_foreign_def)
  then have "between_turns k (last_turn es) 0 w"
    using s w1(2) by (auto simp: between_turns_def shaped_def running_at_def wakeDriver_def pool_ok_def new_group_def)
  moreover have "log_of w = log_of w1" using w1(2) by simp
  ultimately show ?thesis using s(1) by (auto simp: grows_foreign_def)
qed

text \<open>What the history of a resting and of a waiting driver is.\<close>

lemma rest_history:
  assumes "at_rest m t w"
  shows "lw_phase w = Idle t \<and> List.map_filter turn_started (log_of w) = [1..t] \<and> List.map_filter turn_ended (log_of w) = [1..t]"
proof -
  from assms obtain ns where "lw_phase w = Idle t" "log_shape (log_of w) None None (t + 1) ns {}" by (auto simp: at_rest_def)
  then show ?thesis using trace_turns(2,3) by (fastforce simp: log_shape_def)
qed

lemma duty_history:
  assumes "on_duty m w"
  shows "\<exists>tr. seedSession (log_of w) = Inr tr
    \<and> (\<exists>a. lw_phase w = Running a \<and> (case st_openTurn tr of None \<Rightarrow> st_nextTurn tr = ac_turn a + 1 | Some t \<Rightarrow> t = ac_turn a)
        \<and> (\<forall>s. st_openStep tr = Some s \<longrightarrow> s = ac_step a))
    \<and> length (cg_inFlight (lw_group w)) \<le> m"
  using assms by (auto simp: on_duty_def place_defs shaped_def log_shape_def running_at_def pool_ok_def)

text \<open>
  C1. An agent constructed on a log with no open turn and woken by a message closes every turn it
  opens, whatever the services answer and whatever other code sends, cancels or appends while it
  waits: when the driver comes to rest, turns 1 to its last turn have all been started and ended
  in order; while it waits, the log is one the trace invariant accepts, its open turn and step
  are the driver's, and at most \<open>maxParallelToolCalls\<close> dispatches are in flight. The log only
  grows, no error escapes the driver, and it never outruns the answers it is given.
\<close>

theorem driver_closes_turns:
  assumes "seedSession es = Inr tr" and "st_openTurn tr = None" and "map ev_seq es = [0..<length es]"
    and "new_agent es seed script = Inr w0" and "followup m w0 = Inr w" and "0 < ae_maxParallel env"
  shows "case drive env w of
      Done _ w' \<Rightarrow> (\<exists>fs. log_of w' = es @ fs) \<and> (\<exists>t. lw_phase w' = Idle t
        \<and> List.map_filter turn_started (log_of w') = [1..t] \<and> List.map_filter turn_ended (log_of w') = [1..t])
    | Waiting w' \<Rightarrow> (\<exists>fs. log_of w' = es @ fs) \<and> (\<exists>tr. seedSession (log_of w') = Inr tr
        \<and> (\<exists>a. lw_phase w' = Running a
            \<and> (case st_openTurn tr of None \<Rightarrow> st_nextTurn tr = ac_turn a + 1 | Some t \<Rightarrow> t = ac_turn a)
            \<and> (\<forall>s. st_openStep tr = Some s \<longrightarrow> s = ac_step a))
        \<and> length (cg_inFlight (lw_group w')) \<le> ae_maxParallel env)
    | _ \<Rightarrow> False"
proof -
  from wake_ready [OF assms(4,5) closed_log_shape [OF assms(1-3)]] obtain fs
    where ready: "rest_or_ready (ae_maxParallel env) w" and fs: "log_of w = es @ fs"
    by (auto simp: rest_or_ready_def)
  from triple_drive [OF refl assms(6)] ready
  have "wp (drive env) (\<lambda>_ w'. (\<exists>t. at_rest (ae_maxParallel env) t w') \<and> script_size w' + 0 \<le> script_size w)
      (\<lambda>_ w'. False \<and> script_size w' + 0 \<le> script_size w) (on_duty (ae_maxParallel env)) (\<lambda>_. False) w"
    unfolding triple_def by blast
  from wp_conj [OF this keepsD [OF grow.keeps_drive since_refl]] show ?thesis
    unfolding wp_def since_def fs
    by (auto split: run.splits dest: rest_history duty_history)
qed

definition turn_env :: agent_env where
  "turn_env = \<lparr>ae_uuid = (\<lambda>n. ''u'' @ show_nat n), ae_maxParallel = 4,
     ae_options = \<lparr>ao_provider = Some ''p'', ao_model = Some ''m'', ao_maxTokens = None\<rparr>, ae_errorText = (\<lambda>_. ''failed'')\<rparr>"

definition turn_config :: llm_call_config where
  "turn_config = \<lparr>cfg_provider = ''p'', cfg_model = ''m'', cfg_reasoningEffort = None, cfg_temperature = None,
     cfg_maxTokens = None, cfg_stop = None\<rparr>"

text \<open>One turn with one request, answered by one text block.\<close>

definition turn_script :: "tick list" where
  "turn_script = map (answer [])
     [RAssembly \<lparr>pa_system = Inr ''s'', pa_tools = [], pa_sections = Inr []\<rparr>, RNothing, RNothing, RNothing,
      RRoute \<lparr>pr_config = turn_config, pr_defaults = None, pr_contextWindow = None\<rparr>, RNothing, RNothing,
      RChunk (Some (ChBlockStart 0 ''text'')), RChunk (Some (ChTextDelta 0 ''hi'')), RChunk (Some (ChFinish FinStop None)),
      RChunk None, RNothing, RNothing, RNothing]"

definition turn_message :: message where
  "turn_message = createUserMessage ''go'' [TextBlock ''go''] UserSource"

definition turn_agent :: "inbox_error + loop_world" where
  "turn_agent = new_agent [] 0 turn_script"

definition turn_world :: "inbox_error + loop_world" where
  "turn_world = rbind turn_agent (followup turn_message)"

lemma turn_run:
  "case turn_world of
     Inl _ \<Rightarrow> False
   | Inr w \<Rightarrow> (case drive turn_env w of
       Done _ w' \<Rightarrow> lw_script w' = [] \<and> length (lw_requests w') = 1
         \<and> map lr_messages (lw_requests w') = [[turn_message]]
     | _ \<Rightarrow> False)"
  by code_simp

lemma turn_start:
  obtains w0 w where "new_agent [] 0 turn_script = Inr w0" and "followup turn_message w0 = Inr w" and "turn_world = Inr w"
    and "case drive turn_env w of
       Done _ w' \<Rightarrow> lw_script w' = [] \<and> length (lw_requests w') = 1
         \<and> map lr_messages (lw_requests w') = [[turn_message]]
     | _ \<Rightarrow> False"
  using turn_run by (auto simp: turn_world_def turn_agent_def result_simps split: sum.splits)

theorem driver_closes_turns_witness:
  "\<exists>w. turn_world = Inr w \<and> (case drive turn_env w of
      Done _ w' \<Rightarrow> lw_script w' = [] \<and> (\<exists>t. lw_phase w' = Idle t
        \<and> List.map_filter turn_started (log_of w') = [1..t] \<and> List.map_filter turn_ended (log_of w') = [1..t])
    | _ \<Rightarrow> False)"
proof -
  have fresh: "seedSession ([] :: inbox_event list) = Inr freshTrace" "st_openTurn freshTrace = None"
    by (simp_all add: seedSession_def freshTrace_def)
  obtain w0 w where w: "new_agent [] 0 turn_script = Inr w0" "followup turn_message w0 = Inr w" "turn_world = Inr w"
    and run: "case drive turn_env w of
       Done _ w' \<Rightarrow> lw_script w' = [] \<and> length (lw_requests w') = 1
         \<and> map lr_messages (lw_requests w') = [[turn_message]]
     | _ \<Rightarrow> False"
    by (rule turn_start)
  have "0 < ae_maxParallel turn_env" by (simp add: turn_env_def)
  from driver_closes_turns [OF fresh _ w(1,2) this] run w(3) show ?thesis
    by (auto split: run.splits)
qed

text \<open>
  C8. Every request the model receives is derived from the session log: its messages are the
  ones the log held at some point derives, and its header is the one in force at a later point
  of the same log. This holds of every request made until the driver ends or waits.
\<close>

theorem requests_derive_from_log:
  assumes "new_agent es seed script = Inr w0" and "followup m w0 = Inr w"
  shows "list_all (derivable (log_of (run_world (drive env w)))) (lw_requests (run_world (drive env w)))"
proof -
  have "lw_requests w0 = []" using assms(1) by (auto simp: new_agent_def result_simps)
  with assms(2) have "lw_requests w = []"
    by (auto simp: followup_def send_def Let_def result_simps split: if_splits dest: splice_requests)
  then have "requests_recorded w" by (simp add: requests_recorded_def)
  from keeps_run [OF recorded.keeps_drive this] show ?thesis by (simp add: requests_recorded_def)
qed

theorem requests_derive_from_log_witness:
  "\<exists>w w' r. turn_world = Inr w \<and> drive turn_env w = Done () w' \<and> lw_requests w' = [r] \<and> derivable (log_of w') r
     \<and> lr_messages r = [turn_message]"
proof -
  obtain w0 w where w: "new_agent [] 0 turn_script = Inr w0" "followup turn_message w0 = Inr w" "turn_world = Inr w"
    and run: "case drive turn_env w of
       Done _ w' \<Rightarrow> lw_script w' = [] \<and> length (lw_requests w') = 1
         \<and> map lr_messages (lw_requests w') = [[turn_message]]
     | _ \<Rightarrow> False"
    by (rule turn_start)
  then obtain w' where w': "drive turn_env w = Done () w'" "map lr_messages (lw_requests w') = [[turn_message]]"
    by (auto split: run.splits)
  then obtain r where r: "lw_requests w' = [r]" "lr_messages r = [turn_message]" by auto
  from requests_derive_from_log [OF w(1,2), of turn_env] w' r have "derivable (log_of w') r" by simp
  with w(3) w' r show ?thesis by blast
qed

end
