(* ===== verification/CompactTrace.thy ===== *)
theory CompactTrace imports Surface begin

text \<open>
  packages/compaction/compaction/src: the session events of a compaction (types.ts), the source
  of the checkpoint message that replaces the compacted range (checkpoint.ts), and the invariant
  of the compaction brackets (invariant.ts). The three log-only events are payloads
  \<open>Plugin (CompactStart _)\<close>, \<open>Plugin (CompactSummary _)\<close> and \<open>Plugin (CompactEnd _ _)\<close>, the price of
  a pruned tool result is \<open>Plugin (CompactPrune _)\<close>; \<open>'q\<close> is the payload of the other plugins'
  events. Sequence numbers are natural numbers, a token count is the number the log holds.
\<close>

section \<open>Vocabulary\<close>

record compact_lifecycle =
  cl_id :: string
  cl_command :: "string option"
  cl_turn :: "int option"

record compact_price =
  cp_start :: nat
  cp_end :: nat
  cp_seqs :: "nat list"
  cp_tokens :: rat

record compact_summary =
  cs_id :: string
  cs_command :: "string option"
  cs_summary :: "content_block list"
  cs_price :: compact_price
  cs_provider :: string
  cs_model :: string
  cs_maxTokens :: "rat option"
  cs_usage :: "json option"
  cs_rawOutput :: "content_block list option"
  cs_llmStreamCall :: bool

datatype 'q compact_payload =
    CompactStart compact_lifecycle
  | CompactSummary compact_summary
  | CompactEnd compact_lifecycle "string option"
  | CompactPrune compact_price
  | OtherPayload 'q

definition compactCheckpointSource :: "string \<Rightarrow> string option \<Rightarrow> message_source" where
  "compactCheckpointSource i command =
     PluginSource ''compact'' (JObj ((''compactionId'', JStr i)
       # (case command of None \<Rightarrow> [] | Some c \<Rightarrow> [(''sourceCommandId'', JStr c)])))"

fun isCompactCheckpointSource :: "message_source \<Rightarrow> bool" where
  "isCompactCheckpointSource (PluginSource p _) = (p = ''compact'')"
| "isCompactCheckpointSource _ = False"

section \<open>The trace\<close>

record compaction_trace =
  ct_id :: string
  ct_command :: "string option"
  ct_startSeq :: nat
  ct_turn :: "int option"
  ct_summarized :: bool

record compact_trace =
  tr_openTurn :: "int option"
  tr_compaction :: "compaction_trace option"

datatype compact_transition =
    TransStart string "string option" nat "int option"
  | TransSummary string "string option" nat "int option"
  | TransEnd
  | TransEndSeed

datatype compact_site = AtStart | AtSummary | AtEnd | AtCheckpoint

datatype compact_violation =
    BadId compact_site
  | BadCommandId compact_site
  | CommandMismatch compact_site
  | NoStart compact_site
  | IdMismatch compact_site
  | StillCompacting "int option"
  | CrossesTurn "int option"
  | StandaloneInTurn compact_site int
  | OutsideTurn compact_site int
  | OtherTurn compact_site int int
  | SummaryRepeated
  | SummaryEmpty
  | SummaryRange
  | SummaryTokens
  | OwnerMismatch
  | EndWithoutSummary

fun validateId :: "json option \<Rightarrow> 'x \<Rightarrow> 'x + unit" where
  "validateId (Some (JStr s)) x = guard (s \<noteq> []) x"
| "validateId _ x = Inl x"

definition validateSourceCommandId ::
  "compact_site \<Rightarrow> json option \<Rightarrow> string option \<Rightarrow> compact_violation + unit" where
  "validateSourceCommandId site v expected =
     rbind (case v of None \<Rightarrow> Inr () | Some _ \<Rightarrow> validateId v (BadCommandId site)) (\<lambda>_.
       guard (v = map_option JStr expected) (CommandMismatch site))"

text \<open>The own enumerable properties a plugin's message source adds to its marker.\<close>

fun source_prop :: "string \<Rightarrow> message_source \<Rightarrow> json option" where
  "source_prop k (PluginSource _ v) = get_prop k v"
| "source_prop k _ = None"

definition validateCheckpoint :: "compact_trace \<Rightarrow> message \<Rightarrow> compact_violation + unit" where
  "validateCheckpoint tr m =
     (let source = msg_source m;
          cid = source_prop ''compactionId'' source;
          command = source_prop ''sourceCommandId'' source
      in rbind (validateId cid (BadId AtCheckpoint)) (\<lambda>_.
         rbind (if command \<noteq> None then validateId command (BadCommandId AtCheckpoint) else Inr ()) (\<lambda>_.
         case tr_compaction tr of
           None \<Rightarrow> Inl (NoStart AtCheckpoint)
         | Some opn \<Rightarrow>
             rbind (guard (cid = Some (JStr (ct_id opn))) (IdMismatch AtCheckpoint)) (\<lambda>_.
               validateSourceCommandId AtCheckpoint command (ct_command opn)))))"

fun is_turn_boundary :: "'p event_data \<Rightarrow> bool" where
  "is_turn_boundary (TurnStart _) = True"
| "is_turn_boundary (TurnEnd _ _) = True"
| "is_turn_boundary _ = False"

definition validateTurnBoundary ::
  "compact_trace \<Rightarrow> 'q compact_payload event \<Rightarrow> compact_violation + unit" where
  "validateTurnBoundary tr e =
     (case tr_compaction tr of
        None \<Rightarrow> Inr ()
      | Some opn \<Rightarrow> if is_turn_boundary (ev_data e) then Inl (CrossesTurn (ct_turn opn)) else Inr ())"

fun applyTurnBoundary :: "compact_trace \<Rightarrow> 'p event_data \<Rightarrow> compact_trace \<times> bool" where
  "applyTurnBoundary tr (TurnStart t) = (tr\<lparr>tr_openTurn := Some t\<rparr>, True)"
| "applyTurnBoundary tr (TurnEnd _ _) = (tr\<lparr>tr_openTurn := None\<rparr>, True)"
| "applyTurnBoundary tr _ = (tr, False)"

definition validateOwner ::
  "int option \<Rightarrow> int option \<Rightarrow> compact_site \<Rightarrow> compact_violation + unit" where
  "validateOwner owner opn site =
     (case owner of
        None \<Rightarrow> (case opn of None \<Rightarrow> Inr () | Some t \<Rightarrow> Inl (StandaloneInTurn site t))
      | Some w \<Rightarrow>
          (case opn of
             None \<Rightarrow> Inl (OutsideTurn site w)
           | Some t \<Rightarrow> guard (w = t) (OtherTurn site w t)))"

text \<open>The checks the three log-only events share: the identities they carry.\<close>

definition validateIds :: "compact_site \<Rightarrow> string \<Rightarrow> string option \<Rightarrow> compact_violation + unit" where
  "validateIds site i command =
     rbind (validateId (Some (JStr i)) (BadId site)) (\<lambda>_.
       case command of None \<Rightarrow> Inr () | Some c \<Rightarrow> validateId (Some (JStr c)) (BadCommandId site))"

definition matchOpen ::
  "compact_site \<Rightarrow> compact_trace \<Rightarrow> string \<Rightarrow> string option \<Rightarrow> compact_violation + compaction_trace" where
  "matchOpen site tr i command =
     (case tr_compaction tr of
        None \<Rightarrow> Inl (NoStart site)
      | Some opn \<Rightarrow>
          rbind (guard (i = ct_id opn) (IdMismatch site)) (\<lambda>_.
          rbind (validateSourceCommandId site (map_option JStr command) (ct_command opn)) (\<lambda>_. Inr opn)))"

definition validateSummaryPrice :: "compact_price \<Rightarrow> compact_violation + unit" where
  "validateSummaryPrice p =
     rbind (guard (cp_seqs p \<noteq> []) SummaryEmpty) (\<lambda>_.
     rbind (guard (hd (cp_seqs p) = cp_start p \<and> last (cp_seqs p) = cp_end p) SummaryRange) (\<lambda>_.
       guard (is_safe_integer (cp_tokens p) \<and> 0 \<le> cp_tokens p) SummaryTokens))"

fun validateCompactionEvent ::
  "compact_trace \<Rightarrow> 'q compact_payload event \<Rightarrow> compact_violation + compact_transition option" where
  "validateCompactionEvent tr e =
     (case ev_data e of
        EndSeed \<Rightarrow> Inr (Some TransEndSeed)
      | UserMessage m \<Rightarrow>
          if isReplacementSurfaceEvent e \<and> isCompactCheckpointSource (msg_source m)
          then rbind (validateCheckpoint tr m) (\<lambda>_. Inr None)
          else Inr None
      | Plugin (CompactStart l) \<Rightarrow>
          rbind (validateIds AtStart (cl_id l) (cl_command l)) (\<lambda>_.
            case tr_compaction tr of
              Some opn \<Rightarrow> Inl (StillCompacting (ct_turn opn))
            | None \<Rightarrow>
                rbind (validateOwner (cl_turn l) (tr_openTurn tr) AtStart) (\<lambda>_.
                  Inr (Some (TransStart (cl_id l) (cl_command l) (ev_seq e) (cl_turn l)))))
      | Plugin (CompactSummary s) \<Rightarrow>
          rbind (validateIds AtSummary (cs_id s) (cs_command s)) (\<lambda>_.
          rbind (matchOpen AtSummary tr (cs_id s) (cs_command s)) (\<lambda>opn.
          rbind (validateOwner (ct_turn opn) (tr_openTurn tr) AtSummary) (\<lambda>_.
          rbind (guard (\<not> ct_summarized opn) SummaryRepeated) (\<lambda>_.
          rbind (validateSummaryPrice (cs_price s)) (\<lambda>_.
            Inr (Some (TransSummary (ct_id opn) (ct_command opn) (ct_startSeq opn) (ct_turn opn))))))))
      | Plugin (CompactEnd l err) \<Rightarrow>
          rbind (validateIds AtEnd (cl_id l) (cl_command l)) (\<lambda>_.
          rbind (matchOpen AtEnd tr (cl_id l) (cl_command l)) (\<lambda>opn.
          rbind (guard (cl_turn l = ct_turn opn) OwnerMismatch) (\<lambda>_.
          rbind (validateOwner (ct_turn opn) (tr_openTurn tr) AtEnd) (\<lambda>_.
          rbind (guard (err \<noteq> None \<or> ct_summarized opn) EndWithoutSummary) (\<lambda>_.
            Inr (Some TransEnd))))))
      | _ \<Rightarrow> Inr None)"

fun applyCompactionTransition :: "compact_transition \<Rightarrow> compaction_trace option" where
  "applyCompactionTransition (TransStart i c n t) =
     Some \<lparr>ct_id = i, ct_command = c, ct_startSeq = n, ct_turn = t, ct_summarized = False\<rparr>"
| "applyCompactionTransition (TransSummary i c n t) =
     Some \<lparr>ct_id = i, ct_command = c, ct_startSeq = n, ct_turn = t, ct_summarized = True\<rparr>"
| "applyCompactionTransition TransEnd = None"
| "applyCompactionTransition TransEndSeed = None"

definition emptyTrace :: compact_trace where
  "emptyTrace = \<lparr>tr_openTurn = None, tr_compaction = None\<rparr>"

text \<open>
  A live event is validated while it is dispatched and its transition is applied when it is
  published; nothing else touches the trace in between.
\<close>

definition stageEvent ::
  "compact_trace \<Rightarrow> 'q compact_payload event \<Rightarrow> compact_violation + compact_transition option" where
  "stageEvent tr e = rbind (validateTurnBoundary tr e) (\<lambda>_. validateCompactionEvent tr e)"

definition publishEvent ::
  "compact_trace \<Rightarrow> 'q compact_payload event \<Rightarrow> compact_transition option \<Rightarrow> compact_violation + compact_trace" where
  "publishEvent tr e staged =
     rbind (validateTurnBoundary tr e) (\<lambda>_.
       let (tr', turn) = applyTurnBoundary tr (ev_data e)
       in if turn then Inr tr'
          else Inr (case staged of None \<Rightarrow> tr | Some t \<Rightarrow> tr\<lparr>tr_compaction := applyCompactionTransition t\<rparr>))"

definition compact_step ::
  "compact_trace \<Rightarrow> 'q compact_payload event \<Rightarrow> compact_violation + compact_trace" where
  "compact_step tr e = rbind (stageEvent tr e) (publishEvent tr e)"

text \<open>Seeding a trace from the log of a session that exists already.\<close>

fun orphan_scan :: "'q compact_payload event list \<Rightarrow> nat option \<Rightarrow> nat list \<Rightarrow> nat list" where
  "orphan_scan [] opn stale = stale"
| "orphan_scan (e # es) opn stale =
     (case ev_data e of
        Plugin (CompactStart _) \<Rightarrow> orphan_scan es (Some (ev_seq e)) stale
      | Plugin (CompactEnd _ _) \<Rightarrow> orphan_scan es None stale
      | EndSeed \<Rightarrow> orphan_scan es None (case opn of Some n \<Rightarrow> stale @ [n] | None \<Rightarrow> stale)
      | _ \<Rightarrow> orphan_scan es opn stale)"

definition inheritedOrphanStartSeqs :: "'q compact_payload event list \<Rightarrow> nat list" where
  "inheritedOrphanStartSeqs evs = orphan_scan evs None []"

definition seed_step ::
  "nat list \<Rightarrow> compact_trace \<Rightarrow> 'q compact_payload event \<Rightarrow> compact_violation + compact_trace" where
  "seed_step stale tr e =
     rbind (case tr_compaction tr of
              None \<Rightarrow> validateTurnBoundary tr e
            | Some opn \<Rightarrow> if ct_startSeq opn \<notin> set stale then validateTurnBoundary tr e else Inr ()) (\<lambda>_.
     rbind (validateCompactionEvent tr e) (\<lambda>t.
       Inr (fst (applyTurnBoundary
         (case t of None \<Rightarrow> tr | Some t' \<Rightarrow> tr\<lparr>tr_compaction := applyCompactionTransition t'\<rparr>) (ev_data e)))))"

definition seedTrace :: "'q compact_payload event list \<Rightarrow> compact_violation + compact_trace" where
  "seedTrace evs = run_steps (seed_step (inheritedOrphanStartSeqs evs)) emptyTrace evs"

section \<open>Brackets\<close>

text \<open>The events that delimit a bracket: no other one of them stands inside.\<close>

fun delimits :: "'q compact_payload event_data \<Rightarrow> bool" where
  "delimits (Plugin (CompactStart _)) = True"
| "delimits (Plugin (CompactEnd _ _)) = True"
| "delimits EndSeed = True"
| "delimits (TurnStart _) = True"
| "delimits (TurnEnd _ _) = True"
| "delimits _ = False"

fun summary_of :: "'q compact_payload event_data \<Rightarrow> compact_summary option" where
  "summary_of (Plugin (CompactSummary s)) = Some s"
| "summary_of _ = None"

definition summaries :: "'q compact_payload event list \<Rightarrow> compact_summary list" where
  "summaries es = List.map_filter (\<lambda>e. summary_of (ev_data e)) es"

text \<open>
  The bracket opened by \<open>l\<close> in \<open>pre\<close>: its start, then nothing that delimits a bracket, at most
  one summary, which carries the identities of the start.
\<close>

definition opened :: "'q compact_payload event list \<Rightarrow> compact_lifecycle \<Rightarrow> nat \<Rightarrow> bool \<Rightarrow> bool" where
  "opened pre l n summarized \<longleftrightarrow>
     (\<exists>a s b. pre = a @ s # b \<and> ev_data s = Plugin (CompactStart l) \<and> ev_seq s = n
        \<and> (\<forall>x \<in> set b. \<not> delimits (ev_data x))
        \<and> (\<forall>y \<in> set (summaries b). cs_id y = cl_id l \<and> cs_command y = cl_command l)
        \<and> length (summaries b) = (if summarized then 1 else 0))"

definition bracket_hist :: "'q compact_payload event list \<Rightarrow> compact_trace \<Rightarrow> bool" where
  "bracket_hist pre tr \<longleftrightarrow>
     (\<forall>opn. tr_compaction tr = Some opn \<longrightarrow>
        tr_openTurn tr = ct_turn opn
        \<and> opened pre \<lparr>cl_id = ct_id opn, cl_command = ct_command opn, cl_turn = ct_turn opn\<rparr>
            (ct_startSeq opn) (ct_summarized opn))"

lemma summaries_snoc [simp]:
  "summaries (es @ [e]) = summaries es @ (case summary_of (ev_data e) of Some s \<Rightarrow> [s] | None \<Rightarrow> [])"
  by (simp add: summaries_def)

lemma summaries_Nil [simp]: "summaries [] = []"
  by (simp add: summaries_def List.map_filter_def)

lemma opened_other:
  assumes "opened pre l n b" and "\<not> delimits (ev_data e)" and "summary_of (ev_data e) = None"
  shows "opened (pre @ [e]) l n b"
proof -
  from assms(1) obtain a s c where "pre = a @ s # c" "ev_data s = Plugin (CompactStart l)" "ev_seq s = n"
    "\<forall>x \<in> set c. \<not> delimits (ev_data x)"
    "\<forall>y \<in> set (summaries c). cs_id y = cl_id l \<and> cs_command y = cl_command l"
    "length (summaries c) = (if b then 1 else 0)"
    unfolding opened_def by blast
  with assms(2,3) show ?thesis
    unfolding opened_def by (intro exI [of _ a] exI [of _ s] exI [of _ "c @ [e]"]) simp
qed

lemma opened_summary:
  assumes "opened pre l n False" and "ev_data e = Plugin (CompactSummary y)"
    and "cs_id y = cl_id l" and "cs_command y = cl_command l"
  shows "opened (pre @ [e]) l n True"
proof -
  from assms(1) obtain a s c where "pre = a @ s # c" "ev_data s = Plugin (CompactStart l)" "ev_seq s = n"
    "\<forall>x \<in> set c. \<not> delimits (ev_data x)" "summaries c = []"
    unfolding opened_def by auto
  with assms(2-4) show ?thesis
    unfolding opened_def by (intro exI [of _ a] exI [of _ s] exI [of _ "c @ [e]"]) simp
qed

lemma opened_start:
  "ev_data e = Plugin (CompactStart l) \<Longrightarrow> opened (pre @ [e]) l (ev_seq e) False"
  unfolding opened_def by (intro exI [of _ pre] exI [of _ e] exI [of _ "[]"]) simp

lemma map_JStr_eq [simp]: "map_option JStr a = map_option JStr b \<longleftrightarrow> a = b"
  by (cases a; cases b) auto

lemma command_ok:
  "validateSourceCommandId site v c = Inr u \<longleftrightarrow>
    v = map_option JStr c \<and> (\<forall>s. c = Some s \<longrightarrow> s \<noteq> [])"
  by (cases v; cases c) (auto simp: validateSourceCommandId_def result_simps)

lemma owner_ok: "validateOwner w t site = Inr u \<longleftrightarrow> w = t"
  by (auto simp: validateOwner_def result_simps split: option.splits)

lemma ids_ok:
  "validateIds site i c = Inr u \<longleftrightarrow> i \<noteq> [] \<and> (\<forall>s. c = Some s \<longrightarrow> s \<noteq> [])"
  by (auto simp: validateIds_def result_simps split: option.splits)

lemma matchOpen_ok:
  "matchOpen site tr i c = Inr opn \<longleftrightarrow>
    tr_compaction tr = Some opn \<and> i = ct_id opn \<and> c = ct_command opn \<and> (\<forall>s. c = Some s \<longrightarrow> s \<noteq> [])"
  by (auto simp: matchOpen_def result_simps command_ok split: option.splits)

lemmas compact_ok = command_ok owner_ok ids_ok matchOpen_ok

lemma turn_boundary_ok:
  "validateTurnBoundary tr e = Inr u \<longleftrightarrow> tr_compaction tr = None \<or> \<not> is_turn_boundary (ev_data e)"
  by (auto simp: validateTurnBoundary_def split: option.splits)

text \<open>What a step does, event by event.\<close>

lemma compact_step_eq:
  "compact_step tr e = rbind (validateTurnBoundary tr e) (\<lambda>_. rbind (validateCompactionEvent tr e) (\<lambda>t.
     Inr (fst (applyTurnBoundary
       (case t of None \<Rightarrow> tr | Some t' \<Rightarrow> tr\<lparr>tr_compaction := applyCompactionTransition t'\<rparr>) (ev_data e)))))"
proof (cases "is_turn_boundary (ev_data e)")
  case True
  then obtain t where "ev_data e = TurnStart t \<or> (\<exists>r. ev_data e = TurnEnd t r)"
    by (cases "ev_data e") auto
  then have "validateCompactionEvent tr e = Inr None" by auto
  with True show ?thesis
    by (cases "ev_data e") (auto simp: compact_step_def stageEvent_def publishEvent_def
        validateTurnBoundary_def split: option.splits)
next
  case False
  then have ok: "validateTurnBoundary tr e = Inr ()" by (simp add: turn_boundary_ok)
  have no: "applyTurnBoundary tr' (ev_data e) = (tr', False)" for tr'
    using False by (cases "ev_data e") auto
  show ?thesis
    by (cases "validateCompactionEvent tr e")
      (simp_all add: compact_step_def stageEvent_def publishEvent_def ok no
        del: validateCompactionEvent.simps)
qed

lemma compact_step_cases:
  assumes "compact_step tr e = Inr tr'"
  obtains (turn) "is_turn_boundary (ev_data e)" and "tr_compaction tr = None" and "tr_compaction tr' = None"
  | (start) l where "ev_data e = Plugin (CompactStart l)" and "tr_compaction tr = None"
      and "cl_turn l = tr_openTurn tr"
      and "tr' = tr\<lparr>tr_compaction := Some \<lparr>ct_id = cl_id l, ct_command = cl_command l,
             ct_startSeq = ev_seq e, ct_turn = cl_turn l, ct_summarized = False\<rparr>\<rparr>"
  | (summary) s opn where "ev_data e = Plugin (CompactSummary s)" and "tr_compaction tr = Some opn"
      and "cs_id s = ct_id opn" and "cs_command s = ct_command opn" and "\<not> ct_summarized opn"
      and "ct_turn opn = tr_openTurn tr" and "validateSummaryPrice (cs_price s) = Inr ()"
      and "tr' = tr\<lparr>tr_compaction := Some (opn\<lparr>ct_summarized := True\<rparr>)\<rparr>"
  | (finish) l err opn where "ev_data e = Plugin (CompactEnd l err)" and "tr_compaction tr = Some opn"
      and "cl_id l = ct_id opn" and "cl_command l = ct_command opn" and "cl_turn l = ct_turn opn"
      and "ct_turn opn = tr_openTurn tr" and "err \<noteq> None \<or> ct_summarized opn"
      and "tr' = tr\<lparr>tr_compaction := None\<rparr>"
  | (seed) "ev_data e = EndSeed" and "tr' = tr\<lparr>tr_compaction := None\<rparr>"
  | (other) "\<not> delimits (ev_data e)" and "summary_of (ev_data e) = None" and "tr' = tr"
proof -
  obtain t where b: "validateTurnBoundary tr e = Inr ()" and v: "validateCompactionEvent tr e = Inr t"
    and tr': "tr' = fst (applyTurnBoundary
       (case t of None \<Rightarrow> tr | Some t' \<Rightarrow> tr\<lparr>tr_compaction := applyCompactionTransition t'\<rparr>) (ev_data e))"
    using assms by (auto simp: compact_step_eq result_simps)
  show ?thesis
  proof (cases "ev_data e")
    case (Plugin p)
    show ?thesis
    proof (cases p)
      case (CompactStart l)
      with Plugin v tr' show ?thesis
        by (intro start [of l]) (auto simp: result_simps compact_ok split: option.splits)
    next
      case (CompactSummary s)
      with Plugin v obtain opn where "matchOpen AtSummary tr (cs_id s) (cs_command s) = Inr opn"
        by (auto simp: result_simps)
      with Plugin CompactSummary v tr' show ?thesis
        by (intro summary [of s opn]) (auto simp: result_simps compact_ok)
    next
      case (CompactEnd l err)
      with Plugin v obtain opn where "matchOpen AtEnd tr (cl_id l) (cl_command l) = Inr opn"
        by (auto simp: result_simps)
      with Plugin CompactEnd v tr' show ?thesis
        by (intro finish [of l err opn]) (auto simp: result_simps compact_ok)
    qed (use Plugin v tr' in \<open>auto intro: other\<close>)
  next
    case (UserMessage m)
    with v tr' show ?thesis by (intro other) (auto simp: result_simps split: if_splits)
  qed (use b v tr' in \<open>auto simp: turn_boundary_ok intro: turn seed other\<close>)
qed

lemma compact_step_hist:
  assumes "bracket_hist pre tr" and "compact_step tr e = Inr tr'"
  shows "bracket_hist (pre @ [e]) tr'"
  using assms(2)
proof (cases rule: compact_step_cases)
  case (start l)
  have l: "\<lparr>cl_id = cl_id l, cl_command = cl_command l, cl_turn = cl_turn l\<rparr> = l" by simp
  show ?thesis
    using opened_start [OF start(1), of pre] unfolding start(4) by (simp add: bracket_hist_def l flip: start(3))
next
  case (summary s opn)
  then show ?thesis using assms(1) opened_summary [of pre _ _ e s] by (simp add: bracket_hist_def)
next
  case other
  then show ?thesis using assms(1) opened_other by (auto simp: bracket_hist_def)
qed (simp_all add: bracket_hist_def)

interpretation brackets: fold_history compact_step bracket_hist
  by unfold_locales (rule compact_step_hist)

lemma emptyTrace_hist: "bracket_hist [] emptyTrace"
  by (simp add: bracket_hist_def emptyTrace_def)

text \<open>
  C22. In every log the compaction invariant accepts, a compaction ends inside the bracket its own
  start opened: between the two there is no other compaction, no turn boundary and no end of a
  seed, at most one summary, exactly one if the compaction succeeded, and it carries the
  identities of the start. A checkpoint that replaces history stands inside the open bracket it
  names.
\<close>

theorem compactions_bracketed:
  assumes "run_steps compact_step emptyTrace (pre @ e # post) = Inr tr"
  shows "(\<forall>l err. ev_data e = Plugin (CompactEnd l err) \<longrightarrow>
      (\<exists>n. opened pre l n (err = None) \<or> (err \<noteq> None \<and> opened pre l n True)))
    \<and> (\<forall>m. ev_data e = UserMessage m \<and> isReplacementSurfaceEvent e
        \<and> isCompactCheckpointSource (msg_source m) \<longrightarrow>
      (\<exists>l n b. opened pre l n b \<and> source_prop ''compactionId'' (msg_source m) = Some (JStr (cl_id l))))"
proof -
  obtain t t' where t: "run_steps compact_step emptyTrace pre = Inr t" and e: "compact_step t e = Inr t'"
    using assms by (auto simp: run_steps_append result_simps)
  have h: "bracket_hist pre t"
    using brackets.run_hinv [OF emptyTrace_hist t] by simp
  show ?thesis
  proof (intro conjI allI impI)
    fix l err assume "ev_data e = Plugin (CompactEnd l err)"
    with e obtain opn where o: "tr_compaction t = Some opn" "cl_id l = ct_id opn"
      "cl_command l = ct_command opn" "cl_turn l = ct_turn opn" "err \<noteq> None \<or> ct_summarized opn"
      by (cases rule: compact_step_cases) auto
    then have "l = \<lparr>cl_id = ct_id opn, cl_command = ct_command opn, cl_turn = ct_turn opn\<rparr>" by simp
    with h o show "\<exists>n. opened pre l n (err = None) \<or> (err \<noteq> None \<and> opened pre l n True)"
      by (cases "ct_summarized opn"; cases err) (auto simp: bracket_hist_def)
  next
    fix m assume "ev_data e = UserMessage m \<and> isReplacementSurfaceEvent e
        \<and> isCompactCheckpointSource (msg_source m)"
    with e obtain opn where "tr_compaction t = Some opn"
      "source_prop ''compactionId'' (msg_source m) = Some (JStr (ct_id opn))"
      by (auto simp: compact_step_eq result_simps validateCheckpoint_def Let_def split: option.splits)
    with h show "\<exists>l n b. opened pre l n b
        \<and> source_prop ''compactionId'' (msg_source m) = Some (JStr (cl_id l))"
      by (fastforce simp: bracket_hist_def)
  qed
qed

definition sample_lifecycle :: compact_lifecycle where
  "sample_lifecycle = \<lparr>cl_id = ''c1'', cl_command = None, cl_turn = Some 1\<rparr>"

definition sample_bracket :: "unit compact_payload event list" where
  "sample_bracket = map (\<lambda>(n, d). \<lparr>ev_data = d, ev_seq = n, ev_time = 0, ev_ignorable = False,
       ev_surfaceOp = None, ev_sources = None\<rparr>)
     [(0, TurnStart 1), (1, Plugin (CompactStart sample_lifecycle)),
      (2, Plugin (CompactSummary \<lparr>cs_id = ''c1'', cs_command = None, cs_summary = [TextBlock ''short''],
         cs_price = \<lparr>cp_start = 0, cp_end = 0, cp_seqs = [0], cp_tokens = 12\<rparr>, cs_provider = ''p'',
         cs_model = ''m'', cs_maxTokens = None, cs_usage = None, cs_rawOutput = None,
         cs_llmStreamCall = False\<rparr>)),
      (3, Plugin (CompactEnd sample_lifecycle None))]"

lemma is_safe_small: "is_safe_integer 12"
  using is_safe_integer_of_int [of 12] by (simp add: safe_int_def max_safe_def)

theorem compactions_bracketed_witness:
  "\<exists>n. opened (take 3 sample_bracket) sample_lifecycle n True"
proof -
  have run: "run_steps compact_step emptyTrace (take 3 sample_bracket @ sample_bracket ! 3 # [])
      = Inr \<lparr>tr_openTurn = Some 1, tr_compaction = None\<rparr>"
    by (simp add: sample_bracket_def compact_step_def stageEvent_def publishEvent_def
        validateTurnBoundary_def emptyTrace_def sample_lifecycle_def validateIds_def validateOwner_def
        matchOpen_def validateSourceCommandId_def validateSummaryPrice_def is_safe_small)
  have "ev_data (sample_bracket ! 3) = Plugin (CompactEnd sample_lifecycle None)"
    by (simp add: sample_bracket_def)
  with conjunct1 [OF compactions_bracketed [OF run]] show ?thesis by auto
qed

end
