(* ===== verification/SurfaceSteps.thy ===== *)
theory SurfaceSteps imports Surface begin

text \<open>
  What an accepted event does to the surface, in the terms in which the readers of a committed
  log see it: the operation \<open>event.surfaceOp\<close> and its bounds \<open>op.start\<close> and \<open>op.end\<close>
  (packages/core/session/src/surface.ts validated them when the event was appended).
\<close>

definition op_start :: "'p event \<Rightarrow> nat" where
  "op_start e = (case ev_surfaceOp e of None \<Rightarrow> 0 | Some op \<Rightarrow> seq_of (the (get_prop ''start'' op)))"

definition op_end :: "'p event \<Rightarrow> nat" where
  "op_end e = (case ev_surfaceOp e of None \<Rightarrow> 0 | Some op \<Rightarrow> seq_of (the (get_prop ''end'' op)))"

abbreviation appends :: "'p event \<Rightarrow> bool" where
  "appends e \<equiv> ev_surfaceOp e = Some (JStr ''append'')"

lemma surfaceOpOf_committed:
  "surfaceOpOf e = Inr None \<Longrightarrow> \<not> isSurfaceEvent e"
  "surfaceOpOf e = Inr (Some Append) \<Longrightarrow> isSurfaceEvent e \<and> appends e"
  "surfaceOpOf e = Inr (Some (Replace a b)) \<Longrightarrow>
    isSurfaceEvent e \<and> \<not> appends e \<and> a = op_start e \<and> b = op_end e"
  by (auto simp: surfaceOpOf_def isSurfaceEvent_def op_start_def op_end_def split: if_splits option.splits)

lemma surface_step_cases:
  assumes "fold_window 0 pre = Inr (st, reps, k)" and "fold_window 0 (pre @ [e]) = Inr (st', reps', k')"
  obtains (off) "\<not> isSurfaceEvent e" and "st' = st" and "reps' = reps" and "ev_seq e = length pre"
  | (append) "isSurfaceEvent e" and "appends e" and "ev_seq e = length pre"
      and "st' = st\<lparr>nodes := nodes st @ [length pre]\<rparr>" and "reps' = reps"
  | (replace) i j where "isSurfaceEvent e" and "\<not> appends e" and "ev_seq e = length pre"
      and "index_of (op_start e) (nodes st) = Some i" and "index_of (op_end e) (nodes st) = Some j"
      and "i \<le> j" and "j < length (nodes st)"
      and "nodes st' = splice i (j - i + 1) [length pre] (nodes st)"
      and "replaceGeneration st' = replaceGeneration st + 1"
      and "reps' = reps @ [\<lparr>rp_seq = length pre, rp_start = op_start e, rp_end = op_end e,
            rp_shadowed = slice i (Suc j) (nodes st)\<rparr>]"
proof -
  have k: "k = length pre" using fold_window_hist [OF assms(1)] by (simp add: surface_hist_def)
  obtain p where p: "planSurfaceEvent st e (length pre) pre 0 = Inr p"
    and st': "(st', reps') = (case applySurfacePlan st p of (s, rep) \<Rightarrow>
        (s, (case rep of None \<Rightarrow> reps | Some r \<Rightarrow> reps @ [r])))"
    using assms k
    by (auto simp: fold_window_snoc surface_step_def applySurfaceEvent_def result_simps split: prod.splits)
  obtain op where op: "surfaceOpOf e = Inr op" and seq: "ev_seq e = length pre"
    using p by (auto simp: planSurfaceEvent_def result_simps split: if_splits)
  show ?thesis
  proof (cases op)
    case None
    with p op seq st' surfaceOpOf_committed(1) [of e] show ?thesis
      by (intro off) (auto simp: planSurfaceEvent_def)
  next
    case (Some o')
    show ?thesis
    proof (cases o')
      case Append
      with p op seq st' Some surfaceOpOf_committed(2) [of e] show ?thesis
        by (intro append) (auto simp: planSurfaceEvent_def result_simps)
    next
      case (Replace a b)
      with op Some have ab: "isSurfaceEvent e" "\<not> appends e" "a = op_start e" "b = op_end e"
        using surfaceOpOf_committed(3) by blast+
      obtain i j sh where r: "replacementRange st a b = Inr (i, j, sh)"
        and pl: "p = Some (PlanReplace \<lparr>rp_seq = length pre, rp_start = a, rp_end = b, rp_shadowed = sh\<rparr> i j)"
        using p op Some Replace seq by (auto simp: planSurfaceEvent_def result_simps split: prod.splits)
      have "index_of a (nodes st) = Some i" "index_of b (nodes st) = Some j"
        using r by (auto simp: replacementRange_def split: option.splits if_splits)
      with ab seq st' pl replacementRange_ok [OF r] show ?thesis
        by (intro replace [of i j]) auto
    qed
  qed
qed

end
