(* ===== verification/TokenMeter.thy ===== *)
theory TokenMeter imports CompactTrace SurfaceSteps BlockAssembler RequestHeaders begin

text \<open>
  packages/llm/token-meter/src: the fixed price of content (estimate.ts), the priced surface
  (surface-fold.ts), the running total that needs no per-node state (surface-projection.ts) and
  the meter that follows a session's log (index.ts). The lengths of the JSON texts of blocks and
  tool schemas are arguments, and so is the decoding of the chunk a log event holds. Token
  counts of the estimator are natural numbers; the provider's counts are rationals.
\<close>

section \<open>Prices\<close>

record meter_env =
  me_blockJson :: "content_block \<Rightarrow> nat"
  me_toolsJson :: "tool_schema list \<Rightarrow> nat"
  me_chunk :: "json \<Rightarrow> stream_chunk"

definition per_token :: "nat \<Rightarrow> nat" where
  "per_token n = (n + 3) div 4"

definition BLOCK_OVERHEAD :: nat where
  "BLOCK_OVERHEAD = 4"

definition ROLE_OVERHEAD :: nat where
  "ROLE_OVERHEAD = 4"

fun estimate_block :: "meter_env \<Rightarrow> content_block \<Rightarrow> nat"
and estimateContent :: "meter_env \<Rightarrow> content_block list \<Rightarrow> nat" where
  "estimate_block v (TextBlock s) = per_token (length s) + BLOCK_OVERHEAD"
| "estimate_block v (ReasoningBlock s) = per_token (length s) + BLOCK_OVERHEAD"
| "estimate_block v (ToolCallBlock _ n a) = per_token (length n) + per_token (length a) + BLOCK_OVERHEAD"
| "estimate_block v (ToolResultBlock _ bs _) = estimateContent v bs + BLOCK_OVERHEAD"
| "estimate_block v (ImageBlock j) = BLOCK_OVERHEAD + per_token (me_blockJson v (ImageBlock j))"
| "estimate_block v (PluginBlock t j) = BLOCK_OVERHEAD + per_token (me_blockJson v (PluginBlock t j))"
| "estimateContent v [] = 0"
| "estimateContent v (b # bs) = estimate_block v b + estimateContent v bs"

definition estimateMessage :: "meter_env \<Rightarrow> message \<Rightarrow> nat" where
  "estimateMessage v m = estimateContent v (msg_content m) + ROLE_OVERHEAD"

definition estimateSystemTokens :: "epoch_header option \<Rightarrow> nat" where
  "estimateSystemTokens h =
     (case h of
        None \<Rightarrow> 0
      | Some hdr \<Rightarrow> (case eh_system hdr of None \<Rightarrow> 0 | Some s \<Rightarrow> per_token (length s) + ROLE_OVERHEAD))"

definition estimateToolsTokens :: "meter_env \<Rightarrow> epoch_header option \<Rightarrow> nat" where
  "estimateToolsTokens v h =
     (case h of
        None \<Rightarrow> 0
      | Some hdr \<Rightarrow>
          (case eh_tools hdr of
             None \<Rightarrow> 0
           | Some ts \<Rightarrow> if length ts = 0 then 0 else per_token (me_toolsJson v ts) + BLOCK_OVERHEAD))"

definition estimateHeader :: "meter_env \<Rightarrow> epoch_header option \<Rightarrow> nat" where
  "estimateHeader v h = estimateSystemTokens h + estimateToolsTokens v h"

section \<open>The priced surface\<close>

record token_node =
  tn_seq :: nat
  tn_tokens :: nat

datatype meter_error =
    PricedRangeMissing nat nat nat
  | StepStillOpen nat int int
  | StepEndUnmatched nat
  | AssistantOutsideStep nat
  | SourceNotEarlier nat nat
  | SourceRepeated nat nat
  | SourceNotChunk nat nat
  | SourceOtherStep nat nat
  | SourceUnassembled assembly_error

definition event_price :: "meter_env \<Rightarrow> 'p event \<Rightarrow> nat" where
  "event_price v e = (case deriveEventMessage e of None \<Rightarrow> 0 | Some m \<Rightarrow> estimateMessage v m)"

definition total_tokens :: "token_node list \<Rightarrow> nat" where
  "total_tokens ns = sum_list (map tn_tokens ns)"

record token_fold =
  tf_tokens :: nat
  tf_nodes :: "token_node list"
  tf_delta :: int

definition foldSurfaceTokens ::
  "meter_env \<Rightarrow> token_node list \<Rightarrow> 'p event \<Rightarrow> meter_error + token_fold" where
  "foldSurfaceTokens v ns e =
     (let tokens = event_price v e;
          node = \<lparr>tn_seq = ev_seq e, tn_tokens = tokens\<rparr>
      in if ev_surfaceOp e = Some (JStr ''append'')
         then Inr \<lparr>tf_tokens = tokens, tf_nodes = ns @ [node], tf_delta = int tokens\<rparr>
         else
           (case (index_of (op_start e) (map tn_seq ns), index_of (op_end e) (map tn_seq ns)) of
              (Some i, Some j) \<Rightarrow>
                if i > j then Inl (PricedRangeMissing (ev_seq e) (op_start e) (op_end e))
                else Inr \<lparr>tf_tokens = tokens,
                          tf_nodes = splice i (j - i + 1) [node] ns,
                          tf_delta = int tokens - int (total_tokens (slice i (j + 1) ns))\<rparr>
            | _ \<Rightarrow> Inl (PricedRangeMissing (ev_seq e) (op_start e) (op_end e))))"

section \<open>The running total\<close>

record price_claim =
  pc_start :: nat
  pc_end :: nat
  pc_tokens :: rat

datatype projection_error = ClaimedOtherRange nat

definition foldSurfaceProjection ::
  "meter_env \<Rightarrow> price_claim option \<Rightarrow> 'q compact_payload event
   \<Rightarrow> projection_error + (rat \<times> price_claim option)" where
  "foldSurfaceProjection v claim e =
     (case ev_data e of
        Plugin (CompactSummary s) \<Rightarrow>
          Inr (0, Some \<lparr>pc_start = cp_start (cs_price s), pc_end = cp_end (cs_price s),
                        pc_tokens = cp_tokens (cs_price s)\<rparr>)
      | Plugin (CompactPrune p) \<Rightarrow>
          Inr (0, Some \<lparr>pc_start = cp_start p, pc_end = cp_end p, pc_tokens = cp_tokens p\<rparr>)
      | _ \<Rightarrow>
          if \<not> isSurfaceEvent e then Inr (0, None)
          else if ev_surfaceOp e = Some (JStr ''append'') then Inr (of_nat (event_price v e), None)
          else
            (case claim of
               None \<Rightarrow> Inr (0, None)
             | Some c \<Rightarrow>
                 if pc_start c \<noteq> op_start e \<or> pc_end c \<noteq> op_end e then Inl (ClaimedOtherRange (ev_seq e))
                 else Inr (of_nat (event_price v e) - pc_tokens c, None)))"

section \<open>The meter\<close>

datatype meter_baseline =
    NoBaseline
  | EstimatedBaseline rat
  | UsageBaseline rat json

fun baseline_tokens :: "meter_baseline \<Rightarrow> rat" where
  "baseline_tokens NoBaseline = 0"
| "baseline_tokens (EstimatedBaseline n) = n"
| "baseline_tokens (UsageBaseline n _) = n"

record meter_anchor =
  an_header :: "epoch_header option"
  an_surfaceTokens :: int
  an_baseline :: meter_baseline

record open_step =
  os_turn :: int
  os_step :: int
  os_surfaceTokens :: int

record meter_state =
  mt_consumed :: nat
  mt_header :: "epoch_header option"
  mt_surface :: "token_node list"
  mt_surfaceTokens :: int
  mt_stepStart :: "open_step option"
  mt_anchor :: "meter_anchor option"

definition newMeter :: meter_state where
  "newMeter = \<lparr>mt_consumed = 0, mt_header = None, mt_surface = [], mt_surfaceTokens = 0,
     mt_stepStart = None, mt_anchor = None\<rparr>"

text \<open>A count of a usage record; an absent or null optional count is zero.\<close>

definition usage_count :: "string \<Rightarrow> json \<Rightarrow> rat" where
  "usage_count k u = (case get_prop k u of Some (JNum r) \<Rightarrow> r | _ \<Rightarrow> 0)"

definition usageTokens :: "json \<Rightarrow> rat" where
  "usageTokens u = usage_count ''inputTokens'' u + usage_count ''cacheReadTokens'' u
     + usage_count ''cacheWriteTokens'' u + usage_count ''outputTokens'' u"

definition optionalHeaderEquals :: "epoch_header option \<Rightarrow> epoch_header option \<Rightarrow> bool" where
  "optionalHeaderEquals a b =
     (case (a, b) of (Some x, Some y) \<Rightarrow> headerEquals x y | _ \<Rightarrow> a = None \<and> b = None)"

text \<open>The loop over the cited chunks: the set of seqs seen and the assembler.\<close>

fun provider_loop ::
  "meter_env \<Rightarrow> 'p event list \<Rightarrow> 'p event \<Rightarrow> int \<Rightarrow> int \<Rightarrow> nat list \<Rightarrow> nat list \<Rightarrow> assembler
   \<Rightarrow> meter_error + assembler" where
  "provider_loop v evs e turn step [] seen a = Inr a"
| "provider_loop v evs e turn step (s # ss) seen a =
     (if s \<ge> ev_seq e then Inl (SourceNotEarlier (ev_seq e) s)
      else if s \<in> set seen then Inl (SourceRepeated (ev_seq e) s)
      else (case ev_data (evs ! s) of
          AssistantChunk t st c \<Rightarrow>
            if t \<noteq> turn \<or> st \<noteq> step then Inl (SourceOtherStep (ev_seq e) s)
            else provider_loop v evs e turn step ss (s # seen) (push a (me_chunk v c))
        | _ \<Rightarrow> Inl (SourceNotChunk (ev_seq e) s)))"

fun json_items :: "json \<Rightarrow> json list" where
  "json_items (JArr vs) = vs"
| "json_items _ = []"

definition estimateProviderAssistant ::
  "meter_env \<Rightarrow> 'p event list \<Rightarrow> 'p event \<Rightarrow> int \<Rightarrow> int \<Rightarrow> nat \<Rightarrow> meter_error + nat" where
  "estimateProviderAssistant v evs e turn step durable =
     (case ev_sources e of
        None \<Rightarrow> Inr durable
      | Some raw \<Rightarrow>
          rbind (provider_loop v evs e turn step (map seq_of (json_items raw)) [] newAssembler) (\<lambda>a.
            case blocks a of
              Inl x \<Rightarrow> Inl (SourceUnassembled x)
            | Inr content \<Rightarrow>
                Inr (if length content = 0 then 0 else estimateContent v content + ROLE_OVERHEAD)))"

definition anchorFor ::
  "meter_env \<Rightarrow> 'p event list \<Rightarrow> meter_state \<Rightarrow> 'p event \<Rightarrow> int \<Rightarrow> int \<Rightarrow> json option \<Rightarrow> nat
   \<Rightarrow> meter_error + meter_anchor" where
  "anchorFor v evs s e turn step usage eventTokens =
     (case mt_stepStart s of
        None \<Rightarrow> Inl (AssistantOutsideStep (ev_seq e))
      | Some st \<Rightarrow>
          if os_turn st \<noteq> turn \<or> os_step st \<noteq> step then Inl (AssistantOutsideStep (ev_seq e))
          else
            let estimate = (\<lambda>n. of_nat (estimateHeader v (mt_header s)) + of_int n)
            in case (usage, mt_header s) of
                 (Some u, Some h) \<Rightarrow>
                   rbind (estimateProviderAssistant v evs e turn step eventTokens) (\<lambda>provider.
                     let anchorTokens = os_surfaceTokens st + int provider;
                         estimated = estimate anchorTokens
                     in Inr \<lparr>an_header = mt_header s, an_surfaceTokens = anchorTokens,
                          an_baseline = (if usageTokens u \<ge> estimated then UsageBaseline (usageTokens u) u
                            else EstimatedBaseline estimated)\<rparr>)
               | _ \<Rightarrow>
                   let anchorTokens = os_surfaceTokens st + int eventTokens
                   in Inr \<lparr>an_header = mt_header s, an_surfaceTokens = anchorTokens,
                        an_baseline = EstimatedBaseline (estimate anchorTokens)\<rparr>)"

definition nextStepStart :: "meter_state \<Rightarrow> 'p event \<Rightarrow> meter_error + open_step option" where
  "nextStepStart s e =
     (case ev_data e of
        StepStart t st \<Rightarrow>
          (case mt_stepStart s of
             Some o' \<Rightarrow> Inl (StepStillOpen (ev_seq e) (os_turn o') (os_step o'))
           | None \<Rightarrow> Inr (Some \<lparr>os_turn = t, os_step = st, os_surfaceTokens = mt_surfaceTokens s\<rparr>))
      | StepEnd t st \<Rightarrow>
          (case mt_stepStart s of
             None \<Rightarrow> Inl (StepEndUnmatched (ev_seq e))
           | Some o' \<Rightarrow>
               if os_turn o' \<noteq> t \<or> os_step o' \<noteq> st then Inl (StepEndUnmatched (ev_seq e)) else Inr None)
      | _ \<Rightarrow> Inr (mt_stepStart s))"

definition foldEvent ::
  "meter_env \<Rightarrow> 'p event list \<Rightarrow> meter_state \<Rightarrow> 'p event \<Rightarrow> meter_error + meter_state" where
  "foldEvent v evs s e =
     rbind (nextStepStart s e) (\<lambda>stepStart.
     rbind (if isSurfaceEvent e then map_sum id Some (foldSurfaceTokens v (mt_surface s) e) else Inr None)
       (\<lambda>surface.
     rbind (case ev_data e of
              AssistantMessage turn step m usage _ \<Rightarrow>
                map_sum id Some (anchorFor v evs s e turn step usage
                  (case surface of Some f \<Rightarrow> tf_tokens f | None \<Rightarrow> 0))
            | _ \<Rightarrow> Inr (mt_anchor s)) (\<lambda>anchor.
       Inr (s\<lparr>mt_header := (case ev_data e of RequestHeader h _ \<Rightarrow> Some (canonicalHeader h) | _ \<Rightarrow> mt_header s),
              mt_stepStart := stepStart,
              mt_surface := (case surface of Some f \<Rightarrow> tf_nodes f | None \<Rightarrow> mt_surface s),
              mt_surfaceTokens := mt_surfaceTokens s + (case surface of Some f \<Rightarrow> tf_delta f | None \<Rightarrow> 0),
              mt_anchor := anchor\<rparr>))))"

fun sync_loop ::
  "meter_env \<Rightarrow> 'p event list \<Rightarrow> meter_state \<Rightarrow> 'p event list \<Rightarrow> meter_state \<times> (meter_error + unit)" where
  "sync_loop v evs s [] = (s, Inr ())"
| "sync_loop v evs s (e # es) =
     (case foldEvent v evs s e of
        Inl x \<Rightarrow> (s, Inl x)
      | Inr s' \<Rightarrow> sync_loop v evs (s'\<lparr>mt_consumed := mt_consumed s' + 1\<rparr>) es)"

definition meter_sync :: "meter_env \<Rightarrow> 'p event list \<Rightarrow> meter_state \<Rightarrow> meter_state \<times> (meter_error + unit)" where
  "meter_sync v evs s = sync_loop v evs s (drop (mt_consumed s) evs)"

record token_measurement =
  tm_logRevision :: nat
  tm_baseline :: meter_baseline
  tm_surfaceDelta :: int
  tm_total :: rat
  tm_surfaceTokens :: int
  tm_nodes :: "token_node list"

definition measured :: "meter_env \<Rightarrow> meter_state \<Rightarrow> epoch_header option \<Rightarrow> token_measurement" where
  "measured v s requestHeader =
     (let header = (case requestHeader of None \<Rightarrow> mt_header s | Some h \<Rightarrow> Some (canonicalHeader h));
          (baseline, delta) =
            (case mt_anchor s of
               Some a \<Rightarrow>
                 if optionalHeaderEquals (an_header a) header
                 then (an_baseline a, mt_surfaceTokens s - an_surfaceTokens a)
                 else if header = None \<and> mt_surfaceTokens s = 0 then (NoBaseline, 0)
                 else (EstimatedBaseline (of_nat (estimateHeader v header) + of_int (mt_surfaceTokens s)), 0)
             | None \<Rightarrow>
                 if header = None \<and> mt_surfaceTokens s = 0 then (NoBaseline, 0)
                 else (EstimatedBaseline (of_nat (estimateHeader v header) + of_int (mt_surfaceTokens s)), 0))
      in \<lparr>tm_logRevision = mt_consumed s, tm_baseline = baseline, tm_surfaceDelta = delta,
          tm_total = max 0 (baseline_tokens baseline + of_int delta),
          tm_surfaceTokens = mt_surfaceTokens s, tm_nodes = mt_surface s\<rparr>)"

definition measure_session ::
  "meter_env \<Rightarrow> 'p event list \<Rightarrow> epoch_header option \<Rightarrow> meter_state
   \<Rightarrow> meter_state \<times> (meter_error + token_measurement)" where
  "measure_session v evs requestHeader s =
     (case meter_sync v evs s of
        (s', Inl x) \<Rightarrow> (s', Inl x)
      | (s', Inr _) \<Rightarrow> (s', Inr (measured v s' requestHeader)))"

section \<open>The priced surface follows the surface\<close>

definition priced :: "meter_env \<Rightarrow> 'p event list \<Rightarrow> nat list \<Rightarrow> token_node list" where
  "priced v evs ns = map (\<lambda>n. \<lparr>tn_seq = n, tn_tokens = event_price v (evs ! n)\<rparr>) ns"

lemma priced_seqs [simp]: "map tn_seq (priced v evs ns) = ns"
  by (simp add: priced_def comp_def)

lemma priced_append: "priced v evs (xs @ ys) = priced v evs xs @ priced v evs ys"
  by (simp add: priced_def)

lemma priced_extend: "\<forall>n \<in> set ns. n < length evs \<Longrightarrow> priced v (evs @ later) ns = priced v evs ns"
  by (auto simp: priced_def nth_append)

lemma priced_slice: "slice i j (priced v evs ns) = priced v evs (slice i j ns)"
  by (simp add: priced_def slice_def take_map drop_map)

lemma priced_splice:
  "splice i n (priced v evs xs) (priced v evs ns) = priced v evs (splice i n xs ns)"
  by (simp add: priced_def splice_def take_map drop_map)

lemma total_tokens_append [simp]: "total_tokens (xs @ ys) = total_tokens xs + total_tokens ys"
  by (simp add: total_tokens_def)

lemma total_splice:
  assumes "i \<le> j" and "j < length ns"
  shows "int (total_tokens (splice i (j - i + 1) xs ns))
    = int (total_tokens ns) + int (total_tokens xs) - int (total_tokens (slice i (j + 1) ns))"
proof -
  have "total_tokens ns = total_tokens (take i ns @ slice i (Suc j) ns @ drop (Suc j) ns)"
    using splice_parts [OF assms] by metis
  then have parts: "total_tokens ns
      = total_tokens (take i ns) + total_tokens (slice i (Suc j) ns) + total_tokens (drop (Suc j) ns)"
    by simp
  have "i + (j - i + 1) = Suc j" using assms by simp
  with parts show ?thesis by (simp add: splice_def)
qed

lemma price_step:
  assumes "fold_window 0 pre = Inr (st, reps, k)" and "fold_window 0 (pre @ [e]) = Inr (st', reps', k')"
  shows "if isSurfaceEvent e
    then \<exists>f. foldSurfaceTokens v (priced v pre (nodes st)) e = Inr f
      \<and> tf_tokens f = event_price v e \<and> tf_nodes f = priced v (pre @ [e]) (nodes st')
      \<and> tf_delta f = int (total_tokens (priced v (pre @ [e]) (nodes st'))) - int (total_tokens (priced v pre (nodes st)))
    else priced v (pre @ [e]) (nodes st') = priced v pre (nodes st)"
proof -
  have less: "\<forall>n \<in> set (nodes st). n < length pre"
    using fold_window_hist [OF assms(1)] hist_nodes_less by fastforce
  note ext = priced_extend [OF less, of v "[e]"]
  have node: "\<lparr>tn_seq = length pre, tn_tokens = event_price v e\<rparr> # [] = priced v (pre @ [e]) [length pre]"
    by (simp add: priced_def)
  from assms show ?thesis
  proof (cases rule: surface_step_cases)
    case off
    then show ?thesis using ext by simp
  next
    case append
    then show ?thesis
      using ext by (simp add: foldSurfaceTokens_def Let_def priced_append total_tokens_def) (simp add: priced_def)
  next
    case (replace i j)
    have "splice i (j - i + 1) [\<lparr>tn_seq = length pre, tn_tokens = event_price v e\<rparr>] (priced v pre (nodes st))
        = priced v (pre @ [e]) (nodes st')"
      unfolding replace(8) priced_splice [symmetric] ext node ..
    moreover from this have "int (total_tokens (priced v (pre @ [e]) (nodes st')))
        = int (total_tokens (priced v pre (nodes st))) + int (event_price v e)
          - int (total_tokens (slice i (j + 1) (priced v pre (nodes st))))"
      using total_splice [of i j "priced v pre (nodes st)"
          "[\<lparr>tn_seq = length pre, tn_tokens = event_price v e\<rparr>]"] replace(6,7)
      by (simp add: priced_def total_tokens_def)
    ultimately show ?thesis
      using replace by (simp add: foldSurfaceTokens_def Let_def)
  qed
qed

text \<open>
  What a meter that consumed a prefix of a valid log holds: the header of the prefix, the priced
  surface and its total, and anchors no lower than the estimate they stand for.
\<close>

definition anchor_ok :: "meter_env \<Rightarrow> meter_anchor \<Rightarrow> bool" where
  "anchor_ok v a \<longleftrightarrow>
     (let estimate = of_nat (estimateHeader v (an_header a)) + of_int (an_surfaceTokens a)
      in case an_baseline a of
           NoBaseline \<Rightarrow> False
         | EstimatedBaseline n \<Rightarrow> n = estimate
         | UsageBaseline n u \<Rightarrow> estimate \<le> n \<and> n = usageTokens u)"

definition meter_inv :: "meter_env \<Rightarrow> 'p event list \<Rightarrow> meter_state \<Rightarrow> bool" where
  "meter_inv v evs s \<longleftrightarrow>
     mt_consumed s \<le> length evs
     \<and> mt_header s = foldRequestHeader (take (mt_consumed s) evs) None
     \<and> (\<exists>st reps k. fold_window 0 (take (mt_consumed s) evs) = Inr (st, reps, k)
         \<and> mt_surface s = priced v (take (mt_consumed s) evs) (nodes st))
     \<and> mt_surfaceTokens s = int (total_tokens (mt_surface s))
     \<and> (\<forall>a. mt_anchor s = Some a \<longrightarrow> anchor_ok v a)"

lemma anchorFor_ok: "anchorFor v evs s e t st u n = Inr a \<Longrightarrow> anchor_ok v a"
  by (auto simp: anchorFor_def anchor_ok_def Let_def result_simps split: option.splits if_splits)

lemma fold_prefix_ok:
  assumes "fold_window 0 evs = Inr w"
  obtains st reps where "fold_window 0 (take n evs) = Inr (st, reps, min n (length evs))"
proof -
  have "fold_window 0 (take n evs @ drop n evs) = Inr w" using assms by simp
  then obtain s where s: "fold_window 0 (take n evs) = Inr s"
    unfolding fold_window_append by (auto simp: result_simps)
  then have "s = (fst s, fst (snd s), min n (length evs))"
    using fold_window_hist [OF s] by (auto simp: surface_hist_def split: prod.splits)
  with s that [of "fst s" "fst (snd s)"] show ?thesis by metis
qed

lemma foldEvent_inv:
  assumes "fold_window 0 evs = Inr w" and "meter_inv v evs s" and "mt_consumed s < length evs"
    and "foldEvent v evs s (evs ! mt_consumed s) = Inr s'"
  shows "meter_inv v evs (s'\<lparr>mt_consumed := mt_consumed s' + 1\<rparr>) \<and> mt_consumed s' = mt_consumed s"
proof -
  let ?pre = "take (mt_consumed s) evs" let ?e = "evs ! mt_consumed s"
  have snoc: "take (Suc (mt_consumed s)) evs = ?pre @ [?e]"
    using assms(3) by (simp add: take_Suc_conv_app_nth)
  obtain st reps k where st: "fold_window 0 ?pre = Inr (st, reps, k)"
    and surf: "mt_surface s = priced v ?pre (nodes st)"
    using assms(2) by (auto simp: meter_inv_def)
  obtain st' reps' where st': "fold_window 0 (?pre @ [?e]) = Inr (st', reps', min (Suc (mt_consumed s)) (length evs))"
    using fold_prefix_ok [OF assms(1), of "Suc (mt_consumed s)"] snoc by metis
  note step = price_step [OF st st', of v]
  obtain stepStart surface anchor where d:
    "(if isSurfaceEvent ?e then map_sum id Some (foldSurfaceTokens v (mt_surface s) ?e) else Inr None) = Inr surface"
    "(case ev_data ?e of AssistantMessage turn step m usage _ \<Rightarrow>
        map_sum id Some (anchorFor v evs s ?e turn step usage (case surface of Some f \<Rightarrow> tf_tokens f | None \<Rightarrow> 0))
      | _ \<Rightarrow> Inr (mt_anchor s)) = Inr anchor"
    and s': "s' = s\<lparr>mt_header := (case ev_data ?e of RequestHeader h _ \<Rightarrow> Some (canonicalHeader h) | _ \<Rightarrow> mt_header s),
        mt_stepStart := stepStart,
        mt_surface := (case surface of Some f \<Rightarrow> tf_nodes f | None \<Rightarrow> mt_surface s),
        mt_surfaceTokens := mt_surfaceTokens s + (case surface of Some f \<Rightarrow> tf_delta f | None \<Rightarrow> 0),
        mt_anchor := anchor\<rparr>"
    using assms(4) by (auto simp: foldEvent_def result_simps)
  have "mt_surface s' = priced v (?pre @ [?e]) (nodes st')
      \<and> mt_surfaceTokens s' = int (total_tokens (mt_surface s'))"
    using step d(1) s' surf assms(2) by (auto simp: meter_inv_def split: if_splits)
  moreover have "mt_header s' = foldRequestHeader (?pre @ [?e]) None"
  proof -
    have "mt_header s = foldRequestHeader ?pre None" using assms(2) by (simp add: meter_inv_def)
    then show ?thesis by (simp add: s' foldRequestHeader_append split: event_data.split)
  qed
  moreover have "\<forall>a. mt_anchor s' = Some a \<longrightarrow> anchor_ok v a"
    using d(2) s' assms(2)
    by (auto simp: meter_inv_def map_sum_def split: event_data.splits sum.splits dest: anchorFor_ok)
  ultimately show ?thesis
    using assms(3) st' snoc s' by (auto simp: meter_inv_def)
qed

lemma sync_loop_inv:
  assumes "fold_window 0 evs = Inr w"
  shows "meter_inv v evs s \<Longrightarrow> es = drop (mt_consumed s) evs \<Longrightarrow>
    meter_inv v evs (fst (sync_loop v evs s es))
    \<and> (snd (sync_loop v evs s es) = Inr () \<longrightarrow> mt_consumed (fst (sync_loop v evs s es)) = length evs)"
proof (induction es arbitrary: s)
  case Nil
  then show ?case by (simp add: meter_inv_def)
next
  case (Cons e es)
  then have n: "mt_consumed s < length evs" "e = evs ! mt_consumed s" "es = drop (mt_consumed s + 1) evs"
    by (metis drop_all list.distinct(1) not_less, metis nth_via_drop, simp add: drop_Suc)
      (metis Cons.prems(2) drop_Suc list.sel(3) tl_drop)
  show ?case
  proof (cases "foldEvent v evs s e")
    case (Inr s')
    with foldEvent_inv [OF assms Cons.prems(1) n(1)] n
    have "meter_inv v evs (s'\<lparr>mt_consumed := mt_consumed s' + 1\<rparr>)" "mt_consumed s' = mt_consumed s"
      by auto
    then show ?thesis using Cons.IH [of "s'\<lparr>mt_consumed := mt_consumed s' + 1\<rparr>"] n Inr by simp
  qed (use Cons.prems(1) in simp)
qed

lemmas sync_inv = sync_loop_inv [OF _ _ refl, folded meter_sync_def]

section \<open>Properties\<close>

text \<open>The states of a meter: the log grows and is caught up with at any time.\<close>

inductive meter_reach :: "meter_env \<Rightarrow> 'p event list \<Rightarrow> meter_state \<Rightarrow> bool" for v where
  mr_new: "meter_reach v evs newMeter"
| mr_sync: "meter_reach v evs s \<Longrightarrow> meter_reach v evs (fst (meter_sync v evs s))"
| mr_grow: "meter_reach v evs s \<Longrightarrow> meter_reach v (evs @ later) s"

lemma newMeter_inv: "meter_inv v evs newMeter"
  by (simp add: meter_inv_def newMeter_def fold_window_def createFoldState_def priced_def total_tokens_def)

lemma meter_inv_grow: "meter_inv v evs s \<Longrightarrow> meter_inv v (evs @ later) s"
  by (simp add: meter_inv_def)

lemma meter_reach_inv:
  "meter_reach v evs s \<Longrightarrow> fold_window 0 evs = Inr w \<Longrightarrow> meter_inv v evs s"
proof (induction arbitrary: w rule: meter_reach.induct)
  case (mr_sync evs s)
  then show ?case using sync_inv [of evs w v s] by blast
next
  case (mr_grow evs s later)
  then obtain w' where "fold_window 0 evs = Inr w'"
    by (auto simp: fold_window_append result_simps)
  with mr_grow.IH have "meter_inv v evs s" .
  then show ?case by (rule meter_inv_grow)
qed (rule newMeter_inv)

lemma header_tokens:
  assumes "optionalHeaderEquals a b"
  shows "estimateHeader v a = estimateHeader v b"
proof (cases a; cases b)
  fix x y assume ab: "a = Some x" "b = Some y"
  with assms have "headerEquals x y" by (simp add: optionalHeaderEquals_def del: headerEquals.simps)
  then have "eh_system x = eh_system y"
    and "(case eh_tools x of Some t \<Rightarrow> t | None \<Rightarrow> []) = (case eh_tools y of Some t \<Rightarrow> t | None \<Rightarrow> [])"
    by (simp_all add: sameSchema_eq list.rel_eq Let_def split: if_splits)
  then show ?thesis
    by (cases "eh_tools x"; cases "eh_tools y")
      (simp_all add: ab estimateHeader_def estimateSystemTokens_def estimateToolsTokens_def)
qed (use assms in \<open>simp_all add: optionalHeaderEquals_def\<close>)

definition effectiveHeader :: "'p event list \<Rightarrow> epoch_header option \<Rightarrow> epoch_header option" where
  "effectiveHeader evs h =
     (case h of None \<Rightarrow> foldRequestHeader evs None | Some x \<Rightarrow> Some (canonicalHeader x))"

definition usage_based :: "meter_baseline \<Rightarrow> bool" where
  "usage_based b = (case b of UsageBaseline _ _ \<Rightarrow> True | _ \<Rightarrow> False)"

lemma measured_cases:
  assumes "(case h of None \<Rightarrow> mt_header s | Some x \<Rightarrow> Some (canonicalHeader x)) = hdr"
  obtains (anchor) a where "mt_anchor s = Some a" and "optionalHeaderEquals (an_header a) hdr"
      and "tm_baseline (measured v s h) = an_baseline a"
      and "tm_total (measured v s h)
        = max 0 (baseline_tokens (an_baseline a) + of_int (mt_surfaceTokens s - an_surfaceTokens a))"
  | (empty) "hdr = None" and "mt_surfaceTokens s = 0" and "tm_total (measured v s h) = 0"
  | (estimate) "tm_total (measured v s h)
        = max 0 (of_nat (estimateHeader v hdr) + of_int (mt_surfaceTokens s))"
proof (cases "\<exists>a. mt_anchor s = Some a \<and> optionalHeaderEquals (an_header a) hdr")
  case True
  then show ?thesis using assms anchor by (auto simp: measured_def Let_def)
next
  case False
  then show ?thesis
    using assms empty estimate
    by (cases "hdr = None \<and> mt_surfaceTokens s = 0"; cases "mt_anchor s")
      (auto simp: measured_def Let_def)
qed

lemma anchor_bounds:
  assumes "anchor_ok v a" and "optionalHeaderEquals (an_header a) hdr"
  shows "of_nat (estimateHeader v hdr) + of_int (an_surfaceTokens a) \<le> baseline_tokens (an_baseline a)"
    and "\<not> usage_based (an_baseline a) \<Longrightarrow>
      baseline_tokens (an_baseline a) = of_nat (estimateHeader v hdr) + of_int (an_surfaceTokens a)"
  using assms(1) header_tokens [OF assms(2), of v]
  by (auto simp: anchor_ok_def usage_based_def Let_def split: meter_baseline.splits)

lemma measured_bounds:
  assumes "meter_inv v evs s" and "mt_consumed s = length evs"
  shows "of_nat (estimateHeader v (effectiveHeader evs h)) + of_int (mt_surfaceTokens s) \<le> tm_total (measured v s h)"
    and "\<not> usage_based (tm_baseline (measured v s h)) \<Longrightarrow>
      tm_total (measured v s h) = of_nat (estimateHeader v (effectiveHeader evs h)) + of_int (mt_surfaceTokens s)"
proof -
  let ?hdr = "effectiveHeader evs h"
  have hdr: "(case h of None \<Rightarrow> mt_header s | Some x \<Rightarrow> Some (canonicalHeader x)) = ?hdr"
    using assms by (simp add: effectiveHeader_def meter_inv_def split: option.split)
  have pos: "(0::rat) \<le> of_nat (estimateHeader v ?hdr) + of_int (mt_surfaceTokens s)"
    using assms(1) by (simp add: meter_inv_def)
  have plain: "?hdr = None \<Longrightarrow> estimateHeader v ?hdr = 0"
    by (simp add: estimateHeader_def estimateSystemTokens_def estimateToolsTokens_def)
  have ok: "mt_anchor s = Some a \<Longrightarrow> anchor_ok v a" for a using assms(1) by (simp add: meter_inv_def)
  show "of_nat (estimateHeader v ?hdr) + of_int (mt_surfaceTokens s) \<le> tm_total (measured v s h)"
    using hdr
  proof (cases rule: measured_cases [where v = v])
    case (anchor a)
    then show ?thesis using anchor_bounds(1) [OF ok anchor(2)] by simp
  qed (use pos plain in auto)
  assume b: "\<not> usage_based (tm_baseline (measured v s h))"
  from hdr show "tm_total (measured v s h) = of_nat (estimateHeader v ?hdr) + of_int (mt_surfaceTokens s)"
  proof (cases rule: measured_cases [where v = v])
    case (anchor a)
    then show ?thesis using anchor_bounds(2) [OF ok anchor(2)] b pos by simp
  qed (use pos plain in auto)
qed

text \<open>
  C14. A measurement is exact on the surface and never below the estimate: whenever a meter
  follows a valid log, a measurement that succeeds covers the whole log, prices each surface node
  by the event it names, in surface order, and its total is at least the price of the effective
  request header plus the surface, and exactly that unless a provider's usage is its baseline.
\<close>

theorem measure_conservative:
  assumes "foldSurface evs = Inr (st, reps)" and "meter_reach v evs s"
    and "measure_session v evs h s = (s', Inr m)"
  shows "tm_logRevision m = length evs
    \<and> tm_nodes m = map (\<lambda>n. \<lparr>tn_seq = n, tn_tokens = event_price v (evs ! n)\<rparr>) (nodes st)
    \<and> tm_surfaceTokens m = int (total_tokens (tm_nodes m))
    \<and> of_nat (estimateHeader v (effectiveHeader evs h)) + of_int (tm_surfaceTokens m) \<le> tm_total m
    \<and> (\<not> usage_based (tm_baseline m) \<longrightarrow>
        tm_total m = of_nat (estimateHeader v (effectiveHeader evs h)) + of_int (tm_surfaceTokens m))"
proof -
  have fw: "fold_window 0 evs = Inr (st, reps, length evs)" using assms(1) by (simp add: foldSurface_window)
  have s': "meter_sync v evs s = (s', Inr ())" "m = measured v s' h"
    using assms(3) by (auto simp: measure_session_def split: prod.splits sum.splits)
  have inv: "meter_inv v evs s'" and all: "mt_consumed s' = length evs"
    using sync_inv [OF fw meter_reach_inv [OF assms(2) fw]] s'(1) by auto
  have proj: "tm_logRevision m = mt_consumed s'" "tm_surfaceTokens m = mt_surfaceTokens s'"
    "tm_nodes m = mt_surface s'"
    by (simp_all add: s'(2) measured_def Let_def split: prod.split)
  moreover have "mt_surface s' = priced v evs (nodes st)" "mt_surfaceTokens s' = int (total_tokens (mt_surface s'))"
    using inv all fw by (auto simp: meter_inv_def)
  ultimately show ?thesis
    using measured_bounds [OF inv all, of h] all s'(2) by (auto simp: priced_def)
qed

section \<open>The running total\<close>

fun price_of :: "'q compact_payload event_data \<Rightarrow> compact_price option" where
  "price_of (Plugin (CompactSummary s)) = Some (cs_price s)"
| "price_of (Plugin (CompactPrune p)) = Some p"
| "price_of _ = None"

definition total_step ::
  "meter_env \<Rightarrow> rat \<times> price_claim option \<Rightarrow> 'q compact_payload event
   \<Rightarrow> projection_error + (rat \<times> price_claim option)" where
  "total_step v s e = (case s of (acc, claim) \<Rightarrow>
     rbind (foldSurfaceProjection v claim e) (\<lambda>(delta, claim'). Inr (acc + delta, claim')))"

text \<open>Every replacement directly follows an event that states the price of the range it replaces.\<close>

definition metered :: "meter_env \<Rightarrow> 'q compact_payload event list \<Rightarrow> replacement list \<Rightarrow> bool" where
  "metered v evs reps \<longleftrightarrow>
     (\<forall>r \<in> set reps. 0 < rp_seq r \<and> (\<exists>p. price_of (ev_data (evs ! (rp_seq r - 1))) = Some p
        \<and> cp_start p = rp_start r \<and> cp_end p = rp_end r
        \<and> cp_tokens p = of_nat (\<Sum>n \<leftarrow> rp_shadowed r. event_price v (evs ! n))))"

definition claim_of :: "compact_price \<Rightarrow> price_claim" where
  "claim_of p = \<lparr>pc_start = cp_start p, pc_end = cp_end p, pc_tokens = cp_tokens p\<rparr>"

lemma price_of_off: "price_of (ev_data e) = Some p \<Longrightarrow> \<not> isSurfaceEvent e"
  by (cases "ev_data e" rule: price_of.cases) (auto simp: isSurfaceEvent_def)

lemma projection_eq:
  "foldSurfaceProjection v claim e =
     (if \<not> isSurfaceEvent e then Inr (0, map_option claim_of (price_of (ev_data e)))
      else if appends e then Inr (of_nat (event_price v e), None)
      else (case claim of
          None \<Rightarrow> Inr (0, None)
        | Some c \<Rightarrow>
            if pc_start c \<noteq> op_start e \<or> pc_end c \<noteq> op_end e then Inl (ClaimedOtherRange (ev_seq e))
            else Inr (of_nat (event_price v e) - pc_tokens c, None)))"
  using price_of_off [of e]
  by (cases "ev_data e" rule: price_of.cases)
    (auto simp: foldSurfaceProjection_def claim_of_def isSurfaceEvent_def split: option.splits)

lemma metered_prefix:
  assumes "fold_window 0 pre = Inr (st, reps, k)" and "metered v (pre @ [e]) (reps @ later)"
  shows "metered v pre reps"
proof -
  have "\<forall>r \<in> set reps. rp_seq r < length pre \<and> (\<forall>n \<in> set (rp_shadowed r). n < length pre)"
    using fold_window_hist [OF assms(1)]
    by (fastforce simp: surface_hist_def replacement_sound_def shadowed_seqs_def dest: hist_seq_less)
  note less = this
  have "(\<Sum>n \<leftarrow> rp_shadowed r. event_price v ((pre @ [e]) ! n)) = (\<Sum>n \<leftarrow> rp_shadowed r. event_price v (pre ! n))"
    and "(pre @ [e]) ! (rp_seq r - 1) = pre ! (rp_seq r - 1)" if "r \<in> set reps" for r
    using less that by (auto simp: nth_append intro!: arg_cong [of _ _ sum_list])
  moreover have "\<forall>r \<in> set reps. 0 < rp_seq r \<and> (\<exists>p. price_of (ev_data ((pre @ [e]) ! (rp_seq r - 1))) = Some p
        \<and> cp_start p = rp_start r \<and> cp_end p = rp_end r
        \<and> cp_tokens p = of_nat (\<Sum>n \<leftarrow> rp_shadowed r. event_price v ((pre @ [e]) ! n)))"
    using assms(2) unfolding metered_def by auto
  ultimately show ?thesis unfolding metered_def by simp
qed

lemma total_exact:
  "fold_window 0 evs = Inr (st, reps, k) \<Longrightarrow> metered v evs reps \<Longrightarrow>
   run_steps (total_step v) (0, None) evs = Inr (of_nat (total_tokens (priced v evs (nodes st))),
     if evs = [] then None else map_option claim_of (price_of (ev_data (last evs))))"
proof (induction evs arbitrary: st reps k rule: rev_induct)
  case Nil
  then show ?case by (auto simp: fold_window_def createFoldState_def priced_def total_tokens_def)
next
  case (snoc e pre)
  obtain st0 reps0 k0 where st0: "fold_window 0 pre = Inr (st0, reps0, k0)"
    using snoc.prems(1) by (auto simp: fold_window_snoc result_simps)
  have grow: "\<exists>later. reps = reps0 @ later" using st0 snoc.prems(1) by (cases rule: surface_step_cases) auto
  then have met: "metered v pre reps0" using metered_prefix [OF st0] snoc.prems(2) by auto
  note run = snoc.IH [OF st0 met]
  note step = price_step [OF st0 snoc.prems(1), of v]
  from st0 snoc.prems(1) show ?case
  proof (cases rule: surface_step_cases)
    case off
    then show ?thesis using run step by (simp add: run_steps_snoc total_step_def projection_eq)
  next
    case append
    then have "total_tokens (priced v (pre @ [e]) (nodes st))
        = total_tokens (priced v pre (nodes st0)) + event_price v e"
      using step by (auto simp: foldSurfaceTokens_def Let_def)
    moreover have "price_of (ev_data e) = None" using append(1) price_of_off by fastforce
    ultimately show ?thesis using run append by (simp add: run_steps_snoc total_step_def projection_eq)
  next
    case (replace i j)
    obtain p where p: "price_of (ev_data ((pre @ [e]) ! (length pre - 1))) = Some p" "0 < length pre"
      "cp_start p = op_start e" "cp_end p = op_end e"
      "cp_tokens p = of_nat (\<Sum>n \<leftarrow> slice i (Suc j) (nodes st0). event_price v ((pre @ [e]) ! n))"
      using snoc.prems(2) replace(10) by (auto simp: metered_def)
    have less: "\<forall>n \<in> set (slice i (Suc j) (nodes st0)). n < length pre"
      using fold_window_hist [OF st0] hist_nodes_less set_slice_subset by fastforce
    have "(\<Sum>n \<leftarrow> slice i (Suc j) (nodes st0). event_price v ((pre @ [e]) ! n))
        = total_tokens (slice i (j + 1) (priced v pre (nodes st0)))"
      unfolding priced_slice using less
      by (auto simp: priced_def total_tokens_def nth_append intro!: arg_cong [of _ _ sum_list])
    with p(5) have tokens: "cp_tokens p = of_nat (total_tokens (slice i (j + 1) (priced v pre (nodes st0))))"
      by simp
    have delta: "int (total_tokens (priced v (pre @ [e]) (nodes st))) = int (total_tokens (priced v pre (nodes st0)))
        + int (event_price v e) - int (total_tokens (slice i (j + 1) (priced v pre (nodes st0))))"
      using step replace by (auto simp: foldSurfaceTokens_def Let_def split: if_splits)
    have "of_nat (total_tokens (priced v (pre @ [e]) (nodes st)))
        = of_nat (total_tokens (priced v pre (nodes st0))) + (of_nat (event_price v e) - cp_tokens p)"
      unfolding tokens using arg_cong [OF delta, of "of_int :: int \<Rightarrow> rat"] by simp
    moreover have "last pre = (pre @ [e]) ! (length pre - 1)" and "pre \<noteq> []"
      using p(2) by (auto simp: last_conv_nth nth_append)
    moreover have "price_of (ev_data e) = None" using replace(1) price_of_off by fastforce
    ultimately show ?thesis
      using run p replace(1,2) by (simp add: run_steps_snoc total_step_def projection_eq claim_of_def)
  qed
qed

text \<open>
  The running total that keeps no price per node agrees with the positional fold: on a valid
  log in which every replacement directly follows the event that prices its range, folding the
  total never fails and ends in the sum of the prices of the current surface.
\<close>

theorem running_total_agrees:
  assumes "foldSurface evs = Inr (st, reps)" and "metered v evs reps"
  shows "\<exists>claim. run_steps (total_step v) (0, None) evs
    = Inr (of_nat (\<Sum>n \<leftarrow> nodes st. event_price v (evs ! n)), claim)"
  using total_exact [of evs st reps _ v] assms
  by (simp add: foldSurface_window priced_def total_tokens_def comp_def)

section \<open>Witnesses\<close>

definition sample_env :: meter_env where
  "sample_env = \<lparr>me_blockJson = \<lambda>_. 40, me_toolsJson = \<lambda>ts. 20 * length ts, me_chunk = \<lambda>_. ChUsage JNull\<rparr>"

definition sample_priced_log :: "unit compact_payload event list" where
  "sample_priced_log =
     [\<lparr>ev_data = UserMessage (sample_message ''a long question''), ev_seq = 0, ev_time = 0,
       ev_ignorable = False, ev_surfaceOp = Some (JStr ''append''), ev_sources = None\<rparr>,
      \<lparr>ev_data = Plugin (CompactPrune \<lparr>cp_start = 0, cp_end = 0, cp_seqs = [0],
         cp_tokens = of_nat (estimateMessage sample_env (sample_message ''a long question''))\<rparr>),
       ev_seq = 1, ev_time = 0, ev_ignorable = False, ev_surfaceOp = None, ev_sources = None\<rparr>,
      \<lparr>ev_data = UserMessage (sample_message ''short''), ev_seq = 2, ev_time = 0, ev_ignorable = False,
       ev_surfaceOp = Some (JObj [(''op'', JStr ''replace''), (''start'', JInt 0), (''end'', JInt 0)]),
       ev_sources = Some (JArr [JInt 0, JInt 1])\<rparr>]"

lemma sample_priced_folds:
  "foldSurface sample_priced_log = Inr (\<lparr>nodes = [2], replaceGeneration = 1\<rparr>,
     [\<lparr>rp_seq = 2, rp_start = 0, rp_end = 0, rp_shadowed = [0]\<rparr>])"
  by (simp add: sample_priced_log_def foldSurface_def fold_window_def surface_step_def
      applySurfaceEvent_def planSurfaceEvent_def surfaceOpOf_def isReplaceOp_def seq_of_def
      assertProvenance_def cited_sources_def createFoldState_def replacementRange_def slice_def
      splice_def assertToolResultRewrite_def JInt_def is_safe_integer_def safe_int_def max_safe_def)

lemma sample_priced_syncs: "snd (meter_sync sample_env sample_priced_log newMeter) = Inr ()"
  by (simp add: meter_sync_def newMeter_def sample_priced_log_def foldEvent_def nextStepStart_def
      isSurfaceEvent_def foldSurfaceTokens_def op_start_def op_end_def Let_def)

theorem measure_conservative_witness:
  "\<exists>s' m. measure_session sample_env sample_priced_log None newMeter = (s', Inr m)
    \<and> tm_nodes m = [\<lparr>tn_seq = 2, tn_tokens = event_price sample_env (sample_priced_log ! 2)\<rparr>]
    \<and> tm_logRevision m = 3"
proof -
  obtain s' m where m: "measure_session sample_env sample_priced_log None newMeter = (s', Inr m)"
    using sample_priced_syncs
    by (cases "meter_sync sample_env sample_priced_log newMeter") (auto simp: measure_session_def)
  show ?thesis
    using measure_conservative [OF sample_priced_folds mr_new m] m by (auto simp: sample_priced_log_def)
qed

theorem running_total_agrees_witness:
  "\<exists>claim. run_steps (total_step sample_env) (0, None) sample_priced_log
    = Inr (of_nat (event_price sample_env (sample_priced_log ! 2)), claim)"
proof -
  have "metered sample_env sample_priced_log [\<lparr>rp_seq = 2, rp_start = 0, rp_end = 0, rp_shadowed = [0]\<rparr>]"
    by (simp add: metered_def sample_priced_log_def event_price_def)
  from running_total_agrees [OF sample_priced_folds this] show ?thesis by simp
qed

end
