(* ===== verification/ToolPairing.thy ===== *)
theory ToolPairing imports SessionLog SurfaceSteps begin

text \<open>
  packages/compaction/compaction/src/tool-pairing.ts: whether a cut through the surface leaves
  no tool call unanswered. The balance of every cut is cached per surface generation and only
  extended while the surface grows. An operation returns the cache it leaves for the session
  together with its result, also when it throws.
\<close>

record balance_cache =
  bc_generation :: nat
  bc_cutBalanced :: "bool list"
  bc_indexBySeq :: "nat \<Rightarrow> nat option"
  bc_inProgress :: int

datatype pairing_error =
    SeqWithoutEvent nat
  | ResultUnmatched nat
  | SeqNotOnSurface nat

fun is_tool_call_block :: "content_block \<Rightarrow> bool" where
  "is_tool_call_block (ToolCallBlock _ _ _) = True"
| "is_tool_call_block _ = False"

fun eventDelta :: "'p event_data \<Rightarrow> int" where
  "eventDelta (AssistantMessage _ _ m _ _) = int (length (filter is_tool_call_block (msg_content m)))"
| "eventDelta (ToolResult _) = -1"
| "eventDelta _ = 0"

definition eventForSeq :: "'p event list \<Rightarrow> nat \<Rightarrow> pairing_error + 'p event" where
  "eventForSeq evs s =
     (if s < length evs \<and> ev_seq (evs ! s) = s then Inr (evs ! s) else Inl (SeqWithoutEvent s))"

fun balance_loop :: "'p event list \<Rightarrow> nat list \<Rightarrow> int \<Rightarrow> bool list \<Rightarrow> pairing_error + int \<times> bool list" where
  "balance_loop evs [] n cuts = Inr (n, cuts)"
| "balance_loop evs (s # ss) n cuts =
     rbind (eventForSeq evs s) (\<lambda>e.
       let n' = n + eventDelta (ev_data e)
       in if n' < 0 then Inl (ResultUnmatched s) else balance_loop evs ss n' (cuts @ [n' = 0]))"

fun index_from :: "nat \<Rightarrow> nat list \<Rightarrow> (nat \<Rightarrow> nat option) \<Rightarrow> nat \<Rightarrow> nat option" where
  "index_from i [] m = m"
| "index_from i (s # ss) m = index_from (Suc i) ss (m(s \<mapsto> i))"

definition extendCache :: "'p event list \<Rightarrow> balance_cache \<Rightarrow> nat list \<Rightarrow> pairing_error + balance_cache" where
  "extendCache evs c seqs =
     (let processed = length (bc_cutBalanced c) - 1;
          tail = drop processed seqs
      in rbind (balance_loop evs tail (bc_inProgress c) []) (\<lambda>(n, pending).
           Inr (c\<lparr>bc_indexBySeq := index_from processed tail (bc_indexBySeq c),
                  bc_cutBalanced := bc_cutBalanced c @ pending,
                  bc_inProgress := n\<rparr>)))"

definition emptyCache :: "nat \<Rightarrow> balance_cache" where
  "emptyCache generation = \<lparr>bc_generation = generation, bc_cutBalanced = [True],
     bc_indexBySeq = (\<lambda>_. None), bc_inProgress = 0\<rparr>"

definition balanceCache ::
  "'p event list \<Rightarrow> fold_state \<Rightarrow> balance_cache option \<Rightarrow> balance_cache option \<times> (pairing_error + balance_cache)" where
  "balanceCache evs st cached =
     (let seqs = nodes st;
          rebuild = (case extendCache evs (emptyCache (replaceGeneration st)) seqs of
              Inl x \<Rightarrow> (cached, Inl x)
            | Inr c \<Rightarrow> (Some c, Inr c))
      in case cached of
           None \<Rightarrow> rebuild
         | Some c \<Rightarrow>
             if bc_generation c \<noteq> replaceGeneration st \<or> length (bc_cutBalanced c) - 1 > length seqs then rebuild
             else if length (bc_cutBalanced c) - 1 < length seqs then
               (case extendCache evs c seqs of
                  Inl x \<Rightarrow> (cached, Inl x)
                | Inr c' \<Rightarrow> (Some c', Inr c'))
             else (cached, Inr c))"

definition cutBalance :: "balance_cache \<Rightarrow> nat \<Rightarrow> nat \<Rightarrow> pairing_error + bool" where
  "cutBalance c s offset =
     (case bc_indexBySeq c s of
        None \<Rightarrow> Inl (SeqNotOnSurface s)
      | Some i \<Rightarrow>
          if i + offset < length (bc_cutBalanced c) then Inr (bc_cutBalanced c ! (i + offset))
          else Inl (SeqNotOnSurface s))"

definition query_cut ::
  "nat \<Rightarrow> 'p event list \<Rightarrow> fold_state \<Rightarrow> balance_cache option \<Rightarrow> nat \<Rightarrow> balance_cache option \<times> (pairing_error + bool)" where
  "query_cut offset evs st cached s =
     (case balanceCache evs st cached of
        (c, r) \<Rightarrow> (c, rbind r (\<lambda>b. cutBalance b s offset)))"

definition toolPairingBalancedBefore ::
  "'p event list \<Rightarrow> fold_state \<Rightarrow> balance_cache option \<Rightarrow> nat \<Rightarrow> balance_cache option \<times> (pairing_error + bool)" where
  "toolPairingBalancedBefore = query_cut 0"

definition toolPairingBalancedAfter ::
  "'p event list \<Rightarrow> fold_state \<Rightarrow> balance_cache option \<Rightarrow> nat \<Rightarrow> balance_cache option \<times> (pairing_error + bool)" where
  "toolPairingBalancedAfter = query_cut 1"

section \<open>The cache is the fold of the surface\<close>

definition in_progress :: "'p event list \<Rightarrow> nat list \<Rightarrow> int" where
  "in_progress evs ns = (\<Sum>n \<leftarrow> ns. eventDelta (ev_data (evs ! n)))"

definition known :: "'p event list \<Rightarrow> nat list \<Rightarrow> bool" where
  "known evs ns \<longleftrightarrow> (\<forall>n \<in> set ns. n < length evs \<and> ev_seq (evs ! n) = n)"

definition never_negative :: "'p event list \<Rightarrow> nat list \<Rightarrow> bool" where
  "never_negative evs ns \<longleftrightarrow> (\<forall>i \<le> length ns. 0 \<le> in_progress evs (take i ns))"

lemma in_progress_Nil [simp]: "in_progress evs [] = 0"
  by (simp add: in_progress_def)

lemma in_progress_append [simp]: "in_progress evs (xs @ ys) = in_progress evs xs + in_progress evs ys"
  by (simp add: in_progress_def)

lemma never_negative_snoc:
  "never_negative evs (ns @ [s]) \<longleftrightarrow> never_negative evs ns \<and> 0 \<le> in_progress evs (ns @ [s])"
  by (auto simp: never_negative_def le_Suc_eq)

definition cuts_of :: "'p event list \<Rightarrow> nat list \<Rightarrow> bool list" where
  "cuts_of evs ns = map (\<lambda>i. in_progress evs (take i ns) = 0) [1..<Suc (length ns)]"

lemma cuts_of_snoc: "cuts_of evs (ns @ [s]) = cuts_of evs ns @ [in_progress evs (ns @ [s]) = 0]"
  by (auto simp: cuts_of_def)

lemma balance_loop_append:
  "balance_loop evs (xs @ ys) n cuts
    = rbind (balance_loop evs xs n cuts) (\<lambda>(n', cuts'). balance_loop evs ys n' cuts')"
proof (induction xs arbitrary: n cuts)
  case (Cons s xs)
  then show ?case by (cases "eventForSeq evs s") (simp_all add: Let_def)
qed simp

lemma balance_loop_cuts:
  "balance_loop evs xs n cuts = map_sum id (\<lambda>(n', new). (n', cuts @ new)) (balance_loop evs xs n [])"
proof (induction xs arbitrary: n cuts)
  case (Cons s xs)
  show ?case
  proof (cases "eventForSeq evs s")
    case (Inr e)
    let ?n = "n + eventDelta (ev_data e)"
    show ?thesis
      using Inr Cons.IH [of ?n "cuts @ [?n = 0]"] Cons.IH [of ?n "[?n = 0]"]
      by (cases "balance_loop evs xs ?n []") (auto simp: Let_def)
  qed simp
qed simp

lemma eventForSeq_known: "known evs ns \<Longrightarrow> s \<in> set ns \<Longrightarrow> eventForSeq evs s = Inr (evs ! s)"
  by (simp add: known_def eventForSeq_def)

lemma balance_loop_fold:
  "known evs ns \<Longrightarrow>
   (case balance_loop evs ns 0 [] of
      Inr (n, cuts) \<Rightarrow> never_negative evs ns \<and> n = in_progress evs ns \<and> cuts = cuts_of evs ns
    | Inl x \<Rightarrow> \<exists>i < length ns. x = ResultUnmatched (ns ! i) \<and> in_progress evs (take (Suc i) ns) < 0
        \<and> never_negative evs (take i ns))"
proof (induction ns rule: rev_induct)
  case Nil
  then show ?case by (simp add: never_negative_def cuts_of_def)
next
  case (snoc s ns)
  then have k: "known evs ns" "eventForSeq evs s = Inr (evs ! s)"
    using eventForSeq_known [of evs "ns @ [s]" s] by (auto simp: known_def)
  show ?case
  proof (cases "balance_loop evs ns 0 []")
    case (Inl x)
    with snoc.IH [OF k(1)] obtain i where "i < length ns" "x = ResultUnmatched (ns ! i)"
      "in_progress evs (take (Suc i) ns) < 0" "never_negative evs (take i ns)" by auto
    then show ?thesis using Inl by (auto simp: balance_loop_append nth_append intro!: exI [of _ i])
  next
    case (Inr r)
    with snoc.IH [OF k(1)] have r: "never_negative evs ns" "r = (in_progress evs ns, cuts_of evs ns)"
      by (auto split: prod.splits)
    have p: "in_progress evs (ns @ [s]) = in_progress evs ns + eventDelta (ev_data (evs ! s))"
      by (simp add: in_progress_def)
    show ?thesis
      using Inr r k(2) p
      by (auto simp: balance_loop_append never_negative_snoc cuts_of_snoc Let_def intro!: exI [of _ "length ns"])
  qed
qed

lemma index_from_distinct:
  "distinct ss \<Longrightarrow> index_from i ss m s = (case index_of s ss of Some j \<Rightarrow> Some (i + j) | None \<Rightarrow> m s)"
proof (induction ss arbitrary: i m)
  case (Cons a ss)
  then show ?case
    using index_of_None [of a ss] by (cases "a = s") (auto split: option.splits)
qed simp

lemma index_of_append:
  "index_of s (xs @ ys) = (case index_of s xs of Some i \<Rightarrow> Some i | None \<Rightarrow> map_option ((+) (length xs)) (index_of s ys))"
  by (induction xs; cases "index_of s ys") (auto split: option.splits)

text \<open>A cache that describes the surface \<open>ns\<close> completely.\<close>

definition cache_full :: "'p event list \<Rightarrow> nat list \<Rightarrow> nat \<Rightarrow> balance_cache \<Rightarrow> bool" where
  "cache_full evs ns generation c \<longleftrightarrow>
     bc_generation c = generation \<and> bc_cutBalanced c = True # cuts_of evs ns
     \<and> bc_inProgress c = in_progress evs ns \<and> bc_indexBySeq c = (\<lambda>s. index_of s ns)
     \<and> never_negative evs ns"

lemma length_cuts [simp]: "length (cuts_of evs ns) = length ns"
  by (simp add: cuts_of_def del: upt_Suc)

lemma never_negative_prefix:
  assumes "never_negative evs (xs @ ys)"
  shows "never_negative evs xs"
  unfolding never_negative_def
proof (intro allI impI)
  fix i assume "i \<le> length xs"
  then show "0 \<le> in_progress evs (take i xs)"
    using assms [unfolded never_negative_def, rule_format, of i] by simp
qed

lemma emptyCache_full: "cache_full evs [] g (emptyCache g)"
  by (auto simp: cache_full_def emptyCache_def cuts_of_def never_negative_def)

lemma extendCache_full:
  assumes "cache_full evs ns g c" and "known evs (ns @ tail)" and "distinct (ns @ tail)"
  shows "case balance_loop evs (ns @ tail) 0 [] of
      Inl x \<Rightarrow> extendCache evs c (ns @ tail) = Inl x
    | Inr _ \<Rightarrow> \<exists>c'. extendCache evs c (ns @ tail) = Inr c' \<and> cache_full evs (ns @ tail) g c'"
proof -
  have known: "known evs ns" using assms(2) by (simp add: known_def)
  have c: "bc_cutBalanced c = True # cuts_of evs ns" "bc_inProgress c = in_progress evs ns"
    "bc_indexBySeq c = (\<lambda>s. index_of s ns)" "bc_generation c = g" "never_negative evs ns"
    using assms(1) by (auto simp: cache_full_def)
  have front: "balance_loop evs ns 0 [] = Inr (in_progress evs ns, cuts_of evs ns)"
  proof (cases "balance_loop evs ns 0 []")
    case (Inl x)
    with balance_loop_fold [OF known] obtain i where "i < length ns" "in_progress evs (take (Suc i) ns) < 0"
      by auto
    moreover from this c(5) have "0 \<le> in_progress evs (take (Suc i) ns)"
      by (simp add: never_negative_def Suc_le_eq)
    ultimately show ?thesis by simp
  qed (use balance_loop_fold [OF known] in auto)
  have split: "balance_loop evs (ns @ tail) 0 []
      = map_sum id (\<lambda>(n, new). (n, cuts_of evs ns @ new)) (balance_loop evs tail (in_progress evs ns) [])"
    unfolding balance_loop_append front by (simp add: balance_loop_cuts [of evs tail _ "cuts_of evs ns"])
  have index: "index_from (length ns) tail (\<lambda>s. index_of s ns) = (\<lambda>s. index_of s (ns @ tail))"
  proof
    fix s
    have "index_of s tail = Some j \<Longrightarrow> index_of s ns = None" for j
      using assms(3) index_of_SomeD [of s tail j] by (auto simp: index_of_None)
    then show "index_from (length ns) tail (\<lambda>s. index_of s ns) s = index_of s (ns @ tail)"
      using assms(3) by (auto simp: index_from_distinct index_of_append split: option.splits)
  qed
  show ?thesis
  proof (cases "balance_loop evs tail (in_progress evs ns) []")
    case (Inl x)
    then show ?thesis using split c by (simp add: extendCache_def)
  next
    case (Inr r)
    then have whole: "balance_loop evs (ns @ tail) 0 [] = Inr (fst r, cuts_of evs ns @ snd r)"
      using split by (simp add: split_def)
    with balance_loop_fold [OF assms(2)] have "never_negative evs (ns @ tail)"
      "fst r = in_progress evs (ns @ tail)" "cuts_of evs ns @ snd r = cuts_of evs (ns @ tail)"
      by auto
    with whole c Inr index show ?thesis
      by (auto simp: extendCache_def cache_full_def split_def simp del: in_progress_append)
  qed
qed

lemma surface_known:
  assumes "fold_window 0 evs = Inr (st, reps, k)"
  shows "known evs (nodes st)" and "distinct (nodes st)"
proof -
  have h: "surface_hist evs 0 evs (st, reps, k)" by (rule fold_window_hist [OF assms])
  then have "map ev_seq evs = [0..<length evs]" by (simp add: surface_hist_def)
  then have "i < length evs \<Longrightarrow> ev_seq (evs ! i) = i" for i
    by (metis add_0 length_map nth_map nth_upt)
  then show "known evs (nodes st)" using hist_nodes_less [OF h] by (auto simp: known_def)
  show "distinct (nodes st)" using h by (simp add: surface_hist_def)
qed

lemma in_progress_extend: "\<forall>n \<in> set ns. n < length evs \<Longrightarrow> in_progress (evs @ later) ns = in_progress evs ns"
  by (auto simp: in_progress_def nth_append intro!: arg_cong [of _ _ sum_list])

lemma cache_full_extend:
  assumes "cache_full evs ns g c" and "\<forall>n \<in> set ns. n < length evs"
  shows "cache_full (evs @ later) ns g c"
proof -
  have "in_progress (evs @ later) (take i ns) = in_progress evs (take i ns)" for i
    using assms(2) by (intro in_progress_extend) (auto dest: in_set_takeD)
  from this this [of "length ns"] assms(1) show ?thesis
    by (simp add: cache_full_def cuts_of_def never_negative_def del: upt_Suc)
qed

definition pairing_inv :: "'p event list \<Rightarrow> balance_cache option \<Rightarrow> bool" where
  "pairing_inv evs cached \<longleftrightarrow>
     (\<forall>c. cached = Some c \<longrightarrow> (\<exists>k st reps. k \<le> length evs \<and> fold_window 0 (take k evs) = Inr (st, reps, k)
        \<and> cache_full evs (nodes st) (replaceGeneration st) c))"

lemma balanceCache_full:
  assumes fw: "fold_window 0 evs = Inr (st, reps, k)" and "pairing_inv evs cached"
  shows "case balance_loop evs (nodes st) 0 [] of
      Inl x \<Rightarrow> balanceCache evs st cached = (cached, Inl x)
    | Inr _ \<Rightarrow> \<exists>c. balanceCache evs st cached = (Some c, Inr c)
        \<and> cache_full evs (nodes st) (replaceGeneration st) c"
proof -
  note kn = surface_known [OF fw]
  note rebuild = extendCache_full [OF emptyCache_full, of evs "nodes st" "replaceGeneration st", simplified, OF kn]
  show ?thesis
  proof (cases cached)
    case None
    then show ?thesis using rebuild by (auto simp: balanceCache_def split: sum.splits)
  next
    case (Some c)
    with assms(2) obtain n st0 reps0 where st0: "n \<le> length evs" "fold_window 0 (take n evs) = Inr (st0, reps0, n)"
      and full: "cache_full evs (nodes st0) (replaceGeneration st0) c"
      by (auto simp: pairing_inv_def)
    have gen: "bc_generation c = replaceGeneration st0" "length (bc_cutBalanced c) - 1 = length (nodes st0)"
      using full by (auto simp: cache_full_def)
    show ?thesis
    proof (cases "replaceGeneration st0 = replaceGeneration st")
      case False
      then show ?thesis using rebuild Some gen by (auto simp: balanceCache_def split: sum.splits)
    next
      case True
      have "fold_window 0 (take n evs @ drop n evs) = Inr (st, reps, k)" using fw by simp
      then have "run_steps (surface_step (take n evs @ drop n evs) 0) (st0, reps0, n) (drop n evs) = Inr (st, reps, k)"
        unfolding fold_window_append st0(2) by simp
      from run_nodes_prefix [OF this] True obtain tail where tail: "nodes st = nodes st0 @ tail" by auto
      note ext = extendCache_full [OF full, of tail, folded tail, OF kn]
      show ?thesis
      proof (cases "tail = []")
        case True
        with full tail \<open>replaceGeneration st0 = _\<close>
        have full': "cache_full evs (nodes st) (replaceGeneration st) c" by simp
        have "balanceCache evs st cached = (Some c, Inr c)"
          using Some gen True tail \<open>replaceGeneration st0 = _\<close> by (simp add: balanceCache_def)
        moreover have "\<exists>r. balance_loop evs (nodes st) 0 [] = Inr r"
          using ext extendCache_full [OF emptyCache_full, of evs "nodes st" "replaceGeneration st", simplified, OF kn]
            full' balance_loop_fold [OF kn(1)]
          by (cases "balance_loop evs (nodes st) 0 []")
            (auto simp: cache_full_def never_negative_def Suc_le_eq, metis Suc_leI not_less)
        ultimately show ?thesis using full' by auto
      next
        case False
        then show ?thesis using ext Some gen tail True by (auto simp: balanceCache_def split: sum.splits)
      qed
    qed
  qed
qed

section \<open>Properties\<close>

text \<open>The caches of a session's life: the log grows and cuts of its current surface are queried.\<close>

inductive pairing_reach :: "'p event list \<Rightarrow> balance_cache option \<Rightarrow> bool" where
  pr_none: "pairing_reach evs None"
| pr_query: "pairing_reach evs c \<Longrightarrow> fold_window 0 evs = Inr (st, reps, k) \<Longrightarrow>
    pairing_reach evs (fst (query_cut off evs st c s))"
| pr_grow: "pairing_reach evs c \<Longrightarrow> pairing_reach (evs @ later) c"

lemma query_cut_inv:
  assumes fw: "fold_window 0 evs = Inr (st, reps, k)" and "pairing_inv evs c"
  shows "pairing_inv evs (fst (query_cut off evs st c s))"
proof (cases "balance_loop evs (nodes st) 0 []")
  case (Inl x)
  then show ?thesis using balanceCache_full [OF assms] assms(2) by (simp add: query_cut_def)
next
  case (Inr r)
  with balanceCache_full [OF assms] obtain c' where "fst (query_cut off evs st c s) = Some c'"
    "cache_full evs (nodes st) (replaceGeneration st) c'"
    by (auto simp: query_cut_def)
  moreover have "k = length evs" using fold_window_hist [OF fw] by (simp add: surface_hist_def)
  ultimately show ?thesis using fw by (auto simp: pairing_inv_def intro!: exI [of _ "length evs"])
qed

lemma pairing_inv_grow:
  assumes "pairing_inv evs c"
  shows "pairing_inv (evs @ later) c"
  unfolding pairing_inv_def
proof (intro allI impI)
  fix b assume "c = Some b"
  with assms obtain k st reps where k: "k \<le> length evs" "fold_window 0 (take k evs) = Inr (st, reps, k)"
    "cache_full evs (nodes st) (replaceGeneration st) b"
    by (auto simp: pairing_inv_def)
  have "\<forall>n \<in> set (nodes st). n < length evs"
    using fold_window_hist [OF k(2)] hist_nodes_less k(1) by fastforce
  from cache_full_extend [OF k(3) this] k
  show "\<exists>k st reps. k \<le> length (evs @ later) \<and> fold_window 0 (take k (evs @ later)) = Inr (st, reps, k)
      \<and> cache_full (evs @ later) (nodes st) (replaceGeneration st) b"
    by (intro exI [of _ k] exI [of _ st] exI [of _ reps]) simp
qed

lemma pairing_reach_inv: "pairing_reach evs c \<Longrightarrow> pairing_inv evs c"
proof (induction rule: pairing_reach.induct)
  case (pr_query evs c st reps k off s)
  then show ?case using query_cut_inv by blast
qed (simp_all add: pairing_inv_grow, simp add: pairing_inv_def)

lemma query_cut_exact:
  assumes fw: "fold_window 0 evs = Inr (st, reps, k)" and "pairing_inv evs c" and "off \<le> 1"
  shows "if never_negative evs (nodes st) then
      snd (query_cut off evs st c s) = (case index_of s (nodes st) of
          None \<Rightarrow> Inl (SeqNotOnSurface s)
        | Some i \<Rightarrow> Inr (in_progress evs (take (i + off) (nodes st)) = 0))
    else \<exists>i < length (nodes st). snd (query_cut off evs st c s) = Inl (ResultUnmatched (nodes st ! i))
      \<and> in_progress evs (take (Suc i) (nodes st)) < 0 \<and> never_negative evs (take i (nodes st))"
proof (cases "balance_loop evs (nodes st) 0 []")
  case (Inl x)
  with balance_loop_fold [OF surface_known(1) [OF fw]] obtain i where i: "i < length (nodes st)"
    "x = ResultUnmatched (nodes st ! i)" "in_progress evs (take (Suc i) (nodes st)) < 0"
    "never_negative evs (take i (nodes st))" by auto
  then have "\<not> never_negative evs (nodes st)"
    unfolding never_negative_def by (metis Suc_leI not_less)
  with i Inl balanceCache_full [OF assms(1,2)] show ?thesis by (auto simp: query_cut_def)
next
  case (Inr r)
  with balance_loop_fold [OF surface_known(1) [OF fw]] have nn: "never_negative evs (nodes st)" by auto
  obtain c' where c': "balanceCache evs st c = (Some c', Inr c')"
    "cache_full evs (nodes st) (replaceGeneration st) c'"
    using Inr balanceCache_full [OF assms(1,2)] by auto
  have cut: "(True # cuts_of evs (nodes st)) ! j = (in_progress evs (take j (nodes st)) = 0)"
    if "j \<le> length (nodes st)" for j
    using that by (cases j) (auto simp: cuts_of_def simp del: upt_Suc)
  show ?thesis
    using nn c' assms(3) index_of_SomeD [of s "nodes st"] cut
    by (auto simp: query_cut_def cutBalance_def cache_full_def Suc_le_eq less_Suc_eq_le split: option.splits)
qed

text \<open>
  The cached balance of a cut is the balance of the surface: whatever was queried and
  appended before, asking before or after a surface node answers whether the calls of the nodes up
  to the cut are matched by as many results, rejects a seq the surface does not hold, and reports
  the first tool result that no call precedes when the surface is corrupt.
\<close>

theorem pairing_cache_exact:
  assumes "foldSurface evs = Inr (st, reps)" and "pairing_reach evs c"
  shows "if never_negative evs (nodes st) then
      snd (toolPairingBalancedBefore evs st c s) = (case index_of s (nodes st) of
          None \<Rightarrow> Inl (SeqNotOnSurface s)
        | Some i \<Rightarrow> Inr (in_progress evs (take i (nodes st)) = 0))
      \<and> snd (toolPairingBalancedAfter evs st c s) = (case index_of s (nodes st) of
          None \<Rightarrow> Inl (SeqNotOnSurface s)
        | Some i \<Rightarrow> Inr (in_progress evs (take (Suc i) (nodes st)) = 0))
    else \<exists>i < length (nodes st). in_progress evs (take (Suc i) (nodes st)) < 0
      \<and> never_negative evs (take i (nodes st))
      \<and> snd (toolPairingBalancedBefore evs st c s) = Inl (ResultUnmatched (nodes st ! i))"
proof -
  have fw: "fold_window 0 evs = Inr (st, reps, length evs)" using assms(1) by (simp add: foldSurface_window)
  note exact = query_cut_exact [OF fw pairing_reach_inv [OF assms(2)], where s = s]
  from exact [of 0] exact [of 1] show ?thesis
    by (cases "never_negative evs (nodes st)"; cases "index_of s (nodes st)")
      (auto simp: toolPairingBalancedBefore_def toolPairingBalancedAfter_def)
qed

theorem pairing_cache_exact_witness:
  "snd (toolPairingBalancedAfter sample_log \<lparr>nodes = [3, 2], replaceGeneration = 1\<rparr>
      (fst (query_cut 0 sample_log \<lparr>nodes = [3, 2], replaceGeneration = 1\<rparr> None 2)) 3) = Inr True"
proof -
  let ?st = "\<lparr>nodes = [3, 2], replaceGeneration = 1\<rparr>"
  have fw: "fold_window 0 sample_log = Inr (?st, [\<lparr>rp_seq = 3, rp_start = 0, rp_end = 1, rp_shadowed = [0, 1]\<rparr>],
      length sample_log)"
    using sample_log_folds by (simp add: foldSurface_window)
  have nn: "never_negative sample_log [3, 2]"
    by (auto simp: never_negative_def in_progress_def sample_log_def sample_user_event_def
        sample_replace_event_def take_Cons split: nat.splits)
  show ?thesis
    using pairing_cache_exact [OF sample_log_folds pr_query [OF pr_none fw], where s = 3] nn
    by (simp add: in_progress_def sample_log_def sample_replace_event_def)
qed

end
