(* ===== verification/PruneContent.thy ===== *)
theory PruneContent imports SessionTypes Json begin

text \<open>
  packages/compaction/compaction-tool-result-pruner/src: the budgets of the tool-result pruner and
  the replacement of the middle of an over-long text. A character of a string is one Unicode code
  point here. A subtraction of the source under \<open>Math.max(0, ..)\<close> or compared with a non-negative
  number is the truncated subtraction of natural numbers.
\<close>

section \<open>Budgets\<close>

definition PRUNE_MARKER :: string where
  "PRUNE_MARKER = [CHR 0x0A, CHR 0x0A] @ ''[... tool result middle pruned ...]'' @ [CHR 0x0A, CHR 0x0A]"

record prune_config =
  pc_threshold :: nat
  pc_head :: nat
  pc_tail :: nat

definition prune_defaults :: prune_config where
  "prune_defaults = \<lparr>pc_threshold = 8192, pc_head = 4096, pc_tail = 1024\<rparr>"

datatype prune_config_error =
    PruneKeyUnknown string
  | PruneNotPositive string
  | PruneNegative string
  | PruneBudget nat nat

definition prune_keys :: "string list" where
  "prune_keys = [''thresholdChars'', ''headChars'', ''tailChars'']"

text \<open>\<open>config.key ?? fallback\<close>.\<close>

definition number_or :: "json option \<Rightarrow> nat \<Rightarrow> json" where
  "number_or v d = (case v of None \<Rightarrow> JInt (int d) | Some JNull \<Rightarrow> JInt (int d) | Some x \<Rightarrow> x)"

fun is_integer_from :: "int \<Rightarrow> json \<Rightarrow> bool" where
  "is_integer_from low (JNum r) = (r = of_int \<lfloor>r\<rfloor> \<and> r \<ge> of_int low)"
| "is_integer_from low _ = False"

definition nat_value :: "json \<Rightarrow> nat" where
  "nat_value v = nat (int_of (Some v))"

definition resolvePruneConfig :: "json \<Rightarrow> prune_config_error + prune_config" where
  "resolvePruneConfig config =
     (case find (\<lambda>k. k \<notin> set prune_keys) (object_keys config) of
        Some k \<Rightarrow> Inl (PruneKeyUnknown k)
      | None \<Rightarrow>
          let threshold = number_or (get_prop ''thresholdChars'' config) (pc_threshold prune_defaults);
              head = number_or (get_prop ''headChars'' config) (pc_head prune_defaults);
              tail = number_or (get_prop ''tailChars'' config) (pc_tail prune_defaults)
          in rbind (guard (is_integer_from 1 threshold) (PruneNotPositive ''thresholdChars'')) (\<lambda>_.
             rbind (guard (is_integer_from 0 head) (PruneNegative ''headChars'')) (\<lambda>_.
             rbind (guard (is_integer_from 0 tail) (PruneNegative ''tailChars'')) (\<lambda>_.
               let emitted = nat_value head + length PRUNE_MARKER + nat_value tail
               in rbind (guard (emitted \<le> nat_value threshold) (PruneBudget emitted (nat_value threshold))) (\<lambda>_.
                  Inr \<lparr>pc_threshold = nat_value threshold, pc_head = nat_value head, pc_tail = nat_value tail\<rparr>)))))"

definition prune_config_ok :: "prune_config \<Rightarrow> bool" where
  "prune_config_ok c \<longleftrightarrow> pc_head c + length PRUNE_MARKER + pc_tail c \<le> pc_threshold c"

lemma resolvePruneConfig_ok: "resolvePruneConfig config = Inr c \<Longrightarrow> prune_config_ok c"
  by (auto simp: resolvePruneConfig_def prune_config_ok_def Let_def rbind_eq_Inr guard_eq_Inr split: option.splits)

lemma prune_defaults_resolved: "resolvePruneConfig (JObj []) = Inr prune_defaults"
  by (simp add: resolvePruneConfig_def number_or_def prune_defaults_def nat_value_def JInt_def PRUNE_MARKER_def
      Let_def guard_def rbind_def)

section \<open>Content\<close>

fun is_text :: "content_block \<Rightarrow> bool" where
  "is_text (TextBlock _) = True"
| "is_text _ = False"

fun text_of :: "content_block \<Rightarrow> string" where
  "text_of (TextBlock s) = s"
| "text_of _ = []"

fun measure_block :: "content_block \<Rightarrow> nat" where
  "measure_block (TextBlock s) = length s"
| "measure_block _ = 0"

definition measureContent :: "content_block list \<Rightarrow> nat" where
  "measureContent bs = sum_list (map measure_block bs)"

record prune_loop =
  pl_out :: "content_block list"
  pl_consumed :: nat
  pl_marked :: bool

fun prune_block :: "nat \<Rightarrow> nat \<Rightarrow> prune_loop \<Rightarrow> content_block \<Rightarrow> prune_loop" where
  "prune_block removedStart removedEnd l (TextBlock s) =
     (let blockStart = pl_consumed l;
          blockEnd = blockStart + length s;
          headEnd = min (length s) (removedStart - blockStart);
          tailStart = min (length s) (removedEnd - blockStart);
          hits = (blockStart < removedEnd \<and> blockEnd > removedStart);
          marker = (if hits \<and> \<not> pl_marked l then PRUNE_MARKER else []);
          txt = take headEnd s @ marker @ drop tailStart s
      in \<lparr>pl_out = (if length txt > 0 then pl_out l @ [TextBlock txt] else pl_out l),
          pl_consumed = blockEnd, pl_marked = (pl_marked l \<or> length marker > 0)\<rparr>)"
| "prune_block _ _ l b = l\<lparr>pl_out := pl_out l @ [b]\<rparr>"

datatype prune_error = PruneSpanMissing | PruneNotSmaller

definition pruneContent :: "prune_config \<Rightarrow> content_block list \<Rightarrow> prune_error + content_block list option" where
  "pruneContent c bs =
     (let total = measureContent bs
      in if total \<le> pc_threshold c then Inr None
         else
           let l = foldl (prune_block (pc_head c) (total - pc_tail c)) \<lparr>pl_out = [], pl_consumed = 0, pl_marked = False\<rparr> bs
           in if \<not> pl_marked l then Inl PruneSpanMissing
              else
                let after = measureContent (pl_out l)
                in if after > pc_threshold c \<or> after \<ge> total then Inl PruneNotSmaller
                   else Inr (Some (pl_out l)))"

section \<open>What pruning keeps\<close>

definition all_text :: "content_block list \<Rightarrow> string" where
  "all_text bs = concat (map text_of bs)"

definition rich_blocks :: "content_block list \<Rightarrow> content_block list" where
  "rich_blocks = filter (\<lambda>b. \<not> is_text b)"

lemma all_text_simps [simp]:
  "all_text [] = []" "all_text (b # bs) = text_of b @ all_text bs" "all_text (bs @ cs) = all_text bs @ all_text cs"
  by (simp_all add: all_text_def)

lemma measure_text: "measureContent bs = length (all_text bs)"
proof (induction bs)
  case (Cons b bs)
  then show ?case by (cases b) (simp_all add: measureContent_def)
qed (simp add: measureContent_def)

lemma prune_fold:
  assumes "h < r"
  shows "let l = foldl (prune_block h r) \<lparr>pl_out = [], pl_consumed = 0, pl_marked = False\<rparr> bs; t = all_text bs
    in pl_consumed l = length t \<and> (pl_marked l \<longleftrightarrow> h < length t)
      \<and> all_text (pl_out l) = take h t @ (if h < length t then PRUNE_MARKER else []) @ drop r t
      \<and> rich_blocks (pl_out l) = rich_blocks bs"
proof (induction bs rule: rev_induct)
  case (snoc b bs)
  let ?l = "foldl (prune_block h r) \<lparr>pl_out = [], pl_consumed = 0, pl_marked = False\<rparr> bs"
  note IH = snoc.IH [unfolded Let_def]
  show ?case
  proof (cases "is_text b")
    case True
    then obtain s where b: "b = TextBlock s" by (cases b) auto
    let ?P = "all_text bs"
    have "pl_consumed ?l = length ?P" "pl_marked ?l = (h < length ?P)"
      "all_text (pl_out ?l) = take h ?P @ (if h < length ?P then PRUNE_MARKER else []) @ drop r ?P"
      "rich_blocks (pl_out ?l) = rich_blocks bs"
      using IH by simp_all
    moreover have "length PRUNE_MARKER > 0" by (simp add: PRUNE_MARKER_def)
    moreover have "take (min (length s) n) s = take n s" "drop (min (length s) n) s = drop n s" for n
      by (simp_all add: min_def)
    ultimately show ?thesis
      using assms b by (auto simp: Let_def rich_blocks_def)
  next
    case False
    then show ?thesis using IH by (cases b) (simp_all add: Let_def rich_blocks_def)
  qed
qed (simp add: rich_blocks_def Let_def)

lemma prune_shortens:
  assumes "resolvePruneConfig config = Inr c"
  shows "if length (all_text bs) \<le> pc_threshold c then pruneContent c bs = Inr None
    else \<exists>out. pruneContent c bs = Inr (Some out)
      \<and> all_text out = take (pc_head c) (all_text bs) @ PRUNE_MARKER
          @ drop (length (all_text bs) - pc_tail c) (all_text bs)
      \<and> rich_blocks out = rich_blocks bs
      \<and> length (all_text out) \<le> pc_threshold c \<and> length (all_text out) < length (all_text bs)"
proof (cases "length (all_text bs) \<le> pc_threshold c")
  case False
  let ?t = "all_text bs"
  let ?l = "foldl (prune_block (pc_head c) (length ?t - pc_tail c))
    \<lparr>pl_out = [], pl_consumed = 0, pl_marked = False\<rparr> bs"
  have ok: "pc_head c + length PRUNE_MARKER + pc_tail c \<le> pc_threshold c"
    using resolvePruneConfig_ok [OF assms] by (simp add: prune_config_ok_def)
  then have "pc_head c < length ?t - pc_tail c" using False by simp
  from prune_fold [OF this, of bs] ok False have out: "pl_marked ?l"
    "all_text (pl_out ?l) = take (pc_head c) ?t @ PRUNE_MARKER @ drop (length ?t - pc_tail c) ?t"
    "rich_blocks (pl_out ?l) = rich_blocks bs"
    by (simp_all add: Let_def)
  then have "length (all_text (pl_out ?l)) = pc_head c + length PRUNE_MARKER + pc_tail c"
    using ok False by simp
  with out ok False show ?thesis
    by (simp add: pruneContent_def Let_def measure_text)
qed (simp add: pruneContent_def Let_def measure_text)

text \<open>
  With budgets the service accepts, pruning never fails: text within the threshold is left
  alone, longer text keeps exactly its first and its last characters around one marker, whatever
  blocks it is spread over, the other blocks stay in their order, and the result is shorter and
  within the threshold.
\<close>

theorem prune_content_exact:
  assumes "resolvePruneConfig config = Inr c"
  shows "if length (all_text bs) \<le> pc_threshold c then pruneContent c bs = Inr None
    else \<exists>out. pruneContent c bs = Inr (Some out)
      \<and> all_text out = take (pc_head c) (all_text bs) @ PRUNE_MARKER
          @ drop (length (all_text bs) - pc_tail c) (all_text bs)
      \<and> rich_blocks out = rich_blocks bs
      \<and> length (all_text out) \<le> pc_threshold c \<and> length (all_text out) < length (all_text bs)"
  using prune_shortens [OF assms] .

theorem prune_content_exact_witness:
  "\<exists>out. pruneContent \<lparr>pc_threshold = 42, pc_head = 2, pc_tail = 1\<rparr>
      [TextBlock (replicate 20 (CHR ''a'')), PluginBlock ''table'' JNull, TextBlock (replicate 30 (CHR ''b''))] = Inr (Some out)
    \<and> all_text out = replicate 2 (CHR ''a'') @ PRUNE_MARKER @ replicate 1 (CHR ''b'')"
proof -
  have "resolvePruneConfig (JObj [(''thresholdChars'', JInt 42), (''headChars'', JInt 2), (''tailChars'', JInt 1)])
      = Inr \<lparr>pc_threshold = 42, pc_head = 2, pc_tail = 1\<rparr>"
    by (simp add: resolvePruneConfig_def prune_keys_def number_or_def nat_value_def JInt_def PRUNE_MARKER_def
        Let_def guard_def rbind_def)
  from prune_content_exact [OF this, of "[TextBlock (replicate 20 (CHR ''a'')), PluginBlock ''table'' JNull,
      TextBlock (replicate 30 (CHR ''b''))]"]
  show ?thesis by auto
qed

end
