(* ===== verification/CompactConfig.thy ===== *)
theory CompactConfig imports Json Doubles begin

text \<open>
  packages/compaction/compaction-basic/src/config.ts: the validation of the plugin's configuration
  when it is loaded, the policy of one routed model and its budgets for a context window. A
  configuration is the JSON value the loader hands over; numbers are doubles, a product of two is
  rounded (\<open>rd\<close>).
\<close>

section \<open>Validation\<close>

datatype config_scope = ServiceScope | PolicyScope nat

datatype config_error =
    ConfigKeyUnknown config_scope string
  | ConfigNotRatio config_scope string
  | ConfigNotNonNegative config_scope string
  | ConfigNotPositive config_scope string
  | ConfigRetentionExclusive config_scope
  | ConfigNotString config_scope string
  | ConfigSummarizationPair config_scope
  | ConfigAutoNotBoolean
  | ConfigRetainTooLarge config_scope rat rat
  | ConfigPoliciesNotArray
  | ConfigPolicyNotObject config_scope
  | ConfigEmptyString config_scope string
  | ConfigDuplicatePolicy string string

definition DEFAULT_THRESHOLD_RATIO :: rat where
  "DEFAULT_THRESHOLD_RATIO = rd (4 / 5)"

definition DEFAULT_RETAIN_RATIO :: rat where
  "DEFAULT_RETAIN_RATIO = rd (4 / 25)"

definition POLICY_CONFIG_KEYS :: "string list" where
  "POLICY_CONFIG_KEYS = [''thresholdRatio'', ''retainRatio'', ''retainTokens'', ''summarizationProvider'',
     ''summarizationModel'', ''maxTokens'', ''compactionRetries'', ''maxOverflowRetries'']"

definition BASIC_COMPACT_CONFIG_KEYS :: "string list" where
  "BASIC_COMPACT_CONFIG_KEYS = POLICY_CONFIG_KEYS @ [''modelPolicies'', ''auto'']"

definition MODEL_POLICY_KEYS :: "string list" where
  "MODEL_POLICY_KEYS = [''provider'', ''model''] @ POLICY_CONFIG_KEYS"

definition validateConfigKeys :: "json \<Rightarrow> string list \<Rightarrow> config_scope \<Rightarrow> config_error + unit" where
  "validateConfigKeys config ks scope =
     (case find (\<lambda>k. k \<notin> set ks) (object_keys config) of
        Some k \<Rightarrow> Inl (ConfigKeyUnknown scope k)
      | None \<Rightarrow> Inr ())"

fun is_ratio :: "json \<Rightarrow> bool" where
  "is_ratio (JNum r) = (0 < r \<and> r \<le> 1)"
| "is_ratio _ = False"

fun is_whole_from :: "int \<Rightarrow> json \<Rightarrow> bool" where
  "is_whole_from low (JNum r) = (r = of_int \<lfloor>r\<rfloor> \<and> r \<ge> of_int low)"
| "is_whole_from low _ = False"

fun is_boolean :: "json \<Rightarrow> bool" where
  "is_boolean (JBool _) = True"
| "is_boolean _ = False"

definition check_field :: "json \<Rightarrow> string \<Rightarrow> (json \<Rightarrow> bool) \<Rightarrow> config_error \<Rightarrow> config_error + unit" where
  "check_field config k ok x = (case get_prop k config of None \<Rightarrow> Inr () | Some v \<Rightarrow> guard (ok v) x)"

definition string_empty :: "json \<Rightarrow> bool" where
  "string_empty v \<longleftrightarrow> v = JStr []"

definition validateSummarizationPair :: "json \<Rightarrow> config_scope \<Rightarrow> config_error + unit" where
  "validateSummarizationPair config scope =
     rbind (check_field config ''summarizationProvider'' (\<lambda>v. is_string (Some v))
              (ConfigNotString scope ''summarizationProvider'')) (\<lambda>_.
     rbind (check_field config ''summarizationModel'' (\<lambda>v. is_string (Some v))
              (ConfigNotString scope ''summarizationModel'')) (\<lambda>_.
       case (get_prop ''summarizationProvider'' config, get_prop ''summarizationModel'' config) of
         (None, None) \<Rightarrow> Inr ()
       | (Some p, Some m) \<Rightarrow> guard (string_empty p = string_empty m) (ConfigSummarizationPair scope)
       | _ \<Rightarrow> Inl (ConfigSummarizationPair scope)))"

definition validatePolicy :: "json \<Rightarrow> config_scope \<Rightarrow> config_error + unit" where
  "validatePolicy config scope =
     rbind (check_field config ''thresholdRatio'' is_ratio (ConfigNotRatio scope ''thresholdRatio'')) (\<lambda>_.
     rbind (check_field config ''retainRatio'' is_ratio (ConfigNotRatio scope ''retainRatio'')) (\<lambda>_.
     rbind (check_field config ''retainTokens'' (is_whole_from 0) (ConfigNotNonNegative scope ''retainTokens'')) (\<lambda>_.
     rbind (guard (get_prop ''retainRatio'' config = None \<or> get_prop ''retainTokens'' config = None)
              (ConfigRetentionExclusive scope)) (\<lambda>_.
     rbind (check_field config ''maxTokens'' (is_whole_from 1) (ConfigNotPositive scope ''maxTokens'')) (\<lambda>_.
     rbind (check_field config ''compactionRetries'' (is_whole_from 0)
              (ConfigNotNonNegative scope ''compactionRetries'')) (\<lambda>_.
     rbind (check_field config ''maxOverflowRetries'' (is_whole_from 0)
              (ConfigNotNonNegative scope ''maxOverflowRetries'')) (\<lambda>_.
       validateSummarizationPair config scope)))))))"

section \<open>Fields of a validated configuration\<close>

definition rat_field :: "string \<Rightarrow> json \<Rightarrow> rat option" where
  "rat_field k config = (case get_prop k config of Some (JNum r) \<Rightarrow> Some r | _ \<Rightarrow> None)"

definition nat_field :: "string \<Rightarrow> json \<Rightarrow> nat option" where
  "nat_field k config = map_option (\<lambda>r. nat \<lfloor>r\<rfloor>) (rat_field k config)"

definition str_field :: "string \<Rightarrow> json \<Rightarrow> string option" where
  "str_field k config = (case get_prop k config of Some (JStr s) \<Rightarrow> Some s | _ \<Rightarrow> None)"

definition or_else :: "'a option \<Rightarrow> 'a \<Rightarrow> 'a" where
  "or_else v d = (case v of None \<Rightarrow> d | Some a \<Rightarrow> a)"

datatype retention = RetainRatio rat | RetainTokens nat

definition resolveRetention :: "json \<Rightarrow> retention \<Rightarrow> retention" where
  "resolveRetention config fallback =
     (case nat_field ''retainTokens'' config of
        Some n \<Rightarrow> RetainTokens n
      | None \<Rightarrow> (case rat_field ''retainRatio'' config of Some r \<Rightarrow> RetainRatio r | None \<Rightarrow> fallback))"

fun validateRatioRetention :: "rat \<Rightarrow> retention \<Rightarrow> config_scope \<Rightarrow> config_error + unit" where
  "validateRatioRetention threshold (RetainRatio r) scope =
     guard (r < threshold) (ConfigRetainTooLarge scope r threshold)"
| "validateRatioRetention threshold (RetainTokens n) scope = Inr ()"

section \<open>Loading\<close>

definition nonempty_string :: "string \<Rightarrow> json \<Rightarrow> bool" where
  "nonempty_string k source = (case get_prop k source of Some (JStr s) \<Rightarrow> s \<noteq> [] | _ \<Rightarrow> False)"

definition assertModelPolicy :: "json \<Rightarrow> config_scope \<Rightarrow> config_error + unit" where
  "assertModelPolicy source scope =
     rbind (guard (is_record source) (ConfigPolicyNotObject scope)) (\<lambda>_.
     rbind (validateConfigKeys source MODEL_POLICY_KEYS scope) (\<lambda>_.
     rbind (guard (nonempty_string ''provider'' source) (ConfigEmptyString scope ''provider'')) (\<lambda>_.
     rbind (guard (nonempty_string ''model'' source) (ConfigEmptyString scope ''model'')) (\<lambda>_.
       validatePolicy source scope))))"

definition policy_target :: "json \<Rightarrow> string \<times> string" where
  "policy_target source = (or_else (str_field ''provider'' source) [], or_else (str_field ''model'' source) [])"

definition policy_key :: "json \<Rightarrow> string" where
  "policy_key source = fst (policy_target source) @ [CHR 0x00] @ snd (policy_target source)"

fun resolve_policies :: "nat \<Rightarrow> string list \<Rightarrow> json list \<Rightarrow> config_error + json list" where
  "resolve_policies i seen [] = Inr []"
| "resolve_policies i seen (source # sources) =
     rbind (assertModelPolicy source (PolicyScope i)) (\<lambda>_.
     rbind (guard (policy_key source \<notin> set seen)
              (ConfigDuplicatePolicy (fst (policy_target source)) (snd (policy_target source)))) (\<lambda>_.
     rbind (resolve_policies (Suc i) (policy_key source # seen) sources) (\<lambda>rest. Inr (source # rest))))"

definition resolveModelPolicies :: "json option \<Rightarrow> config_error + json list" where
  "resolveModelPolicies configured =
     (case configured of
        None \<Rightarrow> Inr []
      | Some (JArr sources) \<Rightarrow> resolve_policies 0 [] sources
      | _ \<Rightarrow> Inl ConfigPoliciesNotArray)"

record policy_fields =
  pf_thresholdRatio :: rat
  pf_summarizationProvider :: string
  pf_summarizationModel :: string
  pf_maxTokens :: nat
  pf_compactionRetries :: nat
  pf_maxOverflowRetries :: nat

record resolved_config =
  rv_fields :: policy_fields
  rv_retention :: retention
  rv_modelPolicies :: "json list"
  rv_auto :: bool

fun check_policies :: "rat \<Rightarrow> retention \<Rightarrow> nat \<Rightarrow> json list \<Rightarrow> config_error + unit" where
  "check_policies threshold fallback i [] = Inr ()"
| "check_policies threshold fallback i (policy # policies) =
     rbind (validateRatioRetention (or_else (rat_field ''thresholdRatio'' policy) threshold)
              (resolveRetention policy fallback) (PolicyScope i)) (\<lambda>_.
       check_policies threshold fallback (Suc i) policies)"

text \<open>\<open>config.key ?? fallback\<close> for every policy field.\<close>

definition merge_fields :: "json \<Rightarrow> policy_fields \<Rightarrow> policy_fields" where
  "merge_fields config d =
     \<lparr>pf_thresholdRatio = or_else (rat_field ''thresholdRatio'' config) (pf_thresholdRatio d),
      pf_summarizationProvider = or_else (str_field ''summarizationProvider'' config) (pf_summarizationProvider d),
      pf_summarizationModel = or_else (str_field ''summarizationModel'' config) (pf_summarizationModel d),
      pf_maxTokens = or_else (nat_field ''maxTokens'' config) (pf_maxTokens d),
      pf_compactionRetries = or_else (nat_field ''compactionRetries'' config) (pf_compactionRetries d),
      pf_maxOverflowRetries = or_else (nat_field ''maxOverflowRetries'' config) (pf_maxOverflowRetries d)\<rparr>"

definition default_fields :: policy_fields where
  "default_fields = \<lparr>pf_thresholdRatio = DEFAULT_THRESHOLD_RATIO, pf_summarizationProvider = [],
     pf_summarizationModel = [], pf_maxTokens = 8192, pf_compactionRetries = 1, pf_maxOverflowRetries = 1\<rparr>"

definition resolveConfig :: "json \<Rightarrow> config_error + resolved_config" where
  "resolveConfig config =
     rbind (validateConfigKeys config BASIC_COMPACT_CONFIG_KEYS ServiceScope) (\<lambda>_.
     rbind (validatePolicy config ServiceScope) (\<lambda>_.
     rbind (check_field config ''auto'' is_boolean ConfigAutoNotBoolean) (\<lambda>_.
       let fields = merge_fields config default_fields;
           threshold = pf_thresholdRatio fields;
           kept = resolveRetention config (RetainRatio DEFAULT_RETAIN_RATIO)
       in rbind (validateRatioRetention threshold kept ServiceScope) (\<lambda>_.
          rbind (resolveModelPolicies (get_prop ''modelPolicies'' config)) (\<lambda>policies.
          rbind (check_policies threshold kept 0 policies) (\<lambda>_.
            Inr \<lparr>rv_fields = fields, rv_retention = kept, rv_modelPolicies = policies,
                 rv_auto = (get_prop ''auto'' config \<noteq> Some (JBool False))\<rparr>))))))"

section \<open>The policy of one model\<close>

record target_policy =
  tp_target :: "string \<times> string"
  tp_fields :: policy_fields
  tp_retention :: retention

definition resolveTargetPolicy :: "resolved_config \<Rightarrow> string \<times> string \<Rightarrow> target_policy" where
  "resolveTargetPolicy config target =
     (let override = or_else (find (\<lambda>p. policy_target p = target) (rv_modelPolicies config)) (JObj [])
      in \<lparr>tp_target = target, tp_fields = merge_fields override (rv_fields config),
          tp_retention = resolveRetention override (rv_retention config)\<rparr>)"

record compact_spec =
  sp_target :: "string \<times> string"
  sp_contextWindow :: nat
  sp_fields :: policy_fields
  sp_thresholdTokens :: nat
  sp_retainTokens :: nat

datatype pressure_fault = NoCapacity | WindowInvalid rat | RetainNotBelow nat nat

definition target_key :: "string \<times> string \<Rightarrow> string" where
  "target_key t = fst t @ ''/'' @ snd t"

definition resolveCompactSpec :: "target_policy \<Rightarrow> rat \<Rightarrow> (string \<times> pressure_fault) + compact_spec" where
  "resolveCompactSpec policy window =
     (if window \<noteq> of_int \<lfloor>window\<rfloor> \<or> window \<le> 0
      then Inl (target_key (tp_target policy), WindowInvalid window)
      else
        let thresholdTokens = nat \<lfloor>rd (window * pf_thresholdRatio (tp_fields policy))\<rfloor>;
            retainTokens = (case tp_retention policy of
              RetainRatio r \<Rightarrow> nat \<lfloor>rd (window * r)\<rfloor>
            | RetainTokens n \<Rightarrow> n)
        in if retainTokens \<ge> thresholdTokens
           then Inl (target_key (tp_target policy), RetainNotBelow retainTokens thresholdTokens)
           else Inr \<lparr>sp_target = tp_target policy, sp_contextWindow = nat \<lfloor>window\<rfloor>, sp_fields = tp_fields policy,
                     sp_thresholdTokens = thresholdTokens, sp_retainTokens = retainTokens\<rparr>)"

section \<open>What the budgets satisfy\<close>

lemma check_policies_all:
  "check_policies threshold fallback i policies = Inr () \<Longrightarrow> policy \<in> set policies \<Longrightarrow>
   \<exists>scope. validateRatioRetention (or_else (rat_field ''thresholdRatio'' policy) threshold)
     (resolveRetention policy fallback) scope = Inr ()"
  by (induction policies arbitrary: i) (auto simp: rbind_eq_Inr)

lemma ratio_checked: "validateRatioRetention threshold (RetainRatio r) scope = Inr () \<Longrightarrow> r < threshold"
  by (simp add: guard_eq_Inr)

lemma resolveConfig_checked:
  assumes "resolveConfig config = Inr c"
  shows "\<exists>scope. validateRatioRetention (pf_thresholdRatio (rv_fields c)) (rv_retention c) scope = Inr ()"
    and "policy \<in> set (rv_modelPolicies c) \<Longrightarrow>
      \<exists>scope. validateRatioRetention (or_else (rat_field ''thresholdRatio'' policy) (pf_thresholdRatio (rv_fields c)))
        (resolveRetention policy (rv_retention c)) scope = Inr ()"
  using assms by (auto simp: resolveConfig_def Let_def rbind_eq_Inr dest: check_policies_all)

lemma resolveRetention_empty [simp]: "resolveRetention (JObj []) r = r"
  by (simp add: resolveRetention_def nat_field_def rat_field_def)

lemma target_policy_ratio:
  assumes "resolveConfig config = Inr c" and "tp_retention (resolveTargetPolicy c target) = RetainRatio r"
  shows "r < pf_thresholdRatio (tp_fields (resolveTargetPolicy c target))"
proof (cases "find (\<lambda>p. policy_target p = target) (rv_modelPolicies c)")
  case None
  then show ?thesis
    using resolveConfig_checked(1) [OF assms(1)] assms(2)
    by (auto simp: resolveTargetPolicy_def Let_def or_else_def merge_fields_def rat_field_def guard_eq_Inr)
next
  case (Some p)
  then have "p \<in> set (rv_modelPolicies c)" by (metis find_Some_iff nth_mem)
  from resolveConfig_checked(2) [OF assms(1) this] Some assms(2) show ?thesis
    by (auto simp: resolveTargetPolicy_def Let_def or_else_def merge_fields_def guard_eq_Inr)
qed

definition ratio_ok :: "policy_fields \<Rightarrow> bool" where
  "ratio_ok f \<longleftrightarrow> 0 < pf_thresholdRatio f \<and> pf_thresholdRatio f \<le> 1"

lemma default_ratio_ok: "ratio_ok default_fields"
  by (simp add: ratio_ok_def default_fields_def DEFAULT_THRESHOLD_RATIO_def rd_def ulp_def binade_def
      round_even_def) code_simp

lemma validated_ratio:
  "check_field config k is_ratio x = Inr () \<Longrightarrow> rat_field k config = Some r \<Longrightarrow> 0 < r \<and> r \<le> 1"
  by (auto simp: check_field_def rat_field_def guard_eq_Inr split: option.splits json.splits)

lemma validatePolicy_ratio:
  "validatePolicy config scope = Inr () \<Longrightarrow> rat_field ''thresholdRatio'' config = Some r \<Longrightarrow> 0 < r \<and> r \<le> 1"
  by (auto simp: validatePolicy_def rbind_eq_Inr dest: validated_ratio)

lemma merge_ratio_ok:
  "ratio_ok d \<Longrightarrow> (\<And>r. rat_field ''thresholdRatio'' config = Some r \<Longrightarrow> 0 < r \<and> r \<le> 1) \<Longrightarrow> ratio_ok (merge_fields config d)"
  by (auto simp: ratio_ok_def merge_fields_def or_else_def split: option.splits)

lemma resolve_policies_valid:
  "resolve_policies i seen sources = Inr policies \<Longrightarrow> policy \<in> set policies \<Longrightarrow> \<exists>scope. validatePolicy policy scope = Inr ()"
  by (induction sources arbitrary: i seen policies) (auto simp: rbind_eq_Inr assertModelPolicy_def)

lemma target_ratio_ok:
  assumes "resolveConfig config = Inr c"
  shows "ratio_ok (tp_fields (resolveTargetPolicy c target))"
proof -
  have c: "ratio_ok (rv_fields c)"
    using assms by (auto simp: resolveConfig_def Let_def rbind_eq_Inr
        intro!: merge_ratio_ok [OF default_ratio_ok] validatePolicy_ratio)
  have p: "\<exists>scope. validatePolicy policy scope = Inr ()" if "policy \<in> set (rv_modelPolicies c)" for policy
    using assms that by (auto simp: resolveConfig_def Let_def rbind_eq_Inr resolveModelPolicies_def
        dest: resolve_policies_valid split: option.splits json.splits)
  show ?thesis
  proof (cases "find (\<lambda>p. policy_target p = target) (rv_modelPolicies c)")
    case None
    then show ?thesis using c
      by (auto simp: resolveTargetPolicy_def Let_def or_else_def rat_field_def intro: merge_ratio_ok)
  next
    case (Some q)
    then have "q \<in> set (rv_modelPolicies c)" by (metis find_Some_iff nth_mem)
    with p obtain scope where "validatePolicy q scope = Inr ()" by blast
    with c Some show ?thesis
      by (auto simp: resolveTargetPolicy_def Let_def or_else_def intro: merge_ratio_ok dest: validatePolicy_ratio)
  qed
qed

text \<open>
  C36. Whatever configuration the plugin accepts at load and whatever model a request is routed to,
  the budgets resolved for a context window leave room: the tail kept verbatim is smaller than the
  threshold that triggers a compaction, the threshold is at most the window, and a policy that
  keeps a fraction of the window keeps a smaller fraction than the one it compacts at.
\<close>

theorem compact_spec_bounds:
  assumes "resolveConfig config = Inr c" and "rd window = window"
    and "resolveCompactSpec (resolveTargetPolicy c target) window = Inr s"
  shows "sp_retainTokens s < sp_thresholdTokens s \<and> sp_thresholdTokens s \<le> sp_contextWindow s
    \<and> of_nat (sp_contextWindow s) = window
    \<and> (\<forall>r. tp_retention (resolveTargetPolicy c target) = RetainRatio r \<longrightarrow> r < pf_thresholdRatio (sp_fields s))"
proof -
  let ?p = "resolveTargetPolicy c target"
  let ?r = "pf_thresholdRatio (tp_fields ?p)"
  have r: "0 < ?r" "?r \<le> 1" using target_ratio_ok [OF assms(1)] by (auto simp: ratio_ok_def)
  have w: "0 < window" "window = of_int \<lfloor>window\<rfloor>"
    and s: "sp_retainTokens s < sp_thresholdTokens s" "sp_thresholdTokens s = nat \<lfloor>rd (window * ?r)\<rfloor>"
      "sp_contextWindow s = nat \<lfloor>window\<rfloor>" "sp_fields s = tp_fields ?p"
    using assms(3) by (auto simp: resolveCompactSpec_def Let_def split: if_splits)
  have "rd (window * ?r) \<le> rd window"
    using w(1) r by (intro rd_mono) (simp_all add: mult_left_le)
  then have "nat \<lfloor>rd (window * ?r)\<rfloor> \<le> nat \<lfloor>window\<rfloor>"
    unfolding assms(2) by (intro nat_mono floor_mono)
  moreover have "of_nat (nat \<lfloor>window\<rfloor>) = window" using w by simp
  ultimately show ?thesis using s target_policy_ratio [OF assms(1)] by auto
qed

theorem compact_spec_bounds_witness:
  "\<exists>c s. resolveConfig (JObj [(''thresholdRatio'', JNum (1 / 2)), (''retainTokens'', JInt 10)]) = Inr c
    \<and> resolveCompactSpec (resolveTargetPolicy c (''p'', ''m'')) 1024 = Inr s
    \<and> sp_retainTokens s = 10 \<and> sp_thresholdTokens s = 512 \<and> sp_contextWindow s = 1024"
proof -
  let ?j = "JObj [(''thresholdRatio'', JNum (1 / 2)), (''retainTokens'', JInt 10)]"
  have r: "rd (1024 :: rat) = 1024" "rd (512 :: rat) = 512"
    using rd_integer [of 1024] rd_integer [of 512] by simp_all
  obtain c where c: "resolveConfig ?j = Inr c" "pf_thresholdRatio (rv_fields c) = 1 / 2"
      "rv_retention c = RetainTokens 10" "rv_modelPolicies c = []"
    by (simp add: resolveConfig_def validateConfigKeys_def validatePolicy_def validateSummarizationPair_def check_field_def
        BASIC_COMPACT_CONFIG_KEYS_def POLICY_CONFIG_KEYS_def merge_fields_def resolveRetention_def rat_field_def
        nat_field_def str_field_def or_else_def resolveModelPolicies_def default_fields_def JInt_def)
  obtain s where s: "resolveCompactSpec (resolveTargetPolicy c (''p'', ''m'')) 1024 = Inr s"
      "sp_retainTokens s = 10" "sp_thresholdTokens s = 512"
    using c r by (simp add: Let_def resolveCompactSpec_def resolveTargetPolicy_def or_else_def merge_fields_def rat_field_def)
  from compact_spec_bounds [OF c(1) r(1) s(1)] have "(of_nat (sp_contextWindow s) :: rat) = of_nat 1024" by simp
  then show ?thesis using c s by (auto simp only: of_nat_eq_iff)
qed

end
