(* ===== verification/CompactRegion.thy ===== *)
theory CompactRegion imports Effects ToolPairing TokenMeter PruneContent CompactConfig begin

text \<open>
  packages/compaction/compaction-basic/src/region.ts and summarizer.ts: the choice of the range to
  compact and the transaction that replaces it by a summary. The world holds the session, the
  meter's replay state and the balance cache of the session. Each \<open>await\<close> takes one tick of the
  script: what other code appends to the session meanwhile, whether the signal is aborted
  afterwards and whether the agent's own signal was the first to abort, and the answer: the chunks
  of the model's stream and the error it ended in, if any, or the context window of a model.
  The identities, the clock, the verdict of the listeners an append is dispatched to, the text of
  an error and the wording of the instruction are arguments.
\<close>

section \<open>World and errors\<close>

datatype session_fault = FaultAppend session_error | FaultSurface session_error

datatype manual_code = CodeBusy | CodeCancelled | CodeChanged | CodeSummary | CodeCommit | CodePersistence

datatype region_error =
    SignalAborted
  | SessionFault session_fault
  | MeterFault meter_error
  | PairingFault pairing_error
  | MeterMismatch
  | RegionStartMissing nat
  | RegionEndMissing nat
  | RegionReversed nat nat
  | RegionStartUnbalanced nat
  | RegionEndUnbalanced nat
  | NoOpenTurn
  | SurfaceChanged
  | SummaryNotSmaller nat nat
  | NoSummaryTarget
  | StreamFailed string
  | SummaryFinished finish_reason
  | SummaryHasImage
  | SummaryBlank
  | SummaryUnassembled assembly_error
  | PruneFailed prune_error
  | ToolResultMalformed
  | PressureConfig string pressure_fault
  | StillAboveThreshold nat rat nat
  | ManualFailure manual_code

record 'q region_tick =
  rt_outside :: "'q compact_payload append_input list"
  rt_aborted :: bool
  rt_chunks :: "stream_chunk list"
  rt_error :: "string option"
  rt_context :: "rat option"
  rt_byAgent :: bool

record summarization_input =
  si_system :: "string option"
  si_tools :: "tool_schema list option"
  si_messages :: "message list"

record summary_request =
  sq_provider :: string
  sq_model :: string
  sq_messages :: "message list"
  sq_system :: "string option"
  sq_tools :: "tool_schema list option"
  sq_maxTokens :: rat

record 'q region_world =
  rw_session :: "'q compact_payload session"
  rw_meter :: meter_state
  rw_balance :: "balance_cache option"
  rw_aborted :: bool
  rw_byAgent :: bool
  rw_asked :: "summary_request list"
  rw_script :: "'q region_tick list"

record 'q region_env =
  rg_same :: "'q compact_payload event \<Rightarrow> 'q compact_payload event \<Rightarrow> bool"
  rg_meter :: meter_env
  rg_now :: "nat \<Rightarrow> int"
  rg_accepts :: "'q compact_payload event \<Rightarrow> bool"
  rg_compactionId :: "nat \<Rightarrow> string"
  rg_messageId :: "nat \<Rightarrow> string"
  rg_instruction :: string
  rg_errorText :: "region_error \<Rightarrow> string"
  rg_agentTarget :: "(string option \<times> string option)"

type_synonym ('q, 'a) region_prog = "(region_error, 'a, 'q region_world) prog"

definition region_log :: "'q region_world \<Rightarrow> 'q compact_payload event list" where
  "region_log w = ss_log (rw_session w)"

section \<open>Primitive operations\<close>

definition append_region ::
  "'q region_env \<Rightarrow> 'q compact_payload event_data \<Rightarrow> json option \<Rightarrow> json option \<Rightarrow> ('q, nat) region_prog" where
  "append_region v d op sources w =
     (let i = \<lparr>ai_data = d, ai_surfaceOp = op, ai_sources = sources, ai_ignorable = False,
               ai_time = rg_now v (length (region_log w))\<rparr>
      in case append_event (rg_same v) False (rg_accepts v (candidate (rw_session w) i)) (rw_session w) i of
           (s, Inl x) \<Rightarrow> Thrown (SessionFault (FaultAppend x)) (w\<lparr>rw_session := s\<rparr>)
         | (s, Inr e) \<Rightarrow> Done (ev_seq e) (w\<lparr>rw_session := s\<rparr>))"

text \<open>What other code appends while this code waits; the attempts a session refuses are theirs.\<close>

fun append_outside ::
  "'q region_env \<Rightarrow> 'q compact_payload append_input list \<Rightarrow> 'q compact_payload session \<Rightarrow> 'q compact_payload session" where
  "append_outside v [] s = s"
| "append_outside v (i # is) s =
     append_outside v is (fst (append_event (rg_same v) False (rg_accepts v (candidate s i)) s i))"

definition await :: "'q region_env \<Rightarrow> ('q, 'q region_tick) region_prog" where
  "await v w =
     (case rw_script w of
        [] \<Rightarrow> Waiting w
      | t # ts \<Rightarrow> Done t (w\<lparr>rw_script := ts, rw_aborted := rt_aborted t, rw_byAgent := rt_byAgent t,
                           rw_session := append_outside v (rt_outside t) (rw_session w)\<rparr>))"

definition throwIfAborted :: "('q, unit) region_prog" where
  "throwIfAborted = bnd (read_state rw_aborted) (\<lambda>a. if a then throw SignalAborted else ret ())"

definition read_surface :: "'q region_env \<Rightarrow> ('q, fold_state) region_prog" where
  "read_surface v w =
     (case readSurface (rg_same v) 0 (region_log w) (ss_mgr (rw_session w)) of
        (m, Inl x) \<Rightarrow> Thrown (SessionFault (FaultSurface (SurfaceBroken x)))
          (w\<lparr>rw_session := (rw_session w)\<lparr>ss_mgr := m\<rparr>\<rparr>)
      | (m, Inr st) \<Rightarrow> Done st (w\<lparr>rw_session := (rw_session w)\<lparr>ss_mgr := m\<rparr>\<rparr>))"

definition read_header :: "('q, epoch_header option) region_prog" where
  "read_header w =
     (case requestHeader (rw_session w) of (s, h) \<Rightarrow> Done h (w\<lparr>rw_session := s\<rparr>))"

definition measure_region :: "'q region_env \<Rightarrow> ('q, token_measurement) region_prog" where
  "measure_region v w =
     (case measure_session (rg_meter v) (region_log w) None (rw_meter w) of
        (m, Inl x) \<Rightarrow> Thrown (MeterFault x) (w\<lparr>rw_meter := m\<rparr>)
      | (m, Inr r) \<Rightarrow> Done r (w\<lparr>rw_meter := m\<rparr>))"

definition ask_balance ::
  "'q region_env
   \<Rightarrow> ('q compact_payload event list \<Rightarrow> fold_state \<Rightarrow> balance_cache option \<Rightarrow> nat
        \<Rightarrow> balance_cache option \<times> (pairing_error + bool))
   \<Rightarrow> nat \<Rightarrow> ('q, bool) region_prog" where
  "ask_balance v query s =
     bnd (read_surface v) (\<lambda>st w.
       case query (region_log w) st (rw_balance w) s of
         (c, Inl x) \<Rightarrow> Thrown (PairingFault x) (w\<lparr>rw_balance := c\<rparr>)
       | (c, Inr b) \<Rightarrow> Done b (w\<lparr>rw_balance := c\<rparr>))"

definition balancedBefore :: "'q region_env \<Rightarrow> nat \<Rightarrow> ('q, bool) region_prog" where
  "balancedBefore v = ask_balance v toolPairingBalancedBefore"

definition balancedAfter :: "'q region_env \<Rightarrow> nat \<Rightarrow> ('q, bool) region_prog" where
  "balancedAfter v = ask_balance v toolPairingBalancedAfter"

section \<open>The range to compact\<close>

text \<open>
  The retained tail: from the last node backwards until the budget is reached; the loop variable
  is the number of nodes not visited yet.
\<close>

fun retained_from :: "token_node list \<Rightarrow> nat \<Rightarrow> nat \<Rightarrow> nat \<Rightarrow> nat" where
  "retained_from ns budget acc 0 = 0"
| "retained_from ns budget acc (Suc i) =
     (let acc' = acc + tn_tokens (ns ! i)
      in if acc' \<ge> budget then i else retained_from ns budget acc' i)"

fun balanced_from :: "'q region_env \<Rightarrow> nat list \<Rightarrow> nat \<Rightarrow> ('q, nat) region_prog" where
  "balanced_from v surf 0 = ret 0"
| "balanced_from v surf (Suc k) =
     bnd (balancedBefore v (surf ! Suc k)) (\<lambda>b. if b then ret (Suc k) else balanced_from v surf k)"

definition selectCompactableRange ::
  "'q region_env \<Rightarrow> token_measurement \<Rightarrow> nat \<Rightarrow> ('q, (nat \<times> nat) option) region_prog" where
  "selectCompactableRange v m retainTokens =
     (let priced = tm_nodes m
      in if length priced = 0 then ret None
         else bnd (read_surface v) (\<lambda>st.
           let surf = nodes st
           in if length surf \<noteq> length priced \<or> surf \<noteq> map tn_seq priced then throw MeterMismatch
              else
                let keep = retained_from priced retainTokens 0 (length priced)
                in if keep = 0 then ret None
                   else bnd (balanced_from v surf keep) (\<lambda>k.
                     if k = 0 then ret None else ret (Some (surf ! 0, surf ! (k - 1))))))"

section \<open>Entry checks\<close>

record entry_state =
  es_openTurn :: "int option"
  es_turnKnown :: bool
  es_unmatched :: "nat option"
  es_compactionKnown :: bool
  es_endSeed :: "nat option"

definition entry_visit :: "entry_state \<Rightarrow> 'q compact_payload event \<Rightarrow> entry_state" where
  "entry_visit s e =
     (let s1 = (if es_endSeed s = None \<and> is_end_seed (ev_data e) then s\<lparr>es_endSeed := Some (ev_seq e)\<rparr> else s);
          s2 = (if es_compactionKnown s1 then s1
                else (case ev_data e of
                    Plugin (CompactStart _) \<Rightarrow> s1\<lparr>es_unmatched := Some (ev_seq e), es_compactionKnown := True\<rparr>
                  | Plugin (CompactEnd _ _) \<Rightarrow> s1\<lparr>es_compactionKnown := True\<rparr>
                  | _ \<Rightarrow> s1))
      in if es_turnKnown s2 then s2
         else (case ev_data e of
             TurnStart t \<Rightarrow> s2\<lparr>es_openTurn := Some t, es_turnKnown := True\<rparr>
           | TurnEnd _ _ \<Rightarrow> s2\<lparr>es_turnKnown := True\<rparr>
           | _ \<Rightarrow> s2))"

text \<open>The loop runs from the end of the log: its argument is the log reversed.\<close>

fun entry_loop :: "entry_state \<Rightarrow> 'q compact_payload event list \<Rightarrow> entry_state" where
  "entry_loop s [] = s"
| "entry_loop s (e # es) =
     (let s' = entry_visit s e
      in if es_turnKnown s' \<and> es_compactionKnown s' \<and> es_endSeed s' \<noteq> None then s' else entry_loop s' es)"

definition inspectCompactionEntryState :: "'q compact_payload event list \<Rightarrow> entry_state" where
  "inspectCompactionEntryState evs =
     entry_loop \<lparr>es_openTurn = None, es_turnKnown = False, es_unmatched = None, es_compactionKnown = False,
       es_endSeed = None\<rparr> (rev evs)"

definition compaction_inactive :: "entry_state \<Rightarrow> bool" where
  "compaction_inactive s \<longleftrightarrow>
     (case es_unmatched s of
        None \<Rightarrow> True
      | Some n \<Rightarrow> (case es_endSeed s of Some k \<Rightarrow> k > n | None \<Rightarrow> False))"

definition assertCompactionInactive :: "entry_state \<Rightarrow> ('q, unit) region_prog" where
  "assertCompactionInactive s = (if compaction_inactive s then ret () else throw (ManualFailure CodeBusy))"

definition assertNoActiveCompaction :: "('q, unit) region_prog" where
  "assertNoActiveCompaction =
     bnd (read_state region_log) (\<lambda>evs. assertCompactionInactive (inspectCompactionEntryState evs))"

record selection =
  sl_start :: nat
  sl_end :: nat
  sl_startIdx :: nat
  sl_endIdx :: nat
  sl_seqs :: "nat list"

definition validateSurfaceRegion :: "'q region_env \<Rightarrow> nat \<Rightarrow> nat \<Rightarrow> ('q, selection) region_prog" where
  "validateSurfaceRegion v a b =
     bnd (read_surface v) (\<lambda>st.
       let surf = nodes st
       in case index_of a surf of
            None \<Rightarrow> throw (RegionStartMissing a)
          | Some i \<Rightarrow>
              (case index_of b surf of
                 None \<Rightarrow> throw (RegionEndMissing b)
               | Some j \<Rightarrow>
                   if i > j then throw (RegionReversed a b)
                   else bnd (balancedBefore v (surf ! i)) (\<lambda>before.
                     if \<not> before then throw (RegionStartUnbalanced a)
                     else bnd (balancedAfter v (surf ! j)) (\<lambda>after.
                       if \<not> after then throw (RegionEndUnbalanced b)
                       else ret \<lparr>sl_start = a, sl_end = b, sl_startIdx = i, sl_endIdx = j,
                                 sl_seqs = slice i (j + 1) surf\<rparr>))))"

section \<open>The summarizer\<close>

record summary_config =
  sg_provider :: string
  sg_model :: string
  sg_maxTokens :: rat

record summary_result =
  sr_summary :: "content_block list"
  sr_provider :: string
  sr_model :: string
  sr_maxTokens :: "rat option"
  sr_usage :: "json option"
  sr_rawOutput :: "content_block list option"
  sr_llmStreamCall :: bool

definition CHECKPOINT_PREAMBLE :: string where
  "CHECKPOINT_PREAMBLE = ''This is an automatically generated checkpoint condensing an earlier span of the conversation to free up context. Treat the captured context as established background and build on it without restating it. Continue the task directly from the messages that follow, without acknowledging this checkpoint.''"

definition frameSummary :: "content_block list \<Rightarrow> content_block list" where
  "frameSummary summary =
     TextBlock (CHECKPOINT_PREAMBLE @ [CHR 0x0A, CHR 0x0A] @ ''<compacted-summary>'')
     # summary @ [TextBlock ''</compacted-summary>'']"

fun finishError :: "finish_reason \<Rightarrow> region_error option" where
  "finishError (FinError f) = Some (SummaryFinished (FinError f))"
| "finishError (FinAborted f) = Some (SummaryFinished (FinAborted f))"
| "finishError FinMaxTokens = Some (SummaryFinished FinMaxTokens)"
| "finishError _ = None"

fun block_has_image :: "content_block \<Rightarrow> bool" where
  "block_has_image (ImageBlock _) = True"
| "block_has_image (ToolResultBlock _ bs _) = (\<exists>b \<in> set bs. block_has_image b)"
| "block_has_image _ = False"

definition contentHasImage :: "content_block list \<Rightarrow> bool" where
  "contentHasImage bs \<longleftrightarrow> (\<exists>b \<in> set bs. block_has_image b)"

definition summaryText :: "content_block list \<Rightarrow> region_error + content_block list" where
  "summaryText bs = (if contentHasImage bs then Inl SummaryHasImage else Inr (filter is_text bs))"

definition nonempty_pair :: "string option \<times> string option \<Rightarrow> (string \<times> string) option" where
  "nonempty_pair t =
     (case t of
        (Some p, Some m) \<Rightarrow> if length p > 0 \<and> length m > 0 then Some (p, m) else None
      | _ \<Rightarrow> None)"

definition summary_target ::
  "summary_config \<Rightarrow> epoch_header option \<Rightarrow> string option \<times> string option \<Rightarrow> (string \<times> string) option" where
  "summary_target c latest agent =
     (if length (sg_provider c) \<noteq> 0 then Some (sg_provider c, sg_model c)
      else (case latest of
          Some h \<Rightarrow> Some (cfg_provider (eh_config h), cfg_model (eh_config h))
        | None \<Rightarrow> nonempty_pair agent))"

text \<open>What the assembled stream amounts to, once it has ended without an error of its own.\<close>

definition finishSummary :: "summary_config \<Rightarrow> string \<times> string \<Rightarrow> assembler \<Rightarrow> region_error + summary_result" where
  "finishSummary c target a =
     (case finishError (finish a) of
        Some x \<Rightarrow> Inl x
      | None \<Rightarrow>
          (case blocks a of
             Inl x \<Rightarrow> Inl (SummaryUnassembled x)
           | Inr raw \<Rightarrow>
               rbind (summaryText raw) (\<lambda>summary.
                 if \<not> (\<exists>b \<in> set summary. length (trim (text_of b)) > 0) then Inl SummaryBlank
                 else Inr \<lparr>sr_summary = summary, sr_provider = fst target, sr_model = snd target,
                           sr_maxTokens = Some (sg_maxTokens c), sr_usage = as_usage a,
                           sr_rawOutput = Some raw, sr_llmStreamCall = True\<rparr>)))"

definition lift_result :: "'x + 'a \<Rightarrow> ('x, 'a, 'w) prog" where
  "lift_result r = (case r of Inl x \<Rightarrow> throw x | Inr a \<Rightarrow> ret a)"

definition summary_request_of ::
  "'q region_env \<Rightarrow> summary_config \<Rightarrow> string \<times> string \<Rightarrow> nat \<Rightarrow> summarization_input \<Rightarrow> summary_request" where
  "summary_request_of v c target n input =
     \<lparr>sq_provider = fst target, sq_model = snd target,
      sq_messages = si_messages input
        @ [createUserMessage (rg_messageId v n) [TextBlock (rg_instruction v)]
             (PluginSource ''dsh-compaction-basic'' (JObj []))],
      sq_system = si_system input, sq_tools = si_tools input, sq_maxTokens = sg_maxTokens c\<rparr>"

definition summarizeWithLlm ::
  "'q region_env \<Rightarrow> summary_config \<Rightarrow> summarization_input \<Rightarrow> ('q, summary_result) region_prog" where
  "summarizeWithLlm v c input =
     bnd read_header (\<lambda>latest.
       case summary_target c latest (rg_agentTarget v) of
         None \<Rightarrow> throw NoSummaryTarget
       | Some target \<Rightarrow>
           bnd (modify (\<lambda>w. w\<lparr>rw_asked := rw_asked w
                 @ [summary_request_of v c target (length (region_log w)) input]\<rparr>)) (\<lambda>_.
           bnd (await v) (\<lambda>t.
             case rt_error t of
               Some x \<Rightarrow> throw (StreamFailed x)
             | None \<Rightarrow> lift_result (finishSummary c target (foldl push newAssembler (rt_chunks t))))))"

text \<open>
  The engine's \<open>summarize\<close>: the policy of the model the conversation is routed to, looked up when
  the summary is asked for.
\<close>

type_synonym summary_policy = "(string \<times> string) option \<Rightarrow> summary_config"

definition routed_target :: "epoch_header option \<Rightarrow> (string \<times> string) option" where
  "routed_target h =
     (case h of
        None \<Rightarrow> None
      | Some x \<Rightarrow> nonempty_pair (Some (cfg_provider (eh_config x)), Some (cfg_model (eh_config x))))"

definition conversation_target :: "'q region_env \<Rightarrow> epoch_header option \<Rightarrow> (string \<times> string) option" where
  "conversation_target v h =
     (case routed_target h of Some t \<Rightarrow> Some t | None \<Rightarrow> nonempty_pair (rg_agentTarget v))"

definition summarize ::
  "'q region_env \<Rightarrow> summary_policy \<Rightarrow> summarization_input \<Rightarrow> ('q, summary_result) region_prog" where
  "summarize v c input =
     bnd read_header (\<lambda>h. summarizeWithLlm v (c (conversation_target v h)) input)"

section \<open>The transaction\<close>

record prepared =
  pp_selection :: selection
  pp_nodes :: "token_node list"
  pp_selected :: "token_node list"
  pp_tokens :: nat
  pp_input :: summarization_input

record summarized =
  sz_prepared :: prepared
  sz_result :: summary_result
  sz_message :: message

definition buildSummarizationInput :: "nat list \<Rightarrow> ('q, summarization_input) region_prog" where
  "buildSummarizationInput seqs =
     bnd read_header (\<lambda>h. bnd (read_state region_log) (\<lambda>evs.
       ret \<lparr>si_system = (case h of None \<Rightarrow> None | Some x \<Rightarrow> eh_system x),
            si_tools = (case h of None \<Rightarrow> None | Some x \<Rightarrow> eh_tools x),
            si_messages = List.map_filter (\<lambda>n. deriveEventMessage (evs ! n)) seqs\<rparr>))"

definition prepareCompaction :: "'q region_env \<Rightarrow> selection \<Rightarrow> ('q, prepared) region_prog" where
  "prepareCompaction v sel =
     bnd (measure_region v) (\<lambda>m.
       let selected = slice (sl_startIdx sel) (sl_endIdx sel + 1) (tm_nodes m)
       in if length selected \<noteq> length (sl_seqs sel) \<or> map tn_seq selected \<noteq> sl_seqs sel then throw SurfaceChanged
          else bnd (buildSummarizationInput (sl_seqs sel)) (\<lambda>input.
            ret \<lparr>pp_selection = sel, pp_nodes = tm_nodes m, pp_selected = selected,
                 pp_tokens = total_tokens selected, pp_input = input\<rparr>))"

definition summarizeCompaction ::
  "'q region_env \<Rightarrow> summary_policy \<Rightarrow> prepared \<Rightarrow> string \<Rightarrow> string option \<Rightarrow> ('q, summarized) region_prog" where
  "summarizeCompaction v c pp cid command =
     bnd (summarize v c (pp_input pp)) (\<lambda>r.
     bnd (read_state region_log) (\<lambda>evs.
       let m = createUserMessage (rg_messageId v (length evs)) (frameSummary (sr_summary r))
                 (compactCheckpointSource cid command);
           framed = estimateMessage (rg_meter v) m
       in if framed \<ge> pp_tokens pp then throw (SummaryNotSmaller framed (pp_tokens pp))
          else ret \<lparr>sz_prepared = pp, sz_result = r, sz_message = m\<rparr>))"

definition assertWholeSurfaceUnchanged :: "'q region_env \<Rightarrow> prepared \<Rightarrow> ('q, unit) region_prog" where
  "assertWholeSurfaceUnchanged v pp =
     bnd (measure_region v) (\<lambda>m. if tm_nodes m \<noteq> pp_nodes pp then throw SurfaceChanged else ret ())"

definition assertSelectedSpanStable :: "'q region_env \<Rightarrow> prepared \<Rightarrow> ('q, unit) region_prog" where
  "assertSelectedSpanStable v pp =
     bnd (handle (validateSurfaceRegion v (sl_start (pp_selection pp)) (sl_end (pp_selection pp)))
            (\<lambda>_. throw SurfaceChanged)) (\<lambda>cur.
       if sl_seqs cur \<noteq> sl_seqs (pp_selection pp) then throw SurfaceChanged
       else bnd (measure_region v) (\<lambda>m.
         if slice (sl_startIdx cur) (sl_endIdx cur + 1) (tm_nodes m) \<noteq> pp_selected pp then throw SurfaceChanged
         else ret ()))"

record compaction_result =
  cr_id :: string
  cr_command :: "string option"
  cr_startSeq :: nat
  cr_summarySeq :: nat
  cr_endSeq :: nat
  cr_summary :: "content_block list"
  cr_start :: nat
  cr_end :: nat
  cr_seqs :: "nat list"
  cr_tokens :: nat

definition replace_op :: "nat \<Rightarrow> nat \<Rightarrow> json" where
  "replace_op a b = JObj [(''op'', JStr ''replace''), (''start'', JInt (int a)), (''end'', JInt (int b))]"

definition source_list :: "nat list \<Rightarrow> json" where
  "source_list ns = JArr (map (\<lambda>n. JInt (int n)) ns)"

text \<open>\<open>cr_endSeq\<close> of the pending result is a placeholder that \<open>completeCompaction\<close> overwrites.\<close>

definition commitCompactionBody ::
  "'q region_env \<Rightarrow> compact_lifecycle \<Rightarrow> nat \<Rightarrow> summarized \<Rightarrow> ('q, compaction_result) region_prog" where
  "commitCompactionBody v l startSeq sm =
     (let pp = sz_prepared sm; sel = pp_selection pp; r = sz_result sm
      in bnd (append_region v (Plugin (CompactSummary
            \<lparr>cs_id = cl_id l, cs_command = cl_command l, cs_summary = sr_summary r,
             cs_price = \<lparr>cp_start = sl_start sel, cp_end = sl_end sel, cp_seqs = sl_seqs sel,
                         cp_tokens = of_nat (pp_tokens pp)\<rparr>,
             cs_provider = sr_provider r, cs_model = sr_model r, cs_maxTokens = sr_maxTokens r,
             cs_usage = sr_usage r, cs_rawOutput = sr_rawOutput r, cs_llmStreamCall = sr_llmStreamCall r\<rparr>)) None None)
          (\<lambda>summarySeq.
         bnd (append_region v (UserMessage (sz_message sm)) (Some (replace_op (sl_start sel) (sl_end sel)))
               (Some (source_list (startSeq # summarySeq # sl_seqs sel)))) (\<lambda>_.
           ret \<lparr>cr_id = cl_id l, cr_command = cl_command l, cr_startSeq = startSeq, cr_summarySeq = summarySeq,
                cr_endSeq = 0, cr_summary = sr_summary r, cr_start = sl_start sel, cr_end = sl_end sel,
                cr_seqs = sl_seqs sel, cr_tokens = pp_tokens pp\<rparr>)))"

definition completeCompaction :: "compaction_result \<Rightarrow> nat \<Rightarrow> compaction_result" where
  "completeCompaction pending endSeq = pending\<lparr>cr_endSeq := endSeq\<rparr>"

datatype tx_stage = StageSummary | StageCommit

datatype tx_outcome =
    TxCommitted compaction_result
  | TxFailed region_error tx_stage (tx_closed: bool)

text \<open>\<open>try\<close>: the value, or the error it threw.\<close>

definition attempt :: "('x, 'a, 'w) prog \<Rightarrow> ('x, 'x + 'a, 'w) prog" where
  "attempt p = handle (bnd p (\<lambda>a. ret (Inr a))) (\<lambda>x. ret (Inl x))"

definition close_failed ::
  "'q region_env \<Rightarrow> compact_lifecycle \<Rightarrow> region_error \<Rightarrow> tx_stage \<Rightarrow> ('q, tx_outcome) region_prog" where
  "close_failed v l x stage =
     bnd (attempt (append_region v (Plugin (CompactEnd l (Some (rg_errorText v x)))) None None)) (\<lambda>r.
       case r of
         Inl y \<Rightarrow> ret (TxFailed y StageCommit False)
       | Inr _ \<Rightarrow> ret (TxFailed x stage True))"

record region_options =
  ro_manual :: bool
  ro_wholeSurface :: bool
  ro_flush :: bool
  ro_command :: "string option"

definition run_transaction ::
  "'q region_env \<Rightarrow> summary_policy \<Rightarrow> region_options \<Rightarrow> selection \<Rightarrow> compact_lifecycle \<Rightarrow> nat
   \<Rightarrow> ('q, tx_outcome) region_prog" where
  "run_transaction v c opts sel l startSeq =
     bnd (attempt
       (bnd (prepareCompaction v sel) (\<lambda>pp.
        bnd (summarizeCompaction v c pp (cl_id l) (cl_command l)) (\<lambda>sm.
        bnd (if ro_manual opts then throwIfAborted else ret ()) (\<lambda>_.
        bnd (if ro_wholeSurface opts then assertWholeSurfaceUnchanged v pp else assertSelectedSpanStable v pp) (\<lambda>_.
          ret sm)))))) (\<lambda>r1.
     case r1 of
       Inl x \<Rightarrow> close_failed v l x StageSummary
     | Inr sm \<Rightarrow>
         bnd (attempt (commitCompactionBody v l startSeq sm)) (\<lambda>r2.
         case r2 of
           Inl x \<Rightarrow> close_failed v l x StageCommit
         | Inr pending \<Rightarrow>
             bnd (attempt (append_region v (Plugin (CompactEnd l None)) None None)) (\<lambda>r3.
             case r3 of
               Inl x \<Rightarrow> ret (TxFailed x StageCommit False)
             | Inr endSeq \<Rightarrow> ret (TxCommitted (completeCompaction pending endSeq)))))"

definition throwManualFailure :: "region_error \<Rightarrow> tx_stage \<Rightarrow> ('q, 'a) region_prog" where
  "throwManualFailure x stage =
     (case stage of
        StageCommit \<Rightarrow> throw (ManualFailure CodeCommit)
      | StageSummary \<Rightarrow>
          if x = SurfaceChanged then throw (ManualFailure CodeChanged) else throw (ManualFailure CodeSummary))"

definition outcome_closed :: "tx_outcome \<Rightarrow> bool" where
  "outcome_closed r = (case r of TxCommitted _ \<Rightarrow> True | TxFailed _ _ ended \<Rightarrow> ended)"

definition compactSurfaceRegion ::
  "'q region_env \<Rightarrow> summary_policy \<Rightarrow> region_options \<Rightarrow> nat \<Rightarrow> nat \<Rightarrow> ('q, compaction_result) region_prog" where
  "compactSurfaceRegion v c opts a b =
     bnd (if ro_manual opts then throwIfAborted else ret ()) (\<lambda>_.
     bnd (validateSurfaceRegion v a b) (\<lambda>sel.
     bnd (read_state region_log) (\<lambda>evs.
       let entry = inspectCompactionEntryState evs
       in bnd (assertCompactionInactive entry) (\<lambda>_.
          bnd (if ro_manual opts
               then (if es_openTurn entry \<noteq> None then throw (ManualFailure CodeBusy) else ret None)
               else (if es_openTurn entry = None then throw NoOpenTurn else ret (es_openTurn entry))) (\<lambda>owner.
          let l = \<lparr>cl_id = rg_compactionId v (length evs), cl_command = ro_command opts, cl_turn = owner\<rparr>
          in bnd (append_region v (Plugin (CompactStart l)) None None) (\<lambda>startSeq.
             bnd (run_transaction v c opts sel l startSeq) (\<lambda>outcome.
             bnd (if outcome_closed outcome \<and> ro_flush opts
                  then bnd (await v) (\<lambda>t. ret (rt_error t)) else ret None) (\<lambda>flushFailure.
             bnd (if ro_manual opts then throwIfAborted else ret ()) (\<lambda>_.
               case outcome of
                 TxFailed x stage _ \<Rightarrow> if ro_manual opts then throwManualFailure x stage else throw x
               | TxCommitted r \<Rightarrow>
                   if flushFailure \<noteq> None then throw (ManualFailure CodePersistence) else ret r)))))))))"

end
