(* ===== verification/CompactCorrect.thy ===== *)
theory CompactCorrect imports CompactRegion begin

text \<open>
  The correctness of the compaction transaction of packages/compaction/compaction-basic/src/region.ts:
  the scan that guards its entry agrees with the trace of the compaction invariant, a committed
  transaction replaces exactly the selected range by a cheaper checkpoint at balanced cuts, and
  a failed one leaves the surface as it was and closes its bracket.
\<close>

section \<open>The entry scan\<close>

lemma entry_visit_known:
  "es_turnKnown s \<Longrightarrow> es_compactionKnown s \<Longrightarrow> es_endSeed s \<noteq> None \<Longrightarrow> entry_visit s e = s"
  by (simp add: entry_visit_def)

lemma entry_fold_known:
  "es_turnKnown s \<Longrightarrow> es_compactionKnown s \<Longrightarrow> es_endSeed s \<noteq> None \<Longrightarrow> foldl entry_visit s es = s"
  by (induction es) (simp_all add: entry_visit_known)

lemma entry_loop_fold: "entry_loop s es = foldl entry_visit s es"
  by (induction es arbitrary: s) (simp_all add: entry_fold_known Let_def)

text \<open>What the scan looks for, as forward folds of the log.\<close>

fun turn_after :: "int option \<Rightarrow> 'p event_data \<Rightarrow> int option" where
  "turn_after t (TurnStart n) = Some n"
| "turn_after t (TurnEnd _ _) = None"
| "turn_after t _ = t"

fun start_after :: "nat option \<Rightarrow> 'q compact_payload event \<Rightarrow> nat option" where
  "start_after s e =
     (case ev_data e of
        Plugin (CompactStart _) \<Rightarrow> Some (ev_seq e)
      | Plugin (CompactEnd _ _) \<Rightarrow> None
      | _ \<Rightarrow> s)"

fun seed_after :: "nat option \<Rightarrow> 'p event \<Rightarrow> nat option" where
  "seed_after s e = (if is_end_seed (ev_data e) then Some (ev_seq e) else s)"

lemma entry_visit_simps:
  "es_endSeed (entry_visit s e) = (if es_endSeed s = None then seed_after None e else es_endSeed s)"
  "es_compactionKnown s \<Longrightarrow> es_unmatched (entry_visit s e) = es_unmatched s \<and> es_compactionKnown (entry_visit s e)"
  "es_turnKnown s \<Longrightarrow> es_openTurn (entry_visit s e) = es_openTurn s \<and> es_turnKnown (entry_visit s e)"
  by (auto simp: entry_visit_def Let_def split: event_data.splits compact_payload.splits)

text \<open>The scan of \<open>evs\<close> that started in \<open>s\<close>: what \<open>s\<close> knows already hides the log.\<close>

lemma entry_scan:
  "foldl entry_visit s (rev evs) = s' \<Longrightarrow> \<not> es_turnKnown s \<longrightarrow> es_openTurn s = None \<Longrightarrow>
   \<not> es_compactionKnown s \<longrightarrow> es_unmatched s = None \<Longrightarrow>
   es_openTurn s' = (if es_turnKnown s then es_openTurn s else foldl turn_after None (map ev_data evs))
   \<and> es_unmatched s' = (if es_compactionKnown s then es_unmatched s else foldl start_after None evs)
   \<and> es_endSeed s' = (if es_endSeed s \<noteq> None then es_endSeed s else foldl seed_after None evs)"
proof (induction evs arbitrary: s s' rule: rev_induct)
  case (snoc e evs)
  let ?s = "entry_visit s e"
  have run: "foldl entry_visit ?s (rev evs) = s'" using snoc.prems(1) by simp
  have fresh: "\<not> es_turnKnown ?s \<longrightarrow> es_openTurn ?s = None" "\<not> es_compactionKnown ?s \<longrightarrow> es_unmatched ?s = None"
    using snoc.prems(2,3)
    by (auto simp: entry_visit_def Let_def split: event_data.splits compact_payload.splits if_splits)
  have turn: "(if es_turnKnown ?s then es_openTurn ?s else foldl turn_after None (map ev_data evs))
      = (if es_turnKnown s then es_openTurn s else foldl turn_after None (map ev_data (evs @ [e])))"
    using snoc.prems(2)
    by (auto simp: entry_visit_def Let_def split: event_data.splits compact_payload.splits)
  have start: "(if es_compactionKnown ?s then es_unmatched ?s else foldl start_after None evs)
      = (if es_compactionKnown s then es_unmatched s else foldl start_after None (evs @ [e]))"
    using snoc.prems(3)
    by (auto simp: entry_visit_def Let_def split: event_data.splits compact_payload.splits)
  have seed: "(if es_endSeed ?s \<noteq> None then es_endSeed ?s else foldl seed_after None evs)
      = (if es_endSeed s \<noteq> None then es_endSeed s else foldl seed_after None (evs @ [e]))"
    by (auto simp: entry_visit_simps)
  from snoc.IH [OF run fresh] show ?case unfolding turn start seed .
qed simp

lemma inspect_fields:
  "es_openTurn (inspectCompactionEntryState evs) = foldl turn_after None (map ev_data evs)"
  "es_unmatched (inspectCompactionEntryState evs) = foldl start_after None evs"
  "es_endSeed (inspectCompactionEntryState evs) = foldl seed_after None evs"
  using entry_scan [where evs = evs, OF refl] by (simp_all add: inspectCompactionEntryState_def entry_loop_fold)

text \<open>On a log the invariant accepts, the scan reads off the trace.\<close>

definition scan_hist :: "'q compact_payload event list \<Rightarrow> compact_trace \<Rightarrow> bool" where
  "scan_hist evs tr \<longleftrightarrow>
     tr_openTurn tr = foldl turn_after None (map ev_data evs)
     \<and> (case foldl start_after None evs of
          None \<Rightarrow> tr_compaction tr = None
        | Some n \<Rightarrow> n < length evs \<and> (case foldl seed_after None evs of
              None \<Rightarrow> map_option ct_startSeq (tr_compaction tr) = Some n
            | Some k \<Rightarrow> k < length evs \<and> (if n < k then tr_compaction tr = None
                else map_option ct_startSeq (tr_compaction tr) = Some n \<and> k \<noteq> n)))
     \<and> (\<forall>k. foldl seed_after None evs = Some k \<longrightarrow> k < length evs)"

lemma entry_scan_step:
  assumes "scan_hist evs tr" and "compact_step tr e = Inr tr'" and "ev_seq e = length evs"
  shows "scan_hist (evs @ [e]) tr'"
  using assms(2)
proof (cases rule: compact_step_cases)
  case turn
  then obtain t where t: "ev_data e = TurnStart t \<or> (\<exists>r. ev_data e = TurnEnd t r)"
    by (cases "ev_data e") auto
  then have "tr_openTurn tr' = turn_after (tr_openTurn tr) (ev_data e)"
    using assms(2) turn(2) by (auto simp: compact_step_eq result_simps validateTurnBoundary_def)
  with t turn assms(1) show ?thesis
    by (auto simp: scan_hist_def split: option.splits if_splits)
next
  case (start l)
  then show ?thesis using assms(1,3) by (auto simp: scan_hist_def split: option.splits if_splits)
next
  case (summary s opn)
  then show ?thesis using assms(1,3) by (auto simp: scan_hist_def split: option.splits if_splits)
next
  case (finish l err opn)
  then show ?thesis using assms(1,3) by (auto simp: scan_hist_def split: option.splits if_splits)
next
  case seed
  then show ?thesis using assms(1,3) by (auto simp: scan_hist_def split: option.splits if_splits)
next
  case other
  then have "turn_after t (ev_data e) = t" "start_after n e = n" "seed_after k e = k" for t n k
    by (cases "ev_data e"; auto split: compact_payload.splits)+
  then show ?thesis using assms(1) other(3) by (auto simp: scan_hist_def split: option.splits if_splits)
qed

lemma entry_scan_run:
  "map ev_seq evs = [0..<length evs] \<Longrightarrow> run_steps compact_step emptyTrace evs = Inr tr \<Longrightarrow> scan_hist evs tr"
proof (induction evs arbitrary: tr rule: rev_induct)
  case Nil
  then show ?case by (auto simp: scan_hist_def emptyTrace_def)
next
  case (snoc e evs)
  then obtain t where "run_steps compact_step emptyTrace evs = Inr t" "compact_step t e = Inr tr"
    by (auto simp: run_steps_snoc result_simps)
  with snoc show ?case by (auto intro: entry_scan_step)
qed

text \<open>
  C24. The scan that guards the entry of a compaction decides what the invariant decides: on a log
  the invariant accepts, it finds the session free exactly when no bracket is open in the trace,
  and finds the turn the trace has open.
\<close>

theorem entry_scan_agrees:
  assumes "map ev_seq evs = [0..<length evs]" and "run_steps compact_step emptyTrace evs = Inr tr"
  shows "(compaction_inactive (inspectCompactionEntryState evs) \<longleftrightarrow> tr_compaction tr = None)
    \<and> es_openTurn (inspectCompactionEntryState evs) = tr_openTurn tr"
  using entry_scan_run [OF assms]
  by (auto simp: compaction_inactive_def inspect_fields scan_hist_def split: option.splits if_splits)

theorem entry_scan_agrees_witness:
  "\<not> compaction_inactive (inspectCompactionEntryState (take 2 sample_bracket))
   \<and> es_openTurn (inspectCompactionEntryState (take 2 sample_bracket)) = Some 1"
proof -
  have run: "run_steps compact_step emptyTrace (take 2 sample_bracket)
      = Inr \<lparr>tr_openTurn = Some 1, tr_compaction = Some \<lparr>ct_id = ''c1'', ct_command = None, ct_startSeq = 1,
          ct_turn = Some 1, ct_summarized = False\<rparr>\<rparr>"
    by (simp add: sample_bracket_def compact_step_def stageEvent_def publishEvent_def
        validateTurnBoundary_def emptyTrace_def sample_lifecycle_def validateIds_def validateOwner_def)
  have "map ev_seq (take 2 sample_bracket) = [0..<length (take 2 sample_bracket)]"
    by (simp add: sample_bracket_def upt_rec)
  from entry_scan_agrees [OF this run] show ?thesis by simp
qed

section \<open>What every operation keeps\<close>

definition env_ok :: "'q region_env \<Rightarrow> bool" where
  "env_ok v \<longleftrightarrow> (\<forall>a b. rg_same v a b \<longrightarrow> a = b)"

definition region_ok :: "'q region_env \<Rightarrow> 'q region_world \<Rightarrow> bool" where
  "region_ok v w \<longleftrightarrow>
     session_inv (rw_session w) \<and> meter_inv (rg_meter v) (region_log w) (rw_meter w)
     \<and> pairing_inv (region_log w) (rw_balance w)"

definition surf :: "'q compact_payload event list \<Rightarrow> fold_state \<Rightarrow> bool" where
  "surf evs st \<longleftrightarrow> (\<exists>reps. fold_window 0 evs = Inr (st, reps, length evs))"

lemma surf_unique: "surf evs st \<Longrightarrow> surf evs st' \<Longrightarrow> st = st'"
  by (auto simp: surf_def)

lemma region_surf: "region_ok v w \<Longrightarrow> \<exists>st. surf (region_log w) st"
  by (auto simp: region_ok_def session_inv_def surf_def region_log_def)

text \<open>An operation that only reads: it may catch up caches, the log stays.\<close>

definition quiet :: "'q region_env \<Rightarrow> 'q region_world \<Rightarrow> 'q region_world \<Rightarrow> bool" where
  "quiet v w w' \<longleftrightarrow>
     region_ok v w' \<and> region_log w' = region_log w \<and> rw_script w' = rw_script w
     \<and> rw_aborted w' = rw_aborted w"

definition reads ::
  "'q region_env \<Rightarrow> ('q compact_payload event list \<Rightarrow> bool) \<Rightarrow> ('q, 'a) region_prog
   \<Rightarrow> ('q compact_payload event list \<Rightarrow> 'a \<Rightarrow> bool) \<Rightarrow> bool" where
  "reads v P p R \<longleftrightarrow>
     (\<forall>w. region_ok v w \<longrightarrow> P (region_log w) \<longrightarrow>
        wp p (\<lambda>a w'. quiet v w w' \<and> R (region_log w) a) (\<lambda>_ w'. quiet v w w') (\<lambda>_. False) (\<lambda>_. False) w)"

lemma quiet_refl [simp]: "quiet v w w \<longleftrightarrow> region_ok v w"
  by (simp add: quiet_def)

lemma quiet_trans: "quiet v w w' \<Longrightarrow> quiet v w' w'' \<Longrightarrow> quiet v w w''"
  by (simp add: quiet_def)

lemma readsI:
  assumes "\<And>w. region_ok v w \<Longrightarrow> P (region_log w) \<Longrightarrow>
    wp p (\<lambda>a w'. quiet v w w' \<and> R (region_log w) a) (\<lambda>_ w'. quiet v w w') (\<lambda>_. False) (\<lambda>_. False) w"
  shows "reads v P p R"
  using assms by (simp add: reads_def)

lemma reads_use:
  assumes "reads v P p R" and "region_ok v w" and "P (region_log w)"
    and "\<And>a w'. quiet v w w' \<Longrightarrow> R (region_log w) a \<Longrightarrow> Q a w'"
    and "\<And>x w'. quiet v w w' \<Longrightarrow> E x w'"
  shows "wp p Q E W F w"
  by (rule wp_mono [OF assms(1) [unfolded reads_def, rule_format, OF assms(2,3)]]) (use assms(4,5) in auto)

lemma reads_bnd:
  assumes "reads v P p R'" and "\<And>a. reads v (\<lambda>evs. P evs \<and> R' evs a) (f a) R"
  shows "reads v P (bnd p f) R"
proof (rule readsI)
  fix w assume w: "region_ok v w" "P (region_log w)"
  show "wp (bnd p f) (\<lambda>a w'. quiet v w w' \<and> R (region_log w) a) (\<lambda>_ w'. quiet v w w') (\<lambda>_. False) (\<lambda>_. False) w"
    unfolding wp_bnd
  proof (rule reads_use [OF assms(1) w])
    fix a w1 assume q: "quiet v w w1" and r: "R' (region_log w) a"
    have log: "region_log w1 = region_log w" "region_ok v w1" using q by (auto simp: quiet_def)
    show "wp (f a) (\<lambda>a w'. quiet v w w' \<and> R (region_log w) a) (\<lambda>_ w'. quiet v w w') (\<lambda>_. False) (\<lambda>_. False) w1"
      by (rule reads_use [OF assms(2) [of a] log(2)]) (use w r q log in \<open>auto intro: quiet_trans\<close>)
  qed
qed

lemma reads_ret: "(\<And>evs. P evs \<Longrightarrow> R evs a) \<Longrightarrow> reads v P (ret a) R"
  by (simp add: reads_def)

lemma reads_throw: "reads v P (throw x) R"
  by (simp add: reads_def)

lemma reads_if:
  "(b \<Longrightarrow> reads v P p R) \<Longrightarrow> (\<not> b \<Longrightarrow> reads v P q R) \<Longrightarrow> reads v P (if b then p else q) R"
  by simp

lemma reads_mono:
  assumes "reads v P p R" and "\<And>evs. P' evs \<Longrightarrow> P evs" and "\<And>evs a. P' evs \<Longrightarrow> R evs a \<Longrightarrow> R' evs a"
  shows "reads v P' p R'"
  by (rule readsI, rule reads_use [OF assms(1)]) (use assms(2,3) in auto)

lemma reads_log: "reads v P (read_state region_log) (\<lambda>evs a. a = evs)"
  by (simp add: reads_def)

lemma wp_read_surface:
  assumes "env_ok v" and ok: "region_ok v w"
  shows "wp (read_surface v) (\<lambda>a w'. quiet v w w' \<and> surf (region_log w) a) (\<lambda>_ _. False) (\<lambda>_. False) (\<lambda>_. False) w"
proof -
  have same: "\<forall>a b. rg_same v a b \<longrightarrow> a = b" using assms by (simp add: env_ok_def)
  have inv: "session_inv (rw_session w)" using ok by (simp add: region_ok_def)
  then have mi: "manager_inv 0 (region_log w) (ss_mgr (rw_session w))"
    by (simp add: session_inv_def region_log_def)
  obtain st reps where fw: "fold_window 0 (region_log w) = Inr (st, reps, length (region_log w))"
    using inv by (auto simp: session_inv_def region_log_def)
  obtain m where m: "readSurface (rg_same v) 0 (region_log w) (ss_mgr (rw_session w)) = (m, Inr st)"
    using readSurface_fold [OF same mi] fw by (cases "readSurface (rg_same v) 0 (region_log w) (ss_mgr (rw_session w))") auto
  have "manager_inv 0 (region_log w) m" using readSurface_inv [OF same mi] m by simp
  then have "session_inv ((rw_session w)\<lparr>ss_mgr := m\<rparr>)"
    using inv inv_mgr by (simp add: region_log_def)
  then have "quiet v w (w\<lparr>rw_session := (rw_session w)\<lparr>ss_mgr := m\<rparr>\<rparr>)"
    using ok by (simp add: quiet_def region_ok_def region_log_def)
  then show ?thesis
    using m fw by (simp add: wp_def read_surface_def surf_def)
qed

lemma reads_surface: "env_ok v \<Longrightarrow> reads v P (read_surface v) surf"
  by (rule readsI, rule wp_mono [OF wp_read_surface]) simp_all

lemma wp_read_header:
  assumes ok: "region_ok v w"
  shows "wp read_header (\<lambda>h w'. quiet v w w' \<and> h = foldRequestHeader (region_log w) None)
    (\<lambda>_ _. False) (\<lambda>_. False) (\<lambda>_. False) w"
proof -
  from ok have inv: "session_inv (rw_session w)" by (simp add: region_ok_def)
  have "quiet v w (w\<lparr>rw_session := fst (requestHeader (rw_session w))\<rparr>)"
    using requestHeader_inv [OF inv] ok
    by (simp add: quiet_def region_ok_def region_log_def requestHeader_def Let_def)
  then show ?thesis
    using requestHeader_inv(2) [OF inv] by (simp add: wp_def read_header_def split_def region_log_def)
qed

lemma reads_header: "reads v P read_header (\<lambda>evs h. h = foldRequestHeader evs None)"
  by (rule readsI, rule wp_mono [OF wp_read_header]) simp_all

text \<open>The heuristic price of the next request: its header and its surface.\<close>

definition context_price :: "meter_env \<Rightarrow> 'q compact_payload event list \<Rightarrow> fold_state \<Rightarrow> nat" where
  "context_price v evs st =
     estimateHeader v (effectiveHeader evs None) + total_tokens (priced v evs (nodes st))"

lemma reads_measure_total:
  "reads v P (measure_region v) (\<lambda>evs m. \<exists>st. surf evs st \<and> tm_nodes m = priced (rg_meter v) evs (nodes st)
     \<and> of_nat (context_price (rg_meter v) evs st) \<le> tm_total m)"
proof (rule readsI)
  fix w assume ok: "region_ok v w"
  obtain st where st: "surf (region_log w) st" using region_surf [OF ok] by blast
  then obtain reps where fw: "fold_window 0 (region_log w) = Inr (st, reps, length (region_log w))"
    by (auto simp: surf_def)
  let ?s = "meter_sync (rg_meter v) (region_log w) (rw_meter w)"
  have inv: "meter_inv (rg_meter v) (region_log w) (fst ?s)"
    "snd ?s = Inr () \<Longrightarrow> mt_consumed (fst ?s) = length (region_log w)"
    using sync_inv [OF fw] ok by (auto simp: region_ok_def)
  have q: "quiet v w (w\<lparr>rw_meter := fst ?s\<rparr>)"
    using ok inv(1) by (simp add: quiet_def region_ok_def region_log_def)
  show "wp (measure_region v) (\<lambda>a w'. quiet v w w' \<and> (\<exists>st. surf (region_log w) st
        \<and> tm_nodes a = priced (rg_meter v) (region_log w) (nodes st)
        \<and> of_nat (context_price (rg_meter v) (region_log w) st) \<le> tm_total a)) (\<lambda>_. quiet v w) (\<lambda>_. False) (\<lambda>_. False) w"
  proof (cases "snd ?s")
    case (Inl x)
    then show ?thesis using q by (cases ?s) (simp add: wp_def measure_region_def measure_session_def)
  next
    case (Inr u)
    then have "mt_surface (fst ?s) = priced (rg_meter v) (region_log w) (nodes st)"
      using inv fw by (auto simp: meter_inv_def)
    moreover have "of_nat (context_price (rg_meter v) (region_log w) st) \<le> tm_total (measured (rg_meter v) (fst ?s) None)"
      using measured_bounds(1) [OF inv(1) inv(2), of None] Inr calculation inv(1)
      by (simp add: context_price_def meter_inv_def)
    moreover have "tm_nodes (measured (rg_meter v) (fst ?s) None) = priced (rg_meter v) (region_log w) (nodes st)"
      using calculation by (simp add: measured_def Let_def split: prod.split)
    ultimately show ?thesis
      using Inr q st by (cases ?s) (auto simp: wp_def measure_region_def measure_session_def)
  qed
qed

lemma reads_measure:
  "reads v P (measure_region v) (\<lambda>evs m. \<exists>st. surf evs st \<and> tm_nodes m = priced (rg_meter v) evs (nodes st))"
  by (rule reads_mono [OF reads_measure_total]) auto

text \<open>The balance of a cut, asked before (\<open>off = 0\<close>) or after (\<open>off = 1\<close>) a node.\<close>

definition cut_answer :: "nat \<Rightarrow> nat \<Rightarrow> 'q compact_payload event list \<Rightarrow> bool \<Rightarrow> bool" where
  "cut_answer off s evs b \<longleftrightarrow>
     (\<exists>st i. surf evs st \<and> never_negative evs (nodes st) \<and> index_of s (nodes st) = Some i
        \<and> b = (in_progress evs (take (i + off) (nodes st)) = 0))"

lemma reads_balance:
  assumes "env_ok v" and "off \<le> 1"
  shows "reads v P (ask_balance v (query_cut off) s) (cut_answer off s)"
  unfolding ask_balance_def
proof (rule reads_bnd [OF reads_surface [OF assms(1)]])
  fix st
  show "reads v (\<lambda>evs. P evs \<and> surf evs st) (\<lambda>w. case query_cut off (region_log w) st (rw_balance w) s of
      (c, Inl x) \<Rightarrow> Thrown (PairingFault x) (w\<lparr>rw_balance := c\<rparr>)
    | (c, Inr b) \<Rightarrow> Done b (w\<lparr>rw_balance := c\<rparr>)) (cut_answer off s)"
  proof (rule readsI)
    fix w assume ok: "region_ok v w" and "P (region_log w) \<and> surf (region_log w) st"
    then obtain reps where fw: "fold_window 0 (region_log w) = Inr (st, reps, length (region_log w))"
      by (auto simp: surf_def)
    have inv: "pairing_inv (region_log w) (rw_balance w)" using ok by (simp add: region_ok_def)
    obtain c r where q: "query_cut off (region_log w) st (rw_balance w) s = (c, r)"
      by (cases "query_cut off (region_log w) st (rw_balance w) s")
    have c: "quiet v w (w\<lparr>rw_balance := c\<rparr>)"
      using query_cut_inv [OF fw inv, of off s] ok q by (simp add: quiet_def region_ok_def region_log_def)
    have "cut_answer off s (region_log w) b" if "r = Inr b" for b
      using query_cut_exact [OF fw inv assms(2), of s] q that fw
      by (auto simp: cut_answer_def surf_def split: if_splits option.splits)
    with c q show "wp (\<lambda>w. case query_cut off (region_log w) st (rw_balance w) s of
        (c, Inl x) \<Rightarrow> Thrown (PairingFault x) (w\<lparr>rw_balance := c\<rparr>)
      | (c, Inr b) \<Rightarrow> Done b (w\<lparr>rw_balance := c\<rparr>))
      (\<lambda>a w'. quiet v w w' \<and> cut_answer off s (region_log w) a) (\<lambda>_. quiet v w) (\<lambda>_. False) (\<lambda>_. False) w"
      by (cases r) (simp_all add: wp_def)
  qed
qed

lemma reads_before: "env_ok v \<Longrightarrow> reads v P (balancedBefore v s) (cut_answer 0 s)"
  and reads_after: "env_ok v \<Longrightarrow> reads v P (balancedAfter v s) (cut_answer (Suc 0) s)"
  using reads_balance [of v 0 P s] reads_balance [of v "Suc 0" P s]
  by (simp_all add: balancedBefore_def balancedAfter_def toolPairingBalancedBefore_def toolPairingBalancedAfter_def)

section \<open>Selections\<close>

text \<open>A selection of the current surface whose two cuts leave no call unanswered.\<close>

definition valid_region :: "'q compact_payload event list \<Rightarrow> selection \<Rightarrow> bool" where
  "valid_region evs sel \<longleftrightarrow>
     (\<exists>st. surf evs st \<and> never_negative evs (nodes st)
        \<and> index_of (sl_start sel) (nodes st) = Some (sl_startIdx sel)
        \<and> index_of (sl_end sel) (nodes st) = Some (sl_endIdx sel)
        \<and> sl_startIdx sel \<le> sl_endIdx sel
        \<and> sl_seqs sel = slice (sl_startIdx sel) (sl_endIdx sel + 1) (nodes st)
        \<and> in_progress evs (take (sl_startIdx sel) (nodes st)) = 0
        \<and> in_progress evs (take (Suc (sl_endIdx sel)) (nodes st)) = 0)"

lemma surf_distinct: "surf evs st \<Longrightarrow> distinct (nodes st)"
  using surface_known(2) by (auto simp: surf_def)

lemma surf_nth_index: "surf evs st \<Longrightarrow> i < length (nodes st) \<Longrightarrow> index_of (nodes st ! i) (nodes st) = Some i"
  using surf_distinct index_of_nth_distinct by blast

lemma cut_answer_at:
  assumes "surf evs st" and "i < length (nodes st)" and "cut_answer off (nodes st ! i) evs b"
  shows "never_negative evs (nodes st) \<and> b = (in_progress evs (take (i + off) (nodes st)) = 0)"
proof -
  obtain st' i' where c: "surf evs st'" "never_negative evs (nodes st')"
    "index_of (nodes st ! i) (nodes st') = Some i'" "b = (in_progress evs (take (i' + off) (nodes st')) = 0)"
    using assms(3) by (auto simp: cut_answer_def)
  have "st' = st" using surf_unique [OF c(1) assms(1)] .
  with c(3) surf_nth_index [OF assms(1,2)] have "i' = i" by simp
  with c \<open>st' = st\<close> show ?thesis by simp
qed

lemma reads_validate:
  assumes "env_ok v"
  shows "reads v P (validateSurfaceRegion v a b)
    (\<lambda>evs sel. valid_region evs sel \<and> sl_start sel = a \<and> sl_end sel = b)"
  unfolding validateSurfaceRegion_def Let_def
proof (rule reads_bnd [OF reads_surface [OF assms]])
  fix st
  let ?R = "\<lambda>evs sel. valid_region evs sel \<and> sl_start sel = a \<and> sl_end sel = b"
  show "reads v (\<lambda>evs. P evs \<and> surf evs st) (case index_of a (nodes st) of
       None \<Rightarrow> throw (RegionStartMissing a)
     | Some i \<Rightarrow> (case index_of b (nodes st) of
          None \<Rightarrow> throw (RegionEndMissing b)
        | Some j \<Rightarrow> if j < i then throw (RegionReversed a b)
            else bnd (balancedBefore v (nodes st ! i)) (\<lambda>before. if \<not> before then throw (RegionStartUnbalanced a)
              else bnd (balancedAfter v (nodes st ! j)) (\<lambda>after. if \<not> after then throw (RegionEndUnbalanced b)
                else ret \<lparr>sl_start = a, sl_end = b, sl_startIdx = i, sl_endIdx = j,
                          sl_seqs = slice i (j + 1) (nodes st)\<rparr>)))) ?R"
  proof (cases "index_of a (nodes st)"; cases "index_of b (nodes st)")
    fix i j assume ij: "index_of a (nodes st) = Some i" "index_of b (nodes st) = Some j"
    have less: "i < length (nodes st)" "j < length (nodes st)"
      using index_of_SomeD [OF ij(1)] index_of_SomeD [OF ij(2)] by auto
    show ?thesis
      unfolding ij option.case
    proof (rule reads_if [OF reads_throw], rule reads_bnd [OF reads_before [OF assms]],
        rule reads_if [OF reads_throw], rule reads_bnd [OF reads_after [OF assms]],
        rule reads_if [OF reads_throw], rule reads_ret)
      fix before after evs
      assume "\<not> j < i" "\<not> \<not> before" "\<not> \<not> after"
        and facts: "((P evs \<and> surf evs st) \<and> cut_answer 0 (nodes st ! i) evs before)
          \<and> cut_answer (Suc 0) (nodes st ! j) evs after"
      from facts have st: "surf evs st" by simp
      have "never_negative evs (nodes st) \<and> in_progress evs (take i (nodes st)) = 0
          \<and> in_progress evs (take (Suc j) (nodes st)) = 0"
        using cut_answer_at [OF st less(1), of 0 before] cut_answer_at [OF st less(2), of "Suc 0" after] facts
          \<open>\<not> \<not> before\<close> \<open>\<not> \<not> after\<close> by simp
      with st ij \<open>\<not> j < i\<close>
      show "?R evs \<lparr>sl_start = a, sl_end = b, sl_startIdx = i, sl_endIdx = j, sl_seqs = slice i (j + 1) (nodes st)\<rparr>"
        by (auto simp: valid_region_def)
    qed
  qed (simp_all add: reads_throw)
qed

definition prepared_for :: "'q region_env \<Rightarrow> selection \<Rightarrow> 'q compact_payload event list \<Rightarrow> prepared \<Rightarrow> bool" where
  "prepared_for v sel evs pp \<longleftrightarrow>
     pp_selection pp = sel
     \<and> (\<exists>st. surf evs st \<and> pp_nodes pp = priced (rg_meter v) evs (nodes st))
     \<and> pp_selected pp = slice (sl_startIdx sel) (sl_endIdx sel + 1) (pp_nodes pp)
     \<and> map tn_seq (pp_selected pp) = sl_seqs sel
     \<and> pp_tokens pp = total_tokens (pp_selected pp)
     \<and> si_messages (pp_input pp) = List.map_filter (\<lambda>n. deriveEventMessage (evs ! n)) (sl_seqs sel)"

lemma reads_prepare: "reads v P (prepareCompaction v sel) (prepared_for v sel)"
  unfolding prepareCompaction_def Let_def buildSummarizationInput_def
  by (rule reads_bnd [OF reads_measure], rule reads_if [OF reads_throw],
      rule reads_bnd [where R' = "\<lambda>evs i. si_messages i
        = List.map_filter (\<lambda>n. deriveEventMessage (evs ! n)) (sl_seqs sel)"],
      rule reads_bnd [OF reads_header], rule reads_bnd [OF reads_log], rule reads_ret, simp,
      rule reads_ret) (auto simp: prepared_for_def)

section \<open>Appending and waiting\<close>

definition grows :: "'q region_env \<Rightarrow> 'q region_world \<Rightarrow> 'q compact_payload event list \<Rightarrow> 'q region_world \<Rightarrow> bool" where
  "grows v w later w' \<longleftrightarrow> region_ok v w' \<and> region_log w' = region_log w @ later"

lemma region_grows_refl: "region_ok v w \<Longrightarrow> grows v w [] w"
  by (simp add: grows_def)

lemma region_grows_trans: "grows v w l w' \<Longrightarrow> grows v w' l' w'' \<Longrightarrow> grows v w (l @ l') w''"
  by (simp add: grows_def)

lemma quiet_grows: "quiet v w w' \<Longrightarrow> grows v w [] w'"
  by (simp add: quiet_def grows_def)

lemma grows_session:
  assumes "region_ok v w" and "session_inv s" and "ss_log s = region_log w @ later"
  shows "grows v w later (w\<lparr>rw_session := s\<rparr>)"
  using assms meter_inv_grow pairing_inv_grow by (fastforce simp: grows_def region_ok_def region_log_def)

text \<open>A session with the log \<open>evs\<close> refuses an append with the error \<open>x\<close>.\<close>

definition refused ::
  "'q region_env \<Rightarrow> 'q compact_payload event list \<Rightarrow> 'q compact_payload event_data \<Rightarrow> region_error \<Rightarrow> bool" where
  "refused v evs d x \<longleftrightarrow>
     (\<exists>w w'. region_ok v w \<and> region_log w = evs \<and> append_region v d None None w = Thrown x w')"

lemma wp_append_region:
  assumes "env_ok v" and "region_ok v w"
  shows "wp (append_region v d op src)
    (\<lambda>n w'. \<exists>e. grows v w [e] w' \<and> n = length (region_log w) \<and> ev_seq e = n \<and> ev_data e = d
        \<and> ev_surfaceOp e = op \<and> ev_sources e = src \<and> rw_aborted w' = rw_aborted w \<and> rw_script w' = rw_script w)
    (\<lambda>x w'. quiet v w w' \<and> (\<exists>y. x = SessionFault y)
        \<and> (op = None \<and> src = None \<longrightarrow> refused v (region_log w) d x))
    (\<lambda>_. False) (\<lambda>_. False) w"
proof -
  have same: "\<forall>a b. rg_same v a b \<longrightarrow> a = b" using assms(1) by (simp add: env_ok_def)
  have inv: "session_inv (rw_session w)" using assms(2) by (simp add: region_ok_def)
  define i where "i = \<lparr>ai_data = d, ai_surfaceOp = op, ai_sources = src, ai_ignorable = False,
      ai_time = rg_now v (length (region_log w))\<rparr>"
  define a where "a = append_event (rg_same v) False (rg_accepts v (candidate (rw_session w) i)) (rw_session w) i"
  note step = append_event_inv [OF same inv, of False "rg_accepts v (candidate (rw_session w) i)" i, folded a_def]
  have run: "append_region v d op src w = (case a of
      (s, Inl x) \<Rightarrow> Thrown (SessionFault (FaultAppend x)) (w\<lparr>rw_session := s\<rparr>)
    | (s, Inr e) \<Rightarrow> Done (ev_seq e) (w\<lparr>rw_session := s\<rparr>))"
    by (simp add: append_region_def Let_def i_def a_def)
  show ?thesis
  proof (cases "snd a")
    case (Inl x)
    then have "ss_log (fst a) = region_log w" using step(3) by (simp add: region_log_def)
    then have "quiet v w (w\<lparr>rw_session := fst a\<rparr>)"
      using assms(2) step(1) by (simp add: quiet_def region_ok_def region_log_def)
    moreover have "refused v (region_log w) d (SessionFault (FaultAppend x))" if "op = None" "src = None"
      unfolding refused_def
      by (intro exI [of _ w] exI [of _ "w\<lparr>rw_session := fst a\<rparr>"])
        (use run Inl assms(2) that in \<open>simp add: split_def\<close>)
    ultimately show ?thesis using run Inl by (cases a) (auto simp: wp_def)
  next
    case (Inr e)
    then have e: "e = candidate (rw_session w) i" using step(2) by (simp split: sum.splits if_splits)
    have "ss_log (fst a) = region_log w @ [e]" using step(3) Inr by (simp add: region_log_def)
    then have "grows v w [e] (w\<lparr>rw_session := fst a\<rparr>)"
      by (intro grows_session assms(2) step(1))
    then show ?thesis
      using run Inr e by (cases a) (auto simp: wp_def candidate_def i_def region_log_def)
  qed
qed

lemma append_outside_inv:
  assumes "\<forall>a b. rg_same v a b \<longrightarrow> a = b"
  shows "session_inv s \<Longrightarrow> session_inv (append_outside v is s) \<and> (\<exists>later. ss_log (append_outside v is s) = ss_log s @ later)"
proof (induction "is" arbitrary: s)
  case (Cons i "is")
  let ?s = "fst (append_event (rg_same v) False (rg_accepts v (candidate s i)) s i)"
  note step = append_event_inv [OF assms Cons.prems, of False "rg_accepts v (candidate s i)" i]
  from Cons.IH [OF step(1)] step(3) show ?case by auto
qed simp

text \<open>
  At most one wait, during which other code appended \<open>later\<close> to the log \<open>evs\<close>: the wait consumes a
  tick of the script, and \<open>later\<close> is what a session with that log accepts of the tick's attempts.
\<close>

definition heard ::
  "'q region_env \<Rightarrow> 'q region_tick list \<Rightarrow> 'q region_tick list \<Rightarrow> 'q compact_payload event list
   \<Rightarrow> 'q compact_payload event list \<Rightarrow> bool" where
  "heard v S S' evs later \<longleftrightarrow>
     S' = S \<and> later = []
     \<or> (\<exists>t s. S = t # S' \<and> session_inv s \<and> ss_log s = evs \<and> ss_log (append_outside v (rt_outside t) s) = evs @ later)"

definition waits :: "'q region_env \<Rightarrow> 'q region_world \<Rightarrow> 'q compact_payload event list \<Rightarrow> 'q region_world \<Rightarrow> bool" where
  "waits v w later w' \<longleftrightarrow> grows v w later w' \<and> heard v (rw_script w) (rw_script w') (region_log w) later"

lemma waits_refl: "region_ok v w \<Longrightarrow> waits v w [] w"
  by (simp add: waits_def heard_def region_grows_refl)

lemma quiet_waits: "quiet v w w' \<Longrightarrow> waits v w [] w'"
  by (simp add: waits_def heard_def quiet_def grows_def)

lemma waits_before: "quiet v w w1 \<Longrightarrow> waits v w1 l w' \<longleftrightarrow> waits v w l w'"
  by (simp add: waits_def quiet_def grows_def)

lemma waits_after: "waits v w l w1 \<Longrightarrow> quiet v w1 w' \<Longrightarrow> waits v w l w'"
  by (simp add: waits_def quiet_def grows_def)

lemma waits_grows: "waits v w l w' \<Longrightarrow> grows v w l w'"
  by (simp add: waits_def)

lemma wp_await_region:
  assumes "env_ok v" and "region_ok v w"
  shows "wp (await v) (\<lambda>t w'. \<exists>later. waits v w later w') (\<lambda>_ _. False) (\<lambda>w'. w' = w) (\<lambda>_. False) w"
proof (cases "rw_script w")
  case (Cons t ts)
  have inv: "session_inv (rw_session w)" "\<forall>a b. rg_same v a b \<longrightarrow> a = b"
    using assms by (auto simp: region_ok_def env_ok_def)
  obtain later where l: "ss_log (append_outside v (rt_outside t) (rw_session w)) = region_log w @ later"
    using append_outside_inv [OF inv(2,1)] by (auto simp: region_log_def)
  then have "grows v w later (w\<lparr>rw_session := append_outside v (rt_outside t) (rw_session w)\<rparr>)"
    using append_outside_inv [OF inv(2,1)] assms(2) by (intro grows_session) auto
  then have "grows v w later (w\<lparr>rw_script := ts, rw_aborted := rt_aborted t, rw_byAgent := rt_byAgent t,
      rw_session := append_outside v (rt_outside t) (rw_session w)\<rparr>)"
    by (auto simp: grows_def region_ok_def region_log_def)
  moreover have "heard v (rw_script w) ts (region_log w) later"
    using Cons inv(1) l by (auto simp: heard_def region_log_def)
  ultimately show ?thesis using Cons by (auto simp: wp_def await_def waits_def)
qed (simp add: wp_def await_def)

lemma region_ok_asked [simp]:
  "region_ok v (w\<lparr>rw_asked := a\<rparr>) = region_ok v w" "region_log (w\<lparr>rw_asked := a\<rparr>) = region_log w"
  by (simp_all add: region_ok_def region_log_def)

lemma grows_asked [simp]: "grows v (w\<lparr>rw_asked := a\<rparr>) l w' = grows v w l w'"
  by (simp add: grows_def)

lemma waits_asked [simp]: "waits v (w\<lparr>rw_asked := a\<rparr>) l w' = waits v w l w'"
  by (simp add: waits_def)

lemma wp_lift [simp]: "wp (lift_result r) Q E W F w = (case r of Inl x \<Rightarrow> E x w | Inr a \<Rightarrow> Q a w)"
  by (simp add: lift_result_def split: sum.split)

lemma wp_summarize:
  assumes "env_ok v" and "region_ok v w"
  shows "wp (summarizeWithLlm v c input) (\<lambda>_ w'. \<exists>later. waits v w later w')
    (\<lambda>_ w'. \<exists>later. waits v w later w') (\<lambda>w'. waits v w [] w') (\<lambda>_. False) w"
  unfolding summarizeWithLlm_def wp_bnd
proof (rule reads_use [OF reads_header [where P = "\<lambda>_. True"] assms(2)])
  fix h w1 assume q: "quiet v w w1"
  have ok: "region_ok v w1" and g: "waits v w [] w1" using q by (auto simp: quiet_def quiet_waits)
  show "wp (case summary_target c h (rg_agentTarget v) of None \<Rightarrow> throw NoSummaryTarget
      | Some target \<Rightarrow> bnd (modify (\<lambda>w. w\<lparr>rw_asked := rw_asked w
            @ [summary_request_of v c target (length (region_log w)) input]\<rparr>)) (\<lambda>_. bnd (await v) (\<lambda>t.
          case rt_error t of Some x \<Rightarrow> throw (StreamFailed x)
          | None \<Rightarrow> lift_result (finishSummary c target (foldl push newAssembler (rt_chunks t))))))
    (\<lambda>_ w'. \<exists>later. waits v w later w') (\<lambda>_ w'. \<exists>later. waits v w later w') (\<lambda>w'. waits v w [] w') (\<lambda>_. False) w1"
  proof (cases "summary_target c h (rg_agentTarget v)")
    case (Some target)
    let ?w = "w1\<lparr>rw_asked := rw_asked w1 @ [summary_request_of v c target (length (region_log w1)) input]\<rparr>"
    have "region_ok v ?w" using ok by simp
    from wp_await_region [OF assms(1) this]
    have "wp (await v) (\<lambda>t. wp (case rt_error t of Some x \<Rightarrow> throw (StreamFailed x)
          | None \<Rightarrow> lift_result (finishSummary c target (foldl push newAssembler (rt_chunks t))))
        (\<lambda>_ w'. \<exists>later. waits v w later w') (\<lambda>_ w'. \<exists>later. waits v w later w') (\<lambda>w'. waits v w [] w') (\<lambda>_. False))
      (\<lambda>_ w'. \<exists>later. waits v w later w') (\<lambda>w'. waits v w [] w') (\<lambda>_. False) ?w"
    proof (rule wp_mono)
      fix t w' assume "\<exists>later. waits v ?w later w'"
      then have "\<exists>later. waits v w later w'" by (simp add: waits_before [OF q])
      then show "wp (case rt_error t of Some x \<Rightarrow> throw (StreamFailed x)
          | None \<Rightarrow> lift_result (finishSummary c target (foldl push newAssembler (rt_chunks t))))
        (\<lambda>_ w'. \<exists>later. waits v w later w') (\<lambda>_ w'. \<exists>later. waits v w later w') (\<lambda>w'. waits v w [] w') (\<lambda>_. False) w'"
        by (simp split: option.split sum.split)
    next
      fix w' assume "w' = ?w"
      then show "waits v w [] w'" using g by (simp add: waits_def grows_def)
    qed simp_all
    then show ?thesis using Some by simp
  qed (use g in auto)
qed (auto dest: quiet_waits)

lemma wp_summarize_hook:
  assumes "env_ok v" and "region_ok v w"
  shows "wp (summarize v c input) (\<lambda>_ w'. \<exists>later. waits v w later w')
    (\<lambda>_ w'. \<exists>later. waits v w later w') (\<lambda>w'. waits v w [] w') (\<lambda>_. False) w"
  unfolding summarize_def wp_bnd
proof (rule reads_use [OF reads_header [where P = "\<lambda>_. True"] assms(2)])
  fix h w1 assume "quiet v w w1"
  then have g: "region_ok v w1" "waits v w l w' = waits v w1 l w'" for l w' by (auto simp: quiet_def waits_def grows_def)
  show "wp (summarizeWithLlm v (c (conversation_target v h)) input) (\<lambda>_ w'. \<exists>later. waits v w later w')
      (\<lambda>_ w'. \<exists>later. waits v w later w') (\<lambda>w'. waits v w [] w') (\<lambda>_. False) w1"
    unfolding g(2) by (rule wp_summarize [OF assms(1) g(1)])
qed (auto dest: quiet_waits)

section \<open>What a commit does to the surface\<close>

lemma surf_less: "surf evs st \<Longrightarrow> n \<in> set (nodes st) \<Longrightarrow> n < length evs"
  unfolding surf_def using surface_known(1) by (fastforce simp: known_def)

lemma surf_prefix: "surf (evs @ later) st' \<Longrightarrow> \<exists>st. surf evs st"
  using fold_window_index by (fastforce simp: surf_def fold_window_append result_simps)

lemma surf_off:
  assumes "surf evs st" and "surf (evs @ [e]) st'" and "ev_data e = Plugin p"
  shows "st' = st"
proof -
  obtain reps reps' where "fold_window 0 evs = Inr (st, reps, length evs)"
    "fold_window 0 (evs @ [e]) = Inr (st', reps', length (evs @ [e]))"
    using assms(1,2) by (auto simp: surf_def)
  then show ?thesis
    by (cases rule: surface_step_cases) (use assms(3) in \<open>simp_all add: isSurfaceEvent_def\<close>)
qed

lemma in_progress_later:
  "set ns \<subseteq> {..<length evs} \<Longrightarrow> in_progress (evs @ later) ns = in_progress evs ns"
  by (rule in_progress_extend) auto

lemma valid_region_later:
  assumes "valid_region evs sel" and "surf evs st" and "surf (evs @ later) st'" and "nodes st' = nodes st"
  shows "valid_region (evs @ later) sel"
proof -
  obtain st0 where st0: "surf evs st0" "never_negative evs (nodes st0)"
    "index_of (sl_start sel) (nodes st0) = Some (sl_startIdx sel)"
    "index_of (sl_end sel) (nodes st0) = Some (sl_endIdx sel)"
    "sl_startIdx sel \<le> sl_endIdx sel"
    "sl_seqs sel = slice (sl_startIdx sel) (sl_endIdx sel + 1) (nodes st0)"
    "in_progress evs (take (sl_startIdx sel) (nodes st0)) = 0"
    "in_progress evs (take (Suc (sl_endIdx sel)) (nodes st0)) = 0"
    using assms(1) by (auto simp: valid_region_def)
  have eq: "nodes st0 = nodes st'" using surf_unique [OF st0(1) assms(2)] assms(4) by simp
  have "in_progress (evs @ later) (take i (nodes st')) = in_progress evs (take i (nodes st'))" for i
    using surf_less [OF assms(2)] assms(4) by (intro in_progress_later) (auto dest: in_set_takeD)
  with st0 assms(3) show ?thesis
    unfolding eq valid_region_def never_negative_def by (intro exI [of _ st']) simp
qed

lemma region_split:
  assumes "valid_region evs sel"
  obtains st pre post where "surf evs st" and "nodes st = pre @ sl_seqs sel @ post"
    and "length pre = sl_startIdx sel" and "length pre + length (sl_seqs sel) = Suc (sl_endIdx sel)"
    and "sl_seqs sel \<noteq> []" and "hd (sl_seqs sel) = sl_start sel" and "last (sl_seqs sel) = sl_end sel"
    and "never_negative evs (nodes st)" and "in_progress evs pre = 0" and "in_progress evs (sl_seqs sel) = 0"
    and "index_of (sl_start sel) (nodes st) = Some (sl_startIdx sel)"
    and "index_of (sl_end sel) (nodes st) = Some (sl_endIdx sel)"
proof -
  obtain st where st: "surf evs st" "never_negative evs (nodes st)"
    "index_of (sl_start sel) (nodes st) = Some (sl_startIdx sel)"
    "index_of (sl_end sel) (nodes st) = Some (sl_endIdx sel)"
    "sl_startIdx sel \<le> sl_endIdx sel"
    "sl_seqs sel = slice (sl_startIdx sel) (Suc (sl_endIdx sel)) (nodes st)"
    "in_progress evs (take (sl_startIdx sel) (nodes st)) = 0"
    "in_progress evs (take (Suc (sl_endIdx sel)) (nodes st)) = 0"
    using assms by (auto simp: valid_region_def)
  let ?i = "sl_startIdx sel" and ?j = "sl_endIdx sel"
  have j: "?j < length (nodes st)" "nodes st ! ?i = sl_start sel" "nodes st ! ?j = sl_end sel"
    using index_of_SomeD [OF st(3)] index_of_SomeD [OF st(4)] by auto
  have parts: "nodes st = take ?i (nodes st) @ sl_seqs sel @ drop (Suc ?j) (nodes st)"
    using splice_parts [OF st(5) j(1)] st(6) by simp
  have len: "length (sl_seqs sel) = Suc ?j - ?i" using j(1) st(5,6) by (simp add: slice_def)
  have "take (Suc ?j) (nodes st) = take ?i (nodes st) @ sl_seqs sel"
    using st(5,6) take_add [of ?i "Suc ?j - ?i" "nodes st"] by (simp add: slice_def)
  then have "in_progress evs (sl_seqs sel) = 0" using st(7,8) by simp
  moreover have "hd (sl_seqs sel) = sl_start sel"
    using j st(5,6) by (simp add: slice_def hd_drop_conv_nth)
  moreover have "last (sl_seqs sel) = sl_end sel"
    using j st(5,6) len by (subst last_conv_nth) (auto simp: slice_def)
  moreover have "sl_seqs sel \<noteq> []" using len st(5) by auto
  ultimately show ?thesis
    using st parts j(1) len by (intro that [of st "take ?i (nodes st)" "drop (Suc ?j) (nodes st)"]) auto
qed

lemma never_negative_replaced:
  assumes "never_negative evs (pre @ mid @ post)" and "in_progress evs mid = 0"
    and "eventDelta (ev_data (evs' ! k)) = 0" and "\<forall>n \<in> set pre \<union> set post. evs' ! n = evs ! n"
  shows "never_negative evs' (pre @ [k] @ post)"
  unfolding never_negative_def
proof (intro allI impI)
  fix i assume "i \<le> length (pre @ [k] @ post)"
  have same: "set ns \<subseteq> set pre \<union> set post \<Longrightarrow> in_progress evs' ns = in_progress evs ns" for ns
    using assms(4) by (auto simp: in_progress_def subset_iff intro!: arg_cong [of _ _ sum_list])
  note nn = assms(1) [unfolded never_negative_def, rule_format]
  show "0 \<le> in_progress evs' (take i (pre @ [k] @ post))"
  proof (cases "i \<le> length pre")
    case True
    have "set (take i pre) \<subseteq> set pre \<union> set post" by (auto dest: in_set_takeD)
    with True show ?thesis using nn [of i] same [of "take i pre"] by auto
  next
    case False
    then obtain j where j: "i = length pre + Suc j" by (metis add_Suc_right less_iff_Suc_add not_le)
    have "set (take j post) \<subseteq> set post" by (rule set_take_subset)
    moreover have "in_progress evs' [k] = 0" using assms(3) by (simp add: in_progress_def)
    ultimately have "in_progress evs' (take i (pre @ [k] @ post)) = in_progress evs pre + in_progress evs (take j post)"
      using j same [of pre] same [of "take j post"] in_progress_append [of evs' "[k]" "take j post"] by auto
    moreover have "0 \<le> in_progress evs (take (length pre + length mid + j) (pre @ mid @ post))"
      by (cases "length pre + length mid + j \<le> length (pre @ mid @ post)")
        (use nn in blast, use nn [of "length (pre @ mid @ post)"] in simp)
    ultimately show ?thesis using assms(2) by simp
  qed
qed

lemma surf_replace:
  assumes "valid_region evs sel" and "surf evs st" and "nodes st = pre @ sl_seqs sel @ post"
    and "length pre = sl_startIdx sel" and "surf (evs @ [e]) st'"
    and "ev_data e = UserMessage m" and "ev_surfaceOp e = Some (replace_op (sl_start sel) (sl_end sel))"
  shows "nodes st' = pre @ [length evs] @ post"
proof -
  obtain reps reps' where fw: "fold_window 0 evs = Inr (st, reps, length evs)"
    "fold_window 0 (evs @ [e]) = Inr (st', reps', length (evs @ [e]))"
    using assms(2,5) by (auto simp: surf_def)
  have surface: "isSurfaceEvent e" "\<not> appends e" "op_start e = sl_start sel" "op_end e = sl_end sel"
    using assms(6,7) by (simp_all add: isSurfaceEvent_def op_start_def op_end_def replace_op_def seq_of_def)
  obtain st0 pre0 post0 where s: "surf evs st0" "nodes st0 = pre0 @ sl_seqs sel @ post0"
    "length pre0 = sl_startIdx sel" "length pre0 + length (sl_seqs sel) = Suc (sl_endIdx sel)"
    "index_of (sl_start sel) (nodes st0) = Some (sl_startIdx sel)"
    "index_of (sl_end sel) (nodes st0) = Some (sl_endIdx sel)"
    using region_split [OF assms(1)] by metis
  have st0: "st0 = st" using surf_unique [OF s(1) assms(2)] .
  from fw show ?thesis
  proof (cases rule: surface_step_cases)
    case (replace i j)
    have ij: "i = sl_startIdx sel" "j = sl_endIdx sel" using replace(4,5) s(5,6) st0 surface by simp_all
    have "length pre + (j - i + 1) = length (pre @ sl_seqs sel)" using s(3,4) assms(4) ij replace(6) by simp
    then show ?thesis
      unfolding replace(8) assms(3) using assms(4) ij by (simp add: splice_def)
  qed (use surface in simp_all)
qed

section \<open>The transaction\<close>

definition checkpoint_of :: "compact_lifecycle \<Rightarrow> 'q compact_payload event \<Rightarrow> message \<Rightarrow> bool" where
  "checkpoint_of l e m \<longleftrightarrow>
     ev_data e = UserMessage m \<and> msg_source m = compactCheckpointSource (cl_id l) (cl_command l)"

text \<open>
  The three events that commit a compaction onto the log \<open>evs\<close>, and what they do to its surface:
  the range between two balanced cuts is replaced by one cheaper checkpoint, the summary states
  the exact price of the range, and no tool result loses its call.
\<close>

definition commits ::
  "meter_env \<Rightarrow> compact_lifecycle \<Rightarrow> 'q compact_payload event list \<Rightarrow> compaction_result
   \<Rightarrow> 'q compact_payload event list \<Rightarrow> bool" where
  "commits v l evs r body \<longleftrightarrow>
     (\<exists>sumE ck endE y m st st' pre post. body = [sumE, ck, endE]
        \<and> ev_data sumE = Plugin (CompactSummary y) \<and> cs_id y = cl_id l \<and> cs_command y = cl_command l
        \<and> cs_price y = \<lparr>cp_start = cr_start r, cp_end = cr_end r, cp_seqs = cr_seqs r, cp_tokens = of_nat (cr_tokens r)\<rparr>
        \<and> checkpoint_of l ck m \<and> ev_surfaceOp ck = Some (replace_op (cr_start r) (cr_end r))
        \<and> ev_data endE = Plugin (CompactEnd l None)
        \<and> cr_summarySeq r = ev_seq sumE \<and> cr_endSeq r = ev_seq endE
        \<and> cr_seqs r \<noteq> [] \<and> hd (cr_seqs r) = cr_start r \<and> last (cr_seqs r) = cr_end r
        \<and> cr_tokens r = (\<Sum>n \<leftarrow> cr_seqs r. event_price v (evs ! n))
        \<and> estimateMessage v m < cr_tokens r
        \<and> surf evs st \<and> nodes st = pre @ cr_seqs r @ post \<and> in_progress evs pre = 0 \<and> in_progress evs (cr_seqs r) = 0
        \<and> surf (evs @ body) st' \<and> nodes st' = pre @ [ev_seq ck] @ post \<and> never_negative (evs @ body) (nodes st'))"

lemma wp_attempt [simp]: "wp (attempt p) Q E W F = wp p (\<lambda>a. Q (Inr a)) (\<lambda>x. Q (Inl x)) W F"
  by (simp add: attempt_def)

lemma wp_throwIfAborted [simp]: "wp throwIfAborted Q E W F w = (if rw_aborted w then E SignalAborted w else Q () w)"
  by (simp add: throwIfAborted_def)

text \<open>The summary may still replace the range at the log \<open>evs\<close>.\<close>

definition stable :: "'q region_env \<Rightarrow> prepared \<Rightarrow> 'q compact_payload event list \<Rightarrow> bool" where
  "stable v pp evs \<longleftrightarrow>
     (\<exists>sel. valid_region evs sel \<and> sl_start sel = sl_start (pp_selection pp) \<and> sl_end sel = sl_end (pp_selection pp)
        \<and> sl_seqs sel = sl_seqs (pp_selection pp))
     \<and> pp_tokens pp = (\<Sum>n \<leftarrow> sl_seqs (pp_selection pp). event_price (rg_meter v) (evs ! n))"

lemma prepared_price:
  assumes "prepared_for v sel evs pp" and "valid_region evs sel"
  shows "pp_tokens pp = (\<Sum>n \<leftarrow> sl_seqs sel. event_price (rg_meter v) (evs ! n)) \<and> set (sl_seqs sel) \<subseteq> {..<length evs}"
proof -
  obtain st where st: "surf evs st" "pp_nodes pp = priced (rg_meter v) evs (nodes st)"
    using assms(1) by (auto simp: prepared_for_def)
  have sl: "sl_seqs sel = slice (sl_startIdx sel) (sl_endIdx sel + 1) (nodes st)"
    using assms(2) surf_unique [OF st(1)] by (auto simp: valid_region_def)
  have "pp_selected pp = priced (rg_meter v) evs (sl_seqs sel)"
    using assms(1) st(2) sl by (simp add: prepared_for_def priced_slice)
  moreover have "set (sl_seqs sel) \<subseteq> {..<length evs}"
    using surf_less [OF st(1)] set_slice_subset sl by fastforce
  ultimately show ?thesis
    using assms(1) by (simp add: prepared_for_def priced_def total_tokens_def comp_def)
qed

lemma price_later:
  "set ns \<subseteq> {..<length evs} \<Longrightarrow>
   (\<Sum>n \<leftarrow> ns. event_price v ((evs @ later) ! n)) = (\<Sum>n \<leftarrow> ns. event_price v (evs ! n))"
  by (auto simp: nth_append subset_iff intro!: arg_cong [of _ _ sum_list])

lemma stable_whole:
  assumes "prepared_for v sel evs pp" and "valid_region evs sel" and "surf (evs @ later) st'"
    and "priced (rg_meter v) (evs @ later) (nodes st') = pp_nodes pp"
  shows "stable v pp (evs @ later)"
proof -
  obtain st where st: "surf evs st" "pp_nodes pp = priced (rg_meter v) evs (nodes st)"
    using assms(1) by (auto simp: prepared_for_def)
  have "nodes st' = nodes st" using arg_cong [OF assms(4), of "map tn_seq"] st(2) by simp
  from valid_region_later [OF assms(2) st(1) assms(3) this] prepared_price [OF assms(1,2)] assms(1)
  show ?thesis
    by (auto simp: stable_def prepared_for_def price_later)
qed

lemma reads_whole:
  assumes "prepared_for v sel evs pp" and "valid_region evs sel"
  shows "reads v (\<lambda>es. es = evs @ later) (assertWholeSurfaceUnchanged v pp) (\<lambda>es _. stable v pp es)"
  unfolding assertWholeSurfaceUnchanged_def
  by (rule reads_bnd [OF reads_measure], rule reads_if [OF reads_throw], rule reads_ret)
    (auto intro: stable_whole [OF assms])

lemma reads_handle: "reads v P p R \<Longrightarrow> reads v P (handle p (\<lambda>_. throw x)) R"
  unfolding reads_def by simp

lemma reads_span:
  assumes "env_ok v" and "prepared_for v sel evs pp" and "valid_region evs sel"
  shows "reads v (\<lambda>es. es = evs @ later) (assertSelectedSpanStable v pp) (\<lambda>es _. stable v pp es)"
  unfolding assertSelectedSpanStable_def
proof (rule reads_bnd [OF reads_handle [OF reads_validate [OF assms(1)]]], rule reads_if [OF reads_throw])
  fix cur :: selection assume "\<not> sl_seqs cur \<noteq> sl_seqs (pp_selection pp)"
  then show "reads v (\<lambda>es. es = evs @ later \<and> valid_region es cur \<and> sl_start cur = sl_start (pp_selection pp)
      \<and> sl_end cur = sl_end (pp_selection pp))
    (bnd (measure_region v) (\<lambda>m. if slice (sl_startIdx cur) (sl_endIdx cur + 1) (tm_nodes m) \<noteq> pp_selected pp
       then throw SurfaceChanged else ret ())) (\<lambda>es _. stable v pp es)"
    using prepared_price [OF assms(2,3)] assms(2)
    by (intro reads_bnd [OF reads_measure] reads_if [OF reads_throw] reads_ret)
      (auto simp: stable_def prepared_for_def price_later)
qed

definition summary_front :: "compact_lifecycle \<Rightarrow> 'q compact_payload event list \<Rightarrow> bool" where
  "summary_front l front \<longleftrightarrow>
     length front \<le> 1 \<and> (\<forall>f \<in> set front. \<exists>y. ev_data f = Plugin (CompactSummary y) \<and> cs_id y = cl_id l)"

text \<open>\<open>commits\<close> without the end of the bracket.\<close>

definition body_commits ::
  "meter_env \<Rightarrow> compact_lifecycle \<Rightarrow> 'q compact_payload event list \<Rightarrow> compaction_result
   \<Rightarrow> 'q compact_payload event list \<Rightarrow> bool" where
  "body_commits v l evs r body \<longleftrightarrow>
     (\<exists>sumE ck y m st st' pre post. body = [sumE, ck]
        \<and> ev_data sumE = Plugin (CompactSummary y) \<and> cs_id y = cl_id l \<and> cs_command y = cl_command l
        \<and> cs_price y = \<lparr>cp_start = cr_start r, cp_end = cr_end r, cp_seqs = cr_seqs r, cp_tokens = of_nat (cr_tokens r)\<rparr>
        \<and> checkpoint_of l ck m \<and> ev_surfaceOp ck = Some (replace_op (cr_start r) (cr_end r))
        \<and> cr_summarySeq r = ev_seq sumE
        \<and> cr_seqs r \<noteq> [] \<and> hd (cr_seqs r) = cr_start r \<and> last (cr_seqs r) = cr_end r
        \<and> cr_tokens r = (\<Sum>n \<leftarrow> cr_seqs r. event_price v (evs ! n))
        \<and> estimateMessage v m < cr_tokens r
        \<and> surf evs st \<and> nodes st = pre @ cr_seqs r @ post \<and> in_progress evs pre = 0 \<and> in_progress evs (cr_seqs r) = 0
        \<and> surf (evs @ body) st' \<and> nodes st' = pre @ [ev_seq ck] @ post \<and> never_negative (evs @ body) (nodes st'))"

text \<open>
  What a transaction appends itself, onto a log \<open>evs\<close> that has what others appended while the summary
  was awaited. A committed one replaces its range. A failure ends in one end with the text of its
  error; before it stands at most the summary, when the commit was refused after it, and no surface
  node moves. A failure that is not closed is the refusal of the end itself: of the one that closes
  a failure, or of the one that would have completed the commit.
\<close>

definition tx_events ::
  "'q region_env \<Rightarrow> compact_lifecycle \<Rightarrow> 'q compact_payload event list \<Rightarrow> tx_outcome
   \<Rightarrow> 'q compact_payload event list \<Rightarrow> bool" where
  "tx_events v l evs outcome body \<longleftrightarrow>
     (case outcome of
        TxCommitted r \<Rightarrow> commits (rg_meter v) l evs r body
      | TxFailed x stage True \<Rightarrow>
          (\<exists>front e. body = front @ [e] \<and> ev_data e = Plugin (CompactEnd l (Some (rg_errorText v x)))
             \<and> summary_front l front
             \<and> (case stage of StageSummary \<Rightarrow> front = [] | StageCommit \<Rightarrow> \<exists>y. x = SessionFault y))
          \<and> (\<exists>st. surf evs st \<and> surf (evs @ body) st)
      | TxFailed x stage False \<Rightarrow>
          stage = StageCommit
          \<and> (\<exists>err. refused v (evs @ body) (Plugin (CompactEnd l err)) x
               \<and> (case err of
                    None \<Rightarrow> \<exists>r. body_commits (rg_meter v) l evs r body
                  | Some m \<Rightarrow> summary_front l body \<and> (\<exists>z. m = rg_errorText v z) \<and> (\<exists>st. surf evs st \<and> surf (evs @ body) st))))"

text \<open>A transaction run from \<open>w\<close>: one wait at most, then its own events.\<close>

definition ran ::
  "'q region_env \<Rightarrow> 'q region_world \<Rightarrow> 'q compact_payload event list \<Rightarrow> 'q compact_payload event list
   \<Rightarrow> 'q region_world \<Rightarrow> bool" where
  "ran v w outside body w' \<longleftrightarrow>
     grows v w (outside @ body) w' \<and> heard v (rw_script w) (rw_script w') (region_log w) outside"

lemma waits_ran: "waits v w outside w' \<Longrightarrow> ran v w outside [] w'"
  by (simp add: waits_def ran_def)

lemma ran_append: "ran v w outside body w1 \<Longrightarrow> grows v w1 es w' \<Longrightarrow> rw_script w' = rw_script w1 \<Longrightarrow> ran v w outside (body @ es) w'"
  by (simp add: ran_def grows_def)

lemma ran_quiet: "ran v w outside body w1 \<Longrightarrow> quiet v w1 w' \<Longrightarrow> ran v w outside body w'"
  by (simp add: ran_def grows_def quiet_def)

lemma surf_plugins:
  "surf evs st \<Longrightarrow> surf (evs @ es) st' \<Longrightarrow> \<forall>e \<in> set es. \<exists>p. ev_data e = Plugin p \<Longrightarrow> st' = st"
proof (induction es arbitrary: st' rule: rev_induct)
  case (snoc e es)
  obtain st1 where st1: "surf (evs @ es) st1" using surf_prefix [of "evs @ es"] snoc.prems(2) by auto
  obtain p where "ev_data e = Plugin p" using snoc.prems(3) by auto
  then have "st' = st1" using surf_off [OF st1] snoc.prems(2) by simp
  with snoc.IH [OF snoc.prems(1) st1] snoc.prems(3) show ?case by simp
qed (auto dest: surf_unique)

lemma body_surface:
  assumes "stable v pp evs" and "surf (evs @ [sumE]) st1" and "surf (evs @ [sumE, ck]) st2"
    and "ev_data sumE = Plugin y" and "ev_data ck = UserMessage m"
    and "ev_surfaceOp ck = Some (replace_op (sl_start (pp_selection pp)) (sl_end (pp_selection pp)))"
    and "ev_seq ck = Suc (length evs)"
  shows "\<exists>st pre post. surf evs st \<and> nodes st = pre @ sl_seqs (pp_selection pp) @ post
    \<and> sl_seqs (pp_selection pp) \<noteq> [] \<and> hd (sl_seqs (pp_selection pp)) = sl_start (pp_selection pp)
    \<and> last (sl_seqs (pp_selection pp)) = sl_end (pp_selection pp)
    \<and> in_progress evs pre = 0 \<and> in_progress evs (sl_seqs (pp_selection pp)) = 0
    \<and> nodes st2 = pre @ [ev_seq ck] @ post \<and> never_negative (evs @ [sumE, ck]) (nodes st2)"
proof -
  obtain sel where sel: "valid_region evs sel" "sl_start sel = sl_start (pp_selection pp)"
    "sl_end sel = sl_end (pp_selection pp)" "sl_seqs sel = sl_seqs (pp_selection pp)"
    using assms(1) by (auto simp: stable_def)
  from sel(1) show ?thesis
  proof (rule region_split)
    fix st pre post
    assume r: "surf evs st" "nodes st = pre @ sl_seqs sel @ post" "length pre = sl_startIdx sel"
      "sl_seqs sel \<noteq> []" "hd (sl_seqs sel) = sl_start sel" "last (sl_seqs sel) = sl_end sel"
      "never_negative evs (nodes st)" "in_progress evs pre = 0" "in_progress evs (sl_seqs sel) = 0"
    have st1: "st1 = st" using surf_off [OF r(1) assms(2) assms(4)] .
    have sel1: "valid_region (evs @ [sumE]) sel"
      by (rule valid_region_later [OF sel(1) r(1) assms(2)]) (simp add: st1)
    have n2: "nodes st2 = pre @ [ev_seq ck] @ post"
      using surf_replace [OF sel1 assms(2) _ r(3), where e = ck and st' = st2] assms(3,5,6,7) sel r(2) st1 by simp
    have less: "\<forall>n \<in> set pre \<union> set post. n < length evs" using surf_less [OF r(1)] r(2) by auto
    have "never_negative (evs @ [sumE, ck]) (pre @ [ev_seq ck] @ post)"
      by (rule never_negative_replaced [OF r(7) [unfolded r(2)] r(9)])
        (use less assms(5,7) in \<open>auto simp: nth_append\<close>)
    with r n2 sel show ?thesis by (metis append.assoc)
  qed
qed

lemma wp_commit:
  assumes "env_ok v" and "region_ok v w" and "stable v (sz_prepared sm) (region_log w)"
    and "msg_source (sz_message sm) = compactCheckpointSource (cl_id l) (cl_command l)"
    and "estimateMessage (rg_meter v) (sz_message sm) < pp_tokens (sz_prepared sm)"
  shows "wp (commitCompactionBody v l startSeq sm)
    (\<lambda>r w'. \<exists>body. grows v w body w' \<and> body_commits (rg_meter v) l (region_log w) r body
        \<and> cr_id r = cl_id l \<and> cr_startSeq r = startSeq \<and> cr_start r = sl_start (pp_selection (sz_prepared sm))
        \<and> cr_end r = sl_end (pp_selection (sz_prepared sm)) \<and> cr_seqs r = sl_seqs (pp_selection (sz_prepared sm))
        \<and> rw_script w' = rw_script w)
    (\<lambda>x w'. \<exists>front. grows v w front w' \<and> summary_front l front \<and> rw_script w' = rw_script w \<and> (\<exists>y. x = SessionFault y)) (\<lambda>_. False) (\<lambda>_. False) w"
proof -
  let ?pp = "sz_prepared sm" let ?sel = "pp_selection ?pp" let ?r = "sz_result sm"
  let ?y = "\<lparr>cs_id = cl_id l, cs_command = cl_command l, cs_summary = sr_summary ?r,
             cs_price = \<lparr>cp_start = sl_start ?sel, cp_end = sl_end ?sel, cp_seqs = sl_seqs ?sel,
                         cp_tokens = of_nat (pp_tokens ?pp)\<rparr>,
             cs_provider = sr_provider ?r, cs_model = sr_model ?r, cs_maxTokens = sr_maxTokens ?r,
             cs_usage = sr_usage ?r, cs_rawOutput = sr_rawOutput ?r, cs_llmStreamCall = sr_llmStreamCall ?r\<rparr>"
  show ?thesis
    unfolding commitCompactionBody_def Let_def wp_bnd
  proof (rule wp_mono [OF wp_append_region [OF assms(1,2)]], goal_cases)
    case (1 n w1)
    then obtain e where e: "grows v w [e] w1" "n = length (region_log w)" "ev_seq e = n"
      "ev_data e = Plugin (CompactSummary ?y)" "rw_script w1 = rw_script w" by blast
    have ok: "region_ok v w1" and log: "region_log w1 = region_log w @ [e]" using e(1) by (auto simp: grows_def)
    show ?case
    proof (rule wp_mono [OF wp_append_region [OF assms(1) ok]], goal_cases)
      case (1 n2 w2)
      then obtain ck where ck: "grows v w1 [ck] w2" "ev_seq ck = length (region_log w1)"
        "ev_data ck = UserMessage (sz_message sm)"
        "ev_surfaceOp ck = Some (replace_op (sl_start ?sel) (sl_end ?sel))" "rw_script w2 = rw_script w1" by blast
      have g: "grows v w [e, ck] w2" using region_grows_trans [OF e(1) ck(1)] by simp
      obtain st1 st2 where st: "surf (region_log w @ [e]) st1" "surf (region_log w @ [e, ck]) st2"
        using region_surf [OF ok] region_surf [of v w2] g log by (auto simp: grows_def)
      obtain st pre post where b: "surf (region_log w) st" "nodes st = pre @ sl_seqs ?sel @ post"
        "sl_seqs ?sel \<noteq> []" "hd (sl_seqs ?sel) = sl_start ?sel" "last (sl_seqs ?sel) = sl_end ?sel"
        "in_progress (region_log w) pre = 0" "in_progress (region_log w) (sl_seqs ?sel) = 0"
        "nodes st2 = pre @ [ev_seq ck] @ post" "never_negative (region_log w @ [e, ck]) (nodes st2)"
        using body_surface [OF assms(3) st e(4) ck(3,4)] ck(2) log by auto
      have price: "pp_tokens ?pp = (\<Sum>n \<leftarrow> sl_seqs ?sel. event_price (rg_meter v) (region_log w ! n))"
        using assms(3) by (simp add: stable_def)
      have "body_commits (rg_meter v) l (region_log w) \<lparr>cr_id = cl_id l, cr_command = cl_command l,
          cr_startSeq = startSeq, cr_summarySeq = n, cr_endSeq = 0, cr_summary = sr_summary ?r,
          cr_start = sl_start ?sel, cr_end = sl_end ?sel, cr_seqs = sl_seqs ?sel, cr_tokens = pp_tokens ?pp\<rparr> [e, ck]"
        unfolding body_commits_def checkpoint_of_def
        by (intro exI [of _ e] exI [of _ ck] exI [of _ ?y] exI [of _ "sz_message sm"] exI [of _ st] exI [of _ st2]
            exI [of _ pre] exI [of _ post]) (use e ck b st price assms(4,5) in simp)
      with g e(5) ck(5) show ?case by auto
    next
      case (2 x w2)
      then have "grows v w [e] w2" using region_grows_trans [OF e(1) quiet_grows] by fastforce
      with e(4,5) 2 show ?case by (auto simp: summary_front_def quiet_def)
    qed simp_all
  next
    case (2 x w1)
    then have "grows v w [] w1" using quiet_grows by blast
    with 2 show ?case by (auto simp: summary_front_def quiet_def intro!: exI [of _ "[]"])
  qed simp_all
qed

lemma wp_close:
  assumes "env_ok v" and "region_ok v w" and front: "summary_front l front" and "ran v w0 outside front w"
    and stage: "case stage of StageSummary \<Rightarrow> front = [] | StageCommit \<Rightarrow> \<exists>y. x = SessionFault y"
  shows "wp (close_failed v l x stage)
    (\<lambda>outcome w'. \<exists>outside body. ran v w0 outside body w' \<and> tx_events v l (region_log w0 @ outside) outcome body
       \<and> (\<forall>r. outcome \<noteq> TxCommitted r)) (\<lambda>_ _. False) (\<lambda>_. False) (\<lambda>_. False) w"
proof -
  have log: "region_log w = (region_log w0 @ outside) @ front" using assms(4) by (simp add: ran_def grows_def)
  obtain st where "surf (region_log w) st" using region_surf [OF assms(2)] by blast
  then obtain st0 where st0: "surf (region_log w0 @ outside) st0"
    unfolding log using surf_prefix by blast
  have same: "surf (region_log w0 @ outside @ es) st0"
    if "surf (region_log w0 @ outside @ es) st1" "\<forall>e \<in> set es. \<exists>p. ev_data e = Plugin p" for es st1
    using surf_plugins [OF st0, of es st1] that by simp
  have plugins: "\<forall>e \<in> set front. \<exists>p. ev_data e = Plugin p" using front by (auto simp: summary_front_def)
  show ?thesis
    unfolding close_failed_def wp_bnd wp_attempt
  proof (rule wp_mono [OF wp_append_region [OF assms(1,2)]], goal_cases)
    case (1 n w1)
    then obtain e where e: "grows v w [e] w1" "ev_data e = Plugin (CompactEnd l (Some (rg_errorText v x)))"
      "rw_script w1 = rw_script w" by blast
    have g: "ran v w0 outside (front @ [e]) w1" by (rule ran_append [OF assms(4) e(1,3)])
    obtain st1 where "surf (region_log w0 @ outside @ front @ [e]) st1"
      using region_surf [of v w1] e(1) log by (auto simp: grows_def)
    then have "surf (region_log w0 @ outside @ front @ [e]) st0" using same plugins e(2) by auto
    then have t: "tx_events v l (region_log w0 @ outside) (TxFailed x stage True) (front @ [e])"
      using e(2) front stage st0 by (auto simp: tx_events_def)
    show ?case by simp (rule exI [of _ outside], rule exI [of _ "front @ [e]"], use g t in simp)
  next
    case (2 y w1)
    have g: "ran v w0 outside front w1" using ran_quiet [OF assms(4)] 2 by blast
    have "surf (region_log w0 @ outside @ front) st0"
      using same [of front st] plugins \<open>surf (region_log w) st\<close> log by simp
    then have t: "tx_events v l (region_log w0 @ outside) (TxFailed y StageCommit False) front"
      using 2 front st0 log
      by (auto simp: tx_events_def intro!: exI [of _ "Some (rg_errorText v x)"])
    show ?case by simp (rule exI [of _ outside], rule exI [of _ front], use g t in simp)
  qed simp_all
qed

lemma body_complete:
  assumes "body_commits v l evs r body" and "ev_data e = Plugin (CompactEnd l None)"
    and "surf (evs @ body @ [e]) st2"
  shows "commits v l evs (completeCompaction r (ev_seq e)) (body @ [e])"
proof -
  obtain sumE ck y m st st' pre post where b: "body = [sumE, ck]"
    "ev_data sumE = Plugin (CompactSummary y)" "cs_id y = cl_id l" "cs_command y = cl_command l"
    "cs_price y = \<lparr>cp_start = cr_start r, cp_end = cr_end r, cp_seqs = cr_seqs r, cp_tokens = of_nat (cr_tokens r)\<rparr>"
    "checkpoint_of l ck m" "ev_surfaceOp ck = Some (replace_op (cr_start r) (cr_end r))"
    "cr_summarySeq r = ev_seq sumE" "cr_seqs r \<noteq> []" "hd (cr_seqs r) = cr_start r" "last (cr_seqs r) = cr_end r"
    "cr_tokens r = (\<Sum>n \<leftarrow> cr_seqs r. event_price v (evs ! n))" "estimateMessage v m < cr_tokens r"
    "surf evs st" "nodes st = pre @ cr_seqs r @ post" "in_progress evs pre = 0" "in_progress evs (cr_seqs r) = 0"
    "surf (evs @ body) st'" "nodes st' = pre @ [ev_seq ck] @ post" "never_negative (evs @ body) (nodes st')"
    using assms(1) unfolding body_commits_def by blast
  have st2: "st2 = st'" using surf_off [OF b(18) _ assms(2)] assms(3) by simp
  have later: "in_progress ((evs @ body) @ [e]) (take i (nodes st')) = in_progress (evs @ body) (take i (nodes st'))" for i
    using surf_less [OF b(18)] by (intro in_progress_later) (auto dest: in_set_takeD)
  then have nn: "never_negative (evs @ body @ [e]) (nodes st')"
    using b(20) by (simp add: never_negative_def)
  show ?thesis
    unfolding commits_def completeCompaction_def
    by (intro exI [of _ sumE] exI [of _ ck] exI [of _ e] exI [of _ y] exI [of _ m] exI [of _ st] exI [of _ st']
        exI [of _ pre] exI [of _ post]) (use b nn assms(2,3) st2 in simp)
qed

text \<open>The part of the transaction whose errors have the stage \<open>summary\<close>.\<close>

lemma wp_summary_phase:
  assumes "env_ok v" and "region_ok v w" and "valid_region (region_log w) sel"
  shows "wp (bnd (prepareCompaction v sel) (\<lambda>pp.
        bnd (summarizeCompaction v c pp (cl_id l) (cl_command l)) (\<lambda>sm.
        bnd (if ro_manual opts then throwIfAborted else ret ()) (\<lambda>_.
        bnd (if ro_wholeSurface opts then assertWholeSurfaceUnchanged v pp else assertSelectedSpanStable v pp) (\<lambda>_.
          ret sm)))))
    (\<lambda>sm w'. \<exists>later. waits v w later w' \<and> stable v (sz_prepared sm) (region_log w')
       \<and> msg_source (sz_message sm) = compactCheckpointSource (cl_id l) (cl_command l)
       \<and> estimateMessage (rg_meter v) (sz_message sm) < pp_tokens (sz_prepared sm)
       \<and> pp_selection (sz_prepared sm) = sel)
    (\<lambda>_ w'. \<exists>later. waits v w later w') (\<lambda>w'. waits v w [] w') (\<lambda>_. False) w"
    (is "wp _ ?Q ?E ?W _ _")
  unfolding wp_bnd [of "prepareCompaction v sel"]
proof (rule reads_use [OF reads_prepare [where P = "\<lambda>_. True"] assms(2)])
  fix pp w1 assume q1: "quiet v w w1" and pp: "prepared_for v sel (region_log w) pp"
  have ok1: "region_ok v w1" using q1 by (simp add: quiet_def)
  let ?stability = "if ro_wholeSurface opts then assertWholeSurfaceUnchanged v pp else assertSelectedSpanStable v pp"
  have stability: "wp (bnd ?stability (\<lambda>_. ret sm)) ?Q ?E ?W (\<lambda>_. False) w2"
    if g: "waits v w later w2"
      and sm: "sz_prepared sm = pp" "msg_source (sz_message sm) = compactCheckpointSource (cl_id l) (cl_command l)"
      "estimateMessage (rg_meter v) (sz_message sm) < pp_tokens pp" for later w2 sm
  proof -
    have "reads v (\<lambda>es. es = region_log w @ later) ?stability (\<lambda>es _. stable v pp es)"
      using reads_whole [OF pp assms(3)] reads_span [OF assms(1) pp assms(3)] by simp
    then show ?thesis
      unfolding wp_bnd
    proof (rule reads_use)
      show "region_ok v w2" "region_log w2 = region_log w @ later" using g by (auto simp: waits_def grows_def)
    next
      fix u w3 assume "quiet v w2 w3" "stable v pp (region_log w2)"
      then show "wp (ret sm) ?Q ?E ?W (\<lambda>_. False) w3"
        using waits_after [OF g] sm pp by (auto simp: quiet_def prepared_for_def)
    next
      fix x w3 assume "quiet v w2 w3"
      then show "?E x w3" using waits_after [OF g] by auto
    qed
  qed
  show "wp (bnd (summarizeCompaction v c pp (cl_id l) (cl_command l)) (\<lambda>sm.
        bnd (if ro_manual opts then throwIfAborted else ret ()) (\<lambda>_.
        bnd ?stability (\<lambda>_. ret sm)))) ?Q ?E ?W (\<lambda>_. False) w1"
    unfolding summarizeCompaction_def wp_bnd [of "bnd _ _"] wp_bnd [of "summarize _ _ _"]
  proof (rule wp_mono [OF wp_summarize_hook [OF assms(1) ok1]], goal_cases)
    case (1 r w2)
    then obtain later where g: "waits v w later w2" by (auto simp: waits_before [OF q1])
    let ?m = "createUserMessage (rg_messageId v (length (region_log w2))) (frameSummary (sr_summary r))
        (compactCheckpointSource (cl_id l) (cl_command l))"
    let ?sm = "\<lparr>sz_prepared = pp, sz_result = r, sz_message = ?m\<rparr>"
    have st: "wp (bnd ?stability (\<lambda>_. ret ?sm)) ?Q ?E ?W (\<lambda>_. False) w2"
      if "\<not> pp_tokens pp \<le> estimateMessage (rg_meter v) ?m"
      using stability [OF g, of ?sm] that by (simp add: createUserMessage_def createMessage_def del: wp_bnd)
    show ?case
    proof (cases "pp_tokens pp \<le> estimateMessage (rg_meter v) ?m \<or> ro_manual opts \<and> rw_aborted w2")
      case True
      then show ?thesis using g by (auto simp: Let_def)
    next
      case False
      then show ?thesis using st by (simp add: Let_def)
    qed
  qed (auto simp: waits_before [OF q1])
qed (auto dest: quiet_waits)

lemma wp_transaction:
  assumes "env_ok v" and "region_ok v w" and "valid_region (region_log w) sel"
  shows "wp (run_transaction v c opts sel l startSeq)
    (\<lambda>outcome w'. \<exists>outside body. ran v w outside body w' \<and> tx_events v l (region_log w @ outside) outcome body
       \<and> (\<forall>r. outcome = TxCommitted r \<longrightarrow> cr_id r = cl_id l \<and> cr_startSeq r = startSeq
            \<and> cr_start r = sl_start sel \<and> cr_end r = sl_end sel \<and> cr_seqs r = sl_seqs sel))
    (\<lambda>_ _. False) (\<lambda>w'. waits v w [] w') (\<lambda>_. False) w"
proof -
  let ?G = "\<lambda>outcome w'. \<exists>outside body. ran v w outside body w' \<and> tx_events v l (region_log w @ outside) outcome body
       \<and> (\<forall>r. outcome = TxCommitted r \<longrightarrow> cr_id r = cl_id l \<and> cr_startSeq r = startSeq
            \<and> cr_start r = sl_start sel \<and> cr_end r = sl_end sel \<and> cr_seqs r = sl_seqs sel)"
  let ?W = "\<lambda>w'. waits v w [] w'"
  have fail: "wp (close_failed v l x StageSummary) ?G (\<lambda>_ _. False) ?W (\<lambda>_. False) w1"
    if ex: "\<exists>later. waits v w later w1" for x w1
  proof -
    obtain later where g: "waits v w later w1" using ex by blast
    have "region_ok v w1" "summary_front l []"
      using g by (auto simp: waits_def grows_def summary_front_def)
    from wp_close [OF assms(1) this waits_ran [OF g], where stage = StageSummary and x = x] show ?thesis
      by (rule wp_mono) auto
  qed
  have commit: "wp (attempt (commitCompactionBody v l startSeq sm)) (\<lambda>r2. wp (case r2 of
         Inl x \<Rightarrow> close_failed v l x StageCommit
       | Inr pending \<Rightarrow> bnd (attempt (append_region v (Plugin (CompactEnd l None)) None None)) (\<lambda>r3. case r3 of
             Inl x \<Rightarrow> ret (TxFailed x StageCommit False)
           | Inr endSeq \<Rightarrow> ret (TxCommitted (completeCompaction pending endSeq)))) ?G (\<lambda>_ _. False) ?W (\<lambda>_. False))
      (\<lambda>_ _. False) ?W (\<lambda>_. False) w1"
    if wt: "waits v w later w1" and st: "stable v (sz_prepared sm) (region_log w1)"
      and src: "msg_source (sz_message sm) = compactCheckpointSource (cl_id l) (cl_command l)"
      and cheap: "estimateMessage (rg_meter v) (sz_message sm) < pp_tokens (sz_prepared sm)"
      and sel: "pp_selection (sz_prepared sm) = sel" for later w1 sm
  proof -
    have ok: "region_ok v w1" and log: "region_log w1 = region_log w @ later"
      using wt by (auto simp: waits_def grows_def)
    note g = waits_ran [OF wt]
    show ?thesis
      unfolding wp_attempt
    proof (rule wp_mono [OF wp_commit [OF assms(1) ok st src cheap, of startSeq]], goal_cases)
      case (1 r w2)
      then obtain body where b: "grows v w1 body w2" "body_commits (rg_meter v) l (region_log w1) r body"
        "cr_id r = cl_id l" "cr_startSeq r = startSeq" "cr_start r = sl_start sel" "cr_end r = sl_end sel" "cr_seqs r = sl_seqs sel" "rw_script w2 = rw_script w1"
        using sel by auto
      have ok2: "region_ok v w2" and log2: "region_log w2 = (region_log w @ later) @ body"
        using b(1) log by (auto simp: grows_def)
      have ran2: "ran v w later body w2" using ran_append [OF g b(1,8)] by simp
      show ?case
        unfolding sum.case wp_bnd wp_attempt
      proof (rule wp_mono [OF wp_append_region [OF assms(1) ok2]], goal_cases)
        case (1 n w3)
        then obtain e where e: "grows v w2 [e] w3" "ev_seq e = n" "ev_data e = Plugin (CompactEnd l None)"
          "rw_script w3 = rw_script w2" by blast
        have g3: "ran v w later (body @ [e]) w3" by (rule ran_append [OF ran2 e(1,4)])
        obtain st2 where "surf (region_log w1 @ body @ [e]) st2"
          using region_surf [of v w3] g3 log by (auto simp: ran_def grows_def)
        from body_complete [OF b(2) e(3) this] have "commits (rg_meter v) l (region_log w @ later) (completeCompaction r n) (body @ [e])"
          using e(2) log by simp
        then have "tx_events v l (region_log w @ later) (TxCommitted (completeCompaction r n)) (body @ [e])"
          by (simp add: tx_events_def)
        then show ?case
          by simp (rule exI [of _ later], rule exI [of _ "body @ [e]"], use g3 b in \<open>simp add: completeCompaction_def\<close>)
      next
        case (2 x w3)
        have g3: "ran v w later body w3" using ran_quiet [OF ran2] 2 by blast
        have "tx_events v l (region_log w @ later) (TxFailed x StageCommit False) body"
          using 2 b(2) log log2 by (auto simp: tx_events_def intro!: exI [of _ None])
        then show ?case by simp (rule exI [of _ later], rule exI [of _ body], use g3 in simp)
      qed simp_all
    next
      case (2 x w2)
      then obtain front where f: "grows v w1 front w2" "summary_front l front" "rw_script w2 = rw_script w1" "\<exists>y. x = SessionFault y" by blast
      have "region_ok v w2" using f(1) by (simp add: grows_def)
      have r: "ran v w later front w2" using ran_append [OF g f(1,3)] by simp
      note closed = wp_close [OF assms(1) \<open>region_ok v w2\<close> f(2) r, where stage = StageCommit and x = x]
      show ?case unfolding sum.case by (rule wp_mono [OF closed]) (use f(4) in auto)
    qed simp_all
  qed
  show ?thesis
    unfolding run_transaction_def wp_bnd [of "attempt _"] wp_attempt
  proof (rule wp_mono [OF wp_summary_phase [OF assms, where c = c and opts = opts and l = l]], goal_cases)
    case (1 sm w1)
    then show ?case using commit by auto
  qed (use fail in simp_all)
qed

section \<open>The whole compaction\<close>

text \<open>
  What a compaction of the range from \<open>a\<close> to \<open>b\<close> of the log \<open>evs\<close> has appended once its transaction
  has an outcome: its start, other code's events while the summary was awaited, the transaction's
  own events, and what other code appended while the checkpoint was flushed. The script went from
  \<open>S\<close> to \<open>S'\<close>; a committed range was that stretch of the surface when the compaction was entered.
\<close>

definition compaction_log ::
  "'q region_env \<Rightarrow> region_options \<Rightarrow> nat \<Rightarrow> nat \<Rightarrow> 'q region_tick list \<Rightarrow> 'q region_tick list
   \<Rightarrow> 'q compact_payload event list \<Rightarrow> tx_outcome \<Rightarrow> 'q compact_payload event list \<Rightarrow> bool" where
  "compaction_log v opts a b S S' evs outcome evs' \<longleftrightarrow>
     (\<exists>l startE outside body flushed S1. evs' = evs @ [startE] @ outside @ body @ flushed
        \<and> ev_data startE = Plugin (CompactStart l) \<and> ev_seq startE = length evs
        \<and> compaction_inactive (inspectCompactionEntryState evs)
        \<and> (if ro_manual opts then cl_turn l = None \<and> es_openTurn (inspectCompactionEntryState evs) = None
           else cl_turn l \<noteq> None \<and> cl_turn l = es_openTurn (inspectCompactionEntryState evs))
        \<and> heard v S S1 (evs @ [startE]) outside
        \<and> tx_events v l (evs @ [startE] @ outside) outcome body
        \<and> (if outcome_closed outcome \<and> ro_flush opts then heard v S1 S' (evs @ [startE] @ outside @ body) flushed
           else S' = S1 \<and> flushed = [])
        \<and> (\<forall>r. outcome = TxCommitted r \<longrightarrow> cr_id r = cl_id l \<and> cr_startSeq r = ev_seq startE
             \<and> cr_start r = a \<and> cr_end r = b
             \<and> (\<exists>st pre post. surf evs st \<and> nodes st = pre @ cr_seqs r @ post)))"

text \<open>The error a caller sees when the transaction had the outcome.\<close>

definition thrown_for :: "region_options \<Rightarrow> bool \<Rightarrow> tx_outcome \<Rightarrow> region_error \<Rightarrow> bool" where
  "thrown_for opts aborted outcome x \<longleftrightarrow>
     (if ro_manual opts \<and> aborted then x = SignalAborted
      else (case outcome of
          TxFailed y stage _ \<Rightarrow>
            if \<not> ro_manual opts then x = y
            else (case stage of
                StageCommit \<Rightarrow> x = ManualFailure CodeCommit
              | StageSummary \<Rightarrow> x = ManualFailure (if y = SurfaceChanged then CodeChanged else CodeSummary))
        | TxCommitted _ \<Rightarrow> ro_flush opts \<and> x = ManualFailure CodePersistence))"

lemma wp_finish:
  assumes "f \<noteq> None \<longrightarrow> ro_flush opts"
  shows "wp (bnd (if ro_manual opts then throwIfAborted else ret ()) (\<lambda>_.
      case outcome of
        TxFailed x stage _ \<Rightarrow> if ro_manual opts then throwManualFailure x stage else throw x
      | TxCommitted r \<Rightarrow> if f \<noteq> None then throw (ManualFailure CodePersistence) else ret r))
    (\<lambda>r w'. outcome = TxCommitted r \<and> w' = w) (\<lambda>x w'. thrown_for opts (rw_aborted w') outcome x \<and> w' = w)
    (\<lambda>_. False) (\<lambda>_. False) w"
  using assms
  by (cases outcome; cases "ro_manual opts"; cases "rw_aborted w")
    (auto simp: thrown_for_def throwManualFailure_def split: tx_stage.split)

lemma wp_ending:
  assumes "env_ok v" and ok: "region_ok v w"
  shows "wp (bnd (if outcome_closed outcome \<and> ro_flush opts then bnd (await v) (\<lambda>t. ret (rt_error t)) else ret None)
      (\<lambda>flushFailure. bnd (if ro_manual opts then throwIfAborted else ret ()) (\<lambda>_.
        case outcome of
          TxFailed x stage _ \<Rightarrow> if ro_manual opts then throwManualFailure x stage else throw x
        | TxCommitted r \<Rightarrow> if flushFailure \<noteq> None then throw (ManualFailure CodePersistence) else ret r)))
    (\<lambda>r w'. outcome = TxCommitted r \<and> (\<exists>flushed. waits v w flushed w'
        \<and> (outcome_closed outcome \<and> ro_flush opts \<or> rw_script w' = rw_script w \<and> flushed = [])))
    (\<lambda>x w'. thrown_for opts (rw_aborted w') outcome x \<and> (\<exists>flushed. waits v w flushed w'
        \<and> (outcome_closed outcome \<and> ro_flush opts \<or> rw_script w' = rw_script w \<and> flushed = [])))
    (\<lambda>_. True) (\<lambda>_. False) w" (is "wp (bnd _ ?finish) ?Q ?E _ _ _")
proof -
  have finish: "wp (?finish f) ?Q ?E (\<lambda>_. True) (\<lambda>_. False) w1"
    if "\<exists>flushed. waits v w flushed w1 \<and> (outcome_closed outcome \<and> ro_flush opts \<or> rw_script w1 = rw_script w \<and> flushed = [])"
      and "f \<noteq> None \<longrightarrow> ro_flush opts" for f w1
    by (rule wp_mono [OF wp_finish [OF that(2)]]) (use that(1) in auto)
  show ?thesis
  proof (cases "outcome_closed outcome \<and> ro_flush opts")
    case True
    have "wp (await v) (\<lambda>t. wp (?finish (rt_error t)) ?Q ?E (\<lambda>_. True) (\<lambda>_. False)) ?E (\<lambda>_. True) (\<lambda>_. False) w"
    proof (rule wp_mono [OF wp_await_region [OF assms]])
      fix t w1 assume "\<exists>later. waits v w later w1"
      then show "wp (?finish (rt_error t)) ?Q ?E (\<lambda>_. True) (\<lambda>_. False) w1" using True by (intro finish) auto
    qed simp_all
    then show ?thesis
      unfolding if_P [OF True] wp_bnd [of "bnd _ _"] wp_bnd [of "await v"] wp_ret .
  next
    case False
    have "wp (?finish None) ?Q ?E (\<lambda>_. True) (\<lambda>_. False) w"
      by (rule finish) (use waits_refl [OF ok] in auto)
    then show ?thesis unfolding if_not_P [OF False] wp_bnd [of "ret _"] wp_ret .
  qed
qed

lemma wp_compact:
  assumes "env_ok v" and "region_ok v w"
  shows "wp (compactSurfaceRegion v c opts a b)
    (\<lambda>r w'. compaction_log v opts a b (rw_script w) (rw_script w') (region_log w) (TxCommitted r) (region_log w'))
    (\<lambda>x w'. region_log w' = region_log w
       \<or> (\<exists>outcome. thrown_for opts (rw_aborted w') outcome x
            \<and> compaction_log v opts a b (rw_script w) (rw_script w') (region_log w) outcome (region_log w'))) (\<lambda>_. True) (\<lambda>_. False) w"
    (is "wp _ ?Q ?E ?W ?F w")
proof -
  let ?entry = "inspectCompactionEntryState (region_log w)"
  let ?rest = "\<lambda>sel. bnd (read_state region_log) (\<lambda>evs.
       let entry = inspectCompactionEntryState evs
       in bnd (assertCompactionInactive entry) (\<lambda>_.
          bnd (if ro_manual opts
               then (if es_openTurn entry \<noteq> None then throw (ManualFailure CodeBusy) else ret None)
               else (if es_openTurn entry = None then throw NoOpenTurn else ret (es_openTurn entry))) (\<lambda>owner.
          let l = \<lparr>cl_id = rg_compactionId v (length evs), cl_command = ro_command opts, cl_turn = owner\<rparr>
          in bnd (append_region v (Plugin (CompactStart l)) None None) (\<lambda>startSeq.
             bnd (run_transaction v c opts sel l startSeq) (\<lambda>outcome.
             bnd (if outcome_closed outcome \<and> ro_flush opts
                  then bnd (await v) (\<lambda>t. ret (rt_error t)) else ret None) (\<lambda>flushFailure.
             bnd (if ro_manual opts then throwIfAborted else ret ()) (\<lambda>_.
               case outcome of
                 TxFailed x stage _ \<Rightarrow> if ro_manual opts then throwManualFailure x stage else throw x
               | TxCommitted r \<Rightarrow>
                   if flushFailure \<noteq> None then throw (ManualFailure CodePersistence) else ret r)))))))"
  have opened: "wp (bnd (append_region v (Plugin (CompactStart l)) None None) (\<lambda>startSeq.
             bnd (run_transaction v c opts sel l startSeq) (\<lambda>outcome.
             bnd (if outcome_closed outcome \<and> ro_flush opts
                  then bnd (await v) (\<lambda>t. ret (rt_error t)) else ret None) (\<lambda>flushFailure.
             bnd (if ro_manual opts then throwIfAborted else ret ()) (\<lambda>_.
               case outcome of
                 TxFailed x stage _ \<Rightarrow> if ro_manual opts then throwManualFailure x stage else throw x
               | TxCommitted r \<Rightarrow>
                   if flushFailure \<noteq> None then throw (ManualFailure CodePersistence) else ret r))))) ?Q ?E ?W ?F w1"
    if q: "quiet v w w1" and sel: "valid_region (region_log w) sel" "sl_start sel = a" "sl_end sel = b"
      and free: "compaction_inactive ?entry"
      and owner: "if ro_manual opts then cl_turn l = None \<and> es_openTurn ?entry = None
           else cl_turn l \<noteq> None \<and> cl_turn l = es_openTurn ?entry" for l sel w1
  proof -
    have ok1: "region_ok v w1" and log1: "region_log w1 = region_log w" and scr1: "rw_script w1 = rw_script w"
      using q by (auto simp: quiet_def)
    show ?thesis
      unfolding wp_bnd [of "append_region _ _ _ _"]
    proof (rule wp_mono [OF wp_append_region [OF assms(1) ok1]], goal_cases)
      case (1 n w2)
      then obtain e where e: "grows v w1 [e] w2" "n = length (region_log w)" "ev_seq e = n"
        "ev_data e = Plugin (CompactStart l)" "rw_script w2 = rw_script w" using log1 scr1 by auto
      have ok2: "region_ok v w2" and log2: "region_log w2 = region_log w @ [e]"
        using e(1) log1 by (auto simp: grows_def)
      obtain st st' where st: "surf (region_log w) st" "surf (region_log w @ [e]) st'"
        using region_surf [OF assms(2)] region_surf [OF ok2] log2 by auto
      have sel2: "valid_region (region_log w2) sel"
        unfolding log2 by (rule valid_region_later [OF sel(1) st]) (simp add: surf_off [OF st e(4)])
      show ?case
        unfolding wp_bnd [of "run_transaction _ _ _ _ _ _"]
      proof (rule wp_mono [OF wp_transaction [OF assms(1) ok2 sel2, of c opts l n]], goal_cases)
        case (1 outcome w3)
        then obtain outside body where g: "ran v w2 outside body w3"
          and t: "tx_events v l (region_log w2 @ outside) outcome body"
          and r: "\<forall>r. outcome = TxCommitted r \<longrightarrow> cr_id r = cl_id l \<and> cr_startSeq r = n
            \<and> cr_start r = a \<and> cr_end r = b \<and> cr_seqs r = sl_seqs sel" using sel(2,3) by blast
        have ok3: "region_ok v w3" using g by (simp add: ran_def grows_def)
        obtain st0 pre post where at: "surf (region_log w) st0" "nodes st0 = pre @ sl_seqs sel @ post"
          using region_split [OF sel(1)] by metis
        have cl: "compaction_log v opts a b (rw_script w) (rw_script w4) (region_log w) outcome (region_log w4)"
          if ended: "\<exists>flushed. waits v w3 flushed w4
            \<and> (outcome_closed outcome \<and> ro_flush opts \<or> rw_script w4 = rw_script w3 \<and> flushed = [])" for w4
        proof -
          obtain flushed where f: "waits v w3 flushed w4"
            "outcome_closed outcome \<and> ro_flush opts \<or> rw_script w4 = rw_script w3 \<and> flushed = []" using ended by blast
          have log3: "region_log w3 = region_log w @ [e] @ outside @ body"
            using g log2 by (simp add: ran_def grows_def)
          have "region_log w4 = region_log w @ [e] @ outside @ body @ flushed"
            using f(1) log3 by (simp add: waits_def grows_def)
          moreover have "heard v (rw_script w) (rw_script w3) (region_log w @ [e]) outside"
            using g log2 e(5) by (simp add: ran_def)
          moreover have "tx_events v l (region_log w @ [e] @ outside) outcome body" using t log2 by simp
          moreover have "if outcome_closed outcome \<and> ro_flush opts
              then heard v (rw_script w3) (rw_script w4) (region_log w @ [e] @ outside @ body) flushed
              else rw_script w4 = rw_script w3 \<and> flushed = []"
            using f log3 by (auto simp: waits_def)
          moreover have "\<forall>r. outcome = TxCommitted r \<longrightarrow> cr_id r = cl_id l \<and> cr_startSeq r = ev_seq e
              \<and> cr_start r = a \<and> cr_end r = b
              \<and> (\<exists>st pre post. surf (region_log w) st \<and> nodes st = pre @ cr_seqs r @ post)"
            using r e(3) at by auto
          moreover have "ev_seq e = length (region_log w)" using e(2,3) by simp
          ultimately show ?thesis
            unfolding compaction_log_def using e(4) free owner by blast
        qed
        show ?case by (rule wp_mono [OF wp_ending [OF assms(1) ok3]]) (use cl in auto)
      qed simp_all
    next
      case (2 x w2)
      then show ?case using log1 by (auto simp: quiet_def)
    qed simp_all
  qed
  have rest: "wp (?rest sel) ?Q ?E ?W ?F w1"
    if q: "quiet v w w1" and sel: "valid_region (region_log w) sel" "sl_start sel = a" "sl_end sel = b" for sel w1
    using opened [OF that] q
    by (auto simp: quiet_def Let_def assertCompactionInactive_def simp del: wp_bnd simp: wp_bnd [of "read_state _"]
        wp_bnd [of "ret _"] wp_bnd [of "throw _"])
  have "wp (bnd (validateSurfaceRegion v a b) ?rest) ?Q ?E ?W ?F w"
    unfolding wp_bnd [of "validateSurfaceRegion v a b"]
    by (rule reads_use [OF reads_validate [OF assms(1), where P = "\<lambda>_. True"] assms(2)])
      (use rest in \<open>auto simp: quiet_def\<close>)
  then show ?thesis
    unfolding compactSurfaceRegion_def by (cases "ro_manual opts") auto
qed

end
