(* ===== verification/CompactRuns.thy ===== *)
theory CompactRuns imports CompactCorrect begin

text \<open>
  What a caller of compactSurfaceRegion can rely on: the log a compaction that returns leaves
  behind, the log one that throws leaves behind, and a compaction of a two-event session run to
  its end.
\<close>

section \<open>Properties\<close>

text \<open>
  C2. A compaction that returns has replaced exactly the range it was asked for: its start stands
  where the session was free, the replaced nodes are a stretch of the surface it was entered with
  and still are when they are replaced, whatever other code appended in the one wait in between;
  they sit between two cuts no tool call crosses, the checkpoint that takes their place is
  estimated strictly cheaper, the summary directly before it states their exact price, and no tool
  result is left without its call.
\<close>

theorem compaction_replaces_range:
  assumes "env_ok v" and "region_ok v w" and "compactSurfaceRegion v c opts a b w = Done r w'"
  shows "\<exists>l startE outside body flushed S entry pre post.
    region_log w' = region_log w @ [startE] @ outside @ body @ flushed
    \<and> ev_data startE = Plugin (CompactStart l) \<and> ev_seq startE = cr_startSeq r \<and> cl_id l = cr_id r
    \<and> compaction_inactive (inspectCompactionEntryState (region_log w))
    \<and> cr_start r = a \<and> cr_end r = b
    \<and> surf (region_log w) entry \<and> nodes entry = pre @ cr_seqs r @ post
    \<and> heard v (rw_script w) S (region_log w @ [startE]) outside
    \<and> commits (rg_meter v) l (region_log w @ [startE] @ outside) r body
    \<and> (if ro_flush opts then heard v S (rw_script w') (region_log w @ [startE] @ outside @ body) flushed
       else rw_script w' = S \<and> flushed = [])"
proof -
  have "compaction_log v opts a b (rw_script w) (rw_script w') (region_log w) (TxCommitted r) (region_log w')"
    using wp_Done [OF wp_compact [OF assms(1,2)] assms(3)] .
  then show ?thesis
    unfolding compaction_log_def by (fastforce simp: tx_events_def outcome_closed_def)
qed

text \<open>
  C4. A compaction that throws has either appended nothing, or it opened a bracket in a free session
  and ran its transaction to an outcome that determines the error thrown, an abort of a manual call
  apart. After the bracket's start the log holds what others appended in the one wait, then the
  transaction's own events, and nothing else but what others appended during a flush: the replaced
  range; or, for a failure, one end with the text of its error, no surface node moved; or no end,
  because the session refused exactly that append.
\<close>

theorem compaction_failure_closes:
  assumes "env_ok v" and "region_ok v w" and "compactSurfaceRegion v c opts a b w = Thrown x w'"
  shows "region_log w' = region_log w
    \<or> (\<exists>outcome l startE outside body flushed S.
        thrown_for opts (rw_aborted w') outcome x
        \<and> region_log w' = region_log w @ [startE] @ outside @ body @ flushed
        \<and> ev_data startE = Plugin (CompactStart l)
        \<and> compaction_inactive (inspectCompactionEntryState (region_log w))
        \<and> heard v (rw_script w) S (region_log w @ [startE]) outside
        \<and> tx_events v l (region_log w @ [startE] @ outside) outcome body
        \<and> (if outcome_closed outcome \<and> ro_flush opts
           then heard v S (rw_script w') (region_log w @ [startE] @ outside @ body) flushed
           else rw_script w' = S \<and> flushed = []))"
  using wp_Thrown [OF wp_compact [OF assms(1,2)] assms(3)]
  unfolding compaction_log_def by blast

definition sample_region_env :: "unit region_env" where
  "sample_region_env = \<lparr>rg_same = (=), rg_meter = sample_env\<lparr>me_blockJson := \<lambda>_. 480\<rparr>, rg_now = int,
     rg_accepts = \<lambda>_. True, rg_compactionId = \<lambda>_. ''c1'', rg_messageId = \<lambda>_. ''m9'',
     rg_instruction = ''Summarize.'', rg_errorText = \<lambda>_. ''failed'', rg_agentTarget = (Some ''p'', Some ''m'')\<rparr>"

definition sample_region_seed :: "unit compact_payload event list" where
  "sample_region_seed =
     [\<lparr>ev_data = TurnStart 1, ev_seq = 0, ev_time = 0, ev_ignorable = False, ev_surfaceOp = None, ev_sources = None\<rparr>,
      \<lparr>ev_data = UserMessage \<lparr>msg_id = ''u1'', msg_role = RoleUser, msg_content = [PluginBlock ''table'' JNull],
         msg_source = UserSource\<rparr>, ev_seq = 1, ev_time = 0, ev_ignorable = False,
       ev_surfaceOp = Some (JStr ''append''), ev_sources = None\<rparr>]"

definition sample_region_session :: "unit compact_payload session" where
  "sample_region_session =
     (case newSession (=) 0 (Some sample_region_seed) of Inr s \<Rightarrow> s | Inl _ \<Rightarrow> emptySession)"

definition sample_region_world :: "string option \<Rightarrow> unit region_world" where
  "sample_region_world err = \<lparr>rw_session = sample_region_session, rw_meter = newMeter, rw_balance = None,
     rw_aborted = False, rw_byAgent = False, rw_asked = [],
     rw_script = [\<lparr>rt_outside = [], rt_aborted = False, rt_chunks = [ChTextDelta 0 ''done''], rt_error = err, rt_context = None, rt_byAgent = False\<rparr>]\<rparr>"

definition sample_summary_config :: summary_policy where
  "sample_summary_config = (\<lambda>_. \<lparr>sg_provider = [], sg_model = [], sg_maxTokens = 8192\<rparr>)"

definition sample_options :: region_options where
  "sample_options = \<lparr>ro_manual = False, ro_wholeSurface = True, ro_flush = False, ro_command = None\<rparr>"

lemma sample_env_ok: "env_ok sample_region_env"
  by (simp add: env_ok_def sample_region_env_def)

lemma sample_region_ok: "region_ok sample_region_env (sample_region_world err)"
proof -
  have "session_inv sample_region_session"
  proof (cases "newSession (=) 0 (Some sample_region_seed)")
    case (Inl x)
    then show ?thesis by (simp add: sample_region_session_def emptySession_inv)
  next
    case (Inr s)
    then show ?thesis using newSession_inv(1) [OF _ Inr] by (simp add: sample_region_session_def)
  qed
  then show ?thesis
    using newMeter_inv by (simp add: region_ok_def sample_region_world_def region_log_def pairing_inv_def)
qed

lemma sample_compaction_returns:
  "(case compactSurfaceRegion sample_region_env sample_summary_config sample_options 1 1 (sample_region_world None) of
      Done r w' \<Rightarrow> cr_seqs r = [1] \<and> length (region_log w') = 7 | _ \<Rightarrow> False)"
  by code_simp

lemma sample_compaction_throws:
  "(case compactSurfaceRegion sample_region_env sample_summary_config sample_options 1 1
      (sample_region_world (Some ''reset'')) of
      Thrown x w' \<Rightarrow> x = StreamFailed ''reset'' \<and> length (region_log w') = 5 | _ \<Rightarrow> False)"
  by code_simp

lemma sample_world_log: "length (region_log (sample_region_world err)) = 3"
  by (simp add: sample_region_world_def region_log_def) code_simp

theorem compaction_replaces_range_witness:
  "\<exists>r w' l (evs :: unit compact_payload event list) body. compactSurfaceRegion sample_region_env sample_summary_config sample_options 1 1
       (sample_region_world None) = Done r w'
     \<and> cr_start r = 1 \<and> cr_seqs r = [1] \<and> commits (rg_meter sample_region_env) l evs r body"
proof -
  obtain r w' where run: "compactSurfaceRegion sample_region_env sample_summary_config sample_options 1 1
      (sample_region_world None) = Done r w'" "cr_seqs r = [1]"
    using sample_compaction_returns by (auto split: run.splits)
  from compaction_replaces_range [OF sample_env_ok sample_region_ok run(1)] obtain
      l and evs :: "unit compact_payload event list" and body where
    "cr_start r = 1" "commits (rg_meter sample_region_env) l evs r body" by blast
  with run show ?thesis by (intro exI [of _ r] exI [of _ w'] exI [of _ l] exI [of _ evs] exI [of _ body]) simp
qed

theorem compaction_failure_closes_witness:
  "\<exists>x w' stage closed l evs body. compactSurfaceRegion sample_region_env sample_summary_config sample_options 1 1
       (sample_region_world (Some ''reset'')) = Thrown x w'
     \<and> x = StreamFailed ''reset'' \<and> length (region_log w') = 5
     \<and> tx_events sample_region_env l evs (TxFailed x stage closed) body"
proof -
  obtain x w' where run: "compactSurfaceRegion sample_region_env sample_summary_config sample_options 1 1
      (sample_region_world (Some ''reset'')) = Thrown x w'" "x = StreamFailed ''reset''" "length (region_log w') = 5"
    using sample_compaction_throws by (auto split: run.splits)
  then have "region_log w' \<noteq> region_log (sample_region_world (Some ''reset''))"
    using sample_world_log [of "Some ''reset''"] by auto
  with compaction_failure_closes [OF sample_env_ok sample_region_ok run(1)] obtain outcome l evs body where
    t: "thrown_for sample_options (rw_aborted w') outcome x" "tx_events sample_region_env l evs outcome body" by blast
  from t(1) obtain stage closed where "outcome = TxFailed x stage closed"
    by (cases outcome) (auto simp: thrown_for_def sample_options_def)
  with run t(2) show ?thesis
    by (intro exI [of _ x] exI [of _ w'] exI [of _ stage] exI [of _ closed] exI [of _ l] exI [of _ evs] exI [of _ body]) simp
qed

end
