(* ===== verification/ToolPruner.thy ===== *)
theory ToolPruner imports CompactCorrect begin

text \<open>
  packages/compaction/compaction-tool-result-pruner/src/index.ts: the pass that replaces each
  over-budget tool result of the current surface by its pruned copy, each replacement directly
  after the event that states the price of what it shadows; and the accounting that both the
  pruner and the compaction keep: a log whose every replacement is priced stays such a log.
\<close>

section \<open>The pass\<close>

record pruned_entry =
  pe_original :: nat
  pe_replacement :: nat
  pe_call :: "string option"
  pe_before :: nat
  pe_after :: nat

record prune_result =
  pr_pruned :: "pruned_entry list"
  pr_removed :: nat

definition prune_candidates :: "'p event list \<Rightarrow> nat list \<Rightarrow> (nat \<times> tool_result) list" where
  "prune_candidates evs ns =
     List.map_filter (\<lambda>n. if n < length evs then (case ev_data (evs ! n) of ToolResult r \<Rightarrow> Some (n, r) | _ \<Rightarrow> None)
       else None) ns"

definition with_content :: "tool_result \<Rightarrow> content_block list \<Rightarrow> tool_result" where
  "with_content r bs = r\<lparr>tr_message := (tr_message r)\<lparr>msg_content := bs\<rparr>\<rparr>"

definition prune_price :: "meter_env \<Rightarrow> nat \<Rightarrow> tool_result \<Rightarrow> compact_price" where
  "prune_price v n r = \<lparr>cp_start = n, cp_end = n, cp_seqs = [n], cp_tokens = of_nat (estimateMessage v (tr_message r))\<rparr>"

fun prune_all ::
  "'q region_env \<Rightarrow> prune_config \<Rightarrow> (nat \<times> tool_result) list \<Rightarrow> prune_result \<Rightarrow> ('q, prune_result) region_prog" where
  "prune_all v c [] acc = ret acc"
| "prune_all v c ((n, r) # cands) acc =
     (case msg_content (tr_message r) of
        ToolResultBlock call bs err # _ \<Rightarrow>
          (case pruneContent c bs of
             Inl x \<Rightarrow> throw (PruneFailed x)
           | Inr None \<Rightarrow> prune_all v c cands acc
           | Inr (Some content) \<Rightarrow>
               bnd (append_region v (Plugin (CompactPrune (prune_price (rg_meter v) n r))) None None) (\<lambda>_.
               bnd (append_region v (ToolResult (with_content r [ToolResultBlock call content err]))
                      (Some (replace_op n n)) (Some (source_list [n]))) (\<lambda>replacement.
                 prune_all v c cands
                   \<lparr>pr_pruned = pr_pruned acc @ [\<lparr>pe_original = n, pe_replacement = replacement,
                      pe_call = source_call_id (msg_source (tr_message r)),
                      pe_before = measureContent bs, pe_after = measureContent content\<rparr>],
                    pr_removed = pr_removed acc + (measureContent bs - measureContent content)\<rparr>)))
      | _ \<Rightarrow> throw ToolResultMalformed)"

definition pruneSession :: "'q region_env \<Rightarrow> prune_config \<Rightarrow> ('q, prune_result) region_prog" where
  "pruneSession v c =
     bnd (read_surface v) (\<lambda>st. bnd (read_state region_log) (\<lambda>evs.
       prune_all v c (prune_candidates evs (nodes st)) \<lparr>pr_pruned = [], pr_removed = 0\<rparr>))"

section \<open>Replacing one node\<close>

lemma surf_replace_one:
  assumes "surf evs st" and "nodes st = pre @ [n] @ post" and "surf (evs @ [e]) st'"
    and "ev_data e = ToolResult r" and "ev_surfaceOp e = Some (replace_op n n)"
  shows "nodes st' = pre @ [length evs] @ post"
proof -
  obtain reps reps' where fw: "fold_window 0 evs = Inr (st, reps, length evs)"
    "fold_window 0 (evs @ [e]) = Inr (st', reps', length (evs @ [e]))"
    using assms(1,3) by (auto simp: surf_def)
  have surface: "isSurfaceEvent e" "\<not> appends e" "op_start e = n" "op_end e = n"
    using assms(4,5) by (simp_all add: isSurfaceEvent_def op_start_def op_end_def replace_op_def seq_of_def)
  have at: "index_of n (nodes st) = Some (length pre)"
    using surf_nth_index [OF assms(1), of "length pre"] assms(2) by simp
  from fw show ?thesis
  proof (cases rule: surface_step_cases)
    case (replace i j)
    then show ?thesis using at surface assms(2) by (simp add: splice_def)
  qed (use surface in simp_all)
qed

section \<open>Priced logs\<close>

definition well_priced :: "meter_env \<Rightarrow> 'q compact_payload event list \<Rightarrow> bool" where
  "well_priced v evs \<longleftrightarrow> (\<exists>st reps. fold_window 0 evs = Inr (st, reps, length evs) \<and> metered v evs reps)"

lemma fold_reps_less:
  "fold_window 0 evs = Inr (st, reps, n) \<Longrightarrow>
   \<forall>r \<in> set reps. rp_seq r < length evs \<and> (\<forall>n \<in> set (rp_shadowed r). n < length evs)"
  using fold_window_hist
  by (fastforce simp: surface_hist_def replacement_sound_def shadowed_seqs_def dest: hist_seq_less)

lemma metered_extend:
  assumes "fold_window 0 pre = Inr (st, reps, k)" and "metered v pre reps"
  shows "metered v (pre @ later) reps"
  unfolding metered_def
proof
  fix r assume r: "r \<in> set reps"
  have less: "rp_seq r < length pre" "\<forall>n \<in> set (rp_shadowed r). n < length pre"
    using fold_reps_less [OF assms(1)] r by auto
  have "(\<Sum>n \<leftarrow> rp_shadowed r. event_price v ((pre @ later) ! n)) = (\<Sum>n \<leftarrow> rp_shadowed r. event_price v (pre ! n))"
    using less(2) by (auto simp: nth_append intro!: arg_cong [of _ _ sum_list])
  moreover have "(pre @ later) ! (rp_seq r - 1) = pre ! (rp_seq r - 1)" using less(1) by (simp add: nth_append)
  ultimately show "0 < rp_seq r \<and> (\<exists>p. price_of (ev_data ((pre @ later) ! (rp_seq r - 1))) = Some p
      \<and> cp_start p = rp_start r \<and> cp_end p = rp_end r
      \<and> cp_tokens p = of_nat (\<Sum>n \<leftarrow> rp_shadowed r. event_price v ((pre @ later) ! n)))"
    using assms(2) r by (simp add: metered_def)
qed

text \<open>An event that is no replacement keeps a log priced.\<close>

lemma well_priced_other:
  assumes "well_priced v evs" and "surf (evs @ [e]) st'" and "isSurfaceEvent e \<Longrightarrow> appends e"
  shows "well_priced v (evs @ [e])"
proof -
  obtain st reps where fw: "fold_window 0 evs = Inr (st, reps, length evs)" and met: "metered v evs reps"
    using assms(1) by (auto simp: well_priced_def)
  obtain reps' where fw': "fold_window 0 (evs @ [e]) = Inr (st', reps', length (evs @ [e]))"
    using assms(2) by (auto simp: surf_def)
  from fw fw' have "reps' = reps" by (cases rule: surface_step_cases) (use assms(3) in auto)
  with fw fw' metered_extend [OF fw met, of "[e]"] show ?thesis by (auto simp: well_priced_def)
qed

text \<open>So does a replacement directly after the event with its price.\<close>

lemma well_priced_replaced:
  assumes "well_priced v (evs @ [p])" and "surf (evs @ [p]) st" and "surf (evs @ [p, e]) st'"
    and "price_of (ev_data p) = Some c" and "isSurfaceEvent e" and "\<not> appends e"
    and "op_start e = cp_start c" and "op_end e = cp_end c"
    and "nodes st = pre @ ns @ post" and "ns \<noteq> []" and "hd ns = cp_start c" and "last ns = cp_end c"
    and "cp_tokens c = of_nat (\<Sum>n \<leftarrow> ns. event_price v ((evs @ [p]) ! n))"
  shows "well_priced v (evs @ [p, e])"
proof -
  let ?log = "evs @ [p]"
  obtain reps where fw: "fold_window 0 ?log = Inr (st, reps, length ?log)" and met: "metered v ?log reps"
    using assms(1,2) by (auto simp: well_priced_def surf_def)
  obtain reps' where fw': "fold_window 0 (?log @ [e]) = Inr (st', reps', length (?log @ [e]))"
    using assms(3) by (auto simp: surf_def)
  have at: "index_of (cp_start c) (nodes st) = Some (length pre)"
    "index_of (cp_end c) (nodes st) = Some (length pre + length ns - 1)"
  proof -
    have "nodes st ! length pre = hd ns" using assms(9,10) by (cases ns) simp_all
    moreover have "nodes st ! (length pre + length ns - 1) = last ns"
      using assms(9,10) nth_append_length_plus [of pre "ns @ post" "length ns - 1"]
      by (cases ns) (simp_all add: last_conv_nth nth_append)
    moreover have "length pre < length (nodes st)" "length pre + length ns - 1 < length (nodes st)"
      using assms(9,10) by (cases ns; simp)+
    ultimately show "index_of (cp_start c) (nodes st) = Some (length pre)"
      "index_of (cp_end c) (nodes st) = Some (length pre + length ns - 1)"
      using surf_nth_index [OF assms(2)] assms(11,12) by metis+
  qed
  from fw fw' show ?thesis
  proof (cases rule: surface_step_cases)
    case (replace i j)
    then have ij: "i = length pre" "Suc j = length pre + length ns" using at assms(7,8,10) by (cases ns; simp)+
    then have "slice i (Suc j) (nodes st) = ns" using assms(9) by (simp add: slice_def)
    then have reps': "reps' = reps @ [\<lparr>rp_seq = length ?log, rp_start = cp_start c, rp_end = cp_end c, rp_shadowed = ns\<rparr>]"
      using replace(10) assms(7,8) by simp
    have less: "\<forall>n \<in> set ns. n < length ?log" using surf_less [OF assms(2)] assms(9) by auto
    have "metered v (?log @ [e]) reps'"
      unfolding reps' metered_def
    proof
      fix r assume "r \<in> set (reps @ [\<lparr>rp_seq = length ?log, rp_start = cp_start c, rp_end = cp_end c, rp_shadowed = ns\<rparr>])"
      then consider "r \<in> set reps" | "r = \<lparr>rp_seq = length ?log, rp_start = cp_start c, rp_end = cp_end c, rp_shadowed = ns\<rparr>"
        by auto
      then show "0 < rp_seq r \<and> (\<exists>p'. price_of (ev_data ((?log @ [e]) ! (rp_seq r - 1))) = Some p'
          \<and> cp_start p' = rp_start r \<and> cp_end p' = rp_end r
          \<and> cp_tokens p' = of_nat (\<Sum>n \<leftarrow> rp_shadowed r. event_price v ((?log @ [e]) ! n)))"
      proof cases
        case 1
        then show ?thesis using metered_extend [OF fw met, of "[e]"] unfolding metered_def by blast
      next
        case 2
        have "(?log @ [e]) ! n = ?log ! n" if "n \<in> set ns" for n
          using less that nth_append [of ?log "[e]" n] by simp
        then have "(\<Sum>n \<leftarrow> ns. event_price v ((?log @ [e]) ! n)) = (\<Sum>n \<leftarrow> ns. event_price v (?log ! n))"
          by (intro arg_cong [of _ _ sum_list] map_cong) simp_all
        then show ?thesis using 2 assms(4,13) by (simp add: nth_append)
      qed
    qed
    then show ?thesis using fw' by (auto simp: well_priced_def)
  qed (use assms(5,6) in simp_all)
qed

section \<open>What the pass does\<close>

definition prune_of :: "prune_config \<Rightarrow> 'p event list \<Rightarrow> nat \<Rightarrow> nat \<Rightarrow> bool" where
  "prune_of c evs n n' \<longleftrightarrow>
     (case ev_data (evs ! n) of
        ToolResult r \<Rightarrow>
          (case msg_content (tr_message r) of
             ToolResultBlock call bs err # _ \<Rightarrow>
               (case pruneContent c bs of
                  Inl _ \<Rightarrow> False
                | Inr None \<Rightarrow> n' = n
                | Inr (Some out) \<Rightarrow> n' \<noteq> n \<and> ev_data (evs ! n') = ToolResult (with_content r [ToolResultBlock call out err]))
           | _ \<Rightarrow> False)
      | _ \<Rightarrow> n' = n)"

lemma prune_of_later:
  assumes "n < length evs" and "n' < length evs"
  shows "prune_of c (evs @ later) n n' = prune_of c evs n n'"
proof -
  have "(evs @ later) ! n = evs ! n" "(evs @ later) ! n' = evs ! n'"
    using assms by (simp_all add: nth_append)
  then show ?thesis by (simp only: prune_of_def)
qed

lemma candidates_Cons:
  "n < length evs \<Longrightarrow> prune_candidates evs (n # ns) =
     (case ev_data (evs ! n) of ToolResult r \<Rightarrow> (n, r) # prune_candidates evs ns | _ \<Rightarrow> prune_candidates evs ns)"
  by (auto simp: prune_candidates_def map_filter_simps split: event_data.split)

definition entry_pairs :: "pruned_entry list \<Rightarrow> (nat \<times> nat) list" where
  "entry_pairs = map (\<lambda>x. (pe_original x, pe_replacement x))"

definition prune_post ::
  "'q region_env \<Rightarrow> prune_config \<Rightarrow> 'q region_world \<Rightarrow> nat list \<Rightarrow> nat list \<Rightarrow> prune_result
   \<Rightarrow> prune_result \<Rightarrow> 'q region_world \<Rightarrow> bool" where
  "prune_post v c w pre rest acc r w' \<longleftrightarrow>
     (\<exists>later st' rest'. grows v w later w' \<and> surf (region_log w') st' \<and> nodes st' = pre @ rest'
        \<and> list_all2 (prune_of c (region_log w')) rest rest'
        \<and> (well_priced (rg_meter v) (region_log w) \<longrightarrow> well_priced (rg_meter v) (region_log w'))
        \<and> entry_pairs (pr_pruned r) = entry_pairs (pr_pruned acc) @ filter (\<lambda>(n, n'). n \<noteq> n') (zip rest rest')
        \<and> length later + 2 * length (pr_pruned acc) = 2 * length (pr_pruned r))"

lemma wp_prune_one:
  assumes "env_ok v" and "region_ok v w" and "surf (region_log w) st" and "nodes st = pre @ [n] @ rest"
    and "ev_data (region_log w ! n) = ToolResult r"
  shows "wp (append_region v (Plugin (CompactPrune (prune_price (rg_meter v) n r))) None None)
    (\<lambda>_. wp (append_region v (ToolResult r') (Some (replace_op n n)) src)
      (\<lambda>m w'. \<exists>later st'. grows v w later w' \<and> surf (region_log w') st' \<and> nodes st' = pre @ [m] @ rest
         \<and> m = Suc (length (region_log w)) \<and> length later = 2 \<and> ev_data (region_log w' ! m) = ToolResult r'
         \<and> (well_priced (rg_meter v) (region_log w) \<longrightarrow> well_priced (rg_meter v) (region_log w')))
      (\<lambda>_ w'. \<exists>later. grows v w later w') (\<lambda>_. False) (\<lambda>_. False))
    (\<lambda>_ w'. \<exists>later. grows v w later w') (\<lambda>_. False) (\<lambda>_. False) w"
proof (rule wp_mono [OF wp_append_region [OF assms(1,2)]], goal_cases)
  case (1 k w1)
  then obtain p where p: "grows v w [p] w1" "ev_data p = Plugin (CompactPrune (prune_price (rg_meter v) n r))" by blast
  have log1: "region_log w1 = region_log w @ [p]" and ok1: "region_ok v w1" using p(1) by (auto simp: grows_def)
  obtain st1 where st1: "surf (region_log w1) st1" using region_surf [OF ok1] by blast
  then have same: "st1 = st" using surf_off [OF assms(3) _ p(2)] log1 by metis
  have n: "n < length (region_log w)" using surf_less [OF assms(3)] assms(4) by simp
  show ?case
  proof (rule wp_mono [OF wp_append_region [OF assms(1) ok1]], goal_cases)
    case (1 m w2)
    then obtain e where e: "grows v w1 [e] w2" "m = length (region_log w1)" "ev_data e = ToolResult r'"
      "ev_surfaceOp e = Some (replace_op n n)" by blast
    have log2: "region_log w2 = region_log w @ [p, e]" and ok2: "region_ok v w2"
      using e(1) log1 by (auto simp: grows_def)
    obtain st2 where st2: "surf (region_log w2) st2" using region_surf [OF ok2] by blast
    have nodes2: "nodes st2 = pre @ [m] @ rest"
      using surf_replace_one [of "region_log w1" st1 pre n rest e st2 r'] st1 st2 same assms(4) e log1 log2 by simp
    have "well_priced (rg_meter v) (region_log w2)" if wpr: "well_priced (rg_meter v) (region_log w)"
    proof -
      have "well_priced (rg_meter v) (region_log w @ [p])"
        using well_priced_other [OF wpr, of p st1] st1 log1 p(2) by (simp add: isSurfaceEvent_def)
      then show ?thesis
        unfolding log2
        by (rule well_priced_replaced [where st = st and st' = st2 and pre = pre and ns = "[n]" and post = rest
              and c = "prune_price (rg_meter v) n r"])
          (use st1 st2 same log1 log2 p(2) e(3,4) assms(4,5) n in
            \<open>simp_all add: prune_price_def isSurfaceEvent_def op_start_def op_end_def replace_op_def seq_of_def
              event_price_def nth_append\<close>)
    qed
    moreover have "grows v w [p, e] w2" using ok2 log2 by (simp add: grows_def)
    ultimately show ?case using st2 nodes2 e(2,3) log1 log2
      by (intro exI [of _ "[p, e]"] exI [of _ st2]) (simp add: nth_append)
  next
    case (2 x w2)
    then show ?case using p(1) by (auto simp: quiet_def grows_def)
  qed simp_all
qed (auto simp: quiet_def grows_def)

lemma grows_length: "grows v w later w' \<Longrightarrow> length (region_log w) \<le> length (region_log w')"
  by (simp add: grows_def)

text \<open>A node that stays is skipped; the rest of the loop continues behind it.\<close>

lemma prune_post_step:
  assumes "prune_post v c w1 (pre @ [m]) rest acc' r w2" and "grows v w later1 w1"
    and "prune_of c (region_log w1) n m" and "n < length (region_log w1)" and "m < length (region_log w1)"
    and "well_priced (rg_meter v) (region_log w) \<Longrightarrow> well_priced (rg_meter v) (region_log w1)"
    and "entry_pairs (pr_pruned acc') = entry_pairs (pr_pruned acc) @ (if n = m then [] else [(n, m)])"
    and "length later1 + 2 * length (pr_pruned acc) = 2 * length (pr_pruned acc')"
  shows "prune_post v c w pre (n # rest) acc r w2"
proof -
  obtain later st' rest' where h: "grows v w1 later w2" "surf (region_log w2) st'" "nodes st' = (pre @ [m]) @ rest'"
    "list_all2 (prune_of c (region_log w2)) rest rest'"
    "well_priced (rg_meter v) (region_log w1) \<longrightarrow> well_priced (rg_meter v) (region_log w2)"
    "entry_pairs (pr_pruned r) = entry_pairs (pr_pruned acc') @ filter (\<lambda>(n, n'). n \<noteq> n') (zip rest rest')"
    "length later + 2 * length (pr_pruned acc') = 2 * length (pr_pruned r)"
    using assms(1) unfolding prune_post_def by blast
  have "prune_of c (region_log w2) n m"
    using h(1) assms(3) prune_of_later [OF assms(4,5), of c later] by (simp add: grows_def)
  moreover have "grows v w (later1 @ later) w2" using region_grows_trans [OF assms(2) h(1)] .
  ultimately show ?thesis
    unfolding prune_post_def
    by (intro exI [of _ "later1 @ later"] exI [of _ st'] exI [of _ "m # rest'"]) (use h assms(6-8) in auto)
qed

lemma wp_prune_all:
  assumes "env_ok v"
  shows "region_ok v w \<Longrightarrow> surf (region_log w) st \<Longrightarrow> nodes st = pre @ rest \<Longrightarrow> region_log w = evs @ more_evs \<Longrightarrow>
    \<forall>n \<in> set rest. n < length evs \<Longrightarrow>
    wp (prune_all v c (prune_candidates evs rest) acc) (prune_post v c w pre rest acc)
      (\<lambda>_ w'. \<exists>later. grows v w later w') (\<lambda>_. False) (\<lambda>_. False) w"
proof (induction rest arbitrary: w st pre more_evs acc)
  case Nil
  then show ?case
    by (auto simp: prune_candidates_def map_filter_simps prune_post_def intro!: exI [of _ "[]"] region_grows_refl)
next
  case (Cons n rest)
  have n: "n < length evs" "region_log w ! n = evs ! n" "n < length (region_log w)"
    using Cons.prems(4,5) by (simp_all add: nth_append)
  have skip: "wp (prune_all v c (prune_candidates evs rest) acc) (prune_post v c w pre (n # rest) acc)
      (\<lambda>_ w'. \<exists>later. grows v w later w') (\<lambda>_. False) (\<lambda>_. False) w"
    if "prune_of c (region_log w) n n"
  proof (rule wp_mono [OF Cons.IH [of w st "pre @ [n]" more_evs acc]], goal_cases)
    case (6 r w')
    then show ?case using prune_post_step [OF 6 region_grows_refl [OF Cons.prems(1)] that n(3,3)] by simp
  qed (use Cons.prems in auto)
  show ?case
  proof (cases "is_tool_result (ev_data (evs ! n))")
    case False
    then have "prune_of c (region_log w) n n" and "prune_candidates evs (n # rest) = prune_candidates evs rest"
      using n by (cases "ev_data (evs ! n)"; simp add: prune_of_def candidates_Cons)+
    then show ?thesis using skip by simp
  next
    case True
    then obtain r where r: "ev_data (evs ! n) = ToolResult r" by (cases "ev_data (evs ! n)") auto
    have cands: "prune_candidates evs (n # rest) = (n, r) # prune_candidates evs rest"
      using r n(1) by (simp add: candidates_Cons)
    show ?thesis
    proof (cases "\<exists>call bs err blocks. msg_content (tr_message r) = ToolResultBlock call bs err # blocks")
      case False
      then show ?thesis
        unfolding cands using Cons.prems(1)
        by (auto split: list.split content_block.split intro: region_grows_refl)
    next
      case True
      then obtain call bs err blocks where content: "msg_content (tr_message r) = ToolResultBlock call bs err # blocks"
        by blast
      consider (fail) x where "pruneContent c bs = Inl x" | (keep) "pruneContent c bs = Inr None"
        | (prune) out where "pruneContent c bs = Inr (Some out)"
        by (cases "pruneContent c bs") (auto intro: that)
      then show ?thesis
      proof cases
        case fail
        then show ?thesis unfolding cands using content Cons.prems(1) by (auto intro: region_grows_refl)
      next
        case keep
        then have "prune_of c (region_log w) n n" using r n content by (simp add: prune_of_def)
        then show ?thesis unfolding cands using skip content keep by simp
      next
        case (prune out)
        let ?r = "with_content r [ToolResultBlock call out err]"
        let ?acc = "\<lambda>m. \<lparr>pr_pruned = pr_pruned acc @ [\<lparr>pe_original = n, pe_replacement = m,
            pe_call = source_call_id (msg_source (tr_message r)), pe_before = measureContent bs,
            pe_after = measureContent out\<rparr>], pr_removed = pr_removed acc + (measureContent bs - measureContent out)\<rparr>"
        have one: "nodes st = pre @ [n] @ rest" "ev_data (region_log w ! n) = ToolResult r"
          using Cons.prems(3) n r by simp_all
        have "wp (append_region v (Plugin (CompactPrune (prune_price (rg_meter v) n r))) None None)
            (\<lambda>_. wp (append_region v (ToolResult ?r) (Some (replace_op n n)) (Some (source_list [n])))
              (\<lambda>m. wp (prune_all v c (prune_candidates evs rest) (?acc m)) (prune_post v c w pre (n # rest) acc)
                (\<lambda>_ w'. \<exists>later. grows v w later w') (\<lambda>_. False) (\<lambda>_. False))
              (\<lambda>_ w'. \<exists>later. grows v w later w') (\<lambda>_. False) (\<lambda>_. False))
            (\<lambda>_ w'. \<exists>later. grows v w later w') (\<lambda>_. False) (\<lambda>_. False) w"
        proof (rule wp_mono [OF wp_prune_one [OF assms Cons.prems(1,2) one, of ?r "Some (source_list [n])"]], goal_cases)
          case (1 k w1)
          then show ?case
          proof (rule wp_mono, goal_cases)
            case (1 m w2)
            then obtain later st2 where s: "grows v w later w2" "surf (region_log w2) st2" "nodes st2 = (pre @ [m]) @ rest"
              "length later = 2"
              "m = Suc (length (region_log w))" "ev_data (region_log w2 ! m) = ToolResult ?r"
              "well_priced (rg_meter v) (region_log w) \<longrightarrow> well_priced (rg_meter v) (region_log w2)" by auto
            have ok2: "region_ok v w2" and log2: "region_log w2 = evs @ more_evs @ later"
              using s(1) Cons.prems(4) by (auto simp: grows_def)
            have m: "m < length (region_log w2)" "n < length (region_log w2)" "n \<noteq> m"
              using surf_less [OF s(2), of m] s(3,5) n(3) grows_length [OF s(1)] by auto
            have at: "prune_of c (region_log w2) n m"
              using s(6) m(3) r n(1) log2 content prune by (auto simp: prune_of_def nth_append)
            show ?case
            proof (rule wp_mono [OF Cons.IH [OF ok2 s(2,3) log2, of "?acc m"]], goal_cases)
              case (2 r2 w3)
              show ?case
                by (rule prune_post_step [OF 2 s(1) at m(2,1)]) (use s(4,7) m(3) in \<open>auto simp: entry_pairs_def\<close>)
            next
              case (3 x w3)
              then show ?case using region_grows_trans [OF s(1)] by blast
            qed (use Cons.prems(5) in auto)
          qed auto
        qed auto
        then show ?thesis unfolding cands using content prune by simp
      qed
    qed
  qed
qed

section \<open>Properties\<close>

lemma pruneSession_post:
  assumes "env_ok v" and "region_ok v w" and "surf (region_log w) st" and "pruneSession v c w = Done r w'"
  shows "prune_post v c w [] (nodes st) \<lparr>pr_pruned = [], pr_removed = 0\<rparr> r w'"
proof -
  let ?acc = "\<lparr>pr_pruned = [], pr_removed = 0\<rparr>"
  have "wp (pruneSession v c) (prune_post v c w [] (nodes st) ?acc) (\<lambda>_ _. True) (\<lambda>_. False) (\<lambda>_. False) w"
    unfolding pruneSession_def wp_bnd [of "read_surface v"]
  proof (rule reads_use [OF reads_surface [OF assms(1), where P = "\<lambda>_. True"] assms(2)])
    fix st1 w1 assume q: "quiet v w w1" and "surf (region_log w) st1"
    then have st: "st1 = st" using surf_unique [OF _ assms(3)] by blast
    have w1: "region_ok v w1" "region_log w1 = region_log w @ []" using q by (auto simp: quiet_def)
    have "\<forall>n \<in> set (nodes st). n < length (region_log w)" using surf_less [OF assms(3)] by blast
    from wp_prune_all [OF assms(1) w1(1) _ _ w1(2) this, of st "[]" c ?acc] assms(3) w1(2)
    have "wp (prune_all v c (prune_candidates (region_log w) (nodes st)) ?acc) (prune_post v c w1 [] (nodes st) ?acc)
        (\<lambda>_ _. True) (\<lambda>_. False) (\<lambda>_. False) w1"
      by (auto elim: wp_mono)
    moreover have same: "prune_post v c w [] (nodes st) ?acc = prune_post v c w1 [] (nodes st) ?acc"
      using w1(2) by (simp add: fun_eq_iff prune_post_def grows_def)
    ultimately show "wp (bnd (read_state region_log) (\<lambda>evs. prune_all v c (prune_candidates evs (nodes st1)) ?acc))
        (prune_post v c w [] (nodes st) ?acc) (\<lambda>_ _. True) (\<lambda>_. False) (\<lambda>_. False) w1"
      using w1(2) st by (simp add: same)
  qed simp_all
  from wp_Done [OF this assms(4)] show ?thesis .
qed

lemma prune_of_delta: "prune_of c evs n n' \<Longrightarrow> eventDelta (ev_data (evs ! n')) = eventDelta (ev_data (evs ! n))"
  by (auto simp: prune_of_def split: event_data.splits list.splits content_block.splits sum.splits option.splits)

lemma in_progress_prune:
  "list_all2 (prune_of c evs) ns ns' \<Longrightarrow> in_progress evs (take i ns') = in_progress evs (take i ns)"
  by (induction ns ns' arbitrary: i rule: list_all2_induct)
    (auto simp: in_progress_def take_Cons prune_of_delta split: nat.split)

text \<open>The tool result at a node is within the threshold.\<close>

definition result_within :: "prune_config \<Rightarrow> 'p event list \<Rightarrow> nat \<Rightarrow> bool" where
  "result_within c evs n \<longleftrightarrow>
     (\<forall>r. ev_data (evs ! n) = ToolResult r \<longrightarrow>
        (\<exists>call bs err rest. msg_content (tr_message r) = ToolResultBlock call bs err # rest
           \<and> length (all_text bs) \<le> pc_threshold c))"

lemma prune_of_within:
  assumes "resolvePruneConfig config = Inr c" and "prune_of c evs n n'"
  shows "result_within c evs n'"
proof (cases "is_tool_result (ev_data (evs ! n))")
  case False
  then show ?thesis
    using assms(2) by (cases "ev_data (evs ! n)") (auto simp: prune_of_def result_within_def)
next
  case True
  then obtain r where r: "ev_data (evs ! n) = ToolResult r" by (cases "ev_data (evs ! n)") auto
  then obtain call bs err rest where content: "msg_content (tr_message r) = ToolResultBlock call bs err # rest"
    using assms(2) by (auto simp: prune_of_def split: list.splits content_block.splits)
  show ?thesis
  proof (cases "length (all_text bs) \<le> pc_threshold c")
    case True
    then have "pruneContent c bs = Inr None" by (simp add: pruneContent_def Let_def measure_text)
    then show ?thesis
      using assms(2) r content True by (auto simp: prune_of_def result_within_def)
  next
    case False
    with prune_shortens [OF assms(1), of bs] obtain out where
      "pruneContent c bs = Inr (Some out)" "length (all_text out) \<le> pc_threshold c" by auto
    then show ?thesis
      using assms(2) r content by (auto simp: prune_of_def result_within_def with_content_def)
  qed
qed

text \<open>
  C20. A pruning pass that returns has replaced, on the surface it started from, exactly the tool
  results that were over the budget, each at its own position by a copy whose text is within the
  budget; it reports exactly these replacements, appends nothing else than a price and a result for
  each, leaves the number of open calls at every cut of the surface as it was, and keeps a log in
  which every replacement is priced by the event before it.
\<close>

theorem pruning_replaces_results:
  assumes "env_ok v" and "region_ok v w" and "surf (region_log w) st"
    and "resolvePruneConfig config = Inr c" and "pruneSession v c w = Done r w'"
  shows "\<exists>later st'. region_log w' = region_log w @ later \<and> surf (region_log w') st'
    \<and> list_all2 (prune_of c (region_log w')) (nodes st) (nodes st')
    \<and> (\<forall>n \<in> set (nodes st'). result_within c (region_log w') n)
    \<and> entry_pairs (pr_pruned r) = filter (\<lambda>(n, n'). n \<noteq> n') (zip (nodes st) (nodes st'))
    \<and> length later = 2 * length (pr_pruned r)
    \<and> (\<forall>i. in_progress (region_log w') (take i (nodes st')) = in_progress (region_log w') (take i (nodes st)))
    \<and> (well_priced (rg_meter v) (region_log w) \<longrightarrow> well_priced (rg_meter v) (region_log w'))"
proof -
  obtain later st' where h: "grows v w later w'" "surf (region_log w') st'"
    "list_all2 (prune_of c (region_log w')) (nodes st) (nodes st')"
    "well_priced (rg_meter v) (region_log w) \<longrightarrow> well_priced (rg_meter v) (region_log w')"
    "entry_pairs (pr_pruned r) = filter (\<lambda>(n, n'). n \<noteq> n') (zip (nodes st) (nodes st'))"
    "length later = 2 * length (pr_pruned r)"
    using pruneSession_post [OF assms(1-3,5)] unfolding prune_post_def by (auto simp: entry_pairs_def)
  have "\<forall>n \<in> set (nodes st'). result_within c (region_log w') n"
    using h(3) prune_of_within [OF assms(4)]
    by (metis in_set_conv_nth list_all2_conv_all_nth)
  then show ?thesis
    using h in_progress_prune [OF h(3)] by (intro exI [of _ later] exI [of _ st']) (simp add: grows_def)
qed

definition sample_prune_env :: "unit region_env" where
  "sample_prune_env = \<lparr>rg_same = (=), rg_meter = sample_env, rg_now = int, rg_accepts = \<lambda>_. True,
     rg_compactionId = \<lambda>_. ''c1'', rg_messageId = \<lambda>_. ''m9'', rg_instruction = [], rg_errorText = \<lambda>_. [],
     rg_agentTarget = (None, None)\<rparr>"

definition sample_result :: tool_result where
  "sample_result = \<lparr>tr_turn = 1, tr_step = 1,
     tr_message = \<lparr>msg_id = ''t1'', msg_role = RoleUser,
       msg_content = [ToolResultBlock ''call'' [TextBlock ''one line of the output of a tool and a second line''] None],
       msg_source = ToolSource ''call''\<rparr>, tr_error = None, tr_meta = None\<rparr>"

definition sample_prune_world :: "unit region_world" where
  "sample_prune_world = \<lparr>rw_session = (case newSession (=) 0 (Some
       [\<lparr>ev_data = ToolResult sample_result, ev_seq = 0, ev_time = 0, ev_ignorable = False,
         ev_surfaceOp = Some (JStr ''append''), ev_sources = None\<rparr>]) of Inr s \<Rightarrow> s | Inl _ \<Rightarrow> emptySession),
     rw_meter = newMeter, rw_balance = None, rw_aborted = False, rw_byAgent = False, rw_asked = [], rw_script = []\<rparr>"

lemma sample_prune_ok: "env_ok sample_prune_env" "region_ok sample_prune_env sample_prune_world"
proof -
  let ?seed = "Some [\<lparr>ev_data = ToolResult sample_result, ev_seq = 0, ev_time = 0, ev_ignorable = False,
      ev_surfaceOp = Some (JStr ''append''), ev_sources = None\<rparr>] :: unit compact_payload event list option"
  have "session_inv (case newSession (=) 0 ?seed of Inr s \<Rightarrow> s | Inl _ \<Rightarrow> emptySession)"
    by (cases "newSession (=) 0 ?seed") (auto simp: emptySession_inv intro: newSession_inv(1))
  then show "region_ok sample_prune_env sample_prune_world"
    using newMeter_inv by (simp add: region_ok_def sample_prune_world_def region_log_def pairing_inv_def)
qed (simp add: env_ok_def sample_prune_env_def)

definition sample_prune_config :: prune_config where
  "sample_prune_config = \<lparr>pc_threshold = 42, pc_head = 2, pc_tail = 1\<rparr>"

lemma sample_prune_runs:
  "(case pruneSession sample_prune_env sample_prune_config sample_prune_world of
      Done r w' \<Rightarrow> map pe_original (pr_pruned r) = [0] \<and> length (region_log w') = 4 | _ \<Rightarrow> False)"
  by code_simp

theorem pruning_replaces_results_witness:
  "\<exists>r w' n st'. pruneSession sample_prune_env sample_prune_config sample_prune_world = Done r w'
    \<and> surf (region_log w') st' \<and> nodes st' = [n] \<and> n \<noteq> 0 \<and> result_within sample_prune_config (region_log w') n"
proof -
  obtain r w' where run: "pruneSession sample_prune_env sample_prune_config sample_prune_world = Done r w'"
    "map pe_original (pr_pruned r) = [0]"
    using sample_prune_runs by (auto split: run.splits)
  have surf: "surf (region_log sample_prune_world) \<lparr>nodes = [0], replaceGeneration = 0\<rparr>"
    unfolding surf_def by (rule exI [of _ "[]"]) code_simp
  have config: "resolvePruneConfig (JObj [(''thresholdChars'', JInt 42), (''headChars'', JInt 2), (''tailChars'', JInt 1)])
      = Inr sample_prune_config"
    by (simp add: sample_prune_config_def resolvePruneConfig_def prune_keys_def number_or_def nat_value_def JInt_def
        PRUNE_MARKER_def Let_def guard_def rbind_def)
  from pruning_replaces_results [OF sample_prune_ok surf config run(1)] obtain st' where
    h: "surf (region_log w') st'" "list_all2 (prune_of sample_prune_config (region_log w')) [0] (nodes st')"
      "\<forall>n \<in> set (nodes st'). result_within sample_prune_config (region_log w') n"
      "entry_pairs (pr_pruned r) = filter (\<lambda>(n, n'). n \<noteq> n') (zip [0] (nodes st'))" by auto
  then obtain n where n: "nodes st' = [n]" by (auto simp: list_all2_Cons1)
  with h(4) run(2) have "n \<noteq> 0" by (auto simp: entry_pairs_def split: if_splits)
  with h n run(1) show ?thesis by auto
qed

section \<open>Compactions keep a log priced\<close>

lemma commits_priced:
  assumes "commits v l evs r body" and "well_priced v evs"
  shows "well_priced v (evs @ body)"
proof -
  obtain sumE ck endE y m st st' pre post where c: "body = [sumE, ck, endE]"
    "ev_data sumE = Plugin (CompactSummary y)"
    "cs_price y = \<lparr>cp_start = cr_start r, cp_end = cr_end r, cp_seqs = cr_seqs r, cp_tokens = of_nat (cr_tokens r)\<rparr>"
    "checkpoint_of l ck m" "ev_surfaceOp ck = Some (replace_op (cr_start r) (cr_end r))"
    "ev_data endE = Plugin (CompactEnd l None)"
    "cr_seqs r \<noteq> []" "hd (cr_seqs r) = cr_start r" "last (cr_seqs r) = cr_end r"
    "cr_tokens r = (\<Sum>n \<leftarrow> cr_seqs r. event_price v (evs ! n))"
    "surf evs st" "nodes st = pre @ cr_seqs r @ post" "surf (evs @ body) st'"
    using assms(1) unfolding commits_def by blast
  have ck: "isSurfaceEvent ck" "\<not> appends ck" "op_start ck = cr_start r" "op_end ck = cr_end r"
    using c(4,5) by (auto simp: checkpoint_of_def isSurfaceEvent_def op_start_def op_end_def replace_op_def seq_of_def)
  obtain st2 where st2: "surf (evs @ [sumE, ck]) st2"
    using surf_prefix [of "evs @ [sumE, ck]" "[endE]" st'] c(1,13) by auto
  obtain st1 where st1: "surf (evs @ [sumE]) st1"
    using surf_prefix [of "evs @ [sumE]" "[ck]" st2] st2 by auto
  have same: "st1 = st" using surf_off [OF c(11) st1 c(2)] .
  have p1: "well_priced v (evs @ [sumE])"
    by (rule well_priced_other [OF assms(2) st1]) (simp add: c(2) isSurfaceEvent_def)
  have "\<forall>n \<in> set (cr_seqs r). n < length evs" using surf_less [OF c(11)] c(12) by auto
  then have "(\<Sum>n \<leftarrow> cr_seqs r. event_price v ((evs @ [sumE]) ! n)) = cr_tokens r"
    unfolding c(10) by (auto simp: nth_append intro!: arg_cong [of _ _ sum_list])
  then have "well_priced v (evs @ [sumE, ck])"
    by (intro well_priced_replaced [where c = "cs_price y" and pre = pre and ns = "cr_seqs r" and post = post,
          OF p1 st1 st2]) (simp_all add: c(2,3,7-9,12) ck same)
  then have "well_priced v ((evs @ [sumE, ck]) @ [endE])"
    by (rule well_priced_other) (use c(1,13) in \<open>simp, simp add: c(6) isSurfaceEvent_def\<close>)
  then show ?thesis by (simp add: c(1))
qed

end
