(* ===== verification/CompactEngine.thy ===== *)
theory CompactEngine imports ToolPruner begin

text \<open>
  packages/compaction/compaction-basic/src/index.ts: the engine that decides when to compact. It
  measures the session at every step, recovers a request the provider refused as too long, and
  compacts an idle session on demand. A failure of automatic compaction never fails the turn. The
  engine's maps from agents are those of one agent and its session; the tick of
  \<open>resolveModelInfo\<close> answers the model's context window or an error.
\<close>

section \<open>Automatic compaction\<close>

datatype compaction_trigger = Pressure | ContextOverflow

definition policy_summary_config :: "policy_fields \<Rightarrow> summary_config" where
  "policy_summary_config f =
     \<lparr>sg_provider = pf_summarizationProvider f, sg_model = pf_summarizationModel f,
      sg_maxTokens = of_nat (pf_maxTokens f)\<rparr>"

definition engine_summary_policy :: "resolved_config \<Rightarrow> summary_policy" where
  "engine_summary_policy c target =
     policy_summary_config (case target of
        None \<Rightarrow> rv_fields c
      | Some t \<Rightarrow> tp_fields (resolveTargetPolicy c t))"

definition compactRegion ::
  "'q region_env \<Rightarrow> resolved_config \<Rightarrow> nat \<Rightarrow> nat \<Rightarrow> ('q, compaction_result) region_prog" where
  "compactRegion v c a b =
     compactSurfaceRegion v (engine_summary_policy c)
       \<lparr>ro_manual = False, ro_wholeSurface = True, ro_flush = False, ro_command = None\<rparr> a b"

definition prune_first ::
  "'q region_env \<Rightarrow> prune_config option \<Rightarrow> token_measurement \<Rightarrow> ('q, token_measurement) region_prog" where
  "prune_first v pruner m =
     (case pruner of
        None \<Rightarrow> ret m
      | Some pc \<Rightarrow> bnd (pruneSession v pc) (\<lambda>_. measure_region v))"

definition resolveModelInfo :: "'q region_env \<Rightarrow> ('q, rat option) region_prog" where
  "resolveModelInfo v =
     bnd (await v) (\<lambda>t. case rt_error t of Some x \<Rightarrow> throw (StreamFailed x) | None \<Rightarrow> ret (rt_context t))"

fun compact_rounds ::
  "'q region_env \<Rightarrow> resolved_config \<Rightarrow> compact_spec \<Rightarrow> nat \<Rightarrow> token_measurement \<Rightarrow> compaction_result option
   \<Rightarrow> ('q, compaction_result option) region_prog" where
  "compact_rounds v c spec 0 m result =
     throw (StillAboveThreshold (pf_compactionRetries (sp_fields spec) + 1) (tm_total m) (sp_thresholdTokens spec))"
| "compact_rounds v c spec (Suc left) m result =
     bnd (selectCompactableRange v m (sp_retainTokens spec)) (\<lambda>range.
       case range of
         None \<Rightarrow>
           if result = None then ret None
           else throw (StillAboveThreshold (pf_compactionRetries (sp_fields spec) + 1) (tm_total m) (sp_thresholdTokens spec))
       | Some (a, b) \<Rightarrow>
           bnd (compactRegion v c a b) (\<lambda>r.
           bnd (measure_region v) (\<lambda>m'.
             if tm_total m' < of_nat (sp_thresholdTokens spec) then ret (Some r)
             else compact_rounds v c spec left m' (Some r))))"

definition overflow_compaction ::
  "'q region_env \<Rightarrow> resolved_config \<Rightarrow> prune_config option \<Rightarrow> token_measurement
   \<Rightarrow> ('q, compaction_result option) region_prog" where
  "overflow_compaction v c pruner measurement =
     bnd (prune_first v pruner measurement) (\<lambda>m.
     bnd (selectCompactableRange v m 0) (\<lambda>range.
       case range of
         None \<Rightarrow> ret None
       | Some (a, b) \<Rightarrow> bnd (compactRegion v c a b) (\<lambda>r. ret (Some r))))"

definition pressure_compaction ::
  "'q region_env \<Rightarrow> resolved_config \<Rightarrow> prune_config option \<Rightarrow> target_policy \<Rightarrow> token_measurement
   \<Rightarrow> ('q, compaction_result option) region_prog" where
  "pressure_compaction v c pruner policy measurement =
     bnd (resolveModelInfo v) (\<lambda>context.
     bnd assertNoActiveCompaction (\<lambda>_.
       case context of
         None \<Rightarrow> throw (PressureConfig (target_key (tp_target policy)) NoCapacity)
       | Some window \<Rightarrow>
           (case resolveCompactSpec policy window of
              Inl (key, fault) \<Rightarrow> throw (PressureConfig key fault)
            | Inr spec \<Rightarrow>
                if tm_total measurement < of_nat (sp_thresholdTokens spec) then ret None
                else
                  bnd (prune_first v pruner measurement) (\<lambda>m.
                    if tm_total m < of_nat (sp_thresholdTokens spec) then ret None
                    else compact_rounds v c spec (Suc (pf_compactionRetries (sp_fields spec))) m None))))"

definition compactIfNeeded ::
  "'q region_env \<Rightarrow> resolved_config \<Rightarrow> prune_config option \<Rightarrow> compaction_trigger
   \<Rightarrow> ('q, compaction_result option) region_prog" where
  "compactIfNeeded v c pruner trigger =
     bnd read_header (\<lambda>h.
       case routed_target h of
         None \<Rightarrow> ret None
       | Some target \<Rightarrow>
           bnd (measure_region v) (\<lambda>m.
             case trigger of
               ContextOverflow \<Rightarrow> overflow_compaction v c pruner m
             | Pressure \<Rightarrow> pressure_compaction v c pruner (resolveTargetPolicy c target) m))"

section \<open>Compaction on demand\<close>

definition compactNow ::
  "'q region_env \<Rightarrow> resolved_config \<Rightarrow> bool \<Rightarrow> string option \<Rightarrow> ('q, compaction_result option) region_prog" where
  "compactNow v c idle command =
     bnd throwIfAborted (\<lambda>_.
       if \<not> idle then throw (ManualFailure CodeBusy)
       else handle
         (bnd throwIfAborted (\<lambda>_.
          bnd (measure_region v) (\<lambda>m.
          bnd (selectCompactableRange v m 0) (\<lambda>range.
            case range of
              None \<Rightarrow> ret None
            | Some (a, b) \<Rightarrow>
                bnd (compactSurfaceRegion v (engine_summary_policy c)
                  \<lparr>ro_manual = True, ro_wholeSurface = False, ro_flush = True, ro_command = command\<rparr> a b)
                  (\<lambda>r. ret (Some r))))))
         (\<lambda>x. bnd (read_state (\<lambda>w. (rw_aborted w, rw_byAgent w))) (\<lambda>(aborted, byAgent).
            if aborted \<and> byAgent then throw (ManualFailure CodeCancelled)
            else if aborted then throw SignalAborted
            else throw x)))"

section \<open>The listeners\<close>

record engine_state =
  en_retries :: "nat option"
  en_agent :: bool
  en_warned :: "string list"

datatype error_decision = RetryRequest | NextHandler

definition CONTEXT_WINDOW_EXCEEDED_CODE :: string where
  "CONTEXT_WINDOW_EXCEEDED_CODE = ''CONTEXT_WINDOW_EXCEEDED''"

definition on_status :: "bool \<Rightarrow> engine_state \<Rightarrow> engine_state" where
  "on_status idle s = (if idle then s\<lparr>en_retries := None\<rparr> else s)"

definition on_session_event :: "engine_state \<Rightarrow> 'q compact_payload event \<Rightarrow> engine_state" where
  "on_session_event s e =
     (if is_assistant_message (ev_data e) \<and> en_agent s then s\<lparr>en_retries := None\<rparr> else s)"

definition on_pre_step ::
  "'q region_env \<Rightarrow> resolved_config \<Rightarrow> prune_config option \<Rightarrow> engine_state \<Rightarrow> ('q, engine_state) region_prog" where
  "on_pre_step v c pruner s =
     bnd (read_state rw_aborted) (\<lambda>aborted.
       if aborted then ret s
       else bnd (attempt (compactIfNeeded v c pruner Pressure)) (\<lambda>r.
         case r of
           Inl (PressureConfig key _) \<Rightarrow>
             ret (if key \<in> set (en_warned s) then s else s\<lparr>en_warned := key # en_warned s\<rparr>)
         | _ \<Rightarrow> ret s))"

text \<open>
  The events appended while the recovery waits are published to \<open>on_session_event\<close> before the
  recovery goes on.
\<close>

definition on_request_error ::
  "'q region_env \<Rightarrow> resolved_config \<Rightarrow> prune_config option \<Rightarrow> string \<Rightarrow> engine_state
   \<Rightarrow> ('q, engine_state \<times> error_decision) region_prog" where
  "on_request_error v c pruner code s0 =
     bnd (read_state rw_aborted) (\<lambda>aborted.
       if code \<noteq> CONTEXT_WINDOW_EXCEEDED_CODE \<or> aborted then ret (s0, NextHandler)
       else
         let s = s0\<lparr>en_agent := True\<rparr>
         in bnd read_header (\<lambda>h.
              case routed_target h of
                None \<Rightarrow> ret (s, NextHandler)
              | Some target \<Rightarrow>
                  let retries = or_else (en_retries s) 0
                  in if retries \<ge> pf_maxOverflowRetries (tp_fields (resolveTargetPolicy c target))
                     then ret (s, NextHandler)
                     else
                       bnd (read_surface v) (\<lambda>st.
                       bnd (read_state region_log) (\<lambda>evs.
                       bnd (attempt (compactIfNeeded v c pruner ContextOverflow)) (\<lambda>_.
                       bnd (read_state (\<lambda>w. (rw_aborted w, region_log w))) (\<lambda>(stopped, evs').
                       bnd (read_surface v) (\<lambda>st'.
                         let s' = foldl on_session_event s (drop (length evs) evs')
                         in if \<not> stopped \<and> replaceGeneration st' > replaceGeneration st
                            then ret (s'\<lparr>en_retries := Some (retries + 1)\<rparr>, RetryRequest)
                            else ret (s', NextHandler))))))))"

end
