(* ===== verification/EngineCorrect.thy ===== *)
theory EngineCorrect imports CompactEngine begin

text \<open>
  What the compaction engine guarantees: every operation only appends to the session's log and
  keeps its caches right, the range it chooses is the longest prefix that leaves the asked tail and
  is accepted by the transaction, a pressure compaction ends below the threshold, the recovery from
  an over-long request is bounded and makes progress, and no failure of automatic compaction
  reaches the turn.
\<close>

section \<open>Every operation only appends\<close>

definition appended :: "'q region_env \<Rightarrow> 'q compact_payload event list \<Rightarrow> 'q region_world \<Rightarrow> bool" where
  "appended v evs w \<longleftrightarrow> region_ok v w \<and> (\<exists>later. region_log w = evs @ later)"

lemma appended_quiet: "appended v evs w \<Longrightarrow> quiet v w w' \<Longrightarrow> appended v evs w'"
  by (simp add: appended_def quiet_def)

lemma appended_grows: "appended v evs w \<Longrightarrow> grows v w later w' \<Longrightarrow> appended v evs w'"
  by (auto simp: appended_def grows_def)

lemma appended_ok: "appended v evs w \<Longrightarrow> region_ok v w"
  by (simp add: appended_def)

lemma keeps_reads: "reads v (\<lambda>_. True) p R \<Longrightarrow> keeps (appended v evs) p"
  by (rule keepsI, erule reads_use) (auto dest: appended_ok intro: appended_quiet)

lemma keeps_region_append [keeps_intros]: "env_ok v \<Longrightarrow> keeps (appended v evs) (append_region v d op src)"
  by (rule keepsI, rule wp_mono [OF wp_append_region]) (auto dest: appended_ok intro: appended_quiet appended_grows)

lemma keeps_region_await [keeps_intros]: "env_ok v \<Longrightarrow> keeps (appended v evs) (await v)"
  by (rule keepsI, rule wp_mono [OF wp_await_region]) (auto dest: appended_ok intro: appended_grows waits_grows)

lemma keeps_surface [keeps_intros]: "env_ok v \<Longrightarrow> keeps (appended v evs) (read_surface v)"
  and keeps_header [keeps_intros]: "keeps (appended v evs) read_header"
  and keeps_measure [keeps_intros]: "keeps (appended v evs) (measure_region v)"
  and keeps_before [keeps_intros]: "env_ok v \<Longrightarrow> keeps (appended v evs) (balancedBefore v n)"
  and keeps_after [keeps_intros]: "env_ok v \<Longrightarrow> keeps (appended v evs) (balancedAfter v n)"
  by (rule keeps_reads [OF reads_surface], assumption)
    (rule keeps_reads [OF reads_header], rule keeps_reads [OF reads_measure],
     rule keeps_reads [OF reads_before], assumption, rule keeps_reads [OF reads_after], assumption)

lemma keeps_asked [keeps_intros]: "keeps (appended v evs) (modify (\<lambda>w. w\<lparr>rw_asked := f w\<rparr>))"
  by (rule keeps_modify) (simp add: appended_def)

lemma keeps_attempt [keeps_intros]: "keeps I p \<Longrightarrow> keeps I (attempt p)"
  by (simp add: attempt_def keeps_intros)

lemma keeps_lift [keeps_intros]: "keeps I (lift_result r)"
  by (cases r) (simp_all add: lift_result_def keeps_intros)

lemma keeps_let [keeps_intros]: "keeps I (f a) \<Longrightarrow> keeps I (Let a f)"
  by simp

lemma keeps_abort [keeps_intros]: "keeps I throwIfAborted"
  unfolding throwIfAborted_def by (intro keeps_intros)

lemma keeps_validate [keeps_intros]: "env_ok v \<Longrightarrow> keeps (appended v evs) (validateSurfaceRegion v a b)"
  by (rule keeps_reads [OF reads_validate])

lemma keeps_summarizer [keeps_intros]: "env_ok v \<Longrightarrow> keeps (appended v evs) (summarize v c input)"
  unfolding summarize_def summarizeWithLlm_def by (intro keeps_intros)

lemma keeps_prepare [keeps_intros]: "keeps (appended v evs) (prepareCompaction v sel)"
  by (rule keeps_reads [OF reads_prepare])

lemma keeps_summarizeCompaction [keeps_intros]:
  "env_ok v \<Longrightarrow> keeps (appended v evs) (summarizeCompaction v c pp i command)"
  unfolding summarizeCompaction_def by (intro keeps_intros)

lemma keeps_whole [keeps_intros]: "keeps (appended v evs) (assertWholeSurfaceUnchanged v pp)"
  and keeps_span [keeps_intros]: "env_ok v \<Longrightarrow> keeps (appended v evs) (assertSelectedSpanStable v pp)"
  unfolding assertWholeSurfaceUnchanged_def assertSelectedSpanStable_def by (intro keeps_intros; assumption)+

lemma keeps_commit [keeps_intros]: "env_ok v \<Longrightarrow> keeps (appended v evs) (commitCompactionBody v l n sm)"
  unfolding commitCompactionBody_def by (intro keeps_intros)

lemma keeps_transaction [keeps_intros]: "env_ok v \<Longrightarrow> keeps (appended v evs) (run_transaction v c opts sel l n)"
  unfolding run_transaction_def close_failed_def by (intro keeps_intros)

lemma keeps_manual_failure [keeps_intros]: "keeps I (throwManualFailure x stage)"
  by (cases stage) (simp_all add: throwManualFailure_def keeps_intros)

lemma keeps_outcome [keeps_intros]:
  "(\<And>r. keeps I (f r)) \<Longrightarrow> (\<And>x stage b. keeps I (g x stage b)) \<Longrightarrow>
   keeps I (case outcome of TxCommitted r \<Rightarrow> f r | TxFailed x stage b \<Rightarrow> g x stage b)"
  by (cases outcome) simp_all

lemma keeps_inactive [keeps_intros]: "keeps I (assertCompactionInactive s)"
  unfolding assertCompactionInactive_def by (intro keeps_intros)

lemma keeps_no_active [keeps_intros]: "keeps I assertNoActiveCompaction"
  unfolding assertNoActiveCompaction_def by (intro keeps_intros)

lemma keeps_compact [keeps_intros]: "env_ok v \<Longrightarrow> keeps (appended v evs) (compactSurfaceRegion v c opts a b)"
  unfolding compactSurfaceRegion_def by (intro keeps_intros)

lemma keeps_balanced_from [keeps_intros]: "env_ok v \<Longrightarrow> keeps (appended v evs) (balanced_from v ns k)"
  by (induction k) (auto intro!: keeps_intros)

lemma keeps_select [keeps_intros]: "env_ok v \<Longrightarrow> keeps (appended v evs) (selectCompactableRange v m budget)"
  unfolding selectCompactableRange_def by (intro keeps_intros)

lemma keeps_prune_all [keeps_intros]: "env_ok v \<Longrightarrow> keeps (appended v evs) (prune_all v c cands acc)"
  by (induction v c cands acc rule: prune_all.induct)
    (auto intro!: keeps_intros split: list.split content_block.split sum.split option.split)

lemma keeps_prune [keeps_intros]: "env_ok v \<Longrightarrow> keeps (appended v evs) (pruneSession v c)"
  unfolding pruneSession_def by (intro keeps_intros)

lemma keeps_rounds [keeps_intros]: "env_ok v \<Longrightarrow> keeps (appended v evs) (compact_rounds v c spec k m r)"
  by (induction k arbitrary: m r) (auto simp: compactRegion_def intro!: keeps_intros)

lemma keeps_compactIfNeeded [keeps_intros]: "env_ok v \<Longrightarrow> keeps (appended v evs) (compactIfNeeded v c pruner trigger)"
  by (cases trigger)
    (auto simp: compactIfNeeded_def overflow_compaction_def pressure_compaction_def prune_first_def resolveModelInfo_def
      compactRegion_def intro!: keeps_intros)

section \<open>The range to compact\<close>

lemma total_drop: "n < length ns \<Longrightarrow> total_tokens (drop n ns) = tn_tokens (ns ! n) + total_tokens (drop (Suc n) ns)"
  by (simp add: total_tokens_def Cons_nth_drop_Suc [symmetric])

lemma retained_spec:
  "n \<le> length ns \<Longrightarrow> acc = total_tokens (drop n ns) \<Longrightarrow>
   retained_from ns budget acc n \<le> n - 1
   \<and> (retained_from ns budget acc n \<noteq> 0 \<longrightarrow> budget \<le> total_tokens (drop (retained_from ns budget acc n) ns))
   \<and> (\<forall>j. retained_from ns budget acc n < j \<and> j < n \<longrightarrow> total_tokens (drop j ns) < budget)"
proof (induction n arbitrary: acc)
  case (Suc n)
  have acc': "acc + tn_tokens (ns ! n) = total_tokens (drop n ns)" using Suc.prems total_drop [of n ns] by simp
  show ?case
  proof (cases "budget \<le> acc + tn_tokens (ns ! n)")
    case False
    note IH = Suc.IH [OF _ acc']
    have "total_tokens (drop j ns) < budget" if "retained_from ns budget (acc + tn_tokens (ns ! n)) n < j" "j < Suc n" for j
      using that IH Suc.prems(1) False acc' by (cases "j = n") (auto simp: less_Suc_eq)
    then show ?thesis using False IH Suc.prems(1) by (auto simp: Let_def)
  qed (auto simp: acc')
qed simp

definition cut_ok :: "'q compact_payload event list \<Rightarrow> fold_state \<Rightarrow> nat \<Rightarrow> bool" where
  "cut_ok evs st k \<longleftrightarrow> in_progress evs (take k (nodes st)) = 0"

lemma reads_balanced_from:
  assumes "env_ok v"
  shows "k < length (nodes st) \<Longrightarrow> reads v (\<lambda>evs. P evs \<and> surf evs st) (balanced_from v (nodes st) k)
    (\<lambda>evs k'. k' \<le> k \<and> (k' \<noteq> 0 \<longrightarrow> never_negative evs (nodes st) \<and> cut_ok evs st k')
       \<and> (\<forall>j. k' < j \<and> j \<le> k \<longrightarrow> \<not> cut_ok evs st j))"
proof (induction k arbitrary: P)
  case (Suc k)
  let ?R = "\<lambda>evs k'. k' \<le> Suc k \<and> (k' \<noteq> 0 \<longrightarrow> never_negative evs (nodes st) \<and> cut_ok evs st k')
      \<and> (\<forall>j. k' < j \<and> j \<le> Suc k \<longrightarrow> \<not> cut_ok evs st j)"
  have at: "never_negative evs (nodes st) \<and> b = cut_ok evs st (Suc k)"
    if "surf evs st" "cut_answer 0 (nodes st ! Suc k) evs b" for evs b
    using cut_answer_at [OF that(1) Suc.prems that(2)] by (simp add: cut_ok_def)
  show ?case
    unfolding balanced_from.simps
  proof (rule reads_bnd [OF reads_before [OF assms]], rule reads_if)
    fix b assume "b"
    then show "reads v (\<lambda>evs. (P evs \<and> surf evs st) \<and> cut_answer 0 (nodes st ! Suc k) evs b) (ret (Suc k)) ?R"
      by (intro reads_ret) (auto dest: at)
  next
    fix b assume b: "\<not> b"
    show "reads v (\<lambda>evs. (P evs \<and> surf evs st) \<and> cut_answer 0 (nodes st ! Suc k) evs b) (balanced_from v (nodes st) k) ?R"
      by (rule reads_mono [OF Suc.IH [of "\<lambda>evs. P evs \<and> cut_answer 0 (nodes st ! Suc k) evs b"]])
        (use Suc.prems b at in \<open>auto simp: le_Suc_eq\<close>)
  qed
qed (simp add: reads_ret)

text \<open>
  The longest prefix of the surface that ends in a balanced cut and leaves a tail of at least
  \<open>budget\<close> tokens, when there is one.
\<close>

definition range_choice ::
  "'q compact_payload event list \<Rightarrow> fold_state \<Rightarrow> token_node list \<Rightarrow> nat \<Rightarrow> (nat \<times> nat) option \<Rightarrow> bool" where
  "range_choice evs st ns budget r \<longleftrightarrow>
     (let fits = (\<lambda>k. 0 < k \<and> k < length (nodes st) \<and> budget \<le> total_tokens (drop k ns) \<and> cut_ok evs st k)
      in case r of
           None \<Rightarrow> \<forall>k. \<not> fits k
         | Some (a, b) \<Rightarrow> never_negative evs (nodes st)
             \<and> (\<exists>k. fits k \<and> (\<forall>j > k. \<not> fits j) \<and> a = nodes st ! 0 \<and> b = nodes st ! (k - 1)))"

lemma total_drop_mono: "j \<le> k \<Longrightarrow> total_tokens (drop k ns) \<le> total_tokens (drop j ns)"
proof -
  assume "j \<le> k"
  then have "drop k ns = drop (k - j) (drop j ns)" by simp
  then have "drop j ns = take (k - j) (drop j ns) @ drop k ns" by (metis append_take_drop_id)
  then have "total_tokens (drop j ns) = total_tokens (take (k - j) (drop j ns)) + total_tokens (drop k ns)"
    by (metis total_tokens_def map_append sum_list_append)
  then show ?thesis by simp
qed

lemma reads_select:
  assumes "env_ok v"
  shows "reads v P (selectCompactableRange v m budget)
    (\<lambda>evs r. tm_nodes m \<noteq> [] \<longrightarrow> (\<exists>st. surf evs st \<and> map tn_seq (tm_nodes m) = nodes st
       \<and> range_choice evs st (tm_nodes m) budget r))"
proof (cases "tm_nodes m")
  case (Cons x xs)
  let ?ns = "tm_nodes m"
  let ?R = "\<lambda>evs r. \<exists>st. surf evs st \<and> map tn_seq ?ns = nodes st \<and> range_choice evs st ?ns budget r"
  let ?keep = "retained_from ?ns budget 0 (length ?ns)"
  have keep: "?keep < length ?ns" "?keep \<noteq> 0 \<Longrightarrow> budget \<le> total_tokens (drop ?keep ?ns)"
    "\<And>j. ?keep < j \<Longrightarrow> j < length ?ns \<Longrightarrow> total_tokens (drop j ?ns) < budget"
    using retained_spec [of "length ?ns" ?ns 0 budget] Cons by (auto simp: total_tokens_def)
  have "reads v (\<lambda>evs. P evs \<and> surf evs st) (if length (nodes st) \<noteq> length ?ns \<or> nodes st \<noteq> map tn_seq ?ns then throw MeterMismatch
      else if ?keep = 0 then ret None
      else bnd (balanced_from v (nodes st) ?keep)
        (\<lambda>k. if k = 0 then ret None else ret (Some (nodes st ! 0, nodes st ! (k - 1))))) ?R" for st
  proof (rule reads_if [OF reads_throw], rule reads_if)
    assume match: "\<not> (length (nodes st) \<noteq> length ?ns \<or> nodes st \<noteq> map tn_seq ?ns)" and k0: "?keep = 0"
    show "reads v (\<lambda>evs. P evs \<and> surf evs st) (ret None) ?R"
    proof (rule reads_ret)
      fix evs assume "P evs \<and> surf evs st"
      moreover have "\<not> budget \<le> total_tokens (drop k ?ns)" if "0 < k" "k < length (nodes st)" for k
        using keep(3) [of k] that k0 match by auto
      ultimately show "?R evs None" using match by (auto simp: range_choice_def)
    qed
  next
    assume match: "\<not> (length (nodes st) \<noteq> length ?ns \<or> nodes st \<noteq> map tn_seq ?ns)" and k: "?keep \<noteq> 0"
    then have less: "?keep < length (nodes st)" using keep(1) by simp
    show "reads v (\<lambda>evs. P evs \<and> surf evs st) (bnd (balanced_from v (nodes st) ?keep)
        (\<lambda>k. if k = 0 then ret None else ret (Some (nodes st ! 0, nodes st ! (k - 1))))) ?R"
    proof (rule reads_bnd [OF reads_balanced_from [OF assms less]])
      fix k
      show "reads v (\<lambda>evs. (P evs \<and> surf evs st) \<and> k \<le> ?keep
          \<and> (k \<noteq> 0 \<longrightarrow> never_negative evs (nodes st) \<and> cut_ok evs st k)
          \<and> (\<forall>j. k < j \<and> j \<le> ?keep \<longrightarrow> \<not> cut_ok evs st j))
        (if k = 0 then ret None else ret (Some (nodes st ! 0, nodes st ! (k - 1)))) ?R"
      proof (rule readsI)
        fix w assume ok: "region_ok v w" and h: "(P (region_log w) \<and> surf (region_log w) st) \<and> k \<le> ?keep
          \<and> (k \<noteq> 0 \<longrightarrow> never_negative (region_log w) (nodes st) \<and> cut_ok (region_log w) st k)
          \<and> (\<forall>j. k < j \<and> j \<le> ?keep \<longrightarrow> \<not> cut_ok (region_log w) st j)"
        have beyond: "\<not> (budget \<le> total_tokens (drop j ?ns) \<and> cut_ok (region_log w) st j)"
          if "k < j" "j < length (nodes st)" for j
          using h that keep(3) [of j] match by (cases "j \<le> ?keep") auto
        have "budget \<le> total_tokens (drop k ?ns)" if "k \<noteq> 0"
          using keep(2) [OF \<open>?keep \<noteq> 0\<close>] total_drop_mono [of k ?keep ?ns] h by auto
        then have "range_choice (region_log w) st ?ns budget
            (if k = 0 then None else Some (nodes st ! 0, nodes st ! (k - 1)))"
          using h beyond less unfolding range_choice_def Let_def by (auto intro!: exI [of _ k])
        then show "wp (if k = 0 then ret None else ret (Some (nodes st ! 0, nodes st ! (k - 1))))
            (\<lambda>a w'. quiet v w w' \<and> ?R (region_log w) a) (\<lambda>_. quiet v w) (\<lambda>_. False) (\<lambda>_. False) w"
          using ok h match by auto
      qed
    qed
  qed
  then have "reads v P (selectCompactableRange v m budget) ?R"
    unfolding selectCompactableRange_def Let_def using Cons
    by (simp add: reads_bnd [OF reads_surface [OF assms]])
  then show ?thesis by (rule reads_mono) auto
qed (simp add: selectCompactableRange_def reads_ret)

text \<open>The transaction accepts what the engine chose.\<close>

lemma wp_balance_total:
  assumes "env_ok v" and "off \<le> 1" and "region_ok v w" and "surf (region_log w) st"
    and "never_negative (region_log w) (nodes st)" and "i < length (nodes st)"
  shows "wp (ask_balance v (query_cut off) (nodes st ! i))
    (\<lambda>b w'. quiet v w w' \<and> b = (in_progress (region_log w) (take (i + off) (nodes st)) = 0))
    (\<lambda>_ _. False) (\<lambda>_. False) (\<lambda>_. False) w"
  unfolding ask_balance_def wp_bnd
proof (rule wp_mono [OF wp_read_surface [OF assms(1,3)]])
  fix st1 w1 assume h: "quiet v w w1 \<and> surf (region_log w) st1"
  have st1: "st1 = st" using h surf_unique [OF _ assms(4)] by blast
  have ok: "region_ok v w1" and log: "region_log w1 = region_log w" using h by (auto simp: quiet_def)
  obtain reps where fw: "fold_window 0 (region_log w) = Inr (st, reps, length (region_log w))"
    using assms(4) by (auto simp: surf_def)
  have inv: "pairing_inv (region_log w) (rw_balance w1)" using ok log by (simp add: region_ok_def)
  obtain c r where q: "query_cut off (region_log w) st (rw_balance w1) (nodes st ! i) = (c, r)"
    by (cases "query_cut off (region_log w) st (rw_balance w1) (nodes st ! i)")
  have "quiet v w1 (w1\<lparr>rw_balance := c\<rparr>)"
    using query_cut_inv [OF fw inv, of off "nodes st ! i"] ok q log
    by (simp add: quiet_def region_ok_def region_log_def)
  moreover have "r = Inr (in_progress (region_log w) (take (i + off) (nodes st)) = 0)"
    using query_cut_exact [OF fw inv assms(2), of "nodes st ! i"] q assms(5) surf_nth_index [OF assms(4,6)] by simp
  ultimately show "wp (\<lambda>w'. case query_cut off (region_log w') st1 (rw_balance w') (nodes st ! i) of
      (c, Inl x) \<Rightarrow> Thrown (PairingFault x) (w'\<lparr>rw_balance := c\<rparr>)
    | (c, Inr b) \<Rightarrow> Done b (w'\<lparr>rw_balance := c\<rparr>))
    (\<lambda>b w'. quiet v w w' \<and> b = (in_progress (region_log w) (take (i + off) (nodes st)) = 0))
    (\<lambda>_ _. False) (\<lambda>_. False) (\<lambda>_. False) w1"
    using q log st1 h quiet_trans by (auto simp: wp_def)
qed simp_all

lemma wp_validate_total:
  assumes "env_ok v" and "region_ok v w" and "surf (region_log w) st" and "never_negative (region_log w) (nodes st)"
    and "0 < k" and "k < length (nodes st)" and "cut_ok (region_log w) st k"
  shows "wp (validateSurfaceRegion v (nodes st ! 0) (nodes st ! (k - 1)))
    (\<lambda>sel _. sl_seqs sel = take k (nodes st)) (\<lambda>_ _. False) (\<lambda>_. False) (\<lambda>_. False) w"
  unfolding validateSurfaceRegion_def wp_bnd [of "read_surface v"]
proof (rule wp_mono [OF wp_read_surface [OF assms(1,2)]])
  fix st1 w1 assume h: "quiet v w w1 \<and> surf (region_log w) st1"
  have st1: "st1 = st" using h surf_unique [OF _ assms(3)] by blast
  have ok: "region_ok v w1" and log: "region_log w1 = region_log w" using h by (auto simp: quiet_def)
  have at: "index_of (nodes st ! 0) (nodes st) = Some 0" "index_of (nodes st ! (k - 1)) (nodes st) = Some (k - 1)"
    using surf_nth_index [OF assms(3), of 0] surf_nth_index [OF assms(3), of "k - 1"] assms(5,6) by linarith+
  have before: "wp (balancedBefore v (nodes st ! 0)) (\<lambda>b w'. quiet v w1 w' \<and> b) (\<lambda>_ _. False) (\<lambda>_. False) (\<lambda>_. False) w1"
    using wp_balance_total [of v 0 w1 st 0] assms(1,3,4,6) gr_implies_not0 [OF assms(6)] ok log
    by (simp add: balancedBefore_def toolPairingBalancedBefore_def)
  have after: "wp (balancedAfter v (nodes st ! (k - 1))) (\<lambda>b w'. b) (\<lambda>_ _. False) (\<lambda>_. False) (\<lambda>_. False) w2"
    if "quiet v w1 w2" for w2
  proof -
    have "region_ok v w2" "region_log w2 = region_log w" using that log by (auto simp: quiet_def)
    then have "wp (ask_balance v (query_cut 1) (nodes st ! (k - 1)))
        (\<lambda>b w'. quiet v w2 w' \<and> b = (in_progress (region_log w) (take (k - 1 + 1) (nodes st)) = 0))
        (\<lambda>_ _. False) (\<lambda>_. False) (\<lambda>_. False) w2"
      using wp_balance_total [of v 1 w2 st "k - 1"] assms by simp
    then show ?thesis
      unfolding balancedAfter_def toolPairingBalancedAfter_def
      by (rule wp_mono) (use assms(5,7) in \<open>simp_all add: cut_ok_def\<close>)
  qed
  have slice: "slice 0 (k - 1 + 1) (nodes st) = take k (nodes st)" using assms(5) by (simp add: slice_def)
  have "wp (bnd (balancedBefore v (nodes st ! 0)) (\<lambda>before. if \<not> before then throw (RegionStartUnbalanced (nodes st ! 0))
      else bnd (balancedAfter v (nodes st ! (k - 1))) (\<lambda>after. if \<not> after then throw (RegionEndUnbalanced (nodes st ! (k - 1)))
        else ret \<lparr>sl_start = nodes st ! 0, sl_end = nodes st ! (k - 1), sl_startIdx = 0, sl_endIdx = k - 1,
                  sl_seqs = slice 0 (k - 1 + 1) (nodes st)\<rparr>)))
    (\<lambda>sel _. sl_seqs sel = take k (nodes st)) (\<lambda>_ _. False) (\<lambda>_. False) (\<lambda>_. False) w1"
    unfolding wp_bnd [of "balancedBefore _ _"]
  proof (rule wp_mono [OF before])
    fix b w2 assume "quiet v w1 w2 \<and> b"
    then show "wp (if \<not> b then throw (RegionStartUnbalanced (nodes st ! 0))
        else bnd (balancedAfter v (nodes st ! (k - 1))) (\<lambda>after. if \<not> after then throw (RegionEndUnbalanced (nodes st ! (k - 1)))
          else ret \<lparr>sl_start = nodes st ! 0, sl_end = nodes st ! (k - 1), sl_startIdx = 0, sl_endIdx = k - 1,
                    sl_seqs = slice 0 (k - 1 + 1) (nodes st)\<rparr>))
      (\<lambda>sel _. sl_seqs sel = take k (nodes st)) (\<lambda>_ _. False) (\<lambda>_. False) (\<lambda>_. False) w2"
      unfolding slice by (auto intro!: wp_mono [OF after [unfolded One_nat_def]])
  qed simp_all
  then show "wp (let surf = nodes st1 in case index_of (nodes st ! 0) surf of
      None \<Rightarrow> throw (RegionStartMissing (nodes st ! 0))
    | Some i \<Rightarrow> (case index_of (nodes st ! (k - 1)) surf of
        None \<Rightarrow> throw (RegionEndMissing (nodes st ! (k - 1)))
      | Some j \<Rightarrow> if j < i then throw (RegionReversed (nodes st ! 0) (nodes st ! (k - 1)))
          else bnd (balancedBefore v (surf ! i)) (\<lambda>before. if \<not> before then throw (RegionStartUnbalanced (nodes st ! 0))
            else bnd (balancedAfter v (surf ! j)) (\<lambda>after. if \<not> after then throw (RegionEndUnbalanced (nodes st ! (k - 1)))
              else ret \<lparr>sl_start = nodes st ! 0, sl_end = nodes st ! (k - 1), sl_startIdx = i, sl_endIdx = j,
                        sl_seqs = slice i (j + 1) surf\<rparr>))))
    (\<lambda>sel _. sl_seqs sel = take k (nodes st)) (\<lambda>_ _. False) (\<lambda>_. False) (\<lambda>_. False) w1"
    unfolding st1 Let_def at option.case by simp
qed simp_all

text \<open>
  C27. The engine compacts the longest prefix it may: the range it selects from a measurement runs
  from the first surface node to the last node before a cut that no tool call crosses and that
  leaves at least the asked tail, no later cut does, and there is such a range whenever there is
  such a cut; the transaction never refuses a range that was selected.
\<close>

theorem selected_range_longest:
  assumes "env_ok v" and "region_ok v w" and "measure_region v w = Done m w1"
    and "selectCompactableRange v m budget w1 = Done r w2"
  shows "\<exists>st. surf (region_log w) st \<and> region_log w2 = region_log w
    \<and> (if nodes st = [] then r = None
        else range_choice (region_log w) st (priced (rg_meter v) (region_log w) (nodes st)) budget r)
    \<and> (\<forall>a b. r = Some (a, b) \<longrightarrow> (\<exists>sel w3. validateSurfaceRegion v a b w2 = Done sel w3))"
proof -
  obtain st where st: "surf (region_log w) st" "tm_nodes m = priced (rg_meter v) (region_log w) (nodes st)"
    and q1: "quiet v w w1"
    using wp_Done [OF reads_measure [unfolded reads_def, rule_format, OF assms(2), of "\<lambda>_. True"] assms(3)] by auto
  have ok1: "region_ok v w1" and log1: "region_log w1 = region_log w" using q1 by (auto simp: quiet_def)
  from wp_Done [OF reads_select [OF assms(1), unfolded reads_def, rule_format, OF ok1, of "\<lambda>_. True"] assms(4)]
  obtain q2: "quiet v w1 w2" and r: "tm_nodes m \<noteq> [] \<longrightarrow> (\<exists>st'. surf (region_log w) st'
      \<and> map tn_seq (tm_nodes m) = nodes st' \<and> range_choice (region_log w) st' (tm_nodes m) budget r)"
    using log1 by auto
  have ok2: "region_ok v w2" and log2: "region_log w2 = region_log w" using q2 log1 by (auto simp: quiet_def)
  have none: "r = None" if "nodes st = []"
    using assms(4) st(2) that by (simp add: selectCompactableRange_def priced_def ret_def)
  have choice: "range_choice (region_log w) st (priced (rg_meter v) (region_log w) (nodes st)) budget r" if "nodes st \<noteq> []"
  proof -
    have "tm_nodes m \<noteq> []" using that st(2) by (simp add: priced_def)
    with r obtain st' where r': "surf (region_log w) st'" "range_choice (region_log w) st' (tm_nodes m) budget r" by blast
    have "st' = st" using surf_unique [OF r'(1) st(1)] .
    with r'(2) st(2) show ?thesis by simp
  qed
  have "\<exists>sel w3. validateSurfaceRegion v a b w2 = Done sel w3" if "r = Some (a, b)" for a b
  proof -
    have "nodes st \<noteq> []" using that none by auto
    from choice [OF this] that obtain k where "never_negative (region_log w) (nodes st)" "0 < k" "k < length (nodes st)"
      "cut_ok (region_log w) st k" "a = nodes st ! 0" "b = nodes st ! (k - 1)"
      by (auto simp: range_choice_def)
    with wp_validate_total [OF assms(1) ok2, of st k] st(1) log2 show ?thesis
      by (cases "validateSurfaceRegion v a b w2") (auto simp: wp_def)
  qed
  then show ?thesis using st(1) log2 none choice by (intro exI [of _ st]) auto
qed

definition sample_chat :: "string \<Rightarrow> nat \<Rightarrow> unit compact_payload event" where
  "sample_chat txt n = \<lparr>ev_data = UserMessage \<lparr>msg_id = txt, msg_role = RoleUser, msg_content = [TextBlock txt],
     msg_source = UserSource\<rparr>, ev_seq = n, ev_time = 0, ev_ignorable = False,
     ev_surfaceOp = Some (JStr ''append''), ev_sources = None\<rparr>"

definition sample_chat_seed :: "unit compact_payload event list" where
  "sample_chat_seed = [sample_chat ''first'' 0, sample_chat ''second'' 1]"

definition sample_chat_world :: "unit region_tick list \<Rightarrow> unit region_world" where
  "sample_chat_world script = \<lparr>rw_session =
       (case newSession (=) 0 (Some sample_chat_seed) of Inr s \<Rightarrow> s | Inl _ \<Rightarrow> emptySession),
     rw_meter = newMeter, rw_balance = None, rw_aborted = False, rw_byAgent = False, rw_asked = [], rw_script = script\<rparr>"

lemma sample_chat_ok: "region_ok sample_prune_env (sample_chat_world script)"
proof -
  have "session_inv (case newSession (=) 0 (Some sample_chat_seed) of Inr s \<Rightarrow> s | Inl _ \<Rightarrow> emptySession)"
    by (cases "newSession (=) 0 (Some sample_chat_seed)") (auto simp: emptySession_inv intro: newSession_inv(1))
  then show ?thesis
    using newMeter_inv by (simp add: region_ok_def sample_chat_world_def region_log_def pairing_inv_def)
qed

lemma sample_chat_selects:
  "(case measure_region sample_prune_env (sample_chat_world []) of
      Done m w1 \<Rightarrow> (case selectCompactableRange sample_prune_env m 1 w1 of Done r w2 \<Rightarrow> r = Some (0, 0) | _ \<Rightarrow> False)
    | _ \<Rightarrow> False)"
  by code_simp

theorem selected_range_longest_witness:
  "\<exists>m w1 w2 sel w3. measure_region sample_prune_env (sample_chat_world []) = Done m w1
    \<and> selectCompactableRange sample_prune_env m 1 w1 = Done (Some (0, 0)) w2
    \<and> validateSurfaceRegion sample_prune_env 0 0 w2 = Done sel w3"
proof -
  obtain m w1 w2 where run: "measure_region sample_prune_env (sample_chat_world []) = Done m w1"
    "selectCompactableRange sample_prune_env m 1 w1 = Done (Some (0, 0)) w2"
    using sample_chat_selects by (auto split: run.splits)
  from selected_range_longest [OF sample_prune_ok(1) sample_chat_ok run] run show ?thesis by blast
qed

section \<open>Pressure\<close>

definition auto_options :: region_options where
  "auto_options = \<lparr>ro_manual = False, ro_wholeSurface = True, ro_flush = False, ro_command = None\<rparr>"

text \<open>
  The last compaction, entered with \<open>base\<close> and what was appended to it since, has committed \<open>r\<close>, and
  the session is priced below the threshold.
\<close>

definition relieved ::
  "'q region_env \<Rightarrow> nat \<Rightarrow> compaction_result \<Rightarrow> 'q compact_payload event list \<Rightarrow> 'q compact_payload event list \<Rightarrow> bool" where
  "relieved v threshold r base evs \<longleftrightarrow>
     (\<exists>st between S S'. surf evs st \<and> context_price (rg_meter v) evs st < threshold
        \<and> compaction_log v auto_options (cr_start r) (cr_end r) S S' (base @ between) (TxCommitted r) evs)"

lemma compaction_log_range:
  "compaction_log v opts a b S S' evs (TxCommitted r) evs' \<Longrightarrow> cr_start r = a \<and> cr_end r = b"
  by (auto simp: compaction_log_def)

lemma wp_compactRegion:
  assumes "env_ok v" and a: "appended v base w"
  shows "wp (compactRegion v c a b)
    (\<lambda>r w'. appended v base w' \<and> (\<exists>between S S'. compaction_log v auto_options (cr_start r) (cr_end r) S S'
        (base @ between) (TxCommitted r) (region_log w')))
    (\<lambda>_ _. True) (\<lambda>_. True) (\<lambda>_. True) w"
proof -
  obtain between where log: "region_log w = base @ between" using a by (auto simp: appended_def)
  note keep = keepsD [OF keeps_compact [OF assms(1), of base "engine_summary_policy c" auto_options a b] a]
  show ?thesis
    unfolding compactRegion_def auto_options_def [symmetric]
    by (rule wp_mono [OF wp_conj [OF wp_compact [OF assms(1) appended_ok [OF a], of "engine_summary_policy c" auto_options a b] keep]])
      (use compaction_log_range in \<open>fastforce simp: log\<close>)+
qed

lemma wp_rounds:
  assumes "env_ok v"
  shows "appended v base w \<Longrightarrow> wp (compact_rounds v c spec k m res)
    (\<lambda>r w'. case r of None \<Rightarrow> res = None | Some x \<Rightarrow> relieved v (sp_thresholdTokens spec) x base (region_log w'))
    (\<lambda>_ _. True) (\<lambda>_. True) (\<lambda>_. True) w"
proof (induction k arbitrary: m res w)
  case (Suc k)
  let ?Q = "\<lambda>r w'. case r of None \<Rightarrow> res = None | Some x \<Rightarrow> relieved v (sp_thresholdTokens spec) x base (region_log w')"
  have after: "wp (bnd (measure_region v) (\<lambda>m'.
      if tm_total m' < of_nat (sp_thresholdTokens spec) then ret (Some r) else compact_rounds v c spec k m' (Some r)))
      ?Q (\<lambda>_ _. True) (\<lambda>_. True) (\<lambda>_. True) w1"
    if a: "appended v base w1"
      and committed: "compaction_log v auto_options (cr_start r) (cr_end r) S S' (base @ between) (TxCommitted r) (region_log w1)"
    for r between S S' w1
    unfolding wp_bnd
  proof (rule reads_use [OF reads_measure_total [where P = "\<lambda>_. True"] appended_ok [OF a]])
    fix m' :: token_measurement and w2 assume q: "quiet v w1 w2" and price: "\<exists>st. surf (region_log w1) st
        \<and> tm_nodes m' = priced (rg_meter v) (region_log w1) (nodes st)
        \<and> of_nat (context_price (rg_meter v) (region_log w1) st) \<le> tm_total m'"
    have a2: "appended v base w2" and log2: "region_log w2 = region_log w1"
      using appended_quiet [OF a q] q by (auto simp: quiet_def)
    show "wp (if tm_total m' < of_nat (sp_thresholdTokens spec) then ret (Some r) else compact_rounds v c spec k m' (Some r))
        ?Q (\<lambda>_ _. True) (\<lambda>_. True) (\<lambda>_. True) w2"
    proof (cases "tm_total m' < of_nat (sp_thresholdTokens spec)")
      case True
      obtain st where "surf (region_log w1) st" "of_nat (context_price (rg_meter v) (region_log w1) st) < (of_nat (sp_thresholdTokens spec) :: rat)"
        using price True by force
      then have "relieved v (sp_thresholdTokens spec) r base (region_log w2)"
        using committed log2 unfolding relieved_def by auto
      then show ?thesis using True by simp
    next
      case False
      show ?thesis
        unfolding if_not_P [OF False]
        by (rule wp_mono [OF Suc.IH [OF a2, of m' "Some r"]]) (auto split: option.splits)
    qed
  qed simp_all
  show ?case
    unfolding compact_rounds.simps wp_bnd [of "selectCompactableRange _ _ _"]
  proof (rule reads_use [OF reads_select [OF assms, where P = "\<lambda>_. True"] appended_ok [OF Suc.prems]])
    fix range w1 assume q: "quiet v w w1"
    have a1: "appended v base w1" by (rule appended_quiet [OF Suc.prems q])
    show "wp (case range of
          None \<Rightarrow> if res = None then ret None
            else throw (StillAboveThreshold (pf_compactionRetries (sp_fields spec) + 1) (tm_total m) (sp_thresholdTokens spec))
        | Some (a, b) \<Rightarrow> bnd (compactRegion v c a b) (\<lambda>r. bnd (measure_region v) (\<lambda>m'.
            if tm_total m' < of_nat (sp_thresholdTokens spec) then ret (Some r) else compact_rounds v c spec k m' (Some r))))
        ?Q (\<lambda>_ _. True) (\<lambda>_. True) (\<lambda>_. True) w1"
    proof (cases range)
      case (Some ab)
      obtain a b where ab: "ab = (a, b)" by (cases ab)
      have "wp (compactRegion v c a b) (\<lambda>r. wp (bnd (measure_region v) (\<lambda>m'.
            if tm_total m' < of_nat (sp_thresholdTokens spec) then ret (Some r) else compact_rounds v c spec k m' (Some r)))
            ?Q (\<lambda>_ _. True) (\<lambda>_. True) (\<lambda>_. True)) (\<lambda>_ _. True) (\<lambda>_. True) (\<lambda>_. True) w1"
        by (rule wp_mono [OF wp_compactRegion [OF assms a1, of c a b]]) (use after in blast)+
      then show ?thesis unfolding Some ab option.case prod.case wp_bnd [of "compactRegion _ _ _ _"] .
    qed simp
  qed simp_all
qed simp

lemma wp_model_info:
  assumes "env_ok v" and "appended v base w"
  shows "wp (resolveModelInfo v)
    (\<lambda>answer w'. appended v base w' \<and> (\<exists>t ts. rw_script w = t # ts \<and> rt_error t = None \<and> answer = rt_context t))
    (\<lambda>_ _. True) (\<lambda>_. True) (\<lambda>_. True) w"
proof -
  have "wp (await v) (\<lambda>t _. \<exists>ts. rw_script w = t # ts) (\<lambda>_ _. True) (\<lambda>_. True) (\<lambda>_. True) w"
    by (simp add: wp_def await_def split: list.split)
  from wp_conj [OF keepsD [OF keeps_region_await [OF assms(1)] assms(2)] this] show ?thesis
    unfolding resolveModelInfo_def wp_bnd by (rule wp_mono) (auto split: option.split)
qed

lemma wp_pressure:
  assumes "env_ok v" and start: "appended v base w"
  shows "wp (pressure_compaction v c pruner policy m)
    (\<lambda>r w'. \<forall>x. r = Some x \<longrightarrow> (\<exists>t ts window spec. rw_script w = t # ts \<and> rt_error t = None \<and> rt_context t = Some window
       \<and> resolveCompactSpec policy window = Inr spec \<and> relieved v (sp_thresholdTokens spec) x base (region_log w'))) (\<lambda>_ _. True) (\<lambda>_. True) (\<lambda>_. True) w"
    (is "wp _ ?Q ?T ?U ?U w")
proof -
  have rounds: "wp (if tm_total m' < of_nat (sp_thresholdTokens spec) then ret None
        else compact_rounds v c spec (Suc (pf_compactionRetries (sp_fields spec))) m' None) ?Q ?T ?U ?U w1"
    if "appended v base w1" and "rw_script w = t # ts" "rt_error t = None" "rt_context t = Some window"
      and "resolveCompactSpec policy window = Inr spec" for w1 spec window t ts and m' :: token_measurement
  proof (cases "tm_total m' < of_nat (sp_thresholdTokens spec)")
    case False
    show ?thesis
      unfolding if_not_P [OF False]
      by (rule wp_mono [OF wp_rounds [OF assms(1) that(1)]]) (use that(2-5) in \<open>auto split: option.splits\<close>)
  qed simp
  have pruned: "wp (bnd (prune_first v pruner m) (\<lambda>m'.
        if tm_total m' < of_nat (sp_thresholdTokens spec) then ret None
        else compact_rounds v c spec (Suc (pf_compactionRetries (sp_fields spec))) m' None)) ?Q ?T ?U ?U w1"
    if a: "appended v base w1" and t: "rw_script w = t # ts" "rt_error t = None" "rt_context t = Some window"
      and spec: "resolveCompactSpec policy window = Inr spec" for w1 spec window t ts
  proof -
    have keeps: "keeps (appended v base) (prune_first v pruner m)"
      unfolding prune_first_def by (intro keeps_intros assms(1))
    from keepsD [OF this a] show ?thesis
      unfolding wp_bnd [of "prune_first _ _ _"]
      by (rule wp_mono) (use rounds [OF _ t spec] in blast)+
  qed
  from wp_model_info [OF assms] show ?thesis
    unfolding pressure_compaction_def wp_bnd [of "resolveModelInfo v"]
  proof (rule wp_mono)
    fix answer w1 assume m: "appended v base w1 \<and> (\<exists>t ts. rw_script w = t # ts \<and> rt_error t = None \<and> answer = rt_context t)"
    then have a: "appended v base w1" by blast
    show "wp (bnd assertNoActiveCompaction (\<lambda>_. case answer of
        None \<Rightarrow> throw (PressureConfig (target_key (tp_target policy)) NoCapacity)
      | Some window \<Rightarrow> (case resolveCompactSpec policy window of
           Inl (key, fault) \<Rightarrow> throw (PressureConfig key fault)
         | Inr spec \<Rightarrow> if tm_total m < of_nat (sp_thresholdTokens spec) then ret None
             else bnd (prune_first v pruner m) (\<lambda>m'. if tm_total m' < of_nat (sp_thresholdTokens spec) then ret None
               else compact_rounds v c spec (Suc (pf_compactionRetries (sp_fields spec))) m' None)))) ?Q ?T ?U ?U w1"
      unfolding wp_bnd [of assertNoActiveCompaction]
    proof (rule wp_mono [OF keepsD [OF keeps_no_active [where I = "appended v base"] a]])
      fix u w2 assume a2: "appended v base w2"
      show "wp (case answer of
          None \<Rightarrow> throw (PressureConfig (target_key (tp_target policy)) NoCapacity)
        | Some window \<Rightarrow> (case resolveCompactSpec policy window of
             Inl (key, fault) \<Rightarrow> throw (PressureConfig key fault)
           | Inr spec \<Rightarrow> if tm_total m < of_nat (sp_thresholdTokens spec) then ret None
               else bnd (prune_first v pruner m) (\<lambda>m'. if tm_total m' < of_nat (sp_thresholdTokens spec) then ret None
                 else compact_rounds v c spec (Suc (pf_compactionRetries (sp_fields spec))) m' None))) ?Q ?T ?U ?U w2"
      proof (cases answer)
        case (Some window)
        obtain t ts where t: "rw_script w = t # ts" "rt_error t = None" "rt_context t = Some window" using m Some by auto
        show ?thesis
        proof (cases "resolveCompactSpec policy window")
          case (Inr spec)
          show ?thesis
            unfolding Some option.case Inr sum.case using pruned [OF a2 t Inr]
            by (cases "tm_total m < of_nat (sp_thresholdTokens spec)") (simp, simp only: if_False)
        qed (use Some in \<open>simp split: prod.split\<close>)
      qed simp
    qed simp_all
  qed simp_all
qed

text \<open>
  C13. A pressure compaction that reports a result has relieved the session: a compaction of the
  engine, entered with the log it was called with or an extension of it, has committed that result,
  and the request the session would send next, header and surface priced by the fixed estimate, is
  below the threshold of the policy for the model the log's header routes to, resolved with the
  context window the first wait answered for it; however many attempts it took and whatever was
  pruned and appended on the way.
\<close>

theorem pressure_ends_below_threshold:
  assumes "env_ok v" and "region_ok v w" and "compactIfNeeded v c pruner Pressure w = Done (Some r) w'"
  shows "\<exists>target t ts window spec. routed_target (foldRequestHeader (region_log w) None) = Some target
    \<and> rw_script w = t # ts \<and> rt_error t = None \<and> rt_context t = Some window
    \<and> resolveCompactSpec (resolveTargetPolicy c target) window = Inr spec
    \<and> relieved v (sp_thresholdTokens spec) r (region_log w) (region_log w')"
proof -
  let ?Q = "\<lambda>r w'. \<forall>x. r = Some x \<longrightarrow> (\<exists>target t ts window spec.
      routed_target (foldRequestHeader (region_log w) None) = Some target
      \<and> rw_script w = t # ts \<and> rt_error t = None \<and> rt_context t = Some window
      \<and> resolveCompactSpec (resolveTargetPolicy c target) window = Inr spec
      \<and> relieved v (sp_thresholdTokens spec) x (region_log w) (region_log w'))"
  have "wp (compactIfNeeded v c pruner Pressure) ?Q (\<lambda>_ _. True) (\<lambda>_. True) (\<lambda>_. True) w"
    unfolding compactIfNeeded_def wp_bnd [of read_header]
  proof (rule wp_mono [OF wp_read_header [OF assms(2)]])
    fix h w1 assume h: "quiet v w w1 \<and> h = foldRequestHeader (region_log w) None"
    then have ok1: "region_ok v w1" by (simp add: quiet_def)
    show "wp (case routed_target h of None \<Rightarrow> ret None
        | Some target \<Rightarrow> bnd (measure_region v) (\<lambda>m. case Pressure of
            Pressure \<Rightarrow> pressure_compaction v c pruner (resolveTargetPolicy c target) m
          | ContextOverflow \<Rightarrow> overflow_compaction v c pruner m)) ?Q (\<lambda>_ _. True) (\<lambda>_. True) (\<lambda>_. True) w1"
    proof (cases "routed_target h")
      case (Some target)
      show ?thesis
        unfolding Some option.case compaction_trigger.case wp_bnd [of "measure_region v"]
      proof (rule reads_use [OF reads_measure [where P = "\<lambda>_. True"] ok1])
        fix m w2 assume "quiet v w1 w2"
        with h have w2: "appended v (region_log w) w2" "rw_script w2 = rw_script w" by (auto simp: quiet_def appended_def)
        have routed: "routed_target (foldRequestHeader (region_log w) None) = Some target" using h Some by simp
        from wp_pressure [OF assms(1) w2(1), of c pruner "resolveTargetPolicy c target" m]
        show "wp (pressure_compaction v c pruner (resolveTargetPolicy c target) m) ?Q (\<lambda>_ _. True) (\<lambda>_. True) (\<lambda>_. True) w2"
          unfolding w2(2) by (rule wp_mono) (use routed in blast)+
      qed simp_all
    qed simp
  qed simp_all
  from wp_Done [OF this assms(3)] show ?thesis by blast
qed

definition sample_engine_env :: "unit region_env" where
  "sample_engine_env = sample_prune_env\<lparr>rg_meter := sample_env\<lparr>me_blockJson := \<lambda>_. 480\<rparr>\<rparr>"

definition sample_table :: "nat \<Rightarrow> unit compact_payload event" where
  "sample_table n = \<lparr>ev_data = UserMessage \<lparr>msg_id = ''u'', msg_role = RoleUser, msg_content = [PluginBlock ''table'' JNull],
     msg_source = UserSource\<rparr>, ev_seq = n, ev_time = 0, ev_ignorable = False,
     ev_surfaceOp = Some (JStr ''append''), ev_sources = None\<rparr>"

definition sample_logged :: "unit compact_payload event_data \<Rightarrow> nat \<Rightarrow> unit compact_payload event" where
  "sample_logged d n = \<lparr>ev_data = d, ev_seq = n, ev_time = 0, ev_ignorable = False, ev_surfaceOp = None, ev_sources = None\<rparr>"

definition sample_routed_header :: epoch_header where
  "sample_routed_header = \<lparr>eh_config = \<lparr>cfg_provider = ''p'', cfg_model = ''m'', cfg_reasoningEffort = None,
     cfg_temperature = None, cfg_maxTokens = None, cfg_stop = None\<rparr>, eh_adapterDefaults = None, eh_system = None,
     eh_tools = None\<rparr>"

definition sample_engine_seed :: "unit compact_payload event list" where
  "sample_engine_seed = [sample_logged (TurnStart 1) 0, sample_logged (RequestHeader sample_routed_header HeaderInitial) 1,
     sample_table 2, sample_table 3, sample_table 4]"

definition sample_engine_world :: "unit region_tick list \<Rightarrow> unit region_world" where
  "sample_engine_world script = \<lparr>rw_session =
       (case newSession (=) 0 (Some sample_engine_seed) of Inr s \<Rightarrow> s | Inl _ \<Rightarrow> emptySession),
     rw_meter = newMeter, rw_balance = None, rw_aborted = False, rw_byAgent = False, rw_asked = [], rw_script = script\<rparr>"

lemma sample_engine_ok: "env_ok sample_engine_env" "region_ok sample_engine_env (sample_engine_world script)"
proof -
  have "session_inv (case newSession (=) 0 (Some sample_engine_seed) of Inr s \<Rightarrow> s | Inl _ \<Rightarrow> emptySession)"
    by (cases "newSession (=) 0 (Some sample_engine_seed)") (auto simp: emptySession_inv intro: newSession_inv(1))
  then show "region_ok sample_engine_env (sample_engine_world script)"
    using newMeter_inv by (simp add: region_ok_def sample_engine_world_def region_log_def pairing_inv_def)
qed (simp add: env_ok_def sample_engine_env_def sample_prune_env_def)

definition sample_engine_config :: resolved_config where
  "sample_engine_config = \<lparr>rv_fields = \<lparr>pf_thresholdRatio = 1 / 2, pf_summarizationProvider = [], pf_summarizationModel = [],
       pf_maxTokens = 100, pf_compactionRetries = 1, pf_maxOverflowRetries = 1\<rparr>,
     rv_retention = RetainTokens 10, rv_modelPolicies = [], rv_auto = True\<rparr>"

definition sample_engine_tick :: "rat option \<Rightarrow> unit region_tick" where
  "sample_engine_tick window = \<lparr>rt_outside = [], rt_aborted = False, rt_chunks = [ChTextDelta 0 ''done''], rt_error = None,
     rt_context = window, rt_byAgent = False\<rparr>"

lemma sample_pressure_runs:
  "(case compactIfNeeded sample_engine_env sample_engine_config None Pressure
       (sample_engine_world [sample_engine_tick (Some 520), sample_engine_tick None]) of
      Done r w' \<Rightarrow> (case r of Some x \<Rightarrow> cr_seqs x = [2, 3] | None \<Rightarrow> False) | _ \<Rightarrow> False)"
  by code_simp

theorem pressure_ends_below_threshold_witness:
  "\<exists>r w' target spec. compactIfNeeded sample_engine_env sample_engine_config None Pressure
      (sample_engine_world [sample_engine_tick (Some 520), sample_engine_tick None]) = Done (Some r) w'
    \<and> cr_seqs r = [2, 3]
    \<and> resolveCompactSpec (resolveTargetPolicy sample_engine_config target) 520 = Inr spec
    \<and> relieved sample_engine_env (sp_thresholdTokens spec) r
        (region_log (sample_engine_world [sample_engine_tick (Some 520), sample_engine_tick None])) (region_log w')"
proof -
  obtain r w' where run: "compactIfNeeded sample_engine_env sample_engine_config None Pressure
      (sample_engine_world [sample_engine_tick (Some 520), sample_engine_tick None]) = Done (Some r) w'" "cr_seqs r = [2, 3]"
    using sample_pressure_runs by (auto split: run.splits option.splits)
  have script: "rw_script (sample_engine_world ts) = ts" for ts by (simp add: sample_engine_world_def)
  from pressure_ends_below_threshold [OF sample_engine_ok run(1)] obtain target spec where
    "resolveCompactSpec (resolveTargetPolicy sample_engine_config target) 520 = Inr spec"
    "relieved sample_engine_env (sp_thresholdTokens spec) r
       (region_log (sample_engine_world [sample_engine_tick (Some 520), sample_engine_tick None])) (region_log w')"
    unfolding script by (auto simp: sample_engine_tick_def)
  with run show ?thesis by blast
qed

section \<open>The listeners\<close>

lemma wp_engine:
  assumes "env_ok v" and "region_ok v w"
  shows "wp (attempt (compactIfNeeded v c pruner trigger)) (\<lambda>_. appended v (region_log w)) (\<lambda>_ _. False)
    (appended v (region_log w)) (\<lambda>_. True) w"
proof -
  have "appended v (region_log w) w" using assms(2) by (simp add: appended_def)
  from keepsD [OF keeps_compactIfNeeded [OF assms(1)] this] show ?thesis
    unfolding wp_attempt by (rule wp_mono) simp_all
qed

lemma wp_pre_step:
  assumes "env_ok v" and "region_ok v w"
  shows "wp (on_pre_step v c pruner s)
    (\<lambda>s' w'. appended v (region_log w) w' \<and> en_retries s' = en_retries s \<and> en_agent s' = en_agent s
       \<and> set (en_warned s) \<subseteq> set (en_warned s')) (\<lambda>_ _. False) (appended v (region_log w)) (\<lambda>_. True) w"
  unfolding on_pre_step_def wp_bnd wp_read
proof (cases "rw_aborted w")
  case True
  then show "wp (if rw_aborted w then ret s else bnd (attempt (compactIfNeeded v c pruner Pressure)) (\<lambda>r. case r of
        Inl (PressureConfig key _) \<Rightarrow> ret (if key \<in> set (en_warned s) then s else s\<lparr>en_warned := key # en_warned s\<rparr>)
      | _ \<Rightarrow> ret s))
    (\<lambda>s' w'. appended v (region_log w) w' \<and> en_retries s' = en_retries s \<and> en_agent s' = en_agent s
       \<and> set (en_warned s) \<subseteq> set (en_warned s')) (\<lambda>_ _. False) (appended v (region_log w)) (\<lambda>_. True) w"
    using assms(2) by (simp add: appended_def)
next
  case False
  show "wp (if rw_aborted w then ret s else bnd (attempt (compactIfNeeded v c pruner Pressure)) (\<lambda>r. case r of
        Inl (PressureConfig key _) \<Rightarrow> ret (if key \<in> set (en_warned s) then s else s\<lparr>en_warned := key # en_warned s\<rparr>)
      | _ \<Rightarrow> ret s))
    (\<lambda>s' w'. appended v (region_log w) w' \<and> en_retries s' = en_retries s \<and> en_agent s' = en_agent s
       \<and> set (en_warned s) \<subseteq> set (en_warned s')) (\<lambda>_ _. False) (appended v (region_log w)) (\<lambda>_. True) w"
    unfolding if_not_P [OF False] wp_bnd [of "attempt _"]
    by (rule wp_mono [OF wp_engine [OF assms]]) (auto split: sum.split region_error.split)
qed

lemma retries_agent: "en_retries (s\<lparr>en_agent := True\<rparr>) = en_retries s"
  by simp

lemma foldl_event_agent: "en_agent s \<Longrightarrow> en_agent (foldl on_session_event s es)"
  by (induction es arbitrary: s) (auto simp: on_session_event_def)

definition recovered ::
  "'q region_env \<Rightarrow> resolved_config \<Rightarrow> string \<Rightarrow> engine_state \<Rightarrow> 'q region_world \<Rightarrow> engine_state \<Rightarrow> 'q region_world \<Rightarrow> bool" where
  "recovered v c code s w s' w' \<longleftrightarrow>
     code = CONTEXT_WINDOW_EXCEEDED_CODE \<and> \<not> rw_aborted w'
     \<and> (\<exists>target. routed_target (foldRequestHeader (region_log w) None) = Some target
          \<and> or_else (en_retries s) 0 < pf_maxOverflowRetries (tp_fields (resolveTargetPolicy c target)))
     \<and> en_retries s' = Some (Suc (or_else (en_retries s) 0))
     \<and> (\<exists>st st'. surf (region_log w) st \<and> surf (region_log w') st' \<and> replaceGeneration st < replaceGeneration st')"

lemma wp_request_error:
  assumes "env_ok v" and "region_ok v w"
  shows "wp (on_request_error v c pruner code s)
    (\<lambda>(s', d) w'. appended v (region_log w) w' \<and> (d = RetryRequest \<longrightarrow> recovered v c code s w s' w'))
    (\<lambda>_ _. False) (appended v (region_log w)) (\<lambda>_. True) w"
    (is "wp _ ?Q ?E ?W ?F w")
proof (cases "code \<noteq> CONTEXT_WINDOW_EXCEEDED_CODE \<or> rw_aborted w")
  case True
  then show ?thesis using assms(2) by (auto simp: on_request_error_def appended_def)
next
  case False
  let ?s = "s\<lparr>en_agent := True\<rparr>"
  let ?n = "or_else (en_retries s) 0"
  have code: "code = CONTEXT_WINDOW_EXCEEDED_CODE" and live: "rw_aborted w = False" using False by auto
  have last: "wp (bnd (read_state (\<lambda>w. (rw_aborted w, region_log w))) (\<lambda>(stopped, evs').
        bnd (read_surface v) (\<lambda>st'. let s' = foldl on_session_event ?s (drop (length (region_log w)) evs')
          in if \<not> stopped \<and> replaceGeneration st < replaceGeneration st'
             then ret (s'\<lparr>en_retries := Some (?n + 1)\<rparr>, RetryRequest) else ret (s', NextHandler)))) ?Q ?E ?W ?F w1"
    if a: "appended v (region_log w) w1" and st: "surf (region_log w) st"
      and max: "routed_target (foldRequestHeader (region_log w) None) = Some target"
        "?n < pf_maxOverflowRetries (tp_fields (resolveTargetPolicy c target))" for w1 st target
    unfolding wp_bnd wp_read prod.case
  proof (rule wp_mono [OF wp_read_surface [OF assms(1) appended_ok [OF a]]])
    fix st' w2 assume h: "quiet v w1 w2 \<and> surf (region_log w1) st'"
    then have w2: "appended v (region_log w) w2" "region_log w2 = region_log w1" "rw_aborted w2 = rw_aborted w1"
      using appended_quiet [OF a] by (auto simp: quiet_def)
    have "\<exists>target. routed_target (foldRequestHeader (region_log w) None) = Some target
        \<and> ?n < pf_maxOverflowRetries (tp_fields (resolveTargetPolicy c target))" using max by blast
    then have "recovered v c code s w (s'\<lparr>en_retries := Some (?n + 1)\<rparr>) w2"
      if "\<not> rw_aborted w1" "replaceGeneration st < replaceGeneration st'" for s'
      unfolding recovered_def using code that h st w2 by (simp del: split_paired_Ex) blast
    with w2(1) show "wp (let s' = foldl on_session_event ?s (drop (length (region_log w)) (region_log w1))
        in if \<not> rw_aborted w1 \<and> replaceGeneration st < replaceGeneration st'
           then ret (s'\<lparr>en_retries := Some (?n + 1)\<rparr>, RetryRequest) else ret (s', NextHandler)) ?Q ?E ?W ?F w2"
      by (simp add: Let_def)
  qed simp_all
  have mid: "wp (bnd (read_surface v) (\<lambda>st. bnd (read_state region_log) (\<lambda>evs.
        bnd (attempt (compactIfNeeded v c pruner ContextOverflow)) (\<lambda>_.
        bnd (read_state (\<lambda>w. (rw_aborted w, region_log w))) (\<lambda>(stopped, evs').
        bnd (read_surface v) (\<lambda>st'. let s' = foldl on_session_event ?s (drop (length evs) evs')
          in if \<not> stopped \<and> replaceGeneration st < replaceGeneration st'
             then ret (s'\<lparr>en_retries := Some (?n + 1)\<rparr>, RetryRequest) else ret (s', NextHandler))))))) ?Q ?E ?W ?F w0"
    if q: "quiet v w w0" and max: "routed_target (foldRequestHeader (region_log w) None) = Some target"
        "?n < pf_maxOverflowRetries (tp_fields (resolveTargetPolicy c target))" for w0 target
    unfolding wp_bnd [of "read_surface v" "\<lambda>st. bnd (read_state region_log) (F st)" for F]
  proof (rule wp_mono [OF wp_read_surface [OF assms(1)]])
    show "region_ok v w0" using q by (simp add: quiet_def)
  next
    fix st w1 assume h: "quiet v w0 w1 \<and> surf (region_log w0) st"
    then have ok1: "region_ok v w1" and log1: "region_log w1 = region_log w" and st: "surf (region_log w) st"
      using q by (auto simp: quiet_def)
    have step: "wp (attempt (compactIfNeeded v c pruner ContextOverflow)) (\<lambda>_. appended v (region_log w)) (\<lambda>_ _. False)
        (appended v (region_log w)) (\<lambda>_. True) w1"
      using wp_engine [OF assms(1) ok1] log1 by simp
    show "wp (bnd (read_state region_log) (\<lambda>evs.
        bnd (attempt (compactIfNeeded v c pruner ContextOverflow)) (\<lambda>_.
        bnd (read_state (\<lambda>w. (rw_aborted w, region_log w))) (\<lambda>(stopped, evs').
        bnd (read_surface v) (\<lambda>st'. let s' = foldl on_session_event ?s (drop (length evs) evs')
          in if \<not> stopped \<and> replaceGeneration st < replaceGeneration st'
             then ret (s'\<lparr>en_retries := Some (?n + 1)\<rparr>, RetryRequest) else ret (s', NextHandler)))))) ?Q ?E ?W ?F w1"
      unfolding wp_bnd [of "read_state region_log"] wp_read wp_bnd [of "attempt _"] log1
      by (rule wp_mono [OF step]) (use last [OF _ st max] in blast)+
  qed simp_all
  have "wp (bnd read_header (\<lambda>h. case routed_target h of
        None \<Rightarrow> ret (?s, NextHandler)
      | Some target \<Rightarrow> let retries = or_else (en_retries s) 0
          in if retries \<ge> pf_maxOverflowRetries (tp_fields (resolveTargetPolicy c target)) then ret (?s, NextHandler)
             else bnd (read_surface v) (\<lambda>st. bnd (read_state region_log) (\<lambda>evs.
               bnd (attempt (compactIfNeeded v c pruner ContextOverflow)) (\<lambda>_.
               bnd (read_state (\<lambda>w. (rw_aborted w, region_log w))) (\<lambda>(stopped, evs').
               bnd (read_surface v) (\<lambda>st'. let s' = foldl on_session_event ?s (drop (length evs) evs')
                 in if \<not> stopped \<and> replaceGeneration st < replaceGeneration st'
                    then ret (s'\<lparr>en_retries := Some (retries + 1)\<rparr>, RetryRequest) else ret (s', NextHandler)))))))) ?Q ?E ?W ?F w"
    unfolding wp_bnd [of read_header]
  proof (rule wp_mono [OF wp_read_header [OF assms(2)]], goal_cases)
    case (1 h w0)
    then have q: "quiet v w w0" and a: "appended v (region_log w) w0"
      and h: "h = foldRequestHeader (region_log w) None" by (auto simp: quiet_def appended_def)
    show ?case
    proof (cases "routed_target h")
      case (Some target)
      show ?thesis
        unfolding Some option.case Let_def retries_agent
        by (cases "?n < pf_maxOverflowRetries (tp_fields (resolveTargetPolicy c target))")
          (use mid [OF q] Some h a in \<open>simp_all add: Let_def not_less del: wp_bnd\<close>)
    qed (use a in simp)
  qed simp_all
  then show ?thesis
    unfolding on_request_error_def wp_bnd [of "read_state rw_aborted"] wp_read Let_def retries_agent
    using code live by (simp add: Let_def del: wp_bnd)
qed

text \<open>
  Consecutive recoveries: the provider refuses one request after another, and in between other
  code may append anything but an answer of the model.
\<close>

inductive overflow_chain ::
  "'q region_env \<Rightarrow> resolved_config \<Rightarrow> prune_config option \<Rightarrow> engine_state \<Rightarrow> 'q region_world \<Rightarrow> nat
   \<Rightarrow> engine_state \<Rightarrow> 'q region_world \<Rightarrow> bool"
  for v c pruner s w where
  oc_none: "overflow_chain v c pruner s w 0 s w"
| oc_retry: "overflow_chain v c pruner s w n s1 w1 \<Longrightarrow> grows v w1 later w2 \<Longrightarrow>
    \<forall>e \<in> set later. \<not> is_assistant_message (ev_data e) \<Longrightarrow>
    on_request_error v c pruner code (foldl on_session_event s1 later) w2 = Done (s2, RetryRequest) w3 \<Longrightarrow>
    overflow_chain v c pruner s w (Suc n) s2 w3"

lemma quiet_events: "\<forall>e \<in> set later. \<not> is_assistant_message (ev_data e) \<Longrightarrow> foldl on_session_event s later = s"
  by (induction later arbitrary: s) (auto simp: on_session_event_def)

lemma generation_mono: "surf evs st \<Longrightarrow> surf (evs @ later) st' \<Longrightarrow> replaceGeneration st \<le> replaceGeneration st'"
proof (induction later arbitrary: st' rule: rev_induct)
  case Nil
  then show ?case using surf_unique [of evs st st'] by simp
next
  case (snoc e later)
  obtain st1 where st1: "surf (evs @ later) st1" using surf_prefix [of "evs @ later" "[e]" st'] snoc.prems(2) by auto
  then obtain reps reps' where "fold_window 0 (evs @ later) = Inr (st1, reps, length (evs @ later))"
    "fold_window 0 ((evs @ later) @ [e]) = Inr (st', reps', length ((evs @ later) @ [e]))"
    using snoc.prems(2) by (auto simp: surf_def)
  then have "replaceGeneration st1 \<le> replaceGeneration st'" by (cases rule: surface_step_cases) auto
  with snoc.IH [OF snoc.prems(1) st1] show ?case by simp
qed

lemma overflow_chain_inv:
  assumes "overflow_chain v c pruner s w n s' w'"
    and "env_ok v" and "region_ok v w" and "\<And>target. pf_maxOverflowRetries (tp_fields (resolveTargetPolicy c target)) \<le> M"
    and "en_retries s = None"
  shows "appended v (region_log w) w' \<and> or_else (en_retries s') 0 = n \<and> n \<le> M
    \<and> (\<forall>st st'. surf (region_log w) st \<longrightarrow> surf (region_log w') st' \<longrightarrow> replaceGeneration st + n \<le> replaceGeneration st')"
  using assms
proof (induction rule: overflow_chain.induct)
  case oc_none
  then show ?case using surf_unique by (fastforce simp: appended_def or_else_def)
next
  case (oc_retry n s1 w1 later w2 code s2 w3)
  then have IH: "appended v (region_log w) w1" "or_else (en_retries s1) 0 = n"
    "\<forall>st st'. surf (region_log w) st \<longrightarrow> surf (region_log w1) st' \<longrightarrow> replaceGeneration st + n \<le> replaceGeneration st'"
    by blast+
  have s1: "foldl on_session_event s1 later = s1" using quiet_events [OF oc_retry.hyps(3)] .
  have a2: "appended v (region_log w) w2" using appended_grows [OF IH(1) oc_retry.hyps(2)] .
  have log2: "region_log w2 = region_log w1 @ later" using oc_retry.hyps(2) by (simp add: grows_def)
  from wp_Done [OF wp_request_error [OF oc_retry.prems(1) appended_ok [OF a2], of c pruner code s1]
      oc_retry.hyps(4) [unfolded s1]]
  have a3: "appended v (region_log w2) w3" and r: "recovered v c code s1 w2 s2 w3" by auto
  obtain target where "n < pf_maxOverflowRetries (tp_fields (resolveTargetPolicy c target))"
    using r IH(2) by (auto simp: recovered_def)
  then have "Suc n \<le> M" using oc_retry.prems(3) [of target] by simp
  moreover have "replaceGeneration st + Suc n \<le> replaceGeneration st'"
    if st: "surf (region_log w) st" "surf (region_log w3) st'" for st st'
  proof -
    obtain t2 t3 where t: "surf (region_log w2) t2" "surf (region_log w3) t3" "replaceGeneration t2 < replaceGeneration t3"
      using r by (auto simp: recovered_def)
    obtain t1 where t1: "surf (region_log w1) t1" using region_surf [OF appended_ok [OF IH(1)]] by blast
    have "replaceGeneration t1 \<le> replaceGeneration t2" using generation_mono [OF t1] t(1) log2 by simp
    moreover have "t3 = st'" using surf_unique [OF t(2) st(2)] .
    ultimately show ?thesis using IH(3) st(1) t1 t(3) by fastforce
  qed
  moreover have "appended v (region_log w) w3" using a2 a3 by (auto simp: appended_def)
  moreover have "or_else (en_retries s2) 0 = Suc n" using r IH(2) by (simp add: recovered_def or_else_def)
  ultimately show ?case by blast
qed

text \<open>
  C16. The recovery from requests the provider refuses as too long is bounded and makes progress: as
  long as no answer of the model arrives, the engine asks for at most the configured number of
  retries, each after a recovery that has rewritten the surface, so the surface has been replaced
  at least once per retry.
\<close>

theorem overflow_retries_bounded:
  assumes "env_ok v" and "region_ok v w" and "overflow_chain v c pruner s w n s' w'" and "en_retries s = None"
    and "\<And>target. pf_maxOverflowRetries (tp_fields (resolveTargetPolicy c target)) \<le> M"
  shows "n \<le> M \<and> (\<exists>st st'. surf (region_log w) st \<and> surf (region_log w') st'
    \<and> replaceGeneration st + n \<le> replaceGeneration st')"
proof -
  note h = overflow_chain_inv [OF assms(3,1,2,5,4)]
  obtain st st' where "surf (region_log w) st" "surf (region_log w') st'"
    using region_surf [OF assms(2)] region_surf [OF appended_ok] h by blast
  with h show ?thesis by blast
qed

text \<open>
  C23. Automatic compaction never fails a turn: neither the listener that measures a session before a
  step nor the one that answers a refused request throws, whatever the compaction they attempt
  runs into; whatever they decide, all they do is append to the log, and a retry is answered only to
  an overflow, while the request is not cancelled, below the number of retries configured for the
  model the log's header routes to.
\<close>

theorem automatic_compaction_harmless:
  assumes "env_ok v" and "region_ok v w"
  shows "(\<forall>x w'. on_pre_step v c pruner s w \<noteq> Thrown x w')
    \<and> (\<forall>s' w'. on_pre_step v c pruner s w = Done s' w' \<longrightarrow> appended v (region_log w) w' \<and> en_retries s' = en_retries s)
    \<and> (\<forall>x w'. on_request_error v c pruner code s w \<noteq> Thrown x w')
    \<and> (\<forall>s' d w'. on_request_error v c pruner code s w = Done (s', d) w' \<longrightarrow>
        appended v (region_log w) w' \<and> (d = RetryRequest \<longrightarrow> recovered v c code s w s' w'))"
  using wp_pre_step [OF assms, of c pruner s] wp_request_error [OF assms, of c pruner code s]
  by (auto simp: wp_def)

text \<open>An overflow of the sample session is recovered by compacting all but its last message.\<close>

lemma sample_overflow_runs:
  "(case on_request_error sample_engine_env sample_engine_config None CONTEXT_WINDOW_EXCEEDED_CODE
       \<lparr>en_retries = None, en_agent = False, en_warned = []\<rparr> (sample_engine_world [sample_engine_tick None]) of
      Done r w' \<Rightarrow> snd r = RetryRequest | _ \<Rightarrow> False)"
  by code_simp

theorem overflow_retries_bounded_witness:
  "\<exists>s' w' st st'. overflow_chain sample_engine_env sample_engine_config None
      \<lparr>en_retries = None, en_agent = False, en_warned = []\<rparr> (sample_engine_world [sample_engine_tick None]) 1 s' w'
    \<and> surf (region_log (sample_engine_world [sample_engine_tick None])) st \<and> surf (region_log w') st'
    \<and> replaceGeneration st < replaceGeneration st'"
proof -
  let ?w = "sample_engine_world [sample_engine_tick None]"
  let ?s = "\<lparr>en_retries = None, en_agent = False, en_warned = []\<rparr>"
  obtain s' w' where run: "on_request_error sample_engine_env sample_engine_config None CONTEXT_WINDOW_EXCEEDED_CODE ?s ?w
      = Done (s', RetryRequest) w'"
    using sample_overflow_runs by (auto split: run.splits)
  have "grows sample_engine_env ?w [] ?w" by (rule region_grows_refl [OF sample_engine_ok(2)])
  then have chain: "overflow_chain sample_engine_env sample_engine_config None ?s ?w 1 s' w'"
    using oc_retry [OF oc_none, of sample_engine_env ?w "[]" ?w sample_engine_config None _ ?s s' w'] run by simp
  have max: "pf_maxOverflowRetries (tp_fields (resolveTargetPolicy sample_engine_config target)) \<le> 1" for target
    by (simp add: Let_def resolveTargetPolicy_def sample_engine_config_def merge_fields_def or_else_def nat_field_def rat_field_def)
  from overflow_retries_bounded [OF sample_engine_ok chain _ max] obtain st st' where
    "surf (region_log ?w) st" "surf (region_log w') st'" "replaceGeneration st + 1 \<le> replaceGeneration st'" by auto
  with chain show ?thesis 
    by (intro exI [of _ s'] exI [of _ w'] exI [of _ st] exI [of _ st']) simp
qed

theorem automatic_compaction_harmless_witness:
  "\<exists>s' w'. on_request_error sample_engine_env sample_engine_config None CONTEXT_WINDOW_EXCEEDED_CODE
      \<lparr>en_retries = None, en_agent = False, en_warned = []\<rparr> (sample_engine_world [sample_engine_tick None])
      = Done (s', RetryRequest) w'
    \<and> en_retries s' = Some 1"
proof -
  obtain s' w' where run: "on_request_error sample_engine_env sample_engine_config None CONTEXT_WINDOW_EXCEEDED_CODE
      \<lparr>en_retries = None, en_agent = False, en_warned = []\<rparr> (sample_engine_world [sample_engine_tick None])
      = Done (s', RetryRequest) w'"
    using sample_overflow_runs by (auto split: run.splits)
  with automatic_compaction_harmless [OF sample_engine_ok] have
    "recovered sample_engine_env sample_engine_config CONTEXT_WINDOW_EXCEEDED_CODE
      \<lparr>en_retries = None, en_agent = False, en_warned = []\<rparr> (sample_engine_world [sample_engine_tick None]) s' w'" by blast
  with run show ?thesis by (auto simp: recovered_def or_else_def)
qed

end
