(* ===== verification/Calendar.thy ===== *)
theory Calendar imports Json begin

text \<open>
  The instants of packages/schedule/schedule/src/domain.ts: the proleptic Gregorian calendar of
  JavaScript's \<open>Date\<close> in UTC, its ISO form, the strict syntaxes the package accepts and the
  resolution of a local wall-clock value in a time zone. An epoch is an integer count of
  milliseconds. What the zone database says is an argument: the formatter of a zone gives, for an
  epoch, the local calendar fields and the name of the offset.
\<close>

section \<open>The calendar of \<open>Date\<close>\<close>

record calendar_parts =
  ca_year :: int
  ca_month :: int
  ca_day :: int
  ca_hour :: int
  ca_minute :: int
  ca_second :: int
  ca_millisecond :: int

definition leap_year :: "int \<Rightarrow> bool" where
  "leap_year y \<longleftrightarrow> y mod 4 = 0 \<and> (y mod 100 \<noteq> 0 \<or> y mod 400 = 0)"

text \<open>The number of the first day of a year, counted from 1970-01-01.\<close>

definition year_start :: "int \<Rightarrow> int" where
  "year_start y = 365 * (y - 1970) + (y - 1969) div 4 - (y - 1901) div 100 + (y - 1601) div 400"

text \<open>The day of the year a month starts with, the first day being 0.\<close>

definition month_offset :: "int \<Rightarrow> int" where
  "month_offset m =
     (if m \<le> 1 then 0 else if m = 2 then 31 else if m = 3 then 59 else if m = 4 then 90 else if m = 5 then 120
      else if m = 6 then 151 else if m = 7 then 181 else if m = 8 then 212 else if m = 9 then 243
      else if m = 10 then 273 else if m = 11 then 304 else 334)"

definition month_start :: "bool \<Rightarrow> int \<Rightarrow> int" where
  "month_start l m = month_offset m + (if l \<and> m > 2 then 1 else 0)"

definition month_days :: "bool \<Rightarrow> int \<Rightarrow> int" where
  "month_days l m =
     (if m = 2 then (if l then 29 else 28) else if m = 4 \<or> m = 6 \<or> m = 9 \<or> m = 11 then 30 else 31)"

text \<open>The inverse: the year is estimated from the mean length and corrected by one.\<close>

definition year_of_day :: "int \<Rightarrow> int" where
  "year_of_day d =
     (let y = 1970 + (400 * d) div 146097
      in if year_start (y + 1) \<le> d then y + 1 else if d < year_start y then y - 1 else y)"

definition month_of_yday :: "bool \<Rightarrow> int \<Rightarrow> int" where
  "month_of_yday l n =
     (if month_start l 12 \<le> n then 12 else if month_start l 11 \<le> n then 11 else if month_start l 10 \<le> n then 10
      else if month_start l 9 \<le> n then 9 else if month_start l 8 \<le> n then 8 else if month_start l 7 \<le> n then 7
      else if month_start l 6 \<le> n then 6 else if month_start l 5 \<le> n then 5 else if month_start l 4 \<le> n then 4
      else if month_start l 3 \<le> n then 3 else if month_start l 2 \<le> n then 2 else 1)"

definition MS_PER_DAY :: int where
  "MS_PER_DAY = 86400000"

text \<open>The setters of \<open>Date\<close> add up their arguments without looking at their ranges.\<close>

definition date_value :: "calendar_parts \<Rightarrow> int" where
  "date_value c =
     (let y = ca_year c + (ca_month c - 1) div 12; m = (ca_month c - 1) mod 12 + 1
      in (year_start y + month_start (leap_year y) m + ca_day c - 1) * MS_PER_DAY
         + ca_hour c * 3600000 + ca_minute c * 60000 + ca_second c * 1000 + ca_millisecond c)"

text \<open>The getters.\<close>

definition date_fields :: "int \<Rightarrow> calendar_parts" where
  "date_fields t =
     (let d = t div MS_PER_DAY; r = t mod MS_PER_DAY;
          y = year_of_day d; n = d - year_start y; m = month_of_yday (leap_year y) n
      in \<lparr>ca_year = y, ca_month = m, ca_day = n - month_start (leap_year y) m + 1,
          ca_hour = r div 3600000, ca_minute = r div 60000 mod 60,
          ca_second = r div 1000 mod 60, ca_millisecond = r mod 1000\<rparr>)"

text \<open>A real date and time.\<close>

definition real_parts :: "calendar_parts \<Rightarrow> bool" where
  "real_parts c \<longleftrightarrow> 1 \<le> ca_month c \<and> ca_month c \<le> 12
     \<and> 1 \<le> ca_day c \<and> ca_day c \<le> month_days (leap_year (ca_year c)) (ca_month c)
     \<and> 0 \<le> ca_hour c \<and> ca_hour c < 24 \<and> 0 \<le> ca_minute c \<and> ca_minute c < 60
     \<and> 0 \<le> ca_second c \<and> ca_second c < 60 \<and> 0 \<le> ca_millisecond c \<and> ca_millisecond c < 1000"

lemma div_step:
  fixes y k c n :: int
  assumes "0 < k" and n: "n = k * c + 1"
  shows "(y + 1 - n) div k = (y - n) div k + (if y mod k = 0 then 1 else 0)"
proof -
  define q r where "q = y div k" and "r = y mod k"
  then have y: "y = k * q + r" "0 \<le> r" "r < k" using assms by simp_all
  have "(y + 1 - n) div k = q - c"
    by (rule int_div_pos_eq [of _ _ _ r]) (use y n in \<open>simp_all add: algebra_simps\<close>)
  moreover have "(y - n) div k = q - c - (if r = 0 then 1 else 0)"
    by (rule int_div_pos_eq [of _ _ _ "if r = 0 then k - 1 else r - 1"])
      (use y n in \<open>auto simp: algebra_simps\<close>)
  ultimately show ?thesis unfolding r_def [symmetric] by simp
qed

lemma year_length: "year_start (y + 1) = year_start y + (if leap_year y then 366 else 365)"
proof -
  have "y mod 400 = 0 \<Longrightarrow> y mod 100 = 0" and "y mod 100 = 0 \<Longrightarrow> y mod 4 = 0"
    using mod_mod_cancel [of 100 400 y] mod_mod_cancel [of 4 100 y] by simp_all
  note imp = this
  have "(y + 1 - 1969) div 4 = (y - 1969) div 4 + (if y mod 4 = 0 then 1 else 0)"
    and "(y + 1 - 1901) div 100 = (y - 1901) div 100 + (if y mod 100 = 0 then 1 else 0)"
    and "(y + 1 - 1601) div 400 = (y - 1601) div 400 + (if y mod 400 = 0 then 1 else 0)"
    by (rule div_step [of 4 _ 492] div_step [of 100 _ 19] div_step [of 400 _ 4]; simp)+
  moreover have "365 * (y + 1 - 1970) + A' - B' + C' = 365 * (y - 1970) + A - B + C + 365 + a - b + c"
    if "A' = A + a" "B' = B + b" "C' = C + c" for A' A a B' B b C' C c :: int
    using that by simp
  ultimately have "year_start (y + 1) = year_start y + 365 + (if y mod 4 = 0 then 1 else 0)
      - (if y mod 100 = 0 then 1 else 0) + (if y mod 400 = 0 then 1 else 0)"
    unfolding year_start_def by blast
  then show ?thesis
    unfolding leap_year_def using imp
    by (cases "y mod 4 = 0"; cases "y mod 100 = 0"; cases "y mod 400 = 0") simp_all
qed

lemma year_start_bounds:
  "146097 * (y - 1970) - 1000 < 400 * year_start y \<and> 400 * year_start y < 146097 * (y - 1970) + 1000"
  using div_bounds [of 4 "y - 1969"] div_bounds [of 100 "y - 1901"] div_bounds [of 400 "y - 1601"]
  unfolding year_start_def by simp

lemma year_of_day_spec: "year_start (year_of_day d) \<le> d \<and> d < year_start (year_of_day d + 1)"
proof -
  define y where "y = 1970 + (400 * d) div 146097"
  have "146097 * (y - 1970) \<le> 400 * d" "400 * d < 146097 * (y - 1970) + 146097"
    using div_bounds [of 146097 "400 * d"] by (simp_all add: y_def)
  moreover note year_start_bounds [of "y - 1"] year_start_bounds [of "y + 2"]
  ultimately have "year_start (y - 1) \<le> d" and "d < year_start (y + 1 + 1)"
    by (simp_all add: algebra_simps)
  then show ?thesis
    unfolding year_of_day_def y_def [symmetric] Let_def by auto
qed

lemma year_start_mono: "y \<le> y' \<Longrightarrow> year_start y \<le> year_start y'"
proof (induction "nat (y' - y)" arbitrary: y')
  case (Suc n)
  then have "year_start y \<le> year_start (y' - 1)" by auto
  then show ?case using year_length [of "y' - 1"] by (auto split: if_splits)
qed simp

lemma year_of_day_unique: "year_start y \<le> d \<Longrightarrow> d < year_start (y + 1) \<Longrightarrow> year_of_day d = y"
  using year_of_day_spec [of d] year_start_mono [of "y + 1" "year_of_day d"]
    year_start_mono [of "year_of_day d + 1" y] by linarith

lemma month_range:
  "1 \<le> m \<Longrightarrow> m \<le> 12 \<Longrightarrow> m \<in> {1, 2, 3, 4, 5, 6, 7, 8, 9, 10, 11, 12 :: int}"
  by simp presburger

lemma month_of_start:
  assumes "1 \<le> m" "m \<le> 12" "0 \<le> k" "k < month_days l m"
  shows "month_of_yday l (month_start l m + k) = m"
    and "0 \<le> month_start l m + k" and "month_start l m + k < (if l then 366 else 365)"
  using month_range [OF assms(1,2)] assms(3,4)
  by (cases l; auto simp: month_of_yday_def month_start_def month_offset_def month_days_def)+

lemma month_of_yday_spec:
  assumes "0 \<le> n" "n < (if l then 366 else 365)"
  shows "1 \<le> month_of_yday l n" "month_of_yday l n \<le> 12"
    "month_start l (month_of_yday l n) \<le> n"
    "n < month_start l (month_of_yday l n) + month_days l (month_of_yday l n)"
  using assms
  by (cases l; auto simp: month_of_yday_def month_start_def month_offset_def month_days_def)+

lemma time_of_day:
  assumes "0 \<le> h" "h < 24" "0 \<le> mi" "mi < 60" "0 \<le> s" "s < 60" "0 \<le> ms" "ms < (1000 :: int)"
  shows "0 \<le> h * 3600000 + mi * 60000 + s * 1000 + ms"
    and "h * 3600000 + mi * 60000 + s * 1000 + ms < 86400000"
    and "(h * 3600000 + mi * 60000 + s * 1000 + ms) div 3600000 = h"
    and "(h * 3600000 + mi * 60000 + s * 1000 + ms) div 60000 mod 60 = mi"
    and "(h * 3600000 + mi * 60000 + s * 1000 + ms) div 1000 mod 60 = s"
    and "(h * 3600000 + mi * 60000 + s * 1000 + ms) mod 1000 = ms"
proof -
  show "0 \<le> h * 3600000 + mi * 60000 + s * 1000 + ms"
    and "h * 3600000 + mi * 60000 + s * 1000 + ms < 86400000" using assms by linarith+
  have e1: "h * 3600000 + mi * 60000 + s * 1000 + ms = 3600000 * h + (mi * 60000 + s * 1000 + ms)" by simp
  show "(h * 3600000 + mi * 60000 + s * 1000 + ms) div 3600000 = h"
    by (rule int_div_pos_eq [OF e1]) (use assms in linarith)+
  have e2: "h * 3600000 + mi * 60000 + s * 1000 + ms = 60000 * (60 * h + mi) + (s * 1000 + ms)" by simp
  have "(h * 3600000 + mi * 60000 + s * 1000 + ms) div 60000 = 60 * h + mi"
    by (rule int_div_pos_eq [OF e2]) (use assms in linarith)+
  then show "(h * 3600000 + mi * 60000 + s * 1000 + ms) div 60000 mod 60 = mi" using assms by simp
  have e3: "h * 3600000 + mi * 60000 + s * 1000 + ms = 1000 * (60 * (60 * h + mi) + s) + ms" by simp
  have "(h * 3600000 + mi * 60000 + s * 1000 + ms) div 1000 = 60 * (60 * h + mi) + s"
    by (rule int_div_pos_eq [OF e3]) (use assms in simp_all)
  then show "(h * 3600000 + mi * 60000 + s * 1000 + ms) div 1000 mod 60 = s"
    by (simp only: mod_mult_self4) (use assms in simp)
  show "(h * 3600000 + mi * 60000 + s * 1000 + ms) mod 1000 = ms"
    by (rule int_mod_pos_eq [OF e3]) (use assms in simp_all)
qed


lemma date_value_month:
  assumes "1 \<le> ca_month c" and "ca_month c \<le> 12"
  shows "date_value c =
    (year_start (ca_year c) + month_start (leap_year (ca_year c)) (ca_month c) + ca_day c - 1) * MS_PER_DAY
    + ca_hour c * 3600000 + ca_minute c * 60000 + ca_second c * 1000 + ca_millisecond c"
proof -
  have "(ca_month c - 1) div 12 = 0" and "(ca_month c - 1) mod 12 = ca_month c - 1" using assms by simp_all
  then show ?thesis by (simp add: date_value_def Let_def)
qed

lemma date_fields_value:
  assumes "real_parts c"
  shows "date_fields (date_value c) = c"
proof -
  define l where "l = leap_year (ca_year c)"
  define n where "n = month_start l (ca_month c) + (ca_day c - 1)"
  define r where "r = ca_hour c * 3600000 + ca_minute c * 60000 + ca_second c * 1000 + ca_millisecond c"
  have c: "1 \<le> ca_month c" "ca_month c \<le> 12" "0 \<le> ca_day c - 1" "ca_day c - 1 < month_days l (ca_month c)"
    using assms by (auto simp: real_parts_def l_def)
  note month = month_of_start [OF c, folded n_def]
  have time: "0 \<le> r" "r < 86400000" "r div 3600000 = ca_hour c" "r div 60000 mod 60 = ca_minute c"
    "r div 1000 mod 60 = ca_second c" "r mod 1000 = ca_millisecond c"
    unfolding r_def by (rule time_of_day; use assms in \<open>simp add: real_parts_def\<close>)+
  have e: "date_value c = MS_PER_DAY * (year_start (ca_year c) + n) + r"
    unfolding date_value_month [OF c(1,2)] n_def r_def l_def by (simp add: algebra_simps)
  have day: "date_value c div MS_PER_DAY = year_start (ca_year c) + n"
    by (rule int_div_pos_eq [OF e]) (use time in \<open>simp_all add: MS_PER_DAY_def\<close>)
  have rest: "date_value c mod MS_PER_DAY = r"
    by (rule int_mod_pos_eq [OF e]) (use time in \<open>simp_all add: MS_PER_DAY_def\<close>)
  have year: "year_of_day (year_start (ca_year c) + n) = ca_year c"
    by (rule year_of_day_unique) (use month year_length [of "ca_year c"] in \<open>simp_all add: l_def\<close>)
  show ?thesis
    unfolding date_fields_def Let_def day rest year using time month(1) by (simp add: l_def n_def)
qed

lemma date_fields_spec: "real_parts (date_fields t) \<and> date_value (date_fields t) = t"
proof -
  define d r where "d = t div MS_PER_DAY" and "r = t mod MS_PER_DAY"
  define y where "y = year_of_day d"
  define l n where "l = leap_year y" and "n = d - year_start y"
  define m where "m = month_of_yday l n"
  have n: "0 \<le> n" "n < (if l then 366 else 365)"
    using year_of_day_spec [of d] year_length [of y] by (simp_all add: n_def y_def l_def)
  note month = month_of_yday_spec [OF n, folded m_def]
  have r: "0 \<le> r" "r < 86400000" by (simp_all add: r_def MS_PER_DAY_def)
  have clock: "(r div 3600000) * 3600000 + (r div 60000 mod 60) * 60000 + (r div 1000 mod 60) * 1000 + r mod 1000 = r"
  proof -
    have parts: "r div 60000 = r div 1000 div 60" "r div 3600000 = r div 1000 div 60 div 60"
      by (simp_all only: zdiv_zmult2_eq [symmetric]) simp_all
    have "1000 * (60 * (60 * a + b) + c) + e = a * 3600000 + b * 60000 + c * 1000 + e" for a b c e :: int
      by simp
    moreover have "1000 * (60 * (60 * (r div 1000 div 60 div 60) + r div 1000 div 60 mod 60) + r div 1000 mod 60) + r mod 1000 = r"
      by (simp only: mult_div_mod_eq)
    ultimately show ?thesis unfolding parts by (rule trans [OF sym])
  qed
  define h mi s ms where hms: "h = r div 3600000" "mi = r div 60000 mod 60" "s = r div 1000 mod 60" "ms = r mod 1000"
  have "0 \<le> h" "h < 24" using r div_bounds [of 3600000 r] unfolding hms by linarith+
  moreover have "0 \<le> mi" "mi < 60" "0 \<le> s" "s < 60" "0 \<le> ms" "ms < 1000" by (simp_all add: hms)
  ultimately have *: "0 \<le> h" "h < 24" "0 \<le> mi" "mi < 60" "0 \<le> s" "s < 60" "0 \<le> ms" "ms < 1000"
    by simp_all
  have fields: "date_fields t = \<lparr>ca_year = y, ca_month = m, ca_day = n - month_start l m + 1,
      ca_hour = h, ca_minute = mi, ca_second = s, ca_millisecond = ms\<rparr>"
    by (simp only: date_fields_def Let_def d_def r_def y_def l_def n_def m_def hms)
  have "h * 3600000 + mi * 60000 + s * 1000 + ms = r" using clock by (simp only: hms)
  moreover have "d * MS_PER_DAY + r = t" by (simp add: d_def r_def)
  ultimately have "date_value (date_fields t) = t"
    using month(1,2) by (simp add: fields date_value_month n_def l_def [symmetric] add.assoc)
  moreover have "real_parts (date_fields t)"
    using month * unfolding real_parts_def fields by (simp add: l_def [symmetric])
  ultimately show ?thesis by simp
qed

lemma date_value_inj: "real_parts c \<Longrightarrow> real_parts c' \<Longrightarrow> date_value c = date_value c' \<Longrightarrow> c = c'"
  by (metis date_fields_value)

section \<open>Years of four digits\<close>

definition MIN_FOUR_DIGIT_YEAR_MS :: int where
  "MIN_FOUR_DIGIT_YEAR_MS = -62135596800000"

definition MAX_FOUR_DIGIT_YEAR_MS :: int where
  "MAX_FOUR_DIGIT_YEAR_MS = 253402300799999"

lemma four_digit_bounds:
  "MIN_FOUR_DIGIT_YEAR_MS = year_start 1 * MS_PER_DAY"
  "MAX_FOUR_DIGIT_YEAR_MS + 1 = year_start 10000 * MS_PER_DAY"
  by (simp_all add: MIN_FOUR_DIGIT_YEAR_MS_def MAX_FOUR_DIGIT_YEAR_MS_def year_start_def MS_PER_DAY_def)

lemma year_range_iff:
  "1 \<le> ca_year (date_fields t) \<and> ca_year (date_fields t) \<le> 9999
   \<longleftrightarrow> MIN_FOUR_DIGIT_YEAR_MS \<le> t \<and> t \<le> MAX_FOUR_DIGIT_YEAR_MS"
proof -
  define d where "d = t div MS_PER_DAY"
  have y: "ca_year (date_fields t) = year_of_day d" by (simp add: date_fields_def Let_def d_def)
  have "1 \<le> year_of_day d \<longleftrightarrow> year_start 1 \<le> d"
    using year_of_day_spec [of d] year_start_mono [of 1 "year_of_day d"]
      year_start_mono [of "year_of_day d + 1" 1] by linarith
  moreover have "year_of_day d \<le> 9999 \<longleftrightarrow> d < year_start 10000"
    using year_of_day_spec [of d] year_start_mono [of 10000 "year_of_day d"]
      year_start_mono [of "year_of_day d + 1" 10000] by linarith
  moreover have "k \<le> d \<longleftrightarrow> k * MS_PER_DAY \<le> t" for k
    using div_bounds [of MS_PER_DAY t] unfolding d_def MS_PER_DAY_def by linarith
  ultimately show ?thesis unfolding y using four_digit_bounds by (smt (verit))
qed

end
