(* ===== verification/ScheduleTime.thy ===== *)
theory ScheduleTime imports Calendar begin

text \<open>
  The strict time syntaxes of packages/schedule/schedule/src/domain.ts and the resolution of a
  local wall-clock value. What the zone database says is an argument: the canonical name of a
  zone and its formatter, which gives for an epoch the local calendar fields and the name of the
  offset. The regular expressions are the matchers they are used as; the branches marked
  unreachable for a successful match are left out.
\<close>

section \<open>Digits\<close>

definition digit_value :: "char \<Rightarrow> int option" where
  "digit_value c = (let n = of_char c :: nat in if 48 \<le> n \<and> n \<le> 57 then Some (int n - 48) else None)"

fun take_digits :: "nat \<Rightarrow> int \<Rightarrow> string \<Rightarrow> (int \<times> string) option" where
  "take_digits 0 acc s = Some (acc, s)"
| "take_digits (Suc k) acc [] = None"
| "take_digits (Suc k) acc (c # s) =
     (case digit_value c of None \<Rightarrow> None | Some d \<Rightarrow> take_digits k (10 * acc + d) s)"

fun take_char :: "char \<Rightarrow> string \<Rightarrow> string option" where
  "take_char c [] = None"
| "take_char c (x # s) = (if x = c then Some s else None)"

definition take_number :: "nat \<Rightarrow> string \<Rightarrow> (int \<times> string) option" where
  "take_number k s = take_digits k 0 s"

fun pad :: "nat \<Rightarrow> int \<Rightarrow> string" where
  "pad 0 n = []"
| "pad (Suc k) n = pad k (n div 10) @ [char_of (nat (48 + n mod 10))]"

abbreviation obind :: "'a option \<Rightarrow> ('a \<Rightarrow> 'b option) \<Rightarrow> 'b option" where
  "obind \<equiv> Option.bind"

text \<open>The shapes \<open>YYYY-MM-DD\<close> and \<open>HH:mm:ss\<close>, with the rest of the text.\<close>

definition take_date :: "string \<Rightarrow> ((int \<times> int \<times> int) \<times> string) option" where
  "take_date s =
     obind (take_number 4 s) (\<lambda>(y, s). obind (take_char CHR ''-'' s) (\<lambda>s.
     obind (take_number 2 s) (\<lambda>(m, s). obind (take_char CHR ''-'' s) (\<lambda>s.
     obind (take_number 2 s) (\<lambda>(d, s). Some ((y, m, d), s))))))"

definition take_clock :: "string \<Rightarrow> ((int \<times> int \<times> int) \<times> string) option" where
  "take_clock s =
     obind (take_number 2 s) (\<lambda>(h, s). obind (take_char CHR '':'' s) (\<lambda>s.
     obind (take_number 2 s) (\<lambda>(mi, s). obind (take_char CHR '':'' s) (\<lambda>s.
     obind (take_number 2 s) (\<lambda>(sec, s). Some ((h, mi, sec), s))))))"

section \<open>Canonical instants\<close>

definition calendar_of :: "int \<times> int \<times> int \<Rightarrow> int \<times> int \<times> int \<Rightarrow> int \<Rightarrow> calendar_parts" where
  "calendar_of date clock ms = (case (date, clock) of ((y, m, d), (h, mi, sec)) \<Rightarrow>
     \<lparr>ca_year = y, ca_month = m, ca_day = d, ca_hour = h, ca_minute = mi, ca_second = sec, ca_millisecond = ms\<rparr>)"

text \<open>The ranges the pattern of a canonical instant allows: a day up to 31 in every month.\<close>

definition canonical_ranges :: "calendar_parts \<Rightarrow> bool" where
  "canonical_ranges c \<longleftrightarrow> ca_year c \<noteq> 0 \<and> 1 \<le> ca_month c \<and> ca_month c \<le> 12 \<and> 1 \<le> ca_day c \<and> ca_day c \<le> 31
     \<and> ca_hour c \<le> 23 \<and> ca_minute c \<le> 59 \<and> ca_second c \<le> 59"

definition utc_instant :: "string \<Rightarrow> calendar_parts option" where
  "utc_instant s =
     obind (take_date s) (\<lambda>(date, s). obind (take_char CHR ''T'' s) (\<lambda>s.
     obind (take_clock s) (\<lambda>(clock, s). obind (take_char CHR ''.'' s) (\<lambda>s.
     obind (take_number 3 s) (\<lambda>(ms, s).
       let c = calendar_of date clock ms
       in if s = ''Z'' \<and> canonical_ranges c then Some c else None)))))"

text \<open>\<open>Date.prototype.toISOString\<close>, with its signed six-digit years.\<close>

definition iso_year :: "int \<Rightarrow> string" where
  "iso_year y = (if 0 \<le> y \<and> y \<le> 9999 then pad 4 y else (if y < 0 then CHR ''-'' else CHR ''+'') # pad 6 \<bar>y\<bar>)"

definition iso_string :: "int \<Rightarrow> string" where
  "iso_string t =
     (let c = date_fields t
      in iso_year (ca_year c) @ CHR ''-'' # pad 2 (ca_month c) @ CHR ''-'' # pad 2 (ca_day c) @ CHR ''T'' #
         pad 2 (ca_hour c) @ CHR '':'' # pad 2 (ca_minute c) @ CHR '':'' # pad 2 (ca_second c) @ CHR ''.'' #
         pad 3 (ca_millisecond c) @ ''Z'')"

datatype schedule_log_error =
    IdMalformed
  | InstantShape
  | InstantUnreal
  | RecordKeys string
  | PromptUntrimmed string
  | AfterSecondsInvalid
  | EverySecondsInvalid
  | RecordNotObject
  | RecordKind
  | ChangeNotObject
  | ChangeVersion
  | ChangeKeys string
  | ChangeOperation
  | AcceptedAtRange
  | IntervalInvalid
  | DispatchEarly
  | OccurrenceArithmetic
  | OneShotAcceptedAt
  | EveryAcceptedAtMissing
  | SeedLengthRange
  | IdReused string
  | DeleteInactive string
  | DispatchInactive string

text \<open>\<open>Date.parse\<close> on a text of the canonical shape.\<close>

definition date_parse :: "string \<Rightarrow> int" where
  "date_parse s = (case utc_instant s of None \<Rightarrow> 0 | Some c \<Rightarrow> date_value c)"

definition decodeInstant :: "json option \<Rightarrow> schedule_log_error + string" where
  "decodeInstant v =
     (case v of
        Some (JStr s) \<Rightarrow>
          (case utc_instant s of
             None \<Rightarrow> Inl InstantShape
           | Some c \<Rightarrow> if iso_string (date_value c) \<noteq> s then Inl InstantUnreal else Inr s)
      | _ \<Rightarrow> Inl InstantShape)"

section \<open>Model input\<close>

datatype schedule_input_error =
    EmptyPrompt
  | AfterNotPositive
  | EveryNotSafe
  | EveryTooOften
  | AtShape
  | AtUnreal
  | AtOffset
  | LocalShape
  | LocalUnreal
  | LocalKeys
  | LocalStrings
  | LocalGap
  | AtNeither
  | ZoneInvalid
  | ZoneNotString
  | ZoneUnresolved
  | ZoneNoOffset
  | OutOfRange
  | NotFuture

fun input_code :: "schedule_input_error \<Rightarrow> string" where
  "input_code EmptyPrompt = ''invalid_prompt''"
| "input_code EveryTooOften = ''frequency_too_high''"
| "input_code ZoneInvalid = ''invalid_time_zone''"
| "input_code ZoneNotString = ''invalid_time_zone''"
| "input_code ZoneUnresolved = ''invalid_time_zone''"
| "input_code ZoneNoOffset = ''invalid_time_zone''"
| "input_code OutOfRange = ''time_out_of_range''"
| "input_code NotFuture = ''not_future''"
| "input_code _ = ''invalid_rule''"

definition calendarEpoch :: "calendar_parts \<Rightarrow> schedule_input_error + int" where
  "calendarEpoch c = (if date_fields (date_value c) \<noteq> c then Inl AtUnreal else Inr (date_value c))"

text \<open>An optional fraction of one to three digits, padded to milliseconds, with the rest of the text.\<close>

definition take_fraction :: "string \<Rightarrow> (int \<times> string) option" where
  "take_fraction s =
     (case take_char CHR ''.'' s of
        None \<Rightarrow> Some (0, s)
      | Some s \<Rightarrow>
          (case take_number 3 s of
             Some (n, r) \<Rightarrow> Some (n, r)
           | None \<Rightarrow>
               (case take_number 2 s of
                  Some (n, r) \<Rightarrow> Some (10 * n, r)
                | None \<Rightarrow>
                    (case take_number 1 s of
                       Some (n, r) \<Rightarrow> Some (100 * n, r)
                     | None \<Rightarrow> None))))"

text \<open>A zone of an explicit offset: \<open>None\<close> is \<open>Z\<close>, otherwise the sign and the two fields.\<close>

definition take_zone :: "string \<Rightarrow> (char \<times> int \<times> int) option option" where
  "take_zone s =
     (case s of
        [] \<Rightarrow> None
      | c # s \<Rightarrow>
          if c = CHR ''Z'' then (if s = [] then Some None else None)
          else if c = CHR ''+'' \<or> c = CHR ''-'' then
            obind (take_number 2 s) (\<lambda>(h, s). obind (take_char CHR '':'' s) (\<lambda>s.
            obind (take_number 2 s) (\<lambda>(mi, s). if s = [] then Some (Some (c, h, mi)) else None)))
          else None)"

definition offset_instant :: "string \<Rightarrow> (calendar_parts \<times> (char \<times> int \<times> int) option) option" where
  "offset_instant s =
     obind (take_date s) (\<lambda>(date, s). obind (take_char CHR ''T'' s) (\<lambda>s.
     obind (take_clock s) (\<lambda>(clock, s). obind (take_fraction s) (\<lambda>(ms, s).
     obind (take_zone s) (\<lambda>zone. Some (calendar_of date clock ms, zone))))))"

definition clock_out_of_range :: "calendar_parts \<Rightarrow> bool" where
  "clock_out_of_range c \<longleftrightarrow> ca_year c = 0 \<or> ca_hour c > 23 \<or> ca_minute c > 59 \<or> ca_second c > 59"

definition parseOffsetInstant :: "string \<Rightarrow> schedule_input_error + int" where
  "parseOffsetInstant s =
     (case offset_instant s of
        None \<Rightarrow> Inl AtShape
      | Some (parts, zone) \<Rightarrow>
          if clock_out_of_range parts then Inl AtUnreal
          else rbind (calendarEpoch parts) (\<lambda>localEpoch.
            case zone of
              None \<Rightarrow> Inr localEpoch
            | Some (sign, h, mi) \<Rightarrow>
                if h > 23 \<or> mi > 59 \<or> (sign = CHR ''-'' \<and> h = 0 \<and> mi = 0) then Inl AtOffset
                else Inr (localEpoch - (if sign = CHR ''+'' then 1 else - 1) * (h * 60 + mi) * 60000)))"

record local_at =
  la_date :: string
  la_time :: string
  la_zone :: string

definition parseLocalAt :: "local_at \<Rightarrow> schedule_input_error + calendar_parts" where
  "parseLocalAt v =
     (case (take_date (la_date v), obind (take_clock (la_time v)) (\<lambda>(clock, s). map_option (Pair clock) (take_fraction s))) of
        (Some (date, []), Some (clock, ms, [])) \<Rightarrow>
          (let parts = calendar_of date clock ms
           in if clock_out_of_range parts then Inl LocalUnreal
              else rbind (calendarEpoch parts) (\<lambda>_. Inr parts))
      | _ \<Rightarrow> Inl LocalShape)"

text \<open>\<open>Number.isSafeInteger\<close> of the two epochs is the test of the range of safe integers.\<close>

definition futureInstant :: "int \<Rightarrow> int \<Rightarrow> schedule_input_error + string" where
  "futureInstant epoch now =
     (if \<not> safe_int now \<or> \<not> safe_int epoch \<or> epoch < MIN_FOUR_DIGIT_YEAR_MS \<or> epoch > MAX_FOUR_DIGIT_YEAR_MS
      then Inl OutOfRange
      else if epoch \<le> now then Inl NotFuture
      else if utc_instant (iso_string epoch) = None then Inl OutOfRange
      else Inr (iso_string epoch))"

section \<open>Time zones\<close>

record zone_env =
  ze_canonical :: "string \<Rightarrow> string option"
  ze_format :: "string \<Rightarrow> int \<Rightarrow> calendar_parts \<times> string"

definition letter :: "char \<Rightarrow> bool" where
  "letter c \<longleftrightarrow> (let n = of_char c :: nat in (65 \<le> n \<and> n \<le> 90) \<or> (97 \<le> n \<and> n \<le> 122))"

definition zone_char :: "char \<Rightarrow> bool" where
  "zone_char c \<longleftrightarrow> letter c \<or> digit_value c \<noteq> None \<or> c \<in> {CHR ''_'', CHR ''+'', CHR ''.'', CHR ''-''}"

fun split_on :: "char \<Rightarrow> string \<Rightarrow> string list" where
  "split_on c [] = [[]]"
| "split_on c (x # s) =
     (if x = c then [] # split_on c s
      else (case split_on c s of [] \<Rightarrow> [[x]] | p # ps \<Rightarrow> (x # p) # ps))"

definition iana_zone :: "string \<Rightarrow> bool" where
  "iana_zone s \<longleftrightarrow>
     (case split_on CHR ''/'' s of
        p # q # ps \<Rightarrow> p \<noteq> [] \<and> letter (hd p) \<and> list_all zone_char p
          \<and> list_all (\<lambda>r. r \<noteq> [] \<and> list_all zone_char r) (q # ps)
      | _ \<Rightarrow> False)"

definition canonicalizeTimeZone :: "zone_env \<Rightarrow> string \<Rightarrow> schedule_input_error + string" where
  "canonicalizeTimeZone z s =
     (if length s = 0 \<or> trim s \<noteq> s \<or> (s \<noteq> ''UTC'' \<and> \<not> iana_zone s) then Inl ZoneInvalid
      else (case ze_canonical z s of
          None \<Rightarrow> Inl ZoneInvalid
        | Some canonical \<Rightarrow>
            if canonical \<noteq> ''UTC'' \<and> \<not> iana_zone canonical then Inl ZoneUnresolved else Inr canonical))"

text \<open>The name of an offset: \<open>GMT\<close>, or \<open>GMT\<close> with a sign, hours, minutes and optional seconds.\<close>

definition offset_name :: "string \<Rightarrow> int option" where
  "offset_name s =
     obind (take_char CHR ''G'' s) (\<lambda>s. obind (take_char CHR ''M'' s) (\<lambda>s. obind (take_char CHR ''T'' s) (\<lambda>s.
       case s of
         [] \<Rightarrow> Some 0
       | sign # s \<Rightarrow>
           if sign = CHR ''+'' \<or> sign = CHR ''-'' then
             obind (take_number 2 s) (\<lambda>(h, s). obind (take_char CHR '':'' s) (\<lambda>s.
             obind (take_number 2 s) (\<lambda>(mi, s).
             obind (case s of [] \<Rightarrow> Some (0, []) | _ \<Rightarrow> obind (take_char CHR '':'' s) (take_number 2)) (\<lambda>(sec, s).
               if s = [] then Some ((if sign = CHR ''-'' then - 1 else 1) * (h * 3600 + mi * 60 + sec) * 1000)
               else None))))
           else None)))"

definition localProjection :: "(int \<Rightarrow> calendar_parts \<times> string) \<Rightarrow> int \<Rightarrow> schedule_input_error + (calendar_parts \<times> int)" where
  "localProjection formatter epoch =
     (case formatter epoch of (local, name) \<Rightarrow>
        (case offset_name name of
           None \<Rightarrow> Inl ZoneNoOffset
         | Some offset \<Rightarrow> Inr (local, offset)))"

definition sample_deltas :: "int list" where
  "sample_deltas = [-172800000, -86400000, 0, 86400000, 172800000]"

definition sample_epoch :: "int \<Rightarrow> int \<Rightarrow> int" where
  "sample_epoch localEpoch delta = min MAX_FOUR_DIGIT_YEAR_MS (max MIN_FOUR_DIGIT_YEAR_MS (localEpoch + delta))"

fun sample_offsets :: "(int \<Rightarrow> calendar_parts \<times> string) \<Rightarrow> int \<Rightarrow> int list \<Rightarrow> int list \<Rightarrow> schedule_input_error + int list" where
  "sample_offsets formatter localEpoch [] offsets = Inr offsets"
| "sample_offsets formatter localEpoch (delta # ds) offsets =
     rbind (localProjection formatter (sample_epoch localEpoch delta)) (\<lambda>(_, offset).
       sample_offsets formatter localEpoch ds (if offset \<in> set offsets then offsets else offsets @ [offset]))"

fun local_candidates ::
  "(int \<Rightarrow> calendar_parts \<times> string) \<Rightarrow> calendar_parts \<Rightarrow> int \<Rightarrow> int list \<Rightarrow> int list \<Rightarrow> bool
   \<Rightarrow> schedule_input_error + (int list \<times> bool)" where
  "local_candidates formatter parts localEpoch [] candidates outOfRange = Inr (candidates, outOfRange)"
| "local_candidates formatter parts localEpoch (offset # os) candidates outOfRange =
     (let candidate = localEpoch - offset
      in if candidate < MIN_FOUR_DIGIT_YEAR_MS \<or> candidate > MAX_FOUR_DIGIT_YEAR_MS
         then local_candidates formatter parts localEpoch os candidates True
         else rbind (localProjection formatter candidate) (\<lambda>(projected, _).
           local_candidates formatter parts localEpoch os
             (if projected = parts then candidates @ [candidate] else candidates) outOfRange))"

definition resolveLocalInstant :: "zone_env \<Rightarrow> calendar_parts \<Rightarrow> string \<Rightarrow> schedule_input_error + int" where
  "resolveLocalInstant z parts zone =
     rbind (calendarEpoch parts) (\<lambda>localEpoch.
     rbind (sample_offsets (ze_format z zone) localEpoch sample_deltas []) (\<lambda>offsets.
     rbind (local_candidates (ze_format z zone) parts localEpoch offsets [] False) (\<lambda>(candidates, outOfRange).
       case sort candidates of
         first # _ \<Rightarrow> Inr first
       | [] \<Rightarrow> if outOfRange then Inl OutOfRange else Inl LocalGap)))"


section \<open>Parsing what was printed\<close>

lemma digit_value_char: "0 \<le> n \<Longrightarrow> n < 10 \<Longrightarrow> digit_value (char_of (nat (48 + n))) = Some n"
proof -
  assume n: "0 \<le> n" "n < 10"
  then have "of_char (char_of (nat (48 + n)) :: char) = nat (48 + n)" by (simp add: of_char_of)
  moreover have "48 \<le> nat (48 + n)" "nat (48 + n) \<le> 57" "int (nat (48 + n)) = 48 + n" using n by linarith+
  ultimately show ?thesis by (simp add: digit_value_def)
qed

lemma digit_valueD:
  assumes "digit_value c = Some n"
  shows "0 \<le> n \<and> n < 10 \<and> c = char_of (nat (48 + n))"
proof -
  have "48 \<le> (of_char c :: nat)" "(of_char c :: nat) \<le> 57" "n = int (of_char c) - 48"
    using assms by (auto simp: digit_value_def Let_def split: if_splits)
  then show ?thesis by simp
qed

lemma take_digits_split:
  "take_digits (j + k) a s = Option.bind (take_digits j a s) (\<lambda>(v, r). take_digits k v r)"
  by (induction j a s rule: take_digits.induct) (simp_all split: option.split)

lemma take_digits_Suc:
  "take_digits (Suc k) a s = Option.bind (take_digits k a s) (\<lambda>(v, r). case r of [] \<Rightarrow> None
     | c # r \<Rightarrow> map_option (\<lambda>d. (10 * v + d, r)) (digit_value c))"
  using take_digits_split [of k "Suc 0" a s]
  by (auto simp: fun_eq_iff intro!: arg_cong [of _ _ "Option.bind _"] split: list.split option.split)

lemma take_digits_pad:
  "0 \<le> n \<Longrightarrow> n < 10 ^ k \<Longrightarrow> take_digits k a (pad k n @ s) = Some (a * 10 ^ k + n, s)"
proof (induction k arbitrary: n s)
  case (Suc k)
  have "0 \<le> n div 10" "n div 10 < 10 ^ k" "0 \<le> n mod 10" "n mod 10 < 10"
    using Suc.prems div_bounds [of 10 n] by simp_all
  note IH = Suc.IH [OF this(1,2)] and d = digit_value_char [OF this(3,4)]
  then show ?case by (simp add: take_digits_Suc del: take_digits.simps(3))
qed simp

lemma take_digitsD:
  "take_digits k a s = Some (v, r) \<Longrightarrow> \<exists>n. 0 \<le> n \<and> n < 10 ^ k \<and> v = a * 10 ^ k + n \<and> s = pad k n @ r"
proof (induction k arbitrary: v r)
  case (Suc k)
  then obtain v0 r0 where v0: "take_digits k a s = Some (v0, r0)"
    and r0: "(case r0 of [] \<Rightarrow> None | c # r \<Rightarrow> map_option (\<lambda>d. (10 * v0 + d, r)) (digit_value c)) = Some (v, r)"
    by (auto simp: take_digits_Suc bind_eq_Some_conv simp del: take_digits.simps)
  obtain c d where d: "digit_value c = Some d" "v = 10 * v0 + d" and c: "r0 = c # r"
    using r0 by (cases r0) auto
  from Suc.IH [OF v0 [unfolded c]] obtain n where n: "0 \<le> n" "n < 10 ^ k" "v0 = a * 10 ^ k + n" "s = pad k n @ c # r" by auto
  note dd = digit_valueD [OF d(1)]
  have "(10 * n + d) div 10 = n" "(10 * n + d) mod 10 = d" using dd by simp_all
  then show ?case
    using n d dd by (intro exI [of _ "10 * n + d"]) (simp add: algebra_simps)
qed simp

lemma length_pad [simp]: "length (pad k n) = k"
  by (induction k arbitrary: n) simp_all

lemma take_number_pad: "0 \<le> n \<Longrightarrow> n < 10 ^ k \<Longrightarrow> take_number k (pad k n @ s) = Some (n, s)"
  by (simp add: take_number_def take_digits_pad)

lemma take_numberD: "take_number k s = Some (n, r) \<Longrightarrow> 0 \<le> n \<and> n < 10 ^ k \<and> s = pad k n @ r"
  using take_digitsD [of k 0 s n r] by (auto simp: take_number_def)

lemma take_charD: "take_char c s = Some r \<Longrightarrow> s = c # r"
  by (cases s) (auto split: if_splits)


section \<open>Canonical instants are the instants of four-digit years\<close>

definition in_range :: "int \<Rightarrow> bool" where
  "in_range t \<longleftrightarrow> MIN_FOUR_DIGIT_YEAR_MS \<le> t \<and> t \<le> MAX_FOUR_DIGIT_YEAR_MS"

lemma field_widths:
  "1 \<le> ca_month (date_fields t)" "ca_month (date_fields t) \<le> 12"
  "1 \<le> ca_day (date_fields t)" "ca_day (date_fields t) \<le> 31"
  "0 \<le> ca_hour (date_fields t)" "ca_hour (date_fields t) \<le> 23"
  "0 \<le> ca_minute (date_fields t)" "ca_minute (date_fields t) \<le> 59"
  "0 \<le> ca_second (date_fields t)" "ca_second (date_fields t) \<le> 59"
  "0 \<le> ca_millisecond (date_fields t)" "ca_millisecond (date_fields t) \<le> 999"
  using date_fields_spec [of t] by (auto simp: real_parts_def month_days_def split: if_splits)

lemma calendar_of_fields:
  "calendar_of (ca_year c, ca_month c, ca_day c) (ca_hour c, ca_minute c, ca_second c) (ca_millisecond c) = c"
  by (simp add: calendar_of_def)

lemma parse_fields:
  assumes "0 \<le> ca_year (date_fields t)" and "ca_year (date_fields t) \<le> 9999"
  shows "utc_instant (iso_string t) = (if ca_year (date_fields t) = 0 then None else Some (date_fields t))"
proof -
  define c where "c = date_fields t"
  note w = field_widths [of t, folded c_def] and y = assms [folded c_def]
  have take: "take_number 4 (pad 4 (ca_year c) @ r) = Some (ca_year c, r)"
    "take_number 2 (pad 2 (ca_month c) @ r) = Some (ca_month c, r)"
    "take_number 2 (pad 2 (ca_day c) @ r) = Some (ca_day c, r)"
    "take_number 2 (pad 2 (ca_hour c) @ r) = Some (ca_hour c, r)"
    "take_number 2 (pad 2 (ca_minute c) @ r) = Some (ca_minute c, r)"
    "take_number 2 (pad 2 (ca_second c) @ r) = Some (ca_second c, r)"
    "take_number 3 (pad 3 (ca_millisecond c) @ r) = Some (ca_millisecond c, r)" for r
    by (rule take_number_pad; use w y in simp)+
  show ?thesis
    unfolding utc_instant_def iso_string_def take_date_def take_clock_def Let_def c_def [symmetric] iso_year_def
    using y w by (simp add: take calendar_of_fields canonical_ranges_def)
qed

lemma utc_instant_iso:
  assumes "in_range t"
  shows "utc_instant (iso_string t) = Some (date_fields t)"
  using parse_fields [of t] year_range_iff [of t] assms by (simp add: in_range_def)

lemma date_parse_iso: "in_range t \<Longrightarrow> date_parse (iso_string t) = t"
  using date_fields_spec [of t] by (simp add: date_parse_def utc_instant_iso)

lemma utc_instant_range:
  assumes "utc_instant (iso_string t) = Some c"
  shows "in_range t"
proof -
  have sign: "take_digits 4 0 (x # r) = None" if "x = CHR ''-'' \<or> x = CHR ''+''" for x r
    using that by (auto simp: numeral_eq_Suc digit_value_def)
  have "0 \<le> ca_year (date_fields t) \<and> ca_year (date_fields t) \<le> 9999"
    using assms
    by (rule contrapos_pp) (auto simp: utc_instant_def take_date_def iso_string_def iso_year_def Let_def take_number_def sign)
  moreover from this have "ca_year (date_fields t) \<noteq> 0" using parse_fields [of t] assms by auto
  ultimately show ?thesis using year_range_iff [of t] by (simp add: in_range_def)
qed

lemma decodeInstantD:
  assumes "decodeInstant v = Inr s"
  shows "v = Some (JStr s)" and "in_range (date_parse s)" and "s = iso_string (date_parse s)"
proof -
  from assms obtain c where c: "v = Some (JStr s)" "utc_instant s = Some c" "iso_string (date_value c) = s"
    by (auto simp: decodeInstant_def split: option.splits json.splits if_splits)
  have r: "in_range (date_value c)" using utc_instant_range [of "date_value c" c] c by simp
  moreover have "date_parse s = date_value c" using c by (simp add: date_parse_def)
  ultimately show "v = Some (JStr s)" "in_range (date_parse s)" "s = iso_string (date_parse s)" using c by simp_all
qed

lemma decodeInstant_iso: "in_range t \<Longrightarrow> decodeInstant (Some (JStr (iso_string t))) = Inr (iso_string t)"
  using date_fields_spec [of t] by (simp add: decodeInstant_def utc_instant_iso)

text \<open>
  A text is accepted as a durable instant exactly if it is the canonical text of an instant of the
  years 1 to 9999, and it then reads as that instant: the texts and the instants correspond one to one.
\<close>

theorem canonical_instants:
  "decodeInstant (Some (JStr s)) = Inr s \<longleftrightarrow> (\<exists>t. in_range t \<and> s = iso_string t \<and> date_parse s = t)"
  using decodeInstantD [of "Some (JStr s)" s] decodeInstant_iso date_parse_iso by metis


section \<open>What a local time resolves to\<close>

text \<open>
  The formatter of a zone reports the calendar fields of the epoch shifted by the zone's offset, and
  the name of that offset.
\<close>

definition zone_reads :: "(int \<Rightarrow> calendar_parts \<times> string) \<Rightarrow> (int \<Rightarrow> int) \<Rightarrow> bool" where
  "zone_reads f off \<longleftrightarrow> (\<forall>t. fst (f t) = date_fields (t + off t) \<and> offset_name (snd (f t)) = Some (off t))"

text \<open>A zone is at most a day off UTC and changes its offset at most once around a local time.\<close>

definition one_change :: "(int \<Rightarrow> int) \<Rightarrow> int \<Rightarrow> bool" where
  "one_change off l \<longleftrightarrow> (\<forall>t. \<bar>off t\<bar> \<le> 86400000)
     \<and> (\<exists>T a b. \<forall>t. \<bar>t - l\<bar> \<le> 172800000 \<longrightarrow> off t = (if t < T then a else b))"

lemma local_projection:
  assumes "zone_reads f off"
  shows "localProjection f t = Inr (date_fields (t + off t), off t)"
proof -
  have "fst (f t) = date_fields (t + off t)" and "offset_name (snd (f t)) = Some (off t)"
    using assms unfolding zone_reads_def by blast+
  then show ?thesis by (cases "f t") (simp add: localProjection_def)
qed

lemma sample_offsets_set:
  assumes "zone_reads f off"
  shows "\<exists>os. sample_offsets f l ds acc = Inr os \<and> set os = set acc \<union> (\<lambda>d. off (sample_epoch l d)) ` set ds"
proof (induction ds arbitrary: acc)
  case (Cons d ds)
  let ?acc = "if off (sample_epoch l d) \<in> set acc then acc else acc @ [off (sample_epoch l d)]"
  from Cons [of ?acc] show ?case by (auto simp: local_projection [OF assms] split: if_splits)
qed simp

lemma local_candidates_set:
  assumes "zone_reads f off"
  shows "\<exists>cs flag. local_candidates f parts l os acc flag0 = Inr (cs, flag)
    \<and> set cs = set acc \<union> {t. l - t \<in> set os \<and> in_range t \<and> date_fields (t + off t) = parts}"
proof (induction os arbitrary: acc flag0)
  case (Cons o' os)
  have split: "{t. l - t \<in> set (o' # os) \<and> in_range t \<and> date_fields (t + off t) = parts}
      = {t. l - t \<in> set os \<and> in_range t \<and> date_fields (t + off t) = parts}
        \<union> (if in_range (l - o') \<and> date_fields (l - o' + off (l - o')) = parts then {l - o'} else {})"
  proof -
    have "l - t \<in> set (o' # os) \<longleftrightarrow> l - t \<in> set os \<or> t = l - o'" for t by auto
    then show ?thesis by (simp only:) auto
  qed
  show ?case
  proof (cases "in_range (l - o')")
    case True
    then have "\<not> (l - o' < MIN_FOUR_DIGIT_YEAR_MS \<or> MAX_FOUR_DIGIT_YEAR_MS < l - o')" by (auto simp: in_range_def)
    then show ?thesis
      using Cons [of "if date_fields (l - o' + off (l - o')) = parts then acc @ [l - o'] else acc" flag0] True
      unfolding split
      by (cases "date_fields (l - o' + off (l - o')) = parts") (simp_all add: local_projection [OF assms] Let_def)
  next
    case False
    then have "l - o' < MIN_FOUR_DIGIT_YEAR_MS \<or> MAX_FOUR_DIGIT_YEAR_MS < l - o'" by (auto simp: in_range_def)
    then show ?thesis using Cons [of acc True] False unfolding split by (simp add: Let_def)
  qed
qed simp

lemma offset_sampled:
  assumes "one_change off l" and "in_range t" and "t + off t = l"
  shows "off t \<in> (\<lambda>d. off (sample_epoch l d)) ` set sample_deltas"
proof -
  from assms(1) obtain T a b where off: "\<And>t. \<bar>t - l\<bar> \<le> 172800000 \<Longrightarrow> off t = (if t < T then a else b)"
    and bound: "\<bar>off t\<bar> \<le> 86400000" by (auto simp: one_change_def)
  have t: "\<bar>t - l\<bar> \<le> 86400000" using assms(3) bound by linarith
  define lo hi where "lo = sample_epoch l (-172800000)" and "hi = sample_epoch l 172800000"
  have lo: "lo \<le> t" "\<bar>lo - l\<bar> \<le> 172800000" and hi: "t \<le> hi" "\<bar>hi - l\<bar> \<le> 172800000"
    using assms(2) t unfolding lo_def hi_def sample_epoch_def in_range_def by linarith+
  have "off t = off lo \<or> off t = off hi"
    using off [of t] off [of lo] off [of hi] t lo hi by auto
  then show ?thesis by (auto simp: lo_def hi_def sample_deltas_def)
qed

lemma real_projection: "calendarEpoch parts = Inr l \<Longrightarrow> date_fields x = parts \<longleftrightarrow> x = l"
  using date_fields_spec by (metis calendarEpoch_def sum.inject(2) sum.distinct(1))

text \<open>
  C33. In a zone whose offset changes at most once, by less than a day, in the days around a local time,
  the local time resolves to the first instant at which the clocks of the zone show it, and is refused
  only if they show it at no instant of the years 1 to 9999: no overlap is taken too late and no gap is
  filled.
\<close>

theorem local_time_resolves:
  assumes epoch: "calendarEpoch parts = Inr l"
    and reads: "zone_reads (ze_format z zone) off" and change: "one_change off l"
  shows "(\<exists>t. resolveLocalInstant z parts zone = Inr t \<and> in_range t \<and> t + off t = l
        \<and> (\<forall>t'. in_range t' \<and> t' + off t' = l \<longrightarrow> t \<le> t'))
    \<or> (resolveLocalInstant z parts zone \<in> {Inl LocalGap, Inl OutOfRange} \<and> (\<forall>t. in_range t \<longrightarrow> t + off t \<noteq> l))"
proof -
  obtain os where os: "sample_offsets (ze_format z zone) l sample_deltas [] = Inr os"
    "set os = (\<lambda>d. off (sample_epoch l d)) ` set sample_deltas"
    using sample_offsets_set [OF reads, of l sample_deltas "[]"] by auto
  obtain cs flag where cs: "local_candidates (ze_format z zone) parts l os [] False = Inr (cs, flag)"
    "set cs = {t. l - t \<in> set os \<and> in_range t \<and> t + off t = l}"
    using local_candidates_set [OF reads, of parts l os "[]" False] real_projection [OF epoch] by auto
  have all: "set cs = {t. in_range t \<and> t + off t = l}"
    unfolding cs(2) os(2) using offset_sampled [OF change] by force
  have run: "resolveLocalInstant z parts zone = (case sort cs of first # _ \<Rightarrow> Inr first
      | [] \<Rightarrow> if flag then Inl OutOfRange else Inl LocalGap)"
    by (simp add: resolveLocalInstant_def epoch os(1) cs(1))
  show ?thesis
  proof (cases "sort cs")
    case Nil
    then have "set cs = {}" by (metis set_sort set_empty)
    then show ?thesis using run Nil all by auto
  next
    case (Cons t ts)
    have "sorted (t # ts)" and "set (t # ts) = set cs" by (simp_all flip: Cons)
    then have "t \<in> set cs" and "\<forall>t' \<in> set cs. t \<le> t'" by auto
    then show ?thesis using run Cons all by auto
  qed
qed


section \<open>Witness\<close>

text \<open>A zone that goes back by an hour at the epoch 0: the local times from 01:00 to 02:00 occur twice.\<close>

definition sample_offset :: "int \<Rightarrow> int" where
  "sample_offset t = (if t < 0 then 7200000 else 3600000)"

definition sample_zone :: zone_env where
  "sample_zone = \<lparr>ze_canonical = Some,
     ze_format = \<lambda>_ t. (date_fields (t + sample_offset t), if t < 0 then ''GMT+02:00'' else ''GMT+01:00'')\<rparr>"

lemma sample_zone_reads: "zone_reads (ze_format sample_zone zone) sample_offset"
  by (simp add: zone_reads_def sample_zone_def sample_offset_def offset_name_def take_number_def digit_value_def
      numeral_eq_Suc)

lemma sample_zone_change: "one_change sample_offset l"
  unfolding one_change_def sample_offset_def by auto

theorem local_time_resolves_witness:
  "resolveLocalInstant sample_zone (date_fields 5400000) ''Europe/Berlin'' = Inr (- 1800000)"
proof -
  have epoch: "calendarEpoch (date_fields 5400000) = Inr 5400000"
    using date_fields_spec [of 5400000] by (simp add: calendarEpoch_def)
  have r: "in_range (- 1800000)" by (simp add: in_range_def MIN_FOUR_DIGIT_YEAR_MS_def MAX_FOUR_DIGIT_YEAR_MS_def)
  have o': "- 1800000 + sample_offset (- 1800000) = 5400000" by (simp add: sample_offset_def)
  obtain t where t: "resolveLocalInstant sample_zone (date_fields 5400000) ''Europe/Berlin'' = Inr t"
    "t + sample_offset t = 5400000" "t \<le> - 1800000"
    using local_time_resolves [OF epoch sample_zone_reads sample_zone_change, of "''Europe/Berlin''"] r o' by blast
  then show ?thesis by (simp add: sample_offset_def split: if_splits)
qed

end
