(* ===== verification/ScheduleFold.thy ===== *)
theory ScheduleFold imports Schedule begin

text \<open>
  What the schedule fold of packages/schedule/schedule/src/domain.ts keeps: the active records are
  well formed and in the order of their creation, no identity is used twice, and no occurrence is
  delivered twice. What a created record is, and what the framing of a reminder looks like.
\<close>

section \<open>The history of a log\<close>

definition change_of :: "schedule_event \<Rightarrow> schedule_change option" where
  "change_of e =
     (case ev_data e of
        Plugin (t, d) \<Rightarrow> if t = ''schedule/change'' then (case decodeScheduleChange d of Inr c \<Rightarrow> Some c | Inl _ \<Rightarrow> None) else None
      | _ \<Rightarrow> None)"

definition changes :: "schedule_event list \<Rightarrow> schedule_change list" where
  "changes evs = List.map_filter change_of evs"

fun created :: "schedule_change \<Rightarrow> schedule_record option" where
  "created (CreateSchedule r) = Some r"
| "created _ = None"

fun dispatched :: "string \<Rightarrow> schedule_change \<Rightarrow> string option option" where
  "dispatched i (DispatchSchedule j t) = (if j = i then Some t else None)"
| "dispatched i _ = None"

definition creations :: "schedule_change list \<Rightarrow> schedule_record list" where
  "creations cs = List.map_filter created cs"

text \<open>The decision times of the dispatches of a reminder, \<open>None\<close> for a one-shot.\<close>

definition dispatches :: "string \<Rightarrow> schedule_change list \<Rightarrow> string option list" where
  "dispatches i cs = List.map_filter (dispatched i) cs"

definition decision_time :: "string option \<Rightarrow> int" where
  "decision_time t = (case t of None \<Rightarrow> 0 | Some s \<Rightarrow> date_parse s)"

definition active_ok :: "schedule_change list \<Rightarrow> string \<times> schedule_record \<Rightarrow> bool" where
  "active_ok cs p \<longleftrightarrow> (case p of (i, r) \<Rightarrow> sr_id r = i \<and> record_ok r
     \<and> (\<exists>r0 \<in> set (creations cs). sr_id r0 = i \<and> sr_rule r0 = sr_rule r)
     \<and> (\<forall>t \<in> set (dispatches i cs). is_every (sr_rule r) \<and> decision_time t < date_parse (sr_scheduledAt r)))"

definition schedule_hist :: "schedule_change list \<Rightarrow> schedule_fold \<Rightarrow> bool" where
  "schedule_hist cs st \<longleftrightarrow>
     sf_seen st = map sr_id (creations cs) \<and> distinct (sf_seen st)
     \<and> distinct (map_keys (sf_active st)) \<and> subseq (map_keys (sf_active st)) (sf_seen st)
     \<and> (\<forall>p \<in> set (sf_active st). active_ok cs p)
     \<and> (\<forall>i. i \<notin> set (sf_seen st) \<longrightarrow> dispatches i cs = [])
     \<and> (\<forall>i. sorted_wrt (<) (map decision_time (dispatches i cs)))
     \<and> (\<forall>r \<in> set (creations cs). \<not> is_every (sr_rule r) \<longrightarrow> length (dispatches (sr_id r) cs) \<le> 1)"

lemma schedule_histD:
  assumes "schedule_hist cs st"
  shows "sf_seen st = map sr_id (creations cs)" "distinct (sf_seen st)" "distinct (map_keys (sf_active st))"
    "subseq (map_keys (sf_active st)) (sf_seen st)" "p \<in> set (sf_active st) \<Longrightarrow> active_ok cs p"
    "i \<notin> set (sf_seen st) \<Longrightarrow> dispatches i cs = []" "sorted_wrt (<) (map decision_time (dispatches j cs))"
    "r \<in> set (creations cs) \<Longrightarrow> \<not> is_every (sr_rule r) \<Longrightarrow> length (dispatches (sr_id r) cs) \<le> 1"
  using assms unfolding schedule_hist_def by blast+

lemma schedule_histI:
  assumes "sf_seen st = map sr_id (creations cs)" "distinct (sf_seen st)" "distinct (map_keys (sf_active st))"
    "subseq (map_keys (sf_active st)) (sf_seen st)" "\<And>p. p \<in> set (sf_active st) \<Longrightarrow> active_ok cs p"
    "\<And>i. i \<notin> set (sf_seen st) \<Longrightarrow> dispatches i cs = []"
    "\<And>i. sorted_wrt (<) (map decision_time (dispatches i cs))"
    "\<And>r. r \<in> set (creations cs) \<Longrightarrow> \<not> is_every (sr_rule r) \<Longrightarrow> length (dispatches (sr_id r) cs) \<le> 1"
  shows "schedule_hist cs st"
  using assms unfolding schedule_hist_def by blast

lemma creations_snoc [simp]:
  "creations (cs @ [c]) = creations cs @ (case created c of Some r \<Rightarrow> [r] | None \<Rightarrow> [])"
  by (simp add: creations_def)

lemma dispatches_snoc [simp]:
  "dispatches i (cs @ [c]) = dispatches i cs @ (case dispatched i c of Some t \<Rightarrow> [t] | None \<Rightarrow> [])"
  by (simp add: dispatches_def)

lemma subseq_memberD: "subseq xs ys \<Longrightarrow> x \<in> set xs \<Longrightarrow> x \<in> set ys"
  by (rule list_emb_set [of "(=)" xs ys x]) auto

lemma active_memberD:
  assumes h: "schedule_hist cs st" and m: "map_of (sf_active st) i = Some r"
  shows "active_ok cs (i, r) \<and> i \<in> set (sf_seen st)"
proof -
  have "(i, r) \<in> set (sf_active st)" using m by (rule map_of_SomeD)
  moreover from this have "i \<in> set (map_keys (sf_active st))" by force
  ultimately show ?thesis
    using schedule_histD(5) [OF h] subseq_memberD [OF schedule_histD(4) [OF h]] by blast
qed

lemma subseq_keys_delete: "subseq (map_keys (map_delete i m)) (map_keys m)"
  by (simp add: map_delete_def subseq_map)

text \<open>A record that stays active keeps what it says when a change of another reminder follows.\<close>

lemma active_ok_other:
  "active_ok cs (i, r) \<Longrightarrow> dispatched i c = None \<Longrightarrow> active_ok (cs @ [c]) (i, r)"
  by (auto simp: active_ok_def split: option.split)

lemma dispatched_record:
  assumes "record_ok r" and "dispatchedRecord r t = Inr nxt" and "\<forall>s. t = Some s \<longrightarrow> canonical s"
  shows "(is_every (sr_rule r) \<longleftrightarrow> t \<noteq> None)
    \<and> (is_every (sr_rule r) \<longrightarrow> date_parse (sr_scheduledAt r) \<le> decision_time t)
    \<and> (nxt = None \<or> (\<exists>s. t = Some s \<and> canonical s \<and> is_every (sr_rule r)
        \<and> (\<exists>d. nxt = Some (r\<lparr>sr_scheduledAt := d\<rparr>) \<and> canonical d \<and> decision_time t < date_parse d)))"
proof (cases "sr_rule r")
  case (EveryRule n)
  then obtain s o' where s: "t = Some s" "canonical s" and o': "resolveEveryOccurrence r n (date_parse s) = Inr o'"
    and nxt: "nxt = map_option (\<lambda>d. r\<lparr>sr_scheduledAt := d\<rparr>) (eo_nextScheduledAt o')"
    using assms(2,3) by (auto simp: dispatchedRecord_def result_simps split: option.splits)
  have acc: "in_range (date_parse s)" using s(2) by (simp add: canonical_def)
  have due: "date_parse (sr_scheduledAt r) \<le> date_parse s"
    using o' by (auto simp: resolveEveryOccurrence_def Let_def split: if_splits)
  obtain k where k: "0 \<le> k" "date_parse s < date_parse (sr_scheduledAt r) + k * (n * 1000) + n * 1000"
    "o' = \<lparr>eo_occurrenceAt = iso_string (date_parse (sr_scheduledAt r) + k * (n * 1000)),
      eo_nextScheduledAt = (if date_parse (sr_scheduledAt r) + k * (n * 1000) + n * 1000 \<le> MAX_FOUR_DIGIT_YEAR_MS
        then Some (iso_string (date_parse (sr_scheduledAt r) + k * (n * 1000) + n * 1000)) else None)\<rparr>"
    using every_occurrence_exact [OF assms(1) EveryRule acc due] o' by (auto simp: Let_def)
  define d where "d = date_parse (sr_scheduledAt r) + k * (n * 1000) + n * 1000"
  have "in_range d" if "d \<le> MAX_FOUR_DIGIT_YEAR_MS"
    using that k(2) acc by (simp add: d_def in_range_def)
  then show ?thesis
    using k EveryRule s due canonical_iso date_parse_iso
    unfolding nxt d_def [symmetric] by (auto simp: decision_time_def)
qed (use assms(2) in \<open>auto simp: dispatchedRecord_def decision_time_def split: if_splits\<close>)

lemma record_ok_rescheduled: "record_ok r \<Longrightarrow> canonical d \<Longrightarrow> record_ok (r\<lparr>sr_scheduledAt := d\<rparr>)"
  by (simp add: record_ok_def)

lemma apply_change_hist:
  assumes h: "schedule_hist cs st" and c: "change_ok c" and step: "apply_change st c = Inr st'"
  shows "schedule_hist (cs @ [c]) st'"
proof (cases c)
  case (CreateSchedule r)
  then have fresh: "sr_id r \<notin> set (sf_seen st)"
    and st': "st' = \<lparr>sf_active = map_set (sr_id r) r (sf_active st), sf_seen = sf_seen st @ [sr_id r]\<rparr>"
    using step by (auto simp: apply_change_def split: if_splits)
  have new: "sr_id r \<notin> set (map_keys (sf_active st))"
    using fresh subseq_memberD [OF schedule_histD(4) [OF h]] by blast
  then have "map_set (sr_id r) r (sf_active st) = sf_active st @ [(sr_id r, r)]" by (rule map_set_fresh)
  moreover have none: "dispatches (sr_id r) cs = []" using h fresh by (simp add: schedule_hist_def)
  moreover have "active_ok (cs @ [c]) (sr_id r, r)"
    using c none CreateSchedule by (simp add: active_ok_def)
  moreover have "active_ok (cs @ [c]) p" if "p \<in> set (sf_active st)" for p
    using schedule_histD(5) [OF h that] active_ok_other [of cs _ _ c] CreateSchedule by (cases p) auto
  moreover note hh = schedule_histD [OF h]
  ultimately show ?thesis
    using fresh new unfolding st' by (intro schedule_histI) (auto simp: CreateSchedule)
next
  case (DeleteSchedule i)
  then have st': "st' = st\<lparr>sf_active := map_delete i (sf_active st)\<rparr>"
    using step by (auto simp: apply_change_def split: if_splits)
  have "active_ok (cs @ [c]) p" if "p \<in> set (sf_active st)" for p
    using schedule_histD(5) [OF h that] active_ok_other [of cs _ _ c] DeleteSchedule by (cases p) auto
  moreover note schedule_histD [OF h] subseq_order.trans [OF subseq_keys_delete [of i "sf_active st"]]
  ultimately show ?thesis
    unfolding st' by (intro schedule_histI) (auto simp: DeleteSchedule set_map_delete)
next
  case (DispatchSchedule i t)
  then obtain r nxt where r: "map_of (sf_active st) i = Some r" "dispatchedRecord r t = Inr nxt"
    and st': "st' = st\<lparr>sf_active := (case nxt of None \<Rightarrow> map_delete i (sf_active st) | Some r' \<Rightarrow> map_set i r' (sf_active st))\<rparr>"
    using step by (auto simp: apply_change_def result_simps split: option.splits)
  have member: "active_ok cs (i, r)" "i \<in> set (sf_seen st)" using active_memberD [OF h r(1)] by auto
  have d: "distinct (map_keys (sf_active st))" using h by (simp add: schedule_hist_def)
  note rec = dispatched_record [OF _ r(2)]
  have ok: "record_ok r" and before: "\<forall>u \<in> set (dispatches i cs). is_every (sr_rule r) \<and> decision_time u < date_parse (sr_scheduledAt r)"
    using member(1) by (auto simp: active_ok_def)
  have t: "(is_every (sr_rule r) \<longleftrightarrow> t \<noteq> None) \<and> (is_every (sr_rule r) \<longrightarrow> date_parse (sr_scheduledAt r) \<le> decision_time t)"
    using rec [OF ok] c DispatchSchedule by auto
  then have later: "\<forall>u \<in> set (dispatches i cs). decision_time u < decision_time t" using before by force
  have st: "nxt = None \<or> (\<exists>e. nxt = Some (r\<lparr>sr_scheduledAt := e\<rparr>) \<and> canonical e \<and> is_every (sr_rule r) \<and> decision_time t < date_parse e)"
    using rec [OF ok] c DispatchSchedule by auto
  have active: "active_ok (cs @ [c]) p" if p: "p \<in> set (sf_active st')" for p
  proof -
    obtain j q where pq: "p = (j, q)" by (cases p)
    have d': "distinct (map_keys (sf_active st'))" unfolding st' using d by (auto split: option.split)
    then have q: "map_of (sf_active st') j = Some q" using p pq by (simp add: map_of_is_SomeI)
    show ?thesis
    proof (cases "j = i")
      case False
      then have "map_of (sf_active st) j = Some q" using q unfolding st' by (auto split: option.splits)
      then show ?thesis
        using active_memberD [OF h] active_ok_other [of cs j q c] False DispatchSchedule pq by auto
    next
      case True
      then obtain e where "nxt = Some (r\<lparr>sr_scheduledAt := e\<rparr>)" "canonical e" "is_every (sr_rule r)"
        "decision_time t < date_parse e" "q = r\<lparr>sr_scheduledAt := e\<rparr>"
        using q st unfolding st' by auto
      then show ?thesis
        using True pq member(1) later DispatchSchedule record_ok_rescheduled by (auto simp: active_ok_def)
    qed
  qed
  have "i \<in> set (map_keys (sf_active st))" using r(1) map_of_None_keys [of "sf_active st" i] by fastforce
  then have keys: "distinct (map_keys (sf_active st')) \<and> subseq (map_keys (sf_active st')) (sf_seen st')"
    using d schedule_histD(4) [OF h] subseq_order.trans [OF subseq_keys_delete [of i "sf_active st"]] unfolding st'
    by (cases nxt) (simp_all add: map_keys_map_set)
  have once: "length (dispatches i cs) = 0" if "q \<in> set (creations cs)" "sr_id q = i" "\<not> is_every (sr_rule q)" for q
  proof -
    obtain r0 where "r0 \<in> set (creations cs)" "sr_id r0 = i" "sr_rule r0 = sr_rule r"
      using member(1) by (auto simp: active_ok_def)
    moreover have "inj_on sr_id (set (creations cs))" using schedule_histD(1,2) [OF h] by (simp add: distinct_map)
    ultimately have "\<not> is_every (sr_rule r)" using that by (metis inj_onD)
    then show ?thesis using before by (cases "dispatches i cs") auto
  qed
  have same: "sf_seen st' = sf_seen st" by (simp add: st')
  show ?thesis
    by (rule schedule_histI)
      (use keys active later once member(2) schedule_histD [OF h] in \<open>auto simp: same DispatchSchedule sorted_wrt_append\<close>)
qed


interpretation schedule_log: fold_history schedule_step "\<lambda>pre st. schedule_hist (changes pre) st"
proof unfold_locales
  fix pre st e st' assume h: "schedule_hist (changes pre) st" and step: "schedule_step st e = Inr st'"
  have snoc: "changes (pre @ [e]) = changes pre @ (case change_of e of Some c \<Rightarrow> [c] | None \<Rightarrow> [])"
    by (simp add: changes_def)
  show "schedule_hist (changes (pre @ [e])) st'"
  proof (cases "\<exists>d. ev_data e = Plugin (''schedule/change'', d)")
    case True
    then obtain d c where "ev_data e = Plugin (''schedule/change'', d)" "decodeScheduleChange d = Inr c"
      "apply_change st c = Inr st'" using step by (auto simp: schedule_step_def result_simps)
    then show ?thesis using apply_change_hist [OF h decode_change_ok] by (simp add: snoc change_of_def)
  next
    case False
    then have "change_of e = None" and "st' = st"
      using step by (auto simp: schedule_step_def change_of_def split: event_data.splits if_splits)
    then show ?thesis using h by (simp add: snoc)
  qed
qed

lemma no_schedules_hist: "schedule_hist [] no_schedules"
  by (simp add: schedule_hist_def no_schedules_def creations_def dispatches_def List.map_filter_def)

lemma folded_hist:
  assumes "foldScheduleEvents evs seed = Inr f"
  shows "\<exists>st. schedule_hist (changes (drop (nat seed) evs)) st \<and> fs_active f = map_values (sf_active st)
    \<and> fs_seenIds f = sf_seen st \<and> run_steps schedule_step no_schedules (drop (nat seed) evs) = Inr st"
proof -
  obtain st where st: "run_steps schedule_step no_schedules (drop (nat seed) evs) = Inr st"
    and f: "f = \<lparr>fs_active = map_values (sf_active st), fs_seenIds = sf_seen st\<rparr>"
    using assms by (auto simp: foldScheduleEvents_def result_simps split: if_splits)
  have "schedule_hist (changes ([] @ drop (nat seed) evs)) st"
    by (rule schedule_log.run_hinv [OF _ st]) (simp add: changes_def List.map_filter_def no_schedules_hist)
  then show ?thesis using st f by simp
qed

lemma active_ids: "schedule_hist cs st \<Longrightarrow> map sr_id (map_values (sf_active st)) = map_keys (sf_active st)"
  using schedule_histD(5) [of cs st] by (auto simp: active_ok_def)

lemma schedule_active_ok: "foldScheduleEvents evs seed = Inr f \<Longrightarrow> r \<in> set (fs_active f) \<Longrightarrow> record_ok r"
  using folded_hist [of evs seed f] schedule_histD(5) by (fastforce simp: active_ok_def)

text \<open>
  C15. In a log the fold accepts no identity is created twice, the active reminders are well formed and
  listed in the order of their creation, each is one that was created and not yet delivered, a
  one-shot reminder is dispatched at most once, and the decision times of a fixed-rate reminder
  increase strictly and lie before its next target: no occurrence is delivered twice.
\<close>

theorem schedule_delivers_once:
  assumes "foldScheduleEvents evs seed = Inr f"
  defines "cs \<equiv> changes (drop (nat seed) evs)"
  shows "fs_seenIds f = map sr_id (creations cs) \<and> distinct (fs_seenIds f)
    \<and> subseq (map sr_id (fs_active f)) (fs_seenIds f)
    \<and> (\<forall>r \<in> set (fs_active f). record_ok r
        \<and> (\<forall>t \<in> set (dispatches (sr_id r) cs). is_every (sr_rule r) \<and> decision_time t < date_parse (sr_scheduledAt r)))
    \<and> (\<forall>r \<in> set (creations cs). \<not> is_every (sr_rule r) \<longrightarrow> length (dispatches (sr_id r) cs) \<le> 1)
    \<and> (\<forall>i. sorted_wrt (<) (map decision_time (dispatches i cs)))"
proof -
  obtain st where h: "schedule_hist cs st" and f: "fs_active f = map_values (sf_active st)" "fs_seenIds f = sf_seen st"
    using folded_hist [OF assms(1)] unfolding cs_def by blast
  have "record_ok r \<and> (\<forall>t \<in> set (dispatches (sr_id r) cs). is_every (sr_rule r)
      \<and> decision_time t < date_parse (sr_scheduledAt r))" if "r \<in> set (fs_active f)" for r
    using that schedule_histD(5) [OF h] unfolding f by (fastforce simp: active_ok_def)
  moreover have "map sr_id (fs_active f) = map_keys (sf_active st)" unfolding f by (rule active_ids [OF h])
  ultimately show ?thesis
    using schedule_histD [OF h] unfolding f(2) [symmetric] by metis
qed

section \<open>What is created\<close>

lemma allocate_from_fresh: "allocate_from seen n \<notin> set seen \<and> (\<exists>m \<ge> n. allocate_from seen n = schedule_name m)"
proof (induction seen n rule: allocate_from.induct)
  case (1 seen n)
  then show ?case
    by (subst (1 2) allocate_from.simps) (auto intro: exI [of _ n] dest: Suc_leD)
qed

lemma schedule_name_trimmed: "trimmed (schedule_name n)"
proof -
  have digits: "show_nat n \<noteq> [] \<and> \<not> white_space (last (show_nat n))" for n
    by (subst (1 2) show_nat.simps) (auto simp: white_space_def of_char_of)
  show ?thesis using digits [of n] unfolding trimmed_def trim_fixed by (simp add: schedule_name_def white_space_def)
qed

lemma futureInstant_Inr:
  "futureInstant t now = Inr s \<longleftrightarrow> safe_int now \<and> in_range t \<and> now < t \<and> s = iso_string t"
  using in_range_safe [of t] utc_instant_iso [of t]
  by (auto simp: futureInstant_def in_range_def not_less not_le)

text \<open>Sums and products whose result is in the range of instants were not rounded.\<close>

lemma exact_sum:
  assumes "in_range (fl (now + fl d))"
  shows "safe_int (now + fl d) \<and> fl (now + fl d) = now + fl d"
  using in_range_safe [OF assms] by (simp add: safe_fl_iff safe_fl_eq)

definition input_ok :: "string \<Rightarrow> int \<Rightarrow> schedule_record \<Rightarrow> bool" where
  "input_ok prompt now r \<longleftrightarrow> record_ok r \<and> sr_prompt r = trim prompt \<and> now < date_parse (sr_scheduledAt r)"

lemma trimmed_trim: "length (trim s) \<noteq> 0 \<Longrightarrow> trimmed (trim s)"
  by (simp add: trimmed_def trim_idem)

lemma exact_target:
  assumes "in_range now" and "in_range (fl (now + fl d))"
  shows "fl (now + fl d) = now + d" and "fl d = d"
proof -
  have sum: "fl (now + fl d) = now + fl d" using in_range_safe [OF assms(2)] by (simp add: safe_fl_iff safe_fl_eq)
  then have "safe_int (fl d)"
    using assms by (simp add: in_range_def safe_int_def max_safe_def MIN_FOUR_DIGIT_YEAR_MS_def MAX_FOUR_DIGIT_YEAR_MS_def abs_le_iff)
  then show "fl d = d" by (simp add: safe_fl_iff safe_fl_eq)
  with sum show "fl (now + fl d) = now + d" by simp
qed

lemma created_after:
  assumes "createAfterScheduleRecord i prompt n now = Inr r" and "trimmed i" and "in_range now"
  shows "input_ok prompt now r \<and> sr_id r = i \<and> \<not> is_every (sr_rule r)
    \<and> of_int (date_parse (sr_scheduledAt r)) = of_int now + n * 1000"
proof -
  from assms(1) have n: "n = of_int \<lfloor>n\<rfloor>" "safe_int \<lfloor>n\<rfloor>" "0 < n" and prompt: "length (trim prompt) \<noteq> 0"
    and r: "r = \<lparr>sr_id = i, sr_rule = AfterRule \<lfloor>n\<rfloor>, sr_prompt = trim prompt,
        sr_scheduledAt = iso_string (fl (now + fl (\<lfloor>n\<rfloor> * 1000)))\<rparr>"
    and t: "in_range (fl (now + fl (\<lfloor>n\<rfloor> * 1000)))" "now < fl (now + fl (\<lfloor>n\<rfloor> * 1000))"
    by (auto simp: createAfterScheduleRecord_def result_simps futureInstant_Inr is_safe_integer_def split: if_splits)
  note e = exact_target(1) [OF assms(3) t(1)]
  have "of_int (now + \<lfloor>n\<rfloor> * 1000) = of_int now + n * 1000" using n(1) by simp
  moreover have "0 < \<lfloor>n\<rfloor>" using n(1,3) by (metis of_int_0_less_iff)
  ultimately show ?thesis
    using n(2) trimmed_trim [OF prompt] t assms(2) canonical_iso date_parse_iso
    by (simp add: r e input_ok_def record_ok_def)
qed

lemma created_every:
  assumes "createEveryScheduleRecord i prompt n now = Inr r" and "trimmed i" and "in_range now"
  shows "input_ok prompt now r \<and> sr_id r = i \<and> is_every (sr_rule r)
    \<and> of_int (date_parse (sr_scheduledAt r)) = of_int now + n * 1000"
proof -
  from assms(1) have n: "n = of_int \<lfloor>n\<rfloor>" "safe_int \<lfloor>n\<rfloor>" "of_int MIN_EVERY_INTERVAL_SECONDS \<le> n"
    and prompt: "length (trim prompt) \<noteq> 0"
    and r: "r = \<lparr>sr_id = i, sr_rule = EveryRule \<lfloor>n\<rfloor>, sr_prompt = trim prompt,
        sr_scheduledAt = iso_string (fl (now + fl (\<lfloor>n\<rfloor> * 1000)))\<rparr>"
    and t: "in_range (fl (now + fl (\<lfloor>n\<rfloor> * 1000)))" "now < fl (now + fl (\<lfloor>n\<rfloor> * 1000))"
    by (auto simp: createEveryScheduleRecord_def result_simps futureInstant_Inr is_safe_integer_def every_interval_def
        not_less split: if_splits)
  note e = exact_target [OF assms(3) t(1)]
  have "of_int (now + \<lfloor>n\<rfloor> * 1000) = of_int now + n * 1000" using n(1) by simp
  moreover have "MIN_EVERY_INTERVAL_SECONDS \<le> \<lfloor>n\<rfloor>" using n(3) by (simp add: le_floor_iff)
  moreover have "safe_int (\<lfloor>n\<rfloor> * 1000)"
    using t(1) assms(3) unfolding e(1)
    by (simp add: in_range_def safe_int_def max_safe_def MIN_FOUR_DIGIT_YEAR_MS_def MAX_FOUR_DIGIT_YEAR_MS_def abs_le_iff)
  ultimately show ?thesis
    using n(2) trimmed_trim [OF prompt] t assms(2) canonical_iso date_parse_iso
    by (simp add: r e(1) input_ok_def record_ok_def)
qed

lemma created_at:
  assumes "createAtScheduleRecord z i prompt v now = Inr r" and "trimmed i"
  shows "input_ok prompt now r \<and> sr_id r = i \<and> \<not> is_every (sr_rule r)
    \<and> at_target z v = Inr (date_parse (sr_scheduledAt r))"
  using assms trimmed_trim [of prompt] canonical_iso date_parse_iso
  by (auto simp: createAtScheduleRecord_def result_simps futureInstant_Inr input_ok_def record_ok_def split: if_splits)


section \<open>Committing a change\<close>

definition change_event :: "nat \<Rightarrow> int \<Rightarrow> schedule_change \<Rightarrow> schedule_event" where
  "change_event n time c = \<lparr>ev_data = Plugin (''schedule/change'', encode_change c), ev_seq = n, ev_time = time,
     ev_ignorable = False, ev_surfaceOp = None, ev_sources = None\<rparr>"

lemma fold_change:
  assumes f: "foldScheduleEvents evs seed = Inr f" and c: "change_ok c"
  shows "\<exists>st. schedule_hist (changes (drop (nat seed) evs)) st \<and> fs_active f = map_values (sf_active st)
    \<and> fs_seenIds f = sf_seen st
    \<and> foldScheduleEvents (evs @ [change_event n time c]) seed =
        rbind (apply_change st c) (\<lambda>st'. Inr \<lparr>fs_active = map_values (sf_active st'), fs_seenIds = sf_seen st'\<rparr>)"
proof -
  from folded_hist [OF f] obtain st where st: "schedule_hist (changes (drop (nat seed) evs)) st"
    "fs_active f = map_values (sf_active st)" "fs_seenIds f = sf_seen st"
    "run_steps schedule_step no_schedules (drop (nat seed) evs) = Inr st" by blast
  have seed: "safe_int seed" "0 \<le> seed" "seed \<le> int (length evs)"
    using f by (auto simp: foldScheduleEvents_def split: if_splits)
  have "schedule_step st (change_event n time c) = apply_change st c"
    using decode_encode_change [OF c] by (simp add: schedule_step_def change_event_def)
  moreover have "nat seed \<le> length evs" using seed by linarith
  ultimately have "foldScheduleEvents (evs @ [change_event n time c]) seed =
      rbind (apply_change st c) (\<lambda>st'. Inr \<lparr>fs_active = map_values (sf_active st'), fs_seenIds = sf_seen st'\<rparr>)"
    using seed st(4) by (simp add: foldScheduleEvents_def run_steps_snoc)
  then show ?thesis using st by blast
qed

lemma active_lookup:
  assumes "schedule_hist cs st" and "r \<in> set (map_values (sf_active st))"
  shows "map_of (sf_active st) (sr_id r) = Some r"
proof -
  obtain i where "(i, r) \<in> set (sf_active st)" using assms(2) by auto
  moreover from this have "sr_id r = i" using schedule_histD(5) [OF assms(1)] by (auto simp: active_ok_def)
  ultimately show ?thesis using schedule_histD(3) [OF assms(1)] by simp
qed

lemma create_commits:
  assumes f: "foldScheduleEvents evs seed = Inr f" and r: "record_ok r" and i: "sr_id r = allocateScheduleId f"
  shows "foldScheduleEvents (evs @ [change_event n time (CreateSchedule r)]) seed
    = Inr \<lparr>fs_active = fs_active f @ [r], fs_seenIds = fs_seenIds f @ [sr_id r]\<rparr>"
proof -
  obtain st where st: "schedule_hist (changes (drop (nat seed) evs)) st"
    "fs_active f = map_values (sf_active st)" "fs_seenIds f = sf_seen st"
    "foldScheduleEvents (evs @ [change_event n time (CreateSchedule r)]) seed =
        rbind (apply_change st (CreateSchedule r)) (\<lambda>st'. Inr \<lparr>fs_active = map_values (sf_active st'), fs_seenIds = sf_seen st'\<rparr>)"
    using fold_change [OF f, of "CreateSchedule r" n time] r by auto
  have fresh: "sr_id r \<notin> set (sf_seen st)"
    using allocate_from_fresh unfolding i allocateScheduleId_def st(3) by blast
  then have "sr_id r \<notin> set (map_keys (sf_active st))" using subseq_memberD [OF schedule_histD(4) [OF st(1)]] by blast
  then show ?thesis using fresh st by (simp add: apply_change_def map_set_fresh)
qed

lemma delete_commits:
  assumes f: "foldScheduleEvents evs seed = Inr f" and r: "r \<in> set (fs_active f)"
  shows "foldScheduleEvents (evs @ [change_event n time (DeleteSchedule (sr_id r))]) seed
    = Inr (f\<lparr>fs_active := filter (\<lambda>q. sr_id q \<noteq> sr_id r) (fs_active f)\<rparr>)"
proof -
  have "trimmed (sr_id r)" using schedule_active_ok [OF f r] by (simp add: record_ok_def)
  then obtain st where st: "schedule_hist (changes (drop (nat seed) evs)) st"
    "fs_active f = map_values (sf_active st)" "fs_seenIds f = sf_seen st"
    "foldScheduleEvents (evs @ [change_event n time (DeleteSchedule (sr_id r))]) seed =
        rbind (apply_change st (DeleteSchedule (sr_id r))) (\<lambda>st'. Inr \<lparr>fs_active = map_values (sf_active st'), fs_seenIds = sf_seen st'\<rparr>)"
    using fold_change [OF f, of "DeleteSchedule (sr_id r)" n time] by auto
  have "map_values (map_delete i (sf_active st)) = filter (\<lambda>q. sr_id q \<noteq> i) (map_values (sf_active st))" for i
    using schedule_histD(5) [OF st(1)]
    by (auto simp: map_delete_def filter_map active_ok_def intro!: arg_cong [of _ _ "map snd"] filter_cong)
  then show ?thesis
    using st active_lookup [OF st(1), of r] r by (cases f) (simp add: apply_change_def)
qed


section \<open>Witness\<close>

definition sample_reminder :: schedule_record where
  "sample_reminder = sample_record AtRule"

definition created_log :: "schedule_event list" where
  "created_log = [change_event 0 0 (CreateSchedule sample_reminder)]"

definition created_fold :: folded_schedules where
  "created_fold = \<lparr>fs_active = [sample_reminder], fs_seenIds = [''schedule-1'']\<rparr>"

lemma created_log_folds: "foldScheduleEvents created_log 0 = Inr created_fold"
proof -
  have "foldScheduleEvents [] 0 = Inr \<lparr>fs_active = [], fs_seenIds = []\<rparr>"
    by (simp add: foldScheduleEvents_def no_schedules_def safe_int_def max_safe_def)
  moreover have "record_ok sample_reminder" by (simp add: sample_reminder_def sample_record_ok)
  moreover have "char_of (49 :: nat) = CHR ''1''" by code_simp
  then have "sr_id sample_reminder = allocateScheduleId \<lparr>fs_active = [], fs_seenIds = []\<rparr>"
    by (simp add: sample_reminder_def sample_record_def allocateScheduleId_def allocate_from.simps schedule_name_def
        show_nat.simps)
  ultimately show ?thesis
    using create_commits [of "[]" 0 _ sample_reminder 0 0]
    by (simp add: created_log_def created_fold_def sample_reminder_def sample_record_def)
qed

theorem schedule_delivers_once_witness:
  "fs_seenIds created_fold = map sr_id (creations (changes (drop (nat 0) created_log)))
    \<and> (\<forall>i. sorted_wrt (<) (map decision_time (dispatches i (changes (drop (nat 0) created_log)))))"
  using schedule_delivers_once [OF created_log_folds] by blast

end
