(* ===== verification/ScheduleRuntime.thy ===== *)
theory ScheduleRuntime imports ScheduleFold begin

text \<open>
  packages/schedule/schedule/src/runtime.ts, transaction.ts and persistence.ts: the live projection
  of one agent's reminders. \<open>dueDecision\<close> selects what is due; a drive flushes the log, folds it and
  arms a timer or delivers inside the agent's maintenance phase. The steps of a drive between two
  waits are functions of the session's log and of what the services answer; triggers, timers and the
  disposal interleave with them as the steps of a relation. Warnings are left out.
\<close>

section \<open>What is due\<close>

definition MAX_TIMER_DELAY_MS :: int where
  "MAX_TIMER_DELAY_MS = 2147483647"

datatype due_decision =
    OneShotDue schedule_record
  | EveryDue "(schedule_record \<times> string) list" string
  | WaitFor "int option"

definition target_of :: "schedule_record \<Rightarrow> int" where
  "target_of r = date_parse (sr_scheduledAt r)"

fun every_seconds :: "schedule_rule \<Rightarrow> int" where
  "every_seconds (EveryRule n) = n"
| "every_seconds _ = 0"

text \<open>The sort is stable, so that records with the same target stay in the order of their creation.\<close>

definition due_records :: "bool \<Rightarrow> folded_schedules \<Rightarrow> int \<Rightarrow> schedule_record list" where
  "due_records every f now =
     sort_key target_of (filter (\<lambda>r. is_every (sr_rule r) = every \<and> target_of r \<le> now) (fs_active f))"

fun every_due :: "schedule_record list \<Rightarrow> int \<Rightarrow> schedule_log_error + (schedule_record \<times> string) list" where
  "every_due [] now = Inr []"
| "every_due (r # rs) now =
     rbind (resolveEveryOccurrence r (every_seconds (sr_rule r)) now) (\<lambda>o'.
     rbind (every_due rs now) (\<lambda>ds. Inr ((r, eo_occurrenceAt o') # ds)))"

definition next_target :: "folded_schedules \<Rightarrow> int \<Rightarrow> int option" where
  "next_target f now =
     foldl (\<lambda>selected r.
       let candidate = target_of r
       in if candidate > now \<and> (case selected of None \<Rightarrow> True | Some s \<Rightarrow> candidate < s) then Some candidate else selected)
     None (fs_active f)"

definition dueDecision :: "folded_schedules \<Rightarrow> int \<Rightarrow> schedule_log_error + due_decision" where
  "dueDecision f now =
     (case due_records False f now of
        r # _ \<Rightarrow> Inr (OneShotDue r)
      | [] \<Rightarrow>
          let every = due_records True f now
          in if length every > 0 then rbind (every_due every now) (\<lambda>ds. Inr (EveryDue ds (iso_string now)))
             else Inr (WaitFor (next_target f now)))"

section \<open>The dispatch of a decision\<close>

text \<open>
  The appends of a delivery, one after the other; \<open>refused\<close> says which the session refuses for a
  reason of its own, and the companion of the package refuses what its fold does not accept.
\<close>

definition decision_changes :: "due_decision \<Rightarrow> schedule_change list" where
  "decision_changes d =
     (case d of
        OneShotDue r \<Rightarrow> [DispatchSchedule (sr_id r) None]
      | EveryDue ds acceptedAt \<Rightarrow> map (\<lambda>(r, _). DispatchSchedule (sr_id r) (Some acceptedAt)) ds
      | WaitFor _ \<Rightarrow> [])"

definition append_change ::
  "schedule_event list \<Rightarrow> int \<Rightarrow> int \<Rightarrow> bool \<Rightarrow> schedule_change \<Rightarrow> schedule_event list option" where
  "append_change evs seed time refused c =
     (let evs' = evs @ [change_event (length evs) time c]
      in if refused \<or> \<not> is_ok (foldScheduleEvents evs' seed) then None else Some evs')"

fun append_all ::
  "schedule_event list \<Rightarrow> int \<Rightarrow> int \<Rightarrow> bool list \<Rightarrow> schedule_change list \<Rightarrow> schedule_event list \<times> bool" where
  "append_all evs seed time refusals [] = (evs, True)"
| "append_all evs seed time refusals (c # cs) =
     (case append_change evs seed time (refusals \<noteq> [] \<and> hd refusals) c of
        None \<Rightarrow> (evs, False)
      | Some evs' \<Rightarrow> append_all evs' seed time (tl refusals) cs)"

definition decision_text :: "due_decision \<Rightarrow> string" where
  "decision_text d =
     (case d of
        OneShotDue r \<Rightarrow> renderReminderFraming r
      | EveryDue ds _ \<Rightarrow> renderEveryReminderBatchFraming ds
      | WaitFor _ \<Rightarrow> [])"

section \<open>A drive\<close>

record schedule_runtime =
  rt_timer :: "int option"
  rt_idleWait :: bool
  rt_running :: bool
  rt_requested :: bool
  rt_stopping :: bool
  rt_faulted :: bool

definition newRuntime :: schedule_runtime where
  "newRuntime = \<lparr>rt_timer = None, rt_idleWait = False, rt_running = False, rt_requested = False,
     rt_stopping = False, rt_faulted = False\<rparr>"

text \<open>
  The answers of the services to one segment of a drive; \<open>de_noted\<close> is what the agent's inbox appends
  to the log for the message it accepts.
\<close>

record drive_env =
  de_live :: bool
  de_now :: int
  de_busy :: bool
  de_followup :: bool
  de_noted :: "schedule_event list"
  de_refusals :: "bool list"
  de_time :: int

definition isRunnable :: "drive_env \<Rightarrow> schedule_runtime \<Rightarrow> bool" where
  "isRunnable v rt \<longleftrightarrow> \<not> rt_stopping rt \<and> de_live v"

definition clearTimer :: "schedule_runtime \<Rightarrow> schedule_runtime" where
  "clearTimer rt = rt\<lparr>rt_timer := None\<rparr>"

text \<open>A timer is armed for a delay; every wake reads the clock again.\<close>

definition arm :: "int \<Rightarrow> int \<Rightarrow> schedule_runtime \<Rightarrow> schedule_runtime" where
  "arm target now rt = rt\<lparr>rt_timer := Some (min (target - now) MAX_TIMER_DELAY_MS)\<rparr>"

definition arm_wait :: "int option \<Rightarrow> int \<Rightarrow> schedule_runtime \<Rightarrow> schedule_runtime" where
  "arm_wait target now rt = (case target of None \<Rightarrow> rt | Some t \<Rightarrow> arm t now rt)"

definition waitForIdle :: "schedule_runtime \<Rightarrow> schedule_runtime" where
  "waitForIdle rt = rt\<lparr>rt_idleWait := True\<rparr>"

definition readFolded :: "schedule_event list \<Rightarrow> int \<Rightarrow> schedule_runtime \<Rightarrow> schedule_runtime \<times> folded_schedules option" where
  "readFolded evs seed rt =
     (case foldScheduleEvents evs seed of
        Inl _ \<Rightarrow> (rt\<lparr>rt_faulted := True\<rparr>, None)
      | Inr f \<Rightarrow> (rt, Some f))"

definition decide :: "folded_schedules \<Rightarrow> int \<Rightarrow> due_decision option" where
  "decide f now = (case dueDecision f now of Inl _ \<Rightarrow> None | Inr d \<Rightarrow> Some d)"

datatype after_flush = DriveDone | EnterMaintenance

definition drive_begin :: "drive_env \<Rightarrow> schedule_runtime \<Rightarrow> schedule_runtime \<times> bool" where
  "drive_begin v rt = (clearTimer rt, isRunnable v (clearTimer rt))"

definition drive_flushed ::
  "drive_env \<Rightarrow> schedule_event list \<Rightarrow> int \<Rightarrow> bool \<Rightarrow> schedule_runtime \<Rightarrow> schedule_runtime \<times> after_flush" where
  "drive_flushed v evs seed flushed rt =
     (if \<not> flushed \<or> \<not> isRunnable v rt then (rt, DriveDone)
      else case readFolded evs seed rt of
        (rt, None) \<Rightarrow> (rt, DriveDone)
      | (rt, Some f) \<Rightarrow>
          (case decide f (de_now v) of
             None \<Rightarrow> (rt, DriveDone)
           | Some (WaitFor target) \<Rightarrow> (arm_wait target (de_now v) rt, DriveDone)
           | Some _ \<Rightarrow>
               if de_busy v then (if de_live v then waitForIdle rt else rt, DriveDone)
               else (rt, EnterMaintenance)))"

record drive_result =
  dr_log :: "schedule_event list"
  dr_message :: "string option"
  dr_delivered :: bool

definition drive_maintenance ::
  "drive_env \<Rightarrow> schedule_event list \<Rightarrow> int \<Rightarrow> schedule_runtime \<Rightarrow> schedule_runtime \<times> drive_result" where
  "drive_maintenance v evs seed rt =
     (let nothing = \<lparr>dr_log = evs, dr_message = None, dr_delivered = False\<rparr> in
      if \<not> isRunnable v rt then (rt, nothing)
      else case readFolded evs seed rt of
        (rt, None) \<Rightarrow> (rt, nothing)
      | (rt, Some f) \<Rightarrow>
          (case decide f (de_now v) of
             None \<Rightarrow> (rt, nothing)
           | Some (WaitFor target) \<Rightarrow> (arm_wait target (de_now v) rt, nothing)
           | Some d \<Rightarrow>
               if \<not> de_followup v then (rt, nothing)
               else (case append_all (evs @ de_noted v) seed (de_time v) (de_refusals v) (decision_changes d) of
                   (evs', True) \<Rightarrow> (rt, \<lparr>dr_log = evs', dr_message = Some (decision_text d), dr_delivered = True\<rparr>)
                 | (evs', False) \<Rightarrow>
                     (clearTimer (rt\<lparr>rt_faulted := True\<rparr>),
                      \<lparr>dr_log = evs', dr_message = Some (decision_text d), dr_delivered = False\<rparr>))))"

section \<open>Decisions are complete\<close>

lemma due_records_set:
  "set (due_records every f now) = {r \<in> set (fs_active f). is_every (sr_rule r) = every \<and> target_of r \<le> now}"
  by (auto simp: due_records_def)

lemma every_due_ok:
  assumes "\<forall>r \<in> set rs. record_ok r \<and> is_every (sr_rule r) \<and> target_of r \<le> now" and "in_range now"
  shows "\<exists>ds. every_due rs now = Inr ds \<and> map fst ds = rs
    \<and> (\<forall>(r, s) \<in> set ds. canonical s \<and> target_of r \<le> date_parse s \<and> date_parse s \<le> now
        \<and> now < date_parse s + every_seconds (sr_rule r) * 1000
        \<and> every_seconds (sr_rule r) * 1000 dvd date_parse s - target_of r)"
  using assms(1)
proof (induction rs)
  case (Cons r rs)
  then obtain ds where ds: "every_due rs now = Inr ds" "map fst ds = rs"
    "\<forall>(r, s) \<in> set ds. canonical s \<and> target_of r \<le> date_parse s \<and> date_parse s \<le> now
        \<and> now < date_parse s + every_seconds (sr_rule r) * 1000
        \<and> every_seconds (sr_rule r) * 1000 dvd date_parse s - target_of r" by auto
  obtain n where n: "sr_rule r = EveryRule n" using Cons.prems by (cases "sr_rule r") auto
  have r: "record_ok r" "date_parse (sr_scheduledAt r) \<le> now" using Cons.prems by (auto simp: target_of_def)
  obtain k where k: "0 \<le> k" "target_of r + k * (n * 1000) \<le> now" "now < target_of r + k * (n * 1000) + n * 1000"
    "\<exists>x. resolveEveryOccurrence r n now = Inr \<lparr>eo_occurrenceAt = iso_string (target_of r + k * (n * 1000)), eo_nextScheduledAt = x\<rparr>"
    using every_occurrence_exact [OF r(1) n assms(2) r(2)] by (auto simp: Let_def target_of_def)
  have "0 \<le> n" using r(1) n by (simp add: record_ok_def MIN_EVERY_INTERVAL_SECONDS_def)
  then have pos: "0 \<le> k * (n * 1000)" using k(1) by simp
  then have "in_range (target_of r + k * (n * 1000))"
    using k(2) assms(2) r(1) by (simp add: in_range_def record_ok_def canonical_def target_of_def)
  then show ?case
    using k pos ds n by (auto simp: canonical_iso date_parse_iso)
qed simp

lemma next_target_spec:
  "(next_target f now = None \<longleftrightarrow> (\<forall>r \<in> set (fs_active f). target_of r \<le> now))
   \<and> (\<forall>t. next_target f now = Some t \<longrightarrow> now < t \<and> t \<in> target_of ` set (fs_active f)
        \<and> (\<forall>r \<in> set (fs_active f). now < target_of r \<longrightarrow> t \<le> target_of r))"
  unfolding next_target_def
proof (induction "fs_active f" arbitrary: f rule: rev_induct)
  case (snoc r rs)
  from snoc(1) [of "f\<lparr>fs_active := rs\<rparr>"] snoc(2) [symmetric] show ?case
    by (auto simp: Let_def split: option.splits) force
qed simp

lemma active_ids_distinct: "foldScheduleEvents evs seed = Inr f \<Longrightarrow> distinct (map sr_id (fs_active f))"
  using folded_hist [of evs seed f] active_ids schedule_histD(3) by metis

lemma due_ids_distinct:
  assumes "foldScheduleEvents evs seed = Inr f"
  shows "distinct (map sr_id (due_records every f now))"
proof -
  have "inj_on sr_id (set (fs_active f))" "distinct (fs_active f)"
    using active_ids_distinct [OF assms] by (simp_all add: distinct_map)
  then show ?thesis
    unfolding distinct_map by (auto simp: due_records_def intro: inj_on_subset)
qed

lemma decision_made:
  assumes f: "foldScheduleEvents evs seed = Inr f" and now: "in_range now"
  shows "\<exists>d. dueDecision f now = Inr d \<and>
    (case d of
       OneShotDue r \<Rightarrow> r \<in> set (fs_active f) \<and> \<not> is_every (sr_rule r) \<and> target_of r \<le> now
         \<and> (\<forall>q \<in> set (fs_active f). \<not> is_every (sr_rule q) \<longrightarrow> target_of r \<le> target_of q)
     | EveryDue ds acceptedAt \<Rightarrow> acceptedAt = iso_string now \<and> ds \<noteq> [] \<and> distinct (map (sr_id \<circ> fst) ds) \<and> sorted (map (target_of \<circ> fst) ds)
         \<and> (\<forall>q \<in> set (fs_active f). target_of q \<le> now \<longleftrightarrow> q \<in> fst ` set ds)
         \<and> (\<forall>(r, s) \<in> set ds. r \<in> set (fs_active f) \<and> is_every (sr_rule r)
              \<and> target_of r \<le> date_parse s \<and> date_parse s \<le> now \<and> now < date_parse s + every_seconds (sr_rule r) * 1000
              \<and> every_seconds (sr_rule r) * 1000 dvd date_parse s - target_of r)
     | WaitFor t \<Rightarrow> (\<forall>q \<in> set (fs_active f). now < target_of q) \<and> (t = None \<longleftrightarrow> fs_active f = [])
         \<and> (\<forall>x. t = Some x \<longrightarrow> now < x \<and> x \<in> target_of ` set (fs_active f)
              \<and> (\<forall>q \<in> set (fs_active f). x \<le> target_of q)))"
proof (cases "due_records False f now")
  case (Cons r rs)
  then have mem: "r \<in> set (due_records False f now)" by simp
  have "sorted (map target_of (due_records False f now))" by (simp add: due_records_def)
  then have min: "\<forall>q \<in> set (due_records False f now). target_of r \<le> target_of q" using Cons by auto
  have "target_of r \<le> target_of q" if "q \<in> set (fs_active f)" "\<not> is_every (sr_rule q)" for q
    using min mem that unfolding due_records_set by (cases "target_of q \<le> now") auto
  then show ?thesis using Cons mem unfolding due_records_set by (auto simp: dueDecision_def)
next
  case none: Nil
  then have shots: "\<forall>q \<in> set (fs_active f). is_every (sr_rule q) \<or> now < target_of q"
    using due_records_set [of False f now] by fastforce
  show ?thesis
  proof (cases "due_records True f now")
    case Nil
    then have all: "\<forall>q \<in> set (fs_active f). now < target_of q"
      using due_records_set [of True f now] shots by fastforce
    have "dueDecision f now = Inr (WaitFor (next_target f now))" using none Nil by (simp add: dueDecision_def)
    moreover have "next_target f now = None \<longleftrightarrow> fs_active f = []"
    proof -
      have "(\<forall>r \<in> set (fs_active f). target_of r \<le> now) \<longleftrightarrow> fs_active f = []"
        using all by (cases "fs_active f") auto
      then show ?thesis using next_target_spec [of f now] by blast
    qed
    ultimately show ?thesis
      using all next_target_spec [of f now] by (intro exI [of _ "WaitFor (next_target f now)"]) simp
  next
    case (Cons r rs)
    have "\<forall>q \<in> set (due_records True f now). record_ok q \<and> is_every (sr_rule q) \<and> target_of q \<le> now"
      using schedule_active_ok [OF f] unfolding due_records_set by auto
    from every_due_ok [OF this now] obtain ds where ds: "every_due (due_records True f now) now = Inr ds"
      "map fst ds = due_records True f now"
      "\<forall>(r, s) \<in> set ds. canonical s \<and> target_of r \<le> date_parse s \<and> date_parse s \<le> now
        \<and> now < date_parse s + every_seconds (sr_rule r) * 1000
        \<and> every_seconds (sr_rule r) * 1000 dvd date_parse s - target_of r" by blast
    have keys: "fst ` set ds = {q \<in> set (fs_active f). is_every (sr_rule q) \<and> target_of q \<le> now}"
      using ds(2) due_records_set [of True f now] by (metis (mono_tags, lifting) list.set_map)
    have "sorted (map target_of (map fst ds))" unfolding ds(2) by (simp add: due_records_def)
    then have "sorted (map (target_of \<circ> fst) ds)" by simp
    moreover have "ds \<noteq> []" using ds(2) Cons by auto
    moreover have "distinct (map (sr_id \<circ> fst) ds)"
      using due_ids_distinct [OF f, of True now] ds(2) by (metis list.map_comp)
    moreover have "target_of q \<le> now \<longleftrightarrow> q \<in> fst ` set ds" if "q \<in> set (fs_active f)" for q
      unfolding keys using that shots by fastforce
    moreover have "r \<in> set (fs_active f) \<and> is_every (sr_rule r)" if "(r, s) \<in> set ds" for r s
      using keys that by force
    moreover have "dueDecision f now = Inr (EveryDue ds (iso_string now))"
      using none Cons ds(1) by (simp add: dueDecision_def Let_def)
    ultimately show ?thesis using ds(3) by auto
  qed
qed

text \<open>
  C19. At any time a decision on a log the fold accepts is made, and it is complete: the earliest due
  one-shot reminder, or else every due fixed-rate reminder, each with its latest occurrence, in the
  order of their targets, or else nothing is due and the wake is the earliest target.
\<close>

theorem due_decision_complete:
  assumes f: "foldScheduleEvents evs seed = Inr f" and now: "in_range now"
  shows "\<exists>d. dueDecision f now = Inr d \<and>
    (case d of
       OneShotDue r \<Rightarrow> r \<in> set (fs_active f) \<and> \<not> is_every (sr_rule r) \<and> target_of r \<le> now
         \<and> (\<forall>q \<in> set (fs_active f). \<not> is_every (sr_rule q) \<longrightarrow> target_of r \<le> target_of q)
     | EveryDue ds acceptedAt \<Rightarrow> acceptedAt = iso_string now \<and> ds \<noteq> [] \<and> distinct (map (sr_id \<circ> fst) ds) \<and> sorted (map (target_of \<circ> fst) ds)
         \<and> (\<forall>q \<in> set (fs_active f). target_of q \<le> now \<longleftrightarrow> q \<in> fst ` set ds)
         \<and> (\<forall>(r, s) \<in> set ds. r \<in> set (fs_active f) \<and> is_every (sr_rule r)
              \<and> target_of r \<le> date_parse s \<and> date_parse s \<le> now \<and> now < date_parse s + every_seconds (sr_rule r) * 1000
              \<and> every_seconds (sr_rule r) * 1000 dvd date_parse s - target_of r)
     | WaitFor t \<Rightarrow> (\<forall>q \<in> set (fs_active f). now < target_of q) \<and> (t = None \<longleftrightarrow> fs_active f = [])
         \<and> (\<forall>x. t = Some x \<longrightarrow> now < x \<and> x \<in> target_of ` set (fs_active f)
              \<and> (\<forall>q \<in> set (fs_active f). x \<le> target_of q)))"
  by (rule decision_made [OF f now])

section \<open>Deliveries are accepted\<close>

definition reschedule :: "string option \<Rightarrow> schedule_record \<Rightarrow> schedule_record option" where
  "reschedule t r = (case dispatchedRecord r t of Inl _ \<Rightarrow> None | Inr next \<Rightarrow> next)"

lemma update_values:
  "distinct (map_keys m) \<Longrightarrow> i \<in> set (map_keys m) \<Longrightarrow>
   map_values (case nxt of None \<Rightarrow> map_delete i m | Some r \<Rightarrow> map_set i r m)
   = List.map_filter (\<lambda>(k, v). if k = i then nxt else Some v) m"
proof (induction m)
  case (Cons p m)
  have "i \<notin> set (map_keys m) \<Longrightarrow> List.map_filter (\<lambda>(k, v). if k = i then nxt else Some v) m = map_values m"
    by (induction m) auto
  moreover have "i \<notin> set (map_keys m) \<Longrightarrow> map_delete i m = m"
    by (auto simp: map_delete_def intro!: filter_True)
  ultimately show ?case using Cons by (cases p; cases nxt) (auto simp: map_delete_def)
qed simp

lemma map_filter_values:
  "(\<And>p. p \<in> set m \<Longrightarrow> g p = h (snd p)) \<Longrightarrow> List.map_filter g m = List.map_filter h (map_values m)"
  by (induction m) (auto split: option.split)

lemma dispatch_commits:
  assumes f: "foldScheduleEvents evs seed = Inr f" and r: "r \<in> set (fs_active f)"
    and d: "dispatchedRecord r t = Inr nxt" and t: "\<forall>s. t = Some s \<longrightarrow> canonical s"
  shows "foldScheduleEvents (evs @ [change_event n time (DispatchSchedule (sr_id r) t)]) seed
    = Inr (f\<lparr>fs_active := List.map_filter (\<lambda>q. if sr_id q = sr_id r then reschedule t q else Some q) (fs_active f)\<rparr>)"
proof -
  have "trimmed (sr_id r)" using schedule_active_ok [OF f r] by (simp add: record_ok_def)
  then obtain st where st: "schedule_hist (changes (drop (nat seed) evs)) st"
    "fs_active f = map_values (sf_active st)" "fs_seenIds f = sf_seen st"
    "foldScheduleEvents (evs @ [change_event n time (DispatchSchedule (sr_id r) t)]) seed =
        rbind (apply_change st (DispatchSchedule (sr_id r) t)) (\<lambda>st'. Inr \<lparr>fs_active = map_values (sf_active st'), fs_seenIds = sf_seen st'\<rparr>)"
    using fold_change [OF f, of "DispatchSchedule (sr_id r) t" n time] t by auto
  have look: "map_of (sf_active st) (sr_id r) = Some r" using active_lookup [OF st(1)] r st(2) by simp
  have keys: "distinct (map_keys (sf_active st))" by (rule schedule_histD(3) [OF st(1)])
  have mem: "sr_id r \<in> set (map_keys (sf_active st))" using look map_of_None_keys [of "sf_active st" "sr_id r"] by fastforce
  have "List.map_filter (\<lambda>(k, v). if k = sr_id r then nxt else Some v) (sf_active st)
      = List.map_filter (\<lambda>q. if sr_id q = sr_id r then reschedule t q else Some q) (map_values (sf_active st))"
  proof -
    have "(case p of (k, v) \<Rightarrow> if k = sr_id r then nxt else Some v)
        = (if sr_id (snd p) = sr_id r then reschedule t (snd p) else Some (snd p))" if p: "p \<in> set (sf_active st)" for p
    proof -
      have "sr_id (snd p) = fst p" using schedule_histD(5) [OF st(1) p] by (cases p) (simp add: active_ok_def)
      moreover have "snd p = r" if "fst p = sr_id r"
        using map_of_is_SomeI [OF keys] look p that by (cases p) auto
      ultimately show ?thesis using d by (cases p) (auto simp: reschedule_def)
    qed
    then show ?thesis by (rule map_filter_values)
  qed
  then show ?thesis
    using st look d update_values [OF keys mem, of nxt] by (cases f) (simp add: apply_change_def)
qed


lemma reschedule_id: "reschedule t q = Some q' \<Longrightarrow> sr_id q' = sr_id q"
  by (auto simp: reschedule_def dispatchedRecord_def rbind_def split: sum.splits option.splits schedule_rule.splits if_splits)

definition rescheduled :: "string set \<Rightarrow> string option \<Rightarrow> schedule_record list \<Rightarrow> schedule_record list" where
  "rescheduled ids t rs = List.map_filter (\<lambda>q. if sr_id q \<in> ids then reschedule t q else Some q) rs"

lemma rescheduled_simps [simp]:
  "rescheduled ids t [] = []"
  "rescheduled ids t (q # rs) =
     (case if sr_id q \<in> ids then reschedule t q else Some q of None \<Rightarrow> [] | Some q' \<Rightarrow> [q']) @ rescheduled ids t rs"
  by (simp_all add: rescheduled_def split: option.split)

lemma rescheduled_empty: "rescheduled {} t rs = rs"
  by (induction rs) simp_all

lemma rescheduled_insert: "i \<notin> ids \<Longrightarrow> rescheduled ids t (rescheduled {i} t rs) = rescheduled (insert i ids) t rs"
  by (induction rs) (auto split: option.split dest: reschedule_id)

lemma rescheduled_other: "q \<in> set rs \<Longrightarrow> sr_id q \<notin> ids \<Longrightarrow> q \<in> set (rescheduled ids t rs)"
  by (induction rs) auto

lemma rescheduled_member:
  "q' \<in> set (rescheduled ids t rs) \<Longrightarrow> \<exists>q \<in> set rs. (sr_id q \<notin> ids \<and> q' = q) \<or> (sr_id q \<in> ids \<and> reschedule t q = Some q')"
  by (induction rs) (auto split: option.splits if_splits)

text \<open>Dispatching several active reminders with one decision time.\<close>

lemma dispatch_all_commit:
  assumes "foldScheduleEvents evs seed = Inr f" and "distinct (map sr_id rs)" and "set rs \<subseteq> set (fs_active f)"
    and "\<forall>r \<in> set rs. is_ok (dispatchedRecord r t)" and "\<forall>s. t = Some s \<longrightarrow> canonical s" and "\<forall>b \<in> set refusals. \<not> b"
  shows "\<exists>evs'. append_all evs seed time refusals (map (\<lambda>r. DispatchSchedule (sr_id r) t) rs) = (evs', True)
    \<and> foldScheduleEvents evs' seed = Inr (f\<lparr>fs_active := rescheduled (sr_id ` set rs) t (fs_active f)\<rparr>)
    \<and> map ev_data evs' = map ev_data evs
        @ map (\<lambda>r. Plugin (''schedule/change'', encode_change (DispatchSchedule (sr_id r) t))) rs"
  using assms
proof (induction rs arbitrary: evs f refusals)
  case Nil
  then show ?case by (simp add: rescheduled_empty)
next
  case (Cons r rs)
  obtain nxt where nxt: "dispatchedRecord r t = Inr nxt" using Cons.prems(4) by (auto simp: is_ok_iff)
  let ?evs = "evs @ [change_event (length evs) time (DispatchSchedule (sr_id r) t)]"
  let ?f = "f\<lparr>fs_active := rescheduled {sr_id r} t (fs_active f)\<rparr>"
  have f: "foldScheduleEvents ?evs seed = Inr ?f"
    using dispatch_commits [OF Cons.prems(1) _ nxt Cons.prems(5), of "length evs" time] Cons.prems(3)
    by (simp add: rescheduled_def)
  have "\<exists>evs'. append_all ?evs seed time (tl refusals) (map (\<lambda>r. DispatchSchedule (sr_id r) t) rs) = (evs', True)
    \<and> foldScheduleEvents evs' seed = Inr (?f\<lparr>fs_active := rescheduled (sr_id ` set rs) t (fs_active ?f)\<rparr>)
    \<and> map ev_data evs' = map ev_data ?evs
        @ map (\<lambda>r. Plugin (''schedule/change'', encode_change (DispatchSchedule (sr_id r) t))) rs"
  proof (rule Cons.IH [OF f])
    show "distinct (map sr_id rs)" using Cons.prems(2) by simp
    show "set rs \<subseteq> set (fs_active ?f)"
    proof
      fix q assume q: "q \<in> set rs"
      then have "sr_id q \<noteq> sr_id r" using Cons.prems(2) by (auto simp: image_iff)
      then show "q \<in> set (fs_active ?f)" using rescheduled_other [of q "fs_active f" "{sr_id r}"] q Cons.prems(3) by auto
    qed
    show "\<forall>q \<in> set rs. is_ok (dispatchedRecord q t)" using Cons.prems(4) by simp
    show "\<forall>s. t = Some s \<longrightarrow> canonical s" by (rule Cons.prems(5))
    show "\<forall>b \<in> set (tl refusals). \<not> b" using Cons.prems(6) by (cases refusals) auto
  qed
  moreover have "append_change evs seed time (refusals \<noteq> [] \<and> hd refusals) (DispatchSchedule (sr_id r) t) = Some ?evs"
    using Cons.prems(6) f by (cases refusals) (simp_all add: append_change_def)
  moreover have "sr_id r \<notin> sr_id ` set rs" using Cons.prems(2) by simp
  ultimately show ?case by (auto simp: rescheduled_insert change_event_def)
qed

lemma every_dispatch_ok:
  assumes "record_ok r" "is_every (sr_rule r)" "target_of r \<le> now" "in_range now"
  shows "is_ok (dispatchedRecord r (Some (iso_string now)))"
    and "reschedule (Some (iso_string now)) r = Some q \<Longrightarrow> now < target_of q"
proof -
  obtain n where n: "sr_rule r = EveryRule n" using assms(2) by (cases "sr_rule r") auto
  have due: "date_parse (sr_scheduledAt r) \<le> now" using assms(3) by (simp add: target_of_def)
  show ok: "is_ok (dispatchedRecord r (Some (iso_string now)))"
    using every_occurrence_exact [OF assms(1) n assms(4) due] assms(4)
    by (auto simp: dispatchedRecord_def n date_parse_iso Let_def)
  then obtain nxt where nxt: "dispatchedRecord r (Some (iso_string now)) = Inr nxt" by (auto simp: is_ok_iff)
  show "reschedule (Some (iso_string now)) r = Some q \<Longrightarrow> now < target_of q"
    using dispatched_record [OF assms(1) nxt] canonical_iso [OF assms(4)] date_parse_iso [OF assms(4)] nxt
    by (auto simp: reschedule_def decision_time_def target_of_def)
qed

lemma fold_foreign:
  assumes "foldScheduleEvents evs seed = Inr f" and "\<forall>e \<in> set es. \<forall>d. ev_data e \<noteq> Plugin (''schedule/change'', d)"
  shows "foldScheduleEvents (evs @ es) seed = Inr f"
proof -
  have "run_steps schedule_step st es = Inr st" for st
    using assms(2) by (induction es) (auto simp: schedule_step_def split: event_data.splits prod.splits)
  then show ?thesis
    using assms(1) by (auto simp: foldScheduleEvents_def run_steps_append result_simps split: if_splits)
qed

text \<open>The delivery of a decision, onto a log with its fold.\<close>

definition delivers ::
  "drive_env \<Rightarrow> schedule_event list \<Rightarrow> int \<Rightarrow> folded_schedules \<Rightarrow> due_decision \<Rightarrow> string set \<Rightarrow> string option
   \<Rightarrow> schedule_event list \<Rightarrow> bool" where
  "delivers v evs seed f d ids t evs' \<longleftrightarrow>
     append_all evs seed (de_time v) (de_refusals v) (decision_changes d) = (evs', True)
     \<and> map ev_data evs' = map ev_data evs @ map (\<lambda>c. Plugin (''schedule/change'', encode_change c)) (decision_changes d)
     \<and> foldScheduleEvents evs' seed = Inr (f\<lparr>fs_active := rescheduled ids t (fs_active f)\<rparr>)
     \<and> (\<forall>q \<in> set (rescheduled ids t (fs_active f)). sr_id q \<in> ids \<longrightarrow> de_now v < target_of q)"

lemma rescheduled_by:
  assumes "foldScheduleEvents evs seed = Inr f" and "set rs \<subseteq> set (fs_active f)"
    and "q \<in> set (rescheduled (sr_id ` set rs) t (fs_active f))" and "sr_id q \<in> sr_id ` set rs"
  obtains r where "r \<in> set rs" and "reschedule t r = Some q"
proof -
  obtain p where p: "p \<in> set (fs_active f)" "reschedule t p = Some q" "sr_id p \<in> sr_id ` set rs"
    using rescheduled_member [OF assms(3)] assms(4) by auto
  then obtain r where r: "r \<in> set rs" "sr_id p = sr_id r" by auto
  then have "p = r" using active_ids_distinct [OF assms(1)] p(1) assms(2) by (auto simp: distinct_map dest: inj_onD)
  with p r show ?thesis by (intro that) simp_all
qed

lemma one_shot_delivered:
  assumes f: "foldScheduleEvents evs seed = Inr f" and r: "r \<in> set (fs_active f)" "\<not> is_every (sr_rule r)"
    and v: "\<forall>b \<in> set (de_refusals v). \<not> b"
  shows "\<exists>evs'. delivers v evs seed f (OneShotDue r) {sr_id r} None evs'
    \<and> r \<notin> set (rescheduled {sr_id r} None (fs_active f))"
proof -
  have gone: "is_ok (dispatchedRecord r None)" "reschedule None r = None"
    using r(2) by (cases "sr_rule r"; simp add: dispatchedRecord_def reschedule_def)+
  have none: "q \<notin> set (rescheduled {sr_id r} None (fs_active f))" if "sr_id q = sr_id r" for q
    using rescheduled_by [OF f, of "[r]" q None] r(1) gone(2) that by auto
  show ?thesis
    using dispatch_all_commit [OF f, of "[r]" None "de_refusals v" "de_time v"] r(1) gone(1) none v
    by (auto simp: delivers_def decision_changes_def)
qed

lemma batch_delivered:
  assumes f: "foldScheduleEvents evs seed = Inr f" and now: "in_range (de_now v)"
    and distinct: "distinct (map sr_id (map fst ds))"
    and due: "\<forall>r \<in> set (map fst ds). r \<in> set (fs_active f) \<and> is_every (sr_rule r) \<and> target_of r \<le> de_now v"
    and v: "\<forall>b \<in> set (de_refusals v). \<not> b"
  shows "\<exists>evs'. delivers v evs seed f (EveryDue ds (iso_string (de_now v))) ((sr_id \<circ> fst) ` set ds)
    (Some (iso_string (de_now v))) evs'"
proof -
  let ?t = "Some (iso_string (de_now v))" and ?rs = "map fst ds"
  have active: "set ?rs \<subseteq> set (fs_active f)" using due by blast
  have ids: "(sr_id \<circ> fst) ` set ds = sr_id ` set ?rs" by (simp add: image_comp)
  have ok: "\<forall>r \<in> set ?rs. is_ok (dispatchedRecord r ?t)"
    using every_dispatch_ok(1) schedule_active_ok [OF f] due now by blast
  have "de_now v < target_of q"
    if "q \<in> set (rescheduled (sr_id ` set ?rs) ?t (fs_active f))" "sr_id q \<in> sr_id ` set ?rs" for q
    using rescheduled_by [OF f active that] every_dispatch_ok(2) schedule_active_ok [OF f] due now by metis
  moreover have changes: "decision_changes (EveryDue ds (iso_string (de_now v))) = map (\<lambda>r. DispatchSchedule (sr_id r) ?t) ?rs"
    by (simp add: decision_changes_def split_def)
  moreover note dispatch_all_commit [OF f distinct active ok _ v, of "de_time v"]
  ultimately show ?thesis
    unfolding delivers_def ids changes using canonical_iso [OF now] by (auto simp: comp_def)
qed

text \<open>
  C12. What a maintenance phase does when nothing refuses: it delivers exactly the reminders of a
  complete decision on the log it finds, its dispatches, after what the inbox notes of the message,
  are accepted by the fold, a delivered one-shot is no longer active, every fixed-rate reminder it
  delivers is due again only after the decision, and nothing else changes.
\<close>

theorem drive_delivers_due:
  assumes f: "foldScheduleEvents evs seed = Inr f" and now: "in_range (de_now v)"
    and v: "isRunnable v rt" "de_followup v" "\<forall>b \<in> set (de_refusals v). \<not> b"
    and inbox: "\<forall>e \<in> set (de_noted v). \<forall>d. ev_data e \<noteq> Plugin (''schedule/change'', d)"
    and run: "drive_maintenance v evs seed rt = (rt', res)"
  shows "\<exists>d ids t. dueDecision f (de_now v) = Inr d
    \<and> dr_delivered res = (\<forall>w. d \<noteq> WaitFor w)
    \<and> dr_message res = (if dr_delivered res then Some (decision_text d) else None)
    \<and> map ev_data (dr_log res) = map ev_data (if dr_delivered res then evs @ de_noted v else evs)
        @ map (\<lambda>c. Plugin (''schedule/change'', encode_change c)) (decision_changes d)
    \<and> foldScheduleEvents (dr_log res) seed = Inr (f\<lparr>fs_active := rescheduled ids t (fs_active f)\<rparr>)
    \<and> (\<forall>q \<in> set (rescheduled ids t (fs_active f)). sr_id q \<in> ids \<longrightarrow> de_now v < target_of q)
    \<and> (case d of
         OneShotDue r \<Rightarrow> ids = {sr_id r} \<and> r \<notin> set (rescheduled ids t (fs_active f))
       | EveryDue ds _ \<Rightarrow> ids = (sr_id \<circ> fst) ` set ds
       | WaitFor _ \<Rightarrow> ids = {})"
proof -
  obtain d where d: "dueDecision f (de_now v) = Inr d" and made: "case d of
       OneShotDue r \<Rightarrow> r \<in> set (fs_active f) \<and> \<not> is_every (sr_rule r)
     | EveryDue ds acceptedAt \<Rightarrow> acceptedAt = iso_string (de_now v) \<and> distinct (map (sr_id \<circ> fst) ds)
         \<and> (\<forall>(r, s) \<in> set ds. r \<in> set (fs_active f) \<and> is_every (sr_rule r) \<and> target_of r \<le> de_now v)
     | WaitFor t \<Rightarrow> True"
    using decision_made [OF f now] by (fastforce split: due_decision.splits)
  have noted: "foldScheduleEvents (evs @ de_noted v) seed = Inr f" by (rule fold_foreign [OF f inbox])
  have fold: "readFolded evs seed rt = (rt, Some f)" "decide f (de_now v) = Some d"
    by (simp_all add: readFolded_def decide_def f d)
  show ?thesis
  proof (cases d)
    case (OneShotDue r)
    with one_shot_delivered [OF noted _ _ v(3), of r] made obtain evs' where
      "delivers v (evs @ de_noted v) seed f d {sr_id r} None evs'"
      "r \<notin> set (rescheduled {sr_id r} None (fs_active f))" by auto
    then show ?thesis
      using d run v fold
      by (intro exI [of _ d] exI [of _ "{sr_id r}"] exI [of _ None])
        (auto simp: delivers_def drive_maintenance_def OneShotDue Let_def)
  next
    case (EveryDue ds acceptedAt)
    with batch_delivered [OF noted now _ _ v(3), of ds] made obtain evs' where
      "delivers v (evs @ de_noted v) seed f d ((sr_id \<circ> fst) ` set ds) (Some (iso_string (de_now v))) evs'" by fastforce
    then show ?thesis
      using d run v fold
      by (intro exI [of _ d] exI [of _ "(sr_id \<circ> fst) ` set ds"] exI [of _ "Some (iso_string (de_now v))"])
        (auto simp: delivers_def drive_maintenance_def EveryDue Let_def)
  next
    case (WaitFor w)
    then show ?thesis
      using d f run v fold
      by (intro exI [of _ d] exI [of _ "{}"] exI [of _ None])
        (auto simp: drive_maintenance_def Let_def rescheduled_empty decision_changes_def)
  qed
qed


section \<open>Triggers and drives interleave\<close>

text \<open>
  The wait a run of the runtime is in: for its turn among the agent's transactions, for the flush
  before a drive, for the maintenance phase, for the flush after a delivery, or for the settlement of
  its own promise.
\<close>

datatype drive_phase = NoRun | AwaitTurn | AwaitFlush | AwaitMaintenance | AwaitBarrier | AwaitSettle

record runtime_system =
  ry_rt :: schedule_runtime
  ry_phase :: drive_phase
  ry_log :: "schedule_event list"
  ry_startFailed :: bool

definition requestDrive :: "bool \<Rightarrow> runtime_system \<Rightarrow> runtime_system" where
  "requestDrive started s =
     (let rt = ry_rt s in
      if rt_stopping rt \<or> rt_faulted rt then s
      else
        let rt = (clearTimer rt)\<lparr>rt_requested := True\<rparr> in
        if rt_running rt then s\<lparr>ry_rt := rt\<rparr>
        else if \<not> started then s\<lparr>ry_rt := rt, ry_startFailed := True\<rparr>
        else s\<lparr>ry_rt := rt\<lparr>rt_running := True, rt_requested := False\<rparr>, ry_phase := AwaitTurn, ry_startFailed := False\<rparr>)"

text \<open>The loop over coalesced triggers, after a drive.\<close>

definition next_drive :: "runtime_system \<Rightarrow> runtime_system" where
  "next_drive s =
     (let rt = ry_rt s in
      if rt_requested rt \<and> \<not> rt_stopping rt \<and> \<not> rt_faulted rt
      then s\<lparr>ry_rt := rt\<lparr>rt_requested := False\<rparr>, ry_phase := AwaitTurn\<rparr>
      else s\<lparr>ry_phase := AwaitSettle\<rparr>)"

definition retire :: "bool \<Rightarrow> runtime_system \<Rightarrow> runtime_system" where
  "retire started s =
     (let s = s\<lparr>ry_rt := (ry_rt s)\<lparr>rt_running := False\<rparr>, ry_phase := NoRun\<rparr>; rt = ry_rt s in
      if rt_requested rt \<and> \<not> rt_stopping rt \<and> \<not> rt_faulted rt then requestDrive started s else s)"

definition dispose :: "runtime_system \<Rightarrow> runtime_system" where
  "dispose s = s\<lparr>ry_rt := clearTimer ((ry_rt s)\<lparr>rt_stopping := True, rt_requested := False\<rparr>)\<rparr>"

definition begin_turn :: "drive_env \<Rightarrow> runtime_system \<Rightarrow> runtime_system" where
  "begin_turn v s =
     (case drive_begin v (ry_rt s) of
        (rt, True) \<Rightarrow> s\<lparr>ry_rt := rt, ry_phase := AwaitFlush\<rparr>
      | (rt, False) \<Rightarrow> next_drive (s\<lparr>ry_rt := rt\<rparr>))"

definition after_preflight :: "drive_env \<Rightarrow> int \<Rightarrow> bool \<Rightarrow> runtime_system \<Rightarrow> runtime_system" where
  "after_preflight v seed flushed s =
     (case drive_flushed v (ry_log s) seed flushed (ry_rt s) of
        (rt, EnterMaintenance) \<Rightarrow> s\<lparr>ry_rt := rt, ry_phase := AwaitMaintenance\<rparr>
      | (rt, DriveDone) \<Rightarrow> next_drive (s\<lparr>ry_rt := rt\<rparr>))"

definition after_maintenance :: "drive_env \<Rightarrow> int \<Rightarrow> runtime_system \<Rightarrow> runtime_system" where
  "after_maintenance v seed s =
     (case drive_maintenance v (ry_log s) seed (ry_rt s) of
        (rt, res) \<Rightarrow>
          (let s = s\<lparr>ry_rt := rt, ry_log := dr_log res\<rparr>
           in if dr_delivered res then s\<lparr>ry_phase := AwaitBarrier\<rparr> else next_drive s))"

definition after_barrier :: "drive_env \<Rightarrow> bool \<Rightarrow> runtime_system \<Rightarrow> runtime_system" where
  "after_barrier v flushed s =
     next_drive (if flushed \<and> isRunnable v (ry_rt s) then requestDrive True s else s)"

inductive runtime_step :: "int \<Rightarrow> runtime_system \<Rightarrow> runtime_system \<Rightarrow> bool" for seed where
  trigger: "runtime_step seed s (requestDrive started s)"
| timer: "rt_timer (ry_rt s) = Some d \<Longrightarrow> runtime_step seed s (requestDrive started (s\<lparr>ry_rt := clearTimer (ry_rt s)\<rparr>))"
| idle: "rt_idleWait (ry_rt s) \<Longrightarrow> runtime_step seed s (requestDrive started (s\<lparr>ry_rt := (ry_rt s)\<lparr>rt_idleWait := False\<rparr>\<rparr>))"
| idle_fails: "rt_idleWait (ry_rt s) \<Longrightarrow> runtime_step seed s (s\<lparr>ry_rt := (ry_rt s)\<lparr>rt_idleWait := False\<rparr>\<rparr>)"
| disposes: "runtime_step seed s (dispose s)"
| appends: "runtime_step seed s (s\<lparr>ry_log := ry_log s @ es\<rparr>)"
| turn: "ry_phase s = AwaitTurn \<Longrightarrow> runtime_step seed s (begin_turn v s)"
| preflight: "ry_phase s = AwaitFlush \<Longrightarrow> runtime_step seed s (after_preflight v seed flushed s)"
| maintains: "ry_phase s = AwaitMaintenance \<Longrightarrow> runtime_step seed s (after_maintenance v seed s)"
| barrier: "ry_phase s = AwaitBarrier \<Longrightarrow> runtime_step seed s (after_barrier v flushed s)"
| settles: "ry_phase s = AwaitSettle \<Longrightarrow> runtime_step seed s (retire started s)"
| fails: "ry_phase s \<noteq> NoRun \<Longrightarrow>
    runtime_step seed s (retire started (s\<lparr>ry_rt := (ry_rt s)\<lparr>rt_faulted := True\<rparr>\<rparr>))"

inductive runtime_reach :: "int \<Rightarrow> runtime_system \<Rightarrow> bool" for seed where
  start: "runtime_reach seed (requestDrive started
     \<lparr>ry_rt = newRuntime, ry_phase = NoRun, ry_log = evs, ry_startFailed = False\<rparr>)"
| step: "runtime_reach seed s \<Longrightarrow> runtime_step seed s s' \<Longrightarrow> runtime_reach seed s'"

definition runtime_inv :: "runtime_system \<Rightarrow> bool" where
  "runtime_inv s \<longleftrightarrow>
     (let rt = ry_rt s in
      (rt_running rt \<longleftrightarrow> ry_phase s \<noteq> NoRun)
      \<and> (rt_requested rt \<longrightarrow> rt_running rt \<or> rt_faulted rt \<or> ry_startFailed s)
      \<and> (rt_stopping rt \<longrightarrow> \<not> rt_requested rt)
      \<and> (\<forall>d. rt_timer rt = Some d \<longrightarrow> 0 < d \<and> d \<le> MAX_TIMER_DELAY_MS)
      \<and> (rt_stopping rt \<longrightarrow> rt_timer rt = None))"

lemma requestDrive_inv: "runtime_inv s \<Longrightarrow> runtime_inv (requestDrive started s)"
  by (auto simp: runtime_inv_def requestDrive_def clearTimer_def Let_def)

lemma next_drive_inv: "runtime_inv s \<Longrightarrow> ry_phase s \<noteq> NoRun \<Longrightarrow> runtime_inv (next_drive s)"
  by (auto simp: runtime_inv_def next_drive_def Let_def)

lemma next_target_future: "next_target f now = Some t \<Longrightarrow> now < t"
  using next_target_spec [of f now] by blast

lemma decide_wait: "decide f now = Some (WaitFor w) \<Longrightarrow> w = next_target f now"
  by (auto simp: decide_def dueDecision_def rbind_def Let_def split: sum.splits list.splits if_splits)

lemma arm_wait_inv:
  "runtime_inv s \<Longrightarrow> \<not> rt_stopping (ry_rt s) \<Longrightarrow> decide f now = Some (WaitFor w) \<Longrightarrow>
   runtime_inv (s\<lparr>ry_rt := arm_wait w now (ry_rt s)\<rparr>)"
  using decide_wait [of f now w] next_target_future [of f now]
  by (auto simp: runtime_inv_def arm_wait_def arm_def MAX_TIMER_DELAY_MS_def Let_def split: option.split)


lemma runtime_inv_fault: "runtime_inv s \<Longrightarrow> runtime_inv (s\<lparr>ry_rt := (ry_rt s)\<lparr>rt_faulted := True\<rparr>\<rparr>)"
  and runtime_inv_clear: "runtime_inv s \<Longrightarrow> runtime_inv (s\<lparr>ry_rt := clearTimer (ry_rt s)\<rparr>)"
  and runtime_inv_idle: "runtime_inv s \<Longrightarrow> runtime_inv (s\<lparr>ry_rt := (ry_rt s)\<lparr>rt_idleWait := b\<rparr>\<rparr>)"
  and runtime_inv_log: "runtime_inv (s\<lparr>ry_log := l\<rparr>) = runtime_inv s"
  and runtime_inv_phase: "p \<noteq> NoRun \<Longrightarrow> ry_phase s \<noteq> NoRun \<Longrightarrow> runtime_inv (s\<lparr>ry_phase := p\<rparr>) = runtime_inv s"
  by (auto simp: runtime_inv_def clearTimer_def Let_def)

lemma runtime_inv_same: "runtime_inv (s\<lparr>ry_rt := ry_rt s\<rparr>) = runtime_inv s"
  by (simp add: runtime_inv_def)

lemma drive_flushed_inv:
  assumes "runtime_inv s" and "drive_flushed v evs seed flushed (ry_rt s) = (rt, next)"
  shows "runtime_inv (s\<lparr>ry_rt := rt\<rparr>)"
  using assms runtime_inv_fault [OF assms(1)] runtime_inv_idle [OF assms(1), of True] arm_wait_inv [OF assms(1)]
  by (auto simp: drive_flushed_def readFolded_def waitForIdle_def isRunnable_def runtime_inv_same
      split: if_splits sum.splits option.splits due_decision.splits)

lemma drive_maintenance_inv:
  assumes "runtime_inv s" and "drive_maintenance v evs seed (ry_rt s) = (rt, res)"
  shows "runtime_inv (s\<lparr>ry_rt := rt\<rparr>)"
  using assms runtime_inv_fault [OF assms(1)] runtime_inv_clear [OF runtime_inv_fault [OF assms(1)]] arm_wait_inv [OF assms(1)]
  by (auto simp: drive_maintenance_def readFolded_def isRunnable_def runtime_inv_same Let_def
      split: if_splits sum.splits option.splits due_decision.splits prod.splits bool.splits)

lemma retire_inv: "runtime_inv s \<Longrightarrow> runtime_inv (retire started s)"
  by (auto simp: runtime_inv_def retire_def requestDrive_def clearTimer_def Let_def)

lemma runtime_step_inv: "runtime_step seed s s' \<Longrightarrow> runtime_inv s \<Longrightarrow> runtime_inv s'"
proof (induction rule: runtime_step.induct)
  case (disposes s)
  then show ?case by (auto simp: runtime_inv_def dispose_def clearTimer_def Let_def)
next
  case (turn s v)
  then show ?case
    using runtime_inv_clear next_drive_inv
    by (auto simp: begin_turn_def drive_begin_def runtime_inv_phase split: bool.splits)
next
  case (preflight s v flushed)
  obtain rt n where r: "drive_flushed v (ry_log s) seed flushed (ry_rt s) = (rt, n)" by fastforce
  show ?case
    using drive_flushed_inv [OF preflight(2) r] preflight(1)
    by (cases n) (simp_all add: after_preflight_def r next_drive_inv runtime_inv_phase)
next
  case (maintains s v)
  obtain rt res where r: "drive_maintenance v (ry_log s) seed (ry_rt s) = (rt, res)" by fastforce
  show ?case
    using drive_maintenance_inv [OF maintains(2) r] maintains(1)
    by (simp add: after_maintenance_def r Let_def next_drive_inv runtime_inv_phase runtime_inv_log)
next
  case (barrier s v flushed)
  have "ry_phase (requestDrive True s) \<noteq> NoRun"
    using barrier by (simp add: requestDrive_def Let_def)
  then show ?case using barrier requestDrive_inv next_drive_inv by (simp add: after_barrier_def)
qed (simp_all add: requestDrive_inv runtime_inv_clear runtime_inv_idle runtime_inv_log retire_inv runtime_inv_fault)

lemma runtime_reach_inv: "runtime_reach seed s \<Longrightarrow> runtime_inv s"
proof (induction rule: runtime_reach.induct)
  case (start started evs)
  show ?case by (rule requestDrive_inv) (simp add: runtime_inv_def newRuntime_def Let_def)
qed (rule runtime_step_inv)



section \<open>Witnesses\<close>

lemma sample_due: "target_of sample_reminder = 0" "\<not> is_every (sr_rule sample_reminder)"
  by (simp_all add: target_of_def sample_reminder_def sample_target) (simp add: sample_record_def)

theorem due_decision_complete_witness:
  "\<exists>d. dueDecision created_fold 1000 = Inr d \<and> (\<forall>t. d \<noteq> WaitFor t)"
proof -
  have "in_range 1000" by (rule zero_in_range) simp_all
  note complete = due_decision_complete [OF created_log_folds this]
  show ?thesis
  proof (rule ccontr)
    assume "\<not> ?thesis"
    then have "\<exists>t. dueDecision created_fold 1000 = Inr (WaitFor t) \<and> (\<forall>q \<in> set (fs_active created_fold). 1000 < target_of q)"
      using complete by (elim exE conjE) (auto split: due_decision.split_asm)
    then show False using sample_due(1) by (simp add: created_fold_def)
  qed
qed

definition sample_drive :: drive_env where
  "sample_drive = \<lparr>de_live = True, de_now = 1000, de_busy = False, de_followup = True, de_noted = [], de_refusals = [], de_time = 1000\<rparr>"

theorem drive_delivers_due_witness:
  "foldScheduleEvents (dr_log (snd (drive_maintenance sample_drive created_log 0 newRuntime))) 0
    = Inr (created_fold\<lparr>fs_active := []\<rparr>)"
proof -
  obtain rt res where run: "drive_maintenance sample_drive created_log 0 newRuntime = (rt, res)" by fastforce
  have d: "dueDecision created_fold 1000 = Inr (OneShotDue sample_reminder)"
    using sample_due by (simp add: dueDecision_def due_records_def created_fold_def)
  have "isRunnable sample_drive newRuntime" "in_range (de_now sample_drive)" "de_followup sample_drive"
    "\<forall>b \<in> set (de_refusals sample_drive). \<not> b"
    "\<forall>e \<in> set (de_noted sample_drive). \<forall>d. ev_data e \<noteq> Plugin (''schedule/change'', d)"
    by (simp_all add: sample_drive_def isRunnable_def newRuntime_def zero_in_range)
  from drive_delivers_due [OF created_log_folds this(2,1,3,4,5) run] obtain t where
    "foldScheduleEvents (dr_log res) 0 = Inr (created_fold\<lparr>fs_active := rescheduled {sr_id sample_reminder} t (fs_active created_fold)\<rparr>)"
    "sample_reminder \<notin> set (rescheduled {sr_id sample_reminder} t (fs_active created_fold))"
    "\<forall>q \<in> set (rescheduled {sr_id sample_reminder} t (fs_active created_fold)).
      sr_id q \<in> {sr_id sample_reminder} \<longrightarrow> 1000 < target_of q"
    using d by (auto simp: sample_drive_def)
  moreover have "reschedule t sample_reminder = None" for t
    using sample_due(2) by (cases "sr_rule sample_reminder") (auto simp: reschedule_def dispatchedRecord_def)
  ultimately show ?thesis by (simp add: run created_fold_def)
qed


end
