(* ===== verification/Spec2Isabelle.thy ===== *)
theory Spec2Isabelle imports SessionStore ChunkRows BlockAssembler RetryPolicy GoalService Inbox TeamBoard AgentDriver TokenMeter ToolPairing CompactRuns EngineCorrect ScheduleTools begin

text \<open>
  DeepSeek Harness (dsh): the verified core of the agent harness.

  \<^bold>\<open>The program.\<close> The harness runs agents. An agent is a session, an append-only log of events,
  with a driver that takes pending messages from an inbox, derives a model request from the
  log, streams the model's answer into it, runs the tool calls the answer asks for, and records
  their results. Everything the model ever saw is a fold of the log: the surface (the ordered
  entries a request is made of, with ranges replaced by compaction), the request header and the
  derived messages. Plugins keep their own state the same way, as replay folds of the events
  they append: goals, agent teams, the inbox, retries, reminders. Sessions live in a store that announces
  them and publishes their events; a companion checks every event against a trace invariant
  before it is committed; a session that was cut off by a crash is repaired when it is loaded.

  \<^bold>\<open>The theories\<close> (paths under src/packages).
  \<^item> \<open>Prelude\<close>: results of code that throws (\<open>'e + 'a\<close>), strict replay folds, the contracts of
    a fold (\<open>fold_invariant\<close>, \<open>fold_history\<close>) and of a cache that follows a log (\<open>log_view\<close>), and
    lemmas on lists. \<open>Json\<close>: JSON values and doubles' rounding of integers. \<open>Doubles\<close>: numbers with
    NaN and the infinities. \<open>Effects\<close>: programs that wait, with a weakest-precondition calculus.
  \<^item> \<open>SessionTypes\<close>: messages, blocks, events (llm/llm/src, core/session/src/types.ts).
    \<open>Surface\<close> and \<open>SurfaceManager\<close>: core/session/src/surface.ts, the whole-log fold and the
    incremental manager. \<open>RequestHeaders\<close>: request-header.ts. \<open>ChunkRows\<close>: chunk-rows.ts.
    \<open>SessionTrace\<close>: invariant.ts. \<open>Repair\<close>: repair.ts. \<open>SessionLog\<close>, \<open>SessionRecovery\<close> and
    \<open>SessionStore\<close>: the classes \<open>Session\<close> and \<open>SessionStore\<close> of index.ts, with the companion.
  \<^item> \<open>BlockAssembler\<close>: llm/llm/src/assembler.ts. \<open>RetryPolicy\<close>: llm/llm/src/retry-policy.ts and
    llm/llm-retry/src.
  \<^item> \<open>Goal\<close> and \<open>GoalService\<close>: goal/goal/src. \<open>Inbox\<close>: core/agent/src/inbox.ts and
    consumed-work.ts. \<open>TaskGraph\<close>, \<open>TeamFold\<close> and \<open>TeamBoard\<close>: experimental/agent-team/src.
  \<^item> \<open>RuntimeContext\<close>, \<open>LoopWorld\<close>, \<open>ToolCalls\<close>, \<open>ToolGroup\<close>, \<open>AgentLoop\<close>, \<open>LoopKeeps\<close>,
    \<open>AgentDriver\<close>: core/agent-loop/src, the driver that composes the components above.
  \<^item> \<open>TokenMeter\<close>: llm/token-meter/src (estimate.ts, surface-fold.ts, surface-projection.ts, index.ts).
    \<open>CompactTrace\<close>: compaction/compaction/src/invariant.ts and types.ts. \<open>ToolPairing\<close>: tool-pairing.ts
    beside it. \<open>PruneContent\<close> and \<open>ToolPruner\<close>: compaction/compaction-tool-result-pruner/src.
    \<open>CompactConfig\<close>, \<open>CompactRegion\<close> and \<open>CompactEngine\<close>: config.ts, region.ts with summarizer.ts, and
    index.ts of compaction/compaction-basic/src; \<open>CompactCorrect\<close>, \<open>CompactRuns\<close> and \<open>EngineCorrect\<close>
    hold what is proved of them. \<open>SurfaceSteps\<close>: the cases of one step of the surface fold.
  \<^item> \<open>Calendar\<close>: the proleptic Gregorian calendar behind the host's dates. \<open>ScheduleTime\<close>, \<open>Schedule\<close>
    and \<open>ScheduleFold\<close>: schedule/schedule/src/domain.ts and types.ts, the instants and local times of
    reminders, their log and what an accepted log says of their histories. \<open>ScheduleRuntime\<close>:
    runtime.ts. \<open>ScheduleTools\<close>: tools.ts, invariant.ts and the framing of due reminders.

  \<^bold>\<open>State and operations.\<close> A class is a record of its fields (\<open>session\<close>, \<open>manager\<close>,
  \<open>assembler\<close>, \<open>goal_cache\<close>, \<open>inbox\<close>, \<open>loop_world\<close>), a method a function that returns the record
  updated; a method that throws returns \<open>Inl\<close> with a constructor per message, and where it leaves
  the object changed when it throws, the changed object too. The event map of the source is
  open to declaration merging: \<open>Plugin p\<close> carries the payload of the events of other packages, and
  each plugin's theory fixes the type of \<open>p\<close>. Strings are lists of characters, numbers are
  integers or rationals with the test of the safe range and the rounding to doubles where the
  code depends on them, a \<open>Map\<close> is an insertion-ordered association list where its order can be
  seen. Promises are steps: an \<open>await\<close> consumes one entry of a script that says what other code
  did in the meantime (it may send, cancel, wake the driver and append events of its own) and
  what the awaited service answered. Code outside the repository or behind the plugin framework
  (random identities, clocks, texts of errors, the byte length of a string, hooks, tools, the
  model) is an argument.

  \<^bold>\<open>What the lemmas show.\<close>
  \<^item> The log: a surface fold is exact and prefix-closed, the incremental manager and the caches
    of a session agree with the whole-log folds after every append, an append that is refused
    leaves the session as it was, and a seed is inspected event by event before it is replayed.
  \<^item> The companion: accepted logs nest steps in turns, answer every call once, and are closed by
    repair, which adds one result per unanswered call and which the companion and the surface
    accept; a crash at any point is recovered from when the stored events have the shape the
    constructor inspects and name their tool calls (\<open>unnamed_call_unrecoverable\<close>: not otherwise).
  \<^item> Storage: the packing of chunks into rows is inverted by the decoder, whatever the rows.
  \<^item> The driver: whatever the services answer and other code does while it waits, each turn and
    step it opens is closed, its log stays accepted, requests are derived from the log, the
    results of tool calls are committed in model order, and it comes to rest.
  \<^item> The plugins: what a service commits is accepted by its own strict replay fold and its cache is
    that fold (goals, team board, inbox), whether the session takes the append or refuses it; a team's task graph is accepted exactly when it has no
    cycle and no dangling edge; retries are chained and bounded.
  \<^item> Compaction: the meter's measure is a sum over the current surface and never below the fixed
    estimate, the cache of tool pairings agrees with the count of open calls at each cut, a compaction
    replaces exactly the range it was asked for, one that fails appends one end with its error and
    moves no surface node, or none if the session refuses the end, pruning replaces exactly the over-long results, and the engine ends below its
    threshold, retries at most as often as configured and never breaks the request it serves.
  \<^item> Reminders: durable instants correspond to their canonical texts, a local time resolves to the
    first instant that shows it, a fixed-rate decision selects the latest due occurrence, no
    occurrence is dispatched twice, a decision on an accepted log is complete and its dispatches are
    accepted, the runtime loses no trigger, a tool reports a reminder only when it is committed, and
    the framing of a reminder cannot be escaped by its text.

  \<^bold>\<open>Fuel.\<close> The driver's loops run on the length of the script plus one, a loop over calls on the
  length of its list plus one: each round consumes an entry, and the theorems of \<open>ToolGroup\<close> and
  \<open>AgentDriver\<close> show that no budget runs out. All other functions terminate by their recursion.

  \<^bold>\<open>Simplifications.\<close> Observers of an append run at the driver's next wait. The driver's append
  checks the trace invariant; the surface check of the same append is \<open>SessionLog\<close>'s. A session
  is not appended to while it appends (the source refuses it). The journal of a team runs one
  transaction at a time. Chunk indices and retry numbers are natural numbers. A character is a code
  point. A compaction engine serves one agent and its session; its log messages are left out, and
  the instruction text of a summary and fresh identities are arguments. Of the time zones the model
  knows what the host's formatter answers; what is proved of local times takes a zone whose offset changes at
  most once in the days around the local time. Reminder drives see flushes, the clock, cancellation
  and the agent's maintenance phase as answers.

  \<^bold>\<open>Not modelled.\<close> The tool runtime, plugin scopes and prompt assembly, persistence and storage,
  model adapters, the usage projections of the token meter, commands, subagents, jobs, workflows, access to the operating system, servers,
  protocols, the web client and the type generator: input and output, third-party clients or
  glue over the plugin framework. Their part in the modelled code is an argument of it.
\<close>

end
